(* ===== verification/SF_Prelude.thy ===== *)
theory SF_Prelude
  imports Main "HOL-Library.Sublist" "HOL-Library.Char_ord" "HOL-Library.List_Lexorder" "HOL-Library.Multiset"
begin

text \<open>
  What the components of StageFreight share: Go's string primitives on byte strings
  (\<open>strings.HasPrefix\<close>, \<open>strings.TrimSpace\<close>, \<open>strings.Split\<close>, \<open>strings.Join\<close>,
  \<open>strconv.Itoa\<close>, ...), \<open>sort.Slice\<close> with a comparator, and the generic lemmas on
  lists and maps that the component proofs use.

  A Go string is a list of bytes, so \<^typ>\<open>string\<close> (a list of 8-bit characters) is its
  model and \<^const>\<open>length\<close> is \<open>len\<close>. Case folding and white space are those of the ASCII
  range: on strings that hold only ASCII bytes they agree with the \<open>strings\<close> package.
\<close>

named_theorems go_simps \<open>unfolding equations of the string primitives\<close>

section \<open>Results\<close>

text \<open>A function that returns \<open>(T, error)\<close> is modelled by \<open>error + T\<close>.\<close>

fun res_bind :: "'e + 'a \<Rightarrow> ('a \<Rightarrow> 'e + 'b) \<Rightarrow> 'e + 'b" where
  "res_bind (Inl e) f = Inl e"
| "res_bind (Inr a) f = f a"

lemma res_bind_Inr_iff:
  "res_bind r f = Inr b \<longleftrightarrow> (\<exists>a. r = Inr a \<and> f a = Inr b)"
  by (cases r) auto

lemma res_bind_Inl_iff:
  "res_bind r f = Inl e \<longleftrightarrow> r = Inl e \<or> (\<exists>a. r = Inr a \<and> f a = Inl e)"
  by (cases r) auto

section \<open>Byte strings\<close>

definition has_prefix :: "string \<Rightarrow> string \<Rightarrow> bool" where
  "has_prefix s p \<longleftrightarrow> take (length p) s = p"

definition has_suffix :: "string \<Rightarrow> string \<Rightarrow> bool" where
  "has_suffix s p \<longleftrightarrow> has_prefix (rev s) (rev p)"

definition trim_prefix :: "string \<Rightarrow> string \<Rightarrow> string" where
  "trim_prefix s p = (if has_prefix s p then drop (length p) s else s)"

definition trim_suffix :: "string \<Rightarrow> string \<Rightarrow> string" where
  "trim_suffix s p = (if has_suffix s p then take (length s - length p) s else s)"

definition is_digit :: "char \<Rightarrow> bool" where
  "is_digit c \<longleftrightarrow> (48 :: nat) \<le> of_char c \<and> of_char c \<le> (57 :: nat)"

definition is_upper :: "char \<Rightarrow> bool" where
  "is_upper c \<longleftrightarrow> (65 :: nat) \<le> of_char c \<and> of_char c \<le> (90 :: nat)"

definition is_lower :: "char \<Rightarrow> bool" where
  "is_lower c \<longleftrightarrow> (97 :: nat) \<le> of_char c \<and> of_char c \<le> (122 :: nat)"

definition is_space :: "char \<Rightarrow> bool" where
  "is_space c \<longleftrightarrow> of_char c = (32 :: nat) \<or> ((9 :: nat) \<le> of_char c \<and> of_char c \<le> (13 :: nat))"

definition is_ascii :: "char \<Rightarrow> bool" where
  "is_ascii c \<longleftrightarrow> of_char c < (128 :: nat)"

definition lower_char :: "char \<Rightarrow> char" where
  "lower_char c = (if is_upper c then char_of (of_char c + 32 :: nat) else c)"

definition upper_char :: "char \<Rightarrow> char" where
  "upper_char c = (if is_lower c then char_of (of_char c - 32 :: nat) else c)"

definition to_lower :: "string \<Rightarrow> string" where
  "to_lower s = map lower_char s"

definition to_upper :: "string \<Rightarrow> string" where
  "to_upper s = map upper_char s"

definition trim_space :: "string \<Rightarrow> string" where
  "trim_space s = rev (dropWhile is_space (rev (dropWhile is_space s)))"

definition equal_fold :: "string \<Rightarrow> string \<Rightarrow> bool" where
  "equal_fold a b \<longleftrightarrow> to_lower a = to_lower b"

text \<open>\<open>strings.Split(s, sep)\<close> for a separator of one byte.\<close>

fun split_on :: "char \<Rightarrow> string \<Rightarrow> string list" where
  "split_on sep [] = [[]]"
| "split_on sep (c # cs) =
     (if c = sep then [] # split_on sep cs
      else (case split_on sep cs of w # ws \<Rightarrow> (c # w) # ws | [] \<Rightarrow> [[c]]))"

fun join :: "string \<Rightarrow> string list \<Rightarrow> string" where
  "join sep [] = []"
| "join sep [w] = w"
| "join sep (w # ws) = w @ sep @ join sep ws"

text \<open>
  \<open>strings.IndexByte\<close> followed by the two slices around the byte (\<open>strings.Cut\<close> for a
  separator of one byte): \<^const>\<open>None\<close> when the byte does not occur.
\<close>

definition cut_at :: "char \<Rightarrow> string \<Rightarrow> (string \<times> string) option" where
  "cut_at sep s =
     (case dropWhile (\<lambda>c. c \<noteq> sep) s of
        [] \<Rightarrow> None
      | _ # rest \<Rightarrow> Some (takeWhile (\<lambda>c. c \<noteq> sep) s, rest))"

text \<open>\<open>strings.LastIndexByte\<close> and the two slices around it.\<close>

definition cut_last :: "char \<Rightarrow> string \<Rightarrow> (string \<times> string) option" where
  "cut_last sep s =
     (case cut_at sep (rev s) of
        None \<Rightarrow> None
      | Some (b, a) \<Rightarrow> Some (rev a, rev b))"

lemma has_prefix_append [simp]: "has_prefix (p @ s) p"
  by (simp add: has_prefix_def)

lemma has_prefix_Nil [simp]: "has_prefix s []"
  by (simp add: has_prefix_def)

lemma has_prefix_iff: "has_prefix s p \<longleftrightarrow> (\<exists>r. s = p @ r)"
  by (metis append_eq_conv_conj append_take_drop_id has_prefix_def)

lemma has_prefix_singleton: "has_prefix s [c] \<longleftrightarrow> (\<exists>r. s = c # r)"
  by (simp add: has_prefix_iff)

lemma has_suffix_append [simp]: "has_suffix (s @ p) p"
  by (simp add: has_suffix_def)

lemma trim_suffix_append [simp]: "trim_suffix (s @ p) p = s"
  by (simp add: trim_suffix_def)

lemma split_on_not_Nil [simp]: "split_on sep s \<noteq> []"
  by (induction s) (auto split: list.splits)

lemma split_on_append: "split_on sep (a @ sep # b) = split_on sep a @ split_on sep b"
proof (induction a)
  case (Cons c a)
  then show ?case using split_on_not_Nil [of sep a] by (cases "split_on sep a") (auto split: list.splits)
qed simp

lemma join_split_on: "join [sep] (split_on sep s) = s"
proof (induction s)
  case Nil
  then show ?case by simp
next
  case (Cons c cs)
  obtain w ws where ws: "split_on sep cs = w # ws"
    using split_on_not_Nil by (metis neq_Nil_conv)
  with Cons.IH show ?case by (cases ws) auto
qed

lemma split_on_no_sep: "w \<in> set (split_on sep s) \<Longrightarrow> sep \<notin> set w"
  by (induction s arbitrary: w) (auto split: if_splits list.splits)

lemma cut_at_Some: "cut_at sep s = Some (a, b) \<longleftrightarrow> s = a @ sep # b \<and> sep \<notin> set a"
proof
  assume "cut_at sep s = Some (a, b)"
  then obtain x where d: "dropWhile (\<lambda>c. c \<noteq> sep) s = x # b"
    and a: "a = takeWhile (\<lambda>c. c \<noteq> sep) s"
    by (auto simp: cut_at_def split: list.splits)
  from d have "x = sep" by (simp add: dropWhile_eq_Cons_conv)
  with d a show "s = a @ sep # b \<and> sep \<notin> set a"
    by (metis (mono_tags, lifting) set_takeWhileD takeWhile_dropWhile_id)
next
  assume "s = a @ sep # b \<and> sep \<notin> set a"
  then show "cut_at sep s = Some (a, b)"
    by (auto simp: cut_at_def dropWhile_append takeWhile_append)
qed

lemma cut_at_None: "cut_at sep s = None \<longleftrightarrow> sep \<notin> set s"
proof (cases "sep \<in> set s")
  case True
  then obtain a b where "s = a @ sep # b" "sep \<notin> set a"
    by (meson split_list_first)
  then have "cut_at sep s = Some (a, b)" by (simp add: cut_at_Some)
  with True show ?thesis by simp
next
  case False
  then have "dropWhile (\<lambda>c. c \<noteq> sep) s = []" by (auto simp: dropWhile_eq_Nil_conv)
  then have "cut_at sep s = None" by (simp only: cut_at_def list.case)
  with False show ?thesis by simp
qed

lemma trim_space_Nil [simp]: "trim_space [] = []"
  by (simp add: trim_space_def)

lemma dropWhile_idem_last:
  assumes "xs \<noteq> []" "\<not> P (last xs)"
  shows "dropWhile P (rev xs) = rev xs"
  using assms by (cases xs rule: rev_cases) auto

lemma trim_space_idem [simp]: "trim_space (trim_space s) = trim_space s"
proof -
  let ?l = "dropWhile is_space s"
  let ?t = "dropWhile is_space (rev ?l)"
  have right: "dropWhile is_space ?t = ?t"
    by (metis dropWhile_eq_Nil_conv dropWhile_eq_self_iff hd_dropWhile)
  have left: "dropWhile is_space (rev ?t) = rev ?t"
  proof (cases "?t = []")
    case False
    obtain pre where pre: "rev ?l = pre @ ?t"
      by (metis takeWhile_dropWhile_id)
    then have "last ?t = last (rev ?l)" using False by (metis last_appendR)
    also have "\<dots> = hd ?l" using False by (metis dropWhile.simps(1) hd_rev rev_rev_ident)
    finally have "\<not> is_space (last ?t)"
      using False by (metis dropWhile.simps(1) hd_dropWhile rev.simps(1))
    with False show ?thesis by (rule dropWhile_idem_last)
  qed (simp only: rev.simps dropWhile.simps)
  show ?thesis
    unfolding trim_space_def by (simp only: left rev_rev_ident right)
qed

lemma lower_char_idem [simp]: "lower_char (lower_char c) = lower_char c"
  by (simp add: lower_char_def is_upper_def)

lemma to_lower_idem [simp]: "to_lower (to_lower s) = to_lower s"
  by (simp add: to_lower_def)

lemma is_space_lower_char [simp]: "is_space (lower_char c) = is_space c"
  by (simp add: lower_char_def is_space_def is_upper_def)

lemma dropWhile_to_lower: "dropWhile is_space (map lower_char s) = map lower_char (dropWhile is_space s)"
  by (induction s) auto

lemma trim_space_to_lower: "trim_space (to_lower s) = to_lower (trim_space s)"
  by (simp add: trim_space_def to_lower_def dropWhile_to_lower rev_map)

lemma equal_fold_refl [simp]: "equal_fold a a"
  by (simp add: equal_fold_def)

lemma equal_fold_sym: "equal_fold a b \<Longrightarrow> equal_fold b a"
  by (simp add: equal_fold_def)

section \<open>Decimal numerals\<close>

text \<open>\<open>strconv.Itoa\<close> (and the \<open>%d\<close> verb) on non-negative and on signed integers.\<close>

definition digit_char :: "nat \<Rightarrow> char" where
  "digit_char d = char_of (48 + d)"

fun itoa_nat :: "nat \<Rightarrow> string" where
  "itoa_nat n = (if n < 10 then [digit_char n] else itoa_nat (n div 10) @ [digit_char (n mod 10)])"

declare itoa_nat.simps [simp del]

definition itoa :: "int \<Rightarrow> string" where
  "itoa i = (if i < 0 then CHR ''-'' # itoa_nat (nat (- i)) else itoa_nat (nat i))"

definition digit_val :: "char \<Rightarrow> nat" where
  "digit_val c = of_char c - 48"

text \<open>The value of a string of digits, most significant first (the accumulating loop
  \<open>n = n*10 + int(c-'0')\<close>).\<close>

definition digits_val :: "string \<Rightarrow> nat" where
  "digits_val s = foldl (\<lambda>n c. n * 10 + digit_val c) 0 s"

lemma is_digit_digit_char [simp]: "d < 10 \<Longrightarrow> is_digit (digit_char d)"
  by (simp add: is_digit_def digit_char_def)

lemma digit_val_digit_char [simp]: "d < 10 \<Longrightarrow> digit_val (digit_char d) = d"
  by (simp add: digit_val_def digit_char_def)

lemma digits_val_snoc [simp]: "digits_val (s @ [c]) = digits_val s * 10 + digit_val c"
  by (simp add: digits_val_def)

lemma digits_val_itoa_nat [simp]: "digits_val (itoa_nat n) = n"
proof (induction n rule: itoa_nat.induct)
  case (1 n)
  show ?case
  proof (cases "n < 10")
    case True
    then show ?thesis by (simp add: itoa_nat.simps [of n] digits_val_def)
  next
    case False
    with "1.IH" show ?thesis by (simp add: itoa_nat.simps [of n])
  qed
qed

lemma itoa_nat_inj: "itoa_nat m = itoa_nat n \<longleftrightarrow> m = n"
  by (metis digits_val_itoa_nat)

lemma itoa_nat_digits: "c \<in> set (itoa_nat n) \<Longrightarrow> is_digit c"
proof (induction n rule: itoa_nat.induct)
  case (1 n)
  then show ?case
    by (cases "n < 10") (auto simp: itoa_nat.simps [of n])
qed

lemma itoa_nat_not_Nil [simp]: "itoa_nat n \<noteq> []"
  by (simp add: itoa_nat.simps [of n])

section \<open>Sorting with a comparator\<close>

text \<open>
  \<open>sort.Slice(xs, less)\<close> and \<open>sort.SliceStable(xs, less)\<close>. The stable result is
  computed by insertion; \<open>sort.Slice\<close> promises only a sorted permutation, of which the
  stable one is an instance (and the one Go's own insertion sort gives for short slices).
\<close>

fun insert_by :: "('a \<Rightarrow> 'a \<Rightarrow> bool) \<Rightarrow> 'a \<Rightarrow> 'a list \<Rightarrow> 'a list" where
  "insert_by lt x [] = [x]"
| "insert_by lt x (y # ys) = (if lt y x then y # insert_by lt x ys else x # y # ys)"

definition sort_slice :: "('a \<Rightarrow> 'a \<Rightarrow> bool) \<Rightarrow> 'a list \<Rightarrow> 'a list" where
  "sort_slice lt xs = foldr (insert_by lt) xs []"

lemma mset_insert_by [simp]: "mset (insert_by lt x ys) = add_mset x (mset ys)"
  by (induction ys) auto

lemma mset_sort_slice [simp]: "mset (sort_slice lt xs) = mset xs"
  unfolding sort_slice_def by (induction xs) auto

lemma set_sort_slice [simp]: "set (sort_slice lt xs) = set xs"
  by (metis mset_sort_slice set_mset_mset)

lemma length_sort_slice [simp]: "length (sort_slice lt xs) = length xs"
  by (metis mset_sort_slice size_mset)

lemma distinct_sort_slice [simp]: "distinct (sort_slice lt xs) = distinct xs"
  by (metis mset_eq_imp_distinct_iff mset_sort_slice)

lemma sort_slice_Nil_iff [simp]: "sort_slice lt xs = [] \<longleftrightarrow> xs = []"
  by (metis length_0_conv length_sort_slice)

lemma sort_slice_empty [simp]: "sort_slice lt [] = []"
  by simp

text \<open>
  The contract of a comparator: what \<open>sort.Slice\<close> asks of \<open>less\<close>, a strict weak order.
  Each comparator of the program interprets this locale.
\<close>

locale comparator =
  fixes lt :: "'a \<Rightarrow> 'a \<Rightarrow> bool"
  assumes less_asym: "lt a b \<Longrightarrow> \<not> lt b a"
    and less_cotrans: "lt a b \<Longrightarrow> lt a c \<or> lt c b"
begin

lemma not_less_trans: "\<not> lt b a \<Longrightarrow> \<not> lt c b \<Longrightarrow> \<not> lt c a"
  using less_cotrans by blast

lemma less_irrefl: "\<not> lt a a"
  using less_asym by blast

lemma less_trans: "lt a b \<Longrightarrow> lt b c \<Longrightarrow> lt a c"
  using less_cotrans less_asym by blast

abbreviation ordered :: "'a list \<Rightarrow> bool" where
  "ordered \<equiv> sorted_wrt (\<lambda>a b. \<not> lt b a)"

lemma ordered_insert_by: "ordered ys \<Longrightarrow> ordered (insert_by lt x ys)"
proof (induction ys)
  case Nil
  then show ?case by simp
next
  case (Cons y ys)
  have in_set: "set (insert_by lt x ys) = insert x (set ys)"
    by (metis mset_insert_by set_mset_add_mset_insert set_mset_mset)
  show ?case
  proof (cases "lt y x")
    case True
    with Cons in_set show ?thesis by (auto dest: less_asym)
  next
    case False
    with Cons.prems show ?thesis by (auto dest: less_cotrans [of _ x y])
  qed
qed

lemma ordered_sort_slice: "ordered (sort_slice lt xs)"
  unfolding sort_slice_def by (induction xs) (auto intro: ordered_insert_by)

lemma sort_slice_nth:
  "i \<le> j \<Longrightarrow> j < length xs \<Longrightarrow> \<not> lt (sort_slice lt xs ! j) (sort_slice lt xs ! i)"
  using ordered_sort_slice [of xs] less_irrefl
  by (cases "i = j") (auto simp: sorted_wrt_iff_nth_less)

lemma sort_slice_id: "ordered xs \<Longrightarrow> sort_slice lt xs = xs"
proof (induction xs)
  case Nil
  then show ?case by simp
next
  case (Cons x xs)
  then have "sort_slice lt xs = xs" by simp
  with Cons.prems show ?case
    by (cases xs) (auto simp: sort_slice_def)
qed

text \<open>Two ordered listings of the same elements agree when the comparator separates them.\<close>

lemma ordered_unique:
  "ordered xs \<Longrightarrow> ordered ys \<Longrightarrow> mset xs = mset ys \<Longrightarrow>
    (\<And>a b. a \<in> set xs \<Longrightarrow> b \<in> set xs \<Longrightarrow> \<not> lt a b \<Longrightarrow> \<not> lt b a \<Longrightarrow> a = b) \<Longrightarrow> xs = ys"
proof (induction xs arbitrary: ys)
  case Nil
  then show ?case by simp
next
  case (Cons x xs)
  then obtain y zs where ys: "ys = y # zs" by (cases ys) auto
  have sets: "set ys = set (x # xs)" using Cons.prems(3) by (metis set_mset_mset)
  then have "y = x \<or> y \<in> set xs" "x = y \<or> x \<in> set zs" by (auto simp: ys)
  then have "\<not> lt y x" "\<not> lt x y" using Cons.prems(1,2) less_irrefl by (auto simp: ys)
  moreover have "y \<in> set (x # xs)" using sets by (auto simp: ys)
  ultimately have "x = y" using Cons.prems(4) [of x y] by simp
  with Cons ys show ?case by simp
qed

lemma sort_slice_unique:
  assumes "mset xs = mset ys" "\<And>a b. a \<in> set xs \<Longrightarrow> b \<in> set xs \<Longrightarrow> \<not> lt a b \<Longrightarrow> \<not> lt b a \<Longrightarrow> a = b"
  shows "sort_slice lt xs = sort_slice lt ys"
  by (rule ordered_unique) (simp_all add: ordered_sort_slice assms)

end

text \<open>Comparators that order by a key.\<close>

lemma comparator_key: "comparator (\<lambda>a b. (k a :: 'b :: linorder) < k b)"
  by unfold_locales auto

lemma comparator_key_desc: "comparator (\<lambda>a b. (k b :: 'b :: linorder) < k a)"
  by unfold_locales auto

interpretation string_less: comparator "(<) :: string \<Rightarrow> string \<Rightarrow> bool"
  by (rule comparator_key [where k = "\<lambda>s. s"])

text \<open>\<open>sort.Strings\<close>: byte-wise lexicographic order.\<close>

abbreviation sort_strings :: "string list \<Rightarrow> string list" where
  "sort_strings \<equiv> sort_slice (<)"

lemma sort_strings_perm:
  assumes "mset xs = mset ys"
  shows "sort_strings xs = sort_strings ys"
  using assms by (rule string_less.sort_slice_unique) auto

end
