(* ===== verification/Go_Regexp.thy ===== *)
theory Go_Regexp
  imports SF_Prelude
begin

text \<open>
  Go's \<open>regexp\<close> package as StageFreight uses it: \<open>regexp.Compile\<close>,
  \<open>FindStringSubmatch\<close>, \<open>MatchString\<close>, \<open>SubexpNames\<close> and \<open>QuoteMeta\<close>.

  The matchers of the program take the engine as an argument, a \<open>regexp_pkg\<close>: what they
  compute is then stated for every engine. The locale \<open>regexp_engine\<close> names the documented
  behaviour that tag templates rely on, and \<open>go_regexp\<close> is an executable engine for the
  operators the repository's own patterns use (literals, escapes, classes, \<open>.\<close>, \<open>^\<close>, \<open>$\<close>,
  \<open>*\<close>, \<open>+\<close>, \<open>?\<close> and their lazy forms, \<open>|\<close>, groups) with Go's leftmost-first
  semantics. Text is matched byte by byte, which is Go's matching on ASCII text; counted
  repetition, flags and Unicode classes are outside \<open>go_regexp\<close>.
\<close>

section \<open>The package interface\<close>

record 're regexp_pkg =
  re_compile :: "string \<Rightarrow> 're option"
  re_submatch :: "'re \<Rightarrow> string \<Rightarrow> string list option"
  re_names :: "'re \<Rightarrow> string list"

definition re_match :: "'re regexp_pkg \<Rightarrow> 're \<Rightarrow> string \<Rightarrow> bool" where
  "re_match R re s \<longleftrightarrow> re_submatch R re s \<noteq> None"

definition meta_chars :: "char list" where
  "meta_chars = [CHR 0x5C, CHR ''.'', CHR ''+'', CHR ''*'', CHR ''?'', CHR ''('', CHR '')'',
     CHR ''|'', CHR ''['', CHR '']'', CHR ''{'', CHR ''}'', CHR ''^'', CHR ''$'']"

definition quote_meta :: "string \<Rightarrow> string" where
  "quote_meta s = concat (map (\<lambda>c. if c \<in> set meta_chars then [CHR 0x5C, c] else [c]) s)"

section \<open>Anchored templates\<close>

text \<open>
  The patterns the program generates itself: a sequence of literal bytes and \<open>.+\<close>
  wildcards, each wildcard bare or a named group, between \<open>^\<close> and \<open>$\<close>.
\<close>

datatype piece = PLit char | PVar "string option"

fun piece_str :: "piece \<Rightarrow> string" where
  "piece_str (PLit c) = quote_meta [c]"
| "piece_str (PVar None) = ''.+''"
| "piece_str (PVar (Some g)) = ''(?P<'' @ g @ ''>.+)''"

definition pieces_str :: "piece list \<Rightarrow> string" where
  "pieces_str ps = concat (map piece_str ps)"

definition render_template :: "piece list \<Rightarrow> string" where
  "render_template ps = ''^'' @ pieces_str ps @ ''$''"

definition word_char :: "char \<Rightarrow> bool" where
  "word_char c \<longleftrightarrow> is_digit c \<or> is_lower c \<or> is_upper c \<or> c = CHR ''_''"

fun piece_ok :: "piece \<Rightarrow> bool" where
  "piece_ok (PLit c) = is_ascii c"
| "piece_ok (PVar None) = True"
| "piece_ok (PVar (Some g)) = (g \<noteq> [] \<and> list_all word_char g)"

fun piece_names :: "piece list \<Rightarrow> string list" where
  "piece_names [] = []"
| "piece_names (PVar (Some g) # ps) = g # piece_names ps"
| "piece_names (PLit c # ps) = piece_names ps"
| "piece_names (PVar None # ps) = piece_names ps"

definition newline :: char where
  "newline = CHR 0x0A"

text \<open>\<open>fits ps vs s\<close>: reading the wildcards of \<open>ps\<close> as \<open>vs\<close> spells \<open>s\<close>.\<close>

fun fits :: "piece list \<Rightarrow> string list \<Rightarrow> string \<Rightarrow> bool" where
  "fits [] vs s \<longleftrightarrow> vs = [] \<and> s = []"
| "fits (PLit c # ps) vs s \<longleftrightarrow> (case s of [] \<Rightarrow> False | x # s' \<Rightarrow> x = c \<and> fits ps vs s')"
| "fits (PVar g # ps) [] s \<longleftrightarrow> False"
| "fits (PVar g # ps) (v # vs) s \<longleftrightarrow>
     v \<noteq> [] \<and> newline \<notin> set v \<and> take (length v) s = v \<and> fits ps vs (drop (length v) s)"

fun named_vals :: "piece list \<Rightarrow> string list \<Rightarrow> string list" where
  "named_vals (PVar (Some g) # ps) (v # vs) = v # named_vals ps vs"
| "named_vals (PVar None # ps) (v # vs) = named_vals ps vs"
| "named_vals (PLit c # ps) vs = named_vals ps vs"
| "named_vals _ _ = []"

text \<open>
  What the documentation of \<open>regexp\<close> says of such patterns: they compile, their group names
  are the template's, they match exactly the strings they spell, and the submatches are the
  whole string followed by the values of the named wildcards.
\<close>

locale regexp_engine =
  fixes R :: "'re regexp_pkg"
  assumes template_compiles:
      "list_all piece_ok ps \<Longrightarrow> distinct (piece_names ps) \<Longrightarrow>
        \<exists>re. re_compile R (render_template ps) = Some re \<and> re_names R re = [] # piece_names ps"
    and template_complete:
      "list_all piece_ok ps \<Longrightarrow> distinct (piece_names ps) \<Longrightarrow>
        re_compile R (render_template ps) = Some re \<Longrightarrow>
        list_all is_ascii s \<Longrightarrow> fits ps vs s \<Longrightarrow> re_submatch R re s \<noteq> None"
    and template_sound:
      "list_all piece_ok ps \<Longrightarrow> distinct (piece_names ps) \<Longrightarrow>
        re_compile R (render_template ps) = Some re \<Longrightarrow>
        list_all is_ascii s \<Longrightarrow> re_submatch R re s = Some sub \<Longrightarrow>
        \<exists>vs. fits ps vs s \<and> sub = s # named_vals ps vs"
begin

lemma template_match_iff:
  assumes "list_all piece_ok ps" "distinct (piece_names ps)" "re_compile R (render_template ps) = Some re" "list_all is_ascii s"
  shows "re_match R re s \<longleftrightarrow> (\<exists>vs. fits ps vs s)"
  using template_complete [OF assms] template_sound [OF assms]
  unfolding re_match_def by blast

end

section \<open>An executable engine\<close>

datatype rx =
    REps
  | RCls bool "(char \<times> char) list"  \<comment> \<open>negated?, ranges\<close>
  | RBol
  | REol
  | RSeq rx rx
  | RAlt rx rx
  | RStar bool rx  \<comment> \<open>greedy?\<close>
  | RPlus bool rx
  | ROpt bool rx
  | RGrp nat rx

definition in_class :: "bool \<Rightarrow> (char \<times> char) list \<Rightarrow> char \<Rightarrow> bool" where
  "in_class neg rs c \<longleftrightarrow> (neg \<noteq> list_ex (\<lambda>(a, b). a \<le> c \<and> c \<le> b) rs)"

text \<open>A matching state: position, remaining text, captured groups (latest first).\<close>

type_synonym rx_state = "nat \<times> string \<times> (nat \<times> string) list"

text \<open>At most \<open>n\<close> repetitions, each of which must advance; in order of preference.\<close>

fun rx_iter :: "bool \<Rightarrow> (rx_state \<Rightarrow> rx_state list) \<Rightarrow> nat \<Rightarrow> rx_state \<Rightarrow> rx_state list" where
  "rx_iter greedy f 0 st = [st]"
| "rx_iter greedy f (Suc n) st =
     (let more = concat (map (rx_iter greedy f n) (filter (\<lambda>st'. fst st < fst st') (f st)))
      in if greedy then more @ [st] else st # more)"

primrec rx_run :: "rx \<Rightarrow> rx_state \<Rightarrow> rx_state list" where
  "rx_run REps st = [st]"
| "rx_run (RCls neg rs) st =
     (case st of (i, s, cs) \<Rightarrow>
        (case s of [] \<Rightarrow> [] | c # s' \<Rightarrow> if in_class neg rs c then [(Suc i, s', cs)] else []))"
| "rx_run RBol st = (if fst st = 0 then [st] else [])"
| "rx_run REol st = (if fst (snd st) = [] then [st] else [])"
| "rx_run (RSeq a b) st = concat (map (rx_run b) (rx_run a st))"
| "rx_run (RAlt a b) st = rx_run a st @ rx_run b st"
| "rx_run (RStar g r) st = rx_iter g (rx_run r) (length (fst (snd st))) st"
| "rx_run (RPlus g r) st =
     concat (map (\<lambda>st'. rx_iter g (rx_run r) (length (fst (snd st'))) st') (rx_run r st))"
| "rx_run (ROpt g r) st = (if g then rx_run r st @ [st] else st # rx_run r st)"
| "rx_run (RGrp n r) st =
     map (\<lambda>(j, t, cs). (j, t, (n, take (length (fst (snd st)) - length t) (fst (snd st))) # cs))
       (rx_run r st)"

definition group_text :: "(nat \<times> string) list \<Rightarrow> nat \<Rightarrow> string" where
  "group_text cs n = (case map_of cs n of None \<Rightarrow> [] | Some v \<Rightarrow> v)"

text \<open>Leftmost start first, then the first result in order of preference.\<close>

fun rx_first :: "rx \<Rightarrow> nat list \<Rightarrow> string \<Rightarrow> (nat \<times> rx_state) option" where
  "rx_first r [] s = None"
| "rx_first r (k # ks) s =
     (case rx_run r (k, drop k s, []) of
        [] \<Rightarrow> rx_first r ks s
      | st # _ \<Rightarrow> Some (k, st))"

text \<open>A compiled expression with the names of its groups (the empty string when unnamed).\<close>

definition rx_submatch :: "rx \<times> string list \<Rightarrow> string \<Rightarrow> string list option" where
  "rx_submatch re s =
     (case rx_first (fst re) [0..<Suc (length s)] s of
        None \<Rightarrow> None
      | Some (k, (j, t, cs)) \<Rightarrow>
          Some (take (j - k) (drop k s) # map (group_text cs) [1..<Suc (length (snd re))]))"

subsection \<open>The parser\<close>

fun mk_seq :: "rx list \<Rightarrow> rx" where
  "mk_seq [] = REps"
| "mk_seq [r] = r"
| "mk_seq (r # rs) = RSeq (mk_seq rs) r"

fun mk_alt :: "rx list \<Rightarrow> rx \<Rightarrow> rx" where
  "mk_alt [] r = r"
| "mk_alt (a # as) r = RAlt (mk_alt as a) r"

definition rlit :: "char \<Rightarrow> rx" where
  "rlit c = RCls False [(c, c)]"

fun is_repeat :: "rx \<Rightarrow> bool" where
  "is_repeat (RStar _ _) = True"
| "is_repeat (RPlus _ _) = True"
| "is_repeat (ROpt _ _) = True"
| "is_repeat _ = False"

definition digit_class :: "(char \<times> char) list" where
  "digit_class = [(CHR ''0'', CHR ''9'')]"

definition word_class :: "(char \<times> char) list" where
  "word_class = [(CHR ''0'', CHR ''9''), (CHR ''A'', CHR ''Z''), (CHR ''_'', CHR ''_''), (CHR ''a'', CHR ''z'')]"

definition space_class :: "(char \<times> char) list" where
  "space_class = [(CHR 0x09, CHR 0x0A), (CHR 0x0C, CHR 0x0D), (CHR '' '', CHR '' '')]"

text \<open>An escape: a class, or the byte a punctuation or control escape stands for.\<close>

definition parse_escape :: "char \<Rightarrow> rx option" where
  "parse_escape c =
     (if is_ascii c \<and> \<not> word_char c then Some (rlit c)
      else if c = CHR ''d'' then Some (RCls False digit_class)
      else if c = CHR ''D'' then Some (RCls True digit_class)
      else if c = CHR ''w'' then Some (RCls False word_class)
      else if c = CHR ''W'' then Some (RCls True word_class)
      else if c = CHR ''s'' then Some (RCls False space_class)
      else if c = CHR ''S'' then Some (RCls True space_class)
      else if c = CHR ''n'' then Some (rlit newline)
      else if c = CHR ''t'' then Some (rlit (CHR 0x09))
      else if c = CHR ''A'' then Some RBol
      else if c = CHR ''z'' then Some REol
      else None)"

text \<open>The inside of a bracket class, after the optional \<open>^\<close>: ranges up to the closing
  bracket, which is a literal in first place.\<close>

fun parse_class :: "bool \<Rightarrow> string \<Rightarrow> (char \<times> char) list \<Rightarrow> ((char \<times> char) list \<times> string) option" where
  "parse_class first [] rs = None"
| "parse_class first (c # s) rs =
     (if c = CHR '']'' \<and> \<not> first then Some (rs, s)
      else if c = CHR 0x5C then
        (case s of
           [] \<Rightarrow> None
         | e # s' \<Rightarrow>
             (case parse_escape e of
                Some (RCls False rs') \<Rightarrow> parse_class False s' (rs @ rs')
              | _ \<Rightarrow> None))
      else if c = CHR ''['' then None
      else
        (case s of
           d # e # s' \<Rightarrow>
             if d = CHR ''-'' \<and> e \<noteq> CHR '']'' then
               (if e = CHR 0x5C \<or> e = CHR ''['' \<or> e < c then None else parse_class False s' (rs @ [(c, e)]))
             else parse_class False s (rs @ [(c, c)])
         | _ \<Rightarrow> parse_class False s (rs @ [(c, c)])))"

declare parse_class.simps(2) [simp del]

lemma parse_class_length: "parse_class first s rs = Some (rs', s') \<Longrightarrow> length s' < length s"
proof (induction first s rs rule: parse_class.induct)
  case (1 first rs)
  then show ?case by simp
next
  case (2 first c s rs)
  consider (close) "c = CHR '']'' \<and> \<not> first"
    | (esc) "\<not> (c = CHR '']'' \<and> \<not> first)" "c = CHR 0x5C"
    | (char) "\<not> (c = CHR '']'' \<and> \<not> first)" "c \<noteq> CHR 0x5C" "c \<noteq> CHR ''[''"
    using "2.prems" by (fastforce simp: parse_class.simps(2) split: if_splits)
  then show ?case
  proof cases
    case close
    with "2.prems" show ?thesis by (simp add: parse_class.simps(2))
  next
    case esc
    with "2.prems" obtain e s'' rs'' where s: "s = e # s''" "parse_escape e = Some (RCls False rs'')"
        "parse_class False s'' (rs @ rs'') = Some (rs', s')"
      by (auto simp: parse_class.simps(2) split: list.splits option.splits rx.splits bool.splits)
    have "length s' < length s''" using "2.IH"(1) [OF esc s(1,2)] s by blast
    with s show ?thesis by simp
  next
    case char
    show ?thesis
    proof (cases "\<exists>d e s''. s = d # e # s'' \<and> d = CHR ''-'' \<and> e \<noteq> CHR '']''")
      case True
      then obtain e s'' where s: "s = CHR ''-'' # e # s''" "e \<noteq> CHR '']''" by blast
      with "2.prems" char have e: "\<not> (e = CHR 0x5C \<or> e = CHR ''['' \<or> e < c)"
        and r: "parse_class False s'' (rs @ [(c, e)]) = Some (rs', s')"
        by (subst (asm) parse_class.simps(2); auto split: if_splits)+
      have "length s' < length s''" using "2.IH"(4) char s e r by blast
      with s show ?thesis by simp
    next
      case False
      with "2.prems" char have r: "parse_class False s (rs @ [(c, c)]) = Some (rs', s')"
        by (subst (asm) parse_class.simps(2)) (auto split: list.splits)
      have "length s' < length s"
      proof (cases "\<exists>d e s''. s = d # e # s''")
        case True
        with False char r show ?thesis using "2.IH"(5) by blast
      next
        case nl: False
        then consider "s = []" | d where "s = [d]" by (metis neq_Nil_conv)
        then show ?thesis using "2.IH"(2,3) char r by cases auto
      qed
      then show ?thesis by simp
    qed
  qed
qed

text \<open>
  Shift-reduce parsing with a stack of open groups, as \<^verbatim>\<open>regexp/syntax\<close> does: \<open>alts\<close> are the
  finished alternatives and \<open>cur\<close> the items of the current one, both latest first.
\<close>

type_synonym rx_frame = "nat option \<times> rx list \<times> rx list"

definition close_group :: "nat option \<Rightarrow> rx \<Rightarrow> rx" where
  "close_group g r = (case g of None \<Rightarrow> RSeq r REps | Some n \<Rightarrow> RGrp n r)"

definition repeat_op :: "char \<Rightarrow> bool \<Rightarrow> rx \<Rightarrow> rx" where
  "repeat_op c greedy r =
     (if c = CHR ''*'' then RStar greedy r else if c = CHR ''+'' then RPlus greedy r else ROpt greedy r)"

lemma tl_dropWhile_length: "length (dropWhile P (drop k s)) - Suc 0 \<le> length s"
  using length_dropWhile_le [of P "drop k s"] by simp

function parse_rx ::
  "string \<Rightarrow> string list \<Rightarrow> rx_frame list \<Rightarrow> rx list \<Rightarrow> rx list \<Rightarrow> (rx \<times> string list) option" where
  "parse_rx [] names stack alts cur =
     (if stack = [] then Some (mk_alt alts (mk_seq cur), rev names) else None)"
| "parse_rx (c # s) names stack alts cur =
     (if c = CHR ''('' then
        (if has_prefix s ''?P<'' then
           (let g = takeWhile (\<lambda>x. x \<noteq> CHR ''>'') (drop 3 s);
                s' = dropWhile (\<lambda>x. x \<noteq> CHR ''>'') (drop 3 s)
            in if s' = [] \<or> g = [] \<or> \<not> list_all word_char g \<or> g \<in> set names then None
               else parse_rx (tl s') (g # names) ((Some (Suc (length names)), alts, cur) # stack) [] [])
         else if has_prefix s ''?:'' then parse_rx (drop 2 s) names ((None, alts, cur) # stack) [] []
         else if has_prefix s ''?'' then None
         else parse_rx s ([] # names) ((Some (Suc (length names)), alts, cur) # stack) [] [])
      else if c = CHR '')'' then
        (case stack of
           [] \<Rightarrow> None
         | (g, alts', cur') # stack' \<Rightarrow>
             parse_rx s names stack' alts' (close_group g (mk_alt alts (mk_seq cur)) # cur'))
      else if c = CHR ''|'' then parse_rx s names stack (mk_seq cur # alts) []
      else if c = CHR ''*'' \<or> c = CHR ''+'' \<or> c = CHR ''?'' then
        (case cur of
           [] \<Rightarrow> None
         | r # cur' \<Rightarrow>
             if is_repeat r then None
             else if has_prefix s ''?'' then parse_rx (tl s) names stack alts (repeat_op c False r # cur')
             else parse_rx s names stack alts (repeat_op c True r # cur'))
      else if c = CHR ''.'' then parse_rx s names stack alts (RCls True [(newline, newline)] # cur)
      else if c = CHR ''^'' then parse_rx s names stack alts (RBol # cur)
      else if c = CHR ''$'' then parse_rx s names stack alts (REol # cur)
      else if c = CHR 0x5C then
        (case s of
           [] \<Rightarrow> None
         | e # s' \<Rightarrow>
             (case parse_escape e of
                None \<Rightarrow> None
              | Some r \<Rightarrow> parse_rx s' names stack alts (r # cur)))
      else if c = CHR ''['' then
        (let neg = has_prefix s ''^''
         in case parse_class True (if neg then tl s else s) [] of
              None \<Rightarrow> None
            | Some (rs, s') \<Rightarrow> parse_rx s' names stack alts (RCls neg rs # cur))
      else if c = CHR ''{'' \<and> s \<noteq> [] \<and> is_digit (hd s) then None
      else parse_rx s names stack alts (rlit c # cur))"
  by pat_completeness auto

termination
proof (relation "measure (\<lambda>(s, _). length s)", goal_cases)
  case 1
  then show ?case by simp
qed (auto simp: tl_dropWhile_length less_Suc_eq_le split: if_splits dest!: parse_class_length
      intro: le_trans [OF diff_le_self])

declare parse_rx.simps [simp del]

definition rx_compile :: "string \<Rightarrow> (rx \<times> string list) option" where
  "rx_compile p = parse_rx p [] [] [] []"

definition go_regexp :: "(rx \<times> string list) regexp_pkg" where
  "go_regexp = \<lparr>re_compile = rx_compile, re_submatch = rx_submatch, re_names = (\<lambda>re. [] # snd re)\<rparr>"

subsection \<open>The engine keeps the laws of anchored templates\<close>

definition rx_any1 :: rx where
  "rx_any1 = RPlus True (RCls True [(newline, newline)])"

fun pieces_rx :: "nat \<Rightarrow> piece list \<Rightarrow> rx list" where
  "pieces_rx n [] = []"
| "pieces_rx n (PLit c # ps) = rlit c # pieces_rx n ps"
| "pieces_rx n (PVar None # ps) = rx_any1 # pieces_rx n ps"
| "pieces_rx n (PVar (Some g) # ps) = RGrp (Suc n) rx_any1 # pieces_rx (Suc n) ps"

lemma parse_escape_meta: "list_all (\<lambda>c. parse_escape c = Some (rlit c)) meta_chars"
  by code_simp

lemma parse_rx_lit:
  assumes "is_ascii c"
  shows "parse_rx (quote_meta [c] @ t) names stack alts cur = parse_rx t names stack alts (rlit c # cur)"
proof (cases "c \<in> set meta_chars")
  case True
  then have "parse_escape c = Some (rlit c)"
    using parse_escape_meta by (simp add: list_all_iff)
  then have "parse_rx (CHR 0x5C # c # t) names stack alts cur = parse_rx t names stack alts (rlit c # cur)"
    by (subst parse_rx.simps(2)) simp
  with True show ?thesis by (simp add: quote_meta_def)
next
  case False
  then have "parse_rx (c # t) names stack alts cur = parse_rx t names stack alts (rlit c # cur)"
    by (subst parse_rx.simps(2)) (simp add: meta_chars_def)
  with False show ?thesis by (simp add: quote_meta_def)
qed

lemma parse_rx_any1:
  assumes "\<not> has_prefix t ''?''"
  shows "parse_rx (''.+'' @ t) names stack alts cur = parse_rx t names stack alts (rx_any1 # cur)"
proof -
  have "parse_rx (''.+'' @ t) names stack alts cur =
      parse_rx (CHR ''+'' # t) names stack alts (RCls True [(newline, newline)] # cur)"
    by (simp only: append.simps, subst parse_rx.simps(2)) simp
  also have "\<dots> = parse_rx t names stack alts (rx_any1 # cur)"
    using assms by (subst parse_rx.simps(2)) (simp add: rx_any1_def repeat_op_def)
  finally show ?thesis .
qed

lemma parse_rx_group:
  assumes "g \<noteq> []" "list_all word_char g" "g \<notin> set names"
  shows "parse_rx (''(?P<'' @ g @ ''>.+)'' @ t) names stack alts cur =
    parse_rx t (g # names) stack alts (RGrp (Suc (length names)) rx_any1 # cur)"
proof -
  have neq: "\<And>x. x \<in> set g \<Longrightarrow> x \<noteq> CHR ''>''"
    using assms(2) by (auto simp: list_all_iff word_char_def is_digit_def is_lower_def is_upper_def)
  have tw: "takeWhile (\<lambda>x. x \<noteq> CHR ''>'') (g @ CHR ''>'' # r) = g"
    and dw: "dropWhile (\<lambda>x. x \<noteq> CHR ''>'') (g @ CHR ''>'' # r) = CHR ''>'' # r" for r
    using neq by (auto simp: takeWhile_append dropWhile_append)
  have "parse_rx (''(?P<'' @ g @ ''>.+)'' @ t) names stack alts cur =
      parse_rx (''.+'' @ CHR '')'' # t) (g # names) ((Some (Suc (length names)), alts, cur) # stack) [] []"
    using assms by (simp only: append.simps, subst parse_rx.simps(2)) (simp add: has_prefix_def tw dw)
  also have "\<dots> = parse_rx (CHR '')'' # t) (g # names)
      ((Some (Suc (length names)), alts, cur) # stack) [] [rx_any1]"
    by (subst parse_rx_any1) (simp_all add: has_prefix_def)
  also have "\<dots> = parse_rx t (g # names) stack alts (RGrp (Suc (length names)) rx_any1 # cur)"
    by (subst parse_rx.simps(2)) (simp add: close_group_def)
  finally show ?thesis .
qed

lemma pieces_not_question:
  assumes "\<not> has_prefix t ''?''"
  shows "\<not> has_prefix (pieces_str ps @ t) ''?''"
  using assms
  by (cases ps rule: piece_names.cases)
    (auto simp: pieces_str_def has_prefix_def quote_meta_def meta_chars_def)

lemma parse_rx_pieces:
  assumes "list_all piece_ok ps" "distinct (piece_names ps @ names)" "\<not> has_prefix t ''?''"
  shows "parse_rx (pieces_str ps @ t) names stack alts cur =
    parse_rx t (rev (piece_names ps) @ names) stack alts (rev (pieces_rx (length names) ps) @ cur)"
  using assms
proof (induction ps arbitrary: names cur rule: piece_names.induct)
  case 1
  then show ?case by (simp add: pieces_str_def)
next
  case (2 g ps)
  have ok: "g \<noteq> []" "list_all word_char g" "g \<notin> set names" using "2.prems" by auto
  have "parse_rx (pieces_str (PVar (Some g) # ps) @ t) names stack alts cur =
      parse_rx (''(?P<'' @ g @ ''>.+)'' @ (pieces_str ps @ t)) names stack alts cur"
    by (simp add: pieces_str_def)
  also have "\<dots> = parse_rx (pieces_str ps @ t) (g # names) stack alts
      (RGrp (Suc (length names)) rx_any1 # cur)"
    by (rule parse_rx_group [OF ok])
  also have "\<dots> = parse_rx t (rev (piece_names ps) @ g # names) stack alts
      (rev (pieces_rx (Suc (length names)) ps) @ RGrp (Suc (length names)) rx_any1 # cur)"
    using "2.IH" [of "g # names"] "2.prems" by simp
  finally show ?case by simp
next
  case (3 c ps)
  then show ?case by (simp add: pieces_str_def parse_rx_lit)
next
  case (4 ps)
  have "parse_rx (pieces_str (PVar None # ps) @ t) names stack alts cur =
      parse_rx (''.+'' @ (pieces_str ps @ t)) names stack alts cur"
    by (simp add: pieces_str_def)
  also have "\<dots> = parse_rx (pieces_str ps @ t) names stack alts (rx_any1 # cur)"
    by (rule parse_rx_any1 [OF pieces_not_question [OF "4.prems"(3)]])
  finally show ?case using "4.IH" [of names] "4.prems" by simp
qed

lemma rx_compile_template:
  assumes "list_all piece_ok ps" "distinct (piece_names ps)"
  shows "rx_compile (render_template ps) =
    Some (mk_seq (REol # rev (pieces_rx 0 ps) @ [RBol]), piece_names ps)"
proof -
  have "rx_compile (render_template ps) = parse_rx (pieces_str ps @ ''$'') [] [] [] [RBol]"
    unfolding rx_compile_def render_template_def
    by (simp only: append.simps, subst parse_rx.simps(2)) simp
  also have "\<dots> = parse_rx ''$'' (rev (piece_names ps)) [] [] (rev (pieces_rx 0 ps) @ [RBol])"
    using assms by (subst parse_rx_pieces) (simp_all add: has_prefix_def)
  also have "\<dots> = parse_rx [] (rev (piece_names ps)) [] [] (REol # rev (pieces_rx 0 ps) @ [RBol])"
    by (subst parse_rx.simps(2)) simp
  finally show ?thesis by (simp add: parse_rx.simps(1))
qed

fun runs :: "rx list \<Rightarrow> rx_state \<Rightarrow> rx_state \<Rightarrow> bool" where
  "runs [] st st' \<longleftrightarrow> st = st'"
| "runs (r # rs) st st' \<longleftrightarrow> (\<exists>m \<in> set (rx_run r st). runs rs m st')"

lemma runs_append: "runs (rs @ rs') st st' \<longleftrightarrow> (\<exists>m. runs rs st m \<and> runs rs' m st')"
  by (induction rs arbitrary: st) auto

lemma rx_run_mk_seq_Cons: "rx_run (mk_seq (r # rs)) st = concat (map (rx_run r) (rx_run (mk_seq rs) st))"
  by (cases rs) auto

lemma rx_run_mk_seq: "st' \<in> set (rx_run (mk_seq (rev rs)) st) \<longleftrightarrow> runs rs st st'"
proof (induction rs arbitrary: st' rule: rev_induct)
  case Nil
  then show ?case by auto
next
  case (snoc r rs)
  have "st' \<in> set (rx_run (mk_seq (rev (rs @ [r]))) st) \<longleftrightarrow>
      (\<exists>m. m \<in> set (rx_run (mk_seq (rev rs)) st) \<and> st' \<in> set (rx_run r m))"
    by (simp add: rx_run_mk_seq_Cons Bex_def del: mk_seq.simps)
  then show ?case by (simp only: snoc.IH runs_append) simp
qed

lemma rx_iter_any:
  "st' \<in> set (rx_iter True (rx_run (RCls True [(newline, newline)])) n (i, s, cs)) \<longleftrightarrow>
    (\<exists>v t. s = v @ t \<and> newline \<notin> set v \<and> length v \<le> n \<and> st' = (i + length v, t, cs))"
proof (induction n arbitrary: i s)
  case 0
  then show ?case by auto
next
  case (Suc n)
  show ?case
  proof (cases s)
    case Nil
    then show ?thesis by (auto simp: Let_def)
  next
    case (Cons c s')
    have in_c: "in_class True [(newline, newline)] c \<longleftrightarrow> c \<noteq> newline"
      by (auto simp: in_class_def)
    have "st' \<in> set (rx_iter True (rx_run (RCls True [(newline, newline)])) (Suc n) (i, s, cs)) \<longleftrightarrow>
      (c \<noteq> newline \<and>
        st' \<in> set (rx_iter True (rx_run (RCls True [(newline, newline)])) n (Suc i, s', cs)))
      \<or> st' = (i, s, cs)"
      using Cons in_c by (auto simp: Let_def)
    also have "\<dots> \<longleftrightarrow> (c \<noteq> newline \<and> (\<exists>v t. s' = v @ t \<and> newline \<notin> set v \<and> length v \<le> n \<and>
        st' = (Suc i + length v, t, cs))) \<or> st' = (i, s, cs)"
      by (simp only: Suc.IH)
    also have "\<dots> \<longleftrightarrow> (\<exists>v t. s = v @ t \<and> newline \<notin> set v \<and> length v \<le> Suc n \<and>
        st' = (i + length v, t, cs))" (is "?L \<longleftrightarrow> ?R")
    proof
      assume ?L
      then show ?R
      proof
        assume "c \<noteq> newline \<and> (\<exists>v t. s' = v @ t \<and> newline \<notin> set v \<and> length v \<le> n \<and>
          st' = (Suc i + length v, t, cs))"
        then obtain v t where "c \<noteq> newline" "s' = v @ t" "newline \<notin> set v" "length v \<le> n"
          "st' = (Suc i + length v, t, cs)" by blast
        then show ?R using Cons by (intro exI [of _ "c # v"] exI [of _ t]) simp
      qed auto
    next
      assume ?R
      then obtain v t where v: "s = v @ t" "newline \<notin> set v" "length v \<le> Suc n"
        "st' = (i + length v, t, cs)" by blast
      show ?L using v Cons by (cases v) auto
    qed
    finally show ?thesis .
  qed
qed

lemma rx_run_any1:
  "st' \<in> set (rx_run rx_any1 (i, s, cs)) \<longleftrightarrow>
    (\<exists>v t. s = v @ t \<and> v \<noteq> [] \<and> newline \<notin> set v \<and> st' = (i + length v, t, cs))"
proof (cases s)
  case Nil
  then show ?thesis by (simp add: rx_any1_def)
next
  case (Cons c s')
  have in_c: "in_class True [(newline, newline)] c \<longleftrightarrow> c \<noteq> newline"
    by (auto simp: in_class_def)
  have "st' \<in> set (rx_run rx_any1 (i, s, cs)) \<longleftrightarrow> c \<noteq> newline \<and>
    st' \<in> set (rx_iter True (rx_run (RCls True [(newline, newline)])) (length s') (Suc i, s', cs))"
    using Cons in_c by (simp add: rx_any1_def)
  also have "\<dots> \<longleftrightarrow> c \<noteq> newline \<and> (\<exists>v t. s' = v @ t \<and> newline \<notin> set v \<and> length v \<le> length s' \<and>
      st' = (Suc i + length v, t, cs))"
    by (simp only: rx_iter_any)
  also have "\<dots> \<longleftrightarrow> (\<exists>v t. s = v @ t \<and> v \<noteq> [] \<and> newline \<notin> set v \<and> st' = (i + length v, t, cs))"
    (is "?L \<longleftrightarrow> ?R")
  proof
    assume ?L
    then obtain v t where "c \<noteq> newline" "s' = v @ t" "newline \<notin> set v"
      "st' = (Suc i + length v, t, cs)" by blast
    then show ?R using Cons by (intro exI [of _ "c # v"] exI [of _ t]) simp
  next
    assume ?R
    then obtain v t where v: "s = v @ t" "v \<noteq> []" "newline \<notin> set v"
      "st' = (i + length v, t, cs)" by blast
    show ?L using v Cons by (cases v) auto
  qed
  finally show ?thesis .
qed

lemma rx_run_lit: "st' \<in> set (rx_run (rlit c) (i, s, cs)) \<longleftrightarrow> (\<exists>t. s = c # t \<and> st' = (Suc i, t, cs))"
  by (cases s) (auto simp: rlit_def in_class_def)

lemma rx_run_group:
  "st' \<in> set (rx_run (RGrp n rx_any1) (i, s, cs)) \<longleftrightarrow>
    (\<exists>v t. s = v @ t \<and> v \<noteq> [] \<and> newline \<notin> set v \<and> st' = (i + length v, t, (n, v) # cs))"
  (is "?L \<longleftrightarrow> ?R")
proof
  assume ?L
  then obtain j t cs' where m: "(j, t, cs') \<in> set (rx_run rx_any1 (i, s, cs))"
    and st: "st' = (j, t, (n, take (length s - length t) s) # cs')"
    by (auto simp: case_prod_unfold)
  then show ?R unfolding rx_run_any1 by auto
next
  assume ?R
  then obtain v t where v: "s = v @ t" "v \<noteq> []" "newline \<notin> set v"
    and st: "st' = (i + length v, t, (n, v) # cs)" by blast
  then have "(i + length v, t, cs) \<in> set (rx_run rx_any1 (i, s, cs))"
    unfolding rx_run_any1 by blast
  then have "(i + length v, t, (n, take (length s - length t) s) # cs) \<in> set (rx_run (RGrp n rx_any1) (i, s, cs))"
    by (force simp: case_prod_unfold)
  with v st show ?L by simp
qed

text \<open>Group numbers, in order, with the values of the named wildcards.\<close>

fun captures :: "nat \<Rightarrow> string list \<Rightarrow> (nat \<times> string) list" where
  "captures n [] = []"
| "captures n (v # nv) = captures (Suc n) nv @ [(Suc n, v)]"

lemma group_text_captures:
  "k < length nv \<Longrightarrow> group_text (captures n nv) (Suc (n + k)) = nv ! k"
proof (induction nv arbitrary: n k)
  case Nil
  then show ?case by simp
next
  case (Cons v nv)
  have dom: "m \<notin> fst ` set (captures (Suc n) nv)" if "m \<le> Suc n" for m
  proof -
    have "\<forall>n. \<forall>m \<in> fst ` set (captures n nv). n < m"
      by (induction nv) (auto dest: Suc_lessD)
    with that show ?thesis by fastforce
  qed
  show ?case
  proof (cases k)
    case 0
    have "map_of (captures (Suc n) nv) (Suc n) = None"
      using dom [OF order_refl] by (simp only: map_of_eq_None_iff not_False_eq_True)
    with 0 show ?thesis by (simp add: group_text_def map_add_def)
  next
    case (Suc j)
    with Cons.IH [of j "Suc n"] Cons.prems show ?thesis
      by (auto simp: group_text_def map_add_def split: option.splits)
  qed
qed

lemma runs_pieces:
  "runs (pieces_rx n ps) (i, s, cs) st' \<longleftrightarrow>
    (\<exists>vs w t. s = w @ t \<and> fits ps vs w \<and> st' = (i + length w, t, captures n (named_vals ps vs) @ cs))"
  (is "_ \<longleftrightarrow> ?R n ps i s cs")
proof (induction ps arbitrary: n i s cs)
  case Nil
  show ?case by auto
next
  case (Cons p ps)
  show ?case
  proof (cases p)
    case (PLit c)
    have "runs (pieces_rx n (p # ps)) (i, s, cs) st' \<longleftrightarrow> (\<exists>t. s = c # t \<and> ?R n ps (Suc i) t cs)"
      using PLit Cons.IH by (auto simp: rx_run_lit)
    also have "\<dots> \<longleftrightarrow> ?R n (p # ps) i s cs" (is "?A \<longleftrightarrow> ?B")
    proof
      assume ?A
      then obtain vs w t where "s = c # w @ t" "fits ps vs w"
        "st' = (Suc i + length w, t, captures n (named_vals ps vs) @ cs)" by blast
      then show ?B using PLit by (intro exI [of _ vs] exI [of _ "c # w"] exI [of _ t]) simp
    next
      assume ?B
      then show ?A using PLit by (fastforce split: list.splits)
    qed
    finally show ?thesis .
  next
    case (PVar g)
    define n' where "n' = (if g = None then n else Suc n)"
    define cs' where "cs' v = (if g = None then cs else (Suc n, v) # cs)" for v
    have "runs (pieces_rx n (p # ps)) (i, s, cs) st' \<longleftrightarrow>
      (\<exists>v t. s = v @ t \<and> v \<noteq> [] \<and> newline \<notin> set v \<and> ?R n' ps (i + length v) t (cs' v))"
    proof (cases g)
      case None
      then have "runs (pieces_rx n (p # ps)) (i, s, cs) st' \<longleftrightarrow>
        (\<exists>v t. s = v @ t \<and> v \<noteq> [] \<and> newline \<notin> set v \<and> runs (pieces_rx n ps) (i + length v, t, cs) st')"
        using PVar by (simp add: Bex_def rx_run_any1) blast
      with None show ?thesis using Cons.IH by (simp add: n'_def cs'_def)
    next
      case (Some x)
      then have "runs (pieces_rx n (p # ps)) (i, s, cs) st' \<longleftrightarrow>
        (\<exists>v t. s = v @ t \<and> v \<noteq> [] \<and> newline \<notin> set v \<and>
          runs (pieces_rx (Suc n) ps) (i + length v, t, (Suc n, v) # cs) st')"
        using PVar by (simp add: Bex_def rx_run_group del: rx_run.simps) blast
      with Some show ?thesis using Cons.IH by (simp add: n'_def cs'_def)
    qed
    also have "\<dots> \<longleftrightarrow> ?R n (p # ps) i s cs" (is "?A \<longleftrightarrow> ?B")
    proof
      assume ?A
      then obtain v vs w t where *: "s = v @ w @ t" "v \<noteq> []" "newline \<notin> set v" "fits ps vs w"
        "st' = (i + length v + length w, t, captures n' (named_vals ps vs) @ cs' v)" by blast
      then have "fits (p # ps) (v # vs) (v @ w)" using PVar by simp
      moreover have "captures n' (named_vals ps vs) @ cs' v = captures n (named_vals (p # ps) (v # vs)) @ cs"
        using PVar by (cases g) (simp_all add: n'_def cs'_def)
      ultimately show ?B using *
        by (intro exI [of _ "v # vs"] exI [of _ "v @ w"] exI [of _ t]) simp
    next
      assume ?B
      then obtain us w t where us: "s = w @ t" "fits (p # ps) us w"
        "st' = (i + length w, t, captures n (named_vals (p # ps) us) @ cs)" by blast
      then obtain v vs where v: "us = v # vs" "v \<noteq> []" "newline \<notin> set v" "take (length v) w = v"
        "fits ps vs (drop (length v) w)"
        using PVar by (cases us) auto
      define w' where "w' = drop (length v) w"
      have w: "w = v @ w'" using v(4) unfolding w'_def by (metis append_take_drop_id)
      have caps: "captures n (named_vals (p # ps) us) @ cs = captures n' (named_vals ps vs) @ cs' v"
        using PVar v(1) by (cases g) (simp_all add: n'_def cs'_def)
      have "s = v @ (w' @ t)" using us(1) w by simp
      moreover have "st' = (i + length v + length w', t, captures n' (named_vals ps vs) @ cs' v)"
        using us(3) caps w by simp
      ultimately show ?A using v(2,3,5) unfolding w'_def [symmetric] by blast
    qed
    finally show ?thesis .
  qed
qed

lemma length_named_vals: "fits ps vs w \<Longrightarrow> length (named_vals ps vs) = length (piece_names ps)"
proof (induction ps vs w rule: fits.induct)
  case (4 g ps v vs s)
  then show ?case by (cases g) simp_all
qed (auto split: list.splits)

lemma rx_run_template:
  "st' \<in> set (rx_run (mk_seq (REol # rev (pieces_rx 0 ps) @ [RBol])) (k, s, [])) \<longleftrightarrow>
    k = 0 \<and> (\<exists>vs. fits ps vs s \<and> st' = (length s, [], captures 0 (named_vals ps vs)))"
proof -
  have "REol # rev (pieces_rx 0 ps) @ [RBol] = rev (RBol # pieces_rx 0 ps @ [REol])" by simp
  then have "st' \<in> set (rx_run (mk_seq (REol # rev (pieces_rx 0 ps) @ [RBol])) (k, s, [])) \<longleftrightarrow>
      runs (RBol # pieces_rx 0 ps @ [REol]) (k, s, []) st'"
    by (simp only: rx_run_mk_seq)
  also have "\<dots> \<longleftrightarrow> k = 0 \<and> (\<exists>m. runs (pieces_rx 0 ps) (0, s, []) m \<and> fst (snd m) = [] \<and> st' = m)"
    by (cases "k = 0") (auto simp: runs_append split: if_splits)
  also have "\<dots> \<longleftrightarrow> k = 0 \<and> runs (pieces_rx 0 ps) (0, s, []) st' \<and> fst (snd st') = []"
    by blast
  also have "\<dots> \<longleftrightarrow> k = 0 \<and> (\<exists>vs. fits ps vs s \<and> st' = (length s, [], captures 0 (named_vals ps vs)))"
    unfolding runs_pieces by auto
  finally show ?thesis .
qed

lemma rx_first_anchored:
  assumes "\<And>k. k \<noteq> 0 \<Longrightarrow> rx_run r (k, drop k s, []) = []"
  shows "rx_first r [0..<Suc n] s = (case rx_run r (0, s, []) of [] \<Rightarrow> None | st # _ \<Rightarrow> Some (0, st))"
proof -
  have "rx_first r ks s = None" if "0 \<notin> set ks" for ks
    using that assms by (induction ks) auto
  then have "rx_first r [1..<Suc n] s = None" by simp
  then show ?thesis by (simp add: upt_conv_Cons del: upt_Suc split: list.split)
qed

lemma rx_submatch_template:
  "rx_submatch (mk_seq (REol # rev (pieces_rx 0 ps) @ [RBol]), piece_names ps) s =
    (case rx_run (mk_seq (REol # rev (pieces_rx 0 ps) @ [RBol])) (0, s, []) of
       [] \<Rightarrow> None
     | (j, t, cs) # _ \<Rightarrow> Some (take j s # map (group_text cs) [1..<Suc (length (piece_names ps))]))"
proof -
  have "rx_run (mk_seq (REol # rev (pieces_rx 0 ps) @ [RBol])) (k, drop k s, []) = []" if "k \<noteq> 0" for k
    using rx_run_template [of _ ps k "drop k s"] that by (metis list.set_intros(1) neq_Nil_conv)
  from rx_first_anchored [OF this] show ?thesis
    unfolding rx_submatch_def by (simp add: prod.case_eq_if del: upt_Suc split: list.split)
qed

lemma rx_submatch_sound:
  assumes "rx_submatch (mk_seq (REol # rev (pieces_rx 0 ps) @ [RBol]), piece_names ps) s = Some sub"
  shows "\<exists>vs. fits ps vs s \<and> sub = s # named_vals ps vs"
proof -
  from assms obtain st sts where run:
      "rx_run (mk_seq (REol # rev (pieces_rx 0 ps) @ [RBol])) (0, s, []) = st # sts"
    and sub: "sub = take (fst st) s # map (group_text (snd (snd st))) [1..<Suc (length (piece_names ps))]"
    by (auto simp: rx_submatch_template prod.case_eq_if simp del: upt_Suc split: list.splits)
  have "st \<in> set (rx_run (mk_seq (REol # rev (pieces_rx 0 ps) @ [RBol])) (0, s, []))"
    using run by simp
  then obtain vs where vs: "fits ps vs s" and st: "st = (length s, [], captures 0 (named_vals ps vs))"
    unfolding rx_run_template by blast
  have "map (group_text (captures 0 (named_vals ps vs))) [1..<Suc (length (piece_names ps))] = named_vals ps vs"
    using group_text_captures [of _ "named_vals ps vs" 0] length_named_vals [OF vs]
    by (intro nth_equalityI) (simp_all del: upt_Suc)
  with vs st sub show ?thesis by auto
qed

lemma rx_submatch_complete:
  assumes "fits ps vs s"
  shows "rx_submatch (mk_seq (REol # rev (pieces_rx 0 ps) @ [RBol]), piece_names ps) s \<noteq> None"
proof -
  have "(length s, [], captures 0 (named_vals ps vs))
      \<in> set (rx_run (mk_seq (REol # rev (pieces_rx 0 ps) @ [RBol])) (0, s, []))"
    unfolding rx_run_template using assms by blast
  then obtain st sts where "rx_run (mk_seq (REol # rev (pieces_rx 0 ps) @ [RBol])) (0, s, []) = st # sts"
    by (metis in_set_conv_decomp list.exhaust list.distinct(1) append_is_Nil_conv)
  then show ?thesis by (simp add: rx_submatch_template prod.case_eq_if del: upt_Suc)
qed

interpretation go_rx: regexp_engine go_regexp
proof
  fix ps
  assume ps: "list_all piece_ok ps" "distinct (piece_names ps)"
  note compiled = rx_compile_template [OF ps]
  show "\<exists>re. re_compile go_regexp (render_template ps) = Some re \<and>
      re_names go_regexp re = [] # piece_names ps"
    by (simp add: go_regexp_def compiled)
  fix re s
  assume "re_compile go_regexp (render_template ps) = Some re"
  then have re: "re = (mk_seq (REol # rev (pieces_rx 0 ps) @ [RBol]), piece_names ps)"
    by (simp add: go_regexp_def compiled)
  show "re_submatch go_regexp re s \<noteq> None" if "fits ps vs s" for vs
    using rx_submatch_complete [OF that] by (simp add: go_regexp_def re)
  show "\<exists>vs. fits ps vs s \<and> sub = s # named_vals ps vs" if "re_submatch go_regexp re s = Some sub" for sub
    using rx_submatch_sound that by (simp add: go_regexp_def re)
qed

end
