(* ===== verification/Patterns.thy ===== *)
theory Patterns
  imports Go_Regexp
begin

text \<open>
  Pattern matching of the \<^verbatim>\<open>when:\<close> vocabulary (\<^verbatim>\<open>src/src/config/match.go\<close>): conditions on
  tag and branch, include/exclude pattern lists, the resolution of named patterns against a
  policy map and the pre-compiled matcher. The regular-expression engine \<open>R\<close> is an argument;
  a policy map is a finite map from names to patterns, and the process environment a function
  from variable names to values (the empty string when unset).

  The lemmas say what a pattern list means (no exclude hits, and an include hits unless the
  list has none), that order and repetition do not matter, and that the compiled matcher
  decides what resolving and matching the list decides.
\<close>

section \<open>Conditions\<close>

record condition =
  cond_tag :: string
  cond_branch :: string

definition match_pattern :: "'re regexp_pkg \<Rightarrow> string \<Rightarrow> string \<Rightarrow> bool" where
  "match_pattern R pattern value =
     (let negate = has_prefix pattern ''!'';
          pattern = (if negate then drop 1 pattern else pattern)
      in case re_compile R pattern of
           None \<Rightarrow> (let matched = (pattern = value) in if negate then \<not> matched else matched)
         | Some re \<Rightarrow> (let matched = re_match R re value in if negate then \<not> matched else matched))"

definition match_condition_with :: "'re regexp_pkg \<Rightarrow> condition \<Rightarrow> string \<Rightarrow> string \<Rightarrow> bool" where
  "match_condition_with R c tag branch =
     (if cond_tag c \<noteq> [] \<and> (tag = [] \<or> \<not> match_pattern R (cond_tag c) tag) then False
      else if cond_branch c \<noteq> [] \<and> \<not> match_pattern R (cond_branch c) branch then False
      else True)"

definition match_condition :: "'re regexp_pkg \<Rightarrow> (string \<Rightarrow> string) \<Rightarrow> condition \<Rightarrow> bool" where
  "match_condition R getenv c =
     (let tag = getenv ''CI_COMMIT_TAG'';
          branch = getenv ''CI_COMMIT_BRANCH'';
          branch = (if branch = [] then getenv ''GITHUB_REF_NAME'' else branch)
      in match_condition_with R c tag branch)"

section \<open>Pattern lists\<close>

text \<open>One entry of the two loops of \<open>MatchPatterns\<close>: a pattern that does not compile is
  compared literally.\<close>

definition pattern_hits :: "'re regexp_pkg \<Rightarrow> string \<Rightarrow> string \<Rightarrow> bool" where
  "pattern_hits R p value =
     (case re_compile R p of None \<Rightarrow> p = value | Some re \<Rightarrow> re_match R re value)"

definition is_exclude :: "string \<Rightarrow> bool" where
  "is_exclude p \<longleftrightarrow> has_prefix p ''!''"

definition pattern_includes :: "string list \<Rightarrow> string list" where
  "pattern_includes patterns = filter (\<lambda>p. \<not> is_exclude p) patterns"

definition pattern_excludes :: "string list \<Rightarrow> string list" where
  "pattern_excludes patterns = map (drop 1) (filter is_exclude patterns)"

definition match_patterns :: "'re regexp_pkg \<Rightarrow> string list \<Rightarrow> string \<Rightarrow> bool" where
  "match_patterns R patterns value =
     (if patterns = [] then True
      else if list_ex (\<lambda>p. pattern_hits R p value) (pattern_excludes patterns) then False
      else if pattern_includes patterns = [] then True
      else list_ex (\<lambda>p. pattern_hits R p value) (pattern_includes patterns))"

section \<open>Named patterns\<close>

text \<open>\<open>identifierRe\<close>: a letter, then letters, digits and \<^verbatim>\<open>_.-\<close>.\<close>

definition is_letter :: "char \<Rightarrow> bool" where
  "is_letter c \<longleftrightarrow> is_lower c \<or> is_upper c"

definition identifier_char :: "char \<Rightarrow> bool" where
  "identifier_char c \<longleftrightarrow> is_letter c \<or> is_digit c \<or> c = CHR ''_'' \<or> c = CHR ''.'' \<or> c = CHR ''-''"

fun is_identifier :: "string \<Rightarrow> bool" where
  "is_identifier [] = False"
| "is_identifier (c # s) \<longleftrightarrow> is_letter c \<and> list_all identifier_char s"

definition regex_meta_chars :: string where
  "regex_meta_chars = ''^$.*+?()[]{}|'' @ [CHR 0x5C]"

definition contains_regex_meta :: "string \<Rightarrow> bool" where
  "contains_regex_meta s \<longleftrightarrow> list_ex (\<lambda>c. c \<in> set regex_meta_chars) s"

definition go_quote :: "string \<Rightarrow> string" where
  "go_quote s = [CHR 0x22] @ s @ [CHR 0x22]"

definition unknown_pattern_warning :: "string \<Rightarrow> string" where
  "unknown_pattern_warning token = ''unknown pattern name '' @ go_quote token @ ''; treating as regex''"

definition resolve_token_with_warning ::
  "string \<Rightarrow> (string \<rightharpoonup> string) \<Rightarrow> string \<times> string" where
  "resolve_token_with_warning token pm =
     (if is_identifier token then
        (case pm token of
           Some regex \<Rightarrow> (regex, [])
         | None \<Rightarrow>
             if \<not> contains_regex_meta token then (token, unknown_pattern_warning token)
             else (token, []))
      else (token, []))"

text \<open>The body of the loop of \<open>ResolvePatterns\<close>.\<close>

definition resolve_pattern :: "(string \<rightharpoonup> string) \<Rightarrow> string \<Rightarrow> string" where
  "resolve_pattern pm token =
     (let negate = is_exclude token;
          raw = (if negate then drop 1 token else token);
          val = (if has_prefix raw ''re:'' then drop 3 raw else fst (resolve_token_with_warning raw pm));
          prefix = (if negate then ''!'' else [])
      in prefix @ val)"

definition resolve_patterns :: "string list \<Rightarrow> (string \<rightharpoonup> string) \<Rightarrow> string list" where
  "resolve_patterns patterns pm = map (resolve_pattern pm) patterns"

definition match_patterns_with_policy ::
  "'re regexp_pkg \<Rightarrow> string list \<Rightarrow> string \<Rightarrow> (string \<rightharpoonup> string) \<Rightarrow> bool" where
  "match_patterns_with_policy R patterns value pm =
     (if patterns = [] then True else match_patterns R (resolve_patterns patterns pm) value)"

section \<open>The compiled matcher\<close>

record 're compiled_patterns =
  cp_include :: "'re list"
  cp_exclude :: "'re list"

datatype pattern_error = InvalidPattern string

text \<open>\<open>Match\<close>; a nil receiver is \<^const>\<open>None\<close>.\<close>

definition compiled_match :: "'re regexp_pkg \<Rightarrow> 're compiled_patterns option \<Rightarrow> string \<Rightarrow> bool" where
  "compiled_match R cp value =
     (case cp of
        None \<Rightarrow> True
      | Some cp \<Rightarrow>
          if list_ex (\<lambda>re. re_match R re value) (cp_exclude cp) then False
          else if cp_include cp = [] then True
          else list_ex (\<lambda>re. re_match R re value) (cp_include cp))"

fun compile_loop ::
  "'re regexp_pkg \<Rightarrow> string list \<Rightarrow> 're compiled_patterns \<Rightarrow> pattern_error + 're compiled_patterns" where
  "compile_loop R [] cp = Inr cp"
| "compile_loop R (p # ps) cp =
     (let negate = is_exclude p;
          pat = (if negate then drop 1 p else p)
      in case re_compile R pat of
           None \<Rightarrow> Inl (InvalidPattern pat)
         | Some re \<Rightarrow>
             compile_loop R ps
               (if negate then cp\<lparr>cp_exclude := cp_exclude cp @ [re]\<rparr>
                else cp\<lparr>cp_include := cp_include cp @ [re]\<rparr>))"

definition pattern_warnings :: "string list \<Rightarrow> (string \<rightharpoonup> string) \<Rightarrow> string list" where
  "pattern_warnings patterns pm =
     filter (\<lambda>w. w \<noteq> [])
       (map (\<lambda>token. snd (resolve_token_with_warning (if is_exclude token then drop 1 token else token) pm))
         patterns)"

definition compile_patterns_with_warnings ::
  "'re regexp_pkg \<Rightarrow> string list \<Rightarrow> (string \<rightharpoonup> string) \<Rightarrow>
     (pattern_error + 're compiled_patterns) \<times> string list" where
  "compile_patterns_with_warnings R patterns pm =
     (if patterns = [] then (Inr \<lparr>cp_include = [], cp_exclude = []\<rparr>, [])
      else (compile_loop R (resolve_patterns patterns pm) \<lparr>cp_include = [], cp_exclude = []\<rparr>,
            pattern_warnings patterns pm))"

definition compile_patterns ::
  "'re regexp_pkg \<Rightarrow> string list \<Rightarrow> (string \<rightharpoonup> string) \<Rightarrow> pattern_error + 're compiled_patterns" where
  "compile_patterns R patterns pm = fst (compile_patterns_with_warnings R patterns pm)"

section \<open>What the matchers decide\<close>

lemma pattern_excludes_hit:
  "list_ex (\<lambda>p. pattern_hits R p v) (pattern_excludes ps) \<longleftrightarrow>
    (\<exists>p \<in> set ps. is_exclude p \<and> pattern_hits R (drop 1 p) v)"
  by (auto simp: pattern_excludes_def list_ex_iff)

lemma pattern_includes_hit:
  "list_ex (\<lambda>p. pattern_hits R p v) (pattern_includes ps) \<longleftrightarrow>
    (\<exists>p \<in> set ps. \<not> is_exclude p \<and> pattern_hits R p v)"
  by (auto simp: pattern_includes_def list_ex_iff)

lemma pattern_includes_empty:
  "pattern_includes ps = [] \<longleftrightarrow> \<not> (\<exists>p \<in> set ps. \<not> is_exclude p)"
  by (auto simp: pattern_includes_def filter_empty_conv)

text \<open>C1: A pattern list admits a value when no exclude pattern hits it and either no include
  pattern is present or one of them hits; the empty list admits everything.\<close>

theorem match_patterns_iff:
  "match_patterns R ps v \<longleftrightarrow>
    \<not> (\<exists>p \<in> set ps. is_exclude p \<and> pattern_hits R (drop 1 p) v) \<and>
    (list_all is_exclude ps \<or> (\<exists>p \<in> set ps. \<not> is_exclude p \<and> pattern_hits R p v))"
  unfolding match_patterns_def pattern_excludes_hit pattern_includes_hit pattern_includes_empty list_all_iff
  by auto

lemma match_patterns_meaning:
  "match_patterns R ps v \<longleftrightarrow>
    (\<forall>p \<in> set ps. is_exclude p \<longrightarrow> \<not> pattern_hits R (drop 1 p) v) \<and>
    ((\<forall>p \<in> set ps. is_exclude p) \<or> (\<exists>p \<in> set ps. \<not> is_exclude p \<and> pattern_hits R p v))"
  unfolding match_patterns_def pattern_excludes_hit pattern_includes_hit pattern_includes_empty
  by auto

lemma match_patterns_cong: "set ps = set qs \<Longrightarrow> match_patterns R ps v = match_patterns R qs v"
  unfolding match_patterns_meaning by simp

lemma match_patterns_exclude_first:
  "p \<in> set ps \<Longrightarrow> is_exclude p \<Longrightarrow> pattern_hits R (drop 1 p) v \<Longrightarrow> \<not> match_patterns R ps v"
  unfolding match_patterns_meaning by blast

lemma match_pattern_negate:
  "\<not> is_exclude p \<Longrightarrow> match_pattern R (CHR ''!'' # p) v \<longleftrightarrow> \<not> match_pattern R p v"
  by (simp add: match_pattern_def is_exclude_def has_prefix_def split: option.split)

lemma match_pattern_hits: "\<not> is_exclude p \<Longrightarrow> match_pattern R p v \<longleftrightarrow> pattern_hits R p v"
  by (simp add: match_pattern_def pattern_hits_def is_exclude_def Let_def split: option.split)

lemma match_pattern_singleton: "match_patterns R [p] v \<longleftrightarrow> match_pattern R p v"
  by (auto simp: match_patterns_meaning match_pattern_def pattern_hits_def is_exclude_def Let_def
      split: option.splits)

lemma length_resolve_patterns [simp]: "length (resolve_patterns ps pm) = length ps"
  by (simp add: resolve_patterns_def)

lemma resolve_patterns_Nil_iff [simp]: "resolve_patterns ps pm = [] \<longleftrightarrow> ps = []"
  by (simp add: resolve_patterns_def)

lemma match_patterns_with_policy_eq:
  "match_patterns_with_policy R ps v pm = match_patterns R (resolve_patterns ps pm) v"
  by (simp add: match_patterns_with_policy_def match_patterns_def)

text \<open>The loop keeps, in order, the compiled excludes and includes of what it has read.\<close>

lemma compile_loop_Inr:
  "compile_loop R ps cp = Inr cp' \<longleftrightarrow>
    (\<exists>ins exs. map (re_compile R) (pattern_includes ps) = map Some ins \<and>
       map (re_compile R) (pattern_excludes ps) = map Some exs \<and>
       cp' = cp\<lparr>cp_include := cp_include cp @ ins, cp_exclude := cp_exclude cp @ exs\<rparr>)"
proof (induction R ps cp rule: compile_loop.induct)
  case (1 R cp)
  show ?case by (auto simp: pattern_includes_def pattern_excludes_def)
next
  case (2 R p ps cp)
  show ?case
  proof (cases "is_exclude p")
    case True
    show ?thesis
    proof (cases "re_compile R (drop 1 p)")
      case None
      with True show ?thesis by (auto simp: pattern_excludes_def)
    next
      case (Some re)
      have exs: "map (re_compile R) (pattern_excludes (p # ps)) = map Some exs \<longleftrightarrow>
          (\<exists>exs'. exs = re # exs' \<and> map (re_compile R) (pattern_excludes ps) = map Some exs')" for exs
        using True Some by (cases exs) (auto simp: pattern_excludes_def)
      have ins: "pattern_includes (p # ps) = pattern_includes ps"
        using True by (simp add: pattern_includes_def)
      have step: "compile_loop R (p # ps) cp = compile_loop R ps (cp\<lparr>cp_exclude := cp_exclude cp @ [re]\<rparr>)"
        using True Some by (simp add: Let_def)
      have IH: "compile_loop R ps (cp\<lparr>cp_exclude := cp_exclude cp @ [re]\<rparr>) = Inr cp' \<longleftrightarrow>
          (\<exists>ins exs. map (re_compile R) (pattern_includes ps) = map Some ins \<and>
             map (re_compile R) (pattern_excludes ps) = map Some exs \<and>
             cp' = cp\<lparr>cp_exclude := cp_exclude cp @ [re]\<rparr>\<lparr>cp_include := cp_include (cp\<lparr>cp_exclude := cp_exclude cp @ [re]\<rparr>) @ ins,
               cp_exclude := cp_exclude (cp\<lparr>cp_exclude := cp_exclude cp @ [re]\<rparr>) @ exs\<rparr>)"
        using "2.IH" [OF refl refl, of re] True Some by simp
      show ?thesis unfolding step IH ins exs by auto
    qed
  next
    case False
    show ?thesis
    proof (cases "re_compile R p")
      case None
      with False show ?thesis by (auto simp: pattern_includes_def)
    next
      case (Some re)
      have ins: "map (re_compile R) (pattern_includes (p # ps)) = map Some ins \<longleftrightarrow>
          (\<exists>ins'. ins = re # ins' \<and> map (re_compile R) (pattern_includes ps) = map Some ins')" for ins
        using False Some by (cases ins) (auto simp: pattern_includes_def)
      have exs: "pattern_excludes (p # ps) = pattern_excludes ps"
        using False by (simp add: pattern_excludes_def)
      have step: "compile_loop R (p # ps) cp = compile_loop R ps (cp\<lparr>cp_include := cp_include cp @ [re]\<rparr>)"
        using False Some by (simp add: Let_def)
      have IH: "compile_loop R ps (cp\<lparr>cp_include := cp_include cp @ [re]\<rparr>) = Inr cp' \<longleftrightarrow>
          (\<exists>ins exs. map (re_compile R) (pattern_includes ps) = map Some ins \<and>
             map (re_compile R) (pattern_excludes ps) = map Some exs \<and>
             cp' = cp\<lparr>cp_include := cp_include cp @ [re]\<rparr>\<lparr>cp_include := cp_include (cp\<lparr>cp_include := cp_include cp @ [re]\<rparr>) @ ins,
               cp_exclude := cp_exclude (cp\<lparr>cp_include := cp_include cp @ [re]\<rparr>) @ exs\<rparr>)"
        using "2.IH" [OF refl refl, of re] False Some by simp
      show ?thesis unfolding step IH ins exs by auto
    qed
  qed
qed

lemma list_ex_compiled:
  "map (re_compile R) ps = map Some res \<Longrightarrow>
    list_ex (\<lambda>re. re_match R re v) res \<longleftrightarrow> list_ex (\<lambda>p. pattern_hits R p v) ps"
proof (induction ps arbitrary: res)
  case Nil
  then show ?case by simp
next
  case (Cons p ps)
  then show ?case by (cases res) (auto simp: pattern_hits_def)
qed

text \<open>When a pattern list compiles, the compiled matcher decides every value as resolving the
  named patterns and evaluating the list does.\<close>

theorem compiled_match_agrees:
  assumes "compile_patterns R ps pm = Inr cp"
  shows "compiled_match R (Some cp) v \<longleftrightarrow> match_patterns_with_policy R ps v pm"
proof (cases "ps = []")
  case True
  with assms show ?thesis
    by (auto simp: compile_patterns_def compile_patterns_with_warnings_def compiled_match_def
        match_patterns_with_policy_def)
next
  case False
  let ?rs = "resolve_patterns ps pm"
  from assms False obtain ins exs where
      ins: "map (re_compile R) (pattern_includes ?rs) = map Some ins" and
      exs: "map (re_compile R) (pattern_excludes ?rs) = map Some exs" and
      cp: "cp = \<lparr>cp_include = ins, cp_exclude = exs\<rparr>"
    by (auto simp: compile_patterns_def compile_patterns_with_warnings_def compile_loop_Inr)
  have "ins = [] \<longleftrightarrow> pattern_includes ?rs = []" using ins by auto
  with cp list_ex_compiled [OF ins] list_ex_compiled [OF exs] False show ?thesis
    by (simp add: compiled_match_def match_patterns_with_policy_eq match_patterns_def)
qed

lemma compiled_match_agrees_witness:
  "compiled_match go_regexp
     (Some \<lparr>cp_include = [the (re_compile go_regexp ''^v1'')], cp_exclude = [the (re_compile go_regexp ''rc'')]\<rparr>)
     ''v1.2''
   \<longleftrightarrow> match_patterns_with_policy go_regexp [''stable'', ''!re:rc''] ''v1.2'' [''stable'' \<mapsto> ''^v1'']"
proof (rule compiled_match_agrees)
  show "compile_patterns go_regexp [''stable'', ''!re:rc''] [''stable'' \<mapsto> ''^v1''] =
    Inr \<lparr>cp_include = [the (re_compile go_regexp ''^v1'')], cp_exclude = [the (re_compile go_regexp ''rc'')]\<rparr>"
    by code_simp
qed

text \<open>Compilation fails exactly when some resolved pattern does not compile.\<close>

lemma compile_loop_error:
  "compile_loop R ps cp = Inl (InvalidPattern pat) \<Longrightarrow>
    re_compile R pat = None \<and> (pat \<in> set (pattern_includes ps) \<or> pat \<in> set (pattern_excludes ps))"
proof (induction R ps cp rule: compile_loop.induct)
  case (2 R p ps cp)
  then show ?case
    by (auto simp: Let_def pattern_includes_def pattern_excludes_def split: option.splits if_splits)
qed simp

lemma unknown_pattern_warned:
  assumes "is_identifier p" "pm p = None" "\<not> contains_regex_meta p" "p \<in> set ps" "\<not> is_exclude p"
  shows "unknown_pattern_warning p \<in> set (pattern_warnings ps pm)"
proof -
  have "snd (resolve_token_with_warning (if is_exclude p then drop 1 p else p) pm) = unknown_pattern_warning p"
    using assms by (simp add: resolve_token_with_warning_def)
  with assms(4) show ?thesis
    unfolding pattern_warnings_def
    by (force simp: unknown_pattern_warning_def)
qed

text \<open>Conditions: every field that is set must match, and a tag rule needs a tag.\<close>

lemma match_condition_with_iff:
  "match_condition_with R c tag branch \<longleftrightarrow>
    (cond_tag c = [] \<or> (tag \<noteq> [] \<and> match_pattern R (cond_tag c) tag)) \<and>
    (cond_branch c = [] \<or> match_pattern R (cond_branch c) branch)"
  by (auto simp: match_condition_with_def)

lemma match_condition_catch_all:
  "match_condition R env \<lparr>cond_tag = [], cond_branch = []\<rparr>"
  by (simp add: match_condition_def match_condition_with_def)

end
