(* ===== verification/Target_Match.thy ===== *)
theory Target_Match
  imports Patterns
begin

text \<open>
  The one interpreter of \<^verbatim>\<open>when:\<close> (\<^verbatim>\<open>src/src/config/target_match.go\<close>, \<^verbatim>\<open>event.go\<close> and
  \<^verbatim>\<open>CISchedules\<close> of \<^verbatim>\<open>schedules.go\<close>): the CI context read from the environment, the
  canonical event vocabulary, and the eligibility of targets and notifications.

  \<open>condition_holds\<close> is the abstract reading of one condition-set (every dimension that is
  declared admits the run); the theorems show that \<open>TargetEligibility\<close> is the disjunction of it
  over the condition-sets, that a rejection always carries its reason, and that event names are
  canonical whatever their spelling. The reason is kept as a value (\<open>reject_reason\<close>) with the
  arguments of the \<^verbatim>\<open>fmt.Sprintf\<close> that words it; the gate is the text itself.
\<close>

section \<open>The CI context\<close>

type_synonym env = "string \<Rightarrow> string"

definition normalize_event :: "string \<Rightarrow> string" where
  "normalize_event raw =
     (let v = to_lower (trim_space raw) in
      if v = ''web'' \<or> v = ''api'' \<or> v = ''trigger'' \<or> v = ''manual'' \<or> v = ''workflow_dispatch''
      then ''manual''
      else if v = ''push'' \<or> v = ''individualci'' \<or> v = ''batchedci'' \<or> v = ''continuousintegration''
      then ''push''
      else if v = ''schedule'' \<or> v = ''scheduled'' \<or> v = ''cron'' then ''schedule''
      else if v = ''merge_request'' then ''merge_request''
      else if v = ''pull_request'' \<or> v = ''pullrequest'' then ''pull_request''
      else v)"

definition ci_event :: "env \<Rightarrow> string" where
  "ci_event getenv =
     (if getenv ''SF_CI_TAG'' \<noteq> [] \<or> getenv ''CI_COMMIT_TAG'' \<noteq> [] then ''tag''
      else if getenv ''SF_CI_EVENT'' \<noteq> [] \<and> normalize_event (getenv ''SF_CI_EVENT'') \<noteq> []
      then normalize_event (getenv ''SF_CI_EVENT'')
      else ''push'')"

definition ci_branch :: "env \<Rightarrow> string" where
  "ci_branch getenv =
     (if getenv ''SF_CI_BRANCH'' \<noteq> [] then getenv ''SF_CI_BRANCH''
      else if getenv ''CI_COMMIT_BRANCH'' \<noteq> [] then getenv ''CI_COMMIT_BRANCH''
      else if getenv ''GITHUB_REF_NAME'' \<noteq> [] then getenv ''GITHUB_REF_NAME''
      else [])"

definition ci_tag :: "env \<Rightarrow> string" where
  "ci_tag getenv = (if getenv ''SF_CI_TAG'' \<noteq> [] then getenv ''SF_CI_TAG'' else getenv ''CI_COMMIT_TAG'')"

definition ci_provider :: "env \<Rightarrow> string" where
  "ci_provider getenv = getenv ''SF_CI_PROVIDER''"

definition ci_schedules :: "env \<Rightarrow> string list" where
  "ci_schedules getenv =
     filter (\<lambda>id. id \<noteq> []) (map trim_space (split_on (CHR '','') (getenv ''SF_CI_SCHEDULE'')))"

section \<open>Events\<close>

definition push_equivalent :: "string \<Rightarrow> bool" where
  "push_equivalent canonical_event \<longleftrightarrow> canonical_event = ''manual'' \<or> canonical_event = ''schedule''"

definition event_matches :: "string list \<Rightarrow> string \<Rightarrow> bool" where
  "event_matches events current =
     (if events = [] \<or> current = [] then True
      else (let cur = to_lower (trim_space current) in
        list_ex (\<lambda>e. let le = to_lower (trim_space e) in
                   le = cur \<or> (le = ''push'' \<and> push_equivalent cur)) events))"

section \<open>Eligibility\<close>

record target_condition =
  tc_branches :: "string list"
  tc_git_tags :: "string list"
  tc_events :: "string list"
  tc_forges :: "string list"
  tc_outcomes :: "string list"
  tc_signals :: "string list"
  tc_schedules :: "string list"

text \<open>Of a target, eligibility reads the condition-sets only.\<close>

record target_config =
  target_when :: "target_condition list"

datatype reject_reason =
    NoReason
  | EventNotIn string "string list"
  | TagNotIn string "string list"
  | BranchNotIn string "string list"
  | ForgeNotIn string "string list"
  | SchedulesNotIn "string list" "string list"
  | OutcomeNotIn string "string list"
  | SignalsNotIn "string list" "string list"
  | NoConditionMatched string string string string
  | NoNotifyConditionMatched string string string string

record match_result =
  mr_eligible :: bool
  mr_reason :: reject_reason
  mr_gate :: string

text \<open>The run an eligibility check is about, and the policies it resolves names with.\<close>

record ci_context =
  cx_event :: string
  cx_branch :: string
  cx_tag :: string
  cx_forge :: string
  cx_fired :: "string list"
  cx_tag_policies :: "string \<rightharpoonup> string"
  cx_branch_policies :: "string \<rightharpoonup> string"

definition eligible_result :: match_result where
  "eligible_result = \<lparr>mr_eligible = True, mr_reason = NoReason, mr_gate = []\<rparr>"

definition rejected :: "reject_reason \<Rightarrow> string \<Rightarrow> match_result" where
  "rejected reason g = \<lparr>mr_eligible = False, mr_reason = reason, mr_gate = g\<rparr>"

definition gate :: "string \<Rightarrow> string list \<Rightarrow> string" where
  "gate key values = key @ '': '' @ join '', '' values"

definition contains_fold :: "string list \<Rightarrow> string \<Rightarrow> bool" where
  "contains_fold xs v = list_ex (\<lambda>e. equal_fold (trim_space e) v) xs"

definition any_fold :: "string list \<Rightarrow> string list \<Rightarrow> bool" where
  "any_fold want have_list = list_ex (\<lambda>h. contains_fold want h) have_list"

definition forge_matches :: "string list \<Rightarrow> string \<Rightarrow> bool" where
  "forge_matches forges forge = list_ex (\<lambda>f. equal_fold (trim_space f) forge) forges"

definition condition_eligibility ::
  "'re regexp_pkg \<Rightarrow> target_condition \<Rightarrow> ci_context \<Rightarrow> match_result" where
  "condition_eligibility R c cx =
     (if \<not> event_matches (tc_events c) (cx_event cx) then
        rejected (EventNotIn (cx_event cx) (tc_events c)) (gate ''events'' (tc_events c))
      else if tc_git_tags c \<noteq> [] \<and> cx_tag cx \<noteq> [] \<and>
          \<not> match_patterns_with_policy R (tc_git_tags c) (cx_tag cx) (cx_tag_policies cx) then
        rejected (TagNotIn (cx_tag cx) (tc_git_tags c)) (gate ''git_tags'' (tc_git_tags c))
      else if tc_branches c \<noteq> [] \<and>
          \<not> match_patterns_with_policy R (tc_branches c) (cx_branch cx) (cx_branch_policies cx) then
        rejected (BranchNotIn (cx_branch cx) (tc_branches c)) (gate ''branches'' (tc_branches c))
      else if tc_forges c \<noteq> [] \<and> \<not> forge_matches (tc_forges c) (cx_forge cx) then
        rejected (ForgeNotIn (cx_forge cx) (tc_forges c)) (gate ''forges'' (tc_forges c))
      else if tc_schedules c \<noteq> [] \<and> \<not> any_fold (tc_schedules c) (cx_fired cx) then
        rejected (SchedulesNotIn (cx_fired cx) (tc_schedules c)) (gate ''schedules'' (tc_schedules c))
      else eligible_result)"

text \<open>The loop over condition-sets: the first eligible result, or the distinct gates.\<close>

fun eligibility_loop ::
  "(target_condition \<Rightarrow> match_result) \<Rightarrow> target_condition list \<Rightarrow> string list \<Rightarrow> match_result + string list" where
  "eligibility_loop check [] gates = Inr gates"
| "eligibility_loop check (c # cs) gates =
     (let r = check c in
      if mr_eligible r then Inl r
      else eligibility_loop check cs (if mr_gate r \<in> set gates then gates else gates @ [mr_gate r]))"

definition target_eligibility ::
  "'re regexp_pkg \<Rightarrow> target_config \<Rightarrow> ci_context \<Rightarrow> match_result" where
  "target_eligibility R t cx =
     (case target_when t of
        [] \<Rightarrow> eligible_result
      | [c] \<Rightarrow> condition_eligibility R c cx
      | cs \<Rightarrow>
          (case eligibility_loop (\<lambda>c. condition_eligibility R c cx) cs [] of
             Inl r \<Rightarrow> r
           | Inr gates \<Rightarrow>
               rejected (NoConditionMatched (cx_event cx) (cx_tag cx) (cx_branch cx) (cx_forge cx))
                 (join '' | '' gates)))"

definition notify_condition_eligibility ::
  "'re regexp_pkg \<Rightarrow> target_condition \<Rightarrow> string \<Rightarrow> string list \<Rightarrow> ci_context \<Rightarrow> match_result" where
  "notify_condition_eligibility R c outcome signals cx =
     (if tc_outcomes c \<noteq> [] \<and> \<not> contains_fold (tc_outcomes c) outcome then
        rejected (OutcomeNotIn outcome (tc_outcomes c)) []
      else if tc_signals c \<noteq> [] \<and> \<not> any_fold (tc_signals c) signals then
        rejected (SignalsNotIn signals (tc_signals c)) []
      else condition_eligibility R c cx)"

definition notification_eligibility ::
  "'re regexp_pkg \<Rightarrow> target_condition list \<Rightarrow> string \<Rightarrow> string list \<Rightarrow> ci_context \<Rightarrow> match_result" where
  "notification_eligibility R conds outcome signals cx =
     (case conds of
        [] \<Rightarrow> eligible_result
      | [c] \<Rightarrow> notify_condition_eligibility R c outcome signals cx
      | cs \<Rightarrow>
          (case find mr_eligible (map (\<lambda>c. notify_condition_eligibility R c outcome signals cx) cs) of
             Some r \<Rightarrow> r
           | None \<Rightarrow>
               rejected (NoNotifyConditionMatched outcome (cx_event cx) (cx_tag cx) (cx_branch cx)) []))"

definition target_matches :: "'re regexp_pkg \<Rightarrow> target_config \<Rightarrow> ci_context \<Rightarrow> bool" where
  "target_matches R t cx = mr_eligible (target_eligibility R t cx)"

text \<open>
  \<open>TargetMatchesEnv\<close>: the tag policies are the map loop over \<^verbatim>\<open>cfg.Git.Tags\<close> (id, pattern),
  where a later entry of the same id overwrites an earlier one.
\<close>

definition env_context :: "env \<Rightarrow> (string \<times> string) list \<Rightarrow> (string \<rightharpoonup> string) \<Rightarrow> ci_context" where
  "env_context getenv git_tags git_branches =
     \<lparr>cx_event = ci_event getenv, cx_branch = ci_branch getenv, cx_tag = ci_tag getenv,
      cx_forge = ci_provider getenv, cx_fired = ci_schedules getenv,
      cx_tag_policies = foldl (\<lambda>m (i, p). m(i \<mapsto> p)) Map.empty git_tags,
      cx_branch_policies = git_branches\<rparr>"

definition target_matches_env ::
  "'re regexp_pkg \<Rightarrow> env \<Rightarrow> target_config \<Rightarrow> (string \<times> string) list \<Rightarrow> (string \<rightharpoonup> string) \<Rightarrow> bool" where
  "target_matches_env R getenv t git_tags git_branches =
     target_matches R t (env_context getenv git_tags git_branches)"

definition when_matches_env ::
  "'re regexp_pkg \<Rightarrow> env \<Rightarrow> target_condition list \<Rightarrow> (string \<times> string) list \<Rightarrow> (string \<rightharpoonup> string) \<Rightarrow> bool" where
  "when_matches_env R getenv conds git_tags git_branches =
     target_matches_env R getenv \<lparr>target_when = conds\<rparr> git_tags git_branches"

definition target_is_unconditional :: "target_config \<Rightarrow> bool" where
  "target_is_unconditional t =
     (\<not> list_ex (\<lambda>c. tc_events c \<noteq> [] \<or> tc_branches c \<noteq> [] \<or> tc_git_tags c \<noteq> [] \<or> tc_forges c \<noteq> [])
        (target_when t))"

section \<open>The abstract reading of a condition-set\<close>

definition condition_holds :: "'re regexp_pkg \<Rightarrow> target_condition \<Rightarrow> ci_context \<Rightarrow> bool" where
  "condition_holds R c cx \<longleftrightarrow>
     event_matches (tc_events c) (cx_event cx) \<and>
     (cx_tag cx = [] \<or> match_patterns_with_policy R (tc_git_tags c) (cx_tag cx) (cx_tag_policies cx)) \<and>
     match_patterns_with_policy R (tc_branches c) (cx_branch cx) (cx_branch_policies cx) \<and>
     (tc_forges c = [] \<or> (\<exists>f \<in> set (tc_forges c). equal_fold (trim_space f) (cx_forge cx))) \<and>
     (tc_schedules c = [] \<or>
       (\<exists>s \<in> set (tc_schedules c). \<exists>f \<in> set (cx_fired cx). equal_fold (trim_space s) f))"

definition notification_holds ::
  "'re regexp_pkg \<Rightarrow> target_condition \<Rightarrow> string \<Rightarrow> string list \<Rightarrow> ci_context \<Rightarrow> bool" where
  "notification_holds R c outcome signals cx \<longleftrightarrow>
     (tc_outcomes c = [] \<or> (\<exists>x \<in> set (tc_outcomes c). equal_fold (trim_space x) outcome)) \<and>
     (tc_signals c = [] \<or> (\<exists>w \<in> set (tc_signals c). \<exists>s \<in> set signals. equal_fold (trim_space w) s)) \<and>
     condition_holds R c cx"

lemma contains_fold_iff: "contains_fold xs v \<longleftrightarrow> (\<exists>e \<in> set xs. equal_fold (trim_space e) v)"
  by (simp add: contains_fold_def list_ex_iff)

lemma any_fold_iff: "any_fold want hs \<longleftrightarrow> (\<exists>w \<in> set want. \<exists>h \<in> set hs. equal_fold (trim_space w) h)"
  by (auto simp: any_fold_def list_ex_iff contains_fold_iff)

lemma rejected_simps [simp]:
  "\<not> mr_eligible (rejected r g)" "mr_reason (rejected r g) = r" "mr_gate (rejected r g) = g"
  by (simp_all add: rejected_def)

lemma eligible_result_simps [simp]:
  "mr_eligible eligible_result" "mr_reason eligible_result = NoReason"
  by (simp_all add: eligible_result_def)

lemma match_patterns_with_policy_Nil [simp]: "match_patterns_with_policy R [] v pm"
  by (simp add: match_patterns_with_policy_def)

lemma condition_eligibility_iff: "mr_eligible (condition_eligibility R c cx) \<longleftrightarrow> condition_holds R c cx"
  by (auto simp: condition_eligibility_def condition_holds_def forge_matches_def list_ex_iff any_fold_iff)

lemma condition_eligibility_reason:
  "mr_reason (condition_eligibility R c cx) = NoReason \<longleftrightarrow> mr_eligible (condition_eligibility R c cx)"
  by (simp add: condition_eligibility_def)

lemma eligibility_loop_Inl:
  "eligibility_loop check cs gates = Inl r \<Longrightarrow> \<exists>c \<in> set cs. r = check c \<and> mr_eligible r"
  by (induction cs arbitrary: gates) (auto simp: Let_def split: if_splits)

lemma eligibility_loop_Inr:
  "eligibility_loop check cs gates = Inr gs \<Longrightarrow>
    (\<forall>c \<in> set cs. \<not> mr_eligible (check c)) \<and>
    set gs = set gates \<union> (mr_gate \<circ> check) ` set cs \<and> (distinct gates \<longrightarrow> distinct gs)"
  by (induction cs arbitrary: gates) (auto simp: Let_def split: if_splits)

lemma target_eligibility_cases:
  obtains (empty) "target_when t = []"
  | (one) c where "target_when t = [c]"
  | (many) c d cs where "target_when t = c # d # cs"
  by (metis neq_Nil_conv)

text \<open>C2: A target is eligible exactly when it declares no condition-set or one of its
  condition-sets admits the run in every dimension it declares.\<close>

theorem target_eligibility_iff:
  "mr_eligible (target_eligibility R t cx) \<longleftrightarrow>
    target_when t = [] \<or> (\<exists>c \<in> set (target_when t). condition_holds R c cx)"
proof (cases t rule: target_eligibility_cases)
  case empty
  then show ?thesis by (simp add: target_eligibility_def)
next
  case (one c)
  then show ?thesis by (simp add: target_eligibility_def condition_eligibility_iff)
next
  case (many c d cs)
  let ?l = "eligibility_loop (\<lambda>c. condition_eligibility R c cx) (c # d # cs) []"
  show ?thesis
  proof (cases ?l)
    case (Inl r)
    then obtain e where "e \<in> set (c # d # cs)" "r = condition_eligibility R e cx" "mr_eligible r"
      using eligibility_loop_Inl by meson
    with Inl many show ?thesis
      using condition_eligibility_iff by (auto simp: target_eligibility_def simp del: eligibility_loop.simps)
  next
    case (Inr gs)
    then have "\<forall>e \<in> set (c # d # cs). \<not> mr_eligible (condition_eligibility R e cx)"
      using eligibility_loop_Inr by meson
    with Inr many show ?thesis
      using condition_eligibility_iff by (auto simp: target_eligibility_def simp del: eligibility_loop.simps)
  qed
qed

text \<open>The decision and its explanation agree: a target carries a rejection reason exactly
  when it is not eligible.\<close>

theorem target_eligibility_reason:
  "mr_reason (target_eligibility R t cx) = NoReason \<longleftrightarrow> mr_eligible (target_eligibility R t cx)"
proof (cases t rule: target_eligibility_cases)
  case (many c d cs)
  let ?l = "eligibility_loop (\<lambda>c. condition_eligibility R c cx) (c # d # cs) []"
  show ?thesis
  proof (cases ?l)
    case (Inl r)
    then obtain e where "r = condition_eligibility R e cx"
      using eligibility_loop_Inl by meson
    with Inl many show ?thesis
      using condition_eligibility_reason by (simp add: target_eligibility_def del: eligibility_loop.simps)
  next
    case (Inr gs)
    with many show ?thesis by (simp add: target_eligibility_def del: eligibility_loop.simps)
  qed
qed (simp_all add: target_eligibility_def condition_eligibility_reason)

lemma notify_condition_eligibility_iff:
  "mr_eligible (notify_condition_eligibility R c outcome signals cx) \<longleftrightarrow>
    notification_holds R c outcome signals cx"
  by (auto simp: notify_condition_eligibility_def notification_holds_def contains_fold_iff any_fold_iff
      condition_eligibility_iff)

text \<open>A notification goes out exactly when it declares no condition-set or one of them admits
  the run's outcome, its signals and its CI context.\<close>

theorem notification_eligibility_iff:
  "mr_eligible (notification_eligibility R conds outcome signals cx) \<longleftrightarrow>
    conds = [] \<or> (\<exists>c \<in> set conds. notification_holds R c outcome signals cx)"
proof -
  have many: "mr_eligible (case find mr_eligible (map (\<lambda>c. notify_condition_eligibility R c outcome signals cx) cs)
        of Some r \<Rightarrow> r | None \<Rightarrow> rejected x g) \<longleftrightarrow>
      (\<exists>c \<in> set cs. notification_holds R c outcome signals cx)" for cs x g
  proof (cases "find mr_eligible (map (\<lambda>c. notify_condition_eligibility R c outcome signals cx) cs)")
    case None
    then have "\<forall>c \<in> set cs. \<not> notification_holds R c outcome signals cx"
      by (auto simp: find_None_iff notify_condition_eligibility_iff)
    with None show ?thesis by simp
  next
    case (Some r)
    then obtain c where "c \<in> set cs" "mr_eligible (notify_condition_eligibility R c outcome signals cx)"
        "mr_eligible r"
      by (force simp: find_Some_iff dest: nth_mem)
    with Some show ?thesis by (auto simp: notify_condition_eligibility_iff)
  qed
  show ?thesis
  proof (cases conds)
    case Nil
    then show ?thesis by (simp add: notification_eligibility_def)
  next
    case (Cons c cs)
    show ?thesis
    proof (cases cs)
      case Nil
      with Cons show ?thesis
        by (simp add: notification_eligibility_def notify_condition_eligibility_iff)
    next
      case (Cons d ds)
      have "notification_eligibility R (c # d # ds) outcome signals cx =
          (case find mr_eligible (map (\<lambda>c. notify_condition_eligibility R c outcome signals cx) (c # d # ds))
           of Some r \<Rightarrow> r | None \<Rightarrow> rejected (NoNotifyConditionMatched outcome (cx_event cx) (cx_tag cx) (cx_branch cx)) [])"
        by (simp only: notification_eligibility_def list.case)
      then show ?thesis
        unfolding \<open>conds = c # cs\<close> Cons by (simp only: many list.distinct simp_thms)
    qed
  qed
qed

section \<open>Events in the canonical vocabulary\<close>

lemma normalize_event_trim_lower: "normalize_event (to_lower (trim_space e)) = normalize_event e"
  by (simp add: normalize_event_def trim_space_to_lower)

lemma normalize_event_idem: "normalize_event (normalize_event e) = normalize_event e"
proof -
  let ?v = "to_lower (trim_space e)"
  have canon: "normalize_event ''manual'' = ''manual''" "normalize_event ''push'' = ''push''"
      "normalize_event ''schedule'' = ''schedule''" "normalize_event ''merge_request'' = ''merge_request''"
      "normalize_event ''pull_request'' = ''pull_request''"
    by code_simp+
  have "normalize_event e \<in> {''manual'', ''push'', ''schedule'', ''merge_request'', ''pull_request''}
      \<or> normalize_event e = ?v"
    by (simp add: normalize_event_def Let_def)
  then show "normalize_event (normalize_event e) = normalize_event e"
  proof
    assume "normalize_event e = ?v"
    then show ?thesis using normalize_event_trim_lower by metis
  qed (use canon in auto)
qed

text \<open>Normalising an event is idempotent and blind to case and surrounding white space.\<close>

theorem normalize_event_canonical:
  "normalize_event (normalize_event e) = normalize_event e \<and>
   normalize_event (to_lower (trim_space e)) = normalize_event e"
  by (intro conjI normalize_event_idem normalize_event_trim_lower)

lemma event_matches_iff:
  "event_matches events current \<longleftrightarrow>
    events = [] \<or> current = [] \<or>
    (\<exists>e \<in> set events. to_lower (trim_space e) = to_lower (trim_space current) \<or>
       (to_lower (trim_space e) = ''push'' \<and> push_equivalent (to_lower (trim_space current))))"
  by (auto simp: event_matches_def Let_def list_ex_iff)

lemma event_push_covers_scheduled:
  "event_matches [''push''] ''manual'' \<and> event_matches [''push''] ''schedule'' \<and>
   \<not> event_matches [''manual''] ''push'' \<and> \<not> event_matches [''schedule''] ''push''"
  by code_simp

section \<open>Unconditional targets\<close>

text \<open>A target with no condition on any of the five dimensions is eligible everywhere.\<close>

lemma unconditional_without_schedules:
  assumes "target_is_unconditional t" "\<forall>c \<in> set (target_when t). tc_schedules c = []"
  shows "target_matches R t cx"
proof -
  have "condition_holds R c cx" if "c \<in> set (target_when t)" for c
    using that assms by (auto simp: target_is_unconditional_def condition_holds_def list_ex_iff event_matches_def)
  then show ?thesis
    by (cases "target_when t") (auto simp: target_matches_def target_eligibility_iff)
qed

text \<open>The probe for unconditional targets does not read \<^verbatim>\<open>schedules:\<close>: a target restricted
  to a schedule is reported as unconditional although no run outside that schedule is eligible.\<close>

theorem schedule_only_target_reported_unconditional:
  "target_is_unconditional
     \<lparr>target_when = [\<lparr>tc_branches = [], tc_git_tags = [], tc_events = [], tc_forges = [],
        tc_outcomes = [], tc_signals = [], tc_schedules = [''nightly'']\<rparr>]\<rparr> \<and>
   \<not> target_matches R
     \<lparr>target_when = [\<lparr>tc_branches = [], tc_git_tags = [], tc_events = [], tc_forges = [],
        tc_outcomes = [], tc_signals = [], tc_schedules = [''nightly'']\<rparr>]\<rparr>
     \<lparr>cx_event = ''push'', cx_branch = ''main'', cx_tag = [], cx_forge = ''github'', cx_fired = [],
      cx_tag_policies = Map.empty, cx_branch_policies = Map.empty\<rparr>"
  by (simp add: target_is_unconditional_def target_matches_def target_eligibility_def
      condition_eligibility_iff condition_holds_def)

text \<open>Adding a condition-set never takes eligibility away once there is one.\<close>

lemma target_matches_mono:
  assumes "set (target_when t) \<subseteq> set (target_when u)" "target_when t \<noteq> []" "target_matches R t cx"
  shows "target_matches R u cx"
  using assms unfolding target_matches_def target_eligibility_iff by auto

lemma ci_event_known: "ci_event getenv \<noteq> []"
  by (simp add: ci_event_def)

lemma ci_event_canonical: "normalize_event (ci_event getenv) = ci_event getenv"
proof -
  have "normalize_event ''tag'' = ''tag''" "normalize_event ''push'' = ''push''" by code_simp+
  then show ?thesis by (simp add: ci_event_def normalize_event_idem)
qed

end
