(* ===== verification/Go_Time.thy ===== *)
theory Go_Time
  imports SF_Prelude
begin

text \<open>
  The part of Go's \<open>time\<close> package the retention engine uses: instants with a location,
  the proleptic Gregorian calendar (\<open>Year\<close>, \<open>Month\<close>, \<open>Day\<close>, \<open>Weekday\<close>, \<open>time.Date\<close>,
  \<open>AddDate\<close> by days), \<open>After\<close>, \<open>IsZero\<close>, and the equality of \<^verbatim>\<open>time.Time\<close> as a map
  key, which compares the location as well as the instant.

  An instant is a number of nanoseconds since the Unix epoch. A location has an identity
  (Go compares location pointers) and a fixed offset from UTC in seconds; a location whose
  offset changes over the year is not modelled.
\<close>

record location =
  loc_id :: nat
  loc_offset :: int

record gtime =
  t_nanos :: int
  t_loc :: location

definition utc :: location where
  "utc = \<lparr>loc_id = 0, loc_offset = 0\<rparr>"

abbreviation nanos_per_sec :: int where
  "nanos_per_sec \<equiv> 1000000000"

abbreviation secs_per_day :: int where
  "secs_per_day \<equiv> 86400"

section \<open>The calendar\<close>

text \<open>Days are counted from 1 January of year 1; the Unix epoch is day 719162.\<close>

definition epoch_day :: int where
  "epoch_day = 719162"

definition days_before_year :: "int \<Rightarrow> int" where
  "days_before_year y = 365 * (y - 1) + (y - 1) div 4 - (y - 1) div 100 + (y - 1) div 400"

definition is_leap :: "int \<Rightarrow> bool" where
  "is_leap y \<longleftrightarrow> y mod 4 = 0 \<and> (y mod 100 \<noteq> 0 \<or> y mod 400 = 0)"

text \<open>Year and day of the year (from 0) of a day number: cycles of 400, 100, 4 and 1 years.\<close>

definition year_yday :: "int \<Rightarrow> int \<times> int" where
  "year_yday d =
     (let n400 = d div 146097; d1 = d mod 146097;
          n100 = min 3 (d1 div 36524); d2 = d1 - n100 * 36524;
          n4 = d2 div 1461; d3 = d2 mod 1461;
          n1 = min 3 (d3 div 365)
      in (400 * n400 + 100 * n100 + 4 * n4 + n1 + 1, d3 - n1 * 365))"

text \<open>Days before each month in a common year; from March on a leap year adds one.\<close>

definition days_before_month :: "bool \<Rightarrow> nat \<Rightarrow> int" where
  "days_before_month leap m =
     [0, 31, 59, 90, 120, 151, 181, 212, 243, 273, 304, 334] ! (m - 1)
     + (if leap \<and> 2 < m then 1 else 0)"

definition month_of_yday :: "bool \<Rightarrow> int \<Rightarrow> nat" where
  "month_of_yday leap yd =
     length (takeWhile (\<lambda>m. days_before_month leap m \<le> yd) [1..<13])"

definition civil_of_day :: "int \<Rightarrow> int \<times> nat \<times> int" where
  "civil_of_day d =
     (let (y, yd) = year_yday d; m = month_of_yday (is_leap y) yd
      in (y, m, yd - days_before_month (is_leap y) m + 1))"

definition day_of_civil :: "int \<Rightarrow> nat \<Rightarrow> int \<Rightarrow> int" where
  "day_of_civil y m d = days_before_year y + days_before_month (is_leap y) m + (d - 1)"

section \<open>Methods of \<^verbatim>\<open>time.Time\<close>\<close>

definition local_secs :: "gtime \<Rightarrow> int" where
  "local_secs t = t_nanos t div nanos_per_sec + loc_offset (t_loc t)"

definition local_day :: "gtime \<Rightarrow> int" where
  "local_day t = epoch_day + local_secs t div secs_per_day"

definition t_year :: "gtime \<Rightarrow> int" where
  "t_year t = fst (civil_of_day (local_day t))"

definition t_month :: "gtime \<Rightarrow> nat" where
  "t_month t = fst (snd (civil_of_day (local_day t)))"

definition t_day :: "gtime \<Rightarrow> int" where
  "t_day t = snd (snd (civil_of_day (local_day t)))"

text \<open>Sunday is 0; day 0 (1 January of year 1) was a Monday.\<close>

definition t_weekday :: "gtime \<Rightarrow> int" where
  "t_weekday t = (local_day t + 1) mod 7"

text \<open>\<open>time.Date(y, m, d, 0, 0, 0, 0, loc)\<close>.\<close>

definition go_date :: "int \<Rightarrow> nat \<Rightarrow> int \<Rightarrow> location \<Rightarrow> gtime" where
  "go_date y m d l =
     \<lparr>t_nanos = ((day_of_civil y m d - epoch_day) * secs_per_day - loc_offset l) * nanos_per_sec,
      t_loc = l\<rparr>"

text \<open>\<open>t.AddDate(0, 0, n)\<close>.\<close>

definition add_days :: "int \<Rightarrow> gtime \<Rightarrow> gtime" where
  "add_days n t = t\<lparr>t_nanos := t_nanos t + n * secs_per_day * nanos_per_sec\<rparr>"

definition t_after :: "gtime \<Rightarrow> gtime \<Rightarrow> bool" where
  "t_after t u \<longleftrightarrow> t_nanos u < t_nanos t"

text \<open>The zero time: 1 January of year 1, 00:00 UTC.\<close>

definition zero_time :: gtime where
  "zero_time = \<lparr>t_nanos = - epoch_day * secs_per_day * nanos_per_sec, t_loc = utc\<rparr>"

definition is_zero :: "gtime \<Rightarrow> bool" where
  "is_zero t \<longleftrightarrow> t_nanos t = t_nanos zero_time"

section \<open>The calendar is a bijection\<close>

lemma min_div_bounds:
  fixes d k :: int
  assumes "0 \<le> d" "0 < k" "q = min 3 (d div k)"
  shows "0 \<le> q" "q \<le> 3" "q * k \<le> d" "q < 3 \<Longrightarrow> d < q * k + k"
proof -
  have nn: "0 \<le> d div k" using assms by (simp add: pos_imp_zdiv_nonneg_iff)
  then show "0 \<le> q" "q \<le> 3" using assms by auto
  have eq: "d div k * k + d mod k = d" "0 \<le> d mod k" "d mod k < k"
    using assms by simp_all
  have le: "d div k * k \<le> d" using eq by linarith
  have "q * k \<le> d div k * k" using assms by (intro mult_right_mono) auto
  with le show "q * k \<le> d" by linarith
  show "d < q * k + k" if "q < 3"
  proof -
    from that assms have "q = d div k" by auto
    with eq(1,3) show ?thesis by (metis add_less_cancel_left)
  qed
qed

lemma year_yday_bounds:
  assumes "year_yday d = (y, yd)"
  shows "days_before_year y + yd = d" "0 \<le> yd" "yd \<le> 365" "yd = 365 \<Longrightarrow> is_leap y"
proof -
  define n400 d1 where "n400 = d div 146097" and "d1 = d mod 146097"
  define n100 where "n100 = min 3 (d1 div 36524)"
  define d2 where "d2 = d1 - n100 * 36524"
  define n4 d3 where "n4 = d2 div 1461" and "d3 = d2 mod 1461"
  define n1 where "n1 = min 3 (d3 div 365)"
  have y: "y = 400 * n400 + 100 * n100 + 4 * n4 + n1 + 1" and yd: "yd = d3 - n1 * 365"
    using assms unfolding year_yday_def Let_def n400_def d1_def n100_def d2_def n4_def d3_def n1_def
    by (simp_all only: prod.inject)
  have d: "d = n400 * 146097 + d1" and d1: "0 \<le> d1" "d1 < 146097"
    by (simp_all add: n400_def d1_def)
  have n100: "0 \<le> n100" "n100 \<le> 3" "n100 * 36524 \<le> d1" "n100 < 3 \<Longrightarrow> d1 < n100 * 36524 + 36524"
    using min_div_bounds [OF d1(1) _ n100_def] by simp_all
  have d2: "0 \<le> d2" "d2 < 36525" "n100 < 3 \<Longrightarrow> d2 < 36524"
    using n100 d1 unfolding d2_def by (cases "n100 < 3"; simp)+
  have d2n4: "d2 = n4 * 1461 + d3" and d3: "0 \<le> d3" "d3 < 1461" and n4: "0 \<le> n4" "n4 \<le> 24"
    using d2 by (simp_all add: n4_def d3_def)
  have n1: "0 \<le> n1" "n1 \<le> 3" "n1 * 365 \<le> d3" "n1 < 3 \<Longrightarrow> d3 < n1 * 365 + 365"
    using min_div_bounds [OF d3(1) _ n1_def] by simp_all
  show "0 \<le> yd" using n1 yd by linarith
  show yd365: "yd \<le> 365" using n1 d3 yd by (cases "n1 < 3") auto
  have q4: "(y - 1) div 4 = 100 * n400 + 25 * n100 + n4"
    using n1 y by simp
  have q100: "(y - 1) div 100 = 4 * n400 + n100"
    using n1 n4 y by simp
  have q400: "(y - 1) div 400 = n400"
    using n1 n4 n100 y by simp
  show "days_before_year y + yd = d"
    unfolding days_before_year_def q4 q100 q400
    using y yd d d2n4 d2_def by simp
  show "is_leap y" if "yd = 365"
  proof -
    from that yd n1 d3 have n1_3: "n1 = 3" by (cases "n1 < 3") auto
    with that yd have d3v: "d3 = 1460" by simp
    from y n1_3 have y4: "y = 4 * (100 * n400 + 25 * n100 + n4 + 1)" by simp
    then have m4: "y mod 4 = 0" by simp
    show ?thesis
    proof (cases "n4 = 24")
      case True
      with d3v d2n4 have "d2 = 36524" by simp
      with d2 n100 have "n100 = 3" by linarith
      with True y n1_3 have "y = 400 * (n400 + 1)" by simp
      then have "y mod 400 = 0" by simp
      with m4 show ?thesis by (simp add: is_leap_def)
    next
      case False
      with n4 have n4': "n4 \<le> 23" by simp
      have "y = 100 * (4 * n400 + n100) + (4 * n4 + 4)" using y n1_3 by simp
      then have "y mod 100 = (4 * n4 + 4) mod 100" by (simp only: mod_mult_self4)
      also have "\<dots> = 4 * n4 + 4" using n4 n4' by simp
      finally have "y mod 100 \<noteq> 0" using n4 by simp
      with m4 show ?thesis by (simp add: is_leap_def)
    qed
  qed
qed

lemma day_of_civil_of_day: "civil_of_day d = (y, m, dd) \<Longrightarrow> day_of_civil y m dd = d"
  using year_yday_bounds(1) [of d]
  by (auto simp: civil_of_day_def day_of_civil_def Let_def split: prod.splits)

lemma div_pred:
  fixes y k :: int
  assumes "1 < k"
  shows "y div k = (y - 1) div k + (if y mod k = 0 then 1 else 0)"
proof (cases "y mod k = 0")
  case True
  then have "k * (y div k) = y" by (metis add.right_neutral mult_div_mod_eq)
  then have "y - 1 = k * (y div k - 1) + (k - 1)" by (simp add: right_diff_distrib)
  then have "(y - 1) div k = y div k - 1"
    by (rule int_div_pos_eq) (use assms in simp_all)
  with True show ?thesis by simp
next
  case False
  have eq: "y - 1 = k * (y div k) + (y mod k - 1)" by simp
  have pos: "0 < y mod k"
    using False assms pos_mod_sign [of k y] by linarith
  have "y mod k < k" using assms by simp
  with eq have "(y - 1) div k = y div k"
    by (intro int_div_pos_eq [OF eq]) (use pos in simp_all)
  with False show ?thesis by simp
qed

lemma days_before_year_Suc:
  "days_before_year (y + 1) = days_before_year y + 365 + (if is_leap y then 1 else 0)"
proof -
  have "y mod 4 = y mod 100 mod 4" and "y mod 100 = y mod 400 mod 100"
    by (simp_all add: mod_mod_cancel)
  then have dvds: "y mod 400 = 0 \<Longrightarrow> y mod 100 = 0" "y mod 100 = 0 \<Longrightarrow> y mod 4 = 0" by simp_all
  have lhs: "days_before_year (y + 1) = 365 * y + y div 4 - y div 100 + y div 400"
    by (simp add: days_before_year_def)
  have rhs: "days_before_year y = 365 * (y - 1) + (y - 1) div 4 - (y - 1) div 100 + (y - 1) div 400"
    by (simp add: days_before_year_def)
  have divs: "y div 4 = (y - 1) div 4 + (if y mod 4 = 0 then 1 else 0)"
    "y div 100 = (y - 1) div 100 + (if y mod 100 = 0 then 1 else 0)"
    "y div 400 = (y - 1) div 400 + (if y mod 400 = 0 then 1 else 0)"
    using div_pred [of _ y] by simp_all
  show ?thesis
    unfolding lhs rhs divs is_leap_def
    using dvds by (cases "y mod 4 = 0"; cases "y mod 100 = 0"; cases "y mod 400 = 0") simp_all
qed

lemma days_before_year_mono: "y < z \<Longrightarrow> days_before_year y + 365 \<le> days_before_year z"
proof (induction z rule: int_gr_induct)
  case base
  then show ?case by (simp add: days_before_year_Suc)
next
  case (step z)
  then show ?case using days_before_year_Suc [of z] by (auto split: if_splits)
qed

lemma year_yday_iff:
  "year_yday d = (y, yd) \<longleftrightarrow>
     d = days_before_year y + yd \<and> 0 \<le> yd \<and> days_before_year y + yd < days_before_year (y + 1)"
proof -
  obtain y' yd' where e: "year_yday d = (y', yd')" by fastforce
  have r: "d = days_before_year y' + yd'" "0 \<le> yd'" "d < days_before_year (y' + 1)"
    using year_yday_bounds [OF e] by (cases "yd' = 365"; simp add: days_before_year_Suc)+
  have "y' = y" if "days_before_year y \<le> d" "d < days_before_year (y + 1)"
  proof (rule ccontr)
    assume "y' \<noteq> y"
    then consider "y' + 1 \<le> y" | "y + 1 \<le> y'" by linarith
    then show False
    proof cases
      case 1
      then have "days_before_year (y' + 1) \<le> days_before_year y"
        using days_before_year_mono [of "y' + 1" y] by (cases "y' + 1 = y") auto
      with that r show False by linarith
    next
      case 2
      then have "days_before_year (y + 1) \<le> days_before_year y'"
        using days_before_year_mono [of "y + 1" y'] by (cases "y + 1 = y'") auto
      with that r show False by linarith
    qed
  qed
  with e r show ?thesis by auto
qed

lemma days_before_month_simps [simp]:
  "days_before_month l 1 = 0" "days_before_month l (Suc 0) = 0"
  by (simp_all add: days_before_month_def)

lemma month_of_yday_bounds:
  assumes "0 \<le> yd"
  shows "1 \<le> month_of_yday l yd" "month_of_yday l yd \<le> 12"
    "days_before_month l (month_of_yday l yd) \<le> yd"
proof -
  let ?P = "\<lambda>m. days_before_month l m \<le> yd"
  let ?t = "takeWhile ?P [1..<13]"
  have upt: "[1..<13] = 1 # [2..<13]" by (simp add: upt_conv_Cons numeral_eq_Suc)
  then have ne: "?t \<noteq> []" using assms by simp
  then show one: "1 \<le> month_of_yday l yd"
    unfolding month_of_yday_def by (cases ?t) auto
  have "length ?t \<le> length [1..<13]" by (rule length_takeWhile_le)
  then show "month_of_yday l yd \<le> 12" by (simp add: month_of_yday_def)
  have "length ?t - 1 < length ?t" using ne by simp
  then have "?t ! (length ?t - 1) = [1..<13] ! (length ?t - 1)"
    by (rule takeWhile_nth)
  also have "\<dots> = length ?t" using \<open>length ?t \<le> length [1..<13]\<close> ne by (cases ?t) (auto simp: nth_upt)
  finally have "length ?t \<in> set ?t"
    by (metis \<open>length ?t - 1 < length ?t\<close> nth_mem)
  then show "days_before_month l (month_of_yday l yd) \<le> yd"
    unfolding month_of_yday_def by (rule set_takeWhileD [THEN conjunct2])
qed

lemma civil_of_day_bounds:
  assumes "civil_of_day d = (y, m, dd)"
  shows "1 \<le> m" "m \<le> 12" "1 \<le> dd"
  using assms month_of_yday_bounds year_yday_bounds(2)
  by (auto simp: civil_of_day_def Let_def split: prod.splits)

lemma month_of_first:
  assumes "1 \<le> m" "m \<le> 12"
  shows "month_of_yday l (days_before_month l m) = m"
proof -
  have m: "m \<in> set [1,2,3,4,5,6,7,8,9,10,11,12]" using assms by (auto simp: numeral_eq_Suc le_Suc_eq)
  have upt: "[1..<13] = [1,2,3,4,5,6,7,8,9,10,11,12 :: nat]" by code_simp
  show ?thesis
    unfolding month_of_yday_def upt using m
    by (cases l; simp only: list.set; elim insertE emptyE; simp add: days_before_month_def)
qed

lemma days_before_month_bounds:
  assumes "1 \<le> m" "m \<le> 12"
  shows "0 \<le> days_before_month l m" "days_before_month l m \<le> 335"
proof -
  have "m \<in> set [1,2,3,4,5,6,7,8,9,10,11,12]" using assms by (auto simp: numeral_eq_Suc le_Suc_eq)
  then show "0 \<le> days_before_month l m" "days_before_month l m \<le> 335"
    by (cases l; auto simp: days_before_month_def)+
qed

text \<open>The first day of every month is a valid date: reading it back gives the same date.\<close>

lemma civil_of_first:
  assumes "1 \<le> m" "m \<le> 12"
  shows "civil_of_day (day_of_civil y m 1) = (y, m, 1)"
proof -
  have "days_before_year y + 365 \<le> days_before_year (y + 1)"
    by (rule days_before_year_mono) simp
  with days_before_month_bounds [OF assms, of "is_leap y"]
  have "year_yday (day_of_civil y m 1) = (y, days_before_month (is_leap y) m)"
    by (simp add: year_yday_iff day_of_civil_def)
  then show ?thesis using month_of_first [OF assms] by (simp add: civil_of_day_def)
qed

lemma day_of_civil_le: "civil_of_day d = (y, m, dd) \<Longrightarrow> 1 \<le> k \<Longrightarrow> k \<le> dd \<Longrightarrow> day_of_civil y m k \<le> d"
  using day_of_civil_of_day [of d y m dd] by (simp add: day_of_civil_def)

section \<open>Dates read back\<close>

lemma local_day_go_date [simp]: "local_day (go_date y m d l) = day_of_civil y m d"
  by (simp add: local_day_def local_secs_def go_date_def)

lemma t_loc_go_date [simp]: "t_loc (go_date y m d l) = l"
  by (simp add: go_date_def)

lemma go_date_eq_iff:
  "go_date y m d l = go_date y' m' d' l' \<longleftrightarrow> l = l' \<and> day_of_civil y m d = day_of_civil y' m' d'"
  by (auto simp: go_date_def)

lemma go_date_local_day: "go_date (t_year t) (t_month t) (t_day t) l =
  \<lparr>t_nanos = ((local_day t - epoch_day) * secs_per_day - loc_offset l) * nanos_per_sec, t_loc = l\<rparr>"
  using day_of_civil_of_day [of "local_day t" "t_year t" "t_month t" "t_day t"]
  by (simp add: go_date_def t_year_def t_month_def t_day_def)

lemma local_midnight_le:
  "((local_day t - epoch_day) * secs_per_day - loc_offset (t_loc t)) * nanos_per_sec \<le> t_nanos t"
proof -
  have "local_secs t div secs_per_day * secs_per_day \<le> local_secs t"
    using div_mult_mod_eq [of "local_secs t" secs_per_day] by (simp add: minus_mod_eq_div_mult [symmetric])
  then have "(local_day t - epoch_day) * secs_per_day - loc_offset (t_loc t) \<le> t_nanos t div nanos_per_sec"
    by (simp add: local_day_def local_secs_def)
  then have "((local_day t - epoch_day) * secs_per_day - loc_offset (t_loc t)) * nanos_per_sec
      \<le> t_nanos t div nanos_per_sec * nanos_per_sec"
    by (rule mult_right_mono) simp
  also have "\<dots> \<le> t_nanos t"
    by (simp add: minus_mod_eq_div_mult [symmetric])
  finally show ?thesis .
qed

lemma local_day_add_days [simp]: "local_day (add_days n t) = local_day t + n"
proof -
  have "(t_nanos t + n * secs_per_day * nanos_per_sec) div nanos_per_sec
      = t_nanos t div nanos_per_sec + n * secs_per_day" by simp
  then show ?thesis by (simp add: local_day_def local_secs_def add_days_def algebra_simps)
qed

lemma t_loc_add_days [simp]: "t_loc (add_days n t) = t_loc t"
  by (simp add: add_days_def)

lemma t_weekday_bounds: "0 \<le> t_weekday t" "t_weekday t \<le> 6"
  using pos_mod_bound [of 7 "local_day t + 1"] by (simp_all add: t_weekday_def del: pos_mod_bound)

end
