(* ===== verification/Units.thy ===== *)
theory Units
  imports SF_Prelude
begin

text \<open>
  Human durations and sizes (\<^verbatim>\<open>src/src/config/units.go\<close>), with the parts of Go's library they
  use: \<^verbatim>\<open>fmt.Sscanf\<close> with the verb \<open>%d\<close> on a string without leading white space, and
  \<^verbatim>\<open>time.ParseDuration\<close>. A duration is a number of nanoseconds held in 64 bits:
  \<open>wrap64\<close> is two's-complement wrap-around. The fraction of a duration such as \<^verbatim>\<open>1.5h\<close> is computed
  exactly here and in floating point by Go; the two agree whenever the exact value is a whole
  number of nanoseconds that a double holds.
\<close>

section \<open>64-bit integers\<close>

definition wrap64 :: "int \<Rightarrow> int" where
  "wrap64 i = (i + 2 ^ 63) mod 2 ^ 64 - 2 ^ 63"

definition in_int64 :: "int \<Rightarrow> bool" where
  "in_int64 i \<longleftrightarrow> - (2 ^ 63) \<le> i \<and> i < 2 ^ 63"

lemma wrap64_id [simp]: "in_int64 i \<Longrightarrow> wrap64 i = i"
  by (simp add: wrap64_def in_int64_def)

lemma in_int64_wrap64 [simp]: "in_int64 (wrap64 i)"
proof -
  have "0 \<le> (i + 2 ^ 63) mod 2 ^ 64" "(i + 2 ^ 63) mod 2 ^ 64 < (2 ^ 64 :: int)" by simp_all
  then show ?thesis unfolding wrap64_def in_int64_def by simp
qed

section \<open>\<^verbatim>\<open>Sscanf(s, "%d", &n)\<close>\<close>

text \<open>An optional sign and the longest run of digits; what follows is not looked at.\<close>

definition take_sign :: "string \<Rightarrow> bool \<times> string" where
  "take_sign s =
     (case s of
        [] \<Rightarrow> (False, [])
      | c # r \<Rightarrow> if c = CHR ''-'' then (True, r) else if c = CHR ''+'' then (False, r) else (False, s))"

definition signed :: "bool \<Rightarrow> nat \<Rightarrow> int" where
  "signed neg n = (if neg then - int n else int n)"

definition sscanf_d :: "string \<Rightarrow> int option" where
  "sscanf_d s =
     (let (neg, r) = take_sign s; ds = takeWhile is_digit r; v = signed neg (digits_val ds)
      in if ds = [] \<or> \<not> in_int64 v then None else Some v)"

section \<open>\<^verbatim>\<open>time.ParseDuration\<close>\<close>

definition unit_nanos :: "string \<Rightarrow> nat option" where
  "unit_nanos u =
     (if u = ''ns'' then Some 1
      else if u = ''us'' \<or> u = [CHR 0xC2, CHR 0xB5] @ ''s'' \<or> u = [CHR 0xCE, CHR 0xBC] @ ''s'' then Some 1000
      else if u = ''ms'' then Some 1000000
      else if u = ''s'' then Some 1000000000
      else if u = ''m'' then Some 60000000000
      else if u = ''h'' then Some 3600000000000
      else None)"

text \<open>\<open>leadingFraction\<close>: digits beyond 63 bits are read and dropped.\<close>

fun leading_fraction :: "string \<Rightarrow> nat \<Rightarrow> nat \<Rightarrow> bool \<Rightarrow> nat \<times> nat" where
  "leading_fraction [] x scale over = (x, scale)"
| "leading_fraction (c # cs) x scale over =
     (if over \<or> x > (2 ^ 63 - 1) div 10 \<or> x * 10 + digit_val c > 2 ^ 63 then leading_fraction cs x scale True
      else leading_fraction cs (x * 10 + digit_val c) (scale * 10) False)"

definition number_char :: "char \<Rightarrow> bool" where
  "number_char c \<longleftrightarrow> c = CHR ''.'' \<or> is_digit c"

text \<open>One term, number and unit: its value in nanoseconds and the rest of the string.\<close>

definition duration_number :: "string \<Rightarrow> (string \<times> string) \<times> string" where
  "duration_number s =
     (let ip = takeWhile is_digit s; s1 = dropWhile is_digit s in
      case s1 of
        [] \<Rightarrow> ((ip, []), [])
      | c # r \<Rightarrow>
          if c = CHR ''.'' then ((ip, takeWhile is_digit r), dropWhile is_digit r) else ((ip, []), s1))"

definition duration_term :: "string \<Rightarrow> (nat \<times> string) option" where
  "duration_term s =
     (let ((ip, fp), s2) = duration_number s;
          u = takeWhile (\<lambda>c. \<not> number_char c) s2;
          s3 = dropWhile (\<lambda>c. \<not> number_char c) s2;
          v = digits_val ip; (f, scale) = leading_fraction fp 0 1 False
      in if v > 2 ^ 63 \<or> (ip = [] \<and> fp = []) \<or> u = [] then None
         else case unit_nanos u of
           None \<Rightarrow> None
         | Some unit \<Rightarrow>
             if v > 2 ^ 63 div unit \<or> v * unit + f * unit div scale > 2 ^ 63 then None
             else Some (v * unit + f * unit div scale, s3))"

lemma duration_term_rest:
  assumes "duration_term s = Some (v, r)"
  shows "length r < length s"
proof -
  obtain ip fp s2 where n: "duration_number s = ((ip, fp), s2)" by (metis prod.exhaust)
  have u: "takeWhile (\<lambda>c. \<not> number_char c) s2 \<noteq> []" and r: "r = dropWhile (\<lambda>c. \<not> number_char c) s2"
    using assms n by (auto simp: duration_term_def Let_def split: if_splits option.splits prod.splits)
  have "length s2 = length (takeWhile (\<lambda>c. \<not> number_char c) s2) + length r"
    unfolding r by (metis length_append takeWhile_dropWhile_id)
  then have "length r < length s2" using u by (cases "takeWhile (\<lambda>c. \<not> number_char c) s2") auto
  moreover have "length s2 \<le> length (dropWhile is_digit s)"
  proof (cases "dropWhile is_digit s")
    case Nil
    with n show ?thesis by (simp only: duration_number_def Let_def list.case prod.inject)
  next
    case (Cons c cs)
    then have "s2 = (if c = CHR ''.'' then dropWhile is_digit cs else c # cs)"
      using n by (auto simp: duration_number_def split: if_splits)
    with length_dropWhile_le [of is_digit cs] Cons show ?thesis by auto
  qed
  moreover have "length (dropWhile is_digit s) \<le> length s" by (rule length_dropWhile_le)
  ultimately show ?thesis by simp
qed

lemma duration_term_bound: "duration_term s = Some (v, r) \<Longrightarrow> v \<le> 2 ^ 63"
  by (auto simp: duration_term_def Let_def split: if_splits option.splits prod.splits)

text \<open>The loop over the terms; the sum is kept in 64 bits.\<close>

function duration_loop :: "string \<Rightarrow> nat \<Rightarrow> nat option" where
  "duration_loop s d =
     (if s = [] then Some d
      else if \<not> number_char (hd s) then None
      else case duration_term s of
        None \<Rightarrow> None
      | Some (v, r) \<Rightarrow>
          (let d' = (d + v) mod 2 ^ 64 in if d' > 2 ^ 63 then None else duration_loop r d'))"
  by pat_completeness auto

termination
  by (relation "measure (\<lambda>(s, d). length s)") (auto dest: sym intro: duration_term_rest)

declare duration_loop.simps [simp del]

definition go_parse_duration :: "string \<Rightarrow> int option" where
  "go_parse_duration s =
     (let (neg, r) = take_sign s in
      if r = ''0'' then Some 0
      else if r = [] then None
      else case duration_loop r 0 of
        None \<Rightarrow> None
      | Some d \<Rightarrow> if \<not> neg \<and> d > 2 ^ 63 - 1 then None else Some (signed neg d))"

section \<open>\<open>ParseDuration\<close> and \<open>ParseSize\<close>\<close>

abbreviation hour :: int where
  "hour \<equiv> 3600000000000"

definition parse_duration :: "string \<Rightarrow> int option" where
  "parse_duration s =
     (let s = trim_space s in
      if has_suffix s ''d'' then
        (case sscanf_d (trim_suffix s ''d'') of
           None \<Rightarrow> None
         | Some days \<Rightarrow> Some (wrap64 (wrap64 (days * 24) * hour)))
      else go_parse_duration s)"

definition size_unit :: "string \<Rightarrow> int \<times> string" where
  "size_unit s =
     (if has_suffix s ''TB'' then (1024 * 1024 * 1024 * 1024, trim_suffix s ''TB'')
      else if has_suffix s ''GB'' then (1024 * 1024 * 1024, trim_suffix s ''GB'')
      else if has_suffix s ''MB'' then (1024 * 1024, trim_suffix s ''MB'')
      else if has_suffix s ''KB'' then (1024, trim_suffix s ''KB'')
      else (1, s))"

definition parse_size :: "string \<Rightarrow> int option" where
  "parse_size s =
     (let (multiplier, s) = size_unit (trim_space (to_upper s)) in
      case sscanf_d s of None \<Rightarrow> None | Some val \<Rightarrow> Some (wrap64 (val * multiplier)))"

section \<open>Values\<close>

lemma trim_space_no_space:
  assumes "list_all (\<lambda>c. \<not> is_space c) s"
  shows "trim_space s = s"
proof -
  have id: "dropWhile is_space t = t" if "list_all (\<lambda>c. \<not> is_space c) t" for t
    using that by (cases t) auto
  then show ?thesis using assms by (simp add: trim_space_def)
qed

lemma itoa_nat_no_space: "list_all (\<lambda>c. \<not> is_space c) (itoa_nat n)"
  using itoa_nat_digits by (fastforce simp: list_all_iff is_digit_def is_space_def)

lemma sscanf_d_digits:
  assumes "ds \<noteq> []" "list_all is_digit ds" "int (digits_val ds) < 2 ^ 63" "r = [] \<or> \<not> is_digit (hd r)"
  shows "sscanf_d (ds @ r) = Some (int (digits_val ds))"
proof -
  obtain c cs where ds: "ds = c # cs" using assms(1) by (cases ds) auto
  with assms(2) have "is_digit c" by simp
  then have "c \<noteq> CHR ''-''" "c \<noteq> CHR ''+''" by (auto simp: is_digit_def)
  then have "take_sign (ds @ r) = (False, ds @ r)" using ds by (simp add: take_sign_def)
  moreover have "takeWhile is_digit (ds @ r) = ds"
    using assms(2,4) by (cases r) (auto simp: list_all_iff takeWhile_append)
  ultimately show ?thesis
    using assms(1,3) by (simp add: sscanf_d_def signed_def in_int64_def)
qed

lemma sscanf_d_itoa:
  "int n < 2 ^ 63 \<Longrightarrow> r = [] \<or> \<not> is_digit (hd r) \<Longrightarrow> sscanf_d (itoa_nat n @ r) = Some (int n)"
  using sscanf_d_digits [of "itoa_nat n" r] itoa_nat_digits by (simp add: list_all_iff)

text \<open>A count of days parses to that many times 24 hours, as long as the product fits 64 bits
  (up to 106751 days).\<close>

theorem parse_duration_days:
  assumes "n \<le> 106751"
  shows "parse_duration (itoa_nat n @ ''d'') = Some (int n * 24 * hour)"
proof -
  have "trim_space (itoa_nat n @ ''d'') = itoa_nat n @ ''d''"
    using itoa_nat_no_space [of n] by (intro trim_space_no_space) (simp add: is_space_def)
  moreover have "sscanf_d (itoa_nat n) = Some (int n)"
    using assms sscanf_d_itoa [of n "[]"] by simp
  moreover have "in_int64 (int n * 24)" "in_int64 (int n * 24 * hour)"
    using assms by (simp_all add: in_int64_def)
  ultimately show ?thesis by (simp add: parse_duration_def)
qed

lemma parse_duration_days_witness: "parse_duration (itoa_nat 7 @ ''d'') = Some (int 7 * 24 * hour)"
  by (rule parse_duration_days) simp

lemma parse_duration_int64: "parse_duration s = Some d \<Longrightarrow> in_int64 d"
proof -
  have bound: "d' \<le> 2 ^ 63" if "duration_loop s d0 = Some d'" "d0 \<le> 2 ^ 63" for s d0 d'
    using that
  proof (induction s d0 rule: duration_loop.induct)
    case (1 s d0)
    show ?case
    proof (cases "s = []")
      case True
      with "1.prems" show ?thesis by (simp add: duration_loop.simps)
    next
      case False
      with "1.prems" obtain v r where t: "number_char (hd s)" "duration_term s = Some (v, r)"
        "\<not> (d0 + v) mod 2 ^ 64 > 2 ^ 63" "duration_loop r ((d0 + v) mod 2 ^ 64) = Some d'"
        by (subst (asm) duration_loop.simps) (auto simp: Let_def split: if_splits option.splits)
      show ?thesis
        by (rule "1.IH" [OF False _ t(2) refl refl t(3) t(4)]) (use t in auto)
    qed
  qed
  have "in_int64 d" if go: "go_parse_duration s = Some d" for s
  proof -
    obtain neg r where sg: "take_sign s = (neg, r)" by fastforce
    show ?thesis
    proof (cases "r = ''0''")
      case True
      with go sg show ?thesis by (simp add: go_parse_duration_def in_int64_def)
    next
      case False
      with go sg obtain n where n: "duration_loop r 0 = Some n" "neg \<or> n \<le> 2 ^ 63 - 1" "d = signed neg n"
        unfolding go_parse_duration_def by (force simp only: Let_def prod.case not_less de_Morgan_conj not_not option.inject split: if_splits option.splits)
      have "n \<le> 2 ^ 63" by (rule bound [OF n(1)]) simp
      with n(2,3) show ?thesis by (auto simp: in_int64_def signed_def)
    qed
  qed
  then show "parse_duration s = Some d \<Longrightarrow> in_int64 d"
    by (auto simp: parse_duration_def Let_def split: if_splits option.splits)
qed

text \<open>Only the leading integer of a day count is read: a fractional or otherwise malformed
  day count is accepted and silently shortened, and a count beyond 106751 days wraps around to
  a negative duration instead of being rejected.\<close>

theorem parse_duration_days_unchecked:
  "parse_duration ''1.5d'' = Some (24 * hour) \<and>
   parse_duration ''1h30d'' = Some (24 * hour) \<and>
   parse_duration ''106752d'' = Some (- 9223371273709551616)"
  by (simp add: parse_duration_def trim_space_def has_suffix_def has_prefix_def trim_suffix_def sscanf_d_def
      take_sign_def digits_val_def digit_val_def signed_def is_digit_def is_space_def in_int64_def wrap64_def)

end
