(* ===== verification/Retention_Template.thy ===== *)
theory Retention_Template
  imports Patterns
begin

text \<open>
  Tag templates of the retention engine: \<^verbatim>\<open>src/src/retention/pattern.go\<close> turns a template into
  the pattern that decides what is in scope, \<^verbatim>\<open>src/src/retention/group.go\<close> compiles it to the
  matcher that says which series an in-scope tag belongs to.

  Both read a template as the same sequence of literal bytes and variables
  (\<open>template_pieces\<close>); the theorems use it to show, for every engine with the documented
  behaviour, that the two agree on ASCII templates whose braces are closed, and that the key
  of a series identifies its template and identity values.
\<close>

section \<open>Templates as patterns\<close>

definition is_regex_meta :: "char \<Rightarrow> bool" where
  "is_regex_meta c \<longleftrightarrow>
     c \<in> set [CHR ''.'', CHR ''+'', CHR ''*'', CHR ''?'', CHR ''('', CHR '')'', CHR ''['', CHR '']'',
        CHR ''{'', CHR ''}'', CHR 0x5C, CHR ''^'', CHR ''$'', CHR ''|'']"

lemma tl_dropWhile_less: "length (tl (dropWhile P s)) < Suc (length s)"
  using length_dropWhile_le [of P s] by simp

text \<open>The loop of \<open>TemplateToPattern\<close>: a brace that is closed later becomes \<open>.+\<close>.\<close>

function template_body :: "string \<Rightarrow> string" where
  "template_body [] = []"
| "template_body (c # s) =
     (if c = CHR ''{'' \<and> CHR ''}'' \<in> set s
      then ''.+'' @ template_body (tl (dropWhile (\<lambda>x. x \<noteq> CHR ''}'') s))
      else (if is_regex_meta c then [CHR 0x5C] else []) @ c # template_body s)"
  by pat_completeness auto

termination
  by (relation "measure length") (use tl_dropWhile_less in \<open>simp_all del: length_tl\<close>)

definition template_to_pattern :: "string \<Rightarrow> string" where
  "template_to_pattern tmpl =
     (let neg = (tmpl \<noteq> [] \<and> hd tmpl = CHR ''!'');
          prefix = (if neg then ''!'' else []);
          s = (if neg then tl tmpl else tmpl)
      in prefix @ ''^'' @ template_body s @ ''$'')"

definition templates_to_patterns :: "string list \<Rightarrow> string list" where
  "templates_to_patterns templates = map template_to_pattern templates"

section \<open>Templates as matchers\<close>

definition default_identity_vars :: "string list" where
  "default_identity_vars = [''branch'', ''env'']"

definition effective_identity :: "string list \<Rightarrow> string list" where
  "effective_identity extra =
     default_identity_vars @ filter (\<lambda>e. e \<noteq> []) (map trim_space extra)"

record 're tmpl_matcher =
  tm_template :: string
  tm_re :: 're
  tm_id_groups :: "string list"
  tm_has_seq :: bool
  tm_negate :: bool

datatype template_error = UnterminatedBrace string | TemplateCompile string

text \<open>The conversion \<open>string(b)\<close> of a byte: the UTF-8 encoding of that code point.\<close>

definition byte_string :: "char \<Rightarrow> string" where
  "byte_string c =
     (if is_ascii c then [c]
      else [char_of (0xC0 + of_char c div 64 :: nat), char_of (0x80 + of_char c mod 64 :: nat)])"

definition var_name :: "string \<Rightarrow> string" where
  "var_name inner = takeWhile (\<lambda>x. x \<noteq> CHR '':'') inner"

definition group_name :: "nat \<Rightarrow> string" where
  "group_name gi = CHR ''g'' # itoa_nat gi"

text \<open>The loop of \<open>compileTemplate\<close>: the regular expression written so far, the identity
  groups and whether a sequence variable was seen.\<close>

function template_scan ::
  "string list \<Rightarrow> string \<Rightarrow> nat \<Rightarrow> string \<Rightarrow> string list \<Rightarrow> bool \<Rightarrow> (string \<times> string list \<times> bool) option" where
  "template_scan identity [] gi b ids has_seq = Some (b, ids, has_seq)"
| "template_scan identity (c # s) gi b ids has_seq =
     (if c = CHR ''{'' then
        (if CHR ''}'' \<notin> set s then None
         else
           (let inner = takeWhile (\<lambda>x. x \<noteq> CHR ''}'') s;
                rest = tl (dropWhile (\<lambda>x. x \<noteq> CHR ''}'') s);
                g = group_name gi;
                b' = b @ ''(?P<'' @ g @ ''>.+)''
            in if var_name inner \<in> set identity
               then template_scan identity rest (Suc gi) b' (ids @ [g]) has_seq
               else template_scan identity rest (Suc gi) b' ids True))
      else template_scan identity s gi (b @ quote_meta (byte_string c)) ids has_seq)"
  by pat_completeness auto

termination
  by (relation "measure (\<lambda>(_, s, _). length s)") (use tl_dropWhile_less in \<open>simp_all del: length_tl\<close>)

definition compile_template ::
  "'re regexp_pkg \<Rightarrow> string \<Rightarrow> string list \<Rightarrow> template_error + 're tmpl_matcher" where
  "compile_template R tmpl identity =
     (let negate = has_prefix tmpl ''!'';
          s = (if negate then drop 1 tmpl else tmpl)
      in case template_scan identity s 0 ''^'' [] False of
           None \<Rightarrow> Inl (UnterminatedBrace tmpl)
         | Some (b, ids, has_seq) \<Rightarrow>
             (case re_compile R (b @ ''$'') of
                None \<Rightarrow> Inl (TemplateCompile tmpl)
              | Some re \<Rightarrow>
                  Inr \<lparr>tm_template = tmpl, tm_re = re, tm_id_groups = ids, tm_has_seq = has_seq,
                       tm_negate = negate\<rparr>))"

definition group_key :: "'re regexp_pkg \<Rightarrow> 're tmpl_matcher \<Rightarrow> string \<Rightarrow> string option" where
  "group_key R m name =
     (case re_submatch R (tm_re m) name of
        None \<Rightarrow> None
      | Some sub \<Rightarrow>
          Some (tm_template m @
            concat (map (\<lambda>idn. concat (map (\<lambda>(gn, v). if gn = idn then CHR 0x00 # v else [])
                                          (zip (re_names R (tm_re m)) sub)))
                        (tm_id_groups m))))"

section \<open>Templates as pieces\<close>

function template_pieces :: "nat \<Rightarrow> string \<Rightarrow> piece list" where
  "template_pieces gi [] = []"
| "template_pieces gi (c # s) =
     (if c = CHR ''{'' \<and> CHR ''}'' \<in> set s
      then PVar (Some (group_name gi))
             # template_pieces (Suc gi) (tl (dropWhile (\<lambda>x. x \<noteq> CHR ''}'') s))
      else PLit c # template_pieces gi s)"
  by pat_completeness auto

termination
  by (relation "measure (\<lambda>(_, s). length s)") (use tl_dropWhile_less in \<open>simp_all del: length_tl\<close>)

fun anon_piece :: "piece \<Rightarrow> piece" where
  "anon_piece (PVar g) = PVar None"
| "anon_piece (PLit c) = PLit c"

text \<open>Which variables, in order, are identity variables, and whether the braces are closed.\<close>

function template_idvars :: "string list \<Rightarrow> string \<Rightarrow> bool list" where
  "template_idvars identity [] = []"
| "template_idvars identity (c # s) =
     (if c = CHR ''{'' \<and> CHR ''}'' \<in> set s
      then (var_name (takeWhile (\<lambda>x. x \<noteq> CHR ''}'') s) \<in> set identity)
             # template_idvars identity (tl (dropWhile (\<lambda>x. x \<noteq> CHR ''}'') s))
      else template_idvars identity s)"
  by pat_completeness auto

termination
  by (relation "measure (\<lambda>(_, s). length s)") (use tl_dropWhile_less in \<open>simp_all del: length_tl\<close>)

function braces_closed :: "string \<Rightarrow> bool" where
  "braces_closed [] = True"
| "braces_closed (c # s) =
     (if c = CHR ''{'' then CHR ''}'' \<in> set s \<and> braces_closed (tl (dropWhile (\<lambda>x. x \<noteq> CHR ''}'') s))
      else braces_closed s)"
  by pat_completeness auto

termination
  by (relation "measure length") (use tl_dropWhile_less in \<open>simp_all del: length_tl\<close>)

lemma is_regex_meta_iff: "is_regex_meta c \<longleftrightarrow> c \<in> set meta_chars"
  by (auto simp: is_regex_meta_def meta_chars_def)

lemma pieces_str_simps [simp]:
  "pieces_str [] = []" "pieces_str (p # ps) = piece_str p @ pieces_str ps"
  by (simp_all add: pieces_str_def)

lemma tl_dropWhile_subset: "set (tl (dropWhile P s)) \<subseteq> set s"
  by (induction s) auto

lemma template_body_pieces: "template_body s = pieces_str (map anon_piece (template_pieces gi s))"
  by (induction s arbitrary: gi rule: template_body.induct)
    (auto simp: quote_meta_def is_regex_meta_iff)

lemma template_scan_pieces:
  assumes "braces_closed s" "list_all is_ascii s"
  shows "template_scan identity s gi b ids hs =
    Some (b @ pieces_str (template_pieces gi s),
          ids @ map fst (filter snd (zip (piece_names (template_pieces gi s)) (template_idvars identity s))),
          hs \<or> False \<in> set (template_idvars identity s))"
  using assms
proof (induction identity s gi b ids hs rule: template_scan.induct)
  case (1 identity gi b ids hs)
  then show ?case by simp
next
  case (2 identity c s gi b ids hs)
  show ?case
  proof (cases "c = CHR ''{''")
    case False
    with 2 show ?thesis by (simp add: byte_string_def)
  next
    case True
    let ?rest = "tl (dropWhile (\<lambda>x. x \<noteq> CHR ''}'') s)"
    have closed: "CHR ''}'' \<in> set s" "braces_closed ?rest" using "2.prems" True by auto
    have "set ?rest \<subseteq> set s" by (rule tl_dropWhile_subset)
    then have ascii: "list_all is_ascii ?rest" using "2.prems" by (auto simp: list_all_iff)
    show ?thesis
    proof (cases "var_name (takeWhile (\<lambda>x. x \<noteq> CHR ''}'') s) \<in> set identity")
      case id: True
      show ?thesis
        using "2.IH"(1) [OF True _ refl refl refl refl id closed(2) ascii] closed True id by (simp add: Let_def)
    next
      case id: False
      show ?thesis
        using "2.IH"(2) [OF True _ refl refl refl refl id closed(2) ascii] closed True id by (simp add: Let_def)
    qed
  qed
qed

lemma group_name_inj [simp]: "group_name m = group_name n \<longleftrightarrow> m = n"
  by (simp add: group_name_def itoa_nat_inj)

lemma piece_names_template:
  "g \<in> set (piece_names (template_pieces gi s)) \<Longrightarrow> \<exists>k \<ge> gi. g = group_name k"
proof (induction s arbitrary: gi rule: template_body.induct)
  case 1
  then show ?case by simp
next
  case (2 c s)
  show ?case
  proof (cases "c = CHR ''{'' \<and> CHR ''}'' \<in> set s")
    case True
    with "2.prems" consider "g = group_name gi"
      | "g \<in> set (piece_names (template_pieces (Suc gi) (tl (dropWhile (\<lambda>x. x \<noteq> CHR ''}'') s))))"
      by auto
    then show ?thesis
      using "2.IH"(1) [OF True, of "Suc gi"] by cases (auto dest: Suc_leD)
  next
    case False
    with "2.prems" "2.IH"(2) [OF False] show ?thesis by simp
  qed
qed

lemma distinct_piece_names_template: "distinct (piece_names (template_pieces gi s))"
proof (induction s arbitrary: gi rule: template_body.induct)
  case 1
  then show ?case by simp
next
  case (2 c s)
  then show ?case using piece_names_template [of "group_name gi" "Suc gi"] by auto
qed

lemma word_char_group_name: "list_all word_char (group_name gi)"
  using itoa_nat_digits by (auto simp: group_name_def list_all_iff word_char_def is_lower_def)

lemma template_pieces_ok:
  assumes "list_all is_ascii s"
  shows "list_all piece_ok (template_pieces gi s)"
  using assms
proof (induction s arbitrary: gi rule: template_body.induct)
  case 1
  then show ?case by simp
next
  case (2 c s)
  show ?case
  proof (cases "c = CHR ''{'' \<and> CHR ''}'' \<in> set s")
    case True
    have "list_all is_ascii (tl (dropWhile (\<lambda>x. x \<noteq> CHR ''}'') s))"
      using "2.prems" tl_dropWhile_subset [of _ s] by (auto simp: list_all_iff)
    from "2.IH"(1) [OF True this, of "Suc gi"] True word_char_group_name [of gi]
    show ?thesis by (simp add: group_name_def)
  next
    case False
    with "2.IH"(2) [OF False, of gi] "2.prems" show ?thesis by auto
  qed
qed

lemma anon_pieces_ok: "list_all piece_ok ps \<Longrightarrow> list_all piece_ok (map anon_piece ps)"
proof (induction ps)
  case (Cons p ps)
  then show ?case by (cases p) auto
qed simp

lemma piece_names_anon [simp]: "piece_names (map anon_piece ps) = []"
proof (induction ps)
  case (Cons p ps)
  then show ?case by (cases p) auto
qed simp

lemma fits_anon [simp]: "fits (map anon_piece ps) vs s = fits ps vs s"
proof (induction ps vs s rule: fits.induct)
  case (2 c ps vs s)
  then show ?case by (cases s) auto
qed auto

section \<open>The two readings agree\<close>

lemma length_template_idvars [simp]:
  "length (template_idvars identity s) = length (piece_names (template_pieces gi s))"
  by (induction identity s arbitrary: gi rule: template_idvars.induct) auto

lemma template_to_pattern_positive:
  assumes "\<not> has_prefix t ''!''"
  shows "template_to_pattern t = render_template (map anon_piece (template_pieces 0 t))"
proof -
  have "\<not> (t \<noteq> [] \<and> hd t = CHR ''!'')" using assms by (cases t) (auto simp: has_prefix_def)
  then show ?thesis
    unfolding template_to_pattern_def render_template_def template_body_pieces [of t 0, symmetric]
    by (cases "t = []") (simp_all add: Let_def)
qed

lemma compile_template_positive:
  assumes "\<not> has_prefix t ''!''" "braces_closed t" "list_all is_ascii t"
  shows "compile_template R t identity =
    (case re_compile R (render_template (template_pieces 0 t)) of
       None \<Rightarrow> Inl (TemplateCompile t)
     | Some re \<Rightarrow> Inr \<lparr>tm_template = t, tm_re = re,
         tm_id_groups = map fst (filter snd (zip (piece_names (template_pieces 0 t)) (template_idvars identity t))),
         tm_has_seq = (False \<in> set (template_idvars identity t)), tm_negate = False\<rparr>)"
  using assms by (simp add: compile_template_def template_scan_pieces render_template_def)

text \<open>The values of the identity variables among the values of all variables.\<close>

definition identity_values :: "string list \<Rightarrow> string \<Rightarrow> string list \<Rightarrow> string list" where
  "identity_values identity t vals = map fst (filter snd (zip vals (template_idvars identity t)))"

lemma group_lookup:
  assumes "distinct names" "length vals = length names" "k < length names"
  shows "concat (map (\<lambda>(gn, v). if gn = names ! k then [v] else []) (zip names vals)) = [vals ! k]"
  using assms
proof (induction names vals arbitrary: k rule: list_induct2')
  case (4 n ns v vs)
  show ?case
  proof (cases k)
    case 0
    have "concat (map (\<lambda>(gn, w). if gn = n then [w] else []) (zip ns vs)) = []"
      using "4.prems"(1) by (auto simp: concat_eq_Nil_conv dest: set_zip_leftD)
    with 0 show ?thesis by simp
  next
    case (Suc j)
    with 4 show ?thesis by (auto simp: nth_mem)
  qed
qed auto

lemma concat_if_Cons:
  "concat (map (\<lambda>(gn, v). if gn = g then z # v else []) xs) =
   concat (map (\<lambda>v. z # v) (concat (map (\<lambda>(gn, v). if gn = g then [v] else []) xs)))"
  by (induction xs) auto

lemma group_values_concat:
  assumes "distinct names" "length vals = length names" "length flags = length names"
    "\<forall>g \<in> set names. g \<noteq> []"
  shows "concat (map (\<lambda>idn. concat (map (\<lambda>(gn, v). if gn = idn then z # v else []) (zip ([] # names) (s # vals))))
          (map fst (filter snd (zip names flags)))) =
    concat (map (\<lambda>v. z # v) (map fst (filter snd (zip vals flags))))"
proof -
  have names_filter: "map fst (filter snd (zip xs flags)) = map ((!) xs) (filter ((!) flags) [0..<length names])"
    if "length xs = length names" for xs :: "'c list"
  proof -
    have "zip xs flags = map (\<lambda>i. (xs ! i, flags ! i)) [0..<length names]"
      using that assms(3) by (intro nth_equalityI) auto
    then show ?thesis by (simp add: filter_map o_def)
  qed
  have "concat (map (\<lambda>(gn, v). if gn = names ! k then z # v else []) (zip ([] # names) (s # vals))) = z # vals ! k"
    if "k < length names" for k
  proof -
    have "names ! k \<noteq> []" using assms(4) that by simp
    then show ?thesis
      using group_lookup [OF assms(1,2) that] by (simp add: concat_if_Cons [of "names ! k"])
  qed
  then show ?thesis
    unfolding names_filter [OF refl] names_filter [OF assms(2)] map_map
    by (intro arg_cong [where f = concat] map_cong) auto
qed

context regexp_engine
begin

lemma compile_template_ok:
  assumes "\<not> has_prefix t ''!''" "braces_closed t" "list_all is_ascii t"
  obtains m re where "compile_template R t identity = Inr m" "tm_template m = t" "tm_re m = re"
    "re_compile R (render_template (template_pieces 0 t)) = Some re"
    "re_names R re = [] # piece_names (template_pieces 0 t)"
    "tm_id_groups m = map fst (filter snd (zip (piece_names (template_pieces 0 t)) (template_idvars identity t)))"
  using template_compiles [OF template_pieces_ok [OF assms(3)] distinct_piece_names_template, of 0]
  by (auto simp: compile_template_positive [OF assms])

lemma template_readings_agree:
  assumes "\<not> has_prefix t ''!''" "braces_closed t" "list_all is_ascii t" "list_all is_ascii name"
    and "compile_template R t identity = Inr m"
  shows "match_patterns R (templates_to_patterns [t]) name \<longleftrightarrow> group_key R m name \<noteq> None"
proof -
  let ?ps = "template_pieces 0 t"
  have ok: "list_all piece_ok ?ps" by (rule template_pieces_ok [OF assms(3)])
  obtain re where re: "re_compile R (render_template ?ps) = Some re" "tm_re m = re"
    using compile_template_ok [OF assms(1-3), of identity] assms(5) by force
  obtain re' where re': "re_compile R (render_template (map anon_piece ?ps)) = Some re'"
    using template_compiles [OF anon_pieces_ok [OF ok]] by auto
  have "\<not> is_exclude (template_to_pattern t)"
    unfolding template_to_pattern_positive [OF assms(1)] by (simp add: is_exclude_def render_template_def has_prefix_def)
  then have "match_patterns R (templates_to_patterns [t]) name \<longleftrightarrow> re_match R re' name"
    by (simp add: templates_to_patterns_def match_pattern_singleton match_pattern_hits pattern_hits_def
        template_to_pattern_positive [OF assms(1)] re')
  also have "\<dots> \<longleftrightarrow> (\<exists>vs. fits ?ps vs name)"
    using template_match_iff [OF anon_pieces_ok [OF ok] _ re' assms(4)] by simp
  also have "\<dots> \<longleftrightarrow> re_match R re name"
    using template_match_iff [OF ok distinct_piece_names_template re(1) assms(4)] by simp
  finally show ?thesis using re(2) by (simp add: re_match_def group_key_def split: option.split)
qed

lemma group_key_values:
  assumes "\<not> has_prefix t ''!''" "braces_closed t" "list_all is_ascii t" "list_all is_ascii name"
    and "compile_template R t identity = Inr m" "group_key R m name = Some key"
  shows "\<exists>vs. fits (template_pieces 0 t) vs name \<and>
    key = t @ concat (map ((#) (CHR 0x00))
      (identity_values identity t (named_vals (template_pieces 0 t) vs)))"
proof -
  let ?ps = "template_pieces 0 t"
  obtain re where re: "re_compile R (render_template ?ps) = Some re" "tm_re m = re" "tm_template m = t"
      "re_names R re = [] # piece_names ?ps"
      "tm_id_groups m = map fst (filter snd (zip (piece_names ?ps) (template_idvars identity t)))"
    using compile_template_ok [OF assms(1-3), of identity] assms(5) by force
  obtain sub where sub: "re_submatch R re name = Some sub"
    using assms(6) re(2) by (auto simp: group_key_def split: option.splits)
  obtain vs where vs: "fits ?ps vs name" "sub = name # named_vals ?ps vs"
    using template_sound [OF template_pieces_ok [OF assms(3)] distinct_piece_names_template re(1) assms(4) sub] by blast
  have names: "\<forall>g \<in> set (piece_names ?ps). g \<noteq> []"
    using piece_names_template by (fastforce simp: group_name_def)
  have "key = t @ concat (map ((#) (CHR 0x00)) (identity_values identity t (named_vals ?ps vs)))"
    using assms(6) sub re(2-5) vs(2)
      group_values_concat [OF distinct_piece_names_template [of 0 t] length_named_vals [OF vs(1)] _ names,
        of "template_idvars identity t" "CHR 0x00" name]
    by (simp add: group_key_def identity_values_def)
  with vs(1) show ?thesis by blast
qed

end

text \<open>Keys built from NUL-free values separate the values.\<close>

lemma nul_concat_inj:
  assumes "list_all (\<lambda>v. z \<notin> set v) xs" "list_all (\<lambda>v. z \<notin> set v) ys"
    and "concat (map ((#) z) xs) = concat (map ((#) z) ys)"
  shows "xs = ys"
  using assms
proof (induction xs arbitrary: ys)
  case Nil
  then show ?case by (cases ys) auto
next
  case (Cons x xs)
  then obtain y ys' where ys: "ys = y # ys'" by (cases ys) auto
  have eq: "x @ concat (map ((#) z) xs) = y @ concat (map ((#) z) ys')"
    using Cons.prems(3) ys by simp
  have tw: "takeWhile (\<lambda>c. c \<noteq> z) (v @ concat (map ((#) z) vs)) = v" if "z \<notin> set v" for v vs
    using that by (cases vs) (auto simp: takeWhile_append)
  have "x = y" using tw [of x xs] tw [of y ys'] Cons.prems(1,2) ys eq by (simp add: list_all_iff)
  with eq Cons.IH [of ys'] Cons.prems ys show ?case by simp
qed

lemma named_vals_subset: "fits ps vs s \<Longrightarrow> v \<in> set (named_vals ps vs) \<Longrightarrow> set v \<subseteq> set s"
proof (induction ps vs s rule: fits.induct)
  case (2 c ps vs s)
  then show ?case by (cases s) auto
next
  case (4 g ps v' vs s)
  have "take (length v') s = v'" using "4.prems"(1) by simp
  then have s: "set v' \<subseteq> set s" "set (drop (length v') s) \<subseteq> set s"
    using set_take_subset [of "length v'" s] set_drop_subset [of "length v'" s] by simp_all
  show ?case using 4 s by (cases g) auto
qed auto

lemma identity_values_nul:
  assumes "fits ps vs s" "z \<notin> set s"
  shows "list_all (\<lambda>v. z \<notin> set v) (identity_values identity t (named_vals ps vs))"
proof -
  have "set (identity_values identity t (named_vals ps vs)) \<subseteq> set (named_vals ps vs)"
    by (auto simp: identity_values_def dest: set_zip_leftD)
  with named_vals_subset [OF assms(1)] assms(2) show ?thesis by (fastforce simp: list_all_iff)
qed

text \<open>For every engine with the documented behaviour, a template in ASCII whose braces are
  closed compiles, and the pattern that decides scope admits exactly the names the series matcher
  places in a series of the template.\<close>

theorem scope_and_series_agree:
  assumes "regexp_engine R"
    and "\<not> has_prefix t ''!''" "braces_closed t" "list_all is_ascii t" "list_all is_ascii name"
  shows "\<exists>m. compile_template R t identity = Inr m \<and>
    match_patterns R (templates_to_patterns [t]) name = (group_key R m name \<noteq> None)"
proof -
  obtain m where m: "compile_template R t identity = Inr m"
    using regexp_engine.compile_template_ok [OF assms(1-4)] by metis
  from regexp_engine.template_readings_agree [OF assms m] m show ?thesis by blast
qed

lemma scope_and_series_agree_witness:
  "\<exists>m. compile_template go_regexp ''dev-{branch}-{sha:8}'' [''branch''] = Inr m \<and>
    match_patterns go_regexp (templates_to_patterns [''dev-{branch}-{sha:8}'']) ''dev-main-00ff''
      = (group_key go_regexp m ''dev-main-00ff'' \<noteq> None)"
  by (rule scope_and_series_agree [OF go_rx.regexp_engine_axioms]; code_simp)

text \<open>Two names of the same template are in the same series exactly when the values of their
  identity variables are the same.\<close>

theorem same_series_iff_same_identity:
  assumes "regexp_engine R" "compile_template R t identity = Inr m"
    and "\<not> has_prefix t ''!''" "braces_closed t" "list_all is_ascii t"
    and "list_all is_ascii n1" "list_all is_ascii n2" "CHR 0x00 \<notin> set n1" "CHR 0x00 \<notin> set n2"
    and "group_key R m n1 = Some k1" "group_key R m n2 = Some k2"
  shows "\<exists>vs1 vs2. fits (template_pieces 0 t) vs1 n1 \<and> fits (template_pieces 0 t) vs2 n2 \<and>
    (k1 = k2 \<longleftrightarrow>
      identity_values identity t (named_vals (template_pieces 0 t) vs1) =
      identity_values identity t (named_vals (template_pieces 0 t) vs2))"
proof -
  let ?iv = "\<lambda>vs. identity_values identity t (named_vals (template_pieces 0 t) vs)"
  obtain vs1 where vs1: "fits (template_pieces 0 t) vs1 n1" "k1 = t @ concat (map ((#) (CHR 0x00)) (?iv vs1))"
    using regexp_engine.group_key_values [OF assms(1,3,4,5,6,2,10)] by blast
  obtain vs2 where vs2: "fits (template_pieces 0 t) vs2 n2" "k2 = t @ concat (map ((#) (CHR 0x00)) (?iv vs2))"
    using regexp_engine.group_key_values [OF assms(1,3,4,5,7,2,11)] by blast
  have "k1 = k2 \<longleftrightarrow> ?iv vs1 = ?iv vs2"
    using vs1(2) vs2(2) nul_concat_inj [OF identity_values_nul [OF vs1(1) assms(8)] identity_values_nul [OF vs2(1) assms(9)]]
    by auto
  with vs1(1) vs2(1) show ?thesis by blast
qed

lemma same_series_iff_same_identity_witness:
  "\<exists>vs1 vs2. fits (template_pieces 0 ''dev-{branch}-{sha}'') vs1 ''dev-main-1'' \<and>
    fits (template_pieces 0 ''dev-{branch}-{sha}'') vs2 ''dev-main-2'' \<and>
    (''dev-{branch}-{sha}'' @ CHR 0x00 # ''main'' = ''dev-{branch}-{sha}'' @ CHR 0x00 # ''main'' \<longleftrightarrow>
      identity_values [''branch''] ''dev-{branch}-{sha}'' (named_vals (template_pieces 0 ''dev-{branch}-{sha}'') vs1) =
      identity_values [''branch''] ''dev-{branch}-{sha}'' (named_vals (template_pieces 0 ''dev-{branch}-{sha}'') vs2))"
proof (rule same_series_iff_same_identity [OF go_rx.regexp_engine_axioms,
      where m = "case compile_template go_regexp ''dev-{branch}-{sha}'' [''branch''] of Inr m \<Rightarrow> m"])
  show "compile_template go_regexp ''dev-{branch}-{sha}'' [''branch''] =
      Inr (case compile_template go_regexp ''dev-{branch}-{sha}'' [''branch''] of Inr m \<Rightarrow> m)"
    by code_simp
qed code_simp+

text \<open>A literal byte outside ASCII is re-encoded by the series matcher and kept by the scope
  pattern: such a tag is in scope, yet no series of its own template claims it.\<close>

theorem non_ascii_template_loses_series:
  "match_patterns go_regexp (templates_to_patterns [[CHR 0xC3, CHR 0xA9] @ ''-{sha}'']) ([CHR 0xC3, CHR 0xA9] @ ''-00ff'') \<and>
   (case compile_template go_regexp ([CHR 0xC3, CHR 0xA9] @ ''-{sha}'') [] of
      Inl e \<Rightarrow> False
    | Inr m \<Rightarrow> group_key go_regexp m ([CHR 0xC3, CHR 0xA9] @ ''-00ff'') = None)"
  by code_simp

end
