(* ===== verification/Retention_Policy.thy ===== *)
theory Retention_Policy
  imports Go_Time Units Retention_Template "HOL-Library.AList"
begin

text \<open>
  The retention rules (\<^verbatim>\<open>src/src/config/retention.go\<close> and the rule half of
  \<^verbatim>\<open>src/src/retention/retention.go\<close>): keep-last, maximal age, one item per day, week, month or
  year, and the scoped overrides. Items are listed newest first; a decision is a list of flags
  parallel to the items, as in the code. \<open>now\<close> stands for \<^verbatim>\<open>time.Now()\<close>.

  The lemmas give the closed form of every loop: \<open>ApplyPolicies\<close> keeps exactly what some rule
  keeps, a bucket rule keeps the newest item of each of the first \<open>count\<close> buckets, and the
  scoped version applies to each partition the rules that govern it.
\<close>

section \<open>Data\<close>

record item =
  it_name :: string
  it_created :: gtime

record retention_ref =
  rr_match :: string
  rr_keep_last :: int
  rr_keep_daily :: int
  rr_keep_weekly :: int
  rr_keep_monthly :: int
  rr_keep_yearly :: int
  rr_max_age :: string

record retention_policy =
  rp_keep_last :: int
  rp_keep_daily :: int
  rp_keep_weekly :: int
  rp_keep_monthly :: int
  rp_keep_yearly :: int
  rp_keep_branches :: int
  rp_max_age :: string
  rp_identity :: "string list"
  rp_protect :: "string list"
  rp_refs :: "retention_ref list"

definition policy_active :: "retention_policy \<Rightarrow> bool" where
  "policy_active r =
     (if rp_keep_last r > 0 \<or> rp_keep_daily r > 0 \<or> rp_keep_weekly r > 0 \<or> rp_keep_monthly r > 0 \<or>
         rp_keep_yearly r > 0 \<or> rp_keep_branches r > 0 \<or> rp_max_age r \<noteq> []
      then True
      else list_ex (\<lambda>ref. rr_keep_last ref > 0 \<or> rr_keep_daily ref > 0 \<or> rr_keep_weekly ref > 0 \<or>
             rr_keep_monthly ref > 0 \<or> rr_keep_yearly ref > 0 \<or> rr_max_age ref \<noteq> []) (rp_refs r))"

section \<open>Bucket functions\<close>

definition truncate_to_day :: "gtime \<Rightarrow> gtime" where
  "truncate_to_day t = go_date (t_year t) (t_month t) (t_day t) (t_loc t)"

definition truncate_to_week :: "gtime \<Rightarrow> gtime" where
  "truncate_to_week t =
     (let weekday = t_weekday t;
          weekday = (if weekday = 0 then 7 else weekday);
          d = add_days (- (weekday - 1)) t
      in go_date (t_year d) (t_month d) (t_day d) (t_loc t))"

definition truncate_to_month :: "gtime \<Rightarrow> gtime" where
  "truncate_to_month t = go_date (t_year t) (t_month t) 1 (t_loc t)"

definition truncate_to_year :: "gtime \<Rightarrow> gtime" where
  "truncate_to_year t = go_date (t_year t) 1 1 (t_loc t)"

section \<open>Rules\<close>

text \<open>Setting flags one after the other.\<close>

definition mark :: "nat list \<Rightarrow> bool list \<Rightarrow> bool list" where
  "mark idxs keep = foldl (\<lambda>k i. k[i := True]) keep idxs"

fun time_bucket_loop ::
  "(gtime \<Rightarrow> gtime) \<Rightarrow> int \<Rightarrow> item list \<Rightarrow> nat \<Rightarrow> gtime list \<Rightarrow> bool list \<Rightarrow> bool list" where
  "time_bucket_loop bucket limit [] i seen keep = keep"
| "time_bucket_loop bucket limit (it # its) i seen keep =
     (if is_zero (it_created it) then time_bucket_loop bucket limit its (Suc i) seen keep
      else
        (let key = bucket (it_created it) in
         if key \<in> set seen then time_bucket_loop bucket limit its (Suc i) seen keep
         else
           (let seen' = key # seen; keep' = keep[i := True] in
            if int (length seen') \<ge> limit then keep'
            else time_bucket_loop bucket limit its (Suc i) seen' keep')))"

definition apply_time_bucket :: "item list \<Rightarrow> bool list \<Rightarrow> int \<Rightarrow> (gtime \<Rightarrow> gtime) \<Rightarrow> bool list" where
  "apply_time_bucket candidates keep limit bucket = time_bucket_loop bucket limit candidates 0 [] keep"

definition keep_last_rule :: "item list \<Rightarrow> int \<Rightarrow> bool list \<Rightarrow> bool list" where
  "keep_last_rule candidates n keep = mark (filter (\<lambda>i. int i < n) [0..<length candidates]) keep"

text \<open>\<^verbatim>\<open>time.Now().Add(-d)\<close>.\<close>

definition age_cutoff :: "gtime \<Rightarrow> int \<Rightarrow> gtime" where
  "age_cutoff now d = now\<lparr>t_nanos := t_nanos now + wrap64 (- d)\<rparr>"

definition max_age_rule :: "gtime \<Rightarrow> item list \<Rightarrow> string \<Rightarrow> bool list \<Rightarrow> bool list" where
  "max_age_rule now candidates max_age keep =
     (case parse_duration max_age of
        None \<Rightarrow> keep
      | Some d \<Rightarrow>
          mark (filter (\<lambda>i. \<not> is_zero (it_created (candidates ! i)) \<and>
                       t_after (it_created (candidates ! i)) (age_cutoff now d)) [0..<length candidates]) keep)"

definition apply_policies :: "gtime \<Rightarrow> item list \<Rightarrow> retention_policy \<Rightarrow> bool list" where
  "apply_policies now candidates p =
     (let k = replicate (length candidates) False;
          k = (if rp_keep_last p > 0 then keep_last_rule candidates (rp_keep_last p) k else k);
          k = (if rp_max_age p \<noteq> [] then max_age_rule now candidates (rp_max_age p) k else k);
          k = (if rp_keep_daily p > 0 then apply_time_bucket candidates k (rp_keep_daily p) truncate_to_day else k);
          k = (if rp_keep_weekly p > 0 then apply_time_bucket candidates k (rp_keep_weekly p) truncate_to_week else k);
          k = (if rp_keep_monthly p > 0 then apply_time_bucket candidates k (rp_keep_monthly p) truncate_to_month else k);
          k = (if rp_keep_yearly p > 0 then apply_time_bucket candidates k (rp_keep_yearly p) truncate_to_year else k)
      in k)"

section \<open>Scoped rules\<close>

definition ref_governs :: "'re regexp_pkg \<Rightarrow> string \<Rightarrow> retention_ref \<Rightarrow> bool" where
  "ref_governs R name ref \<longleftrightarrow>
     rr_match ref \<noteq> [] \<and> match_patterns R (templates_to_patterns [rr_match ref]) name"

definition override_with :: "retention_ref \<Rightarrow> retention_policy \<Rightarrow> retention_policy" where
  "override_with ref p =
     (let eff = p\<lparr>rp_refs := []\<rparr>;
          eff = (if rr_keep_last ref > 0 then eff\<lparr>rp_keep_last := rr_keep_last ref\<rparr> else eff);
          eff = (if rr_keep_daily ref > 0 then eff\<lparr>rp_keep_daily := rr_keep_daily ref\<rparr> else eff);
          eff = (if rr_keep_weekly ref > 0 then eff\<lparr>rp_keep_weekly := rr_keep_weekly ref\<rparr> else eff);
          eff = (if rr_keep_monthly ref > 0 then eff\<lparr>rp_keep_monthly := rr_keep_monthly ref\<rparr> else eff);
          eff = (if rr_keep_yearly ref > 0 then eff\<lparr>rp_keep_yearly := rr_keep_yearly ref\<rparr> else eff);
          eff = (if rr_max_age ref \<noteq> [] then eff\<lparr>rp_max_age := rr_max_age ref\<rparr> else eff)
      in eff)"

definition effective :: "'re regexp_pkg \<Rightarrow> retention_policy \<Rightarrow> string \<Rightarrow> retention_policy" where
  "effective R p name =
     (case find (ref_governs R name) (rp_refs p) of
        Some ref \<Rightarrow> override_with ref p
      | None \<Rightarrow> p\<lparr>rp_refs := []\<rparr>)"

definition scope_key :: "'re regexp_pkg \<Rightarrow> retention_policy \<Rightarrow> string \<Rightarrow> string" where
  "scope_key R p name =
     (case find (ref_governs R name) (rp_refs p) of Some ref \<Rightarrow> rr_match ref | None \<Rightarrow> [])"

record scope_part =
  sp_policy :: retention_policy
  sp_items :: "item list"
  sp_indices :: "nat list"

text \<open>One round of the partitioning loop; the parts are kept in the order of their first item.\<close>

definition add_to_part ::
  "'re regexp_pkg \<Rightarrow> retention_policy \<Rightarrow> (string \<times> scope_part) list \<Rightarrow> nat \<times> item \<Rightarrow> (string \<times> scope_part) list" where
  "add_to_part R p parts ii =
     (let key = scope_key R p (it_name (snd ii));
          part = (case map_of parts key of
                    Some q \<Rightarrow> q
                  | None \<Rightarrow> \<lparr>sp_policy = effective R p (it_name (snd ii)), sp_items = [], sp_indices = []\<rparr>)
      in AList.update key
           (part\<lparr>sp_items := sp_items part @ [snd ii], sp_indices := sp_indices part @ [fst ii]\<rparr>) parts)"

definition kept_indices :: "gtime \<Rightarrow> scope_part \<Rightarrow> nat list" where
  "kept_indices now part =
     map fst (filter snd (zip (sp_indices part) (apply_policies now (sp_items part) (sp_policy part))))"

definition apply_policies_scoped ::
  "'re regexp_pkg \<Rightarrow> gtime \<Rightarrow> item list \<Rightarrow> retention_policy \<Rightarrow> bool list" where
  "apply_policies_scoped R now candidates p =
     (if rp_refs p = [] then apply_policies now candidates p
      else
        (let parts = foldl (add_to_part R p) [] (zip [0..<length candidates] candidates)
         in foldl (\<lambda>keep kp. mark (kept_indices now (snd kp)) keep)
              (replicate (length candidates) False) parts))"

section \<open>Truncation\<close>

lemma month_1_12: "1 \<le> t_month t" "t_month t \<le> 12" "1 \<le> t_day t"
  using civil_of_day_bounds [of "local_day t" "t_year t" "t_month t" "t_day t"]
  by (simp_all add: t_year_def t_month_def t_day_def)

lemma day_of_civil_local: "day_of_civil (t_year t) (t_month t) (t_day t) = local_day t"
  using day_of_civil_of_day [of "local_day t" "t_year t" "t_month t" "t_day t"]
  by (simp add: t_year_def t_month_def t_day_def)

lemma go_date_le:
  assumes "day_of_civil y m d \<le> local_day t"
  shows "t_nanos (go_date y m d (t_loc t)) \<le> t_nanos t"
proof -
  have "t_nanos (go_date y m d (t_loc t))
      \<le> ((local_day t - epoch_day) * secs_per_day - loc_offset (t_loc t)) * nanos_per_sec"
    using assms by (simp add: go_date_def)
  with local_midnight_le [of t] show ?thesis by linarith
qed

lemma local_day_truncate_to_day: "local_day (truncate_to_day t) = local_day t"
  by (simp add: truncate_to_day_def day_of_civil_local)

lemma local_day_truncate_to_week:
  "local_day (truncate_to_week t) = local_day t - local_day t mod 7"
proof -
  define wd where "wd = (if t_weekday t = 0 then 7 else t_weekday t)"
  have "wd - 1 = local_day t mod 7"
  proof -
    have "(local_day t + 1) mod 7 = (local_day t mod 7 + 1) mod 7" by (simp add: mod_add_left_eq)
    moreover have "0 \<le> local_day t mod 7" "local_day t mod 7 < 7" by simp_all
    ultimately show ?thesis
      unfolding wd_def t_weekday_def by (cases "local_day t mod 7 = 6") auto
  qed
  moreover have "local_day (truncate_to_week t) = local_day (add_days (- (wd - 1)) t)"
    unfolding truncate_to_week_def wd_def [symmetric] Let_def local_day_go_date day_of_civil_local ..
  ultimately show ?thesis by simp
qed

lemma t_year_month_first:
  assumes "1 \<le> m" "m \<le> 12"
  shows "t_year (go_date y m 1 l) = y" "t_month (go_date y m 1 l) = m" "t_day (go_date y m 1 l) = 1"
  using civil_of_first [OF assms] by (simp_all add: t_year_def t_month_def t_day_def)

lemma day_of_civil_first_eq:
  assumes "1 \<le> m" "m \<le> 12" "1 \<le> m'" "m' \<le> 12"
  shows "day_of_civil y m 1 = day_of_civil y' m' 1 \<longleftrightarrow> y = y' \<and> m = m'"
proof
  assume "day_of_civil y m 1 = day_of_civil y' m' 1"
  then have "(y, m, 1 :: int) = (y', m', 1)"
    using civil_of_first [OF assms(1,2), of y] civil_of_first [OF assms(3,4), of y'] by metis
  then show "y = y' \<and> m = m'" by simp
qed simp

lemma truncate_to_day_le: "t_nanos (truncate_to_day t) \<le> t_nanos t"
  unfolding truncate_to_day_def by (rule go_date_le) (simp add: day_of_civil_local)

lemma truncate_to_month_le: "t_nanos (truncate_to_month t) \<le> t_nanos t"
  unfolding truncate_to_month_def
  by (rule go_date_le) (use day_of_civil_local [of t] month_1_12 [of t] in \<open>simp add: day_of_civil_def\<close>)

lemma truncate_to_year_le: "t_nanos (truncate_to_year t) \<le> t_nanos t"
  unfolding truncate_to_year_def
proof (rule go_date_le)
  show "day_of_civil (t_year t) 1 1 \<le> local_day t"
    using day_of_civil_local [of t] month_1_12 [of t] days_before_month_bounds(1) [of "t_month t" "is_leap (t_year t)"]
    by (simp add: day_of_civil_def)
qed

lemma truncate_to_week_loc: "t_loc (truncate_to_week t) = t_loc t"
  by (simp add: truncate_to_week_def Let_def)

lemma truncate_to_week_eq:
  "truncate_to_week t =
    \<lparr>t_nanos = ((local_day t - local_day t mod 7 - epoch_day) * secs_per_day - loc_offset (t_loc t)) * nanos_per_sec,
     t_loc = t_loc t\<rparr>"
proof -
  have shape: "go_date y m d l = \<lparr>t_nanos = ((local_day (go_date y m d l) - epoch_day) * secs_per_day - loc_offset l) * nanos_per_sec, t_loc = l\<rparr>"
    for y m d l unfolding local_day_go_date by (simp add: go_date_def)
  obtain y m d where e: "truncate_to_week t = go_date y m d (t_loc t)"
    unfolding truncate_to_week_def Let_def by blast
  show ?thesis
    using shape [of y m d "t_loc t"] local_day_truncate_to_week [of t] unfolding e by metis
qed

lemma truncate_to_week_le: "t_nanos (truncate_to_week t) \<le> t_nanos t"
proof -
  have "0 \<le> local_day t mod 7" by simp
  then have "t_nanos (truncate_to_week t) \<le>
      ((local_day t - epoch_day) * secs_per_day - loc_offset (t_loc t)) * nanos_per_sec"
    unfolding truncate_to_week_eq by (simp del: pos_mod_sign)
  with local_midnight_le [of t] show ?thesis by linarith
qed

text \<open>Two instants fall into the same day, week, month or year bucket exactly when they carry
  the same location and lie in the same calendar day, Monday-to-Sunday week, month or year of it.\<close>

theorem buckets_are_calendar_periods:
  "(truncate_to_day t = truncate_to_day u \<longleftrightarrow> t_loc t = t_loc u \<and> local_day t = local_day u) \<and>
   (truncate_to_week t = truncate_to_week u \<longleftrightarrow>
      t_loc t = t_loc u \<and> local_day t div 7 = local_day u div 7) \<and>
   (truncate_to_month t = truncate_to_month u \<longleftrightarrow>
      t_loc t = t_loc u \<and> t_year t = t_year u \<and> t_month t = t_month u) \<and>
   (truncate_to_year t = truncate_to_year u \<longleftrightarrow> t_loc t = t_loc u \<and> t_year t = t_year u)"
proof (intro conjI)
  show "truncate_to_day t = truncate_to_day u \<longleftrightarrow> t_loc t = t_loc u \<and> local_day t = local_day u"
    by (simp add: truncate_to_day_def go_date_eq_iff day_of_civil_local)
  show "truncate_to_week t = truncate_to_week u \<longleftrightarrow> t_loc t = t_loc u \<and> local_day t div 7 = local_day u div 7"
    unfolding truncate_to_week_eq by (auto simp: minus_mod_eq_mult_div)
  show "truncate_to_month t = truncate_to_month u \<longleftrightarrow>
      t_loc t = t_loc u \<and> t_year t = t_year u \<and> t_month t = t_month u"
    using month_1_12 [of t] month_1_12 [of u]
    by (simp add: truncate_to_month_def go_date_eq_iff day_of_civil_first_eq)
  show "truncate_to_year t = truncate_to_year u \<longleftrightarrow> t_loc t = t_loc u \<and> t_year t = t_year u"
    by (simp add: truncate_to_year_def go_date_eq_iff day_of_civil_first_eq)
qed

text \<open>Every bucket function maps an instant to one that is not later and that is its own bucket.\<close>

theorem truncation_floor:
  "(t_nanos (truncate_to_day t) \<le> t_nanos t \<and> t_nanos (truncate_to_week t) \<le> t_nanos t \<and>
    t_nanos (truncate_to_month t) \<le> t_nanos t \<and> t_nanos (truncate_to_year t) \<le> t_nanos t) \<and>
   truncate_to_day (truncate_to_day t) = truncate_to_day t \<and>
   truncate_to_week (truncate_to_week t) = truncate_to_week t \<and>
   truncate_to_month (truncate_to_month t) = truncate_to_month t \<and>
   truncate_to_year (truncate_to_year t) = truncate_to_year t"
proof -
  have day: "truncate_to_day (truncate_to_day t) = truncate_to_day t"
    using day_of_civil_local [of "truncate_to_day t"]
    by (simp add: truncate_to_day_def go_date_eq_iff day_of_civil_local)
  have week: "truncate_to_week (truncate_to_week t) = truncate_to_week t"
  proof -
    have "(local_day t - local_day t mod 7) mod 7 = 0" by (simp add: minus_mod_eq_mult_div)
    then show ?thesis
      unfolding truncate_to_week_eq [of "truncate_to_week t"] local_day_truncate_to_week truncate_to_week_loc
      by (simp add: truncate_to_week_eq [of t])
  qed
  have month: "truncate_to_month (truncate_to_month t) = truncate_to_month t"
    using month_1_12 [of t] by (simp add: truncate_to_month_def t_year_month_first)
  have year: "truncate_to_year (truncate_to_year t) = truncate_to_year t"
    by (simp add: truncate_to_year_def t_year_month_first)
  show ?thesis
    using truncate_to_day_le truncate_to_week_le truncate_to_month_le truncate_to_year_le day week month year
    by simp
qed

section \<open>The rules in closed form\<close>

lemma length_mark [simp]: "length (mark idxs keep) = length keep"
  unfolding mark_def by (induction idxs arbitrary: keep) auto

lemma nth_set_True: "k < length keep \<Longrightarrow> keep[i := True] ! k \<longleftrightarrow> keep ! k \<or> k = i"
  by (cases "i = k") auto

lemma mark_nth: "k < length keep \<Longrightarrow> mark idxs keep ! k \<longleftrightarrow> keep ! k \<or> k \<in> set idxs"
  unfolding mark_def by (induction idxs arbitrary: keep) (auto simp: nth_set_True)

definition dated :: "item \<Rightarrow> bool" where
  "dated it \<longleftrightarrow> \<not> is_zero (it_created it)"

definition buckets_of :: "(gtime \<Rightarrow> gtime) \<Rightarrow> item list \<Rightarrow> gtime set" where
  "buckets_of bucket its = (\<lambda>it. bucket (it_created it)) ` set (filter dated its)"

text \<open>The bucket rule: the item is dated, the first of its bucket, and fewer than \<open>limit\<close>
  buckets were met before it.\<close>

definition bucket_keeps :: "(gtime \<Rightarrow> gtime) \<Rightarrow> int \<Rightarrow> item list \<Rightarrow> nat \<Rightarrow> bool" where
  "bucket_keeps bucket limit its k \<longleftrightarrow>
     dated (its ! k) \<and> bucket (it_created (its ! k)) \<notin> buckets_of bucket (take k its) \<and>
     int (card (buckets_of bucket (take k its))) < limit"

lemma buckets_of_simps [simp]:
  "buckets_of bucket [] = {}"
  "buckets_of bucket (it # its) =
     (if dated it then insert (bucket (it_created it)) (buckets_of bucket its) else buckets_of bucket its)"
  by (simp_all add: buckets_of_def)

lemma finite_buckets_of [simp]: "finite (buckets_of bucket its)"
  by (simp add: buckets_of_def)

lemma length_time_bucket_loop [simp]:
  "length (time_bucket_loop bucket limit its i seen keep) = length keep"
  by (induction bucket limit its i seen keep rule: time_bucket_loop.induct) (simp_all add: Let_def)

lemma time_bucket_loop_nth:
  assumes "distinct seen" "int (length seen) < limit" "length keep = i + length its" "k < length keep"
  shows "time_bucket_loop bucket limit its i seen keep ! k \<longleftrightarrow>
    keep ! k \<or> (\<exists>j < length its. k = i + j \<and> dated (its ! j) \<and>
      bucket (it_created (its ! j)) \<notin> set seen \<union> buckets_of bucket (take j its) \<and>
      int (card (set seen \<union> buckets_of bucket (take j its))) < limit)"
  using assms
proof (induction its arbitrary: i seen keep)
  case Nil
  then show ?case by simp
next
  case (Cons it its)
  let ?b = "bucket (it_created it)"
  show ?case
  proof (cases "dated it \<and> ?b \<notin> set seen")
    case False
    have "time_bucket_loop bucket limit (it # its) i seen keep ! k =
        time_bucket_loop bucket limit its (Suc i) seen keep ! k"
      using False by (auto simp: dated_def Let_def)
    also have "\<dots> \<longleftrightarrow> keep ! k \<or> (\<exists>j < length its. k = Suc i + j \<and> dated (its ! j) \<and>
      bucket (it_created (its ! j)) \<notin> set seen \<union> buckets_of bucket (take j its) \<and>
      int (card (set seen \<union> buckets_of bucket (take j its))) < limit)"
      using Cons.prems by (intro Cons.IH) auto
    also have "\<dots> \<longleftrightarrow> keep ! k \<or> (\<exists>j < length (it # its). k = i + j \<and> dated ((it # its) ! j) \<and>
      bucket (it_created ((it # its) ! j)) \<notin> set seen \<union> buckets_of bucket (take j (it # its)) \<and>
      int (card (set seen \<union> buckets_of bucket (take j (it # its)))) < limit)"
    proof -
      have same: "set seen \<union> buckets_of bucket (take (Suc j) (it # its)) = set seen \<union> buckets_of bucket (take j its)" for j
        using False by auto
      show ?thesis
        unfolding length_Cons Ex_less_Suc2
        using False by (simp add: same del: take_Suc_Cons) auto
    qed
    finally show ?thesis .
  next
    case True
    let ?rest = "\<lambda>j. set (?b # seen) \<union> buckets_of bucket (take j its)"
    have shift: "(\<exists>j < length (it # its). k = i + j \<and> dated ((it # its) ! j) \<and>
      bucket (it_created ((it # its) ! j)) \<notin> set seen \<union> buckets_of bucket (take j (it # its)) \<and>
      int (card (set seen \<union> buckets_of bucket (take j (it # its)))) < limit) \<longleftrightarrow>
      k = i \<or> (\<exists>j < length its. k = Suc i + j \<and> dated (its ! j) \<and>
        bucket (it_created (its ! j)) \<notin> ?rest j \<and> int (card (?rest j)) < limit)"
    proof -
      have same: "set seen \<union> buckets_of bucket (take (Suc j) (it # its)) = ?rest j" for j
        using True by auto
      have "int (card (set seen)) < limit" using Cons.prems(1,2) by (simp add: distinct_card)
      then show ?thesis
        unfolding length_Cons Ex_less_Suc2
        using True by (simp add: same del: take_Suc_Cons)
    qed
    show ?thesis
    proof (cases "int (length (?b # seen)) \<ge> limit")
      case stop: True
      have none: "\<not> int (card (?rest j)) < limit" for j
      proof -
        have "card (set (?b # seen)) \<le> card (?rest j)" by (rule card_mono) auto
        moreover have "card (set (?b # seen)) = length (?b # seen)"
          using True Cons.prems(1) by (intro distinct_card) simp
        ultimately show ?thesis using stop by linarith
      qed
      have "time_bucket_loop bucket limit (it # its) i seen keep = keep[i := True]"
        using True stop by (simp add: dated_def Let_def)
      then show ?thesis unfolding shift using none Cons.prems(3,4) by (auto simp: nth_list_update)
    next
      case go: False
      have "time_bucket_loop bucket limit (it # its) i seen keep ! k =
          time_bucket_loop bucket limit its (Suc i) (?b # seen) (keep[i := True]) ! k"
        using True go by (simp add: dated_def Let_def)
      also have "\<dots> \<longleftrightarrow> keep[i := True] ! k \<or> (\<exists>j < length its. k = Suc i + j \<and> dated (its ! j) \<and>
          bucket (it_created (its ! j)) \<notin> ?rest j \<and> int (card (?rest j)) < limit)"
        using True go Cons.prems by (intro Cons.IH) auto
      finally show ?thesis unfolding shift using Cons.prems(3,4) by (auto simp: nth_list_update)
    qed
  qed
qed

lemma apply_time_bucket_nth:
  assumes "0 < limit" "length keep = length its" "k < length its"
  shows "apply_time_bucket its keep limit bucket ! k \<longleftrightarrow> keep ! k \<or> bucket_keeps bucket limit its k"
  using assms time_bucket_loop_nth [of "[]" limit keep 0 its k bucket]
  by (simp add: apply_time_bucket_def bucket_keeps_def)

lemma length_apply_time_bucket [simp]: "length (apply_time_bucket its keep limit bucket) = length keep"
  by (simp add: apply_time_bucket_def)

lemma length_max_age_rule [simp]: "length (max_age_rule now its a keep) = length keep"
  by (simp add: max_age_rule_def split: option.split)

lemma length_keep_last_rule [simp]: "length (keep_last_rule its n keep) = length keep"
  by (simp add: keep_last_rule_def)

text \<open>What some rule of a policy keeps.\<close>

definition policy_keeps :: "gtime \<Rightarrow> item list \<Rightarrow> retention_policy \<Rightarrow> nat \<Rightarrow> bool" where
  "policy_keeps now its p k \<longleftrightarrow>
     int k < rp_keep_last p \<or>
     (rp_max_age p \<noteq> [] \<and> (\<exists>d. parse_duration (rp_max_age p) = Some d \<and> dated (its ! k) \<and>
        t_after (it_created (its ! k)) (age_cutoff now d))) \<or>
     bucket_keeps truncate_to_day (rp_keep_daily p) its k \<or>
     bucket_keeps truncate_to_week (rp_keep_weekly p) its k \<or>
     bucket_keeps truncate_to_month (rp_keep_monthly p) its k \<or>
     bucket_keeps truncate_to_year (rp_keep_yearly p) its k"

lemma keep_last_rule_nth:
  "k < length its \<Longrightarrow> length keep = length its \<Longrightarrow> keep_last_rule its n keep ! k \<longleftrightarrow> keep ! k \<or> int k < n"
  by (simp add: keep_last_rule_def mark_nth)

lemma max_age_rule_nth:
  "k < length its \<Longrightarrow> length keep = length its \<Longrightarrow>
    max_age_rule now its a keep ! k \<longleftrightarrow> keep ! k \<or>
      (\<exists>d. parse_duration a = Some d \<and> dated (its ! k) \<and> t_after (it_created (its ! k)) (age_cutoff now d))"
  by (auto simp: max_age_rule_def mark_nth dated_def split: option.split)

lemma bucket_rule_nth:
  assumes "length keep = length its" "k < length its"
  shows "(if n > 0 then apply_time_bucket its keep n bucket else keep) ! k \<longleftrightarrow>
    keep ! k \<or> bucket_keeps bucket n its k"
proof (cases "n > 0")
  case True
  with assms show ?thesis by (simp add: apply_time_bucket_nth)
next
  case False
  then have "\<not> bucket_keeps bucket n its k" by (auto simp: bucket_keeps_def)
  with False show ?thesis by simp
qed

lemma length_apply_policies [simp]: "length (apply_policies now its p) = length its"
  by (simp add: apply_policies_def Let_def)

lemma apply_policies_additive_plain:
  assumes "k < length its"
  shows "apply_policies now its p ! k \<longleftrightarrow> policy_keeps now its p k"
proof -
  define k0 where "k0 = replicate (length its) False"
  define k1 where "k1 = (if rp_keep_last p > 0 then keep_last_rule its (rp_keep_last p) k0 else k0)"
  define k2 where "k2 = (if rp_max_age p \<noteq> [] then max_age_rule now its (rp_max_age p) k1 else k1)"
  define k3 where "k3 = (if rp_keep_daily p > 0 then apply_time_bucket its k2 (rp_keep_daily p) truncate_to_day else k2)"
  define k4 where "k4 = (if rp_keep_weekly p > 0 then apply_time_bucket its k3 (rp_keep_weekly p) truncate_to_week else k3)"
  define k5 where "k5 = (if rp_keep_monthly p > 0 then apply_time_bucket its k4 (rp_keep_monthly p) truncate_to_month else k4)"
  define k6 where "k6 = (if rp_keep_yearly p > 0 then apply_time_bucket its k5 (rp_keep_yearly p) truncate_to_year else k5)"
  have len: "length k0 = length its" "length k1 = length its" "length k2 = length its"
      "length k3 = length its" "length k4 = length its" "length k5 = length its"
    by (simp_all add: k0_def k1_def k2_def k3_def k4_def k5_def)
  have "apply_policies now its p = k6"
    unfolding apply_policies_def k6_def k5_def k4_def k3_def k2_def k1_def k0_def Let_def ..
  moreover have "k1 ! k \<longleftrightarrow> int k < rp_keep_last p"
    using assms len by (auto simp: k1_def k0_def keep_last_rule_nth)
  moreover have "k2 ! k \<longleftrightarrow> k1 ! k \<or> (rp_max_age p \<noteq> [] \<and> (\<exists>d. parse_duration (rp_max_age p) = Some d \<and>
      dated (its ! k) \<and> t_after (it_created (its ! k)) (age_cutoff now d)))"
    using max_age_rule_nth [OF assms len(2)] by (simp add: k2_def)
  moreover note bucket_rule_nth [OF len(3) assms, of "rp_keep_daily p" truncate_to_day, folded k3_def]
    bucket_rule_nth [OF len(4) assms, of "rp_keep_weekly p" truncate_to_week, folded k4_def]
    bucket_rule_nth [OF len(5) assms, of "rp_keep_monthly p" truncate_to_month, folded k5_def]
    bucket_rule_nth [OF len(6) assms, of "rp_keep_yearly p" truncate_to_year, folded k6_def]
  ultimately show ?thesis unfolding policy_keeps_def by simp
qed

text \<open>C39: The rules are additive: \<open>ApplyPolicies\<close> keeps an item exactly when one of the rules
  (last, age, daily, weekly, monthly, yearly) keeps it.\<close>

theorem apply_policies_additive:
  assumes "k < length its"
  shows "apply_policies now its p ! k \<longleftrightarrow> policy_keeps now its p k"
  using assms by (rule apply_policies_additive_plain)

definition no_rules :: retention_policy where
  "no_rules = \<lparr>rp_keep_last = 0, rp_keep_daily = 0, rp_keep_weekly = 0, rp_keep_monthly = 0,
     rp_keep_yearly = 0, rp_keep_branches = 0, rp_max_age = [], rp_identity = [], rp_protect = [], rp_refs = []\<rparr>"

lemma apply_policies_additive_witness:
  "apply_policies zero_time [\<lparr>it_name = ''a'', it_created = zero_time\<rparr>] (no_rules\<lparr>rp_keep_last := 1\<rparr>) ! 0 \<longleftrightarrow>
    policy_keeps zero_time [\<lparr>it_name = ''a'', it_created = zero_time\<rparr>] (no_rules\<lparr>rp_keep_last := 1\<rparr>) 0"
  by (rule apply_policies_additive) simp

section \<open>Scoped rules partition the items\<close>

lemma find_same_match:
  assumes "find (ref_governs R n) refs = Some r" "find (ref_governs R n') refs = Some r'"
    and "rr_match r = rr_match r'"
  shows "r = r'"
  using assms
proof (induction refs)
  case (Cons x xs)
  show ?case
  proof (cases "ref_governs R n x \<or> ref_governs R n' x")
    case True
    have gov: "ref_governs R n r" "ref_governs R n' r'"
      using Cons.prems(1,2) unfolding find_Some_iff by blast+
    then have "ref_governs R n' r" "ref_governs R n r'"
      using Cons.prems(3) by (simp_all add: ref_governs_def)
    show ?thesis
    proof (cases "ref_governs R n x \<and> ref_governs R n' x")
      case True
      with Cons.prems show ?thesis by simp
    next
      case False
      with True Cons.prems gov show ?thesis
        by (auto simp: ref_governs_def find_Some_iff split: if_splits)
    qed
  next
    case False
    with Cons show ?thesis by simp
  qed
qed simp

lemma effective_same_key:
  assumes "scope_key R p n = scope_key R p n'"
  shows "effective R p n = effective R p n'"
proof (cases "find (ref_governs R n) (rp_refs p)")
  case None
  have "find (ref_governs R n') (rp_refs p) = None"
    using assms None by (auto simp: scope_key_def ref_governs_def find_Some_iff split: option.splits)
  with None show ?thesis by (simp add: effective_def)
next
  case (Some r)
  then have "rr_match r \<noteq> []" by (auto simp: find_Some_iff ref_governs_def)
  with assms Some obtain r' where r': "find (ref_governs R n') (rp_refs p) = Some r'" "rr_match r' = rr_match r"
    by (auto simp: scope_key_def split: option.splits)
  with find_same_match Some have "r = r'" by metis
  with Some r' show ?thesis by (simp add: effective_def)
qed

text \<open>The parts after reading a list of indexed items: for each key met, the policy it stands
  for and its items with their indices, in order.\<close>

definition part_of ::
  "'re regexp_pkg \<Rightarrow> retention_policy \<Rightarrow> (nat \<times> item) list \<Rightarrow> string \<Rightarrow> (nat \<times> item) list" where
  "part_of R p iis key = filter (\<lambda>ii. scope_key R p (it_name (snd ii)) = key) iis"

lemma add_to_part_lookup:
  "map_of (add_to_part R p parts ii) key =
     (if scope_key R p (it_name (snd ii)) = key then
        Some (case map_of parts key of
            None \<Rightarrow> \<lparr>sp_policy = effective R p (it_name (snd ii)), sp_items = [snd ii], sp_indices = [fst ii]\<rparr>
          | Some q \<Rightarrow> q\<lparr>sp_items := sp_items q @ [snd ii], sp_indices := sp_indices q @ [fst ii]\<rparr>)
      else map_of parts key)"
  by (simp add: add_to_part_def Let_def update_conv split: option.split)

lemma parts_of_items:
  "map_of (foldl (add_to_part R p) [] iis) key =
     (case part_of R p iis key of
        [] \<Rightarrow> None
      | ii # _ \<Rightarrow> Some \<lparr>sp_policy = effective R p (it_name (snd ii)),
          sp_items = map snd (part_of R p iis key), sp_indices = map fst (part_of R p iis key)\<rparr>)"
proof (induction iis rule: rev_induct)
  case Nil
  then show ?case by (simp add: part_of_def)
next
  case (snoc ii iis)
  have step: "map_of (foldl (add_to_part R p) [] (iis @ [ii])) key =
      map_of (add_to_part R p (foldl (add_to_part R p) [] iis) ii) key" by simp
  show ?case
  proof (cases "scope_key R p (it_name (snd ii)) = key")
    case False
    then have po: "part_of R p (iis @ [ii]) key = part_of R p iis key" by (simp add: part_of_def)
    show ?thesis unfolding step add_to_part_lookup snoc.IH po using False by simp
  next
    case True
    then have po: "part_of R p (iis @ [ii]) key = part_of R p iis key @ [ii]" by (simp add: part_of_def)
    show ?thesis
      unfolding step add_to_part_lookup snoc.IH po using True by (cases "part_of R p iis key") simp_all
  qed
qed

lemma distinct_parts: "distinct (map fst (foldl (add_to_part R p) [] iis))"
  by (induction iis rule: rev_induct) (simp_all add: add_to_part_def Let_def distinct_update)

lemma foldl_mark_nth:
  "k < length keep \<Longrightarrow>
    foldl (\<lambda>keep x. mark (f x) keep) keep xs ! k \<longleftrightarrow> keep ! k \<or> (\<exists>x \<in> set xs. k \<in> set (f x))"
  by (induction xs arbitrary: keep) (auto simp: mark_nth)

lemma length_foldl_mark [simp]: "length (foldl (\<lambda>keep x. mark (f x) keep) keep xs) = length keep"
  by (induction xs arbitrary: keep) auto

lemma length_apply_policies_scoped [simp]:
  "length (apply_policies_scoped R now its p) = length its"
  by (simp add: apply_policies_scoped_def Let_def)

text \<open>Position of an index among the selected indices.\<close>

lemma filter_zip_upt_nth:
  assumes "k < length xs" "P (xs ! k)"
  shows "length (filter P (take k xs)) < length (filter P xs)"
    and "filter (\<lambda>ii. P (snd ii)) (zip [0..<length xs] xs) ! length (filter P (take k xs)) = (k, xs ! k)"
proof -
  have xs: "xs = take k xs @ xs ! k # drop (Suc k) xs" using assms(1) by (rule id_take_nth_drop)
  have z: "zip [0..<length xs] xs = zip [0..<k] (take k xs) @ (k, xs ! k) # zip [Suc k..<length xs] (drop (Suc k) xs)"
  proof -
    have "[0..<length xs] = [0..<k] @ k # [Suc k..<length xs]"
      using assms(1) by (metis less_imp_le_nat upt_add_eq_append upt_conv_Cons le_add_diff_inverse zero_le plus_nat.add_0)
    then show ?thesis using assms(1) by (subst xs) (simp del: upt_Suc)
  qed
  have l: "length (filter (\<lambda>ii. P (snd ii)) (zip [0..<k] (take k xs))) = length (filter P (take k xs))"
  proof -
    have "map snd (filter (\<lambda>ii. P (snd ii)) (zip [0..<k] (take k xs))) = filter P (map snd (zip [0..<k] (take k xs)))"
      by (simp add: filter_map o_def)
    then show ?thesis using assms(1) by (metis length_map length_take length_upt map_snd_zip min.absorb4 minus_nat.diff_0)
  qed
  show "filter (\<lambda>ii. P (snd ii)) (zip [0..<length xs] xs) ! length (filter P (take k xs)) = (k, xs ! k)"
    unfolding z using assms(2) l by (simp add: nth_append)
  show "length (filter P (take k xs)) < length (filter P xs)"
    using assms(2) by (subst (2) xs) simp
qed

text \<open>The indices kept of a part, read by position.\<close>

lemma kept_indices_at:
  assumes "distinct (map fst part)" "j < length part" "length items = length part"
  shows "fst (part ! j) \<in> set (kept_indices now \<lparr>sp_policy = p, sp_items = items, sp_indices = map fst part\<rparr>)
    \<longleftrightarrow> apply_policies now items p ! j"
proof -
  let ?d = "apply_policies now items p"
  have "fst (part ! j) \<in> set (map fst (filter snd (zip (map fst part) ?d))) \<longleftrightarrow>
      (\<exists>i < length part. map fst part ! i = fst (part ! j) \<and> ?d ! i)"
    using assms(3) by (force simp: in_set_zip in_set_conv_nth)
  also have "\<dots> \<longleftrightarrow> ?d ! j"
    using assms(1,2) by (metis length_map nth_map nth_eq_iff_index_eq)
  finally show ?thesis by (simp add: kept_indices_def)
qed

text \<open>The part that decides an item is the one of its own key.\<close>

lemma kept_in_own_part:
  fixes its :: "item list" and R :: "'re regexp_pkg" and p :: retention_policy
  assumes "k < length its"
  defines "iis \<equiv> zip [0..<length its] its"
  defines "part \<equiv> part_of R p iis (scope_key R p (it_name (its ! k)))"
  shows "(\<exists>kp \<in> set (foldl (add_to_part R p) [] iis). k \<in> set (kept_indices now (snd kp))) \<longleftrightarrow>
    k \<in> set (kept_indices now \<lparr>sp_policy = effective R p (it_name (its ! k)), sp_items = map snd part, sp_indices = map fst part\<rparr>)"
proof -
  let ?own = "\<lparr>sp_policy = effective R p (it_name (its ! k)), sp_items = map snd part, sp_indices = map fst part\<rparr>"
  let ?parts = "foldl (add_to_part R p) [] iis"
  let ?key = "scope_key R p (it_name (its ! k))"
  have mem: "(kx, pt) \<in> set ?parts \<longleftrightarrow> map_of ?parts kx = Some pt" for kx pt
    using distinct_parts by (metis map_of_eq_Some_iff)
  have at: "map_of ?parts kx = Some pt \<Longrightarrow> pt = \<lparr>sp_policy = effective R p n, sp_items = map snd (part_of R p iis kx),
      sp_indices = map fst (part_of R p iis kx)\<rparr>" if "scope_key R p n = kx" for kx pt n
  proof -
    assume "map_of ?parts kx = Some pt"
    then obtain ii rest where po: "part_of R p iis kx = ii # rest"
      and pt: "pt = \<lparr>sp_policy = effective R p (it_name (snd ii)),
        sp_items = map snd (part_of R p iis kx), sp_indices = map fst (part_of R p iis kx)\<rparr>"
      unfolding parts_of_items by (auto split: list.splits)
    have "scope_key R p (it_name (snd ii)) = kx" using po by (auto simp: part_of_def Cons_eq_filter_iff dest: sym)
    then have "effective R p (it_name (snd ii)) = effective R p n" using that by (intro effective_same_key) simp
    with pt show ?thesis by simp
  qed
  have "(k, its ! k) \<in> set part"
    using assms(1) unfolding part_def iis_def part_of_def by (force simp: in_set_zip)
  then have "map_of ?parts ?key = Some ?own"
    using at [OF refl, of "it_name (its ! k)"] parts_of_items [of R p iis ?key]
    unfolding part_def by (cases "part_of R p iis ?key") auto
  moreover have "kx = ?key" if "map_of ?parts kx = Some pt" "k \<in> set (kept_indices now pt)" for kx pt
  proof -
    have "sp_indices pt = map fst (part_of R p iis kx)"
      using that(1) unfolding parts_of_items by (auto split: list.splits)
    then have "k \<in> set (map fst (part_of R p iis kx))"
      using that(2) by (auto simp: kept_indices_def dest: set_zip_leftD)
    then show ?thesis by (auto simp: part_of_def iis_def in_set_zip)
  qed
  ultimately show ?thesis using mem by (metis (no_types, lifting) option.inject prod.exhaust_sel snd_conv)
qed

text \<open>Scoped rules: an item is kept exactly when the rules in force for its name keep it among
  the items that are governed by the same scope, and by those alone.\<close>

theorem apply_policies_scoped_partition:
  assumes "k < length its"
  shows "apply_policies_scoped R now its p ! k \<longleftrightarrow>
    apply_policies now
      (filter (\<lambda>it. scope_key R p (it_name it) = scope_key R p (it_name (its ! k))) its)
      (effective R p (it_name (its ! k)))
    ! length (filter (\<lambda>it. scope_key R p (it_name it) = scope_key R p (it_name (its ! k))) (take k its))"
  (is "_ \<longleftrightarrow> apply_policies now (filter ?same its) ?eff ! ?pos")
proof (cases "rp_refs p = []")
  case True
  have "filter ?same its = its" "?pos = k"
    using True assms by (simp_all add: scope_key_def)
  moreover have "apply_policies now its (p\<lparr>rp_refs := []\<rparr>) = apply_policies now its p"
    by (intro nth_equalityI) (simp_all add: apply_policies_additive_plain policy_keeps_def)
  ultimately show ?thesis using True by (simp add: apply_policies_scoped_def effective_def)
next
  case False
  let ?iis = "zip [0..<length its] its"
  let ?part = "part_of R p ?iis (scope_key R p (it_name (its ! k)))"
  have same: "?part = filter (\<lambda>ii. ?same (snd ii)) ?iis" by (simp add: part_of_def)
  have pos: "?pos < length (filter ?same its)" and at: "?part ! ?pos = (k, its ! k)"
    using filter_zip_upt_nth [of k its ?same] assms unfolding same by auto
  have items: "map snd ?part = filter ?same its"
    unfolding same by (simp add: filter_map [of ?same snd, unfolded o_def, symmetric])
  then have len: "length (filter ?same its) = length ?part" by (metis length_map)
  have "distinct (map fst ?part)" unfolding same by (simp add: distinct_map_filter)
  from kept_indices_at [OF this _ len, of ?pos now ?eff] pos len at
  have "k \<in> set (kept_indices now \<lparr>sp_policy = ?eff, sp_items = filter ?same its, sp_indices = map fst ?part\<rparr>)
      \<longleftrightarrow> apply_policies now (filter ?same its) ?eff ! ?pos" by simp
  moreover have "apply_policies_scoped R now its p ! k \<longleftrightarrow>
      (\<exists>kp \<in> set (foldl (add_to_part R p) [] ?iis). k \<in> set (kept_indices now (snd kp)))"
    using False assms by (simp add: apply_policies_scoped_def Let_def foldl_mark_nth)
  ultimately show ?thesis
    using kept_in_own_part [OF assms, of R p now, unfolded items] by simp
qed

lemma apply_policies_scoped_partition_witness:
  "let its = [\<lparr>it_name = ''go1'', it_created = zero_time\<rparr>, \<lparr>it_name = ''x1'', it_created = zero_time\<rparr>];
       p = no_rules\<lparr>rp_keep_last := 1, rp_refs := [\<lparr>rr_match = ''go{v}'', rr_keep_last = 4, rr_keep_daily = 0,
             rr_keep_weekly = 0, rr_keep_monthly = 0, rr_keep_yearly = 0, rr_max_age = []\<rparr>]\<rparr>
   in apply_policies_scoped go_regexp zero_time its p ! 1 \<longleftrightarrow>
    apply_policies zero_time
      (filter (\<lambda>it. scope_key go_regexp p (it_name it) = scope_key go_regexp p (it_name (its ! 1))) its)
      (effective go_regexp p (it_name (its ! 1)))
    ! length (filter (\<lambda>it. scope_key go_regexp p (it_name it) = scope_key go_regexp p (it_name (its ! 1))) (take 1 its))"
  unfolding Let_def by (rule apply_policies_scoped_partition) simp

end
