(* ===== verification/Retention.thy ===== *)
theory Retention
  imports Retention_Policy
begin

text \<open>
  The retention run (\<open>Apply\<close> of \<^verbatim>\<open>src/src/retention/retention.go\<close>): items are listed from a
  store, placed in series, pruned per series, and deleted newest first. The store is an
  argument: its operations take and return its state, and a failed delete says whether the error
  is a skip and whether it is store-wide.

  Groups and the keys of each template are association lists in the order of insertion; the
  code ranges over the corresponding maps in any order, and the set of names to keep does not
  depend on it. The theorems: nothing protected or out of scope is ever deleted, every matched
  item is accounted for once, no delete is attempted after a store-wide failure, and which items
  of a series survive depends on that series alone.
\<close>

section \<open>Data\<close>

record delete_error =
  de_text :: string
  de_is_skip :: bool
  de_aborts :: bool

record 's store =
  store_list :: "'s \<Rightarrow> (string + item list) \<times> 's"
  store_delete :: "'s \<Rightarrow> string \<Rightarrow> delete_error option \<times> 's"

record retention_result =
  rs_matched :: nat
  rs_kept :: nat
  rs_deleted :: "string list"
  rs_skipped :: "string list"
  rs_blocked :: "string list"
  rs_errors :: "(string \<times> delete_error) list"

datatype retention_error = ListFailed string | BadTemplate template_error

definition empty_result :: retention_result where
  "empty_result = \<lparr>rs_matched = 0, rs_kept = 0, rs_deleted = [], rs_skipped = [], rs_blocked = [], rs_errors = []\<rparr>"

record series_group =
  sg_matcher :: "nat option"  \<comment> \<open>\<^const>\<open>None\<close> is the catch-all\<close>
  sg_items :: "item list"

record scan_state =
  sc_groups :: "(string \<times> series_group) list"
  sc_tmpl_keys :: "(nat \<times> string list) list"
  sc_keep :: "string list"
  sc_in_scope :: "item list"

section \<open>Placing items in series\<close>

fun compile_templates ::
  "'re regexp_pkg \<Rightarrow> string list \<Rightarrow> string list \<Rightarrow> template_error + 're tmpl_matcher list" where
  "compile_templates R identity [] = Inr []"
| "compile_templates R identity (t # ts) =
     res_bind (compile_template R t identity)
       (\<lambda>m. res_bind (compile_templates R identity ts) (\<lambda>ms. Inr (m # ms)))"

fun first_series :: "'re regexp_pkg \<Rightarrow> 're tmpl_matcher list \<Rightarrow> nat \<Rightarrow> string \<Rightarrow> (nat \<times> string) option" where
  "first_series R [] i name = None"
| "first_series R (m # ms) i name =
     (if tm_negate m then first_series R ms (Suc i) name
      else case group_key R m name of
        None \<Rightarrow> first_series R ms (Suc i) name
      | Some key \<Rightarrow> Some (i, key))"

definition add_to_group :: "nat option \<Rightarrow> string \<Rightarrow> bool \<Rightarrow> item \<Rightarrow> scan_state \<Rightarrow> scan_state" where
  "add_to_group mi key has_ids it st =
     (case map_of (sc_groups st) key of
        Some g \<Rightarrow> st\<lparr>sc_groups := AList.update key (g\<lparr>sg_items := sg_items g @ [it]\<rparr>) (sc_groups st)\<rparr>
      | None \<Rightarrow>
          (let st = st\<lparr>sc_groups := sc_groups st @ [(key, \<lparr>sg_matcher = mi, sg_items = [it]\<rparr>)]\<rparr>
           in case mi of
                None \<Rightarrow> st
              | Some i \<Rightarrow>
                  if has_ids then
                    (let keys = (case map_of (sc_tmpl_keys st) i of None \<Rightarrow> [] | Some ks \<Rightarrow> ks)
                     in st\<lparr>sc_tmpl_keys := AList.update i (keys @ [key]) (sc_tmpl_keys st)\<rparr>)
                  else st))"

definition scan_item ::
  "'re regexp_pkg \<Rightarrow> 're tmpl_matcher list \<Rightarrow> string list \<Rightarrow> string list \<Rightarrow> scan_state \<Rightarrow> item \<Rightarrow> scan_state" where
  "scan_item R ms patterns protect st it =
     (if \<not> match_patterns R patterns (it_name it) then st
      else
        (let st = st\<lparr>sc_in_scope := sc_in_scope st @ [it]\<rparr> in
         if protect \<noteq> [] \<and> match_patterns R protect (it_name it)
         then st\<lparr>sc_keep := it_name it # sc_keep st\<rparr>
         else case first_series R ms 0 (it_name it) of
           Some (mi, key) \<Rightarrow> add_to_group (Some mi) key (tm_id_groups (ms ! mi) \<noteq> []) it st
         | None \<Rightarrow> add_to_group None [] False it st))"

definition scan_items ::
  "'re regexp_pkg \<Rightarrow> 're tmpl_matcher list \<Rightarrow> string list \<Rightarrow> string list \<Rightarrow> item list \<Rightarrow> scan_state" where
  "scan_items R ms patterns protect items =
     foldl (scan_item R ms patterns protect)
       \<lparr>sc_groups = [], sc_tmpl_keys = [], sc_keep = [], sc_in_scope = []\<rparr> items"

section \<open>Pruning the series\<close>

definition newest_of :: "item list \<Rightarrow> gtime" where
  "newest_of items =
     foldl (\<lambda>t it. if t_after (it_created it) t then it_created it else t) zero_time items"

definition newer_item :: "item \<Rightarrow> item \<Rightarrow> bool" where
  "newer_item a b \<longleftrightarrow> t_after (it_created a) (it_created b)"

definition group_items :: "scan_state \<Rightarrow> string \<Rightarrow> item list" where
  "group_items st key = (case map_of (sc_groups st) key of None \<Rightarrow> [] | Some g \<Rightarrow> sg_items g)"

definition dropped_keys :: "retention_policy \<Rightarrow> scan_state \<Rightarrow> string list" where
  "dropped_keys p st =
     (if rp_keep_branches p > 0 then
        concat (map (\<lambda>(i, keys).
          if int (length keys) \<le> rp_keep_branches p then []
          else drop (nat (rp_keep_branches p))
            (sort_slice (\<lambda>a b. t_after (newest_of (group_items st a)) (newest_of (group_items st b))) keys))
          (sc_tmpl_keys st))
      else [])"

definition seq_active :: "retention_policy \<Rightarrow> bool" where
  "seq_active p \<longleftrightarrow>
     rp_keep_last p > 0 \<or> rp_keep_daily p > 0 \<or> rp_keep_weekly p > 0 \<or> rp_keep_monthly p > 0 \<or>
     rp_keep_yearly p > 0 \<or> rp_max_age p \<noteq> [] \<or> rp_refs p \<noteq> []"

definition is_rolling :: "'re tmpl_matcher list \<Rightarrow> nat option \<Rightarrow> bool" where
  "is_rolling ms mi = (case mi of None \<Rightarrow> False | Some i \<Rightarrow> \<not> tm_has_seq (ms ! i))"

definition kept_in_group ::
  "'re regexp_pkg \<Rightarrow> gtime \<Rightarrow> 're tmpl_matcher list \<Rightarrow> retention_policy \<Rightarrow> series_group \<Rightarrow> string list" where
  "kept_in_group R now ms p g =
     (if is_rolling ms (sg_matcher g) \<or> \<not> seq_active p then map it_name (sg_items g)
      else
        (let sorted = sort_slice newer_item (sg_items g)
         in map fst (filter snd (zip (map it_name sorted) (apply_policies_scoped R now sorted p)))))"

definition names_to_keep ::
  "'re regexp_pkg \<Rightarrow> gtime \<Rightarrow> 're tmpl_matcher list \<Rightarrow> retention_policy \<Rightarrow> scan_state \<Rightarrow> string list" where
  "names_to_keep R now ms p st =
     foldl (\<lambda>keep (key, g). if key \<in> set (dropped_keys p st) then keep else kept_in_group R now ms p g @ keep)
       (sc_keep st) (sc_groups st)"

section \<open>Deleting\<close>

fun delete_loop ::
  "'s store \<Rightarrow> string list \<Rightarrow> item list \<Rightarrow> bool \<Rightarrow> retention_result \<Rightarrow> 's \<Rightarrow> retention_result \<times> 's" where
  "delete_loop store keep [] aborted r s = (r, s)"
| "delete_loop store keep (it # its) aborted r s =
     (if it_name it \<in> set keep then delete_loop store keep its aborted (r\<lparr>rs_kept := rs_kept r + 1\<rparr>) s
      else if aborted then
        delete_loop store keep its aborted (r\<lparr>rs_blocked := rs_blocked r @ [it_name it]\<rparr>) s
      else
        (case store_delete store s (it_name it) of
           (None, s') \<Rightarrow> delete_loop store keep its aborted (r\<lparr>rs_deleted := rs_deleted r @ [it_name it]\<rparr>) s'
         | (Some e, s') \<Rightarrow>
             if de_is_skip e then
               delete_loop store keep its aborted (r\<lparr>rs_skipped := rs_skipped r @ [it_name it]\<rparr>) s'
             else
               delete_loop store keep its (de_aborts e) (r\<lparr>rs_errors := rs_errors r @ [(it_name it, e)]\<rparr>) s'))"

definition apply_retention ::
  "'re regexp_pkg \<Rightarrow> gtime \<Rightarrow> 's store \<Rightarrow> string list \<Rightarrow> retention_policy \<Rightarrow> 's
     \<Rightarrow> (retention_result \<times> retention_error option) \<times> 's" where
  "apply_retention R now store templates p s =
     (if \<not> policy_active p then ((empty_result, None), s)
      else case store_list store s of
        (Inl e, s') \<Rightarrow> ((empty_result, Some (ListFailed e)), s')
      | (Inr items, s') \<Rightarrow>
          (case compile_templates R (effective_identity (rp_identity p)) templates of
             Inl e \<Rightarrow> ((empty_result, Some (BadTemplate e)), s')
           | Inr ms \<Rightarrow>
               (let st = scan_items R ms (templates_to_patterns templates)
                           (templates_to_patterns (rp_protect p)) items;
                    r = empty_result\<lparr>rs_matched := length (sc_in_scope st)\<rparr>
                in if rs_matched r = 0 then ((r, None), s')
                   else
                     (let (r', s'') = delete_loop store (names_to_keep R now ms p st)
                                        (sort_slice newer_item (sc_in_scope st)) False r s'
                      in ((r', None), s'')))))"

section \<open>The delete loop\<close>

definition outcomes :: "retention_result \<Rightarrow> string list" where
  "outcomes r = rs_deleted r @ rs_skipped r @ rs_blocked r @ map fst (rs_errors r)"

lemma delete_loop_account:
  "delete_loop store keep its aborted r s = (r', s') \<Longrightarrow>
    rs_kept r' + length (outcomes r') = rs_kept r + length (outcomes r) + length its \<and>
    rs_matched r' = rs_matched r"
  by (induction store keep its aborted r s rule: delete_loop.induct)
    (auto simp: outcomes_def split: if_splits prod.splits option.splits)

lemma delete_loop_outcomes:
  "delete_loop store keep its aborted r s = (r', s') \<Longrightarrow>
    set (outcomes r') = set (outcomes r) \<union> {n \<in> it_name ` set its. n \<notin> set keep}"
  by (induction store keep its aborted r s rule: delete_loop.induct)
    (auto simp: outcomes_def split: if_splits prod.splits option.splits)

lemma delete_loop_aborted:
  "delete_loop store keep its True r s = (r', s') \<Longrightarrow>
    rs_deleted r' = rs_deleted r \<and> rs_skipped r' = rs_skipped r \<and> rs_errors r' = rs_errors r \<and> s' = s"
  by (induction store keep its True r s rule: delete_loop.induct) (auto split: if_splits)

text \<open>The calls of \<open>Delete\<close> a store has answered, from one state to another.\<close>

type_synonym calls = "(string \<times> delete_error option) list"

fun answered :: "'s store \<Rightarrow> 's \<Rightarrow> calls \<Rightarrow> 's \<Rightarrow> bool" where
  "answered store s [] s' \<longleftrightarrow> s' = s"
| "answered store s ((n, out) # cs) s' \<longleftrightarrow>
     fst (store_delete store s n) = out \<and> answered store (snd (store_delete store s n)) cs s'"

definition skip_answer :: "delete_error option \<Rightarrow> bool" where
  "skip_answer out = (case out of None \<Rightarrow> False | Some e \<Rightarrow> de_is_skip e)"

definition store_wide :: "delete_error option \<Rightarrow> bool" where
  "store_wide out = (case out of None \<Rightarrow> False | Some e \<Rightarrow> \<not> de_is_skip e \<and> de_aborts e)"

text \<open>The names, and the errors, that a sequence of answers stands for.\<close>

definition done_calls :: "calls \<Rightarrow> string list" where
  "done_calls cs = map fst (filter (\<lambda>(n, out). out = None) cs)"

definition skipped_calls :: "calls \<Rightarrow> string list" where
  "skipped_calls cs = map fst (filter (\<lambda>(n, out). skip_answer out) cs)"

definition failed_calls :: "calls \<Rightarrow> (string \<times> delete_error) list" where
  "failed_calls cs = map (\<lambda>(n, out). (n, the out)) (filter (\<lambda>(n, out). out \<noteq> None \<and> \<not> skip_answer out) cs)"

lemmas call_defs = done_calls_def skipped_calls_def failed_calls_def skip_answer_def store_wide_def

lemma delete_loop_calls:
  "delete_loop store keep its False r s = (r', s') \<Longrightarrow>
    \<exists>cs. answered store s cs s' \<and> rs_deleted r' = rs_deleted r @ done_calls cs \<and>
      rs_skipped r' = rs_skipped r @ skipped_calls cs \<and> rs_errors r' = rs_errors r @ failed_calls cs \<and>
      list_all (\<lambda>(n, out). \<not> store_wide out) (butlast cs) \<and>
      (rs_blocked r' = rs_blocked r \<or> cs \<noteq> [] \<and> store_wide (snd (last cs)))"
proof (induction its arbitrary: r s)
  case Nil
  then show ?case by (intro exI [of _ "[]"]) (simp add: call_defs)
next
  case (Cons it its)
  obtain out s1 where d: "store_delete store s (it_name it) = (out, s1)" by fastforce
  have more: ?case
    if run: "delete_loop store keep its False r1 s1 = (r', s')" and "\<not> store_wide out" "it_name it \<notin> set keep"
      and r1: "rs_deleted r1 = rs_deleted r @ done_calls [(it_name it, out)]"
        "rs_skipped r1 = rs_skipped r @ skipped_calls [(it_name it, out)]"
        "rs_errors r1 = rs_errors r @ failed_calls [(it_name it, out)]" "rs_blocked r1 = rs_blocked r" for r1
  proof -
    from Cons.IH [OF run] obtain cs where "answered store s1 cs s'"
      "rs_deleted r' = rs_deleted r1 @ done_calls cs" "rs_skipped r' = rs_skipped r1 @ skipped_calls cs"
      "rs_errors r' = rs_errors r1 @ failed_calls cs" "list_all (\<lambda>(n, out). \<not> store_wide out) (butlast cs)"
      "rs_blocked r' = rs_blocked r1 \<or> cs \<noteq> [] \<and> store_wide (snd (last cs))" by blast
    with d that(2) r1 show ?thesis
      by (intro exI [of _ "(it_name it, out) # cs"]) (auto simp: done_calls_def skipped_calls_def failed_calls_def)
  qed
  show ?case
  proof (cases "it_name it \<in> set keep")
    case True
    with Cons.prems Cons.IH show ?thesis by fastforce
  next
    case False
    note step = Cons.prems [simplified, simplified False d if_False prod.case]
    show ?thesis
    proof (cases out)
      case None
      with step more False show ?thesis by (auto simp: call_defs)
    next
      case (Some e)
      consider "de_is_skip e" | "\<not> de_is_skip e" "\<not> de_aborts e" | "\<not> de_is_skip e" "de_aborts e" by blast
      then show ?thesis
      proof cases
        case 3
        with step Some have "delete_loop store keep its True
            (r\<lparr>rs_errors := rs_errors r @ [(it_name it, e)]\<rparr>) s1 = (r', s')" by simp
        from delete_loop_aborted [OF this] Some 3 d show ?thesis
          by (intro exI [of _ "[(it_name it, out)]"]) (simp add: call_defs)
      qed (use step more False Some in \<open>auto simp: call_defs\<close>)
    qed
  qed
qed

text \<open>Which names are kept and which are not.\<close>

lemma delete_loop_names:
  "delete_loop store keep its aborted r s = (r', s') \<Longrightarrow>
    rs_kept r' = rs_kept r + length (filter (\<lambda>n. n \<in> set keep) (map it_name its)) \<and>
    mset (outcomes r') = mset (outcomes r) + mset (filter (\<lambda>n. n \<notin> set keep) (map it_name its))"
  by (induction store keep its aborted r s rule: delete_loop.induct)
    (auto simp: outcomes_def split: if_splits prod.splits option.splits)

section \<open>Results of a run\<close>

text \<open>A run that gets past listing and compiling, taken apart.\<close>

lemma apply_retention_run:
  assumes "apply_retention R now store templates p s = ((r, None), s')" "policy_active p"
  obtains items s1 ms st where
    "store_list store s = (Inr items, s1)"
    "compile_templates R (effective_identity (rp_identity p)) templates = Inr ms"
    "st = scan_items R ms (templates_to_patterns templates) (templates_to_patterns (rp_protect p)) items"
    "delete_loop store (names_to_keep R now ms p st) (sort_slice newer_item (sc_in_scope st)) False
       (empty_result\<lparr>rs_matched := length (sc_in_scope st)\<rparr>) s1 = (r, s')"
proof -
  obtain items s1 ms where 1: "store_list store s = (Inr items, s1)"
    and 2: "compile_templates R (effective_identity (rp_identity p)) templates = Inr ms"
    using assms by (auto simp: apply_retention_def split: prod.splits sum.splits)
  define st where "st = scan_items R ms (templates_to_patterns templates) (templates_to_patterns (rp_protect p)) items"
  have "delete_loop store (names_to_keep R now ms p st) (sort_slice newer_item (sc_in_scope st)) False
       (empty_result\<lparr>rs_matched := length (sc_in_scope st)\<rparr>) s1 = (r, s')"
  proof (cases "sc_in_scope st = []")
    case True
    then have "sort_slice newer_item (sc_in_scope st) = []" by simp
    with True assms 1 2 show ?thesis
      unfolding apply_retention_def st_def by (simp del: sort_slice_Nil_iff)
  next
    case False
    with assms 1 2 show ?thesis
      unfolding apply_retention_def st_def by (simp add: Let_def split: prod.splits)
  qed
  with 1 2 st_def that show ?thesis by blast
qed

text \<open>A policy with no rule is a no-op: nothing is listed, nothing is deleted, no error.\<close>

theorem inactive_policy_no_op:
  assumes "\<not> policy_active p"
  shows "apply_retention R now store templates p s = ((empty_result, None), s)"
  using assms by (simp add: apply_retention_def)

lemma inactive_policy_no_op_witness:
  "apply_retention go_regexp zero_time
      \<lparr>store_list = (\<lambda>s. (Inl ''unreachable'', s + 1)), store_delete = (\<lambda>s n. (None, s + 1))\<rparr>
      [''{version}''] no_rules (0 :: nat) = ((empty_result, None), 0)"
  by (rule inactive_policy_no_op) (simp add: no_rules_def policy_active_def)

lemma apply_retention_error_empty:
  "apply_retention R now store templates p s = ((r, Some e), s') \<Longrightarrow> r = empty_result"
  by (auto simp: apply_retention_def Let_def split: if_splits prod.splits sum.splits)

section \<open>What is kept\<close>

lemma add_to_group_other [simp]:
  "sc_keep (add_to_group mi key h it st) = sc_keep st"
  "sc_in_scope (add_to_group mi key h it st) = sc_in_scope st"
  by (simp_all add: add_to_group_def Let_def split: option.split)

lemma scan_items_snoc:
  "scan_items R ms pats prot (its @ [it]) = scan_item R ms pats prot (scan_items R ms pats prot its) it"
  by (simp add: scan_items_def)

lemma scan_items_Nil:
  "scan_items R ms pats prot [] = \<lparr>sc_groups = [], sc_tmpl_keys = [], sc_keep = [], sc_in_scope = []\<rparr>"
  by (simp add: scan_items_def)

definition in_scope_names :: "'re regexp_pkg \<Rightarrow> string list \<Rightarrow> item list \<Rightarrow> string list" where
  "in_scope_names R templates items =
     map it_name (filter (\<lambda>it. match_patterns R (templates_to_patterns templates) (it_name it)) items)"

definition is_protected :: "'re regexp_pkg \<Rightarrow> string list \<Rightarrow> string \<Rightarrow> bool" where
  "is_protected R prot name \<longleftrightarrow> prot \<noteq> [] \<and> match_patterns R prot name"

lemma scan_in_scope:
  "sc_in_scope (scan_items R ms pats prot its) = filter (\<lambda>it. match_patterns R pats (it_name it)) its"
  by (induction its rule: rev_induct)
    (auto simp: scan_items_Nil scan_items_snoc scan_item_def Let_def split: option.split)

lemma scan_keep:
  "set (sc_keep (scan_items R ms pats prot its)) =
    it_name ` {it \<in> set its. match_patterns R pats (it_name it) \<and> is_protected R prot (it_name it)}"
  by (induction its rule: rev_induct)
    (auto simp: scan_items_Nil scan_items_snoc scan_item_def is_protected_def Let_def split: option.split)

lemma names_to_keep_iff:
  "n \<in> set (names_to_keep R now ms p st) \<longleftrightarrow>
    n \<in> set (sc_keep st) \<or>
    (\<exists>key g. (key, g) \<in> set (sc_groups st) \<and> key \<notin> set (dropped_keys p st) \<and> n \<in> set (kept_in_group R now ms p g))"
proof -
  have "n \<in> set (foldl (\<lambda>keep (key, g). if key \<in> D then keep else f g @ keep) k0 gs) \<longleftrightarrow>
      n \<in> set k0 \<or> (\<exists>key g. (key, g) \<in> set gs \<and> key \<notin> D \<and> n \<in> set (f g))"
    for D k0 gs and f :: "series_group \<Rightarrow> string list"
    by (induction gs arbitrary: k0) auto
  then show ?thesis unfolding names_to_keep_def .
qed

text \<open>The accounts of a run that reaches the delete loop.\<close>

lemma retention_run_accounts:
  assumes "apply_retention R now store templates p s = ((r, None), s')" "policy_active p"
  shows "rs_matched r = rs_kept r + length (outcomes r) \<and>
    (\<exists>items K. fst (store_list store s) = Inr items \<and>
       rs_matched r = length (in_scope_names R templates items) \<and>
       rs_kept r = length (filter (\<lambda>n. n \<in> K) (in_scope_names R templates items)) \<and>
       mset (outcomes r) = mset (filter (\<lambda>n. n \<notin> K) (in_scope_names R templates items)))"
  using assms
proof (rule apply_retention_run)
  fix items s1 ms st
  assume l: "store_list store s = (Inr items, s1)"
    and st: "st = scan_items R ms (templates_to_patterns templates) (templates_to_patterns (rp_protect p)) items"
    and d: "delete_loop store (names_to_keep R now ms p st) (sort_slice newer_item (sc_in_scope st)) False
      (empty_result\<lparr>rs_matched := length (sc_in_scope st)\<rparr>) s1 = (r, s')"
  let ?K = "set (names_to_keep R now ms p st)" and ?names = "map it_name (sort_slice newer_item (sc_in_scope st))"
  have names: "mset ?names = mset (in_scope_names R templates items)"
    by (simp add: st scan_in_scope in_scope_names_def)
  have "rs_matched r = length (sc_in_scope st)" "rs_matched r = rs_kept r + length (outcomes r)"
    using delete_loop_account [OF d] by (simp_all add: empty_result_def outcomes_def)
  moreover have "length (sc_in_scope st) = length (in_scope_names R templates items)"
    by (simp add: st scan_in_scope in_scope_names_def)
  moreover have "rs_kept r = length (filter (\<lambda>n. n \<in> ?K) ?names)"
    "mset (outcomes r) = mset (filter (\<lambda>n. n \<notin> ?K) ?names)"
    using delete_loop_names [OF d] by (simp_all add: empty_result_def outcomes_def)
  moreover have "length (filter P ?names) = length (filter P (in_scope_names R templates items))" for P
    using names by (metis mset_filter size_mset)
  moreover have "mset (filter P ?names) = mset (filter P (in_scope_names R templates items))" for P
    using names by simp
  ultimately show ?thesis using l by auto
qed

text \<open>A run that ends in an error, or has no rule, stops before the delete loop.\<close>

lemma retention_stopped:
  assumes "apply_retention R now store templates p s = ((r, e), s')" "e \<noteq> None \<or> \<not> policy_active p"
  shows "r = empty_result \<and> s' = (if policy_active p then snd (store_list store s) else s)"
  using assms by (auto simp: apply_retention_def Let_def split: prod.splits sum.splits if_splits)

lemma retention_inactive_no_error:
  "apply_retention R now store templates p s = ((r, Some e), s') \<Longrightarrow> policy_active p"
  by (auto simp: apply_retention_def split: if_splits)

text \<open>C35: Every matched item is accounted for exactly once. A run that ends in an error reports an
  empty result and has called nothing but the listing; an inactive policy touches nothing at all;
  any other run counts the listed items the templates put in scope, and splits them by name: those
  it keeps are counted, every other one is reported once as deleted, skipped, blocked or failed.\<close>

theorem retention_accounts_for_every_match:
  "case apply_retention R now store templates p s of ((r, e), s') \<Rightarrow>
    rs_matched r = rs_kept r + length (outcomes r) \<and>
    (if e \<noteq> None then r = empty_result \<and> s' = snd (store_list store s)
     else if \<not> policy_active p then r = empty_result \<and> s' = s
     else (\<exists>items K. fst (store_list store s) = Inr items \<and>
       rs_matched r = length (in_scope_names R templates items) \<and>
       rs_kept r = length (filter (\<lambda>n. n \<in> K) (in_scope_names R templates items)) \<and>
       mset (outcomes r) = mset (filter (\<lambda>n. n \<notin> K) (in_scope_names R templates items))))"
proof -
  obtain r e s' where run: "apply_retention R now store templates p s = ((r, e), s')"
    by (metis prod.exhaust)
  show ?thesis
  proof (cases "policy_active p \<and> e = None")
    case True
    then have off: "(e \<noteq> None) = False" "(\<not> policy_active p) = False" by simp_all
    have "apply_retention R now store templates p s = ((r, None), s')" using run True by simp
    from retention_run_accounts [OF this conjunct1 [OF True]]
    show ?thesis unfolding run prod.case off if_False .
  next
    case False
    then have "r = empty_result \<and> s' = (if policy_active p then snd (store_list store s) else s)"
      using retention_stopped [OF run] by blast
    moreover have "e \<noteq> None \<Longrightarrow> policy_active p" using run retention_inactive_no_error by fastforce
    ultimately show ?thesis using False by (auto simp: run empty_result_def outcomes_def)
  qed
qed

text \<open>C38: After a store-wide failure the store is left alone. In every run the final state of the
  store is the one after a sequence of delete calls that, together with their answers, make up the
  reported result: of those calls only the last one can have met a store-wide failure, and items
  are blocked only when it did.\<close>

theorem no_delete_after_store_wide_failure:
  "case apply_retention R now store templates p s of ((r, e), s') \<Rightarrow>
    \<exists>cs. answered store (if policy_active p then snd (store_list store s) else s) cs s' \<and>
      rs_deleted r = done_calls cs \<and> rs_skipped r = skipped_calls cs \<and> rs_errors r = failed_calls cs \<and>
      list_all (\<lambda>(n, out). \<not> store_wide out) (butlast cs) \<and>
      (rs_blocked r = [] \<or> cs \<noteq> [] \<and> store_wide (snd (last cs)))"
proof -
  obtain r e s' where run: "apply_retention R now store templates p s = ((r, e), s')"
    by (metis prod.exhaust)
  show ?thesis
  proof (cases "policy_active p \<and> e = None")
    case False
    then have "r = empty_result" "s' = (if policy_active p then snd (store_list store s) else s)"
      using retention_stopped [OF run] by blast+
    then show ?thesis unfolding run by (auto intro: exI [of _ "[]"] simp: empty_result_def call_defs)
  next
    case True
    then have "apply_retention R now store templates p s = ((r, None), s')" using run by simp
    then show ?thesis
    proof (rule apply_retention_run)
      show "policy_active p" using True by simp
      fix items s1 ms st
      assume l: "store_list store s = (Inr items, s1)"
        and d: "delete_loop store (names_to_keep R now ms p st) (sort_slice newer_item (sc_in_scope st)) False
          (empty_result\<lparr>rs_matched := length (sc_in_scope st)\<rparr>) s1 = (r, s')"
      from delete_loop_calls [OF d] l True show ?thesis by (simp add: run empty_result_def)
    qed
  qed
qed

text \<open>C3: Every name the run tries to delete (deleted, skipped, blocked or failed) is the name of a
  listed item that the templates put in scope and that no protect pattern covers.\<close>

theorem protected_and_foreign_items_survive:
  assumes "apply_retention R now store templates p s = ((r, None), s')" "n \<in> set (outcomes r)"
  shows "\<exists>items s1 it. store_list store s = (Inr items, s1) \<and> it \<in> set items \<and> it_name it = n \<and>
    match_patterns R (templates_to_patterns templates) n \<and>
    \<not> is_protected R (templates_to_patterns (rp_protect p)) n"
proof (cases "policy_active p")
  case False
  with assms show ?thesis by (auto simp: apply_retention_def empty_result_def outcomes_def)
next
  case True
  from assms(1) True show ?thesis
  proof (rule apply_retention_run)
    fix items s1 ms st
    assume l: "store_list store s = (Inr items, s1)"
      and st: "st = scan_items R ms (templates_to_patterns templates) (templates_to_patterns (rp_protect p)) items"
      and d: "delete_loop store (names_to_keep R now ms p st) (sort_slice newer_item (sc_in_scope st)) False
       (empty_result\<lparr>rs_matched := length (sc_in_scope st)\<rparr>) s1 = (r, s')"
    have "n \<in> it_name ` set (sc_in_scope st)" "n \<notin> set (names_to_keep R now ms p st)"
      using assms(2) delete_loop_outcomes [OF d] by (auto simp: empty_result_def outcomes_def)
    then have "n \<notin> set (sc_keep st)" and "\<exists>it \<in> set items. it_name it = n \<and> match_patterns R (templates_to_patterns templates) n"
      unfolding st scan_in_scope names_to_keep_iff by auto
    then show ?thesis using l scan_keep [of R ms "templates_to_patterns templates" "templates_to_patterns (rp_protect p)" items]
      unfolding st by (auto simp: image_iff)
  qed
qed

section \<open>Series\<close>

definition series_key :: "'re regexp_pkg \<Rightarrow> 're tmpl_matcher list \<Rightarrow> string \<Rightarrow> string" where
  "series_key R ms name = (case first_series R ms 0 name of None \<Rightarrow> [] | Some (i, key) \<Rightarrow> key)"

definition series_matcher :: "'re regexp_pkg \<Rightarrow> 're tmpl_matcher list \<Rightarrow> string \<Rightarrow> nat option" where
  "series_matcher R ms name = map_option fst (first_series R ms 0 name)"

text \<open>The candidates of one series, in listing order.\<close>

definition is_candidate :: "'re regexp_pkg \<Rightarrow> string list \<Rightarrow> string list \<Rightarrow> string \<Rightarrow> bool" where
  "is_candidate R pats prot name \<longleftrightarrow> match_patterns R pats name \<and> \<not> is_protected R prot name"

definition series_items ::
  "'re regexp_pkg \<Rightarrow> 're tmpl_matcher list \<Rightarrow> string list \<Rightarrow> string list \<Rightarrow> item list \<Rightarrow> string \<Rightarrow> item list" where
  "series_items R ms pats prot its key =
     filter (\<lambda>it. is_candidate R pats prot (it_name it) \<and> series_key R ms (it_name it) = key) its"

lemma add_to_group_groups:
  "map_of (sc_groups (add_to_group mi key h it st)) k =
    (if k = key then Some (case map_of (sc_groups st) key of
        None \<Rightarrow> \<lparr>sg_matcher = mi, sg_items = [it]\<rparr>
      | Some g \<Rightarrow> g\<lparr>sg_items := sg_items g @ [it]\<rparr>)
     else map_of (sc_groups st) k)"
  by (auto simp: add_to_group_def Let_def update_conv map_add_def split: option.split)

lemma add_to_group_distinct:
  "distinct (map fst (sc_groups st)) \<Longrightarrow> distinct (map fst (sc_groups (add_to_group mi key h it st)))"
  by (auto simp: add_to_group_def Let_def distinct_update map_of_eq_None_iff split: option.split)

lemma scan_item_candidate:
  "scan_item R ms pats prot st it =
    (if \<not> match_patterns R pats (it_name it) then st
     else if is_protected R prot (it_name it)
     then st\<lparr>sc_in_scope := sc_in_scope st @ [it], sc_keep := it_name it # sc_keep st\<rparr>
     else add_to_group (series_matcher R ms (it_name it)) (series_key R ms (it_name it))
       (case first_series R ms 0 (it_name it) of None \<Rightarrow> False | Some (i, k) \<Rightarrow> tm_id_groups (ms ! i) \<noteq> []) it
       (st\<lparr>sc_in_scope := sc_in_scope st @ [it]\<rparr>))"
  by (auto simp: scan_item_def is_protected_def series_matcher_def series_key_def Let_def split: option.split)

lemma scan_groups:
  "map_of (sc_groups (scan_items R ms pats prot its)) key =
    (case series_items R ms pats prot its key of
       [] \<Rightarrow> None
     | it # _ \<Rightarrow> Some \<lparr>sg_matcher = series_matcher R ms (it_name it),
                     sg_items = series_items R ms pats prot its key\<rparr>)"
proof (induction its rule: rev_induct)
  case Nil
  then show ?case by (simp add: scan_items_Nil series_items_def)
next
  case (snoc it its)
  show ?case
  proof (cases "is_candidate R pats prot (it_name it)")
    case False
    then have si: "series_items R ms pats prot (its @ [it]) key = series_items R ms pats prot its key"
      by (simp add: series_items_def)
    show ?thesis
      unfolding scan_items_snoc scan_item_candidate si
      using False snoc.IH by (simp add: is_candidate_def)
  next
    case cand: True
    then have step: "map_of (sc_groups (scan_items R ms pats prot (its @ [it]))) key =
        (if key = series_key R ms (it_name it) then
           Some (case map_of (sc_groups (scan_items R ms pats prot its)) (series_key R ms (it_name it)) of
              None \<Rightarrow> \<lparr>sg_matcher = series_matcher R ms (it_name it), sg_items = [it]\<rparr>
            | Some g \<Rightarrow> g\<lparr>sg_items := sg_items g @ [it]\<rparr>)
         else map_of (sc_groups (scan_items R ms pats prot its)) key)"
      unfolding scan_items_snoc scan_item_candidate
      by (simp add: is_candidate_def add_to_group_groups)
    show ?thesis
    proof (cases "series_key R ms (it_name it) = key")
      case False
      then have si: "series_items R ms pats prot (its @ [it]) key = series_items R ms pats prot its key"
        by (simp add: series_items_def)
      show ?thesis unfolding step si using False snoc.IH by simp
    next
      case True
      with cand have si: "series_items R ms pats prot (its @ [it]) key = series_items R ms pats prot its key @ [it]"
        by (simp add: series_items_def)
      show ?thesis
        unfolding step si True snoc.IH by (cases "series_items R ms pats prot its key") simp_all
    qed
  qed
qed

lemma scan_groups_distinct: "distinct (map fst (sc_groups (scan_items R ms pats prot its)))"
proof (induction its rule: rev_induct)
  case Nil
  then show ?case by (simp add: scan_items_Nil)
next
  case (snoc it its)
  then show ?case
    unfolding scan_items_snoc scan_item_candidate by (simp add: add_to_group_distinct)
qed

lemma dropped_keys_off: "rp_keep_branches p \<le> 0 \<Longrightarrow> dropped_keys p st = []"
  by (simp add: dropped_keys_def)

text \<open>Survival of a name: protected, or in a series that is not dropped and kept there.\<close>

lemma names_to_keep_series:
  "n \<in> set (names_to_keep R now ms p (scan_items R ms pats prot its)) \<longleftrightarrow>
    (\<exists>it \<in> set its. it_name it = n \<and> match_patterns R pats n \<and> is_protected R prot n) \<or>
    (\<exists>it \<in> set its. is_candidate R pats prot (it_name it) \<and>
      series_key R ms (it_name it) \<notin> set (dropped_keys p (scan_items R ms pats prot its)) \<and>
      n \<in> set (kept_in_group R now ms p
        \<lparr>sg_matcher = series_matcher R ms (it_name (hd (series_items R ms pats prot its (series_key R ms (it_name it))))),
         sg_items = series_items R ms pats prot its (series_key R ms (it_name it))\<rparr>))"
  (is "?L \<longleftrightarrow> ?P \<or> ?S")
proof -
  let ?st = "scan_items R ms pats prot its"
  have "(\<exists>key g. (key, g) \<in> set (sc_groups ?st) \<and> key \<notin> set (dropped_keys p ?st) \<and> n \<in> set (kept_in_group R now ms p g))
      \<longleftrightarrow> (\<exists>key g. map_of (sc_groups ?st) key = Some g \<and> key \<notin> set (dropped_keys p ?st) \<and> n \<in> set (kept_in_group R now ms p g))"
    using scan_groups_distinct by (metis map_of_eq_Some_iff)
  also have "\<dots> \<longleftrightarrow> (\<exists>key. series_items R ms pats prot its key \<noteq> [] \<and> key \<notin> set (dropped_keys p ?st) \<and>
      n \<in> set (kept_in_group R now ms p
        \<lparr>sg_matcher = series_matcher R ms (it_name (hd (series_items R ms pats prot its key))),
         sg_items = series_items R ms pats prot its key\<rparr>))"
    unfolding scan_groups by (intro iff_exI) (auto split: list.splits)
  also have "\<dots> \<longleftrightarrow> ?S"
    by (fastforce simp: series_items_def filter_empty_conv)
  finally show ?thesis
    unfolding names_to_keep_iff scan_keep by (auto simp: image_iff)
qed

lemma kept_in_group_subset: "n \<in> set (kept_in_group R now ms p g) \<Longrightarrow> n \<in> it_name ` set (sg_items g)"
  by (auto simp: kept_in_group_def Let_def split: if_splits dest!: set_zip_leftD)

text \<open>What is kept of a series: a function of the series alone.\<close>

definition kept_of_series ::
  "'re regexp_pkg \<Rightarrow> gtime \<Rightarrow> 're tmpl_matcher list \<Rightarrow> retention_policy \<Rightarrow> item list \<Rightarrow> string list" where
  "kept_of_series R now ms p its =
     kept_in_group R now ms p \<lparr>sg_matcher = series_matcher R ms (it_name (hd its)), sg_items = its\<rparr>"

text \<open>Series are pruned independently. Unless the number of series is bounded, a candidate
  survives exactly when the rules keep its name within its own series.\<close>

theorem series_pruned_independently:
  assumes "rp_keep_branches p \<le> 0" "it \<in> set its" "is_candidate R pats prot (it_name it)"
  shows "it_name it \<in> set (names_to_keep R now ms p (scan_items R ms pats prot its)) \<longleftrightarrow>
    it_name it \<in> set (kept_of_series R now ms p (series_items R ms pats prot its (series_key R ms (it_name it))))"
proof -
  have own: "series_key R ms (it_name it') = series_key R ms (it_name it)"
    if "it_name it \<in> set (kept_of_series R now ms p (series_items R ms pats prot its (series_key R ms (it_name it'))))" for it' :: item
    using kept_in_group_subset [OF that [unfolded kept_of_series_def]] by (auto simp: series_items_def)
  show ?thesis
    unfolding names_to_keep_series dropped_keys_off [OF assms(1)] kept_of_series_def [symmetric]
  proof
    assume "(\<exists>it' \<in> set its. it_name it' = it_name it \<and> match_patterns R pats (it_name it) \<and>
        is_protected R prot (it_name it)) \<or>
      (\<exists>it' \<in> set its. is_candidate R pats prot (it_name it') \<and> series_key R ms (it_name it') \<notin> set [] \<and>
        it_name it \<in> set (kept_of_series R now ms p (series_items R ms pats prot its (series_key R ms (it_name it')))))"
    with assms(3) obtain it' :: item where k: "it_name it \<in> set (kept_of_series R now ms p
        (series_items R ms pats prot its (series_key R ms (it_name it'))))"
      by (auto simp: is_candidate_def)
    show "it_name it \<in> set (kept_of_series R now ms p
        (series_items R ms pats prot its (series_key R ms (it_name it))))"
      using k unfolding own [OF k] .
  qed (use assms(2,3) in auto)
qed

definition demo_matchers :: "(rx \<times> string list) tmpl_matcher list" where
  "demo_matchers = (case compile_templates go_regexp [''branch''] [''dev-{branch}-{sha}''] of Inl e \<Rightarrow> [] | Inr ms \<Rightarrow> ms)"

lemma series_pruned_independently_witness:
  "let its = [\<lparr>it_name = ''dev-a-1'', it_created = zero_time\<rparr>, \<lparr>it_name = ''dev-b-2'', it_created = zero_time\<rparr>];
       p = no_rules\<lparr>rp_keep_last := 1\<rparr>; it = its ! 1
   in it_name it \<in> set (names_to_keep go_regexp zero_time demo_matchers p
        (scan_items go_regexp demo_matchers [''^dev-.+$''] [] its)) \<longleftrightarrow>
      it_name it \<in> set (kept_of_series go_regexp zero_time demo_matchers p
        (series_items go_regexp demo_matchers [''^dev-.+$''] [] its (series_key go_regexp demo_matchers (it_name it))))"
  unfolding Let_def
proof (rule series_pruned_independently)
  show "is_candidate go_regexp [''^dev-.+$''] []
    (it_name ([\<lparr>it_name = ''dev-a-1'', it_created = zero_time\<rparr>, \<lparr>it_name = ''dev-b-2'', it_created = zero_time\<rparr>] ! 1))"
    by code_simp
qed (simp_all add: no_rules_def)

text \<open>keep-last alone keeps, of every accumulating series, exactly its newest items: a name
  is kept exactly when one of the first \<open>n\<close> items by age carries it.\<close>

theorem keep_last_per_series:
  assumes "p = no_rules\<lparr>rp_keep_last := n, rp_protect := prot, rp_identity := ident\<rparr>" "0 < n"
    and "\<not> is_rolling ms (series_matcher R ms (it_name (hd its)))"
  shows "kept_of_series R now ms p its = map it_name (take (nat n) (sort_slice newer_item its))"
proof -
  let ?s = "sort_slice newer_item its"
  have flags: "apply_policies_scoped R now ?s p = map (\<lambda>k. int k < n) [0..<length ?s]"
  proof (rule nth_equalityI)
    fix k
    assume "k < length (apply_policies_scoped R now ?s p)"
    then have k: "k < length ?s" by simp
    have "apply_policies_scoped R now ?s p ! k \<longleftrightarrow> policy_keeps now ?s p k"
      using k assms(1) by (simp add: apply_policies_scoped_def no_rules_def apply_policies_additive_plain)
    also have "\<dots> \<longleftrightarrow> int k < n"
      by (simp add: assms(1) no_rules_def policy_keeps_def bucket_keeps_def)
    finally show "apply_policies_scoped R now ?s p ! k = map (\<lambda>k. int k < n) [0..<length ?s] ! k"
      using k by simp
  qed simp
  have "map fst (filter snd (zip xs (map (\<lambda>k. int k < n) [0..<length xs]))) = take (nat n) xs" for xs :: "string list"
  proof (induction xs rule: rev_induct)
    case (snoc x xs)
    have "zip (xs @ [x]) (map (\<lambda>k. int k < n) [0..<length (xs @ [x])]) =
        zip xs (map (\<lambda>k. int k < n) [0..<length xs]) @ [(x, int (length xs) < n)]" by simp
    with snoc.IH show ?case using assms(2) by (simp add: zless_nat_eq_int_zless le_nat_iff not_less)
  qed simp
  from this [of "map it_name ?s"]
  have "map fst (filter snd (zip (map it_name ?s) (map (\<lambda>k. int k < n) [0..<length ?s]))) = take (nat n) (map it_name ?s)"
    by simp
  moreover have "seq_active p" using assms(1,2) by (simp add: seq_active_def)
  ultimately show ?thesis
    using assms(3) flags by (simp add: kept_of_series_def kept_in_group_def Let_def take_map)
qed

lemma keep_last_per_series_witness:
  "kept_of_series go_regexp zero_time demo_matchers
      (no_rules\<lparr>rp_keep_last := 1, rp_protect := [], rp_identity := []\<rparr>)
      [\<lparr>it_name = ''dev-a-1'', it_created = zero_time\<rparr>, \<lparr>it_name = ''dev-a-2'', it_created = add_days 1 zero_time\<rparr>] =
    map it_name (take (nat 1) (sort_slice newer_item
      [\<lparr>it_name = ''dev-a-1'', it_created = zero_time\<rparr>, \<lparr>it_name = ''dev-a-2'', it_created = add_days 1 zero_time\<rparr>]))"
proof (rule keep_last_per_series [OF refl])
  have "\<not> is_rolling demo_matchers (series_matcher go_regexp demo_matchers ''dev-a-1'')" by code_simp
  then show "\<not> is_rolling demo_matchers (series_matcher go_regexp demo_matchers
      (it_name (hd [\<lparr>it_name = ''dev-a-1'', it_created = zero_time\<rparr>, \<lparr>it_name = ''dev-a-2'', it_created = add_days 1 zero_time\<rparr>])))"
    by simp
qed simp

text \<open>Rolling series are kept whole.\<close>

lemma rolling_series_kept:
  "is_rolling ms (series_matcher R ms (it_name (hd its))) \<Longrightarrow>
    kept_of_series R now ms p its = map it_name its"
  by (simp add: kept_of_series_def kept_in_group_def)

section \<open>Bounding the number of series\<close>

text \<open>Between items: each template's list of keys is free of repetitions and names series of that
  template.\<close>

definition keys_ok :: "scan_state \<Rightarrow> bool" where
  "keys_ok st \<longleftrightarrow>
     distinct (map fst (sc_tmpl_keys st)) \<and>
     (\<forall>(i, ks) \<in> set (sc_tmpl_keys st). distinct ks \<and>
        (\<forall>k \<in> set ks. \<exists>g. map_of (sc_groups st) k = Some g \<and> sg_matcher g = Some i))"

lemma add_to_group_keys:
  "sc_tmpl_keys (add_to_group mi key h it st) =
    (case mi of
       Some i \<Rightarrow> if h \<and> map_of (sc_groups st) key = None
                then AList.update i ((case map_of (sc_tmpl_keys st) i of None \<Rightarrow> [] | Some ks \<Rightarrow> ks) @ [key]) (sc_tmpl_keys st)
                else sc_tmpl_keys st
     | None \<Rightarrow> sc_tmpl_keys st)"
  by (simp add: add_to_group_def Let_def split: option.split)

lemma keys_ok_add_to_group:
  assumes "keys_ok st"
  shows "keys_ok (add_to_group mi key h it st)"
proof -
  let ?st = "add_to_group mi key h it st"
  have kept: "\<exists>g'. map_of (sc_groups ?st) k = Some g' \<and> sg_matcher g' = Some i"
    if "map_of (sc_groups st) k = Some g" "sg_matcher g = Some i" for k g i
    using that by (auto simp: add_to_group_groups)
  have old: "distinct ks \<and> (\<forall>k \<in> set ks. \<exists>g. map_of (sc_groups ?st) k = Some g \<and> sg_matcher g = Some i)"
    if "(i, ks) \<in> set (sc_tmpl_keys st)" for i ks
    using assms that kept unfolding keys_ok_def by fastforce
  show ?thesis
  proof (cases "\<exists>i. mi = Some i \<and> h \<and> map_of (sc_groups st) key = None")
    case False
    then have "sc_tmpl_keys ?st = sc_tmpl_keys st" by (auto simp: add_to_group_keys split: option.split)
    with old assms show ?thesis unfolding keys_ok_def by auto
  next
    case True
    then obtain i where i: "mi = Some i" "h" "map_of (sc_groups st) key = None" by blast
    define ks where "ks = (case map_of (sc_tmpl_keys st) i of None \<Rightarrow> [] | Some ks \<Rightarrow> ks)"
    have new: "sc_tmpl_keys ?st = AList.update i (ks @ [key]) (sc_tmpl_keys st)"
      using i by (simp add: add_to_group_keys ks_def)
    have "key \<notin> set ks"
    proof
      assume "key \<in> set ks"
      then have "(i, ks) \<in> set (sc_tmpl_keys st)"
        by (auto simp: ks_def split: option.splits dest: map_of_SomeD)
      with assms \<open>key \<in> set ks\<close> i(3) show False unfolding keys_ok_def by fastforce
    qed
    moreover have "distinct ks \<and> (\<forall>k \<in> set ks. \<exists>g. map_of (sc_groups ?st) k = Some g \<and> sg_matcher g = Some i)"
      using old by (auto simp: ks_def split: option.splits dest: map_of_SomeD)
    moreover have "\<exists>g. map_of (sc_groups ?st) key = Some g \<and> sg_matcher g = Some i"
      using i by (simp add: add_to_group_groups)
    ultimately have own: "distinct (ks @ [key]) \<and>
        (\<forall>k \<in> set (ks @ [key]). \<exists>g. map_of (sc_groups ?st) k = Some g \<and> sg_matcher g = Some i)"
      by auto
    have dist: "distinct (map fst (sc_tmpl_keys ?st))"
      using assms unfolding new keys_ok_def by (simp add: distinct_update)
    have "distinct xs \<and> (\<forall>k \<in> set xs. \<exists>g. map_of (sc_groups ?st) k = Some g \<and> sg_matcher g = Some j)"
      if "(j, xs) \<in> set (sc_tmpl_keys ?st)" for j xs
    proof -
      have "map_of (sc_tmpl_keys ?st) j = Some xs" using that dist by simp
      then have "(j = i \<and> xs = ks @ [key]) \<or> map_of (sc_tmpl_keys st) j = Some xs"
        unfolding new by (auto simp: update_conv split: if_splits)
      then show ?thesis using own old map_of_SomeD by metis
    qed
    with dist show ?thesis unfolding keys_ok_def by blast
  qed
qed

lemma keys_ok_other: "keys_ok (st\<lparr>sc_in_scope := a\<rparr>) = keys_ok st" "keys_ok (st\<lparr>sc_keep := b\<rparr>) = keys_ok st"
  by (simp_all add: keys_ok_def)

lemma keys_ok_scan: "keys_ok (scan_items R ms pats prot its)"
proof (induction its rule: rev_induct)
  case Nil
  then show ?case by (simp add: scan_items_Nil keys_ok_def)
next
  case (snoc it its)
  then show ?case
    unfolding scan_items_snoc scan_item_candidate by (simp add: keys_ok_other keys_ok_add_to_group)
qed

lemma newest_first: "comparator (\<lambda>a b. t_after (f a) (f b))"
  using comparator_key_desc [of "\<lambda>a. t_nanos (f a)"] by (simp add: t_after_def)

lemma dropped_keys_of_template:
  assumes "keys_ok st" "0 < rp_keep_branches p" "map_of (sc_tmpl_keys st) i = Some ks" "k \<in> set ks"
  shows "k \<in> set (dropped_keys p st) \<longleftrightarrow>
    k \<in> set (drop (nat (rp_keep_branches p))
      (sort_slice (\<lambda>a b. t_after (newest_of (group_items st a)) (newest_of (group_items st b))) ks))"
proof -
  let ?srt = "sort_slice (\<lambda>a b. t_after (newest_of (group_items st a)) (newest_of (group_items st b)))"
  let ?n = "nat (rp_keep_branches p)"
  have mem: "(i, ks) \<in> set (sc_tmpl_keys st)" using assms(3) by (rule map_of_SomeD)
  have only: "j = i \<and> xs = ks" if "(j, xs) \<in> set (sc_tmpl_keys st)" "k \<in> set xs" for j xs
  proof -
    have "\<exists>g. map_of (sc_groups st) k = Some g \<and> sg_matcher g = Some j"
      using assms(1) that unfolding keys_ok_def by fastforce
    moreover have "\<exists>g. map_of (sc_groups st) k = Some g \<and> sg_matcher g = Some i"
      using assms(1,4) mem unfolding keys_ok_def by fastforce
    ultimately have "j = i" by auto
    moreover have "distinct (map fst (sc_tmpl_keys st))" using assms(1) by (simp add: keys_ok_def)
    ultimately show ?thesis using that(1) assms(3) by (metis map_of_is_SomeI option.inject)
  qed
  have short: "drop ?n (?srt xs) = []" if "int (length xs) \<le> rp_keep_branches p" for xs
    using that by simp
  have "k \<in> set (dropped_keys p st) \<longleftrightarrow> (\<exists>(j, xs) \<in> set (sc_tmpl_keys st). k \<in> set (drop ?n (?srt xs)))"
    using assms(2) short unfolding dropped_keys_def by (force split: if_splits)
  also have "\<dots> \<longleftrightarrow> k \<in> set (drop ?n (?srt ks))"
  proof
    assume "\<exists>(j, xs) \<in> set (sc_tmpl_keys st). k \<in> set (drop ?n (?srt xs))"
    then obtain j xs where x: "(j, xs) \<in> set (sc_tmpl_keys st)" "k \<in> set (drop ?n (?srt xs))" by blast
    then have "k \<in> set xs" using in_set_dropD by (metis set_sort_slice)
    with only x show "k \<in> set (drop ?n (?srt ks))" by metis
  qed (use mem in blast)
  finally show ?thesis .
qed

text \<open>A bound on the number of series keeps, of each template, as many series as it allows and
  the most recently active ones: no dropped series is newer than a surviving one.\<close>

theorem keep_branches_keeps_most_recent:
  assumes "st = scan_items R ms pats prot its" "0 < rp_keep_branches p"
    and "map_of (sc_tmpl_keys st) i = Some ks"
  shows "length (filter (\<lambda>k. k \<notin> set (dropped_keys p st)) ks) = min (length ks) (nat (rp_keep_branches p)) \<and>
    (\<forall>k \<in> set ks. \<forall>k' \<in> set ks. k \<in> set (dropped_keys p st) \<longrightarrow> k' \<notin> set (dropped_keys p st) \<longrightarrow>
      \<not> t_after (newest_of (group_items st k)) (newest_of (group_items st k')))"
proof -
  let ?lt = "\<lambda>a b. t_after (newest_of (group_items st a)) (newest_of (group_items st b))"
  let ?s = "sort_slice ?lt ks" and ?n = "nat (rp_keep_branches p)"
  have ok: "keys_ok st" unfolding assms(1) by (rule keys_ok_scan)
  note dropped = dropped_keys_of_template [OF ok assms(2,3)]
  have "distinct ks" using ok map_of_SomeD [OF assms(3)] unfolding keys_ok_def by auto
  then have ds: "distinct ?s" by simp
  then have disj: "set (take ?n ?s) \<inter> set (drop ?n ?s) = {}" by (rule set_take_disj_set_drop_if_distinct) simp
  have un: "set ?s = set (take ?n ?s) \<union> set (drop ?n ?s)"
    by (metis append_take_drop_id set_append)
  have surv: "set (filter (\<lambda>k. k \<notin> set (dropped_keys p st)) ks) = set (take ?n ?s)"
  proof -
    have "set (filter (\<lambda>k. k \<notin> set (dropped_keys p st)) ks) = {k \<in> set ?s. k \<notin> set (drop ?n ?s)}"
      using dropped by auto
    with disj un show ?thesis by auto
  qed
  have "length (filter (\<lambda>k. k \<notin> set (dropped_keys p st)) ks) = length (take ?n ?s)"
    using surv \<open>distinct ks\<close> ds by (metis distinct_card distinct_filter distinct_take)
  moreover have "\<not> ?lt k k'" if "k \<in> set (drop ?n ?s)" "k' \<in> set (take ?n ?s)" for k k'
  proof -
    have "sorted_wrt (\<lambda>a b. \<not> ?lt b a) (take ?n ?s @ drop ?n ?s)"
      using comparator.ordered_sort_slice [OF newest_first, of "\<lambda>k. newest_of (group_items st k)" ks] by simp
    with that show ?thesis unfolding sorted_wrt_append by blast
  qed
  moreover have "k' \<in> set (take ?n ?s)" if "k' \<in> set ks" "k' \<notin> set (dropped_keys p st)" for k'
    unfolding surv [symmetric] using that by simp
  moreover have "k \<in> set (drop ?n ?s)" if "k \<in> set ks" "k \<in> set (dropped_keys p st)" for k
    using dropped that by blast
  moreover have "length (take ?n ?s) = min (length ks) ?n" by simp
  ultimately show ?thesis by metis
qed

definition demo_items :: "item list" where
  "demo_items =
     [\<lparr>it_name = ''dev-a-1'', it_created = \<lparr>t_nanos = 1, t_loc = utc\<rparr>\<rparr>,
      \<lparr>it_name = ''dev-a-2'', it_created = \<lparr>t_nanos = 2, t_loc = utc\<rparr>\<rparr>,
      \<lparr>it_name = ''dev-b-3'', it_created = \<lparr>t_nanos = 3, t_loc = utc\<rparr>\<rparr>]"

definition demo_store :: "string list store" where
  "demo_store = \<lparr>store_list = (\<lambda>s. (Inr demo_items, s)), store_delete = (\<lambda>s n. (None, n # s))\<rparr>"

lemma keep_branches_keeps_most_recent_witness:
  "let st = scan_items go_regexp demo_matchers [''^dev-.+$''] [] demo_items;
       p = no_rules\<lparr>rp_keep_branches := 1\<rparr>;
       ks = [''dev-{branch}-{sha}'' @ CHR 0x00 # ''a'', ''dev-{branch}-{sha}'' @ CHR 0x00 # ''b'']
   in length (filter (\<lambda>k. k \<notin> set (dropped_keys p st)) ks) = min (length ks) (nat (rp_keep_branches p)) \<and>
    (\<forall>k \<in> set ks. \<forall>k' \<in> set ks. k \<in> set (dropped_keys p st) \<longrightarrow> k' \<notin> set (dropped_keys p st) \<longrightarrow>
      \<not> t_after (newest_of (group_items st k)) (newest_of (group_items st k')))"
  unfolding Let_def
proof (rule keep_branches_keeps_most_recent [OF refl])
  show "map_of (sc_tmpl_keys (scan_items go_regexp demo_matchers [''^dev-.+$''] [] demo_items)) 0 =
    Some [''dev-{branch}-{sha}'' @ CHR 0x00 # ''a'', ''dev-{branch}-{sha}'' @ CHR 0x00 # ''b'']"
    by code_simp
qed simp

lemma protected_and_foreign_items_survive_witness:
  "\<exists>items s1 it. store_list demo_store [] = (Inr items, s1) \<and> it \<in> set items \<and> it_name it = ''dev-a-1'' \<and>
    match_patterns go_regexp (templates_to_patterns [''dev-{branch}-{sha}'']) ''dev-a-1'' \<and>
    \<not> is_protected go_regexp (templates_to_patterns (rp_protect (no_rules\<lparr>rp_keep_last := 1\<rparr>))) ''dev-a-1''"
proof (rule protected_and_foreign_items_survive)
  show "apply_retention go_regexp zero_time demo_store [''dev-{branch}-{sha}''] (no_rules\<lparr>rp_keep_last := 1\<rparr>) [] =
    ((empty_result\<lparr>rs_matched := 3, rs_kept := 2, rs_deleted := [''dev-a-1'']\<rparr>, None), [''dev-a-1''])"
    by code_simp
  show "''dev-a-1'' \<in> set (outcomes (empty_result\<lparr>rs_matched := 3, rs_kept := 2, rs_deleted := [''dev-a-1'']\<rparr>))"
    by (simp add: outcomes_def)
qed

end
