(* ===== verification/CI_State.thy ===== *)
theory CI_State
  imports SF_Prelude "HOL-Library.AList"
begin

text \<open>
  The pipeline ledger (\<^verbatim>\<open>src/src/cistate\<close>): the state of a run, the aggregate status, the upsert
  of subsystem records with the session view, recorded facts, signals, and the files that carry
  the state from job to job: \<^verbatim>\<open>pipeline.json\<close> and one shard per subsystem.

  Files hold values instead of JSON text: \<open>json_subsystem\<close> is what encoding and decoding does to
  a record (an empty map of results is omitted and comes back nil). Names are ASCII. The lemmas:
  what the aggregate status says, that records are upserted by name without losing facts, and that
  shards of several jobs add up whatever the order in which they are read.
\<close>

section \<open>The ledger\<close>

type_synonym results = "(string \<times> string) list option"

record subsystem_state =
  ss_name :: string
  ss_attempted :: bool
  ss_completed :: bool
  ss_skipped :: bool
  ss_allow_failure :: bool
  ss_required :: bool
  ss_outcome :: string
  ss_reason :: string
  ss_blocking :: bool
  ss_replacement :: string
  ss_contract :: bool
  ss_results :: results

record ci_state =
  ci_provider_name :: string
  ci_pipeline_id :: string
  ci_ref :: string
  ci_branch_name :: string
  ci_tag_name :: string
  ci_sha :: string
  ci_project :: string
  ci_modality :: string
  ci_pipeline_url :: string
  ci_commit_title :: string
  ci_version :: string
  ci_started_at :: int
  ci_duration_secs :: int

record build_state =
  bs_produced_images :: bool
  bs_published_count :: int
  bs_manifest_path :: string

text \<open>Of the retention records only the counts are kept; \<^const>\<open>None\<close> is a nil record.\<close>

record retention_state =
  rt_local_pruned :: "int option"
  rt_external_pruned :: "int option"

record state =
  st_version :: int
  st_ci :: ci_state
  st_build :: build_state
  st_release_eligible :: bool
  st_subsystems :: "subsystem_state list"
  st_retention :: retention_state

definition empty_subsystem :: subsystem_state where
  "empty_subsystem =
     \<lparr>ss_name = [], ss_attempted = False, ss_completed = False, ss_skipped = False, ss_allow_failure = False,
      ss_required = False, ss_outcome = [], ss_reason = [], ss_blocking = False, ss_replacement = [],
      ss_contract = False, ss_results = None\<rparr>"

definition empty_ci :: ci_state where
  "empty_ci =
     \<lparr>ci_provider_name = [], ci_pipeline_id = [], ci_ref = [], ci_branch_name = [], ci_tag_name = [],
      ci_sha = [], ci_project = [], ci_modality = [], ci_pipeline_url = [], ci_commit_title = [],
      ci_version = [], ci_started_at = 0, ci_duration_secs = 0\<rparr>"

definition zero_state :: state where
  "zero_state =
     \<lparr>st_version = 1, st_ci = empty_ci,
      st_build = \<lparr>bs_produced_images = False, bs_published_count = 0, bs_manifest_path = []\<rparr>,
      st_release_eligible = False, st_subsystems = [],
      st_retention = \<lparr>rt_local_pruned = None, rt_external_pruned = None\<rparr>\<rparr>"

section \<open>Aggregate status\<close>

fun status_loop :: "subsystem_state list \<Rightarrow> bool \<Rightarrow> bool \<Rightarrow> string" where
  "status_loop [] any_attempted has_warning =
     (if \<not> any_attempted then ''unknown'' else if has_warning then ''warning'' else ''passing'')"
| "status_loop (s # subs) any_attempted has_warning =
     (if \<not> ss_attempted s then status_loop subs any_attempted has_warning
      else if ss_outcome s = ''failed'' then
        (if ss_allow_failure s then status_loop subs True True else ''failing'')
      else if ss_outcome s = ''warning'' then status_loop subs True True
      else if ss_outcome s = ''skipped'' then status_loop subs True (has_warning \<or> ss_required s)
      else if ss_outcome s = ''not_applicable'' then status_loop subs True has_warning
      else if ss_outcome s = ''cancelled'' then
        (if \<not> ss_allow_failure s then ''failing'' else status_loop subs True True)
      else status_loop subs True has_warning)"

definition pipeline_status :: "state \<Rightarrow> string" where
  "pipeline_status st = status_loop (st_subsystems st) False False"

section \<open>Records by name\<close>

definition get_subsystem :: "state \<Rightarrow> string \<Rightarrow> subsystem_state option" where
  "get_subsystem st name = find (\<lambda>s. ss_name s = name) (st_subsystems st)"

fun upsert_in :: "subsystem_state \<Rightarrow> subsystem_state list \<Rightarrow> subsystem_state list \<times> subsystem_state" where
  "upsert_in s [] = ([s], s)"
| "upsert_in s (e # es) =
     (if ss_name e = ss_name s then
        (let s' = (if ss_results s = None then s\<lparr>ss_results := ss_results e\<rparr> else s) in (s' # es, s'))
      else (let (es', s') = upsert_in s es in (e # es', s')))"

definition upsert_subsystem :: "subsystem_state \<Rightarrow> state \<Rightarrow> state \<times> subsystem_state" where
  "upsert_subsystem s st =
     (let (subs, stored) = upsert_in s (st_subsystems st) in (st\<lparr>st_subsystems := subs\<rparr>, stored))"

fun record_session :: "subsystem_state \<Rightarrow> subsystem_state list \<Rightarrow> subsystem_state list" where
  "record_session s [] = [s]"
| "record_session s (e # es) = (if ss_name e = ss_name s then s # es else e # record_session s es)"

text \<open>The state and the session ledger of the process.\<close>

definition record_subsystem ::
  "subsystem_state \<Rightarrow> state \<times> subsystem_state list \<Rightarrow> state \<times> subsystem_state list" where
  "record_subsystem s w =
     (let (st', stored) = upsert_subsystem s (fst w) in (st', record_session stored (snd w)))"

definition merge_pairs :: "(string \<times> string) list \<Rightarrow> (string \<times> string) list \<Rightarrow> (string \<times> string) list" where
  "merge_pairs old new = foldl (\<lambda>m (k, v). AList.update k v m) old new"

fun merge_results_in ::
  "string \<Rightarrow> (string \<times> string) list \<Rightarrow> subsystem_state list \<Rightarrow> subsystem_state list" where
  "merge_results_in name results [] = [empty_subsystem\<lparr>ss_name := name, ss_results := Some results\<rparr>]"
| "merge_results_in name results (e # es) =
     (if ss_name e \<noteq> name then e # merge_results_in name results es
      else e\<lparr>ss_results := Some (merge_pairs (case ss_results e of None \<Rightarrow> [] | Some m \<Rightarrow> m) results)\<rparr> # es)"

definition merge_subsystem_results :: "string \<Rightarrow> (string \<times> string) list \<Rightarrow> state \<Rightarrow> state" where
  "merge_subsystem_results name results st =
     (if results = [] then st
      else st\<lparr>st_subsystems := merge_results_in name results (st_subsystems st)\<rparr>)"

section \<open>Facts\<close>

fun first_failure_loop :: "subsystem_state list \<Rightarrow> subsystem_state option \<Rightarrow> subsystem_state option" where
  "first_failure_loop [] soft = soft"
| "first_failure_loop (s # subs) soft =
     (if \<not> ss_attempted s \<or> ss_outcome s \<noteq> ''failed'' then first_failure_loop subs soft
      else if \<not> ss_allow_failure s then Some s
      else first_failure_loop subs (if soft = None then Some s else soft))"

definition first_failure :: "state \<Rightarrow> subsystem_state option" where
  "first_failure st = first_failure_loop (st_subsystems st) None"

definition pad2 :: "int \<Rightarrow> string" where
  "pad2 n = (if n < 10 then CHR ''0'' # itoa n else itoa n)"

definition humane_duration :: "int \<Rightarrow> string" where
  "humane_duration secs =
     (if secs \<le> 0 then []
      else if secs < 60 then itoa secs @ ''s''
      else if secs < 3600 then itoa (secs div 60) @ ''m '' @ pad2 (secs mod 60) @ ''s''
      else itoa (secs div 3600) @ ''h '' @ pad2 ((secs mod 3600) div 60) @ ''m'')"

definition short_sha :: "string \<Rightarrow> string" where
  "short_sha sha = (if length sha > 7 then take 7 sha else sha)"

definition fact_domain_subsystem :: "string \<Rightarrow> string" where
  "fact_domain_subsystem domain = (if domain = ''tests'' then ''test'' else domain)"

definition status_word :: "string \<Rightarrow> string" where
  "status_word pipeline =
     (if pipeline = ''passing'' then ''passed''
      else if pipeline = ''failing'' then ''failed''
      else if pipeline = ''warning'' then ''passed with warnings''
      else ''unknown'')"

definition status_icon :: "string \<Rightarrow> string" where
  "status_icon pipeline =
     (if pipeline = ''passing'' then [CHR 0xE2, CHR 0x9C, CHR 0x85]
      else if pipeline = ''failing'' then [CHR 0xF0, CHR 0x9F, CHR 0x9A, CHR 0xA8]
      else if pipeline = ''warning'' then [CHR 0xE2, CHR 0x9A, CHR 0xA0, CHR 0xEF, CHR 0xB8, CHR 0x8F]
      else [CHR 0xE2, CHR 0x9D, CHR 0x94])"

definition status_verb :: "string \<Rightarrow> string" where
  "status_verb pipeline =
     (if pipeline = ''passing'' then ''Passed''
      else if pipeline = ''failing'' then ''Failed''
      else if pipeline = ''warning'' then ''Passed with warnings''
      else ''Ran'')"

text \<open>The value of a key in a map of results: the empty string when absent (or nil).\<close>

definition result_value :: "results \<Rightarrow> string \<Rightarrow> string" where
  "result_value r key =
     (case r of None \<Rightarrow> [] | Some m \<Rightarrow> (case map_of m key of None \<Rightarrow> [] | Some v \<Rightarrow> v))"

definition retention_pruned :: "retention_state \<Rightarrow> int" where
  "retention_pruned r =
     (case rt_local_pruned r of None \<Rightarrow> 0 | Some n \<Rightarrow> n) + (case rt_external_pruned r of None \<Rightarrow> 0 | Some n \<Rightarrow> n)"

definition dotted_fact :: "state \<Rightarrow> string \<Rightarrow> string \<Rightarrow> string" where
  "dotted_fact st domain key =
     (if domain = ''failure'' then
        (case first_failure st of
           None \<Rightarrow> []
         | Some sub \<Rightarrow> if key = ''subsystem'' then ss_name sub else if key = ''reason'' then ss_reason sub else [])
      else if domain = ''retention'' then
        (if key = ''pruned'' then
           (let total = retention_pruned (st_retention st) in if total = 0 then [] else itoa total)
         else [])
      else
        (case get_subsystem st (fact_domain_subsystem domain) of
           None \<Rightarrow> []
         | Some sub \<Rightarrow>
             if key = ''outcome'' then ss_outcome sub
             else if key = ''reason'' then ss_reason sub
             else result_value (ss_results sub) key))"

text \<open>\<open>Fact\<close>: the value and whether the token resolves; a nil state is \<^const>\<open>None\<close>.\<close>

definition fact :: "state option \<Rightarrow> string \<Rightarrow> string \<times> bool" where
  "fact ost name =
     (case ost of
        None \<Rightarrow> ([], False)
      | Some st \<Rightarrow>
          if name = ''status'' then (status_word (pipeline_status st), True)
          else if name = ''status_icon'' then (status_icon (pipeline_status st), True)
          else if name = ''status_verb'' then (status_verb (pipeline_status st), True)
          else if name = ''project'' then (ci_project (st_ci st), True)
          else if name = ''modality'' then (ci_modality (st_ci st), True)
          else if name = ''ref'' then (ci_ref (st_ci st), True)
          else if name = ''pipeline_url'' then (ci_pipeline_url (st_ci st), True)
          else if name = ''commit_title'' then (ci_commit_title (st_ci st), True)
          else if name = ''duration'' then (humane_duration (ci_duration_secs (st_ci st)), True)
          else if name = ''sha'' then
            (if ci_sha (st_ci st) = [] then ([], False) else (short_sha (ci_sha (st_ci st)), True))
          else if name = ''version'' then
            (if ci_sha (st_ci st) = [] then ([], False) else (ci_version (st_ci st), True))
          else (case cut_at (CHR ''.'') name of
                  None \<Rightarrow> ([], False)
                | Some (domain, key) \<Rightarrow> (dotted_fact st domain key, True)))"

section \<open>Signals\<close>

definition add_signal :: "string list \<Rightarrow> string \<Rightarrow> string list" where
  "add_signal out sig =
     (let sig = trim_space sig in if sig \<noteq> [] \<and> sig \<notin> set out then out @ [sig] else out)"

definition signals :: "state option \<Rightarrow> string list" where
  "signals ost =
     (case ost of
        None \<Rightarrow> []
      | Some st \<Rightarrow>
          foldl (\<lambda>out sub. foldl add_signal out (split_on (CHR '','') (result_value (ss_results sub) ''signals'')))
            [] (st_subsystems st))"

section \<open>Files\<close>

definition safe_name_char :: "char \<Rightarrow> bool" where
  "safe_name_char c \<longleftrightarrow> is_lower c \<or> is_upper c \<or> is_digit c \<or> c = CHR ''-'' \<or> c = CHR ''_''"

definition shard_file_name :: "string \<Rightarrow> string" where
  "shard_file_name name = map (\<lambda>c. if safe_name_char c then c else CHR ''_'') name @ ''.json''"

definition json_subsystem :: "subsystem_state \<Rightarrow> subsystem_state" where
  "json_subsystem s = (if ss_results s = Some [] then s\<lparr>ss_results := None\<rparr> else s)"

definition json_state :: "state \<Rightarrow> state" where
  "json_state st = st\<lparr>st_subsystems := map json_subsystem (st_subsystems st)\<rparr>"

text \<open>A directory entry of the shard directory, and the files a state lives in. Writing a path
  fails when \<open>fs_denied\<close> says so.\<close>

datatype shard_entry = ShardJson subsystem_state | ShardUnreadable | ShardDirectory

datatype ledger_file = LedgerMissing | LedgerUnreadable | LedgerCorrupt | LedgerJson state

record ledger_fs =
  fs_ledger :: ledger_file
  fs_shards :: "(string \<times> shard_entry) list"
  fs_denied :: "string \<Rightarrow> bool"

datatype state_error = StateRead | StateParse | StateWrite string

definition overlay_entry :: "state \<Rightarrow> string \<times> shard_entry \<Rightarrow> state" where
  "overlay_entry st e =
     (if \<not> has_suffix (fst e) ''.json'' then st
      else case snd e of
        ShardJson s \<Rightarrow> if ss_name s = [] then st else fst (upsert_subsystem s st)
      | ShardUnreadable \<Rightarrow> st
      | ShardDirectory \<Rightarrow> st)"

text \<open>\<open>os.ReadDir\<close> lists the entries by file name.\<close>

definition read_dir :: "(string \<times> 'e) list \<Rightarrow> (string \<times> 'e) list" where
  "read_dir es = sort_slice (\<lambda>a b. fst a < fst b) es"

definition overlay_subsystem_shards :: "ledger_fs \<Rightarrow> state \<Rightarrow> state" where
  "overlay_subsystem_shards fs st = foldl overlay_entry st (read_dir (fs_shards fs))"

definition read_state :: "ledger_fs \<Rightarrow> state_error + state" where
  "read_state fs =
     (case fs_ledger fs of
        LedgerMissing \<Rightarrow> Inr zero_state
      | LedgerUnreadable \<Rightarrow> Inl StateRead
      | LedgerCorrupt \<Rightarrow> Inl StateParse
      | LedgerJson st \<Rightarrow> Inr (overlay_subsystem_shards fs st))"

fun write_subsystem_shards :: "subsystem_state list \<Rightarrow> ledger_fs \<Rightarrow> state_error option \<times> ledger_fs" where
  "write_subsystem_shards [] fs = (None, fs)"
| "write_subsystem_shards (s # subs) fs =
     (let path = shard_file_name (ss_name s) in
      if fs_denied fs path then (Some (StateWrite path), fs)
      else write_subsystem_shards subs
             (fs\<lparr>fs_shards := AList.update path (ShardJson (json_subsystem s)) (fs_shards fs)\<rparr>))"

text \<open>\<open>WriteState\<close> also normalises the state it is given; \<open>now\<close> is \<^verbatim>\<open>time.Now().Unix()\<close>.\<close>

definition stamp_state :: "int \<Rightarrow> state \<Rightarrow> state" where
  "stamp_state now st =
     (let st = st\<lparr>st_version := 1\<rparr> in
      if ci_started_at (st_ci st) = 0 then st\<lparr>st_ci := (st_ci st)\<lparr>ci_started_at := now\<rparr>\<rparr> else st)"

definition write_state :: "int \<Rightarrow> state \<Rightarrow> ledger_fs \<Rightarrow> state_error option \<times> ledger_fs" where
  "write_state now st fs =
     (let st = stamp_state now st in
      if fs_denied fs ''pipeline.json'' then (Some (StateWrite ''pipeline.json''), fs)
      else write_subsystem_shards (st_subsystems st) (fs\<lparr>fs_ledger := LedgerJson (json_state st)\<rparr>))"

definition update_state :: "int \<Rightarrow> (state \<Rightarrow> state) \<Rightarrow> ledger_fs \<Rightarrow> state_error option \<times> ledger_fs" where
  "update_state now f fs =
     (case read_state fs of Inl e \<Rightarrow> (Some e, fs) | Inr st \<Rightarrow> write_state now (f st) fs)"

text \<open>\<open>InitFromCI\<close>, from the provider, pipeline id, branch, tag and commit of the CI context.\<close>

definition init_from_ci :: "string \<Rightarrow> string \<Rightarrow> string \<Rightarrow> string \<Rightarrow> string \<Rightarrow> ci_state" where
  "init_from_ci provider pipeline_id branch tag sha =
     empty_ci\<lparr>ci_provider_name := provider, ci_pipeline_id := pipeline_id,
       ci_ref := (if branch = [] then tag else branch), ci_branch_name := branch, ci_tag_name := tag, ci_sha := sha\<rparr>"

section \<open>What the aggregate status says\<close>

definition hard_failure :: "subsystem_state \<Rightarrow> bool" where
  "hard_failure s \<longleftrightarrow>
     ss_attempted s \<and> (ss_outcome s = ''failed'' \<or> ss_outcome s = ''cancelled'') \<and> \<not> ss_allow_failure s"

definition soft_problem :: "subsystem_state \<Rightarrow> bool" where
  "soft_problem s \<longleftrightarrow>
     ss_attempted s \<and>
     (ss_outcome s = ''warning'' \<or>
      ((ss_outcome s = ''failed'' \<or> ss_outcome s = ''cancelled'') \<and> ss_allow_failure s) \<or>
      (ss_outcome s = ''skipped'' \<and> ss_required s))"

lemma status_loop_step:
  "status_loop (s # subs) a w =
    (if hard_failure s then ''failing'' else status_loop subs (a \<or> ss_attempted s) (w \<or> soft_problem s))"
proof (cases "ss_attempted s")
  case True
  consider "ss_outcome s = ''failed''" | "ss_outcome s = ''warning''" | "ss_outcome s = ''skipped''"
    | "ss_outcome s = ''not_applicable''" | "ss_outcome s = ''cancelled''"
    | "ss_outcome s \<notin> {''failed'', ''warning'', ''skipped'', ''not_applicable'', ''cancelled''}"
    by blast
  with True show ?thesis by cases (simp_all add: hard_failure_def soft_problem_def)
qed (simp add: hard_failure_def soft_problem_def)

lemma status_loop_spec:
  "(w \<longrightarrow> a) \<Longrightarrow> status_loop subs a w =
    (if \<exists>s \<in> set subs. hard_failure s then ''failing''
     else if \<not> a \<and> (\<forall>s \<in> set subs. \<not> ss_attempted s) then ''unknown''
     else if w \<or> (\<exists>s \<in> set subs. soft_problem s) then ''warning''
     else ''passing'')"
proof (induction subs arbitrary: a w)
  case (Cons s subs)
  have "w \<or> soft_problem s \<longrightarrow> a \<or> ss_attempted s"
    using Cons.prems by (auto simp: soft_problem_def)
  note IH = Cons.IH [OF this]
  show ?case by (simp only: status_loop_step IH) auto
qed auto

text \<open>The aggregate status on the records alone: failing exactly when an attempted subsystem that
  may not fail has failed or was cancelled; unknown when nothing was attempted; otherwise a warning
  exactly when some attempted subsystem warns, fails where it may, or skips a required step.\<close>

theorem pipeline_status_iff:
  "pipeline_status st =
    (if list_ex hard_failure (st_subsystems st) then ''failing''
     else if list_all (\<lambda>s. \<not> ss_attempted s) (st_subsystems st) then ''unknown''
     else if list_ex soft_problem (st_subsystems st) then ''warning''
     else ''passing'')"
  unfolding pipeline_status_def by (subst status_loop_spec) (auto simp: list_ex_iff list_all_iff)

lemma pipeline_status_meaning:
  "pipeline_status st =
    (if \<exists>s \<in> set (st_subsystems st). hard_failure s then ''failing''
     else if \<forall>s \<in> set (st_subsystems st). \<not> ss_attempted s then ''unknown''
     else if \<exists>s \<in> set (st_subsystems st). soft_problem s then ''warning''
     else ''passing'')"
  unfolding pipeline_status_def by (subst status_loop_spec) auto

text \<open>The order in which subsystems were recorded does not matter.\<close>

lemma pipeline_status_cong:
  "set (st_subsystems st) = set (st_subsystems st') \<Longrightarrow> pipeline_status st = pipeline_status st'"
  unfolding pipeline_status_meaning by simp

text \<open>The rules the comments of \<open>PipelineStatus\<close> give. A subsystem \<open>broke\<close> when it was attempted and
  failed or was cancelled; a required one that broke makes the pipeline fail, one that is not
  required only warns (a failed one when it may fail at all).\<close>

definition broke :: "subsystem_state \<Rightarrow> bool" where
  "broke s \<longleftrightarrow> ss_attempted s \<and> (ss_outcome s = ''failed'' \<or> ss_outcome s = ''cancelled'')"

definition documented_warning :: "subsystem_state \<Rightarrow> bool" where
  "documented_warning s \<longleftrightarrow>
     ss_attempted s \<and>
     (ss_outcome s = ''failed'' \<and> \<not> ss_required s \<and> ss_allow_failure s \<or>
      ss_outcome s = ''cancelled'' \<and> \<not> ss_required s \<or>
      ss_outcome s = ''warning'' \<or>
      ss_outcome s = ''skipped'' \<and> ss_required s)"

definition documented_status :: "subsystem_state list \<Rightarrow> string" where
  "documented_status subs =
     (if list_ex (\<lambda>s. broke s \<and> ss_required s) subs then ''failing''
      else if list_all (\<lambda>s. \<not> ss_attempted s) subs then ''unknown''
      else if list_ex documented_warning subs then ''warning''
      else ''passing'')"

lemma hard_failure_broke: "hard_failure s \<longleftrightarrow> broke s \<and> \<not> ss_allow_failure s"
  by (auto simp: hard_failure_def broke_def)

lemma soft_documented:
  "\<not> (broke s \<and> \<not> ss_allow_failure s) \<Longrightarrow> \<not> (broke s \<and> ss_required s) \<Longrightarrow> soft_problem s \<longleftrightarrow> documented_warning s"
  by (auto simp: soft_problem_def documented_warning_def broke_def)

lemma soft_problem_broke: "broke s \<Longrightarrow> \<not> hard_failure s \<Longrightarrow> soft_problem s"
  by (auto simp: hard_failure_def soft_problem_def broke_def)

lemma broke_attempted: "broke s \<Longrightarrow> ss_attempted s"
  by (simp add: broke_def)

lemma documented_status_meaning:
  "documented_status subs =
    (if \<exists>s \<in> set subs. broke s \<and> ss_required s then ''failing''
     else if \<forall>s \<in> set subs. \<not> ss_attempted s then ''unknown''
     else if \<exists>s \<in> set subs. documented_warning s then ''warning''
     else ''passing'')"
  unfolding documented_status_def by (auto simp: list_ex_iff list_all_iff)

text \<open>The two statuses case by case: what makes each fail, and what they are where only one does.\<close>

abbreviation some_hard :: "state \<Rightarrow> bool" where
  "some_hard st \<equiv> \<exists>s \<in> set (st_subsystems st). broke s \<and> \<not> ss_allow_failure s"

abbreviation some_required :: "state \<Rightarrow> bool" where
  "some_required st \<equiv> \<exists>s \<in> set (st_subsystems st). broke s \<and> ss_required s"

lemma pipeline_failing_iff: "pipeline_status st = ''failing'' \<longleftrightarrow> some_hard st"
  unfolding pipeline_status_meaning hard_failure_broke by simp

lemma documented_failing_iff: "documented_status (st_subsystems st) = ''failing'' \<longleftrightarrow> some_required st"
  unfolding documented_status_meaning by simp

lemma statuses_agree:
  assumes "\<not> some_hard st" "\<not> some_required st"
  shows "pipeline_status st = documented_status (st_subsystems st)"
proof -
  from assms have soft: "(\<exists>s \<in> set (st_subsystems st). soft_problem s) \<longleftrightarrow>
      (\<exists>s \<in> set (st_subsystems st). documented_warning s)"
    by (intro bex_cong refl soft_documented) auto
  show ?thesis
    unfolding pipeline_status_meaning documented_status_meaning hard_failure_broke
    by (simp only: assms soft if_False)
qed

lemma status_softened:
  assumes "\<not> some_hard st" "some_required st"
  shows "pipeline_status st = ''warning''"
proof -
  from assms obtain s where "s \<in> set (st_subsystems st)" "broke s" "\<not> hard_failure s"
    by (auto simp: hard_failure_broke)
  then have "\<exists>s \<in> set (st_subsystems st). soft_problem s" "\<not> (\<forall>s \<in> set (st_subsystems st). \<not> ss_attempted s)"
    using soft_problem_broke broke_attempted by blast+
  then show ?thesis
    unfolding pipeline_status_meaning hard_failure_broke by (simp only: assms(1) if_False if_True)
qed

lemma status_hardened:
  assumes "some_hard st" "\<not> some_required st"
  shows "documented_status (st_subsystems st) \<in> {''passing'', ''warning''}"
proof -
  from assms(1) have "\<not> (\<forall>s \<in> set (st_subsystems st). \<not> ss_attempted s)" using broke_attempted by blast
  then show ?thesis unfolding documented_status_meaning by (simp only: assms(2) if_False) simp
qed

text \<open>C34: Where the aggregate status departs from its documented rules. The pipeline fails exactly
  when some attempted subsystem without \<^verbatim>\<open>allow_failure\<close> failed or was cancelled, the documentation
  makes it fail exactly when some required one did, and the two statuses agree exactly when those
  two tests do. Where they differ, either the code fails a pipeline that the rules let pass or warn
  (a failed subsystem that is neither required nor allowed to fail), or it only warns where the
  rules make it fail (a required subsystem with \<^verbatim>\<open>allow_failure\<close> failed). The order of the records
  plays no part.\<close>

theorem pipeline_status_documented_iff:
  "(pipeline_status st = ''failing'' \<longleftrightarrow> (\<exists>s \<in> set (st_subsystems st). broke s \<and> \<not> ss_allow_failure s)) \<and>
   (documented_status (st_subsystems st) = ''failing'' \<longleftrightarrow> (\<exists>s \<in> set (st_subsystems st). broke s \<and> ss_required s)) \<and>
   (pipeline_status st = documented_status (st_subsystems st) \<longleftrightarrow>
      ((\<exists>s \<in> set (st_subsystems st). broke s \<and> \<not> ss_allow_failure s) =
       (\<exists>s \<in> set (st_subsystems st). broke s \<and> ss_required s))) \<and>
   (pipeline_status st = documented_status (st_subsystems st) \<or>
    (pipeline_status st, documented_status (st_subsystems st))
      \<in> {(''failing'', ''passing''), (''failing'', ''warning''), (''warning'', ''failing'')})"
proof (cases "some_hard st"; cases "some_required st")
  assume a: "some_hard st" "some_required st"
  then have "pipeline_status st = ''failing''" "documented_status (st_subsystems st) = ''failing''"
    using pipeline_failing_iff documented_failing_iff by blast+
  with a show ?thesis by simp
next
  assume a: "some_hard st" "\<not> some_required st"
  then have "pipeline_status st = ''failing''" using pipeline_failing_iff by blast
  with a status_hardened [OF a] show ?thesis by auto
next
  assume a: "\<not> some_hard st" "some_required st"
  then have "documented_status (st_subsystems st) = ''failing''" using documented_failing_iff by blast
  with a status_softened [OF a] show ?thesis by auto
next
  assume a: "\<not> some_hard st" "\<not> some_required st"
  with statuses_agree [OF a] pipeline_failing_iff [of st] documented_failing_iff [of st] show ?thesis
    by (intro conjI) blast+
qed

text \<open>Both kinds of difference occur.\<close>

lemma status_documented_differs:
  "pipeline_status (zero_state\<lparr>st_subsystems := [empty_subsystem\<lparr>ss_name := ''lint'', ss_attempted := True,
     ss_required := True, ss_allow_failure := True, ss_outcome := ''failed''\<rparr>]\<rparr>) = ''warning'' \<and>
   pipeline_status (zero_state\<lparr>st_subsystems := [empty_subsystem\<lparr>ss_name := ''lint'', ss_attempted := True,
     ss_required := False, ss_allow_failure := False, ss_outcome := ''failed''\<rparr>]\<rparr>) = ''failing''"
  by code_simp

lemma first_failure_loop_Some:
  "first_failure_loop subs soft = Some s \<Longrightarrow>
    (s \<in> set subs \<and> ss_attempted s \<and> ss_outcome s = ''failed'') \<or> soft = Some s"
  by (induction subs soft rule: first_failure_loop.induct) (auto split: if_splits)

lemma first_failure_loop_hard:
  "(\<exists>s \<in> set subs. ss_attempted s \<and> ss_outcome s = ''failed'' \<and> \<not> ss_allow_failure s) \<Longrightarrow>
    \<exists>s. first_failure_loop subs soft = Some s \<and> ss_attempted s \<and> ss_outcome s = ''failed'' \<and> \<not> ss_allow_failure s"
proof (induction subs arbitrary: soft)
  case (Cons s subs)
  then show ?case
    by (cases "ss_attempted s \<and> ss_outcome s = ''failed'' \<and> \<not> ss_allow_failure s") auto
qed simp

lemma first_failure_none:
  "first_failure st = None \<longleftrightarrow> (\<forall>s \<in> set (st_subsystems st). \<not> (ss_attempted s \<and> ss_outcome s = ''failed''))"
proof -
  have "first_failure_loop subs soft = None \<longleftrightarrow>
      soft = None \<and> (\<forall>s \<in> set subs. \<not> (ss_attempted s \<and> ss_outcome s = ''failed''))" for subs soft
    by (induction subs soft rule: first_failure_loop.induct) auto
  then show ?thesis by (simp add: first_failure_def)
qed

section \<open>Records by name\<close>

text \<open>Inheriting the results of the record that is replaced.\<close>

definition inherit_results :: "subsystem_state option \<Rightarrow> subsystem_state \<Rightarrow> subsystem_state" where
  "inherit_results old s =
     (case old of None \<Rightarrow> s | Some e \<Rightarrow> if ss_results s = None then s\<lparr>ss_results := ss_results e\<rparr> else s)"

lemma ss_name_inherit [simp]: "ss_name (inherit_results old s) = ss_name s"
  by (simp add: inherit_results_def split: option.split)

abbreviation find_name :: "string \<Rightarrow> subsystem_state list \<Rightarrow> subsystem_state option" where
  "find_name n \<equiv> find (\<lambda>s. ss_name s = n)"

lemma upsert_in_find:
  "find_name n (fst (upsert_in s es)) =
    (if n = ss_name s then Some (inherit_results (find_name n es) s) else find_name n es)"
  by (induction s es rule: upsert_in.induct) (auto simp: inherit_results_def case_prod_unfold Let_def)

lemma upsert_in_stored:
  "snd (upsert_in s es) = inherit_results (find_name (ss_name s) es) s"
  by (induction s es rule: upsert_in.induct) (auto simp: inherit_results_def case_prod_unfold Let_def)

lemma upsert_in_names:
  "set (map ss_name (fst (upsert_in s es))) = insert (ss_name s) (set (map ss_name es))"
  by (induction s es rule: upsert_in.induct) (auto simp: case_prod_unfold Let_def)

lemma upsert_in_distinct:
  "distinct (map ss_name es) \<Longrightarrow> distinct (map ss_name (fst (upsert_in s es)))"
proof (induction s es rule: upsert_in.induct)
  case (2 s e es)
  then show ?case
    using upsert_in_names [of s es] by (auto simp: case_prod_unfold Let_def)
qed simp

lemma get_upsert:
  "get_subsystem (fst (upsert_subsystem s st)) n =
    (if n = ss_name s then Some (inherit_results (get_subsystem st n) s) else get_subsystem st n)"
  by (simp add: get_subsystem_def upsert_subsystem_def case_prod_unfold Let_def upsert_in_find)

text \<open>Recording a subsystem: it is found under its name with the facts it had, unless the
  record brings its own; every other name is untouched, and names stay unique.\<close>

theorem record_subsystem_upserts:
  "get_subsystem (fst (record_subsystem s (st, ses))) n =
    (if n = ss_name s then Some (inherit_results (get_subsystem st n) s) else get_subsystem st n) \<and>
   find_name (ss_name s) (snd (record_subsystem s (st, ses))) =
     get_subsystem (fst (record_subsystem s (st, ses))) (ss_name s)"
proof
  show "get_subsystem (fst (record_subsystem s (st, ses))) n =
    (if n = ss_name s then Some (inherit_results (get_subsystem st n) s) else get_subsystem st n)"
    by (simp add: record_subsystem_def case_prod_unfold Let_def get_upsert)
  have "find_name (ss_name r) (record_session r es) = Some r" for r es
    by (induction r es rule: record_session.induct) auto
  from this [of "inherit_results (get_subsystem st (ss_name s)) s" ses]
  show "find_name (ss_name s) (snd (record_subsystem s (st, ses))) =
     get_subsystem (fst (record_subsystem s (st, ses))) (ss_name s)"
    by (simp add: record_subsystem_def case_prod_unfold Let_def get_upsert upsert_subsystem_def upsert_in_stored
        get_subsystem_def upsert_in_find)
qed

definition names_unique :: "state \<Rightarrow> bool" where
  "names_unique st \<longleftrightarrow> distinct (map ss_name (st_subsystems st))"

lemma names_unique_upsert: "names_unique st \<Longrightarrow> names_unique (fst (upsert_subsystem s st))"
  by (simp add: names_unique_def upsert_subsystem_def case_prod_unfold Let_def upsert_in_distinct)

lemma merge_pairs_lookup:
  "map_of (merge_pairs old new) k = (case map_of (rev new) k of None \<Rightarrow> map_of old k | Some v \<Rightarrow> Some v)"
proof (induction new rule: rev_induct)
  case Nil
  then show ?case by (simp add: merge_pairs_def)
next
  case (snoc x xs)
  then show ?case by (cases x) (simp add: merge_pairs_def update_conv)
qed

lemma merge_results_find:
  "find_name n (merge_results_in name rs es) =
    (if n = name then Some (case find_name name es of
        None \<Rightarrow> empty_subsystem\<lparr>ss_name := name, ss_results := Some rs\<rparr>
      | Some e \<Rightarrow> e\<lparr>ss_results := Some (merge_pairs (case ss_results e of None \<Rightarrow> [] | Some m \<Rightarrow> m) rs)\<rparr>)
     else find_name n es)"
  by (induction name rs es rule: merge_results_in.induct) (auto simp: empty_subsystem_def)

lemma merge_results_names:
  "set (map ss_name (merge_results_in name rs es)) = insert name (set (map ss_name es))"
  by (induction name rs es rule: merge_results_in.induct) (auto simp: empty_subsystem_def)

lemma names_unique_merge: "names_unique st \<Longrightarrow> names_unique (merge_subsystem_results name rs st)"
proof -
  have "distinct (map ss_name es) \<Longrightarrow> distinct (map ss_name (merge_results_in name rs es))" for es
  proof (induction name rs es rule: merge_results_in.induct)
    case (2 name rs e es)
    then show ?case using merge_results_names [of name rs es] by auto
  qed simp
  then show "names_unique st \<Longrightarrow> names_unique (merge_subsystem_results name rs st)"
    by (simp add: names_unique_def merge_subsystem_results_def)
qed

text \<open>Merging facts leaves the lifecycle of the record and every other record alone.\<close>

lemma merge_subsystem_results_get:
  assumes "rs \<noteq> []"
  shows "get_subsystem (merge_subsystem_results name rs st) n =
    (if n = name then Some (case get_subsystem st name of
        None \<Rightarrow> empty_subsystem\<lparr>ss_name := name, ss_results := Some rs\<rparr>
      | Some e \<Rightarrow> e\<lparr>ss_results := Some (merge_pairs (case ss_results e of None \<Rightarrow> [] | Some m \<Rightarrow> m) rs)\<rparr>)
     else get_subsystem st n)"
  using assms by (simp add: merge_subsystem_results_def get_subsystem_def merge_results_find)

section \<open>Facts and signals\<close>

text \<open>A dotted token always resolves, and a bare token resolves exactly when it is one of the
  documented facts (the commit and version only once the run has an identity).\<close>

theorem fact_resolution:
  "snd (fact (Some st) name) \<longleftrightarrow>
    CHR ''.'' \<in> set name \<or>
    name \<in> {''status'', ''status_icon'', ''status_verb'', ''project'', ''modality'', ''ref'',
             ''pipeline_url'', ''commit_title'', ''duration''} \<or>
    (name \<in> {''sha'', ''version''} \<and> ci_sha (st_ci st) \<noteq> [])"
proof (cases "name \<in> {''status'', ''status_icon'', ''status_verb'', ''project'', ''modality'', ''ref'',
             ''pipeline_url'', ''commit_title'', ''duration'', ''sha'', ''version''}")
  case True
  then show ?thesis by (elim insertE) (simp_all add: fact_def)
next
  case False
  then have "snd (fact (Some st) name) \<longleftrightarrow> cut_at (CHR ''.'') name \<noteq> None"
    by (simp add: fact_def split: option.split prod.split)
  with False show ?thesis by (simp add: cut_at_None)
qed

lemma add_signal_invariant:
  "distinct out \<and> [] \<notin> set out \<Longrightarrow> distinct (add_signal out s) \<and> [] \<notin> set (add_signal out s)"
  by (auto simp: add_signal_def Let_def)

text \<open>The signals of a run are distinct, non-empty and free of surrounding white space.\<close>

theorem signals_clean:
  "distinct (signals ost) \<and> list_all (\<lambda>s. s \<noteq> [] \<and> trim_space s = s) (signals ost)"
proof -
  let ?ok = "\<lambda>out. distinct out \<and> list_all (\<lambda>s. s \<noteq> [] \<and> trim_space s = s) out"
  have step: "?ok out \<Longrightarrow> ?ok (add_signal out s)" for out s
    by (auto simp: add_signal_def Let_def list_all_iff)
  have inner: "?ok out \<Longrightarrow> ?ok (foldl add_signal out ss)" for out ss
    by (induction ss arbitrary: out) (use step in auto)
  have outer: "?ok out \<Longrightarrow> ?ok (foldl (\<lambda>out sub. foldl add_signal out (f sub)) out subs)"
    for out subs and f :: "subsystem_state \<Rightarrow> string list"
    by (induction subs arbitrary: out) (use inner in auto)
  show ?thesis using outer [of "[]"] by (simp add: signals_def split: option.split)
qed

section \<open>Shards\<close>

text \<open>The records that the shard directory contributes.\<close>

definition shard_of :: "string \<times> shard_entry \<Rightarrow> subsystem_state option" where
  "shard_of e =
     (if has_suffix (fst e) ''.json'' then
        (case snd e of ShardJson s \<Rightarrow> if ss_name s = [] then None else Some s
         | ShardUnreadable \<Rightarrow> None | ShardDirectory \<Rightarrow> None)
      else None)"

definition shards_of :: "(string \<times> shard_entry) list \<Rightarrow> subsystem_state list" where
  "shards_of es = List.map_filter shard_of es"

lemma shards_of_simps [simp]:
  "shards_of [] = []"
  "shards_of (e # es) = (case shard_of e of None \<Rightarrow> shards_of es | Some s \<Rightarrow> s # shards_of es)"
  by (simp_all add: shards_of_def map_filter_simps split: option.split)

lemma set_shards_of: "set (shards_of es) = {s. \<exists>e \<in> set es. shard_of e = Some s}"
  by (induction es) (auto split: option.splits)

lemma mset_shards_of: "mset es = mset es' \<Longrightarrow> mset (shards_of es) = mset (shards_of es')"
proof -
  have "mset (shards_of es) = image_mset the (filter_mset (\<lambda>x. x \<noteq> None) (image_mset shard_of (mset es)))" for es
    by (induction es) (auto split: option.splits)
  then show "mset es = mset es' \<Longrightarrow> mset (shards_of es) = mset (shards_of es')" by metis
qed

lemma overlay_entry_shard:
  "overlay_entry st e = (case shard_of e of None \<Rightarrow> st | Some s \<Rightarrow> fst (upsert_subsystem s st))"
  by (simp add: overlay_entry_def shard_of_def split: shard_entry.split)

lemma find_name_None: "find_name n ss = None \<longleftrightarrow> n \<notin> ss_name ` set ss"
  by (auto simp: find_None_iff)

lemma overlay_get:
  assumes "distinct (map ss_name (shards_of es))"
  shows "get_subsystem (foldl overlay_entry st es) n =
    (case find_name n (shards_of es) of
       None \<Rightarrow> get_subsystem st n
     | Some s \<Rightarrow> Some (inherit_results (get_subsystem st n) s))"
  using assms
proof (induction es arbitrary: st)
  case Nil
  then show ?case by simp
next
  case (Cons e es)
  show ?case
  proof (cases "shard_of e")
    case None
    with Cons show ?thesis by (simp add: overlay_entry_shard)
  next
    case (Some s)
    let ?st = "fst (upsert_subsystem s st)"
    have IH: "get_subsystem (foldl overlay_entry ?st es) n =
      (case find_name n (shards_of es) of
         None \<Rightarrow> get_subsystem ?st n | Some s \<Rightarrow> Some (inherit_results (get_subsystem ?st n) s))"
      using Cons Some by simp
    show ?thesis
    proof (cases "ss_name s = n")
      case True
      then have "find_name n (shards_of es) = None"
        using Cons.prems Some by (simp add: find_name_None)
      with IH True Some show ?thesis unfolding foldl_Cons overlay_entry_shard [of st e]
        by (simp add: get_upsert)
    next
      case False
      then have gu: "get_subsystem ?st n = get_subsystem st n" by (simp add: get_upsert)
      show ?thesis using IH Some False unfolding foldl_Cons overlay_entry_shard [of st e] gu by simp
    qed
  qed
qed

lemma find_name_set_cong:
  assumes "distinct (map ss_name xs)" "set xs = set ys" "distinct (map ss_name ys)"
  shows "find_name n xs = find_name n ys"
proof -
  have in_set: "find_name n zs = Some s \<longleftrightarrow> s \<in> set zs \<and> ss_name s = n" if "distinct (map ss_name zs)" for zs s
    using that
  proof (induction zs)
    case (Cons z zs)
    then show ?case by (auto simp: find_Some_iff image_iff)
  qed simp
  show ?thesis
  proof (cases "find_name n xs")
    case None
    with assms(2) have "find_name n ys = None" by (auto simp: find_None_iff)
    with None show ?thesis by simp
  next
    case (Some s)
    then have "find_name n ys = Some s" using in_set assms by metis
    with Some show ?thesis by simp
  qed
qed

lemma shards_of_read_dir:
  "mset (shards_of (read_dir es)) = mset (shards_of es)"
  by (rule mset_shards_of) (simp add: read_dir_def)

lemma distinct_shards_read_dir:
  "distinct (map ss_name (shards_of (read_dir es))) \<longleftrightarrow> distinct (map ss_name (shards_of es))"
  using shards_of_read_dir [of es] by (metis mset_map mset_eq_imp_distinct_iff)

lemma shard_union_plain:
  assumes "distinct (map ss_name (shards_of (fs_shards fs)))"
  shows "get_subsystem (overlay_subsystem_shards fs st) n =
    (case find_name n (shards_of (fs_shards fs)) of
       None \<Rightarrow> get_subsystem st n
     | Some s \<Rightarrow> Some (inherit_results (get_subsystem st n) s))"
proof -
  have "set (shards_of (read_dir (fs_shards fs))) = set (shards_of (fs_shards fs))"
    using shards_of_read_dir by (metis set_mset_mset)
  then have "find_name n (shards_of (read_dir (fs_shards fs))) = find_name n (shards_of (fs_shards fs))"
    using assms distinct_shards_read_dir by (intro find_name_set_cong) auto
  with overlay_get [of "read_dir (fs_shards fs)" st n] assms show ?thesis
    by (simp add: overlay_subsystem_shards_def distinct_shards_read_dir)
qed

text \<open>Shards add up: reading the ledger overlays the local view with every shard, each under its
  own name, keeping recorded facts; the result does not depend on the order of the files.\<close>

theorem shard_union:
  assumes "distinct (map ss_name (shards_of (fs_shards fs)))"
  shows "get_subsystem (overlay_subsystem_shards fs st) n =
    (case find_name n (shards_of (fs_shards fs)) of
       None \<Rightarrow> get_subsystem st n
     | Some s \<Rightarrow> Some (inherit_results (get_subsystem st n) s))"
  using assms by (rule shard_union_plain)

definition demo_fs :: ledger_fs where
  "demo_fs = \<lparr>fs_ledger = LedgerJson (zero_state\<lparr>st_subsystems := [empty_subsystem\<lparr>ss_name := ''build''\<rparr>]\<rparr>),
     fs_shards = [(''security.json'', ShardJson (empty_subsystem\<lparr>ss_name := ''security'', ss_attempted := True\<rparr>)),
                  (''build.json'', ShardJson (empty_subsystem\<lparr>ss_name := ''build'', ss_attempted := True\<rparr>))],
     fs_denied = (\<lambda>p. False)\<rparr>"

lemma shard_union_witness:
  "get_subsystem (overlay_subsystem_shards demo_fs zero_state) ''security'' =
    (case find_name ''security'' (shards_of (fs_shards demo_fs)) of
       None \<Rightarrow> get_subsystem zero_state ''security''
     | Some s \<Rightarrow> Some (inherit_results (get_subsystem zero_state ''security'') s))"
  by (rule shard_union) code_simp

text \<open>Two sets of files with the same records give the same view.\<close>

lemma shard_order_irrelevant:
  assumes "mset (fs_shards fs) = mset (fs_shards fs')" "distinct (map ss_name (shards_of (fs_shards fs)))"
  shows "get_subsystem (overlay_subsystem_shards fs st) n = get_subsystem (overlay_subsystem_shards fs' st) n"
proof -
  have ms: "mset (shards_of (fs_shards fs)) = mset (shards_of (fs_shards fs'))"
    using assms(1) by (rule mset_shards_of)
  then have d: "distinct (map ss_name (shards_of (fs_shards fs')))"
    using assms(2) by (metis mset_map mset_eq_imp_distinct_iff)
  have "find_name n (shards_of (fs_shards fs)) = find_name n (shards_of (fs_shards fs'))"
    using ms assms(2) d by (intro find_name_set_cong) (auto dest: mset_eq_setD)
  then show ?thesis using shard_union_plain assms(2) d by simp
qed

text \<open>A missing ledger hides the shards: they are read only over an existing \<^verbatim>\<open>pipeline.json\<close>.\<close>

theorem shards_ignored_without_ledger:
  "read_state (demo_fs\<lparr>fs_ledger := LedgerMissing\<rparr>) = Inr zero_state \<and>
   get_subsystem zero_state ''security'' = None \<and>
   map_option ss_attempted (find_name ''security'' (shards_of (fs_shards demo_fs))) = Some True"
  by code_simp

subsection \<open>Shard file names\<close>

lemma shard_file_name_inj:
  assumes "list_all safe_name_char m" "list_all safe_name_char n" "shard_file_name m = shard_file_name n"
  shows "m = n"
proof -
  have id: "map (\<lambda>c. if safe_name_char c then c else CHR ''_'') s = s" if "list_all safe_name_char s" for s
    using that by (induction s) auto
  show ?thesis using assms(3) id [OF assms(1)] id [OF assms(2)] by (simp add: shard_file_name_def)
qed

text \<open>A shard file name is one path element of letters, digits, \<^verbatim>\<open>-\<close> and \<^verbatim>\<open>_\<close> followed by
  \<^verbatim>\<open>.json\<close>, whatever the subsystem is called, so it cannot leave the directory.\<close>

theorem shard_file_name_safe:
  "\<exists>base. shard_file_name name = base @ ''.json'' \<and> list_all safe_name_char base \<and>
     length base = length name \<and> CHR ''/'' \<notin> set (shard_file_name name)"
proof -
  define b where "b = map (\<lambda>c. if safe_name_char c then c else CHR ''_'') name"
  have "safe_name_char (CHR ''_'')" by (simp add: safe_name_char_def)
  then have safe: "list_all safe_name_char b" unfolding b_def by (induction name) auto
  have slash: "\<not> safe_name_char (CHR ''/'')" by code_simp
  have "CHR ''/'' \<notin> set b" using safe slash by (auto simp: list_all_iff)
  then have "CHR ''/'' \<notin> set (b @ ''.json'')" by simp
  moreover have "shard_file_name name = b @ ''.json''" by (simp add: shard_file_name_def b_def)
  moreover have "length b = length name" by (simp add: b_def)
  ultimately show ?thesis using safe by metis
qed

subsection \<open>Writing and reading back\<close>

lemma write_shards_files:
  assumes "\<forall>s \<in> set subs. \<not> fs_denied fs (shard_file_name (ss_name s))"
  shows "write_subsystem_shards subs fs =
    (None, fs\<lparr>fs_shards := foldl (\<lambda>es s. AList.update (shard_file_name (ss_name s)) (ShardJson (json_subsystem s)) es) (fs_shards fs) subs\<rparr>)"
  using assms by (induction subs arbitrary: fs) (simp_all add: Let_def)

lemma update_all_lookup:
  assumes "distinct (map key subs)"
  shows "map_of (foldl (\<lambda>es s. AList.update (key s) (val s) es) es subs) f =
    (case find (\<lambda>s. key s = f) subs of None \<Rightarrow> map_of es f | Some s \<Rightarrow> Some (val s))"
  using assms
proof (induction subs arbitrary: es)
  case (Cons s subs)
  show ?case
  proof (cases "key s = f")
    case True
    then have "find (\<lambda>s. key s = f) subs = None" using Cons.prems by (auto simp: find_None_iff image_iff)
    with Cons True show ?thesis by (simp add: update_conv)
  next
    case False
    with Cons show ?thesis by (simp add: update_conv split: option.split)
  qed
qed simp

lemma update_all_distinct:
  "distinct (map fst es) \<Longrightarrow> distinct (map fst (foldl (\<lambda>es s. AList.update (key s) (val s) es) es subs))"
  by (induction subs arbitrary: es) (simp_all add: distinct_update)

text \<open>Every readable shard is filed under the name of its record.\<close>

definition well_filed :: "(string \<times> shard_entry) list \<Rightarrow> bool" where
  "well_filed es \<longleftrightarrow> distinct (map fst es) \<and>
     (\<forall>(f, x) \<in> set es. case x of ShardJson s \<Rightarrow> f = shard_file_name (ss_name s) | _ \<Rightarrow> True)"

lemma ss_name_json [simp]: "ss_name (json_subsystem s) = ss_name s"
  by (simp add: json_subsystem_def)

lemma well_filed_shards:
  assumes "well_filed es"
  shows "distinct (map ss_name (shards_of es))"
    and "n \<noteq> [] \<Longrightarrow> find_name n (shards_of es) =
      (case map_of es (shard_file_name n) of Some (ShardJson s) \<Rightarrow> if ss_name s = n then Some s else None | _ \<Rightarrow> None)"
proof -
  have filed: "(shard_file_name (ss_name s), ShardJson s) \<in> set es \<and> ss_name s \<noteq> []" if "s \<in> set (shards_of es)" for s
    using that assms unfolding set_shards_of well_filed_def shard_of_def
    by (fastforce split: if_splits shard_entry.splits)
  have dist: "distinct (map ss_name (shards_of es'))" if "well_filed es'" for es'
    using that
  proof (induction es')
    case (Cons e es')
    have wf: "well_filed es'" using Cons.prems by (auto simp: well_filed_def)
    show ?case
    proof (cases "shard_of e")
      case (Some s)
      then have e: "e = (shard_file_name (ss_name s), ShardJson s)"
        using Cons.prems by (cases e) (auto simp: shard_of_def well_filed_def split: if_splits shard_entry.splits)
      have "ss_name s \<noteq> ss_name s'" if "s' \<in> set (shards_of es')" for s'
      proof
        assume eq: "ss_name s = ss_name s'"
        have "(shard_file_name (ss_name s'), ShardJson s') \<in> set es'"
          using that wf unfolding set_shards_of well_filed_def shard_of_def
          by (fastforce split: if_splits shard_entry.splits)
        then have "fst e \<in> fst ` set es'" using e eq by force
        with Cons.prems show False by (auto simp: well_filed_def)
      qed
      with Some Cons.IH [OF wf] show ?thesis by auto
    qed (use Cons.IH [OF wf] in simp)
  qed simp
  show d: "distinct (map ss_name (shards_of es))" by (rule dist [OF assms])
  assume "n \<noteq> []"
  have dk: "distinct (map fst es)" using assms by (simp add: well_filed_def)
  show "find_name n (shards_of es) =
      (case map_of es (shard_file_name n) of Some (ShardJson s) \<Rightarrow> if ss_name s = n then Some s else None | _ \<Rightarrow> None)"
  proof (cases "find_name n (shards_of es)")
    case (Some s)
    then have s: "s \<in> set (shards_of es)" "ss_name s = n" by (auto simp: find_Some_iff)
    then have "map_of es (shard_file_name n) = Some (ShardJson s)" using filed dk by (metis map_of_is_SomeI)
    with Some s show ?thesis by simp
  next
    case None
    have "ss_name s \<noteq> n" if "map_of es (shard_file_name n) = Some (ShardJson s)" for s
    proof
      assume n: "ss_name s = n"
      have "shard_of (shard_file_name n, ShardJson s) = Some s"
        using n \<open>n \<noteq> []\<close> by (simp add: shard_of_def shard_file_name_def)
      then have "s \<in> set (shards_of es)" using map_of_SomeD [OF that] unfolding set_shards_of by blast
      with None n show False by (auto simp: find_None_iff)
    qed
    with None show ?thesis by (auto split: option.split shard_entry.split)
  qed
qed

lemma well_filed_update:
  assumes "well_filed es"
  shows "well_filed (AList.update (shard_file_name (ss_name s)) (ShardJson (json_subsystem s)) es)"
proof -
  have "x = ShardJson (json_subsystem s) \<and> f = shard_file_name (ss_name s) \<or> (f, x) \<in> set es"
    if "(f, x) \<in> set (AList.update (shard_file_name (ss_name s)) (ShardJson (json_subsystem s)) es)" for f x
  proof -
    have "map_of (AList.update (shard_file_name (ss_name s)) (ShardJson (json_subsystem s)) es) f = Some x"
      using that assms by (simp add: well_filed_def distinct_update)
    then show ?thesis by (auto simp: update_conv split: if_splits dest: map_of_SomeD)
  qed
  with assms show ?thesis unfolding well_filed_def by (fastforce simp: distinct_update)
qed

lemma well_filed_updates:
  "well_filed es \<Longrightarrow>
    well_filed (foldl (\<lambda>es s. AList.update (shard_file_name (ss_name s)) (ShardJson (json_subsystem s)) es) es subs)"
  by (induction subs arbitrary: es) (simp_all add: well_filed_update)

lemma overlay_ci [simp]: "st_ci (overlay_subsystem_shards fs st) = st_ci st"
proof -
  have "st_ci (fst (upsert_subsystem s st)) = st_ci st" for s st
    by (simp add: upsert_subsystem_def case_prod_unfold Let_def)
  then have "st_ci (overlay_entry st e) = st_ci st" for st e
    by (simp add: overlay_entry_shard split: option.split)
  then have "st_ci (foldl overlay_entry st es) = st_ci st" for st es
    by (induction es arbitrary: st) simp_all
  then show ?thesis by (simp add: overlay_subsystem_shards_def)
qed

lemma find_key:
  "distinct (map key xs) \<Longrightarrow> s \<in> set xs \<Longrightarrow> find (\<lambda>x. key x = key s) xs = Some s"
  by (induction xs) (auto simp: image_iff)

lemma find_name_map_json:
  "find_name n (map json_subsystem xs) = map_option json_subsystem (find_name n xs)"
  by (induction xs) auto

text \<open>C36: What is written is read back: after a successful write into a well-kept directory, every
  subsystem of the state is read under its name as it was recorded, over the stamped run identity,
  whatever shards other jobs have left there.\<close>

theorem write_then_read:
  assumes "distinct (map (shard_file_name \<circ> ss_name) (st_subsystems st))"
    and "\<forall>s \<in> set (st_subsystems st). ss_name s \<noteq> []"
    and "well_filed (fs_shards fs)" "\<forall>p. \<not> fs_denied fs p"
  shows "fst (write_state now st fs) = None \<and>
    (\<exists>st'. read_state (snd (write_state now st fs)) = Inr st' \<and> st_ci st' = st_ci (stamp_state now st) \<and>
      (\<forall>s \<in> set (st_subsystems st). get_subsystem st' (ss_name s) = Some (json_subsystem s)))"
proof -
  let ?up = "foldl (\<lambda>es s. AList.update (shard_file_name (ss_name s)) (ShardJson (json_subsystem s)) es)
      (fs_shards fs) (st_subsystems st)"
  let ?st1 = "stamp_state now st"
  have subs: "st_subsystems ?st1 = st_subsystems st" by (simp add: stamp_state_def Let_def)
  have w: "write_state now st fs = (None, fs\<lparr>fs_ledger := LedgerJson (json_state ?st1), fs_shards := ?up\<rparr>)"
    using assms(4) by (simp add: write_state_def Let_def subs write_shards_files)
  let ?fs = "fs\<lparr>fs_ledger := LedgerJson (json_state ?st1), fs_shards := ?up\<rparr>"
  have wf: "well_filed ?up" by (rule well_filed_updates [OF assms(3)])
  have "get_subsystem (overlay_subsystem_shards ?fs (json_state ?st1)) (ss_name s) = Some (json_subsystem s)"
    if s: "s \<in> set (st_subsystems st)" for s
  proof -
    have "find (\<lambda>x. (shard_file_name \<circ> ss_name) x = (shard_file_name \<circ> ss_name) s) (st_subsystems st) = Some s"
      using assms(1) s by (rule find_key)
    then have "map_of ?up (shard_file_name (ss_name s)) = Some (ShardJson (json_subsystem s))"
      using update_all_lookup [of "shard_file_name \<circ> ss_name" "st_subsystems st"
          "\<lambda>s. ShardJson (json_subsystem s)" "fs_shards fs" "shard_file_name (ss_name s)"] assms(1) by simp
    then have shard: "find_name (ss_name s) (shards_of ?up) = Some (json_subsystem s)"
      using well_filed_shards(2) [OF wf] assms(2) s by simp
    have names: "distinct (map ss_name (st_subsystems st))"
      using assms(1) by (auto simp: distinct_map inj_on_def)
    have own: "get_subsystem (json_state ?st1) (ss_name s) = Some (json_subsystem s)"
      using find_key [OF names s] by (simp add: get_subsystem_def json_state_def subs find_name_map_json)
    have "distinct (map ss_name (shards_of (fs_shards ?fs)))" using well_filed_shards(1) [OF wf] by simp
    from shard_union_plain [OF this, of "json_state ?st1" "ss_name s"] show ?thesis
      by (simp add: shard own inherit_results_def)
  qed
  moreover have "read_state ?fs = Inr (overlay_subsystem_shards ?fs (json_state ?st1))"
    by (simp add: read_state_def)
  moreover have "st_ci (overlay_subsystem_shards ?fs (json_state ?st1)) = st_ci ?st1"
    by (simp add: json_state_def)
  ultimately show ?thesis unfolding w by auto
qed

lemma write_then_read_witness:
  "let st = zero_state\<lparr>st_subsystems := [empty_subsystem\<lparr>ss_name := ''build'', ss_outcome := ''success''\<rparr>]\<rparr> in
    fst (write_state 5 st demo_fs) = None \<and>
    (\<exists>st'. read_state (snd (write_state 5 st demo_fs)) = Inr st' \<and> st_ci st' = st_ci (stamp_state 5 st) \<and>
      (\<forall>s \<in> set (st_subsystems st). get_subsystem st' (ss_name s) = Some (json_subsystem s)))"
  unfolding Let_def
proof (rule write_then_read)
  show "well_filed (fs_shards demo_fs)"
    by (simp add: well_filed_def demo_fs_def shard_file_name_def empty_subsystem_def safe_name_char_def is_lower_def)
qed (simp_all add: demo_fs_def)

end
