(* ===== verification/Version_Scheme.thy ===== *)
theory Version_Scheme
  imports Units Go_Regexp
begin

text \<open>
  Version schemes of tracked upstreams (\<^verbatim>\<open>src/src/upstream/scheme\<close>): numeric segments, dpkg's
  order, loose dotted versions and PEP 440. The patterns that split a loose or PEP 440 version
  are matched by the engine argument; what is built from the submatches and how versions are
  compared is the model. Semantic versions are third-party values: their comparison is an
  argument.

  A comparison returns \<open>-1\<close>, \<open>0\<close> or \<open>1\<close>. The locale \<open>version_order\<close> states what makes one usable
  for sorting; it is interpreted for the numeric segments, for dpkg's comparison (by a numeric
  key that the character loop is shown to compare) and for PEP 440.
\<close>

section \<open>Comparison functions\<close>

definition cmp_int :: "int \<Rightarrow> int \<Rightarrow> int" where
  "cmp_int a b = (if a < b then -1 else if a > b then 1 else 0)"

text \<open>\<open>cmpParts\<close>: the loop over the positions of both lists, missing segments being zero.\<close>

fun cmp_parts :: "int list \<Rightarrow> int list \<Rightarrow> int" where
  "cmp_parts [] [] = 0"
| "cmp_parts (x # xs) [] = (if cmp_int x 0 \<noteq> 0 then cmp_int x 0 else cmp_parts xs [])"
| "cmp_parts [] (y # ys) = (if cmp_int 0 y \<noteq> 0 then cmp_int 0 y else cmp_parts [] ys)"
| "cmp_parts (x # xs) (y # ys) = (if cmp_int x y \<noteq> 0 then cmp_int x y else cmp_parts xs ys)"

text \<open>\<open>strings.Compare\<close>.\<close>

definition cmp_string :: "string \<Rightarrow> string \<Rightarrow> int" where
  "cmp_string a b = (if a = b then 0 else if a < b then -1 else 1)"

text \<open>\<open>strconv.Atoi\<close>: the value and whether it succeeded; out of range it is clamped.\<close>

definition atoi :: "string \<Rightarrow> int \<times> bool" where
  "atoi s =
     (let (neg, r) = take_sign s; v = signed neg (digits_val r) in
      if r = [] \<or> \<not> list_all is_digit r then (0, False)
      else if v < - (2 ^ 63) then (- (2 ^ 63), False)
      else if v \<ge> 2 ^ 63 then (2 ^ 63 - 1, False)
      else (v, True))"

section \<open>dpkg versions\<close>

record debian_version =
  dv_text :: string
  dv_epoch :: int
  dv_upstream :: string
  dv_revision :: string

datatype version_error = BadEpoch string | NotDebian string | NotDotted string | NotPep440 string | NotSemver string

definition debian_parse :: "string \<Rightarrow> version_error + debian_version" where
  "debian_parse raw =
     (let s = trim_space raw in
      case (case cut_at (CHR '':'') s of
              None \<Rightarrow> Inr (0, s)
            | Some (e, rest) \<Rightarrow> if snd (atoi e) then Inr (fst (atoi e), rest) else Inl (BadEpoch s)) of
        Inl err \<Rightarrow> Inl err
      | Inr (epoch, rest) \<Rightarrow>
          (let (up, rev) = (case cut_last (CHR ''-'') rest of Some (u, r) \<Rightarrow> (u, r) | None \<Rightarrow> (rest, []));
               up = trim_prefix up ''v''
           in if up = [] \<or> \<not> is_digit (hd up) then Inl (NotDebian s)
              else Inr \<lparr>dv_text = s, dv_epoch = epoch, dv_upstream = up, dv_revision = rev\<rparr>))"

definition char_order :: "char \<Rightarrow> int" where
  "char_order c =
     (if c = CHR ''~'' then -1
      else if is_digit c then 0
      else if is_lower c \<or> is_upper c then of_char c
      else if c = CHR 0x00 then 0
      else of_char c + 256)"

definition starts_nondigit :: "string \<Rightarrow> bool" where
  "starts_nondigit s \<longleftrightarrow> s \<noteq> [] \<and> \<not> is_digit (hd s)"

definition head_order :: "string \<Rightarrow> int" where
  "head_order s = (if s = [] then char_order (CHR 0x00) else if is_digit (hd s) then 0 else char_order (hd s))"

text \<open>The first inner loop: the sign it returns, or the two rests.\<close>

function vr_alpha :: "string \<Rightarrow> string \<Rightarrow> int + string \<times> string" where
  "vr_alpha a b =
     (if starts_nondigit a \<or> starts_nondigit b then
        (if head_order a \<noteq> head_order b then Inl (cmp_int (head_order a) (head_order b))
         else vr_alpha (tl a) (tl b))
      else Inr (a, b))"
  by pat_completeness auto

termination
proof (relation "measure (\<lambda>(a, b). length a + length b)", goal_cases)
  case (2 a b)
  then have "a \<noteq> [] \<or> b \<noteq> []" by (auto simp: starts_nondigit_def)
  then show ?case by (cases a; cases b) auto
qed simp

declare vr_alpha.simps [simp del]

text \<open>The loop over two runs of digits: the first difference, and the rests.\<close>

fun vr_digits :: "string \<Rightarrow> string \<Rightarrow> int \<Rightarrow> int \<times> string \<times> string" where
  "vr_digits (x # a) (y # b) diff =
     (if is_digit x \<and> is_digit y
      then vr_digits a b (if diff = 0 then cmp_int (of_char x) (of_char y) else diff)
      else (diff, x # a, y # b))"
| "vr_digits a b diff = (diff, a, b)"

definition starts_digit :: "string \<Rightarrow> bool" where
  "starts_digit s \<longleftrightarrow> s \<noteq> [] \<and> is_digit (hd s)"

lemma vr_alpha_length:
  "vr_alpha a b = Inr (a', b') \<Longrightarrow> length a' + length b' \<le> length a + length b \<and>
     (starts_nondigit a \<or> starts_nondigit b \<longrightarrow> length a' + length b' < length a + length b) \<and>
     \<not> starts_nondigit a' \<and> \<not> starts_nondigit b'"
proof (induction a b rule: vr_alpha.induct)
  case (1 a b)
  show ?case
  proof (cases "starts_nondigit a \<or> starts_nondigit b")
    case True
    with "1.prems" have eq: "head_order a = head_order b" and r: "vr_alpha (tl a) (tl b) = Inr (a', b')"
      by (auto simp: vr_alpha.simps [of a b] split: if_splits)
    have "\<not> head_order a \<noteq> head_order b" using eq by simp
    from "1.IH" [OF True this r] have IH: "length a' + length b' \<le> length (tl a) + length (tl b)"
      "\<not> starts_nondigit a' \<and> \<not> starts_nondigit b'" by auto
    have "a \<noteq> [] \<or> b \<noteq> []" using True by (auto simp: starts_nondigit_def)
    then have "length (tl a) + length (tl b) < length a + length b" by (cases a; cases b) auto
    with IH show ?thesis by auto
  next
    case False
    with "1.prems" show ?thesis by (auto simp: vr_alpha.simps [of a b])
  qed
qed

lemma vr_digits_length:
  "vr_digits a b d = (d', a', b') \<Longrightarrow> length a' + length b' \<le> length a + length b \<and>
    (starts_digit a \<and> starts_digit b \<longrightarrow> length a' + length b' < length a + length b)"
proof (induction a b d rule: vr_digits.induct)
  case (1 x a y b diff)
  show ?case
  proof (cases "is_digit x \<and> is_digit y")
    case True
    with 1 have "length a' + length b' \<le> length a + length b" by auto
    then show ?thesis by simp
  next
    case False
    with 1 show ?thesis by (auto simp: starts_digit_def)
  qed
qed (auto simp: starts_digit_def)

definition drop_zeros :: "string \<Rightarrow> string" where
  "drop_zeros s = dropWhile (\<lambda>c. c = CHR ''0'') s"

text \<open>One round that does not decide: the rests after letters and digits.\<close>

definition vr_round :: "string \<Rightarrow> string \<Rightarrow> int + string \<times> string" where
  "vr_round a b =
     (case vr_alpha a b of
        Inl c \<Rightarrow> Inl c
      | Inr (a1, b1) \<Rightarrow>
          (let (diff, a2, b2) = vr_digits (drop_zeros a1) (drop_zeros b1) 0 in
           if starts_digit a2 then Inl 1
           else if starts_digit b2 then Inl (-1)
           else if diff \<noteq> 0 then Inl diff
           else Inr (a2, b2)))"

lemma vr_round_length:
  assumes "vr_round a b = Inr (a', b')" "a \<noteq> [] \<or> b \<noteq> []"
  shows "length a' + length b' < length a + length b"
proof -
  obtain a1 b1 where al: "vr_alpha a b = Inr (a1, b1)"
    using assms(1) by (auto simp: vr_round_def split: sum.splits)
  obtain d where dg: "vr_digits (drop_zeros a1) (drop_zeros b1) 0 = (d, a', b')"
    and nd: "\<not> starts_digit a'" "\<not> starts_digit b'"
    using assms(1) al by (auto simp: vr_round_def Let_def split: prod.splits if_splits)
  have le: "length (drop_zeros a1) \<le> length a1" "length (drop_zeros b1) \<le> length b1"
    by (simp_all add: drop_zeros_def length_dropWhile_le)
  note l1 = vr_alpha_length [OF al] and l2 = vr_digits_length [OF dg]
  show ?thesis
  proof (cases "starts_nondigit a \<or> starts_nondigit b")
    case True
    with l1 l2 le show ?thesis by auto
  next
    case False
    then have "a1 = a" "b1 = b" using al by (simp_all add: vr_alpha.simps [of a b])
    have "starts_digit a1 \<or> starts_digit b1"
      using False assms(2) \<open>a1 = a\<close> \<open>b1 = b\<close> by (auto simp: starts_nondigit_def starts_digit_def)
    moreover have "a' \<noteq> a1 \<or> b' \<noteq> b1" using calculation nd by auto
    moreover have "length a' + length b' < length a1 + length b1"
    proof (rule ccontr)
      assume "\<not> ?thesis"
      then have same: "length (drop_zeros a1) = length a1" "length (drop_zeros b1) = length b1"
        "length a' + length b' = length a1 + length b1"
        using l2 le by linarith+
      have dz: "drop_zeros s = s" if "length (drop_zeros s) = length s" for s
        using that unfolding drop_zeros_def
        by (metis append_Nil length_append length_0_conv add_cancel_right_left takeWhile_dropWhile_id)
      have fixed: "drop_zeros a1 = a1" "drop_zeros b1 = b1" using dz same(1,2) by blast+
      then have "vr_digits a1 b1 0 = (d, a', b')" using dg by simp
      moreover have "\<not> (starts_digit a1 \<and> starts_digit b1)" using l2 same unfolding fixed by auto
      ultimately have "a' = a1 \<and> b' = b1"
        by (cases a1; cases b1) (auto simp: starts_digit_def split: if_splits)
      with nd \<open>starts_digit a1 \<or> starts_digit b1\<close> show False by simp
    qed
    ultimately show ?thesis using \<open>a1 = a\<close> \<open>b1 = b\<close> by simp
  qed
qed

function verrevcmp :: "string \<Rightarrow> string \<Rightarrow> int" where
  "verrevcmp a b =
     (if a = [] \<and> b = [] then 0
      else case vr_round a b of
        Inl c \<Rightarrow> c
      | Inr (a', b') \<Rightarrow> verrevcmp a' b')"
  by pat_completeness auto

termination
  by (relation "measure (\<lambda>(a, b). length a + length b)") (auto intro: vr_round_length)

declare verrevcmp.simps [simp del]

definition debian_compare :: "debian_version \<Rightarrow> debian_version \<Rightarrow> int" where
  "debian_compare v w =
     (if cmp_int (dv_epoch v) (dv_epoch w) \<noteq> 0 then cmp_int (dv_epoch v) (dv_epoch w)
      else if verrevcmp (dv_upstream v) (dv_upstream w) \<noteq> 0 then verrevcmp (dv_upstream v) (dv_upstream w)
      else verrevcmp (dv_revision v) (dv_revision w))"

definition debian_prerelease :: "debian_version \<Rightarrow> bool" where
  "debian_prerelease v \<longleftrightarrow> CHR ''~'' \<in> set (dv_upstream v)"

definition debian_release_name :: "debian_version \<Rightarrow> string" where
  "debian_release_name v = dv_upstream v"

definition debian_claims :: "debian_version \<Rightarrow> debian_version \<Rightarrow> bool" where
  "debian_claims v w =
     (if dv_revision w \<noteq> [] then debian_compare v w = 0
      else dv_epoch v = dv_epoch w \<and> verrevcmp (dv_upstream v) (dv_upstream w) = 0)"

section \<open>Loose versions\<close>

record loose_version =
  lv_text :: string
  lv_parts :: "int list"
  lv_letter :: string
  lv_pre :: string

definition loose_of_match :: "string \<Rightarrow> string list \<Rightarrow> loose_version" where
  "loose_of_match s m =
     \<lparr>lv_text = s, lv_parts = map (\<lambda>p. fst (atoi p)) (split_on (CHR ''.'') (m ! 1)),
      lv_letter = to_lower (m ! 2), lv_pre = to_lower (m ! 3)\<rparr>"

definition loose_parse :: "'re regexp_pkg \<Rightarrow> 're \<Rightarrow> string \<Rightarrow> version_error + loose_version" where
  "loose_parse R loose_re s =
     (case re_submatch R loose_re (trim_space s) of
        None \<Rightarrow> Inl (NotDotted s)
      | Some m \<Rightarrow> Inr (loose_of_match s m))"

text \<open>\<open>preToken.FindAllString\<close>: the maximal runs of digits and of small letters.\<close>

function pre_tokens :: "string \<Rightarrow> string list" where
  "pre_tokens [] = []"
| "pre_tokens (c # s) =
     (if is_digit c then (c # takeWhile is_digit s) # pre_tokens (dropWhile is_digit s)
      else if is_lower c then (c # takeWhile is_lower s) # pre_tokens (dropWhile is_lower s)
      else pre_tokens s)"
  by pat_completeness auto

termination
  by (relation "measure length") (simp_all add: length_dropWhile_le less_Suc_eq_le)

definition compare_token :: "string \<Rightarrow> string \<Rightarrow> int" where
  "compare_token x y =
     (if snd (atoi x) \<and> snd (atoi y) then cmp_int (fst (atoi x)) (fst (atoi y)) else cmp_string x y)"

fun compare_tokens :: "string list \<Rightarrow> string list \<Rightarrow> int option" where
  "compare_tokens (x # xs) (y # ys) =
     (if compare_token x y \<noteq> 0 then Some (compare_token x y) else compare_tokens xs ys)"
| "compare_tokens _ _ = None"

definition compare_pre :: "string \<Rightarrow> string \<Rightarrow> int" where
  "compare_pre a b =
     (let x = pre_tokens a; y = pre_tokens b in
      case compare_tokens x y of
        Some c \<Rightarrow> c
      | None \<Rightarrow> cmp_int (int (length x)) (int (length y)))"

definition loose_compare :: "loose_version \<Rightarrow> loose_version \<Rightarrow> int" where
  "loose_compare v w =
     (if cmp_parts (lv_parts v) (lv_parts w) \<noteq> 0 then cmp_parts (lv_parts v) (lv_parts w)
      else if cmp_string (lv_letter v) (lv_letter w) \<noteq> 0 then cmp_string (lv_letter v) (lv_letter w)
      else if lv_pre v = lv_pre w then 0
      else if lv_pre v = [] then 1
      else if lv_pre w = [] then -1
      else compare_pre (lv_pre v) (lv_pre w))"

definition loose_prerelease :: "loose_version \<Rightarrow> bool" where
  "loose_prerelease v \<longleftrightarrow> lv_pre v \<noteq> []"

section \<open>PEP 440\<close>

record pep440_version =
  pv_text :: string
  pv_epoch :: int
  pv_release :: "int list"
  pv_pre :: "(int \<times> int) option"
  pv_post :: "int option"
  pv_dev :: "int option"

abbreviation num :: "string \<Rightarrow> int" where
  "num t \<equiv> fst (atoi t)"

definition pep440_of_match :: "string \<Rightarrow> string list \<Rightarrow> pep440_version" where
  "pep440_of_match s m =
     \<lparr>pv_text = s, pv_epoch = num (m ! 1),
      pv_release = map (\<lambda>p. num p) (split_on (CHR ''.'') (m ! 2)),
      pv_pre = (if m ! 3 = [] then None
                else Some ((let l = to_lower (m ! 3) in
                            if l = ''a'' \<or> l = ''alpha'' then 0 else if l = ''b'' \<or> l = ''beta'' then 1 else 2),
                           num (m ! 4))),
      pv_post = (if m ! 5 \<noteq> [] then Some (num (m ! 5)) else if m ! 6 \<noteq> [] then Some (num (m ! 7)) else None),
      pv_dev = (if m ! 8 \<noteq> [] then Some (num (m ! 9)) else None)\<rparr>"

definition pep440_parse :: "'re regexp_pkg \<Rightarrow> 're \<Rightarrow> string \<Rightarrow> version_error + pep440_version" where
  "pep440_parse R pep440_re s =
     (case re_submatch R pep440_re (trim_space s) of
        None \<Rightarrow> Inl (NotPep440 s)
      | Some m \<Rightarrow> Inr (pep440_of_match s m))"

abbreviation max_int :: int where
  "max_int \<equiv> 2 ^ 63 - 1"

definition pep440_key :: "pep440_version \<Rightarrow> (int \<times> int) \<times> int \<times> int" where
  "pep440_key v =
     ((case pv_pre v of
         Some p \<Rightarrow> p
       | None \<Rightarrow> if pv_post v = None \<and> pv_dev v \<noteq> None then (-1, 0) else (max_int, 0)),
      (case pv_post v of None \<Rightarrow> -1 | Some n \<Rightarrow> n),
      (case pv_dev v of None \<Rightarrow> max_int | Some n \<Rightarrow> n))"

fun first_nonzero :: "int list \<Rightarrow> int" where
  "first_nonzero [] = 0"
| "first_nonzero (c # cs) = (if c \<noteq> 0 then c else first_nonzero cs)"

definition pep440_compare :: "pep440_version \<Rightarrow> pep440_version \<Rightarrow> int" where
  "pep440_compare v w =
     (if cmp_int (pv_epoch v) (pv_epoch w) \<noteq> 0 then cmp_int (pv_epoch v) (pv_epoch w)
      else if cmp_parts (pv_release v) (pv_release w) \<noteq> 0 then cmp_parts (pv_release v) (pv_release w)
      else
        (let (vp, vpost, vdev) = pep440_key v; (wp, wpost, wdev) = pep440_key w in
         first_nonzero [cmp_int (fst vp) (fst wp), cmp_int (snd vp) (snd wp), cmp_int vpost wpost, cmp_int vdev wdev]))"

definition pep440_prerelease :: "pep440_version \<Rightarrow> bool" where
  "pep440_prerelease v \<longleftrightarrow> pv_pre v \<noteq> None \<or> pv_dev v \<noteq> None"

section \<open>Versions of any scheme\<close>

text \<open>Semantic versions are values of a third-party package, given by their text, their
  prerelease flag and their comparison.\<close>

record 'sv semver_pkg =
  sv_parse :: "string \<Rightarrow> 'sv option"
  sv_text :: "'sv \<Rightarrow> string"
  sv_prerelease :: "'sv \<Rightarrow> bool"
  sv_compare :: "'sv \<Rightarrow> 'sv \<Rightarrow> int"

datatype 'sv version = VSemver 'sv | VPep440 pep440_version | VLoose loose_version | VDebian debian_version

text \<open>Comparing versions of different schemes panics: \<^const>\<open>None\<close>.\<close>

fun version_compare :: "'sv semver_pkg \<Rightarrow> 'sv version \<Rightarrow> 'sv version \<Rightarrow> int option" where
  "version_compare S (VSemver v) (VSemver w) = Some (sv_compare S v w)"
| "version_compare S (VPep440 v) (VPep440 w) = Some (pep440_compare v w)"
| "version_compare S (VLoose v) (VLoose w) = Some (loose_compare v w)"
| "version_compare S (VDebian v) (VDebian w) = Some (debian_compare v w)"
| "version_compare S _ _ = None"

fun version_same :: "'sv semver_pkg \<Rightarrow> 'sv version \<Rightarrow> 'sv version \<Rightarrow> bool option" where
  "version_same S (VDebian v) ours = (case ours of VDebian w \<Rightarrow> Some (debian_claims v w) | _ \<Rightarrow> None)"
| "version_same S v ours = map_option (\<lambda>c. c = 0) (version_compare S v ours)"

fun release_name :: "'sv version \<Rightarrow> string \<Rightarrow> string" where
  "release_name (VDebian v) raw = debian_release_name v"
| "release_name v raw = raw"

fun version_prerelease :: "'sv semver_pkg \<Rightarrow> 'sv version \<Rightarrow> bool" where
  "version_prerelease S (VSemver v) = sv_prerelease S v"
| "version_prerelease S (VPep440 v) = pep440_prerelease v"
| "version_prerelease S (VLoose v) = loose_prerelease v"
| "version_prerelease S (VDebian v) = debian_prerelease v"

definition semver_parse :: "'sv semver_pkg \<Rightarrow> string \<Rightarrow> version_error + 'sv" where
  "semver_parse S s = (case sv_parse S (trim_prefix s ''v'') of None \<Rightarrow> Inl (NotSemver s) | Some v \<Rightarrow> Inr v)"

definition scheme_names :: "string list" where
  "scheme_names = sort_strings [''semver'', ''pep440'', ''loose'', ''debian'']"

section \<open>Orders\<close>

text \<open>The contract of a comparison that versions can be sorted with: it answers with a sign,
  swapping the arguments flips it, and it is transitive.\<close>

locale version_order =
  fixes cmp :: "'v \<Rightarrow> 'v \<Rightarrow> int"
  assumes cmp_sign: "cmp a b \<in> {-1, 0, 1}"
    and cmp_flip: "cmp b a = - cmp a b"
    and cmp_trans: "cmp a b \<le> 0 \<Longrightarrow> cmp b c \<le> 0 \<Longrightarrow> cmp a c \<le> 0"
begin

lemma cmp_refl [simp]: "cmp a a = 0"
  using cmp_flip [of a a] by simp

lemma cmp_equal_left: "cmp a b = 0 \<Longrightarrow> cmp a c = cmp b c"
proof -
  assume ab: "cmp a b = 0"
  have "cmp a c \<le> 0 \<longleftrightarrow> cmp b c \<le> 0"
    using cmp_trans [of b a c] cmp_trans [of a b c] ab cmp_flip [of b a] by auto
  moreover have "cmp c a \<le> 0 \<longleftrightarrow> cmp c b \<le> 0"
    using cmp_trans [of c a b] cmp_trans [of c b a] ab cmp_flip [of b a] by auto
  ultimately show ?thesis
    using cmp_sign [of a c] cmp_sign [of b c] cmp_flip [of a c] cmp_flip [of b c] by auto
qed

lemma cmp_less_trans: "cmp a b < 0 \<Longrightarrow> cmp b c \<le> 0 \<Longrightarrow> cmp a c < 0"
  using cmp_trans [of a b c] cmp_trans [of b c a] cmp_equal_left [of a c b] cmp_flip [of a c] cmp_flip [of b c] cmp_flip [of a b]
  by (metis cmp_flip neg_less_0_iff_less neg_less_iff_less not_less order_le_less minus_zero)

text \<open>It orders lists: sorting by it is what \<open>sort.Slice\<close> expects.\<close>

lemma cmp_comparator: "comparator (\<lambda>a b. cmp a b < 0)"
proof
  show "\<not> cmp b a < 0" if "cmp a b < 0" for a b
    using that cmp_flip [of a b] by simp
  show "cmp a c < 0 \<or> cmp c b < 0" if "cmp a b < 0" for a b c
    using that cmp_less_trans [of a b c] cmp_trans [of b c a] cmp_flip cmp_sign
    by (smt (verit, best) neg_0_le_iff_le)
qed

end

lemma version_order_key: "version_order cmp \<Longrightarrow> version_order (\<lambda>a b. cmp (k a) (k b))"
  unfolding version_order_def by blast

lemma version_order_lex:
  assumes "version_order f" "version_order g"
  shows "version_order (\<lambda>a b. if f a b \<noteq> 0 then f a b else g a b)"
proof -
  show ?thesis
  proof
    fix a b c
    show "(if f a b \<noteq> 0 then f a b else g a b) \<in> {-1, 0, 1}"
      using version_order.cmp_sign [OF assms(1), of a b] version_order.cmp_sign [OF assms(2), of a b] by auto
    show "(if f b a \<noteq> 0 then f b a else g b a) = - (if f a b \<noteq> 0 then f a b else g a b)"
      using version_order.cmp_flip [OF assms(1), of a b] version_order.cmp_flip [OF assms(2), of a b] by simp
    assume 1: "(if f a b \<noteq> 0 then f a b else g a b) \<le> 0" and 2: "(if f b c \<noteq> 0 then f b c else g b c) \<le> 0"
    then have le: "f a b \<le> 0" "f b c \<le> 0" by (auto split: if_splits)
    then have "f a c \<le> 0" by (rule version_order.cmp_trans [OF assms(1)])
    moreover have "f a c = 0 \<Longrightarrow> f a b = 0 \<and> f b c = 0"
      using version_order.cmp_less_trans [OF assms(1), of a b c] le
        version_order.cmp_equal_left [OF assms(1), of a b c] by (cases "f a b = 0") auto
    moreover have "f a b = 0 \<Longrightarrow> f b c = 0 \<Longrightarrow> g a c \<le> 0"
      using 1 2 version_order.cmp_trans [OF assms(2), of a b c] by simp
    ultimately show "(if f a c \<noteq> 0 then f a c else g a c) \<le> 0" by auto
  qed
qed

interpretation int_order: version_order cmp_int
  by unfold_locales (auto simp: cmp_int_def split: if_splits)

interpretation string_order: version_order cmp_string
  by unfold_locales (auto simp: cmp_string_def split: if_splits)

lemma cmp_parts_cons_pad:
  "cmp_parts xs ys = (if xs = [] \<and> ys = [] then 0 else
     let x = (case xs of [] \<Rightarrow> 0 | x # _ \<Rightarrow> x); y = (case ys of [] \<Rightarrow> 0 | y # _ \<Rightarrow> y) in
     if cmp_int x y \<noteq> 0 then cmp_int x y else cmp_parts (tl xs) (tl ys))"
  by (cases xs; cases ys) simp_all

interpretation parts_order: version_order cmp_parts
proof
  show "cmp_parts a b \<in> {-1, 0, 1}" for a b
    by (induction a b rule: cmp_parts.induct) (auto simp: cmp_int_def)
  show "cmp_parts b a = - cmp_parts a b" for a b
    by (induction a b rule: cmp_parts.induct) (auto simp: cmp_int_def)
  show "cmp_parts a b \<le> 0 \<Longrightarrow> cmp_parts b c \<le> 0 \<Longrightarrow> cmp_parts a c \<le> 0" for a b c
  proof (induction "length a + length b + length c" arbitrary: a b c rule: less_induct)
    case less
    show ?case
    proof (cases "a = [] \<and> b = [] \<and> c = []")
      case True
      then show ?thesis by simp
    next
      case False
      then have "length (tl a) + length (tl b) + length (tl c) < length a + length b + length c"
        by (cases a; cases b; cases c) auto
      note IH = less.hyps [OF this]
      show ?thesis
        using less.prems IH False
        by (cases a; cases b; cases c) (auto simp: cmp_int_def split: if_splits)
    qed
  qed
qed

section \<open>dpkg's loop compares a key\<close>

text \<open>The key of a version: the weights of a run of non-digits, a zero, the number that follows,
  and so on. Comparing it with zero padding is what the character loop does.\<close>

definition alpha_part :: "string \<Rightarrow> string" where
  "alpha_part s = takeWhile (\<lambda>c. \<not> is_digit c) s"

definition alpha_rest :: "string \<Rightarrow> string" where
  "alpha_rest s = dropWhile (\<lambda>c. \<not> is_digit c) s"

definition digit_part :: "string \<Rightarrow> string" where
  "digit_part s = takeWhile is_digit s"

definition digit_rest :: "string \<Rightarrow> string" where
  "digit_rest s = dropWhile is_digit s"

definition segment :: "string \<Rightarrow> int list" where
  "segment s = map char_order (alpha_part s) @ [0, int (digits_val (digit_part (alpha_rest s)))]"

definition segment_rest :: "string \<Rightarrow> string" where
  "segment_rest s = digit_rest (alpha_rest s)"

lemma segment_rest_length: "s \<noteq> [] \<Longrightarrow> length (segment_rest s) < length s"
proof -
  assume "s \<noteq> []"
  then obtain c r where s: "s = c # r" by (cases s) auto
  show ?thesis
  proof (cases "is_digit c")
    case True
    with s show ?thesis
      using length_dropWhile_le [of is_digit r] by (simp add: segment_rest_def digit_rest_def alpha_rest_def less_Suc_eq_le)
  next
    case False
    then have "length (alpha_rest s) \<le> length r"
      using s length_dropWhile_le [of "\<lambda>c. \<not> is_digit c" r] by (simp add: alpha_rest_def)
    moreover have "length (segment_rest s) \<le> length (alpha_rest s)"
      by (simp add: segment_rest_def digit_rest_def length_dropWhile_le)
    ultimately show ?thesis using s by simp
  qed
qed

function version_key :: "string \<Rightarrow> int list" where
  "version_key s = (if s = [] then [] else segment s @ version_key (segment_rest s))"
  by pat_completeness auto

termination
  by (relation "measure length") (auto intro: segment_rest_length)

declare version_key.simps [simp del]

definition nul_free :: "string \<Rightarrow> bool" where
  "nul_free s \<longleftrightarrow> CHR 0x00 \<notin> set s"

lemma char_order_nonzero: "\<not> is_digit c \<Longrightarrow> c \<noteq> CHR 0x00 \<Longrightarrow> char_order c \<noteq> 0"
proof -
  assume "c \<noteq> CHR 0x00"
  moreover have "(of_char (CHR 0x00) :: int) = 0" by simp
  ultimately have "(of_char c :: int) \<noteq> 0" by (metis of_char_eq_iff)
  moreover have "(of_char c :: int) \<ge> 0" by (metis of_nat_0_le_iff of_nat_of_char)
  ultimately show "\<not> is_digit c \<Longrightarrow> char_order c \<noteq> 0"
    using \<open>c \<noteq> CHR 0x00\<close> by (simp add: char_order_def)
qed

lemma alpha_simps [simp]:
  "alpha_part [] = []" "alpha_rest [] = []"
  "alpha_part (c # s) = (if is_digit c then [] else c # alpha_part s)"
  "alpha_rest (c # s) = (if is_digit c then c # s else alpha_rest s)"
  by (simp_all add: alpha_part_def alpha_rest_def)

lemma cmp_int_sign: "cmp_int a b \<noteq> 0 \<longleftrightarrow> a \<noteq> b"
  by (simp add: cmp_int_def)

text \<open>The letter loop compares the two weight lists with their terminating zeros.\<close>

lemma vr_alpha_key:
  assumes "nul_free a" "nul_free b"
  shows "case vr_alpha a b of
      Inl c \<Rightarrow> c \<noteq> 0 \<and> cmp_parts (map char_order (alpha_part a) @ 0 # xs) (map char_order (alpha_part b) @ 0 # ys) = c
    | Inr (a', b') \<Rightarrow> a' = alpha_rest a \<and> b' = alpha_rest b \<and>
        map char_order (alpha_part a) = map char_order (alpha_part b)"
  using assms
proof (induction a b rule: vr_alpha.induct)
  case (1 a b)
  have head: "head_order s = hd (map char_order (alpha_part s) @ [0])" for s
    by (cases s) (auto simp: head_order_def char_order_def is_digit_def)
  have nz: "head_order s \<noteq> 0" if "starts_nondigit s" "nul_free s" for s
    using that char_order_nonzero [of "hd s"]
    by (cases s) (auto simp: head_order_def starts_nondigit_def nul_free_def)
  have z: "head_order s = 0" "alpha_part s = []" "alpha_rest s = s" if "\<not> starts_nondigit s" for s
    using that by (cases s; auto simp: head_order_def starts_nondigit_def char_order_def is_digit_def)+
  have tl: "alpha_part s = hd s # alpha_part (tl s)" "alpha_rest s = alpha_rest (tl s)"
      "head_order s = char_order (hd s)" "nul_free s \<Longrightarrow> nul_free (tl s)" if "starts_nondigit s" for s
    using that by (cases s; auto simp: starts_nondigit_def head_order_def nul_free_def)+
  show ?case
  proof (cases "starts_nondigit a \<or> starts_nondigit b")
    case False
    then show ?thesis by (simp add: vr_alpha.simps [of a b] z)
  next
    case True
    show ?thesis
    proof (cases "head_order a = head_order b")
      case False
      have "cmp_parts (map char_order (alpha_part a) @ 0 # xs) (map char_order (alpha_part b) @ 0 # ys)
          = cmp_int (head_order a) (head_order b)"
        unfolding head using False [unfolded head]
        by (cases "map char_order (alpha_part a)"; cases "map char_order (alpha_part b)") (auto simp: cmp_int_sign)
      then show ?thesis using True False by (simp add: vr_alpha.simps [of a b] cmp_int_sign)
    next
      case eq: True
      then have both: "starts_nondigit a" "starts_nondigit b"
        using True nz z(1) "1.prems" by metis+
      have "\<not> head_order a \<noteq> head_order b" using eq by simp
      note IH = "1.IH" [OF True this tl(4) [OF both(1) "1.prems"(1)] tl(4) [OF both(2) "1.prems"(2)]]
      have step: "vr_alpha a b = vr_alpha (tl a) (tl b)" using True eq by (simp add: vr_alpha.simps [of a b])
      have same: "char_order (hd a) = char_order (hd b)" using eq tl(3) both by simp
      show ?thesis
        using IH unfolding step tl(1) [OF both(1)] tl(1) [OF both(2)] tl(2) [OF both(1)] tl(2) [OF both(2)]
        by (auto simp: same cmp_int_def split: sum.splits)
    qed
  qed
qed

subsection \<open>Digit runs\<close>

definition first_diff :: "string \<Rightarrow> string \<Rightarrow> int" where
  "first_diff p q = first_nonzero (map (\<lambda>(x, y). cmp_int (of_char x) (of_char y)) (zip p q))"

lemma vr_digits_spec:
  "vr_digits x y d =
    (let n = min (length (digit_part x)) (length (digit_part y)) in
     (if d \<noteq> 0 then d else first_diff (take n (digit_part x)) (take n (digit_part y)), drop n x, drop n y))"
proof (induction x y d rule: vr_digits.induct)
  case (1 x a y b diff)
  show ?case
  proof (cases "is_digit x \<and> is_digit y")
    case True
    with 1 show ?thesis by (auto simp: digit_part_def first_diff_def Let_def)
  next
    case False
    then have "min (length (digit_part (x # a))) (length (digit_part (y # b))) = 0"
      by (auto simp: digit_part_def)
    with False show ?thesis by (auto simp: first_diff_def Let_def)
  qed
qed (auto simp: digit_part_def first_diff_def)

lemma digit_val_le: "is_digit c \<Longrightarrow> digit_val c \<le> 9"
  by (auto simp: is_digit_def digit_val_def)

lemma cmp_digit: "is_digit x \<Longrightarrow> is_digit y \<Longrightarrow> cmp_int (of_char x) (of_char y) = cmp_int (int (digit_val x)) (int (digit_val y))"
proof -
  assume d: "is_digit x" "is_digit y"
  have "of_char c = int (digit_val c) + 48" if "is_digit c" for c
  proof -
    have "(of_char c :: int) = int (of_char c)" by (metis of_nat_of_char)
    with that show ?thesis by (simp add: is_digit_def digit_val_def)
  qed
  with d show ?thesis by (simp add: cmp_int_def)
qed

lemma first_diff_value:
  assumes "length p = length q" "list_all is_digit p" "list_all is_digit q"
  shows "cmp_int (int (foldl (\<lambda>n c. n * 10 + digit_val c) m p)) (int (foldl (\<lambda>n c. n * 10 + digit_val c) k q)) =
    (if m < k then -1 else if k < m then 1 else first_diff p q)"
  using assms
proof (induction p q arbitrary: m k rule: list_induct2)
  case Nil
  then show ?case by (simp add: cmp_int_def first_diff_def)
next
  case (Cons x p y q)
  have d: "is_digit x" "is_digit y" "digit_val x \<le> 9" "digit_val y \<le> 9"
    using Cons.prems digit_val_le by auto
  have "first_diff (x # p) (y # q) =
      (if digit_val x < digit_val y then -1 else if digit_val y < digit_val x then 1 else first_diff p q)"
    using cmp_digit [OF d(1,2)] by (simp add: first_diff_def cmp_int_def)
  with Cons d show ?case by auto
qed

lemma digits_val_drop_zeros: "digits_val (drop_zeros s) = digits_val s"
proof (induction s)
  case Nil
  then show ?case by (simp add: drop_zeros_def)
next
  case (Cons c s)
  then show ?case by (cases "c = CHR ''0''") (simp_all add: drop_zeros_def digits_val_def digit_val_def)
qed

lemma foldl_digits_ge: "m * 10 ^ length p \<le> foldl (\<lambda>n c. n * 10 + digit_val c) m p"
proof (induction p arbitrary: m)
  case (Cons c p)
  have "m * 10 ^ length (c # p) \<le> (m * 10 + digit_val c) * 10 ^ length p" by (simp add: add_mult_distrib)
  also have "\<dots> \<le> foldl (\<lambda>n c. n * 10 + digit_val c) (m * 10 + digit_val c) p" by (rule Cons.IH)
  finally show ?case by simp
qed simp

lemma foldl_digits_less:
  "list_all is_digit p \<Longrightarrow> foldl (\<lambda>n c. n * 10 + digit_val c) m p < (m + 1) * 10 ^ length p"
proof (induction p arbitrary: m)
  case (Cons c p)
  have "foldl (\<lambda>n c. n * 10 + digit_val c) (m * 10 + digit_val c) p < (m * 10 + digit_val c + 1) * 10 ^ length p"
    using Cons by simp
  also have "\<dots> \<le> (m * 10 + 10) * 10 ^ length p"
    using Cons.prems digit_val_le [of c] by (intro mult_right_mono) auto
  also have "\<dots> = (m + 1) * 10 ^ length (c # p)" by (simp add: algebra_simps)
  finally show ?case by simp
qed simp

lemma longer_number_greater:
  assumes "list_all is_digit p" "list_all is_digit q" "length q < length p" "p \<noteq> []" "hd p \<noteq> CHR ''0''"
  shows "digits_val q < digits_val p"
proof -
  obtain c r where p: "p = c # r" using assms(4) by (cases p) auto
  have "is_digit c" "c \<noteq> CHR ''0''" using assms p by auto
  have "(of_char (CHR ''0'') :: nat) = 48" by simp
  then have "of_char c \<noteq> (48 :: nat)" using \<open>c \<noteq> CHR ''0''\<close> by (metis of_char_eq_iff)
  with \<open>is_digit c\<close> have "1 \<le> digit_val c" unfolding is_digit_def digit_val_def by linarith
  then have "1 * 10 ^ length r \<le> digit_val c * 10 ^ length r" by (rule mult_right_mono) simp
  also have "\<dots> \<le> digits_val p"
    using foldl_digits_ge [of "digit_val c" r] by (simp add: p digits_val_def)
  finally have "10 ^ length r \<le> digits_val p" by simp
  moreover have "digits_val q < 10 ^ length q"
    using foldl_digits_less [OF assms(2), of 0] by (simp add: digits_val_def)
  moreover have "(10 :: nat) ^ length q \<le> 10 ^ length r"
    using assms(3) p by (intro power_increasing) auto
  ultimately show ?thesis by linarith
qed

lemma digit_run_simps [simp]:
  "digit_part [] = []" "digit_rest [] = []"
  "digit_part (c # s) = (if is_digit c then c # digit_part s else [])"
  "digit_rest (c # s) = (if is_digit c then digit_rest s else c # s)"
  by (simp_all add: digit_part_def digit_rest_def)

lemma drop_zeros_run:
  "digit_part (drop_zeros s) = drop_zeros (digit_part s)" "digit_rest (drop_zeros s) = digit_rest s"
proof -
  have z: "is_digit (CHR ''0'')" by (simp add: is_digit_def)
  show "digit_part (drop_zeros s) = drop_zeros (digit_part s)" "digit_rest (drop_zeros s) = digit_rest s"
    by (induction s) (auto simp: drop_zeros_def z)
qed

lemma drop_run:
  "starts_digit (drop n s) \<longleftrightarrow> n < length (digit_part s)" if "n \<le> length (digit_part s)"
  using that
proof (induction s arbitrary: n)
  case (Cons c s)
  then show ?case by (cases n) (auto simp: starts_digit_def split: if_splits)
qed (simp add: starts_digit_def)

lemma drop_whole_run: "drop (length (digit_part s)) s = digit_rest s"
  unfolding digit_part_def digit_rest_def by (rule dropWhile_eq_drop [symmetric])

lemma run_digits: "list_all is_digit (digit_part s)"
  by (induction s) auto

lemma drop_zeros_head: "drop_zeros s \<noteq> [] \<Longrightarrow> hd (drop_zeros s) \<noteq> CHR ''0''"
  unfolding drop_zeros_def using hd_dropWhile [of "\<lambda>c. c = CHR ''0''" s] by blast

text \<open>After equal letters, the digit loop compares the values of the two runs.\<close>

lemma digit_round:
  fixes x y :: string
  defines "p \<equiv> digit_part (drop_zeros x)" and "q \<equiv> digit_part (drop_zeros y)"
  shows "(let (diff, a2, b2) = vr_digits (drop_zeros x) (drop_zeros y) 0 in
          if starts_digit a2 then Inl 1 else if starts_digit b2 then Inl (-1)
          else if diff \<noteq> 0 then Inl diff else Inr (a2, b2)) =
    (let c = cmp_int (int (digits_val (digit_part x))) (int (digits_val (digit_part y))) in
     if c \<noteq> 0 then Inl c else Inr (digit_rest x, digit_rest y))"
proof -
  have val: "digits_val (digit_part x) = digits_val p" "digits_val (digit_part y) = digits_val q"
    by (simp_all add: p_def q_def drop_zeros_run digits_val_drop_zeros)
  have hd: "u \<noteq> [] \<Longrightarrow> hd u \<noteq> CHR ''0''" if "u = p \<or> u = q" for u
    using that drop_zeros_head by (auto simp: p_def q_def drop_zeros_run)
  have dig: "list_all is_digit p" "list_all is_digit q" by (simp_all add: p_def q_def run_digits)
  have rounds: "vr_digits (drop_zeros x) (drop_zeros y) 0 =
      (first_diff (take (min (length p) (length q)) p) (take (min (length p) (length q)) q),
       drop (min (length p) (length q)) (drop_zeros x), drop (min (length p) (length q)) (drop_zeros y))"
    by (simp add: vr_digits_spec p_def q_def Let_def)
  have st: "starts_digit (drop (min (length p) (length q)) (drop_zeros x)) \<longleftrightarrow> length q < length p"
    "starts_digit (drop (min (length p) (length q)) (drop_zeros y)) \<longleftrightarrow> length p < length q"
    unfolding p_def q_def by (auto simp: drop_run)
  consider "length q < length p" | "length p < length q" | "length p = length q" by linarith
  then show ?thesis
  proof cases
    case 1
    then have "digits_val q < digits_val p" using longer_number_greater [OF dig] hd by fastforce
    with 1 show ?thesis unfolding rounds Let_def prod.case st val by (simp add: cmp_int_def)
  next
    case 2
    then have "digits_val p < digits_val q" using longer_number_greater [OF dig(2,1)] hd by fastforce
    with 2 show ?thesis unfolding rounds Let_def prod.case st val by (simp add: cmp_int_def)
  next
    case 3
    have "cmp_int (int (digits_val p)) (int (digits_val q)) = first_diff p q"
      using first_diff_value [OF 3 dig, of 0 0] by (simp add: digits_val_def)
    moreover have "drop (length p) (drop_zeros x) = digit_rest x" "drop (length q) (drop_zeros y) = digit_rest y"
      unfolding p_def q_def by (simp_all only: drop_whole_run drop_zeros_run(2))
    ultimately show ?thesis using 3 st by (simp add: rounds val)
  qed
qed

subsection \<open>The whole loop\<close>

lemma cmp_parts_same_prefix [simp]: "cmp_parts (p @ xs) (p @ ys) = cmp_parts xs ys"
  by (induction p) (auto simp: cmp_int_def)

lemma cmp_parts_pad: "cmp_parts (xs @ replicate n 0) ys = cmp_parts xs ys"
proof -
  have zeros: "cmp_parts (replicate n 0) [] = 0" for n
    by (induction n) (auto simp: cmp_int_def)
  have nil: "cmp_parts (replicate n 0) ys = cmp_parts [] ys" for n ys
  proof (induction ys arbitrary: n)
    case (Cons y ys)
    then show ?case by (cases n) (auto simp: cmp_int_def)
  qed (simp add: zeros)
  show ?thesis
    by (induction xs ys rule: cmp_parts.induct) (auto simp: nil zeros)
qed

lemma version_key_segment: "cmp_parts (version_key a) ys = cmp_parts (segment a @ version_key (segment_rest a)) ys"
proof (cases "a = []")
  case True
  have "cmp_parts [0, 0] ys = cmp_parts [] ys"
    using cmp_parts_pad [of "[]" 2 ys] by (simp add: numeral_2_eq_2)
  with True show ?thesis
    by (simp add: version_key.simps [of "[]"] segment_def segment_rest_def digits_val_def)
qed (simp add: version_key.simps [of a])

lemma vr_round_key:
  assumes "nul_free a" "nul_free b"
  shows "case vr_round a b of
      Inl c \<Rightarrow> c \<noteq> 0 \<and> cmp_parts (segment a @ xs) (segment b @ ys) = c
    | Inr (a', b') \<Rightarrow> a' = segment_rest a \<and> b' = segment_rest b \<and> segment a = segment b"
proof -
  let ?da = "int (digits_val (digit_part (alpha_rest a)))" and ?db = "int (digits_val (digit_part (alpha_rest b)))"
  note key = vr_alpha_key [OF assms, of "?da # xs" "?db # ys"]
  show ?thesis
  proof (cases "vr_alpha a b")
    case (Inl c)
    with key show ?thesis by (simp add: vr_round_def segment_def)
  next
    case (Inr r)
    with key have r: "r = (alpha_rest a, alpha_rest b)"
      and same: "map char_order (alpha_part a) = map char_order (alpha_part b)" by auto
    have "vr_round a b = (let c = cmp_int ?da ?db in
        if c \<noteq> 0 then Inl c else Inr (segment_rest a, segment_rest b))"
      unfolding vr_round_def Inr r sum.case prod.case digit_round segment_rest_def ..
    then show ?thesis by (auto simp: Let_def segment_def same cmp_int_sign)
  qed
qed

lemma nul_free_rest: "nul_free a \<Longrightarrow> nul_free (segment_rest a)"
  unfolding nul_free_def segment_rest_def digit_rest_def alpha_rest_def
  by (auto dest: set_dropWhileD)

text \<open>The character loop of dpkg compares the keys.\<close>

lemma verrevcmp_key:
  "nul_free a \<Longrightarrow> nul_free b \<Longrightarrow> verrevcmp a b = cmp_parts (version_key a) (version_key b)"
proof (induction a b rule: verrevcmp.induct)
  case (1 a b)
  have keys: "cmp_parts (version_key a) (version_key b) =
      cmp_parts (segment a @ version_key (segment_rest a)) (segment b @ version_key (segment_rest b))"
    using version_key_segment [of a] version_key_segment [of b]
    by (metis parts_order.cmp_flip)
  note rnd = vr_round_key [OF "1.prems", of "version_key (segment_rest a)" "version_key (segment_rest b)"]
  show ?case
  proof (cases "a = [] \<and> b = []")
    case True
    then show ?thesis by (simp add: verrevcmp.simps [of "[]" "[]"] version_key.simps [of "[]"])
  next
    case False
    show ?thesis
    proof (cases "vr_round a b")
      case (Inl c)
      with rnd keys show ?thesis by (simp add: verrevcmp.simps [of a b] False)
    next
      case (Inr r)
      with rnd have r: "r = (segment_rest a, segment_rest b)" and same: "segment a = segment b" by auto
      have "verrevcmp (segment_rest a) (segment_rest b) =
          cmp_parts (version_key (segment_rest a)) (version_key (segment_rest b))"
        using "1.IH" [OF False Inr r [symmetric]] "1.prems" by (simp add: nul_free_rest)
      then show ?thesis using Inr r keys same by (simp add: verrevcmp.simps [of a b] False)
    qed
  qed
qed

section \<open>The orders of the schemes\<close>

interpretation dpkg_order: version_order "\<lambda>a b. cmp_parts (version_key a) (version_key b)"
  by (rule version_order_key [OF parts_order.version_order_axioms])

text \<open>The parts of a version that the comparison reads hold no NUL byte (the end of a C string,
  to which \<open>verrevcmp\<close> gives the weight of a digit).\<close>

definition debian_clean :: "debian_version \<Rightarrow> bool" where
  "debian_clean v \<longleftrightarrow> nul_free (dv_upstream v) \<and> nul_free (dv_revision v)"

definition debian_key_compare :: "debian_version \<Rightarrow> debian_version \<Rightarrow> int" where
  "debian_key_compare v w =
     (if cmp_int (dv_epoch v) (dv_epoch w) \<noteq> 0 then cmp_int (dv_epoch v) (dv_epoch w)
      else if cmp_parts (version_key (dv_upstream v)) (version_key (dv_upstream w)) \<noteq> 0
      then cmp_parts (version_key (dv_upstream v)) (version_key (dv_upstream w))
      else cmp_parts (version_key (dv_revision v)) (version_key (dv_revision w)))"

interpretation debian_order: version_order debian_key_compare
proof -
  have up: "version_order (\<lambda>v w. cmp_parts (version_key (dv_upstream v)) (version_key (dv_upstream w)))"
    and rev: "version_order (\<lambda>v w. cmp_parts (version_key (dv_revision v)) (version_key (dv_revision w)))"
    and ep: "version_order (\<lambda>v w. cmp_int (dv_epoch v) (dv_epoch w))"
    by (rule version_order_key [OF dpkg_order.version_order_axioms]
        version_order_key [OF int_order.version_order_axioms])+
  show "version_order debian_key_compare"
    using version_order_lex [OF ep version_order_lex [OF up rev]]
    unfolding debian_key_compare_def .
qed

lemma debian_compare_key:
  "debian_clean v \<Longrightarrow> debian_clean w \<Longrightarrow> debian_compare v w = debian_key_compare v w"
  by (simp add: debian_compare_def debian_key_compare_def debian_clean_def verrevcmp_key)

text \<open>PEP 440 versions are compared by a tuple of numbers after the release segments.\<close>

lemma first_nonzero_lex:
  "first_nonzero [a, b, c, d] = (if a \<noteq> 0 then a else if b \<noteq> 0 then b else if c \<noteq> 0 then c else d)"
  by simp

interpretation pep440_order: version_order pep440_compare
proof -
  have i: "version_order (\<lambda>v w. cmp_int (k v) (k w))" for k :: "pep440_version \<Rightarrow> int"
    by (rule version_order_key [OF int_order.version_order_axioms])
  have p: "version_order (\<lambda>v w. cmp_parts (pv_release v) (pv_release w))"
    by (rule version_order_key [OF parts_order.version_order_axioms])
  let ?k1 = "\<lambda>v. fst (fst (pep440_key v))" and ?k2 = "\<lambda>v. snd (fst (pep440_key v))"
    and ?k3 = "\<lambda>v. fst (snd (pep440_key v))" and ?k4 = "\<lambda>v. snd (snd (pep440_key v))"
  note lex = version_order_lex [OF i [of pv_epoch] version_order_lex [OF p version_order_lex [OF i [of ?k1]
    version_order_lex [OF i [of ?k2] version_order_lex [OF i [of ?k3] i [of ?k4]]]]]]
  have "pep440_compare v w =
      (if cmp_int (pv_epoch v) (pv_epoch w) \<noteq> 0 then cmp_int (pv_epoch v) (pv_epoch w)
       else if cmp_parts (pv_release v) (pv_release w) \<noteq> 0 then cmp_parts (pv_release v) (pv_release w)
       else if cmp_int (?k1 v) (?k1 w) \<noteq> 0 then cmp_int (?k1 v) (?k1 w)
       else if cmp_int (?k2 v) (?k2 w) \<noteq> 0 then cmp_int (?k2 v) (?k2 w)
       else if cmp_int (?k3 v) (?k3 w) \<noteq> 0 then cmp_int (?k3 v) (?k3 w)
       else cmp_int (?k4 v) (?k4 w))" for v w
    by (simp only: pep440_compare_def Let_def case_prod_beta first_nonzero_lex)
  then have "pep440_compare = (\<lambda>v w.
      (if cmp_int (pv_epoch v) (pv_epoch w) \<noteq> 0 then cmp_int (pv_epoch v) (pv_epoch w)
       else if cmp_parts (pv_release v) (pv_release w) \<noteq> 0 then cmp_parts (pv_release v) (pv_release w)
       else if cmp_int (?k1 v) (?k1 w) \<noteq> 0 then cmp_int (?k1 v) (?k1 w)
       else if cmp_int (?k2 v) (?k2 w) \<noteq> 0 then cmp_int (?k2 v) (?k2 w)
       else if cmp_int (?k3 v) (?k3 w) \<noteq> 0 then cmp_int (?k3 v) (?k3 w)
       else cmp_int (?k4 v) (?k4 w)))" by (intro ext)
  with lex show "version_order pep440_compare" by simp
qed

lemma alpha_split: "alpha_part s @ alpha_rest s = s"
  by (simp add: alpha_part_def alpha_rest_def)

lemma digit_split: "digit_part s @ digit_rest s = s"
  by (simp add: digit_part_def digit_rest_def)

lemma tilde_segment:
  assumes "alpha_rest s \<noteq> []" "\<not> is_digit c"
  shows "segment (s @ c # t) = segment s" "segment_rest (s @ c # t) = segment_rest s @ c # t"
proof -
  have al: "alpha_part (s @ c # t) = alpha_part s" "alpha_rest (s @ c # t) = alpha_rest s @ c # t"
    using assms(1) by (induction s) (auto split: if_splits)
  have "digit_part (u @ c # t) = digit_part u" "digit_rest (u @ c # t) = digit_rest u @ c # t" for u
    using assms(2) by (induction u) auto
  with al show "segment (s @ c # t) = segment s" "segment_rest (s @ c # t) = segment_rest s @ c # t"
    by (simp_all add: segment_def segment_rest_def)
qed

lemma tilde_key: "cmp_parts (version_key (s @ CHR ''~'' # t)) (version_key s) = -1"
proof (induction s rule: version_key.induct)
  case (1 s)
  have tilde: "\<not> is_digit (CHR ''~'')" "char_order (CHR ''~'') = -1"
    by (simp_all add: is_digit_def char_order_def)
  show ?case
  proof (cases "alpha_rest s = []")
    case True
    then have s: "alpha_part s = s" using alpha_split [of s] by simp
    have "alpha_part (s @ CHR ''~'' # t) = s @ CHR ''~'' # alpha_part t"
      using True by (induction s) (auto simp: tilde split: if_splits)
    then obtain r where "version_key (s @ CHR ''~'' # t) = map char_order s @ (-1) # r"
      by (simp add: version_key.simps [of "s @ CHR ''~'' # t"] segment_def tilde)
    moreover have "version_key s = [] \<and> s = [] \<or> (\<exists>r. version_key s = map char_order s @ 0 # r)"
      using s by (simp add: version_key.simps [of s] segment_def)
    ultimately show ?thesis by (auto simp: cmp_int_def)
  next
    case False
    then have "s \<noteq> []" by auto
    with "1.IH" False tilde_segment [OF False tilde(1), of t] show ?thesis
      by (simp add: version_key.simps [of s] version_key.simps [of "s @ CHR ''~'' # t"])
  qed
qed

section \<open>What the schemes guarantee\<close>

text \<open>dpkg versions (without NUL bytes) are totally preordered by their comparison: swapping
  the versions flips its sign, and being at most another is transitive.\<close>

theorem debian_total_order:
  assumes "debian_clean a" "debian_clean b" "debian_clean c"
    "debian_compare a b \<le> 0" "debian_compare b c \<le> 0"
  shows "debian_compare a c \<le> 0 \<and> debian_compare b a = - debian_compare a b \<and> debian_compare a b \<in> {-1, 0, 1}"
  using assms debian_order.cmp_flip [of b a] debian_order.cmp_sign [of a b] debian_order.cmp_trans [of a b c]
  by (simp only: debian_compare_key)

definition dv :: "string \<Rightarrow> string \<Rightarrow> debian_version" where
  "dv up r = \<lparr>dv_text = up, dv_epoch = 0, dv_upstream = up, dv_revision = r\<rparr>"

theorem debian_total_order_witness:
  "debian_compare (dv ''1.2~rc1'' ''1'') (dv ''1.10'' []) \<le> 0"
proof -
  have "debian_clean (dv ''1.2~rc1'' ''1'')" "debian_clean (dv ''1.2'' ''1'')" "debian_clean (dv ''1.10'' [])"
    by (simp_all add: debian_clean_def nul_free_def dv_def)
  moreover have "debian_compare (dv ''1.2~rc1'' ''1'') (dv ''1.2'' ''1'') \<le> 0"
    "debian_compare (dv ''1.2'' ''1'') (dv ''1.10'' []) \<le> 0" by code_simp+
  ultimately show ?thesis
    using debian_total_order [of "dv ''1.2~rc1'' ''1''" "dv ''1.2'' ''1''" "dv ''1.10'' []"] by blast
qed

text \<open>In dpkg's order a tilde suffix sorts before the version it is added to, so a
  prerelease \<open>1.2~rc1\<close> is older than \<open>1.2\<close>, whatever the two parts are.\<close>

theorem debian_tilde_sorts_before:
  assumes "nul_free s" "nul_free t"
  shows "verrevcmp (s @ CHR ''~'' # t) s = -1 \<and> verrevcmp s (s @ CHR ''~'' # t) = 1"
proof -
  have free: "nul_free (s @ CHR ''~'' # t)" using assms by (simp add: nul_free_def)
  show ?thesis
    using verrevcmp_key [OF free assms(1)] verrevcmp_key [OF assms(1) free] tilde_key [of s t]
      parts_order.cmp_flip [of "version_key s" "version_key (s @ CHR ''~'' # t)"] by simp
qed

theorem debian_tilde_sorts_before_witness:
  "verrevcmp ''1.2~rc1'' ''1.2'' = -1 \<and> verrevcmp ''1.2'' ''1.2~rc1'' = 1"
  using debian_tilde_sorts_before [of "''1.2''" "''rc1''"] by (simp add: nul_free_def)

text \<open>PEP 440 versions are totally preordered by their comparison: swapping the versions
  flips its sign, and being at most another is transitive.\<close>

theorem pep440_total_order:
  assumes "pep440_compare a b \<le> 0" "pep440_compare b c \<le> 0"
  shows "pep440_compare a c \<le> 0 \<and> pep440_compare b a = - pep440_compare a b \<and> pep440_compare a b \<in> {-1, 0, 1}"
  using assms pep440_order.cmp_trans [of a b c] pep440_order.cmp_flip [of b a] pep440_order.cmp_sign [of a b] by simp

definition pv :: "int list \<Rightarrow> (int \<times> int) option \<Rightarrow> int option \<Rightarrow> pep440_version" where
  "pv rel pre dev = \<lparr>pv_text = [], pv_epoch = 0, pv_release = rel, pv_pre = pre, pv_post = None, pv_dev = dev\<rparr>"

theorem pep440_total_order_witness:
  "pep440_compare (pv [1, 2] None (Some 1)) (pv [1, 2, 0] None None) \<le> 0"
proof -
  have "pep440_compare (pv [1, 2] None (Some 1)) (pv [1, 2] (Some (2, 1)) None) \<le> 0"
    "pep440_compare (pv [1, 2] (Some (2, 1)) None) (pv [1, 2, 0] None None) \<le> 0"
    by (simp_all add: pep440_compare_def pv_def pep440_key_def cmp_int_def)
  then show ?thesis
    using pep440_total_order [of "pv [1, 2] None (Some 1)" "pv [1, 2] (Some (2, 1)) None" "pv [1, 2, 0] None None"]
    by blast
qed

text \<open>Loose prerelease suffixes are not ordered: a number above \<open>2^63\<close> fails \<open>strconv.Atoi\<close> and
  is compared as text, so that three suffixes compare in a circle.\<close>

theorem compare_pre_cycle:
  "compare_pre ''9'' ''10'' = -1 \<and> compare_pre ''10'' ''10000000000000000000'' = -1 \<and>
   compare_pre ''10000000000000000000'' ''9'' = -1"
  by (simp add: compare_pre_def is_digit_def Let_def compare_token_def atoi_def take_sign_def signed_def
      digits_val_def digit_val_def cmp_string_def cmp_int_def)

end
