(* ===== verification/Kahn.thy ===== *)
theory Kahn
  imports SF_Prelude "HOL-Library.AList"
begin

text \<open>
  The topological loop that four routines of the program write out: the Flux traversal
  (\<^verbatim>\<open>kahn\<close>), \<^verbatim>\<open>TopoSort\<close>, \<^verbatim>\<open>BuildOrder\<close> and \<^verbatim>\<open>PerformOrder\<close>. They differ in the end of the
  queue they pop, in whether the queue is kept sorted, in which dependents they skip and in
  what they record for a node; these are the fields of \<open>kahn_config\<close>.

  A Go \<^verbatim>\<open>map[K]int\<close> is an association list: reading an absent key gives zero, and decrementing
  it adds the key. The loop ends on every input, consistent or not: each push takes a key out of
  the positive ones. The locale \<open>kahn_graph\<close> states when the reverse edges fit the dependencies,
  and proves there what the loop computes.
\<close>

section \<open>The loop\<close>

definition degree :: "('k \<times> int) list \<Rightarrow> 'k \<Rightarrow> int" where
  "degree indeg k = (case map_of indeg k of None \<Rightarrow> 0 | Some n \<Rightarrow> n)"

record ('k, 'x) kahn_config =
  kc_lifo :: bool
  kc_sort :: "('k \<Rightarrow> 'k \<Rightarrow> bool) option"
  kc_skip :: "'k list \<Rightarrow> 'k \<Rightarrow> bool"
  kc_visit :: "'k \<Rightarrow> 'x \<Rightarrow> 'x"
  kc_succs :: "'k \<Rightarrow> 'k list"

definition enqueue :: "('k \<Rightarrow> 'k \<Rightarrow> bool) option \<Rightarrow> 'k list \<Rightarrow> 'k \<Rightarrow> 'k list" where
  "enqueue lt q k = (case lt of None \<Rightarrow> q @ [k] | Some f \<Rightarrow> sort_slice f (q @ [k]))"

fun relax :: "('k \<Rightarrow> bool) \<Rightarrow> ('k \<Rightarrow> 'k \<Rightarrow> bool) option \<Rightarrow> 'k list \<Rightarrow> ('k \<times> int) list \<Rightarrow> 'k list
    \<Rightarrow> ('k \<times> int) list \<times> 'k list" where
  "relax skip lt [] indeg q = (indeg, q)"
| "relax skip lt (d # ds) indeg q =
     (if skip d then relax skip lt ds indeg q
      else
        (let n = degree indeg d - 1; indeg' = AList.update d n indeg in
         relax skip lt ds indeg' (if n = 0 then enqueue lt q d else q)))"

definition pop :: "bool \<Rightarrow> 'k list \<Rightarrow> 'k \<times> 'k list" where
  "pop lifo q = (if lifo then (last q, butlast q) else (hd q, tl q))"

lemma length_enqueue [simp]: "length (enqueue lt q k) = Suc (length q)"
  by (simp add: enqueue_def split: option.splits)

lemma mset_enqueue [simp]: "mset (enqueue lt q k) = add_mset k (mset q)"
  by (simp add: enqueue_def split: option.splits)

lemma set_enqueue [simp]: "set (enqueue lt q k) = insert k (set q)"
  by (metis mset_enqueue set_mset_add_mset_insert set_mset_mset)

lemma distinct_enqueue [simp]: "distinct (enqueue lt q k) \<longleftrightarrow> k \<notin> set q \<and> distinct q"
  using mset_eq_imp_distinct_iff [of "enqueue lt q k" "k # q"] by simp

lemma pop_mset: "q \<noteq> [] \<Longrightarrow> pop lifo q = (k, q') \<Longrightarrow> mset q = add_mset k (mset q')"
proof (cases lifo)
  case True
  moreover assume "q \<noteq> []" "pop lifo q = (k, q')"
  ultimately show ?thesis by (cases q rule: rev_cases) (auto simp: pop_def)
next
  case False
  moreover assume "q \<noteq> []" "pop lifo q = (k, q')"
  ultimately show ?thesis by (cases q) (auto simp: pop_def)
qed

lemma degree_update [simp]: "degree (AList.update d n indeg) k = (if k = d then n else degree indeg k)"
  by (simp add: degree_def update_conv)

definition positives :: "('k \<times> int) list \<Rightarrow> nat" where
  "positives indeg = length (filter (\<lambda>(k, n). n > 0) indeg)"

lemma positives_decrement:
  "positives (AList.update d (degree indeg d - 1) indeg) + (if degree indeg d = 1 then 1 else 0) \<le> positives indeg"
  by (induction indeg) (auto simp: positives_def degree_def split: if_splits)

lemma relax_measure:
  "relax skip lt ds indeg q = (indeg', q') \<Longrightarrow> positives indeg' + length q' \<le> positives indeg + length q"
proof (induction ds arbitrary: indeg q)
  case (Cons d ds)
  show ?case
  proof (cases "skip d")
    case False
    with Cons.prems have "relax skip lt ds (AList.update d (degree indeg d - 1) indeg)
        (if degree indeg d - 1 = 0 then enqueue lt q d else q) = (indeg', q')" by (simp add: Let_def)
    from Cons.IH [OF this] positives_decrement [of d indeg] show ?thesis by (auto split: if_splits)
  qed (use Cons in simp)
qed simp

function kahn_loop :: "('k, 'x) kahn_config \<Rightarrow> 'k list \<Rightarrow> 'x \<Rightarrow> ('k \<times> int) list \<Rightarrow> 'k list
    \<Rightarrow> 'k list \<times> 'x \<times> ('k \<times> int) list" where
  "kahn_loop C out x indeg q =
     (if q = [] then (out, x, indeg)
      else
        (case pop (kc_lifo C) q of (k, q1) \<Rightarrow>
          (case relax (kc_skip C (out @ [k])) (kc_sort C) (kc_succs C k) indeg q1 of (indeg2, q2) \<Rightarrow>
            kahn_loop C (out @ [k]) (kc_visit C k x) indeg2 q2)))"
  by pat_completeness auto

termination
proof (relation "measure (\<lambda>(C, out, x, indeg, q). positives indeg + length q)", goal_cases)
  case (2 C out x indeg q k q1 indeg2 q2)
  then have "mset q = add_mset k (mset q1)" by (metis pop_mset)
  then have "length q = Suc (length q1)" by (metis size_add_mset size_mset)
  with 2(3) [symmetric] relax_measure [of "kc_skip C (out @ [k])" "kc_sort C" "kc_succs C k" indeg q1 indeg2 q2]
  show ?case by simp
qed simp

declare kahn_loop.simps [simp del]

section \<open>What the loop computes\<close>

text \<open>The nodes that can be placed: those all of whose dependencies can.\<close>

inductive placeable :: "'k set \<Rightarrow> ('k \<Rightarrow> 'k list) \<Rightarrow> 'k \<Rightarrow> bool" for nodes deps where
  place: "k \<in> nodes \<Longrightarrow> (\<And>d. d \<in> set (deps k) \<Longrightarrow> placeable nodes deps d) \<Longrightarrow> placeable nodes deps k"

text \<open>In an order, every node comes after its dependencies.\<close>

definition topological :: "('k \<Rightarrow> 'k list) \<Rightarrow> 'k list \<Rightarrow> bool" where
  "topological deps ks \<longleftrightarrow> (\<forall>i < length ks. set (deps (ks ! i)) \<subseteq> set (take i ks))"

text \<open>The contract of the reverse edges: \<open>succs\<close> lists a node as often as it names the
  dependency, and only nodes outside the graph, or already placed, are skipped.\<close>

locale kahn_graph =
  fixes nodes :: "'k set"
    and deps :: "'k \<Rightarrow> 'k list"
    and C :: "('k, 'x) kahn_config"
  assumes finite_nodes: "finite nodes"
    and deps_nodes: "k \<in> nodes \<Longrightarrow> set (deps k) \<subseteq> nodes"
    and succs_deps: "d \<in> nodes \<Longrightarrow> k \<in> nodes \<Longrightarrow> count_list (kc_succs C d) k = count_list (deps k) d"
    and live: "k \<in> nodes \<Longrightarrow> k \<notin> set out \<Longrightarrow> \<not> kc_skip C out k"
    and outside: "d \<in> nodes \<Longrightarrow> k \<in> set (kc_succs C d) \<Longrightarrow> k \<in> nodes \<or> kc_skip C out k"
begin

definition missing :: "'k list \<Rightarrow> 'k \<Rightarrow> 'k list" where
  "missing out k = filter (\<lambda>d. d \<notin> set out) (deps k)"

definition waiting :: "'k list \<Rightarrow> ('k \<times> int) list \<Rightarrow> 'k list \<Rightarrow> bool" where
  "waiting out indeg q \<longleftrightarrow>
     distinct (out @ q) \<and> set (out @ q) \<subseteq> nodes \<and> topological deps out \<and>
     (\<forall>k \<in> nodes - set out. degree indeg k = int (length (missing out k)) \<and> (k \<in> set q \<longleftrightarrow> degree indeg k = 0))"

lemma missing_snoc: "length (missing (out @ [d]) k) = length (missing out k) - (if d \<in> set out then 0 else count_list (deps k) d)"
proof -
  have "length (filter (\<lambda>e. e \<notin> set out \<and> e \<noteq> d) xs) + (if d \<in> set out then 0 else count_list xs d)
      = length (filter (\<lambda>e. e \<notin> set out) xs)" for xs
    by (induction xs) auto
  from this [of "deps k"] show ?thesis by (auto simp: missing_def conj_commute)
qed

lemma count_le_missing: "d \<notin> set out \<Longrightarrow> count_list (deps k) d \<le> length (missing out k)"
proof -
  assume "d \<notin> set out"
  then have "count_list xs d \<le> length (filter (\<lambda>d. d \<notin> set out) xs)" for xs
    by (induction xs) auto
  then show ?thesis by (simp add: missing_def)
qed

end

text \<open>One round of the inner loop: every dependent that is not skipped loses its edges, and
  those that reach zero are pushed once.\<close>

lemma relax_degrees:
  assumes "relax skip lt ds indeg q = (indeg', q')"
    and "list_all (\<lambda>k. skip k \<or> int (count_list ds k) \<le> degree indeg k \<and> k \<notin> set q) ds" "distinct q"
  shows "degree indeg' k = (if skip k then degree indeg k else degree indeg k - int (count_list ds k))"
    and "distinct q'"
    and "set q' = set q \<union> {k \<in> set ds. \<not> skip k \<and> degree indeg k = int (count_list ds k)}"
  using assms
proof (atomize (full), induction ds arbitrary: indeg q)
  case Nil
  then show ?case by simp
next
  case (Cons d ds)
  show ?case
  proof (cases "skip d")
    case True
    then have "relax skip lt ds indeg q = (indeg', q')" using Cons.prems by simp
    moreover have "list_all (\<lambda>k. skip k \<or> int (count_list ds k) \<le> degree indeg k \<and> k \<notin> set q) ds"
      using Cons.prems True by (auto simp: list_all_iff split: if_splits)
    ultimately show ?thesis using Cons.IH [of indeg q] Cons.prems True by auto
  next
    case False
    define n where "n = degree indeg d - 1"
    define indeg2 where "indeg2 = AList.update d n indeg"
    define q2 where "q2 = (if n = 0 then enqueue lt q d else q)"
    have run: "relax skip lt ds indeg2 q2 = (indeg', q')"
      using Cons.prems False by (simp add: Let_def n_def indeg2_def q2_def)
    have n: "int (count_list ds d) \<le> n" "d \<notin> set q" using Cons.prems False by (auto simp: n_def)
    have zero: "d \<notin> set ds" if "n = 0" using n that by (simp add: count_list_0_iff)
    have deg: "degree indeg2 k = (if k = d then n else degree indeg k)" for k by (simp add: indeg2_def)
    have pre: "list_all (\<lambda>k. skip k \<or> int (count_list ds k) \<le> degree indeg2 k \<and> k \<notin> set q2) ds"
      using Cons.prems(2) n zero by (auto simp: list_all_iff deg q2_def split: if_splits)
    have "distinct q2" using Cons.prems(3) n by (simp add: q2_def)
    note IH = Cons.IH [OF run pre this]
    have q2: "set q2 = set q \<union> (if n = 0 then {d} else {})" by (simp add: q2_def)
    have "set q' = set q \<union> {k \<in> set (d # ds). \<not> skip k \<and> degree indeg k = int (count_list (d # ds) k)}"
    proof -
      have "(k \<in> set q2 \<or> k \<in> set ds \<and> \<not> skip k \<and> degree indeg2 k = int (count_list ds k)) \<longleftrightarrow>
          (k \<in> set q \<or> k \<in> set (d # ds) \<and> \<not> skip k \<and> degree indeg k = int (count_list (d # ds) k))" for k
        using False zero n by (cases "k = d") (auto simp: q2 deg n_def count_list_0_iff)
      with IH show ?thesis by blast
    qed
    with IH show ?thesis using False by (auto simp: deg n_def)
  qed
qed

context kahn_graph
begin

lemma in_degree_count:
  assumes "waiting out indeg q" "d \<in> set q" "k \<in> nodes - set out"
  shows "int (count_list (kc_succs C d) k) \<le> degree indeg k"
    and "degree indeg k - int (count_list (kc_succs C d) k) = int (length (missing (out @ [d]) k))"
proof -
  have d: "d \<in> nodes" "d \<notin> set out" using assms(1,2) by (auto simp: waiting_def)
  have deg: "degree indeg k = int (length (missing out k))" using assms(1,3) by (simp add: waiting_def)
  have count: "count_list (kc_succs C d) k = count_list (deps k) d" using succs_deps d assms(3) by simp
  show "int (count_list (kc_succs C d) k) \<le> degree indeg k"
    using count_le_missing [OF d(2), of k] by (simp add: deg count)
  then show "degree indeg k - int (count_list (kc_succs C d) k) = int (length (missing (out @ [d]) k))"
    using d(2) by (simp add: deg count missing_snoc)
qed

text \<open>A ready node depends on no unplaced node.\<close>

lemma ready_deps:
  assumes "waiting out indeg q" "k \<in> set q"
  shows "set (deps k) \<subseteq> set out"
proof -
  have "k \<in> nodes - set out" using assms by (auto simp: waiting_def)
  with assms have "length (missing out k) = 0" by (simp add: waiting_def)
  then show ?thesis by (auto simp: missing_def filter_empty_conv)
qed

lemma placed_deps: "waiting out indeg q \<Longrightarrow> k \<in> set out \<Longrightarrow> set (deps k) \<subseteq> set out"
  unfolding waiting_def topological_def by (metis in_set_conv_nth order_trans set_take_subset)

lemma step_waiting:
  assumes "waiting out indeg q" "q \<noteq> []" "pop lifo q = (d, q1)"
    and "relax (kc_skip C (out @ [d])) lt (kc_succs C d) indeg q1 = (indeg2, q2)"
  shows "waiting (out @ [d]) indeg2 q2"
proof -
  let ?skip = "kc_skip C (out @ [d])"
  have mq: "mset q = add_mset d (mset q1)" by (rule pop_mset [OF assms(2,3)])
  then have q: "set q = insert d (set q1)" by (metis set_mset_add_mset_insert set_mset_mset)
  have dist: "distinct (d # q1)" using assms(1) mq mset_eq_imp_distinct_iff [of q "d # q1"] by (simp add: waiting_def)
  have d: "d \<in> nodes" "d \<notin> set out" "set (deps d) \<subseteq> set out"
    using assms(1) q ready_deps [OF assms(1), of d] by (auto simp: waiting_def)
  have succ: "k \<in> nodes - set out \<and> k \<noteq> d \<and> k \<notin> set q1" if "k \<in> set (kc_succs C d)" "\<not> ?skip k" for k
  proof -
    have k: "k \<in> nodes" using outside [OF d(1) that(1)] that(2) by blast
    have "count_list (deps k) d \<noteq> 0" using that(1) succs_deps [OF d(1) k] by (metis count_list_0_iff)
    then have "d \<in> set (deps k)" by (simp add: count_list_0_iff)
    then show ?thesis
      using k d q placed_deps [OF assms(1), of k] ready_deps [OF assms(1), of k] by auto
  qed
  have pre: "list_all (\<lambda>k. ?skip k \<or> int (count_list (kc_succs C d) k) \<le> degree indeg k \<and> k \<notin> set q1) (kc_succs C d)"
    using succ in_degree_count(1) [OF assms(1), of d] q by (auto simp: list_all_iff)
  note rel = relax_degrees [OF assms(4) pre]
  have deg: "degree indeg2 k = int (length (missing (out @ [d]) k))" if "k \<in> nodes - set (out @ [d])" for k
    using that rel(1) [of k] live [of k "out @ [d]"] dist in_degree_count(2) [OF assms(1), of d k] q by simp
  have "k \<in> set q2 \<longleftrightarrow> degree indeg2 k = 0" if k: "k \<in> nodes - set (out @ [d])" for k
  proof -
    have "k \<in> set q2 \<longleftrightarrow> k \<in> set q1 \<or> k \<in> set (kc_succs C d) \<and> degree indeg2 k = 0"
      using k rel dist live [of k "out @ [d]"] by auto
    moreover have "k \<in> set q1 \<longleftrightarrow> degree indeg k = 0" using assms(1) k q by (auto simp: waiting_def)
    moreover have "k \<in> set q1 \<Longrightarrow> degree indeg2 k = 0"
      using succ live [of k "out @ [d]"] k rel(1) [of k] dist calculation(2) by (auto simp: count_list_0_iff)
    moreover have "k \<notin> set (kc_succs C d) \<Longrightarrow> degree indeg2 k = degree indeg k"
      using rel(1) [of k] dist by (simp add: count_list_0_iff)
    ultimately show ?thesis by auto
  qed
  moreover have "d \<notin> set q2" using rel(3) dist succ [of d] by auto
  then have "distinct ((out @ [d]) @ q2)"
    using rel(2,3) dist assms(1) q d succ by (auto simp: waiting_def)
  moreover have "set ((out @ [d]) @ q2) \<subseteq> nodes"
    using rel(3) assms(1) q d succ dist by (auto simp: waiting_def)
  moreover have "topological deps (out @ [d])"
    using assms(1) d(3) by (auto simp: waiting_def topological_def nth_append less_Suc_eq)
  ultimately show ?thesis using deg by (simp add: waiting_def)
qed

lemma loop_waiting:
  assumes "waiting out indeg q" "kahn_loop C out x indeg q = (out', x', indeg')"
  shows "waiting out' indeg' []"
proof -
  have "D = C \<Longrightarrow> waiting out indeg q \<Longrightarrow> kahn_loop D out x indeg q = (out', x', indeg') \<Longrightarrow> waiting out' indeg' []" for D
  proof (induction D out x indeg q rule: kahn_loop.induct)
    case (1 D out x indeg q)
    show ?case
    proof (cases "q = []")
      case True
      with "1.prems" show ?thesis by (simp add: kahn_loop.simps [of _ _ _ _ "[]"])
    next
      case False
      obtain k q1 where p: "pop (kc_lifo D) q = (k, q1)" by fastforce
      obtain indeg2 q2 where rl: "relax (kc_skip D (out @ [k])) (kc_sort D) (kc_succs D k) indeg q1 = (indeg2, q2)"
        by fastforce
      have w: "waiting (out @ [k]) indeg2 q2"
        using step_waiting [OF "1.prems"(2) False p] rl "1.prems"(1) by simp
      have run: "kahn_loop D (out @ [k]) (kc_visit D k x) indeg2 q2 = (out', x', indeg')"
        using "1.prems"(3) False p rl by (simp add: kahn_loop.simps [of D out])
      show ?thesis using "1.IH" [OF False p [symmetric] rl [symmetric] "1.prems"(1) w run] .
    qed
  qed
  with assms show ?thesis by blast
qed

text \<open>When the queue is empty, exactly the placeable nodes are out.\<close>

lemma waiting_placeable: "waiting out indeg [] \<Longrightarrow> set out = {k. placeable nodes deps k}"
proof (intro set_eqI iffI)
  assume w: "waiting out indeg []"
  have "i < length out \<Longrightarrow> placeable nodes deps (out ! i)" for i
  proof (induction i rule: less_induct)
    case (less i)
    have "out ! i \<in> nodes" using w less.prems by (auto simp: waiting_def)
    moreover have "set (deps (out ! i)) \<subseteq> set (take i out)"
      using w less.prems by (simp add: waiting_def topological_def)
    then have "placeable nodes deps d" if "d \<in> set (deps (out ! i))" for d
    proof -
      have "d \<in> set (take i out)" using \<open>set (deps (out ! i)) \<subseteq> set (take i out)\<close> that by blast
      then obtain j where "j < i" "out ! j = d" by (auto simp: in_set_conv_nth)
      then show ?thesis using less.IH [of j] less.prems by auto
    qed
    ultimately show ?case by (rule placeable.place)
  qed
  then show "k \<in> set out \<Longrightarrow> k \<in> {k. placeable nodes deps k}" for k
    by (auto simp: in_set_conv_nth)
  have "placeable nodes deps k \<Longrightarrow> k \<in> set out" for k
  proof (induction rule: placeable.induct)
    case (place k)
    show ?case
    proof (rule ccontr)
      assume "k \<notin> set out"
      with place.hyps(1) have "k \<in> nodes - set out" by simp
      with w have "degree indeg k = int (length (missing out k)) \<and> (k \<in> set [] \<longleftrightarrow> degree indeg k = 0)"
        unfolding waiting_def by blast
      then have "missing out k \<noteq> []" by auto
      then obtain d where "d \<in> set (deps k)" "d \<notin> set out" by (auto simp: missing_def filter_empty_conv)
      with place show False by blast
    qed
  qed
  then show "k \<in> {k. placeable nodes deps k} \<Longrightarrow> k \<in> set out" for k by blast
qed

end

text \<open>What the loop records is a fold over the nodes it placed.\<close>

lemma loop_visits:
  "kahn_loop C out x indeg q = (out', x', indeg') \<Longrightarrow>
     \<exists>ks. out' = out @ ks \<and> x' = foldl (\<lambda>x k. kc_visit C k x) x ks"
proof (induction C out x indeg q rule: kahn_loop.induct)
  case (1 C out x indeg q)
  show ?case
  proof (cases "q = []")
    case True
    with "1.prems" show ?thesis by (simp add: kahn_loop.simps [of _ _ _ _ "[]"])
  next
    case False
    obtain k q1 where p: "pop (kc_lifo C) q = (k, q1)" by fastforce
    obtain indeg2 q2 where rl: "relax (kc_skip C (out @ [k])) (kc_sort C) (kc_succs C k) indeg q1 = (indeg2, q2)"
      by fastforce
    have "kahn_loop C (out @ [k]) (kc_visit C k x) indeg2 q2 = (out', x', indeg')"
      using "1.prems" False p rl by (simp add: kahn_loop.simps [of C out])
    from "1.IH" [OF False p [symmetric] rl [symmetric] this]
    obtain ks where "out' = (out @ [k]) @ ks" "x' = foldl (\<lambda>x k. kc_visit C k x) (kc_visit C k x) ks" by blast
    then show ?thesis by (intro exI [of _ "k # ks"]) simp
  qed
qed

text \<open>Decrementing known keys keeps the keys of the map.\<close>

lemma relax_keys:
  "relax skip lt ds indeg q = (indeg', q') \<Longrightarrow> set ds \<subseteq> set (map fst indeg) \<Longrightarrow> map fst indeg' = map fst indeg"
proof (induction ds arbitrary: indeg q)
  case (Cons d ds)
  show ?case
  proof (cases "skip d")
    case False
    have keys: "map fst (AList.update d n indeg) = map fst indeg" for n
      using Cons.prems(2) by (simp add: update_keys)
    show ?thesis
      using Cons.IH [of "AList.update d (degree indeg d - 1) indeg"] Cons.prems False keys by (simp add: Let_def)
  qed (use Cons in simp)
qed simp

lemma loop_keys:
  "kahn_loop C out x indeg q = (out', x', indeg') \<Longrightarrow> (\<And>k. set (kc_succs C k) \<subseteq> set (map fst indeg)) \<Longrightarrow>
     map fst indeg' = map fst indeg"
proof (induction C out x indeg q rule: kahn_loop.induct)
  case (1 C out x indeg q)
  show ?case
  proof (cases "q = []")
    case True
    with "1.prems" show ?thesis by (simp add: kahn_loop.simps [of _ _ _ _ "[]"])
  next
    case False
    obtain k q1 where p: "pop (kc_lifo C) q = (k, q1)" by fastforce
    obtain indeg2 q2 where rl: "relax (kc_skip C (out @ [k])) (kc_sort C) (kc_succs C k) indeg q1 = (indeg2, q2)"
      by fastforce
    have run: "kahn_loop C (out @ [k]) (kc_visit C k x) indeg2 q2 = (out', x', indeg')"
      using "1.prems"(1) False p rl by (simp add: kahn_loop.simps [of C out])
    have keys: "map fst indeg2 = map fst indeg" by (rule relax_keys [OF rl "1.prems"(2)])
    show ?thesis
      using "1.IH" [OF False p [symmetric] rl [symmetric] run] "1.prems"(2) keys by (simp del: map_map)
  qed
qed

text \<open>Every node can be placed exactly when the dependencies have no cycle.\<close>

definition dep_edges :: "'k set \<Rightarrow> ('k \<Rightarrow> 'k list) \<Rightarrow> ('k \<times> 'k) set" where
  "dep_edges nodes deps = {(d, k). k \<in> nodes \<and> d \<in> set (deps k)}"

lemma placeable_acyclic:
  assumes "finite nodes" "\<And>k. k \<in> nodes \<Longrightarrow> set (deps k) \<subseteq> nodes"
  shows "(\<forall>k \<in> nodes. placeable nodes deps k) \<longleftrightarrow> acyclic (dep_edges nodes deps)"
proof
  assume all: "\<forall>k \<in> nodes. placeable nodes deps k"
  have step: "(x, x) \<notin> (dep_edges nodes deps)\<^sup>+" if "placeable nodes deps x" for x
    using that
  proof (induction rule: placeable.induct)
    case (place k)
    show ?case
    proof
      assume "(k, k) \<in> (dep_edges nodes deps)\<^sup>+"
      then obtain d where "(k, d) \<in> (dep_edges nodes deps)\<^sup>*" and d: "(d, k) \<in> dep_edges nodes deps"
        by (meson tranclD2)
      then have "(d, d) \<in> (dep_edges nodes deps)\<^sup>+" by (meson rtrancl_into_trancl2)
      with place d show False by (auto simp: dep_edges_def)
    qed
  qed
  have "x \<in> nodes" if "(x, x) \<in> (dep_edges nodes deps)\<^sup>+" for x
    using that by (auto simp: dep_edges_def elim: tranclE)
  with step all show "acyclic (dep_edges nodes deps)" by (auto simp: acyclic_def)
next
  assume "acyclic (dep_edges nodes deps)"
  moreover have "dep_edges nodes deps \<subseteq> nodes \<times> nodes" using assms(2) by (auto simp: dep_edges_def)
  then have "finite (dep_edges nodes deps)" using assms(1) finite_subset by blast
  ultimately have "wf (dep_edges nodes deps)" by (simp add: finite_acyclic_wf)
  then show "\<forall>k \<in> nodes. placeable nodes deps k"
  proof (intro ballI)
    fix k assume "k \<in> nodes"
    with \<open>wf (dep_edges nodes deps)\<close> show "placeable nodes deps k"
    proof (induction k)
      case (less k)
      have "placeable nodes deps d" if "d \<in> set (deps k)" for d
      proof (rule less.IH)
        show "(d, k) \<in> dep_edges nodes deps" using that less.prems by (simp add: dep_edges_def)
        show "d \<in> nodes" using that less.prems assms(2) by blast
      qed
      with less.prems show ?case by (rule placeable.place)
    qed
  qed
qed

text \<open>The other nodes are those on a cycle or behind one.\<close>

lemma placeable_mono: "placeable A deps k \<Longrightarrow> A \<subseteq> B \<Longrightarrow> placeable B deps k"
  by (induction rule: placeable.induct) (auto intro: placeable.place)

lemma placeable_no_cycle:
  "placeable nodes deps k \<Longrightarrow> (c, k) \<in> (dep_edges nodes deps)\<^sup>* \<Longrightarrow> (c, c) \<notin> (dep_edges nodes deps)\<^sup>+"
proof (induction arbitrary: c rule: placeable.induct)
  case (place k)
  let ?E = "dep_edges nodes deps"
  have dep: "(d, d) \<notin> ?E\<^sup>+ \<and> (\<forall>c. (c, d) \<in> ?E\<^sup>* \<longrightarrow> (c, c) \<notin> ?E\<^sup>+)" if "(d, k) \<in> ?E" for d
    using place.IH [of d] that by (auto simp: dep_edges_def)
  from place.prems show ?case
  proof (cases rule: rtranclE)
    case base
    show ?thesis
    proof
      assume "(c, c) \<in> ?E\<^sup>+"
      with base obtain d where "(k, d) \<in> ?E\<^sup>*" "(d, k) \<in> ?E" by (meson tranclD2)
      moreover from this have "(d, d) \<in> ?E\<^sup>+" by (meson rtrancl_into_trancl2)
      ultimately show False using dep by blast
    qed
  next
    case (step d)
    with dep show ?thesis by blast
  qed
qed

lemma unplaceable_behind_cycle:
  assumes fin: "finite nodes" and closed: "\<And>k. k \<in> nodes \<Longrightarrow> set (deps k) \<subseteq> nodes" and k: "k \<in> nodes"
  shows "\<not> placeable nodes deps k \<longleftrightarrow>
    (\<exists>c. (c, c) \<in> (dep_edges nodes deps)\<^sup>+ \<and> (c, k) \<in> (dep_edges nodes deps)\<^sup>*)"
proof
  let ?E = "dep_edges nodes deps"
  define A where "A = {x \<in> nodes. (x, k) \<in> ?E\<^sup>*}"
  assume "\<not> placeable nodes deps k"
  then have "\<not> placeable A deps k" using placeable_mono [of A deps k nodes] by (auto simp: A_def)
  moreover have "k \<in> A" using k by (simp add: A_def)
  moreover have "set (deps x) \<subseteq> A" if "x \<in> A" for x
    using that closed by (auto simp: A_def dep_edges_def intro: converse_rtrancl_into_rtrancl)
  moreover have "finite A" using fin by (simp add: A_def)
  ultimately have "\<not> acyclic (dep_edges A deps)" using placeable_acyclic by blast
  then obtain c where c: "(c, c) \<in> (dep_edges A deps)\<^sup>+" by (auto simp: acyclic_def)
  then have "c \<in> A" by (auto simp: dep_edges_def elim: tranclE)
  moreover have "dep_edges A deps \<subseteq> ?E" by (auto simp: dep_edges_def A_def)
  with c have "(c, c) \<in> ?E\<^sup>+" using trancl_mono by blast
  ultimately show "\<exists>c. (c, c) \<in> ?E\<^sup>+ \<and> (c, k) \<in> ?E\<^sup>*" by (auto simp: A_def)
next
  assume "\<exists>c. (c, c) \<in> (dep_edges nodes deps)\<^sup>+ \<and> (c, k) \<in> (dep_edges nodes deps)\<^sup>*"
  then show "\<not> placeable nodes deps k" using placeable_no_cycle by fast
qed

text \<open>All nodes have an order in which each comes after its dependencies only when there is no cycle.\<close>

lemma topological_placeable:
  assumes "topological deps ks" "set ks \<subseteq> nodes"
  shows "k \<in> set ks \<Longrightarrow> placeable nodes deps k"
proof -
  have "i < length ks \<Longrightarrow> placeable nodes deps (ks ! i)" for i
  proof (induction i rule: less_induct)
    case (less i)
    then have "placeable nodes deps d" if "d \<in> set (deps (ks ! i))" for d
      using that assms(1) by (fastforce simp: topological_def in_set_conv_nth)
    moreover have "ks ! i \<in> nodes" using less.prems assms(2) by auto
    ultimately show ?case by (rule placeable.place [rotated])
  qed
  then show "k \<in> set ks \<Longrightarrow> placeable nodes deps k" by (auto simp: in_set_conv_nth)
qed

lemma topological_acyclic:
  assumes "topological deps ks" "set ks = nodes" "\<And>k. k \<in> nodes \<Longrightarrow> set (deps k) \<subseteq> nodes"
  shows "acyclic (dep_edges nodes deps)"
  using placeable_acyclic [of nodes deps] topological_placeable [OF assms(1)] assms(2,3) by auto

lemma topological_sublist: "topological deps ks \<Longrightarrow> i < length ks \<Longrightarrow> d \<in> set (deps (ks ! i)) \<Longrightarrow> \<exists>j < i. ks ! j = d"
  unfolding topological_def by (fastforce simp: in_set_conv_nth)

end
