(* ===== verification/Go_Path.thy ===== *)
theory Go_Path
  imports SF_Prelude
begin

text \<open>
  Go's lexical path functions on a system whose separator is \<^verbatim>\<open>/\<close>: \<^verbatim>\<open>filepath.Clean\<close>,
  \<^verbatim>\<open>Join\<close>, \<^verbatim>\<open>Base\<close>, \<^verbatim>\<open>Dir\<close> and \<^verbatim>\<open>IsAbs\<close>. The lemmas say what a clean path looks like: no empty or
  \<^verbatim>\<open>.\<close> element, and \<^verbatim>\<open>..\<close> only as a prefix of a relative path, so that cleaning again changes
  nothing.
\<close>

abbreviation slash :: char where
  "slash \<equiv> CHR ''/''"

definition is_abs :: "string \<Rightarrow> bool" where
  "is_abs p \<longleftrightarrow> has_prefix p [slash]"

definition clean_step :: "bool \<Rightarrow> string list \<Rightarrow> string \<Rightarrow> string list" where
  "clean_step rooted out e =
     (if e = [] \<or> e = ''.'' then out
      else if e = ''..'' then
        (if out \<noteq> [] \<and> last out \<noteq> ''..'' then butlast out
         else if rooted then out
         else out @ [''..''])
      else out @ [e])"

definition clean_elems :: "bool \<Rightarrow> string list \<Rightarrow> string list" where
  "clean_elems rooted es = foldl (clean_step rooted) [] es"

definition path_of_elems :: "bool \<Rightarrow> string list \<Rightarrow> string" where
  "path_of_elems rooted es =
     (if rooted then slash # join [slash] es else if es = [] then ''.'' else join [slash] es)"

definition path_clean :: "string \<Rightarrow> string" where
  "path_clean p = path_of_elems (is_abs p) (clean_elems (is_abs p) (split_on slash p))"

text \<open>\<^verbatim>\<open>filepath.Join\<close>: the non-empty elements, joined and cleaned; nothing gives the empty path.\<close>

definition path_join :: "string list \<Rightarrow> string" where
  "path_join ps =
     (let es = filter (\<lambda>p. p \<noteq> []) ps in if es = [] then [] else path_clean (join [slash] es))"

definition path_base :: "string \<Rightarrow> string" where
  "path_base p =
     (if p = [] then ''.''
      else let q = rev (dropWhile (\<lambda>c. c = slash) (rev p)) in
        if q = [] then [slash] else last (split_on slash q))"

definition path_dir :: "string \<Rightarrow> string" where
  "path_dir p = path_clean (rev (dropWhile (\<lambda>c. c \<noteq> slash) (rev p)))"

section \<open>Clean elements\<close>

definition plain_elem :: "string \<Rightarrow> bool" where
  "plain_elem e \<longleftrightarrow> e \<noteq> [] \<and> e \<noteq> ''.'' \<and> e \<noteq> ''..'' \<and> slash \<notin> set e"

definition dotdot :: "string \<Rightarrow> bool" where
  "dotdot e \<longleftrightarrow> e = ''..''"

definition clean_list :: "bool \<Rightarrow> string list \<Rightarrow> bool" where
  "clean_list rooted es \<longleftrightarrow>
     (\<exists>n ps. es = replicate n ''..'' @ ps \<and> list_all plain_elem ps \<and> (rooted \<longrightarrow> n = 0))"

lemma last_replicate_plain:
  "list_all plain_elem ps \<Longrightarrow> replicate n ''..'' @ ps \<noteq> [] \<Longrightarrow>
     last (replicate n ''..'' @ ps) = ''..'' \<longleftrightarrow> ps = []"
  by (cases ps rule: rev_cases) (auto simp: plain_elem_def)

lemma clean_step_clean:
  assumes "clean_list rooted out" "slash \<notin> set e"
  shows "clean_list rooted (clean_step rooted out e)"
proof -
  obtain n ps where out: "out = replicate n ''..'' @ ps" "list_all plain_elem ps" "rooted \<longrightarrow> n = 0"
    using assms(1) by (auto simp: clean_list_def)
  have dd: "e = ''..'' \<Longrightarrow> ?thesis"
  proof (cases "ps = []")
    case True
    assume e: "e = ''..''"
    show ?thesis
    proof (cases "rooted \<or> n = 0")
      case True
      with e out \<open>ps = []\<close> show ?thesis
        by (cases rooted) (auto simp: clean_step_def clean_list_def intro: exI [of _ 1])
    next
      case False
      then have "clean_step rooted out e = replicate (Suc n) ''..''"
        using e out True by (auto simp: clean_step_def replicate_append_same)
      then show ?thesis using False unfolding clean_list_def by (intro exI [of _ "Suc n"] exI [of _ "[]"]) simp
    qed
  next
    case False
    assume e: "e = ''..''"
    have "clean_step rooted out e = replicate n ''..'' @ butlast ps"
      using e out False last_replicate_plain [OF out(2), of n] by (simp add: clean_step_def butlast_append)
    moreover have "list_all plain_elem (butlast ps)" using out(2) by (auto simp: list_all_iff dest: in_set_butlastD)
    ultimately show ?thesis using out(3) by (auto simp: clean_list_def)
  qed
  have "plain_elem e \<Longrightarrow> ?thesis"
    using out by (auto simp: clean_step_def clean_list_def plain_elem_def intro!: exI [of _ n] exI [of _ "ps @ [e]"])
  moreover have "e = [] \<or> e = ''.'' \<Longrightarrow> ?thesis" using assms(1) by (auto simp: clean_step_def)
  ultimately show ?thesis using dd assms(2) by (auto simp: plain_elem_def)
qed

lemma clean_elems_clean: "clean_list rooted (clean_elems rooted (split_on slash p))"
proof -
  have "list_all (\<lambda>e. slash \<notin> set e) es \<Longrightarrow> clean_list rooted out \<Longrightarrow>
      clean_list rooted (foldl (clean_step rooted) out es)" for es out
    by (induction es arbitrary: out) (auto intro: clean_step_clean)
  moreover have "clean_list rooted []" by (auto simp: clean_list_def)
  moreover have "list_all (\<lambda>e. slash \<notin> set e) (split_on slash p)"
    by (auto simp: list_all_iff split_on_no_sep)
  ultimately show ?thesis by (simp add: clean_elems_def)
qed

lemma foldl_clean_plain:
  "list_all plain_elem ps \<Longrightarrow> foldl (clean_step rooted) out ps = out @ ps"
  by (induction ps arbitrary: out) (auto simp: clean_step_def plain_elem_def)

lemma clean_elems_id: "clean_list rooted es \<Longrightarrow> clean_elems rooted es = es"
proof -
  assume "clean_list rooted es"
  then obtain n ps where es: "es = replicate n ''..'' @ ps" "list_all plain_elem ps" "rooted \<longrightarrow> n = 0"
    by (auto simp: clean_list_def)
  have "\<not> rooted \<Longrightarrow> foldl (clean_step rooted) (replicate m ''..'') (replicate n ''..'') = replicate (m + n) ''..''" for m
  proof (induction n arbitrary: m)
    case (Suc n)
    have "clean_step rooted (replicate m ''..'') ''..'' = replicate (Suc m) ''..''"
      using Suc.prems by (auto simp: clean_step_def replicate_append_same)
    with Suc.IH [OF Suc.prems, of "Suc m"] show ?case by (simp only: replicate_Suc foldl_Cons add_Suc_shift)
  qed simp
  from this [of 0] have "foldl (clean_step rooted) [] (replicate n ''..'') = replicate n ''..''"
    using es(3) by (cases rooted) auto
  then show ?thesis using foldl_clean_plain [OF es(2)] by (simp add: clean_elems_def es(1))
qed

lemma split_on_append_sep: "sep \<notin> set a \<Longrightarrow> split_on sep (a @ sep # b) = a # split_on sep b"
  by (induction a) auto

lemma split_on_plain: "sep \<notin> set a \<Longrightarrow> split_on sep a = [a]"
  by (induction a) auto

lemma split_on_join: "es \<noteq> [] \<Longrightarrow> list_all (\<lambda>e. sep \<notin> set e) es \<Longrightarrow> split_on sep (join [sep] es) = es"
proof (induction es)
  case (Cons e es)
  then show ?case by (cases es) (simp_all add: split_on_plain split_on_append_sep)
qed simp

lemma clean_list_elems: "clean_list rooted es \<Longrightarrow> list_all (\<lambda>e. slash \<notin> set e \<and> e \<noteq> []) es"
proof -
  assume "clean_list rooted es"
  then obtain n ps where es: "es = replicate n ''..'' @ ps" "list_all plain_elem ps"
    by (auto simp only: clean_list_def)
  have "list_all (\<lambda>e. slash \<notin> set e \<and> e \<noteq> []) (replicate n ''..'')" by (induction n) simp_all
  moreover have "list_all (\<lambda>e. slash \<notin> set e \<and> e \<noteq> []) ps"
    using es(2) by (rule list.pred_mono_strong) (simp only: plain_elem_def not_False_eq_True simp_thms)
  ultimately show ?thesis by (simp only: es list_all_append)
qed

lemma join_head: "es \<noteq> [] \<Longrightarrow> hd es \<noteq> [] \<Longrightarrow> join sep es = hd (hd es) # tl (join sep es)"
proof (cases es)
  case (Cons e r)
  assume "hd es \<noteq> []"
  with Cons show ?thesis by (cases e; cases r) simp_all
qed simp

lemma is_abs_path_of_elems:
  assumes "clean_list rooted es"
  shows "is_abs (path_of_elems rooted es) = rooted"
proof (cases rooted)
  case True
  then show ?thesis by (simp add: path_of_elems_def is_abs_def has_prefix_singleton)
next
  case False
  show ?thesis
  proof (cases "es = []")
    case True
    with False show ?thesis by (simp add: path_of_elems_def is_abs_def has_prefix_singleton)
  next
    case es: False
    then have h: "slash \<notin> set (hd es)" "hd es \<noteq> []"
      using clean_list_elems [OF assms] by (cases es; simp)+
    then have "hd (hd es) \<noteq> slash" by (cases "hd es") auto
    with join_head [OF es h(2), of "[slash]"] False es show ?thesis
      by (auto simp: path_of_elems_def is_abs_def has_prefix_singleton)
  qed
qed

lemma elems_of_path:
  assumes "clean_list rooted es"
  shows "clean_elems rooted (split_on slash (path_of_elems rooted es)) = es"
proof (cases "es = []")
  case True
  then show ?thesis by (cases rooted) (simp_all add: path_of_elems_def clean_elems_def clean_step_def)
next
  case False
  have "list_all (\<lambda>e. slash \<notin> set e) es" using clean_list_elems [OF assms] by (simp add: list_all_iff)
  with False have sp: "split_on slash (join [slash] es) = es" by (rule split_on_join)
  have "clean_elems rooted ([] # es) = clean_elems rooted es" by (simp add: clean_elems_def clean_step_def)
  with False sp clean_elems_id [OF assms] show ?thesis by (cases rooted) (simp_all add: path_of_elems_def)
qed

text \<open>Cleaning is idempotent.\<close>

lemma path_clean_idem [simp]: "path_clean (path_clean p) = path_clean p"
proof -
  note c = clean_elems_clean [of "is_abs p" p]
  show ?thesis
    unfolding path_clean_def is_abs_path_of_elems [OF c] elems_of_path [OF c] ..
qed

lemma path_clean_not_Nil [simp]: "path_clean p \<noteq> []"
proof -
  have "join [slash] es \<noteq> []" if "es \<noteq> []" "clean_list rooted es" for rooted es
    using that clean_list_elems [OF that(2)] join_head [of es "[slash]"] by (cases es) auto
  then show ?thesis using clean_elems_clean [of "is_abs p" p]
    by (auto simp: path_clean_def path_of_elems_def)
qed

end
