(* ===== verification/Flux_Graph.thy ===== *)
theory Flux_Graph
  imports Kahn Go_Path
begin

text \<open>
  The dependency graph of Flux Kustomizations (\<^verbatim>\<open>src/src/gitops/graph.go\<close>, \<^verbatim>\<open>impact.go\<close>):
  discovery from the decoded documents of the repository, the order of reconciliation, cycles,
  dangling references, and the kustomizations that a change reaches.

  A Go map is an association list. \<^verbatim>\<open>range\<close> visits a map in an order Go leaves open: every
  operation takes the orders of its \<^verbatim>\<open>range\<close> loops as an argument, and \<open>range_over\<close> reads them
  as a listing of the keys whatever they are, so a theorem holds for every order. A file is
  given by the documents its YAML decoder yields, with a malformed one as \<^const>\<open>None\<close>.
\<close>

section \<open>Maps and their iteration order\<close>

definition multi_get :: "('k \<times> 'v list) list \<Rightarrow> 'k \<Rightarrow> 'v list" where
  "multi_get m k = (case map_of m k of None \<Rightarrow> [] | Some vs \<Rightarrow> vs)"

definition multi_add :: "'k \<Rightarrow> 'v \<Rightarrow> ('k \<times> 'v list) list \<Rightarrow> ('k \<times> 'v list) list" where
  "multi_add k v m = AList.update k (multi_get m k @ [v]) m"

lemma multi_get_add [simp]: "multi_get (multi_add k v m) j = (if j = k then multi_get m k @ [v] else multi_get m j)"
  by (simp add: multi_add_def multi_get_def update_conv)

lemma multi_get_Nil [simp]: "multi_get [] k = []"
  by (simp add: multi_get_def)

type_synonym 'k orders = "nat \<Rightarrow> 'k list \<Rightarrow> 'k list"

definition range_over :: "'k orders \<Rightarrow> nat \<Rightarrow> 'k list \<Rightarrow> 'k list" where
  "range_over ord i ks = (if mset (ord i ks) = mset ks then ord i ks else ks)"

lemma mset_range_over [simp]: "mset (range_over ord i ks) = mset ks"
  by (simp add: range_over_def)

lemma set_range_over [simp]: "set (range_over ord i ks) = set ks"
  by (metis mset_range_over set_mset_mset)

lemma distinct_range_over [simp]: "distinct (range_over ord i ks) = distinct ks"
  by (metis mset_eq_imp_distinct_iff mset_range_over)

definition add_new :: "'a \<Rightarrow> 'a list \<Rightarrow> 'a list" where
  "add_new x xs = (if x \<in> set xs then xs else xs @ [x])"

lemma set_add_new [simp]: "set (add_new x xs) = insert x (set xs)"
  by (auto simp: add_new_def)

lemma distinct_add_new [simp]: "distinct (add_new x xs) = distinct xs"
  by (auto simp: add_new_def)

section \<open>Keys, nodes and the graph\<close>

datatype kustomization_key = KustomizationKey (key_namespace: string) (key_name: string)

definition less_key :: "kustomization_key \<Rightarrow> kustomization_key \<Rightarrow> bool" where
  "less_key a b =
     (if key_namespace a = key_namespace b then key_name a < key_name b else key_namespace a < key_namespace b)"

instantiation kustomization_key :: linorder
begin

definition less_kustomization_key :: "kustomization_key \<Rightarrow> kustomization_key \<Rightarrow> bool" where
  "less_kustomization_key a b \<longleftrightarrow> less_key a b"

definition less_eq_kustomization_key :: "kustomization_key \<Rightarrow> kustomization_key \<Rightarrow> bool" where
  "less_eq_kustomization_key a b \<longleftrightarrow> a = b \<or> less_key a b"

instance
proof
  fix x y z :: kustomization_key
  show "x < y \<longleftrightarrow> x \<le> y \<and> \<not> y \<le> x"
    by (auto simp: less_kustomization_key_def less_eq_kustomization_key_def less_key_def split: if_splits)
  show "x \<le> x" by (simp add: less_eq_kustomization_key_def)
  show "x \<le> y \<Longrightarrow> y \<le> z \<Longrightarrow> x \<le> z"
    by (auto simp: less_eq_kustomization_key_def less_key_def split: if_splits)
  show "x \<le> y \<Longrightarrow> y \<le> x \<Longrightarrow> x = y"
    by (auto simp: less_eq_kustomization_key_def less_key_def split: if_splits)
  show "x \<le> y \<or> y \<le> x"
    by (cases x; cases y) (auto simp: less_eq_kustomization_key_def less_key_def)
qed

end

definition sort_keys :: "kustomization_key list \<Rightarrow> kustomization_key list" where
  "sort_keys ks = sort_slice less_key ks"

record kustomization_node =
  kn_key :: kustomization_key
  kn_path :: string
  kn_depends_on :: "kustomization_key list"
  kn_source_ref :: string

record flux_graph =
  fg_kustomizations :: "(kustomization_key \<times> kustomization_node) list"
  fg_reverse_deps :: "(kustomization_key \<times> kustomization_key list) list"

abbreviation graph_keys :: "flux_graph \<Rightarrow> kustomization_key list" where
  "graph_keys G \<equiv> map fst (fg_kustomizations G)"

definition in_graph :: "flux_graph \<Rightarrow> kustomization_key \<Rightarrow> bool" where
  "in_graph G k \<longleftrightarrow> map_of (fg_kustomizations G) k \<noteq> None"

definition depends_on :: "flux_graph \<Rightarrow> kustomization_key \<Rightarrow> kustomization_key list" where
  "depends_on G k = (case map_of (fg_kustomizations G) k of None \<Rightarrow> [] | Some n \<Rightarrow> kn_depends_on n)"

section \<open>Discovery\<close>

record raw_kustomization =
  rk_api_version :: string
  rk_kind :: string
  rk_name :: string
  rk_namespace :: string
  rk_path :: string
  rk_source_ref :: string
  rk_depends_on :: "(string \<times> string) list"

definition normalize_path :: "string \<Rightarrow> string" where
  "normalize_path p = trim_prefix (path_clean p) ''./''"

definition node_of_raw :: "raw_kustomization \<Rightarrow> kustomization_node" where
  "node_of_raw k =
     (let ns = (if rk_namespace k = [] then ''flux-system'' else rk_namespace k) in
      \<lparr>kn_key = KustomizationKey ns (rk_name k),
       kn_path = normalize_path (rk_path k),
       kn_depends_on = map (\<lambda>(n, dns). KustomizationKey (if dns = [] then ns else dns) n) (rk_depends_on k),
       kn_source_ref = rk_source_ref k\<rparr>)"

definition add_document :: "raw_kustomization \<Rightarrow> (kustomization_key \<times> kustomization_node) list
    \<Rightarrow> (kustomization_key \<times> kustomization_node) list" where
  "add_document k m =
     (if rk_kind k \<noteq> ''Kustomization'' then m
      else if has_prefix (rk_api_version k) ''kustomize.config.k8s.io'' then m
      else
        (let node = node_of_raw k; new_pathless = (trim_space (rk_path k) = []) in
         case map_of m (kn_key node) of
           Some existing \<Rightarrow>
             if kn_path existing \<noteq> [] \<and> kn_path existing \<noteq> ''.'' \<and> new_pathless then m
             else AList.update (kn_key node) node m
         | None \<Rightarrow> AList.update (kn_key node) node m))"

text \<open>The documents of one file, up to the end or the first malformed one.\<close>

fun add_documents :: "raw_kustomization option list \<Rightarrow> (kustomization_key \<times> kustomization_node) list
    \<Rightarrow> (kustomization_key \<times> kustomization_node) list" where
  "add_documents [] m = m"
| "add_documents (None # ds) m = m"
| "add_documents (Some k # ds) m = add_documents ds (add_document k m)"

datatype walk_entry = WalkError | WalkDir | Unreadable | Documents "raw_kustomization option list"

definition add_file :: "string \<times> walk_entry \<Rightarrow> (kustomization_key \<times> kustomization_node) list
    \<Rightarrow> (kustomization_key \<times> kustomization_node) list" where
  "add_file f m =
     (case f of (path, e) \<Rightarrow>
        (case e of
           WalkError \<Rightarrow> m
         | WalkDir \<Rightarrow> m
         | Unreadable \<Rightarrow> m
         | Documents ds \<Rightarrow>
             if \<not> has_suffix path ''.yaml'' \<and> \<not> has_suffix path ''.yml'' then m else add_documents ds m))"

definition reverse_of :: "kustomization_node list \<Rightarrow> (kustomization_key \<times> kustomization_key list) list" where
  "reverse_of ns = fold (\<lambda>k rd. fold (\<lambda>dep rd. multi_add dep (kn_key k) rd) (kn_depends_on k) rd) ns []"

definition nodes_of :: "(kustomization_key \<times> kustomization_node) list \<Rightarrow> kustomization_key list \<Rightarrow> kustomization_node list" where
  "nodes_of m ks = map (\<lambda>k. the (map_of m k)) ks"

definition discover_flux_graph :: "kustomization_key orders \<Rightarrow> (string \<times> walk_entry) list \<Rightarrow> flux_graph" where
  "discover_flux_graph ord files =
     (let m = fold add_file files [] in
      \<lparr>fg_kustomizations = m, fg_reverse_deps = reverse_of (nodes_of m (range_over ord 0 (map fst m)))\<rparr>)"

section \<open>Order of reconciliation\<close>

definition depth_at :: "(kustomization_key \<times> nat) list \<Rightarrow> kustomization_key \<Rightarrow> nat" where
  "depth_at m k = (case map_of m k of None \<Rightarrow> 0 | Some d \<Rightarrow> d)"

definition node_depth :: "flux_graph \<Rightarrow> (kustomization_key \<Rightarrow> nat) \<Rightarrow> kustomization_key \<Rightarrow> nat" where
  "node_depth G depth k =
     foldl (\<lambda>d dep. if in_graph G dep then (if depth dep + 1 > d then depth dep + 1 else d) else d) 0 (depends_on G k)"

definition flux_kahn :: "flux_graph \<Rightarrow> (kustomization_key, (kustomization_key \<times> nat) list) kahn_config" where
  "flux_kahn G =
     \<lparr>kc_lifo = True, kc_sort = None, kc_skip = (\<lambda>placed d. d \<in> set placed),
      kc_visit = (\<lambda>k depth. AList.update k (node_depth G (depth_at depth) k) depth),
      kc_succs = multi_get (fg_reverse_deps G)\<rparr>"

definition initial_indegree :: "flux_graph \<Rightarrow> (kustomization_key \<times> int) list" where
  "initial_indegree G =
     map (\<lambda>(k, n). (k, int (length (filter (in_graph G) (kn_depends_on n))))) (fg_kustomizations G)"

text \<open>\<open>kahn\<close>: the depths and the placed keys.\<close>

definition kahn :: "kustomization_key orders \<Rightarrow> flux_graph \<Rightarrow> (kustomization_key \<times> nat) list \<times> kustomization_key list" where
  "kahn ord G =
     (let indeg = initial_indegree G;
          ready = filter (\<lambda>k. degree indeg k = 0) (range_over ord 1 (map fst indeg));
          (placed, depth, _) = kahn_loop (flux_kahn G) [] [] indeg ready
      in (depth, placed))"

definition depth_less :: "(kustomization_key \<times> nat) list \<Rightarrow> kustomization_key \<Rightarrow> kustomization_key \<Rightarrow> bool" where
  "depth_less depth a b =
     (if depth_at depth a \<noteq> depth_at depth b then depth_at depth a < depth_at depth b else less_key a b)"

definition reconcile_order :: "kustomization_key orders \<Rightarrow> flux_graph \<Rightarrow> kustomization_key list" where
  "reconcile_order ord G =
     (let (depth, placed) = kahn ord G;
          order = sort_slice (depth_less depth) (filter (\<lambda>k. k \<in> set placed) (range_over ord 2 (graph_keys G)))
      in if length order < length (fg_kustomizations G)
         then order @ sort_keys (filter (\<lambda>k. k \<notin> set placed) (range_over ord 3 (graph_keys G)))
         else order)"

definition cycle_nodes :: "kustomization_key orders \<Rightarrow> flux_graph \<Rightarrow> kustomization_key list" where
  "cycle_nodes ord G = filter (\<lambda>k. k \<notin> set (snd (kahn ord G))) (range_over ord 4 (graph_keys G))"

definition dangling_deps :: "flux_graph \<Rightarrow> kustomization_key \<Rightarrow> kustomization_key list" where
  "dangling_deps G k = filter (\<lambda>d. \<not> in_graph G d) (depends_on G k)"

definition orphans :: "kustomization_key orders \<Rightarrow> flux_graph \<Rightarrow> kustomization_key list" where
  "orphans ord G =
     sort_keys (filter (\<lambda>k. depends_on G k = [] \<and> multi_get (fg_reverse_deps G) k = []) (range_over ord 5 (graph_keys G)))"

definition build_roots :: "kustomization_key orders \<Rightarrow> flux_graph \<Rightarrow> string list" where
  "build_roots ord G =
     sort_strings (fold (\<lambda>n roots. if kn_path n = [] then roots else add_new (kn_path n) roots)
       (nodes_of (fg_kustomizations G) (range_over ord 6 (graph_keys G))) [])"

definition path_owners :: "kustomization_key orders \<Rightarrow> flux_graph \<Rightarrow> (string \<times> kustomization_key list) list" where
  "path_owners ord G =
     fold (\<lambda>n m. if kn_path n = [] then m else multi_add (kn_path n) (kn_key n) m)
       (nodes_of (fg_kustomizations G) (range_over ord 7 (graph_keys G))) []"

definition duplicate_paths :: "kustomization_key orders \<Rightarrow> flux_graph \<Rightarrow> (string \<times> kustomization_key list) list" where
  "duplicate_paths ord G = filter (\<lambda>(p, owners). length owners > 1) (path_owners ord G)"

section \<open>Impact of a change\<close>

definition path_matches :: "string \<Rightarrow> string \<Rightarrow> bool" where
  "path_matches file kpath \<longleftrightarrow> file = kpath \<or> has_prefix file (kpath @ ''/'')"

record impact_result =
  ir_changed_files :: "string list"
  ir_directly :: "kustomization_key list"
  ir_transitively :: "kustomization_key list"
  ir_reconcile_set :: "kustomization_key list"
  ir_unmapped :: "string list"

definition match_file :: "kustomization_node list \<Rightarrow> string \<Rightarrow> kustomization_key list" where
  "match_file ns f = map kn_key (filter (\<lambda>k. kn_path k \<noteq> [] \<and> path_matches f (kn_path k)) ns)"

function reverse_bfs :: "(kustomization_key \<times> kustomization_key list) list \<Rightarrow> kustomization_key list
    \<Rightarrow> kustomization_key list \<Rightarrow> kustomization_key list" where
  "reverse_bfs rd visited [] = visited"
| "reverse_bfs rd visited (cur # queue) =
     (if cur \<in> set visited then reverse_bfs rd visited queue
      else reverse_bfs rd (visited @ [cur])
        (queue @ filter (\<lambda>d. d \<notin> set (visited @ [cur])) (multi_get rd cur)))"
  by pat_completeness auto

termination
proof (relation "measures [\<lambda>(rd, visited, queue). card (set (map fst rd) - set visited), \<lambda>(rd, visited, queue). length queue]",
    goal_cases)
  case (3 rd visited cur queue)
  show ?case
  proof (cases "cur \<in> set (map fst rd)")
    case True
    then have "card (set (map fst rd) - set (visited @ [cur])) < card (set (map fst rd) - set visited)"
      using 3 by (intro psubset_card_mono) auto
    then show ?thesis by simp
  next
    case False
    then have "set (map fst rd) - set (visited @ [cur]) = set (map fst rd) - set visited" by auto
    moreover have "map_of rd cur = None" using False by (simp only: map_of_eq_None_iff set_map not_False_eq_True)
    then have "multi_get rd cur = []" by (simp add: multi_get_def)
    ultimately show ?thesis by simp
  qed
qed auto

definition topo_kahn :: "flux_graph \<Rightarrow> kustomization_key list \<Rightarrow> (kustomization_key, unit) kahn_config" where
  "topo_kahn G sub =
     \<lparr>kc_lifo = False, kc_sort = Some less_key, kc_skip = (\<lambda>_ d. d \<notin> set sub),
      kc_visit = (\<lambda>_ u. u), kc_succs = multi_get (fg_reverse_deps G)\<rparr>"

definition topo_indegree :: "flux_graph \<Rightarrow> kustomization_key list \<Rightarrow> (kustomization_key \<times> int) list" where
  "topo_indegree G sub =
     fold (\<lambda>k m. fold (\<lambda>dep m. if dep \<in> set sub then AList.update k (degree m k + 1) m else m) (depends_on G k) m)
       sub (fold (\<lambda>k m. AList.update k 0 m) sub [])"

definition topo_sort :: "kustomization_key orders \<Rightarrow> flux_graph \<Rightarrow> kustomization_key list \<Rightarrow> kustomization_key list" where
  "topo_sort ord G sub =
     (let indeg = topo_indegree G sub;
          queue = sort_keys (filter (\<lambda>k. degree indeg k = 0) (range_over ord 8 (map fst indeg)));
          (result, _, _) = kahn_loop (topo_kahn G sub) [] () indeg queue
      in if length result \<noteq> length sub then sort_keys sub else result)"

definition compute_impact :: "kustomization_key orders \<Rightarrow> flux_graph \<Rightarrow> string list \<Rightarrow> impact_result" where
  "compute_impact ord G files =
     (let ns = nodes_of (fg_kustomizations G) (range_over ord 9 (graph_keys G));
          direct = fold (\<lambda>f ks. fold add_new (match_file ns f) ks) files [];
          visited = reverse_bfs (fg_reverse_deps G) [] (range_over ord 10 direct);
          transitively = sort_keys (range_over ord 12 visited)
      in \<lparr>ir_changed_files = files,
          ir_directly = sort_keys (range_over ord 11 direct),
          ir_transitively = transitively,
          ir_reconcile_set = topo_sort ord G transitively,
          ir_unmapped = filter (\<lambda>f. match_file ns f = []) files\<rparr>)"

section \<open>Well-formed graphs\<close>

definition keyed :: "(kustomization_key \<times> kustomization_node) list \<Rightarrow> bool" where
  "keyed m \<longleftrightarrow> distinct (map fst m) \<and> (\<forall>k n. map_of m k = Some n \<longrightarrow> kn_key n = k)"

text \<open>The reverse edges count the dependencies.\<close>

definition flux_wf :: "flux_graph \<Rightarrow> bool" where
  "flux_wf G \<longleftrightarrow> keyed (fg_kustomizations G) \<and>
     (\<forall>d k. count_list (multi_get (fg_reverse_deps G) d) k = count_list (depends_on G k) d)"

definition in_deps :: "flux_graph \<Rightarrow> kustomization_key \<Rightarrow> kustomization_key list" where
  "in_deps G k = filter (in_graph G) (depends_on G k)"

lemma in_graph_keys: "in_graph G k \<longleftrightarrow> k \<in> set (graph_keys G)"
  by (simp add: in_graph_def map_of_eq_None_iff)

lemma depends_on_outside: "k \<notin> set (graph_keys G) \<Longrightarrow> depends_on G k = []"
  using in_graph_keys [of G k] by (simp add: in_graph_def depends_on_def)

lemma keyed_update: "keyed m \<Longrightarrow> kn_key n = k \<Longrightarrow> keyed (AList.update k n m)"
  by (auto simp: keyed_def update_conv distinct_update split: if_splits)

lemma keyed_add_document: "keyed m \<Longrightarrow> keyed (add_document k m)"
  by (auto simp: add_document_def Let_def keyed_update split: option.split)

lemma keyed_add_documents: "keyed m \<Longrightarrow> keyed (add_documents ds m)"
  by (induction ds m rule: add_documents.induct) (auto intro: keyed_add_document)

lemma keyed_add_file: "keyed m \<Longrightarrow> keyed (add_file f m)"
  by (auto simp: add_file_def keyed_add_documents split: prod.split walk_entry.split)

lemma keyed_files: "keyed m \<Longrightarrow> keyed (fold add_file files m)"
  by (induction files arbitrary: m) (auto intro: keyed_add_file)

lemma count_reverse:
  "count_list (multi_get (fold (\<lambda>k rd. fold (\<lambda>dep rd. multi_add dep (kn_key k) rd) (kn_depends_on k) rd) ns rd) d) k =
   count_list (multi_get rd d) k + sum_list (map (\<lambda>n. if kn_key n = k then count_list (kn_depends_on n) d else 0) ns)"
proof (induction ns arbitrary: rd)
  case (Cons n ns)
  have "count_list (multi_get (fold (\<lambda>dep rd. multi_add dep j rd) deps rd) d) k =
      count_list (multi_get rd d) k + (if j = k then count_list deps d else 0)" for deps j rd
    by (induction deps arbitrary: rd) (auto split: if_splits)
  with Cons show ?case by simp
qed simp

lemma sum_pick: "distinct ks \<Longrightarrow> sum_list (map (\<lambda>j. if j = k then f j else 0) ks) = (if k \<in> set ks then f k else (0::nat))"
  by (induction ks) auto

lemma discover_wf: "flux_wf (discover_flux_graph ord files)"
proof -
  define m where "m = fold add_file files []"
  define ks where "ks = range_over ord 0 (map fst m)"
  let ?G = "discover_flux_graph ord files"
  have G: "fg_kustomizations ?G = m" "fg_reverse_deps ?G = reverse_of (nodes_of m ks)"
    by (simp_all add: discover_flux_graph_def Let_def m_def ks_def)
  have keyed: "keyed m" unfolding m_def by (rule keyed_files) (simp add: keyed_def)
  then have ks: "distinct ks" "set ks = set (map fst m)" by (simp_all add: ks_def keyed_def)
  have key: "kn_key (the (map_of m j)) = j" if "j \<in> set ks" for j
  proof -
    have "map_of m j \<noteq> None" using that ks(2) by (auto simp: map_of_eq_None_iff)
    then show ?thesis using keyed by (auto simp: keyed_def)
  qed
  have "count_list (multi_get (fg_reverse_deps ?G) d) k = count_list (depends_on ?G k) d" for d k
  proof -
    have "count_list (multi_get (fg_reverse_deps ?G) d) k =
        sum_list (map (\<lambda>j. if kn_key (the (map_of m j)) = k then count_list (kn_depends_on (the (map_of m j))) d else 0) ks)"
      by (simp add: G reverse_of_def count_reverse nodes_of_def o_def)
    also have "\<dots> = sum_list (map (\<lambda>j. if j = k then count_list (kn_depends_on (the (map_of m j))) d else 0) ks)"
      using key by (intro arg_cong [of _ _ sum_list] map_cong) auto
    also have "\<dots> = (if k \<in> set ks then count_list (kn_depends_on (the (map_of m k))) d else 0)"
      by (rule sum_pick [OF ks(1)])
    also have "\<dots> = count_list (depends_on ?G k) d"
    proof (cases "k \<in> set ks")
      case True
      then obtain n where "map_of m k = Some n" using ks(2) by (cases "map_of m k") (auto simp: map_of_eq_None_iff)
      with True show ?thesis by (simp add: depends_on_def G)
    next
      case False
      with ks(2) have "map_of m k = None" by (auto simp: map_of_eq_None_iff)
      with False show ?thesis by (simp add: depends_on_def G)
    qed
    finally show ?thesis .
  qed
  with keyed show ?thesis by (simp add: flux_wf_def G)
qed

lemma flux_kahn_graph: "flux_wf G \<Longrightarrow> kahn_graph (set (graph_keys G)) (in_deps G) (flux_kahn G)"
proof
  assume wf: "flux_wf G"
  fix k d out
  show "set (in_deps G k) \<subseteq> set (graph_keys G)" by (auto simp: in_deps_def in_graph_keys)
  show "k \<notin> set out \<Longrightarrow> \<not> kc_skip (flux_kahn G) out k" by (simp add: flux_kahn_def)
  have count: "count_list (multi_get (fg_reverse_deps G) d) k = count_list (depends_on G k) d"
    using wf by (simp add: flux_wf_def)
  have filt: "P d \<Longrightarrow> count_list (filter P xs) d = count_list xs d" for P and xs :: "kustomization_key list"
    by (induction xs) auto
  show "d \<in> set (graph_keys G) \<Longrightarrow> count_list (kc_succs (flux_kahn G) d) k = count_list (in_deps G k) d"
    by (simp add: flux_kahn_def count in_deps_def filt in_graph_keys)
  show "k \<in> set (kc_succs (flux_kahn G) d) \<Longrightarrow> k \<in> set (graph_keys G) \<or> kc_skip (flux_kahn G) out k"
    using count depends_on_outside [of k G] count_list_0_iff [of "multi_get (fg_reverse_deps G) d" k]
    by (cases "k \<in> set (graph_keys G)") (auto simp: flux_kahn_def)
qed simp

interpretation discovered: kahn_graph
    "set (graph_keys (discover_flux_graph ord files))" "in_deps (discover_flux_graph ord files)"
    "flux_kahn (discover_flux_graph ord files)"
  for ord files
  by (rule flux_kahn_graph [OF discover_wf])

subsection \<open>Depths\<close>

lemma degree_initial:
  "k \<in> set (graph_keys G) \<Longrightarrow> degree (initial_indegree G) k = int (length (in_deps G k))"
proof -
  assume "k \<in> set (graph_keys G)"
  then obtain n where n: "map_of (fg_kustomizations G) k = Some n"
    using in_graph_keys [of G k] by (auto simp: in_graph_def)
  have "map_of (initial_indegree G) k = Some (int (length (filter (in_graph G) (kn_depends_on n))))"
    using n by (simp add: initial_indegree_def map_of_map)
  then show ?thesis using n by (simp add: degree_def in_deps_def depends_on_def)
qed

lemma keys_initial [simp]: "map fst (initial_indegree G) = graph_keys G"
  by (simp add: initial_indegree_def o_def case_prod_beta)

lemma foldl_max_ge: "d \<le> foldl (\<lambda>d x. if P x then (if f x + 1 > d then f x + 1 else d) else d) d xs"
  for f :: "'a \<Rightarrow> nat"
proof (induction xs arbitrary: d)
  case (Cons x xs)
  show ?case by (simp, intro conjI impI; rule le_trans [OF _ Cons.IH]) simp_all
qed simp

lemma foldl_max_member:
  fixes f :: "'a \<Rightarrow> nat"
  shows "x \<in> set xs \<Longrightarrow> P x \<Longrightarrow> f x < foldl (\<lambda>d x. if P x then (if f x + 1 > d then f x + 1 else d) else d) d xs"
proof (induction xs arbitrary: d)
  case (Cons y xs)
  show ?case
  proof (cases "x = y")
    case True
    have "f y < (if f y + 1 > d then f y + 1 else d)" by simp
    also have "\<dots> \<le> foldl (\<lambda>d x. if P x then (if f x + 1 > d then f x + 1 else d) else d) (if f y + 1 > d then f y + 1 else d) xs"
      by (rule foldl_max_ge)
    finally show ?thesis using True Cons.prems by simp
  next
    case False
    with Cons show ?thesis by simp
  qed
qed simp

lemma node_depth_greater: "d \<in> set (in_deps G k) \<Longrightarrow> depth d < node_depth G depth k"
  unfolding node_depth_def in_deps_def by (rule foldl_max_member) auto

lemma node_depth_cong:
  "(\<And>d. d \<in> set (in_deps G k) \<Longrightarrow> f d = g d) \<Longrightarrow> node_depth G f k = node_depth G g k"
  unfolding node_depth_def in_deps_def by (rule foldl_cong) auto

definition depths_of :: "flux_graph \<Rightarrow> kustomization_key list \<Rightarrow> (kustomization_key \<times> nat) list" where
  "depths_of G ks = foldl (\<lambda>depth k. AList.update k (node_depth G (depth_at depth) k) depth) [] ks"

lemma depth_at_update [simp]: "depth_at (AList.update k d m) j = (if j = k then d else depth_at m j)"
  by (simp add: depth_at_def update_conv)

lemma topological_snoc: "topological deps (ks @ [k]) \<longleftrightarrow> topological deps ks \<and> set (deps k) \<subseteq> set ks"
  by (auto simp: topological_def nth_append less_Suc_eq)

lemma topological_set: "topological deps ks \<Longrightarrow> k \<in> set ks \<Longrightarrow> set (deps k) \<subseteq> set ks"
  unfolding topological_def by (metis in_set_conv_nth order_trans set_take_subset)

lemma depths_of_eq:
  "distinct ks \<Longrightarrow> topological (in_deps G) ks \<Longrightarrow>
    (\<forall>k \<in> set ks. depth_at (depths_of G ks) k = node_depth G (depth_at (depths_of G ks)) k) \<and>
    (\<forall>k. k \<notin> set ks \<longrightarrow> depth_at (depths_of G ks) k = 0)"
proof (induction ks rule: rev_induct)
  case Nil
  then show ?case by (simp add: depths_of_def depth_at_def)
next
  case (snoc k ks)
  define f where "f = depth_at (depths_of G ks)"
  define g where "g = depth_at (depths_of G (ks @ [k]))"
  have g: "g j = (if j = k then node_depth G f k else f j)" for j by (simp add: depths_of_def f_def g_def)
  have top: "topological (in_deps G) ks" "set (in_deps G k) \<subseteq> set ks" "k \<notin> set ks" "distinct ks"
    using snoc.prems by (simp_all add: topological_snoc)
  have same: "node_depth G g j = node_depth G f j" if "j \<in> insert k (set ks)" for j
    using that top topological_set [OF top(1), of j] by (intro node_depth_cong) (auto simp: g)
  have IH: "\<And>j. j \<in> set ks \<Longrightarrow> f j = node_depth G f j" "\<And>j. j \<notin> set ks \<Longrightarrow> f j = 0"
    using snoc.IH [OF top(4,1)] unfolding f_def by blast+
  have "g j = node_depth G g j" if "j \<in> insert k (set ks)" for j
    unfolding same [OF that] using that IH(1) [of j] by (subst g) auto
  moreover have "g j = 0" if "j \<notin> insert k (set ks)" for j
    using that IH(2) [of j] by (subst g) auto
  ultimately show ?case unfolding g_def [symmetric] by simp
qed

text \<open>The depth equation has one solution on the placeable keys.\<close>

lemma depth_unique:
  assumes "\<And>k. placeable N (in_deps G) k \<Longrightarrow> f k = node_depth G f k"
    and "\<And>k. placeable N (in_deps G) k \<Longrightarrow> g k = node_depth G g k"
  shows "placeable N (in_deps G) k \<Longrightarrow> f k = g k"
proof (induction rule: placeable.induct)
  case (place k)
  have "placeable N (in_deps G) k" using place by (auto intro: placeable.place)
  then show ?case using assms place.IH by (metis node_depth_cong)
qed

lemma kahn_result:
  assumes wf: "flux_wf G" and run: "kahn ord G = (depth, placed)"
  shows "set placed = {k. placeable (set (graph_keys G)) (in_deps G) k}" "distinct placed"
    "topological (in_deps G) placed" "depth = depths_of G placed"
proof -
  let ?N = "set (graph_keys G)"
  let ?ready = "filter (\<lambda>k. degree (initial_indegree G) k = 0) (range_over ord 1 (graph_keys G))"
  note kg = flux_kahn_graph [OF wf]
  obtain indeg where loop: "kahn_loop (flux_kahn G) [] [] (initial_indegree G) ?ready = (placed, depth, indeg)"
    using run by (auto simp: kahn_def Let_def split: prod.splits)
  have "kahn_graph.waiting ?N (in_deps G) [] (initial_indegree G) ?ready"
    unfolding kahn_graph.waiting_def [OF kg] kahn_graph.missing_def [OF kg]
    using wf degree_initial by (auto simp: topological_def flux_wf_def keyed_def)
  from kahn_graph.loop_waiting [OF kg this loop]
  have w: "kahn_graph.waiting ?N (in_deps G) placed indeg []" .
  show "set placed = {k. placeable ?N (in_deps G) k}" by (rule kahn_graph.waiting_placeable [OF kg w])
  show "distinct placed" "topological (in_deps G) placed" using w unfolding kahn_graph.waiting_def [OF kg] by simp_all
  show "depth = depths_of G placed"
    using loop_visits [OF loop] by (auto simp: flux_kahn_def depths_of_def)
qed

lemma kahn_depth:
  assumes wf: "flux_wf G" and run: "kahn ord G = (depth, placed)"
  shows "k \<in> set placed \<Longrightarrow> depth_at depth k = node_depth G (depth_at depth) k"
    and "k \<notin> set placed \<Longrightarrow> depth_at depth k = 0"
  using depths_of_eq [OF kahn_result(2,3) [OF wf run]] kahn_result(4) [OF wf run] by auto

text \<open>Neither the order of the queue nor that of the reverse edges matters.\<close>

lemma same_kustomizations:
  assumes "fg_kustomizations G = fg_kustomizations G'"
  shows "in_deps G = in_deps G'" "node_depth G = node_depth G'"
proof -
  have "in_graph G = in_graph G'" "depends_on G = depends_on G'"
    using assms by (simp_all add: fun_eq_iff in_graph_def depends_on_def)
  then show "in_deps G = in_deps G'" "node_depth G = node_depth G'"
    by (simp_all add: in_deps_def [abs_def] node_depth_def [abs_def])
qed

lemma kahn_unique:
  assumes wf: "flux_wf G" "flux_wf G'" "fg_kustomizations G = fg_kustomizations G'"
    and run: "kahn ord G = (depth, placed)" "kahn ord' G' = (depth', placed')"
  shows "set placed = set placed'" "depth_at depth = depth_at depth'"
proof -
  let ?P = "placeable (set (graph_keys G)) (in_deps G)"
  have set: "set placed = {k. ?P k}" "set placed' = {k. ?P k}"
    using kahn_result(1) [OF wf(1) run(1)] kahn_result(1) [OF wf(2) run(2)] same_kustomizations(1) [OF wf(3)] wf(3)
    by simp_all
  then show "set placed = set placed'" by simp
  note nd = same_kustomizations(2) [OF wf(3)]
  show "depth_at depth = depth_at depth'"
  proof
    fix k
    show "depth_at depth k = depth_at depth' k"
    proof (cases "?P k")
      case True
      show ?thesis
      proof (rule depth_unique [OF _ _ True])
        show "depth_at depth k = node_depth G (depth_at depth) k" if "?P k" for k
          using kahn_depth(1) [OF wf(1) run(1)] set(1) that by blast
        show "depth_at depth' k = node_depth G (depth_at depth') k" if "?P k" for k
          using kahn_depth(1) [OF wf(2) run(2)] set(2) that unfolding nd by blast
      qed
    next
      case False
      then show ?thesis using kahn_depth(2) [OF wf(1) run(1), of k] kahn_depth(2) [OF wf(2) run(2), of k] set by simp
    qed
  qed
qed

subsection \<open>The order\<close>

interpretation key_order: comparator less_key
  by unfold_locales (auto simp: less_key_def split: if_splits)

lemma less_key_total: "\<not> less_key a b \<Longrightarrow> \<not> less_key b a \<Longrightarrow> a = b"
  by (cases a; cases b) (auto simp: less_key_def split: if_splits)

interpretation depth_order: comparator "depth_less depth" for depth
  by unfold_locales (auto simp: depth_less_def dest: key_order.less_asym key_order.less_cotrans split: if_splits)

lemma sort_keys_unique: "mset xs = mset ys \<Longrightarrow> sort_keys xs = sort_keys ys"
  unfolding sort_keys_def by (rule key_order.sort_slice_unique) (auto intro: less_key_total)

lemma reconcile_order_split:
  assumes wf: "flux_wf G" and run: "kahn ord G = (depth, placed)"
  shows "reconcile_order ord G =
      sort_slice (depth_less depth) (filter (\<lambda>k. k \<in> set placed) (graph_keys G)) @
      sort_keys (filter (\<lambda>k. k \<notin> set placed) (graph_keys G))"
proof -
  have fm: "mset (filter P (range_over ord i ks)) = mset (filter P ks)" for P i and ks :: "kustomization_key list"
    by simp
  have a: "sort_slice (depth_less depth) (filter (\<lambda>k. k \<in> set placed) (range_over ord 2 (graph_keys G))) =
      sort_slice (depth_less depth) (filter (\<lambda>k. k \<in> set placed) (graph_keys G))"
    by (rule depth_order.sort_slice_unique [OF fm]) (auto simp: depth_less_def intro: less_key_total split: if_splits)
  have b: "sort_keys (filter (\<lambda>k. k \<notin> set placed) (range_over ord 3 (graph_keys G))) =
      sort_keys (filter (\<lambda>k. k \<notin> set placed) (graph_keys G))" by (rule sort_keys_unique [OF fm])
  have len: "length (filter (\<lambda>k. k \<in> set placed) (graph_keys G)) + length (filter (\<lambda>k. k \<notin> set placed) (graph_keys G))
      = length (fg_kustomizations G)"
    using sum_length_filter_compl [of "\<lambda>k. k \<in> set placed" "graph_keys G"] by simp
  show ?thesis
  proof (cases "filter (\<lambda>k. k \<notin> set placed) (graph_keys G) = []")
    case True
    then have "\<not> length (filter (\<lambda>k. k \<in> set placed) (graph_keys G)) < length (fg_kustomizations G)"
      using len by simp
    then show ?thesis
      unfolding reconcile_order_def run Let_def prod.case a b True by (simp add: sort_keys_def del: filter_map)
  next
    case False
    then have "length (filter (\<lambda>k. k \<in> set placed) (graph_keys G)) < length (fg_kustomizations G)"
      using len by (simp flip: length_greater_0_conv)
    then show ?thesis
      unfolding reconcile_order_def run Let_def prod.case a b by (simp del: filter_map)
  qed
qed

lemma reconcile_order_unique:
  assumes "flux_wf G" "flux_wf G'" "fg_kustomizations G = fg_kustomizations G'"
  shows "reconcile_order ord G = reconcile_order ord' G'"
proof -
  obtain depth placed depth' placed' where k: "kahn ord G = (depth, placed)" "kahn ord' G' = (depth', placed')"
    by fastforce
  have "depth_less depth = depth_less depth'"
    using kahn_unique(2) [OF assms k] by (simp add: depth_less_def [abs_def])
  then show ?thesis
    using reconcile_order_split [OF assms(1) k(1)] reconcile_order_split [OF assms(2) k(2)] kahn_unique(1) [OF assms k]
      assms(3) by simp
qed

lemma reconcile_order_mset: "flux_wf G \<Longrightarrow> mset (reconcile_order ord G) = mset (graph_keys G)"
proof -
  assume wf: "flux_wf G"
  obtain depth placed where k: "kahn ord G = (depth, placed)" by fastforce
  show ?thesis
    unfolding reconcile_order_split [OF wf k] mset_append sort_keys_def mset_sort_slice mset_filter
    by (rule multiset_partition [symmetric])
qed

lemma sorted_before:
  assumes "comparator lt" "distinct xs" "x \<in> set xs" "y \<in> set xs" "lt x y" "sort_slice lt xs = zs" "zs ! i = y" "i < length zs"
  shows "x \<in> set (take i zs)"
proof -
  have "x \<in> set zs" using assms(3,6) by auto
  then obtain j where j: "j < length zs" "zs ! j = x" by (auto simp: in_set_conv_nth)
  have "j < i"
  proof (rule ccontr)
    assume "\<not> j < i"
    then have "\<not> lt (zs ! j) (zs ! i)"
      using comparator.sort_slice_nth [OF assms(1), of i j xs] j assms(6) by auto
    with assms j show False by simp
  qed
  with j show ?thesis by (auto simp: in_set_conv_nth intro!: exI [of _ j])
qed

text \<open>Every key that can be placed comes after its dependencies in the graph.\<close>

lemma reconcile_order_deps:
  assumes wf: "flux_wf G" and i: "i < length (reconcile_order ord G)"
    and pl: "placeable (set (graph_keys G)) (in_deps G) (reconcile_order ord G ! i)"
  shows "set (in_deps G (reconcile_order ord G ! i)) \<subseteq> set (take i (reconcile_order ord G))"
proof -
  obtain depth placed where k: "kahn ord G = (depth, placed)" by fastforce
  let ?fs = "filter (\<lambda>k. k \<in> set placed) (graph_keys G)"
  let ?us = "filter (\<lambda>k. k \<notin> set placed) (graph_keys G)"
  let ?zs = "sort_slice (depth_less depth) ?fs"
  let ?k = "reconcile_order ord G ! i"
  note split = reconcile_order_split [OF wf k] and res = kahn_result [OF wf k]
  have kp: "?k \<in> set placed" using pl res(1) by simp
  have "i < length ?zs"
  proof (rule ccontr)
    assume "\<not> i < length ?zs"
    with i have "?k \<in> set (sort_keys ?us)" unfolding split by (simp add: nth_append del: filter_map length_sort_slice)
    then show False using kp by (simp add: sort_keys_def)
  qed
  then have nth: "?zs ! i = ?k" and tk: "take i (reconcile_order ord G) = take i ?zs"
    unfolding split by (simp_all add: nth_append del: filter_map length_sort_slice)
  show ?thesis
  proof
    fix d assume d: "d \<in> set (in_deps G ?k)"
    have dp: "d \<in> set placed" using topological_set [OF res(3) kp] d by blast
    have "depth_at depth d < depth_at depth ?k"
      using node_depth_greater [OF d] kahn_depth(1) [OF wf k kp] by metis
    then have less: "depth_less depth d ?k" by (simp add: depth_less_def)
    have keys: "d \<in> set (graph_keys G)" "?k \<in> set (graph_keys G)" "distinct (graph_keys G)"
      using dp kp res(1) wf by (auto simp: flux_wf_def keyed_def elim: placeable.cases)
    show "d \<in> set (take i (reconcile_order ord G))"
      unfolding tk
      by (rule sorted_before [OF depth_order.comparator_axioms _ _ _ less refl nth \<open>i < length ?zs\<close>])
         (use keys dp kp in \<open>simp_all del: filter_map\<close>)
  qed
qed

section \<open>Impact\<close>

definition sub_deps :: "flux_graph \<Rightarrow> kustomization_key list \<Rightarrow> kustomization_key \<Rightarrow> kustomization_key list" where
  "sub_deps G sub k = filter (\<lambda>d. d \<in> set sub) (depends_on G k)"

lemma topo_kahn_graph: "flux_wf G \<Longrightarrow> kahn_graph (set sub) (sub_deps G sub) (topo_kahn G sub)"
proof
  assume wf: "flux_wf G"
  fix k d and out :: "kustomization_key list"
  show "set (sub_deps G sub k) \<subseteq> set sub" by (auto simp: sub_deps_def)
  show "k \<in> set sub \<Longrightarrow> \<not> kc_skip (topo_kahn G sub) out k" by (simp add: topo_kahn_def)
  show "k \<in> set sub \<or> kc_skip (topo_kahn G sub) out k" by (simp add: topo_kahn_def)
  have "P d \<Longrightarrow> count_list (filter P xs) d = count_list xs d" for P and xs :: "kustomization_key list"
    by (induction xs) auto
  with wf show "d \<in> set sub \<Longrightarrow> count_list (kc_succs (topo_kahn G sub) d) k = count_list (sub_deps G sub k) d"
    by (simp add: topo_kahn_def sub_deps_def flux_wf_def)
qed simp

interpretation discovered_sub: kahn_graph
    "set sub" "sub_deps (discover_flux_graph ord files) sub" "topo_kahn (discover_flux_graph ord files) sub"
  for ord files sub
  by (rule topo_kahn_graph [OF discover_wf])

lemma degree_count_fold:
  "degree (fold (\<lambda>dep m. if dep \<in> A then AList.update k (degree m k + 1) m else m) ds m) j =
    (if j = k then degree m k + int (length (filter (\<lambda>d. d \<in> A) ds)) else degree m j)"
  by (induction ds arbitrary: m) auto

lemma degree_topo_fold:
  "distinct ks \<Longrightarrow> degree (fold (\<lambda>k m. fold (\<lambda>dep m. if dep \<in> set sub then AList.update k (degree m k + 1) m else m)
       (depends_on G k) m) ks m) j =
    degree m j + (if j \<in> set ks then int (length (sub_deps G sub j)) else 0)"
  by (induction ks arbitrary: m) (auto simp: degree_count_fold sub_deps_def)

lemma degree_zero_fold: "degree m j = 0 \<Longrightarrow> degree (fold (\<lambda>k m. AList.update k 0 m) ks m) j = 0"
  by (induction ks arbitrary: m) auto

lemma degree_topo:
  assumes "distinct sub" "k \<in> set sub"
  shows "degree (topo_indegree G sub) k = int (length (sub_deps G sub k))"
proof -
  have "degree [] k = 0" by (simp add: degree_def)
  then show ?thesis
    using degree_topo_fold [OF assms(1)] assms(2) degree_zero_fold [of "[]" k sub] by (simp add: topo_indegree_def)
qed

lemma keys_topo: "distinct (map fst (topo_indegree G sub)) \<and> set (map fst (topo_indegree G sub)) = set sub"
proof -
  have upd: "distinct (map fst m) \<Longrightarrow> distinct (map fst (AList.update k v m)) \<and>
      set (map fst (AList.update k v m)) = insert k (set (map fst m))" for k v and m :: "(kustomization_key \<times> int) list"
    by (simp add: distinct_update update_keys) (auto simp: update_keys)
  define init where "init = fold (\<lambda>k m. AList.update k (0::int) m) sub []"
  have one: "distinct (map fst m) \<Longrightarrow> distinct (map fst (fold (\<lambda>k m. AList.update k (0::int) m) ks m)) \<and>
      set (map fst (fold (\<lambda>k m. AList.update k (0::int) m) ks m)) = set ks \<union> set (map fst m)"
    for ks and m :: "(kustomization_key \<times> int) list"
  proof (induction ks arbitrary: m)
    case (Cons k ks)
    with upd [OF Cons.prems, of k 0] Cons.IH [of "AList.update k 0 m"] show ?case by auto
  qed simp
  have two: "k \<in> set (map fst m) \<Longrightarrow> distinct (map fst m) \<Longrightarrow>
      distinct (map fst (fold (\<lambda>dep m. if dep \<in> A then AList.update k (degree m k + 1) m else m) ds m)) \<and>
      set (map fst (fold (\<lambda>dep m. if dep \<in> A then AList.update k (degree m k + 1) m else m) ds m)) = set (map fst m)"
    for k A ds and m :: "(kustomization_key \<times> int) list"
  proof (induction ds arbitrary: m)
    case (Cons d ds)
    show ?case
    proof (cases "d \<in> A")
      case True
      with upd [OF Cons.prems(2), of k "degree m k + 1"] Cons show ?thesis by (simp add: insert_absorb)
    qed (use Cons in simp)
  qed simp
  have "set ks \<subseteq> set (map fst m) \<Longrightarrow> distinct (map fst m) \<Longrightarrow>
      distinct (map fst (fold (\<lambda>k m. fold (\<lambda>dep m. if dep \<in> set sub then AList.update k (degree m k + 1) m else m)
       (depends_on G k) m) ks m)) \<and>
      set (map fst (fold (\<lambda>k m. fold (\<lambda>dep m. if dep \<in> set sub then AList.update k (degree m k + 1) m else m)
       (depends_on G k) m) ks m)) = set (map fst m)" for ks and m :: "(kustomization_key \<times> int) list"
  proof (induction ks arbitrary: m)
    case (Cons k ks)
    with two [of k m "set sub" "depends_on G k"] show ?case by simp
  qed simp
  from this [of sub init] one [of "[]" sub] show ?thesis by (simp add: topo_indegree_def init_def)
qed

lemma topo_loop:
  assumes wf: "flux_wf G" and "distinct sub"
    and loop: "kahn_loop (topo_kahn G sub) [] () (topo_indegree G sub)
      (sort_keys (filter (\<lambda>k. degree (topo_indegree G sub) k = 0) (range_over ord 8 (map fst (topo_indegree G sub)))))
      = (result, u, indeg)"
  shows "set result = {k. placeable (set sub) (sub_deps G sub) k}" "distinct result" "topological (sub_deps G sub) result"
    "set result \<subseteq> set sub"
proof -
  note kg = topo_kahn_graph [OF wf, of sub]
  let ?q = "sort_keys (filter (\<lambda>k. degree (topo_indegree G sub) k = 0) (range_over ord 8 (map fst (topo_indegree G sub))))"
  have q: "distinct ?q" "set ?q = {k \<in> set sub. degree (topo_indegree G sub) k = 0}"
    using keys_topo [of G sub] by (simp_all add: sort_keys_def del: filter_map set_map)
  have "kahn_graph.waiting (set sub) (sub_deps G sub) [] (topo_indegree G sub) ?q"
    unfolding kahn_graph.waiting_def [OF kg] kahn_graph.missing_def [OF kg]
    using q degree_topo [OF assms(2)] by (simp add: topological_def)
  from kahn_graph.loop_waiting [OF kg this loop]
  have w: "kahn_graph.waiting (set sub) (sub_deps G sub) result indeg []" .
  show "set result = {k. placeable (set sub) (sub_deps G sub) k}" by (rule kahn_graph.waiting_placeable [OF kg w])
  show "distinct result" "topological (sub_deps G sub) result" "set result \<subseteq> set sub"
    using w unfolding kahn_graph.waiting_def [OF kg] by simp_all
qed

lemma topo_sort_result:
  assumes wf: "flux_wf G" and dist: "distinct sub"
  shows "mset (topo_sort ord G sub) = mset sub"
    and "acyclic (dep_edges (set sub) (sub_deps G sub)) \<Longrightarrow> topological (sub_deps G sub) (topo_sort ord G sub)"
proof -
  let ?q = "sort_keys (filter (\<lambda>k. degree (topo_indegree G sub) k = 0) (range_over ord 8 (map fst (topo_indegree G sub))))"
  obtain result u indeg where
    loop: "kahn_loop (topo_kahn G sub) [] () (topo_indegree G sub) ?q = (result, u, indeg)"
    by (metis prod_cases3)
  note res = topo_loop [OF wf dist loop]
  have ts: "topo_sort ord G sub = (if length result \<noteq> length sub then sort_keys sub else result)"
    unfolding topo_sort_def Let_def loop prod.case ..
  have eq: "mset result = mset sub" if "length result = length sub"
  proof -
    have "set result = set sub"
      using that res(2,4) dist by (metis card_subset_eq distinct_card finite_set)
    with res(2) dist show ?thesis by (simp add: set_eq_iff_mset_eq_distinct)
  qed
  then show "mset (topo_sort ord G sub) = mset sub" by (simp add: ts sort_keys_def)
  assume "acyclic (dep_edges (set sub) (sub_deps G sub))"
  then have "\<forall>k \<in> set sub. placeable (set sub) (sub_deps G sub) k"
    using placeable_acyclic [of "set sub" "sub_deps G sub"] by (auto simp: sub_deps_def)
  then have "set result = set sub" using res(1) by (auto elim: placeable.cases)
  then have "length result = length sub" using res(2) dist by (metis distinct_card)
  then show "topological (sub_deps G sub) (topo_sort ord G sub)" using res(3) by (simp add: ts)
qed

subsection \<open>Reached keys\<close>

definition dependents :: "(kustomization_key \<times> kustomization_key list) list \<Rightarrow> (kustomization_key \<times> kustomization_key) set" where
  "dependents rd = {(d, k). k \<in> set (multi_get rd d)}"

lemma reverse_bfs_spec:
  assumes "distinct visited" "\<And>v. v \<in> set visited \<Longrightarrow> set (multi_get rd v) \<subseteq> set visited \<union> set queue"
  shows "distinct (reverse_bfs rd visited queue) \<and>
    set visited \<union> set queue \<subseteq> set (reverse_bfs rd visited queue) \<and>
    (\<forall>v \<in> set (reverse_bfs rd visited queue). set (multi_get rd v) \<subseteq> set (reverse_bfs rd visited queue)) \<and>
    set (reverse_bfs rd visited queue) \<subseteq> (dependents rd)\<^sup>* `` (set visited \<union> set queue)"
  using assms
proof (induction rd visited queue rule: reverse_bfs.induct)
  case (1 rd visited)
  then show ?case by auto
next
  case (2 rd visited cur queue)
  show ?case
  proof (cases "cur \<in> set visited")
    case True
    with "2.IH"(1) "2.prems" show ?thesis by (simp add: insert_absorb)
  next
    case False
    let ?new = "filter (\<lambda>d. d \<notin> set (visited @ [cur])) (multi_get rd cur)"
    let ?r = "reverse_bfs rd (visited @ [cur]) (queue @ ?new)"
    have step: "reverse_bfs rd visited (cur # queue) = ?r" using False by simp
    have IH: "distinct ?r \<and> set (visited @ [cur]) \<union> set (queue @ ?new) \<subseteq> set ?r \<and>
        (\<forall>v \<in> set ?r. set (multi_get rd v) \<subseteq> set ?r) \<and>
        set ?r \<subseteq> (dependents rd)\<^sup>* `` (set (visited @ [cur]) \<union> set (queue @ ?new))"
      using "2.prems" False by (intro "2.IH"(2)) auto
    have "(dependents rd)\<^sup>* `` (set (visited @ [cur]) \<union> set (queue @ ?new)) \<subseteq>
        (dependents rd)\<^sup>* `` (set visited \<union> set (cur # queue))"
    proof
      fix k assume "k \<in> (dependents rd)\<^sup>* `` (set (visited @ [cur]) \<union> set (queue @ ?new))"
      then obtain j where j: "j \<in> set (visited @ [cur]) \<union> set (queue @ ?new)" "(j, k) \<in> (dependents rd)\<^sup>*" by blast
      have "j \<in> set ?new \<Longrightarrow> (cur, j) \<in> dependents rd" by (simp add: dependents_def)
      with j have "j \<in> set visited \<union> set (cur # queue) \<or> (cur, k) \<in> (dependents rd)\<^sup>*"
        by (auto intro: converse_rtrancl_into_rtrancl)
      with j(2) show "k \<in> (dependents rd)\<^sup>* `` (set visited \<union> set (cur # queue))" by auto
    qed
    with IH show ?thesis unfolding step by auto
  qed
qed

lemma reverse_bfs_reach:
  "distinct (reverse_bfs rd [] queue) \<and> set (reverse_bfs rd [] queue) = (dependents rd)\<^sup>* `` set queue"
proof -
  note spec = reverse_bfs_spec [of "[]" rd queue]
  have "(j, k) \<in> (dependents rd)\<^sup>* \<Longrightarrow> j \<in> set (reverse_bfs rd [] queue) \<Longrightarrow> k \<in> set (reverse_bfs rd [] queue)" for j k
    by (induction rule: rtrancl_induct) (use spec in \<open>auto simp: dependents_def\<close>)
  with spec show ?thesis by auto
qed

section \<open>What the graph operations guarantee\<close>

lemma sorted_keys_strict: "ks = sort_keys xs \<Longrightarrow> distinct ks \<Longrightarrow> sorted_wrt less_key ks"
  using key_order.ordered_sort_slice [of xs] unfolding sort_keys_def sorted_wrt_iff_nth_less
  by (metis less_key_total nat_neq_iff nth_eq_iff_index_eq order.strict_trans)

text \<open>The order taken apart: the waves of the keys that can be placed, then the other keys.\<close>

lemma reconcile_order_waves:
  assumes wf: "flux_wf G"
  shows "\<exists>waves rest. reconcile_order ord G = waves @ rest \<and> topological (in_deps G) waves \<and> sorted_wrt less_key rest \<and>
    set rest = {k \<in> set (graph_keys G). \<not> placeable (set (graph_keys G)) (in_deps G) k}"
proof -
  let ?N = "set (graph_keys G)" and ?order = "reconcile_order ord G"
  obtain depth placed where k: "kahn ord G = (depth, placed)" by fastforce
  let ?rest = "sort_keys (filter (\<lambda>k. k \<notin> set placed) (graph_keys G))"
  obtain waves where split: "?order = waves @ ?rest" using reconcile_order_split [OF wf k] by blast
  have m: "mset ?order = mset (graph_keys G)" by (rule reconcile_order_mset [OF wf])
  then have set: "set ?order = ?N" by (metis set_mset_mset)
  have dist: "distinct ?order"
    using wf unfolding mset_eq_imp_distinct_iff [OF m] by (simp add: flux_wf_def keyed_def)
  have unplaced: "set ?rest = {k \<in> ?N. \<not> placeable ?N (in_deps G) k}"
    using kahn_result(1) [OF wf k] by (auto simp: sort_keys_def)
  have "set waves \<inter> set ?rest = {}" "set waves \<subseteq> ?N" using dist set unfolding split by auto
  then have placed: "placeable ?N (in_deps G) k" if "k \<in> set waves" for k using that unplaced by blast
  have "topological (in_deps G) waves"
    unfolding topological_def
  proof (intro allI impI)
    fix i assume i: "i < length waves"
    then have nth: "?order ! i = waves ! i" and first: "take i ?order = take i waves"
      unfolding split by (simp_all add: nth_append)
    have "i < length ?order" using i unfolding split by simp
    from reconcile_order_deps [OF wf this] placed i
    show "set (in_deps G (waves ! i)) \<subseteq> set (take i waves)" unfolding nth first by simp
  qed
  moreover have "distinct ?rest" using dist unfolding split by simp
  then have "sorted_wrt less_key ?rest" by (rule sorted_keys_strict [OF refl])
  ultimately show ?thesis using split unplaced by blast
qed

text \<open>C37: The order of reconciliation lists every discovered kustomization exactly once, whatever
  the dependencies. It is a sequence of waves, in which each key comes after all the keys of the
  graph it depends on, followed by the keys on a cycle or behind one, in lexical order; so every
  key comes after its dependencies exactly when they have no cycle.\<close>

theorem reconcile_order_topological:
  "let G = discover_flux_graph ord files; order = reconcile_order ord' G;
       edges = dep_edges (set (graph_keys G)) (in_deps G)
   in mset order = mset (graph_keys G) \<and> distinct order \<and>
     (\<exists>waves rest. order = waves @ rest \<and> topological (in_deps G) waves \<and> sorted_wrt less_key rest \<and>
       set rest = {k \<in> set (graph_keys G). \<exists>c. (c, c) \<in> edges\<^sup>+ \<and> (c, k) \<in> edges\<^sup>*}) \<and>
     (topological (in_deps G) order \<longleftrightarrow> acyclic edges)"
proof -
  define G where "G = discover_flux_graph ord files"
  let ?N = "set (graph_keys G)" and ?order = "reconcile_order ord' G"
  let ?E = "dep_edges ?N (in_deps G)"
  have wf: "flux_wf G" by (simp add: G_def discover_wf)
  have closed: "set (in_deps G k) \<subseteq> ?N" for k by (auto simp: in_deps_def in_graph_keys)
  have m: "mset ?order = mset (graph_keys G)" by (rule reconcile_order_mset [OF wf])
  then have set: "set ?order = ?N" by (metis set_mset_mset)
  have dist: "distinct ?order"
    using wf unfolding mset_eq_imp_distinct_iff [OF m] by (simp add: flux_wf_def keyed_def)
  obtain waves rest where split: "?order = waves @ rest" and waves: "topological (in_deps G) waves"
    and sorted: "sorted_wrt less_key rest" and unplaced: "set rest = {k \<in> ?N. \<not> placeable ?N (in_deps G) k}"
    using reconcile_order_waves [OF wf] by blast
  have rest: "set rest = {k \<in> ?N. \<exists>c. (c, c) \<in> ?E\<^sup>+ \<and> (c, k) \<in> ?E\<^sup>*}"
    unfolding unplaced by (intro Collect_cong conj_cong refl unplaceable_behind_cycle finite_set closed)
  have "topological (in_deps G) ?order \<longleftrightarrow> acyclic ?E"
  proof
    assume "acyclic ?E"
    then have "rest = []" using rest by (auto simp: acyclic_def)
    with waves show "topological (in_deps G) ?order" unfolding split by simp
  next
    assume "topological (in_deps G) ?order"
    from this set closed show "acyclic ?E" by (rule topological_acyclic)
  qed
  then show ?thesis using m dist split waves sorted rest unfolding Let_def G_def by blast
qed

definition demo_doc :: "string \<Rightarrow> string \<Rightarrow> (string \<times> string) list \<Rightarrow> raw_kustomization option" where
  "demo_doc name path deps = Some
     \<lparr>rk_api_version = ''kustomize.toolkit.fluxcd.io/v1'', rk_kind = ''Kustomization'', rk_name = name,
      rk_namespace = [], rk_path = path, rk_source_ref = [], rk_depends_on = deps\<rparr>"

definition demo_repo :: "(string \<times> walk_entry) list" where
  "demo_repo =
     [(''apps.yaml'', Documents [demo_doc ''apps'' ''./apps'' [(''infra'', [])]]),
      (''infra.yaml'', Documents [demo_doc ''infra'' ''./infra'' []])]"

lemma demo_reconcile_order:
  "reconcile_order (\<lambda>_ ks. rev ks) (discover_flux_graph (\<lambda>_ ks. ks) demo_repo) =
     [KustomizationKey ''flux-system'' ''infra'', KustomizationKey ''flux-system'' ''apps'']"
  by code_simp

text \<open>The order is deterministic: it does not depend on the order in which Go visits its maps,
  in discovery or in the traversal, also when there are cycles.\<close>

theorem reconcile_order_deterministic:
  "reconcile_order ord1 (discover_flux_graph ord2 files) = reconcile_order ord3 (discover_flux_graph ord4 files)"
  by (rule reconcile_order_unique [OF discover_wf discover_wf]) (simp add: discover_flux_graph_def Let_def)

text \<open>The keys reported as cyclic are those in or behind a cycle: there are none exactly when
  the dependencies within the graph are acyclic.\<close>

theorem cycle_nodes_iff:
  "cycle_nodes ord (discover_flux_graph ord' files) = [] \<longleftrightarrow>
    acyclic (dep_edges (set (graph_keys (discover_flux_graph ord' files))) (in_deps (discover_flux_graph ord' files)))"
proof -
  define G where "G = discover_flux_graph ord' files"
  have wf: "flux_wf G" by (simp add: G_def discover_wf)
  obtain depth placed where k: "kahn ord G = (depth, placed)" by fastforce
  have "cycle_nodes ord G = [] \<longleftrightarrow> (\<forall>k \<in> set (graph_keys G). placeable (set (graph_keys G)) (in_deps G) k)"
    using kahn_result(1) [OF wf k] by (simp add: cycle_nodes_def k filter_empty_conv)
  then show ?thesis
    using placeable_acyclic [of "set (graph_keys G)" "in_deps G"]
    unfolding G_def [symmetric] by (auto simp: in_deps_def in_graph_keys)
qed

text \<open>The reverse edges of a discovered graph are its dependencies, read backwards.\<close>

lemma dependents_discovered:
  assumes "flux_wf G"
  shows "dependents (fg_reverse_deps G) = {(d, k). d \<in> set (depends_on G k)}"
proof -
  have count: "count_list (multi_get (fg_reverse_deps G) d) k = count_list (depends_on G k) d" for d k
    using assms by (simp add: flux_wf_def)
  have "k \<in> set (multi_get (fg_reverse_deps G) d) \<longleftrightarrow> d \<in> set (depends_on G k)" for d k
    using count [of d k] by (metis count_list_0_iff)
  then show ?thesis by (simp add: dependents_def)
qed

text \<open>C40: The impact of a change: the transitively affected keys are the directly affected ones and
  every key that depends on one of them, directly or through others. The set to reconcile lists
  each of them once, and each after those of them it depends on exactly when these dependencies
  have no cycle.\<close>

theorem impact_reaches_dependents:
  "let G = discover_flux_graph ord' files; impact = compute_impact ord G fs;
       affected = ir_transitively impact
   in set affected = {(d, k). d \<in> set (depends_on G k)}\<^sup>* `` set (ir_directly impact) \<and>
     mset (ir_reconcile_set impact) = mset affected \<and> distinct (ir_reconcile_set impact) \<and>
     (topological (sub_deps G affected) (ir_reconcile_set impact) \<longleftrightarrow>
        acyclic (dep_edges (set affected) (sub_deps G affected)))"
proof -
  define G where "G = discover_flux_graph ord' files"
  define direct where "direct = fold (\<lambda>f ks. fold add_new (match_file
    (nodes_of (fg_kustomizations G) (range_over ord 9 (graph_keys G))) f) ks) fs []"
  let ?bfs = "reverse_bfs (fg_reverse_deps G) [] (range_over ord 10 direct)"
  let ?sub = "sort_keys (range_over ord 12 ?bfs)"
  note bfs = reverse_bfs_reach [of "fg_reverse_deps G" "range_over ord 10 direct"]
  have fields: "ir_transitively (compute_impact ord G fs) = ?sub"
    "ir_directly (compute_impact ord G fs) = sort_keys (range_over ord 11 direct)"
    "ir_reconcile_set (compute_impact ord G fs) = topo_sort ord G ?sub"
    by (simp_all add: compute_impact_def Let_def direct_def)
  have wf: "flux_wf G" by (simp add: G_def discover_wf)
  have dist: "distinct ?sub" using bfs by (simp add: sort_keys_def)
  note topo = topo_sort_result [OF wf dist, of ord]
  have "set ?sub = {(d, k). d \<in> set (depends_on G k)}\<^sup>* `` set (sort_keys (range_over ord 11 direct))"
    unfolding dependents_discovered [OF wf, symmetric] using bfs by (simp add: sort_keys_def)
  moreover have "distinct (topo_sort ord G ?sub)"
    using topo(1) dist mset_eq_imp_distinct_iff by blast
  moreover have "set (topo_sort ord G ?sub) = set ?sub" using topo(1) by (metis set_mset_mset)
  then have "topological (sub_deps G ?sub) (topo_sort ord G ?sub) \<Longrightarrow> acyclic (dep_edges (set ?sub) (sub_deps G ?sub))"
    by (rule topological_acyclic [rotated]) (auto simp: sub_deps_def)
  ultimately show ?thesis using topo unfolding Let_def G_def [symmetric] fields by blast
qed

lemma clean_not_dot_prefix: "\<not> has_prefix (path_clean p) ''./''"
proof
  let ?es = "clean_elems (is_abs p) (split_on slash p)"
  note c = clean_elems_clean [of "is_abs p" p]
  assume "has_prefix (path_clean p) ''./''"
  then obtain r where r: "path_clean p = ''.'' @ slash # r" by (auto simp: has_prefix_iff)
  have nabs: "\<not> is_abs p" using r by (auto simp: path_clean_def path_of_elems_def)
  with r have ne: "?es \<noteq> []" and j: "join [slash] ?es = ''.'' @ slash # r"
    by (auto simp: path_clean_def path_of_elems_def split: if_splits)
  have "split_on slash (join [slash] ?es) = ?es"
    by (rule split_on_join [OF ne]) (use clean_list_elems [OF c] in \<open>simp add: list_all_iff\<close>)
  then have "?es = ''.'' # split_on slash r" unfolding j by (subst (asm) split_on_append_sep) auto
  then have "clean_list (is_abs p) (''.'' # split_on slash r)" using c by simp
  then obtain n ps where "''.'' # split_on slash r = replicate n ''..'' @ ps" "list_all plain_elem ps"
    by (auto simp only: clean_list_def)
  then show False by (cases n) (auto simp: plain_elem_def Cons_eq_append_conv)
qed

text \<open>A Kustomization at the root of the repository (path \<^verbatim>\<open>./\<close> or none, both stored as \<^verbatim>\<open>.\<close>) is
  never matched by a changed file: of all normalized paths only \<^verbatim>\<open>.\<close> itself is under it.\<close>

theorem root_kustomization_unmatched:
  "normalize_path ''./'' = ''.'' \<and> normalize_path [] = ''.'' \<and>
   (path_matches (normalize_path f) ''.'' \<longleftrightarrow> normalize_path f = ''.'')"
proof -
  have "normalize_path f = path_clean f" using clean_not_dot_prefix by (simp add: normalize_path_def trim_prefix_def)
  then have "\<not> has_prefix (normalize_path f) ''./''" using clean_not_dot_prefix by simp
  then have "path_matches (normalize_path f) ''.'' \<longleftrightarrow> normalize_path f = ''.''" by (simp add: path_matches_def)
  moreover have "normalize_path ''./'' = ''.'' \<and> normalize_path [] = ''.''" by code_simp
  ultimately show ?thesis by blast
qed

end
