(* ===== verification/Build_Graph.thy ===== *)
theory Build_Graph
  imports Kahn Flux_Graph
begin

text \<open>
  The order of builds (\<^verbatim>\<open>src/src/build/graph.go\<close>), the perform graph of builds and the scribe items
  they consume (\<^verbatim>\<open>perform_graph.go\<close>), the render slots, and the check of a step graph. Of a
  build the identifier, the dependencies and the staged source are read.

  Maps from identifiers are association lists; the orders of \<^verbatim>\<open>range\<close> over them are an argument, as
  in \<open>Flux_Graph\<close>. Both orders are runs of the loop of \<open>Kahn\<close>.
\<close>

section \<open>Builds\<close>

record build_config =
  bc_id :: string
  bc_depends_on :: "string list"
  bc_stage :: "string option"

text \<open>\<^verbatim>\<open>strings.CutPrefix\<close>.\<close>

definition cut_prefix :: "string \<Rightarrow> string \<Rightarrow> string option" where
  "cut_prefix s p = (if has_prefix s p then Some (drop (length p) s) else None)"

definition build_deps :: "build_config \<Rightarrow> string list" where
  "build_deps b = map (\<lambda>d. trim_prefix d ''build:'') (filter (\<lambda>d. cut_prefix d ''scribe:'' = None) (bc_depends_on b))"

definition scribe_deps :: "build_config \<Rightarrow> string list" where
  "scribe_deps b = map the (filter (\<lambda>x. x \<noteq> None) (map (\<lambda>d. cut_prefix d ''scribe:'') (bc_depends_on b)))"

text \<open>The staged source, when it is set and not a dependency already.\<close>

definition stage_dep :: "build_config \<Rightarrow> string list" where
  "stage_dep b = (case bc_stage b of None \<Rightarrow> [] | Some s \<Rightarrow> if s \<noteq> [] \<and> s \<notin> set (build_deps b) then [s] else [])"

datatype graph_error =
    UnknownBuild string string
  | UnknownStage string string
  | BuildCycle "string list"
  | UnknownReference string

text \<open>The last build of an identifier: \<^verbatim>\<open>byID\<close> is written in order.\<close>

definition by_id :: "build_config list \<Rightarrow> string \<Rightarrow> build_config option" where
  "by_id bs i = map_of (map (\<lambda>b. (bc_id b, b)) (rev bs)) i"

type_synonym edge_state = "(string \<times> int) list \<times> (string \<times> string list) list"

definition add_node :: "string \<Rightarrow> edge_state \<Rightarrow> edge_state" where
  "add_node i s = (case s of (indeg, kids) \<Rightarrow>
     (if map_of indeg i = None then AList.update i 0 indeg else indeg, kids))"

definition add_edge :: "string \<Rightarrow> string \<Rightarrow> edge_state \<Rightarrow> edge_state" where
  "add_edge parent child s = (case s of (indeg, kids) \<Rightarrow>
     (AList.update child (degree indeg child + 1) indeg, multi_add parent child kids))"

fun dep_edges_loop :: "build_config list \<Rightarrow> string \<Rightarrow> string list \<Rightarrow> edge_state \<Rightarrow> graph_error + edge_state" where
  "dep_edges_loop bs i [] s = Inr s"
| "dep_edges_loop bs i (d # ds) s =
     (if by_id bs d = None then Inl (UnknownBuild i d) else dep_edges_loop bs i ds (add_edge d i s))"

fun stage_edge_loop :: "build_config list \<Rightarrow> string \<Rightarrow> string list \<Rightarrow> edge_state \<Rightarrow> graph_error + edge_state" where
  "stage_edge_loop bs i [] s = Inr s"
| "stage_edge_loop bs i (d # ds) s =
     (if by_id bs d = None then Inl (UnknownStage i d) else stage_edge_loop bs i ds (add_edge d i s))"

fun build_edges :: "build_config list \<Rightarrow> build_config list \<Rightarrow> edge_state \<Rightarrow> graph_error + edge_state" where
  "build_edges all [] s = Inr s"
| "build_edges all (b # bs) s =
     res_bind (dep_edges_loop all (bc_id b) (build_deps b) (add_node (bc_id b) s))
       (\<lambda>s. res_bind (stage_edge_loop all (bc_id b) (stage_dep b) s) (build_edges all bs))"

definition build_kahn :: "(string \<times> string list) list \<Rightarrow> (string, unit) kahn_config" where
  "build_kahn kids =
     \<lparr>kc_lifo = False, kc_sort = None, kc_skip = (\<lambda>_ _. False), kc_visit = (\<lambda>_ u. u), kc_succs = multi_get kids\<rparr>"

definition build_order :: "string orders \<Rightarrow> build_config list \<Rightarrow> graph_error + build_config list" where
  "build_order ord builds =
     (if builds = [] then Inr []
      else res_bind (build_edges builds builds ([], []))
        (\<lambda>(indeg, kids).
          let queue = map bc_id (filter (\<lambda>b. degree indeg (bc_id b) = 0) builds);
              (ordered, _, indeg') = kahn_loop (build_kahn kids) [] () indeg queue
          in if length ordered \<noteq> length builds
             then Inl (BuildCycle (filter (\<lambda>i. degree indeg' i > 0) (range_over ord 0 (map fst indeg'))))
             else Inr (map (\<lambda>i. the (by_id builds i)) ordered)))"

section \<open>The perform graph\<close>

datatype perform_node = RunBuild build_config | RenderScribe string

definition is_scribe :: "perform_node \<Rightarrow> bool" where
  "is_scribe n = (case n of RunBuild _ \<Rightarrow> False | RenderScribe i \<Rightarrow> i \<noteq> [])"

abbreviation scribe_node :: "string \<Rightarrow> string" where
  "scribe_node s \<equiv> ''scribe:'' @ s"

definition fed_items :: "build_config list \<Rightarrow> string list" where
  "fed_items builds = fold (\<lambda>b fed. fold add_new (scribe_deps b) fed) builds []"

definition node_and_edge :: "string \<Rightarrow> string \<Rightarrow> edge_state \<Rightarrow> edge_state" where
  "node_and_edge parent child s = add_edge parent child (add_node parent s)"

definition perform_build_edges :: "build_config \<Rightarrow> edge_state \<Rightarrow> edge_state" where
  "perform_build_edges b s =
     fold (\<lambda>i. node_and_edge (scribe_node i) (bc_id b)) (scribe_deps b)
       (fold (\<lambda>d. node_and_edge d (bc_id b)) (build_deps b @ stage_dep b) (add_node (bc_id b) s))"

text \<open>The \<^verbatim>\<open>build:\<close> of a scribe item is an argument: \<^const>\<open>None\<close> for an unknown item, empty for none.\<close>

definition perform_scribe_edges :: "(string \<Rightarrow> string option) \<Rightarrow> string \<Rightarrow> edge_state \<Rightarrow> edge_state" where
  "perform_scribe_edges scribe_build i s =
     (let s = add_node (scribe_node i) s in
      case scribe_build i of
        None \<Rightarrow> s
      | Some b \<Rightarrow> if b \<noteq> [] then node_and_edge b (scribe_node i) s else s)"

definition perform_edges :: "string orders \<Rightarrow> build_config list \<Rightarrow> (string \<Rightarrow> string option) \<Rightarrow> edge_state" where
  "perform_edges ord builds scribe_build =
     fold (perform_scribe_edges scribe_build) (range_over ord 1 (fed_items builds))
       (fold perform_build_edges builds ([], []))"

definition perform_kahn :: "(string \<times> string list) list \<Rightarrow> (string, unit) kahn_config" where
  "perform_kahn kids =
     \<lparr>kc_lifo = False, kc_sort = None, kc_skip = (\<lambda>_ _. False), kc_visit = (\<lambda>_ u. u),
      kc_succs = (\<lambda>i. sort_strings (multi_get kids i))\<rparr>"

definition sorted_keys :: "string orders \<Rightarrow> (string \<times> int) list \<Rightarrow> string list" where
  "sorted_keys ord m = sort_strings (range_over ord 2 (map fst m))"

fun perform_nodes :: "build_config list \<Rightarrow> string list \<Rightarrow> graph_error + perform_node list" where
  "perform_nodes builds [] = Inr []"
| "perform_nodes builds (i # is) =
     (case cut_prefix i ''scribe:'' of
        Some s \<Rightarrow> res_bind (perform_nodes builds is) (\<lambda>ns. Inr (RenderScribe s # ns))
      | None \<Rightarrow>
          (case by_id builds i of
             None \<Rightarrow> Inl (UnknownReference i)
           | Some b \<Rightarrow> res_bind (perform_nodes builds is) (\<lambda>ns. Inr (RunBuild b # ns))))"

definition perform_order :: "string orders \<Rightarrow> build_config list \<Rightarrow> (string \<Rightarrow> string option)
    \<Rightarrow> graph_error + perform_node list" where
  "perform_order ord builds scribe_build =
     (let (indeg, kids) = perform_edges ord builds scribe_build;
          queue = filter (\<lambda>i. degree indeg i = 0) (sorted_keys ord indeg);
          (ordered, _, indeg') = kahn_loop (perform_kahn kids) [] () indeg queue
      in if length ordered \<noteq> length indeg'
         then Inl (BuildCycle (sort_strings (filter (\<lambda>i. degree indeg' i > 0) (range_over ord 3 (map fst indeg')))))
         else perform_nodes builds ordered)"

text \<open>A node that is neither (an empty item without a build) is a nil dereference: \<^const>\<open>None\<close>.\<close>

fun render_slots_loop :: "perform_node list \<Rightarrow> string \<Rightarrow> string list \<times> (string \<times> string list) list
    \<Rightarrow> (string list \<times> (string \<times> string list) list) option" where
  "render_slots_loop [] last_build s = Some s"
| "render_slots_loop (n # ns) last_build (first, after) =
     (case n of
        RenderScribe i \<Rightarrow>
          if \<not> is_scribe n then None
          else if last_build = [] then render_slots_loop ns last_build (first @ [i], after)
          else render_slots_loop ns last_build (first, multi_add last_build i after)
      | RunBuild b \<Rightarrow> render_slots_loop ns (bc_id b) (first, after))"

definition scribe_render_slots :: "perform_node list \<Rightarrow> (string list \<times> (string \<times> string list) list) option" where
  "scribe_render_slots order = render_slots_loop order [] ([], [])"

section \<open>The step graph\<close>

record universal_step =
  us_id :: string
  us_inputs :: "string list"
  us_outputs :: "string list"

datatype step_error =
    DuplicateStep string
  | DuplicateOutput string string string
  | UnproducedInput string string

fun outputs_loop :: "string \<Rightarrow> string list \<Rightarrow> (string \<times> string) list \<Rightarrow> step_error + (string \<times> string) list" where
  "outputs_loop sid [] m = Inr m"
| "outputs_loop sid (p # ps) m =
     (case map_of m p of
        Some prev \<Rightarrow> Inl (DuplicateOutput p prev sid)
      | None \<Rightarrow> outputs_loop sid ps (AList.update p sid m))"

fun collect_loop :: "universal_step list \<Rightarrow> string list \<Rightarrow> (string \<times> string) list \<Rightarrow> step_error option" where
  "collect_loop [] ids m = None"
| "collect_loop (s # ss) ids m =
     (if us_id s \<in> set ids then Some (DuplicateStep (us_id s))
      else case outputs_loop (us_id s) (us_outputs s) m of
        Inl e \<Rightarrow> Some e
      | Inr m' \<Rightarrow> collect_loop ss (us_id s # ids) m')"

fun inputs_loop :: "universal_step list \<Rightarrow> string list \<Rightarrow> step_error option" where
  "inputs_loop [] produced = None"
| "inputs_loop (s # ss) produced =
     (case find (\<lambda>p. p \<notin> set produced) (us_inputs s) of
        Some p \<Rightarrow> Some (UnproducedInput (us_id s) p)
      | None \<Rightarrow> inputs_loop ss (us_outputs s @ produced))"

definition validate_build_graph :: "universal_step list \<Rightarrow> step_error option" where
  "validate_build_graph steps =
     (case collect_loop steps [] [] of
        Some e \<Rightarrow> Some e
      | None \<Rightarrow> inputs_loop steps [])"

section \<open>Edge states\<close>

text \<open>A state built from a list of edges counts them: in-degrees by child, children by parent.\<close>

definition counts_edges :: "(string \<times> string) list \<Rightarrow> edge_state \<Rightarrow> bool" where
  "counts_edges E s \<longleftrightarrow>
     (\<forall>k. degree (fst s) k = int (length (filter (\<lambda>e. snd e = k) E))) \<and>
     (\<forall>d. multi_get (snd s) d = map snd (filter (\<lambda>e. fst e = d) E)) \<and>
     distinct (map fst (fst s)) \<and> snd ` set E \<subseteq> set (map fst (fst s))"

definition parents_of :: "(string \<times> string) list \<Rightarrow> string \<Rightarrow> string list" where
  "parents_of E k = map fst (filter (\<lambda>e. snd e = k) E)"

abbreviation state_nodes :: "edge_state \<Rightarrow> string set" where
  "state_nodes s \<equiv> set (map fst (fst s))"

lemma counts_edges_empty [simp]: "counts_edges [] ([], [])"
  by (simp add: counts_edges_def degree_def)

lemma update_keys_set: "set (map fst (AList.update k v m)) = insert k (set (map fst m))"
  by (auto simp: update_keys)

lemma add_node_counts:
  assumes "counts_edges E s"
  shows "counts_edges E (add_node i s)" "state_nodes (add_node i s) = insert i (state_nodes s)"
proof -
  obtain indeg kids where s: "s = (indeg, kids)" by fastforce
  have "map_of indeg i = None \<Longrightarrow> degree indeg i = 0" by (simp add: degree_def)
  then show "counts_edges E (add_node i s)" "state_nodes (add_node i s) = insert i (state_nodes s)"
    using assms update_keys_set [of i 0 indeg]
    by (auto simp: s add_node_def counts_edges_def distinct_update map_of_eq_None_iff)
qed

lemma add_edge_counts:
  assumes "counts_edges E s"
  shows "counts_edges (E @ [(p, c)]) (add_edge p c s)" "state_nodes (add_edge p c s) = insert c (state_nodes s)"
proof -
  obtain indeg kids where s: "s = (indeg, kids)" by fastforce
  show "counts_edges (E @ [(p, c)]) (add_edge p c s)"
    using assms update_keys_set [of c "degree indeg c + 1" indeg]
    by (auto simp: s add_edge_def counts_edges_def distinct_update)
  show "state_nodes (add_edge p c s) = insert c (state_nodes s)"
    using update_keys_set [of c "degree indeg c + 1" indeg] by (simp add: s add_edge_def)
qed

lemma count_filter_pairs:
  "count_list (map snd (filter (\<lambda>e. fst e = d) E)) k = count_list (map fst (filter (\<lambda>e. snd e = k) E)) d"
  by (induction E) auto

lemma edge_kahn_graph:
  assumes "counts_edges E s" "fst ` set E \<subseteq> state_nodes s"
    and "\<And>d k. count_list (kc_succs C d) k = count_list (multi_get (snd s) d) k"
    and "kc_skip C = (\<lambda>_ _. False)"
  shows "kahn_graph (state_nodes s) (parents_of E) C"
proof
  fix k d and out :: "string list"
  show "set (parents_of E k) \<subseteq> state_nodes s" using assms(2) by (auto simp: parents_of_def)
  show "count_list (kc_succs C d) k = count_list (parents_of E k) d"
    using assms(1,3) count_filter_pairs by (simp add: counts_edges_def parents_of_def)
  show "\<not> kc_skip C out k" by (simp add: assms(4))
  have "k \<in> set (multi_get (snd s) d) \<Longrightarrow> k \<in> state_nodes s"
    using assms(1) by (auto simp: counts_edges_def)
  moreover have "k \<in> set (kc_succs C d) \<longleftrightarrow> k \<in> set (multi_get (snd s) d)"
    using assms(3) [of d k] by (metis count_list_0_iff)
  ultimately show "k \<in> set (kc_succs C d) \<Longrightarrow> k \<in> state_nodes s \<or> kc_skip C out k" by simp
qed simp

text \<open>A run from the nodes without parents.\<close>

lemma edge_loop:
  assumes g: "counts_edges E s" "fst ` set E \<subseteq> state_nodes s"
    "\<And>d k. count_list (kc_succs C d) k = count_list (multi_get (snd s) d) k" "kc_skip C = (\<lambda>_ _. False)"
    and q: "distinct q" "set q = {k \<in> state_nodes s. degree (fst s) k = 0}"
    and run: "kahn_loop C [] x (fst s) q = (out, x', indeg')"
  shows "distinct out" "set out \<subseteq> state_nodes s" "topological (parents_of E) out"
    "set out = state_nodes s \<longleftrightarrow> acyclic (dep_edges (state_nodes s) (parents_of E))"
proof -
  note kg = edge_kahn_graph [OF g]
  have deg: "degree (fst s) k = int (length (parents_of E k))" for k
    using g(1) by (simp add: counts_edges_def parents_of_def)
  have "kahn_graph.waiting (state_nodes s) (parents_of E) [] (fst s) q"
    unfolding kahn_graph.waiting_def [OF kg] kahn_graph.missing_def [OF kg]
    using q deg by (simp add: topological_def)
  from kahn_graph.loop_waiting [OF kg this run]
  have w: "kahn_graph.waiting (state_nodes s) (parents_of E) out indeg' []" .
  show "distinct out" "set out \<subseteq> state_nodes s" "topological (parents_of E) out"
    using w unfolding kahn_graph.waiting_def [OF kg] by simp_all
  have "set out = {k. placeable (state_nodes s) (parents_of E) k}" by (rule kahn_graph.waiting_placeable [OF kg w])
  moreover have "set (parents_of E k) \<subseteq> state_nodes s" for k using g(2) by (auto simp: parents_of_def)
  ultimately show "set out = state_nodes s \<longleftrightarrow> acyclic (dep_edges (state_nodes s) (parents_of E))"
    using placeable_acyclic [of "state_nodes s" "parents_of E"] by (auto elim: placeable.cases)
qed

section \<open>The order of builds\<close>

definition all_deps :: "build_config \<Rightarrow> string list" where
  "all_deps b = build_deps b @ stage_dep b"

definition build_edge_list :: "build_config list \<Rightarrow> (string \<times> string) list" where
  "build_edge_list bs = concat (map (\<lambda>b. map (\<lambda>d. (d, bc_id b)) (all_deps b)) bs)"

lemma fold_edges_counts:
  "counts_edges E s \<Longrightarrow> i \<in> state_nodes s \<Longrightarrow>
    counts_edges (E @ map (\<lambda>d. (d, i)) ds) (fold (\<lambda>d. add_edge d i) ds s) \<and>
    state_nodes (fold (\<lambda>d. add_edge d i) ds s) = state_nodes s"
proof (induction ds arbitrary: E s)
  case (Cons d ds)
  note c = add_edge_counts [OF Cons.prems(1), of d i]
  from Cons.IH [OF c(1)] c(2) Cons.prems(2) show ?case by (simp add: insert_absorb)
qed simp

lemma dep_edges_loop_eq:
  "dep_edges_loop all i ds s =
    (case find (\<lambda>d. by_id all d = None) ds of
       Some d \<Rightarrow> Inl (UnknownBuild i d) | None \<Rightarrow> Inr (fold (\<lambda>d. add_edge d i) ds s))"
  by (induction ds arbitrary: s) (simp_all split: option.split)

lemma stage_edge_loop_eq:
  "stage_edge_loop all i ds s =
    (case find (\<lambda>d. by_id all d = None) ds of
       Some d \<Rightarrow> Inl (UnknownStage i d) | None \<Rightarrow> Inr (fold (\<lambda>d. add_edge d i) ds s))"
  by (induction ds arbitrary: s) (simp_all split: option.split)

lemma build_edges_Inr:
  "build_edges all bs s = Inr s' \<Longrightarrow> counts_edges E s \<Longrightarrow>
    counts_edges (E @ build_edge_list bs) s' \<and> state_nodes s' = state_nodes s \<union> bc_id ` set bs \<and>
    (\<forall>b \<in> set bs. \<forall>d \<in> set (all_deps b). by_id all d \<noteq> None)"
proof (induction bs arbitrary: s E)
  case Nil
  then show ?case by (simp add: build_edge_list_def)
next
  case (Cons b bs)
  let ?n = "add_node (bc_id b) s"
  let ?s1 = "fold (\<lambda>d. add_edge d (bc_id b)) (build_deps b) ?n"
  let ?s2 = "fold (\<lambda>d. add_edge d (bc_id b)) (stage_dep b) ?s1"
  have known: "find (\<lambda>d. by_id all d = None) (build_deps b) = None" "find (\<lambda>d. by_id all d = None) (stage_dep b) = None"
    and rest: "build_edges all bs ?s2 = Inr s'"
    using Cons.prems(1) by (auto simp: dep_edges_loop_eq stage_edge_loop_eq split: option.splits)
  have s2: "?s2 = fold (\<lambda>d. add_edge d (bc_id b)) (all_deps b) ?n" by (simp add: all_deps_def)
  note n = add_node_counts [OF Cons.prems(2), of "bc_id b"]
  have two: "counts_edges (E @ map (\<lambda>d. (d, bc_id b)) (all_deps b)) ?s2 \<and> state_nodes ?s2 = insert (bc_id b) (state_nodes s)"
    unfolding s2 using fold_edges_counts [OF n(1), of "bc_id b" "all_deps b"] n(2) by simp
  from Cons.IH [OF rest, of "E @ map (\<lambda>d. (d, bc_id b)) (all_deps b)"] two
  have "counts_edges (E @ build_edge_list (b # bs)) s'" "state_nodes s' = insert (bc_id b) (state_nodes s) \<union> bc_id ` set bs"
    "\<forall>b \<in> set bs. \<forall>d \<in> set (all_deps b). by_id all d \<noteq> None"
    by (simp_all add: build_edge_list_def)
  moreover have "\<forall>d \<in> set (all_deps b). by_id all d \<noteq> None"
    using known by (auto simp: all_deps_def find_None_iff)
  ultimately show ?case by simp
qed

lemma build_edges_Inl:
  "build_edges all bs s = Inl e \<Longrightarrow>
    \<exists>b \<in> set bs. \<exists>d \<in> set (all_deps b). by_id all d = None \<and> (e = UnknownBuild (bc_id b) d \<or> e = UnknownStage (bc_id b) d)"
proof (induction bs arbitrary: s)
  case (Cons b bs)
  have f: "find P xs = Some x \<Longrightarrow> x \<in> set xs \<and> P x" for P and xs :: "string list" and x
    by (metis find_Some_iff nth_mem)
  show ?case
    using Cons.prems Cons.IH
    by (auto simp: dep_edges_loop_eq stage_edge_loop_eq all_deps_def split: option.splits dest!: f)
qed simp

lemma by_id_distinct: "distinct (map bc_id bs) \<Longrightarrow> b \<in> set bs \<Longrightarrow> by_id bs (bc_id b) = Some b"
proof -
  assume "distinct (map bc_id bs)" "b \<in> set bs"
  then have "distinct (map fst (map (\<lambda>b. (bc_id b, b)) (rev bs)))" "(bc_id b, b) \<in> set (map (\<lambda>b. (bc_id b, b)) (rev bs))"
    by (simp_all add: o_def rev_map [symmetric])
  then show ?thesis unfolding by_id_def by (rule map_of_is_SomeI)
qed

lemma by_id_None: "by_id bs i = None \<longleftrightarrow> i \<notin> bc_id ` set bs"
  by (simp add: by_id_def map_of_eq_None_iff image_image)

lemma parents_build_edges:
  "distinct (map bc_id bs) \<Longrightarrow> b \<in> set bs \<Longrightarrow> parents_of (build_edge_list bs) (bc_id b) = all_deps b"
proof (induction bs)
  case (Cons c bs)
  have other: "parents_of (map (\<lambda>d. (d, bc_id c)) ds) i = (if i = bc_id c then ds else [])" for ds i
    by (induction ds) (auto simp: parents_of_def)
  have none: "i \<notin> bc_id ` set bs \<Longrightarrow> parents_of (build_edge_list bs) i = []" for i bs
    by (auto simp: parents_of_def build_edge_list_def filter_empty_conv)
  have "parents_of (build_edge_list (c # bs)) (bc_id b) =
      (if bc_id b = bc_id c then all_deps c else []) @ parents_of (build_edge_list bs) (bc_id b)"
    using other [of "all_deps c" "bc_id b"] by (simp add: build_edge_list_def parents_of_def)
  moreover have "b = c" if "bc_id b = bc_id c"
    using that Cons.prems by (auto simp: image_iff)
  ultimately show ?case using Cons none [of "bc_id c" bs] by auto
qed simp

lemma perm_of_set_eq: "distinct xs \<Longrightarrow> distinct ys \<Longrightarrow> set xs \<subseteq> set ys \<Longrightarrow> (length xs = length ys \<longleftrightarrow> set xs = set ys)"
  by (metis List.finite_set card_subset_eq distinct_card)

lemma build_order_loop:
  assumes dist: "distinct (map bc_id builds)" and edges: "build_edges builds builds ([], []) = Inr (indeg, kids)"
    and run: "kahn_loop (build_kahn kids) [] () indeg (map bc_id (filter (\<lambda>b. degree indeg (bc_id b) = 0) builds)) = (out, u, indeg')"
  shows "length out = length builds \<longleftrightarrow> acyclic (dep_edges (bc_id ` set builds) (parents_of (build_edge_list builds)))"
    and "topological (parents_of (build_edge_list builds)) out"
    and "length out = length builds \<Longrightarrow> mset out = mset (map bc_id builds)"
proof -
  let ?E = "build_edge_list builds" and ?s = "(indeg, kids)"
  let ?q = "map bc_id (filter (\<lambda>b. degree indeg (bc_id b) = 0) builds)"
  have E: "counts_edges ?E ?s" "state_nodes ?s = set (map bc_id builds)"
    and known: "\<forall>b \<in> set builds. \<forall>d \<in> set (all_deps b). by_id builds d \<noteq> None"
    using build_edges_Inr [OF edges counts_edges_empty] by simp_all
  have par: "fst ` set ?E \<subseteq> state_nodes ?s"
    unfolding E(2) using known by (auto simp: build_edge_list_def by_id_None)
  have q: "distinct ?q" "set ?q = {k \<in> state_nodes ?s. degree (fst ?s) k = 0}"
    unfolding E(2) using dist by (auto simp: distinct_map inj_on_def)
  have kids: "count_list (kc_succs (build_kahn kids) d) k = count_list (multi_get (snd ?s) d) k" for d k
    by (simp add: build_kahn_def)
  have skip: "kc_skip (build_kahn kids) = (\<lambda>_ _. False)" by (simp add: build_kahn_def)
  note loop = edge_loop [OF E(1) par kids skip q, unfolded fst_conv, OF run]
  show "topological (parents_of ?E) out" by (rule loop(3))
  have len: "length out = length (map bc_id builds) \<longleftrightarrow> set out = set (map bc_id builds)"
    by (rule perm_of_set_eq [OF loop(1) dist]) (use loop(2) E(2) in simp)
  with loop(4) E(2)
  show "length out = length builds \<longleftrightarrow> acyclic (dep_edges (bc_id ` set builds) (parents_of ?E))" by simp
  assume "length out = length builds"
  with len have "set out = set (map bc_id builds)" by simp
  then show "mset out = mset (map bc_id builds)" using loop(1) dist set_eq_iff_mset_eq_distinct by blast
qed

lemma map_by_id:
  assumes "distinct (map bc_id builds)" "mset out = mset (map bc_id builds)"
  shows "mset (map (\<lambda>i. the (by_id builds i)) out) = mset builds" "map bc_id (map (\<lambda>i. the (by_id builds i)) out) = out"
proof -
  have id: "the (by_id builds (bc_id b)) = b" if "b \<in> set builds" for b
    using by_id_distinct [OF assms(1) that] by simp
  have "mset (map (\<lambda>i. the (by_id builds i)) out) = mset (map (\<lambda>i. the (by_id builds i)) (map bc_id builds))"
    using assms(2) by (metis mset_map)
  also have "map (\<lambda>i. the (by_id builds i)) (map bc_id builds) = builds"
    by (simp add: o_def id cong: map_cong)
  finally show "mset (map (\<lambda>i. the (by_id builds i)) out) = mset builds" .
  have "set out = bc_id ` set builds" using assms(2) by (metis list.set_map set_mset_mset)
  then show "map bc_id (map (\<lambda>i. the (by_id builds i)) out) = out"
    using id by (auto simp: o_def intro!: map_idI)
qed

text \<open>C4: For builds with distinct identifiers, the order is a permutation of them in which every
  build comes after the builds it depends on or stages from; a cycle is reported exactly when the
  dependencies have one, and otherwise an error names a dependency that is no build.\<close>

theorem build_order_correct:
  assumes "distinct (map bc_id builds)"
  shows "case build_order ord builds of
      Inr out \<Rightarrow> mset out = mset builds \<and>
        topological (parents_of (build_edge_list builds)) (map bc_id out)
    | Inl (BuildCycle ids) \<Rightarrow>
        \<not> acyclic (dep_edges (bc_id ` set builds) (parents_of (build_edge_list builds)))
    | Inl e \<Rightarrow> list_ex (\<lambda>b. list_ex (\<lambda>d. by_id builds d = None \<and>
        (e = UnknownBuild (bc_id b) d \<or> e = UnknownStage (bc_id b) d)) (all_deps b)) builds"
proof (cases "builds = []")
  case True
  then show ?thesis by (simp add: build_order_def topological_def)
next
  case ne: False
  show ?thesis
  proof (cases "build_edges builds builds ([], [])")
    case (Inl e)
    from build_edges_Inl [OF this] Inl ne show ?thesis
      by (auto simp: build_order_def list_ex_iff)
  next
    case (Inr s)
    obtain indeg kids where s: "s = (indeg, kids)" by fastforce
    obtain out u indeg' where run: "kahn_loop (build_kahn kids) [] () indeg
        (map bc_id (filter (\<lambda>b. degree indeg (bc_id b) = 0) builds)) = (out, u, indeg')" by (metis prod_cases3)
    note loop = build_order_loop [OF assms Inr [unfolded s] run]
    have order: "build_order ord builds = (if length out \<noteq> length builds
        then Inl (BuildCycle (filter (\<lambda>i. degree indeg' i > 0) (range_over ord 0 (map fst indeg'))))
        else Inr (map (\<lambda>i. the (by_id builds i)) out))"
      using ne Inr run by (simp add: build_order_def s Let_def)
    show ?thesis
      using loop map_by_id [OF assms loop(3)] by (simp add: order)
  qed
qed

definition demo_build :: "string \<Rightarrow> string list \<Rightarrow> build_config" where
  "demo_build i ds = \<lparr>bc_id = i, bc_depends_on = ds, bc_stage = None\<rparr>"

theorem build_order_correct_witness:
  "build_order (\<lambda>_ ks. ks) [demo_build ''app'' [''build:lib''], demo_build ''lib'' []] =
     Inr [demo_build ''lib'' [], demo_build ''app'' [''build:lib'']] \<and>
   topological (parents_of (build_edge_list [demo_build ''app'' [''build:lib''], demo_build ''lib'' []])) [''lib'', ''app'']"
proof -
  let ?bs = "[demo_build ''app'' [''build:lib''], demo_build ''lib'' []]"
  have "build_order (\<lambda>_ ks. ks) ?bs = Inr [demo_build ''lib'' [], demo_build ''app'' [''build:lib'']]" by code_simp
  moreover have "distinct (map bc_id ?bs)" by (simp add: demo_build_def)
  ultimately show ?thesis
    using build_order_correct [of ?bs "\<lambda>_ ks. ks"] by (simp add: demo_build_def)
qed

section \<open>The perform order\<close>

definition perform_parents :: "build_config \<Rightarrow> string list" where
  "perform_parents b = build_deps b @ stage_dep b @ map scribe_node (scribe_deps b)"

definition scribe_edge :: "(string \<Rightarrow> string option) \<Rightarrow> string \<Rightarrow> (string \<times> string) list" where
  "scribe_edge scribe_build i =
     (case scribe_build i of None \<Rightarrow> [] | Some b \<Rightarrow> if b \<noteq> [] then [(b, scribe_node i)] else [])"

definition perform_edge_list :: "build_config list \<Rightarrow> (string \<Rightarrow> string option) \<Rightarrow> string list \<Rightarrow> (string \<times> string) list" where
  "perform_edge_list builds scribe_build fed =
     concat (map (\<lambda>b. map (\<lambda>d. (d, bc_id b)) (perform_parents b)) builds) @ concat (map (scribe_edge scribe_build) fed)"

text \<open>A state whose edges have both ends among its nodes.\<close>

definition closed_counts :: "(string \<times> string) list \<Rightarrow> edge_state \<Rightarrow> bool" where
  "closed_counts E s \<longleftrightarrow> counts_edges E s \<and> fst ` set E \<subseteq> state_nodes s"

lemma closed_add_node:
  "closed_counts E s \<Longrightarrow> closed_counts E (add_node i s) \<and> state_nodes (add_node i s) = insert i (state_nodes s)"
  using add_node_counts [of E s i] by (auto simp: closed_counts_def)

lemma closed_node_and_edge:
  "closed_counts E s \<Longrightarrow> closed_counts (E @ [(p, c)]) (node_and_edge p c s) \<and>
    state_nodes (node_and_edge p c s) = insert p (insert c (state_nodes s))"
  using add_node_counts [of E s p] add_edge_counts [of E "add_node p s" p c]
  by (auto simp: closed_counts_def node_and_edge_def)

lemma closed_fold:
  "closed_counts E s \<Longrightarrow> closed_counts (E @ map (\<lambda>d. (d, c)) ds) (fold (\<lambda>d. node_and_edge d c) ds s) \<and>
    state_nodes (fold (\<lambda>d. node_and_edge d c) ds s) = state_nodes s \<union> set ds \<union> (if ds = [] then {} else {c})"
proof (induction ds arbitrary: E s)
  case (Cons d ds)
  from Cons.IH [of "E @ [(d, c)]" "node_and_edge d c s"] closed_node_and_edge [OF Cons.prems, of d c]
  show ?case by auto
qed simp

lemma closed_build:
  assumes "closed_counts E s"
  shows "closed_counts (E @ map (\<lambda>d. (d, bc_id b)) (perform_parents b)) (perform_build_edges b s) \<and>
    state_nodes (perform_build_edges b s) = insert (bc_id b) (state_nodes s) \<union> set (perform_parents b)"
proof -
  have "perform_build_edges b s = fold (\<lambda>d. node_and_edge d (bc_id b)) (perform_parents b) (add_node (bc_id b) s)"
    by (simp add: perform_build_edges_def perform_parents_def fold_map o_def)
  with closed_fold [of E "add_node (bc_id b) s" "bc_id b" "perform_parents b"] closed_add_node [OF assms, of "bc_id b"]
  show ?thesis by auto
qed

lemma closed_builds:
  "closed_counts E s \<Longrightarrow>
    closed_counts (E @ concat (map (\<lambda>b. map (\<lambda>d. (d, bc_id b)) (perform_parents b)) bs)) (fold perform_build_edges bs s) \<and>
    state_nodes (fold perform_build_edges bs s) =
      state_nodes s \<union> bc_id ` set bs \<union> (\<Union>b \<in> set bs. set (perform_parents b))"
proof (induction bs arbitrary: E s)
  case (Cons b bs)
  from Cons.IH [of "E @ map (\<lambda>d. (d, bc_id b)) (perform_parents b)" "perform_build_edges b s"] closed_build [OF Cons.prems, of b]
  show ?case by auto
qed simp

lemma closed_scribe:
  "closed_counts E s \<Longrightarrow> closed_counts (E @ scribe_edge sb i) (perform_scribe_edges sb i s) \<and>
    state_nodes (perform_scribe_edges sb i s) = insert (scribe_node i) (state_nodes s) \<union> fst ` set (scribe_edge sb i)"
  using closed_add_node [of E s "scribe_node i"] closed_node_and_edge [of E "add_node (scribe_node i) s" _ "scribe_node i"]
  by (auto simp: perform_scribe_edges_def scribe_edge_def Let_def split: option.split)

lemma closed_scribes:
  "closed_counts E s \<Longrightarrow>
    closed_counts (E @ concat (map (scribe_edge sb) fed)) (fold (perform_scribe_edges sb) fed s)"
proof (induction fed arbitrary: E s)
  case (Cons i fed)
  from Cons.IH [of "E @ scribe_edge sb i" "perform_scribe_edges sb i s"] closed_scribe [OF Cons.prems, of sb i]
  show ?case by simp
qed simp

abbreviation fed_order :: "string orders \<Rightarrow> build_config list \<Rightarrow> string list" where
  "fed_order ord builds \<equiv> range_over ord 1 (fed_items builds)"

lemma perform_edges_closed:
  "closed_counts (perform_edge_list builds sb (fed_order ord builds)) (perform_edges ord builds sb)"
  using closed_scribes [OF conjunct1 [OF closed_builds [of "[]" "([], [])" builds]], of sb "fed_order ord builds"]
  by (simp add: perform_edges_def perform_edge_list_def closed_counts_def)

definition node_id :: "perform_node \<Rightarrow> string" where
  "node_id n = (case n of RunBuild b \<Rightarrow> bc_id b | RenderScribe i \<Rightarrow> scribe_node i)"

lemma cut_prefix_Some: "cut_prefix s p = Some r \<longleftrightarrow> s = p @ r"
  by (auto simp: cut_prefix_def has_prefix_iff)

lemma by_id_Some: "by_id bs i = Some b \<Longrightarrow> bc_id b = i \<and> b \<in> set bs"
  unfolding by_id_def by (drule map_of_SomeD) auto

lemma perform_nodes_ids:
  "perform_nodes builds is = Inr ns \<Longrightarrow> map node_id ns = is"
proof (induction "is" arbitrary: ns)
  case (Cons i "is")
  then show ?case
    by (auto simp: cut_prefix_Some node_id_def res_bind_Inr_iff split: option.splits dest: by_id_Some)
qed simp

lemma perform_nodes_error:
  "perform_nodes builds is = Inl e \<Longrightarrow>
    \<exists>i \<in> set is. e = UnknownReference i \<and> cut_prefix i ''scribe:'' = None \<and> by_id builds i = None"
proof (induction "is")
  case (Cons i "is")
  then show ?case by (auto simp: res_bind_Inl_iff split: option.splits)
qed simp

text \<open>The perform order lists every build, referenced build and consumed scribe item once, each
  after all it waits for: a build after its dependencies, its staged source and the items it
  consumes, an item after the build that feeds it. It fails only on a cycle or on a reference to
  an unknown build.\<close>

theorem perform_order_correct:
  "case perform_order ord builds scribe_build of
      Inr ns \<Rightarrow> distinct (map node_id ns) \<and>
        set (map node_id ns) = state_nodes (perform_edges ord builds scribe_build) \<and>
        topological (parents_of (perform_edge_list builds scribe_build (fed_order ord builds))) (map node_id ns)
    | Inl (BuildCycle ids) \<Rightarrow>
        \<not> acyclic (dep_edges (state_nodes (perform_edges ord builds scribe_build))
            (parents_of (perform_edge_list builds scribe_build (fed_order ord builds))))
    | Inl (UnknownReference i) \<Rightarrow> cut_prefix i ''scribe:'' = None \<and> by_id builds i = None
    | Inl e \<Rightarrow> False"
proof -
  define E where "E = perform_edge_list builds scribe_build (fed_order ord builds)"
  define s where "s = perform_edges ord builds scribe_build"
  define q where "q = filter (\<lambda>i. degree (fst s) i = 0) (sorted_keys ord (fst s))"
  obtain out u indeg' where run: "kahn_loop (perform_kahn (snd s)) [] () (fst s) q = (out, u, indeg')"
    by (metis prod_cases3)
  have E: "counts_edges E s" "fst ` set E \<subseteq> state_nodes s"
    using perform_edges_closed [of builds scribe_build ord] by (simp_all add: closed_counts_def E_def s_def)
  have q: "distinct q" "set q = {k \<in> state_nodes s. degree (fst s) k = 0}"
    using E(1) by (auto simp: q_def sorted_keys_def counts_edges_def)
  have kids: "count_list (kc_succs (perform_kahn (snd s)) d) k = count_list (multi_get (snd s) d) k" for d k
    by (simp add: perform_kahn_def flip: count_mset)
  have skip: "kc_skip (perform_kahn (snd s)) = (\<lambda>_ _. False)" by (simp add: perform_kahn_def)
  note loop = edge_loop [OF E kids skip q run]
  have order: "perform_order ord builds scribe_build = (if length out \<noteq> length indeg'
      then Inl (BuildCycle (sort_strings (filter (\<lambda>i. degree indeg' i > 0) (range_over ord 3 (map fst indeg')))))
      else perform_nodes builds out)"
    using run by (simp add: perform_order_def s_def [symmetric] q_def [symmetric] case_prod_beta Let_def)
  have "set (kc_succs (perform_kahn (snd s)) k) \<subseteq> set (map fst (fst s))" for k
    using E(1) by (auto simp: perform_kahn_def counts_edges_def)
  then have "map fst indeg' = map fst (fst s)" by (rule loop_keys [OF run])
  moreover have "length out = length (map fst (fst s)) \<longleftrightarrow> set out = state_nodes s"
    by (rule perm_of_set_eq [OF loop(1) _ loop(2)]) (use E(1) in \<open>simp add: counts_edges_def\<close>)
  ultimately have len: "length out = length indeg' \<longleftrightarrow> set out = state_nodes s" by (metis length_map)
  show ?thesis
    unfolding order E_def [symmetric] s_def [symmetric]
  proof (cases "length out = length indeg'")
    case False
    with len loop(4) show "case if length out \<noteq> length indeg' then Inl (BuildCycle (sort_strings
          (filter (\<lambda>i. degree indeg' i > 0) (range_over ord 3 (map fst indeg'))))) else perform_nodes builds out of
        Inr ns \<Rightarrow> distinct (map node_id ns) \<and> set (map node_id ns) = state_nodes s \<and> topological (parents_of E) (map node_id ns)
      | Inl (BuildCycle ids) \<Rightarrow> \<not> acyclic (dep_edges (state_nodes s) (parents_of E))
      | Inl (UnknownReference i) \<Rightarrow> cut_prefix i ''scribe:'' = None \<and> by_id builds i = None
      | Inl e \<Rightarrow> False" by simp
  next
    case True
    with len loop(1,3) show "case if length out \<noteq> length indeg' then Inl (BuildCycle (sort_strings
          (filter (\<lambda>i. degree indeg' i > 0) (range_over ord 3 (map fst indeg'))))) else perform_nodes builds out of
        Inr ns \<Rightarrow> distinct (map node_id ns) \<and> set (map node_id ns) = state_nodes s \<and> topological (parents_of E) (map node_id ns)
      | Inl (BuildCycle ids) \<Rightarrow> \<not> acyclic (dep_edges (state_nodes s) (parents_of E))
      | Inl (UnknownReference i) \<Rightarrow> cut_prefix i ''scribe:'' = None \<and> by_id builds i = None
      | Inl e \<Rightarrow> False"
      by (cases "perform_nodes builds out") (use perform_nodes_error perform_nodes_ids in \<open>fastforce, simp\<close>)
  qed
qed

text \<open>The render slots partition the scribe items of an order: each goes to exactly one slot, the
  first one or that of the build before it.\<close>

theorem render_slots_partition:
  "case scribe_render_slots order of
      Some (first, after) \<Rightarrow>
        mset first + mset (concat (map snd after)) = mset (concat (map (\<lambda>n. case n of RenderScribe i \<Rightarrow> [i] | _ \<Rightarrow> []) order))
    | None \<Rightarrow> list_ex (\<lambda>n. n = RenderScribe []) order"
proof -
  have add: "mset (concat (map snd (multi_add k v m))) = add_mset v (mset (concat (map snd m)))" for k v and m :: "(string \<times> string list) list"
    unfolding multi_add_def multi_get_def by (induction m) auto
  have "case render_slots_loop ns last_build (first, after) of
      Some (first', after') \<Rightarrow> mset first' + mset (concat (map snd after')) =
        mset first + mset (concat (map snd after)) + mset (concat (map (\<lambda>n. case n of RenderScribe i \<Rightarrow> [i] | _ \<Rightarrow> []) ns))
    | None \<Rightarrow> list_ex (\<lambda>n. n = RenderScribe []) ns" for ns last_build first after
  proof (induction ns last_build "(first, after)" arbitrary: first after rule: render_slots_loop.induct)
    case (2 n ns last_build first after)
    then show ?case
      by (cases n; cases "last_build = []") (auto simp: is_scribe_def add split: option.splits if_splits)
  qed simp
  from this [of order "[]" "[]" "[]"] show ?thesis
    by (simp add: scribe_render_slots_def split: option.splits prod.splits)
qed

lemma outputs_loop_result:
  "case outputs_loop sid ps m of
      Inl e \<Rightarrow> \<not> (distinct ps \<and> set ps \<inter> set (map fst m) = {})
    | Inr m' \<Rightarrow> distinct ps \<and> set ps \<inter> set (map fst m) = {} \<and> set (map fst m') = set ps \<union> set (map fst m)"
proof (induction ps arbitrary: m)
  case (Cons p ps)
  have keys: "set (map fst (AList.update p sid m)) = insert p (set (map fst m))" by (rule update_keys_set)
  show ?case
  proof (cases "map_of m p")
    case None
    then have "p \<notin> set (map fst m)" by (simp add: map_of_eq_None_iff)
    then show ?thesis
      using Cons.IH [of "AList.update p sid m"] None unfolding keys by (auto split: sum.splits)
  next
    case (Some v)
    then have "p \<in> set (map fst m)" by (metis map_of_eq_None_iff option.distinct(1) set_map)
    with Some show ?thesis by auto
  qed
qed simp

lemma collect_loop_None:
  "collect_loop ss ids m = None \<longleftrightarrow>
    distinct (map us_id ss) \<and> set (map us_id ss) \<inter> set ids = {} \<and>
    distinct (concat (map us_outputs ss)) \<and> set (concat (map us_outputs ss)) \<inter> set (map fst m) = {}"
proof (induction ss arbitrary: ids m)
  case (Cons s ss)
  show ?case
  proof (cases "outputs_loop (us_id s) (us_outputs s) m")
    case (Inl e)
    with outputs_loop_result [where sid = "us_id s" and ps = "us_outputs s" and m = m] show ?thesis by auto
  next
    case (Inr m')
    with outputs_loop_result [where sid = "us_id s" and ps = "us_outputs s" and m = m]
    have "distinct (us_outputs s)" "set (us_outputs s) \<inter> set (map fst m) = {}"
      "set (map fst m') = set (us_outputs s) \<union> set (map fst m)" by auto
    then show ?thesis using Cons.IH [of "us_id s # ids" m'] Inr
      by (simp del: set_map) (auto simp del: set_map)
  qed
qed simp

lemma inputs_loop_None:
  "inputs_loop ss produced = None \<longleftrightarrow>
    list_all (\<lambda>i. set (us_inputs (ss ! i)) \<subseteq> set (concat (map us_outputs (take i ss))) \<union> set produced) [0..<length ss]"
proof (induction ss arbitrary: produced)
  case (Cons s ss)
  have upt: "[0..<length (s # ss)] = 0 # map Suc [0..<length ss]" by (simp add: upt_conv_Cons map_Suc_upt del: upt_Suc)
  let ?P = "\<lambda>i. set (us_inputs ((s # ss) ! i)) \<subseteq> set (concat (map us_outputs (take i (s # ss)))) \<union> set produced"
  let ?Q = "\<lambda>i. set (us_inputs (ss ! i)) \<subseteq> set (concat (map us_outputs (take i ss))) \<union> set (us_outputs s @ produced)"
  have "list_all ?P [0..<length (s # ss)] \<longleftrightarrow> ?P 0 \<and> list_all (?P \<circ> Suc) [0..<length ss]"
    unfolding upt by (simp only: list.pred_inject list.pred_map)
  also have "list_all (?P \<circ> Suc) [0..<length ss] = list_all ?Q [0..<length ss]"
    by (rule list.pred_cong) auto
  finally have split: "list_all ?P [0..<length (s # ss)] \<longleftrightarrow>
      set (us_inputs s) \<subseteq> set produced \<and> inputs_loop ss (us_outputs s @ produced) = None"
    using Cons.IH [of "us_outputs s @ produced"] by simp
  show ?case
  proof (cases "find (\<lambda>p. p \<notin> set produced) (us_inputs s)")
    case None
    then have "set (us_inputs s) \<subseteq> set produced" by (auto simp: find_None_iff)
    with None show ?thesis unfolding split by simp
  next
    case (Some p)
    then have "p \<in> set (us_inputs s)" "p \<notin> set produced" by (auto simp: find_Some_iff)
    with Some show ?thesis unfolding split by auto
  qed
qed simp

text \<open>A step graph is valid exactly when its step identifiers are distinct, its output paths are
  distinct, and every input of a step is an output of an earlier one.\<close>

theorem validate_build_graph_iff:
  "validate_build_graph steps = None \<longleftrightarrow>
     distinct (map us_id steps) \<and> distinct (concat (map us_outputs steps)) \<and>
     list_all (\<lambda>i. set (us_inputs (steps ! i)) \<subseteq> set (concat (map us_outputs (take i steps)))) [0..<length steps]"
  using collect_loop_None [of steps "[]" "[]"] inputs_loop_None [of steps "[]"]
  by (auto simp: validate_build_graph_def split: option.split)

end
