(* ===== verification/Severity.thy ===== *)
theory Severity
  imports SF_Prelude
begin

text \<open>
  The severity vocabulary of vulnerabilities (\<^verbatim>\<open>src/src/vulnerability/severity\<close>): the canonical
  labels, the normalization of a raw label, and the orders by rank. The Go type is a string; the
  canonical labels are a datatype here, with \<open>label\<close> the string of each.
\<close>

datatype severity = Critical | High | Medium | Low | Unknown

fun label :: "severity \<Rightarrow> string" where
  "label Critical = ''CRITICAL''"
| "label High = ''HIGH''"
| "label Medium = ''MEDIUM''"
| "label Low = ''LOW''"
| "label Unknown = ''UNKNOWN''"

definition normalize_severity :: "string \<Rightarrow> severity" where
  "normalize_severity raw =
     (let s = to_upper (trim_space raw) in
      if s = ''MODERATE'' then Medium
      else if s = label Critical then Critical
      else if s = label High then High
      else if s = label Medium then Medium
      else if s = label Low then Low
      else Unknown)"

definition severity_rank :: "string \<Rightarrow> int" where
  "severity_rank s =
     (case normalize_severity s of Critical \<Rightarrow> 4 | High \<Rightarrow> 3 | Medium \<Rightarrow> 2 | Low \<Rightarrow> 1 | Unknown \<Rightarrow> 0)"

definition max_rank :: int where
  "max_rank = 4"

definition severity_order :: "string \<Rightarrow> int" where
  "severity_order s = max_rank - severity_rank s"

definition severity_compare :: "string \<Rightarrow> string \<Rightarrow> int" where
  "severity_compare a b = severity_rank a - severity_rank b"

section \<open>The order\<close>

lemma severity_cases_rank: "severity_rank s \<in> {0, 1, 2, 3, 4}"
  by (cases "normalize_severity s") (simp_all add: severity_rank_def)

interpretation severity_sort: comparator "\<lambda>a b. severity_order a < severity_order b"
  by (rule comparator_key)

lemma normalize_label [simp]: "normalize_severity (label v) = v"
  by (cases v; hypsubst; code_simp)

lemma rank_inj: "severity_rank a = severity_rank b \<longleftrightarrow> normalize_severity a = normalize_severity b"
  by (cases "normalize_severity a"; cases "normalize_severity b") (simp_all add: severity_rank_def)

text \<open>Normalization is idempotent, and the two orders agree with it: the rank is between 0 and 4,
  two labels compare equal exactly when they normalize to the same severity, and the more severe
  one sorts first.\<close>

theorem severity_order_laws:
  "normalize_severity (label (normalize_severity a)) = normalize_severity a \<and>
   severity_rank a \<in> {0, 1, 2, 3, 4} \<and>
   (severity_compare a b = 0 \<longleftrightarrow> normalize_severity a = normalize_severity b) \<and>
   (severity_compare a b > 0 \<longleftrightarrow> severity_order a < severity_order b)"
  using severity_cases_rank [of a] rank_inj [of a b] by (auto simp: severity_compare_def severity_order_def)

end
