(* ===== verification/Runtime_Lifecycle.thy ===== *)
theory Runtime_Lifecycle
  imports SF_Prelude "HOL-Library.AList"
begin

text \<open>
  The lifecycle runtime (\<^verbatim>\<open>src/src/runtime\<close>, \<^verbatim>\<open>src/src/config/mode.go\<close>): the table of modes, the
  registry of backends, the capability check, and the sequence of phases
  Validate, Prepare, Plan, Execute with the deferred cleanup.

  A backend is a record of its operations. They see and change the world \<open>'w\<close> (the process, the
  cluster, the resolved paths of the context) and register cleanups, which is what the contract in
  \<^verbatim>\<open>backend.go\<close> leaves them; the runtime's own fields are the runtime's. The state carries a trace
  of what the runtime called and which cleanups it ran, for the properties only.
\<close>

section \<open>Modes\<close>

record config_view =
  cv_mode :: string
  cv_clusters :: "string list"
  cv_docker_backend :: string

text \<open>The configuration the runtime reads: \<^verbatim>\<open>lifecycle.mode\<close>, the backend of each GitOps cluster
  (the first is the primary one) and \<^verbatim>\<open>docker.backend\<close>.\<close>

record lifecycle_mode =
  lm_name :: string
  lm_phase_reconcile :: bool
  lm_backend :: "(config_view \<Rightarrow> string) option"

definition lifecycle_modes :: "(string \<times> lifecycle_mode) list" where
  "lifecycle_modes =
     [(''image'', \<lparr>lm_name = ''image'', lm_phase_reconcile = False, lm_backend = None\<rparr>),
      (''gitops'', \<lparr>lm_name = ''gitops'', lm_phase_reconcile = True,
         lm_backend = Some (\<lambda>c. case cv_clusters c of [] \<Rightarrow> [] | b # _ \<Rightarrow> b)\<rparr>),
      (''docker'', \<lparr>lm_name = ''docker'', lm_phase_reconcile = False, lm_backend = Some cv_docker_backend\<rparr>),
      (''governance'', \<lparr>lm_name = ''governance'', lm_phase_reconcile = True, lm_backend = None\<rparr>)]"

definition lookup_mode :: "string \<Rightarrow> lifecycle_mode option" where
  "lookup_mode raw =
     (let m = to_lower (trim_space raw); m = (if m = [] then ''image'' else m) in map_of lifecycle_modes m)"

definition config_mode :: "config_view \<Rightarrow> lifecycle_mode" where
  "config_mode c =
     (case lookup_mode (cv_mode c) of
        Some lm \<Rightarrow> lm
      | None \<Rightarrow> the (map_of lifecycle_modes ''image''))"

section \<open>Backends, the context and its errors\<close>

record planned_action =
  pa_name :: string
  pa_action :: string

record lifecycle_plan =
  lp_actions :: "planned_action list"
  lp_declined :: "planned_action list"
  lp_dry_run :: bool

record action_result =
  ar_name :: string
  ar_success :: bool

type_synonym lifecycle_result = "action_result list"

type_synonym 'w cleanup = "'w \<Rightarrow> 'w"

text \<open>An operation answers with an error message or a value, the next world and the cleanups it
  registers, in order.\<close>

type_synonym ('w, 'a) operation = "'w \<Rightarrow> (string + 'a) \<times> 'w \<times> 'w cleanup list"

record 'w backend =
  bk_name :: string
  bk_capabilities :: "string list"
  bk_validate :: "('w, unit) operation"
  bk_prepare :: "('w, unit) operation"
  bk_plan :: "('w, lifecycle_plan) operation"
  bk_execute :: "lifecycle_plan \<Rightarrow> ('w, lifecycle_result) operation"

datatype phase = Load | Resolve | Validate | Prepare | Plan | Execute | Report | Cleanup

fun phase_name :: "phase \<Rightarrow> string" where
  "phase_name Load = ''load''"
| "phase_name Resolve = ''resolve''"
| "phase_name Validate = ''validate''"
| "phase_name Prepare = ''prepare''"
| "phase_name Plan = ''plan''"
| "phase_name Execute = ''execute''"
| "phase_name Report = ''report''"
| "phase_name Cleanup = ''cleanup''"

text \<open>The causes of an error; a backend's own errors are known by their message.\<close>

datatype cause =
    ModeNotSet
  | UnknownMode string
  | UnregisteredMode string "string list"
  | UnregisteredBackend string string "string list"
  | MissingCapabilities string "string list"
  | BackendFailed string

record runtime_error =
  re_phase :: phase
  re_backend :: string
  re_cause :: cause

definition phase_error :: "phase \<Rightarrow> string \<Rightarrow> cause \<Rightarrow> runtime_error" where
  "phase_error p b c = \<lparr>re_phase = p, re_backend = b, re_cause = c\<rparr>"

text \<open>\<open>Error()\<close>, the message of the cause being given.\<close>

definition error_text :: "(cause \<Rightarrow> string) \<Rightarrow> runtime_error \<Rightarrow> string" where
  "error_text message e =
     (if re_backend e \<noteq> [] then phase_name (re_phase e) @ ''['' @ re_backend e @ '']: '' @ message (re_cause e)
      else phase_name (re_phase e) @ '': '' @ message (re_cause e))"

datatype event = Called phase | Ran nat

record 'w runtime_context =
  rc_dry_run :: bool
  rc_backend :: "string option"
  rc_cleanups :: "'w cleanup list"
  rc_plan :: "lifecycle_plan option"
  rc_result :: "lifecycle_result option"
  rc_world :: 'w
  rc_trace :: "event list"

definition add_cleanup :: "'w cleanup \<Rightarrow> 'w runtime_context \<Rightarrow> 'w runtime_context" where
  "add_cleanup fn r = r\<lparr>rc_cleanups := rc_cleanups r @ [fn]\<rparr>"

text \<open>\<open>Cleanup\<close>: the loop from the last index down, then the list is dropped.\<close>

fun cleanup_loop :: "'w cleanup list \<Rightarrow> nat \<Rightarrow> 'w \<times> event list \<Rightarrow> 'w \<times> event list" where
  "cleanup_loop fns 0 s = s"
| "cleanup_loop fns (Suc i) (w, tr) = cleanup_loop fns i ((fns ! i) w, tr @ [Ran i])"

definition run_cleanup :: "'w runtime_context \<Rightarrow> 'w runtime_context" where
  "run_cleanup r =
     (let (w, tr) = cleanup_loop (rc_cleanups r) (length (rc_cleanups r)) (rc_world r, rc_trace r)
      in r\<lparr>rc_world := w, rc_trace := tr, rc_cleanups := []\<rparr>)"

definition detect_invoker :: "bool option \<Rightarrow> string" where
  "detect_invoker is_ci = (if is_ci = Some True then ''ci'' else ''local'')"

section \<open>Capabilities\<close>

definition validate_capabilities :: "'w backend \<Rightarrow> string list \<Rightarrow> cause option" where
  "validate_capabilities b required =
     (let missing = filter (\<lambda>c. c \<notin> set (bk_capabilities b)) required in
      if missing \<noteq> [] then Some (MissingCapabilities (bk_name b) missing) else None)"

definition derive_required :: "string \<Rightarrow> config_view \<Rightarrow> bool \<Rightarrow> string list" where
  "derive_required mode cfg dry_run =
     [''plan-execute''] @
     (if mode = ''gitops'' then
        [''reconcile'', ''impact-analysis''] @ (if cv_clusters cfg \<noteq> [] then [''cluster-auth''] else [])
      else if mode = ''docker'' \<or> mode = ''ansible'' then [''reconcile'']
      else []) @
     (if dry_run then [''dry-run''] else [])"

fun has_capability_loop :: "string list \<Rightarrow> string \<Rightarrow> bool" where
  "has_capability_loop [] cap = False"
| "has_capability_loop (c # cs) cap = (if c = cap then True else has_capability_loop cs cap)"

definition has_capability :: "'w backend \<Rightarrow> string \<Rightarrow> bool" where
  "has_capability b cap = has_capability_loop (bk_capabilities b) cap"

section \<open>The registry\<close>

text \<open>A registry maps a mode to its backends by name. A second registration panics: \<^const>\<open>None\<close>.\<close>

type_synonym 'w registry = "(string \<times> (string \<times> 'w backend) list) list"

definition backends_of :: "'w registry \<Rightarrow> string \<Rightarrow> (string \<times> 'w backend) list" where
  "backends_of reg mode = (case map_of reg mode of None \<Rightarrow> [] | Some bs \<Rightarrow> bs)"

definition register :: "string \<Rightarrow> string \<Rightarrow> 'w backend \<Rightarrow> 'w registry \<Rightarrow> 'w registry option" where
  "register mode name b reg =
     (if map_of (backends_of reg mode) name \<noteq> None then None
      else Some (AList.update mode (AList.update name b (backends_of reg mode)) reg))"

definition registered_modes :: "'w registry \<Rightarrow> string list" where
  "registered_modes reg = sort_strings (map fst reg)"

definition registered_backends :: "'w registry \<Rightarrow> string \<Rightarrow> string list" where
  "registered_backends reg mode = sort_strings (map fst (backends_of reg mode))"

text \<open>The list in an error message.\<close>

definition bracketed :: "string list \<Rightarrow> string" where
  "bracketed names = ''['' @ join '', '' names @ '']''"

definition resolve_backend :: "'w registry \<Rightarrow> string \<Rightarrow> string \<Rightarrow> cause + 'w backend" where
  "resolve_backend reg mode name =
     (case map_of reg mode of
        None \<Rightarrow> Inl (UnregisteredMode mode (registered_modes reg))
      | Some backends \<Rightarrow>
          (case map_of backends name of
             None \<Rightarrow> Inl (UnregisteredBackend name mode (registered_backends reg mode))
           | Some b \<Rightarrow> Inr b))"

section \<open>The phases\<close>

text \<open>Calling an operation of the backend in a phase.\<close>

definition call_phase :: "phase \<Rightarrow> ('w, 'a) operation \<Rightarrow> 'w runtime_context \<Rightarrow> (string + 'a) \<times> 'w runtime_context" where
  "call_phase p f r =
     (case f (rc_world r) of (res, w, fns) \<Rightarrow>
        (res, fold add_cleanup fns (r\<lparr>rc_world := w, rc_trace := rc_trace r @ [Called p]\<rparr>)))"

text \<open>The body of \<open>RunLifecycleWith\<close>, from the last phase to the first.\<close>

definition execute_phase :: "'w backend \<Rightarrow> lifecycle_plan \<Rightarrow> 'w runtime_context
    \<Rightarrow> runtime_error option \<times> 'w runtime_context" where
  "execute_phase b plan r =
     (let plan = plan\<lparr>lp_dry_run := rc_dry_run r\<rparr> in
      if rc_dry_run r then (None, r\<lparr>rc_plan := Some plan, rc_result := None\<rparr>)
      else
        case call_phase Execute (bk_execute b plan) r of
          (Inl m, r) \<Rightarrow> (Some (phase_error Execute (bk_name b) (BackendFailed m)), r)
        | (Inr res, r) \<Rightarrow> (None, r\<lparr>rc_plan := Some plan, rc_result := Some res\<rparr>))"

definition plan_phase :: "'w backend \<Rightarrow> 'w runtime_context \<Rightarrow> runtime_error option \<times> 'w runtime_context" where
  "plan_phase b r =
     (case call_phase Plan (bk_plan b) r of
        (Inl m, r) \<Rightarrow> (Some (phase_error Plan (bk_name b) (BackendFailed m)), r)
      | (Inr plan, r) \<Rightarrow> execute_phase b plan r)"

definition prepare_phase :: "'w backend \<Rightarrow> 'w runtime_context \<Rightarrow> runtime_error option \<times> 'w runtime_context" where
  "prepare_phase b r =
     (case call_phase Prepare (bk_prepare b) r of
        (Inl m, r) \<Rightarrow> (Some (phase_error Prepare (bk_name b) (BackendFailed m)), r)
      | (Inr _, r) \<Rightarrow> plan_phase b r)"

definition validate_phase :: "'w backend \<Rightarrow> 'w runtime_context \<Rightarrow> runtime_error option \<times> 'w runtime_context" where
  "validate_phase b r =
     (case call_phase Validate (bk_validate b) r of
        (Inl m, r) \<Rightarrow> (Some (phase_error Validate (bk_name b) (BackendFailed m)), r)
      | (Inr _, r) \<Rightarrow> prepare_phase b r)"

definition lifecycle_body :: "config_view \<Rightarrow> string \<Rightarrow> 'w backend \<Rightarrow> 'w runtime_context
    \<Rightarrow> runtime_error option \<times> 'w runtime_context" where
  "lifecycle_body cfg mode b r =
     (let r = r\<lparr>rc_backend := Some (bk_name b)\<rparr> in
      case validate_capabilities b (derive_required mode cfg (rc_dry_run r)) of
        Some c \<Rightarrow> (Some (phase_error Validate (bk_name b) c), r)
      | None \<Rightarrow> validate_phase b r)"

definition run_lifecycle_with :: "config_view \<Rightarrow> string \<Rightarrow> 'w backend \<Rightarrow> 'w runtime_context
    \<Rightarrow> runtime_error option \<times> 'w runtime_context" where
  "run_lifecycle_with cfg mode b r =
     (case lifecycle_body cfg mode b r of (err, r) \<Rightarrow> (err, run_cleanup r))"

definition run_lifecycle_backend :: "'w registry \<Rightarrow> config_view \<Rightarrow> string \<Rightarrow> string \<Rightarrow> 'w runtime_context
    \<Rightarrow> runtime_error option \<times> 'w runtime_context" where
  "run_lifecycle_backend reg cfg mode name r =
     (case resolve_backend reg mode name of
        Inl c \<Rightarrow> (Some (phase_error Resolve name c), r)
      | Inr b \<Rightarrow> run_lifecycle_with cfg mode b r)"

definition run_lifecycle :: "'w registry \<Rightarrow> config_view \<Rightarrow> 'w runtime_context
    \<Rightarrow> runtime_error option \<times> 'w runtime_context" where
  "run_lifecycle reg cfg r =
     (if cv_mode cfg = [] then (Some (phase_error Resolve [] ModeNotSet), r)
      else case lookup_mode (cv_mode cfg) of
        None \<Rightarrow> (Some (phase_error Resolve [] (UnknownMode (cv_mode cfg))), r)
      | Some lm \<Rightarrow>
          (let name = (case lm_backend lm of None \<Rightarrow> [] | Some f \<Rightarrow> f cfg) in
           run_lifecycle_backend reg cfg (lm_name lm) name r))"

section \<open>Lemmas\<close>

lemma cleanup_loop_eq:
  "cleanup_loop fns n (w, tr) = (fold (\<lambda>i w. (fns ! i) w) (rev [0..<n]) w, tr @ map Ran (rev [0..<n]))"
  by (induction n arbitrary: w tr) simp_all

lemma run_cleanup_fields [simp]:
  "rc_cleanups (run_cleanup r) = []"
  "rc_trace (run_cleanup r) = rc_trace r @ map Ran (rev [0..<length (rc_cleanups r)])"
  "rc_plan (run_cleanup r) = rc_plan r" "rc_result (run_cleanup r) = rc_result r"
  "rc_dry_run (run_cleanup r) = rc_dry_run r"
  by (simp_all add: run_cleanup_def cleanup_loop_eq Let_def)

lemma fold_add_cleanup: "fold add_cleanup fns r = r\<lparr>rc_cleanups := rc_cleanups r @ fns\<rparr>"
  by (induction fns arbitrary: r) (simp_all add: add_cleanup_def)

text \<open>The operations of the backend that a run calls when nothing fails.\<close>

definition phase_sequence :: "bool \<Rightarrow> phase list" where
  "phase_sequence dry_run = [Validate, Prepare, Plan] @ (if dry_run then [] else [Execute])"

text \<open>What calling the operation of a phase does, written without the runtime: the plan and the
  result so far are the progress of a run, and the operation answers with its message or the next
  progress, the world it leaves and the cleanups it registers.\<close>

type_synonym progress = "lifecycle_plan option \<times> lifecycle_result option"

fun phase_call :: "'w backend \<Rightarrow> bool \<Rightarrow> phase \<Rightarrow> progress \<Rightarrow> 'w \<Rightarrow> (string + progress) \<times> 'w \<times> 'w cleanup list" where
  "phase_call b dry Validate s w = (case bk_validate b w of (x, w', fns) \<Rightarrow> (map_sum id (\<lambda>_. s) x, w', fns))"
| "phase_call b dry Prepare s w = (case bk_prepare b w of (x, w', fns) \<Rightarrow> (map_sum id (\<lambda>_. s) x, w', fns))"
| "phase_call b dry Plan s w =
     (case bk_plan b w of (x, w', fns) \<Rightarrow> (map_sum id (\<lambda>pl. (Some (pl\<lparr>lp_dry_run := dry\<rparr>), None)) x, w', fns))"
| "phase_call b dry Execute s w =
     (case bk_execute b (the (fst s)) w of (x, w', fns) \<Rightarrow> (map_sum id (\<lambda>res. (fst s, Some res)) x, w', fns))"
| "phase_call b dry _ s w = (Inr s, w, [])"

text \<open>\<open>ran_to b dry ps w fns w' x\<close>: calling the operations of the phases \<open>ps\<close> one after the other
  from the world \<open>w\<close>, all but the last succeeding, leaves the world \<open>w'\<close> and the answer \<open>x\<close>, and
  \<open>fns\<close> are the cleanups they registered, in the order of registration.\<close>

inductive ran_to :: "'w backend \<Rightarrow> bool \<Rightarrow> phase list \<Rightarrow> 'w \<Rightarrow> 'w cleanup list \<Rightarrow> 'w \<Rightarrow> string + progress \<Rightarrow> bool"
  for b dry where
  nothing: "ran_to b dry [] w [] w (Inr (None, None))"
| another: "ran_to b dry ps w fns w1 (Inr s) \<Longrightarrow> phase_call b dry p s w1 = (x, w2, gs) \<Longrightarrow>
    ran_to b dry (ps @ [p]) w (fns @ gs) w2 x"

text \<open>How a run ends after its first \<open>n\<close> phases with the answer \<open>x\<close>.\<close>

definition run_ended :: "config_view \<Rightarrow> string \<Rightarrow> 'w backend \<Rightarrow> 'w runtime_context \<Rightarrow> nat \<Rightarrow> string + progress
    \<Rightarrow> runtime_error option \<Rightarrow> 'w runtime_context \<Rightarrow> bool" where
  "run_ended cfg mode b r n x err r' \<longleftrightarrow>
     (case err of
        None \<Rightarrow> n = length (phase_sequence (rc_dry_run r)) \<and> x = Inr (rc_plan r', rc_result r') \<and>
          rc_plan r' \<noteq> None \<and> (rc_result r' = None \<longleftrightarrow> rc_dry_run r)
      | Some e \<Rightarrow> rc_plan r' = rc_plan r \<and> rc_result r' = rc_result r \<and>
          (if n = 0 then \<exists>c. validate_capabilities b (derive_required mode cfg (rc_dry_run r)) = Some c \<and>
             e = phase_error Validate (bk_name b) c
           else \<exists>m. x = Inl m \<and> e = phase_error (phase_sequence (rc_dry_run r) ! (n - 1)) (bk_name b) (BackendFailed m)))"

text \<open>What a run has done after its first \<open>n\<close> phases, and what it ends with.\<close>

definition ran_phases :: "'w backend \<Rightarrow> nat \<Rightarrow> 'w runtime_context \<Rightarrow> 'w runtime_context \<Rightarrow> string + progress \<Rightarrow> bool" where
  "ran_phases b n r r' x \<longleftrightarrow>
     rc_trace r' = rc_trace r @ map Called (take n (phase_sequence (rc_dry_run r))) \<and>
     rc_dry_run r' = rc_dry_run r \<and>
     (\<exists>fns. rc_cleanups r' = rc_cleanups r @ fns \<and>
       ran_to b (rc_dry_run r) (take n (phase_sequence (rc_dry_run r))) (rc_world r) fns (rc_world r') x)"

definition same_results :: "'w runtime_context \<Rightarrow> 'w runtime_context \<Rightarrow> bool" where
  "same_results r r' \<longleftrightarrow> rc_plan r' = rc_plan r \<and> rc_result r' = rc_result r"

definition lifecycle_outcome :: "config_view \<Rightarrow> string \<Rightarrow> 'w backend \<Rightarrow> 'w runtime_context \<Rightarrow> runtime_error option
    \<Rightarrow> 'w runtime_context \<Rightarrow> bool" where
  "lifecycle_outcome cfg mode b r err r' \<longleftrightarrow> (\<exists>n x. ran_phases b n r r' x \<and> run_ended cfg mode b r n x err r')"

lemma ran_phases_call:
  assumes "ran_phases b n r r1 (Inr s)" "same_results r r1" "call_phase p f r1 = (res, r2)"
    and "n < length (phase_sequence (rc_dry_run r))" "phase_sequence (rc_dry_run r) ! n = p"
    and "phase_call b (rc_dry_run r) p s (rc_world r1) = (case f (rc_world r1) of (y, w, gs) \<Rightarrow> (map_sum id g y, w, gs))"
  shows "ran_phases b (Suc n) r r2 (map_sum id g res)" "same_results r r2"
proof -
  obtain w gs where f: "f (rc_world r1) = (res, w, gs)"
    and r2: "r2 = r1\<lparr>rc_world := w, rc_trace := rc_trace r1 @ [Called p], rc_cleanups := rc_cleanups r1 @ gs\<rparr>"
    using assms(3) by (auto simp: call_phase_def fold_add_cleanup split: prod.splits)
  from assms(1) obtain fns where fns: "rc_cleanups r1 = rc_cleanups r @ fns"
    "ran_to b (rc_dry_run r) (take n (phase_sequence (rc_dry_run r))) (rc_world r) fns (rc_world r1) (Inr s)"
    by (auto simp: ran_phases_def)
  have "ran_to b (rc_dry_run r) (take (Suc n) (phase_sequence (rc_dry_run r))) (rc_world r) (fns @ gs) w (map_sum id g res)"
    unfolding take_Suc_conv_app_nth [OF assms(4)] assms(5)
    by (rule ran_to.another [OF fns(2)]) (simp add: assms(6) f)
  then show "ran_phases b (Suc n) r r2 (map_sum id g res)"
    using assms(1,4,5) fns(1) by (simp add: ran_phases_def r2 take_Suc_conv_app_nth)
  show "same_results r r2" using assms(2) by (simp add: same_results_def r2)
qed

lemma outcome_call:
  assumes "ran_phases b n r r1 (Inr s)" "same_results r r1"
    and "n < length (phase_sequence (rc_dry_run r))" "phase_sequence (rc_dry_run r) ! n = p"
    and "phase_call b (rc_dry_run r) p s (rc_world r1) = (case f (rc_world r1) of (y, w, gs) \<Rightarrow> (map_sum id g y, w, gs))"
    and "(case call_phase p f r1 of (Inl m, r2) \<Rightarrow> (Some (phase_error p (bk_name b) (BackendFailed m)), r2)
      | (Inr x, r2) \<Rightarrow> next_phase x r2) = (err, r')"
    and "\<And>x r2. ran_phases b (Suc n) r r2 (Inr (g x)) \<Longrightarrow> same_results r r2 \<Longrightarrow> next_phase x r2 = (err, r') \<Longrightarrow>
      lifecycle_outcome cfg mode b r err r'"
  shows "lifecycle_outcome cfg mode b r err r'"
proof -
  obtain res r2 where c: "call_phase p f r1 = (res, r2)" by fastforce
  note ran = ran_phases_call [OF assms(1,2) c assms(3,4,5)]
  show ?thesis
  proof (cases res)
    case (Inl m)
    with assms(6) c have "err = Some (phase_error p (bk_name b) (BackendFailed m))" "r' = r2" by simp_all
    with ran Inl assms(4) show ?thesis
      unfolding lifecycle_outcome_def
      by (intro exI [of _ "Suc n"] exI [of _ "Inl m"]) (simp add: run_ended_def same_results_def)
  next
    case (Inr x)
    with assms(6) c ran show ?thesis by (intro assms(7) [of r2 x]) simp_all
  qed
qed

lemma execute_outcome:
  assumes "ran_phases b 3 r r1 (Inr (Some (plan\<lparr>lp_dry_run := rc_dry_run r\<rparr>), None))" "same_results r r1"
    and "execute_phase b plan r1 = (err, r')"
  shows "lifecycle_outcome cfg mode b r err r'"
proof -
  have dry: "rc_dry_run r1 = rc_dry_run r" using assms(1) by (simp add: ran_phases_def)
  define pl where "pl = plan\<lparr>lp_dry_run := rc_dry_run r\<rparr>"
  show ?thesis
  proof (cases "rc_dry_run r")
    case True
    with assms(3) dry have "err = None" "r' = r1\<lparr>rc_plan := Some pl, rc_result := None\<rparr>"
      by (simp_all add: execute_phase_def Let_def pl_def)
    with assms(1) True show ?thesis
      unfolding lifecycle_outcome_def pl_def [symmetric]
      by (intro exI [of _ 3] exI [of _ "Inr (Some pl, None)"])
         (simp add: run_ended_def phase_sequence_def ran_phases_def)
  next
    case False
    show ?thesis
    proof (rule outcome_call [OF assms(1,2)])
      show "3 < length (phase_sequence (rc_dry_run r))" "phase_sequence (rc_dry_run r) ! 3 = Execute"
        using False by (simp_all add: phase_sequence_def)
      show "phase_call b (rc_dry_run r) Execute (Some (plan\<lparr>lp_dry_run := rc_dry_run r\<rparr>), None) (rc_world r1) =
          (case bk_execute b pl (rc_world r1) of (y, w, gs) \<Rightarrow> (map_sum id (\<lambda>res. (Some pl, Some res)) y, w, gs))"
        by (simp add: pl_def)
      show "(case call_phase Execute (bk_execute b pl) r1 of
          (Inl m, r2) \<Rightarrow> (Some (phase_error Execute (bk_name b) (BackendFailed m)), r2)
        | (Inr x, r2) \<Rightarrow> (None, r2\<lparr>rc_plan := Some pl, rc_result := Some x\<rparr>)) = (err, r')"
        using assms(3) False dry unfolding execute_phase_def Let_def pl_def dry by simp
      show "lifecycle_outcome cfg mode b r err r'" if "ran_phases b (Suc 3) r r2 (Inr (Some pl, Some x))"
        "(None, r2\<lparr>rc_plan := Some pl, rc_result := Some x\<rparr>) = (err, r')" for x r2
        unfolding lifecycle_outcome_def using that False
        by (intro exI [of _ 4] exI [of _ "Inr (Some pl, Some x)"])
           (auto simp: phase_sequence_def ran_phases_def run_ended_def)
    qed
  qed
qed

lemma body_outcome:
  assumes "lifecycle_body cfg mode b r = (err, r')"
  shows "\<exists>n x. ran_phases b n r r' x \<and> run_ended cfg mode b r n x err r' \<and>
    (n = 0 \<longleftrightarrow> validate_capabilities b (derive_required mode cfg (rc_dry_run r)) \<noteq> None)"
proof -
  let ?out = "lifecycle_outcome cfg mode b r err r'"
  define r0 where "r0 = r\<lparr>rc_backend := Some (bk_name b)\<rparr>"
  have r0: "ran_phases b 0 r r0 (Inr (None, None))" "same_results r r0"
    by (simp_all add: r0_def ran_phases_def same_results_def ran_to.nothing)
  have plan: "ran_phases b 2 r r1 (Inr (None, None)) \<Longrightarrow> same_results r r1 \<Longrightarrow> plan_phase b r1 = (err, r') \<Longrightarrow> ?out" for r1
    by (rule outcome_call [where n = 2 and p = Plan and f = "bk_plan b" and next_phase = "execute_phase b"
          and g = "\<lambda>pl. (Some (pl\<lparr>lp_dry_run := rc_dry_run r\<rparr>), None)"])
       (simp_all add: plan_phase_def phase_sequence_def numeral_2_eq_2 numeral_3_eq_3 [symmetric] execute_outcome)
  have prepare: "ran_phases b 1 r r1 (Inr (None, None)) \<Longrightarrow> same_results r r1 \<Longrightarrow> prepare_phase b r1 = (err, r') \<Longrightarrow> ?out" for r1
    by (rule outcome_call [where n = 1 and p = Prepare and f = "bk_prepare b" and next_phase = "\<lambda>_. plan_phase b"
          and g = "\<lambda>_. (None, None)"])
       (simp_all add: prepare_phase_def phase_sequence_def numeral_2_eq_2 [symmetric] plan)
  have validate: "validate_phase b r0 = (err, r') \<Longrightarrow> ?out"
    by (rule outcome_call [OF r0, where p = Validate and f = "bk_validate b" and next_phase = "\<lambda>_. prepare_phase b"
          and g = "\<lambda>_. (None, None)"])
       (simp_all add: validate_phase_def phase_sequence_def prepare)
  show ?thesis
  proof (cases "validate_capabilities b (derive_required mode cfg (rc_dry_run r))")
    case (Some c)
    then have "err = Some (phase_error Validate (bk_name b) c)" "r' = r0"
      using assms by (simp_all add: lifecycle_body_def Let_def r0_def)
    with r0 Some show ?thesis
      by (intro exI [of _ 0] exI [of _ "Inr (None, None)"]) (simp add: run_ended_def same_results_def)
  next
    case None
    then have ?out using assms validate by (simp add: lifecycle_body_def Let_def r0_def)
    then obtain n x where "ran_phases b n r r' x" and ended: "run_ended cfg mode b r n x err r'"
      by (auto simp: lifecycle_outcome_def)
    moreover have "n \<noteq> 0" using ended None by (cases err) (auto simp: run_ended_def phase_sequence_def split: if_splits)
    ultimately show ?thesis using None by blast
  qed
qed

lemma cleanup_world: "rc_world (run_cleanup r) = fold (\<lambda>f w. f w) (rev (rc_cleanups r)) (rc_world r)"
proof -
  have "fold (\<lambda>i w. (fns ! i) w) (rev [0..<length fns]) w = fold (\<lambda>f w. f w) (map ((!) fns) (rev [0..<length fns])) w"
    for fns :: "'a cleanup list" and w by (simp add: fold_map o_def)
  moreover have "map ((!) fns) (rev [0..<length fns]) = rev fns" for fns :: "'a cleanup list"
    by (simp add: rev_map [symmetric] map_nth)
  ultimately show ?thesis by (simp add: run_cleanup_def cleanup_loop_eq Let_def)
qed

section \<open>What the runtime guarantees\<close>

text \<open>C5: A run calls the operations of the backend strictly in the order of the phases, each from the
  world the previous one left, up to the first that fails, and Execute, on the plan that the Plan
  phase returned, only when the run is not dry; a failed capability check calls none. A failure names
  the phase it happened in with the backend's message and leaves plan and result alone, a success
  leaves what the phases returned (no result on a dry run). Whether it fails or succeeds, every
  cleanup, those the caller registered before and all that the phases called registered, in the
  order of registration, has then run exactly once, last registered first, and none is left.\<close>

theorem lifecycle_phase_order:
  "case run_lifecycle_with cfg mode b r of (err, r') \<Rightarrow>
     \<exists>n x fns w. ran_to b (rc_dry_run r) (take n (phase_sequence (rc_dry_run r))) (rc_world r) fns w x \<and>
       run_ended cfg mode b r n x err r' \<and>
       (n = 0 \<longleftrightarrow> validate_capabilities b (derive_required mode cfg (rc_dry_run r)) \<noteq> None) \<and>
       rc_trace r' = rc_trace r @ map Called (take n (phase_sequence (rc_dry_run r))) @
         map Ran (rev [0..<length (rc_cleanups r @ fns)]) \<and>
       rc_world r' = fold (\<lambda>f w. f w) (rev (rc_cleanups r @ fns)) w \<and> rc_cleanups r' = []"
proof -
  obtain err r1 where body: "lifecycle_body cfg mode b r = (err, r1)" by fastforce
  have run: "run_lifecycle_with cfg mode b r = (err, run_cleanup r1)" by (simp add: run_lifecycle_with_def body)
  obtain n x where ran: "ran_phases b n r r1 x" and ended: "run_ended cfg mode b r n x err r1"
    and caps: "n = 0 \<longleftrightarrow> validate_capabilities b (derive_required mode cfg (rc_dry_run r)) \<noteq> None"
    using body_outcome [OF body] by blast
  from ran obtain fns where "rc_cleanups r1 = rc_cleanups r @ fns"
    "ran_to b (rc_dry_run r) (take n (phase_sequence (rc_dry_run r))) (rc_world r) fns (rc_world r1) x"
    "rc_trace r1 = rc_trace r @ map Called (take n (phase_sequence (rc_dry_run r)))"
    by (auto simp: ran_phases_def)
  moreover have "run_ended cfg mode b r n x err (run_cleanup r1)" using ended by (cases err) (auto simp: run_ended_def)
  ultimately show ?thesis
    using caps unfolding run prod.case
    by - (rule exI [of _ n], rule exI [of _ x], rule exI [of _ fns], rule exI [of _ "rc_world r1"], simp add: cleanup_world)
qed

text \<open>The cleanup applies every registered function to the world exactly once, from the last
  registered to the first.\<close>

theorem cleanup_reverse_order:
  "rc_world (run_cleanup (fold add_cleanup fns (r\<lparr>rc_cleanups := []\<rparr>))) = fold (\<lambda>f w. f w) (rev fns) (rc_world r)"
  by (simp add: cleanup_world fold_add_cleanup)

text \<open>A run whose mode is not set, or whose mode has no registered backend, fails in the resolve
  phase and returns the context untouched: cleanups the caller has registered stay pending.\<close>

theorem resolve_error_skips_cleanup:
  "run_lifecycle reg (cfg\<lparr>cv_mode := []\<rparr>) r = (Some (phase_error Resolve [] ModeNotSet), r) \<and>
   run_lifecycle_backend [] cfg mode name r = (Some (phase_error Resolve name (UnregisteredMode mode [])), r)"
  by (simp add: run_lifecycle_def run_lifecycle_backend_def resolve_backend_def registered_modes_def)

text \<open>The registry is a map that is written once: registering panics exactly for a pair that
  already resolves, and otherwise adds that pair and changes no other.\<close>

theorem register_resolve:
  "case register mode name b reg of
     None \<Rightarrow> (\<exists>b'. resolve_backend reg mode name = Inr b')
   | Some reg' \<Rightarrow> (\<forall>m n b'. resolve_backend reg' m n = Inr b' \<longleftrightarrow>
       (if m = mode \<and> n = name then b' = b else resolve_backend reg m n = Inr b'))"
proof -
  have known: "resolve_backend reg m n = Inr b' \<longleftrightarrow> map_of (backends_of reg m) n = Some b'" for reg :: "'a registry" and m n b'
    by (auto simp: resolve_backend_def backends_of_def split: option.splits)
  have upd: "backends_of (AList.update mode bs reg) m = (if m = mode then bs else backends_of reg m)" for bs m
    by (simp add: backends_of_def update_conv)
  show ?thesis
  proof (cases "map_of (backends_of reg mode) name")
    case None
    then show ?thesis by (auto simp: register_def known upd update_conv split: if_splits)
  next
    case (Some b')
    then show ?thesis by (simp add: register_def known)
  qed
qed

text \<open>The capability check passes exactly when the backend declares every required capability, and
  a failure lists the missing ones in the order in which they are required.\<close>

theorem capabilities_checked:
  "validate_capabilities b (derive_required mode cfg dry) =
     (if list_all (has_capability b) (derive_required mode cfg dry) then None
      else Some (MissingCapabilities (bk_name b) (filter (\<lambda>c. \<not> has_capability b c) (derive_required mode cfg dry))))"
proof -
  have has: "has_capability b c \<longleftrightarrow> c \<in> set (bk_capabilities b)" for c
  proof -
    have "has_capability_loop cs c \<longleftrightarrow> c \<in> set cs" for cs by (induction cs) auto
    then show ?thesis by (simp add: has_capability_def)
  qed
  show ?thesis
    by (simp add: validate_capabilities_def Let_def has [abs_def] filter_empty_conv list_all_iff)
qed

end
