(* ===== verification/Cas.thy ===== *)
theory Cas
  imports Go_Path
begin

text \<open>
  The content-addressed artifact store (\<^verbatim>\<open>src/src/cas\<close>): digests, the two checks of an OCI layout,
  the filesystem store with \<^verbatim>\<open>Put\<close>, \<^verbatim>\<open>Resolve\<close> and \<^verbatim>\<open>Retire\<close>, the inert store, and the capability
  rule for stores.

  The file system is explicit because the store aliases what it retains: a path leads to a
  directory or to an inode, a hard link is a second path to one inode, and bytes belong to
  inodes. A path is the list of its elements; \<^verbatim>\<open>filepath.Walk\<close> visits the paths under a root in the
  lexicographic order of these lists. Which paths are denied and whether links work are
  parameters of the file system. The hash of bytes and the decoding of \<^verbatim>\<open>index.json\<close> to the
  digests of its manifests are arguments.
\<close>

section \<open>Files\<close>

type_synonym path = "string list"

datatype node = Dir | File nat

record file_system =
  fs_nodes :: "path \<Rightarrow> node option"
  fs_paths :: "path list"
  fs_bytes :: "nat \<Rightarrow> string"
  fs_fresh :: nat
  fs_denied :: "path \<Rightarrow> bool"
  fs_links :: bool

text \<open>The paths of the tree are listed for the walk; \<open>fs_nodes\<close> says what they lead to.\<close>

definition under :: "path \<Rightarrow> path \<Rightarrow> bool" where
  "under root p \<longleftrightarrow> take (length root) p = root"

text \<open>The lexicographic order of element lists.\<close>

fun path_less :: "path \<Rightarrow> path \<Rightarrow> bool" where
  "path_less [] [] = False"
| "path_less [] (y # ys) = True"
| "path_less (x # xs) [] = False"
| "path_less (x # xs) (y # ys) = (x < y \<or> (x = y \<and> path_less xs ys))"

definition walk :: "file_system \<Rightarrow> path \<Rightarrow> path list" where
  "walk fs root = sort_slice path_less (filter (\<lambda>p. under root p \<and> fs_nodes fs p \<noteq> None) (remdups (fs_paths fs)))"

definition set_node :: "path \<Rightarrow> node \<Rightarrow> file_system \<Rightarrow> file_system" where
  "set_node p n fs = fs\<lparr>fs_nodes := (fs_nodes fs)(p \<mapsto> n), fs_paths := p # fs_paths fs\<rparr>"

datatype cas_error =
    MalformedDigest string
  | UnsupportedAlgorithm string
  | MalformedHex string
  | NotFound string
  | NoIndex
  | BadIndex
  | NotReferenced string
  | NoBlobs
  | UnsupportedBlob string
  | BlobMismatch string string
  | Io path
  | RefusedLayout cas_error
  | ExistingFailed cas_error
  | CreateFailed cas_error
  | CopyFailed cas_error
  | PostWriteFailed cas_error

text \<open>\<^verbatim>\<open>errors.Is(err, ErrIntegrity)\<close>, through the wrapping.\<close>

fun is_integrity :: "cas_error \<Rightarrow> bool" where
  "is_integrity NoIndex = True"
| "is_integrity BadIndex = True"
| "is_integrity (NotReferenced d) = True"
| "is_integrity NoBlobs = True"
| "is_integrity (UnsupportedBlob a) = True"
| "is_integrity (BlobMismatch w g) = True"
| "is_integrity (RefusedLayout e) = is_integrity e"
| "is_integrity (ExistingFailed e) = is_integrity e"
| "is_integrity (CreateFailed e) = is_integrity e"
| "is_integrity (CopyFailed e) = is_integrity e"
| "is_integrity (PostWriteFailed e) = is_integrity e"
| "is_integrity _ = False"

definition read_file :: "file_system \<Rightarrow> path \<Rightarrow> string option" where
  "read_file fs p =
     (if fs_denied fs p then None
      else case fs_nodes fs p of Some (File i) \<Rightarrow> Some (fs_bytes fs i) | _ \<Rightarrow> None)"

text \<open>\<^verbatim>\<open>os.MkdirAll\<close>: the missing directories of the path, outermost first.\<close>

fun mkdir_loop :: "path \<Rightarrow> path \<Rightarrow> file_system \<Rightarrow> cas_error option \<times> file_system" where
  "mkdir_loop acc [] fs = (None, fs)"
| "mkdir_loop acc (e # es) fs =
     (let p = acc @ [e] in
      case fs_nodes fs p of
        Some Dir \<Rightarrow> mkdir_loop p es fs
      | Some (File i) \<Rightarrow> (Some (Io p), fs)
      | None \<Rightarrow> if fs_denied fs p then (Some (Io p), fs) else mkdir_loop p es (set_node p Dir fs))"

definition mkdir_all :: "path \<Rightarrow> file_system \<Rightarrow> cas_error option \<times> file_system" where
  "mkdir_all p fs = mkdir_loop [] p fs"

section \<open>Digests\<close>

definition split_digest :: "string \<Rightarrow> cas_error + string \<times> string" where
  "split_digest d =
     (case cut_at (CHR '':'') d of
        None \<Rightarrow> Inl (MalformedDigest d)
      | Some (algo, hex) \<Rightarrow>
          if algo = [] \<or> hex = [] then Inl (MalformedDigest d)
          else if algo \<noteq> ''sha256'' then Inl (UnsupportedAlgorithm algo)
          else if length hex \<noteq> 64 then Inl (MalformedHex hex)
          else Inr (algo, hex))"

definition path_elems :: "string \<Rightarrow> path" where
  "path_elems p = clean_elems True (split_on slash p)"

definition dir_for :: "string \<Rightarrow> string \<Rightarrow> cas_error + path" where
  "dir_for root d = res_bind (split_digest d) (\<lambda>(algo, hex). Inr (path_elems (path_join [root, algo, hex])))"

definition workspace_objects_dir :: "string \<Rightarrow> string" where
  "workspace_objects_dir ws = path_join [ws, ''.stagefreight'', ''objects'']"

section \<open>Verification of a layout\<close>

text \<open>The hash and the decoder of \<^verbatim>\<open>index.json\<close>.\<close>

record cas_env =
  ce_hash :: "string \<Rightarrow> string"
  ce_index :: "string \<Rightarrow> string list option"

definition verify_identity_binding :: "cas_env \<Rightarrow> file_system \<Rightarrow> path \<Rightarrow> string \<Rightarrow> cas_error option" where
  "verify_identity_binding env fs dir d =
     (case split_digest d of
        Inl e \<Rightarrow> Some e
      | Inr _ \<Rightarrow>
          let p = dir @ [''index.json''] in
          if fs_nodes fs p = None \<and> \<not> fs_denied fs p then Some NoIndex
          else case read_file fs p of
            None \<Rightarrow> Some (Io p)
          | Some bytes \<Rightarrow>
              (case ce_index env bytes of
                 None \<Rightarrow> Some BadIndex
               | Some ds \<Rightarrow> if d \<in> set ds then None else Some (NotReferenced d)))"

definition verify_blob :: "cas_env \<Rightarrow> file_system \<Rightarrow> path \<Rightarrow> cas_error option" where
  "verify_blob env fs p =
     (case fs_nodes fs p of
        Some (File i) \<Rightarrow>
          (let algo = last (butlast p); want = last p in
           if algo \<noteq> ''sha256'' then Some (UnsupportedBlob algo)
           else case read_file fs p of
             None \<Rightarrow> Some (Io p)
           | Some bytes \<Rightarrow>
               if ce_hash env bytes \<noteq> want then Some (BlobMismatch want (ce_hash env bytes)) else None)
      | _ \<Rightarrow> None)"

fun verify_blobs :: "cas_env \<Rightarrow> file_system \<Rightarrow> path list \<Rightarrow> cas_error option" where
  "verify_blobs env fs [] = None"
| "verify_blobs env fs (p # ps) =
     (case verify_blob env fs p of Some e \<Rightarrow> Some e | None \<Rightarrow> verify_blobs env fs ps)"

definition verify_blob_integrity :: "cas_env \<Rightarrow> file_system \<Rightarrow> path \<Rightarrow> cas_error option" where
  "verify_blob_integrity env fs dir =
     (let root = dir @ [''blobs''] in
      if fs_nodes fs root \<noteq> Some Dir then Some NoBlobs
      else verify_blobs env fs (walk fs root))"

definition verify_layout :: "cas_env \<Rightarrow> file_system \<Rightarrow> path \<Rightarrow> string \<Rightarrow> cas_error option" where
  "verify_layout env fs dir d =
     (case verify_identity_binding env fs dir d of
        Some e \<Rightarrow> Some e
      | None \<Rightarrow> verify_blob_integrity env fs dir)"

section \<open>The filesystem store\<close>

text \<open>Copying a file makes a new inode, unless the target exists and is truncated.\<close>

definition copy_file :: "path \<Rightarrow> path \<Rightarrow> file_system \<Rightarrow> cas_error option \<times> file_system" where
  "copy_file src dst fs =
     (case read_file fs src of
        None \<Rightarrow> (Some (Io src), fs)
      | Some bytes \<Rightarrow>
          if fs_denied fs dst then (Some (Io dst), fs)
          else case fs_nodes fs dst of
            Some Dir \<Rightarrow> (Some (Io dst), fs)
          | Some (File i) \<Rightarrow> (None, fs\<lparr>fs_bytes := (fs_bytes fs)(i := bytes)\<rparr>)
          | None \<Rightarrow> (None, set_node dst (File (fs_fresh fs))
              (fs\<lparr>fs_bytes := (fs_bytes fs)(fs_fresh fs := bytes), fs_fresh := Suc (fs_fresh fs)\<rparr>)))"

definition link_file :: "path \<Rightarrow> path \<Rightarrow> file_system \<Rightarrow> file_system option" where
  "link_file src dst fs =
     (case fs_nodes fs src of
        Some (File i) \<Rightarrow> if fs_links fs \<and> fs_nodes fs dst = None \<and> \<not> fs_denied fs dst
          then Some (set_node dst (File i) fs) else None
      | _ \<Rightarrow> None)"

definition copy_entry :: "path \<Rightarrow> path \<Rightarrow> path \<Rightarrow> file_system \<Rightarrow> cas_error option \<times> file_system" where
  "copy_entry src dst p fs =
     (let target = dst @ drop (length src) p in
      if fs_nodes fs p = Some Dir then mkdir_all target fs
      else
        case mkdir_all (butlast target) fs of
          (Some e, fs) \<Rightarrow> (Some e, fs)
        | (None, fs) \<Rightarrow>
            (case link_file p target fs of
               Some fs \<Rightarrow> (None, fs)
             | None \<Rightarrow> copy_file p target fs))"

fun copy_entries :: "path \<Rightarrow> path \<Rightarrow> path list \<Rightarrow> file_system \<Rightarrow> cas_error option \<times> file_system" where
  "copy_entries src dst [] fs = (None, fs)"
| "copy_entries src dst (p # ps) fs =
     (case copy_entry src dst p fs of
        (Some e, fs) \<Rightarrow> (Some e, fs)
      | (None, fs) \<Rightarrow> copy_entries src dst ps fs)"

definition copy_tree :: "path \<Rightarrow> path \<Rightarrow> file_system \<Rightarrow> cas_error option \<times> file_system" where
  "copy_tree src dst fs = copy_entries src dst (walk fs src) fs"

definition fs_put :: "cas_env \<Rightarrow> string \<Rightarrow> string \<Rightarrow> path \<Rightarrow> file_system \<Rightarrow> (cas_error + path) \<times> file_system" where
  "fs_put env root d layout fs =
     (case verify_layout env fs layout d of
        Some e \<Rightarrow> (Inl (RefusedLayout e), fs)
      | None \<Rightarrow>
      case dir_for root d of
        Inl e \<Rightarrow> (Inl e, fs)
      | Inr dest \<Rightarrow>
          if fs_nodes fs dest \<noteq> None then
            (case verify_layout env fs dest d of
               Some e \<Rightarrow> (Inl (ExistingFailed e), fs)
             | None \<Rightarrow> (Inr dest, fs))
          else
            case mkdir_all (butlast dest) fs of
              (Some e, fs) \<Rightarrow> (Inl (CreateFailed e), fs)
            | (None, fs) \<Rightarrow>
            case copy_tree layout dest fs of
              (Some e, fs) \<Rightarrow> (Inl (CopyFailed e), fs)
            | (None, fs) \<Rightarrow>
            case verify_layout env fs dest d of
              Some e \<Rightarrow> (Inl (PostWriteFailed e), fs)
            | None \<Rightarrow> (Inr dest, fs))"

definition fs_resolve :: "cas_env \<Rightarrow> string \<Rightarrow> string \<Rightarrow> file_system \<Rightarrow> cas_error + path" where
  "fs_resolve env root d fs =
     (case dir_for root d of
        Inl e \<Rightarrow> Inl e
      | Inr dest \<Rightarrow>
          if fs_nodes fs dest = None then Inl (NotFound d)
          else case verify_layout env fs dest d of
            Some e \<Rightarrow> Inl e
          | None \<Rightarrow> Inr dest)"

text \<open>\<^verbatim>\<open>os.RemoveAll\<close> of the objects of one workspace.\<close>

definition retire :: "string \<Rightarrow> file_system \<Rightarrow> file_system" where
  "retire ws fs =
     fs\<lparr>fs_nodes := (\<lambda>p. if under (path_elems (workspace_objects_dir ws)) p then None else fs_nodes fs p)\<rparr>"

section \<open>Stores and their capabilities\<close>

datatype store = NoopStore | FSStore string

definition transport :: "store \<Rightarrow> bool" where
  "transport s = (case s of NoopStore \<Rightarrow> False | FSStore _ \<Rightarrow> True)"

definition requires_oci_export :: "store \<Rightarrow> bool" where
  "requires_oci_export s = (case s of NoopStore \<Rightarrow> False | FSStore _ \<Rightarrow> True)"

definition new_workspace_store :: "string \<Rightarrow> store" where
  "new_workspace_store ws = FSStore (workspace_objects_dir ws)"

definition store_put :: "cas_env \<Rightarrow> store \<Rightarrow> string \<Rightarrow> path \<Rightarrow> file_system \<Rightarrow> (cas_error + path) \<times> file_system" where
  "store_put env s d layout fs = (case s of NoopStore \<Rightarrow> (Inr [], fs) | FSStore root \<Rightarrow> fs_put env root d layout fs)"

definition store_resolve :: "cas_env \<Rightarrow> store \<Rightarrow> string \<Rightarrow> file_system \<Rightarrow> cas_error + path" where
  "store_resolve env s d fs = (case s of NoopStore \<Rightarrow> Inl (NotFound d) | FSStore root \<Rightarrow> fs_resolve env root d fs)"

definition assert_store_capabilities :: "store option \<Rightarrow> bool" where
  "assert_store_capabilities s =
     (case s of None \<Rightarrow> True | Some s \<Rightarrow> \<not> (requires_oci_export s \<and> \<not> transport s))"

section \<open>What the operations keep\<close>

text \<open>A well-formed tree: the root is a directory, a node has a directory above it and is listed for
  the walk, and inode numbers below \<open>fs_fresh\<close> are taken.\<close>

definition fs_wf :: "file_system \<Rightarrow> bool" where
  "fs_wf fs \<longleftrightarrow> fs_nodes fs [] = Some Dir \<and>
     (\<forall>p x. fs_nodes fs (p @ [x]) \<noteq> None \<longrightarrow> fs_nodes fs p = Some Dir) \<and>
     (\<forall>p. fs_nodes fs p \<noteq> None \<longrightarrow> p \<in> set (fs_paths fs)) \<and>
     (\<forall>p i. fs_nodes fs p = Some (File i) \<longrightarrow> i < fs_fresh fs)"

text \<open>Growth below \<open>D\<close>: nodes and old bytes stay, a new node is below \<open>D\<close> or a directory above it.\<close>

definition grows :: "path \<Rightarrow> file_system \<Rightarrow> file_system \<Rightarrow> bool" where
  "grows D fs fs' \<longleftrightarrow>
     (\<forall>p n. fs_nodes fs p = Some n \<longrightarrow> fs_nodes fs' p = Some n) \<and>
     (\<forall>p. fs_nodes fs p = None \<longrightarrow> fs_nodes fs' p \<noteq> None \<longrightarrow> under D p \<or> (under p D \<and> fs_nodes fs' p = Some Dir)) \<and>
     (\<forall>i < fs_fresh fs. fs_bytes fs' i = fs_bytes fs i) \<and> fs_fresh fs \<le> fs_fresh fs' \<and>
     fs_denied fs' = fs_denied fs \<and> (fs_wf fs \<longrightarrow> fs_wf fs')"

definition new_files :: "path set \<Rightarrow> file_system \<Rightarrow> file_system \<Rightarrow> bool" where
  "new_files P fs fs' \<longleftrightarrow>
     (\<forall>q i. fs_nodes fs' q = Some (File i) \<longrightarrow> fs_nodes fs q = Some (File i) \<or> q \<in> P)"

lemma grows_refl [simp]: "grows D fs fs"
  by (simp add: grows_def)

lemma grows_trans: "grows D a b \<Longrightarrow> grows D b c \<Longrightarrow> grows D a c"
proof -
  assume 1: "grows D a b" and 2: "grows D b c"
  have "under D p \<or> (under p D \<and> fs_nodes c p = Some Dir)" if "fs_nodes a p = None" "fs_nodes c p \<noteq> None" for p
  proof (cases "fs_nodes b p")
    case None
    with 2 that(2) show ?thesis by (simp add: grows_def)
  next
    case (Some n)
    with 2 have "fs_nodes c p = Some n" by (simp add: grows_def)
    moreover have "under D p \<or> (under p D \<and> fs_nodes b p = Some Dir)"
      using 1 that(1) Some unfolding grows_def by (metis option.distinct(1))
    ultimately show ?thesis using Some by auto
  qed
  with 1 2 show ?thesis unfolding grows_def by simp
qed

lemma new_files_refl [simp]: "new_files P fs fs"
  by (simp add: new_files_def)

lemma new_files_trans: "new_files P a b \<Longrightarrow> new_files P b c \<Longrightarrow> new_files P a c"
  unfolding new_files_def by blast

lemma under_refl [simp]: "under p p"
  by (simp add: under_def)

lemma under_append [simp]: "under p (p @ q)"
  by (simp add: under_def)

lemma under_iff: "under r p \<longleftrightarrow> (\<exists>q. p = r @ q)"
  by (metis append_take_drop_id under_def under_append)

lemma wf_set_node:
  "fs_wf fs \<Longrightarrow> fs_nodes fs p = None \<Longrightarrow> fs_nodes fs (butlast p) = Some Dir \<Longrightarrow>
    (case n of Dir \<Rightarrow> True | File i \<Rightarrow> i < fs_fresh fs) \<Longrightarrow> fs_wf (set_node p n fs)"
proof -
  assume wf: "fs_wf fs" and p: "fs_nodes fs p = None" and up: "fs_nodes fs (butlast p) = Some Dir"
    and n: "case n of Dir \<Rightarrow> True | File i \<Rightarrow> i < fs_fresh fs"
  have ne: "p \<noteq> []" using wf p by (auto simp: fs_wf_def)
  have "fs_nodes (set_node p n fs) q = Some Dir" if "fs_nodes (set_node p n fs) (q @ [x]) \<noteq> None" for q x
  proof (cases "q @ [x] = p")
    case True
    then have "q = butlast p" by auto
    moreover have "butlast p \<noteq> p" using ne by (metis append_butlast_last_id append_self_conv list.distinct(1))
    ultimately show ?thesis using up by (simp add: set_node_def)
  next
    case False
    with that wf have "fs_nodes fs q = Some Dir" by (auto simp: set_node_def fs_wf_def split: if_splits)
    with p show ?thesis by (auto simp: set_node_def)
  qed
  with wf ne n show ?thesis by (auto simp: fs_wf_def set_node_def split: if_splits node.splits)
qed

lemma grows_set_node:
  assumes "fs_nodes fs p = None" "fs_nodes fs (butlast p) = Some Dir"
    "under D p \<or> (under p D \<and> n = Dir)" "fs_wf fs" "case n of Dir \<Rightarrow> True | File i \<Rightarrow> i < fs_fresh fs"
  shows "grows D fs (set_node p n fs)"
proof -
  have "fs_wf (set_node p n fs)" using wf_set_node assms by blast
  with assms show ?thesis by (auto simp: grows_def set_node_def)
qed

lemma mkdir_loop_grows:
  "mkdir_loop acc es fs = (err, fs') \<Longrightarrow> fs_wf fs \<Longrightarrow> fs_nodes fs acc = Some Dir \<Longrightarrow>
    under D (acc @ es) \<or> under (acc @ es) D \<Longrightarrow>
    grows D fs fs' \<and> new_files {} fs fs' \<and> (err = None \<longrightarrow> fs_nodes fs' (acc @ es) = Some Dir)"
proof (induction acc es fs rule: mkdir_loop.induct)
  case (2 acc e es fs)
  let ?p = "acc @ [e]"
  show ?case
  proof (cases "fs_nodes fs ?p")
    case None
    show ?thesis
    proof (cases "fs_denied fs ?p")
      case False
      have rel: "under D ?p \<or> under ?p D"
      proof (cases "under D (acc @ e # es)")
        case True
        then obtain r where r: "acc @ e # es = D @ r" by (auto simp: under_iff)
        then have "?p @ es = D @ r" by simp
        then show ?thesis unfolding under_iff append_eq_append_conv2 by metis
      next
        case False
        with "2.prems"(4) show ?thesis by (auto simp: under_iff)
      qed
      have "grows D fs (set_node ?p Dir fs)"
        using None "2.prems"(2,3) rel by (intro grows_set_node) auto
      moreover have "new_files {} fs (set_node ?p Dir fs)" by (simp add: new_files_def set_node_def)
      moreover have "mkdir_loop ?p es (set_node ?p Dir fs) = (err, fs')"
        using "2.prems"(1) None False by (simp add: Let_def)
      moreover have "fs_wf (set_node ?p Dir fs)" using calculation(1) "2.prems"(2) by (simp add: grows_def)
      ultimately show ?thesis
        using "2.IH"(1) [OF refl None False] "2.prems"(4) grows_trans new_files_trans
        by (simp add: set_node_def)
    qed (use "2.prems" None in \<open>auto simp: Let_def\<close>)
  next
    case (Some n)
    then show ?thesis using 2 by (cases n) (auto simp: Let_def)
  qed
qed simp

lemma mkdir_all_grows:
  "mkdir_all p fs = (err, fs') \<Longrightarrow> fs_wf fs \<Longrightarrow> under D p \<or> under p D \<Longrightarrow>
    grows D fs fs' \<and> new_files {} fs fs' \<and> (err = None \<longrightarrow> fs_nodes fs' p = Some Dir)"
  unfolding mkdir_all_def using mkdir_loop_grows [of "[]" p fs err fs' D] by (simp add: fs_wf_def)

lemma link_file_grows:
  assumes "link_file src dst fs = Some fs'" "fs_wf fs" "fs_nodes fs (butlast dst) = Some Dir" "under D dst"
  shows "grows D fs fs' \<and> new_files {dst} fs fs'"
proof -
  obtain i where i: "fs_nodes fs src = Some (File i)" "fs_nodes fs dst = None" "fs' = set_node dst (File i) fs"
    using assms(1) by (auto simp: link_file_def split: option.splits node.splits if_splits)
  have "i < fs_fresh fs" using i(1) assms(2) by (simp add: fs_wf_def)
  then have "grows D fs fs'" unfolding i(3) using assms i(2) by (intro grows_set_node) auto
  moreover have "new_files {dst} fs fs'" by (simp add: i(3) new_files_def set_node_def)
  ultimately show ?thesis ..
qed

lemma copy_file_grows:
  assumes "copy_file src dst fs = (err, fs')" "fs_wf fs" "fs_nodes fs (butlast dst) = Some Dir" "under D dst"
    and "\<And>i. fs_nodes fs dst \<noteq> Some (File i)"
  shows "grows D fs fs' \<and> new_files {dst} fs fs'"
proof (cases "fs' = fs")
  case False
  then obtain bytes where new: "fs_nodes fs dst = None" and fs': "fs' = set_node dst (File (fs_fresh fs))
      (fs\<lparr>fs_bytes := (fs_bytes fs)(fs_fresh fs := bytes), fs_fresh := Suc (fs_fresh fs)\<rparr>)"
    using assms(1,5) by (auto simp: copy_file_def split: option.splits node.splits if_splits)
  let ?g = "fs\<lparr>fs_bytes := (fs_bytes fs)(fs_fresh fs := bytes), fs_fresh := Suc (fs_fresh fs)\<rparr>"
  have "grows D fs ?g" using assms(2) by (auto simp: grows_def fs_wf_def less_Suc_eq)
  moreover have "fs_wf ?g" using calculation assms(2) by (simp add: grows_def)
  then have "grows D ?g fs'" unfolding fs' using new assms(3,4) by (intro grows_set_node) auto
  moreover have "new_files {dst} fs fs'" by (simp add: fs' new_files_def set_node_def)
  ultimately show ?thesis using grows_trans by blast
qed simp

lemma copy_entry_grows:
  assumes "copy_entry src D p fs = (err, fs')" "fs_wf fs" "under src p"
    and "\<And>i. fs_nodes fs (D @ drop (length src) p) \<noteq> Some (File i)"
    and "fs_nodes fs p \<noteq> Some Dir \<longrightarrow> p \<noteq> src"
  shows "grows D fs fs' \<and> new_files {D @ drop (length src) p} fs fs'"
proof -
  let ?t = "D @ drop (length src) p"
  show ?thesis
  proof (cases "fs_nodes fs p = Some Dir")
    case True
    then have "mkdir_all ?t fs = (err, fs')" using assms(1) by (simp add: copy_entry_def Let_def)
    from mkdir_all_grows [OF this assms(2), of D] show ?thesis by (auto simp: new_files_def)
  next
    case False
    obtain e1 fs1 where mk: "mkdir_all (butlast ?t) fs = (e1, fs1)" by fastforce
    have "drop (length src) p \<noteq> []" using False assms(3,5) by (auto simp: under_iff)
    then have ut: "under D (butlast ?t)" by (simp add: butlast_append)
    note g1 = mkdir_all_grows [OF mk assms(2), of D]
    have g: "grows D fs fs1" "new_files {?t} fs fs1" using g1 ut by (auto simp: new_files_def)
    show ?thesis
    proof (cases e1)
      case (Some e)
      with assms(1) False mk g show ?thesis by (simp add: copy_entry_def Let_def)
    next
      case None
      then have dir: "fs_nodes fs1 (butlast ?t) = Some Dir" using g1 ut by simp
      have wf1: "fs_wf fs1" using g(1) assms(2) by (simp add: grows_def)
      have tgt: "fs_nodes fs1 ?t \<noteq> Some (File i)" for i using g1 ut assms(4) by (auto simp: new_files_def)
      have "grows D fs1 fs' \<and> new_files {?t} fs1 fs'"
      proof (cases "link_file p ?t fs1")
        case None
        with assms(1) False mk \<open>e1 = None\<close> have "copy_file p ?t fs1 = (err, fs')" by (simp add: copy_entry_def Let_def)
        then show ?thesis using copy_file_grows wf1 dir tgt under_append by blast
      next
        case (Some fs2)
        with assms(1) False mk \<open>e1 = None\<close> have "fs2 = fs'" by (simp add: copy_entry_def Let_def)
        with Some show ?thesis using link_file_grows [OF _ wf1 dir under_append] by simp
      qed
      with g show ?thesis using grows_trans new_files_trans by blast
    qed
  qed
qed

lemma copy_entries_grows:
  "copy_entries src D ps fs = (err, fs') \<Longrightarrow> fs_wf fs \<Longrightarrow> distinct ps \<Longrightarrow> list_all (under src) ps \<Longrightarrow>
    list_all (\<lambda>p. \<forall>i. fs_nodes fs (D @ drop (length src) p) \<noteq> Some (File i)) ps \<Longrightarrow>
    fs_nodes fs src = Some Dir \<Longrightarrow> grows D fs fs'"
proof (induction ps arbitrary: fs)
  case (Cons p ps)
  obtain e1 fs1 where c: "copy_entry src D p fs = (e1, fs1)" by fastforce
  have g: "grows D fs fs1" "new_files {D @ drop (length src) p} fs fs1"
    using copy_entry_grows [OF c] Cons.prems by auto
  show ?case
  proof (cases e1)
    case (Some e)
    with Cons.prems(1) c g show ?thesis by simp
  next
    case None
    have inj: "q = p" if "under src q" "drop (length src) q = drop (length src) p" for q
      using that Cons.prems(4) by (auto simp: under_iff)
    then have "list_all (\<lambda>q. \<forall>i. fs_nodes fs1 (D @ drop (length src) q) \<noteq> Some (File i)) ps"
      unfolding list_all_iff
    proof (intro ballI allI notI)
      fix q i
      assume q: "q \<in> set ps" "fs_nodes fs1 (D @ drop (length src) q) = Some (File i)"
      have "under src q" "q \<noteq> p" using q(1) Cons.prems(3,4) by (auto simp: list_all_iff)
      then have "D @ drop (length src) q \<noteq> D @ drop (length src) p" using inj [of q] by auto
      then have "fs_nodes fs (D @ drop (length src) q) = Some (File i)" using g(2) q(2) by (auto simp: new_files_def)
      then show False using Cons.prems(5) q(1) by (simp add: list_all_iff)
    qed
    moreover have "fs_wf fs1" "fs_nodes fs1 src = Some Dir" using g(1) Cons.prems(2,6) by (auto simp: grows_def)
    ultimately have "grows D fs1 fs'" using Cons.IH [of fs1] Cons.prems c None by simp
    with g(1) show ?thesis by (rule grows_trans)
  qed
qed simp

text \<open>A listing of a part of the tree, and why a part that nothing new is below reads as before.\<close>

lemma path_less_iff: "path_less p q \<longleftrightarrow> p < q"
  by (induction p q rule: path_less.induct) simp_all

interpretation path_order: comparator path_less
  unfolding path_less_iff [abs_def] by (rule comparator_key)

lemma walk_set: "fs_wf fs \<Longrightarrow> set (walk fs r) = {p. under r p \<and> fs_nodes fs p \<noteq> None}"
  by (auto simp: walk_def fs_wf_def)

lemma walk_distinct [simp]: "distinct (walk fs r)"
  by (simp add: walk_def)

lemma walk_same:
  assumes "fs_wf fs" "fs_wf fs'" "\<And>p. under r p \<Longrightarrow> fs_nodes fs' p = fs_nodes fs p"
  shows "walk fs' r = walk fs r"
  unfolding walk_def
proof (rule path_order.sort_slice_unique)
  let ?l = "\<lambda>fs. filter (\<lambda>p. under r p \<and> fs_nodes fs p \<noteq> None) (remdups (fs_paths fs))"
  have "set (walk fs' r) = set (walk fs r)"
    unfolding walk_set [OF assms(1)] walk_set [OF assms(2)] using assms(3) by auto
  then have "set (?l fs') = set (?l fs)" by (simp only: walk_def set_sort_slice)
  then show "mset (?l fs') = mset (?l fs)"
    by (rule iffD1 [OF set_eq_iff_mset_eq_distinct, rotated 2]) simp_all
qed (simp add: path_less_iff)

lemma verify_same:
  assumes wf: "fs_wf fs" and g: "grows D fs fs'" and nodes: "\<And>p. under dir p \<Longrightarrow> fs_nodes fs' p = fs_nodes fs p"
  shows "verify_layout env fs' dir d = verify_layout env fs dir d"
proof -
  have wf': "fs_wf fs'" and den: "fs_denied fs' = fs_denied fs" using g wf by (simp_all add: grows_def)
  have read: "read_file fs' p = read_file fs p" if "under dir p" for p
  proof -
    have "fs_bytes fs' i = fs_bytes fs i" if "fs_nodes fs p = Some (File i)" for i
      using g wf that unfolding grows_def fs_wf_def by blast
    then show ?thesis unfolding read_file_def den nodes [OF that] by (simp split: option.split node.split)
  qed
  have deep: "under dir (dir @ [x])" "under (dir @ [x]) p \<Longrightarrow> under dir p" for x p by (auto simp: under_iff)
  have bind: "verify_identity_binding env fs' dir d = verify_identity_binding env fs dir d"
    unfolding verify_identity_binding_def Let_def den read [OF deep(1)] nodes [OF deep(1)] by (rule refl)
  have walks: "walk fs' (dir @ [''blobs'']) = walk fs (dir @ [''blobs''])"
    by (rule walk_same [OF wf wf']) (rule nodes, erule deep(2))
  have "verify_blob env fs' p = verify_blob env fs p" if "under dir p" for p
    unfolding verify_blob_def read [OF that] nodes [OF that] by (rule refl)
  then have "list_all (under dir) ps \<Longrightarrow> verify_blobs env fs' ps = verify_blobs env fs ps" for ps
    by (induction ps) (simp_all split: option.split)
  moreover have "list_all (under dir) (walk fs (dir @ [''blobs'']))"
    unfolding list_all_iff walk_set [OF wf] using deep(2) by blast
  ultimately have "verify_blob_integrity env fs' dir = verify_blob_integrity env fs dir"
    by (simp add: verify_blob_integrity_def walks nodes deep Let_def)
  with bind show ?thesis by (simp add: verify_layout_def split: option.split)
qed

lemma verify_dir: "fs_wf fs \<Longrightarrow> verify_layout env fs dir d = None \<Longrightarrow> fs_nodes fs dir = Some Dir"
  by (auto simp: fs_wf_def verify_layout_def verify_blob_integrity_def Let_def split: option.splits if_splits)

lemma absent_below: "fs_wf fs \<Longrightarrow> fs_nodes fs D = None \<Longrightarrow> fs_nodes fs (D @ q) = None"
proof (induction q rule: rev_induct)
  case (snoc x q)
  then have "fs_nodes fs (D @ q) = None" by blast
  with snoc.prems(1) have "fs_nodes fs ((D @ q) @ [x]) = None"
    unfolding fs_wf_def by (metis option.distinct(1))
  then show ?case by simp
qed simp

lemma put_grows:
  assumes put: "fs_put env root d layout fs = (res, fs')" and wf: "fs_wf fs"
  shows "case dir_for root d of Inl _ \<Rightarrow> fs' = fs | Inr dest \<Rightarrow> grows dest fs fs'"
proof (cases "dir_for root d")
  case (Inl e)
  with put show ?thesis by (auto simp: fs_put_def split: option.splits)
next
  case (Inr dest)
  show ?thesis
  proof (cases "verify_layout env fs layout d = None \<and> fs_nodes fs dest = None")
    case False
    with put Inr show ?thesis by (auto simp: fs_put_def split: option.splits)
  next
    case True
    obtain e1 fs1 where mk: "mkdir_all (butlast dest) fs = (e1, fs1)" by fastforce
    obtain e2 fs2 where cp: "copy_tree layout dest fs1 = (e2, fs2)" by fastforce
    have "under (butlast dest) dest" by (metis append_butlast_last_id butlast.simps(1) under_append under_refl)
    then have g1: "grows dest fs fs1" "new_files {} fs fs1" using mkdir_all_grows [OF mk wf] by blast+
    have wf1: "fs_wf fs1" using g1(1) wf by (simp add: grows_def)
    have "fs_nodes fs layout = Some Dir" using verify_dir [OF wf] True by blast
    then have "fs_nodes fs1 layout = Some Dir" using g1(1) unfolding grows_def by blast
    moreover have "fs_nodes fs1 (dest @ q) \<noteq> Some (File i)" for q i
      using absent_below [OF wf, of dest q] True g1(2) by (auto simp: new_files_def)
    moreover have "list_all (under layout) (walk fs1 layout)" using walk_set [OF wf1] by (simp add: list_all_iff)
    ultimately have "grows dest fs1 fs2"
      using copy_entries_grows [OF cp [unfolded copy_tree_def] wf1] by (simp add: list_all_iff)
    then have "grows dest fs fs2" using g1(1) grows_trans by blast
    moreover have "fs' = fs1 \<or> fs' = fs2"
      using put Inr True mk cp by (auto simp: fs_put_def split: option.splits)
    ultimately show ?thesis using g1(1) Inr by auto
  qed
qed

lemma put_wf: "fs_put env root d layout fs = (res, fs') \<Longrightarrow> fs_wf fs \<Longrightarrow> fs_wf fs'"
  using put_grows [of env root d layout fs res fs'] by (auto simp: grows_def split: sum.splits)

lemma put_resolve:
  assumes put: "fs_put env root d layout fs = (Inr p, fs')" and wf: "fs_wf fs"
  shows "fs_resolve env root d fs' = Inr p"
proof -
  have wf': "fs_wf fs'" by (rule put_wf [OF put wf])
  have "dir_for root d = Inr p \<and> verify_layout env fs' p d = None"
    using put by (auto simp: fs_put_def split: option.splits sum.splits prod.splits if_splits)
  with verify_dir [OF wf', of env p d] show ?thesis by (simp add: fs_resolve_def)
qed

section \<open>What is copied\<close>

text \<open>\<open>mirrors fs p fs' q\<close>: what is at \<open>q\<close> in \<open>fs'\<close> is what was at \<open>p\<close> in \<open>fs\<close>, a file by its bytes.\<close>

definition mirrors :: "file_system \<Rightarrow> path \<Rightarrow> file_system \<Rightarrow> path \<Rightarrow> bool" where
  "mirrors fs p fs' q \<longleftrightarrow>
     (case fs_nodes fs p of
        None \<Rightarrow> fs_nodes fs' q = None
      | Some Dir \<Rightarrow> fs_nodes fs' q = Some Dir
      | Some (File i) \<Rightarrow> (\<exists>j. fs_nodes fs' q = Some (File j) \<and> fs_bytes fs' j = fs_bytes fs i))"

lemma mirrors_grows:
  assumes "mirrors fs p fs1 q" "grows D fs1 fs2" "fs_wf fs1" "fs_nodes fs p \<noteq> None"
  shows "mirrors fs p fs2 q"
proof (cases "fs_nodes fs p")
  case (Some n)
  show ?thesis
  proof (cases n)
    case Dir
    with assms Some show ?thesis by (simp add: mirrors_def grows_def)
  next
    case (File i)
    with assms(1) Some obtain j where j: "fs_nodes fs1 q = Some (File j)" "fs_bytes fs1 j = fs_bytes fs i"
      by (auto simp: mirrors_def)
    have "j < fs_fresh fs1" using assms(3) j(1) unfolding fs_wf_def by blast
    then have "fs_nodes fs2 q = Some (File j)" "fs_bytes fs2 j = fs_bytes fs i"
      using assms(2) j unfolding grows_def by simp_all
    then show ?thesis using Some File by (simp add: mirrors_def)
  qed
qed (use assms(4) in simp)

lemma mirrors_from:
  assumes "mirrors fs1 p fs2 q" "grows D fs fs1" "fs_wf fs" "fs_nodes fs p \<noteq> None"
  shows "mirrors fs p fs2 q"
proof (cases "fs_nodes fs p")
  case (Some n)
  then have n: "fs_nodes fs1 p = Some n" using assms(2) by (simp add: grows_def)
  show ?thesis
  proof (cases n)
    case Dir
    with assms Some n show ?thesis by (simp add: mirrors_def)
  next
    case (File i)
    have "i < fs_fresh fs" using assms(3) Some File unfolding fs_wf_def by blast
    then have "fs_bytes fs1 i = fs_bytes fs i" using assms(2) by (simp add: grows_def)
    then show ?thesis using assms(1) Some n File by (simp add: mirrors_def)
  qed
qed (use assms(4) in simp)

lemma mkdir_loop_new:
  "mkdir_loop acc es fs = (err, fs') \<Longrightarrow> fs_nodes fs q = None \<Longrightarrow> fs_nodes fs' q \<noteq> None \<Longrightarrow> under q (acc @ es)"
proof (induction acc es fs rule: mkdir_loop.induct)
  case (2 acc e es fs)
  let ?p = "acc @ [e]"
  show ?case
  proof (cases "fs_nodes fs ?p")
    case None
    show ?thesis
    proof (cases "q = ?p \<or> fs_denied fs ?p")
      case True
      with 2 None show ?thesis by (auto simp: under_iff Let_def split: if_splits)
    next
      case False
      then have "fs_nodes (set_node ?p Dir fs) q = None" using "2.prems"(2) by (simp add: set_node_def)
      with 2 None False show ?thesis by (simp add: Let_def)
    qed
  next
    case (Some n)
    with 2 show ?thesis by (cases n) (auto simp: Let_def)
  qed
qed simp

lemma mkdir_all_new:
  "mkdir_all p fs = (err, fs') \<Longrightarrow> fs_nodes fs q = None \<Longrightarrow> fs_nodes fs' q \<noteq> None \<Longrightarrow> under q p"
  unfolding mkdir_all_def using mkdir_loop_new [of "[]"] by simp

lemma link_file_copies:
  assumes "link_file p t fs = Some fs'" "fs_nodes fs q = None" "fs_nodes fs' q \<noteq> None"
  shows "q = t"
  using assms by (auto simp: link_file_def set_node_def split: option.splits node.splits if_splits)

lemma link_file_mirrors: "link_file p t fs = Some fs' \<Longrightarrow> mirrors fs p fs' t"
  by (auto simp: link_file_def set_node_def mirrors_def split: option.splits node.splits if_splits)

lemma copy_file_copies:
  assumes "copy_file p t fs = (err, fs')" "fs_nodes fs q = None" "fs_nodes fs' q \<noteq> None"
  shows "q = t"
  using assms by (auto simp: copy_file_def set_node_def split: option.splits node.splits if_splits)

lemma copy_file_mirrors:
  assumes "copy_file p t fs = (None, fs')" "fs_wf fs" "\<And>i. fs_nodes fs t \<noteq> Some (File i)"
  shows "mirrors fs p fs' t"
  using assms
  by (auto simp: copy_file_def read_file_def set_node_def mirrors_def split: option.splits node.splits if_splits)

text \<open>One entry: it is mirrored at its target, and nothing appears but the target and the directories
  above it.\<close>

lemma copy_entry_mirrors:
  assumes c: "copy_entry src D p fs = (None, fs')" and wf: "fs_wf fs" and p: "under src p" "fs_nodes fs p \<noteq> None"
    and t: "\<And>i. fs_nodes fs (D @ drop (length src) p) \<noteq> Some (File i)"
    and root: "fs_nodes fs p \<noteq> Some Dir \<longrightarrow> p \<noteq> src"
  shows "mirrors fs p fs' (D @ drop (length src) p)"
    "\<And>q. fs_nodes fs q = None \<Longrightarrow> fs_nodes fs' q \<noteq> None \<Longrightarrow> under q (D @ drop (length src) p)"
proof -
  let ?t = "D @ drop (length src) p"
  have "mirrors fs p fs' ?t \<and> (\<forall>q. fs_nodes fs q = None \<longrightarrow> fs_nodes fs' q \<noteq> None \<longrightarrow> under q ?t)"
  proof (cases "fs_nodes fs p = Some Dir")
    case True
    then have "mkdir_all ?t fs = (None, fs')" using c by (simp add: copy_entry_def Let_def)
    with mkdir_all_new [OF this] mkdir_all_grows [OF this wf, of D] True show ?thesis by (simp add: mirrors_def)
  next
    case False
    obtain e1 fs1 where mk: "mkdir_all (butlast ?t) fs = (e1, fs1)" by fastforce
    have ne: "drop (length src) p \<noteq> []" using False p root by (auto simp: under_iff)
    then have ut: "under D (butlast ?t)" by (simp add: butlast_append)
    note g1 = mkdir_all_grows [OF mk wf, of D]
    have e1: "e1 = None" using c False mk by (cases e1) (simp_all add: copy_entry_def Let_def)
    have wf1: "fs_wf fs1" and g: "grows D fs fs1" using g1 ut wf by (auto simp: grows_def)
    have t1: "fs_nodes fs1 ?t \<noteq> Some (File i)" for i using g1 ut t by (auto simp: new_files_def)
    have up: "under q ?t" if "under q (butlast ?t)" for q
    proof -
      have "butlast ?t @ [last ?t] = ?t" using ne by (intro append_butlast_last_id) simp
      with that show ?thesis by (metis append.assoc under_iff)
    qed
    have step: "mirrors fs1 p fs' ?t \<and> (\<forall>q. fs_nodes fs1 q = None \<longrightarrow> fs_nodes fs' q \<noteq> None \<longrightarrow> q = ?t)"
    proof (cases "link_file p ?t fs1")
      case None
      with c False mk e1 have "copy_file p ?t fs1 = (None, fs')" by (simp add: copy_entry_def Let_def)
      then show ?thesis using copy_file_mirrors [OF _ wf1 t1] copy_file_copies by blast
    next
      case (Some fs2)
      with c False mk e1 have "link_file p ?t fs1 = Some fs'" by (simp add: copy_entry_def Let_def)
      then show ?thesis using link_file_mirrors link_file_copies by blast
    qed
    have "under q ?t" if q: "fs_nodes fs q = None" "fs_nodes fs' q \<noteq> None" for q
    proof (cases "fs_nodes fs1 q = None")
      case True
      with step q show ?thesis by auto
    next
      case False
      then show ?thesis using mkdir_all_new [OF mk q(1)] up by blast
    qed
    with step mirrors_from [OF _ g wf p(2)] show ?thesis by blast
  qed
  then show "mirrors fs p fs' ?t" "\<And>q. fs_nodes fs q = None \<Longrightarrow> fs_nodes fs' q \<noteq> None \<Longrightarrow> under q ?t" by blast+
qed

lemma copy_entries_mirrors:
  "copy_entries src D ps fs = (None, fs') \<Longrightarrow> fs_wf fs \<Longrightarrow> distinct ps \<Longrightarrow> list_all (under src) ps \<Longrightarrow>
    list_all (\<lambda>p. fs_nodes fs p \<noteq> None \<and> (\<forall>i. fs_nodes fs (D @ drop (length src) p) \<noteq> Some (File i))) ps \<Longrightarrow>
    fs_nodes fs src = Some Dir \<Longrightarrow>
    (\<forall>p \<in> set ps. mirrors fs p fs' (D @ drop (length src) p)) \<and>
    (\<forall>q. fs_nodes fs q = None \<longrightarrow> fs_nodes fs' q \<noteq> None \<longrightarrow> (\<exists>p \<in> set ps. under q (D @ drop (length src) p)))"
proof (induction ps arbitrary: fs)
  case (Cons p ps)
  obtain e1 fs1 where c0: "copy_entry src D p fs = (e1, fs1)" by fastforce
  with Cons.prems(1) have c: "copy_entry src D p fs = (None, fs1)" and rest: "copy_entries src D ps fs1 = (None, fs')"
    by (cases e1; simp)+
  have g: "grows D fs fs1" "new_files {D @ drop (length src) p} fs fs1"
    using copy_entry_grows [OF c] Cons.prems by auto
  have one: "mirrors fs p fs1 (D @ drop (length src) p)"
    "\<And>q. fs_nodes fs q = None \<Longrightarrow> fs_nodes fs1 q \<noteq> None \<Longrightarrow> under q (D @ drop (length src) p)"
    using copy_entry_mirrors [OF c Cons.prems(2)] Cons.prems by auto
  have wf1: "fs_wf fs1" "fs_nodes fs1 src = Some Dir" using g(1) Cons.prems(2,6) by (auto simp: grows_def)
  have ready: "list_all (\<lambda>q. fs_nodes fs1 q \<noteq> None \<and> (\<forall>i. fs_nodes fs1 (D @ drop (length src) q) \<noteq> Some (File i))) ps"
    unfolding list_all_iff
  proof (intro ballI conjI allI notI)
    fix q assume q: "q \<in> set ps"
    then have old: "fs_nodes fs q \<noteq> None" using Cons.prems(5) by (simp add: list_all_iff)
    show False if "fs_nodes fs1 q = None" using that old g(1) by (auto simp: grows_def)
    fix i
    assume f: "fs_nodes fs1 (D @ drop (length src) q) = Some (File i)"
    have "under src q" "under src p" "q \<noteq> p" using q Cons.prems(3,4) by (auto simp: list_all_iff)
    then have "D @ drop (length src) q \<noteq> D @ drop (length src) p" by (auto simp: under_iff)
    then have "fs_nodes fs (D @ drop (length src) q) = Some (File i)" using g(2) f by (auto simp: new_files_def)
    then show False using Cons.prems(5) q by (simp add: list_all_iff)
  qed
  have under_ps: "list_all (under src) ps" "distinct ps" using Cons.prems(3,4) by simp_all
  note ih = Cons.IH [OF rest wf1(1) under_ps(2,1) ready wf1(2)]
  have g2: "grows D fs1 fs'"
    using copy_entries_grows [OF rest wf1(1) under_ps(2,1) _ wf1(2)] ready by (simp add: list_all_iff)
  have "mirrors fs x fs' (D @ drop (length src) x)" if "x \<in> set (p # ps)" for x
  proof -
    have x: "fs_nodes fs x \<noteq> None" using that Cons.prems(5) by (auto simp: list_all_iff)
    show ?thesis
    proof (cases "x = p")
      case True
      with one(1) x mirrors_grows [OF _ g2 wf1(1)] show ?thesis by blast
    next
      case False
      with that ih have "mirrors fs1 x fs' (D @ drop (length src) x)" by simp
      then show ?thesis using mirrors_from [OF _ g(1) Cons.prems(2) x] by blast
    qed
  qed
  moreover have "\<exists>x \<in> set (p # ps). under q (D @ drop (length src) x)"
    if q: "fs_nodes fs q = None" "fs_nodes fs' q \<noteq> None" for q
  proof (cases "fs_nodes fs1 q = None")
    case True
    with ih q(2) show ?thesis by auto
  next
    case False
    with one(2) [OF q(1)] show ?thesis by auto
  qed
  ultimately show ?case by blast
qed simp

text \<open>\<^verbatim>\<open>Put\<close> into a place that holds nothing leaves there the layout and nothing else; into a place that
  holds a verified layout it changes nothing.\<close>

definition holds_layout :: "file_system \<Rightarrow> path \<Rightarrow> file_system \<Rightarrow> path \<Rightarrow> bool" where
  "holds_layout fs layout fs' p \<longleftrightarrow> (\<forall>rel. mirrors fs (layout @ rel) fs' (p @ rel))"

lemma put_mirrors:
  assumes put: "fs_put env root d layout fs = (Inr p, fs')" and wf: "fs_wf fs" and out: "\<not> under layout p"
  shows "if fs_nodes fs p = None then holds_layout fs layout fs' p else fs' = fs"
proof (cases "fs_nodes fs p")
  case (Some n)
  with put show ?thesis by (auto simp: fs_put_def split: option.splits sum.splits prod.splits if_splits)
next
  case None
  have dest: "dir_for root d = Inr p" and ok: "verify_layout env fs layout d = None"
    using put by (auto simp: fs_put_def split: option.splits sum.splits prod.splits if_splits)
  obtain e1 fs1 where mk: "mkdir_all (butlast p) fs = (e1, fs1)" by fastforce
  have cp: "copy_tree layout p fs1 = (None, fs')"
    using put dest ok None mk by (auto simp: fs_put_def split: option.splits prod.splits)
  have ne: "p \<noteq> []" using wf None by (auto simp: fs_wf_def)
  then have up: "under (butlast p) p" by (metis append_butlast_last_id under_append)
  note g1 = mkdir_all_grows [OF mk wf, of p] mkdir_all_new [OF mk]
  have wf1: "fs_wf fs1" and g: "grows p fs fs1" "new_files {} fs fs1" using g1(1) up wf by (auto simp: grows_def)
  have lay: "fs_nodes fs layout = Some Dir" using verify_dir [OF wf ok] .
  have lay1: "fs_nodes fs1 layout = Some Dir" using lay g(1) unfolding grows_def by blast
  have none1: "fs_nodes fs1 (p @ q) = None" for q
  proof (rule ccontr)
    assume "fs_nodes fs1 (p @ q) \<noteq> None"
    then have "under (p @ q) (butlast p)" using g1(2) [OF absent_below [OF wf None, of q]] by blast
    then have "length (p @ q) \<le> length (butlast p)" by (metis length_take min.bounded_iff nat_le_linear take_all_iff under_def)
    moreover have "0 < length p" using ne by simp
    ultimately show False unfolding length_append length_butlast by linarith
  qed
  have same: "fs_nodes fs1 (layout @ rel) = None" if "fs_nodes fs (layout @ rel) = None" for rel
  proof (rule ccontr)
    assume "fs_nodes fs1 (layout @ rel) \<noteq> None"
    then have "under (layout @ rel) (butlast p)" using g1(2) that by blast
    with up out show False by (auto simp: under_iff)
  qed
  note w = walk_set [OF wf1, of layout]
  have targets: "fs_nodes fs1 (p @ drop (length layout) q) \<noteq> Some (File i)" for q i using none1 by simp
  have copied: "(\<forall>q \<in> set (walk fs1 layout). mirrors fs1 q fs' (p @ drop (length layout) q)) \<and>
    (\<forall>q. fs_nodes fs1 q = None \<longrightarrow> fs_nodes fs' q \<noteq> None \<longrightarrow> (\<exists>x \<in> set (walk fs1 layout). under q (p @ drop (length layout) x)))"
    by (rule copy_entries_mirrors [OF cp [unfolded copy_tree_def] wf1 _ _ _ lay1])
       (use targets in \<open>auto simp: list_all_iff w\<close>)
  have "mirrors fs (layout @ rel) fs' (p @ rel)" for rel
  proof (cases "fs_nodes fs (layout @ rel)")
    case None
    have "fs_nodes fs' (p @ rel) = None"
    proof (rule ccontr)
      assume "fs_nodes fs' (p @ rel) \<noteq> None"
      then obtain x where x: "x \<in> set (walk fs1 layout)" "under (p @ rel) (p @ drop (length layout) x)"
        using copied none1 by blast
      then obtain y where "x = layout @ rel @ y" by (auto simp: w under_iff)
      with x(1) have "fs_nodes fs1 ((layout @ rel) @ y) \<noteq> None" by (simp add: w)
      with absent_below [OF wf1 same [OF None], of y] show False by contradiction
    qed
    with None show ?thesis by (simp add: mirrors_def)
  next
    case (Some n)
    then have "fs_nodes fs1 (layout @ rel) = Some n" using g(1) by (simp add: grows_def)
    then have "layout @ rel \<in> set (walk fs1 layout)" by (simp add: w)
    with copied have "mirrors fs1 (layout @ rel) fs' (p @ drop (length layout) (layout @ rel))" by blast
    then show ?thesis using mirrors_from [OF _ g(1) wf] Some by simp
  qed
  with None show ?thesis by (simp add: holds_layout_def)
qed

section \<open>Intact layouts\<close>

text \<open>What verification means: the index names the digest, and every file below \<^verbatim>\<open>blobs\<close> lies in a
  directory \<^verbatim>\<open>sha256\<close> under the hash of its bytes.\<close>

definition layout_intact :: "cas_env \<Rightarrow> string \<Rightarrow> path \<Rightarrow> file_system \<Rightarrow> bool" where
  "layout_intact env d dir fs \<longleftrightarrow>
     (\<exists>i ds. fs_nodes fs (dir @ [''index.json'']) = Some (File i) \<and> ce_index env (fs_bytes fs i) = Some ds \<and> d \<in> set ds) \<and>
     (\<forall>p i. under (dir @ [''blobs'']) p \<longrightarrow> fs_nodes fs p = Some (File i) \<longrightarrow>
        last (butlast p) = ''sha256'' \<and> ce_hash env (fs_bytes fs i) = last p)"

lemma verify_intact:
  assumes wf: "fs_wf fs" and v: "verify_layout env fs dir d = None"
  shows "layout_intact env d dir fs"
proof -
  have bind: "verify_identity_binding env fs dir d = None" and blobs: "verify_blob_integrity env fs dir = None"
    using v by (auto simp: verify_layout_def split: option.splits)
  obtain bytes ds where b: "read_file fs (dir @ [''index.json'']) = Some bytes" "ce_index env bytes = Some ds" "d \<in> set ds"
    using bind by (auto simp: verify_identity_binding_def Let_def split: sum.splits option.splits if_splits)
  then obtain i where "fs_nodes fs (dir @ [''index.json'']) = Some (File i)" "bytes = fs_bytes fs i"
    by (auto simp: read_file_def split: option.splits node.splits if_splits)
  moreover have "last (butlast p) = ''sha256'' \<and> ce_hash env (fs_bytes fs i) = last p"
    if p: "under (dir @ [''blobs'']) p" "fs_nodes fs p = Some (File i)" for p i
  proof -
    have "verify_blobs env fs ps = None \<Longrightarrow> q \<in> set ps \<Longrightarrow> verify_blob env fs q = None" for ps q
      by (induction ps) (auto split: option.splits)
    moreover have "p \<in> set (walk fs (dir @ [''blobs'']))" using p by (simp add: walk_set [OF wf])
    ultimately have "verify_blob env fs p = None"
      using blobs by (auto simp: verify_blob_integrity_def Let_def split: if_splits)
    with p(2) show ?thesis
      by (auto simp: verify_blob_def read_file_def Let_def split: option.splits if_splits)
  qed
  ultimately show ?thesis using b by (auto simp: layout_intact_def)
qed

lemma resolve_intact: "fs_wf fs \<Longrightarrow> fs_resolve env root d fs = Inr p \<Longrightarrow> layout_intact env d p fs"
  using verify_intact by (auto simp: fs_resolve_def split: sum.splits option.splits if_splits)

section \<open>The contract of a store\<close>

text \<open>What perform, review and publish rely on: exporting pays for transport, a successful \<open>put\<close> under
  transport resolves to what it returned, and what resolves is intact.\<close>

locale artifact_store =
  fixes inv :: "'s \<Rightarrow> bool" and carries exports :: bool
    and put :: "'d \<Rightarrow> 'l \<Rightarrow> 's \<Rightarrow> ('e + 'p) \<times> 's"
    and resolve :: "'d \<Rightarrow> 's \<Rightarrow> 'e + 'p"
    and intact :: "'d \<Rightarrow> 'p \<Rightarrow> 's \<Rightarrow> bool"
  assumes exports_carries: "exports \<Longrightarrow> carries"
    and put_inv: "inv s \<Longrightarrow> put d l s = (res, s') \<Longrightarrow> inv s'"
    and put_found: "carries \<Longrightarrow> inv s \<Longrightarrow> put d l s = (Inr p, s') \<Longrightarrow> resolve d s' = Inr p"
    and found_intact: "inv s \<Longrightarrow> resolve d s = Inr p \<Longrightarrow> intact d p s"
begin

lemma exported_found: "exports \<Longrightarrow> inv s \<Longrightarrow> put d l s = (Inr p, s') \<Longrightarrow> resolve d s' = Inr p \<and> intact d p s'"
  using exports_carries put_inv put_found found_intact by metis

end

interpretation stores: artifact_store fs_wf "transport s" "requires_oci_export s" "store_put env s" "store_resolve env s"
    "layout_intact env" for env s
proof
  fix fs fs' d l p res
  show "requires_oci_export s \<Longrightarrow> transport s" by (cases s) (simp_all add: transport_def requires_oci_export_def)
  show "fs_wf fs \<Longrightarrow> store_put env s d l fs = (res, fs') \<Longrightarrow> fs_wf fs'"
    using put_wf by (cases s) (auto simp: store_put_def)
  show "transport s \<Longrightarrow> fs_wf fs \<Longrightarrow> store_put env s d l fs = (Inr p, fs') \<Longrightarrow> store_resolve env s d fs' = Inr p"
    using put_resolve by (cases s) (auto simp: store_put_def store_resolve_def transport_def)
  show "fs_wf fs \<Longrightarrow> store_resolve env s d fs = Inr p \<Longrightarrow> layout_intact env d p fs"
    using resolve_intact by (cases s) (auto simp: store_resolve_def)
qed

subsection \<open>Where the store keeps a digest\<close>

lemma path_elems_clean: "is_abs p \<Longrightarrow> path_elems (path_clean p) = path_elems p"
  using elems_of_path [OF clean_elems_clean [of True p]] by (simp add: path_elems_def path_clean_def)

lemma path_elems_append: "path_elems (a @ slash # b) = foldl (clean_step True) (path_elems a) (split_on slash b)"
  by (simp add: path_elems_def clean_elems_def split_on_append)

lemma dir_for_plain:
  assumes "is_abs root" "split_digest d = Inr (algo, hex)" "plain_elem hex"
  shows "dir_for root d = Inr (path_elems root @ [''sha256'', hex])"
proof -
  have algo: "algo = ''sha256''" and ne: "hex \<noteq> []"
    using assms(2) by (auto simp: split_digest_def split: option.splits if_splits)
  have root: "root \<noteq> []" using assms(1) by (auto simp: is_abs_def has_prefix_singleton)
  have sha: "plain_elem ''sha256''" by (simp add: plain_elem_def)
  have split: "split_on slash ''sha256'' = [''sha256'']" "split_on slash hex = [hex]"
    using sha assms(3) by (simp_all add: split_on_plain plain_elem_def)
  let ?p = "root @ slash # ''sha256'' @ slash # hex"
  have "path_join [root, algo, hex] = path_clean ?p" using root ne by (simp add: path_join_def algo)
  moreover have "is_abs ?p" using assms(1) by (auto simp: is_abs_def has_prefix_singleton)
  moreover have "path_elems ?p = path_elems root @ [''sha256'', hex]"
    using split assms(3) sha by (simp add: path_elems_append split_on_append clean_step_def plain_elem_def)
  ultimately show ?thesis using assms(2) by (simp add: dir_for_def path_elems_clean)
qed

text \<open>A digest whose hexadecimal part is one plain path element, as a digest is meant to be.\<close>

definition plain_digest :: "string \<Rightarrow> bool" where
  "plain_digest d \<longleftrightarrow> (case split_digest d of Inl _ \<Rightarrow> False | Inr (_, hex) \<Rightarrow> plain_elem hex)"

lemma split_digest_text: "split_digest d = Inr (algo, hex) \<Longrightarrow> d = ''sha256:'' @ hex \<and> length hex = 64"
  by (auto simp: split_digest_def cut_at_Some split: option.splits if_splits)

lemma digest_dirs_disjoint:
  assumes "is_abs root" "plain_digest d" "plain_digest d'" "d \<noteq> d'" "dir_for root d = Inr p" "dir_for root d' = Inr p'"
  shows "p \<noteq> p' \<and> length p = length p'"
proof -
  obtain a h a' h' where s: "split_digest d = Inr (a, h)" "split_digest d' = Inr (a', h')" "plain_elem h" "plain_elem h'"
    using assms(2,3) by (auto simp: plain_digest_def split: sum.splits)
  have "h \<noteq> h'" using split_digest_text [OF s(1)] split_digest_text [OF s(2)] assms(4) by auto
  then show ?thesis
    using dir_for_plain [OF assms(1) s(1,3)] dir_for_plain [OF assms(1) s(2,4)] assms(5,6) by auto
qed

lemma put_frame:
  assumes put: "fs_put env root d layout fs = (res, fs')" and wf: "fs_wf fs"
    and abs: "is_abs root" "plain_digest d" "plain_digest d'" "d \<noteq> d'"
    and found: "fs_resolve env root d' fs = Inr p"
  shows "fs_resolve env root d' fs' = Inr p"
proof (cases "dir_for root d")
  case (Inl e)
  with put_grows [OF put wf] found show ?thesis by simp
next
  case (Inr dest)
  then have g: "grows dest fs fs'" using put_grows [OF put wf] by simp
  have p: "dir_for root d' = Inr p" "fs_nodes fs p \<noteq> None" "verify_layout env fs p d' = None"
    using found by (auto simp: fs_resolve_def split: sum.splits option.splits if_splits)
  have ne: "dest \<noteq> p" "length dest = length p" using digest_dirs_disjoint [OF abs Inr p(1)] by auto
  have same: "fs_nodes fs' q = fs_nodes fs q" if "under p q" for q
  proof (cases "fs_nodes fs q")
    case None
    have "\<not> under dest q" using that ne by (auto simp: under_def)
    moreover have "\<not> under q dest" using that ne by (auto simp: under_iff)
    ultimately have "fs_nodes fs' q = None" using g None unfolding grows_def by blast
    with None show ?thesis by simp
  next
    case (Some n)
    with g show ?thesis by (simp add: grows_def)
  qed
  have "verify_layout env fs' p d' = None" using verify_same [OF wf g same, where env = env and d = d'] p(3) by simp
  then show ?thesis using p same [of p] by (simp add: fs_resolve_def)
qed

section \<open>What the store guarantees\<close>

text \<open>A small tree: a layout at \<^verbatim>\<open>/l\<close> whose index names one digest, with one blob or none. The hash of
  the demonstration gives every content the same name.\<close>

definition demo_hash :: string where
  "demo_hash = replicate 64 (CHR ''0'')"

definition demo_digest :: string where
  "demo_digest = ''sha256:'' @ demo_hash"

definition demo_env :: cas_env where
  "demo_env = \<lparr>ce_hash = (\<lambda>_. demo_hash), ce_index = (\<lambda>b. if b = ''index'' then Some [demo_digest] else None)\<rparr>"

definition demo_tree :: "(path \<times> node) list \<Rightarrow> file_system" where
  "demo_tree ns = \<lparr>fs_nodes = map_of ns, fs_paths = map fst ns, fs_bytes = (\<lambda>i. if i = 0 then ''index'' else ''blob''),
     fs_fresh = 2, fs_denied = (\<lambda>_. False), fs_links = True\<rparr>"

definition bare_layout :: "(path \<times> node) list" where
  "bare_layout = [([], Dir), ([''l''], Dir), ([''l'', ''blobs''], Dir), ([''l'', ''index.json''], File 0)]"

definition full_layout :: "(path \<times> node) list" where
  "full_layout = bare_layout @ [([''l'', ''blobs'', ''sha256''], Dir), ([''l'', ''blobs'', ''sha256'', demo_hash], File 1)]"

lemma demo_tree_wf:
  assumes "map_of ns [] = Some Dir"
    "list_all (\<lambda>(p, n). (p = [] \<or> map_of ns (butlast p) = Some Dir) \<and> (case n of Dir \<Rightarrow> True | File i \<Rightarrow> i < 2)) ns"
  shows "fs_wf (demo_tree ns)"
proof -
  have "map_of ns p = Some Dir" if "map_of ns (p @ [x]) = Some n" for p x n
    using map_of_SomeD [OF that] assms(2) by (auto simp: list_all_iff)
  moreover have "i < 2" if "map_of ns p = Some (File i)" for p i
    using map_of_SomeD [OF that] assms(2) by (auto simp: list_all_iff)
  ultimately show ?thesis
    using assms(1) by (auto simp: fs_wf_def demo_tree_def intro: domI simp flip: dom_map_of_conv_image_fst)
qed

lemma full_layout_wf: "fs_wf (demo_tree full_layout)"
  by (rule demo_tree_wf) code_simp+

text \<open>C8: The round trip of the store, for a layout that does not contain the place it is kept at: what
  \<^verbatim>\<open>Put\<close> retains under transport, \<^verbatim>\<open>Resolve\<close> finds at the returned path, with its index naming the
  digest and every blob hashing to its name. Where nothing was kept before, the returned directory
  then holds the given layout and nothing else: the same directories and files at the same relative
  paths, every file with the same bytes. Where a verified layout was kept, nothing changes.\<close>

theorem cas_put_resolve:
  assumes "fs_wf fs" "transport s" "store_put env s d layout fs = (Inr p, fs')" "\<not> under layout p"
  shows "store_resolve env s d fs' = Inr p \<and> layout_intact env d p fs' \<and>
    (if fs_nodes fs p = None then holds_layout fs layout fs' p else fs' = fs)"
proof -
  obtain root where "fs_put env root d layout fs = (Inr p, fs')"
    using assms(2,3) by (cases s) (auto simp: transport_def store_put_def)
  from put_mirrors [OF this assms(1,4)] show ?thesis
    using stores.put_found [OF assms(2,1,3)] stores.found_intact [where s = fs'] stores.put_inv [OF assms(1,3)] by blast
qed

theorem cas_put_resolve_witness:
  "\<exists>fs'. store_put demo_env (FSStore ''/s'') demo_digest [''l''] (demo_tree full_layout)
      = (Inr [''s'', ''sha256'', demo_hash], fs') \<and>
     store_resolve demo_env (FSStore ''/s'') demo_digest fs' = Inr [''s'', ''sha256'', demo_hash] \<and>
     holds_layout (demo_tree full_layout) [''l''] fs' [''s'', ''sha256'', demo_hash]"
proof -
  let ?fs = "demo_tree full_layout" and ?p = "[''s'', ''sha256'', demo_hash]"
  have "(case store_put demo_env (FSStore ''/s'') demo_digest [''l''] ?fs of (Inr p, _) \<Rightarrow> p = ?p | _ \<Rightarrow> False)"
    by code_simp
  then obtain fs' where put: "store_put demo_env (FSStore ''/s'') demo_digest [''l''] ?fs = (Inr ?p, fs')"
    by (auto split: prod.splits sum.splits)
  have "transport (FSStore ''/s'')" "\<not> under [''l''] ?p" "fs_nodes ?fs ?p = None" by code_simp+
  then show ?thesis using cas_put_resolve [OF full_layout_wf _ put] put by simp
qed

text \<open>C9: \<^verbatim>\<open>Put\<close> of one digest never disturbs another: a digest that resolves before resolves to the
  same directory after, whether the \<^verbatim>\<open>Put\<close> succeeds or stops half-way.\<close>

theorem cas_put_frame:
  assumes "fs_wf fs" "is_abs root" "plain_digest d" "plain_digest d'" "d \<noteq> d'"
    and "fs_resolve env root d' fs = Inr p"
  shows "fs_resolve env root d' (snd (fs_put env root d layout fs)) = Inr p"
proof -
  obtain res fs' where put: "fs_put env root d layout fs = (res, fs')" by fastforce
  show ?thesis using put_frame [OF put assms] by (simp add: put)
qed

definition other_digest :: string where
  "other_digest = ''sha256:'' @ replicate 64 (CHR ''1'')"

definition stored_tree :: "(path \<times> node) list" where
  "stored_tree = full_layout @ [([''s''], Dir), ([''s'', ''sha256''], Dir), ([''s'', ''sha256'', demo_hash], Dir),
     ([''s'', ''sha256'', demo_hash, ''blobs''], Dir), ([''s'', ''sha256'', demo_hash, ''index.json''], File 0)]"

theorem cas_put_frame_witness:
  "fs_resolve demo_env ''/s'' demo_digest (snd (fs_put demo_env ''/s'' other_digest [''l''] (demo_tree stored_tree)))
     = Inr [''s'', ''sha256'', demo_hash]"
proof (rule cas_put_frame)
  show "fs_wf (demo_tree stored_tree)" by (rule demo_tree_wf) code_simp+
  show "is_abs ''/s''" "plain_digest other_digest" "plain_digest demo_digest" "other_digest \<noteq> demo_digest"
    "fs_resolve demo_env ''/s'' demo_digest (demo_tree stored_tree) = Inr [''s'', ''sha256'', demo_hash]"
    by code_simp+
qed

text \<open>A hard link shares its inode with the source, so bytes can change under the store; reading
  notices: once a blob's bytes no longer hash to its name, \<^verbatim>\<open>Resolve\<close> does not return the layout.\<close>

theorem cas_tamper_detected:
  assumes "fs_wf fs" "fs_nodes fs (p @ [''blobs'', ''sha256'', name]) = Some (File i)"
    and "ce_hash env bytes \<noteq> name"
  shows "fs_resolve env root d (fs\<lparr>fs_bytes := (fs_bytes fs)(i := bytes)\<rparr>) \<noteq> Inr p"
proof
  let ?g = "fs\<lparr>fs_bytes := (fs_bytes fs)(i := bytes)\<rparr>"
  assume found: "fs_resolve env root d ?g = Inr p"
  have "fs_wf ?g" using assms(1) by (simp add: fs_wf_def)
  from resolve_intact [OF this found] have "layout_intact env d p ?g" .
  moreover have "under (p @ [''blobs'']) (p @ [''blobs'', ''sha256'', name])"
    by (auto simp: under_iff)
  ultimately show False using assms(2,3) by (auto simp: layout_intact_def)
qed

theorem cas_tamper_detected_witness:
  "fs_resolve (demo_env\<lparr>ce_hash := (\<lambda>_. [])\<rparr>) ''/'' demo_digest
     ((demo_tree full_layout)\<lparr>fs_bytes := (fs_bytes (demo_tree full_layout))(1 := ''other'')\<rparr>) \<noteq> Inr [''l'']"
proof (rule cas_tamper_detected [where name = demo_hash])
  show "fs_wf (demo_tree full_layout)" by (rule full_layout_wf)
  show "fs_nodes (demo_tree full_layout) ([''l''] @ [''blobs'', ''sha256'', demo_hash]) = Some (File 1)" by code_simp
  show "ce_hash (demo_env\<lparr>ce_hash := (\<lambda>_. [])\<rparr>) ''other'' \<noteq> demo_hash" by code_simp
qed

text \<open>Neither \<^verbatim>\<open>Put\<close> nor \<^verbatim>\<open>Resolve\<close> asks for the blob that the digest names: a layout whose index
  names it, with an empty directory of blobs, is retained and resolves.\<close>

theorem cas_absent_blob_accepted:
  "case fs_put demo_env ''/s'' demo_digest [''l''] (demo_tree bare_layout) of
     (Inr p, fs) \<Rightarrow> p = [''s'', ''sha256'', demo_hash] \<and> fs_resolve demo_env ''/s'' demo_digest fs = Inr p \<and>
       fs_nodes fs (p @ [''blobs'', ''sha256'', demo_hash]) = None
   | (Inl e, fs) \<Rightarrow> False"
  by code_simp

text \<open>The hexadecimal part of a digest is checked for its length only, so a digest can name a
  directory outside the store.\<close>

theorem cas_digest_escapes:
  "dir_for ''/ws/.stagefreight/objects'' (''sha256:../../../../../../../../etc/'' @ replicate 36 (CHR ''x'')) =
     Inr [''etc'', replicate 36 (CHR ''x'')]"
  by code_simp

lemma objects_dir_abs: "is_abs ws \<Longrightarrow> is_abs (workspace_objects_dir ws)"
proof -
  assume ws: "is_abs ws"
  let ?p = "ws @ slash # ''.stagefreight'' @ slash # ''objects''"
  have "workspace_objects_dir ws = path_clean ?p"
    using ws by (auto simp: workspace_objects_dir_def path_join_def is_abs_def has_prefix_singleton)
  moreover have "is_abs ?p" using ws by (auto simp: is_abs_def has_prefix_singleton)
  ultimately show ?thesis
    using is_abs_path_of_elems [OF clean_elems_clean [of "is_abs ?p" ?p]] by (simp add: path_clean_def)
qed

text \<open>Retiring a workspace removes its object directory and nothing else, again is no change, and
  afterwards no digest resolves in the store of the workspace.\<close>

theorem retire_workspace:
  assumes "is_abs ws" "plain_digest d"
  shows "store_resolve env (new_workspace_store ws) d (retire ws fs) = Inl (NotFound d) \<and>
    retire ws (retire ws fs) = retire ws fs \<and>
    fs_nodes (retire ws fs) p = (if under (path_elems (workspace_objects_dir ws)) p then None else fs_nodes fs p)"
proof -
  obtain a h where "split_digest d = Inr (a, h)" "plain_elem h"
    using assms(2) by (auto simp: plain_digest_def split: sum.splits)
  note dir = dir_for_plain [OF objects_dir_abs [OF assms(1)] this]
  have "retire ws (retire ws fs) = retire ws fs"
    by (rule file_system.equality) (auto simp: retire_def)
  with dir show ?thesis by (simp add: store_resolve_def new_workspace_store_def fs_resolve_def) (simp add: retire_def)
qed

theorem retire_workspace_witness:
  "store_resolve demo_env (new_workspace_store ''/ws'') demo_digest (retire ''/ws'' (demo_tree full_layout)) = Inl (NotFound demo_digest)"
proof -
  have "is_abs ''/ws''" "plain_digest demo_digest" by code_simp+
  then show ?thesis using retire_workspace by blast
qed

end
