(* ===== verification/Merge_Text.thy ===== *)
theory Merge_Text
  imports SF_Prelude
begin

text \<open>
  The three-way text merge of \<^verbatim>\<open>src/src/upstream/merge/text.go\<close>: the changes that turn the common base
  into either side (\<open>hunks\<close>), the regions in which they meet, and \<open>Text\<close>, which joins them or
  reports a conflict.

  The diff engine (\<open>go-diff/diffmatchpatch\<close>) is an argument: a function from two texts to an edit
  script in line mode.  What is relied on is its documentation (\<open>script_ok\<close>): the equal and
  deleted lines of a script spell the first text, the equal and inserted lines the second.

  A slice expression that is out of range panics; it is \<^const>\<open>None\<close> here, so a property that names
  a result also says that no slice is out of range.
\<close>

section \<open>Lines\<close>

abbreviation newline :: char where
  "newline \<equiv> CHR 0x0A"

text \<open>\<^verbatim>\<open>strings.SplitAfter(s, "\n")\<close>.\<close>

fun split_after :: "string \<Rightarrow> string list" where
  "split_after [] = [[]]"
| "split_after (c # cs) =
     (if c = newline then [c] # split_after cs
      else (case split_after cs of [] \<Rightarrow> [[c]] | p # ps \<Rightarrow> (c # p) # ps))"

definition split_lines :: "string \<Rightarrow> string list" where
  "split_lines s =
     (if s = [] then []
      else (let parts = split_after s in if last parts = [] then butlast parts else parts))"

text \<open>\<^verbatim>\<open>xs[i:j]\<close>.\<close>

definition slice :: "'a list \<Rightarrow> nat \<Rightarrow> nat \<Rightarrow> 'a list option" where
  "slice xs i j = (if i \<le> j \<and> j \<le> length xs then Some (take (j - i) (drop i xs)) else None)"

section \<open>Hunks\<close>

datatype diff_type = DiffEqual | DiffDelete | DiffInsert

type_synonym edit = "diff_type \<times> string"

text \<open>A change of one side: the base lines \<^verbatim>\<open>[start, end)\<close> became \<open>lines\<close>.\<close>

record hunk =
  h_start :: nat
  h_end :: nat
  h_lines :: "string list"

definition flush_hunk :: "hunk option \<Rightarrow> hunk list \<Rightarrow> hunk list" where
  "flush_hunk cur out = (case cur of None \<Rightarrow> out | Some h \<Rightarrow> out @ [h])"

definition open_hunk :: "nat \<Rightarrow> hunk option \<Rightarrow> hunk" where
  "open_hunk pos cur = (case cur of None \<Rightarrow> \<lparr>h_start = pos, h_end = pos, h_lines = []\<rparr> | Some h \<Rightarrow> h)"

fun hunk_loop :: "edit list \<Rightarrow> nat \<Rightarrow> hunk option \<Rightarrow> hunk list \<Rightarrow> hunk list" where
  "hunk_loop [] pos cur out = flush_hunk cur out"
| "hunk_loop ((ty, text) # ds) pos cur out =
     (let n = length (split_lines text) in
      case ty of
        DiffEqual \<Rightarrow> hunk_loop ds (pos + n) None (flush_hunk cur out)
      | DiffDelete \<Rightarrow>
          (let h = open_hunk pos cur in hunk_loop ds (pos + n) (Some (h\<lparr>h_end := h_end h + n\<rparr>)) out)
      | DiffInsert \<Rightarrow>
          (let h = open_hunk pos cur in hunk_loop ds pos (Some (h\<lparr>h_lines := h_lines h @ split_lines text\<rparr>)) out))"

definition hunks :: "(string \<Rightarrow> string \<Rightarrow> edit list) \<Rightarrow> string list \<Rightarrow> string list \<Rightarrow> hunk list" where
  "hunks diff base other = hunk_loop (diff (concat base) (concat other)) 0 None []"

text \<open>\<open>apply\<close>: the base lines \<^verbatim>\<open>[pos, end)\<close> with the hunks of one side in place.\<close>

fun apply_from :: "string list \<Rightarrow> nat \<Rightarrow> nat \<Rightarrow> hunk list \<Rightarrow> string list option" where
  "apply_from base fin pos [] = slice base pos fin"
| "apply_from base fin pos (h # hs) =
     (case slice base pos (h_start h) of
        None \<Rightarrow> None
      | Some gap \<Rightarrow> map_option (\<lambda>rest. gap @ h_lines h @ rest) (apply_from base fin (h_end h) hs))"

definition apply_hunks :: "string list \<Rightarrow> nat \<Rightarrow> nat \<Rightarrow> hunk list \<Rightarrow> string list option" where
  "apply_hunks base start fin hs = apply_from base fin start hs"

section \<open>Regions and the merge\<close>

text \<open>A region of \<open>Text\<close>: the closed interval of base positions it covers and the hunks of either
  side that fell into it.\<close>

record region =
  r_start :: nat
  r_end :: nat
  r_ours :: "hunk list"
  r_theirs :: "hunk list"

text \<open>The inner loop pulls in every hunk that overlaps or touches the region, ours first.\<close>

function pull :: "region \<Rightarrow> hunk list \<Rightarrow> hunk list \<Rightarrow> region \<times> hunk list \<times> hunk list" where
  "pull r oh th =
     (if oh \<noteq> [] \<and> h_start (hd oh) \<le> r_end r then
        pull (r\<lparr>r_end := max (r_end r) (h_end (hd oh)), r_ours := r_ours r @ [hd oh]\<rparr>) (tl oh) th
      else if th \<noteq> [] \<and> h_start (hd th) \<le> r_end r then
        pull (r\<lparr>r_end := max (r_end r) (h_end (hd th)), r_theirs := r_theirs r @ [hd th]\<rparr>) oh (tl th)
      else (r, oh, th))"
  by pat_completeness auto

termination
  by (relation "measure (\<lambda>(r, oh, th). length oh + length th)") (auto simp: length_greater_0_conv [symmetric] simp del: length_greater_0_conv)

declare pull.simps [simp del]

definition next_region :: "hunk list \<Rightarrow> hunk list \<Rightarrow> region \<times> hunk list \<times> hunk list" where
  "next_region oh th =
     (if th = [] \<or> (oh \<noteq> [] \<and> h_start (hd oh) \<le> h_start (hd th)) then
        pull \<lparr>r_start = h_start (hd oh), r_end = h_end (hd oh), r_ours = [hd oh], r_theirs = []\<rparr> (tl oh) th
      else
        pull \<lparr>r_start = h_start (hd th), r_end = h_end (hd th), r_ours = [], r_theirs = [hd th]\<rparr> oh (tl th))"

text \<open>What the region becomes: \<^const>\<open>None\<close> is a panic, \<^term>\<open>Some None\<close> a conflict.\<close>

definition merge_region :: "string list \<Rightarrow> region \<Rightarrow> string list option option" where
  "merge_region b r =
     (if r_theirs r = [] then map_option Some (apply_hunks b (r_start r) (r_end r) (r_ours r))
      else if r_ours r = [] then map_option Some (apply_hunks b (r_start r) (r_end r) (r_theirs r))
      else
        (case (apply_hunks b (r_start r) (r_end r) (r_ours r), apply_hunks b (r_start r) (r_end r) (r_theirs r)) of
           (Some o_lines, Some t_lines) \<Rightarrow> Some (if concat o_lines \<noteq> concat t_lines then None else Some o_lines)
         | _ \<Rightarrow> None))"

lemma pull_length:
  "pull r oh th = (r', oh', th') \<Longrightarrow> length oh' + length th' \<le> length oh + length th"
proof (induction r oh th rule: pull.induct)
  case (1 r oh th)
  show ?case
  proof (cases "oh \<noteq> [] \<and> h_start (hd oh) \<le> r_end r")
    case True
    with 1(1) 1(3) show ?thesis by (cases oh) (auto simp: pull.simps [of r])
  next
    case False
    show ?thesis
    proof (cases "th \<noteq> [] \<and> h_start (hd th) \<le> r_end r")
      case True
      with False 1(2) 1(3) show ?thesis by (cases th) (auto simp: pull.simps [of r])
    next
      case False
      with \<open>\<not> (oh \<noteq> [] \<and> h_start (hd oh) \<le> r_end r)\<close> 1(3) show ?thesis by (auto simp: pull.simps [of r])
    qed
  qed
qed

lemma next_region_length:
  assumes "next_region oh th = (r, oh', th')" "oh \<noteq> [] \<or> th \<noteq> []"
  shows "length oh' + length th' < length oh + length th"
proof (cases "th = [] \<or> (oh \<noteq> [] \<and> h_start (hd oh) \<le> h_start (hd th))")
  case True
  with assms show ?thesis by (cases oh) (auto simp: next_region_def dest!: pull_length)
next
  case False
  with assms show ?thesis by (cases th) (auto simp: next_region_def dest!: pull_length)
qed

function region_loop :: "string list \<Rightarrow> hunk list \<Rightarrow> hunk list \<Rightarrow> nat \<Rightarrow> string list \<Rightarrow> (string \<times> bool) option" where
  "region_loop b oh th pos out =
     (if oh = [] \<and> th = [] then
        (case slice b pos (length b) of None \<Rightarrow> None | Some rest \<Rightarrow> Some (concat (out @ rest), True))
      else
        (case next_region oh th of (r, oh', th') \<Rightarrow>
          (case slice b pos (r_start r) of
             None \<Rightarrow> None
           | Some gap \<Rightarrow>
               (case merge_region b r of
                  None \<Rightarrow> None
                | Some None \<Rightarrow> Some ([], False)
                | Some (Some ls) \<Rightarrow> region_loop b oh' th' (r_end r) (out @ gap @ ls)))))"
  by pat_completeness auto

termination
  by (relation "measure (\<lambda>(b, oh, th, pos, out). length oh + length th)") (auto dest: next_region_length [OF sym])

declare region_loop.simps [simp del]

text \<open>\<open>Text\<close>: the merged text and whether the sides could be joined.\<close>

definition merge_text :: "(string \<Rightarrow> string \<Rightarrow> edit list) \<Rightarrow> string \<Rightarrow> string \<Rightarrow> string \<Rightarrow> (string \<times> bool) option" where
  "merge_text diff base ours theirs =
     (if ours = theirs then Some (ours, True)
      else if base = ours then Some (theirs, True)
      else if base = theirs then Some (ours, True)
      else
        (let b = split_lines base in
         region_loop b (hunks diff b (split_lines ours)) (hunks diff b (split_lines theirs)) 0 []))"

section \<open>Well-ordered hunks and patching\<close>

text \<open>Hunks in base order that do not overlap, all within \<^verbatim>\<open>[p, n]\<close>.\<close>

fun ordered_hunks :: "nat \<Rightarrow> hunk list \<Rightarrow> nat \<Rightarrow> bool" where
  "ordered_hunks p [] n \<longleftrightarrow> p \<le> n"
| "ordered_hunks p (h # hs) n \<longleftrightarrow> p \<le> h_start h \<and> h_start h \<le> h_end h \<and> ordered_hunks (h_end h) hs n"

lemma ordered_hunks_le: "ordered_hunks p hs n \<Longrightarrow> p \<le> n"
  by (induction hs arbitrary: p) (auto intro: le_trans)

lemma ordered_hunks_mono: "ordered_hunks p hs n \<Longrightarrow> q \<le> p \<Longrightarrow> ordered_hunks q hs n"
  by (cases hs) auto

lemma ordered_hunks_bounds:
  "ordered_hunks p hs n \<Longrightarrow> h \<in> set hs \<Longrightarrow> p \<le> h_start h \<and> h_start h \<le> h_end h \<and> h_end h \<le> n"
proof (induction hs arbitrary: p)
  case (Cons g hs)
  then show ?case using ordered_hunks_le [of "h_end g" hs n] by (fastforce intro: le_trans)
qed simp

lemma ordered_hunks_head:
  assumes "ordered_hunks p (h # hs) n"
  shows "p \<le> h_start h" "h_start h \<le> h_end h" "h_start h \<le> n" "h_end h \<le> n"
  using assms ordered_hunks_le [of "h_end h" hs n] by auto

lemma ordered_hunks_prefix:
  "ordered_hunks p (xs @ ys) n \<Longrightarrow> \<forall>h \<in> set xs. h_end h \<le> e \<Longrightarrow> p \<le> e \<Longrightarrow> ordered_hunks p xs e"
  by (induction xs arbitrary: p) auto

lemma ordered_hunks_suffix:
  assumes "ordered_hunks p (xs @ ys) n" "ys \<noteq> [] \<Longrightarrow> e \<le> h_start (hd ys)" "e \<le> n"
  shows "ordered_hunks e ys n"
  using assms(1)
proof (induction xs arbitrary: p)
  case Nil
  with assms(2,3) show ?case by (cases ys) auto
qed auto

lemma slice_Some: "i \<le> j \<Longrightarrow> j \<le> length xs \<Longrightarrow> slice xs i j = Some (take (j - i) (drop i xs))"
  by (simp add: slice_def)

lemma slice_self [simp]: "i \<le> length xs \<Longrightarrow> slice xs i i = Some []"
  by (simp add: slice_def)

lemma slice_split:
  assumes "i \<le> j" "j \<le> k" "k \<le> length xs"
  shows "slice xs i k = map_option (\<lambda>ys. take (j - i) (drop i xs) @ ys) (slice xs j k)"
proof -
  have "take (k - i) (drop i xs) = take (j - i) (drop i xs) @ take (k - j) (drop j xs)"
    using take_add [of "j - i" "k - j" "drop i xs"] assms by (simp add: add.commute)
  with assms show ?thesis by (simp add: slice_Some)
qed

lemma apply_from_total:
  "ordered_hunks p hs n \<Longrightarrow> n \<le> length b \<Longrightarrow> \<exists>ls. apply_from b n p hs = Some ls"
proof (induction hs arbitrary: p)
  case (Cons h hs)
  from ordered_hunks_head [OF Cons.prems(1)] Cons.prems(2) have "slice b p (h_start h) = Some (take (h_start h - p) (drop p b))"
    by (intro slice_Some) auto
  moreover obtain ls where "apply_from b n (h_end h) hs = Some ls"
    using Cons.IH [of "h_end h"] Cons.prems by auto
  ultimately show ?case by simp
qed (simp add: slice_Some)

lemma apply_hunks_total:
  "ordered_hunks p hs n \<Longrightarrow> n \<le> length b \<Longrightarrow> \<exists>ls. apply_hunks b p n hs = Some ls"
  unfolding apply_hunks_def by (rule apply_from_total)

lemma apply_from_extend:
  assumes "p \<le> q" "ordered_hunks q hs n" "n \<le> length b"
  shows "apply_from b n p hs = map_option (\<lambda>ls. take (q - p) (drop p b) @ ls) (apply_from b n q hs)"
proof (cases hs)
  case Nil
  with assms show ?thesis by (simp add: slice_split)
next
  case (Cons h hs')
  from ordered_hunks_head [OF assms(2) [unfolded Cons]] assms(1,3) have *: "slice b p (h_start h) = map_option (\<lambda>ls. take (q - p) (drop p b) @ ls) (slice b q (h_start h))"
    by (intro slice_split) auto
  moreover obtain ls where "slice b q (h_start h) = Some ls"
    using ordered_hunks_head [OF assms(2) [unfolded Cons]] assms(3) by (simp add: slice_def)
  ultimately show ?thesis unfolding Cons by (simp add: option.map_comp comp_def)
qed

section \<open>The hunks of a script turn the base into the other side\<close>

definition script_base :: "edit list \<Rightarrow> string list" where
  "script_base ds = concat (map (split_lines \<circ> snd) (filter (\<lambda>d. fst d \<noteq> DiffInsert) ds))"

definition script_other :: "edit list \<Rightarrow> string list" where
  "script_other ds = concat (map (split_lines \<circ> snd) (filter (\<lambda>d. fst d \<noteq> DiffDelete) ds))"

text \<open>The documented behaviour of a line-mode diff of \<open>a\<close> and \<open>b\<close>.\<close>

definition script_ok :: "string \<Rightarrow> string \<Rightarrow> edit list \<Rightarrow> bool" where
  "script_ok a b ds \<longleftrightarrow> script_base ds = split_lines a \<and> script_other ds = split_lines b"

lemma script_simps [simp]:
  "script_base [] = []" "script_other [] = []"
  "script_base ((DiffEqual, t) # ds) = split_lines t @ script_base ds"
  "script_base ((DiffDelete, t) # ds) = split_lines t @ script_base ds"
  "script_base ((DiffInsert, t) # ds) = script_base ds"
  "script_other ((DiffEqual, t) # ds) = split_lines t @ script_other ds"
  "script_other ((DiffDelete, t) # ds) = script_other ds"
  "script_other ((DiffInsert, t) # ds) = split_lines t @ script_other ds"
  by (auto simp: script_base_def script_other_def)

lemma hunk_loop_out: "hunk_loop ds pos cur out = out @ hunk_loop ds pos cur []"
proof (induction ds arbitrary: pos cur out)
  case (Cons d ds)
  show ?case
  proof (cases d)
    case (Pair ty t)
    show ?thesis
    proof (cases ty)
      case DiffEqual
      with Pair show ?thesis
        by (cases cur) (simp_all add: Let_def flush_hunk_def Cons [of _ _ out] Cons [of _ _ "out @ [h]" for h] Cons [of _ _ "[h]" for h])
    next
      case DiffDelete
      with Pair show ?thesis by (simp add: Let_def Cons [of _ _ out])
    next
      case DiffInsert
      with Pair show ?thesis by (simp add: Let_def Cons [of _ _ out])
    qed
  qed
qed (simp add: flush_hunk_def split: option.split)

text \<open>The invariant of the loop, for the hunk under construction (an empty one at \<open>pos\<close> when there
  is none).\<close>

lemma hunk_loop_inv:
  assumes "pos \<le> length b" "drop pos b = script_base ds"
    "h_start (open_hunk pos cur) \<le> pos" "h_end (open_hunk pos cur) = pos"
  shows "ordered_hunks (h_start (open_hunk pos cur)) (hunk_loop ds pos cur []) (length b) \<and>
    apply_from b (length b) (h_start (open_hunk pos cur)) (hunk_loop ds pos cur []) =
      Some (h_lines (open_hunk pos cur) @ script_other ds)"
  using assms
proof (induction ds arbitrary: pos cur)
  case Nil
  then show ?case by (cases cur) (auto simp: flush_hunk_def open_hunk_def slice_def)
next
  case (Cons d ds)
  obtain ty t where d: "d = (ty, t)" by (cases d)
  let ?n = "length (split_lines t)" and ?h = "open_hunk pos cur"
  show ?case
  proof (cases ty)
    case DiffEqual
    with Cons.prems d have b: "drop pos b = split_lines t @ script_base ds" by simp
    with Cons.prems(1) have le: "pos + ?n \<le> length b"
      by (metis le_add1 length_append length_drop le_diff_conv2 add.commute)
    from b have "drop (pos + ?n) b = script_base ds" by (metis add.commute append_eq_conv_conj drop_drop)
    with Cons.IH [of "pos + ?n" None] le
    have IH: "ordered_hunks (pos + ?n) (hunk_loop ds (pos + ?n) None []) (length b)"
      "apply_from b (length b) (pos + ?n) (hunk_loop ds (pos + ?n) None []) = Some (script_other ds)"
      by (auto simp: open_hunk_def)
    from b IH apply_from_extend [of pos "pos + ?n", OF _ IH(1)]
    have "apply_from b (length b) pos (hunk_loop ds (pos + ?n) None []) = Some (split_lines t @ script_other ds)"
      by simp
    with IH(1) d DiffEqual Cons.prems show ?thesis
      by (cases cur)
        (auto simp: Let_def flush_hunk_def open_hunk_def hunk_loop_out [of ds "pos + ?n" None "[a]" for a]
          intro: ordered_hunks_mono)
  next
    case DiffDelete
    with Cons.prems d have b: "drop pos b = split_lines t @ script_base ds" by simp
    with Cons.prems(1) have le: "pos + ?n \<le> length b"
      by (metis le_add1 length_append length_drop le_diff_conv2 add.commute)
    from b have "drop (pos + ?n) b = script_base ds" by (metis add.commute append_eq_conv_conj drop_drop)
    with Cons.IH [of "pos + ?n" "Some (?h\<lparr>h_end := h_end ?h + ?n\<rparr>)"] Cons.prems le d DiffDelete
    show ?thesis by (auto simp: Let_def open_hunk_def [of "pos + ?n"])
  next
    case DiffInsert
    with Cons.IH [of pos "Some (?h\<lparr>h_lines := h_lines ?h @ split_lines t\<rparr>)"] Cons.prems d
    show ?thesis by (auto simp: Let_def open_hunk_def [of pos "Some _"])
  qed
qed

text \<open>Applied to the base, the hunks of a script give the other side.\<close>

lemma hunks_spec:
  assumes "script_ok base other (diff (concat (split_lines base)) (concat (split_lines other)))"
  shows "ordered_hunks 0 (hunks diff (split_lines base) (split_lines other)) (length (split_lines base))"
    and "apply_hunks (split_lines base) 0 (length (split_lines base))
      (hunks diff (split_lines base) (split_lines other)) = Some (split_lines other)"
proof -
  let ?ds = "diff (concat (split_lines base)) (concat (split_lines other))"
  from assms have "drop 0 (split_lines base) = script_base ?ds" "script_other ?ds = split_lines other"
    by (auto simp: script_ok_def)
  with hunk_loop_inv [of 0 "split_lines base" ?ds None]
  show "ordered_hunks 0 (hunks diff (split_lines base) (split_lines other)) (length (split_lines base))"
    "apply_hunks (split_lines base) 0 (length (split_lines base))
      (hunks diff (split_lines base) (split_lines other)) = Some (split_lines other)"
    by (auto simp: hunks_def apply_hunks_def open_hunk_def)
qed

lemma split_after_not_Nil [simp]: "split_after s \<noteq> []"
  by (cases s) (auto split: list.split)

lemma concat_split_after [simp]: "concat (split_after s) = s"
proof (induction s)
  case (Cons c cs)
  then show ?case by (cases "split_after cs") auto
qed simp

lemma concat_split_lines [simp]: "concat (split_lines s) = s"
proof -
  have "concat (butlast (split_after s)) = s" if "last (split_after s) = []"
  proof -
    have "concat (split_after s) = concat (butlast (split_after s)) @ last (split_after s)"
      by (metis append_butlast_last_id concat.simps concat_append self_append_conv split_after_not_Nil)
    with that show ?thesis by simp
  qed
  then show ?thesis by (simp add: split_lines_def Let_def)
qed

section \<open>Regions\<close>

definition closed_at :: "nat \<Rightarrow> hunk list \<Rightarrow> bool" where
  "closed_at x hs \<longleftrightarrow> (\<forall>h \<in> set hs. h_start h \<le> x \<longrightarrow> h_end h \<le> x)"

text \<open>What the inner loop computes: it splits a prefix off both lists, and ends at the least position
  that no remaining hunk overlaps or touches.\<close>

definition pulled :: "region \<Rightarrow> hunk list \<Rightarrow> hunk list \<Rightarrow> region \<Rightarrow> hunk list \<Rightarrow> hunk list \<Rightarrow> hunk list \<Rightarrow> hunk list \<Rightarrow> bool" where
  "pulled r oh th r' oh' th' os ts \<longleftrightarrow>
    oh = os @ oh' \<and> th = ts @ th' \<and> r_ours r' = r_ours r @ os \<and> r_theirs r' = r_theirs r @ ts \<and>
    r_start r' = r_start r \<and> r_end r \<le> r_end r' \<and>
    (\<forall>h \<in> set (os @ ts). h_start h \<le> r_end r' \<and> h_end h \<le> r_end r') \<and>
    (oh' \<noteq> [] \<longrightarrow> r_end r' < h_start (hd oh')) \<and> (th' \<noteq> [] \<longrightarrow> r_end r' < h_start (hd th')) \<and>
    (\<forall>x. r_end r \<le> x \<longrightarrow> closed_at x oh \<longrightarrow> closed_at x th \<longrightarrow> r_end r' \<le> x)"

lemma pulled_ours:
  assumes "pulled (r\<lparr>r_end := max (r_end r) (h_end h), r_ours := r_ours r @ [h]\<rparr>) oh th r' oh' th' os ts"
    "h_start h \<le> r_end r"
  shows "pulled r (h # oh) th r' oh' th' (h # os) ts"
  using assms unfolding pulled_def closed_at_def by (auto intro: le_trans)

lemma pulled_theirs:
  assumes "pulled (r\<lparr>r_end := max (r_end r) (h_end h), r_theirs := r_theirs r @ [h]\<rparr>) oh th r' oh' th' os ts"
    "h_start h \<le> r_end r"
  shows "pulled r oh (h # th) r' oh' th' os (h # ts)"
  using assms unfolding pulled_def closed_at_def by (auto intro: le_trans)

lemma pull_pulled: "pull r oh th = (r', oh', th') \<Longrightarrow> \<exists>os ts. pulled r oh th r' oh' th' os ts"
proof (induction r oh th rule: pull.induct)
  case (1 r oh th)
  consider (ours) h oh1 where "oh = h # oh1" "h_start h \<le> r_end r"
    | (theirs) h th1 where "th = h # th1" "h_start h \<le> r_end r" "\<not> (oh \<noteq> [] \<and> h_start (hd oh) \<le> r_end r)"
    | (stop) "\<not> (oh \<noteq> [] \<and> h_start (hd oh) \<le> r_end r)" "\<not> (th \<noteq> [] \<and> h_start (hd th) \<le> r_end r)"
    by (cases oh; cases th) auto
  then show ?case
  proof cases
    case ours
    with 1(1) 1(3) show ?thesis by (auto simp: pull.simps [of r] dest!: pulled_ours)
  next
    case theirs
    with 1(2) 1(3) show ?thesis by (auto simp: pull.simps [of r] dest!: pulled_theirs)
  next
    case stop
    with 1(3) have "r' = r" "oh' = oh" "th' = th" by (auto simp: pull.simps [of r])
    with stop show ?thesis by (auto simp: pulled_def)
  qed
qed

text \<open>The next region, up to the side from which it was opened.\<close>

definition region_spec :: "hunk list \<Rightarrow> hunk list \<Rightarrow> region \<Rightarrow> hunk list \<Rightarrow> hunk list \<Rightarrow> bool" where
  "region_spec oh th r oh' th' \<longleftrightarrow>
    oh = r_ours r @ oh' \<and> th = r_theirs r @ th' \<and> r_start r \<le> r_end r \<and>
    (\<exists>h \<in> set (r_ours r @ r_theirs r). h_start h = r_start r) \<and>
    (\<forall>h \<in> set (oh @ th). r_start r \<le> h_start h) \<and>
    (\<forall>h \<in> set (r_ours r @ r_theirs r). h_start h \<le> r_end r \<and> h_end h \<le> r_end r) \<and>
    (\<forall>h \<in> set (oh' @ th'). r_end r < h_start h) \<and>
    (\<forall>x. r_start r \<le> x \<longrightarrow> closed_at x (oh @ th) \<longrightarrow> r_end r \<le> x)"

lemma hd_start_least:
  "ordered_hunks p hs n \<Longrightarrow> h \<in> set hs \<Longrightarrow> h_start (hd hs) \<le> h_start h"
proof (cases hs)
  case (Cons g gs)
  assume "ordered_hunks p hs n" "h \<in> set hs"
  with Cons ordered_hunks_bounds [of "h_end g" gs n h] show ?thesis by auto
qed simp

lemma ordered_hunks_drop: "ordered_hunks p (xs @ ys) n \<Longrightarrow> \<exists>q. ordered_hunks q ys n"
  by (induction xs arbitrary: p) auto

lemma pulled_region_spec:
  assumes "pulled r0 oh th r oh' th' os ts" "ordered_hunks p (r_ours r0 @ oh) n" "ordered_hunks p (r_theirs r0 @ th) n"
    "r_ours r0 @ r_theirs r0 = [h]" "r_start r0 = h_start h" "r_end r0 = h_end h"
    "\<forall>g \<in> set (oh @ th). h_start h \<le> h_start g"
  shows "region_spec (r_ours r0 @ oh) (r_theirs r0 @ th) r oh' th'"
proof -
  note p = assms(1) [unfolded pulled_def]
  from assms(4) have "h \<in> set (r_ours r0 @ oh) \<or> h \<in> set (r_theirs r0 @ th)"
    by (metis Un_iff list.set_intros(1) set_append)
  with assms(2,3) have h: "h_start h \<le> h_end h" by (auto dest: ordered_hunks_bounds)
  have later: "\<forall>g \<in> set (oh' @ th'). r_end r < h_start g"
  proof
    fix g assume "g \<in> set (oh' @ th')"
    moreover obtain q1 where "ordered_hunks q1 oh' n"
      using p assms(2) by (metis append.assoc ordered_hunks_drop)
    moreover obtain q2 where "ordered_hunks q2 th' n"
      using p assms(3) by (metis append.assoc ordered_hunks_drop)
    ultimately show "r_end r < h_start g"
      using p hd_start_least by (metis Un_iff empty_iff empty_set less_le_trans set_append)
  qed
  have all: "set (r_ours r @ r_theirs r) = insert h (set (os @ ts))"
  proof -
    from p have "set (r_ours r @ r_theirs r) = set (r_ours r0 @ r_theirs r0) \<union> set (os @ ts)" by auto
    then show ?thesis unfolding assms(4) by simp
  qed
  have least: "r_end r \<le> x" if "h_start h \<le> x" "closed_at x ((r_ours r0 @ oh) @ (r_theirs r0 @ th))" for x
  proof -
    from that(2) have "closed_at x oh" "closed_at x th" "closed_at x (r_ours r0 @ r_theirs r0)"
      by (auto simp: closed_at_def)
    moreover from this(3) that(1) assms(4,6) have "r_end r0 \<le> x" by (simp add: closed_at_def)
    ultimately show ?thesis using p by blast
  qed
  have first: "\<forall>g \<in> set ((r_ours r0 @ oh) @ (r_theirs r0 @ th)). h_start h \<le> h_start g"
  proof
    fix g assume "g \<in> set ((r_ours r0 @ oh) @ (r_theirs r0 @ th))"
    then have "g \<in> set (r_ours r0 @ r_theirs r0) \<or> g \<in> set (oh @ th)" by auto
    then show "h_start h \<le> h_start g" using assms(4,7) by auto
  qed
  have inside: "\<forall>g \<in> set (r_ours r @ r_theirs r). h_start g \<le> r_end r \<and> h_end g \<le> r_end r"
    unfolding all using p h assms(6) by auto
  from p have eqs: "r_ours r0 @ oh = r_ours r @ oh'" "r_theirs r0 @ th = r_theirs r @ th'" "r_start r = h_start h"
    using assms(5) by simp_all
  from p h assms(6) have "h_start h \<le> r_end r" by simp
  show ?thesis
    unfolding region_spec_def eqs(3)
    by (intro conjI eqs later inside first) (use all least \<open>h_start h \<le> r_end r\<close> in blast)+
qed

lemma next_region_spec:
  assumes "next_region oh th = (r, oh', th')" "oh \<noteq> [] \<or> th \<noteq> []"
    "ordered_hunks p oh n" "ordered_hunks p th n"
  shows "region_spec oh th r oh' th'"
proof (cases "th = [] \<or> (oh \<noteq> [] \<and> h_start (hd oh) \<le> h_start (hd th))")
  case True
  with assms(2) obtain h os where oh: "oh = h # os" by (cases oh) auto
  let ?r = "\<lparr>r_start = h_start h, r_end = h_end h, r_ours = [h], r_theirs = []\<rparr>"
  from assms(1) oh True have "pull ?r os th = (r, oh', th')" by (auto simp: next_region_def)
  then obtain xs ys where "pulled ?r os th r oh' th' xs ys" using pull_pulled by blast
  moreover have "\<forall>g \<in> set (os @ th). h_start h \<le> h_start g"
    using hd_start_least [OF assms(3)] hd_start_least [OF assms(4)] True oh by fastforce
  ultimately have "region_spec (r_ours ?r @ os) (r_theirs ?r @ th) r oh' th'"
    using assms(3,4) oh by (intro pulled_region_spec [where h = h and p = p and n = n]) auto
  with oh show ?thesis by simp
next
  case False
  then obtain h ts where th: "th = h # ts" by (cases th) auto
  let ?r = "\<lparr>r_start = h_start h, r_end = h_end h, r_ours = [], r_theirs = [h]\<rparr>"
  from assms(1) th False have "pull ?r oh ts = (r, oh', th')" by (auto simp: next_region_def)
  then obtain xs ys where "pulled ?r oh ts r oh' th' xs ys" using pull_pulled by blast
  moreover have "\<forall>g \<in> set (oh @ ts). h_start h \<le> h_start g"
    using hd_start_least [OF assms(3)] hd_start_least [OF assms(4)] False th by fastforce
  ultimately have "region_spec (r_ours ?r @ oh) (r_theirs ?r @ ts) r oh' th'"
    using assms(3,4) th by (intro pulled_region_spec [where h = h and p = p and n = n]) auto
  with th show ?thesis by simp
qed

lemma region_specD:
  assumes "region_spec oh th r oh' th'"
  shows "oh = r_ours r @ oh'" "th = r_theirs r @ th'" "r_start r \<le> r_end r"
    "\<exists>h \<in> set (r_ours r @ r_theirs r). h_start h = r_start r"
    "h \<in> set (oh @ th) \<Longrightarrow> r_start r \<le> h_start h"
    "h \<in> set (r_ours r @ r_theirs r) \<Longrightarrow> h_start h \<le> r_end r"
    "h \<in> set (r_ours r @ r_theirs r) \<Longrightarrow> h_end h \<le> r_end r"
    "h \<in> set (oh' @ th') \<Longrightarrow> r_end r < h_start h"
    "r_start r \<le> x \<Longrightarrow> closed_at x (oh @ th) \<Longrightarrow> r_end r \<le> x"
  using assms [unfolded region_spec_def] by (elim conjE; blast)+

lemma region_spec_closed:
  assumes "region_spec oh th r oh' th'"
  shows "closed_at (r_end r) (oh @ th)"
  unfolding closed_at_def
proof (intro ballI impI)
  fix h assume h: "h \<in> set (oh @ th)" "h_start h \<le> r_end r"
  then have "h \<notin> set (oh' @ th')" using region_specD(8) [OF assms, of h] by auto
  with h(1) have "h \<in> set (r_ours r @ r_theirs r)"
    using region_specD(1,2) [OF assms] by auto
  then show "h_end h \<le> r_end r" by (rule region_specD(7) [OF assms])
qed

lemma region_spec_start_le:
  assumes "region_spec oh th r oh' th'" "region_spec oh th s oh2 th2"
  shows "r_start s \<le> r_start r"
proof -
  obtain h where h: "h \<in> set (r_ours r @ r_theirs r)" "h_start h = r_start r"
    using region_specD(4) [OF assms(1)] by blast
  then have "h \<in> set (oh @ th)" using region_specD(1,2) [OF assms(1)] by auto
  then show ?thesis using region_specD(5) [OF assms(2), of h] h(2) by simp
qed

lemma region_spec_end_le:
  assumes "region_spec oh th r oh' th'" "region_spec oh th s oh2 th2"
  shows "r_end s \<le> r_end r"
  using region_specD(9) [OF assms(2) _ region_spec_closed [OF assms(1)]]
    region_spec_start_le [OF assms] region_specD(3) [OF assms(1)] by simp

lemma region_spec_filter:
  assumes "region_spec oh th r oh' th'"
  shows "r_ours r = filter (\<lambda>h. h_start h \<le> r_end r) oh" "oh' = filter (\<lambda>h. r_end r < h_start h) oh"
    "r_theirs r = filter (\<lambda>h. h_start h \<le> r_end r) th" "th' = filter (\<lambda>h. r_end r < h_start h) th"
proof -
  have *: "xs = filter (\<lambda>h. h_start h \<le> e) (xs @ ys) \<and> ys = filter (\<lambda>h. e < h_start h) (xs @ ys)"
    if "\<forall>h \<in> set xs. h_start h \<le> e" "\<forall>h \<in> set ys. e < h_start h" for xs ys :: "hunk list" and e
    using that by (auto simp: filter_empty_conv not_less not_le intro!: filter_True [symmetric])
  note region_specD(1,2) [OF assms]
  moreover have "\<forall>h \<in> set (r_ours r). h_start h \<le> r_end r" "\<forall>h \<in> set oh'. r_end r < h_start h"
    "\<forall>h \<in> set (r_theirs r). h_start h \<le> r_end r" "\<forall>h \<in> set th'. r_end r < h_start h"
    using region_specD(6,8) [OF assms] by auto
  ultimately show "r_ours r = filter (\<lambda>h. h_start h \<le> r_end r) oh" "oh' = filter (\<lambda>h. r_end r < h_start h) oh"
    "r_theirs r = filter (\<lambda>h. h_start h \<le> r_end r) th" "th' = filter (\<lambda>h. r_end r < h_start h) th"
    using * [of "r_ours r" "r_end r" oh'] * [of "r_theirs r" "r_end r" th'] by metis+
qed

lemma region_spec_unique:
  assumes "region_spec oh th r oh' th'" "region_spec oh th s oh2 th2"
  shows "r = s \<and> oh' = oh2 \<and> th' = th2"
proof -
  have "r_start r = r_start s" "r_end r = r_end s"
    using region_spec_start_le [OF assms] region_spec_start_le [OF assms(2,1)]
      region_spec_end_le [OF assms] region_spec_end_le [OF assms(2,1)] by auto
  then show ?thesis
    using region_spec_filter [OF assms(1)] region_spec_filter [OF assms(2)] by (simp add: region.equality)
qed

definition swap_region :: "region \<Rightarrow> region" where
  "swap_region r = r\<lparr>r_ours := r_theirs r, r_theirs := r_ours r\<rparr>"

lemma closed_at_append: "closed_at x (xs @ ys) \<longleftrightarrow> closed_at x xs \<and> closed_at x ys"
  by (auto simp: closed_at_def)

lemma region_spec_swap:
  assumes "region_spec oh th r oh' th'"
  shows "region_spec th oh (swap_region r) th' oh'"
proof -
  note s = region_specD [OF assms]
  have "\<exists>h \<in> set (r_theirs r @ r_ours r). h_start h = r_start r" using s(4) by auto
  moreover have "\<forall>h \<in> set (th @ oh). r_start r \<le> h_start h" using s(5) by auto
  moreover have "\<forall>h \<in> set (r_theirs r @ r_ours r). h_start h \<le> r_end r \<and> h_end h \<le> r_end r"
    using s(6,7) by auto
  moreover have "\<forall>h \<in> set (th' @ oh'). r_end r < h_start h" using s(8) by auto
  moreover have "\<forall>x. r_start r \<le> x \<longrightarrow> closed_at x (th @ oh) \<longrightarrow> r_end r \<le> x"
    using s(9) by (auto simp: closed_at_append)
  ultimately show ?thesis
    unfolding region_spec_def swap_region_def using s(1,2,3) by simp
qed

lemma next_region_swap:
  assumes "next_region oh th = (r, oh', th')" "oh \<noteq> [] \<or> th \<noteq> []" "ordered_hunks p oh n" "ordered_hunks p th n"
  shows "next_region th oh = (swap_region r, th', oh')"
proof -
  obtain s th2 oh2 where s: "next_region th oh = (s, th2, oh2)" by (cases "next_region th oh") auto
  from next_region_spec [OF this] assms have "region_spec th oh s th2 oh2" by auto
  with region_spec_swap [OF next_region_spec [OF assms]] s show ?thesis
    using region_spec_unique by blast
qed

text \<open>What remains after a region is still well-ordered, and so is what fell into it.\<close>

lemma region_spec_ordered:
  assumes "region_spec oh th r oh' th'" "ordered_hunks p oh n" "ordered_hunks p th n"
  shows "p \<le> r_start r" "r_start r \<le> r_end r" "r_end r \<le> n"
    and "ordered_hunks (r_start r) (r_ours r) (r_end r)" "ordered_hunks (r_start r) (r_theirs r) (r_end r)"
    and "ordered_hunks (r_end r) oh' n" "ordered_hunks (r_end r) th' n"
proof -
  note ours = region_specD(1,2) [OF assms(1)] and le = region_specD(3) [OF assms(1)]
  have all: "p \<le> h_start h" "h_start h \<le> n" "h_end h \<le> n" if "h \<in> set (oh @ th)" for h
    using that assms(2,3) ordered_hunks_bounds [of p oh n h] ordered_hunks_bounds [of p th n h] by auto
  obtain h where h: "h \<in> set (r_ours r @ r_theirs r)" "h_start h = r_start r"
    using region_specD(4) [OF assms(1)] by blast
  then have "h \<in> set (oh @ th)" using ours by auto
  with all [of h] h(2) have "p \<le> r_start r" and sn: "r_start r \<le> n" by simp_all
  then show "p \<le> r_start r" by simp
  show "r_start r \<le> r_end r" by (rule le)
  have "closed_at n (oh @ th)" using all by (simp add: closed_at_def)
  then show n: "r_end r \<le> n" by (rule region_specD(9) [OF assms(1) sn])
  have first: "ordered_hunks (r_start r) hs n" if "ordered_hunks p hs n" "set hs \<subseteq> set (oh @ th)" for hs
    using ordered_hunks_suffix [of p "[]" hs n "r_start r"] that sn region_specD(5) [OF assms(1)]
    by (metis append_Nil hd_in_set subsetD)
  have ends: "\<forall>h \<in> set (r_ours r). h_end h \<le> r_end r" "\<forall>h \<in> set (r_theirs r). h_end h \<le> r_end r"
    using region_specD(7) [OF assms(1)] by auto
  show "ordered_hunks (r_start r) (r_ours r) (r_end r)"
    using ordered_hunks_prefix [OF _ ends(1) le] first [OF assms(2)] ours(1) by fastforce
  show "ordered_hunks (r_start r) (r_theirs r) (r_end r)"
    using ordered_hunks_prefix [OF _ ends(2) le] first [OF assms(3)] ours(2) by fastforce
  have "\<forall>h \<in> set oh'. r_end r < h_start h" "\<forall>h \<in> set th'. r_end r < h_start h"
    using region_specD(8) [OF assms(1)] by auto
  then have "oh' \<noteq> [] \<Longrightarrow> r_end r \<le> h_start (hd oh')" "th' \<noteq> [] \<Longrightarrow> r_end r \<le> h_start (hd th')"
    by (simp_all add: hd_in_set less_imp_le)
  then show "ordered_hunks (r_end r) oh' n" "ordered_hunks (r_end r) th' n"
    using ordered_hunks_suffix [OF _ _ n] assms(2,3) ours by metis+
qed

section \<open>The list of regions\<close>

function regions :: "hunk list \<Rightarrow> hunk list \<Rightarrow> region list" where
  "regions oh th =
     (if oh = [] \<and> th = [] then []
      else (case next_region oh th of (r, oh', th') \<Rightarrow> r # regions oh' th'))"
  by pat_completeness auto

termination
  by (relation "measure (\<lambda>(oh, th). length oh + length th)") (auto dest: next_region_length [OF sym])

declare regions.simps [simp del]

lemma regions_Nil [simp]: "regions [] [] = []"
  by (simp add: regions.simps)

lemma regions_step:
  "next_region oh th = (r, oh', th') \<Longrightarrow> oh \<noteq> [] \<or> th \<noteq> [] \<Longrightarrow> regions oh th = r # regions oh' th'"
  by (subst regions.simps) auto

text \<open>Induction over the regions of two well-ordered hunk lists.\<close>

lemma regions_induct [consumes 2, case_names Nil Region]:
  assumes "ordered_hunks p oh n" "ordered_hunks p th n"
    and "\<And>p. p \<le> n \<Longrightarrow> P p [] [] []"
    and "\<And>p oh th r oh' th'. ordered_hunks p oh n \<Longrightarrow> ordered_hunks p th n \<Longrightarrow> oh \<noteq> [] \<or> th \<noteq> [] \<Longrightarrow>
      next_region oh th = (r, oh', th') \<Longrightarrow> region_spec oh th r oh' th' \<Longrightarrow>
      P (r_end r) oh' th' (regions oh' th') \<Longrightarrow> P p oh th (r # regions oh' th')"
  shows "P p oh th (regions oh th)"
  using assms(1,2)
proof (induction "length oh + length th" arbitrary: p oh th rule: less_induct)
  case less
  show ?case
  proof (cases "oh = [] \<and> th = []")
    case True
    with less.prems assms(3) show ?thesis by simp
  next
    case False
    then have ne: "oh \<noteq> [] \<or> th \<noteq> []" by simp
    obtain r oh' th' where n: "next_region oh th = (r, oh', th')" by (cases "next_region oh th") auto
    note rs = next_region_spec [OF n ne less.prems]
    have "P (r_end r) oh' th' (regions oh' th')"
      using less.hyps next_region_length [OF n ne] region_spec_ordered(6,7) [OF rs less.prems] by blast
    then show ?thesis unfolding regions_step [OF n ne] by (rule assms(4) [OF less.prems ne n rs])
  qed
qed

text \<open>The regions of a merge: they partition the hunks of either side, in order, and are separated
  by at least one base line that no hunk touches.\<close>

fun separated :: "nat \<Rightarrow> region list \<Rightarrow> nat \<Rightarrow> bool" where
  "separated p [] n \<longleftrightarrow> p \<le> n"
| "separated p (r # rs) n \<longleftrightarrow> p \<le> r_start r \<and> r_start r \<le> r_end r \<and> separated (r_end r) rs n \<and>
     (rs = [] \<or> r_end r < r_start (hd rs))"

lemma regions_partition:
  "concat (map r_ours (regions oh th)) = oh \<and> concat (map r_theirs (regions oh th)) = th"
  if "ordered_hunks p oh n" "ordered_hunks p th n"
  using that by (induction rule: regions_induct) (simp_all add: region_specD(1,2) [symmetric])

lemma region_nonempty: "region_spec oh th r oh' th' \<Longrightarrow> r_ours r \<noteq> [] \<or> r_theirs r \<noteq> []"
  using region_specD(4) by fastforce

lemma regions_start:
  assumes "ordered_hunks p oh n" "ordered_hunks p th n" "\<forall>h \<in> set (oh @ th). e < h_start h"
  shows "regions oh th = [] \<or> e < r_start (hd (regions oh th))"
proof (cases "oh = [] \<and> th = []")
  case False
  then have ne: "oh \<noteq> [] \<or> th \<noteq> []" by simp
  obtain r oh' th' where n: "next_region oh th = (r, oh', th')" by (cases "next_region oh th") auto
  note rs = next_region_spec [OF n ne assms(1,2)]
  obtain h where "h \<in> set (r_ours r @ r_theirs r)" "h_start h = r_start r"
    using region_specD(4) [OF rs] by blast
  moreover from this have "h \<in> set (oh @ th)" using region_specD(1,2) [OF rs] by auto
  ultimately have "e < r_start r" using assms(3) by metis
  then show ?thesis using regions_step [OF n ne] by simp
qed simp

lemma regions_separated:
  assumes "ordered_hunks p oh n" "ordered_hunks p th n"
  shows "separated p (regions oh th) n"
  using assms
proof (induction rule: regions_induct)
  case (Region p oh th r oh' th')
  note o = region_spec_ordered [OF Region(5,1,2)]
  have "regions oh' th' = [] \<or> r_end r < r_start (hd (regions oh' th'))"
    using regions_start [OF o(6,7)] region_specD(8) [OF Region(5)] by blast
  with Region o show ?case by simp
qed simp

lemma regions_swap:
  assumes "ordered_hunks p oh n" "ordered_hunks p th n"
  shows "regions th oh = map swap_region (regions oh th)"
  using assms
proof (induction rule: regions_induct)
  case (Region p oh th r oh' th')
  from Region(3) have "th \<noteq> [] \<or> oh \<noteq> []" by auto
  with next_region_swap [OF Region(4,3,1,2)] Region(6) show ?case by (simp add: regions_step)
qed simp

section \<open>The merge by its regions\<close>

lemma merge_region_total:
  assumes "ordered_hunks (r_start r) (r_ours r) (r_end r)" "ordered_hunks (r_start r) (r_theirs r) (r_end r)"
    "r_end r \<le> length b"
  shows "merge_region b r \<noteq> None"
  using apply_hunks_total [OF assms(1,3)] apply_hunks_total [OF assms(2,3)] by (auto simp: merge_region_def)

text \<open>A merged region as one change of the base.\<close>

definition region_hunk :: "string list \<Rightarrow> region \<Rightarrow> hunk" where
  "region_hunk b r =
     \<lparr>h_start = r_start r, h_end = r_end r,
      h_lines = (case merge_region b r of Some (Some ls) \<Rightarrow> ls | _ \<Rightarrow> [])\<rparr>"

definition region_conflict :: "string list \<Rightarrow> region \<Rightarrow> bool" where
  "region_conflict b r \<longleftrightarrow> merge_region b r = Some None"

lemma region_loop_regions:
  assumes "ordered_hunks p oh (length b)" "ordered_hunks p th (length b)"
  shows "region_loop b oh th p out =
    (if list_ex (region_conflict b) (regions oh th) then Some ([], False)
     else map_option (\<lambda>ls. (concat (out @ ls), True))
       (apply_from b (length b) p (map (region_hunk b) (regions oh th))))"
  using assms
proof (induction arbitrary: out rule: regions_induct)
  case (Nil p)
  then show ?case by (simp add: region_loop.simps split: option.split)
next
  case (Region p oh th r oh' th')
  note o = region_spec_ordered [OF Region(5,1,2)]
  have "slice b p (r_start r) \<noteq> None" using o(1-3) by (simp add: slice_def)
  then obtain gap where gap: "slice b p (r_start r) = Some gap" by blast
  obtain res where res: "merge_region b r = Some res"
    using merge_region_total [OF o(4,5,3)] by blast
  have step: "region_loop b oh th p out =
      (case res of None \<Rightarrow> Some ([], False) | Some ls \<Rightarrow> region_loop b oh' th' (r_end r) (out @ gap @ ls))"
    using Region(3,4) gap res by (subst region_loop.simps) auto
  show ?case
  proof (cases res)
    case None
    with res step show ?thesis by (simp add: region_conflict_def)
  next
    case (Some ls)
    with res have "region_hunk b r = \<lparr>h_start = r_start r, h_end = r_end r, h_lines = ls\<rparr>"
      "\<not> region_conflict b r" by (simp_all add: region_hunk_def region_conflict_def)
    with step Some gap Region(6) [of "out @ gap @ ls"] show ?thesis
      by (simp add: option.map_comp comp_def)
  qed
qed

lemma regions_ordered:
  "separated p rs n \<Longrightarrow> ordered_hunks p (map (region_hunk b) rs) n"
  by (induction rs arbitrary: p) (auto simp: region_hunk_def)

lemma merge_region_swap:
  assumes "r_ours r \<noteq> [] \<or> r_theirs r \<noteq> []"
  shows "rel_option (rel_option (\<lambda>x y. concat x = concat y)) (merge_region b (swap_region r)) (merge_region b r)"
proof (cases "r_ours r = [] \<or> r_theirs r = []")
  case True
  with assms have "merge_region b (swap_region r) = merge_region b r"
    by (auto simp: merge_region_def swap_region_def)
  then show ?thesis by (simp add: option.rel_refl)
next
  case False
  then show ?thesis
    by (cases "apply_hunks b (r_start r) (r_end r) (r_ours r)"; cases "apply_hunks b (r_start r) (r_end r) (r_theirs r)")
      (simp_all add: merge_region_def swap_region_def)
qed

lemma region_loop_swap:
  assumes "ordered_hunks p oh (length b)" "ordered_hunks p th (length b)" "concat out2 = concat out"
  shows "region_loop b th oh p out2 = region_loop b oh th p out"
proof -
  have "concat out2 = concat out \<Longrightarrow> region_loop b th oh p out2 = region_loop b oh th p out" for out out2
    using assms(1,2)
  proof (induction arbitrary: out out2 rule: regions_induct)
    case (Nil p)
    then show ?case by (simp add: region_loop.simps split: option.split)
  next
    case (Region p oh th r oh' th')
    note next2 = next_region_swap [OF Region(4,3,1,2)]
    have start: "r_start (swap_region r) = r_start r" "r_end (swap_region r) = r_end r"
      by (simp_all add: swap_region_def)
    note rel = merge_region_swap [OF region_nonempty [OF Region(5)], of b]
    show ?case
    proof (cases "slice b p (r_start r)")
      case None
      with Region(3,4) next2 start show ?thesis by (auto simp: region_loop.simps [of b _ _ p])
    next
      case (Some gap)
      note IH = Region(6) [of "out2 @ gap @ x" "out @ gap @ y" for x y]
      from rel consider "merge_region b (swap_region r) = None" "merge_region b r = None"
        | "merge_region b (swap_region r) = Some None" "merge_region b r = Some None"
        | x y where "merge_region b (swap_region r) = Some (Some x)" "merge_region b r = Some (Some y)" "concat x = concat y"
        by (cases "merge_region b (swap_region r)"; cases "merge_region b r") (auto elim: option.rel_cases)
      then show ?thesis
        using Region(3,4,7) next2 start Some IH
        by cases (auto simp: region_loop.simps [of b _ _ p])
    qed
  qed
  with assms(3) show ?thesis by blast
qed

section \<open>Conflicts need touching changes\<close>

definition touches :: "hunk \<Rightarrow> hunk \<Rightarrow> bool" where
  "touches h g \<longleftrightarrow> h_start h \<le> h_end g \<and> h_start g \<le> h_end h"

definition covers :: "hunk list \<Rightarrow> nat \<Rightarrow> nat \<Rightarrow> bool" where
  "covers hs i j \<longleftrightarrow> (\<forall>x. i \<le> x \<longrightarrow> x \<le> j \<longrightarrow> (\<exists>h \<in> set hs. h_start h \<le> x \<and> x \<le> h_end h))"

lemma covers_snoc:
  assumes "covers hs i j" "h_start h \<le> j"
  shows "covers (hs @ [h]) i (max j (h_end h))"
  unfolding covers_def
proof (intro allI impI)
  fix x assume "i \<le> x" "x \<le> max j (h_end h)"
  then show "\<exists>g \<in> set (hs @ [h]). h_start g \<le> x \<and> x \<le> h_end g"
    using assms unfolding covers_def by (cases "x \<le> j") auto
qed

text \<open>A region that our side opened takes in no change of theirs unless one touches a change of ours:
  the closed intervals pulled so far cover the region.\<close>

lemma pull_one_sided:
  assumes "pull r oh th = (r', oh', th')" "r_theirs r = []" "covers (r_ours r) (r_start r) (r_end r)"
    "\<forall>t \<in> set th. r_start r \<le> h_start t \<and> h_start t \<le> h_end t"
    "\<forall>h \<in> set (r_ours r @ oh). \<forall>t \<in> set th. \<not> touches h t"
  shows "r_theirs r' = []"
  using assms
proof (induction r oh th rule: pull.induct)
  case (1 r oh th)
  show ?case
  proof (cases "oh \<noteq> [] \<and> h_start (hd oh) \<le> r_end r")
    case True
    then obtain h oh1 where oh: "oh = h # oh1" "h_start h \<le> r_end r" by (cases oh) auto
    let ?r = "r\<lparr>r_end := max (r_end r) (h_end h), r_ours := r_ours r @ [h]\<rparr>"
    from 1(3) oh have "pull ?r oh1 th = (r', oh', th')" by (simp add: pull.simps [of r])
    moreover have "covers (r_ours ?r) (r_start ?r) (r_end ?r)" using covers_snoc [OF 1(5) oh(2)] by simp
    ultimately show ?thesis using 1(1) [OF True] 1(4,6,7) oh by auto
  next
    case False
    have "\<not> (th \<noteq> [] \<and> h_start (hd th) \<le> r_end r)"
    proof
      assume "th \<noteq> [] \<and> h_start (hd th) \<le> r_end r"
      then have t: "hd th \<in> set th" "h_start (hd th) \<le> r_end r" by auto
      with 1(6) have s: "r_start r \<le> h_start (hd th)" "h_start (hd th) \<le> h_end (hd th)" by auto
      with 1(5) t(2) obtain h where "h \<in> set (r_ours r)" "h_start h \<le> h_start (hd th)" "h_start (hd th) \<le> h_end h"
        unfolding covers_def by blast
      with s(2) 1(7) t(1) show False by (auto simp: touches_def dest!: bspec [of _ _ h] bspec [of _ _ "hd th"])
    qed
    with False 1(3,4) show ?thesis by (auto simp: pull.simps [of r])
  qed
qed

definition no_touching :: "hunk list \<Rightarrow> hunk list \<Rightarrow> bool" where
  "no_touching oh th \<longleftrightarrow> list_all (\<lambda>h. list_all (\<lambda>t. \<not> touches h t) th) oh"

lemma no_touching_sym: "no_touching oh th \<Longrightarrow> no_touching th oh"
  by (auto simp: no_touching_def list_all_iff touches_def)

lemma next_region_ours_first:
  assumes "next_region oh th = (r, oh', th')" "oh \<noteq> []" "th = [] \<or> h_start (hd oh) \<le> h_start (hd th)"
    "ordered_hunks p oh n" "ordered_hunks p th n" "no_touching oh th"
  shows "r_theirs r = []"
proof -
  obtain h os where oh: "oh = h # os" using assms(2) by (cases oh) auto
  let ?r = "\<lparr>r_start = h_start h, r_end = h_end h, r_ours = [h], r_theirs = []\<rparr>"
  from assms(1,3) oh have "pull ?r os th = (r, oh', th')" by (auto simp: next_region_def)
  moreover have "covers (r_ours ?r) (r_start ?r) (r_end ?r)" by (auto simp: covers_def)
  moreover have "\<forall>t \<in> set th. r_start ?r \<le> h_start t \<and> h_start t \<le> h_end t"
    using hd_start_least [OF assms(5)] ordered_hunks_bounds [OF assms(5)] assms(3) oh by fastforce
  moreover have "\<forall>g \<in> set (r_ours ?r @ os). \<forall>t \<in> set th. \<not> touches g t"
    using assms(6) oh by (auto simp: no_touching_def list_all_iff)
  ultimately show ?thesis using pull_one_sided [of ?r os th r oh' th'] by simp
qed

lemma next_region_one_sided:
  assumes "next_region oh th = (r, oh', th')" "oh \<noteq> [] \<or> th \<noteq> []"
    "ordered_hunks p oh n" "ordered_hunks p th n" "no_touching oh th"
  shows "r_ours r = [] \<or> r_theirs r = []"
proof (cases "oh \<noteq> [] \<and> (th = [] \<or> h_start (hd oh) \<le> h_start (hd th))")
  case True
  with next_region_ours_first [OF assms(1) _ _ assms(3-5)] show ?thesis by blast
next
  case False
  with assms(2) have "th \<noteq> []" "oh = [] \<or> h_start (hd th) \<le> h_start (hd oh)" by auto
  from next_region_ours_first [OF next_region_swap [OF assms(1-4)] this assms(4,3) no_touching_sym [OF assms(5)]]
  show ?thesis by (simp add: swap_region_def)
qed

lemma no_touching_no_conflict:
  assumes "ordered_hunks p oh n" "ordered_hunks p th n" "no_touching oh th"
  shows "\<not> list_ex (region_conflict b) (regions oh th)"
  using assms
proof (induction rule: regions_induct)
  case (Region p oh th r oh' th')
  have "\<not> region_conflict b r"
    using next_region_one_sided [OF Region(4,3,1,2,7)] by (auto simp: region_conflict_def merge_region_def)
  moreover have "no_touching oh' th'"
    using Region(7) region_specD(1,2) [OF Region(5)] unfolding no_touching_def list_all_iff by (metis Un_iff set_append)
  ultimately show ?case using Region(6) by simp
qed simp

text \<open>What a region means for either side.\<close>

definition side_effect :: "string list \<Rightarrow> region \<Rightarrow> hunk list \<Rightarrow> string option" where
  "side_effect b r hs = map_option concat (apply_hunks b (r_start r) (r_end r) hs)"

definition region_sound :: "string list \<Rightarrow> region \<Rightarrow> bool" where
  "region_sound b r \<longleftrightarrow>
     (if region_conflict b r then
        r_ours r \<noteq> [] \<and> r_theirs r \<noteq> [] \<and> side_effect b r (r_ours r) \<noteq> side_effect b r (r_theirs r)
      else
        list_all (\<lambda>hs. hs = [] \<or> side_effect b r hs = Some (concat (h_lines (region_hunk b r))))
          [r_ours r, r_theirs r])"

lemma regions_sound:
  assumes "ordered_hunks p oh n" "ordered_hunks p th n" "n \<le> length b"
  shows "list_all (region_sound b) (regions oh th)"
  using assms(1,2)
proof (induction rule: regions_induct)
  case (Region p oh th r oh' th')
  note o = region_spec_ordered [OF Region(5,1,2)]
  from o(3) assms(3) have "r_end r \<le> length b" by simp
  with apply_hunks_total [OF o(4)] apply_hunks_total [OF o(5)] obtain xs ys where
    "apply_hunks b (r_start r) (r_end r) (r_ours r) = Some xs"
    "apply_hunks b (r_start r) (r_end r) (r_theirs r) = Some ys" by blast
  then have "region_sound b r"
    using region_nonempty [OF Region(5)]
    by (auto simp: region_sound_def side_effect_def region_conflict_def region_hunk_def merge_region_def)
  with Region(6) show ?case by simp
qed simp

section \<open>Properties\<close>

lemma merge_text_loop:
  assumes "ours \<noteq> theirs" "base \<noteq> ours" "base \<noteq> theirs"
  shows "merge_text diff base ours theirs =
    region_loop (split_lines base) (hunks diff (split_lines base) (split_lines ours))
      (hunks diff (split_lines base) (split_lines theirs)) 0 []"
  using assms by (simp add: merge_text_def Let_def)

lemma hunks_ordered:
  "script_ok base other (diff base other) \<Longrightarrow>
    ordered_hunks 0 (hunks diff (split_lines base) (split_lines other)) (length (split_lines base))"
  using hunks_spec(1) [of base other diff] by simp

lemma hunks_apply:
  "script_ok base other (diff base other) \<Longrightarrow>
    apply_hunks (split_lines base) 0 (length (split_lines base))
      (hunks diff (split_lines base) (split_lines other)) = Some (split_lines other)"
  using hunks_spec(2) [of base other diff] by simp

lemma regions_apply_total:
  assumes "ordered_hunks 0 oh (length b)" "ordered_hunks 0 th (length b)"
  obtains ls where "apply_hunks b 0 (length b) (map (region_hunk b) (regions oh th)) = Some ls"
  using apply_hunks_total [OF regions_ordered [OF regions_separated [OF assms]]] by blast

lemma merge_text_no_panic:
  assumes "script_ok base ours (diff base ours)" "script_ok base theirs (diff base theirs)"
  shows "merge_text diff base ours theirs \<noteq> None"
proof (cases "ours = theirs \<or> base = ours \<or> base = theirs")
  case True
  then show ?thesis by (auto simp: merge_text_def)
next
  case False
  note o = hunks_ordered [of base ours diff, OF assms(1)] hunks_ordered [of base theirs diff, OF assms(2)]
  show ?thesis
    using False regions_apply_total [OF o] by (auto simp: merge_text_loop region_loop_regions [OF o] apply_hunks_def)
qed

lemma merge_text_swap:
  assumes "script_ok base ours (diff base ours)" "script_ok base theirs (diff base theirs)"
  shows "merge_text diff base theirs ours = merge_text diff base ours theirs"
proof (cases "ours = theirs \<or> base = ours \<or> base = theirs")
  case True
  then show ?thesis by (auto simp: merge_text_def)
next
  case False
  let ?b = "split_lines base"
  note o = hunks_ordered [of base ours diff, OF assms(1)] hunks_ordered [of base theirs diff, OF assms(2)]
  with False region_loop_swap [OF o, of "[]" "[]"] show ?thesis
    using merge_text_loop [of ours theirs base diff] merge_text_loop [of theirs ours base diff] by auto
qed

text \<open>The merge does not depend on which side is ours: with the sides exchanged it gives the same
  text or the same conflict.  No slice of it is out of range, for any base and any two sides.\<close>

theorem merge_text_symmetric:
  assumes "script_ok base ours (diff base ours)" "script_ok base theirs (diff base theirs)"
  shows "merge_text diff base theirs ours = merge_text diff base ours theirs \<and>
    merge_text diff base ours theirs \<noteq> None"
  using merge_text_swap [of base ours diff theirs, OF assms] merge_text_no_panic [of base ours diff theirs, OF assms] by simp

definition demo_base :: string where
  "demo_base = ''a'' @ [newline] @ ''b'' @ [newline] @ ''c'' @ [newline]"

definition demo_ours :: string where
  "demo_ours = ''A'' @ [newline] @ ''b'' @ [newline] @ ''c'' @ [newline]"

definition demo_theirs :: string where
  "demo_theirs = ''a'' @ [newline] @ ''b'' @ [newline] @ ''C'' @ [newline]"

definition demo_merged :: string where
  "demo_merged = ''A'' @ [newline] @ ''b'' @ [newline] @ ''C'' @ [newline]"

definition demo_diff :: "string \<Rightarrow> string \<Rightarrow> edit list" where
  "demo_diff x y =
     (if y = demo_ours then
        [(DiffDelete, ''a'' @ [newline]), (DiffInsert, ''A'' @ [newline]),
         (DiffEqual, ''b'' @ [newline] @ ''c'' @ [newline])]
      else
        [(DiffEqual, ''a'' @ [newline] @ ''b'' @ [newline]), (DiffDelete, ''c'' @ [newline]),
         (DiffInsert, ''C'' @ [newline])])"

lemma demo_scripts:
  "script_ok demo_base demo_ours (demo_diff demo_base demo_ours)"
  "script_ok demo_base demo_theirs (demo_diff demo_base demo_theirs)"
  by code_simp+

theorem merge_text_symmetric_witness:
  "merge_text demo_diff demo_base demo_theirs demo_ours = Some (demo_merged, True)"
proof -
  have "merge_text demo_diff demo_base demo_ours demo_theirs = Some (demo_merged, True)" by code_simp
  with merge_text_symmetric [of demo_base demo_ours demo_diff demo_theirs, OF demo_scripts] show ?thesis by simp
qed

text \<open>C13: What a merge of two changed sides is: the changes of both fall into separated regions of the
  base that partition them in order; the merge succeeds iff in every region only one side changed
  something or both made the same text of it; the merged text is then the base with every region
  replaced by what each side that changed it made of it.  Applied alone, the changes of a side give
  that side.\<close>

theorem merge_text_joins_both_sides:
  assumes "script_ok base ours (diff base ours)" "script_ok base theirs (diff base theirs)"
    "ours \<noteq> theirs" "base \<noteq> ours" "base \<noteq> theirs"
  defines "b \<equiv> split_lines base"
  defines "oh \<equiv> hunks diff b (split_lines ours)"
  defines "th \<equiv> hunks diff b (split_lines theirs)"
  defines "rs \<equiv> regions oh th"
  shows "apply_hunks b 0 (length b) oh = Some (split_lines ours) \<and>
    apply_hunks b 0 (length b) th = Some (split_lines theirs) \<and>
    concat (map r_ours rs) = oh \<and> concat (map r_theirs rs) = th \<and> separated 0 rs (length b) \<and>
    list_all (region_sound b) rs \<and>
    merge_text diff base ours theirs =
      (if list_ex (region_conflict b) rs then Some ([], False)
       else map_option (\<lambda>ls. (concat ls, True)) (apply_hunks b 0 (length b) (map (region_hunk b) rs)))"
proof -
  have o: "ordered_hunks 0 oh (length b)" "ordered_hunks 0 th (length b)"
    unfolding oh_def th_def b_def using hunks_ordered [of base ours diff, OF assms(1)] hunks_ordered [of base theirs diff, OF assms(2)] by simp_all
  from merge_text_loop [OF assms(3-5), of diff] region_loop_regions [OF o, of "[]"]
  have "merge_text diff base ours theirs =
      (if list_ex (region_conflict b) rs then Some ([], False)
       else map_option (\<lambda>ls. (concat ls, True)) (apply_hunks b 0 (length b) (map (region_hunk b) rs)))"
    by (simp add: rs_def oh_def th_def b_def apply_hunks_def)
  with hunks_apply [of base ours diff, OF assms(1)] hunks_apply [of base theirs diff, OF assms(2)] regions_partition [OF o] regions_separated [OF o]
    regions_sound [OF o order_refl]
  show ?thesis by (simp add: rs_def oh_def th_def b_def)
qed

lemma demo_sides: "demo_ours \<noteq> demo_theirs" "demo_base \<noteq> demo_ours" "demo_base \<noteq> demo_theirs"
  by code_simp+

theorem merge_text_joins_both_sides_witness:
  "let b = split_lines demo_base; oh = hunks demo_diff b (split_lines demo_ours) in
    oh \<noteq> [] \<and> apply_hunks b 0 (length b) oh = Some (split_lines demo_ours)"
proof -
  have "hunks demo_diff (split_lines demo_base) (split_lines demo_ours) \<noteq> []" by code_simp
  with merge_text_joins_both_sides [of demo_base demo_ours demo_diff demo_theirs, OF demo_scripts demo_sides]
  show ?thesis by (simp add: Let_def)
qed

text \<open>The merge never refuses without cause: when no change of ours overlaps or touches a change of
  theirs in the base, the sides are joined.\<close>

theorem merge_text_conflict_touches:
  assumes "script_ok base ours (diff base ours)" "script_ok base theirs (diff base theirs)"
    "no_touching (hunks diff (split_lines base) (split_lines ours)) (hunks diff (split_lines base) (split_lines theirs))"
  shows "\<exists>m. merge_text diff base ours theirs = Some (m, True)"
proof (cases "ours = theirs \<or> base = ours \<or> base = theirs")
  case True
  then show ?thesis by (auto simp: merge_text_def)
next
  case False
  note o = hunks_ordered [of base ours diff, OF assms(1)] hunks_ordered [of base theirs diff, OF assms(2)]
  from regions_apply_total [OF o] region_loop_regions [OF o, of "[]"] no_touching_no_conflict [OF o assms(3)]
  show ?thesis using False by (auto simp: merge_text_loop apply_hunks_def)
qed

theorem merge_text_conflict_touches_witness:
  "\<exists>m. merge_text demo_diff demo_base demo_ours demo_theirs = Some (m, True)"
  by (rule merge_text_conflict_touches [of demo_base demo_ours demo_diff demo_theirs, OF demo_scripts]) code_simp

end
