(* ===== verification/Git_Tree.thy ===== *)
theory Git_Tree
  imports SF_Prelude "HOL-Library.AList"
begin

text \<open>
  Git trees as flat maps (\<^verbatim>\<open>src/src/gitstate/tree.go\<close>): \<open>FlattenTree\<close> lists every non-tree entry of a
  tree under its full path, \<open>WriteTreeFromFlat\<close> writes nested tree objects for such a list.

  A tree object is the list of its entries.  The object database (\<open>go-git\<close>) is an argument on an
  abstract state: writing a tree, reading one by its hash, and resolving the subtree a name stands
  for.  A Go map is an association list with distinct keys in the order of its iteration.
\<close>

section \<open>Entries and the object database\<close>

type_synonym hash = string

text \<open>\<^verbatim>\<open>filemode.Dir\<close> is 0040000; any other mode is a file of some kind.  Modes are only compared.\<close>

type_synonym file_mode = int

definition dir_mode :: file_mode where
  "dir_mode = 16384"

record tree_entry =
  te_name :: string
  te_mode :: file_mode
  te_hash :: hash

type_synonym tree = "tree_entry list"

type_synonym flat = "(string \<times> tree_entry) list"

record ('s, 'e) tree_store =
  ts_put :: "'s \<Rightarrow> tree \<Rightarrow> ('e + hash) \<times> 's"
  ts_get :: "'s \<Rightarrow> hash \<Rightarrow> 'e + tree"
  ts_subtree :: "'s \<Rightarrow> tree \<Rightarrow> string \<Rightarrow> 'e + tree"

text \<open>What is relied on: a tree that was written is read back, what was readable stays readable, and
  a name that stands once in a tree, for a directory, resolves to the tree of its hash.\<close>

definition tree_store_ok :: "('s, 'e) tree_store \<Rightarrow> bool" where
  "tree_store_ok S \<longleftrightarrow>
    (\<forall>s es h s'. ts_put S s es = (Inr h, s') \<longrightarrow> ts_get S s' h = Inr es) \<and>
    (\<forall>s es r s' h t. ts_put S s es = (r, s') \<longrightarrow> ts_get S s h = Inr t \<longrightarrow> ts_get S s' h = Inr t) \<and>
    (\<forall>s es e. distinct (map te_name es) \<longrightarrow> e \<in> set es \<longrightarrow> te_mode e = dir_mode \<longrightarrow>
      ts_subtree S s es (te_name e) = ts_get S s (te_hash e))"

section \<open>Flattening\<close>

definition path_in :: "string \<Rightarrow> string \<Rightarrow> string" where
  "path_in pre name = (if pre \<noteq> [] then pre @ ''/'' @ name else name)"

text \<open>The entries of one frame: subtrees are pushed, everything else is recorded.\<close>

fun flatten_entries ::
  "('s, 'e) tree_store \<Rightarrow> 's \<Rightarrow> string \<Rightarrow> tree \<Rightarrow> tree \<Rightarrow> (string \<times> tree) list \<Rightarrow> flat
     \<Rightarrow> (string \<times> 'e) + (string \<times> tree) list \<times> flat" where
  "flatten_entries S s pre t [] stack flat = Inr (stack, flat)"
| "flatten_entries S s pre t (e # es) stack flat =
     (let path = path_in pre (te_name e) in
      if te_mode e = dir_mode then
        (case ts_subtree S s t (te_name e) of
           Inl err \<Rightarrow> Inl (path, err)
         | Inr sub \<Rightarrow> flatten_entries S s pre t es (stack @ [(path, sub)]) flat)
      else flatten_entries S s pre t es stack (AList.update path (e\<lparr>te_name := path\<rparr>) flat))"

text \<open>The loop pops the last frame.  It need not end on a store whose trees contain themselves.\<close>

partial_function (option) flatten_loop ::
  "('s, 'e) tree_store \<Rightarrow> 's \<Rightarrow> (string \<times> tree) list \<Rightarrow> flat \<Rightarrow> ((string \<times> 'e) + flat) option" where
  "flatten_loop S s stack flat =
     (if stack = [] then Some (Inr flat)
      else
        (case flatten_entries S s (fst (last stack)) (snd (last stack)) (snd (last stack)) (butlast stack) flat of
           Inl err \<Rightarrow> Some (Inl err)
         | Inr (stack', flat') \<Rightarrow> flatten_loop S s stack' flat'))"

definition flatten_tree :: "('s, 'e) tree_store \<Rightarrow> 's \<Rightarrow> tree \<Rightarrow> ((string \<times> 'e) + flat) option" where
  "flatten_tree S s t = flatten_loop S s [([], t)] []"

section \<open>Writing\<close>

datatype dir_node = DirNode (dn_files: "(string \<times> tree_entry) list") (dn_dirs: "(string \<times> dir_node) list")

definition new_dir :: dir_node where
  "new_dir = DirNode [] []"

fun insert_path :: "string list \<Rightarrow> tree_entry \<Rightarrow> dir_node \<Rightarrow> dir_node" where
  "insert_path [] e n = n"
| "insert_path [base] e (DirNode fs ds) = DirNode (AList.update base (e\<lparr>te_name := base\<rparr>) fs) ds"
| "insert_path (dir # p # ps) e (DirNode fs ds) =
     DirNode fs (AList.update dir
       (insert_path (p # ps) e (case map_of ds dir of None \<Rightarrow> new_dir | Some child \<Rightarrow> child)) ds)"

definition dir_tree :: "flat \<Rightarrow> dir_node" where
  "dir_tree flat = foldl (\<lambda>n (path, e). insert_path (split_on CHR ''/'' path) e n) new_dir flat"

text \<open>\<open>treeSortKey\<close>: a directory sorts as \<^verbatim>\<open>name/\<close>.\<close>

definition tree_sort_key :: "tree_entry \<Rightarrow> string" where
  "tree_sort_key e = (if te_mode e = dir_mode then te_name e @ ''/'' else te_name e)"

definition tree_less :: "tree_entry \<Rightarrow> tree_entry \<Rightarrow> bool" where
  "tree_less a b \<longleftrightarrow> tree_sort_key a < tree_sort_key b"

fun write_dir :: "('s, 'e) tree_store \<Rightarrow> dir_node \<Rightarrow> 's \<Rightarrow> ('e + hash) \<times> 's"
  and write_dirs :: "('s, 'e) tree_store \<Rightarrow> (string \<times> dir_node) list \<Rightarrow> tree \<Rightarrow> 's \<Rightarrow> ('e + tree) \<times> 's" where
  "write_dir S (DirNode fs ds) s =
     (case write_dirs S ds (map snd fs) s of
        (Inl err, s') \<Rightarrow> (Inl err, s')
      | (Inr entries, s') \<Rightarrow> ts_put S s' (sort_slice tree_less entries))"
| "write_dirs S [] entries s = (Inr entries, s)"
| "write_dirs S ((name, child) # ds) entries s =
     (case write_dir S child s of
        (Inl err, s') \<Rightarrow> (Inl err, s')
      | (Inr h, s') \<Rightarrow> write_dirs S ds (entries @ [\<lparr>te_name = name, te_mode = dir_mode, te_hash = h\<rparr>]) s')"

definition write_tree_from_flat :: "('s, 'e) tree_store \<Rightarrow> flat \<Rightarrow> 's \<Rightarrow> ('e + hash) \<times> 's" where
  "write_tree_from_flat S flat s = write_dir S (dir_tree flat) s"

section \<open>What a directory node holds\<close>

fun node_get :: "dir_node \<Rightarrow> string list \<Rightarrow> tree_entry option" where
  "node_get n [] = None"
| "node_get (DirNode fs ds) [b] = map_of fs b"
| "node_get (DirNode fs ds) (d # p # ps) =
     (case map_of ds d of None \<Rightarrow> None | Some c \<Rightarrow> node_get c (p # ps))"

fun node_dir :: "dir_node \<Rightarrow> string list \<Rightarrow> bool" where
  "node_dir n [] \<longleftrightarrow> False"
| "node_dir (DirNode fs ds) [d] \<longleftrightarrow> map_of ds d \<noteq> None"
| "node_dir (DirNode fs ds) (d # p # ps) \<longleftrightarrow>
     (case map_of ds d of None \<Rightarrow> False | Some c \<Rightarrow> node_dir c (p # ps))"

lemma node_get_new [simp]: "node_get new_dir ps = None"
  by (cases "(new_dir, ps)" rule: node_get.cases) (auto simp: new_dir_def)

lemma node_dir_new [simp]: "\<not> node_dir new_dir ps"
  by (cases "(new_dir, ps)" rule: node_dir.cases) (auto simp: new_dir_def)

lemma node_get_insert:
  "ps \<noteq> [] \<Longrightarrow> node_get (insert_path ps e n) qs =
    (if qs = ps then Some (e\<lparr>te_name := last ps\<rparr>) else node_get n qs)"
proof (induction ps e n arbitrary: qs rule: insert_path.induct)
  case (2 base e fs ds)
  show ?case by (cases "(DirNode fs ds, qs)" rule: node_get.cases) (auto simp: update_conv)
next
  case (3 dir p ps e fs ds)
  show ?case
    by (cases "(DirNode fs ds, qs)" rule: node_get.cases)
      (use 3 in \<open>auto simp: update_conv split: option.splits\<close>)
qed simp

lemma node_dir_insert:
  "ps \<noteq> [] \<Longrightarrow> node_dir (insert_path ps e n) qs \<longleftrightarrow> node_dir n qs \<or> (qs \<noteq> [] \<and> strict_prefix qs ps)"
proof (induction ps e n arbitrary: qs rule: insert_path.induct)
  case (2 base e fs ds)
  show ?case by (cases "(DirNode fs ds, qs)" rule: node_dir.cases) (auto simp: strict_prefix_def)
next
  case (3 dir p ps e fs ds)
  show ?case
    by (cases "(DirNode fs ds, qs)" rule: node_dir.cases)
      (use 3 in \<open>auto simp: update_conv split: option.splits\<close>)
qed simp

text \<open>Its structure: the keys of either map are distinct, files are filed under their name and are no
  directories.\<close>

inductive wf_node :: "dir_node \<Rightarrow> bool" where
  "distinct (map fst fs) \<Longrightarrow> distinct (map fst ds) \<Longrightarrow>
   \<forall>(b, e) \<in> set fs. te_name e = b \<and> te_mode e \<noteq> dir_mode \<Longrightarrow>
   \<forall>(d, c) \<in> set ds. wf_node c \<Longrightarrow> wf_node (DirNode fs ds)"

inductive_simps wf_node_iff: "wf_node (DirNode fs ds)"

lemma wf_new_dir [simp]: "wf_node new_dir"
  by (simp add: new_dir_def wf_node_iff)

lemma set_update_subset: "set (AList.update k v al) \<subseteq> insert (k, v) (set al)"
  by (induction al) auto

lemma wf_insert_path:
  "ps \<noteq> [] \<Longrightarrow> wf_node n \<Longrightarrow> te_mode e \<noteq> dir_mode \<Longrightarrow> wf_node (insert_path ps e n)"
proof (induction ps e n rule: insert_path.induct)
  case (2 base e fs ds)
  then show ?case
    using set_update_subset [of base "e\<lparr>te_name := base\<rparr>" fs]
    by (auto simp: wf_node_iff distinct_update)
next
  case (3 dir p ps e fs ds)
  let ?c = "case map_of ds dir of None \<Rightarrow> new_dir | Some child \<Rightarrow> child"
  have "wf_node ?c" using 3(3) by (auto simp: wf_node_iff split: option.split dest: map_of_SomeD)
  with 3 have "wf_node (insert_path (p # ps) e ?c)" by simp
  with 3(3) show ?case
    using set_update_subset [of dir "insert_path (p # ps) e ?c" ds]
    by (auto simp: wf_node_iff distinct_update)
qed simp

abbreviation path_parts :: "string \<Rightarrow> string list" where
  "path_parts \<equiv> split_on CHR ''/''"

lemma path_parts_inj: "path_parts p = path_parts q \<longleftrightarrow> p = q"
  by (metis join_split_on)

lemma dir_tree_snoc [simp]: "dir_tree (flat @ [(p, e)]) = insert_path (path_parts p) e (dir_tree flat)"
  by (simp add: dir_tree_def)

lemma dir_tree_Nil [simp]: "dir_tree [] = new_dir"
  by (simp add: dir_tree_def)

lemma dir_tree_wf: "\<forall>(p, e) \<in> set flat. te_mode e \<noteq> dir_mode \<Longrightarrow> wf_node (dir_tree flat)"
  by (induction flat rule: rev_induct) (auto simp: wf_insert_path)

lemma dir_tree_get:
  "distinct (map fst flat) \<Longrightarrow> node_get (dir_tree flat) qs = Some e' \<longleftrightarrow>
    (\<exists>p e. (p, e) \<in> set flat \<and> qs = path_parts p \<and> e' = e\<lparr>te_name := last (path_parts p)\<rparr>)"
proof (induction flat rule: rev_induct)
  case (snoc x flat)
  obtain p e where x: "x = (p, e)" by (cases x)
  from snoc have IH: "node_get (dir_tree flat) qs = Some e' \<longleftrightarrow>
      (\<exists>p e. (p, e) \<in> set flat \<and> qs = path_parts p \<and> e' = e\<lparr>te_name := last (path_parts p)\<rparr>)"
    and new: "\<And>e. (p, e) \<notin> set flat" using x by (auto simp: image_iff)
  show ?case
  proof (cases "qs = path_parts p")
    case True
    with new x show ?thesis by (auto simp: node_get_insert path_parts_inj)
  next
    case False
    with IH x show ?thesis by (auto simp: node_get_insert)
  qed
qed simp

lemma dir_tree_dir:
  "node_dir (dir_tree flat) qs \<longleftrightarrow> qs \<noteq> [] \<and> (\<exists>(p, e) \<in> set flat. strict_prefix qs (path_parts p))"
  by (induction flat rule: rev_induct) (auto simp: node_dir_insert)

section \<open>Trees that stand for a node\<close>

text \<open>An entry of the written tree stands for a subdirectory.\<close>

inductive stored :: "('s, 'e) tree_store \<Rightarrow> 's \<Rightarrow> tree \<Rightarrow> dir_node \<Rightarrow> bool" for S s where
  "mset t = mset (map snd fs @ des) \<Longrightarrow> map te_name des = map fst ds \<Longrightarrow>
   \<forall>e \<in> set des. te_mode e = dir_mode \<Longrightarrow>
   \<forall>(e, c) \<in> set (zip des (map snd ds)). \<exists>t'. ts_get S s (te_hash e) = Inr t' \<and> stored S s t' c \<Longrightarrow>
   stored S s t (DirNode fs ds)"

inductive_cases stored_elim: "stored S s t (DirNode fs ds)"

definition store_grows :: "('s, 'e) tree_store \<Rightarrow> 's \<Rightarrow> 's \<Rightarrow> bool" where
  "store_grows S s s' \<longleftrightarrow> (\<forall>h t. ts_get S s h = Inr t \<longrightarrow> ts_get S s' h = Inr t)"

lemma store_grows_refl [simp]: "store_grows S s s"
  by (simp add: store_grows_def)

lemma store_grows_trans: "store_grows S s s' \<Longrightarrow> store_grows S s' s'' \<Longrightarrow> store_grows S s s''"
  by (simp add: store_grows_def)

lemma stored_mono: "stored S s t n \<Longrightarrow> store_grows S s s' \<Longrightarrow> stored S s' t n"
proof (induction rule: stored.induct)
  case (1 t fs des ds)
  show ?case
  proof (rule stored.intros [OF 1(1-3)])
    show "\<forall>(e, c) \<in> set (zip des (map snd ds)). \<exists>t'. ts_get S s' (te_hash e) = Inr t' \<and> stored S s' t' c"
      using 1(4,5) unfolding store_grows_def by fastforce
  qed
qed

lemma put_store_grows: "tree_store_ok S \<Longrightarrow> ts_put S s es = (r, s') \<Longrightarrow> store_grows S s s'"
  unfolding tree_store_ok_def store_grows_def by blast

lemma write_stored:
  shows "write_dir S n s = (r, s') \<Longrightarrow> tree_store_ok S \<Longrightarrow> store_grows S s s' \<and>
      (\<forall>h. r = Inr h \<longrightarrow> (\<exists>t. ts_get S s' h = Inr t \<and> stored S s' t n))"
    and "write_dirs S ds es s = (rs, s') \<Longrightarrow> tree_store_ok S \<Longrightarrow> store_grows S s s' \<and>
      (\<forall>t. rs = Inr t \<longrightarrow> (\<exists>des. t = es @ des \<and> map te_name des = map fst ds \<and>
        (\<forall>e \<in> set des. te_mode e = dir_mode) \<and>
        (\<forall>(e, c) \<in> set (zip des (map snd ds)). \<exists>t'. ts_get S s' (te_hash e) = Inr t' \<and> stored S s' t' c)))"
proof (induction S n s and S ds es s arbitrary: r s' and rs s' rule: write_dir_write_dirs.induct)
  case (1 S fs ds s)
  obtain w s1 where w: "write_dirs S ds (map snd fs) s = (w, s1)" by (cases "write_dirs S ds (map snd fs) s")
  show ?case
  proof (cases w)
    case (Inl err)
    with w 1 show ?thesis by auto
  next
    case (Inr entries)
    with w 1(1) [OF w 1(3)] obtain des where des: "store_grows S s s1" "entries = map snd fs @ des" "map te_name des = map fst ds"
      "\<forall>e \<in> set des. te_mode e = dir_mode"
      "\<forall>(e, c) \<in> set (zip des (map snd ds)). \<exists>t'. ts_get S s1 (te_hash e) = Inr t' \<and> stored S s1 t' c" by auto
    from Inr w 1(2) have put: "ts_put S s1 (sort_slice tree_less entries) = (r, s')" by simp
    note g = put_store_grows [OF 1(3) put]
    have "\<exists>t. ts_get S s' h = Inr t \<and> stored S s' t (DirNode fs ds)" if "r = Inr h" for h
    proof (intro exI conjI)
      show "ts_get S s' h = Inr (sort_slice tree_less entries)"
        using 1(3) put that unfolding tree_store_ok_def by blast
      show "stored S s' (sort_slice tree_less entries) (DirNode fs ds)"
        by (rule stored_mono [OF stored.intros [where fs = fs and des = des] g]) (use des in simp_all)
    qed
    with store_grows_trans [OF des(1) g] show ?thesis by blast
  qed
next
  case (3 S name child ds es s)
  obtain w s1 where w: "write_dir S child s = (w, s1)" by (cases "write_dir S child s")
  show ?case
  proof (cases w)
    case (Inl err)
    with w 3 show ?thesis by auto
  next
    case (Inr h)
    let ?e = "\<lparr>te_name = name, te_mode = dir_mode, te_hash = h\<rparr>"
    from w 3(1) [OF w 3(4)] Inr obtain t where t: "store_grows S s s1" "ts_get S s1 h = Inr t" "stored S s1 t child" by auto
    from 3(3) w Inr have ws: "write_dirs S ds (es @ [?e]) s1 = (rs, s')" by simp
    note IH = 3(2) [OF w [symmetric, unfolded Inr] refl ws 3(4)]
    have g: "store_grows S s1 s'" using IH by blast
    have "\<exists>des. t1 = es @ des \<and> map te_name des = map fst ((name, child) # ds) \<and>
        (\<forall>e \<in> set des. te_mode e = dir_mode) \<and>
        (\<forall>(e, c) \<in> set (zip des (map snd ((name, child) # ds))).
          \<exists>t'. ts_get S s' (te_hash e) = Inr t' \<and> stored S s' t' c)" if "rs = Inr t1" for t1
    proof -
      from IH that obtain des where des: "t1 = (es @ [?e]) @ des" "map te_name des = map fst ds"
        "\<forall>e \<in> set des. te_mode e = dir_mode"
        "\<forall>(e, c) \<in> set (zip des (map snd ds)). \<exists>t'. ts_get S s' (te_hash e) = Inr t' \<and> stored S s' t' c" by blast
      have "ts_get S s' h = Inr t" "stored S s' t child" using t(2,3) g stored_mono by (auto simp: store_grows_def)
      with des show ?thesis by (intro exI [of _ "?e # des"]) auto
    qed
    with store_grows_trans [OF t(1) g] show ?thesis by blast
  qed
qed auto

section \<open>Flattening a stored tree\<close>

definition node_set :: "string \<Rightarrow> dir_node \<Rightarrow> (string \<times> tree_entry) set" where
  "node_set pre n = {(p, e\<lparr>te_name := p\<rparr>) | p e. \<exists>qs. node_get n qs = Some e \<and> p = foldl path_in pre qs}"

lemma node_setI:
  "node_get n qs = Some e \<Longrightarrow> (foldl path_in pre qs, e\<lparr>te_name := foldl path_in pre qs\<rparr>) \<in> node_set pre n"
  unfolding node_set_def by blast

definition unclashed :: "dir_node \<Rightarrow> bool" where
  "unclashed n \<longleftrightarrow> (\<forall>qs. node_get n qs \<noteq> None \<longrightarrow> \<not> node_dir n qs)"

lemma node_get_iff:
  assumes "distinct (map fst fs)" "distinct (map fst ds)"
  shows "node_get (DirNode fs ds) qs = Some e \<longleftrightarrow>
    (\<exists>b. qs = [b] \<and> (b, e) \<in> set fs) \<or> (\<exists>d c qs'. qs = d # qs' \<and> (d, c) \<in> set ds \<and> node_get c qs' = Some e)"
proof -
  note r = map_of_eq_Some_iff [OF assms(1), symmetric] map_of_eq_Some_iff [OF assms(2), symmetric]
  show ?thesis
    unfolding r by (cases "(DirNode fs ds, qs)" rule: node_get.cases) (auto split: option.splits)
qed

lemma node_dir_child:
  "distinct (map fst ds) \<Longrightarrow> (d, c) \<in> set ds \<Longrightarrow> qs \<noteq> [] \<Longrightarrow> node_dir (DirNode fs ds) (d # qs) = node_dir c qs"
  by (cases qs) auto

lemma node_set_node:
  assumes "wf_node (DirNode fs ds)"
  shows "node_set pre (DirNode fs ds) =
    (\<lambda>(b, e). (path_in pre b, e\<lparr>te_name := path_in pre b\<rparr>)) ` set fs \<union> (\<Union>(d, c) \<in> set ds. node_set (path_in pre d) c)"
proof -
  from assms have "distinct (map fst fs)" "distinct (map fst ds)" by (auto simp: wf_node_iff)
  note get = node_get_iff [OF this]
  show ?thesis
  proof (intro equalityI subsetI)
    fix x assume "x \<in> node_set pre (DirNode fs ds)"
    then obtain e qs where "node_get (DirNode fs ds) qs = Some e"
      "x = (foldl path_in pre qs, e\<lparr>te_name := foldl path_in pre qs\<rparr>)" unfolding node_set_def by blast
    then show "x \<in> (\<lambda>(b, e). (path_in pre b, e\<lparr>te_name := path_in pre b\<rparr>)) ` set fs \<union> (\<Union>(d, c) \<in> set ds. node_set (path_in pre d) c)"
      unfolding get by (auto simp: node_set_def image_iff split: prod.splits) force+
  next
    fix x assume "x \<in> (\<lambda>(b, e). (path_in pre b, e\<lparr>te_name := path_in pre b\<rparr>)) ` set fs \<union> (\<Union>(d, c) \<in> set ds. node_set (path_in pre d) c)"
    then consider b e where "(b, e) \<in> set fs" "x = (path_in pre b, e\<lparr>te_name := path_in pre b\<rparr>)"
      | d c where "(d, c) \<in> set ds" "x \<in> node_set (path_in pre d) c" by auto
    then show "x \<in> node_set pre (DirNode fs ds)"
    proof cases
      case 1
      then have "node_get (DirNode fs ds) [b] = Some e" unfolding get by simp
      moreover have "path_in pre b = foldl path_in pre [b]" by simp
      ultimately show ?thesis unfolding node_set_def 1(2) by blast
    next
      case 2
      then obtain qs e where "node_get c qs = Some e"
        "x = (foldl path_in (path_in pre d) qs, e\<lparr>te_name := foldl path_in (path_in pre d) qs\<rparr>)"
        unfolding node_set_def by blast
      moreover from this 2(1) have "node_get (DirNode fs ds) (d # qs) = Some e" unfolding get by blast
      moreover have "foldl path_in (path_in pre d) qs = foldl path_in pre (d # qs)" by simp
      ultimately show ?thesis unfolding node_set_def by blast
    qed
  qed
qed

lemma unclashed_node:
  assumes "wf_node (DirNode fs ds)" "unclashed (DirNode fs ds)"
  shows "set (map fst fs) \<inter> set (map fst ds) = {}" "(d, c) \<in> set ds \<Longrightarrow> unclashed c"
proof -
  from assms(1) have dist: "distinct (map fst fs)" "distinct (map fst ds)" by (auto simp: wf_node_iff)
  have "b \<notin> set (map fst ds)" if "b \<in> set (map fst fs)" for b
  proof -
    from that have "node_get (DirNode fs ds) [b] \<noteq> None" by (simp add: map_of_eq_None_iff)
    with assms(2) have "\<not> node_dir (DirNode fs ds) [b]" unfolding unclashed_def by blast
    then show ?thesis by (simp add: map_of_eq_None_iff)
  qed
  then show "set (map fst fs) \<inter> set (map fst ds) = {}" by blast
  assume c: "(d, c) \<in> set ds"
  show "unclashed c" unfolding unclashed_def
  proof (intro allI impI)
    fix qs assume get: "node_get c qs \<noteq> None"
    then have "qs \<noteq> []" by auto
    from get c have "node_get (DirNode fs ds) (d # qs) \<noteq> None" using node_get_iff [OF dist] by blast
    with assms(2) have "\<not> node_dir (DirNode fs ds) (d # qs)" unfolding unclashed_def by blast
    then show "\<not> node_dir c qs" using node_dir_child [OF dist(2) c \<open>qs \<noteq> []\<close>] by simp
  qed
qed

lemma flatten_entries_eq:
  "\<forall>e \<in> set es. te_mode e = dir_mode \<longrightarrow> ts_subtree S s t (te_name e) = Inr (sub e) \<Longrightarrow>
    flatten_entries S s pre t es stack flat =
      Inr (stack @ map (\<lambda>e. (path_in pre (te_name e), sub e)) (filter (\<lambda>e. te_mode e = dir_mode) es),
        foldl (\<lambda>f e. AList.update (path_in pre (te_name e)) (e\<lparr>te_name := path_in pre (te_name e)\<rparr>) f) flat
          (filter (\<lambda>e. te_mode e \<noteq> dir_mode) es))"
  by (induction es arbitrary: stack flat) (auto simp: Let_def)

lemma set_update_eq:
  "single_valued R \<Longrightarrow> set al \<subseteq> R \<Longrightarrow> (k, v) \<in> R \<Longrightarrow> set (AList.update k v al) = insert (k, v) (set al)"
  by (induction al) (auto dest: single_valuedD)

lemma foldl_update_set:
  assumes "single_valued R" "\<forall>e \<in> set es. (k e, v e) \<in> R" "set flat \<subseteq> R" "distinct (map fst flat)"
  shows "set (foldl (\<lambda>f e. AList.update (k e) (v e) f) flat es) = set flat \<union> (\<lambda>e. (k e, v e)) ` set es \<and>
    distinct (map fst (foldl (\<lambda>f e. AList.update (k e) (v e) f) flat es))"
  using assms(2-4)
proof (induction es arbitrary: flat)
  case (Cons e es)
  then have "set (AList.update (k e) (v e) flat) = insert (k e, v e) (set flat)"
    by (intro set_update_eq [OF assms(1)]) auto
  with Cons.IH [of "AList.update (k e) (v e) flat"] Cons.prems show ?case by (auto simp: distinct_update)
qed simp

fun node_weight :: "dir_node \<Rightarrow> nat" where
  "node_weight (DirNode fs ds) = Suc (sum_list (map (\<lambda>(d, c). node_weight c) ds))"

definition child_of :: "(string \<times> dir_node) list \<Rightarrow> tree_entry \<Rightarrow> dir_node" where
  "child_of ds e = the (map_of ds (te_name e))"

definition tree_of :: "('s, 'e) tree_store \<Rightarrow> 's \<Rightarrow> tree_entry \<Rightarrow> tree" where
  "tree_of S s e = projr (ts_get S s (te_hash e))"

lemma map_pair_eq: "map f xs = map fst zs \<Longrightarrow> map g xs = map snd zs \<Longrightarrow> map (\<lambda>x. (f x, g x)) xs = zs"
  by (induction xs arbitrary: zs) (auto simp: map_eq_Cons_conv Cons_eq_map_conv)

text \<open>A stored tree, entry by entry.\<close>

lemma stored_tree:
  assumes "tree_store_ok S" "stored S s t (DirNode fs ds)" "wf_node (DirNode fs ds)" "unclashed (DirNode fs ds)"
  shows "mset (filter (\<lambda>e. te_mode e \<noteq> dir_mode) t) = mset (map snd fs)"
    and "mset (map (child_of ds) (filter (\<lambda>e. te_mode e = dir_mode) t)) = mset (map snd ds)"
    and "(\<lambda>e. (te_name e, child_of ds e)) ` {e \<in> set t. te_mode e = dir_mode} = set ds"
    and "\<forall>e \<in> set t. te_mode e = dir_mode \<longrightarrow>
      ts_subtree S s t (te_name e) = Inr (tree_of S s e) \<and> stored S s (tree_of S s e) (child_of ds e)"
proof -
  from assms(2) obtain des where des: "mset t = mset (map snd fs @ des)" "map te_name des = map fst ds"
    "\<forall>e \<in> set des. te_mode e = dir_mode"
    "\<forall>(e, c) \<in> set (zip des (map snd ds)). \<exists>t'. ts_get S s (te_hash e) = Inr t' \<and> stored S s t' c"
    by (rule stored_elim) auto
  from assms(3) have wf: "distinct (map fst fs)" "distinct (map fst ds)"
    "\<forall>(b, e) \<in> set fs. te_name e = b \<and> te_mode e \<noteq> dir_mode" by (auto simp: wf_node_iff)
  have files: "\<forall>e \<in> set (map snd fs). te_mode e \<noteq> dir_mode" using wf(3) by auto
  have filter_t: "mset (filter P t) = mset (filter P (map snd fs @ des))" for P
    using des(1) by (metis mset_filter)
  have "filter (\<lambda>e. te_mode e \<noteq> dir_mode) (map snd fs @ des) = map snd fs"
  proof -
    have "filter (\<lambda>e. te_mode e \<noteq> dir_mode) (map snd fs) = map snd fs" using files by (intro filter_True) auto
    moreover have "filter (\<lambda>e. te_mode e \<noteq> dir_mode) des = []" using des(3) by (intro filter_False) auto
    ultimately show ?thesis by (simp only: filter_append append_Nil2)
  qed
  then show "mset (filter (\<lambda>e. te_mode e \<noteq> dir_mode) t) = mset (map snd fs)"
    using filter_t by metis
  have "filter (\<lambda>e. te_mode e = dir_mode) (map snd fs @ des) = des"
  proof -
    have "filter (\<lambda>e. te_mode e = dir_mode) (map snd fs) = []" using files by (intro filter_False) auto
    moreover have "filter (\<lambda>e. te_mode e = dir_mode) des = des" using des(3) by (intro filter_True) auto
    ultimately show ?thesis by (simp only: filter_append append_Nil)
  qed
  then have dirs: "mset (filter (\<lambda>e. te_mode e = dir_mode) t) = mset des"
    using filter_t by metis
  have len: "length des = length ds" using des(2) by (metis length_map)
  have child: "map (child_of ds) des = map snd ds"
  proof (rule nth_equalityI)
    fix i assume "i < length (map (child_of ds) des)"
    then have i: "i < length des" "i < length ds" using len by auto
    from des(2) i have "te_name (des ! i) = fst (ds ! i)" by (metis nth_map)
    moreover have "map_of ds (fst (ds ! i)) = Some (snd (ds ! i))" using i wf(2) by (simp add: map_of_is_SomeI)
    ultimately show "map (child_of ds) des ! i = map snd ds ! i" using i by (simp add: child_of_def)
  qed (use len in simp)
  then show "mset (map (child_of ds) (filter (\<lambda>e. te_mode e = dir_mode) t)) = mset (map snd ds)"
    using dirs by (metis mset_map)
  have "{e \<in> set t. te_mode e = dir_mode} = set des" using dirs by (metis mset_eq_setD set_filter)
  moreover have "map (\<lambda>e. (te_name e, child_of ds e)) des = ds"
    using des(2) child by (rule map_pair_eq)
  ultimately show "(\<lambda>e. (te_name e, child_of ds e)) ` {e \<in> set t. te_mode e = dir_mode} = set ds"
    by (metis list.set_map)
  have all_names: "map te_name (map snd fs @ des) = map fst fs @ map fst ds" using des(2) wf(3) by auto
  have "distinct (map te_name (map snd fs @ des))"
    unfolding all_names using wf(1,2) unclashed_node(1) [OF assms(3,4)] by simp
  then have names: "distinct (map te_name t)" using des(1) by (metis mset_eq_imp_distinct_iff mset_map)
  show "\<forall>e \<in> set t. te_mode e = dir_mode \<longrightarrow>
      ts_subtree S s t (te_name e) = Inr (tree_of S s e) \<and> stored S s (tree_of S s e) (child_of ds e)"
  proof (intro ballI impI)
    fix e assume e: "e \<in> set t" "te_mode e = dir_mode"
    with \<open>{e \<in> set t. te_mode e = dir_mode} = set des\<close> have "e \<in> set des" by blast
    then obtain i where i: "i < length des" "des ! i = e" unfolding in_set_conv_nth by blast
    with child len have "child_of ds e = snd (ds ! i)" by (metis length_map nth_map)
    with i len have "(e, child_of ds e) \<in> set (zip des (map snd ds))" by (auto simp: in_set_zip intro!: exI [of _ i])
    with des(4) obtain t' where "ts_get S s (te_hash e) = Inr t'" "stored S s t' (child_of ds e)" by blast
    moreover have "ts_subtree S s t (te_name e) = ts_get S s (te_hash e)"
      using assms(1) names e unfolding tree_store_ok_def by blast
    ultimately show "ts_subtree S s t (te_name e) = Inr (tree_of S s e) \<and> stored S s (tree_of S s e) (child_of ds e)"
      by (simp add: tree_of_def)
  qed
qed

section \<open>The loop on a stored tree\<close>

lemma files_image:
  assumes "X = set (map snd fs)" "\<forall>(b, e) \<in> set fs. te_name e = b"
  shows "(\<lambda>e. (path_in pre (te_name e), e\<lparr>te_name := path_in pre (te_name e)\<rparr>)) ` X =
    (\<lambda>(b, e). (path_in pre b, e\<lparr>te_name := path_in pre b\<rparr>)) ` set fs"
  unfolding assms(1) list.set_map image_image using assms(2) by (intro image_cong) auto

type_synonym node_frame = "string \<times> tree \<times> dir_node"

abbreviation frame :: "node_frame \<Rightarrow> string \<times> tree" where
  "frame f \<equiv> (fst f, fst (snd f))"

definition frame_ok :: "('s, 'e) tree_store \<Rightarrow> 's \<Rightarrow> node_frame \<Rightarrow> bool" where
  "frame_ok S s f \<longleftrightarrow> stored S s (fst (snd f)) (snd (snd f)) \<and> wf_node (snd (snd f)) \<and> unclashed (snd (snd f))"

abbreviation frame_set :: "node_frame \<Rightarrow> (string \<times> tree_entry) set" where
  "frame_set f \<equiv> node_set (fst f) (snd (snd f))"

definition sub_frames :: "('s, 'e) tree_store \<Rightarrow> 's \<Rightarrow> string \<Rightarrow> tree \<Rightarrow> (string \<times> dir_node) list \<Rightarrow> node_frame list" where
  "sub_frames S s pre t ds =
     map (\<lambda>e. (path_in pre (te_name e), tree_of S s e, child_of ds e)) (filter (\<lambda>e. te_mode e = dir_mode) t)"

lemma sub_frames_ok:
  assumes "tree_store_ok S" "stored S s t (DirNode fs ds)" "wf_node (DirNode fs ds)" "unclashed (DirNode fs ds)"
  shows "\<forall>f \<in> set (sub_frames S s pre t ds). frame_ok S s f"
    and "(\<Union>f \<in> set (sub_frames S s pre t ds). frame_set f) = (\<Union>(d, c) \<in> set ds. node_set (path_in pre d) c)"
    and "sum_list (map (\<lambda>f. node_weight (snd (snd f))) (sub_frames S s pre t ds)) < node_weight (DirNode fs ds)"
proof -
  note st = stored_tree [OF assms]
  have child: "(te_name e, child_of ds e) \<in> set ds" if "e \<in> set t" "te_mode e = dir_mode" for e
    using st(3) that by blast
  from assms(3) have wf: "\<forall>(d, c) \<in> set ds. wf_node c" by (simp add: wf_node_iff)
  show "\<forall>f \<in> set (sub_frames S s pre t ds). frame_ok S s f"
  proof
    fix f assume "f \<in> set (sub_frames S s pre t ds)"
    then obtain e where e: "e \<in> set t" "te_mode e = dir_mode"
      "f = (path_in pre (te_name e), tree_of S s e, child_of ds e)" by (auto simp: sub_frames_def)
    with st(4) child [OF e(1,2)] wf unclashed_node(2) [OF assms(3,4)] show "frame_ok S s f"
      by (auto simp: frame_ok_def)
  qed
  have "(\<Union>f \<in> set (sub_frames S s pre t ds). frame_set f) =
      (\<Union>(d, c) \<in> (\<lambda>e. (te_name e, child_of ds e)) ` {e \<in> set t. te_mode e = dir_mode}. node_set (path_in pre d) c)"
    by (auto simp: sub_frames_def)
  then show "(\<Union>f \<in> set (sub_frames S s pre t ds). frame_set f) = (\<Union>(d, c) \<in> set ds. node_set (path_in pre d) c)"
    unfolding st(3) .
  have "sum_list (map (\<lambda>f. node_weight (snd (snd f))) (sub_frames S s pre t ds)) =
      sum_mset (image_mset node_weight (mset (map (child_of ds) (filter (\<lambda>e. te_mode e = dir_mode) t))))"
    by (simp add: sub_frames_def sum_mset_sum_list [symmetric] multiset.map_comp comp_def)
  also have "\<dots> = sum_mset (image_mset node_weight (mset (map snd ds)))" unfolding st(2) ..
  also have "\<dots> = sum_list (map (\<lambda>(d, c). node_weight c) ds)"
    by (simp add: sum_mset_sum_list [symmetric] multiset.map_comp comp_def case_prod_unfold)
  finally show "sum_list (map (\<lambda>f. node_weight (snd (snd f))) (sub_frames S s pre t ds)) < node_weight (DirNode fs ds)"
    by simp
qed

lemma flatten_loop_stored:
  assumes "tree_store_ok S" "single_valued R"
  shows "\<forall>f \<in> set frs. frame_ok S s f \<Longrightarrow> set flat \<union> (\<Union>f \<in> set frs. frame_set f) \<subseteq> R \<Longrightarrow> distinct (map fst flat) \<Longrightarrow>
    \<exists>flat'. flatten_loop S s (map frame frs) flat = Some (Inr flat') \<and> distinct (map fst flat') \<and>
      set flat' = set flat \<union> (\<Union>f \<in> set frs. frame_set f)"
proof (induction "sum_list (map (\<lambda>f. node_weight (snd (snd f))) frs)" arbitrary: frs flat rule: less_induct)
  case less
  show ?case
  proof (cases frs rule: rev_cases)
    case Nil
    with less.prems show ?thesis by (simp add: flatten_loop.simps)
  next
    case (snoc frs0 f)
    obtain pre t fs ds where f: "f = (pre, t, DirNode fs ds)" by (cases f; cases "snd (snd f)") auto
    have ok: "stored S s t (DirNode fs ds)" "wf_node (DirNode fs ds)" "unclashed (DirNode fs ds)"
      using less.prems(1) snoc f by (auto simp: frame_ok_def)
    note st = stored_tree [OF assms(1) ok] and sub = sub_frames_ok [OF assms(1) ok, of pre]
    let ?k = "\<lambda>e. path_in pre (te_name e)" and ?v = "\<lambda>e. e\<lparr>te_name := path_in pre (te_name e)\<rparr>"
    let ?files = "filter (\<lambda>e. te_mode e \<noteq> dir_mode) t"
    let ?flat = "foldl (\<lambda>f e. AList.update (?k e) (?v e) f) flat ?files"
    have entries: "flatten_entries S s pre t t (map frame frs0) flat = Inr (map frame (frs0 @ sub_frames S s pre t ds), ?flat)"
      using flatten_entries_eq [of t S s t "tree_of S s" pre "map frame frs0" flat] st(4)
      by (simp add: sub_frames_def comp_def)
    have "set ?files = set (map snd fs)" using st(1) by (metis mset_eq_setD)
    moreover have "\<forall>(b, e) \<in> set fs. te_name e = b" using ok(2) by (auto simp: wf_node_iff)
    ultimately have files: "(\<lambda>e. (?k e, ?v e)) ` set ?files =
        (\<lambda>(b, e). (path_in pre b, e\<lparr>te_name := path_in pre b\<rparr>)) ` set fs" by (rule files_image)
    have node: "frame_set f = (\<lambda>e. (?k e, ?v e)) ` set ?files \<union> (\<Union>g \<in> set (sub_frames S s pre t ds). frame_set g)"
      unfolding files sub(2) f using node_set_node [OF ok(2), of pre] by simp
    with less.prems(2) snoc have R: "\<forall>e \<in> set ?files. (?k e, ?v e) \<in> R" "set flat \<subseteq> R" by auto
    note upd = foldl_update_set [OF assms(2) R less.prems(3)]
    have weight: "sum_list (map (\<lambda>f. node_weight (snd (snd f))) (frs0 @ sub_frames S s pre t ds)) <
        sum_list (map (\<lambda>f. node_weight (snd (snd f))) frs)"
      using sub(3) snoc f by simp
    have frames: "\<forall>g \<in> set (frs0 @ sub_frames S s pre t ds). frame_ok S s g" using less.prems(1) snoc sub(1) by auto
    have inside: "set ?flat \<union> (\<Union>g \<in> set (frs0 @ sub_frames S s pre t ds). frame_set g) \<subseteq> R"
      using less.prems(2) snoc node conjunct1 [OF upd] R by auto
    from less.hyps [OF weight frames inside conjunct2 [OF upd]]
    obtain flat' where flat': "flatten_loop S s (map frame (frs0 @ sub_frames S s pre t ds)) ?flat = Some (Inr flat')"
      "distinct (map fst flat')" "set flat' = set ?flat \<union> (\<Union>g \<in> set (frs0 @ sub_frames S s pre t ds). frame_set g)"
      by (elim exE conjE)
    have "flatten_loop S s (map frame frs) flat = Some (Inr flat')"
      using flat'(1) entries snoc f by (subst flatten_loop.simps) simp
    moreover have "set flat' = set flat \<union> (\<Union>g \<in> set frs. frame_set g)"
      unfolding flat'(3) conjunct1 [OF upd] using snoc node by auto
    ultimately show ?thesis using flat'(2) by blast
  qed
qed

section \<open>Writing a flat map and reading it back\<close>

text \<open>No path is a directory of another one.\<close>

definition clash_free :: "flat \<Rightarrow> bool" where
  "clash_free flat \<longleftrightarrow>
     list_all (\<lambda>(p, _). list_all (\<lambda>(q, _). \<not> strict_prefix (path_parts p) (path_parts q)) flat) flat"

definition flat_ok :: "flat \<Rightarrow> bool" where
  "flat_ok flat \<longleftrightarrow> distinct (map fst flat) \<and> clash_free flat \<and>
     list_all (\<lambda>(p, e). te_mode e \<noteq> dir_mode \<and> \<not> has_prefix p ''/'') flat"

text \<open>The entries under their full path, as \<open>FlattenTree\<close> names them.\<close>

definition named :: "flat \<Rightarrow> flat" where
  "named flat = map (\<lambda>(p, e). (p, e\<lparr>te_name := p\<rparr>)) flat"

lemma named_memI: "(p, e) \<in> set flat \<Longrightarrow> (p, e\<lparr>te_name := p\<rparr>) \<in> set (named flat)"
  by (force simp: named_def)

lemma foldl_path_in: "pre \<noteq> [] \<Longrightarrow> foldl path_in pre qs = join ''/'' (pre # qs)"
proof (induction qs arbitrary: pre)
  case (Cons q qs)
  from Cons.prems have "path_in pre q = pre @ ''/'' @ q" by (simp add: path_in_def)
  with Cons.IH [of "pre @ ''/'' @ q"] have "foldl path_in pre (q # qs) = join ''/'' ((pre @ ''/'' @ q) # qs)" by simp
  also have "\<dots> = join ''/'' (pre # q # qs)" by (cases qs) auto
  finally show ?case .
qed simp

lemma path_of_parts:
  assumes "\<not> has_prefix p ''/''"
  shows "foldl path_in [] (path_parts p) = p"
proof (cases "path_parts p")
  case (Cons q qs)
  have j: "join ''/'' (q # qs) = p" using join_split_on [of "CHR ''/''" p] Cons by simp
  show ?thesis
  proof (cases qs)
    case Nil
    with Cons j show ?thesis by (simp add: path_in_def)
  next
    case (Cons r rs)
    with j assms have "q \<noteq> []" by (auto simp: has_prefix_def)
    with \<open>path_parts p = q # qs\<close> j foldl_path_in [of q qs] show ?thesis by (simp add: path_in_def)
  qed
qed simp

lemma dir_tree_unclashed:
  assumes "flat_ok flat"
  shows "unclashed (dir_tree flat)"
  unfolding unclashed_def
proof (intro allI impI notI)
  fix qs assume "node_get (dir_tree flat) qs \<noteq> None" "node_dir (dir_tree flat) qs"
  moreover have "distinct (map fst flat)" using assms by (simp add: flat_ok_def)
  ultimately obtain p e q e' where "(p, e) \<in> set flat" "qs = path_parts p" "(q, e') \<in> set flat"
    "strict_prefix qs (path_parts q)" using dir_tree_get [of flat qs] dir_tree_dir [of flat qs] by fastforce
  with assms show False by (auto simp: flat_ok_def clash_free_def list_all_iff)
qed

lemma dir_tree_set:
  assumes "flat_ok flat"
  shows "node_set [] (dir_tree flat) = set (named flat)"
proof -
  have dist: "distinct (map fst flat)" using assms by (simp add: flat_ok_def)
  have path: "foldl path_in [] (path_parts p) = p" if "(p, e) \<in> set flat" for p e
    using assms that by (intro path_of_parts) (auto simp: flat_ok_def list_all_iff)
  show ?thesis
  proof (intro equalityI subsetI)
    fix x assume "x \<in> node_set [] (dir_tree flat)"
    then obtain qs e' where "node_get (dir_tree flat) qs = Some e'"
      and x: "x = (foldl path_in [] qs, e'\<lparr>te_name := foldl path_in [] qs\<rparr>)" unfolding node_set_def by blast
    then obtain p e where "(p, e) \<in> set flat" "qs = path_parts p" "e' = e\<lparr>te_name := last (path_parts p)\<rparr>"
      using dir_tree_get [OF dist] by blast
    with path x named_memI show "x \<in> set (named flat)" by simp
  next
    fix x assume "x \<in> set (named flat)"
    then obtain p e where pe: "(p, e) \<in> set flat" "x = (p, e\<lparr>te_name := p\<rparr>)" by (auto simp: named_def)
    then have "node_get (dir_tree flat) (path_parts p) = Some (e\<lparr>te_name := last (path_parts p)\<rparr>)"
      using dir_tree_get [OF dist] by blast
    then have "(p, (e\<lparr>te_name := last (path_parts p)\<rparr>)\<lparr>te_name := p\<rparr>) \<in> node_set [] (dir_tree flat)"
      using node_setI [of _ "path_parts p" _ "[]"] path [OF pe(1)] by fastforce
    with pe(2) show "x \<in> node_set [] (dir_tree flat)" by simp
  qed
qed

lemma map_fst_named [simp]: "map fst (named flat) = map fst flat"
  by (simp add: named_def comp_def case_prod_unfold)

lemma single_valued_alist: "distinct (map fst al) \<Longrightarrow> single_valued (set al)"
  by (auto intro!: single_valuedI simp: eq_key_imp_eq_value)

lemma flatten_written_later:
  assumes "tree_store_ok S" "flat_ok flat" "write_tree_from_flat S flat s = (Inr h, s1)" "store_grows S s1 s'"
  obtains t flat' where "ts_get S s' h = Inr t" "flatten_tree S s' t = Some (Inr flat')"
    "distinct (map fst flat')" "set flat' = set (named flat)"
proof -
  from write_stored(1) [OF assms(3) [unfolded write_tree_from_flat_def] assms(1)]
  obtain t where t1: "ts_get S s1 h = Inr t" "stored S s1 t (dir_tree flat)" by blast
  then have t: "ts_get S s' h = Inr t" "stored S s' t (dir_tree flat)"
    using assms(4) stored_mono by (auto simp: store_grows_def)
  have "wf_node (dir_tree flat)" using assms(2) by (intro dir_tree_wf) (auto simp: flat_ok_def list_all_iff)
  with t(2) dir_tree_unclashed [OF assms(2)] have ok: "frame_ok S s' ([], t, dir_tree flat)"
    by (simp add: frame_ok_def)
  have "distinct (map fst (named flat))" using assms(2) by (simp add: flat_ok_def)
  note R = single_valued_alist [OF this]
  from flatten_loop_stored [OF assms(1) R, of "[([], t, dir_tree flat)]" s' "[]"] ok dir_tree_set [OF assms(2)]
  obtain flat' where "flatten_loop S s' [([], t)] [] = Some (Inr flat')" "distinct (map fst flat')"
    "set flat' = set (named flat)" by auto
  then show ?thesis using that [OF t(1)] by (simp add: flatten_tree_def)
qed

lemmas flatten_written = flatten_written_later [OF _ _ _ store_grows_refl]

text \<open>C14: The round trip of a flat tree: what \<^verbatim>\<open>WriteTreeFromFlat\<close> wrote, \<^verbatim>\<open>FlattenTree\<close> reads back,
  entry by entry, from the hash it returned (and the loop ends) - provided no path is a directory of
  another one, none starts with a slash, and none is an entry of directory mode.\<close>

theorem flatten_write_roundtrip:
  assumes "tree_store_ok S" "flat_ok flat" "write_tree_from_flat S flat s = (Inr h, s')"
  shows "\<exists>t flat'. ts_get S s' h = Inr t \<and> flatten_tree S s' t = Some (Inr flat') \<and>
    distinct (map fst flat') \<and> map_of flat' = map_of (named flat)"
proof -
  obtain t flat' where "ts_get S s' h = Inr t" "flatten_tree S s' t = Some (Inr flat')"
    and d: "distinct (map fst flat')" and "set flat' = set (named flat)"
    using flatten_written [OF assms] by blast
  moreover from this assms(2) have "map_of flat' = map_of (named flat)"
    by (subst map_of_inject_set) (auto simp: flat_ok_def)
  ultimately show ?thesis by blast
qed

text \<open>A store of finitely many known trees, for concrete runs.\<close>

definition table_store :: "(tree \<times> hash) list \<Rightarrow> (unit, string) tree_store" where
  "table_store tab =
     (let get = (\<lambda>h. case map_of (map prod.swap tab) h of None \<Rightarrow> Inl ''missing'' | Some t \<Rightarrow> Inr t) in
      \<lparr>ts_put = (\<lambda>s es. (case map_of tab es of None \<Rightarrow> Inl ''unknown tree'' | Some h \<Rightarrow> Inr h, s)),
       ts_get = (\<lambda>_. get),
       ts_subtree = (\<lambda>_ es name.
         case find (\<lambda>e. te_name e = name \<and> te_mode e = dir_mode) es of
           None \<Rightarrow> Inl ''no directory'' | Some e \<Rightarrow> get (te_hash e))\<rparr>)"

lemma find_unique_name:
  "distinct (map te_name es) \<Longrightarrow> e \<in> set es \<Longrightarrow> te_mode e = dir_mode \<Longrightarrow>
    find (\<lambda>x. te_name x = te_name e \<and> te_mode x = dir_mode) es = Some e"
  by (induction es) (auto simp: image_iff)

lemma table_store_ok:
  assumes "distinct (map snd tab)"
  shows "tree_store_ok (table_store tab)"
proof -
  have "map_of (map prod.swap tab) h = Some t" if "map_of tab t = Some h" for t h
  proof -
    from that have "(t, h) \<in> set tab" by (rule map_of_SomeD)
    then have "(h, t) \<in> set (map prod.swap tab)" by force
    moreover have "distinct (map fst (map prod.swap tab))" using assms by (simp add: comp_def)
    ultimately show ?thesis by simp
  qed
  then show ?thesis
    unfolding tree_store_ok_def by (auto simp: table_store_def Let_def find_unique_name split: option.splits)
qed

definition demo_file :: "string \<Rightarrow> hash \<Rightarrow> tree_entry" where
  "demo_file name h = \<lparr>te_name = name, te_mode = 33188, te_hash = h\<rparr>"

definition demo_flat :: flat where
  "demo_flat = [(''src/a.go'', demo_file ''src/a.go'' ''h1''), (''README'', demo_file ''README'' ''h2'')]"

definition demo_trees :: "(tree \<times> hash) list" where
  "demo_trees =
     [([demo_file ''a.go'' ''h1''], ''t1''),
      ([demo_file ''README'' ''h2'', \<lparr>te_name = ''src'', te_mode = dir_mode, te_hash = ''t1''\<rparr>], ''t2'')]"

theorem flatten_write_roundtrip_witness:
  "\<exists>t flat'. ts_get (table_store demo_trees) () ''t2'' = Inr t \<and>
    flatten_tree (table_store demo_trees) () t = Some (Inr flat') \<and>
    distinct (map fst flat') \<and> map_of flat' = map_of (named demo_flat)"
proof (rule flatten_write_roundtrip)
  show "tree_store_ok (table_store demo_trees)" by (rule table_store_ok) code_simp
  show "flat_ok demo_flat" by code_simp
  show "write_tree_from_flat (table_store demo_trees) demo_flat () = (Inr ''t2'', ())" by code_simp
qed

section \<open>The hash does not depend on the iteration order\<close>

interpretation tree_order: comparator tree_less
  unfolding tree_less_def by (rule comparator_key)

text \<open>The database is content-addressed: equal trees have equal hashes.\<close>

definition content_addressed :: "('s, 'e) tree_store \<Rightarrow> bool" where
  "content_addressed S \<longleftrightarrow>
    (\<forall>s1 s2 es h1 h2 t1 t2. ts_put S s1 es = (Inr h1, t1) \<longrightarrow> ts_put S s2 es = (Inr h2, t2) \<longrightarrow> h1 = h2)"

lemma write_dirs_hashes:
  "write_dirs S ds es s = (Inr t, s') \<Longrightarrow> \<exists>des. t = es @ des \<and> map te_name des = map fst ds \<and>
    (\<forall>e \<in> set des. te_mode e = dir_mode) \<and>
    (\<forall>(e, c) \<in> set (zip des (map snd ds)). \<exists>s0 s1. write_dir S c s0 = (Inr (te_hash e), s1))"
proof (induction ds arbitrary: es s)
  case (Cons x ds)
  obtain name child where x: "x = (name, child)" by (cases x)
  obtain w s1 where w: "write_dir S child s = (w, s1)" by (cases "write_dir S child s")
  with Cons.prems x obtain h where h: "w = Inr h" by (cases w) auto
  let ?e = "\<lparr>te_name = name, te_mode = dir_mode, te_hash = h\<rparr>"
  from Cons.prems x w h have "write_dirs S ds (es @ [?e]) s1 = (Inr t, s')" by simp
  from Cons.IH [OF this] obtain des where "t = (es @ [?e]) @ des" "map te_name des = map fst ds"
    "\<forall>e \<in> set des. te_mode e = dir_mode"
    "\<forall>(e, c) \<in> set (zip des (map snd ds)). \<exists>s0 s1. write_dir S c s0 = (Inr (te_hash e), s1)" by blast
  with x w h show ?case by (intro exI [of _ "?e # des"]) auto
qed simp

definition same_node :: "dir_node \<Rightarrow> dir_node \<Rightarrow> bool" where
  "same_node n m \<longleftrightarrow> (\<forall>qs. node_get n qs = node_get m qs \<and> node_dir n qs = node_dir m qs)"

definition plain_node :: "dir_node \<Rightarrow> bool" where
  "plain_node n \<longleftrightarrow> (\<forall>qs. node_get n qs \<noteq> None \<or> node_dir n qs \<longrightarrow> (\<forall>x \<in> set qs. CHR ''/'' \<notin> set x))"

lemma node_get_child:
  "distinct (map fst ds) \<Longrightarrow> (d, c) \<in> set ds \<Longrightarrow> qs \<noteq> [] \<Longrightarrow> node_get (DirNode fs ds) (d # qs) = node_get c qs"
  by (cases qs) auto

lemma same_node_child:
  assumes "wf_node (DirNode fs ds)" "wf_node (DirNode gs es)" "same_node (DirNode fs ds) (DirNode gs es)"
    "(d, c) \<in> set ds" "(d, c') \<in> set es"
  shows "same_node c c'"
  unfolding same_node_def
proof
  fix qs
  from assms(1,2) have dist: "distinct (map fst ds)" "distinct (map fst es)" by (auto simp: wf_node_iff)
  show "node_get c qs = node_get c' qs \<and> node_dir c qs = node_dir c' qs"
  proof (cases "qs = []")
    case False
    then show ?thesis
      using assms(3) [unfolded same_node_def, rule_format, of "d # qs"]
        node_get_child [OF dist(1) assms(4)] node_get_child [OF dist(2) assms(5)]
        node_dir_child [OF dist(1) assms(4)] node_dir_child [OF dist(2) assms(5)] by simp
  qed simp
qed

lemma same_node_keys:
  assumes "wf_node (DirNode fs ds)" "wf_node (DirNode gs es)" "same_node (DirNode fs ds) (DirNode gs es)"
  shows "mset fs = mset gs" "set (map fst ds) = set (map fst es)"
proof -
  from assms(1,2) have dist: "distinct (map fst fs)" "distinct (map fst gs)" by (auto simp: wf_node_iff)
  have "map_of fs b = map_of gs b" for b
    using assms(3) [unfolded same_node_def, rule_format, of "[b]"] by simp
  then have "set fs = set gs" using map_of_inject_set [OF dist] by blast
  then show "mset fs = mset gs" using dist by (simp add: distinct_map set_eq_iff_mset_eq_distinct)
  have "(map_of ds d \<noteq> None) = (map_of es d \<noteq> None)" for d
    using assms(3) [unfolded same_node_def, rule_format, of "[d]"] by simp
  then show "set (map fst ds) = set (map fst es)" by (auto simp: map_of_eq_None_iff)
qed

lemma plain_node_child:
  assumes "wf_node (DirNode fs ds)" "plain_node (DirNode fs ds)" "(d, c) \<in> set ds"
  shows "plain_node c"
  unfolding plain_node_def
proof (intro allI impI)
  fix qs assume q: "node_get c qs \<noteq> None \<or> node_dir c qs"
  then have "qs \<noteq> []" by auto
  with q assms(1,3) have "node_get (DirNode fs ds) (d # qs) \<noteq> None \<or> node_dir (DirNode fs ds) (d # qs)"
    by (simp add: wf_node_iff node_get_child node_dir_child)
  with assms(2) have "\<forall>x \<in> set (d # qs). CHR ''/'' \<notin> set x" unfolding plain_node_def by blast
  then show "\<forall>x \<in> set qs. CHR ''/'' \<notin> set x" by simp
qed

text \<open>Entries of one directory are told apart by their sort keys.\<close>

lemma tree_less_separates:
  assumes "distinct (map fst fs)" "\<forall>(b, e) \<in> set fs. te_name e = b \<and> te_mode e \<noteq> dir_mode \<and> CHR ''/'' \<notin> set b"
    "distinct (map te_name des)" "\<forall>e \<in> set des. te_mode e = dir_mode"
    "a \<in> set (map snd fs @ des)" "b \<in> set (map snd fs @ des)" "\<not> tree_less a b" "\<not> tree_less b a"
  shows "a = b"
proof -
  from assms(7,8) have key: "tree_sort_key a = tree_sort_key b" by (simp add: tree_less_def)
  have leaf: "te_mode x \<noteq> dir_mode \<and> (te_name x, x) \<in> set fs \<and> CHR ''/'' \<notin> set (tree_sort_key x)"
    if "x \<in> set (map snd fs)" for x using that assms(2) by (auto simp: tree_sort_key_def)
  have dir: "CHR ''/'' \<in> set (tree_sort_key x) \<and> tree_sort_key x = te_name x @ ''/''" if "x \<in> set des" for x
    using that assms(4) by (simp add: tree_sort_key_def)
  consider "a \<in> set (map snd fs)" "b \<in> set (map snd fs)" | "a \<in> set des" "b \<in> set des"
    | "a \<in> set (map snd fs)" "b \<in> set des" | "a \<in> set des" "b \<in> set (map snd fs)"
    using assms(5,6) by auto
  then show ?thesis
  proof cases
    case 1
    with leaf key have "te_name a = te_name b" by (simp add: tree_sort_key_def)
    with 1 leaf assms(1) show ?thesis by (metis eq_key_imp_eq_value)
  next
    case 2
    with dir key have "te_name a = te_name b" by simp
    with 2 assms(3) show ?thesis by (auto simp: distinct_map dest: inj_onD)
  qed (use leaf dir key in metis)+
qed

lemma zip_partner:
  assumes "map te_name des = map fst ds" "e \<in> set des"
  shows "\<exists>c. (te_name e, c) \<in> set ds \<and> (e, c) \<in> set (zip des (map snd ds))"
proof -
  have len: "length des = length ds" using assms(1) by (metis length_map)
  obtain i where i: "i < length des" "des ! i = e" using assms(2) unfolding in_set_conv_nth by blast
  have "te_name e = fst (ds ! i)" using assms(1) i len by (metis nth_map)
  then have "(te_name e, snd (ds ! i)) \<in> set ds" using i len by (metis nth_mem prod.collapse)
  moreover have "(e, snd (ds ! i)) \<in> set (zip des (map snd ds))"
    using i len by (auto simp: in_set_zip intro!: exI [of _ i])
  ultimately show ?thesis by blast
qed

lemma weight_member: "(d, c) \<in> set ds \<Longrightarrow> node_weight c < node_weight (DirNode fs ds)"
  by (induction ds) auto

lemma plain_file:
  assumes "plain_node (DirNode fs ds)" "(b, e) \<in> set fs" "distinct (map fst fs)"
  shows "CHR ''/'' \<notin> set b"
  using assms(1) [unfolded plain_node_def, rule_format, of "[b]"] assms(2,3) by simp

lemma write_dir_same_hash:
  assumes "content_addressed S"
  shows "wf_node n \<Longrightarrow> wf_node m \<Longrightarrow> plain_node n \<Longrightarrow> same_node n m \<Longrightarrow>
    write_dir S n s = (Inr h, s') \<Longrightarrow> write_dir S m s2 = (Inr h2, s2') \<Longrightarrow> h = h2"
proof (induction "node_weight n" arbitrary: n m s h s' s2 h2 s2' rule: less_induct)
  case less
  obtain fs ds where n: "n = DirNode fs ds" by (cases n)
  obtain gs es where m: "m = DirNode gs es" by (cases m)
  note wf = less.prems(1) [unfolded n] less.prems(2) [unfolded m]
  note same = less.prems(4) [unfolded n m]
  from less.prems(5) n obtain ent s0 where ent: "write_dirs S ds (map snd fs) s = (Inr ent, s0)"
    "ts_put S s0 (sort_slice tree_less ent) = (Inr h, s')" by (auto split: prod.splits sum.splits)
  from less.prems(6) m obtain ent2 s3 where ent2: "write_dirs S es (map snd gs) s2 = (Inr ent2, s3)"
    "ts_put S s3 (sort_slice tree_less ent2) = (Inr h2, s2')" by (auto split: prod.splits sum.splits)
  obtain des where des: "ent = map snd fs @ des" "map te_name des = map fst ds" "\<forall>e \<in> set des. te_mode e = dir_mode"
    "\<forall>(e, c) \<in> set (zip des (map snd ds)). \<exists>s0 s1. write_dir S c s0 = (Inr (te_hash e), s1)"
    using write_dirs_hashes [OF ent(1)] by blast
  obtain des2 where des2: "ent2 = map snd gs @ des2" "map te_name des2 = map fst es" "\<forall>e \<in> set des2. te_mode e = dir_mode"
    "\<forall>(e, c) \<in> set (zip des2 (map snd es)). \<exists>s0 s1. write_dir S c s0 = (Inr (te_hash e), s1)"
    using write_dirs_hashes [OF ent2(1)] by blast
  have hash: "te_hash e = te_hash e'" if e: "e \<in> set des" "e' \<in> set des2" "te_name e = te_name e'" for e e'
  proof -
    obtain c where c: "(te_name e, c) \<in> set ds" "(e, c) \<in> set (zip des (map snd ds))"
      using zip_partner [OF des(2) e(1)] by blast
    obtain c' where c': "(te_name e', c') \<in> set es" "(e', c') \<in> set (zip des2 (map snd es))"
      using zip_partner [OF des2(2) e(2)] by blast
    have "node_weight c < node_weight n" using weight_member [OF c(1)] n by simp
    moreover have "wf_node c" "wf_node c'" using wf c(1) c'(1) by (auto simp: wf_node_iff)
    moreover have "plain_node c" using plain_node_child [OF wf(1) less.prems(3) [unfolded n] c(1)] .
    moreover have "same_node c c'" using same_node_child [OF wf same c(1)] c'(1) e(3) by simp
    moreover obtain u v u' v' where "write_dir S c u = (Inr (te_hash e), v)" "write_dir S c' u' = (Inr (te_hash e'), v')"
      using c(2) c'(2) des(4) des2(4) by blast
    ultimately show ?thesis by (rule less.hyps)
  qed
  have names: "distinct (map te_name des)" "distinct (map te_name des2)"
    using des(2) des2(2) wf by (simp_all add: wf_node_iff)
  have keys: "te_name ` set des = te_name ` set des2"
    using same_node_keys(2) [OF wf same] des(2) des2(2) by (metis list.set_map)
  have "set des = set des2"
  proof (intro equalityI subsetI)
    fix e assume e: "e \<in> set des"
    with keys obtain e' where e': "e' \<in> set des2" "te_name e = te_name e'" by (metis imageE imageI)
    with e hash des(3) des2(3) have "e = e'" by (simp add: tree_entry.equality)
    with e' show "e \<in> set des2" by simp
  next
    fix e' assume e': "e' \<in> set des2"
    with keys obtain e where e: "e \<in> set des" "te_name e = te_name e'" by (metis imageE imageI)
    with e' hash des(3) des2(3) have "e = e'" by (simp add: tree_entry.equality)
    with e show "e' \<in> set des" by simp
  qed
  then have "mset des = mset des2" using names by (simp add: distinct_map set_eq_iff_mset_eq_distinct)
  moreover have "mset (map snd fs) = mset (map snd gs)" using same_node_keys(1) [OF wf same] by simp
  ultimately have "mset ent = mset ent2" unfolding des(1) des2(1) by simp
  moreover have "\<forall>(b, e) \<in> set fs. te_name e = b \<and> te_mode e \<noteq> dir_mode \<and> CHR ''/'' \<notin> set b"
    using wf(1) less.prems(3) n plain_file by (auto simp: wf_node_iff)
  moreover have "distinct (map fst fs)" using wf(1) by (simp add: wf_node_iff)
  ultimately have "sort_slice tree_less ent = sort_slice tree_less ent2"
    using tree_less_separates [of fs des] names(1) des(1,3) by (intro tree_order.sort_slice_unique) blast+
  with ent(2) ent2(2) assms show ?case unfolding content_addressed_def by metis
qed

lemma dir_tree_plain:
  assumes "distinct (map fst flat)"
  shows "plain_node (dir_tree flat)"
  unfolding plain_node_def
proof (intro allI impI)
  fix qs assume "node_get (dir_tree flat) qs \<noteq> None \<or> node_dir (dir_tree flat) qs"
  then obtain p where "set qs \<subseteq> set (path_parts p)"
  proof
    assume "node_get (dir_tree flat) qs \<noteq> None"
    then obtain p where "qs = path_parts p" using dir_tree_get [OF assms] by blast
    then show ?thesis using that by blast
  next
    assume "node_dir (dir_tree flat) qs"
    then obtain p where "strict_prefix qs (path_parts p)" unfolding dir_tree_dir by blast
    then show ?thesis using that set_mono_prefix strict_prefixE by (metis prefix_order.less_imp_le)
  qed
  then show "\<forall>x \<in> set qs. CHR ''/'' \<notin> set x" using split_on_no_sep by blast
qed

lemma dir_tree_same:
  assumes "distinct (map fst flat)" "mset flat = mset flat2"
  shows "same_node (dir_tree flat) (dir_tree flat2)"
proof -
  from assms have "distinct (map fst flat2)" "set flat = set flat2"
    by (metis mset_eq_imp_distinct_iff mset_map, metis mset_eq_setD)
  then have "node_get (dir_tree flat) qs = Some e \<longleftrightarrow> node_get (dir_tree flat2) qs = Some e" for qs e
    by (simp add: dir_tree_get assms(1))
  then have "node_get (dir_tree flat) qs = node_get (dir_tree flat2) qs" for qs
    by (metis not_Some_eq)
  with \<open>set flat = set flat2\<close> show ?thesis by (simp add: same_node_def dir_tree_dir)
qed

lemma write_tree_hash_unique:
  assumes "content_addressed S" "distinct (map fst flat)" "list_all (\<lambda>(_, e). te_mode e \<noteq> dir_mode) flat"
    "mset flat2 = mset flat"
    "write_tree_from_flat S flat s = (Inr h, s')" "write_tree_from_flat S flat2 s2 = (Inr h2, s2')"
  shows "h = h2"
proof (rule write_dir_same_hash [OF assms(1)])
  have "set flat2 = set flat" using assms(4) by (metis mset_eq_setD)
  with assms(3) show "wf_node (dir_tree flat)" "wf_node (dir_tree flat2)"
    by (auto intro!: dir_tree_wf simp: list_all_iff)
  show "plain_node (dir_tree flat)" by (rule dir_tree_plain [OF assms(2)])
  show "same_node (dir_tree flat) (dir_tree flat2)" using dir_tree_same assms(2,4) by metis
  show "write_dir S (dir_tree flat) s = (Inr h, s')" "write_dir S (dir_tree flat2) s2 = (Inr h2, s2')"
    using assms(5,6) by (simp_all add: write_tree_from_flat_def)
qed

text \<open>The hash of a written tree does not depend on the order in which the maps are iterated: two
  iterations of the same map, over a content-addressed database in any two states, give the same tree
  hash whenever both succeed.\<close>

theorem write_tree_deterministic:
  assumes "content_addressed S" "distinct (map fst flat)" "list_all (\<lambda>(_, e). te_mode e \<noteq> dir_mode) flat"
    "mset flat2 = mset flat"
    "write_tree_from_flat S flat s = (Inr h, s')" "write_tree_from_flat S flat2 s2 = (Inr h2, s2')"
  shows "h = h2"
  by (rule write_tree_hash_unique [OF assms])

lemma table_store_content_addressed: "content_addressed (table_store tab)"
  by (auto simp: content_addressed_def table_store_def Let_def split: option.splits)

theorem write_tree_deterministic_witness:
  "fst (write_tree_from_flat (table_store demo_trees) (rev demo_flat) ()) = Inr ''t2''"
proof -
  have "write_tree_from_flat (table_store demo_trees) demo_flat () = (Inr ''t2'', ())" by code_simp
  moreover have h: "write_tree_from_flat (table_store demo_trees) (rev demo_flat) () =
      (Inr (projr (fst (write_tree_from_flat (table_store demo_trees) (rev demo_flat) ()))), ())" by code_simp
  moreover have "distinct (map fst demo_flat)" "list_all (\<lambda>(_, e). te_mode e \<noteq> dir_mode) demo_flat" by code_simp+
  ultimately have "''t2'' = projr (fst (write_tree_from_flat (table_store demo_trees) (rev demo_flat) ()))"
    using write_tree_deterministic [OF table_store_content_addressed, of demo_flat "rev demo_flat"] by simp
  with h show ?thesis by (metis fst_conv)
qed

end
