(* ===== verification/Merge_Tree.thy ===== *)
theory Merge_Tree
  imports Merge_Text Git_Tree
begin

text \<open>
  The three-way merge of git trees (\<^verbatim>\<open>src/src/upstream/merge/tree.go\<close>): \<open>Trees\<close> decides every path of the
  base, the fork and the upstream tree under a policy, and \<open>mergeBlobs\<close> joins two texts.

  The decision for one path is \<open>decide_path\<close>, the switch of the loop as a function of the three
  entries.  The loop visits the paths in an order of its own (Go maps), which is an argument.  The
  object database gains the operations on blobs.  \<^const>\<open>None\<close> is a run that panics or does not return.
\<close>

section \<open>Policies and decisions\<close>

type_synonym policy = "string \<Rightarrow> string"

definition take_merge :: string where "take_merge = ''merge''"
definition take_fork :: string where "take_fork = ''fork''"
definition take_upstream :: string where "take_upstream = ''upstream''"
definition take_review :: string where "take_review = ''review''"

definition same_entry :: "tree_entry option \<Rightarrow> tree_entry option \<Rightarrow> bool" where
  "same_entry x y \<longleftrightarrow>
     (case (x, y) of
        (None, None) \<Rightarrow> True
      | (Some e, Some f) \<Rightarrow> te_hash e = te_hash f \<and> te_mode e = te_mode f
      | _ \<Rightarrow> False)"

datatype decision =
    Take "tree_entry option"
  | Hold "tree_entry option"
  | Override "tree_entry option"
  | Conflict
  | MergeLines

definition decide_path ::
  "policy \<Rightarrow> bool \<Rightarrow> string \<Rightarrow> tree_entry option \<Rightarrow> tree_entry option \<Rightarrow> tree_entry option \<Rightarrow> decision" where
  "decide_path policy hold_untouched p be fe ue =
     (if same_entry fe ue then Take fe
      else if same_entry ue be then Take fe
      else if same_entry fe be then
        (if policy p = take_fork then (if hold_untouched then Hold fe else Take ue)
         else if policy p = take_review then Conflict
         else Take ue)
      else if policy p = take_fork then Hold fe
      else if policy p = take_upstream then Override ue
      else if policy p = take_review then Conflict
      else
        (case (fe, ue) of
           (Some f, Some u) \<Rightarrow>
             if te_mode f \<noteq> te_mode u \<or> (case be of None \<Rightarrow> False | Some b \<Rightarrow> te_mode b \<noteq> te_mode f)
             then Conflict else MergeLines
         | _ \<Rightarrow> Conflict))"

section \<open>Blobs\<close>

record ('s, 'e) git_repo =
  rp_trees :: "('s, 'e) tree_store"
  rp_read :: "'s \<Rightarrow> hash \<Rightarrow> 'e + string"
  rp_write :: "'s \<Rightarrow> string \<Rightarrow> ('e + hash) \<times> 's"

type_synonym differ = "string \<Rightarrow> string \<Rightarrow> edit list"

text \<open>\<open>mergeBlobs\<close>: the hash of the merged blob, or \<^term>\<open>Inr None\<close> when it is not merged.\<close>

definition merge_blobs ::
  "differ \<Rightarrow> ('s, 'e) git_repo \<Rightarrow> tree_entry option \<Rightarrow> tree_entry \<Rightarrow> tree_entry \<Rightarrow> 's \<Rightarrow> (('e + hash option) \<times> 's) option" where
  "merge_blobs diff R be oe te s =
     (case (case be of None \<Rightarrow> Inr [] | Some b \<Rightarrow> rp_read R s (te_hash b)) of
        Inl err \<Rightarrow> Some (Inl err, s)
      | Inr base \<Rightarrow>
      (case rp_read R s (te_hash oe) of
        Inl err \<Rightarrow> Some (Inl err, s)
      | Inr ours \<Rightarrow>
      (case rp_read R s (te_hash te) of
        Inl err \<Rightarrow> Some (Inl err, s)
      | Inr theirs \<Rightarrow>
          if list_ex (\<lambda>d. CHR 0x00 \<in> set d) [base, ours, theirs] then Some (Inr None, s)
          else
            (case merge_text diff base ours theirs of
               None \<Rightarrow> None
             | Some (text, ok) \<Rightarrow>
                 if \<not> ok then Some (Inr None, s)
                 else
                   (case rp_write R s text of
                      (Inl err, s') \<Rightarrow> Some (Inl err, s')
                    | (Inr h, s') \<Rightarrow> Some (Inr (Some h), s'))))))"

section \<open>Trees\<close>

text \<open>\<open>Result\<close>; \<^const>\<open>None\<close> is the zero hash.\<close>

record join_result =
  jr_tree :: "hash option"
  jr_conflicts :: "string list"
  jr_held :: "string list"
  jr_overridden :: "string list"

definition empty_join :: join_result where
  "empty_join = \<lparr>jr_tree = None, jr_conflicts = [], jr_held = [], jr_overridden = []\<rparr>"

datatype 'e tree_error = SubtreeError string 'e | BlobError string 'e | WriteTreeError 'e

definition keep_entry :: "string \<Rightarrow> tree_entry option \<Rightarrow> flat \<Rightarrow> flat" where
  "keep_entry p e merged = (case e of None \<Rightarrow> merged | Some x \<Rightarrow> AList.update p x merged)"

record ('s, 'e) merge_env =
  me_diff :: differ
  me_repo :: "('s, 'e) git_repo"
  me_policy :: policy
  me_hold :: bool
  me_base :: flat
  me_fork :: flat
  me_upstream :: flat

definition path_decision :: "('s, 'e) merge_env \<Rightarrow> string \<Rightarrow> decision" where
  "path_decision E p =
     decide_path (me_policy E) (me_hold E) p (map_of (me_base E) p) (map_of (me_fork E) p) (map_of (me_upstream E) p)"

text \<open>One turn of the loop over the paths.\<close>

definition merge_path ::
  "('s, 'e) merge_env \<Rightarrow> string \<Rightarrow> flat \<times> join_result \<Rightarrow> 's \<Rightarrow> (('e tree_error + flat \<times> join_result) \<times> 's) option" where
  "merge_path E p acc s =
     (case acc of (merged, res) \<Rightarrow>
        (case path_decision E p of
           Take e \<Rightarrow> Some (Inr (keep_entry p e merged, res), s)
         | Hold e \<Rightarrow> Some (Inr (keep_entry p e merged, res\<lparr>jr_held := jr_held res @ [p]\<rparr>), s)
         | Override e \<Rightarrow> Some (Inr (keep_entry p e merged, res\<lparr>jr_overridden := jr_overridden res @ [p]\<rparr>), s)
         | Conflict \<Rightarrow> Some (Inr (merged, res\<lparr>jr_conflicts := jr_conflicts res @ [p]\<rparr>), s)
         | MergeLines \<Rightarrow>
             (case (map_of (me_fork E) p, map_of (me_upstream E) p) of
                (Some fe, Some ue) \<Rightarrow>
                  (case merge_blobs (me_diff E) (me_repo E) (map_of (me_base E) p) fe ue s of
                     None \<Rightarrow> None
                   | Some (Inl err, s') \<Rightarrow> Some (Inl (BlobError p err), s')
                   | Some (Inr None, s') \<Rightarrow> Some (Inr (merged, res\<lparr>jr_conflicts := jr_conflicts res @ [p]\<rparr>), s')
                   | Some (Inr (Some h), s') \<Rightarrow>
                       Some (Inr (AList.update p \<lparr>te_name = p, te_mode = te_mode fe, te_hash = h\<rparr> merged, res), s'))
              | _ \<Rightarrow> None)))"

fun merge_paths ::
  "('s, 'e) merge_env \<Rightarrow> string list \<Rightarrow> flat \<times> join_result \<Rightarrow> 's \<Rightarrow> (('e tree_error + flat \<times> join_result) \<times> 's) option" where
  "merge_paths E [] acc s = Some (Inr acc, s)"
| "merge_paths E (p # ps) acc s =
     (case merge_path E p acc s of
        None \<Rightarrow> None
      | Some (Inl err, s') \<Rightarrow> Some (Inl err, s')
      | Some (Inr acc', s') \<Rightarrow> merge_paths E ps acc' s')"

definition sort_result :: "join_result \<Rightarrow> join_result" where
  "sort_result res =
     res\<lparr>jr_conflicts := sort_strings (jr_conflicts res), jr_held := sort_strings (jr_held res),
       jr_overridden := sort_strings (jr_overridden res)\<rparr>"

definition all_paths :: "flat \<Rightarrow> flat \<Rightarrow> flat \<Rightarrow> string list" where
  "all_paths b f u = remdups (map fst b @ map fst f @ map fst u)"

definition merge_flats ::
  "('s, 'e) merge_env \<Rightarrow> (string list \<Rightarrow> string list) \<Rightarrow> 's \<Rightarrow> (('e tree_error + join_result) \<times> 's) option" where
  "merge_flats E order s =
     (case merge_paths E (order (all_paths (me_base E) (me_fork E) (me_upstream E))) ([], empty_join) s of
        None \<Rightarrow> None
      | Some (Inl err, s') \<Rightarrow> Some (Inl err, s')
      | Some (Inr (merged, res), s') \<Rightarrow>
          (let res = sort_result res in
           if jr_conflicts res \<noteq> [] then Some (Inr res, s')
           else
             (case write_tree_from_flat (rp_trees (me_repo E)) merged s' of
                (Inl err, s'') \<Rightarrow> Some (Inl (WriteTreeError err), s'')
              | (Inr h, s'') \<Rightarrow> Some (Inr (res\<lparr>jr_tree := Some h\<rparr>), s''))))"

text \<open>\<open>flat\<close>: a nil tree is an empty one.\<close>

definition flat_of :: "('s, 'e) git_repo \<Rightarrow> 's \<Rightarrow> tree option \<Rightarrow> ('e tree_error + flat) option" where
  "flat_of R s t =
     (case t of
        None \<Rightarrow> Some (Inr [])
      | Some es \<Rightarrow>
          map_option (\<lambda>r. case r of Inl (p, err) \<Rightarrow> Inl (SubtreeError p err) | Inr fl \<Rightarrow> Inr fl)
            (flatten_tree (rp_trees R) s es))"

definition merge_trees ::
  "differ \<Rightarrow> ('s, 'e) git_repo \<Rightarrow> (string list \<Rightarrow> string list) \<Rightarrow> tree option \<Rightarrow> tree option \<Rightarrow> tree option
     \<Rightarrow> policy option \<Rightarrow> bool \<Rightarrow> 's \<Rightarrow> (('e tree_error + join_result) \<times> 's) option" where
  "merge_trees diff R order base fork upstream policy hold_untouched s =
     (case flat_of R s base of
        None \<Rightarrow> None
      | Some (Inl err) \<Rightarrow> Some (Inl err, s)
      | Some (Inr b) \<Rightarrow>
      (case flat_of R s fork of
        None \<Rightarrow> None
      | Some (Inl err) \<Rightarrow> Some (Inl err, s)
      | Some (Inr f) \<Rightarrow>
      (case flat_of R s upstream of
        None \<Rightarrow> None
      | Some (Inl err) \<Rightarrow> Some (Inl err, s)
      | Some (Inr u) \<Rightarrow>
          merge_flats
            \<lparr>me_diff = diff, me_repo = R,
             me_policy = (case policy of None \<Rightarrow> (\<lambda>_. take_merge) | Some pol \<Rightarrow> pol),
             me_hold = hold_untouched, me_base = b, me_fork = f, me_upstream = u\<rparr> order s)))"

section \<open>What is relied on of the object database\<close>

definition repo_grows :: "('s, 'e) git_repo \<Rightarrow> 's \<Rightarrow> 's \<Rightarrow> bool" where
  "repo_grows R s s' \<longleftrightarrow>
    (\<forall>h x. rp_read R s h = Inr x \<longrightarrow> rp_read R s' h = Inr x) \<and> store_grows (rp_trees R) s s'"

text \<open>Objects are only added: what was written is read back, and nothing readable is lost.\<close>

definition repo_ok :: "('s, 'e) git_repo \<Rightarrow> bool" where
  "repo_ok R \<longleftrightarrow> tree_store_ok (rp_trees R) \<and>
    (\<forall>s x h s'. rp_write R s x = (Inr h, s') \<longrightarrow> rp_read R s' h = Inr x) \<and>
    (\<forall>s x r s'. rp_write R s x = (r, s') \<longrightarrow> repo_grows R s s') \<and>
    (\<forall>s t r s'. ts_put (rp_trees R) s t = (r, s') \<longrightarrow> repo_grows R s s')"

lemma repo_grows_refl [simp]: "repo_grows R s s"
  by (simp add: repo_grows_def)

lemma repo_grows_trans: "repo_grows R s s' \<Longrightarrow> repo_grows R s' s'' \<Longrightarrow> repo_grows R s s''"
  using store_grows_trans [of "rp_trees R" s s' s''] by (simp add: repo_grows_def)

lemma repo_grows_read: "repo_grows R s s' \<Longrightarrow> rp_read R s h = Inr x \<Longrightarrow> rp_read R s' h = Inr x"
  by (simp add: repo_grows_def)

lemma write_repo_grows:
  shows "write_dir S n s = (r, s') \<Longrightarrow> S = rp_trees R \<Longrightarrow> repo_ok R \<Longrightarrow> repo_grows R s s'"
    and "write_dirs S ds es s = (rs, s') \<Longrightarrow> S = rp_trees R \<Longrightarrow> repo_ok R \<Longrightarrow> repo_grows R s s'"
proof (induction S n s and S ds es s arbitrary: r s' and rs s' rule: write_dir_write_dirs.induct)
  case (1 S fs ds s)
  obtain w s1 where w: "write_dirs S ds (map snd fs) s = (w, s1)" by (cases "write_dirs S ds (map snd fs) s")
  then have g: "repo_grows R s s1" using 1(1) 1(3,4) by blast
  show ?case
  proof (cases w)
    case (Inl e)
    then have "s' = s1" using 1(2) w by simp
    then show ?thesis using g by simp
  next
    case (Inr t)
    with 1(2,3) w have "ts_put (rp_trees R) s1 (sort_slice tree_less t) = (r, s')" by simp
    with 1(4) have "repo_grows R s1 s'" unfolding repo_ok_def by blast
    with g show ?thesis by (rule repo_grows_trans)
  qed
next
  case (3 S name child ds es s)
  obtain w s1 where w: "write_dir S child s = (w, s1)" by (cases "write_dir S child s")
  then have g: "repo_grows R s s1" using 3(1,4,5) by simp
  show ?case
  proof (cases w)
    case (Inl e)
    with 3(3) w g show ?thesis by simp
  next
    case (Inr h)
    with 3(3) w have "write_dirs S ds (es @ [\<lparr>te_name = name, te_mode = dir_mode, te_hash = h\<rparr>]) s1 = (rs, s')" by simp
    with 3(2) [OF w [symmetric, unfolded Inr] refl] 3(4,5) have "repo_grows R s1 s'" by blast
    with g show ?thesis by (rule repo_grows_trans)
  qed
qed auto

section \<open>The outcome for one path\<close>

text \<open>The three texts of a path both sides changed, as the database holds them in \<open>s\<close>.\<close>

definition path_texts :: "('s, 'e) merge_env \<Rightarrow> 's \<Rightarrow> string \<Rightarrow> (string \<times> string \<times> string) option" where
  "path_texts E s p =
     (case (case map_of (me_base E) p of None \<Rightarrow> Inr [] | Some b \<Rightarrow> rp_read (me_repo E) s (te_hash b),
            map_of (me_fork E) p, map_of (me_upstream E) p) of
        (Inr base, Some f, Some u) \<Rightarrow>
          (case (rp_read (me_repo E) s (te_hash f), rp_read (me_repo E) s (te_hash u)) of
             (Inr ours, Inr theirs) \<Rightarrow> Some (base, ours, theirs)
           | _ \<Rightarrow> None)
      | _ \<Rightarrow> None)"

definition texts_ok :: "differ \<Rightarrow> string \<times> string \<times> string \<Rightarrow> bool" where
  "texts_ok diff t = (case t of (base, ours, theirs) \<Rightarrow>
     script_ok base ours (diff base ours) \<and> script_ok base theirs (diff base theirs))"

text \<open>Every text to be merged can be read, and the diff engine keeps its contract on it.\<close>

definition texts_readable :: "('s, 'e) merge_env \<Rightarrow> 's \<Rightarrow> string list \<Rightarrow> bool" where
  "texts_readable E s ps \<longleftrightarrow>
     list_all (\<lambda>p. path_decision E p \<noteq> MergeLines \<or>
       (case path_texts E s p of None \<Rightarrow> False | Some t \<Rightarrow> texts_ok (me_diff E) t)) ps"

text \<open>The joined text; \<^const>\<open>None\<close> when a side is binary or the changes overlap.\<close>

definition joined_text :: "('s, 'e) merge_env \<Rightarrow> 's \<Rightarrow> string \<Rightarrow> string option" where
  "joined_text E s p =
     (case path_texts E s p of
        None \<Rightarrow> None
      | Some (base, ours, theirs) \<Rightarrow>
          if list_ex (\<lambda>d. CHR 0x00 \<in> set d) [base, ours, theirs] then None
          else (case merge_text (me_diff E) base ours theirs of Some (m, True) \<Rightarrow> Some m | _ \<Rightarrow> None))"

definition path_conflict :: "('s, 'e) merge_env \<Rightarrow> 's \<Rightarrow> string \<Rightarrow> bool" where
  "path_conflict E s p \<longleftrightarrow>
     path_decision E p = Conflict \<or> path_decision E p = MergeLines \<and> joined_text E s p = None"

definition path_held :: "('s, 'e) merge_env \<Rightarrow> string \<Rightarrow> bool" where
  "path_held E p \<longleftrightarrow> (case path_decision E p of Hold _ \<Rightarrow> True | _ \<Rightarrow> False)"

definition path_overridden :: "('s, 'e) merge_env \<Rightarrow> string \<Rightarrow> bool" where
  "path_overridden E p \<longleftrightarrow> (case path_decision E p of Override _ \<Rightarrow> True | _ \<Rightarrow> False)"

definition blob_written :: "('s, 'e) git_repo \<Rightarrow> string \<Rightarrow> hash \<Rightarrow> bool" where
  "blob_written R text h \<longleftrightarrow> (\<exists>s s'. rp_write R s text = (Inr h, s'))"

text \<open>The entry of the merged tree at a path that is no conflict.\<close>

definition path_result :: "('s, 'e) merge_env \<Rightarrow> 's \<Rightarrow> 's \<Rightarrow> string \<Rightarrow> tree_entry option \<Rightarrow> bool" where
  "path_result E s s' p e \<longleftrightarrow>
     (case path_decision E p of
        Take x \<Rightarrow> e = x
      | Hold x \<Rightarrow> e = x
      | Override x \<Rightarrow> e = x
      | Conflict \<Rightarrow> False
      | MergeLines \<Rightarrow>
          (\<exists>f h text. map_of (me_fork E) p = Some f \<and> e = Some \<lparr>te_name = p, te_mode = te_mode f, te_hash = h\<rparr> \<and>
            joined_text E s p = Some text \<and> blob_written (me_repo E) text h \<and>
            rp_read (me_repo E) s' h = Inr text))"

lemma path_result_grows: "path_result E s s1 p e \<Longrightarrow> repo_grows (me_repo E) s1 s2 \<Longrightarrow> path_result E s s2 p e"
  using repo_grows_read [of "me_repo E" s1 s2]
  by (auto simp: path_result_def split: decision.splits)

lemma path_texts_grows:
  "path_texts E s p = Some t \<Longrightarrow> repo_grows (me_repo E) s s1 \<Longrightarrow> path_texts E s1 p = Some t"
  by (auto simp: path_texts_def dest: repo_grows_read split: option.splits sum.splits)

text \<open>\<open>mergeBlobs\<close> on readable texts.\<close>

lemma merge_blobs_result:
  assumes "repo_ok (me_repo E)" "path_texts E s p = Some t" "texts_ok (me_diff E) t" "repo_grows (me_repo E) s s1"
    "map_of (me_fork E) p = Some f" "map_of (me_upstream E) p = Some u"
  shows "\<exists>r s2. merge_blobs (me_diff E) (me_repo E) (map_of (me_base E) p) f u s1 = Some (r, s2) \<and>
    repo_grows (me_repo E) s1 s2 \<and>
    (case r of Inl _ \<Rightarrow> True | Inr None \<Rightarrow> joined_text E s p = None
     | Inr (Some h) \<Rightarrow> (\<exists>text. joined_text E s p = Some text \<and> blob_written (me_repo E) text h \<and>
         rp_read (me_repo E) s2 h = Inr text))"
proof -
  obtain base ours theirs where t: "t = (base, ours, theirs)" by (cases t)
  let ?m = "merge_text (me_diff E) base ours theirs" and ?bin = "list_ex (\<lambda>d. CHR 0x00 \<in> set d) [base, ours, theirs]"
  from path_texts_grows [OF assms(2,4)] assms(5,6) t
  have "(case map_of (me_base E) p of None \<Rightarrow> Inr [] | Some b \<Rightarrow> rp_read (me_repo E) s1 (te_hash b)) = Inr base"
    "rp_read (me_repo E) s1 (te_hash f) = Inr ours" "rp_read (me_repo E) s1 (te_hash u) = Inr theirs"
    by (auto simp: path_texts_def split: option.splits sum.splits)
  then have blobs: "merge_blobs (me_diff E) (me_repo E) (map_of (me_base E) p) f u s1 =
      (if ?bin then Some (Inr None, s1)
       else (case ?m of None \<Rightarrow> None
         | Some (text, ok) \<Rightarrow> if \<not> ok then Some (Inr None, s1)
             else (case rp_write (me_repo E) s1 text of (Inl err, s') \<Rightarrow> Some (Inl err, s') | (Inr h, s') \<Rightarrow> Some (Inr (Some h), s'))))"
    unfolding merge_blobs_def by simp
  have joined: "joined_text E s p = (if ?bin then None else (case ?m of Some (m, True) \<Rightarrow> Some m | _ \<Rightarrow> None))"
    unfolding joined_text_def assms(2) t by simp
  show ?thesis
  proof (cases ?bin)
    case True
    with blobs joined show ?thesis by simp
  next
    case False
    from assms(3) t have "script_ok base ours (me_diff E base ours)" "script_ok base theirs (me_diff E base theirs)"
      by (simp_all add: texts_ok_def)
    from merge_text_no_panic [of base ours "me_diff E" theirs, OF this] obtain m ok where m: "?m = Some (m, ok)" by auto
    obtain w s2 where w: "rp_write (me_repo E) s1 m = (w, s2)" by (cases "rp_write (me_repo E) s1 m")
    with assms(1) have "repo_grows (me_repo E) s1 s2" "\<And>h. w = Inr h \<Longrightarrow> rp_read (me_repo E) s2 h = Inr m"
      unfolding repo_ok_def by blast+
    with False blobs joined m w show ?thesis by (cases ok; cases w) (auto simp: blob_written_def)
  qed
qed

section \<open>The loop over the paths\<close>

lemma keep_entry_lookup: "q \<noteq> p \<Longrightarrow> map_of (keep_entry p e m) q = map_of m q"
  by (auto simp: keep_entry_def update_conv split: option.split)

lemma keep_entry_here: "map_of m p = None \<Longrightarrow> map_of (keep_entry p e m) p = e"
  by (auto simp: keep_entry_def update_conv split: option.split)

lemma keep_entry_distinct: "distinct (map fst m) \<Longrightarrow> distinct (map fst (keep_entry p e m))"
  by (auto simp: keep_entry_def distinct_update split: option.split)

text \<open>What a turn adds to the result.\<close>

definition mark_path :: "('s, 'e) merge_env \<Rightarrow> 's \<Rightarrow> string \<Rightarrow> join_result \<Rightarrow> join_result" where
  "mark_path E s p res =
     res\<lparr>jr_conflicts := jr_conflicts res @ (if path_conflict E s p then [p] else []),
       jr_held := jr_held res @ (if path_held E p then [p] else []),
       jr_overridden := jr_overridden res @ (if path_overridden E p then [p] else [])\<rparr>"

definition path_step :: "('s, 'e) merge_env \<Rightarrow> 's \<Rightarrow> string \<Rightarrow> flat \<Rightarrow> join_result \<Rightarrow> flat \<Rightarrow> join_result \<Rightarrow> 's \<Rightarrow> bool" where
  "path_step E s p m res m' res' s' \<longleftrightarrow>
     res' = mark_path E s p res \<and> (\<forall>q. q \<noteq> p \<longrightarrow> map_of m' q = map_of m q) \<and>
     (map_of m p = None \<longrightarrow> (if path_conflict E s p then map_of m' p = None else path_result E s s' p (map_of m' p))) \<and>
     (distinct (map fst m) \<longrightarrow> distinct (map fst m'))"

lemma decide_lines:
  "decide_path pol hold p be fe ue = MergeLines \<Longrightarrow> \<exists>f u. fe = Some f \<and> ue = Some u"
  by (auto simp: decide_path_def split: if_splits option.splits)

lemma merge_path_step:
  assumes "repo_ok (me_repo E)" "texts_readable E s [p]" "repo_grows (me_repo E) s s1"
  shows "\<exists>r s2. merge_path E p (m, res) s1 = Some (r, s2) \<and> repo_grows (me_repo E) s1 s2 \<and>
    (case r of Inl _ \<Rightarrow> True | Inr (m', res') \<Rightarrow> path_step E s p m res m' res' s2)"
proof (cases "path_decision E p")
  case (Take e)
  then show ?thesis
    by (auto simp: merge_path_def path_step_def mark_path_def path_conflict_def path_held_def path_overridden_def
        path_result_def keep_entry_lookup keep_entry_here keep_entry_distinct)
next
  case (Hold e)
  then show ?thesis
    by (auto simp: merge_path_def path_step_def mark_path_def path_conflict_def path_held_def path_overridden_def
        path_result_def keep_entry_lookup keep_entry_here keep_entry_distinct)
next
  case (Override e)
  then show ?thesis
    by (auto simp: merge_path_def path_step_def mark_path_def path_conflict_def path_held_def path_overridden_def
        path_result_def keep_entry_lookup keep_entry_here keep_entry_distinct)
next
  case Conflict
  then show ?thesis
    by (auto simp: merge_path_def path_step_def mark_path_def path_conflict_def path_held_def path_overridden_def)
next
  case MergeLines
  then obtain f u where fu: "map_of (me_fork E) p = Some f" "map_of (me_upstream E) p = Some u"
    unfolding path_decision_def using decide_lines by blast
  from assms(2) MergeLines obtain t where "path_texts E s p = Some t" "texts_ok (me_diff E) t"
    by (auto simp: texts_readable_def split: option.splits)
  from merge_blobs_result [OF assms(1) this assms(3) fu] obtain r s2 where
    r: "merge_blobs (me_diff E) (me_repo E) (map_of (me_base E) p) f u s1 = Some (r, s2)" "repo_grows (me_repo E) s1 s2"
    "case r of Inl _ \<Rightarrow> True | Inr None \<Rightarrow> joined_text E s p = None
     | Inr (Some h) \<Rightarrow> (\<exists>text. joined_text E s p = Some text \<and> blob_written (me_repo E) text h \<and>
         rp_read (me_repo E) s2 h = Inr text)" by blast
  have step: "merge_path E p (m, res) s1 = Some (case r of
      Inl err \<Rightarrow> (Inl (BlobError p err), s2)
    | Inr None \<Rightarrow> (Inr (m, res\<lparr>jr_conflicts := jr_conflicts res @ [p]\<rparr>), s2)
    | Inr (Some h) \<Rightarrow> (Inr (AList.update p \<lparr>te_name = p, te_mode = te_mode f, te_hash = h\<rparr> m, res), s2))"
    using MergeLines fu r(1) by (simp add: merge_path_def split: sum.split option.split)
  show ?thesis
  proof (cases r)
    case (Inl err)
    with step r(2) show ?thesis by simp
  next
    case (Inr h)
    show ?thesis
    proof (cases h)
      case None
      with Inr r(3) MergeLines have "path_step E s p m res m (res\<lparr>jr_conflicts := jr_conflicts res @ [p]\<rparr>) s2"
        by (simp add: path_step_def mark_path_def path_conflict_def path_held_def path_overridden_def)
      with step Inr None r(2) show ?thesis by simp
    next
      case (Some x)
      with Inr r(3) obtain jt where "joined_text E s p = Some jt"
        "blob_written (me_repo E) jt x" "rp_read (me_repo E) s2 x = Inr jt" by auto
      with MergeLines fu have "path_step E s p m res (AList.update p \<lparr>te_name = p, te_mode = te_mode f, te_hash = x\<rparr> m) res s2"
        by (auto simp: path_step_def mark_path_def path_conflict_def path_held_def path_overridden_def path_result_def
            update_conv distinct_update)
      with step Inr Some r(2) show ?thesis by simp
    qed
  qed
qed

definition mark_paths :: "('s, 'e) merge_env \<Rightarrow> 's \<Rightarrow> string list \<Rightarrow> join_result \<Rightarrow> join_result" where
  "mark_paths E s ps res =
     res\<lparr>jr_conflicts := jr_conflicts res @ filter (path_conflict E s) ps,
       jr_held := jr_held res @ filter (path_held E) ps,
       jr_overridden := jr_overridden res @ filter (path_overridden E) ps\<rparr>"

lemma mark_paths_Cons: "mark_paths E s (p # ps) res = mark_paths E s ps (mark_path E s p res)"
  by (simp add: mark_paths_def mark_path_def)

definition paths_result :: "('s, 'e) merge_env \<Rightarrow> 's \<Rightarrow> string list \<Rightarrow> flat \<Rightarrow> flat \<Rightarrow> 's \<Rightarrow> bool" where
  "paths_result E s ps m m' s' \<longleftrightarrow> distinct (map fst m') \<and>
     (\<forall>q. q \<notin> set ps \<longrightarrow> map_of m' q = map_of m q) \<and>
     (\<forall>q \<in> set ps. if path_conflict E s q then map_of m' q = None else path_result E s s' q (map_of m' q))"

lemma merge_paths_result:
  assumes "repo_ok (me_repo E)"
  shows "texts_readable E s ps \<Longrightarrow> repo_grows (me_repo E) s s1 \<Longrightarrow> distinct ps \<Longrightarrow> distinct (map fst m) \<Longrightarrow>
    \<forall>p \<in> set ps. map_of m p = None \<Longrightarrow>
    \<exists>r s2. merge_paths E ps (m, res) s1 = Some (r, s2) \<and> repo_grows (me_repo E) s1 s2 \<and>
      (case r of Inl _ \<Rightarrow> True | Inr (m', res') \<Rightarrow> res' = mark_paths E s ps res \<and> paths_result E s ps m m' s2)"
proof (induction ps arbitrary: m res s1)
  case Nil
  then show ?case by (simp add: mark_paths_def paths_result_def)
next
  case (Cons p ps)
  from Cons.prems(1) have "texts_readable E s [p]" and rest: "texts_readable E s ps" by (simp_all add: texts_readable_def)
  from merge_path_step [OF assms this(1) Cons.prems(2), of m res] obtain r s2 where
    step: "merge_path E p (m, res) s1 = Some (r, s2)" "repo_grows (me_repo E) s1 s2"
    "case r of Inl _ \<Rightarrow> True | Inr (m', res') \<Rightarrow> path_step E s p m res m' res' s2" by blast
  show ?case
  proof (cases r)
    case (Inl err)
    with step show ?thesis by simp
  next
    case (Inr a)
    obtain m1 res1 where a: "a = (m1, res1)" by (cases a)
    with step(3) Inr have ps: "path_step E s p m res m1 res1 s2" by simp
    note d = ps [unfolded path_step_def]
    from Cons.prems(3,5) have p: "p \<notin> set ps" "map_of m p = None" by simp_all
    have "distinct (map fst m1)" using d Cons.prems(4) by blast
    moreover have "\<forall>q \<in> set ps. map_of m1 q = None" using d Cons.prems(5) p(1) by auto
    moreover have "distinct ps" using Cons.prems(3) by simp
    ultimately obtain r2 s3 where r2: "merge_paths E ps (m1, res1) s2 = Some (r2, s3)" "repo_grows (me_repo E) s2 s3"
      "case r2 of Inl _ \<Rightarrow> True | Inr (m', res') \<Rightarrow> res' = mark_paths E s ps res1 \<and> paths_result E s ps m1 m' s3"
      using Cons.IH [OF rest repo_grows_trans [OF Cons.prems(2) step(2)], of m1 res1] by blast
    have run: "merge_paths E (p # ps) (m, res) s1 = Some (r2, s3)" using step(1) Inr a r2(1) by simp
    have "paths_result E s (p # ps) m m' s3" if pr: "paths_result E s ps m1 m' s3" for m'
    proof -
      from pr p(1) have "map_of m' p = map_of m1 p" by (simp add: paths_result_def)
      moreover have "if path_conflict E s p then map_of m1 p = None else path_result E s s3 p (map_of m1 p)"
        using d p(2) path_result_grows [OF _ r2(2)] by (simp split: if_splits)
      ultimately show ?thesis using pr d by (auto simp: paths_result_def)
    qed
    with r2(3) d have "case r2 of Inl _ \<Rightarrow> True | Inr (m', res') \<Rightarrow>
        res' = mark_paths E s (p # ps) res \<and> paths_result E s (p # ps) m m' s3"
      by (auto simp: mark_paths_Cons split: sum.splits)
    with run repo_grows_trans [OF step(2) r2(2)] show ?thesis by blast
  qed
qed

section \<open>The merge of three flat trees\<close>

abbreviation env_paths :: "('s, 'e) merge_env \<Rightarrow> string list" where
  "env_paths E \<equiv> all_paths (me_base E) (me_fork E) (me_upstream E)"

lemma set_env_paths: "p \<in> set (env_paths E) \<longleftrightarrow>
    map_of (me_base E) p \<noteq> None \<or> map_of (me_fork E) p \<noteq> None \<or> map_of (me_upstream E) p \<noteq> None"
  by (auto simp: all_paths_def map_of_eq_None_iff)

definition join_summary :: "('s, 'e) merge_env \<Rightarrow> 's \<Rightarrow> join_result" where
  "join_summary E s =
     \<lparr>jr_tree = None, jr_conflicts = sort_strings (filter (path_conflict E s) (env_paths E)),
      jr_held = sort_strings (filter (path_held E) (env_paths E)),
      jr_overridden = sort_strings (filter (path_overridden E) (env_paths E))\<rparr>"

lemma merge_flats_run:
  assumes "repo_ok (me_repo E)" "mset (order (env_paths E)) = mset (env_paths E)" "texts_readable E s (env_paths E)"
  shows "\<exists>r s'. merge_flats E order s = Some (r, s') \<and> repo_grows (me_repo E) s s' \<and>
    (case r of Inl _ \<Rightarrow> True
     | Inr res \<Rightarrow> res = (join_summary E s)\<lparr>jr_tree := jr_tree res\<rparr> \<and>
         (case jr_tree res of
            None \<Rightarrow> jr_conflicts res \<noteq> []
          | Some h \<Rightarrow> jr_conflicts res = [] \<and>
              (\<exists>m s1. write_tree_from_flat (rp_trees (me_repo E)) m s1 = (Inr h, s') \<and>
                paths_result E s (env_paths E) [] m s1)))"
proof -
  let ?ps = "order (env_paths E)"
  have set_ps: "set ?ps = set (env_paths E)" using assms(2) by (metis mset_eq_setD)
  have "distinct ?ps" using assms(2) by (metis all_paths_def distinct_remdups mset_eq_imp_distinct_iff)
  moreover have "texts_readable E s ?ps" using assms(3) set_ps by (simp add: texts_readable_def list_all_iff)
  ultimately obtain r s1 where r: "merge_paths E ?ps ([], empty_join) s = Some (r, s1)" "repo_grows (me_repo E) s s1"
    "case r of Inl _ \<Rightarrow> True | Inr (m', res') \<Rightarrow> res' = mark_paths E s ?ps empty_join \<and> paths_result E s ?ps [] m' s1"
    using merge_paths_result [OF assms(1), of s ?ps s "[]" empty_join] by auto
  show ?thesis
  proof (cases r)
    case (Inl err)
    with r show ?thesis by (simp add: merge_flats_def)
  next
    case (Inr a)
    then obtain m where a: "r = Inr (m, mark_paths E s ?ps empty_join)" and pr: "paths_result E s (env_paths E) [] m s1"
      using r(3) set_ps by (cases a) (auto simp: paths_result_def)
    have "mset (filter P ?ps) = mset (filter P (env_paths E))" for P using assms(2) by (metis mset_filter)
    then have res: "sort_result (mark_paths E s ?ps empty_join) = join_summary E s"
      by (simp add: sort_result_def mark_paths_def empty_join_def join_summary_def sort_strings_perm)
    obtain w s2 where w: "write_tree_from_flat (rp_trees (me_repo E)) m s1 = (w, s2)"
      by (cases "write_tree_from_flat (rp_trees (me_repo E)) m s1")
    from write_repo_grows(1) [OF this [unfolded write_tree_from_flat_def] refl assms(1)]
    have "repo_grows (me_repo E) s1 s2" .
    with r(2) have g: "repo_grows (me_repo E) s s2" by (rule repo_grows_trans)
    have run: "merge_flats E order s =
        (if jr_conflicts (join_summary E s) \<noteq> [] then Some (Inr (join_summary E s), s1)
         else (case w of Inl err \<Rightarrow> Some (Inl (WriteTreeError err), s2)
           | Inr h \<Rightarrow> Some (Inr ((join_summary E s)\<lparr>jr_tree := Some h\<rparr>), s2)))"
      unfolding merge_flats_def r(1) [unfolded a] using res w by (cases w) (simp_all add: Let_def)
    show ?thesis
    proof (cases "jr_conflicts (join_summary E s) = []")
      case False
      with run r(2) show ?thesis by (simp add: join_summary_def)
    next
      case True
      with run g w pr show ?thesis by (cases w) auto
    qed
  qed
qed

section \<open>Properties\<close>

text \<open>What \<open>FlattenTree\<close> returns: distinct paths, entries under their path, no directories.\<close>

definition files_only :: "flat \<Rightarrow> bool" where
  "files_only fl \<longleftrightarrow> distinct (map fst fl) \<and> list_all (\<lambda>(p, e). te_name e = p \<and> te_mode e \<noteq> dir_mode) fl"

definition env_ok :: "('s, 'e) merge_env \<Rightarrow> bool" where
  "env_ok E \<longleftrightarrow> repo_ok (me_repo E) \<and> list_all files_only [me_base E, me_fork E, me_upstream E]"

text \<open>The paths the merged tree has an entry for.\<close>

definition joined_paths :: "('s, 'e) merge_env \<Rightarrow> string list" where
  "joined_paths E =
     filter (\<lambda>p. path_decision E p \<notin> {Take None, Hold None, Override None, Conflict}) (env_paths E)"

definition plain_paths :: "string list \<Rightarrow> bool" where
  "plain_paths ps \<longleftrightarrow>
     list_all (\<lambda>p. \<not> has_prefix p ''/'' \<and> list_all (\<lambda>q. \<not> strict_prefix (path_parts p) (path_parts q)) ps) ps"

lemma decide_entry:
  "decide_path pol hold p be fe ue \<in> {Take e, Hold e, Override e} \<Longrightarrow> e = fe \<or> e = ue"
  by (auto simp: decide_path_def split: if_splits option.splits)

lemma files_only_entry: "files_only fl \<Longrightarrow> map_of fl p = Some e \<Longrightarrow> te_name e = p \<and> te_mode e \<noteq> dir_mode"
  by (auto simp: files_only_def list_all_iff dest: map_of_SomeD)

lemma path_result_entry:
  assumes "env_ok E" "path_result E s s' p (Some e)"
  shows "te_name e = p \<and> te_mode e \<noteq> dir_mode"
proof -
  have f: "files_only (me_fork E)" "files_only (me_upstream E)" using assms(1) by (simp_all add: env_ok_def)
  show ?thesis
  proof (cases "path_decision E p = MergeLines")
    case True
    with assms(2) files_only_entry [OF f(1)] show ?thesis by (auto simp: path_result_def)
  next
    case False
    with assms(2) have "path_decision E p \<in> {Take (Some e), Hold (Some e), Override (Some e)}"
      by (auto simp: path_result_def split: decision.splits)
    from decide_entry [OF this [unfolded path_decision_def]] files_only_entry [OF f(1)] files_only_entry [OF f(2)]
    show ?thesis by metis
  qed
qed

lemma path_result_joined:
  "path_result E s s' p (Some e) \<Longrightarrow> p \<in> set (env_paths E) \<Longrightarrow> p \<in> set (joined_paths E)"
  by (auto simp: joined_paths_def path_result_def split: decision.splits)

lemma merged_flat_ok:
  assumes "env_ok E" "plain_paths (joined_paths E)" "paths_result E s (env_paths E) [] m s1"
    "\<forall>p \<in> set (env_paths E). \<not> path_conflict E s p"
  shows "flat_ok m" "named m = m"
proof -
  have res: "path_result E s s1 p (Some e) \<and> p \<in> set (env_paths E)" if "(p, e) \<in> set m" for p e
  proof -
    from that assms(3) have m: "map_of m p = Some e" by (simp add: paths_result_def)
    with assms(3) have "p \<in> set (env_paths E)" by (force simp: paths_result_def)
    with assms(3,4) m show ?thesis by (auto simp: paths_result_def)
  qed
  have entry: "te_name e = p \<and> te_mode e \<noteq> dir_mode \<and> p \<in> set (joined_paths E)" if "(p, e) \<in> set m" for p e
    using res [OF that] path_result_entry [OF assms(1), of s s1 p e] path_result_joined [of E s s1 p e] by simp
  have "clash_free m" unfolding clash_free_def list_all_iff
  proof (intro ballI, clarify)
    fix p e q e' assume "(p, e) \<in> set m" "(q, e') \<in> set m" "strict_prefix (path_parts p) (path_parts q)"
    with entry assms(2) show False by (auto simp: plain_paths_def list_all_iff)
  qed
  moreover have "list_all (\<lambda>(p, e). te_mode e \<noteq> dir_mode \<and> \<not> has_prefix p ''/'') m"
    using entry assms(2) by (fastforce simp: plain_paths_def list_all_iff)
  moreover have "distinct (map fst m)" using assms(3) by (simp add: paths_result_def)
  ultimately show "flat_ok m" by (simp add: flat_ok_def)
  show "named m = m" unfolding named_def by (rule map_idI) (use entry in auto)
qed

text \<open>The law of a three-way merge at one path: a side that alone changed the path wins, unless the policy
  says otherwise; a held path keeps the fork's entry, an overridden one takes upstream's.\<close>

definition three_way :: "('s, 'e) merge_env \<Rightarrow> string \<Rightarrow> tree_entry option \<Rightarrow> bool" where
  "three_way E p e \<longleftrightarrow>
     (let b = map_of (me_base E) p; f = map_of (me_fork E) p; u = map_of (me_upstream E) p; take = me_policy E p in
      (same_entry u b \<longrightarrow> same_entry e f) \<and>
      (same_entry f b \<longrightarrow> take \<noteq> take_fork \<longrightarrow> take \<noteq> take_review \<longrightarrow> same_entry e u) \<and>
      (take = take_fork \<longrightarrow> me_hold E \<longrightarrow> same_entry e f) \<and>
      (take = take_fork \<longrightarrow> \<not> me_hold E \<longrightarrow> same_entry e (if same_entry f b then u else f)) \<and>
      (take = take_upstream \<longrightarrow> \<not> same_entry u b \<longrightarrow> same_entry e u) \<and>
      (take = take_review \<longrightarrow> same_entry u b \<or> same_entry e u))"

lemma same_entry_sym: "same_entry x y = same_entry y x"
  by (auto simp: same_entry_def split: option.split)

lemma same_entry_refl [simp]: "same_entry x x"
  by (simp add: same_entry_def split: option.split)

lemma same_entry_trans: "same_entry x y \<Longrightarrow> same_entry y z \<Longrightarrow> same_entry x z"
  by (auto simp: same_entry_def split: option.splits)

lemma path_result_three_way:
  assumes "path_result E s s' p e"
  shows "three_way E p e"
proof -
  let ?b = "map_of (me_base E) p" and ?f = "map_of (me_fork E) p" and ?u = "map_of (me_upstream E) p"
  note sym = same_entry_sym [of ?u ?f] and trans = same_entry_trans [of ?f ?u ?b] same_entry_trans [of ?u ?f ?b]
    and names = take_merge_def take_fork_def take_upstream_def take_review_def
  consider "same_entry ?f ?u" | "\<not> same_entry ?f ?u" "same_entry ?u ?b"
    | "\<not> same_entry ?f ?u" "\<not> same_entry ?u ?b" "same_entry ?f ?b"
    | "\<not> same_entry ?f ?u" "\<not> same_entry ?u ?b" "\<not> same_entry ?f ?b" by blast
  then show ?thesis
  proof cases
    case 1
    with assms have "e = ?f" by (simp add: path_result_def path_decision_def decide_path_def)
    with 1 sym trans show ?thesis by (auto simp: three_way_def Let_def)
  next
    case 2
    with assms have "e = ?f" by (simp add: path_result_def path_decision_def decide_path_def)
    moreover have "\<not> same_entry ?f ?b"
      using 2 same_entry_trans [of ?f ?b ?u] same_entry_sym [of ?b ?u] by blast
    ultimately show ?thesis using 2 by (auto simp: three_way_def Let_def)
  next
    case 3
    with assms have "e = (if me_policy E p = take_fork \<and> me_hold E then ?f else ?u) \<and> me_policy E p \<noteq> take_review"
      by (auto simp: path_result_def path_decision_def decide_path_def names split: if_splits)
    with 3 show ?thesis by (auto simp: three_way_def Let_def names)
  next
    case 4
    with assms have "if me_policy E p = take_fork then e = ?f else if me_policy E p = take_upstream then e = ?u
        else me_policy E p \<noteq> take_review"
      by (auto simp: path_result_def path_decision_def decide_path_def names split: if_splits)
    with 4 show ?thesis by (auto simp: three_way_def Let_def names split: if_splits)
  qed
qed

subsection \<open>The rules of a three-way merge\<close>

text \<open>The rules are stated on the versions of a path in the three trees, apart from the code's switch. A
  path on which the sides agree, or which upstream left alone, stays as the fork has it. What upstream
  changed is held back by the rule \<^verbatim>\<open>fork\<close> (when the fork changed it too, or holding is on), put up for
  review by the rule \<^verbatim>\<open>review\<close>, whether or not the fork touched it, and otherwise taken when the fork did
  not touch it. What both changed is overridden by the rule \<^verbatim>\<open>upstream\<close>, and left to the lines of its texts
  by any rule but these three.\<close>

definition version :: "tree_entry option \<Rightarrow> (int \<times> hash) option" where
  "version e = map_option (\<lambda>e. (te_mode e, te_hash e)) e"

definition sides_agree :: "('s, 'e) merge_env \<Rightarrow> string \<Rightarrow> bool" where
  "sides_agree E p \<longleftrightarrow> version (map_of (me_fork E) p) = version (map_of (me_upstream E) p)"

definition fork_changed :: "('s, 'e) merge_env \<Rightarrow> string \<Rightarrow> bool" where
  "fork_changed E p \<longleftrightarrow> version (map_of (me_fork E) p) \<noteq> version (map_of (me_base E) p)"

definition upstream_changed :: "('s, 'e) merge_env \<Rightarrow> string \<Rightarrow> bool" where
  "upstream_changed E p \<longleftrightarrow> version (map_of (me_upstream E) p) \<noteq> version (map_of (me_base E) p)"

definition held_back :: "('s, 'e) merge_env \<Rightarrow> string \<Rightarrow> bool" where
  "held_back E p \<longleftrightarrow> \<not> sides_agree E p \<and> upstream_changed E p \<and> me_policy E p = ''fork'' \<and> (fork_changed E p \<or> me_hold E)"

definition overridden :: "('s, 'e) merge_env \<Rightarrow> string \<Rightarrow> bool" where
  "overridden E p \<longleftrightarrow> \<not> sides_agree E p \<and> upstream_changed E p \<and> fork_changed E p \<and> me_policy E p = ''upstream''"

definition for_review :: "('s, 'e) merge_env \<Rightarrow> string \<Rightarrow> bool" where
  "for_review E p \<longleftrightarrow> \<not> sides_agree E p \<and> upstream_changed E p \<and> me_policy E p = ''review''"

definition left_to_lines :: "('s, 'e) merge_env \<Rightarrow> string \<Rightarrow> bool" where
  "left_to_lines E p \<longleftrightarrow> \<not> sides_agree E p \<and> upstream_changed E p \<and> fork_changed E p \<and>
     me_policy E p \<notin> {''fork'', ''upstream'', ''review''}"

definition taken :: "('s, 'e) merge_env \<Rightarrow> string \<Rightarrow> bool" where
  "taken E p \<longleftrightarrow> overridden E p \<or>
     \<not> sides_agree E p \<and> upstream_changed E p \<and> \<not> fork_changed E p \<and> \<not> held_back E p \<and> \<not> for_review E p"

text \<open>Both sides have the file, with one mode, which is that of the base if it had the file.\<close>

definition mode_kept :: "('s, 'e) merge_env \<Rightarrow> string \<Rightarrow> bool" where
  "mode_kept E p \<longleftrightarrow>
     (case (map_of (me_fork E) p, map_of (me_upstream E) p) of
        (Some f, Some u) \<Rightarrow> te_mode f = te_mode u \<and> list_all (\<lambda>b. te_mode b = te_mode f) (case map_of (me_base E) p of None \<Rightarrow> [] | Some b \<Rightarrow> [b])
      | _ \<Rightarrow> False)"

definition conflicting :: "('s, 'e) merge_env \<Rightarrow> 's \<Rightarrow> string \<Rightarrow> bool" where
  "conflicting E s p \<longleftrightarrow> for_review E p \<or> (left_to_lines E p \<and> (mode_kept E p \<longrightarrow> joined_text E s p = None))"

definition merged_entry :: "('s, 'e) merge_env \<Rightarrow> 's \<Rightarrow> 's \<Rightarrow> string \<Rightarrow> tree_entry option \<Rightarrow> bool" where
  "merged_entry E s s' p e \<longleftrightarrow>
     (if left_to_lines E p then
        (\<exists>f h text. map_of (me_fork E) p = Some f \<and> e = Some \<lparr>te_name = p, te_mode = te_mode f, te_hash = h\<rparr> \<and>
           joined_text E s p = Some text \<and> rp_read (me_repo E) s' h = Inr text)
      else e = map_of (if taken E p then me_upstream E else me_fork E) p)"

text \<open>What the theorem asks of the inputs: texts to be merged are readable and the diff engine keeps its
  contract on them, and no path that stays names a file below another.\<close>

definition texts_given :: "('s, 'e) merge_env \<Rightarrow> 's \<Rightarrow> bool" where
  "texts_given E s \<longleftrightarrow>
     list_all (\<lambda>p. \<not> (left_to_lines E p \<and> mode_kept E p) \<or>
       (case path_texts E s p of None \<Rightarrow> False | Some t \<Rightarrow> texts_ok (me_diff E) t)) (env_paths E)"

definition staying_paths :: "('s, 'e) merge_env \<Rightarrow> string list" where
  "staying_paths E =
     filter (\<lambda>p. \<not> for_review E p \<and>
       (if left_to_lines E p then mode_kept E p
        else map_of (if taken E p then me_upstream E else me_fork E) p \<noteq> None)) (env_paths E)"

lemma same_entry_version: "same_entry x y \<longleftrightarrow> version x = version y"
  by (auto simp: same_entry_def version_def split: option.split)

lemma path_decision_rules:
  "path_decision E p =
     (if for_review E p \<or> left_to_lines E p \<and> \<not> mode_kept E p then Conflict
      else if left_to_lines E p then MergeLines
      else if held_back E p then Hold (map_of (me_fork E) p)
      else if overridden E p then Override (map_of (me_upstream E) p)
      else Take (map_of (if taken E p then me_upstream E else me_fork E) p))"
proof -
  have modes: "(case (map_of (me_fork E) p, map_of (me_upstream E) p) of
      (Some f, Some u) \<Rightarrow>
        if te_mode f \<noteq> te_mode u \<or> (case map_of (me_base E) p of None \<Rightarrow> False | Some b \<Rightarrow> te_mode b \<noteq> te_mode f)
        then Conflict else MergeLines
    | _ \<Rightarrow> Conflict) = (if mode_kept E p then MergeLines else Conflict)"
    by (simp add: mode_kept_def split: option.split)
  show ?thesis
    unfolding path_decision_def decide_path_def modes same_entry_version take_fork_def take_upstream_def take_review_def
    by (simp add: taken_def held_back_def overridden_def for_review_def left_to_lines_def sides_agree_def fork_changed_def
        upstream_changed_def)
qed

lemma rules_exclusive:
  "left_to_lines E p \<Longrightarrow> \<not> held_back E p \<and> \<not> overridden E p \<and> \<not> for_review E p"
  "held_back E p \<Longrightarrow> \<not> overridden E p \<and> \<not> for_review E p \<and> \<not> taken E p"
  "overridden E p \<Longrightarrow> \<not> for_review E p \<and> taken E p"
  by (auto simp: left_to_lines_def held_back_def overridden_def for_review_def taken_def)

lemma path_rules:
  "path_conflict E s p = conflicting E s p" "path_held E p = held_back E p" "path_overridden E p = overridden E p"
  "path_result E s s' p e \<Longrightarrow> merged_entry E s s' p e"
  using rules_exclusive [of E p]
  by (auto simp: path_conflict_def path_held_def path_overridden_def conflicting_def path_result_def merged_entry_def
      path_decision_rules split: if_splits)

lemma texts_given_readable: "texts_given E s = texts_readable E s (env_paths E)"
  using rules_exclusive(1) [of E]
  by (auto simp: texts_given_def texts_readable_def path_decision_rules list_all_iff)

lemma staying_joined: "staying_paths E = joined_paths E"
  unfolding staying_paths_def joined_paths_def
  by (rule filter_cong [OF refl]) (use rules_exclusive [of E] in \<open>auto simp: path_decision_rules\<close>)

text \<open>The tree written for paths that do not conflict, read back: the entry the rules name at each.\<close>

lemma written_tree_entries:
  assumes "env_ok E" "plain_paths (staying_paths E)"
    and m: "write_tree_from_flat (rp_trees (me_repo E)) m s1 = (Inr h, s')" "paths_result E s (env_paths E) [] m s1"
    and none: "\<forall>p \<in> set (env_paths E). \<not> path_conflict E s p"
  shows "\<exists>t fl. ts_get (rp_trees (me_repo E)) s' h = Inr t \<and>
    flatten_tree (rp_trees (me_repo E)) s' t = Some (Inr fl) \<and>
    (\<forall>p. if p \<in> set (env_paths E) then merged_entry E s s' p (map_of fl p) else map_of fl p = None)"
proof -
  have repo: "repo_ok (me_repo E)" and store: "tree_store_ok (rp_trees (me_repo E))"
    using assms(1) by (simp_all add: env_ok_def repo_ok_def)
  note ok = merged_flat_ok [OF assms(1) assms(2) [unfolded staying_joined] m(2) none]
  obtain t fl where t: "ts_get (rp_trees (me_repo E)) s' h = Inr t"
    "flatten_tree (rp_trees (me_repo E)) s' t = Some (Inr fl)" "distinct (map fst fl)" "set fl = set m"
    using flatten_written [OF store ok(1) m(1)] ok(2) by metis
  then have fl: "map_of fl = map_of m" using ok(1) by (subst map_of_inject_set) (auto simp: flat_ok_def)
  have "repo_grows (me_repo E) s1 s'"
    by (rule write_repo_grows(1) [OF m(1) [unfolded write_tree_from_flat_def] refl repo])
  then have "if p \<in> set (env_paths E) then merged_entry E s s' p (map_of fl p) else map_of fl p = None" for p
    using m(2) none path_result_grows [of E s s1 p "map_of m p" s'] unfolding fl paths_result_def
    by (auto intro: path_rules(4))
  with t(1,2) show ?thesis by blast
qed

text \<open>C15: What a merge of trees is.  It never panics; on success it reports, each sorted, exactly the
  conflicting paths (what upstream changed under the rule \<^verbatim>\<open>review\<close>, and what both sides changed under no
  rule where a mode changed, a side is missing or the texts are binary or overlap), the held paths and the
  overridden ones; it writes a tree iff nothing conflicts, and that tree, flattened, has at every path the
  entry the rules of the three-way merge name (at a path left to its lines, the blob of the merged text
  with the fork's mode), and no other.  The paths it keeps must not name a file below a file, see
  \<open>file_directory_clash\<close>.\<close>

theorem merge_flats_decides:
  assumes "env_ok E" "texts_given E s" "mset (order (env_paths E)) = mset (env_paths E)"
    "plain_paths (staying_paths E)"
  shows "case merge_flats E order s of
      None \<Rightarrow> False
    | Some (Inl _, _) \<Rightarrow> True
    | Some (Inr res, s') \<Rightarrow>
        jr_conflicts res = sort_strings (filter (conflicting E s) (env_paths E)) \<and>
        jr_held res = sort_strings (filter (held_back E) (env_paths E)) \<and>
        jr_overridden res = sort_strings (filter (overridden E) (env_paths E)) \<and>
        (case jr_tree res of
           None \<Rightarrow> jr_conflicts res \<noteq> []
         | Some h \<Rightarrow> jr_conflicts res = [] \<and>
             (\<exists>t fl. ts_get (rp_trees (me_repo E)) s' h = Inr t \<and>
               flatten_tree (rp_trees (me_repo E)) s' t = Some (Inr fl) \<and>
               (\<forall>p. if p \<in> set (env_paths E) then merged_entry E s s' p (map_of fl p) else map_of fl p = None)))"
proof -
  have repo: "repo_ok (me_repo E)" using assms(1) by (simp add: env_ok_def)
  obtain r s' where run: "merge_flats E order s = Some (r, s')"
    and r: "case r of Inl _ \<Rightarrow> True
     | Inr res \<Rightarrow> res = (join_summary E s)\<lparr>jr_tree := jr_tree res\<rparr> \<and>
         (case jr_tree res of
            None \<Rightarrow> jr_conflicts res \<noteq> []
          | Some h \<Rightarrow> jr_conflicts res = [] \<and>
              (\<exists>m s1. write_tree_from_flat (rp_trees (me_repo E)) m s1 = (Inr h, s') \<and>
                paths_result E s (env_paths E) [] m s1))"
    using merge_flats_run [of E order s, OF repo assms(3)] assms(2) unfolding texts_given_readable by blast
  have tree: "\<exists>t fl. ts_get (rp_trees (me_repo E)) s' h = Inr t \<and>
      flatten_tree (rp_trees (me_repo E)) s' t = Some (Inr fl) \<and>
      (\<forall>p. if p \<in> set (env_paths E) then merged_entry E s s' p (map_of fl p) else map_of fl p = None)"
    if h: "r = Inr res" "jr_tree res = Some h" for res h
  proof -
    from r h obtain m s1 where m: "write_tree_from_flat (rp_trees (me_repo E)) m s1 = (Inr h, s')"
      "paths_result E s (env_paths E) [] m s1" and "jr_conflicts res = []"
      and "res = (join_summary E s)\<lparr>jr_tree := jr_tree res\<rparr>" by auto
    then have "filter (path_conflict E s) (env_paths E) = []"
      by (metis join_result.simps(2) join_result.update_convs(1) join_summary_def sort_slice_Nil_iff)
    then have "\<forall>p \<in> set (env_paths E). \<not> path_conflict E s p" by (simp add: filter_empty_conv)
    with m show ?thesis by (rule written_tree_entries [OF assms(1,4)])
  qed
  have summary: "jr_conflicts (join_summary E s) = sort_strings (filter (conflicting E s) (env_paths E))"
    "jr_held (join_summary E s) = sort_strings (filter (held_back E) (env_paths E))"
    "jr_overridden (join_summary E s) = sort_strings (filter (overridden E) (env_paths E))"
    by (simp_all add: join_summary_def path_rules(1-3) [abs_def])
  show ?thesis
  proof (cases r)
    case (Inl e)
    with run show ?thesis by simp
  next
    case (Inr res)
    with r have "res = (join_summary E s)\<lparr>jr_tree := jr_tree res\<rparr>" by simp
    then have "jr_conflicts res = jr_conflicts (join_summary E s)" "jr_held res = jr_held (join_summary E s)"
      "jr_overridden res = jr_overridden (join_summary E s)" by (metis join_result.simps(2-4) join_result.update_convs(1) join_result.surjective)+
    with run r Inr tree [OF Inr] summary show ?thesis by (cases "jr_tree res") auto
  qed
qed

section \<open>A database of known objects, for concrete runs\<close>

definition table_repo :: "(tree \<times> hash) list \<Rightarrow> (string \<times> hash) list \<Rightarrow> (unit, string) git_repo" where
  "table_repo trees blobs =
     \<lparr>rp_trees = table_store trees,
      rp_read = (\<lambda>_ h. case map_of (map prod.swap blobs) h of None \<Rightarrow> Inl ''missing'' | Some x \<Rightarrow> Inr x),
      rp_write = (\<lambda>s x. (case map_of blobs x of None \<Rightarrow> Inl ''unknown blob'' | Some h \<Rightarrow> Inr h, s))\<rparr>"

lemma map_of_swap:
  assumes "distinct (map snd xs)" "map_of xs a = Some b"
  shows "map_of (map prod.swap xs) b = Some a"
proof -
  from assms(2) have "(a, b) \<in> set xs" by (rule map_of_SomeD)
  then have "(b, a) \<in> set (map prod.swap xs)" by force
  moreover have "distinct (map fst (map prod.swap xs))" using assms(1) by (simp add: comp_def)
  ultimately show ?thesis by simp
qed

lemma table_repo_ok:
  assumes "distinct (map snd trees)" "distinct (map snd blobs)"
  shows "repo_ok (table_repo trees blobs)"
proof -
  have "ts_put (table_store trees) s t = (r, s') \<Longrightarrow> s' = s" for s t r s' by (simp add: table_store_def Let_def)
  moreover have "rp_write (table_repo trees blobs) s x = (r, s') \<Longrightarrow> s' = s" for s x r s' by (simp add: table_repo_def)
  moreover have "rp_write (table_repo trees blobs) s x = (Inr h, s') \<Longrightarrow> rp_read (table_repo trees blobs) s' h = Inr x" for s x h s'
    using map_of_swap [OF assms(2)] by (auto simp: table_repo_def split: option.splits)
  moreover have "rp_trees (table_repo trees blobs) = table_store trees" by (simp add: table_repo_def)
  ultimately show ?thesis
    unfolding repo_ok_def using table_store_ok [OF assms(1)] by (metis repo_grows_refl)
qed

text \<open>A text both sides changed, a file only the fork added, one only upstream removed.\<close>

definition demo_blobs :: "(string \<times> hash) list" where
  "demo_blobs = [(demo_base, ''h0''), (demo_ours, ''h1''), (demo_theirs, ''h2''), (demo_merged, ''h3''), (''x'', ''h4'')]"

definition demo_out :: tree where
  "demo_out = [demo_file ''new'' ''h4'', demo_file ''text'' ''h3'']"

definition demo_env :: "(unit, string) merge_env" where
  "demo_env =
     \<lparr>me_diff = demo_diff, me_repo = table_repo [(demo_out, ''t1'')] demo_blobs, me_policy = (\<lambda>_. take_merge), me_hold = True,
      me_base = [(''text'', demo_file ''text'' ''h0''), (''gone'', demo_file ''gone'' ''h4'')],
      me_fork = [(''text'', demo_file ''text'' ''h1''), (''gone'', demo_file ''gone'' ''h4''), (''new'', demo_file ''new'' ''h4'')],
      me_upstream = [(''text'', demo_file ''text'' ''h2'')]\<rparr>"

lemma demo_env_ok: "env_ok demo_env"
proof -
  have "repo_ok (me_repo demo_env)" unfolding demo_env_def merge_env.simps by (rule table_repo_ok) code_simp+
  moreover have "list_all files_only [me_base demo_env, me_fork demo_env, me_upstream demo_env]" by code_simp
  ultimately show ?thesis by (simp add: env_ok_def)
qed

lemma demo_env_facts:
  "texts_readable demo_env () (env_paths demo_env)" "plain_paths (joined_paths demo_env)"
  "merge_flats demo_env rev () = Some (Inr \<lparr>jr_tree = Some ''t1'', jr_conflicts = [], jr_held = [], jr_overridden = []\<rparr>, ())"
  "merge_flats demo_env id () = Some (Inr \<lparr>jr_tree = Some ''t1'', jr_conflicts = [], jr_held = [], jr_overridden = []\<rparr>, ())"
  by code_simp+

theorem merge_flats_decides_witness:
  "\<exists>t fl. ts_get (rp_trees (me_repo demo_env)) () ''t1'' = Inr t \<and>
    flatten_tree (rp_trees (me_repo demo_env)) () t = Some (Inr fl) \<and>
    merged_entry demo_env () () ''text'' (map_of fl ''text'') \<and> map_of fl ''gone'' = None"
proof -
  have m: "mset (rev (env_paths demo_env)) = mset (env_paths demo_env)" by simp
  have given: "texts_given demo_env ()" "plain_paths (staying_paths demo_env)"
    using demo_env_facts(1,2) by (simp_all add: texts_given_readable staying_joined)
  from merge_flats_decides [of demo_env "()" rev, OF demo_env_ok given(1) m given(2)]
  obtain t fl where t: "ts_get (rp_trees (me_repo demo_env)) () ''t1'' = Inr t"
    "flatten_tree (rp_trees (me_repo demo_env)) () t = Some (Inr fl)"
    and fl: "\<And>p. if p \<in> set (env_paths demo_env) then merged_entry demo_env () () p (map_of fl p) else map_of fl p = None"
    by (auto simp: demo_env_facts(3))
  have p: "''text'' \<in> set (env_paths demo_env)" "''gone'' \<in> set (env_paths demo_env)" "\<not> left_to_lines demo_env ''gone''"
    "map_of (if taken demo_env ''gone'' then me_upstream demo_env else me_fork demo_env) ''gone'' = None" by code_simp+
  from fl [of "''text''"] fl [of "''gone''"] p
  have "merged_entry demo_env () () ''text'' (map_of fl ''text'')" "map_of fl ''gone'' = None"
    by (simp_all add: merged_entry_def [of _ _ _ "''gone''"])
  with t show ?thesis by blast
qed

section \<open>Order and symmetry\<close>

definition blobs_content_addressed :: "('s, 'e) git_repo \<Rightarrow> bool" where
  "blobs_content_addressed R \<longleftrightarrow> (\<forall>x h h'. blob_written R x h \<longrightarrow> blob_written R x h' \<longrightarrow> h = h')"

lemma path_result_unique:
  "blobs_content_addressed (me_repo E) \<Longrightarrow> path_result E s s1 p e \<Longrightarrow> path_result E s s2 p e' \<Longrightarrow> e = e'"
  by (auto simp: path_result_def blobs_content_addressed_def split: decision.splits)

lemma paths_result_unique:
  assumes "blobs_content_addressed (me_repo E)" "paths_result E s ps [] m s1" "paths_result E s ps [] m' s2"
  shows "mset m = mset m'"
proof -
  have "map_of m p = map_of m' p" for p
  proof (cases "p \<in> set ps \<and> \<not> path_conflict E s p")
    case True
    with assms(2,3) have "path_result E s s1 p (map_of m p)" "path_result E s s2 p (map_of m' p)"
      by (auto simp: paths_result_def)
    then show ?thesis by (rule path_result_unique [OF assms(1)])
  next
    case False
    have "map_of x p = None" if "paths_result E s ps [] x sx" for x sx
      using that False by (cases "p \<in> set ps") (auto simp: paths_result_def)
    with assms(2,3) show ?thesis by simp
  qed
  then have "map_of m = map_of m'" by blast
  moreover have "distinct (map fst m)" "distinct (map fst m')" using assms(2,3) by (simp_all add: paths_result_def)
  ultimately show ?thesis using map_of_inject_set by (metis distinct_map set_eq_iff_mset_eq_distinct)
qed

text \<open>The result of a merge of trees - conflicts, held and overridden paths, and the hash of the tree -
  does not depend on the order in which the paths are visited, over a content-addressed database.\<close>

theorem merge_flats_order_irrelevant:
  assumes "env_ok E" "content_addressed (rp_trees (me_repo E))" "blobs_content_addressed (me_repo E)"
    "texts_readable E s (env_paths E)"
    "mset (order (env_paths E)) = mset (env_paths E)" "mset (order2 (env_paths E)) = mset (env_paths E)"
    "merge_flats E order s = Some (Inr res, s')" "merge_flats E order2 s = Some (Inr res2, s2')"
  shows "res = res2"
proof -
  from assms(1) have repo: "repo_ok (me_repo E)" by (simp add: env_ok_def)
  from merge_flats_run [of E order s, OF repo assms(5,4)] merge_flats_run [of E order2 s, OF repo assms(6,4)] assms(7,8)
  have res: "res = (join_summary E s)\<lparr>jr_tree := jr_tree res\<rparr>" "res2 = (join_summary E s)\<lparr>jr_tree := jr_tree res2\<rparr>"
    and tree: "case jr_tree res of None \<Rightarrow> jr_conflicts res \<noteq> [] | Some h \<Rightarrow> jr_conflicts res = [] \<and>
      (\<exists>m s1. write_tree_from_flat (rp_trees (me_repo E)) m s1 = (Inr h, s') \<and> paths_result E s (env_paths E) [] m s1)"
    and tree2: "case jr_tree res2 of None \<Rightarrow> jr_conflicts res2 \<noteq> [] | Some h \<Rightarrow> jr_conflicts res2 = [] \<and>
      (\<exists>m s1. write_tree_from_flat (rp_trees (me_repo E)) m s1 = (Inr h, s2') \<and> paths_result E s (env_paths E) [] m s1)"
    by auto
  have same: "jr_conflicts res = jr_conflicts res2"
    by (subst res(1), subst res(2)) simp
  have "jr_tree res = jr_tree res2"
  proof (cases "jr_conflicts res = []")
    case False
    with tree tree2 same show ?thesis by (auto split: option.splits)
  next
    case True
    with tree tree2 same obtain h m s1 h2 m2 s2 where
      h: "jr_tree res = Some h" "write_tree_from_flat (rp_trees (me_repo E)) m s1 = (Inr h, s')"
        "paths_result E s (env_paths E) [] m s1" and
      h2: "jr_tree res2 = Some h2" "write_tree_from_flat (rp_trees (me_repo E)) m2 s2 = (Inr h2, s2')"
        "paths_result E s (env_paths E) [] m2 s2" by (auto split: option.splits)
    have "te_mode e \<noteq> dir_mode" if "(p, e) \<in> set m" for p e
    proof -
      from that h(3) have "map_of m p = Some e" by (simp add: paths_result_def)
      with h(3) have "path_result E s s1 p (Some e)"
        by (cases "p \<in> set (env_paths E)"; cases "path_conflict E s p") (auto simp: paths_result_def)
      with path_result_entry [OF assms(1)] show ?thesis by blast
    qed
    then have "list_all (\<lambda>(_, e). te_mode e \<noteq> dir_mode) m" by (auto simp: list_all_iff)
    moreover have "distinct (map fst m)" using h(3) by (simp add: paths_result_def)
    moreover have "mset m2 = mset m" by (rule paths_result_unique [OF assms(3) h2(3) h(3)])
    ultimately have "h = h2" using write_tree_hash_unique [OF assms(2)] h(2) h2(2) by blast
    with h(1) h2(1) show ?thesis by simp
  qed
  with res show ?thesis by metis
qed

lemma demo_env_content_addressed:
  "content_addressed (rp_trees (me_repo demo_env))" "blobs_content_addressed (me_repo demo_env)"
  by (auto simp: demo_env_def table_repo_def table_store_content_addressed blobs_content_addressed_def blob_written_def
      split: option.splits)

theorem merge_flats_order_irrelevant_witness:
  "map_option fst (merge_flats demo_env rev ()) = map_option fst (merge_flats demo_env id ())"
proof -
  have m: "mset (rev (env_paths demo_env)) = mset (env_paths demo_env)" "mset (id (env_paths demo_env)) = mset (env_paths demo_env)"
    by simp_all
  let ?r = "\<lparr>jr_tree = Some ''t1'', jr_conflicts = [], jr_held = [], jr_overridden = []\<rparr>"
  have "?r = ?r"
    by (rule merge_flats_order_irrelevant [of demo_env "()" rev id,
          OF demo_env_ok demo_env_content_addressed demo_env_facts(1) m demo_env_facts(3,4)])
  then show ?thesis using demo_env_facts(3,4) by simp
qed

text \<open>The merge with the sides exchanged.\<close>

definition swap_env :: "('s, 'e) merge_env \<Rightarrow> ('s, 'e) merge_env" where
  "swap_env E = E\<lparr>me_fork := me_upstream E, me_upstream := me_fork E\<rparr>"

lemma decide_merge:
  assumes "pol p = take_merge"
  shows "decide_path pol hold p be fe ue =
     (if same_entry fe ue \<or> same_entry ue be then Take fe
      else if same_entry fe be then Take ue
      else (case (fe, ue) of
           (Some f, Some u) \<Rightarrow>
             if te_mode f \<noteq> te_mode u \<or> (case be of None \<Rightarrow> False | Some b \<Rightarrow> te_mode b \<noteq> te_mode f)
             then Conflict else MergeLines
         | _ \<Rightarrow> Conflict))"
  using assms by (simp add: decide_path_def take_merge_def take_fork_def take_upstream_def take_review_def)

lemma decide_swap:
  assumes "pol p = take_merge"
  shows "decide_path pol hold p be ue fe = Conflict \<longleftrightarrow> decide_path pol hold p be fe ue = Conflict"
    "decide_path pol hold p be ue fe = MergeLines \<longleftrightarrow> decide_path pol hold p be fe ue = MergeLines"
  unfolding decide_merge [of pol p, OF assms] same_entry_sym [of ue fe]
  by (auto split: option.splits)

lemma path_texts_swap:
  assumes "path_texts E s p = Some (base, ours, theirs)"
  shows "path_texts (swap_env E) s p = Some (base, theirs, ours)"
  using assms by (auto simp: path_texts_def swap_env_def split: option.splits sum.splits)

lemma joined_text_swap:
  assumes "path_texts E s p = Some t" "texts_ok (me_diff E) t"
  shows "joined_text (swap_env E) s p = joined_text E s p"
proof -
  obtain base ours theirs where t: "t = (base, ours, theirs)" by (cases t)
  from assms(2) t have ok: "script_ok base ours (me_diff E base ours)" "script_ok base theirs (me_diff E base theirs)"
    by (simp_all add: texts_ok_def)
  have d: "me_diff (swap_env E) = me_diff E" by (simp add: swap_env_def)
  have "merge_text (me_diff E) base theirs ours = merge_text (me_diff E) base ours theirs"
    by (rule merge_text_swap [of base ours "me_diff E" theirs, OF ok])
  then show ?thesis
    unfolding joined_text_def assms(1) path_texts_swap [OF assms(1) [unfolded t]] d t
    by (simp add: disj_commute disj_left_commute)
qed

lemma path_conflict_swap:
  assumes "me_policy E = (\<lambda>_. take_merge)" "texts_readable E s [p]"
  shows "path_conflict (swap_env E) s p = path_conflict E s p"
proof -
  have pol: "me_policy E p = take_merge" using assms(1) by simp
  have d: "path_decision (swap_env E) p = Conflict \<longleftrightarrow> path_decision E p = Conflict"
    "path_decision (swap_env E) p = MergeLines \<longleftrightarrow> path_decision E p = MergeLines"
    using decide_swap [of "me_policy E" p, OF pol] by (simp_all add: path_decision_def swap_env_def)
  show ?thesis
  proof (cases "path_decision E p = MergeLines")
    case True
    with assms(2) obtain t where "path_texts E s p = Some t" "texts_ok (me_diff E) t"
      by (auto simp: texts_readable_def split: option.splits)
    from joined_text_swap [OF this] d show ?thesis by (simp add: path_conflict_def)
  next
    case False
    with d show ?thesis by (simp add: path_conflict_def)
  qed
qed

lemma merge_policy_marks:
  assumes "me_policy E = (\<lambda>_. take_merge)"
  shows "\<not> path_held E p" "\<not> path_overridden E p"
proof -
  have pol: "me_policy E p = take_merge" using assms by simp
  show "\<not> path_held E p" "\<not> path_overridden E p"
    unfolding path_held_def path_overridden_def path_decision_def decide_merge [of "me_policy E" p, OF pol]
    by (auto split: option.splits)
qed

text \<open>When everything is merged (the policy that is used when none is given), the merge of trees does
  not depend on which side is the fork: exchanged, it reports the same conflicts, and never a held or an
  overridden path.\<close>

theorem merge_flats_symmetric:
  assumes "env_ok E" "me_policy E = (\<lambda>_. take_merge)" "texts_readable E s (env_paths E)"
    "mset (order (env_paths E)) = mset (env_paths E)"
    "mset (order2 (env_paths (swap_env E))) = mset (env_paths (swap_env E))"
    "merge_flats E order s = Some (Inr res, s')" "merge_flats (swap_env E) order2 s = Some (Inr res2, s2')"
  shows "jr_conflicts res2 = jr_conflicts res \<and> jr_held res = [] \<and> jr_overridden res = []"
proof -
  have repo: "repo_ok (me_repo E)" "repo_ok (me_repo (swap_env E))" using assms(1) by (simp_all add: env_ok_def swap_env_def)
  have paths: "set (env_paths (swap_env E)) = set (env_paths E)" by (auto simp: all_paths_def swap_env_def)
  then have perm: "mset (env_paths (swap_env E)) = mset (env_paths E)"
    by (metis all_paths_def distinct_remdups set_eq_iff_mset_eq_distinct)
  have each: "texts_readable E s [p]" if "p \<in> set (env_paths E)" for p
    using assms(3) that by (simp add: texts_readable_def list_all_iff)
  have readable: "texts_readable (swap_env E) s (env_paths (swap_env E))"
    unfolding texts_readable_def list_all_iff
  proof
    fix p assume "p \<in> set (env_paths (swap_env E))"
    then have p: "texts_readable E s [p]" using paths each by blast
    have pol: "me_policy E p = take_merge" using assms(2) by simp
    have "path_decision (swap_env E) p = MergeLines \<longleftrightarrow> path_decision E p = MergeLines"
      using decide_swap(2) [of "me_policy E" p, OF pol] by (simp add: path_decision_def swap_env_def)
    with p show "path_decision (swap_env E) p \<noteq> MergeLines \<or>
        (case path_texts (swap_env E) s p of None \<Rightarrow> False | Some t \<Rightarrow> texts_ok (me_diff (swap_env E)) t)"
      using path_texts_swap [of E s p]
      by (auto simp: texts_readable_def texts_ok_def swap_env_def split: option.splits)
  qed
  have conflicts: "filter (path_conflict (swap_env E) s) (env_paths E) = filter (path_conflict E s) (env_paths E)"
    by (rule filter_cong [OF refl path_conflict_swap [OF assms(2) each]])
  have "mset (filter (path_conflict (swap_env E) s) (env_paths (swap_env E))) = mset (filter (path_conflict E s) (env_paths E))"
    using perm conflicts by (metis mset_filter)
  then have "jr_conflicts (join_summary (swap_env E) s) = jr_conflicts (join_summary E s)"
    by (simp add: join_summary_def sort_strings_perm)
  moreover have "jr_held (join_summary E s) = []" "jr_overridden (join_summary E s) = []"
    by (simp_all add: join_summary_def merge_policy_marks [OF assms(2)])
  moreover have "res = (join_summary E s)\<lparr>jr_tree := jr_tree res\<rparr>"
    using merge_flats_run [of E order s, OF repo(1) assms(4,3)] assms(6) by auto
  moreover have "res2 = (join_summary (swap_env E) s)\<lparr>jr_tree := jr_tree res2\<rparr>"
    using merge_flats_run [of "swap_env E" order2 s, OF repo(2) assms(5) readable] assms(7) by auto
  ultimately show ?thesis by (metis join_result.simps(2-4) join_result.update_convs(1) join_result.surjective)
qed

theorem merge_flats_symmetric_witness:
  "map_option (map_sum id jr_conflicts \<circ> fst) (merge_flats (swap_env demo_env) id ()) = Some (Inr [])"
proof -
  have pol: "me_policy demo_env = (\<lambda>_. take_merge)" by (simp add: demo_env_def)
  have m: "mset (rev (env_paths demo_env)) = mset (env_paths demo_env)"
    "mset (id (env_paths (swap_env demo_env))) = mset (env_paths (swap_env demo_env))" by simp_all
  let ?r = "\<lparr>jr_tree = Some ''t1'', jr_conflicts = [], jr_held = [], jr_overridden = []\<rparr>"
  have run: "merge_flats (swap_env demo_env) id () = Some (Inr ?r, ())" by code_simp
  from merge_flats_symmetric [of demo_env "()" rev id, OF demo_env_ok pol demo_env_facts(1) m demo_env_facts(3) run]
  have "jr_conflicts ?r = []" by simp
  with run show ?thesis by simp
qed

text \<open>Nothing compares a file of one side with a directory of the other: a file only the fork added and a
  file below that name only upstream added are both taken, so the written tree has two entries of one
  name, which git does not accept.\<close>

theorem file_directory_clash:
  assumes "map_of (me_base E) p = None" "map_of (me_fork E) p = Some f" "map_of (me_upstream E) p = None"
    "map_of (me_base E) (p @ ''/'' @ q) = None" "map_of (me_fork E) (p @ ''/'' @ q) = None"
    "map_of (me_upstream E) (p @ ''/'' @ q) = Some u" "me_policy E = (\<lambda>_. take_merge)"
  shows "path_decision E p = Take (Some f) \<and> path_decision E (p @ ''/'' @ q) = Take (Some u)"
  using assms by (simp add: path_decision_def decide_path_def same_entry_def take_merge_def take_fork_def take_review_def)

definition clash_env :: "(unit, string) merge_env" where
  "clash_env =
     \<lparr>me_diff = demo_diff,
      me_repo = table_repo [([demo_file ''b'' ''h4''], ''t1''),
        ([demo_file ''a'' ''h4'', \<lparr>te_name = ''a'', te_mode = dir_mode, te_hash = ''t1''\<rparr>], ''t2'')] demo_blobs,
      me_policy = (\<lambda>_. take_merge), me_hold = True,
      me_base = [], me_fork = [(''a'', demo_file ''a'' ''h4'')], me_upstream = [(''a/b'', demo_file ''a/b'' ''h4'')]\<rparr>"

theorem file_directory_clash_witness:
  "path_decision clash_env ''a'' = Take (Some (demo_file ''a'' ''h4'')) \<and>
   merge_flats clash_env id () = Some (Inr \<lparr>jr_tree = Some ''t2'', jr_conflicts = [], jr_held = [], jr_overridden = []\<rparr>, ()) \<and>
   ts_get (rp_trees (me_repo clash_env)) () ''t2'' =
     Inr [demo_file ''a'' ''h4'', \<lparr>te_name = ''a'', te_mode = dir_mode, te_hash = ''t1''\<rparr>]"
proof -
  have facts: "map_of (me_base clash_env) ''a'' = None" "map_of (me_fork clash_env) ''a'' = Some (demo_file ''a'' ''h4'')"
    "map_of (me_upstream clash_env) ''a'' = None" "map_of (me_base clash_env) (''a'' @ ''/'' @ ''b'') = None"
    "map_of (me_fork clash_env) (''a'' @ ''/'' @ ''b'') = None"
    "map_of (me_upstream clash_env) (''a'' @ ''/'' @ ''b'') = Some (demo_file ''a/b'' ''h4'')"
    "me_policy clash_env = (\<lambda>_. take_merge)" by (simp_all add: clash_env_def)
  have "merge_flats clash_env id () = Some (Inr \<lparr>jr_tree = Some ''t2'', jr_conflicts = [], jr_held = [], jr_overridden = []\<rparr>, ())"
    "ts_get (rp_trees (me_repo clash_env)) () ''t2'' =
     Inr [demo_file ''a'' ''h4'', \<lparr>te_name = ''a'', te_mode = dir_mode, te_hash = ''t1''\<rparr>]" by code_simp+
  with file_directory_clash [OF facts] show ?thesis by simp
qed

end
