(* ===== verification/Upstream_Sync.thy ===== *)
theory Upstream_Sync
  imports Merge_Tree "HOL-Library.Sublist"
begin

text \<open>
  Joining an upstream commit into our branch (\<^verbatim>\<open>src/src/upstream/sync.go\<close>): \<open>PlanSync\<close> with its three
  strategies, the replay of our commits (\<open>replay\<close>), the commit that keeps fork-held files
  (\<open>holdFiles\<close>) and \<open>changedPaths\<close>.

  The commit graph of the object database is an argument: reading and writing a commit, the ancestor
  test and the merge bases of \<open>go-git\<close>.  A run threads the state of the database; it is \<^const>\<open>None\<close> when
  it panics or does not return.
\<close>

section \<open>Runs\<close>

type_synonym ('s, 'x, 'a) run = "'s \<Rightarrow> (('x + 'a) \<times> 's) option"

definition run_return :: "'a \<Rightarrow> ('s, 'x, 'a) run" where
  "run_return a s = Some (Inr a, s)"

definition run_bind :: "('s, 'x, 'a) run \<Rightarrow> ('a \<Rightarrow> ('s, 'x, 'b) run) \<Rightarrow> ('s, 'x, 'b) run" where
  "run_bind m f s =
     (case m s of None \<Rightarrow> None | Some (Inl e, s') \<Rightarrow> Some (Inl e, s') | Some (Inr a, s') \<Rightarrow> f a s')"

text \<open>A read that leaves the database alone.\<close>

definition run_read :: "('e \<Rightarrow> 'x) \<Rightarrow> ('s \<Rightarrow> 'e + 'a) \<Rightarrow> ('s, 'x, 'a) run" where
  "run_read wrap f s = (case f s of Inl e \<Rightarrow> Some (Inl (wrap e), s) | Inr a \<Rightarrow> Some (Inr a, s))"

definition run_map_error :: "('y \<Rightarrow> 'x) \<Rightarrow> ('s, 'y, 'a) run \<Rightarrow> ('s, 'x, 'a) run" where
  "run_map_error wrap m s = map_option (\<lambda>(r, s'). (map_sum wrap id r, s')) (m s)"

section \<open>Commits\<close>

record 'g commit_body =
  cb_author :: 'g
  cb_committer :: 'g
  cb_message :: string
  cb_tree :: hash
  cb_parents :: "hash list"

record 'g commit =
  cm_hash :: hash
  cm_body :: "'g commit_body"

abbreviation parents :: "'g commit \<Rightarrow> hash list" where
  "parents c \<equiv> cb_parents (cm_body c)"

record ('s, 'e, 'g) commit_repo =
  cr_repo :: "('s, 'e) git_repo"
  cr_diff :: differ
  cr_order :: "string list \<Rightarrow> string list"
  cr_commit :: "'s \<Rightarrow> hash \<Rightarrow> 'e + 'g commit"
  cr_put :: "'s \<Rightarrow> 'g commit_body \<Rightarrow> ('e + hash) \<times> 's"
  cr_ancestor :: "'s \<Rightarrow> 'g commit \<Rightarrow> 'g commit \<Rightarrow> 'e + bool"
  cr_merge_bases :: "'s \<Rightarrow> 'g commit \<Rightarrow> 'g commit \<Rightarrow> 'e + 'g commit list"

datatype 'e sync_error = OurHead hash 'e | UpstreamCommit hash 'e | GitError 'e | TreesError "'e tree_error"

text \<open>\<open>SyncPlan\<close>; \<^const>\<open>None\<close> is the zero hash.\<close>

record sync_plan =
  sp_result :: string
  sp_new_head :: "hash option"
  sp_rewrites :: bool
  sp_conflicts :: "string list"
  sp_held :: "string list"
  sp_overridden :: "string list"
  sp_dropped :: "string list"
  sp_reason :: string

definition empty_plan :: sync_plan where
  "empty_plan =
     \<lparr>sp_result = [], sp_new_head = None, sp_rewrites = False, sp_conflicts = [], sp_held = [], sp_overridden = [],
      sp_dropped = [], sp_reason = []\<rparr>"

definition sync_conflict :: "string list \<Rightarrow> string \<Rightarrow> sync_plan" where
  "sync_conflict paths reason = empty_plan\<lparr>sp_result := ''conflict'', sp_conflicts := paths, sp_reason := reason\<rparr>"

record 'g sync_options =
  so_strategy :: string
  so_policy :: "policy option"
  so_sig :: 'g
  so_merge_message :: string
  so_hold_message :: string

section \<open>Small helpers\<close>

definition first_line :: "string \<Rightarrow> string" where
  "first_line s = takeWhile (\<lambda>c. c \<noteq> newline) s"

definition union_paths :: "string list \<Rightarrow> string list \<Rightarrow> string list" where
  "union_paths a b = sort_strings (remdups (a @ b))"

text \<open>\<^verbatim>\<open>c.Tree()\<close>.\<close>

definition commit_tree :: "('s, 'e, 'g) commit_repo \<Rightarrow> 'g commit \<Rightarrow> ('s, 'e sync_error, tree) run" where
  "commit_tree C c = run_read GitError (\<lambda>s. ts_get (rp_trees (cr_repo C)) s (cb_tree (cm_body c)))"

definition flatten_run :: "('s, 'e, 'g) commit_repo \<Rightarrow> tree \<Rightarrow> ('s, 'e sync_error, flat) run" where
  "flatten_run C t s =
     (case flatten_tree (rp_trees (cr_repo C)) s t of
        None \<Rightarrow> None
      | Some (Inl (p, e)) \<Rightarrow> Some (Inl (TreesError (SubtreeError p e)), s)
      | Some (Inr fl) \<Rightarrow> Some (Inr fl, s))"

definition write_commit :: "('s, 'e, 'g) commit_repo \<Rightarrow> 'g commit_body \<Rightarrow> ('s, 'e sync_error, hash) run" where
  "write_commit C body s = (case cr_put C s body of (Inl e, s') \<Rightarrow> Some (Inl (GitError e), s') | (Inr h, s') \<Rightarrow> Some (Inr h, s'))"

definition read_commit :: "('s, 'e, 'g) commit_repo \<Rightarrow> hash \<Rightarrow> ('s, 'e sync_error, 'g commit) run" where
  "read_commit C h = run_read GitError (\<lambda>s. cr_commit C s h)"

definition trees_run ::
  "('s, 'e, 'g) commit_repo \<Rightarrow> tree \<Rightarrow> tree \<Rightarrow> tree \<Rightarrow> policy \<Rightarrow> bool \<Rightarrow> ('s, 'e sync_error, join_result) run" where
  "trees_run C base fork upstream policy hold =
     run_map_error TreesError
       (merge_trees (cr_diff C) (cr_repo C) (cr_order C) (Some base) (Some fork) (Some upstream) (Some policy) hold)"

section \<open>Changed paths\<close>

definition changed_between :: "flat \<Rightarrow> flat \<Rightarrow> string list" where
  "changed_between a b =
     sort_strings
       (filter (\<lambda>p. \<not> same_entry (map_of b p) (map_of a p)) (map fst a) @
        filter (\<lambda>p. map_of a p = None) (map fst b))"

definition changed_paths :: "('s, 'e, 'g) commit_repo \<Rightarrow> 'g commit \<Rightarrow> 'g commit \<Rightarrow> ('s, 'e sync_error, string list) run" where
  "changed_paths C old new =
     run_bind (commit_tree C old) (\<lambda>ta.
     run_bind (commit_tree C new) (\<lambda>tb.
     run_bind (flatten_run C ta) (\<lambda>a.
     run_bind (flatten_run C tb) (\<lambda>b.
     run_return (changed_between a b)))))"

section \<open>Replay\<close>

text \<open>Our first-parent commits since the base, newest first; \<^term>\<open>Inl c\<close> when \<open>c\<close> has not one parent.\<close>

partial_function (option) own_commits ::
  "('s, 'e, 'g) commit_repo \<Rightarrow> 's \<Rightarrow> hash \<Rightarrow> 'g commit \<Rightarrow> 'g commit list \<Rightarrow> ('e + ('g commit + 'g commit list)) option" where
  "own_commits C s base c ours =
     (if cm_hash c = base then Some (Inr (Inr ours))
      else if length (parents c) \<noteq> 1 then Some (Inr (Inl c))
      else
        (case cr_commit C s (hd (parents c)) of
           Inl e \<Rightarrow> Some (Inl e)
         | Inr p \<Rightarrow> own_commits C s base p (ours @ [c])))"

definition merge_commit_reason :: "'g commit \<Rightarrow> string" where
  "merge_commit_reason c =
     ''our history has a merge commit ('' @ take 9 (cm_hash c) @
     ''); a rebase replays a straight line '' @ [CHR 0xE2, CHR 0x80, CHR 0x94] @ '' use strategy: merge''"

definition overlap_reason :: "'g commit \<Rightarrow> string" where
  "overlap_reason c =
     ''our commit '' @ take 9 (cm_hash c) @ '' ('' @ first_line (cb_message (cm_body c)) @ '') overlaps upstream's changes''"

text \<open>One commit of ours onto the tip: a conflict, or the next tip and plan.\<close>

definition replay_joined ::
  "('s, 'e, 'g) commit_repo \<Rightarrow> 'g commit \<Rightarrow> 'g commit \<Rightarrow> sync_plan \<Rightarrow> join_result
     \<Rightarrow> ('s, 'e sync_error, sync_plan + 'g commit \<times> sync_plan) run" where
  "replay_joined C c tip plan res =
     (if jr_conflicts res \<noteq> [] then run_return (Inl (sync_conflict (jr_conflicts res) (overlap_reason c)))
      else
        (let plan = plan\<lparr>sp_held := union_paths (sp_held plan) (jr_held res),
               sp_overridden := union_paths (sp_overridden plan) (jr_overridden res)\<rparr> in
         if jr_tree res = Some (cb_tree (cm_body tip)) then
           run_return (Inr (tip, plan\<lparr>sp_dropped := sp_dropped plan @
             [take 9 (cm_hash c) @ '' '' @ first_line (cb_message (cm_body c))]\<rparr>))
         else
           run_bind (write_commit C
             \<lparr>cb_author = cb_author (cm_body c), cb_committer = cb_committer (cm_body c),
              cb_message = cb_message (cm_body c), cb_tree = the (jr_tree res), cb_parents = [cm_hash tip]\<rparr>) (\<lambda>h.
           run_bind (read_commit C h) (\<lambda>tip'. run_return (Inr (tip', plan))))))"

definition replay_commit ::
  "('s, 'e, 'g) commit_repo \<Rightarrow> policy \<Rightarrow> 'g commit \<Rightarrow> 'g commit \<Rightarrow> sync_plan
     \<Rightarrow> ('s, 'e sync_error, sync_plan + 'g commit \<times> sync_plan) run" where
  "replay_commit C policy c tip plan =
     run_bind (read_commit C (hd (parents c))) (\<lambda>parent.
     run_bind (commit_tree C parent) (\<lambda>t0.
     run_bind (commit_tree C c) (\<lambda>t1.
     run_bind (commit_tree C tip) (\<lambda>t2.
     run_bind (trees_run C t0 t1 t2 policy False) (\<lambda>res. replay_joined C c tip plan res)))))"

fun replay_loop ::
  "('s, 'e, 'g) commit_repo \<Rightarrow> policy \<Rightarrow> 'g commit list \<Rightarrow> 'g commit \<Rightarrow> sync_plan
     \<Rightarrow> ('s, 'e sync_error, sync_plan + 'g commit \<times> sync_plan) run" where
  "replay_loop C policy [] tip plan = run_return (Inr (tip, plan))"
| "replay_loop C policy (c # cs) tip plan =
     run_bind (replay_commit C policy c tip plan) (\<lambda>r.
       case r of Inl conflict \<Rightarrow> run_return (Inl conflict) | Inr (tip', plan') \<Rightarrow> replay_loop C policy cs tip' plan')"

definition replay ::
  "('s, 'e, 'g) commit_repo \<Rightarrow> 'g commit \<Rightarrow> 'g commit \<Rightarrow> 'g commit \<Rightarrow> policy
     \<Rightarrow> ('s, 'e sync_error, sync_plan + 'g commit \<times> sync_plan) run" where
  "replay C base head target policy s =
     (case own_commits C s (cm_hash base) head [] of
        None \<Rightarrow> None
      | Some (Inl e) \<Rightarrow> Some (Inl (GitError e), s)
      | Some (Inr (Inl c)) \<Rightarrow> Some (Inr (Inl (sync_conflict [] (merge_commit_reason c))), s)
      | Some (Inr (Inr ours)) \<Rightarrow> replay_loop C policy (rev ours) target empty_plan s)"

section \<open>Held files\<close>

fun hold_loop :: "policy \<Rightarrow> flat \<Rightarrow> string list \<Rightarrow> flat \<Rightarrow> string list \<Rightarrow> flat \<times> string list" where
  "hold_loop policy hf [] tf held = (tf, held)"
| "hold_loop policy hf (p # ps) tf held =
     (if policy p \<noteq> take_fork then hold_loop policy hf ps tf held
      else if same_entry (map_of hf p) (map_of tf p) then hold_loop policy hf ps tf held
      else
        hold_loop policy hf ps
          (case map_of hf p of Some want \<Rightarrow> AList.update p want tf | None \<Rightarrow> AList.delete p tf) (held @ [p]))"

definition hold_message :: "'g sync_options \<Rightarrow> string list \<Rightarrow> string" where
  "hold_message opts held =
     (if so_hold_message opts = [] then ''Keep the fork's version of files upstream changed'' else so_hold_message opts) @
     [newline, newline] @ ''Held: '' @ join '', '' held @ [newline] @ ''Updated-By: StageFreight'' @ [newline]"

definition write_flat :: "('s, 'e, 'g) commit_repo \<Rightarrow> flat \<Rightarrow> ('s, 'e sync_error, hash) run" where
  "write_flat C m s =
     (case write_tree_from_flat (rp_trees (cr_repo C)) m s of
        (Inl e, s') \<Rightarrow> Some (Inl (GitError e), s')
      | (Inr h, s') \<Rightarrow> Some (Inr h, s'))"

definition commit_held ::
  "('s, 'e, 'g) commit_repo \<Rightarrow> 'g commit \<Rightarrow> 'g sync_options \<Rightarrow> flat \<Rightarrow> string list \<Rightarrow> ('s, 'e sync_error, 'g commit \<times> string list) run" where
  "commit_held C tip opts tf held =
     (if held = [] then run_return (tip, [])
      else
        run_bind (write_flat C tf) (\<lambda>tree.
        run_bind (write_commit C
          \<lparr>cb_author = so_sig opts, cb_committer = so_sig opts, cb_message = hold_message opts held,
           cb_tree = tree, cb_parents = [cm_hash tip]\<rparr>) (\<lambda>h.
        run_bind (read_commit C h) (\<lambda>c. run_return (c, held)))))"

definition hold_files ::
  "('s, 'e, 'g) commit_repo \<Rightarrow> 'g commit \<Rightarrow> 'g commit \<Rightarrow> string list \<Rightarrow> policy \<Rightarrow> 'g sync_options
     \<Rightarrow> ('s, 'e sync_error, 'g commit \<times> string list) run" where
  "hold_files C tip head up_changed policy opts =
     run_bind (commit_tree C tip) (\<lambda>tip_tree.
     run_bind (commit_tree C head) (\<lambda>head_tree.
     run_bind (flatten_run C tip_tree) (\<lambda>tf.
     run_bind (flatten_run C head_tree) (\<lambda>hf.
       case hold_loop policy hf up_changed tf [] of (tf', held) \<Rightarrow> commit_held C tip opts tf' held))))"

section \<open>The plan\<close>

definition merge_result ::
  "('s, 'e, 'g) commit_repo \<Rightarrow> 'g sync_options \<Rightarrow> hash \<Rightarrow> hash \<Rightarrow> join_result \<Rightarrow> ('s, 'e sync_error, sync_plan) run" where
  "merge_result C opts head target res =
     (if jr_conflicts res \<noteq> [] then run_return (sync_conflict (jr_conflicts res) ''upstream's changes overlap ours'')
      else
        run_bind (write_commit C
          \<lparr>cb_author = so_sig opts, cb_committer = so_sig opts, cb_message = so_merge_message opts,
           cb_tree = the (jr_tree res), cb_parents = [head, target]\<rparr>) (\<lambda>h.
        run_return (empty_plan\<lparr>sp_result := ''synced'', sp_new_head := Some h, sp_held := jr_held res,
          sp_overridden := jr_overridden res\<rparr>)))"

definition merge_strategy ::
  "('s, 'e, 'g) commit_repo \<Rightarrow> 'g commit \<Rightarrow> 'g commit \<Rightarrow> 'g commit \<Rightarrow> policy \<Rightarrow> 'g sync_options \<Rightarrow> hash \<Rightarrow> hash
     \<Rightarrow> ('s, 'e sync_error, sync_plan) run" where
  "merge_strategy C base headC targetC policy opts head target =
     run_bind (commit_tree C base) (\<lambda>t0.
     run_bind (commit_tree C headC) (\<lambda>t1.
     run_bind (commit_tree C targetC) (\<lambda>t2.
     run_bind (trees_run C t0 t1 t2 policy True) (\<lambda>res. merge_result C opts head target res))))"

definition finish_plan ::
  "('s, 'e, 'g) commit_repo \<Rightarrow> 'g commit \<Rightarrow> 'g commit \<Rightarrow> string list \<Rightarrow> policy \<Rightarrow> 'g sync_options \<Rightarrow> sync_plan
     \<Rightarrow> ('s, 'e sync_error, sync_plan) run" where
  "finish_plan C tip headC up_changed policy opts plan =
     run_bind (hold_files C tip headC up_changed policy opts) (\<lambda>(tip', held).
     run_return (plan\<lparr>sp_result := ''synced'', sp_new_head := Some (cm_hash tip'), sp_held := union_paths (sp_held plan) held\<rparr>))"

text \<open>The part after the merge base is known.\<close>

definition join_plan ::
  "('s, 'e, 'g) commit_repo \<Rightarrow> bool \<Rightarrow> 'g commit \<Rightarrow> 'g commit \<Rightarrow> 'g commit \<Rightarrow> 'g sync_options \<Rightarrow> hash \<Rightarrow> hash
     \<Rightarrow> ('s, 'e sync_error, sync_plan) run" where
  "join_plan C ff base headC targetC opts head target =
     (let policy = (case so_policy opts of None \<Rightarrow> (\<lambda>_. take_merge) | Some pol \<Rightarrow> pol) in
      run_bind (changed_paths C base targetC) (\<lambda>up_changed.
        (let review = filter (\<lambda>p. policy p = take_review) up_changed in
         if review \<noteq> [] then run_return (sync_conflict review ''upstream changed files marked review'')
         else if ff then finish_plan C targetC headC up_changed policy opts empty_plan
         else if so_strategy opts = ''merge'' then merge_strategy C base headC targetC policy opts head target
         else
           run_bind (replay C base headC targetC policy) (\<lambda>r.
             case r of
               Inl conflict \<Rightarrow> run_return conflict
             | Inr (tip, plan) \<Rightarrow> finish_plan C tip headC up_changed policy opts (plan\<lparr>sp_rewrites := True\<rparr>)))))"

definition plan_sync ::
  "('s, 'e, 'g) commit_repo \<Rightarrow> hash \<Rightarrow> hash \<Rightarrow> 'g sync_options \<Rightarrow> ('s, 'e sync_error, sync_plan) run" where
  "plan_sync C head target opts =
     run_bind (run_read (OurHead head) (\<lambda>s. cr_commit C s head)) (\<lambda>headC.
     run_bind (run_read (UpstreamCommit target) (\<lambda>s. cr_commit C s target)) (\<lambda>targetC.
     run_bind (run_read GitError (\<lambda>s. cr_ancestor C s targetC headC)) (\<lambda>in_history.
       if in_history \<or> head = target then
         run_return (empty_plan\<lparr>sp_result := ''in-sync'', sp_new_head := Some head\<rparr>)
       else
         run_bind (run_read GitError (\<lambda>s. cr_ancestor C s headC targetC)) (\<lambda>ff.
           if so_strategy opts = ''mirror'' then
             (if ff then run_return (empty_plan\<lparr>sp_result := ''synced'', sp_new_head := Some target\<rparr>)
              else run_return (sync_conflict []
                ''our branch has diverged from upstream's; a mirror only fast-forwards, so it is kept as it is''))
           else if ff then join_plan C ff headC headC targetC opts head target
           else
             run_bind (run_read GitError (\<lambda>s. cr_merge_bases C s headC targetC)) (\<lambda>bases.
               if bases = [] then run_return (sync_conflict [] ''our history shares no commit with upstream's'')
               else join_plan C ff (hd bases) headC targetC opts head target)))))"

section \<open>What a run that succeeds did\<close>

definition succeeds :: "('s, 'x, 'a) run \<Rightarrow> 's \<Rightarrow> 'a \<Rightarrow> 's \<Rightarrow> bool" where
  "succeeds m s a s' \<longleftrightarrow> m s = Some (Inr a, s')"

named_theorems run_elims \<open>elimination rules for the successful succeeds of the combinators\<close>

lemma succeeds_return [run_elims]:
  assumes "succeeds (run_return a) s b s'"
  obtains "b = a" "s' = s"
  using assms by (simp add: succeeds_def run_return_def)

lemma succeeds_bind [run_elims]:
  assumes "succeeds (run_bind m f) s b s''"
  obtains a s' where "succeeds m s a s'" "succeeds (f a) s' b s''"
  using assms by (auto simp: succeeds_def run_bind_def split: option.splits prod.splits sum.splits)

lemma succeeds_read [run_elims]:
  assumes "succeeds (run_read w f) s a s'"
  obtains "f s = Inr a" "s' = s"
  using assms by (auto simp: succeeds_def run_read_def split: sum.splits)

lemma sum_map_Inr:
  assumes "map_sum w id x = Inr a"
  obtains "x = Inr a"
  using assms by (cases x) auto

lemma succeeds_map_error [run_elims]:
  assumes "succeeds (run_map_error w m) s a s'"
  obtains "succeeds m s a s'"
proof -
  from assms have "succeeds m s a s'"
    by (auto simp: succeeds_def run_map_error_def elim!: sum_map_Inr)
  then show ?thesis by (rule that)
qed

lemma succeeds_if [run_elims]:
  assumes "succeeds (if c then m else n) s a s'"
  obtains "c" "succeeds m s a s'" | "\<not> c" "succeeds n s a s'"
  using assms by (cases c) auto

lemma succeeds_commit_tree [run_elims]:
  assumes "succeeds (commit_tree C c) s t s'"
  obtains "ts_get (rp_trees (cr_repo C)) s (cb_tree (cm_body c)) = Inr t" "s' = s"
  using assms unfolding commit_tree_def by (rule succeeds_read)

lemma succeeds_read_commit [run_elims]:
  assumes "succeeds (read_commit C h) s c s'"
  obtains "cr_commit C s h = Inr c" "s' = s"
  using assms unfolding read_commit_def by (rule succeeds_read)

lemma succeeds_flatten [run_elims]:
  assumes "succeeds (flatten_run C t) s fl s'"
  obtains "flatten_tree (rp_trees (cr_repo C)) s t = Some (Inr fl)" "s' = s"
  using assms by (auto simp: succeeds_def flatten_run_def split: option.splits sum.splits)

lemma succeeds_write_commit [run_elims]:
  assumes "succeeds (write_commit C body) s h s'"
  obtains "cr_put C s body = (Inr h, s')"
  using assms by (auto simp: succeeds_def write_commit_def split: prod.splits sum.splits)

section \<open>What is relied on of the commit graph\<close>

inductive reaches :: "('s, 'e, 'g) commit_repo \<Rightarrow> 's \<Rightarrow> hash \<Rightarrow> hash \<Rightarrow> bool" for C s where
  reaches_refl: "reaches C s h h"
| reaches_step: "cr_commit C s h = Inr c \<Longrightarrow> p \<in> set (parents c) \<Longrightarrow> reaches C s p h' \<Longrightarrow> reaches C s h h'"

definition commits_grow :: "('s, 'e, 'g) commit_repo \<Rightarrow> 's \<Rightarrow> 's \<Rightarrow> bool" where
  "commits_grow C s s' \<longleftrightarrow> (\<forall>h c. cr_commit C s h = Inr c \<longrightarrow> cr_commit C s' h = Inr c) \<and> repo_grows (cr_repo C) s s'"

text \<open>Objects are only added, a commit is read back as it was written, and the ancestor test answers
  yes only for a commit that can be reached over parents.\<close>

definition commit_repo_ok :: "('s, 'e, 'g) commit_repo \<Rightarrow> bool" where
  "commit_repo_ok C \<longleftrightarrow> repo_ok (cr_repo C) \<and>
    (\<forall>s b h s'. cr_put C s b = (Inr h, s') \<longrightarrow> cr_commit C s' h = Inr \<lparr>cm_hash = h, cm_body = b\<rparr>) \<and>
    (\<forall>s h c. cr_commit C s h = Inr c \<longrightarrow> cm_hash c = h) \<and>
    (\<forall>s b r s'. cr_put C s b = (r, s') \<longrightarrow> commits_grow C s s') \<and>
    (\<forall>s t r s'. ts_put (rp_trees (cr_repo C)) s t = (r, s') \<longrightarrow> commits_grow C s s') \<and>
    (\<forall>s x r s'. rp_write (cr_repo C) s x = (r, s') \<longrightarrow> commits_grow C s s') \<and>
    (\<forall>s a b. cr_ancestor C s a b = Inr True \<longrightarrow> reaches C s (cm_hash b) (cm_hash a))"


lemma commits_grow_refl [simp]: "commits_grow C s s"
  by (simp add: commits_grow_def)

lemma commits_grow_trans: "commits_grow C s s' \<Longrightarrow> commits_grow C s' s'' \<Longrightarrow> commits_grow C s s''"
  using repo_grows_trans [of "cr_repo C" s s' s''] by (simp add: commits_grow_def)

lemma reaches_trans: "reaches C s h h' \<Longrightarrow> reaches C s h' h'' \<Longrightarrow> reaches C s h h''"
  by (induction rule: reaches.induct) (auto intro: reaches_step)

lemma reaches_grows: "reaches C s h h' \<Longrightarrow> commits_grow C s s' \<Longrightarrow> reaches C s' h h'"
  by (induction rule: reaches.induct) (auto intro: reaches.intros simp: commits_grow_def)

section \<open>Everything a run does to the database is a write\<close>

text \<open>A relation that every write of a tree or blob respects is respected by the merge of trees.\<close>

definition write_closed :: "('s, 'e) git_repo \<Rightarrow> ('s \<Rightarrow> 's \<Rightarrow> bool) \<Rightarrow> bool" where
  "write_closed R G \<longleftrightarrow> (\<forall>s. G s s) \<and> (\<forall>s s' s''. G s s' \<longrightarrow> G s' s'' \<longrightarrow> G s s'') \<and>
    (\<forall>s t r s'. ts_put (rp_trees R) s t = (r, s') \<longrightarrow> G s s') \<and>
    (\<forall>s x r s'. rp_write R s x = (r, s') \<longrightarrow> G s s')"

lemma write_closed_refl: "write_closed R G \<Longrightarrow> G s s"
  unfolding write_closed_def by (elim conjE) (erule spec)

lemma write_closed_trans: "write_closed R G \<Longrightarrow> G s s' \<Longrightarrow> G s' s'' \<Longrightarrow> G s s''"
proof -
  assume "write_closed R G" and st: "G s s'" "G s' s''"
  then have "\<forall>s s' s''. G s s' \<longrightarrow> G s' s'' \<longrightarrow> G s s''"
    unfolding write_closed_def by (elim conjE) assumption
  from this [rule_format, OF st] show "G s s''" .
qed

lemma write_closed_put: "write_closed R G \<Longrightarrow> ts_put (rp_trees R) s t = (r, s') \<Longrightarrow> G s s'"
  unfolding write_closed_def by (elim conjE) simp

lemma write_closed_write: "write_closed R G \<Longrightarrow> rp_write R s x = (r, s') \<Longrightarrow> G s s'"
  unfolding write_closed_def by (elim conjE) simp

lemmas write_closedD = write_closed_refl write_closed_trans write_closed_put write_closed_write

lemma write_dir_closed:
  shows "write_dir S n s = (r, s') \<Longrightarrow> S = rp_trees R \<Longrightarrow> write_closed R G \<Longrightarrow> G s s'"
    and "write_dirs S ds es s = (rs, s') \<Longrightarrow> S = rp_trees R \<Longrightarrow> write_closed R G \<Longrightarrow> G s s'"
proof (induction S n s and S ds es s arbitrary: r s' and rs s' rule: write_dir_write_dirs.induct)
  case (1 S fs ds s)
  obtain w s1 where w: "write_dirs S ds (map snd fs) s = (w, s1)" by (cases "write_dirs S ds (map snd fs) s")
  then have g: "G s s1" using 1(1) 1(3,4) by blast
  show ?case
  proof (cases w)
    case (Inl e)
    then show ?thesis using 1(2) w g by simp
  next
    case (Inr t)
    with 1(2,3) w have "ts_put (rp_trees R) s1 (sort_slice tree_less t) = (r, s')" by simp
    from write_closedD(3) [OF 1(4) this] g show ?thesis using write_closedD(2) [OF 1(4)] by blast
  qed
next
  case (2 S entries s)
  then show ?case using write_closed_refl [of R G s] by (simp split: if_splits)
next
  case (3 S name child ds es s)
  obtain w s1 where w: "write_dir S child s = (w, s1)" by (cases "write_dir S child s")
  then have g: "G s s1" using 3(1,4,5) by blast
  show ?case
  proof (cases w)
    case (Inl e)
    with 3(3) w g show ?thesis by simp
  next
    case (Inr h)
    with 3(3) w have "write_dirs S ds (es @ [\<lparr>te_name = name, te_mode = dir_mode, te_hash = h\<rparr>]) s1 = (rs, s')" by simp
    with 3(2) [OF w [symmetric, unfolded Inr] refl] 3(4,5) have "G s1 s'" by blast
    with g show ?thesis using write_closedD(2) [OF 3(5)] by blast
  qed
qed

lemma write_tree_closed:
  "write_tree_from_flat (rp_trees R) m s = (r, s') \<Longrightarrow> write_closed R G \<Longrightarrow> G s s'"
  unfolding write_tree_from_flat_def by (rule write_dir_closed(1) [OF _ refl])

lemma merge_blobs_closed:
  assumes "merge_blobs diff R be oe te s = Some (r, s')" "write_closed R G"
  shows "G s s'"
proof (cases "s' = s")
  case True
  then show ?thesis using write_closed_refl [OF assms(2)] by simp
next
  case False
  then obtain x where "(case rp_write R s x of (Inl e, s') \<Rightarrow> Some (Inl e, s') | (Inr h, s') \<Rightarrow> Some (Inr (Some h), s'))
      = Some (r, s')"
    using assms(1) unfolding merge_blobs_def
    by (simp split: sum.split_asm option.split_asm if_split_asm prod.split_asm)
  then have "\<exists>w. rp_write R s x = (w, s')"
    by (auto split: prod.splits sum.splits)
  then show ?thesis using write_closed_write [OF assms(2)] by (elim exE)
qed

lemma merge_path_closed:
  assumes "merge_path E p acc s = Some (r, s')" "write_closed (me_repo E) G"
  shows "G s s'"
proof (cases "path_decision E p = MergeLines")
  case True
  with assms(1) obtain fe ue w where
    "merge_blobs (me_diff E) (me_repo E) (map_of (me_base E) p) fe ue s = Some (w, s')"
    by (auto simp: merge_path_def split: prod.splits option.splits sum.splits)
  then show ?thesis by (rule merge_blobs_closed [OF _ assms(2)])
next
  case False
  with assms write_closedD(1) [OF assms(2)] show ?thesis
    by (auto simp: merge_path_def split: prod.splits decision.splits)
qed

lemma merge_paths_closed:
  assumes "write_closed (me_repo E) G"
  shows "merge_paths E ps acc s = Some (r, s') \<Longrightarrow> G s s'"
proof (induction ps arbitrary: acc s)
  case Nil
  then show ?case using write_closedD(1) [OF assms] by simp
next
  case (Cons p ps)
  then obtain w s1 where w: "merge_path E p acc s = Some (w, s1)" by (cases "merge_path E p acc s") auto
  note g = merge_path_closed [OF w assms]
  show ?case
  proof (cases w)
    case (Inl e)
    with Cons.prems w g show ?thesis by simp
  next
    case (Inr a)
    with Cons.prems w have "merge_paths E ps a s1 = Some (r, s')" by simp
    from write_closedD(2) [OF assms g Cons.IH [OF this]] show ?thesis .
  qed
qed

lemma merge_flats_closed:
  assumes "merge_flats E order s = Some (r, s')" "write_closed (me_repo E) G"
  shows "G s s'"
proof -
  from assms(1) obtain w s1 where w:
    "merge_paths E (order (all_paths (me_base E) (me_fork E) (me_upstream E))) ([], empty_join) s = Some (w, s1)"
    by (auto simp: merge_flats_def split: option.splits)
  note g = merge_paths_closed [OF assms(2) w]
  show ?thesis
  proof (cases "s' = s1")
    case False
    with assms(1) w obtain m t where "write_tree_from_flat (rp_trees (me_repo E)) m s1 = (t, s')"
      by (auto simp: merge_flats_def Let_def split: sum.splits prod.splits if_splits)
    from write_closedD(2) [OF assms(2) g write_tree_closed [OF this assms(2)]] show ?thesis .
  qed (use g in simp)
qed

lemma merge_trees_closed:
  assumes "merge_trees diff R order b f u pol hold s = Some (r, s')" "write_closed R G"
  shows "G s s'"
proof (cases "s' = s")
  case False
  with assms(1) obtain E where "merge_flats E order s = Some (r, s')" "me_repo E = R"
    by (auto simp: merge_trees_def split: option.splits sum.splits)
  with merge_flats_closed [of E order s r s' G] assms(2) show ?thesis by simp
qed (use write_closedD(1) [OF assms(2)] in simp)

section \<open>The history a sync produces\<close>

lemma commits_write_closed: "commit_repo_ok C \<Longrightarrow> write_closed (cr_repo C) (commits_grow C)"
proof -
  assume ok: "commit_repo_ok C"
  show ?thesis
    unfolding write_closed_def
  proof (intro conjI allI impI)
    fix s s' s''
    assume "commits_grow C s s'" "commits_grow C s' s''"
    then show "commits_grow C s s''" by (rule commits_grow_trans)
  qed (use ok [unfolded commit_repo_ok_def] in \<open>elim conjE, simp\<close>)+
qed

lemma put_commit:
  assumes "commit_repo_ok C" "cr_put C s b = (Inr h, s')"
  shows "cr_commit C s' h = Inr \<lparr>cm_hash = h, cm_body = b\<rparr>" "commits_grow C s s'"
  using assms unfolding commit_repo_ok_def by (elim conjE, simp)+

lemma commit_hash: "commit_repo_ok C \<Longrightarrow> cr_commit C s h = Inr c \<Longrightarrow> cm_hash c = h"
  unfolding commit_repo_ok_def by (elim conjE) simp

lemma ancestor_reaches:
  "commit_repo_ok C \<Longrightarrow> cr_ancestor C s a b = Inr True \<Longrightarrow> reaches C s (cm_hash b) (cm_hash a)"
  unfolding commit_repo_ok_def by (elim conjE) simp

lemma trees_run_grows:
  assumes "succeeds (trees_run C b f u pol hold) s res s'" "commit_repo_ok C"
  shows "commits_grow C s s'"
  using assms(1) merge_trees_closed [OF _ commits_write_closed [OF assms(2)]]
  unfolding trees_run_def by (elim succeeds_map_error) (simp add: succeeds_def)

text \<open>Single-parent commits, oldest first, from one commit to another.\<close>

fun chain :: "('s, 'e, 'g) commit_repo \<Rightarrow> 's \<Rightarrow> hash \<Rightarrow> 'g commit list \<Rightarrow> hash \<Rightarrow> bool" where
  "chain C s h [] h' \<longleftrightarrow> h' = h"
| "chain C s h (c # cs) h' \<longleftrightarrow> cr_commit C s (cm_hash c) = Inr c \<and> parents c = [h] \<and> chain C s (cm_hash c) cs h'"

lemma chain_append: "chain C s h (cs @ ds) h' \<longleftrightarrow> (\<exists>m. chain C s h cs m \<and> chain C s m ds h')"
  by (induction cs arbitrary: h) auto

lemma chain_grows: "chain C s h cs h' \<Longrightarrow> commits_grow C s s' \<Longrightarrow> chain C s' h cs h'"
  by (induction cs arbitrary: h) (auto simp: commits_grow_def)

lemma chain_reaches: "chain C s h cs h' \<Longrightarrow> reaches C s h' h"
proof (induction cs arbitrary: h)
  case Nil
  then show ?case by (simp add: reaches_refl)
next
  case (Cons c cs)
  then have "reaches C s h' (cm_hash c)" by simp
  moreover have "reaches C s (cm_hash c) h"
    using Cons.prems by (auto intro: reaches_step [of C s _ c h] reaches_refl)
  ultimately show ?case by (rule reaches_trans)
qed

definition signature_of :: "'g commit \<Rightarrow> 'g \<times> 'g \<times> string" where
  "signature_of c = (cb_author (cm_body c), cb_committer (cm_body c), cb_message (cm_body c))"

text \<open>How the plan names a commit it drops: nine characters of the hash and the first line of the message.\<close>

definition dropped_name :: "'g commit \<Rightarrow> string" where
  "dropped_name c = take 9 (cm_hash c) @ '' '' @ first_line (cb_message (cm_body c))"

text \<open>What one commit of the replay does to the tip.\<close>

definition tip_step ::
  "('s, 'e, 'g) commit_repo \<Rightarrow> 's \<Rightarrow> 'g commit \<Rightarrow> 'g commit \<Rightarrow> sync_plan \<Rightarrow> 'g commit \<Rightarrow> sync_plan \<Rightarrow> bool" where
  "tip_step C s c tip plan tip' plan' \<longleftrightarrow>
     tip' = tip \<and> sp_dropped plan' = sp_dropped plan @ [dropped_name c] \<or>
     cr_commit C s (cm_hash tip') = Inr tip' \<and> parents tip' = [cm_hash tip] \<and> signature_of tip' = signature_of c \<and>
       sp_dropped plan' = sp_dropped plan"

lemma replay_joined_step:
  assumes "succeeds (replay_joined C c tip plan res) s (Inr (tip', plan')) s'" "commit_repo_ok C"
  shows "commits_grow C s s' \<and> tip_step C s' c tip plan tip' plan'"
proof (cases "jr_conflicts res = [] \<and> jr_tree res \<noteq> Some (cb_tree (cm_body tip))")
  case False
  then show ?thesis
    using assms(1) by (auto simp: replay_joined_def Let_def tip_step_def dropped_name_def elim!: succeeds_return split: if_splits)
next
  case True
  from assms(1) obtain h b where put: "cr_put C s b = (Inr h, s')" and h: "cr_commit C s' h = Inr tip'"
    and b: "cb_parents b = [cm_hash tip]" "(cb_author b, cb_committer b, cb_message b) = signature_of c"
      "sp_dropped plan' = sp_dropped plan"
    unfolding replay_joined_def Let_def by (simp add: True signature_of_def) (elim run_elims, simp)
  note p = put_commit [OF assms(2) put]
  from h p(1) have "tip' = \<lparr>cm_hash = h, cm_body = b\<rparr>" by simp
  with p b show ?thesis by (simp add: signature_of_def tip_step_def)
qed

lemma replay_commit_step:
  assumes "succeeds (replay_commit C pol c tip plan) s (Inr (tip', plan')) s'" "commit_repo_ok C"
  shows "commits_grow C s s' \<and> tip_step C s' c tip plan tip' plan'"
proof -
  from assms(1) obtain t0 t1 t2 res s1 where trees: "succeeds (trees_run C t0 t1 t2 pol False) s res s1"
    and joined: "succeeds (replay_joined C c tip plan res) s1 (Inr (tip', plan')) s'"
    unfolding replay_commit_def by (elim succeeds_bind succeeds_read_commit succeeds_commit_tree) blast
  from replay_joined_step [OF joined assms(2)] commits_grow_trans [OF trees_run_grows [OF trees assms(2)], of s']
  show ?thesis by simp
qed

lemma replay_loop_chain:
  assumes "commit_repo_ok C"
  shows "succeeds (replay_loop C pol cs tip plan) s (Inr (tip', plan')) s' \<Longrightarrow>
    commits_grow C s s' \<and> (\<exists>kept carried lost. chain C s' (cm_hash tip) kept (cm_hash tip') \<and>
      tip' = last (tip # kept) \<and> (kept \<noteq> [] \<longrightarrow> cr_commit C s' (cm_hash tip') = Inr tip') \<and>
      cs \<in> shuffles carried lost \<and> map signature_of kept = map signature_of carried \<and>
      sp_dropped plan' = sp_dropped plan @ map dropped_name lost)"
proof (induction cs arbitrary: tip plan s)
  case Nil
  then have "tip' = tip" "plan' = plan" "s' = s" by (auto elim!: succeeds_return)
  then show ?case by (intro conjI exI [of _ "[]"]) simp_all
next
  case (Cons c cs)
  from Cons.prems obtain t p s1 where step: "succeeds (replay_commit C pol c tip plan) s (Inr (t, p)) s1"
    and rest: "succeeds (replay_loop C pol cs t p) s1 (Inr (tip', plan')) s'"
    unfolding replay_loop.simps by (elim succeeds_bind) (auto split: sum.splits elim: succeeds_return)
  note st = replay_commit_step [OF step assms]
  from Cons.IH [OF rest] obtain kept carried lost where g: "commits_grow C s1 s'" and k: "chain C s' (cm_hash t) kept (cm_hash tip')"
    "tip' = last (t # kept)" "kept \<noteq> [] \<longrightarrow> cr_commit C s' (cm_hash tip') = Inr tip'"
    "cs \<in> shuffles carried lost" "map signature_of kept = map signature_of carried"
    "sp_dropped plan' = sp_dropped p @ map dropped_name lost"
    by blast
  have gs: "commits_grow C s s'" using st commits_grow_trans [OF _ g] by simp
  from st show ?case unfolding tip_step_def
  proof (elim conjE disjE)
    assume "t = tip" "sp_dropped p = sp_dropped plan @ [dropped_name c]"
    with k gs Cons_in_shuffles_rightI [OF k(4)] show ?thesis
      by (intro conjI exI [of _ kept] exI [of _ carried] exI [of _ "c # lost"]) simp_all
  next
    assume t: "cr_commit C s1 (cm_hash t) = Inr t" "parents t = [cm_hash tip]" "signature_of t = signature_of c"
      "sp_dropped p = sp_dropped plan"
    have "cr_commit C s' (cm_hash t) = Inr t" using t(1) g by (simp add: commits_grow_def)
    with k t gs Cons_in_shuffles_leftI [OF k(4)] show ?thesis
      by (intro conjI exI [of _ "t # kept"] exI [of _ "c # carried"] exI [of _ lost]) simp_all
  qed
qed

lemma own_commits_chain:
  assumes "own_commits C s base c ours = Some (Inr (Inr all))" "commit_repo_ok C" "cr_commit C s (cm_hash c) = Inr c"
  shows "\<exists>new. all = ours @ new \<and> chain C s base (rev new) (cm_hash c)"
proof -
  obtain r where run: "own_commits C s base c ours = Some r" and r: "r = Inr (Inr all)" using assms(1) by simp
  have "\<forall>all. r = Inr (Inr all) \<longrightarrow> commit_repo_ok C \<longrightarrow> cr_commit C s (cm_hash c) = Inr c \<longrightarrow>
      (\<exists>new. all = ours @ new \<and> chain C s base (rev new) (cm_hash c))"
  proof (rule own_commits.raw_induct [OF _ run])
    fix own C s base c ours r
    assume IH: "\<And>C s base c ours r. own C s base c ours = Some r \<Longrightarrow> \<forall>all. r = Inr (Inr all) \<longrightarrow> commit_repo_ok C \<longrightarrow>
        cr_commit C s (cm_hash c) = Inr c \<longrightarrow> (\<exists>new. all = ours @ new \<and> chain C s base (rev new) (cm_hash c))"
      and step: "(if cm_hash c = base then Some (Inr (Inr ours))
        else if length (parents c) \<noteq> 1 then Some (Inr (Inl c))
        else (case cr_commit C s (hd (parents c)) of Inl e \<Rightarrow> Some (Inl e) | Inr p \<Rightarrow> own C s base p (ours @ [c]))) = Some r"
    show "\<forall>all. r = Inr (Inr all) \<longrightarrow> commit_repo_ok C \<longrightarrow> cr_commit C s (cm_hash c) = Inr c \<longrightarrow>
        (\<exists>new. all = ours @ new \<and> chain C s base (rev new) (cm_hash c))"
    proof (intro allI impI)
      fix all
      assume r: "r = Inr (Inr all)" and ok: "commit_repo_ok C" and c: "cr_commit C s (cm_hash c) = Inr c"
      show "\<exists>new. all = ours @ new \<and> chain C s base (rev new) (cm_hash c)"
      proof (cases "cm_hash c = base")
        case True
        with step r show ?thesis by (intro exI [of _ "[]"]) simp
      next
        case False
        with step r obtain p where p: "length (parents c) = 1" "cr_commit C s (hd (parents c)) = Inr p"
          "own C s base p (ours @ [c]) = Some (Inr (Inr all))"
          by (auto split: if_splits sum.splits)
        from commit_hash [OF ok p(2)] p(2) have "cr_commit C s (cm_hash p) = Inr p" by simp
        with IH [OF p(3)] ok obtain new where "all = ours @ c # new" "chain C s base (rev new) (cm_hash p)" by auto
        moreover have "parents c = [cm_hash p]" using p(1) commit_hash [OF ok p(2)] by (cases "parents c") auto
        ultimately show ?thesis using c by (intro exI [of _ "c # new"]) (simp add: chain_append)
      qed
    qed
  qed
  with assms(2,3) r show ?thesis by simp
qed

text \<open>C18: A rebase keeps our work: when \<^verbatim>\<open>replay\<close> produces a tip, our commits form a straight line from the
  base to our head, the new tip ends a straight line on upstream's commit, and our line splits, each part
  in its order, into the commits that are carried over, with their author, committer and message, and the
  ones that are lost, of which the plan reports each by the start of its hash and its first line, and no
  other.\<close>

theorem replay_keeps_commits:
  assumes "commit_repo_ok C" "cr_commit C s (cm_hash head) = Inr head"
    "replay C base head target policy s = Some (Inr (Inr (tip, plan)), s')"
  shows "\<exists>ours kept carried lost. chain C s (cm_hash base) ours (cm_hash head) \<and>
    chain C s' (cm_hash target) kept (cm_hash tip) \<and> ours \<in> shuffles carried lost \<and>
    map signature_of kept = map signature_of carried \<and> sp_dropped plan = map dropped_name lost"
proof -
  from assms(3) obtain own where own: "own_commits C s (cm_hash base) head [] = Some (Inr (Inr own))"
    and loop: "succeeds (replay_loop C policy (rev own) target empty_plan) s (Inr (tip, plan)) s'"
    by (auto simp: replay_def succeeds_def split: option.splits sum.splits)
  from own_commits_chain [OF own assms(1,2)] have "chain C s (cm_hash base) (rev own) (cm_hash head)" by simp
  moreover from replay_loop_chain [OF assms(1) loop] obtain kept carried lost where
    "chain C s' (cm_hash target) kept (cm_hash tip)" "rev own \<in> shuffles carried lost"
    "map signature_of kept = map signature_of carried" "sp_dropped plan = map dropped_name lost"
    by (auto simp: empty_plan_def)
  ultimately show ?thesis by (intro exI conjI)
qed

lemma write_tree_grows:
  assumes "write_tree_from_flat (rp_trees (cr_repo C)) m s = (r, s')" "commit_repo_ok C"
  shows "commits_grow C s s'"
  by (rule write_tree_closed [OF assms(1) commits_write_closed [OF assms(2)]])

lemma succeeds_write_flat [run_elims]:
  assumes "succeeds (write_flat C m) s h s'"
  obtains "write_tree_from_flat (rp_trees (cr_repo C)) m s = (Inr h, s')"
  using assms by (auto simp: succeeds_def write_flat_def split: prod.splits sum.splits)

lemma commit_held_tip:
  assumes "succeeds (commit_held C tip opts tf held) s (tip', held') s'" "commit_repo_ok C"
  shows "held' = held \<and> commits_grow C s s' \<and>
    (held = [] \<and> tip' = tip \<and> s' = s \<or>
     (\<exists>tree s1. held \<noteq> [] \<and> write_tree_from_flat (rp_trees (cr_repo C)) tf s = (Inr tree, s1) \<and> commits_grow C s1 s' \<and>
       cr_commit C s' (cm_hash tip') = Inr tip' \<and> parents tip' = [cm_hash tip] \<and> cb_tree (cm_body tip') = tree))"
proof (cases "held = []")
  case True
  with assms(1) show ?thesis by (simp add: commit_held_def) (elim succeeds_return, simp)
next
  case False
  from assms(1) obtain tree s1 h b where w: "write_tree_from_flat (rp_trees (cr_repo C)) tf s = (Inr tree, s1)"
    and put: "cr_put C s1 b = (Inr h, s')" and h: "cr_commit C s' h = Inr tip'" "held' = held"
    and b: "cb_parents b = [cm_hash tip]" "cb_tree b = tree"
    unfolding commit_held_def by (simp add: False) (elim run_elims, simp)
  note p = put_commit [OF assms(2) put]
  from h p(1) have "tip' = \<lparr>cm_hash = h, cm_body = b\<rparr>" by simp
  with p b h w False commits_grow_trans [OF write_tree_grows [OF w assms(2)] p(2)] show ?thesis by simp
qed

lemma hold_files_runs:
  assumes "succeeds (hold_files C tip head up policy opts) s (tip', held) s'"
  obtains tt ht tf hf tf' where "ts_get (rp_trees (cr_repo C)) s (cb_tree (cm_body tip)) = Inr tt"
    "ts_get (rp_trees (cr_repo C)) s (cb_tree (cm_body head)) = Inr ht"
    "flatten_tree (rp_trees (cr_repo C)) s tt = Some (Inr tf)" "flatten_tree (rp_trees (cr_repo C)) s ht = Some (Inr hf)"
    "hold_loop policy hf up tf [] = (tf', held)" "succeeds (commit_held C tip opts tf' held) s (tip', held) s'"
proof -
  from assms obtain tt ht tf hf where *: "ts_get (rp_trees (cr_repo C)) s (cb_tree (cm_body tip)) = Inr tt"
    "ts_get (rp_trees (cr_repo C)) s (cb_tree (cm_body head)) = Inr ht"
    "flatten_tree (rp_trees (cr_repo C)) s tt = Some (Inr tf)" "flatten_tree (rp_trees (cr_repo C)) s ht = Some (Inr hf)"
    "succeeds (case hold_loop policy hf up tf [] of (tf', held) \<Rightarrow> commit_held C tip opts tf' held) s (tip', held) s'"
    unfolding hold_files_def by (elim succeeds_bind succeeds_commit_tree succeeds_flatten) simp
  obtain tf' h where l: "hold_loop policy hf up tf [] = (tf', h)" by (cases "hold_loop policy hf up tf []")
  with *(5) have c: "succeeds (commit_held C tip opts tf' h) s (tip', held) s'" by simp
  then have "held = h" unfolding commit_held_def by (auto elim!: run_elims)
  with * l c that show ?thesis by simp
qed

lemma hold_files_tip:
  assumes "succeeds (hold_files C tip head up policy opts) s (tip', held) s'" "commit_repo_ok C"
  shows "commits_grow C s s' \<and> reaches C s' (cm_hash tip') (cm_hash tip)"
proof -
  from assms(1) obtain tf' where "succeeds (commit_held C tip opts tf' held) s (tip', held) s'" by (rule hold_files_runs)
  from commit_held_tip [OF this assms(2)] show ?thesis
    using reaches_refl [of C s' "cm_hash tip"] reaches_step [OF _ _ reaches_refl, of C s' "cm_hash tip'" tip'] by auto
qed

section \<open>A sync contains both sides\<close>

definition contains_both :: "('s, 'e, 'g) commit_repo \<Rightarrow> 's \<Rightarrow> hash \<Rightarrow> hash \<Rightarrow> sync_plan \<Rightarrow> bool" where
  "contains_both C s head target plan \<longleftrightarrow>
     (case sp_new_head plan of
        None \<Rightarrow> sp_result plan = ''conflict''
      | Some h \<Rightarrow> sp_result plan \<in> {''in-sync'', ''synced''} \<and> reaches C s h target \<and> (sp_rewrites plan \<or> reaches C s h head))"

lemma contains_conflict [simp]: "contains_both C s head target (sync_conflict ps why)"
  by (simp add: contains_both_def sync_conflict_def empty_plan_def)

lemma finish_plan_contains:
  assumes "succeeds (finish_plan C tip headC up policy opts plan) s plan' s'" "commit_repo_ok C"
    "reaches C s (cm_hash tip) target" "sp_rewrites plan \<or> reaches C s (cm_hash tip) head"
  shows "contains_both C s' head target plan'"
proof -
  from assms(1) obtain tip' held where hold: "succeeds (hold_files C tip headC up policy opts) s (tip', held) s'"
    and plan': "plan' = plan\<lparr>sp_result := ''synced'', sp_new_head := Some (cm_hash tip'), sp_held := union_paths (sp_held plan) held\<rparr>"
    unfolding finish_plan_def by (elim succeeds_bind) (auto elim: succeeds_return)
  from hold_files_tip [OF hold assms(2)] have g: "commits_grow C s s'" and t: "reaches C s' (cm_hash tip') (cm_hash tip)"
    by simp_all
  show ?thesis
    using reaches_trans [OF t reaches_grows [OF assms(3) g]] reaches_trans [OF t reaches_grows [OF _ g], of head] assms(4)
    by (auto simp: contains_both_def plan')
qed

lemma merge_result_contains:
  assumes "succeeds (merge_result C opts head target res) s plan s'" "commit_repo_ok C"
  shows "contains_both C s' head target plan"
proof (cases "jr_conflicts res = []")
  case True
  with assms(1) obtain h b where put: "cr_put C s b = (Inr h, s')" and b: "cb_parents b = [head, target]"
    and plan: "plan = empty_plan\<lparr>sp_result := ''synced'', sp_new_head := Some h, sp_held := jr_held res, sp_overridden := jr_overridden res\<rparr>"
    unfolding merge_result_def by simp (elim run_elims, simp)
  from put_commit(1) [OF assms(2) put] have c: "cr_commit C s' h = Inr \<lparr>cm_hash = h, cm_body = b\<rparr>" .
  have "reaches C s' h head" "reaches C s' h target"
    using reaches_step [OF c _ reaches_refl] b by simp_all
  with plan show ?thesis by (simp add: contains_both_def empty_plan_def)
next
  case False
  with assms(1) show ?thesis by (simp add: merge_result_def) (elim succeeds_return, simp)
qed

lemma merge_strategy_contains:
  assumes "succeeds (merge_strategy C base headC targetC policy opts head target) s plan s'" "commit_repo_ok C"
  shows "contains_both C s' head target plan"
  using assms(1) unfolding merge_strategy_def
  by (elim succeeds_bind) (rule merge_result_contains [OF _ assms(2)])

lemma changed_paths_state: "succeeds (changed_paths C old new) s up s' \<Longrightarrow> s' = s"
  unfolding changed_paths_def by (elim succeeds_bind succeeds_commit_tree succeeds_flatten succeeds_return) simp

lemma replay_reaches:
  assumes "succeeds (replay C base head target policy) s (Inr (tip, plan)) s'" "commit_repo_ok C"
  shows "commits_grow C s s' \<and> reaches C s' (cm_hash tip) (cm_hash target)"
proof -
  from assms(1) obtain own where "succeeds (replay_loop C policy (rev own) target empty_plan) s (Inr (tip, plan)) s'"
    by (auto simp: replay_def succeeds_def split: option.splits sum.splits)
  from replay_loop_chain [OF assms(2) this] obtain kept where
    "commits_grow C s s'" "chain C s' (cm_hash target) kept (cm_hash tip)" by blast
  with chain_reaches [of C s' "cm_hash target" kept "cm_hash tip"] show ?thesis by simp
qed

lemma replay_conflict:
  assumes "succeeds (replay C base head target policy) s (Inl plan) s'"
  shows "\<exists>ps why. plan = sync_conflict ps why"
proof -
  have joined: "\<exists>ps why. plan = sync_conflict ps why"
    if "succeeds (replay_joined C c tip p res) s (Inl plan) s'" for c tip p res s
    using that unfolding replay_joined_def Let_def by (auto elim!: run_elims)
  have commit: "\<exists>ps why. plan = sync_conflict ps why" if "succeeds (replay_commit C policy c tip p) s (Inl plan) s'" for c tip p s
    using that joined unfolding replay_commit_def by (elim succeeds_bind) simp
  have loop: "succeeds (replay_loop C policy cs tip p) s (Inl plan) s' \<Longrightarrow> \<exists>ps why. plan = sync_conflict ps why" for cs tip p s
  proof (induction cs arbitrary: tip p s)
    case Nil
    then show ?case by (auto elim: succeeds_return)
  next
    case (Cons c cs)
    from Cons.prems obtain r s1 where "succeeds (replay_commit C policy c tip p) s r s1"
      and "succeeds (case r of Inl conflict \<Rightarrow> run_return (Inl conflict) | Inr (tip', plan') \<Rightarrow> replay_loop C policy cs tip' plan') s1 (Inl plan) s'"
      unfolding replay_loop.simps by (elim succeeds_bind) simp
    with commit Cons.IH show ?case by (cases r) (auto elim!: succeeds_return)
  qed
  from assms have "(\<exists>why. plan = sync_conflict [] why) \<or>
      (\<exists>own. succeeds (replay_loop C policy (rev own) target empty_plan) s (Inl plan) s')"
    unfolding replay_def succeeds_def by (simp split: option.splits sum.splits) metis+
  with loop show ?thesis by blast
qed

lemma join_plan_contains:
  assumes "succeeds (join_plan C ff base headC targetC opts head target) s plan s'" "commit_repo_ok C"
    "cr_commit C s head = Inr headC" "cr_commit C s target = Inr targetC" "ff \<Longrightarrow> reaches C s target head"
  shows "contains_both C s' head target plan"
proof -
  define policy where "policy = (case so_policy opts of None \<Rightarrow> (\<lambda>_. take_merge) | Some pol \<Rightarrow> pol)"
  have h: "cm_hash targetC = target" by (rule commit_hash [OF assms(2,4)])
  from assms(1) obtain up s1 where up: "succeeds (changed_paths C base targetC) s up s1"
    and run: "succeeds (let review = filter (\<lambda>p. policy p = take_review) up in
         if review \<noteq> [] then run_return (sync_conflict review ''upstream changed files marked review'')
         else if ff then finish_plan C targetC headC up policy opts empty_plan
         else if so_strategy opts = ''merge'' then merge_strategy C base headC targetC policy opts head target
         else
           run_bind (replay C base headC targetC policy) (\<lambda>r.
             case r of
               Inl conflict \<Rightarrow> run_return conflict
             | Inr (tip, plan) \<Rightarrow> finish_plan C tip headC up policy opts (plan\<lparr>sp_rewrites := True\<rparr>))) s1 plan s'"
    unfolding join_plan_def Let_def policy_def by (elim succeeds_bind)
  note s1 = changed_paths_state [OF up]
  from run [unfolded Let_def s1] show ?thesis
  proof (elim succeeds_if)
    assume "succeeds (run_return (sync_conflict (filter (\<lambda>p. policy p = take_review) up) ''upstream changed files marked review'')) s plan s'"
    then show ?thesis by (elim succeeds_return) simp
  next
    assume ff: "ff" and run: "succeeds (finish_plan C targetC headC up policy opts empty_plan) s plan s'"
    show ?thesis
      by (rule finish_plan_contains [OF run assms(2)]) (simp_all add: h assms(5) [OF ff] reaches_refl)
  next
    assume "succeeds (merge_strategy C base headC targetC policy opts head target) s plan s'"
    then show ?thesis by (rule merge_strategy_contains [OF _ assms(2)])
  next
    assume "succeeds (run_bind (replay C base headC targetC policy) (\<lambda>r. case r of
        Inl conflict \<Rightarrow> run_return conflict
      | Inr (tip, plan) \<Rightarrow> finish_plan C tip headC up policy opts (plan\<lparr>sp_rewrites := True\<rparr>))) s plan s'"
    then obtain r s2 where r: "succeeds (replay C base headC targetC policy) s r s2"
      and rest: "succeeds (case r of Inl conflict \<Rightarrow> run_return conflict
        | Inr (tip, plan) \<Rightarrow> finish_plan C tip headC up policy opts (plan\<lparr>sp_rewrites := True\<rparr>)) s2 plan s'"
      by (elim succeeds_bind)
    show ?thesis
    proof (cases r)
      case (Inl c)
      with replay_conflict r rest show ?thesis by (fastforce elim: succeeds_return)
    next
      case (Inr x)
      then obtain tip p where x: "r = Inr (tip, p)" by (cases x) simp
      from replay_reaches [OF r [unfolded x] assms(2)] rest show ?thesis
        by (auto simp: x h intro: finish_plan_contains [OF _ assms(2)])
    qed
  qed
qed

text \<open>C16: A sync never loses either side: a plan that was made either reports a conflict and names no new
  head, or its new head has upstream's commit in its history - and our old head too, unless the plan
  says that it rewrites (a rebase).\<close>

theorem plan_sync_contains_both:
  assumes "commit_repo_ok C" "plan_sync C head target opts s = Some (Inr plan, s')"
  shows "case sp_new_head plan of
      None \<Rightarrow> sp_result plan = ''conflict''
    | Some h \<Rightarrow> sp_result plan \<in> {''in-sync'', ''synced''} \<and> reaches C s' h target \<and>
        (sp_rewrites plan \<or> reaches C s' h head)"
proof -
  note conts = contains_both_def empty_plan_def
  have "succeeds (plan_sync C head target opts) s plan s'" using assms(2) by (simp add: succeeds_def)
  then have "contains_both C s' head target plan"
    unfolding plan_sync_def
  proof (elim succeeds_bind succeeds_read succeeds_if)
    fix headC s1 targetC s2 in_history s3
    assume h: "cr_commit C s head = Inr headC" "s1 = s" "cr_commit C s1 target = Inr targetC" "s2 = s1"
      "cr_ancestor C s2 targetC headC = Inr in_history" "s3 = s2" "in_history \<or> head = target"
      "succeeds (run_return (empty_plan\<lparr>sp_result := ''in-sync'', sp_new_head := Some head\<rparr>)) s3 plan s'"
    then have "reaches C s head target"
      using ancestor_reaches [OF assms(1), of s targetC headC] commit_hash [OF assms(1)] reaches_refl [of C s target] by auto
    with h show ?thesis by (elim succeeds_return) (simp add: conts reaches_refl)
  next
    fix headC s1 targetC s2 in_history s3 ff s4
    assume h: "cr_commit C s head = Inr headC" "s1 = s" "cr_commit C s1 target = Inr targetC" "s2 = s1" "s3 = s2"
      "cr_ancestor C s3 headC targetC = Inr ff" "s4 = s3" ff
      "succeeds (run_return (empty_plan\<lparr>sp_result := ''synced'', sp_new_head := Some target\<rparr>)) s4 plan s'"
    then have "reaches C s target head"
      using ancestor_reaches [OF assms(1), of s headC targetC] commit_hash [OF assms(1)] by auto
    with h show ?thesis by (elim succeeds_return) (simp add: conts reaches_refl)
  next
    fix headC s1 targetC s2 in_history s3 ff s4
    assume h: "cr_commit C s head = Inr headC" "s1 = s" "cr_commit C s1 target = Inr targetC" "s2 = s1" "s3 = s2"
      "cr_ancestor C s3 headC targetC = Inr ff" "s4 = s3" ff
      "succeeds (join_plan C ff headC headC targetC opts head target) s4 plan s'"
    then have "reaches C s target head"
      using ancestor_reaches [OF assms(1), of s headC targetC] commit_hash [OF assms(1)] by auto
    with h show ?thesis using join_plan_contains [OF _ assms(1), of ff headC headC targetC opts head target s plan s'] by simp
  next
    fix headC s1 targetC s2 in_history s3 ff s4 bases s5
    assume h: "cr_commit C s head = Inr headC" "s1 = s" "cr_commit C s1 target = Inr targetC" "s2 = s1" "s3 = s2"
      "s4 = s3" "\<not> ff" "s5 = s4"
      "succeeds (join_plan C ff (hd bases) headC targetC opts head target) s5 plan s'"
    then show ?thesis using join_plan_contains [OF _ assms(1), of ff "hd bases" headC targetC opts head target s plan s'] by simp
  qed (auto elim: succeeds_return)
  then show ?thesis by (simp add: contains_both_def)
qed

section \<open>What the held commit's tree is\<close>

text \<open>The flat tree of a commit.\<close>

definition commit_flat :: "('s, 'e, 'g) commit_repo \<Rightarrow> 's \<Rightarrow> 'g commit \<Rightarrow> flat option" where
  "commit_flat C s c =
     (case ts_get (rp_trees (cr_repo C)) s (cb_tree (cm_body c)) of
        Inl _ \<Rightarrow> None
      | Inr t \<Rightarrow> (case flatten_tree (rp_trees (cr_repo C)) s t of Some (Inr fl) \<Rightarrow> Some fl | _ \<Rightarrow> None))"

definition held_at :: "policy \<Rightarrow> flat \<Rightarrow> flat \<Rightarrow> string \<Rightarrow> bool" where
  "held_at policy hf tf p \<longleftrightarrow> policy p = take_fork \<and> \<not> same_entry (map_of hf p) (map_of tf p)"

lemma hold_loop_spec:
  "distinct ps \<Longrightarrow> distinct (map fst tf) \<Longrightarrow> hold_loop policy hf ps tf held = (tf', held') \<Longrightarrow>
    held' = held @ filter (held_at policy hf tf) ps \<and> distinct (map fst tf') \<and>
    (\<forall>p. map_of tf' p = (if p \<in> set ps \<and> held_at policy hf tf p then map_of hf p else map_of tf p))"
proof (induction ps arbitrary: tf held)
  case (Cons q ps)
  define tf1 where "tf1 = (case map_of hf q of Some want \<Rightarrow> AList.update q want tf | None \<Rightarrow> AList.delete q tf)"
  show ?case
  proof (cases "held_at policy hf tf q")
    case False
    with Cons.prems have "hold_loop policy hf ps tf held = (tf', held')"
      by (simp add: held_at_def split: if_splits)
    from Cons.IH [OF _ Cons.prems(2) this] Cons.prems(1) False show ?thesis by auto
  next
    case True
    then have run: "hold_loop policy hf ps tf1 (held @ [q]) = (tf', held')"
      using Cons.prems(3) by (simp add: held_at_def tf1_def)
    have d: "distinct (map fst tf1)"
      using Cons.prems(2) by (simp add: tf1_def distinct_update distinct_delete split: option.splits)
    have m: "map_of tf1 = (map_of tf)(q := map_of hf q)"
      by (auto simp: tf1_def update_conv' delete_conv' split: option.splits)
    have eq: "held_at policy hf tf1 p = held_at policy hf tf p" if "p \<noteq> q" for p
      using that by (simp add: held_at_def m)
    have "filter (held_at policy hf tf1) ps = filter (held_at policy hf tf) ps"
    proof (rule filter_cong [OF refl])
      fix p assume "p \<in> set ps"
      with Cons.prems(1) have "p \<noteq> q" by auto
      then show "held_at policy hf tf1 p = held_at policy hf tf p" by (rule eq)
    qed
    with Cons.IH [OF _ d run] Cons.prems(1) True m eq show ?thesis by auto
  qed
qed simp

lemma flatten_entries_distinct:
  "distinct (map fst f) \<Longrightarrow> flatten_entries S s pre t es stack f = Inr (stack', f') \<Longrightarrow> distinct (map fst f')"
proof (induction es arbitrary: stack f)
  case (Cons e es)
  show ?case
  proof (cases "te_mode e = dir_mode")
    case True
    with Cons show ?thesis by (auto simp: Let_def split: sum.splits)
  next
    case False
    with Cons.prems(2) have "flatten_entries S s pre t es stack
        (AList.update (path_in pre (te_name e)) (e\<lparr>te_name := path_in pre (te_name e)\<rparr>) f) = Inr (stack', f')"
      by (simp add: Let_def)
    from Cons.IH [OF distinct_update [OF Cons.prems(1)] this] show ?thesis .
  qed
qed simp

lemma update_subset: "set (AList.update k v al) \<subseteq> insert (k, v) (set al)"
  by (induction al) auto

lemma flatten_entries_files:
  "files_only f \<Longrightarrow> flatten_entries S s pre t es stack f = Inr (stack', f') \<Longrightarrow> files_only f'"
proof (induction es arbitrary: stack f)
  case (Cons e es)
  show ?case
  proof (cases "te_mode e = dir_mode")
    case True
    with Cons show ?thesis by (auto simp: Let_def split: sum.splits)
  next
    case False
    let ?p = "path_in pre (te_name e)"
    have run: "flatten_entries S s pre t es stack (AList.update ?p (e\<lparr>te_name := ?p\<rparr>) f) = Inr (stack', f')"
      using Cons.prems(2) False by (simp add: Let_def)
    have "files_only (AList.update ?p (e\<lparr>te_name := ?p\<rparr>) f)"
      using Cons.prems(1) False update_subset [of ?p "e\<lparr>te_name := ?p\<rparr>" f]
      by (auto simp: files_only_def list_all_iff distinct_update)
    then show ?thesis by (rule Cons.IH [OF _ run])
  qed
qed simp

lemma flatten_files:
  assumes "flatten_tree S s t = Some (Inr fl)"
  shows "files_only fl"
proof -
  have "\<forall>fl. r = Inr fl \<longrightarrow> files_only f \<longrightarrow> files_only fl" if "flatten_loop S s st f = Some r"
    for S :: "('s, 'e) tree_store" and s st f r
    by (rule flatten_loop.raw_induct [OF _ that, where P = "\<lambda>_ _ _ f r. \<forall>fl. r = Inr fl \<longrightarrow> files_only f \<longrightarrow> files_only fl"])
      (auto split: if_splits sum.splits dest: flatten_entries_files [rotated])
  from this [OF assms [unfolded flatten_tree_def]] show ?thesis by (simp add: files_only_def)
qed

text \<open>The tree with our head's version of the changed paths that are marked fork, and its paths.\<close>

definition fork_kept :: "policy \<Rightarrow> string list \<Rightarrow> flat \<Rightarrow> flat \<Rightarrow> string \<Rightarrow> tree_entry option" where
  "fork_kept policy up hf tf p = map_of (if p \<in> set up \<and> policy p = ''fork'' then hf else tf) p"

definition kept_paths :: "policy \<Rightarrow> string list \<Rightarrow> flat \<Rightarrow> flat \<Rightarrow> string list" where
  "kept_paths policy up hf tf = filter (\<lambda>p. fork_kept policy up hf tf p \<noteq> None) (remdups (map fst hf @ map fst tf))"

lemma kept_paths_set: "p \<in> set (kept_paths policy up hf tf) \<longleftrightarrow> fork_kept policy up hf tf p \<noteq> None"
proof -
  have "p \<in> fst ` set hf \<or> p \<in> fst ` set tf" if "fork_kept policy up hf tf p = Some e" for e
    using that map_of_SomeD [of hf p e] map_of_SomeD [of tf p e] by (force simp: fork_kept_def split: if_splits)
  then show ?thesis by (auto simp: kept_paths_def)
qed

lemma same_entry_None: "same_entry x y \<Longrightarrow> x = None \<longleftrightarrow> y = None"
  by (auto simp: same_entry_def split: option.splits)

lemma held_flat:
  assumes "distinct up" "files_only tf" "files_only hf" "hold_loop policy hf up tf [] = (tf', held)"
  shows "held = filter (held_at policy hf tf) up" "same_entry (map_of tf' p) (fork_kept policy up hf tf p)"
    "plain_paths (kept_paths policy up hf tf) \<Longrightarrow> flat_ok tf'"
    "held = [] \<Longrightarrow> map_of tf' p = map_of tf p"
proof -
  have dist: "distinct (map fst tf)" using assms(2) by (simp add: files_only_def)
  from hold_loop_spec [OF assms(1) dist assms(4)]
  have held: "held = filter (held_at policy hf tf) up" and dist': "distinct (map fst tf')"
    and spec: "map_of tf' p = (if p \<in> set up \<and> held_at policy hf tf p then map_of hf p else map_of tf p)" for p
    by simp_all
  have want: "same_entry (map_of tf' p) (fork_kept policy up hf tf p)" for p
    using same_entry_sym [of "map_of hf p" "map_of tf p"] by (auto simp: spec held_at_def fork_kept_def take_fork_def)
  show "held = filter (held_at policy hf tf) up" "same_entry (map_of tf' p) (fork_kept policy up hf tf p)"
    by (rule held) (rule want)
  show "map_of tf' p = map_of tf p" if "held = []"
    using held that by (auto simp: spec filter_empty_conv dest: sym)
  assume plain: "plain_paths (kept_paths policy up hf tf)"
  have entry: "te_mode e \<noteq> dir_mode \<and> p \<in> set (kept_paths policy up hf tf)" if "(p, e) \<in> set tf'" for p e
  proof -
    have m: "map_of tf' p = Some e" using that dist' by simp
    then have "te_mode e \<noteq> dir_mode"
      using files_only_entry [OF assms(2), of p e] files_only_entry [OF assms(3), of p e] by (simp add: spec split: if_splits)
    moreover have "p \<in> set (kept_paths policy up hf tf)"
      unfolding kept_paths_set using same_entry_None [OF want [of p]] m by simp
    ultimately show ?thesis ..
  qed
  have "clash_free tf'" unfolding clash_free_def list_all_iff
  proof (intro ballI, clarify)
    fix p e q e' assume "(p, e) \<in> set tf'" "(q, e') \<in> set tf'" "strict_prefix (path_parts p) (path_parts q)"
    with entry plain show False by (auto simp: plain_paths_def list_all_iff)
  qed
  moreover have "list_all (\<lambda>(p, e). te_mode e \<noteq> dir_mode \<and> \<not> has_prefix p ''/'') tf'"
    using entry plain by (fastforce simp: plain_paths_def list_all_iff)
  ultimately show "flat_ok tf'" using dist' by (simp add: flat_ok_def)
qed

text \<open>C17: A file the policy keeps for the fork survives, where the paths that stay do not name a file below
  a file: the tip \<^verbatim>\<open>holdFiles\<close> returns has our head's entry (or none, where our head has none) at every path
  upstream changed that is marked fork, the old tip's entry everywhere else, and the list of held paths
  names exactly those that differed.\<close>

theorem hold_files_keeps_fork:
  assumes "commit_repo_ok C" "distinct up" "hold_files C tip head up policy opts s = Some (Inr (tip', held), s')"
    "commit_flat C s tip = Some tf" "commit_flat C s head = Some hf" "plain_paths (kept_paths policy up hf tf)"
  shows "held = filter (\<lambda>p. policy p = ''fork'' \<and> \<not> same_entry (map_of hf p) (map_of tf p)) up \<and>
    (\<exists>fl. commit_flat C s' tip' = Some fl \<and> (\<forall>p. same_entry (map_of fl p) (fork_kept policy up hf tf p)))"
proof -
  have "succeeds (hold_files C tip head up policy opts) s (tip', held) s'" using assms(3) by (simp add: succeeds_def)
  then obtain tt ht tf1 hf1 tf' where r: "ts_get (rp_trees (cr_repo C)) s (cb_tree (cm_body tip)) = Inr tt"
    "ts_get (rp_trees (cr_repo C)) s (cb_tree (cm_body head)) = Inr ht"
    "flatten_tree (rp_trees (cr_repo C)) s tt = Some (Inr tf1)" "flatten_tree (rp_trees (cr_repo C)) s ht = Some (Inr hf1)"
    "hold_loop policy hf1 up tf1 [] = (tf', held)" "succeeds (commit_held C tip opts tf' held) s (tip', held) s'"
    by (rule hold_files_runs)
  with assms(4,5) have eq: "tf1 = tf" "hf1 = hf" by (simp_all add: commit_flat_def)
  note flat = held_flat [OF assms(2) flatten_files [OF r(3)] flatten_files [OF r(4)] r(5), unfolded eq]
  have "\<exists>fl. commit_flat C s' tip' = Some fl \<and> (\<forall>p. same_entry (map_of fl p) (map_of tf' p))"
  proof (cases "held = []")
    case True
    with r(6) have "tip' = tip" "s' = s" unfolding commit_held_def by (auto elim: succeeds_return)
    with flat(4) [OF True] show ?thesis using assms(4) by simp
  next
    case False
    with commit_held_tip [OF r(6) assms(1)] obtain tree s1 where
      w: "write_tree_from_flat (rp_trees (cr_repo C)) tf' s = (Inr tree, s1)" and g: "commits_grow C s1 s'"
      and t: "cb_tree (cm_body tip') = tree" by blast
    have ok: "tree_store_ok (rp_trees (cr_repo C))" "flat_ok tf'" "store_grows (rp_trees (cr_repo C)) s1 s'"
      using assms(1) g flat(3) [OF assms(6)] by (simp_all add: commit_repo_ok_def repo_ok_def commits_grow_def repo_grows_def)
    from flatten_written_later [OF ok(1,2) w ok(3)] obtain t' fl where
      "ts_get (rp_trees (cr_repo C)) s' tree = Inr t'" "flatten_tree (rp_trees (cr_repo C)) s' t' = Some (Inr fl)"
      and fl: "distinct (map fst fl)" "set fl = set (named tf')" by blast
    then have "commit_flat C s' tip' = Some fl" by (simp add: commit_flat_def t)
    moreover have "map_of fl = map_of (named tf')"
      using fl ok(2) by (subst map_of_inject_set) (auto simp: flat_ok_def)
    moreover have "same_entry (map_of (named tf') p) (map_of tf' p)" for p
      by (induction tf') (auto simp: named_def same_entry_def split: option.splits)
    ultimately show ?thesis by auto
  qed
  then obtain fl where fl: "commit_flat C s' tip' = Some fl" "\<And>p. same_entry (map_of fl p) (map_of tf' p)" by blast
  have "same_entry (map_of fl p) (fork_kept policy up hf tf p)" for p
    by (rule same_entry_trans [OF fl(2) flat(2)])
  with fl(1) flat(1) show ?thesis by (simp add: held_at_def [abs_def] take_fork_def)
qed

text \<open>The condition is needed: where upstream turned a file the fork holds into a directory, the fork's file is
  set beside what upstream keeps below that name, and the tree to be written has a file below a file.\<close>

theorem held_file_over_directory:
  assumes "hold_loop policy hf up tf [] = (tf', held)" "distinct up" "distinct (map fst tf)"
    and "p \<in> set up" "policy p = ''fork''" "map_of hf p = Some f" "map_of tf p = None"
    and "map_of tf (p @ ''/'' @ q) = Some u" "policy (p @ ''/'' @ q) \<noteq> ''fork''"
  shows "map_of tf' p = Some f \<and> map_of tf' (p @ ''/'' @ q) = Some u \<and> \<not> flat_ok tf'"
proof -
  from hold_loop_spec [OF assms(2,3,1)]
  have spec: "map_of tf' x = (if x \<in> set up \<and> held_at policy hf tf x then map_of hf x else map_of tf x)" for x by simp
  have m: "map_of tf' p = Some f" "map_of tf' (p @ ''/'' @ q) = Some u"
    using assms(4-9) by (simp_all add: spec held_at_def same_entry_def take_fork_def)
  have "strict_prefix (path_parts p) (path_parts (p @ ''/'' @ q))"
    by (simp add: split_on_append strict_prefix_def)
  then have "\<not> clash_free tf'"
    unfolding clash_free_def list_all_iff using map_of_SomeD [OF m(1)] map_of_SomeD [OF m(2)] by fast
  with m show ?thesis by (simp add: flat_ok_def)
qed

section \<open>A concrete sync\<close>

text \<open>A database that knows finitely many objects; the ancestor test walks the parents.\<close>

fun ancestor_in :: "(hash \<times> 'g commit_body) list \<Rightarrow> nat \<Rightarrow> hash \<Rightarrow> hash \<Rightarrow> bool" where
  "ancestor_in tab 0 h h' \<longleftrightarrow> h = h'"
| "ancestor_in tab (Suc n) h h' \<longleftrightarrow> h = h' \<or>
     (case map_of tab h of None \<Rightarrow> False | Some b \<Rightarrow> list_ex (\<lambda>p. ancestor_in tab n p h') (cb_parents b))"

definition table_commits ::
  "(tree \<times> hash) list \<Rightarrow> (string \<times> hash) list \<Rightarrow> (hash \<times> string commit_body) list \<Rightarrow> hash list \<Rightarrow> (unit, string, string) commit_repo" where
  "table_commits trees blobs tab bases =
     (let get = (\<lambda>h. case map_of tab h of None \<Rightarrow> Inl ''no commit'' | Some b \<Rightarrow> Inr \<lparr>cm_hash = h, cm_body = b\<rparr>) in
      \<lparr>cr_repo = table_repo trees blobs, cr_diff = demo_diff, cr_order = id, cr_commit = (\<lambda>_. get),
       cr_put = (\<lambda>s b. (case map_of (map prod.swap tab) b of None \<Rightarrow> Inl ''unknown commit'' | Some h \<Rightarrow> Inr h, s)),
       cr_ancestor = (\<lambda>_ a b. Inr (ancestor_in tab (length tab) (cm_hash b) (cm_hash a))),
       cr_merge_bases = (\<lambda>_ _ _. Inr (map (\<lambda>h. \<lparr>cm_hash = h, cm_body = the (map_of tab h)\<rparr>) bases))\<rparr>)"

lemma ancestor_in_reaches:
  "ancestor_in tab n h h' \<Longrightarrow> reaches (table_commits trees blobs tab bases) s h h'"
proof (induction n arbitrary: h)
  case 0
  then show ?case by (simp add: reaches_refl)
next
  case (Suc n)
  show ?case
  proof (cases "h = h'")
    case False
    with Suc.prems obtain b p where b: "map_of tab h = Some b" "p \<in> set (cb_parents b)" "ancestor_in tab n p h'"
      by (auto simp: list_ex_iff split: option.splits)
    show ?thesis
      by (rule reaches_step [OF _ _ Suc.IH [OF b(3)], where c = "\<lparr>cm_hash = h, cm_body = b\<rparr>"])
        (simp_all add: table_commits_def Let_def b)
  qed (simp add: reaches_refl)
qed

lemma table_commits_ok:
  assumes "distinct (map snd trees)" "distinct (map snd blobs)" "distinct (map fst tab)" "distinct (map snd tab)"
  shows "commit_repo_ok (table_commits trees blobs tab bases)"
proof -
  have sw: "map_of tab h = Some b" if "map_of (map prod.swap tab) b = Some h" for h b
  proof -
    have "(h, b) \<in> set tab" using map_of_SomeD [OF that] by auto
    with assms(3) show ?thesis by simp
  qed
  have R: "cr_repo (table_commits trees blobs tab bases) = table_repo trees blobs" by (simp add: table_commits_def Let_def)
  have unit: "commits_grow (table_commits trees blobs tab bases) s s'" for s s' by simp
  show ?thesis
    unfolding commit_repo_ok_def R
    using table_repo_ok [OF assms(1,2)] sw ancestor_in_reaches [of tab "length tab"] unit
    by (auto simp: table_commits_def Let_def split: option.splits)
qed

definition demo_sync_trees :: "(tree \<times> hash) list" where
  "demo_sync_trees =
     [([demo_file ''README'' ''r0'', demo_file ''api'' ''a0''], ''tB''), ([demo_file ''README'' ''r1'', demo_file ''api'' ''a0''], ''tO''),
      ([demo_file ''README'' ''r0'', demo_file ''api'' ''a1''], ''tU''), ([demo_file ''README'' ''r1'', demo_file ''api'' ''a1''], ''tN'')]"

definition demo_body :: "string \<Rightarrow> string \<Rightarrow> hash \<Rightarrow> hash list \<Rightarrow> string commit_body" where
  "demo_body who msg t ps = \<lparr>cb_author = who, cb_committer = who, cb_message = msg, cb_tree = t, cb_parents = ps\<rparr>"

definition demo_opts :: "string sync_options" where
  "demo_opts =
     \<lparr>so_strategy = ''rebase'', so_policy = Some (\<lambda>p. if p = ''api'' then take_fork else take_merge), so_sig = ''bot'',
      so_merge_message = ''merge'', so_hold_message = []\<rparr>"

definition demo_history :: "(hash \<times> string commit_body) list" where
  "demo_history =
     [(''base'', demo_body ''us'' ''start'' ''tB'' []), (''ours'', demo_body ''us'' ''readme'' ''tO'' [''base'']),
      (''theirs'', demo_body ''them'' ''api'' ''tU'' [''base'']), (''new'', demo_body ''us'' ''readme'' ''tN'' [''theirs'']),
      (''kept'', demo_body ''bot'' (hold_message demo_opts [''api'']) ''tO'' [''new''])]"

definition demo_commits :: "(unit, string, string) commit_repo" where
  "demo_commits = table_commits demo_sync_trees [] demo_history [''base'']"

definition demo_commit :: "hash \<Rightarrow> string commit" where
  "demo_commit h = \<lparr>cm_hash = h, cm_body = the (map_of demo_history h)\<rparr>"

lemma demo_commits_ok: "commit_repo_ok demo_commits"
  unfolding demo_commits_def by (rule table_commits_ok) code_simp+

declare flatten_loop.simps [code] own_commits.simps [code]

lemma demo_sync: "plan_sync demo_commits ''ours'' ''theirs'' demo_opts () =
  Some (Inr (empty_plan\<lparr>sp_result := ''synced'', sp_new_head := Some ''kept'', sp_rewrites := True, sp_held := [''api'']\<rparr>), ())"
  by code_simp

theorem plan_sync_contains_both_witness:
  "reaches demo_commits () ''kept'' ''theirs''"
  using plan_sync_contains_both [OF demo_commits_ok demo_sync] by (simp add: empty_plan_def)

definition demo_policy :: policy where
  "demo_policy p = (if p = ''api'' then take_fork else take_merge)"

theorem replay_keeps_commits_witness:
  "\<exists>ours kept. chain demo_commits () ''base'' ours ''ours'' \<and> chain demo_commits () ''theirs'' kept ''new'' \<and>
    map signature_of kept = map signature_of ours"
proof -
  have "replay demo_commits (demo_commit ''base'') (demo_commit ''ours'') (demo_commit ''theirs'') demo_policy () =
      Some (Inr (Inr (demo_commit ''new'', empty_plan)), ())" by code_simp
  from replay_keeps_commits [OF demo_commits_ok _ this] show ?thesis
    by (auto simp: demo_commit_def empty_plan_def demo_commits_def table_commits_def demo_history_def)
qed

theorem hold_files_keeps_fork_witness:
  "\<exists>fl. commit_flat demo_commits () (demo_commit ''kept'') = Some fl \<and> same_entry (map_of fl ''api'') (Some (demo_file ''api'' ''a0''))"
proof -
  have run: "hold_files demo_commits (demo_commit ''new'') (demo_commit ''ours'') [''api''] demo_policy demo_opts () =
      Some (Inr (demo_commit ''kept'', [''api'']), ())" by code_simp
  have flats: "commit_flat demo_commits () (demo_commit ''new'') =
      Some [(''README'', demo_file ''README'' ''r1''), (''api'', demo_file ''api'' ''a1'')]"
    "commit_flat demo_commits () (demo_commit ''ours'') =
      Some [(''README'', demo_file ''README'' ''r1''), (''api'', demo_file ''api'' ''a0'')]" by code_simp+
  have ok: "distinct [''api'']" "plain_paths (kept_paths demo_policy [''api'']
      [(''README'', demo_file ''README'' ''r1''), (''api'', demo_file ''api'' ''a0'')]
      [(''README'', demo_file ''README'' ''r1''), (''api'', demo_file ''api'' ''a1'')])" by code_simp+
  note keeps = hold_files_keeps_fork [OF demo_commits_ok ok(1) run flats ok(2), THEN conjunct2]
  show ?thesis
    by (rule ex_forward [OF keeps], elim conjE, erule allE [of _ "''api''"]) (simp add: demo_policy_def fork_kept_def take_fork_def)
qed

theorem held_file_over_directory_witness:
  "\<not> flat_ok (fst (hold_loop demo_policy [(''api'', demo_file ''api'' ''a0'')] [''api'', ''api/v1'']
     [(''api/v1'', demo_file ''api/v1'' ''a1'')] []))"
proof -
  let ?hf = "[(''api'', demo_file ''api'' ''a0'')]" and ?tf = "[(''api/v1'', demo_file ''api/v1'' ''a1'')]"
  let ?tf' = "(''api/v1'', demo_file ''api/v1'' ''a1'') # ?hf"
  have run: "hold_loop demo_policy ?hf [''api'', ''api/v1''] ?tf [] = (?tf', [''api''])" by code_simp
  have "map_of ?tf (''api'' @ ''/'' @ ''v1'') = Some (demo_file ''api/v1'' ''a1'')" by simp
  from held_file_over_directory [OF run _ _ _ _ _ _ this]
  have "\<not> flat_ok ?tf'" by (simp add: demo_policy_def take_fork_def take_merge_def)
  with run show ?thesis by simp
qed

end
