(* ===== verification/Sync_Total.thy ===== *)
theory Sync_Total
  imports Upstream_Sync "HOL-Library.Multiset"
begin

text \<open>
  A sync always returns: flattening a tree ends on a database in which no tree contains itself, the
  walk over our commits ends when no commit is its own ancestor, and nothing else loops or panics.
  Both hold of every content-addressed database; they are stated as ranks.
\<close>

section \<open>Flattening ends\<close>

definition trees_ranked :: "('s, 'e) tree_store \<Rightarrow> (tree \<Rightarrow> nat) \<Rightarrow> bool" where
  "trees_ranked S rank \<longleftrightarrow> (\<forall>s t name sub. ts_subtree S s t name = Inr sub \<longrightarrow> rank sub < rank t)"

lemma flatten_entries_stack:
  "flatten_entries S s pre t es stack flat = Inr (stack', flat') \<Longrightarrow> trees_ranked S rank \<Longrightarrow>
    \<exists>new. stack' = stack @ new \<and> (\<forall>f \<in> set new. rank (snd f) < rank t)"
proof (induction es arbitrary: stack flat)
  case (Cons e es)
  show ?case
  proof (cases "te_mode e = dir_mode")
    case True
    with Cons.prems(1) obtain sub where sub: "ts_subtree S s t (te_name e) = Inr sub"
      "flatten_entries S s pre t es (stack @ [(path_in pre (te_name e), sub)]) flat = Inr (stack', flat')"
      by (auto simp: Let_def split: sum.splits)
    from Cons.IH [OF sub(2) Cons.prems(2)] sub(1) Cons.prems(2) show ?thesis
      unfolding trees_ranked_def by fastforce
  next
    case False
    with Cons.prems Cons.IH show ?thesis by (simp add: Let_def)
  qed
qed simp

abbreviation stack_ranks :: "(tree \<Rightarrow> nat) \<Rightarrow> (string \<times> tree) list \<Rightarrow> nat multiset" where
  "stack_ranks rank stack \<equiv> image_mset (\<lambda>f. rank (snd f)) (mset stack)"

text \<open>A step replaces one frame by frames of smaller rank: the multiset of ranks goes down.\<close>

lemma stack_ranks_decrease:
  assumes "stack \<noteq> []" "\<forall>f \<in> set new. rank (snd f) < rank (snd (last stack))"
  shows "(stack_ranks rank (butlast stack @ new), stack_ranks rank stack) \<in> mult {(x, y). x < y}"
proof -
  have "stack_ranks rank stack = stack_ranks rank (butlast stack) + {#rank (snd (last stack))#}"
    using arg_cong [OF append_butlast_last_id [OF assms(1)], of "stack_ranks rank"] by simp
  then show ?thesis
    using one_step_implies_mult [of "{#rank (snd (last stack))#}" "stack_ranks rank new" "{(x, y). x < y}"
        "stack_ranks rank (butlast stack)"] assms(2) by auto
qed

lemma flatten_loop_returns:
  assumes "trees_ranked S rank"
  shows "\<exists>r. flatten_loop S s stack flat = Some r"
proof (induction "stack_ranks rank stack" arbitrary: stack flat rule: wf_induct_rule [OF wf_mult [OF wf_less]])
  case 1
  show ?case
  proof (cases "stack = []")
    case True
    then show ?thesis by (simp add: flatten_loop.simps)
  next
    case False
    define top where "top = last stack"
    show ?thesis
    proof (cases "flatten_entries S s (fst top) (snd top) (snd top) (butlast stack) flat")
      case (Inl e)
      with False show ?thesis by (subst flatten_loop.simps) (simp add: top_def)
    next
      case (Inr x)
      then obtain stack' flat' where x: "x = (stack', flat')" by (cases x)
      from flatten_entries_stack [OF Inr [unfolded x] assms] obtain new where
        new: "stack' = butlast stack @ new" "\<forall>f \<in> set new. rank (snd f) < rank (snd top)" by blast
      from 1 [OF stack_ranks_decrease [OF False new(2) [unfolded top_def]]] obtain r where
        "flatten_loop S s stack' flat' = Some r" unfolding new(1) by blast
      with Inr x False show ?thesis by (subst flatten_loop.simps) (simp add: top_def)
    qed
  qed
qed

section \<open>The walk over our commits ends\<close>

definition commits_ranked :: "('s, 'e, 'g) commit_repo \<Rightarrow> (hash \<Rightarrow> nat) \<Rightarrow> bool" where
  "commits_ranked C rank \<longleftrightarrow> (\<forall>s h c p. cr_commit C s h = Inr c \<longrightarrow> p \<in> set (parents c) \<longrightarrow> rank p < rank h)"

lemma own_commits_step:
  assumes "\<And>p ours. cr_commit C s (hd (parents c)) = Inr p \<Longrightarrow> parents c \<noteq> [] \<Longrightarrow> \<exists>r. own_commits C s base p ours = Some r"
  shows "\<exists>r. own_commits C s base c ours = Some r"
proof (cases "cm_hash c = base \<or> length (parents c) \<noteq> 1")
  case True
  then show ?thesis by (subst own_commits.simps) auto
next
  case False
  then have "parents c \<noteq> []" by auto
  with assms [OF _ this, of _ "ours @ [c]"] False show ?thesis
    by (subst own_commits.simps) (auto split: sum.splits)
qed

lemma own_commits_read_returns:
  assumes "commits_ranked C rank"
  shows "cr_commit C s h = Inr c \<Longrightarrow> \<exists>r. own_commits C s base c ours = Some r"
proof (induction "rank h" arbitrary: h c ours rule: less_induct)
  case less
  show ?case
  proof (rule own_commits_step)
    fix p ours
    assume "cr_commit C s (hd (parents c)) = Inr p" "parents c \<noteq> []"
    moreover from this less.prems assms have "rank (hd (parents c)) < rank h"
      unfolding commits_ranked_def by simp
    ultimately show "\<exists>r. own_commits C s base p ours = Some r" using less.hyps by blast
  qed
qed

lemma own_commits_returns: "commits_ranked C rank \<Longrightarrow> \<exists>r. own_commits C s base c ours = Some r"
  by (rule own_commits_step) (rule own_commits_read_returns)

section \<open>Everything else returns\<close>

definition returns :: "('s, 'x, 'a) run \<Rightarrow> bool" where
  "returns m \<longleftrightarrow> (\<forall>s. m s \<noteq> None)"

named_theorems returns_intros \<open>the combinators return when their parts do\<close>

lemma returns_return [returns_intros]: "returns (run_return a)"
  by (simp add: returns_def run_return_def)

lemma returns_bind [returns_intros]: "returns m \<Longrightarrow> (\<And>a. returns (f a)) \<Longrightarrow> returns (run_bind m f)"
  by (auto simp: returns_def run_bind_def split: option.splits prod.splits sum.splits)

lemma returns_read [returns_intros]: "returns (run_read w f)"
  by (simp add: returns_def run_read_def split: sum.splits)

lemma returns_map_error [returns_intros]: "returns m \<Longrightarrow> returns (run_map_error w m)"
  by (simp add: returns_def run_map_error_def)

lemma returns_if [returns_intros]: "(b \<Longrightarrow> returns m) \<Longrightarrow> (\<not> b \<Longrightarrow> returns n) \<Longrightarrow> returns (if b then m else n)"
  by simp

lemma returns_sum [returns_intros]:
  "(\<And>x. returns (f x)) \<Longrightarrow> (\<And>y. returns (g y)) \<Longrightarrow> returns (case r of Inl x \<Rightarrow> f x | Inr y \<Rightarrow> g y)"
  by (cases r) auto

lemma returns_prod [returns_intros]: "(\<And>x y. returns (f x y)) \<Longrightarrow> returns (case p of (x, y) \<Rightarrow> f x y)"
  by (cases p) auto

lemma returns_writes [returns_intros]:
  "returns (write_commit C b)" "returns (read_commit C h)" "returns (commit_tree C c)" "returns (write_flat C m)"
  by (auto simp: returns_def write_commit_def read_commit_def commit_tree_def run_read_def write_flat_def
      split: prod.splits sum.splits)

lemma merge_blobs_returns:
  assumes "\<forall>x y. script_ok x y (diff x y)"
  shows "merge_blobs diff R be oe te s \<noteq> None"
proof -
  have t: "merge_text diff b x y = Some (the (merge_text diff b x y))" for b x y
    using merge_text_no_panic [of b x diff y] assms by simp
  show ?thesis
    unfolding merge_blobs_def by (subst t) (simp split: option.split sum.split prod.split)
qed

lemma merge_paths_returns:
  assumes "\<forall>x y. script_ok x y (me_diff E x y)"
  shows "merge_paths E ps acc s \<noteq> None"
proof (induction ps arbitrary: acc s)
  case (Cons p ps)
  have "merge_path E p acc s \<noteq> None"
  proof (cases "path_decision E p")
    case MergeLines
    then obtain f u where "map_of (me_fork E) p = Some f" "map_of (me_upstream E) p = Some u"
      using decide_lines unfolding path_decision_def by fastforce
    with MergeLines merge_blobs_returns [OF assms, of "me_repo E" "map_of (me_base E) p" f u s] show ?thesis
      by (auto simp: merge_path_def split: prod.splits sum.splits option.splits)
  qed (simp_all add: merge_path_def split: prod.split)
  with Cons.IH show ?case by (auto split: sum.splits)
qed simp

lemma merge_flats_returns:
  assumes "\<forall>x y. script_ok x y (me_diff E x y)"
  shows "merge_flats E order s \<noteq> None"
  using merge_paths_returns [OF assms, of "order (all_paths (me_base E) (me_fork E) (me_upstream E))" "([], empty_join)" s]
  by (auto simp: merge_flats_def Let_def split: option.splits sum.splits prod.splits)

lemma flat_of_returns:
  assumes "trees_ranked (rp_trees R) rank"
  shows "flat_of R s t \<noteq> None"
  using flatten_loop_returns [OF assms] by (auto simp: flat_of_def flatten_tree_def split: option.split)

lemma trees_run_returns:
  fixes C :: "('s, 'e, 'g) commit_repo"
  assumes "trees_ranked (rp_trees (cr_repo C)) rank" "\<forall>x y. script_ok x y (cr_diff C x y)"
  shows "returns (trees_run C b f u pol hold)"
proof -
  have fo: "flat_of (cr_repo C) s t = Some (the (flat_of (cr_repo C) s t))" for s t
    using flat_of_returns [OF assms(1)] by simp
  have mf: "merge_flats E order s = Some (the (merge_flats E order s))" if "me_diff E = cr_diff C" for E :: "('s, 'e) merge_env" and order s
    using merge_flats_returns [of E order s] assms(2) that by simp
  have "merge_trees (cr_diff C) (cr_repo C) (cr_order C) b f u pol hold s \<noteq> None" for b f u pol hold s
  proof -
    obtain x where x: "flat_of (cr_repo C) s b = Some x" using fo by blast
    obtain y where y: "flat_of (cr_repo C) s f = Some y" using fo by blast
    obtain z where z: "flat_of (cr_repo C) s u = Some z" using fo by blast
    obtain m where m: "merge_flats \<lparr>me_diff = cr_diff C, me_repo = cr_repo C,
        me_policy = (case pol of None \<Rightarrow> (\<lambda>_. take_merge) | Some pol \<Rightarrow> pol), me_hold = hold,
        me_base = projr x, me_fork = projr y, me_upstream = projr z\<rparr> (cr_order C) s = Some m"
      using mf [OF merge_env.select_convs(1)] by blast
    then show ?thesis unfolding merge_trees_def x y z by (cases x; cases y; cases z) simp_all
  qed
  then show ?thesis by (simp add: returns_def trees_run_def run_map_error_def)
qed

lemma flatten_run_returns:
  assumes "trees_ranked (rp_trees (cr_repo C)) rank"
  shows "returns (flatten_run C t)"
  using flatten_loop_returns [OF assms] by (auto simp: returns_def flatten_run_def flatten_tree_def split: option.split sum.split)

lemma replay_loop_returns:
  assumes "\<And>b f u pol hold. returns (trees_run C b f u pol hold)"
  shows "returns (replay_loop C pol cs tip plan)"
proof (induction cs arbitrary: tip plan)
  case (Cons c cs)
  then show ?case
    unfolding replay_loop.simps replay_commit_def replay_joined_def Let_def
    by (intro returns_intros assms allI) simp_all
qed (simp add: returns_return)

lemma replay_returns:
  assumes "commits_ranked C crank" "\<And>b f u pol hold. returns (trees_run C b f u pol hold)"
  shows "returns (replay C base head target policy)"
proof -
  have "replay C base head target policy s \<noteq> None" for s
  proof -
    obtain r where "own_commits C s (cm_hash base) head [] = Some r" using own_commits_returns [OF assms(1)] by blast
    with replay_loop_returns [OF assms(2)] show ?thesis
      by (auto simp: replay_def returns_def split: sum.splits)
  qed
  then show ?thesis by (simp add: returns_def)
qed

text \<open>C19: A sync always returns a plan or an error, never runs forever and never panics: when no tree of the
  database contains itself, no commit is its own ancestor and the differ's scripts are scripts between
  their two texts.\<close>

theorem plan_sync_returns:
  assumes "trees_ranked (rp_trees (cr_repo C)) trank" "commits_ranked C crank" "\<forall>x y. script_ok x y (cr_diff C x y)"
  shows "\<exists>r s'. plan_sync C head target opts s = Some (r, s')"
proof -
  note total_parts = trees_run_returns [OF assms(1,3)] flatten_run_returns [OF assms(1)]
  have "returns (plan_sync C head target opts)"
    unfolding plan_sync_def join_plan_def finish_plan_def hold_files_def commit_held_def merge_strategy_def merge_result_def
      changed_paths_def Let_def
    by (intro returns_intros total_parts replay_returns [OF assms(2)])
  then show ?thesis by (fastforce simp: returns_def)
qed

text \<open>A differ that deletes all of one text and inserts all of the other, on the database of the demo.\<close>

definition blunt_diff :: differ where
  "blunt_diff x y = [(DiffDelete, x), (DiffInsert, y)]"

definition demo_blunt :: "(unit, string, string) commit_repo" where
  "demo_blunt = demo_commits\<lparr>cr_diff := blunt_diff\<rparr>"

definition demo_rank :: "hash \<Rightarrow> nat" where
  "demo_rank h = (if h = ''kept'' then 3 else if h = ''new'' then 2 else if h = ''base'' then 0 else 1)"

theorem plan_sync_returns_witness:
  "\<exists>r s'. plan_sync demo_blunt ''ours'' ''theirs'' demo_opts () = Some (r, s')"
proof (rule plan_sync_returns)
  have flat: "\<not> list_ex (\<lambda>e. te_mode e = dir_mode) sub" if "map_of (map prod.swap demo_sync_trees) h = Some sub" for h sub
    using map_of_SomeD [OF that] by (auto simp: demo_sync_trees_def demo_file_def dir_mode_def)
  have dir: "list_ex (\<lambda>e. te_mode e = dir_mode) t" if "find (\<lambda>e. te_name e = name \<and> te_mode e = dir_mode) t = Some e" for t name e
    using that by (auto simp: find_Some_iff list_ex_iff)
  have "trees_ranked (table_store demo_sync_trees) (\<lambda>t. if list_ex (\<lambda>e. te_mode e = dir_mode) t then 1 else 0)"
    unfolding trees_ranked_def by (auto simp: table_store_def Let_def split: option.splits dest: flat dir)
  then show "trees_ranked (rp_trees (cr_repo demo_blunt)) (\<lambda>t. if list_ex (\<lambda>e. te_mode e = dir_mode) t then 1 else 0)"
    by (simp add: demo_blunt_def demo_commits_def table_commits_def table_repo_def Let_def)
  show "commits_ranked demo_blunt demo_rank"
    by (auto simp: commits_ranked_def demo_blunt_def demo_commits_def table_commits_def Let_def demo_history_def demo_body_def
        demo_rank_def split: if_splits)
  show "\<forall>x y. script_ok x y (cr_diff demo_blunt x y)"
    by (simp add: script_ok_def demo_blunt_def blunt_diff_def)
qed

end
