(* ===== verification/Go_Glob.thy ===== *)
theory Go_Glob
  imports Go_Path
begin

text \<open>
  Go's \<^verbatim>\<open>utf8.DecodeRune\<close> and \<^verbatim>\<open>filepath.Match\<close> (on a system whose separator is \<^verbatim>\<open>/\<close>), and the repository's
  \<^verbatim>\<open>src/src/lint/glob.go\<close> on top of them.  Strings are lists of bytes.
\<close>

section \<open>Decoding one rune\<close>

definition rune_error :: int where
  "rune_error = 65533"

definition byte :: "char \<Rightarrow> int" where
  "byte c = int (of_char c)"

text \<open>The second byte is restricted for some first bytes (no overlong forms, no surrogates).\<close>

definition second_ok :: "int \<Rightarrow> int \<Rightarrow> bool" where
  "second_ok b0 b1 \<longleftrightarrow>
     (if b0 = 224 then 160 \<le> b1 \<and> b1 \<le> 191
      else if b0 = 237 then 128 \<le> b1 \<and> b1 \<le> 159
      else if b0 = 240 then 144 \<le> b1 \<and> b1 \<le> 191
      else if b0 = 244 then 128 \<le> b1 \<and> b1 \<le> 143
      else 128 \<le> b1 \<and> b1 \<le> 191)"

definition cont_byte :: "int \<Rightarrow> bool" where
  "cont_byte b \<longleftrightarrow> 128 \<le> b \<and> b \<le> 191"

definition decode_bytes :: "int list \<Rightarrow> int \<times> nat" where
  "decode_bytes bytes =
     (case bytes of
        [] \<Rightarrow> (rune_error, 0)
      | b0 # bs \<Rightarrow>
          if b0 < 128 then (b0, 1)
          else if 194 \<le> b0 \<and> b0 \<le> 223 then
            (case bs of
               b1 # _ \<Rightarrow> if second_ok b0 b1 then ((b0 - 192) * 64 + (b1 - 128), 2) else (rune_error, 1)
             | [] \<Rightarrow> (rune_error, 1))
          else if 224 \<le> b0 \<and> b0 \<le> 239 then
            (case bs of
               b1 # b2 # _ \<Rightarrow>
                 if second_ok b0 b1 \<and> cont_byte b2 then ((b0 - 224) * 4096 + (b1 - 128) * 64 + (b2 - 128), 3)
                 else (rune_error, 1)
             | _ \<Rightarrow> (rune_error, 1))
          else if 240 \<le> b0 \<and> b0 \<le> 244 then
            (case bs of
               b1 # b2 # b3 # _ \<Rightarrow>
                 if second_ok b0 b1 \<and> cont_byte b2 \<and> cont_byte b3
                 then ((b0 - 240) * 262144 + (b1 - 128) * 4096 + (b2 - 128) * 64 + (b3 - 128), 4)
                 else (rune_error, 1)
             | _ \<Rightarrow> (rune_error, 1))
          else (rune_error, 1))"

definition decode_rune :: "string \<Rightarrow> int \<times> nat" where
  "decode_rune s = decode_bytes (map byte (take 4 s))"

lemma decode_bytes_size:
  "1 \<le> snd (decode_bytes (b # bs))" "snd (decode_bytes (b # bs)) \<le> length (b # bs)"
  by (simp_all add: decode_bytes_def split: list.split)

lemma decode_rune_size:
  assumes "s \<noteq> []"
  shows "1 \<le> snd (decode_rune s)" "snd (decode_rune s) \<le> length s"
proof -
  from assms obtain b bs where b: "map byte (take 4 s) = b # bs" by (cases s) auto
  from arg_cong [OF b, of length] have "length (b # bs) \<le> length s" by simp
  with decode_bytes_size [of b bs] show "1 \<le> snd (decode_rune s)" "snd (decode_rune s) \<le> length s"
    by (simp_all add: decode_rune_def b)
qed

lemma decode_rune_ascii: "byte c < 128 \<Longrightarrow> decode_rune (c # s) = (byte c, 1)"
  by (simp add: decode_rune_def decode_bytes_def)

section \<open>Patterns\<close>

text \<open>\<^const>\<open>None\<close> is \<^verbatim>\<open>ErrBadPattern\<close>.\<close>

definition get_esc :: "string \<Rightarrow> (int \<times> string) option" where
  "get_esc chunk =
     (if chunk = [] \<or> hd chunk = CHR ''-'' \<or> hd chunk = CHR '']'' then None
      else
        (let chunk = (if hd chunk = CHR 0x5C then tl chunk else chunk) in
         if chunk = [] then None
         else
           (case decode_rune chunk of (r, n) \<Rightarrow>
              if r = rune_error \<and> n = 1 \<or> drop n chunk = [] then None else Some (r, drop n chunk))))"

lemma get_esc_shorter:
  assumes "get_esc chunk = Some (r, rest)"
  shows "length rest < length chunk \<and> rest \<noteq> []"
proof -
  define c where "c = (if hd chunk = CHR 0x5C then tl chunk else chunk)"
  from assms have c: "c \<noteq> []" "rest = drop (snd (decode_rune c)) c" "rest \<noteq> []" "chunk \<noteq> []"
    by (auto simp: get_esc_def Let_def c_def split: if_splits prod.splits)
  have "length c \<le> length chunk" by (simp add: c_def)
  with c decode_rune_size(1) [OF c(1)] show ?thesis by auto
qed

text \<open>The ranges of a character class up to its closing bracket: whether one holds \<open>r\<close>, and the rest.\<close>

function class_ranges :: "int \<Rightarrow> string \<Rightarrow> bool \<Rightarrow> bool \<Rightarrow> (bool \<times> string) option" where
  "class_ranges r chunk some_range found =
     (if chunk \<noteq> [] \<and> hd chunk = CHR '']'' \<and> some_range then Some (found, tl chunk)
      else
        (case get_esc chunk of
           None \<Rightarrow> None
         | Some (lo, chunk1) \<Rightarrow>
             (case (if hd chunk1 = CHR ''-'' then get_esc (tl chunk1) else Some (lo, chunk1)) of
                None \<Rightarrow> None
              | Some (hi, chunk2) \<Rightarrow> class_ranges r chunk2 True (found \<or> lo \<le> r \<and> r \<le> hi))))"
  by pat_completeness auto
termination
proof (relation "measure (\<lambda>(r, chunk, n, f). length chunk)")
  fix chunk x lo chunk1 y hi chunk2
  assume "get_esc chunk = Some x" "(lo, chunk1) = x"
    and c2: "(if hd chunk1 = CHR ''-'' then get_esc (tl chunk1) else Some (lo, chunk1)) = Some y" "(hi, chunk2) = y"
  then have "length chunk1 < length chunk" using get_esc_shorter by auto
  moreover have "length chunk2 \<le> length chunk1"
    using c2 get_esc_shorter [of "tl chunk1"] by (cases chunk1) (auto split: if_splits)
  ultimately show "((r, chunk2, True, found \<or> lo \<le> r \<and> r \<le> hi), (r, chunk, some_range, found)) \<in>
      measure (\<lambda>(r, chunk, n, f). length chunk)" for r some_range found by simp
qed simp

lemma class_ranges_shorter:
  "class_ranges r chunk n f = Some (b, rest) \<Longrightarrow> length rest < length chunk"
proof (induction r chunk n f rule: class_ranges.induct)
  case (1 r chunk n f)
  show ?case
  proof (cases "chunk \<noteq> [] \<and> hd chunk = CHR '']'' \<and> n")
    case True
    with 1(2) show ?thesis by (cases chunk) auto
  next
    case False
    with 1(2) obtain lo c1 hi c2 where g: "get_esc chunk = Some (lo, c1)"
      "(if hd c1 = CHR ''-'' then get_esc (tl c1) else Some (lo, c1)) = Some (hi, c2)"
      and rest: "class_ranges r c2 True (f \<or> lo \<le> r \<and> r \<le> hi) = Some (b, rest)"
      by (subst (asm) class_ranges.simps) (auto split: option.splits prod.splits simp del: class_ranges.simps)
    have "length c1 < length chunk" using get_esc_shorter [OF g(1)] by simp
    moreover have "length c2 \<le> length c1"
      using g(2) get_esc_shorter [of "tl c1"] by (cases c1) (auto split: if_splits)
    ultimately show ?thesis using 1(1) [OF False g(1) refl g(2) refl rest] by simp
  qed
qed

declare class_ranges.simps [simp del]

text \<open>\<^verbatim>\<open>matchChunk\<close>: what is left of the name, \<^term>\<open>Some None\<close> when it does not match.  The chunk is read to its
  end also after a mismatch (\<open>failed\<close>), for its syntax.\<close>

function match_chunk :: "bool \<Rightarrow> string \<Rightarrow> string \<Rightarrow> string option option" where
  "match_chunk failed chunk s =
     (if chunk = [] then Some (if failed then None else Some s)
      else
        (let failed = (failed \<or> s = []) in
         if hd chunk = CHR ''['' then
           (let (r, n) = (if failed then (0, 0) else decode_rune s);
                neg = (tl chunk \<noteq> [] \<and> hd (tl chunk) = CHR ''^'') in
            case class_ranges r (if neg then tl (tl chunk) else tl chunk) False False of
              None \<Rightarrow> None
            | Some (found, rest) \<Rightarrow> match_chunk (failed \<or> found = neg) rest (drop n s))
         else if hd chunk = CHR ''?'' then
           match_chunk (failed \<or> hd s = slash) (tl chunk) (if failed then s else drop (snd (decode_rune s)) s)
         else
           (let chunk = (if hd chunk = CHR 0x5C then tl chunk else chunk) in
            if chunk = [] then None
            else match_chunk (failed \<or> hd chunk \<noteq> hd s) (tl chunk) (if failed then s else tl s))))"
  by pat_completeness auto
termination
proof (relation "measure (\<lambda>(f, chunk, s). length chunk)", goal_cases)
  case (2 failed chunk s failed' x r n neg y found rest)
  then have "class_ranges r (if neg then tl (tl chunk) else tl chunk) False False = Some (found, rest)" by simp
  then have "length rest < length (if neg then tl (tl chunk) else tl chunk)" by (rule class_ranges_shorter)
  also have "\<dots> \<le> length chunk" by simp
  finally show ?case by simp
next
  case (4 failed chunk s failed' chunk')
  then show ?case by (cases chunk) (auto split: if_splits)
qed (auto simp: neq_Nil_conv)

declare match_chunk.simps [simp del]

text \<open>\<^verbatim>\<open>scanChunk\<close>: stars at the start, then the bytes up to the next star outside brackets.\<close>

fun chunk_end :: "bool \<Rightarrow> string \<Rightarrow> string" where
  "chunk_end inrange [] = []"
| "chunk_end inrange [c] = (if c = CHR ''*'' \<and> \<not> inrange then [c] else [])"
| "chunk_end inrange (c # d # p) =
     (if c = CHR 0x5C then chunk_end inrange p
      else if c = CHR ''['' then chunk_end True (d # p)
      else if c = CHR '']'' then chunk_end False (d # p)
      else if c = CHR ''*'' \<and> \<not> inrange then c # d # p
      else chunk_end inrange (d # p))"

definition scan_chunk :: "string \<Rightarrow> bool \<times> string \<times> string" where
  "scan_chunk pat =
     (let p = dropWhile (\<lambda>c. c = CHR ''*'') pat; rest = chunk_end False p in
      (p \<noteq> pat, take (length p - length rest) p, rest))"

lemma chunk_end_le: "length (chunk_end r p) \<le> length p"
  by (induction r p rule: chunk_end.induct) auto

lemma scan_chunk_shorter:
  assumes "pat \<noteq> []" "scan_chunk pat = (star, chunk, rest)"
  shows "length rest < length pat"
proof (cases "hd pat = CHR ''*''")
  case True
  with assms(1) have "length (dropWhile (\<lambda>c. c = CHR ''*'') pat) < length pat"
    by (cases pat) (auto simp: le_imp_less_Suc length_dropWhile_le)
  with assms(2) chunk_end_le [of False "dropWhile (\<lambda>c. c = CHR ''*'') pat"] show ?thesis
    by (auto simp: scan_chunk_def Let_def)
next
  case False
  have "length (chunk_end r (c # p)) \<le> length p" if "c \<noteq> CHR ''*''" for r c p
    using that chunk_end_le [of _ p] chunk_end_le [of _ "tl p"]
    by (cases p) (auto intro: le_trans [OF chunk_end_le])
  with False assms show ?thesis
    by (cases pat) (auto simp: scan_chunk_def Let_def le_imp_less_Suc)
qed

text \<open>A star that is followed by a chunk: the first place where the chunk matches.\<close>

fun star_search :: "string \<Rightarrow> bool \<Rightarrow> string \<Rightarrow> string option option" where
  "star_search chunk at_end [] = Some None"
| "star_search chunk at_end (c # name) =
     (if c = slash then Some None
      else
        (case match_chunk False chunk name of
           None \<Rightarrow> None
         | Some None \<Rightarrow> star_search chunk at_end name
         | Some (Some t) \<Rightarrow> if at_end \<and> t \<noteq> [] then star_search chunk at_end name else Some (Some t)))"

text \<open>The rest of a pattern that did not match is still checked for its syntax.\<close>

function pattern_tail_ok :: "string \<Rightarrow> bool" where
  "pattern_tail_ok pat =
     (if pat = [] then True
      else (case scan_chunk pat of (star, chunk, rest) \<Rightarrow> match_chunk False chunk [] \<noteq> None \<and> pattern_tail_ok rest))"
  by pat_completeness auto
termination by (relation "measure length") (auto dest: scan_chunk_shorter [OF _ sym])

declare pattern_tail_ok.simps [simp del]

text \<open>\<^verbatim>\<open>filepath.Match\<close>.\<close>

function path_match :: "string \<Rightarrow> string \<Rightarrow> bool option" where
  "path_match pat name =
     (if pat = [] then Some (name = [])
      else
        (case scan_chunk pat of (star, chunk, rest) \<Rightarrow>
           if star \<and> chunk = [] then Some (slash \<notin> set name)
           else
             (case match_chunk False chunk name of
                None \<Rightarrow> None
              | Some m \<Rightarrow>
                  if m \<noteq> None \<and> (the m = [] \<or> rest \<noteq> []) then path_match rest (the m)
                  else
                    (case (if star then star_search chunk (rest = []) name else Some None) of
                       None \<Rightarrow> None
                     | Some (Some t) \<Rightarrow> path_match rest t
                     | Some None \<Rightarrow> if pattern_tail_ok rest then Some False else None))))"
  by pat_completeness auto
termination by (relation "measure (\<lambda>(pat, name). length pat)") (auto dest: scan_chunk_shorter [OF _ sym])

declare path_match.simps [simp del]

section \<open>Globs with two stars\<close>

text \<open>The parts before and after the first \<^verbatim>\<open>**\<close>.\<close>

fun cut_stars :: "string \<Rightarrow> (string \<times> string) option" where
  "cut_stars (c # d # p) =
     (if c = CHR ''*'' \<and> d = CHR ''*'' then Some ([], p)
      else map_option (\<lambda>(before, after). (c # before, after)) (cut_stars (d # p)))"
| "cut_stars p = None"

lemma cut_stars_split: "cut_stars p = Some (before, after) \<Longrightarrow> p = before @ ''**'' @ after"
  by (induction p arbitrary: before rule: cut_stars.induct) (auto split: if_splits)

definition trim_left_slash :: "string \<Rightarrow> string" where
  "trim_left_slash s = dropWhile (\<lambda>c. c = slash) s"

definition trim_right_slash :: "string \<Rightarrow> string" where
  "trim_right_slash s = rev (dropWhile (\<lambda>c. c = slash) (rev s))"

lemma cut_stars_shorter: "cut_stars p = Some (before, after) \<Longrightarrow> length (trim_left_slash after) < length p"
  using length_dropWhile_le [of "\<lambda>c. c = slash" after] by (auto dest!: cut_stars_split simp: trim_left_slash_def)

function match_glob :: "string \<Rightarrow> string \<Rightarrow> bool" where
  "match_glob pat path =
     (case cut_stars pat of
        None \<Rightarrow> path_match pat path = Some True
      | Some (before, after) \<Rightarrow>
          (let prefix = trim_right_slash before; suffix = trim_left_slash after in
           if before \<noteq> [] \<and> \<not> has_prefix path prefix then False
           else
             (let path = (if before \<noteq> [] then trim_left_slash (trim_prefix path prefix) else path) in
              if suffix = [] then True
              else (let parts = split_on slash path in
                list_ex (\<lambda>i. match_glob suffix (join [slash] (drop i parts))) [0 ..< Suc (length parts)]))))"
  by pat_completeness auto
termination by (relation "measure (\<lambda>(pat, path). length pat)") (auto dest: cut_stars_shorter)

declare match_glob.simps [simp del]

section \<open>Literal patterns\<close>

definition literal :: "string \<Rightarrow> bool" where
  "literal p \<longleftrightarrow> list_all (\<lambda>c. c \<notin> {CHR ''*'', CHR ''?'', CHR ''['', CHR 0x5C}) p"

lemma literal_simps [simp]:
  "literal []" "literal (c # p) \<longleftrightarrow> c \<notin> {CHR ''*'', CHR ''?'', CHR ''['', CHR 0x5C} \<and> literal p"
  "literal (p @ q) \<longleftrightarrow> literal p \<and> literal q"
  by (auto simp: literal_def)

lemma match_chunk_literal:
  "literal p \<Longrightarrow> match_chunk failed p s = Some (if failed \<or> \<not> has_prefix s p then None else Some (drop (length p) s))"
proof (induction p arbitrary: failed s)
  case (Cons c p)
  then show ?case
    by (subst match_chunk.simps) (cases s; auto simp: has_prefix_def)
qed (simp add: match_chunk.simps has_prefix_def)

lemma chunk_end_literal: "literal p \<Longrightarrow> chunk_end r p = []"
  by (induction r p rule: chunk_end.induct) auto

lemma path_match_literal:
  assumes "literal p"
  shows "path_match p s = Some (s = p)"
proof (cases "p = []")
  case False
  with assms have "dropWhile (\<lambda>c. c = CHR ''*'') p = p" by (cases p) auto
  then have scan: "scan_chunk p = (False, p, [])"
    using chunk_end_literal [OF assms] by (simp add: scan_chunk_def)
  have "has_prefix s p \<and> drop (length p) s = [] \<longleftrightarrow> s = p"
    using append_take_drop_id [of "length p" s] by (auto simp: has_prefix_def)
  with False scan match_chunk_literal [OF assms, of False s] show ?thesis
    by (subst path_match.simps) (auto simp: pattern_tail_ok.simps path_match.simps)
qed (simp add: path_match.simps)

lemma cut_stars_literal: "literal p \<Longrightarrow> cut_stars p = None"
  by (induction p rule: cut_stars.induct) auto

lemma match_glob_literal: "literal p \<Longrightarrow> match_glob p s \<longleftrightarrow> s = p"
  by (subst match_glob.simps) (simp add: cut_stars_literal path_match_literal)

text \<open>A directory followed by two stars matches every path that starts with its name.\<close>

lemma cut_stars_dir: "literal p \<Longrightarrow> cut_stars (p @ ''**'') = Some (p, [])"
proof (induction p)
  case (Cons c p)
  then show ?case by (cases p) auto
qed simp

lemma match_glob_dir:
  assumes "literal dir" "dir \<noteq> []" "last dir \<noteq> slash"
  shows "match_glob (dir @ ''/**'') path \<longleftrightarrow> has_prefix path dir"
proof -
  have "cut_stars ((dir @ [slash]) @ ''**'') = Some (dir @ [slash], [])"
    using assms(1) by (intro cut_stars_dir) simp
  moreover have "trim_right_slash (dir @ [slash]) = dir"
    using assms(2,3) by (cases dir rule: rev_cases) (simp_all add: trim_right_slash_def)
  ultimately show ?thesis
    by (subst match_glob.simps) (simp add: trim_left_slash_def Let_def)
qed

lemma glob_examples:
  "match_glob ''src/**/*.go'' ''src/a/b/main.go''" "match_glob ''src/**/*.go'' ''src/main.go''"
  "\<not> match_glob ''*.go'' ''src/main.go''" "match_glob ''**/[a-c]?.txt'' ''x/bz.txt''"
  "\<not> match_glob ''src/[^a]x'' ''src/ax''" "match_glob ''a*b*c'' ''axxbyyc''"
  by code_simp+

end
