(* ===== verification/File_Policy.thy ===== *)
theory File_Policy
  imports Go_Glob Merge_Tree
begin

text \<open>
  Which side keeps a file of a fork (\<^verbatim>\<open>FilePolicy\<close> in \<^verbatim>\<open>src/src/upstream/sync.go\<close>): the rules of
  \<^verbatim>\<open>upstream.sync.files\<close>, and the files StageFreight owns (\<^verbatim>\<open>src/src/ci/render\<close>).
\<close>

record file_rule =
  fr_match :: string
  fr_take :: string

definition supported_forges :: "string list" where
  "supported_forges = [''gitlab'', ''github'', ''gitea'', ''forgejo'', ''azuredevops'']"

definition forge_target :: "string \<Rightarrow> string option" where
  "forge_target forge =
     (if forge = ''gitlab'' then Some ''.gitlab-ci.yml''
      else if forge = ''github'' then Some ''.github/workflows/stagefreight.yml''
      else if forge = ''gitea'' then Some ''.gitea/workflows/stagefreight.yml''
      else if forge = ''forgejo'' then Some ''.forgejo/workflows/stagefreight.yml''
      else if forge = ''azuredevops'' then Some ''azure-pipelines.yml''
      else None)"

definition owned_globs :: "string list" where
  "owned_globs = [''.stagefreight.yml'', ''.stagefreight/**''] @ List.map_filter forge_target supported_forges"

definition file_policy :: "file_rule list \<Rightarrow> policy" where
  "file_policy rules path =
     (if list_ex (\<lambda>g. match_glob g path) owned_globs then take_fork
      else foldl (\<lambda>acc r. if match_glob (fr_match r) path then fr_take r else acc) take_merge rules)"

section \<open>What the policy decides\<close>

definition owned_names :: "string list" where
  "owned_names = [''.stagefreight.yml'', ''.gitlab-ci.yml'', ''.github/workflows/stagefreight.yml'',
     ''.gitea/workflows/stagefreight.yml'', ''.forgejo/workflows/stagefreight.yml'', ''azure-pipelines.yml'']"

definition owned_file :: "string \<Rightarrow> bool" where
  "owned_file path \<longleftrightarrow> path \<in> set owned_names \<or> has_prefix path ''.stagefreight''"

lemma globs_match_iff:
  assumes "list_all literal names" "literal dir" "dir \<noteq> []" "last dir \<noteq> slash"
  shows "list_ex (\<lambda>g. match_glob g path) (hd names # (dir @ ''/**'') # tl names) \<longleftrightarrow>
    match_glob (hd names) path \<or> has_prefix path dir \<or> path \<in> set (tl names)"
proof -
  have "list_ex (\<lambda>g. match_glob g path) ns \<longleftrightarrow> path \<in> set ns" if "list_all literal ns" for ns
    using that by (auto simp: list_ex_iff list_all_iff match_glob_literal)
  moreover have "list_all literal (tl names)" using assms(1) by (cases names) auto
  ultimately show ?thesis by (simp add: match_glob_dir [OF assms(2-4)] del: append.simps)
qed

lemma owned_globs_match: "list_ex (\<lambda>g. match_glob g path) owned_globs \<longleftrightarrow> owned_file path"
proof -
  have globs: "owned_globs = hd owned_names # (''.stagefreight'' @ ''/**'') # tl owned_names" by code_simp
  have lits: "list_all literal owned_names" "literal ''.stagefreight''" by code_simp+
  have "match_glob (hd owned_names) path \<longleftrightarrow> path = hd owned_names"
    by (rule match_glob_literal) code_simp
  moreover have "set owned_names = insert (hd owned_names) (set (tl owned_names))"
    by (simp add: owned_names_def del: list.inject char.inject)
  moreover have "last ''.stagefreight'' \<noteq> slash" by code_simp
  ultimately show ?thesis
    unfolding globs owned_file_def globs_match_iff [OF lits list.distinct(2) \<open>last ''.stagefreight'' \<noteq> slash\<close>]
    by (simp only: insert_iff) blast
qed

lemma last_rule_wins:
  "foldl (\<lambda>acc r. if P r then f r else acc) d rs = (if filter P rs = [] then d else f (last (filter P rs)))"
  by (induction rs rule: rev_induct) auto

text \<open>What the comments promise: a glob reads \<^verbatim>\<open>**\<close> as zero or more whole path segments, so StageFreight owns
  its config, the rendered CI files and what lies in the directory \<^verbatim>\<open>.stagefreight\<close>. Beside that directory
  are the paths that only begin with its name.\<close>

definition in_namespace :: "string \<Rightarrow> bool" where
  "in_namespace path \<longleftrightarrow> hd (split_on slash path) = ''.stagefreight''"

definition beside_namespace :: "string \<Rightarrow> bool" where
  "beside_namespace path \<longleftrightarrow> \<not> in_namespace path \<and> path \<notin> set owned_names \<and> has_prefix path ''.stagefreight''"

definition last_match :: "file_rule list \<Rightarrow> string \<Rightarrow> file_rule option" where
  "last_match rules path =
     (case filter (\<lambda>r. match_glob (fr_match r) path) rules of [] \<Rightarrow> None | rs \<Rightarrow> Some (last rs))"

lemma hd_split_on: "hd (split_on sep s) = takeWhile (\<lambda>c. c \<noteq> sep) s"
proof (induction s)
  case (Cons c s)
  then show ?case using split_on_not_Nil [of sep s] by (cases "split_on sep s") auto
qed simp

lemma in_namespace_prefix: "in_namespace path \<Longrightarrow> has_prefix path ''.stagefreight''"
  using takeWhile_dropWhile_id [of "\<lambda>c. c \<noteq> slash" path] by (metis has_prefix_iff hd_split_on in_namespace_def)

lemma owned_cases: "owned_file path \<longleftrightarrow> path \<in> set owned_names \<or> in_namespace path \<or> beside_namespace path"
  using in_namespace_prefix by (auto simp: owned_file_def beside_namespace_def)

text \<open>C20: Who keeps a file. StageFreight's own files (its config, every rendered CI file and everything in
  the directory \<^verbatim>\<open>.stagefreight\<close>) stay the fork's, whatever the rules say; of every other path the last
  matching rule decides, and a path no rule matches is merged - with one exception that the comments do
  not have: a path beside the directory, which only begins with its name (\<^verbatim>\<open>.stagefreightrc\<close>,
  \<^verbatim>\<open>.stagefreight-old/x\<close>), is kept for the fork too, and no rule can hand it to upstream.\<close>

theorem file_policy_decides:
  "file_policy rules path =
     (if path \<in> set owned_names \<or> in_namespace path then ''fork''
      else if beside_namespace path then ''fork''
      else case last_match rules path of None \<Rightarrow> ''merge'' | Some r \<Rightarrow> fr_take r) \<and>
   file_policy rules ''.stagefreightrc'' = ''fork'' \<and>
   \<not> in_namespace ''.stagefreightrc''"
proof (intro conjI)
  have "file_policy rules path = (if owned_file path then ''fork''
      else case last_match rules path of None \<Rightarrow> ''merge'' | Some r \<Rightarrow> fr_take r)" for rules path
    by (simp add: file_policy_def owned_globs_match last_rule_wins last_match_def take_fork_def take_merge_def
        split: list.split)
  note policy = this
  then show "file_policy rules path =
     (if path \<in> set owned_names \<or> in_namespace path then ''fork''
      else if beside_namespace path then ''fork''
      else case last_match rules path of None \<Rightarrow> ''merge'' | Some r \<Rightarrow> fr_take r)"
    by (simp add: owned_cases)
  have "owned_file ''.stagefreightrc''" by code_simp
  then show "file_policy rules ''.stagefreightrc'' = ''fork''"
    by (simp add: policy)
  show "\<not> in_namespace ''.stagefreightrc''" by code_simp
qed

text \<open>Two stars after a directory are not anchored at a path separator: a rule for everything under a
  directory also decides every sibling whose name only starts with the directory's name.\<close>

theorem directory_glob_matches_siblings:
  assumes "literal dir" "dir \<noteq> []" "last dir \<noteq> slash"
  shows "match_glob (dir @ ''/**'') (dir @ ''/'' @ rest) \<and> match_glob (dir @ ''/**'') (dir @ ''-old/'' @ rest)"
  using match_glob_dir [OF assms] by (simp add: has_prefix_def del: append.simps)

theorem directory_glob_matches_siblings_witness:
  "match_glob ''docs/**'' ''docs/guide.md'' \<and> match_glob ''docs/**'' ''docs-old/guide.md''"
  using directory_glob_matches_siblings [of "''docs''" "''guide.md''"] by simp

end
