(* ===== verification/Lint_Gate.thy ===== *)
theory Lint_Gate
  imports SF_Prelude "HOL-Library.Multiset"
begin

text \<open>
  What a lint finding is and when it fails a run: \<^verbatim>\<open>src/src/lint/finding.go\<close>, \<^verbatim>\<open>src/src/lint/summary.go\<close> and
  \<^verbatim>\<open>src/src/lint/classify.go\<close>.  SHA-256 is an argument.
\<close>

section \<open>Findings\<close>

datatype lint_severity = SeverityInfo | SeverityWarning | SeverityCritical

text \<open>The tiers are ordered as the code's integers are.\<close>

fun lint_rank :: "lint_severity \<Rightarrow> nat" where
  "lint_rank SeverityInfo = 0"
| "lint_rank SeverityWarning = 1"
| "lint_rank SeverityCritical = 2"

lemma lint_rank_inject [simp]: "lint_rank a = lint_rank b \<longleftrightarrow> a = b"
  by (cases a; cases b) simp_all

instantiation lint_severity :: linorder
begin

definition less_eq_lint_severity :: "lint_severity \<Rightarrow> lint_severity \<Rightarrow> bool" where
  "a \<le> b \<longleftrightarrow> lint_rank a \<le> lint_rank b"

definition less_lint_severity :: "lint_severity \<Rightarrow> lint_severity \<Rightarrow> bool" where
  "a < b \<longleftrightarrow> lint_rank a < lint_rank b"

instance
proof
  fix a b :: lint_severity
  assume "a \<le> b" "b \<le> a"
  then show "a = b" by (simp add: less_eq_lint_severity_def flip: lint_rank_inject)
qed (auto simp: less_eq_lint_severity_def less_lint_severity_def)

end

datatype confidence = ConfidenceConfirmed | ConfidenceProbable | ConfidenceHeuristic

fun severity_string :: "lint_severity \<Rightarrow> string" where
  "severity_string SeverityInfo = ''info''"
| "severity_string SeverityWarning = ''warning''"
| "severity_string SeverityCritical = ''critical''"

fun confidence_string :: "confidence \<Rightarrow> string" where
  "confidence_string ConfidenceProbable = ''probable''"
| "confidence_string ConfidenceHeuristic = ''heuristic''"
| "confidence_string ConfidenceConfirmed = ''confirmed''"

record remediation =
  rm_kind :: string
  rm_start :: int
  rm_end :: int
  rm_expected :: string
  rm_replacement :: string

record finding =
  fi_file :: string
  fi_line :: int
  fi_column :: int
  fi_module :: string
  fi_severity :: lint_severity
  fi_confidence :: confidence
  fi_message :: string
  fi_rule :: string
  fi_anchor :: string
  fi_fix :: "remediation option"

definition blocks :: "finding \<Rightarrow> bool" where
  "blocks f \<longleftrightarrow> fi_severity f = SeverityCritical"

definition fingerprint_bytes :: "finding \<Rightarrow> string" where
  "fingerprint_bytes f = concat (map (\<lambda>part. part @ [CHR 0x00]) [fi_file f, fi_module f, fi_rule f, fi_anchor f])"

definition fingerprint :: "(string \<Rightarrow> string) \<Rightarrow> finding \<Rightarrow> string" where
  "fingerprint sha f = sha (fingerprint_bytes f)"

section \<open>The gate\<close>

text \<open>\<open>EffectiveFailOn\<close> in \<^verbatim>\<open>src/src/config/lint.go\<close>.\<close>

definition effective_fail_on :: "string \<Rightarrow> string" where
  "effective_fail_on fail_on = (let v = to_lower (trim_space fail_on) in if v \<noteq> [] then v else ''critical'')"

record summary =
  sm_total :: nat
  sm_critical :: nat
  sm_warning :: nat
  sm_info :: nat
  sm_blocking :: nat

definition block_threshold :: "string \<Rightarrow> lint_severity \<times> bool" where
  "block_threshold fail_on =
     (if fail_on = ''off'' then (SeverityCritical, False)
      else if fail_on = ''info'' then (SeverityInfo, True)
      else if fail_on = ''warning'' then (SeverityWarning, True)
      else (SeverityCritical, True))"

definition blocks_at :: "finding \<Rightarrow> lint_severity \<Rightarrow> bool \<Rightarrow> bool" where
  "blocks_at f threshold gate_on \<longleftrightarrow> gate_on \<and> threshold \<le> fi_severity f"

definition tally :: "lint_severity \<Rightarrow> bool \<Rightarrow> summary \<Rightarrow> finding \<Rightarrow> summary" where
  "tally threshold gate_on s f =
     (let s = (case fi_severity f of
                 SeverityCritical \<Rightarrow> s\<lparr>sm_critical := sm_critical s + 1\<rparr>
               | SeverityWarning \<Rightarrow> s\<lparr>sm_warning := sm_warning s + 1\<rparr>
               | SeverityInfo \<Rightarrow> s\<lparr>sm_info := sm_info s + 1\<rparr>) in
      if blocks_at f threshold gate_on then s\<lparr>sm_blocking := sm_blocking s + 1\<rparr> else s)"

definition summarize :: "finding list \<Rightarrow> string \<Rightarrow> summary" where
  "summarize findings fail_on =
     (case block_threshold fail_on of (threshold, gate_on) \<Rightarrow>
        foldl (tally threshold gate_on)
          \<lparr>sm_total = length findings, sm_critical = 0, sm_warning = 0, sm_info = 0, sm_blocking = 0\<rparr> findings)"

definition gate_error :: "summary \<Rightarrow> string option" where
  "gate_error s =
     (if sm_blocking s > 0 then Some (''lint failed: '' @ itoa (int (sm_blocking s)) @ '' blocking finding(s)'') else None)"

definition gate_error_since :: "(string \<Rightarrow> string) \<Rightarrow> finding list \<Rightarrow> string set \<Rightarrow> string \<Rightarrow> string \<Rightarrow> string option" where
  "gate_error_since sha findings is_new label fail_on =
     (case block_threshold fail_on of (threshold, gate_on) \<Rightarrow>
        (let n = length (filter (\<lambda>f. blocks_at f threshold gate_on \<and> fingerprint sha f \<in> is_new) findings) in
         if n > 0 then Some (''lint failed: '' @ itoa (int n) @ '' new blocking finding(s) since '' @ label) else None))"

definition critical_note :: "summary \<Rightarrow> string" where
  "critical_note s =
     (let nb = int (sm_critical s) - int (sm_blocking s) in
      if nb > 0 then itoa (int (sm_critical s)) @ '' critical, '' @ itoa nb @ '' low-confidence non-blocking''
      else itoa (int (sm_critical s)) @ '' critical'')"

section \<open>Safe to mutate\<close>

definition world_modules :: "string list" where
  "world_modules = [''freshness'', ''osv'', ''vulnerabilities'']"

record mutability =
  mu_fatal :: "finding list"
  mu_remediable :: "finding list"

definition has_fatal :: "mutability \<Rightarrow> bool" where
  "has_fatal m \<longleftrightarrow> mu_fatal m \<noteq> []"

definition has_remediable :: "mutability \<Rightarrow> bool" where
  "has_remediable m \<longleftrightarrow> mu_remediable m \<noteq> []"

definition classify_step :: "mutability \<Rightarrow> finding \<Rightarrow> mutability" where
  "classify_step m f =
     (if \<not> blocks f then m
      else if fi_module f \<in> set world_modules then m\<lparr>mu_remediable := mu_remediable m @ [f]\<rparr>
      else m\<lparr>mu_fatal := mu_fatal m @ [f]\<rparr>)"

definition classify_findings :: "finding list \<Rightarrow> mutability" where
  "classify_findings findings = foldl classify_step \<lparr>mu_fatal = [], mu_remediable = []\<rparr> findings"

section \<open>Properties\<close>

lemma foldl_tally:
  "foldl (tally t g) s fs =
     s\<lparr>sm_critical := sm_critical s + length (filter (\<lambda>f. fi_severity f = SeverityCritical) fs),
       sm_warning := sm_warning s + length (filter (\<lambda>f. fi_severity f = SeverityWarning) fs),
       sm_info := sm_info s + length (filter (\<lambda>f. fi_severity f = SeverityInfo) fs),
       sm_blocking := sm_blocking s + length (filter (\<lambda>f. blocks_at f t g) fs)\<rparr>"
proof (induction fs arbitrary: s)
  case (Cons f fs)
  then show ?case by (cases "fi_severity f") (simp_all add: tally_def Let_def)
qed simp

lemma foldl_classify:
  "foldl classify_step m fs =
     \<lparr>mu_fatal = mu_fatal m @ filter (\<lambda>f. blocks f \<and> fi_module f \<notin> set world_modules) fs,
      mu_remediable = mu_remediable m @ filter (\<lambda>f. blocks f \<and> fi_module f \<in> set world_modules) fs\<rparr>"
  by (induction fs arbitrary: m) (auto simp: classify_step_def)

text \<open>The gate of a threshold: off never blocks, otherwise a finding of at least that tier does.\<close>

definition gate_open :: "string \<Rightarrow> finding \<Rightarrow> bool" where
  "gate_open fail_on f \<longleftrightarrow> fail_on = ''off'' \<or>
     fi_severity f < (if fail_on = ''info'' then SeverityInfo else if fail_on = ''warning'' then SeverityWarning else SeverityCritical)"

lemma blocks_at_gate: "blocks_at f (fst (block_threshold fail_on)) (snd (block_threshold fail_on)) \<longleftrightarrow> \<not> gate_open fail_on f"
  by (auto simp: blocks_at_def block_threshold_def gate_open_def not_less)

text \<open>The lint gate: a run passes exactly when every finding lies below the configured threshold (or the
  gate is off), the baseline-aware gate when every finding at or above it was known at the baseline, and
  the tiers of the summary add up to the findings.\<close>

theorem lint_gate_iff:
  "(gate_error (summarize fs fail_on) = None \<longleftrightarrow> (\<forall>f \<in> set fs. gate_open fail_on f)) \<and>
   (gate_error_since sha fs is_new label fail_on = None \<longleftrightarrow>
      (\<forall>f \<in> set fs. gate_open fail_on f \<or> fingerprint sha f \<notin> is_new)) \<and>
   sm_critical (summarize fs fail_on) + sm_warning (summarize fs fail_on) + sm_info (summarize fs fail_on) = length fs"
proof -
  obtain t g where tg: "block_threshold fail_on = (t, g)" by (cases "block_threshold fail_on")
  have b: "blocks_at f t g \<longleftrightarrow> \<not> gate_open fail_on f" for f using blocks_at_gate [of f fail_on] by (simp add: tg)
  have tiers: "length (filter (\<lambda>f. fi_severity f = SeverityCritical) fs) + length (filter (\<lambda>f. fi_severity f = SeverityWarning) fs) +
      length (filter (\<lambda>f. fi_severity f = SeverityInfo) fs) = length fs"
    by (induction fs) (auto intro: lint_severity.exhaust)
  then show ?thesis
    by (auto simp: gate_error_def gate_error_since_def summarize_def tg foldl_tally filter_empty_conv b Let_def)
qed

definition demo_finding :: finding where
  "demo_finding =
     \<lparr>fi_file = ''a.go'', fi_line = 3, fi_column = 1, fi_module = ''tabs'', fi_severity = SeverityWarning,
      fi_confidence = ConfidenceConfirmed, fi_message = ''tab'', fi_rule = ''tab'', fi_anchor = ''x'', fi_fix = None\<rparr>"

text \<open>The gate that the comment above the summary describes: a finding fails the run when it is critical and its
  confidence is at least probable.\<close>

definition documented_blocking :: "finding \<Rightarrow> bool" where
  "documented_blocking f \<longleftrightarrow> fi_severity f = SeverityCritical \<and> fi_confidence f \<noteq> ConfidenceHeuristic"

definition heuristic_critical :: "finding \<Rightarrow> bool" where
  "heuristic_critical f \<longleftrightarrow> fi_severity f = SeverityCritical \<and> fi_confidence f = ConfidenceHeuristic"

text \<open>C21: The comment above the summary says that only critical findings of at least probable confidence fail a
  run and are counted as blocking; the gate never reads the confidence. At the default threshold it blocks
  all of these, counts every heuristic critical finding besides, and so refuses a run that the comment lets
  pass exactly when every critical finding of it is heuristic and there is one. At any threshold, the run
  passes exactly when every finding lies below it (or the gate is off), the baseline-aware gate when
  every other finding was known at the baseline, and the tiers of the summary add up to the findings.\<close>

theorem heuristic_criticals_block:
  "sm_blocking (summarize fs ''critical'') =
     length (filter documented_blocking fs) + length (filter heuristic_critical fs) \<and>
   (gate_error (summarize fs ''critical'') \<noteq> None \<and> filter documented_blocking fs = [] \<longleftrightarrow>
      filter documented_blocking fs = [] \<and> filter heuristic_critical fs \<noteq> []) \<and>
   (gate_error (summarize fs fail_on) = None \<longleftrightarrow> filter (\<lambda>f. \<not> gate_open fail_on f) fs = []) \<and>
   (gate_error_since sha fs is_new label fail_on = None \<longleftrightarrow>
      filter (\<lambda>f. \<not> gate_open fail_on f \<and> fingerprint sha f \<in> is_new) fs = []) \<and>
   sm_critical (summarize fs fail_on) + sm_warning (summarize fs fail_on) + sm_info (summarize fs fail_on) = length fs"
proof -
  have "length (filter (\<lambda>f. fi_severity f = SeverityCritical) fs) =
      length (filter documented_blocking fs) + length (filter heuristic_critical fs)"
    by (induction fs) (auto simp: documented_blocking_def heuristic_critical_def)
  moreover have at: "blocks_at f SeverityCritical True \<longleftrightarrow> fi_severity f = SeverityCritical" for f
    by (cases "fi_severity f") (simp_all add: blocks_at_def less_eq_lint_severity_def)
  ultimately have n: "sm_blocking (summarize fs ''critical'') =
      length (filter documented_blocking fs) + length (filter heuristic_critical fs)"
    by (simp add: summarize_def block_threshold_def foldl_tally)
  then have "gate_error (summarize fs ''critical'') \<noteq> None \<longleftrightarrow>
      filter documented_blocking fs \<noteq> [] \<or> filter heuristic_critical fs \<noteq> []"
    by (simp add: gate_error_def)
  with n show ?thesis using lint_gate_iff [of fs fail_on sha is_new label] by (auto simp: filter_empty_conv)
qed

text \<open>What may be mutated: the blocking findings are split, in order and without loss, into those of
  modules that watch the outside world and those that void the source.\<close>

theorem classify_findings_splits:
  "mu_fatal (classify_findings fs) = filter (\<lambda>f. blocks f \<and> fi_module f \<notin> set world_modules) fs \<and>
   mu_remediable (classify_findings fs) = filter (\<lambda>f. blocks f \<and> fi_module f \<in> set world_modules) fs \<and>
   mset (mu_fatal (classify_findings fs)) + mset (mu_remediable (classify_findings fs)) = mset (filter blocks fs)"
proof -
  have "mset (filter (\<lambda>f. blocks f \<and> fi_module f \<notin> set world_modules) fs) +
      mset (filter (\<lambda>f. blocks f \<and> fi_module f \<in> set world_modules) fs) = mset (filter blocks fs)"
    by (induction fs) auto
  then show ?thesis by (simp add: classify_findings_def foldl_classify)
qed

text \<open>Classification and gate can disagree: with the threshold lowered to warnings, a warning fails the
  gate although it is neither fatal nor remediable.\<close>

theorem warning_blocks_unclassified:
  assumes "fi_severity f = SeverityWarning"
  shows "gate_error (summarize [f] ''warning'') \<noteq> None \<and>
    \<not> has_fatal (classify_findings [f]) \<and> \<not> has_remediable (classify_findings [f])"
  using assms
  by (simp add: gate_error_def summarize_def block_threshold_def tally_def blocks_at_def Let_def classify_findings_def
      classify_step_def blocks_def has_fatal_def has_remediable_def)

theorem warning_blocks_unclassified_witness:
  "gate_error (summarize [demo_finding] ''warning'') \<noteq> None \<and>
    \<not> has_fatal (classify_findings [demo_finding]) \<and> \<not> has_remediable (classify_findings [demo_finding])"
  by (rule warning_blocks_unclassified) (simp add: demo_finding_def)

section \<open>Identity\<close>

lemma nul_terminated_inject:
  "CHR 0x00 \<notin> set a \<Longrightarrow> CHR 0x00 \<notin> set b \<Longrightarrow> a @ CHR 0x00 # x = b @ CHR 0x00 # y \<longleftrightarrow> a = b \<and> x = y"
proof (induction a arbitrary: b)
  case Nil
  then show ?case by (cases b) auto
next
  case (Cons c a)
  then show ?case by (cases b) auto
qed

text \<open>The identity of a finding: two findings whose file, module and rule hold no NUL byte have the same
  fingerprint exactly when file, module, rule and anchor agree - position, message and severity do not
  count, and no choice of anchor can forge another field.\<close>

theorem fingerprint_iff_same_identity:
  assumes "list_all (\<lambda>part. CHR 0x00 \<notin> set part) [fi_file f, fi_module f, fi_rule f, fi_file g, fi_module g, fi_rule g]"
    "sha (fingerprint_bytes f) = sha (fingerprint_bytes g) \<longrightarrow> fingerprint_bytes f = fingerprint_bytes g"
  shows "fingerprint sha f = fingerprint sha g \<longleftrightarrow>
    fi_file f = fi_file g \<and> fi_module f = fi_module g \<and> fi_rule f = fi_rule g \<and> fi_anchor f = fi_anchor g"
proof -
  have "fingerprint_bytes f = fingerprint_bytes g \<longleftrightarrow>
      fi_file f = fi_file g \<and> fi_module f = fi_module g \<and> fi_rule f = fi_rule g \<and> fi_anchor f = fi_anchor g"
    using assms(1) by (simp add: fingerprint_bytes_def nul_terminated_inject)
  with assms(2) show ?thesis by (auto simp: fingerprint_def)
qed

theorem fingerprint_iff_same_identity_witness:
  "fingerprint id (demo_finding\<lparr>fi_line := 9\<rparr>) = fingerprint id demo_finding \<longleftrightarrow> True"
  using fingerprint_iff_same_identity [of "demo_finding\<lparr>fi_line := 9\<rparr>" demo_finding id]
  by (simp add: demo_finding_def)

text \<open>The note about critical findings never looks at the confidence.\<close>

lemma critical_note_ignores_confidence:
  assumes "fi_severity f = SeverityCritical" "fi_confidence f = ConfidenceConfirmed"
  shows "critical_note (summarize [f] ''off'') = ''1 critical, 1 low-confidence non-blocking''"
proof -
  have "summarize [f] ''off'' = \<lparr>sm_total = 1, sm_critical = 1, sm_warning = 0, sm_info = 0, sm_blocking = 0\<rparr>"
    using assms(1) by (simp add: summarize_def block_threshold_def tally_def Let_def blocks_at_def)
  moreover have "critical_note \<lparr>sm_total = 1, sm_critical = 1, sm_warning = 0, sm_info = 0, sm_blocking = 0\<rparr> =
      ''1 critical, 1 low-confidence non-blocking''" by code_simp
  ultimately show ?thesis by simp
qed

end
