(* ===== verification/Lint_Provenance.thy ===== *)
theory Lint_Provenance
  imports Go_Glob
begin

text \<open>
  Where a file comes from and what its bytes are: \<^verbatim>\<open>src/src/lint/provenance.go\<close> and \<^verbatim>\<open>src/src/lint/content.go\<close>.
  A set of paths is a list; the two ratios are compared as integers, which is what the comparisons of
  the correctly rounded quotients with the constants decide for prefixes of at most 8192 bytes.
\<close>

section \<open>Walking up the directories\<close>

definition weight :: "string list \<Rightarrow> nat" where
  "weight es = sum_list (map (\<lambda>e. length e + 1) es)"

lemma weight_simps [simp]: "weight [] = 0" "weight (e # es) = length e + 1 + weight es" "weight (es @ fs) = weight es + weight fs"
  by (simp_all add: weight_def)

lemma weight_split [simp]: "weight (split_on sep s) = length s + 1"
  by (induction s) (auto split: list.split)

lemma weight_butlast: "weight (butlast es) \<le> weight es"
  by (induction es) auto

lemma clean_weight: "weight (foldl (clean_step rooted) out es) \<le> weight out + weight es"
proof (induction es arbitrary: out)
  case (Cons e es)
  have "weight (clean_step rooted out e) \<le> weight out + weight [e]"
    using weight_butlast [of out] by (auto simp: clean_step_def)
  with Cons.IH [of "clean_step rooted out e"] show ?case by simp
qed simp

lemma length_join: "es \<noteq> [] \<Longrightarrow> length (join [sep] es) + 1 = weight es"
proof (induction es)
  case (Cons e es)
  then show ?case by (cases es) auto
qed simp

lemma path_clean_length:
  assumes "p \<noteq> []"
  shows "length (path_clean p) \<le> length p"
proof (cases "is_abs p")
  case True
  with assms obtain q where p: "p = slash # q" by (cases p) (auto simp: is_abs_def has_prefix_def)
  have "weight (clean_elems True (split_on slash p)) \<le> weight (split_on slash q)"
    using clean_weight [of True "[]" "split_on slash q"] by (simp add: clean_elems_def p clean_step_def)
  with True show ?thesis
    using length_join [of "clean_elems True (split_on slash p)" slash]
    by (cases "clean_elems True (split_on slash p) = []") (auto simp: path_clean_def path_of_elems_def p)
next
  case False
  have "weight (clean_elems False (split_on slash p)) \<le> length p + 1"
    using clean_weight [of False "[]" "split_on slash p"] by (simp add: clean_elems_def)
  with False assms show ?thesis
    using length_join [of "clean_elems False (split_on slash p)" slash]
    by (cases "clean_elems False (split_on slash p) = []") (auto simp: path_clean_def path_of_elems_def Suc_le_eq)
qed

lemma split_on_snoc_sep: "split_on sep (s @ [sep]) = split_on sep s @ [[]]"
  by (induction s) (auto split: list.split)

lemma path_clean_trailing: "q \<noteq> [] \<Longrightarrow> path_clean (q @ [slash]) = path_clean q"
  by (cases q) (simp_all add: path_clean_def clean_elems_def split_on_snoc_sep clean_step_def is_abs_def has_prefix_def
    del: split_on.simps append_Cons flip: append_Cons)

definition stop_dirs :: "string list" where
  "stop_dirs = [''.'', ''/'', []]"

lemma path_dir_shrinks: "path_dir d \<in> set stop_dirs \<or> length (path_dir d) < length d"
proof (cases "slash \<in> set d")
  case False
  then have dw: "dropWhile (\<lambda>c. c \<noteq> slash) (rev d) = []" by (auto simp: dropWhile_eq_Nil_conv)
  have "path_dir d = ''.''" unfolding path_dir_def dw by code_simp
  then show ?thesis by (simp add: stop_dirs_def)
next
  case True
  then obtain a b where d: "d = a @ slash # b" "slash \<notin> set b" by (metis split_list_last)
  then have "dropWhile (\<lambda>c. c \<noteq> slash) (rev d) = slash # rev a"
    by (auto simp: dropWhile_append)
  then have dir: "path_dir d = path_clean (a @ [slash])" by (simp add: path_dir_def)
  show ?thesis
  proof (cases "a = []")
    case True
    with dir have "path_dir d = ''/''" by (simp add: path_clean_def is_abs_def has_prefix_def clean_elems_def clean_step_def path_of_elems_def)
    then show ?thesis by (simp add: stop_dirs_def)
  next
    case False
    with dir path_clean_length [OF False] d show ?thesis by (simp add: path_clean_trailing)
  qed
qed

text \<open>The loop of \<open>underVendoredRoot\<close>, from the first directory on.\<close>

function root_above :: "string list \<Rightarrow> string \<Rightarrow> string option" where
  "root_above roots dir =
     (if dir \<in> set stop_dirs then None
      else if dir \<in> set roots then Some dir
      else root_above roots (path_dir dir))"
  by pat_completeness auto
termination
proof (relation "measure (\<lambda>(roots, dir). if dir \<in> set stop_dirs then 0 else length dir)")
  fix roots :: "string list" and dir
  assume "dir \<notin> set stop_dirs"
  with path_dir_shrinks [of dir] show "((roots, path_dir dir), roots, dir) \<in> measure (\<lambda>(roots, dir). if dir \<in> set stop_dirs then 0 else length dir)"
    by (auto simp: stop_dirs_def)
qed simp

declare root_above.simps [simp del]

definition under_vendored_root :: "string \<Rightarrow> string list \<Rightarrow> string option" where
  "under_vendored_root path roots = (if roots = [] then None else root_above roots (path_dir path))"

section \<open>Provenance\<close>

datatype provenance_kind = ProvenanceAuthored | ProvenanceGenerated | ProvenanceVendored | ProvenanceLockfile

record provenance =
  pv_kind :: provenance_kind
  pv_source :: string

record provenance_config =
  pc_generated :: "string list"
  pc_vendored :: "string list"

definition is_authored :: "provenance \<Rightarrow> bool" where
  "is_authored p \<longleftrightarrow> pv_kind p = ProvenanceAuthored"

definition relax_hygiene :: "provenance \<Rightarrow> bool" where
  "relax_hygiene p \<longleftrightarrow> pv_kind p \<noteq> ProvenanceAuthored"

fun provenance_string :: "provenance_kind \<Rightarrow> string" where
  "provenance_string ProvenanceGenerated = ''generated''"
| "provenance_string ProvenanceVendored = ''vendored''"
| "provenance_string ProvenanceLockfile = ''lockfile''"
| "provenance_string ProvenanceAuthored = ''authored''"

definition lockfile_names :: "string list" where
  "lockfile_names =
     [''Cargo.lock'', ''package-lock.json'', ''yarn.lock'', ''pnpm-lock.yaml'', ''npm-shrinkwrap.json'', ''go.sum'',
      ''poetry.lock'', ''Pipfile.lock'', ''Gemfile.lock'', ''composer.lock'', ''flake.lock'', ''pdm.lock'',
      ''bun.lockb'', ''packages.lock.json'', ''mix.lock'', ''pubspec.lock'', ''gradle.lockfile'', ''paket.lock'']"

definition vendor_marker_names :: "string list" where
  "vendor_marker_names = [''.cargo_vcs_info.json'', ''Cargo.toml.orig'']"

definition vendor_path_segments :: "string list" where
  "vendor_path_segments = [''vendor'', ''third_party'', ''third-party'', ''external'', ''node_modules'']"

text \<open>What follows the first occurrence of a word.\<close>

fun after_word :: "string \<Rightarrow> string \<Rightarrow> string option" where
  "after_word w s =
     (if has_prefix s w then Some (drop (length w) s)
      else case s of [] \<Rightarrow> None | _ # cs \<Rightarrow> after_word w cs)"

declare after_word.simps [simp del]

text \<open>The expression \<^verbatim>\<open>(?i)code generated [^\n]*? do not edit|@generated\<close> on one line.\<close>

definition marker_line :: "string \<Rightarrow> bool" where
  "marker_line seg =
     (let l = to_lower seg in
      (case after_word ''code generated '' l of Some rest \<Rightarrow> after_word '' do not edit'' rest \<noteq> None | None \<Rightarrow> False) \<or>
      after_word ''@generated'' l \<noteq> None)"

fun marker_scan :: "nat \<Rightarrow> string \<Rightarrow> bool" where
  "marker_scan 0 head = False"
| "marker_scan (Suc n) head =
     (if head = [] then False
      else
        (case cut_at (CHR 0x0A) head of
           Some (seg, rest) \<Rightarrow> marker_line seg \<or> marker_scan n rest
         | None \<Rightarrow> marker_line head))"

definition generated_marker_max_lines :: nat where
  "generated_marker_max_lines = 5"

definition has_generated_marker :: "string \<Rightarrow> bool" where
  "has_generated_marker head = marker_scan generated_marker_max_lines head"

definition derive_vendored_roots :: "string list \<Rightarrow> string list" where
  "derive_vendored_roots paths = map path_dir (filter (\<lambda>p. path_base p \<in> set vendor_marker_names) paths)"

definition vendor_path_segment :: "string \<Rightarrow> string option" where
  "vendor_path_segment path = find (\<lambda>seg. seg \<in> set vendor_path_segments) (split_on slash path)"

definition classify_provenance :: "string \<Rightarrow> string \<Rightarrow> provenance_config \<Rightarrow> string list \<Rightarrow> provenance" where
  "classify_provenance path head decl roots =
     (if list_ex (\<lambda>g. match_glob g path) (pc_generated decl) then \<lparr>pv_kind = ProvenanceGenerated, pv_source = ''config''\<rparr>
      else if list_ex (\<lambda>g. match_glob g path) (pc_vendored decl) then \<lparr>pv_kind = ProvenanceVendored, pv_source = ''config''\<rparr>
      else if path_base path \<in> set lockfile_names then
        \<lparr>pv_kind = ProvenanceLockfile, pv_source = ''lockfile:'' @ path_base path\<rparr>
      else if has_generated_marker head then \<lparr>pv_kind = ProvenanceGenerated, pv_source = ''marker''\<rparr>
      else
        (case under_vendored_root path roots of
           Some root \<Rightarrow> \<lparr>pv_kind = ProvenanceVendored, pv_source = ''vendor-marker:'' @ root\<rparr>
         | None \<Rightarrow>
             (case vendor_path_segment path of
                Some seg \<Rightarrow> \<lparr>pv_kind = ProvenanceVendored, pv_source = ''path:'' @ seg\<rparr>
              | None \<Rightarrow> \<lparr>pv_kind = ProvenanceAuthored, pv_source = []\<rparr>)))"

section \<open>Content\<close>

datatype content_kind = ContentText | ContentBinary | ContentAmbiguous

record content =
  co_kind :: content_kind
  co_magic :: string

definition is_text :: "content \<Rightarrow> bool" where
  "is_text c \<longleftrightarrow> co_kind c = ContentText"

definition classify_prefix :: nat where
  "classify_prefix = 8192"

text \<open>The bytes consumed by runes that decode.\<close>

function valid_bytes :: "string \<Rightarrow> nat" where
  "valid_bytes s =
     (if s = [] then 0
      else
        (case decode_rune s of (r, n) \<Rightarrow>
           if r = rune_error \<and> n = 1 then valid_bytes (tl s) else n + valid_bytes (drop n s)))"
  by pat_completeness auto
termination
proof (relation "measure length", goal_cases)
  case (3 s r n)
  with decode_rune_size(1) [of s] show ?case by (cases s) (auto simp: Suc_le_eq dest: sym)
qed (simp_all add: neq_Nil_conv)

declare valid_bytes.simps [simp del]

definition control_byte :: "char \<Rightarrow> bool" where
  "control_byte c \<longleftrightarrow> byte c < 32 \<and> byte c \<notin> {9, 10, 13} \<or> byte c = 127"

definition control_bytes :: "string \<Rightarrow> nat" where
  "control_bytes s = length (filter control_byte s)"

definition bytes_of :: "nat list \<Rightarrow> string" where
  "bytes_of ns = map char_of ns"

definition sniff_magic :: "string \<Rightarrow> string" where
  "sniff_magic b =
     (if has_prefix b (bytes_of [0x89, 0x50, 0x4E, 0x47, 0x0D, 0x0A, 0x1A, 0x0A]) then ''png''
      else if has_prefix b (bytes_of [0xFF, 0xD8, 0xFF]) then ''jpeg''
      else if has_prefix b ''GIF87a'' \<or> has_prefix b ''GIF89a'' then ''gif''
      else if length b \<ge> 12 \<and> has_prefix b ''RIFF'' \<and> take 4 (drop 8 b) = ''WEBP'' then ''webp''
      else if has_prefix b ''%PDF-'' then ''pdf''
      else if has_prefix b (bytes_of [0x1F, 0x8B]) then ''gzip''
      else if has_prefix b (''PK'' @ bytes_of [3, 4]) \<or> has_prefix b (''PK'' @ bytes_of [5, 6]) then ''zip''
      else if has_prefix b (bytes_of [0x7F] @ ''ELF'') then ''elf''
      else if has_prefix b ''ID3'' then ''mp3''
      else if has_prefix b ''OggS'' then ''ogg''
      else if has_prefix b ''BM'' \<and> length b > 6 then ''bmp''
      else if has_prefix b (bytes_of [0xCA, 0xFE, 0xBA, 0xBE]) \<or> has_prefix b (bytes_of [0xFE, 0xED, 0xFA]) then ''macho''
      else if has_prefix b (bytes_of [0x28, 0xB5, 0x2F, 0xFD]) then ''zstd''
      else [])"

definition utf16_bom :: "string \<Rightarrow> bool" where
  "utf16_bom b \<longleftrightarrow> has_prefix b (bytes_of [0xFF, 0xFE]) \<or> has_prefix b (bytes_of [0xFE, 0xFF])"

definition classify_content :: "string \<Rightarrow> content" where
  "classify_content data =
     (if data = [] then \<lparr>co_kind = ContentText, co_magic = []\<rparr>
      else
        (let prefix = take classify_prefix data; m = sniff_magic prefix; n = length prefix in
         if m \<noteq> [] then \<lparr>co_kind = ContentBinary, co_magic = m\<rparr>
         else if utf16_bom prefix then \<lparr>co_kind = ContentAmbiguous, co_magic = ''utf-16''\<rparr>
         else if CHR 0x00 \<in> set prefix then \<lparr>co_kind = ContentBinary, co_magic = []\<rparr>
         else if 100 * valid_bytes prefix > 99 * n \<and> 10 * control_bytes prefix < n then \<lparr>co_kind = ContentText, co_magic = []\<rparr>
         else if 100 * valid_bytes prefix < 70 * n \<or> 100 * control_bytes prefix > 30 * n then
           \<lparr>co_kind = ContentBinary, co_magic = []\<rparr>
         else \<lparr>co_kind = ContentAmbiguous, co_magic = []\<rparr>))"

section \<open>Provenance fails closed\<close>

lemma cut_at_split: "cut_at sep s = Some (a, b) \<Longrightarrow> split_on sep s = a # split_on sep b"
  by (simp add: cut_at_Some split_on_append_sep)

lemma marker_line_Nil [simp]: "\<not> marker_line []"
  by code_simp

lemma marker_scan_lines: "marker_scan n head \<longleftrightarrow> list_ex marker_line (take n (split_on (CHR 0x0A) head))"
proof (induction n arbitrary: head)
  case (Suc n)
  show ?case
  proof (cases "cut_at (CHR 0x0A) head")
    case None
    then have "split_on (CHR 0x0A) head = [head]" by (simp add: cut_at_None split_on_plain)
    with None show ?thesis by auto
  next
    case (Some x)
    then obtain seg rest where c: "cut_at (CHR 0x0A) head = Some (seg, rest)" by (cases x) auto
    then have "head \<noteq> []" by (auto simp: cut_at_Some)
    with c Suc show ?thesis by (simp add: cut_at_split [OF c])
  qed
qed simp

inductive dir_above :: "string \<Rightarrow> string \<Rightarrow> bool" for path where
  dir_above_here: "path_dir path \<notin> set stop_dirs \<Longrightarrow> dir_above path (path_dir path)"
| dir_above_up: "dir_above path d \<Longrightarrow> path_dir d \<notin> set stop_dirs \<Longrightarrow> dir_above path (path_dir d)"

lemma root_above_Some: "root_above roots d = Some r \<Longrightarrow> dir_above path d \<or> d \<in> set stop_dirs \<Longrightarrow> dir_above path r \<and> r \<in> set roots"
proof (induction roots d rule: root_above.induct)
  case (1 roots d)
  from 1(2) have d: "d \<notin> set stop_dirs" by (subst (asm) root_above.simps) (auto split: if_splits)
  show ?case
  proof (cases "d \<in> set roots")
    case True
    with 1(2,3) d show ?thesis by (subst (asm) root_above.simps) simp
  next
    case False
    with 1(2) d have "root_above roots (path_dir d) = Some r" by (subst (asm) root_above.simps) simp
    with 1(1) [OF d False] 1(3) d dir_above_up show ?thesis by blast
  qed
qed

lemma root_above_found: "dir_above path d \<Longrightarrow> d \<in> set roots \<Longrightarrow> root_above roots (path_dir path) \<noteq> None"
proof -
  have step: "root_above roots d \<noteq> None \<Longrightarrow> root_above roots (path_dir path) \<noteq> None" if "dir_above path d" for d
    using that
  proof (induction rule: dir_above.induct)
    case (dir_above_up d)
    have "d \<notin> set stop_dirs" using dir_above_up(1) by (cases rule: dir_above.cases) auto
    then have "root_above roots d \<noteq> None" using dir_above_up(4) by (subst root_above.simps) simp
    then show ?case by (rule dir_above_up(3))
  qed
  assume "dir_above path d" "d \<in> set roots"
  moreover from this(1) have "d \<notin> set stop_dirs" by (cases rule: dir_above.cases) auto
  ultimately have "root_above roots d \<noteq> None" by (subst root_above.simps) simp
  with step \<open>dir_above path d\<close> show ?thesis by blast
qed

lemma under_vendored_iff: "under_vendored_root path roots \<noteq> None \<longleftrightarrow> (\<exists>d. dir_above path d \<and> d \<in> set roots)"
proof
  assume "under_vendored_root path roots \<noteq> None"
  then obtain r where "root_above roots (path_dir path) = Some r"
    by (auto simp: under_vendored_root_def split: if_splits)
  with root_above_Some [OF this, of path] dir_above_here [of path] show "\<exists>d. dir_above path d \<and> d \<in> set roots" by blast
next
  assume "\<exists>d. dir_above path d \<and> d \<in> set roots"
  then obtain d where d: "dir_above path d" "d \<in> set roots" by blast
  from root_above_found [OF this] d(2) show "under_vendored_root path roots \<noteq> None"
    by (auto simp: under_vendored_root_def)
qed

text \<open>C32: Provenance fails closed: a file counts as authored exactly when there is no positive evidence against
  it - no declared glob, no lock file name, no generation banner in its first five lines, no vendor
  marker in a directory above it, no vendor directory in its path.\<close>

theorem authored_iff_no_evidence:
  "is_authored (classify_provenance path head decl roots) \<longleftrightarrow>
     \<not> (\<exists>g \<in> set (pc_generated decl) \<union> set (pc_vendored decl). match_glob g path) \<and>
     path_base path \<notin> set lockfile_names \<and>
     \<not> list_ex marker_line (take 5 (split_on (CHR 0x0A) head)) \<and>
     \<not> (\<exists>d. dir_above path d \<and> d \<in> set roots) \<and>
     set (split_on slash path) \<inter> set vendor_path_segments = {}"
proof -
  have marker: "has_generated_marker head \<longleftrightarrow> list_ex marker_line (take 5 (split_on (CHR 0x0A) head))"
    by (simp add: has_generated_marker_def generated_marker_max_lines_def marker_scan_lines)
  have seg: "vendor_path_segment path = None \<longleftrightarrow> set (split_on slash path) \<inter> set vendor_path_segments = {}"
    by (auto simp: vendor_path_segment_def find_None_iff)
  show ?thesis
    unfolding under_vendored_iff [symmetric] seg [symmetric] marker [symmetric]
    by (simp add: classify_provenance_def is_authored_def list_ex_iff split: option.split) blast
qed

section \<open>What counts as text\<close>

lemma take_prefix [simp]: "take classify_prefix (take classify_prefix data) = take classify_prefix data"
  by simp

lemma classify_content_prefix: "classify_content (take classify_prefix data) = classify_content data"
  by (simp add: classify_content_def classify_prefix_def)

text \<open>What the text checks see: text has no NUL byte, no byte order mark of UTF-16 and no magic number in its
  first 8192 bytes, more than 99 percent of these decode and fewer than 10 percent are control bytes;
  what follows them does not count.\<close>

theorem content_text_iff:
  "is_text (classify_content data) \<longleftrightarrow> data = [] \<or>
     (let p = take classify_prefix data in
      sniff_magic p = [] \<and> \<not> utf16_bom p \<and> CHR 0x00 \<notin> set p \<and>
      100 * valid_bytes p > 99 * length p \<and> 10 * control_bytes p < length p)"
  by (simp add: classify_content_def is_text_def Let_def)

lemma valid_bytes_ascii: "list_all (\<lambda>c. byte c < 128) s \<Longrightarrow> valid_bytes s = length s"
proof (induction s)
  case Nil
  then show ?case by (simp add: valid_bytes.simps)
next
  case (Cons c s)
  then show ?case
    by (subst valid_bytes.simps) (simp add: decode_rune_ascii rune_error_def)
qed

definition clean_char :: "char \<Rightarrow> bool" where
  "clean_char c \<longleftrightarrow> byte c < 128 \<and> \<not> control_byte c"

lemma utf16_not_ascii: "list_all (\<lambda>c. byte c < 128) p \<Longrightarrow> \<not> utf16_bom p"
  by (cases p) (auto simp: utf16_bom_def has_prefix_def bytes_of_def byte_def)

text \<open>Clean ASCII is text unless it happens to start with a magic number.\<close>

lemma clean_ascii_is_text:
  assumes "list_all clean_char data" "sniff_magic (take classify_prefix data) = []"
  shows "is_text (classify_content data)"
proof (cases "data = []")
  case False
  define p where "p = take classify_prefix data"
  have p: "list_all clean_char p" "p \<noteq> []"
    using assms(1) False by (auto simp: p_def classify_prefix_def list_all_iff dest: in_set_takeD)
  then have ascii: "list_all (\<lambda>c. byte c < 128) p" "control_bytes p = 0"
    by (auto simp: list_all_iff clean_char_def control_bytes_def filter_empty_conv)
  have "CHR 0x00 \<notin> set p" using p(1) by (auto simp: list_all_iff clean_char_def control_byte_def byte_def)
  with ascii p assms(2) utf16_not_ascii [OF ascii(1)] show ?thesis
    by (simp add: content_text_iff p_def [symmetric] valid_bytes_ascii Let_def)
qed (simp add: classify_content_def is_text_def)

text \<open>Every text of more than six bytes that starts with the letters BM is classified as a bitmap, so the text
  checks skip it.\<close>

theorem text_taken_for_bitmap:
  assumes "length rest > 4"
  shows "classify_content (''BM'' @ rest) = \<lparr>co_kind = ContentBinary, co_magic = ''bmp''\<rparr>"
proof -
  have b: "CHR ''B'' \<noteq> char_of (31 :: nat)" "CHR ''B'' \<noteq> char_of (255 :: nat)" "CHR ''B'' \<noteq> char_of (137 :: nat)"
    by code_simp+
  have "sniff_magic (take classify_prefix (''BM'' @ rest)) = ''bmp''"
    using assms b by (simp add: sniff_magic_def has_prefix_def bytes_of_def classify_prefix_def)
  then show ?thesis by (simp add: classify_content_def Let_def del: append.simps)
qed

theorem text_taken_for_bitmap_witness:
  "classify_content ''BMAKE := make'' = \<lparr>co_kind = ContentBinary, co_magic = ''bmp''\<rparr>"
  using text_taken_for_bitmap [of "''AKE := make''"] by simp

end
