(* ===== verification/Lint_Engine.thy ===== *)
theory Lint_Engine
  imports Lint_Gate Lint_Provenance
begin

text \<open>
  The lint engine (\<^verbatim>\<open>src/src/lint/engine.go\<close>): which modules run, which files they see, the two passes over the
  files, and the result cache (\<^verbatim>\<open>src/src/lint/cache.go\<close>).

  A module is what its registered constructor gives: its checks are functions of the file.  The
  goroutines of the per-file pass run in an arbitrary order, which is an argument; a check with its
  cache lookup and its cache write is one step.
\<close>

section \<open>Configuration\<close>

record 'o module_config =
  mc_enabled :: "bool option"
  mc_exclude :: "string list"
  mc_options :: "'o option"

record 'o lint_config =
  lc_exclude :: "string list"
  lc_modules :: "string \<Rightarrow> 'o module_config option"
  lc_provenance :: provenance_config

definition normalize_slash_path :: "string \<Rightarrow> string" where
  "normalize_slash_path p = trim_prefix p ''./''"

definition match_exclude_pattern :: "string \<Rightarrow> string \<Rightarrow> string \<Rightarrow> bool" where
  "match_exclude_pattern pat norm_path base_name =
     (if slash \<in> set pat \<or> cut_stars pat \<noteq> None then match_glob pat norm_path else match_glob pat base_name)"

definition excluded_by :: "string list \<Rightarrow> string \<Rightarrow> bool" where
  "excluded_by pats path =
     (pats \<noteq> [] \<and>
      (let norm_path = normalize_slash_path path; base_name = path_base norm_path in
       list_ex (\<lambda>p. match_exclude_pattern p norm_path base_name) pats))"

definition is_excluded :: "'o lint_config \<Rightarrow> string \<Rightarrow> bool" where
  "is_excluded cfg path = excluded_by (lc_exclude cfg) path"

definition is_module_excluded :: "'o lint_config \<Rightarrow> string \<Rightarrow> string \<Rightarrow> bool" where
  "is_module_excluded cfg name path =
     (case lc_modules cfg name of None \<Rightarrow> False | Some mc \<Rightarrow> excluded_by (mc_exclude mc) path)"

definition module_aliases :: "(string \<times> string) list" where
  "module_aliases = [(''osv'', ''vulnerabilities'')]"

definition canonical_module_name :: "string \<Rightarrow> string" where
  "canonical_module_name name = (case map_of module_aliases name of Some canon \<Rightarrow> canon | None \<Rightarrow> name)"

definition module_config_for :: "'o lint_config \<Rightarrow> string \<Rightarrow> 'o module_config option" where
  "module_config_for cfg name =
     (case lc_modules cfg name of
        Some mc \<Rightarrow> Some mc
      | None \<Rightarrow>
          (case find (\<lambda>(alias, canon). canon = name \<and> lc_modules cfg alias \<noteq> None) module_aliases of
             Some (alias, _) \<Rightarrow> lc_modules cfg alias
           | None \<Rightarrow> None))"

definition module_options :: "'o lint_config \<Rightarrow> string \<Rightarrow> 'o option" where
  "module_options cfg name =
     (if name = ''vulnerabilities'' then
        (case module_config_for cfg name of
           Some mc \<Rightarrow>
             if mc_options mc \<noteq> None then mc_options mc
             else (case lc_modules cfg ''freshness'' of Some fc \<Rightarrow> mc_options fc | None \<Rightarrow> None)
         | None \<Rightarrow> (case lc_modules cfg ''freshness'' of Some fc \<Rightarrow> mc_options fc | None \<Rightarrow> None))
      else (case module_config_for cfg name of Some mc \<Rightarrow> mc_options mc | None \<Rightarrow> None))"

section \<open>Modules and their selection\<close>

record file_info =
  fl_path :: string
  fl_size :: int
  fl_content :: content
  fl_provenance :: provenance

text \<open>\<open>lm_ttl\<close>, \<open>lm_state\<close> and \<open>lm_whole\<close> are \<^const>\<open>None\<close> for a module without that interface; \<open>lm_configure\<close> is the
  error of \<open>Configure\<close>, if any.\<close>

record ('o, 'e) lint_module =
  lm_name :: string
  lm_check :: "file_info \<Rightarrow> 'e + finding list"
  lm_default :: bool
  lm_configure :: "'o option \<Rightarrow> 'e option"
  lm_ttl :: "int option"
  lm_state :: "string option"
  lm_whole :: "(file_info list \<Rightarrow> finding list \<times> 'e option) option"
  lm_full :: bool

datatype 'e engine_error = UnknownModule string | ConfigureError 'e | NoModules

type_synonym ('o, 'e) module_registry = "string \<Rightarrow> ('o, 'e) lint_module option"

definition load_module :: "('o, 'e) module_registry \<Rightarrow> 'o lint_config \<Rightarrow> string \<Rightarrow> 'e engine_error + ('o, 'e) lint_module" where
  "load_module reg cfg name =
     (case reg name of
        None \<Rightarrow> Inl (UnknownModule name)
      | Some m \<Rightarrow> (case lm_configure m (module_options cfg name) of Some e \<Rightarrow> Inl (ConfigureError e) | None \<Rightarrow> Inr m))"

fun select_explicit ::
  "('o, 'e) module_registry \<Rightarrow> 'o lint_config \<Rightarrow> string list \<Rightarrow> string list \<Rightarrow> string list \<Rightarrow> ('o, 'e) lint_module list
     \<Rightarrow> 'e engine_error + ('o, 'e) lint_module list" where
  "select_explicit reg cfg skip seen [] mods = Inr mods"
| "select_explicit reg cfg skip seen (raw # raws) mods =
     (let name = canonical_module_name raw in
      if name \<in> set skip \<or> name \<in> set seen then select_explicit reg cfg skip seen raws mods
      else
        (case load_module reg cfg name of
           Inl e \<Rightarrow> Inl e
         | Inr m \<Rightarrow> select_explicit reg cfg skip (name # seen) raws (mods @ [m])))"

definition module_wanted :: "'o lint_config \<Rightarrow> string \<Rightarrow> ('o, 'e) lint_module \<Rightarrow> bool" where
  "module_wanted cfg name m =
     (case module_config_for cfg name of
        Some mc \<Rightarrow> (case mc_enabled mc of Some b \<Rightarrow> b | None \<Rightarrow> lm_default m)
      | None \<Rightarrow> lm_default m)"

fun select_default ::
  "('o, 'e) module_registry \<Rightarrow> 'o lint_config \<Rightarrow> string list \<Rightarrow> string list \<Rightarrow> ('o, 'e) lint_module list
     \<Rightarrow> 'e engine_error + ('o, 'e) lint_module list" where
  "select_default reg cfg skip [] mods = Inr mods"
| "select_default reg cfg skip (name # names) mods =
     (if name \<in> set skip then select_default reg cfg skip names mods
      else
        (case reg name of
           None \<Rightarrow> Inl (UnknownModule name)
         | Some m \<Rightarrow>
             if \<not> module_wanted cfg name m then select_default reg cfg skip names mods
             else (case load_module reg cfg name of Inl e \<Rightarrow> Inl e | Inr m \<Rightarrow> select_default reg cfg skip names (mods @ [m]))))"

text \<open>\<open>NewEngine\<close>; \<open>all\<close> are the registered names in sorted order.\<close>

definition select_modules ::
  "('o, 'e) module_registry \<Rightarrow> string list \<Rightarrow> 'o lint_config \<Rightarrow> string list \<Rightarrow> string list \<Rightarrow> 'e engine_error + ('o, 'e) lint_module list" where
  "select_modules reg all cfg module_names skip_names =
     (let skip = map canonical_module_name skip_names in
      case (if module_names \<noteq> [] then select_explicit reg cfg skip [] module_names [] else select_default reg cfg skip all []) of
        Inl e \<Rightarrow> Inl e
      | Inr mods \<Rightarrow> if mods = [] then Inl NoModules else Inr mods)"

section \<open>The result cache\<close>

text \<open>An entry holds the findings and the second it was written.\<close>

type_synonym cache = "string \<Rightarrow> (finding list \<times> int) option"

definition cache_schema_version :: string where
  "cache_schema_version = ''2''"

record 'o engine_env =
  ev_sha :: "string \<Rightarrow> string"
  ev_version :: string
  ev_json :: "'o \<Rightarrow> string option"
  ev_now :: int
  ev_cached :: bool
  ev_stores :: "string \<Rightarrow> bool"
  ev_read :: "string \<Rightarrow> string option"
  ev_prefix :: "string \<Rightarrow> string option"

definition cache_key :: "'o engine_env \<Rightarrow> string \<Rightarrow> string \<Rightarrow> string \<Rightarrow> string" where
  "cache_key ev data name cfg_json = ev_sha ev (data @ name @ cfg_json @ cache_schema_version @ ev_version ev)"

text \<open>Ages are in nanoseconds, as \<^verbatim>\<open>time.Duration\<close> has them; 0 means no expiry.\<close>

definition cache_get :: "'o engine_env \<Rightarrow> cache \<Rightarrow> string \<Rightarrow> int \<Rightarrow> finding list option" where
  "cache_get ev ca key max_age =
     (case ca key of
        None \<Rightarrow> None
      | Some (fs, cached_at) \<Rightarrow>
          if max_age > 0 \<and> (cached_at = 0 \<or> ev_now ev - cached_at * 1000000000 > max_age) then None else Some fs)"

definition cache_put :: "'o engine_env \<Rightarrow> string \<Rightarrow> finding list \<Rightarrow> cache \<Rightarrow> cache" where
  "cache_put ev key fs ca = (if ev_stores ev key then ca(key \<mapsto> (fs, ev_now ev div 1000000000)) else ca)"

definition module_config_json :: "'o engine_env \<Rightarrow> 'o lint_config \<Rightarrow> string \<Rightarrow> string" where
  "module_config_json ev cfg name =
     (case lc_modules cfg name of
        None \<Rightarrow> ''{}''
      | Some mc \<Rightarrow> (case mc_options mc of None \<Rightarrow> ''{}'' | Some opts \<Rightarrow> (case ev_json ev opts of None \<Rightarrow> ''{}'' | Some j \<Rightarrow> j)))"

section \<open>One check\<close>

record module_stats =
  ms_name :: string
  ms_files :: nat
  ms_cached :: nat
  ms_findings :: nat
  ms_critical :: nat
  ms_warnings :: nat

record ('o, 'e) task =
  tk_index :: nat
  tk_module :: "('o, 'e) lint_module"
  tk_file :: file_info
  tk_data :: "string option"

record 'e run_state =
  rs_findings :: "finding list"
  rs_errors :: "(string \<times> string option \<times> 'e) list"
  rs_stats :: "module_stats list"
  rs_cache :: cache
  rs_hits :: nat
  rs_misses :: nat

definition count_findings :: "finding list \<Rightarrow> module_stats \<Rightarrow> module_stats" where
  "count_findings fs ms =
     ms\<lparr>ms_findings := ms_findings ms + length fs,
        ms_critical := ms_critical ms + length (filter (\<lambda>f. fi_severity f = SeverityCritical) fs),
        ms_warnings := ms_warnings ms + length (filter (\<lambda>f. fi_severity f = SeverityWarning) fs)\<rparr>"

definition update_stats :: "nat \<Rightarrow> (module_stats \<Rightarrow> module_stats) \<Rightarrow> 'e run_state \<Rightarrow> 'e run_state" where
  "update_stats i g st = st\<lparr>rs_stats := (rs_stats st)[i := g (rs_stats st ! i)]\<rparr>"

text \<open>Running the check and recording what it returned.\<close>

definition record_check :: "('o, 'e) task \<Rightarrow> 'e + finding list \<Rightarrow> 'e run_state \<Rightarrow> 'e run_state" where
  "record_check t r st =
     (let st = update_stats (tk_index t) (\<lambda>ms. ms\<lparr>ms_files := ms_files ms + 1\<rparr>) st in
      case r of
        Inl e \<Rightarrow> st\<lparr>rs_errors := rs_errors st @ [(lm_name (tk_module t), Some (fl_path (tk_file t)), e)]\<rparr>
      | Inr fs \<Rightarrow> (update_stats (tk_index t) (count_findings fs) st)\<lparr>rs_findings := rs_findings st @ fs\<rparr>)"

definition record_hit :: "('o, 'e) task \<Rightarrow> finding list \<Rightarrow> 'e run_state \<Rightarrow> 'e run_state" where
  "record_hit t fs st =
     (update_stats (tk_index t) (\<lambda>ms. count_findings fs (ms\<lparr>ms_files := ms_files ms + 1, ms_cached := ms_cached ms + 1\<rparr>)) st)
       \<lparr>rs_findings := rs_findings st @ fs, rs_hits := rs_hits st + 1\<rparr>"

definition never_cached :: "('o, 'e) lint_module \<Rightarrow> bool" where
  "never_cached m \<longleftrightarrow> (case lm_ttl m of Some ttl \<Rightarrow> ttl < 0 | None \<Rightarrow> False)"

definition task_key :: "'o engine_env \<Rightarrow> 'o lint_config \<Rightarrow> ('o, 'e) task \<Rightarrow> string \<Rightarrow> string" where
  "task_key ev cfg t data =
     cache_key ev data (lm_name (tk_module t))
       (module_config_json ev cfg (lm_name (tk_module t)) @ (case lm_state (tk_module t) of Some s \<Rightarrow> s | None \<Rightarrow> []))"

definition run_task :: "'o engine_env \<Rightarrow> 'o lint_config \<Rightarrow> 'e run_state \<Rightarrow> ('o, 'e) task \<Rightarrow> 'e run_state" where
  "run_task ev cfg st t =
     (let m = tk_module t; r = lm_check m (tk_file t) in
      if is_module_excluded cfg (lm_name m) (fl_path (tk_file t)) then st
      else
        (case (if ev_cached ev then tk_data t else None) of
           None \<Rightarrow> record_check t r st
         | Some data \<Rightarrow>
             (let key = task_key ev cfg t data;
                  max_age = (case lm_ttl m of Some ttl \<Rightarrow> if ttl < 0 then 0 else ttl | None \<Rightarrow> 0) in
              case (if never_cached m then None else cache_get ev (rs_cache st) key max_age) of
                Some fs \<Rightarrow> record_hit t fs st
              | None \<Rightarrow>
                  (let st = record_check t r (st\<lparr>rs_misses := rs_misses st + 1\<rparr>) in
                   case r of
                     Inr fs \<Rightarrow> if never_cached m then st else st\<lparr>rs_cache := cache_put ev key fs (rs_cache st)\<rparr>
                   | Inl _ \<Rightarrow> st))))"

section \<open>The run\<close>

definition content_type_label :: "content \<Rightarrow> string" where
  "content_type_label c =
     (if co_magic c \<noteq> [] then co_magic c else if co_kind c = ContentAmbiguous then ''ambiguous'' else ''binary'')"

record disclosure =
  ds_binaries :: nat
  ds_unreadable :: nat
  ds_non_text :: "(string \<times> string) list"
  ds_non_authored :: "(string \<times> string \<times> string) list"

definition empty_disclosure :: disclosure where
  "empty_disclosure = \<lparr>ds_binaries = 0, ds_unreadable = 0, ds_non_text = [], ds_non_authored = []\<rparr>"

text \<open>What is read of a file: its bytes for the cache, and the bytes it is classified by.\<close>

definition file_bytes :: "'o engine_env \<Rightarrow> string \<Rightarrow> string option \<times> string option" where
  "file_bytes ev path =
     (let data = (if ev_cached ev then ev_read ev path else None) in
      (data, case data of Some d \<Rightarrow> Some d | None \<Rightarrow> ev_prefix ev path))"

definition classify_file :: "'o lint_config \<Rightarrow> string list \<Rightarrow> string option \<Rightarrow> file_info \<Rightarrow> file_info" where
  "classify_file cfg roots class_data f =
     (let d = (case class_data of Some d \<Rightarrow> d | None \<Rightarrow> []) in
      f\<lparr>fl_content := classify_content d, fl_provenance := classify_provenance (fl_path f) d (lc_provenance cfg) roots\<rparr>)"

definition disclose :: "string option \<Rightarrow> file_info \<Rightarrow> disclosure \<Rightarrow> disclosure" where
  "disclose class_data f ds =
     (let ds = (if class_data = None \<and> fl_size f > 0 then ds\<lparr>ds_unreadable := ds_unreadable ds + 1\<rparr> else ds);
          ds = (if is_text (fl_content f) then ds
                else ds\<lparr>ds_binaries := ds_binaries ds + 1,
                        ds_non_text := ds_non_text ds @ [(fl_path f, content_type_label (fl_content f))]\<rparr>) in
      if is_authored (fl_provenance f) then ds
      else ds\<lparr>ds_non_authored := ds_non_authored ds @
        [(fl_path f, provenance_string (pv_kind (fl_provenance f)), pv_source (fl_provenance f))]\<rparr>)"

fun scan_files ::
  "'o engine_env \<Rightarrow> 'o lint_config \<Rightarrow> string list \<Rightarrow> file_info list \<Rightarrow> (file_info \<times> string option) list \<times> disclosure
     \<Rightarrow> (file_info \<times> string option) list \<times> disclosure" where
  "scan_files ev cfg roots [] acc = acc"
| "scan_files ev cfg roots (f # fs) (out, ds) =
     (if is_excluded cfg (fl_path f) then scan_files ev cfg roots fs (out, ds)
      else
        (case file_bytes ev (fl_path f) of (data, class_data) \<Rightarrow>
           (let f = classify_file cfg roots class_data f in
            scan_files ev cfg roots fs (out @ [(f, data)], disclose class_data f ds))))"

definition full_classified ::
  "'o engine_env \<Rightarrow> 'o lint_config \<Rightarrow> string list \<Rightarrow> file_info list \<Rightarrow> file_info list \<Rightarrow> file_info list" where
  "full_classified ev cfg roots all_files classified =
     (if all_files = [] then classified
      else
        map (\<lambda>f. case find (\<lambda>c. fl_path c = fl_path f) (rev classified) of
               Some c \<Rightarrow> c
             | None \<Rightarrow> classify_file cfg roots (ev_prefix ev (fl_path f)) f)
          (filter (\<lambda>f. \<not> is_excluded cfg (fl_path f)) all_files))"

definition indexed :: "'a list \<Rightarrow> (nat \<times> 'a) list" where
  "indexed xs = zip [0 ..< length xs] xs"

definition per_file_tasks :: "('o, 'e) lint_module list \<Rightarrow> (file_info \<times> string option) list \<Rightarrow> ('o, 'e) task list" where
  "per_file_tasks mods files =
     concat (map (\<lambda>(f, data). map (\<lambda>(i, m). \<lparr>tk_index = i, tk_module = m, tk_file = f, tk_data = data\<rparr>)
       (filter (\<lambda>(i, m). lm_whole m = None) (indexed mods))) files)"

definition run_whole ::
  "'o lint_config \<Rightarrow> file_info list \<Rightarrow> file_info list \<Rightarrow> 'e run_state \<Rightarrow> nat \<times> ('o, 'e) lint_module \<Rightarrow> 'e run_state" where
  "run_whole cfg classified full st im =
     (case im of (i, m) \<Rightarrow>
        (case lm_whole m of
           None \<Rightarrow> st
         | Some check_all \<Rightarrow>
             (let subset = filter (\<lambda>f. \<not> is_module_excluded cfg (lm_name m) (fl_path f)) (if lm_full m then full else classified);
                  st = update_stats i (\<lambda>ms. ms\<lparr>ms_files := length subset\<rparr>) st in
              case check_all subset of (fs, err) \<Rightarrow>
                (let st = (case err of Some e \<Rightarrow> st\<lparr>rs_errors := rs_errors st @ [(lm_name m, None, e)]\<rparr> | None \<Rightarrow> st) in
                 (update_stats i (count_findings fs) st)\<lparr>rs_findings := rs_findings st @ fs\<rparr>))))"

definition start_state :: "('o, 'e) lint_module list \<Rightarrow> cache \<Rightarrow> 'e run_state" where
  "start_state mods ca =
     \<lparr>rs_findings = [], rs_errors = [],
      rs_stats = map (\<lambda>m. \<lparr>ms_name = lm_name m, ms_files = 0, ms_cached = 0, ms_findings = 0, ms_critical = 0, ms_warnings = 0\<rparr>) mods,
      rs_cache = ca, rs_hits = 0, rs_misses = 0\<rparr>"

text \<open>\<open>RunWithStats\<close>.  \<open>order\<close> arranges the checks of the per-file pass; the run fails when an error was recorded,
  with the findings it has.\<close>

definition run_with_stats ::
  "'o engine_env \<Rightarrow> 'o lint_config \<Rightarrow> ('o, 'e) lint_module list \<Rightarrow> (('o, 'e) task list \<Rightarrow> ('o, 'e) task list)
     \<Rightarrow> file_info list \<Rightarrow> file_info list \<Rightarrow> cache \<Rightarrow> 'e run_state \<times> disclosure" where
  "run_with_stats ev cfg mods order all_files files ca =
     (let roots = derive_vendored_roots (map fl_path (if all_files \<noteq> [] then all_files else files)) in
      case scan_files ev cfg roots files ([], empty_disclosure) of (scanned, ds) \<Rightarrow>
        (let st = foldl (run_task ev cfg) (start_state mods ca) (order (per_file_tasks mods scanned));
             classified = map fst scanned;
             full = full_classified ev cfg roots all_files classified in
         (foldl (run_whole cfg classified full) st (filter (\<lambda>(i, m). lm_whole m \<noteq> None) (indexed mods)), ds)))"

section \<open>What a run finds\<close>

definition task_check :: "('o, 'e) task \<Rightarrow> 'e + finding list" where
  "task_check t = lm_check (tk_module t) (tk_file t)"

definition task_excluded :: "'o lint_config \<Rightarrow> ('o, 'e) task \<Rightarrow> bool" where
  "task_excluded cfg t \<longleftrightarrow> is_module_excluded cfg (lm_name (tk_module t)) (fl_path (tk_file t))"

definition task_findings :: "'o lint_config \<Rightarrow> ('o, 'e) task \<Rightarrow> finding multiset" where
  "task_findings cfg t = (if task_excluded cfg t then {#} else case task_check t of Inl _ \<Rightarrow> {#} | Inr fs \<Rightarrow> mset fs)"

text \<open>The key under which the result of a check is kept, when it is kept at all.\<close>

definition kept_under :: "'o engine_env \<Rightarrow> 'o lint_config \<Rightarrow> ('o, 'e) task \<Rightarrow> string option" where
  "kept_under ev cfg t =
     (if task_excluded cfg t \<or> never_cached (tk_module t) \<or> \<not> ev_cached ev then None
      else map_option (task_key ev cfg t) (tk_data t))"

definition keys_faithful :: "'o engine_env \<Rightarrow> 'o lint_config \<Rightarrow> ('o, 'e) task set \<Rightarrow> bool" where
  "keys_faithful ev cfg ts \<longleftrightarrow>
     (\<forall>t \<in> ts. \<forall>u \<in> ts. kept_under ev cfg t \<noteq> None \<longrightarrow> kept_under ev cfg t = kept_under ev cfg u \<longrightarrow> task_check t = task_check u)"

definition cache_sound :: "'o engine_env \<Rightarrow> 'o lint_config \<Rightarrow> ('o, 'e) task set \<Rightarrow> cache \<Rightarrow> bool" where
  "cache_sound ev cfg ts ca \<longleftrightarrow>
     (\<forall>t \<in> ts. \<forall>k fs at. kept_under ev cfg t = Some k \<longrightarrow> ca k = Some (fs, at) \<longrightarrow> task_check t = Inr fs)"

lemma update_stats_simps [simp]:
  "rs_findings (update_stats i g st) = rs_findings st" "rs_errors (update_stats i g st) = rs_errors st"
  "rs_cache (update_stats i g st) = rs_cache st"
  by (simp_all add: update_stats_def)

lemma record_check_simps [simp]:
  "rs_findings (record_check t r st) = rs_findings st @ (case r of Inl _ \<Rightarrow> [] | Inr fs \<Rightarrow> fs)"
  "rs_cache (record_check t r st) = rs_cache st"
  "rs_findings (record_hit t fs st) = rs_findings st @ fs" "rs_cache (record_hit t fs st) = rs_cache st"
  by (simp_all add: record_check_def record_hit_def Let_def split: sum.split)

lemma cache_get_Some: "cache_get ev ca key age = Some fs \<Longrightarrow> \<exists>at. ca key = Some (fs, at)"
  by (auto simp: cache_get_def split: option.splits if_splits)

lemma run_task_sound:
  assumes "cache_sound ev cfg ts (rs_cache st)" "keys_faithful ev cfg ts" "t \<in> ts"
  shows "mset (rs_findings (run_task ev cfg st t)) = mset (rs_findings st) + task_findings cfg t \<and>
    cache_sound ev cfg ts (rs_cache (run_task ev cfg st t))"
proof (cases "kept_under ev cfg t")
  case None
  have "run_task ev cfg st t = st \<and> task_excluded cfg t \<or>
      \<not> task_excluded cfg t \<and> (\<exists>n. run_task ev cfg st t = record_check t (task_check t) (st\<lparr>rs_misses := n\<rparr>))"
  proof (cases "task_excluded cfg t")
    case True
    then show ?thesis by (simp add: run_task_def task_excluded_def Let_def)
  next
    case False
    then have "ev_cached ev \<Longrightarrow> tk_data t \<noteq> None \<Longrightarrow> never_cached (tk_module t)"
      using None by (auto simp: kept_under_def split: if_splits)
    with False show ?thesis
      by (auto simp: run_task_def task_excluded_def task_check_def Let_def split: option.split sum.split
          intro: exI [of _ "rs_misses st"] exI [of _ "rs_misses st + 1"])
  qed
  with assms(1) show ?thesis by (auto simp: task_findings_def split: sum.split)
next
  case (Some k)
  then obtain data where d: "tk_data t = Some data" "ev_cached ev" "\<not> task_excluded cfg t" "\<not> never_cached (tk_module t)"
    "task_key ev cfg t data = k" by (auto simp: kept_under_def split: if_splits)
  define age where "age = (case lm_ttl (tk_module t) of Some ttl \<Rightarrow> if ttl < 0 then 0 else ttl | None \<Rightarrow> 0)"
  have run: "run_task ev cfg st t =
      (case cache_get ev (rs_cache st) k age of
         Some fs \<Rightarrow> record_hit t fs st
       | None \<Rightarrow>
           (let st = record_check t (task_check t) (st\<lparr>rs_misses := rs_misses st + 1\<rparr>) in
            case task_check t of Inr fs \<Rightarrow> st\<lparr>rs_cache := cache_put ev k fs (rs_cache st)\<rparr> | Inl _ \<Rightarrow> st))"
    using d by (simp add: run_task_def task_excluded_def Let_def age_def task_check_def split: option.split sum.split)
  show ?thesis
  proof (cases "cache_get ev (rs_cache st) k age")
    case (Some fs)
    with cache_get_Some assms(1,3) \<open>kept_under ev cfg t = Some k\<close> have "task_check t = Inr fs"
      unfolding cache_sound_def by blast
    with Some run assms(1) d(3) show ?thesis by (simp add: task_findings_def)
  next
    case None
    note none = None
    show ?thesis
    proof (cases "task_check t")
      case (Inl e)
      with none run assms(1) d(3) show ?thesis by (simp add: task_findings_def)
    next
      case (Inr fs)
      have "cache_sound ev cfg ts (cache_put ev k fs (rs_cache st))"
        unfolding cache_sound_def cache_put_def
      proof (intro ballI allI impI)
        fix u k' fs' at
        assume u: "u \<in> ts" "kept_under ev cfg u = Some k'"
          and "(if ev_stores ev k then (rs_cache st)(k \<mapsto> (fs, ev_now ev div 1000000000)) else rs_cache st) k' = Some (fs', at)"
        then have "k' = k \<and> fs' = fs \<or> rs_cache st k' = Some (fs', at)" by (auto split: if_splits)
        then show "task_check u = Inr fs'"
        proof
          assume "k' = k \<and> fs' = fs"
          with assms(2,3) u \<open>kept_under ev cfg t = Some k\<close> Inr show ?thesis
            unfolding keys_faithful_def by (metis option.distinct(1))
        next
          assume "rs_cache st k' = Some (fs', at)"
          with assms(1) u show ?thesis unfolding cache_sound_def by blast
        qed
      qed
      with Inr none run d(3) show ?thesis by (simp add: task_findings_def)
    qed
  qed
qed

lemma run_tasks_sound:
  assumes "keys_faithful ev cfg ts"
  shows "set us \<subseteq> ts \<Longrightarrow> cache_sound ev cfg ts (rs_cache st) \<Longrightarrow>
    mset (rs_findings (foldl (run_task ev cfg) st us)) = mset (rs_findings st) + (\<Sum>t \<in># mset us. task_findings cfg t)"
proof (induction us arbitrary: st)
  case (Cons u us)
  from run_task_sound [OF Cons.prems(2) assms, of u] Cons.prems(1)
  have step: "mset (rs_findings (run_task ev cfg st u)) = mset (rs_findings st) + task_findings cfg u"
    "cache_sound ev cfg ts (rs_cache (run_task ev cfg st u))" by simp_all
  from Cons.IH [OF _ step(2)] Cons.prems(1) step(1) show ?case by simp
qed simp

text \<open>The findings of the modules that see all files at once.\<close>

definition whole_findings :: "'o lint_config \<Rightarrow> file_info list \<Rightarrow> file_info list \<Rightarrow> ('o, 'e) lint_module \<Rightarrow> finding multiset" where
  "whole_findings cfg classified full m =
     (case lm_whole m of
        None \<Rightarrow> {#}
      | Some check_all \<Rightarrow>
          mset (fst (check_all (filter (\<lambda>f. \<not> is_module_excluded cfg (lm_name m) (fl_path f)) (if lm_full m then full else classified)))))"

lemma run_whole_findings:
  "mset (rs_findings (foldl (run_whole cfg classified full) st ims)) =
     mset (rs_findings st) + (\<Sum>m \<leftarrow> map snd ims. whole_findings cfg classified full m)"
proof (induction ims arbitrary: st)
  case (Cons im ims)
  have "mset (rs_findings (run_whole cfg classified full st im)) = mset (rs_findings st) + whole_findings cfg classified full (snd im)"
    by (auto simp: run_whole_def whole_findings_def Let_def split: prod.split option.split)
  with Cons.IH show ?case by (simp add: add.assoc)
qed simp

lemma sum_whole_zip:
  "length is = length mods \<Longrightarrow>
    sum_list (map (whole_findings cfg c f \<circ> snd) (filter (\<lambda>(i, m). lm_whole m \<noteq> None) (zip is mods))) =
    sum_list (map (whole_findings cfg c f) mods)"
  by (induction "is" mods rule: list_induct2) (auto simp: whole_findings_def)

lemma sum_whole_modules:
  "sum_list (map (whole_findings cfg c f) (map snd (filter (\<lambda>(i, m). lm_whole m \<noteq> None) (indexed mods)))) =
    sum_list (map (whole_findings cfg c f) mods)"
  using sum_whole_zip [of "[0 ..< length mods]" mods cfg c f] by (simp add: indexed_def)

text \<open>What a run is to find, said of its inputs. A file that the configuration does not exclude is scanned even
  if it cannot be read: it is then labelled as an empty text, so the checks still run on it.\<close>

definition cached_bytes :: "'o engine_env \<Rightarrow> string \<Rightarrow> string option" where
  "cached_bytes ev path = (if ev_cached ev then ev_read ev path else None)"

definition seen_bytes :: "'o engine_env \<Rightarrow> string \<Rightarrow> string" where
  "seen_bytes ev path =
     (case cached_bytes ev path of
        Some d \<Rightarrow> d
      | None \<Rightarrow> (case ev_prefix ev path of Some d \<Rightarrow> d | None \<Rightarrow> []))"

definition labelled :: "'o lint_config \<Rightarrow> string list \<Rightarrow> string \<Rightarrow> file_info \<Rightarrow> file_info" where
  "labelled cfg roots bytes f =
     f\<lparr>fl_content := classify_content bytes, fl_provenance := classify_provenance (fl_path f) bytes (lc_provenance cfg) roots\<rparr>"

definition scanned_file :: "'o engine_env \<Rightarrow> 'o lint_config \<Rightarrow> string list \<Rightarrow> file_info \<Rightarrow> file_info" where
  "scanned_file ev cfg roots f = labelled cfg roots (seen_bytes ev (fl_path f)) f"

definition included :: "'o lint_config \<Rightarrow> file_info list \<Rightarrow> file_info list" where
  "included cfg files = filter (\<lambda>f. \<not> is_excluded cfg (fl_path f)) files"

text \<open>The whole repository, for the modules that ask for it: a file that was scanned as it was scanned, any
  other labelled by its first bytes.\<close>

definition repo_file :: "'o engine_env \<Rightarrow> 'o lint_config \<Rightarrow> string list \<Rightarrow> file_info list \<Rightarrow> file_info \<Rightarrow> file_info" where
  "repo_file ev cfg roots files f =
     (case filter (\<lambda>g. fl_path g = fl_path f) (included cfg files) of
        [] \<Rightarrow> labelled cfg roots (case ev_prefix ev (fl_path f) of Some d \<Rightarrow> d | None \<Rightarrow> []) f
      | gs \<Rightarrow> scanned_file ev cfg roots (last gs))"

definition check_findings :: "'o lint_config \<Rightarrow> ('o, 'e) lint_module \<Rightarrow> file_info \<Rightarrow> finding multiset" where
  "check_findings cfg m f =
     (if lm_whole m \<noteq> None \<or> is_module_excluded cfg (lm_name m) (fl_path f) then {#}
      else case lm_check m f of Inl _ \<Rightarrow> {#} | Inr fs \<Rightarrow> mset fs)"

text \<open>The checks of the per-file pass, with the bytes the cache is asked for.\<close>

definition all_checks :: "'o engine_env \<Rightarrow> 'o lint_config \<Rightarrow> string list \<Rightarrow> ('o, 'e) lint_module list \<Rightarrow> file_info list \<Rightarrow> ('o, 'e) task set" where
  "all_checks ev cfg roots mods files =
     {t. tk_index t < length mods \<and> tk_module t = mods ! tk_index t \<and> lm_whole (tk_module t) = None \<and>
        (\<exists>f \<in> set (included cfg files). tk_file t = scanned_file ev cfg roots f \<and> tk_data t = cached_bytes ev (fl_path f))}"

lemma scan_files_eq:
  "fst (scan_files ev cfg roots fs (out, ds)) =
     out @ map (\<lambda>f. (scanned_file ev cfg roots f, cached_bytes ev (fl_path f))) (included cfg fs)"
proof (induction fs arbitrary: out ds)
  case (Cons f fs)
  have "classify_file cfg roots (snd (file_bytes ev (fl_path f))) f = scanned_file ev cfg roots f"
    "fst (file_bytes ev (fl_path f)) = cached_bytes ev (fl_path f)"
    by (simp_all add: file_bytes_def classify_file_def scanned_file_def labelled_def seen_bytes_def cached_bytes_def Let_def
        split: option.split)
  with Cons.IH show ?case by (cases "file_bytes ev (fl_path f)") (simp add: included_def Let_def)
qed (simp add: included_def)

lemma find_rev: "find P (rev xs) = (case filter P xs of [] \<Rightarrow> None | ys \<Rightarrow> Some (last ys))"
proof (induction xs rule: rev_induct)
  case (snoc x xs)
  then show ?case by (cases "filter P xs") auto
qed simp

lemma full_classified_eq:
  "full_classified ev cfg roots all_files (map (scanned_file ev cfg roots) (included cfg files)) =
     (if all_files = [] then map (scanned_file ev cfg roots) (included cfg files)
      else map (repo_file ev cfg roots files) (included cfg all_files))"
proof -
  have path: "fl_path (scanned_file ev cfg roots g) = fl_path g" for g by (simp add: scanned_file_def labelled_def)
  have "(case find (\<lambda>c. fl_path c = fl_path f) (rev (map (scanned_file ev cfg roots) (included cfg files))) of
      Some c \<Rightarrow> c | None \<Rightarrow> classify_file cfg roots (ev_prefix ev (fl_path f)) f) = repo_file ev cfg roots files f" for f
  proof -
    let ?gs = "filter (\<lambda>g. fl_path g = fl_path f) (included cfg files)"
    have "filter (\<lambda>c. fl_path c = fl_path f) (map (scanned_file ev cfg roots) (included cfg files)) =
        map (scanned_file ev cfg roots) ?gs"
      by (simp add: filter_map comp_def path)
    then show ?thesis
      unfolding find_rev repo_file_def classify_file_def labelled_def
      by (cases ?gs) (simp_all add: Let_def last_map)
  qed
  then show ?thesis by (simp add: full_classified_def included_def)
qed

lemma set_per_file_tasks:
  "set (per_file_tasks mods (map (\<lambda>f. (scanned_file ev cfg roots f, cached_bytes ev (fl_path f))) (included cfg files))) =
     all_checks ev cfg roots mods files"
proof -
  have idx: "(i, m) \<in> set (indexed mods) \<longleftrightarrow> i < length mods \<and> m = mods ! i" for i m
    by (auto simp: indexed_def set_zip intro: exI [of _ i])
  have "t \<in> set (per_file_tasks mods (map (\<lambda>f. (scanned_file ev cfg roots f, cached_bytes ev (fl_path f))) (included cfg files))) \<longleftrightarrow>
      t \<in> all_checks ev cfg roots mods files" for t
    by (cases t) (auto simp: per_file_tasks_def all_checks_def idx image_iff)
  then show ?thesis by blast
qed

lemma sum_per_file_tasks:
  "(\<Sum>t \<in># mset (per_file_tasks mods scanned). task_findings cfg t) = (\<Sum>(f, d) \<leftarrow> scanned. \<Sum>m \<leftarrow> mods. check_findings cfg m f)"
proof (induction scanned)
  case Nil
  then show ?case by (simp add: per_file_tasks_def)
next
  case (Cons fd scanned)
  obtain f d where fd: "fd = (f, d)" by (cases fd)
  have "(\<Sum>(i, m) \<leftarrow> filter (\<lambda>(i, m). lm_whole m = None) (zip is ms).
      task_findings cfg \<lparr>tk_index = i, tk_module = m, tk_file = f, tk_data = d\<rparr>) = (\<Sum>m \<leftarrow> ms. check_findings cfg m f)"
    if "length is = length ms" for "is" :: "nat list" and ms :: "('a, 'b) lint_module list"
    using that
    by (induction "is" ms rule: list_induct2)
      (auto simp: check_findings_def task_findings_def task_excluded_def task_check_def)
  from this [of "[0 ..< length mods]" mods]
  have "sum_list (map (task_findings cfg) (map (\<lambda>(i, m). \<lparr>tk_index = i, tk_module = m, tk_file = f, tk_data = d\<rparr>)
      (filter (\<lambda>(i, m). lm_whole m = None) (indexed mods)))) = (\<Sum>m \<leftarrow> mods. check_findings cfg m f)"
    by (simp add: indexed_def comp_def split_def)
  moreover have sum: "(\<Sum>t \<in># mset ts. task_findings cfg t) = sum_list (map (task_findings cfg) ts)" for ts :: "('a, 'b) task list"
    by (induction ts) simp_all
  ultimately show ?case using Cons.IH unfolding sum by (simp add: fd per_file_tasks_def)
qed

text \<open>C30: What a run finds. Whatever order the checks run in, and with a cache that holds for each of its checks
  either nothing or what the check reports, where checks that share a key report the same: the findings are
  those of every module on every file that the configuration does not exclude, readable or not, except of
  checks that are excluded or fail, together with those of the whole-repository modules on the scanned files
  or the whole repository, as they ask.\<close>

theorem lint_run_findings:
  assumes "\<forall>ts. mset (order ts) = mset ts"
    "roots = derive_vendored_roots (map fl_path (if all_files \<noteq> [] then all_files else files))"
    "keys_faithful ev cfg (all_checks ev cfg roots mods files)" "cache_sound ev cfg (all_checks ev cfg roots mods files) ca"
  shows "mset (rs_findings (fst (run_with_stats ev cfg mods order all_files files ca))) =
    (\<Sum>f \<leftarrow> included cfg files. \<Sum>m \<leftarrow> mods. check_findings cfg m (scanned_file ev cfg roots f)) +
    (\<Sum>m \<leftarrow> mods. whole_findings cfg (map (scanned_file ev cfg roots) (included cfg files))
       (if all_files = [] then map (scanned_file ev cfg roots) (included cfg files)
        else map (repo_file ev cfg roots files) (included cfg all_files)) m)"
proof -
  let ?scanned = "map (\<lambda>f. (scanned_file ev cfg roots f, cached_bytes ev (fl_path f))) (included cfg files)"
  define ts where "ts = per_file_tasks mods ?scanned"
  obtain ds where scan: "scan_files ev cfg roots files ([], empty_disclosure) = (?scanned, ds)"
    using scan_files_eq [of ev cfg roots files "[]" empty_disclosure]
    by (cases "scan_files ev cfg roots files ([], empty_disclosure)") simp
  have set_ts: "set ts = all_checks ev cfg roots mods files" by (simp add: ts_def set_per_file_tasks)
  have sub: "set (order ts) \<subseteq> set ts" using assms(1) mset_eq_setD by blast
  have sound: "cache_sound ev cfg (set ts) (rs_cache (start_state mods ca))" using assms(4) by (simp add: start_state_def set_ts)
  from run_tasks_sound [OF assms(3) [folded set_ts] sub sound] assms(1)
  have "mset (rs_findings (foldl (run_task ev cfg) (start_state mods ca) (order ts))) = (\<Sum>t \<in># mset ts. task_findings cfg t)"
    by (simp add: start_state_def)
  also have "\<dots> = (\<Sum>f \<leftarrow> included cfg files. \<Sum>m \<leftarrow> mods. check_findings cfg m (scanned_file ev cfg roots f))"
    unfolding ts_def sum_per_file_tasks by (simp add: comp_def)
  finally have tasks: "mset (rs_findings (foldl (run_task ev cfg) (start_state mods ca) (order ts))) =
    (\<Sum>f \<leftarrow> included cfg files. \<Sum>m \<leftarrow> mods. check_findings cfg m (scanned_file ev cfg roots f))" .
  have fst_scanned: "map fst ?scanned = map (scanned_file ev cfg roots) (included cfg files)" by simp
  show ?thesis
    by (simp only: run_with_stats_def scan Let_def run_whole_findings sum_whole_modules
        ts_def [symmetric] assms(2) [symmetric] prod.case fst_conv fst_scanned full_classified_eq tasks)
qed

section \<open>Files with equal content\<close>

text \<open>The cache mixes up files: after a module without expiry was run on one file, its check of any other file
  with the same bytes is not run - the findings of the first file, under the first file's path, are
  reported a second time.\<close>

theorem same_content_reports_first_file:
  assumes "ev_cached ev" "tk_data t = Some data" "tk_data u = Some data" "tk_module u = tk_module t"
    "lm_ttl (tk_module t) = None" "\<not> task_excluded cfg t" "\<not> task_excluded cfg u"
    "rs_cache st (task_key ev cfg t data) = None" "ev_stores ev (task_key ev cfg t data)" "task_check t = Inr fs"
  shows "rs_findings (run_task ev cfg (run_task ev cfg st t) u) = rs_findings st @ fs @ fs"
proof -
  have key: "task_key ev cfg u data = task_key ev cfg t data" using assms(4) by (simp add: task_key_def)
  have never: "\<not> never_cached (tk_module t)" using assms(5) by (simp add: never_cached_def)
  define s1 where "s1 = run_task ev cfg st t"
  have "rs_findings s1 = rs_findings st @ fs \<and> rs_cache s1 (task_key ev cfg t data) = Some (fs, ev_now ev div 1000000000)"
    using assms never
    by (simp add: s1_def run_task_def task_excluded_def task_check_def Let_def cache_get_def cache_put_def)
  then show ?thesis
    using assms never key
    by (simp add: s1_def [symmetric] run_task_def [of ev cfg s1 u] task_excluded_def Let_def cache_get_def)
qed

section \<open>Which modules run\<close>

fun first_of :: "'a list \<Rightarrow> 'a list \<Rightarrow> 'a list" where
  "first_of seen [] = []"
| "first_of seen (x # xs) = (if x \<in> set seen then first_of seen xs else x # first_of (x # seen) xs)"

lemma select_explicit_spec:
  "select_explicit reg cfg skip seen raws acc = Inr mods \<Longrightarrow>
    \<exists>new. mods = acc @ new \<and>
      map Some new = map reg (first_of seen (filter (\<lambda>n. n \<notin> set skip) (map canonical_module_name raws)))"
proof (induction raws arbitrary: seen acc)
  case (Cons raw raws)
  define name where "name = canonical_module_name raw"
  show ?case
  proof (cases "name \<in> set skip \<or> name \<in> set seen")
    case True
    with Cons.prems Cons.IH [of seen acc] show ?thesis by (auto simp: name_def [symmetric] Let_def)
  next
    case False
    with Cons.prems obtain m where m: "load_module reg cfg name = Inr m"
      and rest: "select_explicit reg cfg skip (name # seen) raws (acc @ [m]) = Inr mods"
      by (auto simp: name_def [symmetric] Let_def split: sum.splits)
    from m have "reg name = Some m" by (auto simp: load_module_def split: option.splits)
    with Cons.IH [OF rest] False show ?thesis by (auto simp: name_def [symmetric])
  qed
qed simp

lemma select_default_spec:
  "select_default reg cfg skip names acc = Inr mods \<Longrightarrow>
    \<exists>new. mods = acc @ new \<and>
      map Some new = map reg (filter (\<lambda>n. n \<notin> set skip \<and> (\<exists>m. reg n = Some m \<and> module_wanted cfg n m)) names)"
proof (induction names arbitrary: acc)
  case (Cons name names)
  show ?case
  proof (cases "name \<in> set skip")
    case True
    with Cons show ?thesis by simp
  next
    case False
    with Cons.prems obtain m where m: "reg name = Some m" by (auto split: option.splits)
    show ?thesis
    proof (cases "module_wanted cfg name m")
      case True
      with False m Cons.prems obtain m' where "load_module reg cfg name = Inr m'"
        and rest: "select_default reg cfg skip names (acc @ [m']) = Inr mods" by (auto split: sum.splits)
      with m have "m' = m" by (auto simp: load_module_def split: option.splits)
      with Cons.IH [OF rest] False True m show ?thesis by auto
    qed (use False m Cons in auto)
  qed
qed simp

text \<open>Which modules run: an explicit list selects exactly its names, under their canonical names, each once and
  in its order; otherwise every registered module runs that is switched on, by configuration or by
  default; a skipped name never runs, and an empty selection is an error.\<close>

theorem select_modules_selects:
  assumes "select_modules reg all cfg module_names skip_names = Inr mods"
  shows "mods \<noteq> [] \<and>
    map Some mods = map reg
      (if module_names \<noteq> [] then first_of [] (filter (\<lambda>n. n \<notin> set (map canonical_module_name skip_names)) (map canonical_module_name module_names))
       else filter (\<lambda>n. n \<notin> set (map canonical_module_name skip_names) \<and> (\<exists>m. reg n = Some m \<and> module_wanted cfg n m)) all)"
proof -
  define skip where "skip = map canonical_module_name skip_names"
  from assms have mods: "mods \<noteq> []"
    and sel: "(if module_names \<noteq> [] then select_explicit reg cfg skip [] module_names [] else select_default reg cfg skip all []) = Inr mods"
    by (auto simp: select_modules_def skip_def Let_def split: sum.splits if_splits)
  show ?thesis
  proof (cases "module_names = []")
    case True
    with sel select_default_spec [of reg cfg skip all "[]" mods] mods show ?thesis by (simp add: skip_def)
  next
    case False
    with sel select_explicit_spec [of reg cfg skip "[]" module_names "[]" mods] mods show ?thesis by (simp add: skip_def)
  qed
qed

text \<open>The configuration of a module is found under its old name too, its excludes are not.\<close>

lemma alias_exclude_ignored:
  assumes "lc_modules cfg = [''osv'' \<mapsto> mc]"
  shows "module_config_for cfg ''vulnerabilities'' = Some mc \<and> \<not> is_module_excluded cfg ''vulnerabilities'' path"
  by (simp add: assms module_config_for_def module_aliases_def is_module_excluded_def)

section \<open>A concrete run\<close>

definition demo_tabs :: "(unit, string) lint_module" where
  "demo_tabs =
     \<lparr>lm_name = ''tabs'', lm_check = (\<lambda>f. Inr [demo_finding\<lparr>fi_file := fl_path f\<rparr>]), lm_default = True,
      lm_configure = (\<lambda>_. None), lm_ttl = None, lm_state = None, lm_whole = None, lm_full = False\<rparr>"

definition demo_engine :: "unit engine_env" where
  "demo_engine =
     \<lparr>ev_sha = id, ev_version = ''v'', ev_json = (\<lambda>_. None), ev_now = 7000000000, ev_cached = True, ev_stores = (\<lambda>_. True),
      ev_read = (\<lambda>p. Some (''bytes of '' @ p)), ev_prefix = (\<lambda>p. Some (''bytes of '' @ p))\<rparr>"

definition demo_lint_config :: "unit lint_config" where
  "demo_lint_config = \<lparr>lc_exclude = [''skip/**''], lc_modules = Map.empty, lc_provenance = \<lparr>pc_generated = [], pc_vendored = []\<rparr>\<rparr>"

definition demo_file_info :: "string \<Rightarrow> file_info" where
  "demo_file_info p = \<lparr>fl_path = p, fl_size = 1, fl_content = classify_content [], fl_provenance = \<lparr>pv_kind = ProvenanceAuthored, pv_source = []\<rparr>\<rparr>"

definition demo_registry :: "(unit, string) module_registry" where
  "demo_registry n = (if n = ''tabs'' then Some demo_tabs else None)"

theorem select_modules_selects_witness:
  "map_option lm_name (demo_registry ''tabs'') = Some ''tabs'' \<and>
   map Some [demo_tabs] = map demo_registry (filter (\<lambda>n. n \<notin> set [] \<and> (\<exists>m. demo_registry n = Some m \<and> module_wanted demo_lint_config n m)) [''tabs''])"
proof -
  have "select_modules demo_registry [''tabs''] demo_lint_config [] [] = Inr [demo_tabs]"
    by (simp add: select_modules_def demo_registry_def module_wanted_def demo_lint_config_def module_config_for_def
        module_aliases_def load_module_def demo_tabs_def)
  from select_modules_selects [OF this] show ?thesis by (simp add: demo_registry_def demo_tabs_def)
qed

definition demo_task :: "string \<Rightarrow> string \<Rightarrow> (unit, string) task" where
  "demo_task path data = \<lparr>tk_index = 0, tk_module = demo_tabs, tk_file = demo_file_info path, tk_data = Some data\<rparr>"

theorem same_content_reports_first_file_witness:
  "map fi_file (rs_findings (run_task demo_engine demo_lint_config
     (run_task demo_engine demo_lint_config (start_state [demo_tabs] Map.empty) (demo_task ''a.yml'' ''x''))
     (demo_task ''b.yml'' ''x''))) = [''a.yml'', ''a.yml'']"
  by (subst same_content_reports_first_file [where data = "''x''" and fs = "[demo_finding\<lparr>fi_file := ''a.yml''\<rparr>]"])
    (simp_all add: demo_engine_def demo_task_def demo_tabs_def task_excluded_def is_module_excluded_def demo_lint_config_def
      start_state_def task_check_def demo_file_info_def demo_finding_def)

theorem lint_run_findings_witness:
  "mset (map fi_file (rs_findings (fst (run_with_stats demo_engine demo_lint_config [demo_tabs] rev []
     [demo_file_info ''a.yml'', demo_file_info ''skip/x.yml'', demo_file_info ''b.yml''] Map.empty)))) = {#''a.yml'', ''b.yml''#}"
proof -
  define files where "files = [demo_file_info ''a.yml'', demo_file_info ''skip/x.yml'', demo_file_info ''b.yml'']"
  define roots where "roots = derive_vendored_roots (map fl_path (if ([] :: file_info list) \<noteq> [] then [] else files))"
  have ex: "\<not> is_excluded demo_lint_config ''a.yml''" "is_excluded demo_lint_config ''skip/x.yml''" "\<not> is_excluded demo_lint_config ''b.yml''"
    by code_simp+
  have path: "fl_path (demo_file_info p) = p" for p by (simp add: demo_file_info_def)
  have inc: "included demo_lint_config files = [demo_file_info ''a.yml'', demo_file_info ''b.yml'']"
    by (simp add: included_def files_def path ex)
  have bytes: "cached_bytes demo_engine p = Some (''bytes of '' @ p)" for p
    by (simp add: cached_bytes_def demo_engine_def)
  have faithful: "keys_faithful demo_engine demo_lint_config (all_checks demo_engine demo_lint_config roots [demo_tabs] files)"
  proof -
    have "task_check t = task_check u"
      if "t \<in> all_checks demo_engine demo_lint_config roots [demo_tabs] files" "u \<in> all_checks demo_engine demo_lint_config roots [demo_tabs] files"
        "kept_under demo_engine demo_lint_config t \<noteq> None"
        "kept_under demo_engine demo_lint_config t = kept_under demo_engine demo_lint_config u" for t u
    proof -
      have "tk_data t = tk_data u"
        using that by (auto simp: all_checks_def inc bytes path kept_under_def task_key_def cache_key_def demo_engine_def
            demo_tabs_def split: if_splits)
      then have "tk_file t = tk_file u" using that(1,2) by (auto simp: all_checks_def inc bytes path)
      then show ?thesis using that(1,2) by (auto simp: all_checks_def task_check_def)
    qed
    then show ?thesis unfolding keys_faithful_def by blast
  qed
  have sound: "cache_sound demo_engine demo_lint_config (all_checks demo_engine demo_lint_config roots [demo_tabs] files) Map.empty"
    by (simp add: cache_sound_def)
  have fs: "check_findings demo_lint_config demo_tabs f = {#demo_finding\<lparr>fi_file := fl_path f\<rparr>#}" for f
    by (simp add: check_findings_def demo_tabs_def is_module_excluded_def demo_lint_config_def)
  have whole: "lm_whole demo_tabs = None" by (simp add: demo_tabs_def)
  have "mset (rs_findings (fst (run_with_stats demo_engine demo_lint_config [demo_tabs] rev [] files Map.empty))) =
      {#demo_finding\<lparr>fi_file := ''a.yml''\<rparr>, demo_finding\<lparr>fi_file := ''b.yml''\<rparr>#}"
    by (subst lint_run_findings [OF _ roots_def faithful sound])
      (simp_all add: inc fs whole_findings_def whole scanned_file_def labelled_def path)
  from arg_cong [OF this, of "image_mset fi_file"] show ?thesis by (simp add: files_def)
qed

end
