(* ===== verification/Lint_Remediate.thy ===== *)
theory Lint_Remediate
  imports Lint_Gate Go_Path
begin

text \<open>
  Writing the fixes the lint modules reported back to disk: \<open>ApplyRemediations\<close> in
  \<^verbatim>\<open>src/src/lint/remediation.go\<close>.

  The disk is a map from paths to contents; whether an atomic write succeeds is an argument, as is the
  arrangement of edits with equal start that the unstable \<^verbatim>\<open>sort.Slice\<close> chooses.
\<close>

section \<open>The code\<close>

record edit_span =
  es_start :: int
  es_end :: int
  es_expected :: string
  es_repl :: string
  es_kind :: string

record fix_summary =
  fs_files_changed :: nat
  fs_edits_applied :: nat
  fs_skipped :: nat
  fs_drifted :: nat
  fs_by_kind :: "string \<Rightarrow> nat"

definition empty_fix_summary :: fix_summary where
  "empty_fix_summary =
     \<lparr>fs_files_changed = 0, fs_edits_applied = 0, fs_skipped = 0, fs_drifted = 0, fs_by_kind = (\<lambda>_. 0)\<rparr>"

datatype fix_error = StatError string | WriteError string

type_synonym disk = "string \<Rightarrow> string option"

definition enabled_fixes :: "string list \<Rightarrow> finding list \<Rightarrow> (string \<times> remediation) list" where
  "enabled_fixes enabled findings =
     List.map_filter
       (\<lambda>f. case fi_fix f of Some r \<Rightarrow> if rm_kind r \<in> set enabled then Some (fi_file f, r) else None | None \<Rightarrow> None) findings"

definition edits_of :: "(string \<times> remediation) list \<Rightarrow> string \<Rightarrow> edit_span list" where
  "edits_of fixes path =
     map (\<lambda>(_, r). \<lparr>es_start = rm_start r, es_end = rm_end r, es_expected = rm_expected r, es_repl = rm_replacement r, es_kind = rm_kind r\<rparr>)
       (filter (\<lambda>(p, _). p = path) fixes)"

text \<open>\<^verbatim>\<open>data[i:j]\<close>.\<close>

definition byte_slice :: "string \<Rightarrow> int \<Rightarrow> int \<Rightarrow> string" where
  "byte_slice data i j = take (nat (j - i)) (drop (nat i) data)"

definition span_drifted :: "string \<Rightarrow> edit_span \<Rightarrow> bool" where
  "span_drifted data e \<longleftrightarrow>
     es_start e < 0 \<or> es_start e > es_end e \<or> es_end e > int (length data) \<or>
     byte_slice data (es_start e) (es_end e) \<noteq> es_expected e"

text \<open>High offsets first; an edit that reaches into one already applied is skipped.  The state is the
  content, the start of the last edit, the edits applied (latest first) and the number skipped.\<close>

definition apply_edit ::
  "string \<times> int \<times> edit_span list \<times> nat \<Rightarrow> edit_span \<Rightarrow> string \<times> int \<times> edit_span list \<times> nat" where
  "apply_edit st e =
     (case st of (out, last_start, applied, skipped) \<Rightarrow>
        if es_end e > last_start then (out, last_start, applied, skipped + 1)
        else (take (nat (es_start e)) out @ es_repl e @ drop (nat (es_end e)) out, es_start e, e # applied, skipped))"

definition apply_edits :: "string \<Rightarrow> edit_span list \<Rightarrow> string \<times> edit_span list \<times> nat" where
  "apply_edits data es =
     (case foldl apply_edit (data, int (length data) + 1, [], 0) es of (out, _, applied, skipped) \<Rightarrow> (out, applied, skipped))"

definition count_kinds :: "edit_span list \<Rightarrow> (string \<Rightarrow> nat) \<Rightarrow> string \<Rightarrow> nat" where
  "count_kinds es m = foldr (\<lambda>e m. m(es_kind e := m (es_kind e) + 1)) es m"

text \<open>The summary is returned with an error too.\<close>

definition remediate_file ::
  "(edit_span list \<Rightarrow> edit_span list) \<Rightarrow> (string \<Rightarrow> bool) \<Rightarrow> bool \<Rightarrow> string \<Rightarrow> edit_span list \<Rightarrow> fix_summary \<Rightarrow> disk
     \<Rightarrow> fix_error option \<times> fix_summary \<times> disk" where
  "remediate_file arrange writes dry_run target edits sm dk =
     (case dk target of
        None \<Rightarrow> (Some (StatError target), sm, dk)
      | Some data \<Rightarrow>
          if list_ex (span_drifted data) edits then (None, sm\<lparr>fs_drifted := fs_drifted sm + 1\<rparr>, dk)
          else
            (case apply_edits data (arrange edits) of (out, applied, skipped) \<Rightarrow>
               (let sm = sm\<lparr>fs_skipped := fs_skipped sm + skipped, fs_by_kind := count_kinds applied (fs_by_kind sm)\<rparr> in
                if applied = [] then (None, sm, dk)
                else if \<not> dry_run \<and> \<not> writes target then (Some (WriteError target), sm, dk)
                else
                  (None, sm\<lparr>fs_files_changed := fs_files_changed sm + 1, fs_edits_applied := fs_edits_applied sm + length applied\<rparr>,
                   if dry_run then dk else dk(target \<mapsto> out)))))"

fun remediate_files ::
  "(edit_span list \<Rightarrow> edit_span list) \<Rightarrow> (string \<Rightarrow> bool) \<Rightarrow> bool \<Rightarrow> string \<Rightarrow> (string \<times> remediation) list \<Rightarrow> string list
     \<Rightarrow> fix_summary \<Rightarrow> disk \<Rightarrow> fix_error option \<times> fix_summary \<times> disk" where
  "remediate_files arrange writes dry_run root fixes [] sm dk = (None, sm, dk)"
| "remediate_files arrange writes dry_run root fixes (path # paths) sm dk =
     (case remediate_file arrange writes dry_run (path_join [root, path]) (edits_of fixes path) sm dk of
        (Some e, sm', dk') \<Rightarrow> (Some e, sm', dk')
      | (None, sm', dk') \<Rightarrow> remediate_files arrange writes dry_run root fixes paths sm' dk')"

definition apply_remediations ::
  "(edit_span list \<Rightarrow> edit_span list) \<Rightarrow> (string \<Rightarrow> bool) \<Rightarrow> finding list \<Rightarrow> string \<Rightarrow> string list \<Rightarrow> bool \<Rightarrow> disk
     \<Rightarrow> fix_error option \<times> fix_summary \<times> disk" where
  "apply_remediations arrange writes findings root enabled dry_run dk =
     (let fixes = enabled_fixes enabled findings in
      remediate_files arrange writes dry_run root fixes (sort_strings (remdups (map fst fixes))) empty_fix_summary dk)"

section \<open>What a file becomes\<close>

text \<open>The content with the edits, in ascending order and without overlap, put in place of their spans.\<close>

fun edited :: "nat \<Rightarrow> string \<Rightarrow> edit_span list \<Rightarrow> string" where
  "edited p data [] = drop p data"
| "edited p data (e # es) = take (nat (es_start e) - p) (drop p data) @ es_repl e @ edited (nat (es_end e)) data es"

definition span_in :: "string \<Rightarrow> edit_span \<Rightarrow> bool" where
  "span_in data e \<longleftrightarrow> 0 \<le> es_start e \<and> es_start e \<le> es_end e \<and> es_end e \<le> int (length data)"

text \<open>Where the lowest edit of an ascending list starts.\<close>

definition first_start :: "string \<Rightarrow> edit_span list \<Rightarrow> int" where
  "first_start data es = (case es of [] \<Rightarrow> int (length data) + 1 | e # _ \<Rightarrow> es_start e)"

lemma edited_cut:
  assumes "list_all (span_in data) es" "p \<le> t" "int t \<le> first_start data es" "t \<le> length data"
  shows "take (t - p) (edited p data es) = take (t - p) (drop p data)"
    "drop (t - p) (edited p data es) = edited t data es"
proof -
  have "take (t - p) (edited p data es) = take (t - p) (drop p data) \<and> drop (t - p) (edited p data es) = edited t data es"
  proof (cases es)
    case Nil
    then show ?thesis using assms(2) by simp
  next
    case (Cons e r)
    define n where "n = nat (es_start e)"
    have n: "t \<le> n" "n \<le> length data"
      using assms(1,3) Cons by (auto simp: first_start_def span_in_def n_def)
    have len: "length (take (n - p) (drop p data)) = n - p" using n assms(2) by simp
    have "take (t - p) (take (n - p) (drop p data)) = take (t - p) (drop p data)"
      using n by (simp add: min_absorb1)
    moreover have "drop (t - p) (take (n - p) (drop p data)) = take (n - t) (drop t data)"
      using n assms(2) by (simp add: drop_take)
    ultimately show ?thesis using n len by (simp add: Cons n_def [symmetric])
  qed
  then show "take (t - p) (edited p data es) = take (t - p) (drop p data)" "drop (t - p) (edited p data es) = edited t data es"
    by simp_all
qed

lemma apply_edit_edited:
  assumes "list_all (span_in data) applied" "span_in data e" "es_end e \<le> first_start data applied"
  shows "apply_edit (edited 0 data applied, first_start data applied, applied, k) e =
    (edited 0 data (e # applied), first_start data (e # applied), e # applied, k)"
proof -
  have e: "nat (es_start e) \<le> nat (es_end e)" "nat (es_end e) \<le> length data" "int (nat (es_end e)) = es_end e"
    "int (nat (es_start e)) \<le> first_start data applied"
    using assms(2,3) by (auto simp: span_in_def)
  have "take (nat (es_start e)) (edited 0 data applied) = take (nat (es_start e)) data"
    using edited_cut(1) [OF assms(1), of 0 "nat (es_start e)"] e by simp
  moreover have "drop (nat (es_end e)) (edited 0 data applied) = edited (nat (es_end e)) data applied"
    using edited_cut(2) [OF assms(1), of 0 "nat (es_end e)"] e assms(3) by simp
  ultimately show ?thesis
    using assms(3) by (simp add: apply_edit_def first_start_def)
qed

definition ascending :: "edit_span list \<Rightarrow> bool" where
  "ascending es \<longleftrightarrow> sorted_wrt (\<lambda>a b. es_end a \<le> es_start b) es"

lemma fold_edits:
  "list_all (span_in data) es \<Longrightarrow> list_all (span_in data) app \<Longrightarrow> ascending app \<Longrightarrow>
    \<exists>app' k'. foldl apply_edit (edited 0 data app, first_start data app, app, k) es =
        (edited 0 data app', first_start data app', app', k') \<and>
      ascending app' \<and> list_all (span_in data) app' \<and> mset app' \<subseteq># mset app + mset es \<and>
      length app' + k' = length app + length es + k"
proof (induction es arbitrary: app k)
  case (Cons e es)
  show ?case
  proof (cases "es_end e \<le> first_start data app")
    case True
    have "ascending (e # app)"
      using Cons.prems True unfolding ascending_def
      by (cases app) (auto simp: first_start_def span_in_def list_all_iff intro: order_trans)
    with Cons.IH [of "e # app" k] Cons.prems obtain app' k' where
      "foldl apply_edit (edited 0 data (e # app), first_start data (e # app), e # app, k) es =
        (edited 0 data app', first_start data app', app', k')"
      "ascending app'" "list_all (span_in data) app'" "mset app' \<subseteq># mset (e # app) + mset es"
      "length app' + k' = length (e # app) + length es + k" by auto
    with apply_edit_edited [of data app e k] Cons.prems True show ?thesis by (intro exI [of _ app'] exI [of _ k']) simp
  next
    case False
    with Cons.IH [of app "k + 1"] Cons.prems obtain app' k' where
      "foldl apply_edit (edited 0 data app, first_start data app, app, k + 1) es =
        (edited 0 data app', first_start data app', app', k')"
      "ascending app'" "list_all (span_in data) app'" "mset app' \<subseteq># mset app + mset es"
      "length app' + k' = length app + length es + (k + 1)" by auto
    moreover from this(4) have "mset app' \<subseteq># mset app + mset (e # es)"
      by (rule subset_mset.order_trans) simp
    moreover have "apply_edit (edited 0 data app, first_start data app, app, k) e =
        (edited 0 data app, first_start data app, app, k + 1)"
      using False by (simp add: apply_edit_def)
    ultimately show ?thesis by (intro exI [of _ app'] exI [of _ k']) simp
  qed
qed auto

text \<open>Edits whose spans neither overlap nor start together.\<close>

definition apart :: "edit_span \<Rightarrow> edit_span \<Rightarrow> bool" where
  "apart a b \<longleftrightarrow> es_start a < es_start b \<and> es_end a \<le> es_start b \<or> es_start b < es_start a \<and> es_end b \<le> es_start a"

definition all_apart :: "edit_span list \<Rightarrow> bool" where
  "all_apart es \<longleftrightarrow> distinct es \<and> (\<forall>a \<in> set es. \<forall>b \<in> set es. a = b \<or> apart a b)"

lemma fold_apart:
  assumes "sorted_wrt (\<lambda>a b. es_start b \<le> es_start a) es" "all_apart (es @ app)" "list_all (span_in data) (es @ app)"
    "\<forall>e \<in> set es. es_end e \<le> first_start data app"
  shows "\<exists>app'. foldl apply_edit (out, first_start data app, app, k) es = (fst app', first_start data (rev es @ app), rev es @ app, k)"
  using assms
proof (induction es arbitrary: out app)
  case (Cons e es)
  have "all_apart (es @ e # app)" using Cons.prems(2) by (auto simp: all_apart_def)
  moreover have "\<forall>f \<in> set es. es_end f \<le> es_start e"
  proof
    fix f assume "f \<in> set es"
    with Cons.prems have "f \<noteq> e" "apart e f" "es_start f \<le> es_start e" "span_in data f"
      by (auto simp: all_apart_def list_all_iff)
    then show "es_end f \<le> es_start e" by (auto simp: apart_def)
  qed
  ultimately show ?case
    using Cons.IH [of "e # app" "take (nat (es_start e)) out @ es_repl e @ drop (nat (es_end e)) out"] Cons.prems
    by (auto simp: apply_edit_def first_start_def)
qed auto

lemma apply_edits_spec:
  assumes "list_all (span_in data) es" "apply_edits data es = (out, applied, skipped)"
  shows "out = edited 0 data applied \<and> ascending applied \<and> mset applied \<subseteq># mset es \<and> length applied + skipped = length es \<and>
    (sorted_wrt (\<lambda>a b. es_start b \<le> es_start a) es \<longrightarrow> all_apart es \<longrightarrow> applied = rev es)"
proof -
  have start: "(data, int (length data) + 1, [], 0) = (edited 0 data [], first_start data [], [], 0)"
    by (simp add: first_start_def)
  from fold_edits [OF assms(1), of "[]" 0] obtain app' k' where
    run: "foldl apply_edit (data, int (length data) + 1, [], 0) es = (edited 0 data app', first_start data app', app', k')"
    and app: "ascending app'" "mset app' \<subseteq># mset es" "length app' + k' = length es"
    unfolding start by (auto simp: ascending_def)
  from assms(2) run have eq: "out = edited 0 data applied" "applied = app'" "skipped = k'"
    by (auto simp: apply_edits_def)
  have "applied = rev es" if "sorted_wrt (\<lambda>a b. es_start b \<le> es_start a) es" "all_apart es"
  proof -
    have "\<forall>e \<in> set es. es_end e \<le> first_start data []"
      using assms(1) by (auto simp: first_start_def span_in_def list_all_iff)
    from fold_apart [OF that(1) _ _ this, of data 0] that(2) assms(1) run eq(2) show ?thesis by (auto simp: first_start_def)
  qed
  with eq app show ?thesis by simp
qed

section \<open>Properties\<close>

text \<open>What \<^verbatim>\<open>sort.Slice\<close> promises.\<close>

definition descending_sort :: "(edit_span list \<Rightarrow> edit_span list) \<Rightarrow> bool" where
  "descending_sort arrange \<longleftrightarrow>
     (\<forall>es. mset (arrange es) = mset es \<and> sorted_wrt (\<lambda>a b. es_start b \<le> es_start a) (arrange es))"

lemma not_drifted: "\<not> list_ex (span_drifted data) es \<Longrightarrow> list_all (span_in data) es"
  by (auto simp: list_ex_iff list_all_iff span_drifted_def span_in_def)

lemma all_apart_mset: "mset es = mset fs \<Longrightarrow> all_apart es \<longleftrightarrow> all_apart fs"
  using mset_eq_setD [of es fs] mset_eq_imp_distinct_iff [of es fs] by (simp add: all_apart_def)

text \<open>C31: What is fixed is what was reported: when every span still holds the bytes the detector saw, the file
  becomes its old content with edits from the reported ones put in place of their spans - all of them
  when they lie apart, and then whatever order the sort chose; if any span drifted, or in a dry run, not
  a byte is written.\<close>

theorem remediation_exact:
  assumes "descending_sort arrange" "dk target = Some data"
    "remediate_file arrange writes dry_run target edits sm dk = (None, sm', dk')"
  shows "if list_ex (span_drifted data) edits then dk' = dk \<and> fs_drifted sm' = fs_drifted sm + 1
    else \<exists>kept. ascending kept \<and> mset kept \<subseteq># mset edits \<and> (all_apart edits \<longrightarrow> mset kept = mset edits) \<and>
      dk' = (if dry_run \<or> kept = [] then dk else dk(target \<mapsto> edited 0 data kept)) \<and>
      fs_edits_applied sm' = fs_edits_applied sm + length kept \<and>
      fs_skipped sm' + length kept = fs_skipped sm + length edits"
proof (cases "list_ex (span_drifted data) edits")
  case True
  with assms(2,3) show ?thesis by (auto simp: remediate_file_def)
next
  case False
  note arr = assms(1) [unfolded descending_sort_def, rule_format, of edits]
  obtain out kept skipped where app: "apply_edits data (arrange edits) = (out, kept, skipped)" by (rule prod_cases3)
  have "list_all (span_in data) (arrange edits)"
    using not_drifted [OF False] mset_eq_setD [OF conjunct1 [OF arr]] by (simp add: list_all_iff)
  note spec = apply_edits_spec [OF this app]
  have len: "length (arrange edits) = length edits" using arr by (metis size_mset)
  have "all_apart edits \<longrightarrow> mset kept = mset edits"
    using spec arr all_apart_mset [of "arrange edits" edits] by auto
  moreover have "dk' = (if dry_run \<or> kept = [] then dk else dk(target \<mapsto> edited 0 data kept)) \<and>
      fs_edits_applied sm' = fs_edits_applied sm + length kept \<and> fs_skipped sm' = fs_skipped sm + skipped"
    using assms(2,3) False app spec by (auto simp: remediate_file_def Let_def split: if_splits)
  ultimately show ?thesis using False spec len arr by (auto intro!: exI [of _ kept])
qed

definition demo_edit :: "int \<Rightarrow> int \<Rightarrow> string \<Rightarrow> string \<Rightarrow> edit_span" where
  "demo_edit i j old new = \<lparr>es_start = i, es_end = j, es_expected = old, es_repl = new, es_kind = ''trailing-whitespace''\<rparr>"

definition demo_sort :: "edit_span list \<Rightarrow> edit_span list" where
  "demo_sort es = rev (sort_key es_start es)"

lemma demo_sort_ok: "descending_sort demo_sort"
proof -
  have "sorted_wrt (\<lambda>a b. es_start b \<le> es_start a) (rev (sort_key es_start es))" for es :: "edit_span list"
    using sorted_sort_key [of es_start es] by (simp add: sorted_wrt_rev sorted_wrt_map)
  then show ?thesis by (simp add: descending_sort_def demo_sort_def)
qed

definition demo_edits :: "edit_span list" where
  "demo_edits = [demo_edit 1 3 ''  '' [], demo_edit 4 5 '' '' []]"

theorem remediation_exact_witness:
  "\<exists>kept. mset kept = mset demo_edits \<and> edited 0 ''a  b '' kept = ''ab''"
proof -
  define r where "r = remediate_file demo_sort (\<lambda>_. True) False ''f'' demo_edits empty_fix_summary [''f'' \<mapsto> ''a  b '']"
  obtain err sm' dk' where r': "r = (err, sm', dk')" by (rule prod_cases3)
  have out: "fst r = None" "snd (snd r) ''f'' = Some ''ab''" unfolding r_def by code_simp+
  then have run: "remediate_file demo_sort (\<lambda>_. True) False ''f'' demo_edits empty_fix_summary [''f'' \<mapsto> ''a  b ''] = (None, sm', dk')"
    using r' by (simp add: r_def)
  have facts: "\<not> list_ex (span_drifted ''a  b '') demo_edits" by code_simp
  have "all_apart demo_edits"
    by (auto simp: all_apart_def demo_edits_def demo_edit_def apart_def)
  with remediation_exact [OF demo_sort_ok _ run] facts out r' show ?thesis
    by (auto simp: demo_edits_def split: if_splits)
qed

lemma remediate_file_frame:
  assumes "remediate_file arrange writes dry_run target edits sm dk = (err, sm', dk')" "dk' p \<noteq> dk p"
  shows "p = target \<and> \<not> dry_run"
  using assms by (auto simp: remediate_file_def Let_def split: option.splits if_splits prod.splits)

lemma remediate_files_frame:
  "remediate_files arrange writes dry_run root fixes paths sm dk = (err, sm', dk') \<Longrightarrow> dk' p \<noteq> dk p \<Longrightarrow>
    \<not> dry_run \<and> (\<exists>path \<in> set paths. p = path_join [root, path])"
proof (induction paths arbitrary: sm dk)
  case (Cons path paths)
  obtain e s1 dk1 where r: "remediate_file arrange writes dry_run (path_join [root, path]) (edits_of fixes path) sm dk = (e, s1, dk1)"
    by (rule prod_cases3)
  show ?case
  proof (cases "dk1 p = dk p")
    case False
    from remediate_file_frame [OF r False] show ?thesis by simp
  next
    case True
    show ?thesis
    proof (cases e)
      case None
      with Cons.prems r have "remediate_files arrange writes dry_run root fixes paths s1 dk1 = (err, sm', dk')" by simp
      from Cons.IH [OF this] Cons.prems(2) True show ?thesis by auto
    next
      case (Some x)
      with Cons.prems r True show ?thesis by simp
    qed
  qed
qed simp

text \<open>A fix pass touches nothing else: a file whose content differs after it - however it ended - is the file
  of a finding with a fix of an enabled kind, and the pass was no dry run.\<close>

theorem remediation_touches_only_reported:
  assumes "apply_remediations arrange writes findings root enabled dry_run dk = (err, sm, dk')" "dk' p \<noteq> dk p"
  shows "\<not> dry_run \<and>
    (\<exists>f \<in> set findings. \<exists>r. fi_fix f = Some r \<and> rm_kind r \<in> set enabled \<and> p = path_join [root, fi_file f])"
proof -
  define fx where "fx = enabled_fixes enabled findings"
  from assms(1) have "remediate_files arrange writes dry_run root fx (sort_strings (remdups (map fst fx))) empty_fix_summary dk = (err, sm, dk')"
    by (simp add: apply_remediations_def fx_def Let_def)
  from remediate_files_frame [OF this assms(2)] obtain path where
    p: "\<not> dry_run" "path \<in> fst ` set fx" "p = path_join [root, path]" by auto
  then obtain r where "(path, r) \<in> set fx" by auto
  then obtain f where "f \<in> set findings" "fi_fix f = Some r" "rm_kind r \<in> set enabled" "path = fi_file f"
    by (auto simp: fx_def enabled_fixes_def map_filter_def split: option.splits if_splits)
  with p show ?thesis by auto
qed

definition demo_fixable :: finding where
  "demo_fixable = demo_finding\<lparr>fi_fix := Some \<lparr>rm_kind = ''tw'', rm_start = 1, rm_end = 2, rm_expected = '' '', rm_replacement = []\<rparr>\<rparr>"

theorem remediation_touches_only_reported_witness:
  "\<exists>f \<in> {demo_fixable, demo_finding}. ''/r/a.go'' = path_join [''/r'', fi_file f]"
proof -
  define r where "r = apply_remediations demo_sort (\<lambda>_. True) [demo_fixable, demo_finding] ''/r'' [''tw''] False [''/r/a.go'' \<mapsto> ''x '']"
  obtain err sm dk' where r': "r = (err, sm, dk')" by (rule prod_cases3)
  have "snd (snd r) ''/r/a.go'' = Some ''x''" unfolding r_def by code_simp
  then have "dk' ''/r/a.go'' \<noteq> [''/r/a.go'' \<mapsto> ''x ''] ''/r/a.go''" using r' by simp
  from remediation_touches_only_reported [OF r' [unfolded r_def] this] show ?thesis by auto
qed

end
