(* ===== verification/Lint_Baseline.thy ===== *)
theory Lint_Baseline
  imports Lint_Gate
begin

text \<open>
  Which findings a change introduced (\<open>NewFindings\<close> in \<^verbatim>\<open>src/src/lint/baseline_diff.go\<close>): the findings of the
  working tree against those of the baseline's version of the changed files.

  The baseline tree, the working tree, staging a file in a temporary directory and linting the staged
  files are arguments.  The order of map iteration is that of first occurrence; the result is a set.
\<close>

section \<open>The code\<close>

record 'e base_env =
  be_sha :: "string \<Rightarrow> string"
  be_content :: "string \<Rightarrow> 'e + string option"
  be_current :: "string \<Rightarrow> string option"
  be_stage :: "string \<Rightarrow> bool"
  be_temp :: "'e option"
  be_paths :: "'e + string list"
  be_lint :: "(string \<times> string) list \<Rightarrow> 'e + finding list"
  be_lint_full :: "(string \<times> string) list \<Rightarrow> 'e + finding list"
  be_full :: "string \<Rightarrow> bool"

abbreviation fp :: "'e base_env \<Rightarrow> finding \<Rightarrow> string" where
  "fp E f \<equiv> fingerprint (be_sha E) f"

text \<open>What becomes of one file: all its findings are new, it is linted at the baseline, or nothing is said.\<close>

datatype base_status = NewFile | Skipped | Staged string

definition base_state :: "'e base_env \<Rightarrow> string \<Rightarrow> base_status" where
  "base_state E path =
     (case be_content E path of
        Inl _ \<Rightarrow> Skipped
      | Inr None \<Rightarrow> NewFile
      | Inr (Some base) \<Rightarrow>
          if be_current E path = Some base then Skipped
          else if \<not> be_stage E path then Skipped
          else Staged base)"

definition staged_files :: "'e base_env \<Rightarrow> string list \<Rightarrow> (string \<times> string) list" where
  "staged_files E paths = List.map_filter (\<lambda>p. case base_state E p of Staged base \<Rightarrow> Some (p, base) | _ \<Rightarrow> None) paths"

definition mark_new_per_file :: "'e base_env \<Rightarrow> finding list \<Rightarrow> string set \<Rightarrow> 'e option \<times> string set" where
  "mark_new_per_file E fs new_fp =
     (if fs = [] then (None, new_fp)
      else
        (case be_temp E of
           Some e \<Rightarrow> (Some e, new_fp)
         | None \<Rightarrow>
             (let paths = remdups (map fi_file fs); staged = staged_files E paths;
                  new_fp = new_fp \<union> set (map (fp E) (filter (\<lambda>f. base_state E (fi_file f) = NewFile) fs)) in
              if staged = [] then (None, new_fp)
              else
                (case be_lint E staged of
                   Inl e \<Rightarrow> (Some e, new_fp)
                 | Inr base \<Rightarrow>
                     (None, new_fp \<union> set (map (fp E)
                       (filter (\<lambda>f. fi_file f \<in> fst ` set staged \<and> fp E f \<notin> fp E ` set base) fs)))))))"

definition full_staged :: "'e base_env \<Rightarrow> string list \<Rightarrow> (string \<times> string) list" where
  "full_staged E paths =
     List.map_filter
       (\<lambda>p. case be_content E p of Inr (Some base) \<Rightarrow> if be_stage E p then Some (p, base) else None | _ \<Rightarrow> None) paths"

definition mark_new_full_repo :: "'e base_env \<Rightarrow> finding list \<Rightarrow> string set \<Rightarrow> 'e option \<times> string set" where
  "mark_new_full_repo E fs new_fp =
     (if fs = [] then (None, new_fp)
      else
        (case be_paths E of
           Inl e \<Rightarrow> (Some e, new_fp)
         | Inr paths \<Rightarrow>
             (case be_temp E of
                Some e \<Rightarrow> (Some e, new_fp)
              | None \<Rightarrow>
                  (let staged = full_staged E paths in
                   if staged = [] then (None, new_fp \<union> set (map (fp E) fs))
                   else
                     (case be_lint_full E staged of
                        Inl e \<Rightarrow> (Some e, new_fp)
                      | Inr base \<Rightarrow> (None, new_fp \<union> set (map (fp E) (filter (\<lambda>f. fp E f \<notin> fp E ` set base) fs))))))))"

definition new_findings :: "'e base_env \<Rightarrow> finding list \<Rightarrow> 'e option \<times> string set" where
  "new_findings E current =
     (let live = filter (\<lambda>f. fi_module f \<notin> set world_modules) current;
          full_repo = filter (\<lambda>f. be_full E (fi_module f)) live;
          per_file = filter (\<lambda>f. \<not> be_full E (fi_module f)) live in
      case mark_new_per_file E per_file {} of
        (Some e, new_fp) \<Rightarrow> (Some e, new_fp)
      | (None, new_fp) \<Rightarrow> mark_new_full_repo E full_repo new_fp)"

section \<open>What is new\<close>

text \<open>What the comparison can say of a path, in terms of the baseline, the working tree and the staging
  directory: the baseline does not have it; or the baseline's version was read, differs from the working
  tree's and could be staged. Of a path that cannot be read at the baseline, that did not change or that
  cannot be staged it says nothing.\<close>

definition added :: "'e base_env \<Rightarrow> string \<Rightarrow> bool" where
  "added E p \<longleftrightarrow> be_content E p = Inr None"

definition at_base :: "'e base_env \<Rightarrow> string \<Rightarrow> string option" where
  "at_base E p = (case be_content E p of Inl _ \<Rightarrow> None | Inr c \<Rightarrow> c)"

definition compared :: "'e base_env \<Rightarrow> string \<Rightarrow> bool" where
  "compared E p \<longleftrightarrow> at_base E p \<noteq> None \<and> be_current E p \<noteq> at_base E p \<and> be_stage E p"

definition live_findings :: "'e base_env \<Rightarrow> bool \<Rightarrow> finding list \<Rightarrow> finding list" where
  "live_findings E full current =
     filter (\<lambda>f. fi_module f \<notin> set world_modules \<and> be_full E (fi_module f) = full) current"

text \<open>The trees that are linted for the comparison: the baseline's versions of the changed files with findings,
  and, for the modules that need the whole repository, of every file of the baseline that can be staged.\<close>

definition base_tree :: "'e base_env \<Rightarrow> finding list \<Rightarrow> (string \<times> string) list" where
  "base_tree E current =
     map (\<lambda>p. (p, the (at_base E p))) (filter (compared E) (remdups (map fi_file (live_findings E False current))))"

definition whole_base_tree :: "'e base_env \<Rightarrow> string list \<Rightarrow> (string \<times> string) list" where
  "whole_base_tree E paths = map (\<lambda>p. (p, the (at_base E p))) (filter (\<lambda>p. at_base E p \<noteq> None \<and> be_stage E p) paths)"

definition reported_in :: "'e base_env \<Rightarrow> 'e + finding list \<Rightarrow> finding \<Rightarrow> bool" where
  "reported_in E linted f \<longleftrightarrow> (case linted of Inl _ \<Rightarrow> True | Inr base \<Rightarrow> fp E f \<in> fp E ` set base)"

definition introduced :: "'e base_env \<Rightarrow> finding list \<Rightarrow> finding \<Rightarrow> bool" where
  "introduced E current f \<longleftrightarrow> fi_module f \<notin> set world_modules \<and>
     (if be_full E (fi_module f) then
        (case be_paths E of
           Inl _ \<Rightarrow> False
         | Inr paths \<Rightarrow> whole_base_tree E paths = [] \<or> \<not> reported_in E (be_lint_full E (whole_base_tree E paths)) f)
      else
        added E (fi_file f) \<or>
        compared E (fi_file f) \<and> \<not> reported_in E (be_lint E (base_tree E current)) f)"

lemma base_state_cases:
  "base_state E p = NewFile \<longleftrightarrow> added E p"
  "base_state E p = Staged base \<longleftrightarrow> compared E p \<and> at_base E p = Some base"
  by (auto simp: base_state_def added_def compared_def at_base_def split: sum.splits option.splits)

lemma base_state_pick:
  "(case base_state E p of NewFile \<Rightarrow> True | Skipped \<Rightarrow> False | Staged _ \<Rightarrow> Q) \<longleftrightarrow> added E p \<or> compared E p \<and> Q"
  by (auto simp: base_state_def compared_def added_def at_base_def split: sum.splits option.splits)

lemma staged_files_eq: "staged_files E ps = map (\<lambda>p. (p, the (at_base E p))) (filter (compared E) ps)"
proof (induction ps)
  case (Cons p ps)
  then show ?case
    by (auto simp: staged_files_def map_filter_simps base_state_def compared_def at_base_def split: sum.splits option.splits)
qed (simp add: staged_files_def map_filter_simps)

lemma full_staged_eq: "full_staged E ps = whole_base_tree E ps"
  by (induction ps)
    (auto simp: full_staged_def whole_base_tree_def at_base_def map_filter_simps split: sum.splits option.splits)

lemma staged_files_mem: "p \<in> fst ` set (staged_files E paths) \<longleftrightarrow> p \<in> set paths \<and> (\<exists>base. base_state E p = Staged base)"
  by (force simp: staged_files_def map_filter_def split: base_status.splits)

lemma mark_new_per_file_spec:
  assumes "mark_new_per_file E fs s = (None, s')"
  shows "x \<in> s' \<longleftrightarrow> x \<in> s \<or> (\<exists>f \<in> set fs. x = fp E f \<and>
    (case base_state E (fi_file f) of NewFile \<Rightarrow> True | Skipped \<Rightarrow> False
     | Staged _ \<Rightarrow> (\<exists>base. be_lint E (staged_files E (remdups (map fi_file fs))) = Inr base \<and> fp E f \<notin> fp E ` set base)))"
proof (cases "fs = []")
  case False
  define staged where "staged = staged_files E (remdups (map fi_file fs))"
  have mem: "fi_file f \<in> fst ` set staged \<longleftrightarrow> (\<exists>b. base_state E (fi_file f) = Staged b)" if "f \<in> set fs" for f
    using that by (simp add: staged_def staged_files_mem)
  show ?thesis
  proof (cases "staged = []")
    case True
    have never: "(case base_state E (fi_file f) of NewFile \<Rightarrow> True | Skipped \<Rightarrow> False | Staged _ \<Rightarrow> P) \<longleftrightarrow>
        base_state E (fi_file f) = NewFile" if "f \<in> set fs" for f P
      using mem [OF that] True by (auto split: base_status.split)
    have "s' = s \<union> set (map (fp E) (filter (\<lambda>f. base_state E (fi_file f) = NewFile) fs))"
      using assms False True by (auto simp: mark_new_per_file_def Let_def staged_def [symmetric] split: option.splits)
    then show ?thesis using never by auto
  next
    case nonempty: False
    with assms False obtain base where base: "be_lint E staged = Inr base"
      and s': "s' = s \<union> set (map (fp E) (filter (\<lambda>f. base_state E (fi_file f) = NewFile) fs)) \<union>
        set (map (fp E) (filter (\<lambda>f. fi_file f \<in> fst ` set staged \<and> fp E f \<notin> fp E ` set base) fs))"
      by (auto simp: mark_new_per_file_def Let_def staged_def [symmetric] split: option.splits sum.splits)
    have "x \<in> s' \<longleftrightarrow> x \<in> s \<or> (\<exists>f \<in> set fs. x = fp E f \<and>
        (base_state E (fi_file f) = NewFile \<or> (\<exists>b. base_state E (fi_file f) = Staged b) \<and> fp E f \<notin> fp E ` set base))"
      unfolding s' using mem by auto
    also have "\<dots> \<longleftrightarrow> x \<in> s \<or> (\<exists>f \<in> set fs. x = fp E f \<and>
        (case base_state E (fi_file f) of NewFile \<Rightarrow> True | Skipped \<Rightarrow> False
         | Staged _ \<Rightarrow> (\<exists>b. be_lint E staged = Inr b \<and> fp E f \<notin> fp E ` set b)))"
      by (rule arg_cong [where f = "(\<or>) (x \<in> s)"], rule bex_cong [OF refl]) (simp add: base split: base_status.split)
    finally show ?thesis unfolding staged_def .
  qed
qed (use assms in \<open>simp add: mark_new_per_file_def\<close>)

lemma mark_new_full_repo_spec:
  assumes "mark_new_full_repo E fs s = (None, s')"
  shows "x \<in> s' \<longleftrightarrow> x \<in> s \<or> (\<exists>f \<in> set fs. x = fp E f \<and>
    (\<exists>paths. be_paths E = Inr paths \<and>
      (full_staged E paths = [] \<or> (\<exists>base. be_lint_full E (full_staged E paths) = Inr base \<and> fp E f \<notin> fp E ` set base))))"
  using assms
  by (auto simp: mark_new_full_repo_def Let_def split: if_splits option.splits sum.splits)

text \<open>C33: What a change introduced: when the comparison succeeds, a fingerprint is reported as new exactly when some
  current finding with it is - never one of a module that watches the outside world. A finding in a file is new
  when the baseline was read and does not have the file, or has another version of it that could be staged and
  whose lint does not report the fingerprint; in a file that did not change, that could not be read at the
  baseline or not be staged, no finding is new. A finding of a module that needs the whole repository is new
  when nothing of the baseline could be staged, or the lint of all that could does not report it. So a finding
  that only moved or was reworded is not new.\<close>

theorem new_findings_iff:
  assumes "new_findings E current = (None, new_fp)"
  shows "x \<in> new_fp \<longleftrightarrow> (\<exists>f \<in> set current. x = fp E f \<and> introduced E current f)"
proof -
  define live where "live = filter (\<lambda>f. fi_module f \<notin> set world_modules) current"
  from assms obtain mid where
    per: "mark_new_per_file E (filter (\<lambda>f. \<not> be_full E (fi_module f)) live) {} = (None, mid)" and
    full: "mark_new_full_repo E (filter (\<lambda>f. be_full E (fi_module f)) live) mid = (None, new_fp)"
    by (auto simp: new_findings_def Let_def live_def split: prod.splits option.splits)
  have tree: "staged_files E (remdups (map fi_file (filter (\<lambda>f. \<not> be_full E (fi_module f)) live))) = base_tree E current"
    by (simp add: staged_files_eq base_tree_def live_findings_def live_def conj_commute)
  have known: "(\<exists>base. linted = Inr base \<and> fp E f \<notin> fp E ` set base) \<longleftrightarrow> \<not> reported_in E linted f"
    for linted :: "'a + finding list" and f
    by (simp add: reported_in_def split: sum.split)
  have paths: "(\<exists>paths. be_paths E = Inr paths \<and> P paths) \<longleftrightarrow> (case be_paths E of Inl _ \<Rightarrow> False | Inr paths \<Rightarrow> P paths)" for P
    by (simp split: sum.split)
  have "\<And>c w g P Q. ((x \<in> {} \<or> (\<exists>f \<in> set (filter (\<lambda>f. \<not> c f) (filter w current)). x = g f \<and> Q f)) \<or>
      (\<exists>f \<in> set (filter c (filter w current)). x = g f \<and> P f)) =
      (\<exists>f \<in> set current. x = g f \<and> w f \<and> (if c f then P f else Q f))"
    by auto
  then show ?thesis
    unfolding mark_new_full_repo_spec [OF full] mark_new_per_file_spec [OF per] introduced_def live_def [symmetric]
      tree known full_staged_eq base_state_pick paths [symmetric] unfolding live_def .
qed

text \<open>The gate stays open when the blocking findings were there before.\<close>

definition demo_base_env :: "string base_env" where
  "demo_base_env =
     \<lparr>be_sha = id, be_content = (\<lambda>p. Inr (Some ''old'')), be_current = (\<lambda>p. Some ''new''), be_stage = (\<lambda>_. True), be_temp = None,
      be_paths = Inr [], be_lint = (\<lambda>_. Inr [demo_finding\<lparr>fi_line := 40\<rparr>]), be_lint_full = (\<lambda>_. Inr []), be_full = (\<lambda>_. False)\<rparr>"

theorem new_findings_iff_witness:
  "snd (new_findings demo_base_env [demo_finding, demo_finding\<lparr>fi_rule := ''other''\<rparr>]) =
    {fp demo_base_env (demo_finding\<lparr>fi_rule := ''other''\<rparr>)}"
proof -
  define cur where "cur = [demo_finding, demo_finding\<lparr>fi_rule := ''other''\<rparr>]"
  have "fst (new_findings demo_base_env cur) = None" unfolding cur_def by code_simp
  then obtain new_fp where run: "new_findings demo_base_env cur = (None, new_fp)" by (cases "new_findings demo_base_env cur") auto
  have intro: "introduced demo_base_env cur f \<longleftrightarrow> fp demo_base_env f \<noteq> fp demo_base_env (demo_finding\<lparr>fi_line := 40\<rparr>)"
    if "f \<in> set cur" for f
    using that by (auto simp: introduced_def demo_base_env_def added_def compared_def at_base_def reported_in_def cur_def
        world_modules_def demo_finding_def)
  have fps: "fp demo_base_env demo_finding = fp demo_base_env (demo_finding\<lparr>fi_line := 40\<rparr>)"
    "fp demo_base_env (demo_finding\<lparr>fi_rule := ''other''\<rparr>) \<noteq> fp demo_base_env (demo_finding\<lparr>fi_line := 40\<rparr>)" by code_simp+
  have "x \<in> new_fp \<longleftrightarrow> x = fp demo_base_env (demo_finding\<lparr>fi_rule := ''other''\<rparr>)" for x
    unfolding new_findings_iff [OF run] using intro fps by (auto simp: cur_def)
  then show ?thesis using run by (auto simp: cur_def)
qed

end
