(* ===== verification/Lint_Evict.thy ===== *)
theory Lint_Evict
  imports SF_Prelude Units
begin

text \<open>
  Bounding the lint result cache (\<open>Evict\<close> in \<^verbatim>\<open>src/src/lint/cache.go\<close>): entries nobody used for the maximal age go
  first, then the least recently used until the size fits.

  The entries are what the directory walk lists; whether a removal succeeds is an argument.  Sizes are
  not close to the 64-bit limit.
\<close>

record cache_file =
  cf_path :: string
  cf_size :: int
  cf_mtime :: int

record evict_result =
  er_before :: nat
  er_evicted :: nat
  er_bytes :: int
  er_reason :: string

text \<open>The result, the total size that is left, and the paths removed so far.\<close>

type_synonym evict_state = "evict_result \<times> int \<times> string list"

definition evict_entry :: "(string \<Rightarrow> bool) \<Rightarrow> cache_file \<Rightarrow> evict_state \<Rightarrow> evict_state" where
  "evict_entry removes e st =
     (case st of (r, used, gone) \<Rightarrow>
        if removes (cf_path e) then
          (r\<lparr>er_evicted := er_evicted r + 1, er_bytes := er_bytes r + cf_size e\<rparr>, used - cf_size e, gone @ [cf_path e])
        else st)"

fun evict_by_age ::
  "(string \<Rightarrow> bool) \<Rightarrow> int \<Rightarrow> cache_file list \<Rightarrow> evict_state \<Rightarrow> cache_file list \<Rightarrow> evict_state \<times> cache_file list" where
  "evict_by_age removes cutoff [] st surviving = (st, surviving)"
| "evict_by_age removes cutoff (e # es) st surviving =
     (if cf_mtime e < cutoff then evict_by_age removes cutoff es (evict_entry removes e st) surviving
      else evict_by_age removes cutoff es st (surviving @ [e]))"

fun evict_by_size :: "(string \<Rightarrow> bool) \<Rightarrow> int \<Rightarrow> cache_file list \<Rightarrow> evict_state \<Rightarrow> evict_state" where
  "evict_by_size removes max_bytes [] st = st"
| "evict_by_size removes max_bytes (e # es) st =
     (if fst (snd st) \<le> max_bytes then st else evict_by_size removes max_bytes es (evict_entry removes e st))"

definition older :: "cache_file \<Rightarrow> cache_file \<Rightarrow> bool" where
  "older a b \<longleftrightarrow> cf_mtime a < cf_mtime b"

definition evict_sizes :: "(string \<Rightarrow> bool) \<Rightarrow> string \<Rightarrow> evict_state \<times> cache_file list \<Rightarrow> evict_result \<times> string list" where
  "evict_sizes removes max_size acc =
     (case acc of ((r, used, gone), entries) \<Rightarrow>
        if max_size = [] then (r, gone)
        else
          (case parse_size max_size of
             None \<Rightarrow> (r\<lparr>er_reason := ''invalid max_size''\<rparr>, gone)
           | Some max_bytes \<Rightarrow>
               if max_bytes > 0 \<and> used > max_bytes then
                 (case evict_by_size removes max_bytes (sort_slice older entries) (r, used, gone) of (r, _, gone) \<Rightarrow> (r, gone))
               else (r, gone)))"

definition evict :: "(string \<Rightarrow> bool) \<Rightarrow> bool \<Rightarrow> int \<Rightarrow> cache_file list \<Rightarrow> string \<Rightarrow> string \<Rightarrow> evict_result \<times> string list" where
  "evict removes enabled now entries max_age max_size =
     (let r = \<lparr>er_before = 0, er_evicted = 0, er_bytes = 0, er_reason = []\<rparr> in
      if \<not> enabled then (r\<lparr>er_reason := ''cache not enabled''\<rparr>, [])
      else if max_age = [] \<and> max_size = [] then (r\<lparr>er_reason := ''no eviction policy configured''\<rparr>, [])
      else
        (let r = r\<lparr>er_before := length entries\<rparr>; st = (r, sum_list (map cf_size entries), []) in
         if max_age = [] then evict_sizes removes max_size (st, entries)
         else
           (case parse_duration max_age of
              None \<Rightarrow> (r\<lparr>er_reason := ''invalid max_age''\<rparr>, [])
            | Some age \<Rightarrow>
                evict_sizes removes max_size
                  (if age > 0 then evict_by_age removes (now - age) entries st [] else (st, entries)))))"

section \<open>Properties\<close>

interpretation oldest_first: comparator older
  by unfold_locales (auto simp: older_def)

definition all_gone :: "cache_file list \<Rightarrow> evict_state \<Rightarrow> evict_state" where
  "all_gone es st = foldl (\<lambda>st e. evict_entry (\<lambda>_. True) e st) st es"

lemma all_gone_eq:
  "all_gone es (r, used, gone) =
     (r\<lparr>er_evicted := er_evicted r + length es, er_bytes := er_bytes r + sum_list (map cf_size es)\<rparr>,
      used - sum_list (map cf_size es), gone @ map cf_path es)"
  unfolding all_gone_def by (induction es arbitrary: r used gone) (simp_all add: evict_entry_def)

lemma evict_by_age_all:
  "evict_by_age (\<lambda>_. True) cutoff es st sv =
     (all_gone (filter (\<lambda>e. cf_mtime e < cutoff) es) st, sv @ filter (\<lambda>e. cutoff \<le> cf_mtime e) es)"
  by (induction es arbitrary: st sv) (auto simp: all_gone_def)

lemma evict_by_size_all:
  assumes "used = sum_list (map cf_size es)" "max_bytes \<ge> 0"
  shows "\<exists>k \<le> length es. evict_by_size (\<lambda>_. True) max_bytes es (r, used, gone) = all_gone (take k es) (r, used, gone) \<and>
    sum_list (map cf_size (drop k es)) \<le> max_bytes \<and>
    (\<forall>j < k. sum_list (map cf_size (drop j es)) > max_bytes)"
  using assms(1)
proof (induction es arbitrary: r used gone)
  case Nil
  with assms(2) show ?case by (simp add: all_gone_def)
next
  case (Cons e es)
  show ?case
  proof (cases "used \<le> max_bytes")
    case True
    with Cons.prems show ?thesis by (intro exI [of _ 0]) (simp add: all_gone_def)
  next
    case False
    have "used - cf_size e = sum_list (map cf_size es)" using Cons.prems by simp
    from Cons.IH [OF this, of "r\<lparr>er_evicted := er_evicted r + 1, er_bytes := er_bytes r + cf_size e\<rparr>" "gone @ [cf_path e]"]
    obtain k where k: "k \<le> length es"
      "evict_by_size (\<lambda>_. True) max_bytes es (evict_entry (\<lambda>_. True) e (r, used, gone)) =
        all_gone (take k es) (evict_entry (\<lambda>_. True) e (r, used, gone))"
      "sum_list (map cf_size (drop k es)) \<le> max_bytes" "\<forall>j < k. sum_list (map cf_size (drop j es)) > max_bytes"
      by (auto simp: evict_entry_def)
    have "\<forall>j < Suc k. sum_list (map cf_size (drop j (e # es))) > max_bytes"
      using k(4) False Cons.prems by (auto simp: less_Suc_eq_0_disj)
    with k False show ?thesis by (intro exI [of _ "Suc k"]) (simp add: all_gone_def)
  qed
qed

text \<open>Eviction: when every removal succeeds, the entries older than the maximal age are gone, then the least
  recently used ones, no more of them than needed for the rest to fit the maximal size, and the counts
  are those of the entries removed.\<close>

theorem evict_bounds:
  assumes "parse_duration max_age = Some age" "age > 0" "max_age \<noteq> []"
    "parse_size max_size = Some max_bytes" "max_bytes > 0" "max_size \<noteq> []"
  shows "\<exists>k. let fresh = sort_slice older (filter (\<lambda>e. now - age \<le> cf_mtime e) entries);
        evicted = filter (\<lambda>e. cf_mtime e < now - age) entries @ take k fresh in
    snd (evict (\<lambda>_. True) True now entries max_age max_size) = map cf_path evicted \<and>
    er_evicted (fst (evict (\<lambda>_. True) True now entries max_age max_size)) = length evicted \<and>
    er_bytes (fst (evict (\<lambda>_. True) True now entries max_age max_size)) = sum_list (map cf_size evicted) \<and>
    sum_list (map cf_size (drop k fresh)) \<le> max_bytes \<and>
    (\<forall>j < k. sum_list (map cf_size (drop j fresh)) > max_bytes) \<and>
    sorted_wrt (\<lambda>a b. cf_mtime a \<le> cf_mtime b) fresh"
proof -
  define old where "old = filter (\<lambda>e. cf_mtime e < now - age) entries"
  define young where "young = filter (\<lambda>e. now - age \<le> cf_mtime e) entries"
  define fresh where "fresh = sort_slice older young"
  define r where "r = \<lparr>er_before = length entries, er_evicted = length old, er_bytes = sum_list (map cf_size old), er_reason = []\<rparr>"
  define used where "used = sum_list (map cf_size entries) - sum_list (map cf_size old)"
  have sorted: "sorted_wrt (\<lambda>a b. cf_mtime a \<le> cf_mtime b) fresh"
    using oldest_first.ordered_sort_slice [of young] by (simp add: fresh_def older_def not_less)
  have split: "sum_list (map cf_size entries) = sum_list (map cf_size old) + sum_list (map cf_size young)"
    unfolding old_def young_def by (induction entries) auto
  have used: "used = sum_list (map cf_size fresh)"
    using split by (simp add: used_def fresh_def flip: sum_mset_sum_list)
  have start: "evict (\<lambda>_. True) True now entries max_age max_size =
      evict_sizes (\<lambda>_. True) max_size ((r, used, map cf_path old), young)"
    using assms by (simp add: evict_def Let_def evict_by_age_all all_gone_eq old_def young_def r_def used_def)
  from evict_by_size_all [OF used, of max_bytes r "map cf_path old"] assms(5)
  obtain k where k: "evict_by_size (\<lambda>_. True) max_bytes fresh (r, used, map cf_path old) = all_gone (take k fresh) (r, used, map cf_path old)"
    "sum_list (map cf_size (drop k fresh)) \<le> max_bytes" "\<forall>j < k. sum_list (map cf_size (drop j fresh)) > max_bytes" by auto
  define k' where "k' = (if used > max_bytes then k else 0)"
  have run: "evict (\<lambda>_. True) True now entries max_age max_size =
      (case all_gone (take k' fresh) (r, used, map cf_path old) of (r, _, gone) \<Rightarrow> (r, gone))"
    unfolding start using assms k(1) by (simp add: evict_sizes_def fresh_def [symmetric] k'_def all_gone_def)
  have fits: "sum_list (map cf_size (drop k' fresh)) \<le> max_bytes" "\<forall>j < k'. sum_list (map cf_size (drop j fresh)) > max_bytes"
    using k(2,3) used by (auto simp: k'_def)
  show ?thesis
    by (rule exI [of _ k']) (use run fits sorted in \<open>simp add: all_gone_eq r_def Let_def flip: old_def young_def fresh_def\<close>)
qed

definition demo_cache_files :: "cache_file list" where
  "demo_cache_files =
     [\<lparr>cf_path = ''a'', cf_size = 700, cf_mtime = 9 * (24 * hour)\<rparr>, \<lparr>cf_path = ''b'', cf_size = 600, cf_mtime = 7 * (24 * hour)\<rparr>,
      \<lparr>cf_path = ''c'', cf_size = 600, cf_mtime = 10 * (24 * hour)\<rparr>]"

theorem evict_bounds_witness:
  "\<exists>k. snd (evict (\<lambda>_. True) True (10 * (24 * hour)) demo_cache_files ''2d'' ''1KB'') =
     map cf_path ([demo_cache_files ! 1] @ take k [demo_cache_files ! 0, demo_cache_files ! 2])"
proof -
  have age: "parse_duration ''2d'' = Some (2 * (24 * hour))"
    by (simp add: parse_duration_def trim_space_def has_suffix_def has_prefix_def trim_suffix_def sscanf_d_def
        take_sign_def digits_val_def digit_val_def signed_def is_digit_def is_space_def in_int64_def wrap64_def)
  have size: "parse_size ''1KB'' = Some 1024"
    by (simp add: parse_size_def size_unit_def to_upper_def upper_char_def is_lower_def trim_space_def has_suffix_def has_prefix_def
        trim_suffix_def sscanf_d_def take_sign_def digits_val_def digit_val_def signed_def is_digit_def is_space_def in_int64_def wrap64_def)
  have parts: "sort_slice older (filter (\<lambda>e. 10 * (24 * hour) - 2 * (24 * hour) \<le> cf_mtime e) demo_cache_files) = [demo_cache_files ! 0, demo_cache_files ! 2]"
    "filter (\<lambda>e. cf_mtime e < 10 * (24 * hour) - 2 * (24 * hour)) demo_cache_files = [demo_cache_files ! 1]"
    by (simp_all add: demo_cache_files_def sort_slice_def older_def)
  have ne: "0 < 2 * (24 * hour)" "''2d'' \<noteq> []" "(0 :: int) < 1024" "''1KB'' \<noteq> []" by simp_all
  from evict_bounds [OF age ne(1,2) size ne(3,4), of "10 * (24 * hour)" demo_cache_files, unfolded Let_def parts]
  show ?thesis by (rule ex_forward) (elim conjE)
qed

end
