(* ===== verification/Go_Replace.thy ===== *)
theory Go_Replace
  imports Go_Regexp
begin

text \<open>
  \<open>Regexp.ReplaceAllString\<close> of Go's standard library, as the selection rewrites and the revision
  patterns of \<^verbatim>\<open>src/src/upstream\<close> use it: the package interface with a replacement operation, and
  that operation for the executable engine. Positions count bytes, which is Go's behaviour on
  ASCII text.
\<close>

record 're regexp_rw = "'re regexp_pkg" +
  re_replace :: "'re \<Rightarrow> string \<Rightarrow> string \<Rightarrow> string"

section \<open>Templates\<close>

text \<open>\<open>extract\<close>: the name after a dollar sign, with or without braces, and the rest.\<close>

definition template_name :: "string \<Rightarrow> (string \<times> string) option" where
  "template_name s =
     (let brace = (s \<noteq> [] \<and> hd s = CHR ''{'');
          t = (if brace then tl s else s);
          name = takeWhile word_char t; rest = dropWhile word_char t
      in if name = [] then None
         else if brace then (if rest \<noteq> [] \<and> hd rest = CHR ''}'' then Some (name, tl rest) else None)
         else Some (name, rest))"

text \<open>The number a name stands for: small, and without leading zeros.\<close>

definition template_number :: "string \<Rightarrow> nat option" where
  "template_number name =
     (if list_all is_digit name \<and> \<not> (hd name = CHR ''0'' \<and> length name > 1) \<and> length name \<le> 9
      then Some (digits_val name) else None)"

definition group_value :: "string list \<Rightarrow> string list \<Rightarrow> string \<Rightarrow> string" where
  "group_value names m name =
     (case template_number name of
        Some k \<Rightarrow> if k < length m then m ! k else []
      | None \<Rightarrow> (case find (\<lambda>i. names ! i = name) [0..<length names] of
                   Some i \<Rightarrow> m ! i | None \<Rightarrow> []))"

lemma template_name_length: "template_name s = Some (n, r) \<Longrightarrow> length r < Suc (length s)"
  using length_dropWhile_le [of word_char s] length_dropWhile_le [of word_char "tl s"]
  by (auto simp: template_name_def Let_def less_Suc_eq_le split: if_splits)

function expand_template :: "string list \<Rightarrow> string list \<Rightarrow> string \<Rightarrow> string" where
  "expand_template names m [] = []"
| "expand_template names m (c # s) =
     (if c \<noteq> CHR ''$'' then c # expand_template names m s
      else if s \<noteq> [] \<and> hd s = CHR ''$'' then CHR ''$'' # expand_template names m (tl s)
      else (case template_name s of
              None \<Rightarrow> CHR ''$'' # expand_template names m s
            | Some (n, r) \<Rightarrow> group_value names m n @ expand_template names m r))"
  by pat_completeness auto

termination
  by (relation "measure (\<lambda>(_, _, s). length s)") (auto dest: template_name_length)

section \<open>Replacing every match\<close>

text \<open>The loop of \<open>replaceAll\<close>: the search position and the end of the last match. An empty match
  right after another match is not replaced, and every round advances.\<close>

function replace_from :: "rx \<times> string list \<Rightarrow> string \<Rightarrow> string \<Rightarrow> nat \<Rightarrow> nat \<Rightarrow> string" where
  "replace_from re s repl pos last_end =
     (if pos > length s then drop last_end s
      else case rx_first (fst re) [pos..<Suc (length s)] s of
        None \<Rightarrow> drop last_end s
      | Some (k, (j, t, cs)) \<Rightarrow>
          take (k - last_end) (drop last_end s)
          @ (if j > last_end \<or> k = 0
             then expand_template ([] # snd re)
                    (take (j - k) (drop k s) # map (group_text cs) [1..<Suc (length (snd re))]) repl
             else [])
          @ replace_from re s repl (max (Suc pos) j) j)"
  by pat_completeness auto

termination
  by (relation "measure (\<lambda>(_, s, _, pos, _). Suc (length s) - pos)") auto

definition rx_replace :: "rx \<times> string list \<Rightarrow> string \<Rightarrow> string \<Rightarrow> string" where
  "rx_replace re s repl = replace_from re s repl 0 0"

definition go_regexp_rw :: "(rx \<times> string list) regexp_rw" where
  "go_regexp_rw =
     \<lparr>re_compile = rx_compile, re_submatch = rx_submatch, re_names = (\<lambda>re. [] # snd re), re_replace = rx_replace\<rparr>"

text \<open>\<open>MustCompile\<close> of a constant pattern.\<close>

definition must_compile :: "('re, 'm) regexp_pkg_scheme \<Rightarrow> string \<Rightarrow> 're" where
  "must_compile R p = the (re_compile R p)"

text \<open>\<open>SubexpIndex\<close>: the first group of the name.\<close>

definition subexp_index :: "('re, 'm) regexp_pkg_scheme \<Rightarrow> 're \<Rightarrow> string \<Rightarrow> nat option" where
  "subexp_index R re name = find (\<lambda>i. re_names R re ! i = name) [1..<length (re_names R re)]"


end
