(* ===== verification/Upstream_Releases.thy ===== *)
theory Upstream_Releases
  imports Version_Scheme Go_Time Go_Replace
begin

text \<open>
  The releases of a declared upstream and what our release tags claim about them
  (\<^verbatim>\<open>src/src/upstream/upstream.go\<close>): \<open>ReleasesOf\<close> selects and orders the releases of a listing,
  \<open>OurVersion\<close> reads a tag of ours, \<open>Evaluate\<close> is the watcher's report and \<open>ReleaseVerdict\<close> the
  gate a release passes before it ships.

  A version scheme is a record of its operations. Versions of one scheme share a type, so the
  comparison of versions of different schemes, which panics in the program, cannot be written
  here (\<^const>\<open>version_compare\<close> has that branch).
\<close>

section \<open>Sources, selections and releases\<close>

record 'v scheme =
  sc_parse :: "string \<Rightarrow> version_error + 'v"
  sc_compare :: "'v \<Rightarrow> 'v \<Rightarrow> int"
  sc_same :: "'v \<Rightarrow> 'v \<Rightarrow> bool"
  sc_prerelease :: "'v \<Rightarrow> bool"
  sc_release_name :: "'v \<Rightarrow> string \<Rightarrow> string"

definition debian_scheme :: "debian_version scheme" where
  "debian_scheme = \<lparr>sc_parse = debian_parse, sc_compare = debian_compare, sc_same = debian_claims,
     sc_prerelease = debian_prerelease, sc_release_name = (\<lambda>v raw. debian_release_name v)\<rparr>"

definition pep440_scheme :: "'re regexp_pkg \<Rightarrow> 're \<Rightarrow> pep440_version scheme" where
  "pep440_scheme R re = \<lparr>sc_parse = pep440_parse R re, sc_compare = pep440_compare,
     sc_same = (\<lambda>v ours. pep440_compare v ours = 0), sc_prerelease = pep440_prerelease,
     sc_release_name = (\<lambda>v raw. raw)\<rparr>"

record 're rewrite =
  rw_from :: 're
  rw_to :: string

record ('re, 'v) selection =
  sel_tags :: 're
  sel_exclude :: "'re list"
  sel_prereleases :: bool
  sel_rewrite :: "'re rewrite list"
  sel_scheme :: "'v scheme"

record candidate =
  ca_name :: string
  ca_commit :: string
  ca_published :: gtime
  ca_prerelease :: bool

record 'v release =
  rel_tag :: string
  rel_version :: 'v
  rel_raw :: string
  rel_commit :: string
  rel_published :: gtime

definition candidates_of :: "string list \<Rightarrow> candidate list" where
  "candidates_of ss =
     map (\<lambda>s. \<lparr>ca_name = s, ca_commit = [], ca_published = zero_time, ca_prerelease = False\<rparr>) ss"

section \<open>Selecting releases\<close>

text \<open>What becomes of one candidate: it is skipped, it cannot be read, or it is a release.\<close>

datatype 'v outcome = Skipped | Unparsed string | Admitted "'v release"

text \<open>The version text: the group named \<open>version\<close>, else the first group, else the whole match,
  then the rewrites in order.\<close>

definition version_text :: "'re regexp_rw \<Rightarrow> ('re, 'v) selection \<Rightarrow> string list \<Rightarrow> string" where
  "version_text R sel m =
     (let raw = (case subexp_index R (sel_tags sel) ''version'' of
                   Some vi \<Rightarrow> m ! vi
                 | None \<Rightarrow> if length m > 1 then m ! 1 else m ! 0)
      in fold (\<lambda>rw raw. re_replace R (rw_from rw) raw (rw_to rw)) (sel_rewrite sel) raw)"

definition admit :: "'re regexp_rw \<Rightarrow> ('re, 'v) selection \<Rightarrow> candidate \<Rightarrow> 'v outcome" where
  "admit R sel cand =
     (case re_submatch R (sel_tags sel) (ca_name cand) of
        None \<Rightarrow> Skipped
      | Some m \<Rightarrow>
          if list_ex (\<lambda>ex. re_submatch R ex (ca_name cand) \<noteq> None) (sel_exclude sel) then Skipped
          else (let raw = version_text R sel m in
            case sc_parse (sel_scheme sel) raw of
              Inl _ \<Rightarrow> Unparsed (ca_name cand)
            | Inr v \<Rightarrow>
                if (sc_prerelease (sel_scheme sel) v \<or> ca_prerelease cand) \<and> \<not> sel_prereleases sel then Skipped
                else Admitted \<lparr>rel_tag = ca_name cand, rel_version = v, rel_raw = raw,
                       rel_commit = ca_commit cand, rel_published = ca_published cand\<rparr>))"

text \<open>Newest first; equal versions rank the longer tag first, then by tag.\<close>

definition ranks_before :: "'v scheme \<Rightarrow> 'v release \<Rightarrow> 'v release \<Rightarrow> bool" where
  "ranks_before sch a b \<longleftrightarrow>
     (let c = sc_compare sch (rel_version a) (rel_version b) in
      if c \<noteq> 0 then c > 0
      else if length (rel_tag a) \<noteq> length (rel_tag b) then length (rel_tag a) > length (rel_tag b)
      else rel_tag a < rel_tag b)"

definition admitted :: "'v outcome list \<Rightarrow> 'v release list" where
  "admitted os = List.map_filter (\<lambda>o'. case o' of Admitted r \<Rightarrow> Some r | _ \<Rightarrow> None) os"

definition unparsed :: "'v outcome list \<Rightarrow> string list" where
  "unparsed os = List.map_filter (\<lambda>o'. case o' of Unparsed t \<Rightarrow> Some t | _ \<Rightarrow> None) os"

definition releases_of ::
    "'re regexp_rw \<Rightarrow> candidate list \<Rightarrow> ('re, 'v) selection \<Rightarrow> 'v release list \<times> string list" where
  "releases_of R cands sel =
     (let os = map (admit R sel) cands
      in (sort_slice (ranks_before (sel_scheme sel)) (admitted os), sort_slice (<) (unparsed os)))"

definition releases :: "'re regexp_rw \<Rightarrow> string list \<Rightarrow> ('re, 'v) selection \<Rightarrow> 'v release list \<times> string list" where
  "releases R tags sel = releases_of R (candidates_of tags) sel"

section \<open>Claims\<close>

definition our_revision :: string where
  "our_revision = ''-r?'' @ [CHR 0x5C] @ ''d+$''"

definition our_version :: "'re regexp_rw \<Rightarrow> 'v scheme \<Rightarrow> string \<Rightarrow> 'v option" where
  "our_version R sch tag =
     (case sc_parse sch (re_replace R (must_compile R our_revision) (trim_prefix tag ''v'') []) of
        Inl _ \<Rightarrow> None
      | Inr v \<Rightarrow> Some v)"

datatype version_mode = Track | Continue | Own

record ('re, 'v) upstream_claim =
  cl_mode :: version_mode
  cl_source :: string  \<comment> \<open>the source, as messages name it\<close>
  cl_select :: "('re, 'v) selection"
  cl_since :: "'v option"
  cl_tag_commits :: "string \<rightharpoonup> string"

abbreviation cl_scheme :: "('re, 'v) upstream_claim \<Rightarrow> 'v scheme" where
  "cl_scheme c \<equiv> sel_scheme (cl_select c)"

definition judged :: "('re, 'v) upstream_claim \<Rightarrow> 'v \<Rightarrow> bool" where
  "judged c v \<longleftrightarrow> (case cl_since c of None \<Rightarrow> True | Some s \<Rightarrow> sc_compare (cl_scheme c) v s \<ge> 0)"

definition find_release :: "'v scheme \<Rightarrow> 'v release list \<Rightarrow> 'v \<Rightarrow> 'v release option" where
  "find_release sch up v = find (\<lambda>rel. sc_same sch (rel_version rel) v) up"

definition released :: "'v scheme \<Rightarrow> 'v release list \<Rightarrow> 'v \<Rightarrow> bool" where
  "released sch up v \<longleftrightarrow> find_release sch up v \<noteq> None"

record 'v upstream_report =
  rp_upstream_newest :: "'v release option"
  rp_ours_newest :: string
  rp_updates_available :: bool
  rp_mismatched :: "string list"

text \<open>Membership in the \<open>inherited\<close> set that the two loops of \<open>Evaluate\<close> fill: our tag names the
  commit that the same tag of upstream's names.\<close>

definition inherited ::
    "('re, 'v) upstream_claim \<Rightarrow> 'v release list \<Rightarrow> (string \<rightharpoonup> string) \<Rightarrow> string \<Rightarrow> bool" where
  "inherited c up our_commits t \<longleftrightarrow>
     list_ex (\<lambda>rel. rel_tag rel = t \<and> rel_commit rel \<noteq> [] \<and> our_commits t = Some (rel_commit rel)) up \<or>
     (case cl_tag_commits c t of
        None \<Rightarrow> False
      | Some commit \<Rightarrow> commit \<noteq> [] \<and> our_commits t = Some commit)"

text \<open>The loop over our tags: our newest version and tag, and the tags whose claim is false.\<close>

fun evaluate_tags ::
    "'re regexp_rw \<Rightarrow> ('re, 'v) upstream_claim \<Rightarrow> 'v release list \<Rightarrow> (string \<rightharpoonup> string) \<Rightarrow> string list
     \<Rightarrow> ('v \<times> string) option \<Rightarrow> string list \<Rightarrow> ('v \<times> string) option \<times> string list" where
  "evaluate_tags R c up oc [] newest mism = (newest, mism)"
| "evaluate_tags R c up oc (t # ts) newest mism =
     (if inherited c up oc t then evaluate_tags R c up oc ts newest mism
      else case our_version R (cl_scheme c) t of
        None \<Rightarrow> evaluate_tags R c up oc ts newest mism
      | Some v \<Rightarrow>
          (let newest' = (case newest of
                            None \<Rightarrow> Some (v, t)
                          | Some (n, _) \<Rightarrow> if sc_compare (cl_scheme c) v n > 0 then Some (v, t) else newest);
               mism' = (if \<not> judged c v \<or> up = [] then mism
                        else if released (cl_scheme c) up v \<noteq> (cl_mode c = Track) then mism @ [t]
                        else mism)
           in evaluate_tags R c up oc ts newest' mism'))"

definition evaluate ::
    "'re regexp_rw \<Rightarrow> ('re, 'v) upstream_claim \<Rightarrow> 'v release list \<Rightarrow> string list \<Rightarrow> (string \<rightharpoonup> string)
     \<Rightarrow> 'v upstream_report" where
  "evaluate R c up ours oc =
     (let un = (case up of [] \<Rightarrow> None | rel # _ \<Rightarrow> Some rel);
          (newest, mism) = evaluate_tags R c up oc ours None []
      in \<lparr>rp_upstream_newest = un,
          rp_ours_newest = (case newest of None \<Rightarrow> [] | Some (_, t) \<Rightarrow> t),
          rp_updates_available =
            (cl_mode c = Track \<and>
             (case un of
                None \<Rightarrow> False
              | Some rel \<Rightarrow>
                  (case newest of None \<Rightarrow> True
                   | Some (n, _) \<Rightarrow> sc_compare (cl_scheme c) (rel_version rel) n > 0))),
          rp_mismatched = sort_slice (<) mism\<rparr>)"

text \<open>Why a release is refused.\<close>

datatype refusal =
    NamesNoVersion string string
  | NeverReleased string string string bool  \<comment> \<open>tag, source, upstream's newest, prerelease hint\<close>
  | AlreadyReleased string string

definition release_verdict ::
    "'re regexp_rw \<Rightarrow> ('re, 'v) upstream_claim \<Rightarrow> 'v release list \<Rightarrow> string \<Rightarrow> refusal option" where
  "release_verdict R c up tag =
     (case our_version R (cl_scheme c) tag of
        None \<Rightarrow> if cl_mode c = Track then Some (NamesNoVersion tag (cl_source c)) else None
      | Some v \<Rightarrow>
          if \<not> judged c v then None
          else (case cl_mode c of
            Track \<Rightarrow>
              if released (cl_scheme c) up v then None
              else Some (NeverReleased tag (cl_source c) (case up of [] \<Rightarrow> ''nothing'' | rel # _ \<Rightarrow> rel_tag rel)
                     (sc_prerelease (cl_scheme c) v \<and> \<not> sel_prereleases (cl_select c)))
          | Continue \<Rightarrow>
              if released (cl_scheme c) up v then Some (AlreadyReleased tag (cl_source c)) else None
          | Own \<Rightarrow> None))"

section \<open>Orders of releases\<close>

lemma version_order_swap: "version_order cmp \<Longrightarrow> version_order (\<lambda>a b. cmp b a)"
  unfolding version_order_def by blast

definition rank :: "'v scheme \<Rightarrow> 'v release \<Rightarrow> 'v release \<Rightarrow> int" where
  "rank sch a b =
     (if sc_compare sch (rel_version b) (rel_version a) \<noteq> 0
      then sc_compare sch (rel_version b) (rel_version a)
      else if cmp_int (int (length (rel_tag b))) (int (length (rel_tag a))) \<noteq> 0
      then cmp_int (int (length (rel_tag b))) (int (length (rel_tag a)))
      else cmp_string (rel_tag a) (rel_tag b))"

text \<open>The contract of a scheme whose comparison is an order, and what a release list gains by it.\<close>

locale ordered_scheme =
  fixes sch :: "'v scheme"
  assumes compare_order: "version_order (sc_compare sch)"
begin

lemma rank_order: "version_order (rank sch)"
  unfolding rank_def
  by (intro version_order_lex version_order_key [OF version_order_swap [OF compare_order]]
      version_order_key [OF version_order_swap [OF int_order.version_order_axioms], where k = "\<lambda>a. int (length (rel_tag a))"]
      version_order_key [OF string_order.version_order_axioms])

lemma ranks_before_rank: "ranks_before sch a b \<longleftrightarrow> rank sch a b < 0"
  using version_order.cmp_flip [OF compare_order, of "rel_version a" "rel_version b"]
  by (auto simp: ranks_before_def rank_def Let_def cmp_int_def cmp_string_def)

lemma ranks_comparator: "comparator (ranks_before sch)"
  using version_order.cmp_comparator [OF rank_order] by (simp add: ranks_before_rank [abs_def])

lemma compare_refl [simp]: "sc_compare sch a a = 0"
  by (rule version_order.cmp_refl [OF compare_order])

lemma compare_flip: "sc_compare sch b a = - sc_compare sch a b"
  by (rule version_order.cmp_flip [OF compare_order])

lemma compare_trans: "sc_compare sch b a \<ge> 0 \<Longrightarrow> sc_compare sch c b \<ge> 0 \<Longrightarrow> sc_compare sch c a \<ge> 0"
  using version_order.cmp_trans [OF compare_order, of a b c] compare_flip [of b a] compare_flip [of c b]
    compare_flip [of c a] by simp

lemma greater_trans: "sc_compare sch c b \<ge> 0 \<Longrightarrow> sc_compare sch b a > 0 \<Longrightarrow> sc_compare sch c a > 0"
  using version_order.cmp_less_trans [OF compare_order, of a b c] compare_flip [of b a] compare_flip [of c b]
    compare_flip [of c a] by simp

lemma greater_trans': "sc_compare sch c b > 0 \<Longrightarrow> sc_compare sch b a \<ge> 0 \<Longrightarrow> sc_compare sch c a > 0"
  using greater_trans [of c b a] compare_flip [of b a] version_order.cmp_equal_left [OF compare_order, of b a c]
    compare_flip [of c b] compare_flip [of c a] by fastforce

lemma sorted_releases:
  "sorted_wrt (\<lambda>a b. sc_compare sch (rel_version a) (rel_version b) > 0 \<or>
      sc_compare sch (rel_version a) (rel_version b) = 0 \<and> length (rel_tag b) \<le> length (rel_tag a))
     (sort_slice (ranks_before sch) rs)"
proof -
  have "sorted_wrt (\<lambda>a b. \<not> ranks_before sch b a) (sort_slice (ranks_before sch) rs)"
    by (rule comparator.ordered_sort_slice [OF ranks_comparator])
  then show ?thesis
  proof (rule sorted_wrt_mono_rel [rotated])
    fix a b :: "'v release"
    assume "\<not> ranks_before sch b a"
    then show "sc_compare sch (rel_version a) (rel_version b) > 0 \<or>
        sc_compare sch (rel_version a) (rel_version b) = 0 \<and> length (rel_tag b) \<le> length (rel_tag a)"
      using compare_flip [of "rel_version b" "rel_version a"]
      by (auto simp: ranks_before_def Let_def split: if_splits)
  qed
qed

end

interpretation pep440_ordered: ordered_scheme "pep440_scheme R re"
  by (rule ordered_scheme.intro) (simp add: pep440_scheme_def pep440_order.version_order_axioms)

section \<open>What the loops compute\<close>

lemma set_admitted: "r \<in> set (admitted os) \<longleftrightarrow> Admitted r \<in> set os"
  by (induction os) (auto simp: admitted_def map_filter_simps split: outcome.splits option.splits)

lemma set_unparsed: "t \<in> set (unparsed os) \<longleftrightarrow> Unparsed t \<in> set os"
  by (induction os) (auto simp: unparsed_def map_filter_simps split: outcome.splits option.splits)

text \<open>A tag of ours counts when upstream did not publish it and it names a version.\<close>

definition our_claim ::
    "'re regexp_rw \<Rightarrow> ('re, 'v) upstream_claim \<Rightarrow> 'v release list \<Rightarrow> (string \<rightharpoonup> string) \<Rightarrow> string \<Rightarrow> 'v option" where
  "our_claim R c up oc t = (if inherited c up oc t then None else our_version R (cl_scheme c) t)"

lemma evaluate_mismatched:
  "t \<in> set (snd (evaluate_tags R c up oc ts newest mism)) \<longleftrightarrow>
     t \<in> set mism \<or> t \<in> set ts \<and> up \<noteq> [] \<and>
       (\<exists>v. our_claim R c up oc t = Some v \<and> judged c v \<and> released (cl_scheme c) up v \<noteq> (cl_mode c = Track))"
  by (induction R c up oc ts newest mism rule: evaluate_tags.induct)
    (auto simp: our_claim_def Let_def split: option.splits if_splits)

definition newest_ok :: "'v scheme \<Rightarrow> ('v \<times> string) option \<Rightarrow> ('v \<times> string) set \<Rightarrow> bool" where
  "newest_ok sch newest S \<longleftrightarrow>
     (case newest of None \<Rightarrow> S = {} | Some nt \<Rightarrow> nt \<in> S \<and> (\<forall>(v, t) \<in> S. sc_compare sch (fst nt) v \<ge> 0))"

lemma newest_ok_step:
  assumes "ordered_scheme sch" "newest_ok sch newest S"
  shows "newest_ok sch
     (case newest of None \<Rightarrow> Some (v, t) | Some (n, _) \<Rightarrow> if sc_compare sch v n > 0 then Some (v, t) else newest)
     (insert (v, t) S)"
proof (cases newest)
  case None
  with assms show ?thesis by (simp add: newest_ok_def ordered_scheme.compare_refl)
next
  case (Some nt)
  then obtain n t' where nt: "newest = Some (n, t')" by (cases nt) auto
  with assms(2) have S: "(n, t') \<in> S" "\<And>w u. (w, u) \<in> S \<Longrightarrow> sc_compare sch n w \<ge> 0" by (auto simp: newest_ok_def)
  show ?thesis
  proof (cases "sc_compare sch v n > 0")
    case True
    have "sc_compare sch v w \<ge> 0" if "(w, u) \<in> S" for w u
      using ordered_scheme.compare_trans [OF assms(1) S(2) [OF that]] True by simp
    with True nt show ?thesis by (auto simp: newest_ok_def ordered_scheme.compare_refl [OF assms(1)])
  next
    case False
    then show ?thesis using S nt ordered_scheme.compare_flip [OF assms(1), of v n] by (auto simp: newest_ok_def)
  qed
qed

lemma evaluate_newest:
  assumes "ordered_scheme (cl_scheme c)"
  shows "newest_ok (cl_scheme c) newest S \<Longrightarrow>
    newest_ok (cl_scheme c) (fst (evaluate_tags R c up oc ts newest mism))
      (S \<union> {(v, t). t \<in> set ts \<and> our_claim R c up oc t = Some v})"
proof (induction ts arbitrary: newest S mism)
  case Nil
  then show ?case by simp
next
  case (Cons t ts)
  show ?case
  proof (cases "our_claim R c up oc t")
    case None
    then have "evaluate_tags R c up oc (t # ts) newest mism = evaluate_tags R c up oc ts newest mism"
      by (auto simp: our_claim_def split: if_splits)
    moreover have "{(v, u). u \<in> set (t # ts) \<and> our_claim R c up oc u = Some v} =
        {(v, u). u \<in> set ts \<and> our_claim R c up oc u = Some v}" using None by auto
    ultimately show ?thesis using Cons.IH [OF Cons.prems] by simp
  next
    case (Some v)
    then have v: "\<not> inherited c up oc t" "our_version R (cl_scheme c) t = Some v"
      by (auto simp: our_claim_def split: if_splits)
    have "S \<union> {(w, u). u \<in> set (t # ts) \<and> our_claim R c up oc u = Some w} =
        insert (v, t) S \<union> {(w, u). u \<in> set ts \<and> our_claim R c up oc u = Some w}" using Some by auto
    then show ?thesis
      using Cons.IH [OF newest_ok_step [OF assms Cons.prems, of v t]] by (simp add: v Let_def)
  qed
qed

lemma releases_ranked_raw:
  assumes "version_order (sc_compare (sel_scheme sel))" "releases_of R cands sel = (rs, bad)"
  shows "set rs = {r. \<exists>cand \<in> set cands. admit R sel cand = Admitted r} \<and>
     set bad = {t. \<exists>cand \<in> set cands. admit R sel cand = Unparsed t} \<and>
     sorted_wrt (\<lambda>a b. sc_compare (sel_scheme sel) (rel_version a) (rel_version b) > 0 \<or>
        sc_compare (sel_scheme sel) (rel_version a) (rel_version b) = 0 \<and>
        length (rel_tag b) \<le> length (rel_tag a)) rs"
proof -
  have rs: "rs = sort_slice (ranks_before (sel_scheme sel)) (admitted (map (admit R sel) cands))"
    and bad: "bad = sort_slice (<) (unparsed (map (admit R sel) cands))"
    using assms(2) by (simp_all add: releases_of_def Let_def)
  have "set rs = {r. \<exists>cand \<in> set cands. admit R sel cand = Admitted r}"
    "set bad = {t. \<exists>cand \<in> set cands. admit R sel cand = Unparsed t}"
    by (auto simp: rs bad set_admitted set_unparsed image_iff) (metis+)?
  then show ?thesis
    using ordered_scheme.sorted_releases [OF ordered_scheme.intro [OF assms(1)]] by (simp add: rs)
qed


lemma updates_newest:
  assumes sch: "ordered_scheme (cl_scheme c)" and "cl_mode c = Track"
    and ev: "evaluate_tags R c up oc ours None [] = (n, m)" and n: "newest_ok (cl_scheme c) n S"
    and sorted: "sorted_wrt (\<lambda>a b. sc_compare (cl_scheme c) (rel_version a) (rel_version b) > 0 \<or>
        sc_compare (cl_scheme c) (rel_version a) (rel_version b) = 0 \<and> length (rel_tag b) \<le> length (rel_tag a)) up"
  shows "rp_updates_available (evaluate R c up ours oc) \<longleftrightarrow>
      (\<exists>r \<in> set up. \<forall>(v, t) \<in> S. sc_compare (cl_scheme c) (rel_version r) v > 0)"
proof (cases up)
  case Nil
  with ev show ?thesis by (simp add: evaluate_def Let_def)
next
  case (Cons h rest)
  have head: "sc_compare (cl_scheme c) (rel_version h) (rel_version r) \<ge> 0" if "r \<in> set up" for r
    using that sorted ordered_scheme.compare_refl [OF sch] by (auto simp: Cons)
  have all: "(\<exists>r \<in> set up. \<forall>(v, t) \<in> S. sc_compare (cl_scheme c) (rel_version r) v > 0) \<longleftrightarrow>
      (\<forall>(v, t) \<in> S. sc_compare (cl_scheme c) (rel_version h) v > 0)"
    using ordered_scheme.greater_trans [OF sch head] by (force simp: Cons)
  have "rp_updates_available (evaluate R c up ours oc) \<longleftrightarrow>
      (case n of None \<Rightarrow> True | Some (n, _) \<Rightarrow> sc_compare (cl_scheme c) (rel_version h) n > 0)"
    using ev by (simp add: evaluate_def Let_def Cons assms(2))
  also have "\<dots> \<longleftrightarrow> (\<forall>(v, t) \<in> S. sc_compare (cl_scheme c) (rel_version h) v > 0)"
    using n ordered_scheme.greater_trans' [OF sch] by (fastforce simp: newest_ok_def split: option.splits)
  finally show ?thesis by (simp add: all)
qed

section \<open>What the watcher and the gate decide\<close>

text \<open>What a selection asks of a candidate, said apart from the loop: its name matches the pattern and no
  exclude; its version text is the group named \<^verbatim>\<open>version\<close>, else the first group, else the whole match, after
  the rewrites one by one; the scheme reads it; and it is no prerelease, neither by its version nor by
  upstream's own mark, unless the selection takes them.\<close>

definition eligible :: "'re regexp_rw \<Rightarrow> ('re, 'v) selection \<Rightarrow> candidate \<Rightarrow> bool" where
  "eligible R sel cand \<longleftrightarrow> re_submatch R (sel_tags sel) (ca_name cand) \<noteq> None \<and>
     filter (\<lambda>ex. re_submatch R ex (ca_name cand) \<noteq> None) (sel_exclude sel) = []"

fun rewritten :: "'re regexp_rw \<Rightarrow> 're rewrite list \<Rightarrow> string \<Rightarrow> string" where
  "rewritten R [] t = t"
| "rewritten R (rw # rws) t = rewritten R rws (re_replace R (rw_from rw) t (rw_to rw))"

definition named_version :: "'re regexp_rw \<Rightarrow> ('re, 'v) selection \<Rightarrow> candidate \<Rightarrow> string" where
  "named_version R sel cand =
     (let m = the (re_submatch R (sel_tags sel) (ca_name cand));
          group = (case subexp_index R (sel_tags sel) ''version'' of Some vi \<Rightarrow> vi | None \<Rightarrow> min 1 (length m - 1))
      in rewritten R (sel_rewrite sel) (m ! group))"

definition marked_prerelease :: "('re, 'v) selection \<Rightarrow> 'v \<Rightarrow> candidate \<Rightarrow> bool" where
  "marked_prerelease sel v cand \<longleftrightarrow> sc_prerelease (sel_scheme sel) v \<or> ca_prerelease cand"

definition wanted_release :: "'re regexp_rw \<Rightarrow> ('re, 'v) selection \<Rightarrow> candidate \<Rightarrow> 'v release option" where
  "wanted_release R sel cand =
     (if eligible R sel cand then
        (case sc_parse (sel_scheme sel) (named_version R sel cand) of
           Inl _ \<Rightarrow> None
         | Inr v \<Rightarrow>
             if sel_prereleases sel \<or> \<not> marked_prerelease sel v cand then
               Some \<lparr>rel_tag = ca_name cand, rel_version = v, rel_raw = named_version R sel cand,
                 rel_commit = ca_commit cand, rel_published = ca_published cand\<rparr>
             else None)
      else None)"

definition unreadable :: "'re regexp_rw \<Rightarrow> ('re, 'v) selection \<Rightarrow> candidate \<Rightarrow> bool" where
  "unreadable R sel cand \<longleftrightarrow> eligible R sel cand \<and> (\<exists>e. sc_parse (sel_scheme sel) (named_version R sel cand) = Inl e)"

lemma rewritten_fold: "fold (\<lambda>rw raw. re_replace R (rw_from rw) raw (rw_to rw)) rws t = rewritten R rws t"
  by (induction rws arbitrary: t) simp_all

lemma admit_wanted:
  "admit R sel cand =
     (case wanted_release R sel cand of
        Some r \<Rightarrow> Admitted r
      | None \<Rightarrow> if unreadable R sel cand then Unparsed (ca_name cand) else Skipped)"
proof (cases "re_submatch R (sel_tags sel) (ca_name cand)")
  case None
  then show ?thesis by (simp add: admit_def wanted_release_def unreadable_def eligible_def)
next
  case (Some m)
  have "(if length m > 1 then m ! 1 else m ! 0) = m ! min 1 (length m - 1)" by (auto simp: min_def)
  then have raw: "version_text R sel m = named_version R sel cand"
    using Some by (simp add: version_text_def named_version_def rewritten_fold Let_def split: option.split)
  show ?thesis
    using Some by (simp add: admit_def wanted_release_def unreadable_def eligible_def raw marked_prerelease_def Let_def
        list_ex_iff filter_empty_conv split: sum.split)
qed

lemma admitted_wanted: "admitted (map (admit R sel) cands) = List.map_filter (wanted_release R sel) cands"
  by (induction cands) (auto simp: admitted_def map_filter_simps admit_wanted split: option.splits)

lemma unparsed_unreadable: "unparsed (map (admit R sel) cands) = map ca_name (filter (unreadable R sel) cands)"
  by (induction cands)
    (auto simp: unparsed_def map_filter_simps admit_wanted wanted_release_def unreadable_def split: option.splits if_splits)

lemma map_filter_map: "List.map_filter f xs = map the (filter (\<lambda>r. r \<noteq> None) (map f xs))"
  by (induction xs) (auto simp: map_filter_simps split: option.split)

lemma wanted_tag: "wanted_release R sel cand = Some r \<Longrightarrow> rel_tag r = ca_name cand"
  by (auto simp: wanted_release_def split: if_splits sum.splits)

lemma releases_any_order:
  assumes "version_order (sc_compare (sel_scheme sel))" "distinct (map ca_name cands)" "mset cands' = mset cands"
  shows "releases_of R cands' sel = releases_of R cands sel"
proof -
  note ranks = ordered_scheme.ranks_comparator [OF ordered_scheme.intro [OF assms(1)]]
  let ?w = "List.map_filter (wanted_release R sel)"
  have "mset (?w cands') = mset (?w cands)"
    using assms(3) by (simp add: map_filter_map mset_map mset_filter del: filter_map)
  moreover have "a = b" if r: "a \<in> set (?w cands')" "b \<in> set (?w cands')"
    "\<not> ranks_before (sel_scheme sel) a b" "\<not> ranks_before (sel_scheme sel) b a" for a b
  proof -
    obtain x y where x: "x \<in> set cands'" "wanted_release R sel x = Some a" and y: "y \<in> set cands'" "wanted_release R sel y = Some b"
      using r(1,2) by (auto simp: List.map_filter_def)
    have "rel_tag a = rel_tag b"
      using r(3,4) ordered_scheme.compare_flip [OF ordered_scheme.intro [OF assms(1)], of "rel_version b" "rel_version a"]
      by (auto simp: ranks_before_def Let_def split: if_splits)
    then have "ca_name x = ca_name y" using wanted_tag x(2) y(2) by metis
    moreover have "set cands' = set cands" using assms(3) by (metis set_mset_mset)
    ultimately have "x = y" using assms(2) x(1) y(1) by (auto simp: distinct_map inj_on_def)
    then show ?thesis using x(2) y(2) by simp
  qed
  ultimately have 1: "sort_slice (ranks_before (sel_scheme sel)) (?w cands') = sort_slice (ranks_before (sel_scheme sel)) (?w cands)"
    by (rule comparator.sort_slice_unique [OF ranks])
  have "mset (map ca_name (filter (unreadable R sel) cands')) = mset (map ca_name (filter (unreadable R sel) cands))"
    using assms(3) by (simp add: mset_map mset_filter)
  then have "sort_strings (map ca_name (filter (unreadable R sel) cands')) = sort_strings (map ca_name (filter (unreadable R sel) cands))"
    by (rule sort_strings_perm)
  with 1 show ?thesis by (simp add: releases_of_def admitted_wanted unparsed_unreadable Let_def)
qed

text \<open>C22: With a scheme that orders its versions, the release list holds, once per candidate, exactly the
  releases the selection wants - a name that matches and is not excluded, a version that can be read, and no
  prerelease, by its version or by upstream's mark, unless prereleases are taken - each before the older
  ones and, of equal versions, the more precise tag first. The tags whose version cannot be read are
  reported, and the order in which upstream lists its tags plays no part where their names differ.\<close>

theorem releases_ranked:
  assumes "version_order (sc_compare (sel_scheme sel))" "releases_of R cands sel = (rs, bad)"
    and "distinct (map ca_name cands)" "mset cands' = mset cands"
  shows "mset rs = mset (map the (filter (\<lambda>r. r \<noteq> None) (map (wanted_release R sel) cands))) \<and>
     bad = sort_strings (map ca_name (filter (unreadable R sel) cands)) \<and>
     sorted_wrt (\<lambda>a b. sc_compare (sel_scheme sel) (rel_version a) (rel_version b) > 0 \<or>
        sc_compare (sel_scheme sel) (rel_version a) (rel_version b) = 0 \<and>
        length (rel_tag b) \<le> length (rel_tag a)) rs \<and>
     releases_of R cands' sel = (rs, bad)"
proof -
  have rs: "rs = sort_slice (ranks_before (sel_scheme sel)) (List.map_filter (wanted_release R sel) cands)"
    and bad: "bad = sort_strings (map ca_name (filter (unreadable R sel) cands))"
    using assms(2) by (simp_all add: releases_of_def Let_def admitted_wanted unparsed_unreadable)
  have "mset rs = mset (map the (filter (\<lambda>r. r \<noteq> None) (map (wanted_release R sel) cands)))"
    by (simp add: rs map_filter_map)
  moreover have "releases_of R cands' sel = (rs, bad)"
    using releases_any_order [OF assms(1,3,4)] by (simp add: assms(2))
  ultimately show ?thesis using releases_ranked_raw [OF assms(1,2)] bad by blast
qed

text \<open>C23: Under \<open>track\<close>, the watcher reports an update exactly when some release that the selection
  admits is newer than every version our own tags name (upstream's tags mirrored into our
  repository do not count, nor do tags that name no version).\<close>

theorem update_reported_iff:
  assumes "version_order (sc_compare (cl_scheme c))" "cl_mode c = Track"
  shows "rp_updates_available (evaluate R c (fst (releases_of R cands (cl_select c))) ours oc) \<longleftrightarrow>
     (\<exists>cand \<in> set cands. \<exists>r. admit R (cl_select c) cand = Admitted r \<and>
        (\<forall>t \<in> set ours. \<forall>v. our_claim R c (fst (releases_of R cands (cl_select c))) oc t = Some v \<longrightarrow>
           sc_compare (cl_scheme c) (rel_version r) v > 0))"
proof -
  note sch = ordered_scheme.intro [OF assms(1)]
  obtain up bad where up: "releases_of R cands (cl_select c) = (up, bad)" by (cases "releases_of R cands (cl_select c)")
  note ranked = releases_ranked_raw [OF assms(1) up]
  let ?S = "{(v, t). t \<in> set ours \<and> our_claim R c up oc t = Some v}"
  obtain n m where ev: "evaluate_tags R c up oc ours None [] = (n, m)" by (cases "evaluate_tags R c up oc ours None []")
  have n: "newest_ok (cl_scheme c) n ?S"
    using evaluate_newest [OF sch, of None "{}" R up oc ours "[]"] ev by (simp add: newest_ok_def)
  have "rp_updates_available (evaluate R c up ours oc) \<longleftrightarrow>
      (\<exists>r \<in> set up. \<forall>(v, t) \<in> ?S. sc_compare (cl_scheme c) (rel_version r) v > 0)"
    by (rule updates_newest [OF sch assms(2) ev n]) (use ranked in blast)
  moreover have "set up = {r. \<exists>cand \<in> set cands. admit R (cl_select c) cand = Admitted r}" using ranked by blast
  ultimately show ?thesis by (simp add: up) blast
qed

text \<open>C24: The watcher and the gate agree where both judge: under \<open>track\<close> and \<open>continue\<close>, and while upstream's
  releases could be listed, a tag of ours that names a version and is not upstream's own is reported as a
  false claim exactly when the gate refuses to ship it. The watcher reports no other tag of ours: none
  while the listing is empty, none that names no version (which the gate refuses under \<open>track\<close>), none of
  upstream's own. Under \<open>own\<close> the gate refuses nothing, and the watcher would report the tags whose
  version upstream released.\<close>

theorem mismatch_iff_refused:
  "t \<in> set (rp_mismatched (evaluate R c up ours oc)) \<longleftrightarrow>
     t \<in> set ours \<and> up \<noteq> [] \<and> \<not> inherited c up oc t \<and>
     (case our_version R (cl_scheme c) t of
        None \<Rightarrow> False
      | Some v \<Rightarrow>
          if cl_mode c = Own then judged c v \<and> released (cl_scheme c) up v
          else release_verdict R c up t \<noteq> None)"
proof -
  have "t \<in> set (rp_mismatched (evaluate R c up ours oc)) \<longleftrightarrow> t \<in> set ours \<and> up \<noteq> [] \<and>
      (\<exists>v. our_claim R c up oc t = Some v \<and> judged c v \<and> released (cl_scheme c) up v \<noteq> (cl_mode c = Track))"
    using evaluate_mismatched [of t R c up oc ours None "[]"]
    by (cases "evaluate_tags R c up oc ours None []") (simp add: evaluate_def Let_def)
  moreover have "judged c v \<and> released (cl_scheme c) up v \<noteq> (cl_mode c = Track) \<longleftrightarrow> release_verdict R c up t \<noteq> None"
    if "our_version R (cl_scheme c) t = Some v" "cl_mode c \<noteq> Own" for v
    using that by (cases "cl_mode c") (auto simp: release_verdict_def)
  ultimately show ?thesis
    by (cases "our_version R (cl_scheme c) t"; cases "cl_mode c = Own") (auto simp: our_claim_def)
qed

section \<open>Packaging revisions and epochs\<close>

text \<open>C29: A Debian upstream with a packaging revision never looks followed: our tag that names its
  newest release passes the gate as that release, and the watcher still reports an update, since
  it compares the versions with their packaging revision.\<close>

theorem debian_update_never_clears:
  assumes "cl_scheme c = debian_scheme" "cl_mode c = Track" "up = rel # rest"
    "our_claim R c up oc t = Some w" "dv_epoch w = dv_epoch (rel_version rel)"
    "dv_upstream w = dv_upstream (rel_version rel)" "dv_revision w = []"
    "verrevcmp (dv_revision (rel_version rel)) [] > 0" "nul_free (dv_upstream w)"
  shows "release_verdict R c up t = None \<and> rp_updates_available (evaluate R c up [t] oc)"
proof -
  have t: "\<not> inherited c up oc t" "our_version R debian_scheme t = Some w"
    using assms(1,4) by (auto simp: our_claim_def split: if_splits)
  have same: "verrevcmp (dv_upstream (rel_version rel)) (dv_upstream (rel_version rel)) = 0"
    using assms(9) verrevcmp_key [of "dv_upstream w" "dv_upstream w"] by (simp add: assms(6))
  have claims: "debian_claims (rel_version rel) w" using assms(5-7) same by (simp add: debian_claims_def)
  have newer: "debian_compare (rel_version rel) w > 0"
    using assms(5-8) same by (simp add: debian_compare_def cmp_int_def)
  have "released debian_scheme up w"
    using claims by (simp add: released_def find_release_def assms(3) debian_scheme_def)
  then have "release_verdict R c up t = None" by (simp add: release_verdict_def t assms(1,2))
  moreover have "rp_updates_available (evaluate R c up [t] oc)"
    using newer t by (simp add: evaluate_def t assms(1-3) Let_def) (simp add: debian_scheme_def)
  ultimately show ?thesis by blast
qed

text \<open>Nor can a Debian upstream with an epoch be claimed at all: the tag made of the name the
  program itself gives its release (\<open>ReleaseName\<close>, without the epoch) is refused by the gate.\<close>

theorem debian_epoch_refused:
  assumes "cl_scheme c = debian_scheme" "cl_mode c = Track" "judged c w"
    "our_version R debian_scheme (CHR ''v'' # sc_release_name debian_scheme v raw) = Some w"
    "dv_epoch w = 0" "\<forall>rel \<in> set up. dv_epoch (rel_version rel) \<noteq> 0"
  shows "\<exists>why. release_verdict R c up (CHR ''v'' # sc_release_name debian_scheme v raw) = Some why"
proof -
  have "\<not> debian_claims u w" if "dv_epoch u \<noteq> 0" for u
    using that assms(5) by (auto simp: debian_claims_def debian_compare_def cmp_int_def)
  then have "\<not> released debian_scheme up w"
    using assms(6) by (auto simp: released_def find_release_def debian_scheme_def find_None_iff)
  then show ?thesis using assms(1-4) by (simp add: release_verdict_def)
qed

section \<open>A listing\<close>

text \<open>The tags of a Python project and of a Debian package, with the program's own patterns.\<close>

definition demo_rx :: "string \<Rightarrow> rx \<times> string list" where
  "demo_rx p = must_compile go_regexp_rw p"

definition demo_debian :: "(rx \<times> string list, debian_version) upstream_claim" where
  "demo_debian = \<lparr>cl_mode = Track, cl_source = ''tool'',
     cl_select = \<lparr>sel_tags = demo_rx ''^.+$'', sel_exclude = [], sel_prereleases = False, sel_rewrite = [],
        sel_scheme = debian_scheme\<rparr>,
     cl_since = None, cl_tag_commits = Map.empty\<rparr>"

definition demo_release :: "string \<Rightarrow> int \<Rightarrow> string \<Rightarrow> string \<Rightarrow> debian_version release" where
  "demo_release tag epoch up rv =
     \<lparr>rel_tag = tag, rel_version = \<lparr>dv_text = tag, dv_epoch = epoch, dv_upstream = up, dv_revision = rv\<rparr>,
      rel_raw = tag, rel_commit = [], rel_published = zero_time\<rparr>"

lemma demo_release_version:
  "rel_version (demo_release tag e up rv) = \<lparr>dv_text = tag, dv_epoch = e, dv_upstream = up, dv_revision = rv\<rparr>"
  by (simp add: demo_release_def)

lemma demo_our_version:
  "our_version go_regexp_rw debian_scheme ''v2.8.1'' =
     Some \<lparr>dv_text = ''2.8.1'', dv_epoch = 0, dv_upstream = ''2.8.1'', dv_revision = []\<rparr>"
  by code_simp

lemma demo_listing:
  "fst (releases_of go_regexp_rw (candidates_of [''1:2.8.0-1'', ''1:2.8.1-1'', ''x'', ''2.9~rc1''])
     (cl_select demo_debian)) = [demo_release ''1:2.8.1-1'' 1 ''2.8.1'' ''1'', demo_release ''1:2.8.0-1'' 1 ''2.8.0'' ''1'']"
  by code_simp

text \<open>The PEP 440 pattern, for text in lower case (the engine has no flags).\<close>

definition pep440_pattern :: string where
  "pep440_pattern =
     (let d = CHR 0x5C # ''d''; dot = CHR 0x5C # ''.'' in
      ''^v?(?:('' @ d @ ''+)!)?('' @ d @ ''+(?:'' @ dot @ d @ ''+)*)'' @
      ''(?:[-_.]?(alpha|a|beta|b|preview|pre|c|rc)[-_.]?('' @ d @ ''+)?)?'' @
      ''(?:-('' @ d @ ''+)|[-_.]?(post|rev|r)[-_.]?('' @ d @ ''+)?)?'' @
      ''(?:[-_.]?(dev)[-_.]?('' @ d @ ''+)?)?(?:'' @ CHR 0x5C # ''+([a-z0-9]+(?:[-_.][a-z0-9]+)*))?$'')"

definition demo_python :: "(rx \<times> string list, pep440_version) upstream_claim" where
  "demo_python = \<lparr>cl_mode = Track, cl_source = ''tool'',
     cl_select = \<lparr>sel_tags = demo_rx ''^v(?P<version>.+)$'', sel_exclude = [demo_rx ''old''], sel_prereleases = False,
        sel_rewrite = [], sel_scheme = pep440_scheme go_regexp (demo_rx pep440_pattern)\<rparr>,
     cl_since = None, cl_tag_commits = Map.empty\<rparr>"

definition demo_tags :: "candidate list" where
  "demo_tags = candidates_of [''v2.1'', ''v2.3rc1'', ''v2.2'', ''v2.2.0'', ''v9old'', ''vx'', ''y'']"

definition demo_python_releases :: "pep440_version release list" where
  "demo_python_releases =
     map (\<lambda>(t, ns). \<lparr>rel_tag = CHR ''v'' # t, rel_version = (pv ns None None)\<lparr>pv_text := t\<rparr>, rel_raw = t,
             rel_commit = [], rel_published = zero_time\<rparr>)
       [(''2.2.0'', [2, 2, 0]), (''2.2'', [2, 2]), (''2.1'', [2, 1])]"

lemma demo_python_listing:
  "releases_of go_regexp_rw demo_tags (cl_select demo_python) = (demo_python_releases, [''vx''])"
  by code_simp

lemma demo_python_order: "version_order (sc_compare (cl_scheme demo_python))"
  using ordered_scheme.compare_order [OF pep440_ordered.ordered_scheme_axioms] by (simp add: demo_python_def)

theorem releases_ranked_witness:
  "mset demo_python_releases =
     mset (map the (filter (\<lambda>r. r \<noteq> None) (map (wanted_release go_regexp_rw (cl_select demo_python)) demo_tags))) \<and>
   releases_of go_regexp_rw (rev demo_tags) (cl_select demo_python) = (demo_python_releases, [''vx''])"
proof -
  have "distinct (map ca_name demo_tags)" by code_simp
  from releases_ranked [OF demo_python_order demo_python_listing this, of "rev demo_tags"] show ?thesis by simp
qed

theorem update_reported_iff_witness:
  "rp_updates_available (evaluate go_regexp_rw demo_python demo_python_releases [''v2.1.0-2'', ''none''] Map.empty) \<and>
   (\<exists>cand \<in> set demo_tags. \<exists>r. admit go_regexp_rw (cl_select demo_python) cand = Admitted r \<and>
      (\<forall>t \<in> set [''v2.1.0-2'', ''none'']. \<forall>v. our_claim go_regexp_rw demo_python demo_python_releases Map.empty t = Some v \<longrightarrow>
         sc_compare (cl_scheme demo_python) (rel_version r) v > 0))"
proof -
  have "rp_updates_available (evaluate go_regexp_rw demo_python demo_python_releases [''v2.1.0-2'', ''none''] Map.empty)"
    by code_simp
  moreover have "cl_mode demo_python = Track" by (simp add: demo_python_def)
  ultimately show ?thesis
    using update_reported_iff [OF demo_python_order, where R = go_regexp_rw and cands = demo_tags
        and ours = "[''v2.1.0-2'', ''none'']" and oc = Map.empty]
    by (simp only: demo_python_listing fst_conv simp_thms)
qed

theorem mismatch_iff_refused_witness:
  "''v2.1.7'' \<in> set (rp_mismatched (evaluate go_regexp_rw demo_python demo_python_releases [''v2.1.7''] Map.empty)) \<and>
   release_verdict go_regexp_rw demo_python demo_python_releases ''v2.1.7'' \<noteq> None"
proof -
  have "\<not> inherited demo_python demo_python_releases Map.empty ''v2.1.7''"
    "our_version go_regexp_rw (cl_scheme demo_python) ''v2.1.7'' \<noteq> None"
    "release_verdict go_regexp_rw demo_python demo_python_releases ''v2.1.7'' \<noteq> None" by code_simp+
  moreover have "demo_python_releases \<noteq> []" "cl_mode demo_python \<noteq> Own"
    by (simp_all add: demo_python_releases_def demo_python_def)
  ultimately show ?thesis
    using mismatch_iff_refused [of "''v2.1.7''" go_regexp_rw demo_python demo_python_releases "[''v2.1.7'']" Map.empty]
    by auto
qed

theorem debian_update_never_clears_witness:
  "release_verdict go_regexp_rw demo_debian [demo_release ''2.8.1-1'' 0 ''2.8.1'' ''1''] ''v2.8.1'' = None \<and>
   rp_updates_available
     (evaluate go_regexp_rw demo_debian [demo_release ''2.8.1-1'' 0 ''2.8.1'' ''1''] [''v2.8.1''] Map.empty)"
proof -
  have "our_claim go_regexp_rw demo_debian [demo_release ''2.8.1-1'' 0 ''2.8.1'' ''1''] Map.empty ''v2.8.1'' =
      Some \<lparr>dv_text = ''2.8.1'', dv_epoch = 0, dv_upstream = ''2.8.1'', dv_revision = []\<rparr>" by code_simp
  moreover have "verrevcmp ''1'' [] > 0" by code_simp
  moreover have "cl_scheme demo_debian = debian_scheme" "cl_mode demo_debian = Track"
    by (simp_all add: demo_debian_def)
  ultimately show ?thesis
    using debian_update_never_clears [OF _ _ refl, where c = demo_debian and w = "\<lparr>dv_text = ''2.8.1'', dv_epoch = 0, dv_upstream = ''2.8.1'', dv_revision = []\<rparr>"
        and rel = "demo_release ''2.8.1-1'' 0 ''2.8.1'' ''1''"]
    by (simp add: demo_release_version nul_free_def)
qed

theorem debian_epoch_refused_witness:
  "\<exists>why. release_verdict go_regexp_rw demo_debian
     (fst (releases_of go_regexp_rw (candidates_of [''1:2.8.0-1'', ''1:2.8.1-1'', ''x'', ''2.9~rc1'']) (cl_select demo_debian)))
     (CHR ''v'' # sc_release_name debian_scheme (rel_version (demo_release ''1:2.8.1-1'' 1 ''2.8.1'' ''1'')) ''1:2.8.1-1'') = Some why"
proof -
  have "sc_release_name debian_scheme (rel_version (demo_release ''1:2.8.1-1'' 1 ''2.8.1'' ''1'')) ''1:2.8.1-1'' = ''2.8.1''"
    by (simp add: debian_scheme_def debian_release_name_def demo_release_version)
  moreover have "cl_scheme demo_debian = debian_scheme" "cl_mode demo_debian = Track" "\<And>w. judged demo_debian w"
    by (simp_all add: demo_debian_def judged_def)
  ultimately show ?thesis
    unfolding demo_listing using demo_our_version
    by (intro debian_epoch_refused) (auto simp: demo_release_version)
qed

end
