(* ===== verification/Go_Rfc3339.thy ===== *)
theory Go_Rfc3339
  imports Go_Time
begin

text \<open>
  RFC 3339 timestamps as Go's \<open>time\<close> package writes them in UTC (\<open>Format(time.RFC3339)\<close>) and reads
  them (\<open>parseRFC3339\<close>, which \<open>time.Parse\<close> tries first). The looser forms that the general parser
  accepts after that (an hour of one digit, a comma before the fraction) are not modelled, nor
  are years outside 0 to 9999.
\<close>

section \<open>Writing\<close>

definition pad :: "nat \<Rightarrow> nat \<Rightarrow> string" where
  "pad w k = replicate (w - length (itoa_nat k)) (CHR ''0'') @ itoa_nat k"

definition format_rfc3339 :: "gtime \<Rightarrow> string" where
  "format_rfc3339 t =
     (let secs = t_nanos t div nanos_per_sec;
          (y, m, d) = civil_of_day (epoch_day + secs div secs_per_day);
          s = secs mod secs_per_day
      in pad 4 (nat y) @ ''-'' @ pad 2 m @ ''-'' @ pad 2 (nat d) @ ''T'' @
         pad 2 (nat (s div 3600)) @ '':'' @ pad 2 (nat (s mod 3600 div 60)) @ '':'' @ pad 2 (nat (s mod 60)) @ ''Z'')"

section \<open>Reading\<close>

definition parse_uint :: "string \<Rightarrow> nat \<Rightarrow> nat \<Rightarrow> nat option" where
  "parse_uint s lo hi =
     (if list_all is_digit s \<and> lo \<le> digits_val s \<and> digits_val s \<le> hi then Some (digits_val s) else None)"

definition days_in :: "nat \<Rightarrow> int \<Rightarrow> nat" where
  "days_in m y = (if m = 2 then (if is_leap y then 29 else 28) else if m \<in> {4, 6, 9, 11} then 30 else 31)"

text \<open>\<open>parseNanoseconds\<close>: at most nine digits count.\<close>

definition nanos_of :: "string \<Rightarrow> int" where
  "nanos_of ds = int (digits_val (take 9 ds) * 10 ^ (9 - length (take 9 ds)))"

definition read_zone :: "string \<Rightarrow> int option" where
  "read_zone s =
     (if s = ''Z'' then Some 0
      else if length s \<noteq> 6 then None
      else case (parse_uint (take 2 (drop 1 s)) 0 23, parse_uint (take 2 (drop 4 s)) 0 59) of
        (Some h, Some m) \<Rightarrow>
          if (s ! 0 = CHR ''-'' \<or> s ! 0 = CHR ''+'') \<and> s ! 3 = CHR '':''
          then Some ((if s ! 0 = CHR ''-'' then -1 else 1) * int ((h * 60 + m) * 60))
          else None
      | _ \<Rightarrow> None)"

definition split_fraction :: "string \<Rightarrow> int \<times> string" where
  "split_fraction s =
     (if length s \<ge> 2 \<and> hd s = CHR ''.'' \<and> is_digit (s ! 1)
      then (nanos_of (takeWhile is_digit (tl s)), dropWhile is_digit (tl s))
      else (0, s))"

definition parse_rfc3339 :: "string \<Rightarrow> gtime option" where
  "parse_rfc3339 s =
     (if length s < 19 then None
      else case (parse_uint (take 4 s) 0 9999, parse_uint (take 2 (drop 5 s)) 1 12,
                 parse_uint (take 2 (drop 11 s)) 0 23, parse_uint (take 2 (drop 14 s)) 0 59,
                 parse_uint (take 2 (drop 17 s)) 0 59) of
        (Some y, Some m, Some h, Some mi, Some se) \<Rightarrow>
          (case parse_uint (take 2 (drop 8 s)) 1 (days_in m (int y)) of
             None \<Rightarrow> None
           | Some d \<Rightarrow>
               if s ! 4 = CHR ''-'' \<and> s ! 7 = CHR ''-'' \<and> s ! 10 = CHR ''T'' \<and> s ! 13 = CHR '':'' \<and> s ! 16 = CHR '':''
               then (let (nanos, zone) = split_fraction (drop 19 s) in
                 case read_zone zone of
                   None \<Rightarrow> None
                 | Some off \<Rightarrow>
                     Some \<lparr>t_nanos = ((day_of_civil (int y) m (int d) - epoch_day) * secs_per_day
                              + int (h * 3600 + mi * 60 + se) - off) * nanos_per_sec + nanos,
                           t_loc = (if zone = ''Z'' then utc else \<lparr>loc_id = 1, loc_offset = off\<rparr>)\<rparr>)
               else None)
      | _ \<Rightarrow> None)"

section \<open>What is written is read back\<close>

lemma length_itoa_nat: "n < 10 ^ w \<Longrightarrow> 0 < w \<Longrightarrow> length (itoa_nat n) \<le> w"
proof (induction w arbitrary: n)
  case 0
  then show ?case by simp
next
  case (Suc w)
  show ?case
  proof (cases "n < 10")
    case True
    then show ?thesis by (simp add: itoa_nat.simps [of n])
  next
    case False
    then have "n div 10 < 10 ^ w" "0 < w"
      using Suc.prems by (cases w; simp add: less_mult_imp_div_less mult.commute)+
    with Suc.IH [of "n div 10"] False show ?thesis by (simp add: itoa_nat.simps [of n])
  qed
qed

lemma length_pad: "n < 10 ^ w \<Longrightarrow> 0 < w \<Longrightarrow> length (pad w n) = w"
  using length_itoa_nat [of n w] by (simp add: pad_def)

lemma digits_val_zeros: "digits_val (replicate k (CHR ''0'') @ s) = digits_val s"
proof -
  have "foldl (\<lambda>n c. n * 10 + digit_val c) 0 (replicate k (CHR ''0'')) = 0"
    by (induction k) (simp_all add: digit_val_def)
  then show ?thesis by (simp add: digits_val_def)
qed

lemma parse_uint_pad: "lo \<le> n \<Longrightarrow> n \<le> hi \<Longrightarrow> parse_uint (pad w n) lo hi = Some n"
  using itoa_nat_digits [of _ n]
  by (auto simp: parse_uint_def pad_def digits_val_zeros list_all_iff is_digit_def)

lemma parse_uint_pad_less: "n \<le> hi \<Longrightarrow> parse_uint (pad w n) 0 hi = Some n"
  by (rule parse_uint_pad) simp_all

lemma days_in_upper:
  assumes "civil_of_day d = (y, m, dd)"
  shows "dd \<le> int (days_in m y)"
proof -
  obtain yd where yd: "year_yday d = (y, yd)" and m: "m = month_of_yday (is_leap y) yd"
    and dd: "dd = yd - days_before_month (is_leap y) m + 1"
    using assms by (auto simp: civil_of_day_def Let_def split: prod.splits)
  have top: "yd < 365 + (if is_leap y then 1 else 0)"
    using yd by (simp add: year_yday_iff days_before_year_Suc split: if_splits)
  have "0 \<le> yd" using yd by (simp add: year_yday_iff)
  have "1 \<le> m" "m \<le> 12" unfolding m using month_of_yday_bounds [OF \<open>0 \<le> yd\<close>] by blast+
  have "yd < days_before_month (is_leap y) (Suc m)" if "m < 12"
  proof -
    have "\<not> days_before_month (is_leap y) ([1..<13] ! m) \<le> yd"
      using nth_length_takeWhile [of "\<lambda>m. days_before_month (is_leap y) m \<le> yd" "[1..<13]"] that
      by (simp add: m month_of_yday_def)
    then show ?thesis using that by simp
  qed
  moreover have "[1..<13] = [1, 2, 3, 4, 5, 6, 7, 8, 9, 10, 11, 12 :: nat]" by code_simp
  then have "m \<in> set [1, 2, 3, 4, 5, 6, 7, 8, 9, 10, 11, 12]"
    using \<open>1 \<le> m\<close> \<open>m \<le> 12\<close> by (metis atLeastLessThan_iff less_Suc_eq_le numeral_plus_one set_upt Suc_eq_plus1 semiring_norm(5) semiring_norm(2))
  then have "m = 1 \<or> m = 2 \<or> m = 3 \<or> m = 4 \<or> m = 5 \<or> m = 6 \<or> m = 7 \<or> m = 8 \<or> m = 9 \<or> m = 10 \<or> m = 11 \<or> m = 12" by simp
  ultimately show ?thesis using top
    by (elim disjE) (simp_all add: dd days_in_def days_before_month_def split: if_splits)
qed

text \<open>A timestamp in UTC is read back as the instant it was written for, without its fraction.\<close>

definition whole_second :: "gtime \<Rightarrow> gtime" where
  "whole_second t = \<lparr>t_nanos = t_nanos t div nanos_per_sec * nanos_per_sec, t_loc = utc\<rparr>"

definition four_digit_year :: "gtime \<Rightarrow> bool" where
  "four_digit_year t \<longleftrightarrow>
     (let y = fst (civil_of_day (epoch_day + t_nanos t div nanos_per_sec div secs_per_day)) in 0 \<le> y \<and> y \<le> 9999)"

lemma pad2: "n < 100 \<Longrightarrow> \<exists>a b. pad 2 n = [a, b]"
  using length_pad [of n 2] by (auto simp: numeral_2_eq_2 length_Suc_conv)

lemma pad4: "n < 10000 \<Longrightarrow> \<exists>a b c d. pad 4 n = [a, b, c, d]"
proof -
  assume "n < 10000"
  then have "length (pad 4 n) = Suc (Suc (Suc (Suc 0)))" using length_pad [of n 4] by simp
  then show ?thesis by (auto simp: length_Suc_conv)
qed

lemma parse_parts:
  assumes "y \<le> 9999" "1 \<le> m" "m \<le> 12" "1 \<le> d" "d \<le> days_in m (int y)" "h \<le> 23" "mi \<le> 59" "se \<le> 59"
  shows "parse_rfc3339 (pad 4 y @ ''-'' @ pad 2 m @ ''-'' @ pad 2 d @ ''T'' @ pad 2 h @ '':'' @ pad 2 mi @ '':'' @ pad 2 se @ ''Z'') =
    Some \<lparr>t_nanos = ((day_of_civil (int y) m (int d) - epoch_day) * secs_per_day + int (h * 3600 + mi * 60 + se)) * nanos_per_sec,
          t_loc = utc\<rparr>"
proof -
  have "days_in m (int y) \<le> 31" by (simp add: days_in_def)
  then have small: "m < 100" "d < 100" "h < 100" "mi < 100" "se < 100" "y < 10000" using assms by simp_all
  obtain y1 y2 y3 y4 where Y: "pad 4 y = [y1, y2, y3, y4]" using pad4 [OF small(6)] by blast
  obtain m1 m2 d1 d2 h1 h2 n1 n2 s1 s2 where P: "pad 2 m = [m1, m2]" "pad 2 d = [d1, d2]" "pad 2 h = [h1, h2]"
    "pad 2 mi = [n1, n2]" "pad 2 se = [s1, s2]" using small(1-5) pad2 by metis
  have "parse_uint [y1, y2, y3, y4] 0 9999 = Some y" "parse_uint [m1, m2] 1 12 = Some m"
    "parse_uint [d1, d2] 1 (days_in m (int y)) = Some d" "parse_uint [h1, h2] 0 23 = Some h"
    "parse_uint [n1, n2] 0 59 = Some mi" "parse_uint [s1, s2] 0 59 = Some se"
    using assms by (simp_all flip: Y P add: parse_uint_pad)
  then show ?thesis
    by (simp add: Y P parse_rfc3339_def split_fraction_def read_zone_def)
qed

lemma hms_sum: "a * 3600 + b = r \<Longrightarrow> c * 60 + d = b \<Longrightarrow> a * 3600 + c * 60 + d = (r :: int)"
  by simp

lemma hms_parts:
  fixes r :: int
  assumes "0 \<le> r" "r < 86400"
  shows "\<exists>h mi se. r div 3600 = h \<and> r mod 3600 div 60 = mi \<and> r mod 60 = se \<and> 0 \<le> h \<and> h \<le> 23 \<and> 0 \<le> mi \<and> mi \<le> 59 \<and>
    0 \<le> se \<and> se \<le> 59 \<and> h * 3600 + mi * 60 + se = r"
proof (intro exI conjI)
  have "r \<le> 86399" using assms by simp
  from zdiv_mono1 [OF this, of 3600] show "r div 3600 \<le> 23" by simp
  have le: "r mod 3600 \<le> 3599" using pos_mod_bound [of 3600 r] by (simp del: pos_mod_bound)
  from zdiv_mono1 [OF le, of 60] show "r mod 3600 div 60 \<le> 59" by simp
  show "r mod 60 \<le> 59" using pos_mod_bound [of 60 r] by (simp del: pos_mod_bound)
  show "0 \<le> r div 3600" using assms(1) by (simp add: pos_imp_zdiv_nonneg_iff)
  show "0 \<le> r mod 3600 div 60" by (rule pos_imp_zdiv_nonneg_iff [THEN iffD2]) (rule zero_less_numeral, rule pos_mod_sign, rule zero_less_numeral)
  show "0 \<le> r mod 60" by (rule pos_mod_sign) (rule zero_less_numeral)
  have "r mod 3600 mod 60 = r mod 60" by (rule mod_mod_cancel) simp
  then have "r mod 3600 div 60 * 60 + r mod 60 = r mod 3600"
    using div_mult_mod_eq [of "r mod 3600" 60] by argo
  from hms_sum [OF div_mult_mod_eq this] show "r div 3600 * 3600 + r mod 3600 div 60 * 60 + r mod 60 = r" .
qed (rule refl)+

lemma rfc3339_reads_back:
  assumes "four_digit_year t"
  shows "parse_rfc3339 (format_rfc3339 t) = Some (whole_second t)"
proof -
  let ?s = "t_nanos t div nanos_per_sec"
  obtain y m d where c: "civil_of_day (epoch_day + ?s div secs_per_day) = (y, m, d)" by (metis prod_cases3)
  have y: "0 \<le> y" "y \<le> 9999" using assms c by (simp_all add: four_digit_year_def)
  have md: "1 \<le> m" "m \<le> 12" "1 \<le> d" "d \<le> int (days_in m y)"
    using civil_of_day_bounds [OF c] days_in_upper [OF c] by simp_all
  define r where "r = ?s mod secs_per_day"
  have r: "0 \<le> r" "r < 86400" by (simp_all add: r_def)
  obtain h mi se where hms: "r div 3600 = h" "r mod 3600 div 60 = mi" "r mod 60 = se"
      "0 \<le> h" "h \<le> 23" "0 \<le> mi" "mi \<le> 59" "0 \<le> se" "se \<le> 59"
    and sum: "h * 3600 + mi * 60 + se = r"
    using hms_parts [OF r] by blast
  have secs: "int (nat h * 3600 + nat mi * 60 + nat se) = r" using sum hms(4-9) by simp
  have "format_rfc3339 t = pad 4 (nat y) @ ''-'' @ pad 2 m @ ''-'' @ pad 2 (nat d) @ ''T'' @ pad 2 (nat h) @ '':'' @
      pad 2 (nat mi) @ '':'' @ pad 2 (nat se) @ ''Z''"
    by (simp add: format_rfc3339_def Let_def c hms(1-3) flip: r_def)
  moreover have bounds: "nat y \<le> 9999" "1 \<le> nat d" "nat d \<le> days_in m (int (nat y))" "nat h \<le> 23" "nat mi \<le> 59" "nat se \<le> 59"
    using y md hms(4-9) by simp_all
  ultimately have "parse_rfc3339 (format_rfc3339 t) =
      Some \<lparr>t_nanos = ((day_of_civil y m d - epoch_day) * secs_per_day + r) * nanos_per_sec, t_loc = utc\<rparr>"
    using parse_parts [OF bounds(1) md(1,2) bounds(2-6), unfolded secs] y md by simp
  moreover have "(day_of_civil y m d - epoch_day) * secs_per_day + r = ?s"
    using day_of_civil_of_day [OF c] by (simp add: r_def)
  ultimately show ?thesis by (simp add: whole_second_def)
qed

definition demo_instant :: gtime where
  "demo_instant = \<lparr>t_nanos = 1709210096123456789, t_loc = utc\<rparr>"

lemma demo_instant_text: "format_rfc3339 demo_instant = ''2024-02-29T12:34:56Z''"
  by code_simp

lemma demo_instant_reads: "parse_rfc3339 ''2024-02-29T12:34:56Z'' = Some (whole_second demo_instant)"
  unfolding demo_instant_text [symmetric] by (rule rfc3339_reads_back) code_simp

end
