(* ===== verification/Upstream_Lock.thy ===== *)
theory Upstream_Lock
  imports Go_Rfc3339 "HOL-Library.AList"
begin

text \<open>
  The first-sighting clock of dependency updates (\<^verbatim>\<open>src/src/upstream/lock.go\<close>): when each upstream
  version newer than a pin was first seen. \<open>Observe\<close> is one update's visit to a source, \<open>Write\<close>
  what is stored. A Go map is an association list with distinct keys; the nil map that a stored
  \<open>null\<close> decodes to is \<^const>\<open>None\<close>, and writing to it panics.

  Timestamps are written and read by a codec (a locale names its laws), which is interpreted by
  the RFC 3339 functions of \<^verbatim>\<open>Go_Rfc3339\<close>.
\<close>

section \<open>The lock\<close>

record lock_source =
  ls_id :: string
  ls_first_seen :: "(string \<times> string) list option"

record lock =
  lk_version :: int
  lk_sources :: "lock_source list"

record time_codec =
  tc_format :: "gtime \<Rightarrow> string"
  tc_parse :: "string \<Rightarrow> gtime option"

definition rfc3339 :: time_codec where
  "rfc3339 = \<lparr>tc_format = format_rfc3339, tc_parse = parse_rfc3339\<rparr>"

text \<open>\<open>source\<close>: the first entry of the id, or a new one at the end. What is done through the returned
  pointer is done to that entry.\<close>

definition lock_source_of :: "lock \<Rightarrow> string \<Rightarrow> lock_source" where
  "lock_source_of l i =
     (case find (\<lambda>s. ls_id s = i) (lk_sources l) of
        Some s \<Rightarrow> s
      | None \<Rightarrow> \<lparr>ls_id = i, ls_first_seen = Some []\<rparr>)"

fun set_source :: "lock_source \<Rightarrow> lock_source list \<Rightarrow> lock_source list" where
  "set_source s [] = [s]"
| "set_source s (x # xs) = (if ls_id x = ls_id s then s # xs else x # set_source s xs)"

section \<open>Observing\<close>

text \<open>The variables of the loop: the source's map, the result map, the healed versions, \<open>changed\<close>.\<close>

type_synonym sightings = "(string \<times> string) list option \<times> (string \<times> gtime) list \<times> string list \<times> bool"

text \<open>One version. \<^const>\<open>None\<close> is the panic of a write to a nil map.\<close>

definition observe_version :: "time_codec \<Rightarrow> gtime \<Rightarrow> string \<Rightarrow> sightings \<Rightarrow> sightings option" where
  "observe_version C now v = (\<lambda>(fs, first, healed, changed).
     case fs of
       None \<Rightarrow> None
     | Some m \<Rightarrow>
         (let (at, m', changed') = (case map_of m v of
                Some at \<Rightarrow> (at, m, changed)
              | None \<Rightarrow> (tc_format C now, AList.update v (tc_format C now) m, True))
          in case tc_parse C at of
            Some t \<Rightarrow> Some (Some m', AList.update v t first, healed, changed')
          | None \<Rightarrow> Some (Some (AList.update v (tc_format C now) m'), AList.update v now first, healed @ [v], True)))"

fun observe_versions :: "time_codec \<Rightarrow> gtime \<Rightarrow> string list \<Rightarrow> sightings \<Rightarrow> sightings option" where
  "observe_versions C now [] st = Some st"
| "observe_versions C now (v # vs) st = Option.bind (observe_version C now v st) (observe_versions C now vs)"

text \<open>A visit: the versions newer than our pin are recorded, the others are dropped.\<close>

definition observe ::
    "time_codec \<Rightarrow> lock \<Rightarrow> string \<Rightarrow> string list \<Rightarrow> gtime \<Rightarrow> (lock \<times> (string \<times> gtime) list \<times> string list \<times> bool) option" where
  "observe C l i newer now =
     (let src = lock_source_of l i in
      case observe_versions C now newer (ls_first_seen src, [], [], False) of
        None \<Rightarrow> None
      | Some (fs, first, healed, changed) \<Rightarrow>
          (let fs' = map_option (filter (\<lambda>(v, _). v \<in> set newer)) fs;
               pruned = (case fs of None \<Rightarrow> False | Some m \<Rightarrow> list_ex (\<lambda>(v, _). v \<notin> set newer) m)
           in Some (l\<lparr>lk_sources := set_source (src\<lparr>ls_first_seen := fs'\<rparr>) (lk_sources l)\<rparr>, first,
                 sort_slice (<) healed, changed \<or> pruned)))"

text \<open>What \<open>Write\<close> stores.\<close>

definition lock_written :: "lock \<Rightarrow> lock" where
  "lock_written l =
     \<lparr>lk_version = 1,
      lk_sources = sort_slice (\<lambda>a b. ls_id a < ls_id b)
        (filter (\<lambda>s. case ls_first_seen s of None \<Rightarrow> False | Some m \<Rightarrow> m \<noteq> []) (lk_sources l))\<rparr>"

section \<open>Reading the lock\<close>

definition seen_at :: "lock \<Rightarrow> string \<Rightarrow> string \<Rightarrow> string option" where
  "seen_at l i v = (case ls_first_seen (lock_source_of l i) of None \<Rightarrow> None | Some m \<Rightarrow> map_of m v)"

text \<open>The laws of a codec for a set of instants: what is written can be read.\<close>

locale clock =
  fixes C :: time_codec and writable :: "gtime \<Rightarrow> bool" and stored :: "gtime \<Rightarrow> gtime"
  assumes parse_format: "writable t \<Longrightarrow> tc_parse C (tc_format C t) = Some (stored t)"
begin

text \<open>What the map holds for a version that stays: its timestamp if it can be read, else now.\<close>

definition sighting :: "gtime \<Rightarrow> string option \<Rightarrow> string" where
  "sighting now old = (case old of None \<Rightarrow> tc_format C now | Some at \<Rightarrow> if tc_parse C at = None then tc_format C now else at)"

lemma sighting_parses: "writable now \<Longrightarrow> tc_parse C (sighting now old) \<noteq> None"
  by (simp add: sighting_def parse_format split: option.splits)

lemma sighting_idem: "writable now \<Longrightarrow> sighting later (Some (sighting now old)) = sighting now old"
  using sighting_parses [of now old] by (auto simp: sighting_def [of later])

lemma observe_version_some:
  assumes "writable now"
  shows "\<exists>m' first' healed' ch'. observe_version C now v (Some m, first, healed, ch) = Some (Some m', first', healed', ch') \<and>
     map_of m' = (map_of m)(v \<mapsto> sighting now (map_of m v)) \<and>
     (distinct (map fst m) \<longrightarrow> distinct (map fst m')) \<and>
     (ch' \<longleftrightarrow> ch \<or> map_of m' \<noteq> map_of m) \<and>
     set healed' = set healed \<union> (if \<exists>at. map_of m v = Some at \<and> tc_parse C at = None then {v} else {}) \<and>
     map_of first' = (map_of first)(v \<mapsto> (if \<exists>at. map_of m v = Some at \<and> tc_parse C at = None then now
        else the (tc_parse C (sighting now (map_of m v)))))"
proof (cases "map_of m v")
  case None
  then have "map_of (AList.update v (tc_format C now) m) \<noteq> map_of m" by (auto simp: update_conv' fun_upd_def fun_eq_iff)
  with None assms show ?thesis
    by (simp add: observe_version_def parse_format sighting_def update_conv' distinct_update)
next
  case (Some at)
  show ?thesis
  proof (cases "tc_parse C at")
    case None
    then have "at \<noteq> tc_format C now" using parse_format [OF assms] by auto
    then have "map_of (AList.update v (tc_format C now) m) \<noteq> map_of m"
      using Some by (auto simp: update_conv' fun_upd_def fun_eq_iff)
    with Some None show ?thesis by (simp add: observe_version_def sighting_def update_conv' distinct_update)
  next
    case (Some t)
    then show ?thesis using \<open>map_of m v = Some at\<close>
      by (auto simp: observe_version_def sighting_def update_conv' fun_upd_def fun_eq_iff)
  qed
qed

lemma observe_versions_some:
  assumes "writable now"
  shows "\<exists>m' first' healed' ch'. observe_versions C now vs (Some m, first, healed, ch) = Some (Some m', first', healed', ch') \<and>
     map_of m' = (\<lambda>v. if v \<in> set vs then Some (sighting now (map_of m v)) else map_of m v) \<and>
     (distinct (map fst m) \<longrightarrow> distinct (map fst m')) \<and>
     (ch' \<longleftrightarrow> ch \<or> map_of m' \<noteq> map_of m) \<and>
     set healed' = set healed \<union> {v \<in> set vs. \<exists>at. map_of m v = Some at \<and> tc_parse C at = None} \<and>
     (\<forall>v. map_of first' v =
        (if v \<in> set vs \<and> (\<nexists>at. map_of m v = Some at \<and> tc_parse C at = None) then tc_parse C (sighting now (map_of m v))
         else if v \<in> set vs then map_of first' v else map_of first v))"
proof (induction vs arbitrary: m first healed ch)
  case Nil
  then show ?case by auto
next
  case (Cons v vs)
  obtain m1 f1 h1 c1 where step: "observe_version C now v (Some m, first, healed, ch) = Some (Some m1, f1, h1, c1)"
    and m1: "map_of m1 = (map_of m)(v \<mapsto> sighting now (map_of m v))"
    and d1: "distinct (map fst m) \<longrightarrow> distinct (map fst m1)" and c1: "c1 \<longleftrightarrow> ch \<or> map_of m1 \<noteq> map_of m"
    and h1: "set h1 = set healed \<union> (if \<exists>at. map_of m v = Some at \<and> tc_parse C at = None then {v} else {})"
    and f1: "map_of f1 = (map_of first)(v \<mapsto> (if \<exists>at. map_of m v = Some at \<and> tc_parse C at = None then now
        else the (tc_parse C (sighting now (map_of m v)))))"
    using observe_version_some [OF assms, of v m first healed ch] by blast
  obtain m2 f2 h2 c2 where rest: "observe_versions C now vs (Some m1, f1, h1, c1) = Some (Some m2, f2, h2, c2)"
    and m2: "map_of m2 = (\<lambda>u. if u \<in> set vs then Some (sighting now (map_of m1 u)) else map_of m1 u)"
    and d2: "distinct (map fst m1) \<longrightarrow> distinct (map fst m2)" and c2: "c2 \<longleftrightarrow> c1 \<or> map_of m2 \<noteq> map_of m1"
    and h2: "set h2 = set h1 \<union> {u \<in> set vs. \<exists>at. map_of m1 u = Some at \<and> tc_parse C at = None}"
    and f2: "\<And>u. map_of f2 u =
        (if u \<in> set vs \<and> (\<nexists>at. map_of m1 u = Some at \<and> tc_parse C at = None) then tc_parse C (sighting now (map_of m1 u))
         else if u \<in> set vs then map_of f2 u else map_of f1 u)"
    using Cons.IH [of m1 f1 h1 c1] by blast
  have maps: "map_of m2 = (\<lambda>u. if u \<in> set (v # vs) then Some (sighting now (map_of m u)) else map_of m u)"
    using sighting_idem [OF assms] by (auto simp: m2 m1)
  have "map_of m2 \<noteq> map_of m" if "map_of m1 \<noteq> map_of m"
  proof -
    from that have "map_of m v \<noteq> Some (sighting now (map_of m v))" by (auto simp: m1 fun_upd_idem)
    then have "map_of m2 v \<noteq> map_of m v" by (simp add: maps)
    then show ?thesis by auto
  qed
  then have ch: "c2 \<longleftrightarrow> ch \<or> map_of m2 \<noteq> map_of m" using c1 c2 by auto
  have ok: "tc_parse C (sighting now (map_of m v)) \<noteq> None" by (rule sighting_parses [OF assms])
  have hs: "set h2 = set healed \<union> {u \<in> set (v # vs). \<exists>at. map_of m u = Some at \<and> tc_parse C at = None}"
    using ok by (auto simp: h2 h1 m1 split: if_splits)
  have "map_of f2 u =
        (if u \<in> set (v # vs) \<and> (\<nexists>at. map_of m u = Some at \<and> tc_parse C at = None) then tc_parse C (sighting now (map_of m u))
         else if u \<in> set (v # vs) then map_of f2 u else map_of first u)" for u
    using f2 [of u] ok sighting_idem [OF assms, of now "map_of m v"] by (auto simp: f1 m1 split: if_splits)
  then show ?case using step rest maps d1 d2 ch hs by auto
qed

end

interpretation rfc_clock: clock rfc3339 four_digit_year whole_second
  by unfold_locales (simp add: rfc3339_def rfc3339_reads_back)

section \<open>The lock's entries\<close>

lemma source_of_set_source:
  "lock_source_of (l\<lparr>lk_sources := set_source s xs\<rparr>) j =
     (if j = ls_id s then s else lock_source_of (l\<lparr>lk_sources := xs\<rparr>) j)"
  by (induction xs) (auto simp: lock_source_of_def)

lemma source_of_same [simp]: "lock_source_of (l\<lparr>lk_sources := lk_sources l\<rparr>) j = lock_source_of l j"
  by simp

lemma source_of_id [simp]: "ls_id (lock_source_of l i) = i"
  by (auto simp: lock_source_of_def find_Some_iff split: option.splits)

lemma map_of_filter_keys: "map_of (filter (\<lambda>(v, _). v \<in> S) m) v = (if v \<in> S then map_of m v else None)"
  by (induction m) auto

lemma some_key_outside: "list_ex (\<lambda>(v, _). v \<notin> S) m \<longleftrightarrow> (\<exists>v. v \<notin> S \<and> map_of m v \<noteq> None)"
  by (force simp: list_ex_iff map_of_eq_None_iff)

lemma rfc3339_sel [simp]: "tc_parse rfc3339 = parse_rfc3339" "tc_format rfc3339 = format_rfc3339"
  by (simp_all add: rfc3339_def)

abbreviation corrupt :: "string option \<Rightarrow> bool" where
  "corrupt old \<equiv> \<exists>at. old = Some at \<and> parse_rfc3339 at = None"

lemma pruned_change:
  assumes "\<And>v. v \<notin> N \<Longrightarrow> g v = m v"
  shows "(g \<noteq> m \<or> (\<exists>v. v \<notin> N \<and> g v \<noteq> None)) \<longleftrightarrow> (\<lambda>v. if v \<in> N then g v else None) \<noteq> m"
proof -
  have to: "g = m \<and> (\<forall>v. v \<notin> N \<longrightarrow> g v = None)" if eq: "(\<lambda>v. if v \<in> N then g v else None) = m"
  proof (intro conjI allI impI ext)
    show "g v = m v" for v using fun_cong [OF eq, of v] assms [of v] by (cases "v \<in> N") auto
    then show "g v = None" if "v \<notin> N" for v using fun_cong [OF eq, of v] that by simp
  qed
  have "(\<lambda>v. if v \<in> N then g v else None) = m" if "g = m \<and> (\<forall>v. v \<notin> N \<longrightarrow> g v = None)"
  proof
    show "(if v \<in> N then g v else None) = m v" for v using that by (cases "v \<in> N") (simp, metis)
  qed
  with to have iff: "(\<lambda>v. if v \<in> N then g v else None) = m \<longleftrightarrow> g = m \<and> (\<forall>v. v \<notin> N \<longrightarrow> g v = None)" by (rule iffI)
  show ?thesis unfolding iff by simp
qed

lemma observe_spec:
  assumes now: "four_digit_year now" and "ls_first_seen (lock_source_of l i) \<noteq> None"
  shows "\<exists>l' first healed ch. observe rfc3339 l i newer now = Some (l', first, healed, ch) \<and>
     (\<forall>v. seen_at l' i v = (if v \<in> set newer then Some (rfc_clock.sighting now (seen_at l i v)) else None)) \<and>
     (\<forall>j. j \<noteq> i \<longrightarrow> lock_source_of l' j = lock_source_of l j) \<and> ls_first_seen (lock_source_of l' i) \<noteq> None \<and>
     (ch \<longleftrightarrow> seen_at l' i \<noteq> seen_at l i) \<and>
     set healed = {v \<in> set newer. corrupt (seen_at l i v)} \<and>
     (\<forall>v \<in> set newer. \<not> corrupt (seen_at l i v) \<longrightarrow>
        map_of first v = parse_rfc3339 (rfc_clock.sighting now (seen_at l i v)))"
proof -
  obtain m where m: "ls_first_seen (lock_source_of l i) = Some m" using assms(2) by blast
  obtain m' first healed ch where run: "observe_versions rfc3339 now newer (Some m, [], [], False) = Some (Some m', first, healed, ch)"
    and m': "map_of m' = (\<lambda>v. if v \<in> set newer then Some (rfc_clock.sighting now (map_of m v)) else map_of m v)"
    and ch: "ch \<longleftrightarrow> False \<or> map_of m' \<noteq> map_of m"
    and healed: "set healed = set [] \<union> {v \<in> set newer. \<exists>at. map_of m v = Some at \<and> tc_parse rfc3339 at = None}"
    and first: "\<forall>v. map_of first v =
        (if v \<in> set newer \<and> (\<nexists>at. map_of m v = Some at \<and> tc_parse rfc3339 at = None)
         then tc_parse rfc3339 (rfc_clock.sighting now (map_of m v))
         else if v \<in> set newer then map_of first v else map_of [] v)"
    using rfc_clock.observe_versions_some [OF now, of newer m "[]" "[]" False] by blast
  define l' where "l' = l\<lparr>lk_sources := set_source ((lock_source_of l i)\<lparr>ls_first_seen := Some (filter (\<lambda>(v, _). v \<in> set newer) m')\<rparr>) (lk_sources l)\<rparr>"
  let ?ch = "ch \<or> list_ex (\<lambda>(v, _). v \<notin> set newer) m'"
  have obs: "observe rfc3339 l i newer now = Some (l', first, sort_slice (<) healed, ?ch)"
    by (simp add: observe_def Let_def m run l'_def)
  have old: "seen_at l i = map_of m" by (simp add: seen_at_def m fun_eq_iff)
  have new: "seen_at l' i v = (if v \<in> set newer then map_of m' v else None)" for v
    by (simp add: seen_at_def l'_def source_of_set_source map_of_filter_keys)
  have changed: "?ch \<longleftrightarrow> seen_at l' i \<noteq> seen_at l i"
    using pruned_change [of "set newer" "map_of m'" "map_of m"] ch
    by (simp add: some_key_outside old new [abs_def] m')
  have others: "lock_source_of l' j = lock_source_of l j" if "j \<noteq> i" for j
    using that by (simp add: l'_def source_of_set_source)
  have "ls_first_seen (lock_source_of l' i) \<noteq> None" by (simp add: l'_def source_of_set_source)
  moreover have "map_of first v = parse_rfc3339 (rfc_clock.sighting now (seen_at l i v))"
    if "v \<in> set newer" "\<not> corrupt (seen_at l i v)" for v
    using spec [OF first, of v] that by (simp add: old)
  moreover have "set (sort_slice (<) healed) = {v \<in> set newer. corrupt (seen_at l i v)}" by (simp add: healed old)
  moreover have "seen_at l' i v = (if v \<in> set newer then Some (rfc_clock.sighting now (seen_at l i v)) else None)" for v
    by (simp add: new m' old)
  ultimately show ?thesis
    using obs changed others by (intro exI conjI allI impI ballI) (assumption | blast)+
qed

section \<open>What the clock guarantees\<close>

text \<open>C27: A visit to a source (whose stored map is not null) succeeds: afterwards the lock holds
  exactly the versions that are newer than our pin, each with its earlier sighting when that can
  be read and with the time of the visit otherwise; other sources keep their entries, \<open>changed\<close> is
  returned exactly when an entry changed, and the versions whose timestamp was unreadable are
  reported.\<close>

theorem observe_result:
  assumes "four_digit_year now" "ls_first_seen (lock_source_of l i) \<noteq> None"
  shows "\<exists>l' first healed ch. observe rfc3339 l i newer now = Some (l', first, healed, ch) \<and>
     (\<forall>v. seen_at l' i v =
        (if v \<notin> set newer then None
         else case seen_at l i v of
           None \<Rightarrow> Some (format_rfc3339 now)
         | Some at \<Rightarrow> if parse_rfc3339 at = None then Some (format_rfc3339 now) else Some at)) \<and>
     (\<forall>j. j \<noteq> i \<longrightarrow> lock_source_of l' j = lock_source_of l j) \<and>
     (ch \<longleftrightarrow> seen_at l' i \<noteq> seen_at l i) \<and>
     set healed = {v \<in> set newer. \<exists>at. seen_at l i v = Some at \<and> parse_rfc3339 at = None}"
  using observe_spec [OF assms, of newer]
  by (elim exE conjE) (simp add: rfc_clock.sighting_def split: option.splits)

text \<open>Successive updates visit the source with the versions that are newer at each time.\<close>

fun observe_visits :: "lock \<Rightarrow> string \<Rightarrow> (string list \<times> gtime) list \<Rightarrow> lock option" where
  "observe_visits l i [] = Some l"
| "observe_visits l i ((newer, now) # visits) =
     (case observe rfc3339 l i newer now of None \<Rightarrow> None | Some (l', _) \<Rightarrow> observe_visits l' i visits)"

lemma visits_keep_sighting:
  assumes "\<forall>(newer, now) \<in> set visits. four_digit_year now \<and> v \<in> set newer"
    "ls_first_seen (lock_source_of l i) \<noteq> None" "seen_at l i v = Some at" "parse_rfc3339 at \<noteq> None"
  shows "\<exists>l'. observe_visits l i visits = Some l' \<and> seen_at l' i v = Some at"
  using assms
proof (induction visits arbitrary: l)
  case Nil
  then show ?case by simp
next
  case (Cons visit visits)
  obtain newer now where visit: "visit = (newer, now)" by (cases visit)
  have now: "four_digit_year now" "v \<in> set newer" using Cons.prems(1) by (auto simp: visit)
  obtain l' r where obs: "observe rfc3339 l i newer now = Some (l', r)"
    and seen: "\<forall>v. seen_at l' i v = (if v \<in> set newer then Some (rfc_clock.sighting now (seen_at l i v)) else None)"
    and ok: "ls_first_seen (lock_source_of l' i) \<noteq> None"
    using observe_spec [OF now(1) Cons.prems(2), of newer] by blast
  have "seen_at l' i v = Some at"
    using spec [OF seen, of v] now(2) Cons.prems(3,4) by (simp add: rfc_clock.sighting_def)
  moreover have "\<forall>(newer, now) \<in> set visits. four_digit_year now \<and> v \<in> set newer" using Cons.prems(1) by simp
  ultimately have "\<exists>l''. observe_visits l' i visits = Some l'' \<and> seen_at l'' i v = Some at"
    using Cons.IH ok Cons.prems(4) by blast
  then show ?case by (simp add: visit obs)
qed

text \<open>C28: The cooldown clock of a version starts at the first update that sees it and never restarts:
  after any number of further updates in which the version is still newer than our pin, the lock
  holds the time of the first, and that time can be read.\<close>

theorem cooldown_clock_never_restarts:
  assumes "ls_first_seen (lock_source_of l i) \<noteq> None" "seen_at l i v = None"
    "\<forall>(newer, now) \<in> set ((newer0, now0) # visits). four_digit_year now \<and> v \<in> set newer"
  shows "\<exists>l'. observe_visits l i ((newer0, now0) # visits) = Some l' \<and>
     Option.bind (seen_at l' i v) parse_rfc3339 = Some (whole_second now0)"
proof -
  have now: "four_digit_year now0" "v \<in> set newer0"
    "\<forall>(newer, now) \<in> set visits. four_digit_year now \<and> v \<in> set newer" using assms(3) by auto
  obtain l1 r where obs: "observe rfc3339 l i newer0 now0 = Some (l1, r)"
    and seen: "\<forall>v. seen_at l1 i v = (if v \<in> set newer0 then Some (rfc_clock.sighting now0 (seen_at l i v)) else None)"
    and ok: "ls_first_seen (lock_source_of l1 i) \<noteq> None"
    using observe_spec [OF now(1) assms(1), of newer0] by blast
  have "seen_at l1 i v = Some (format_rfc3339 now0)"
    using spec [OF seen, of v] now(2) assms(2) by (simp add: rfc_clock.sighting_def)
  moreover have read: "parse_rfc3339 (format_rfc3339 now0) = Some (whole_second now0)"
    by (rule rfc3339_reads_back [OF now(1)])
  ultimately have "\<exists>l'. observe_visits l1 i visits = Some l' \<and> seen_at l' i v = Some (format_rfc3339 now0)"
    by (intro visits_keep_sighting [OF now(3) ok]) simp_all
  then show ?thesis using read by (auto simp: obs)
qed

text \<open>A lock whose entry for the source has no map (\<open>"first_seen": null\<close>, or no such key) makes
  the update panic as soon as one version is newer than our pin.\<close>

theorem null_sightings_panic:
  assumes "find (\<lambda>s. ls_id s = i) (lk_sources l) = Some \<lparr>ls_id = i, ls_first_seen = None\<rparr>"
  shows "observe C l i newer now = None \<longleftrightarrow> newer \<noteq> []"
proof -
  have "ls_first_seen (lock_source_of l i) = None" using assms by (simp add: lock_source_of_def)
  then show ?thesis by (cases newer) (simp_all add: observe_def observe_version_def)
qed

lemma seen_at_iff:
  assumes "distinct (map ls_id (lk_sources l))"
  shows "seen_at l i v = Some at \<longleftrightarrow>
    (\<exists>s \<in> set (lk_sources l). \<exists>m. ls_id s = i \<and> ls_first_seen s = Some m \<and> map_of m v = Some at)"
proof (cases "find (\<lambda>s. ls_id s = i) (lk_sources l)")
  case None
  then have "seen_at l i v = None" by (simp add: seen_at_def lock_source_of_def)
  then show ?thesis using None by (auto simp: find_None_iff)
next
  case (Some s)
  then have s: "s \<in> set (lk_sources l)" "ls_id s = i" by (auto simp: find_Some_iff)
  then have uniq: "t = s" if "t \<in> set (lk_sources l)" "ls_id t = i" for t
    using that assms by (auto simp: distinct_map inj_on_def)
  have "seen_at l i v = Some at \<longleftrightarrow> (\<exists>m. ls_first_seen s = Some m \<and> map_of m v = Some at)"
    using Some by (auto simp: seen_at_def lock_source_of_def split: option.splits)
  then show ?thesis using s uniq by blast
qed

text \<open>Storing the lock loses no sighting: dropping the sources with nothing recorded and sorting
  the others keeps when each version of each source was first seen.\<close>

theorem lock_written_keeps:
  assumes "distinct (map ls_id (lk_sources l))"
  shows "seen_at (lock_written l) i v = seen_at l i v \<and> distinct (map ls_id (lk_sources (lock_written l)))"
proof -
  let ?keep = "\<lambda>s. case ls_first_seen s of None \<Rightarrow> False | Some m \<Rightarrow> m \<noteq> []"
  have set: "set (lk_sources (lock_written l)) = {s \<in> set (lk_sources l). ?keep s}"
    by (simp add: lock_written_def)
  have "inj_on ls_id (set (lk_sources l))" "distinct (lk_sources l)" using assms by (simp_all add: distinct_map)
  then have dist: "distinct (map ls_id (lk_sources (lock_written l)))"
    by (auto simp: distinct_map set lock_written_def intro: inj_on_subset)
  have "seen_at (lock_written l) i v = Some at \<longleftrightarrow> seen_at l i v = Some at" for at
    unfolding seen_at_iff [OF dist] seen_at_iff [OF assms] set by force
  then show ?thesis using dist by (cases "seen_at l i v"; cases "seen_at (lock_written l) i v") auto
qed

section \<open>A lock\<close>

definition demo_lock :: lock where
  "demo_lock = \<lparr>lk_version = 1, lk_sources =
     [\<lparr>ls_id = ''tool'', ls_first_seen = Some [(''2.1'', ''2024-01-01T00:00:00Z''), (''1.9'', ''2023-01-01T00:00:00Z''), (''2.2'', ''soon'')]\<rparr>,
      \<lparr>ls_id = ''other'', ls_first_seen = Some []\<rparr>, \<lparr>ls_id = ''bad'', ls_first_seen = None\<rparr>]\<rparr>"

lemma demo_lock_source:
  "ls_first_seen (lock_source_of demo_lock ''tool'') \<noteq> None" "ls_first_seen (lock_source_of demo_lock ''new'') = Some []"
  by (simp_all add: demo_lock_def lock_source_of_def)

lemma demo_instant_year: "four_digit_year demo_instant"
  by code_simp

theorem observe_result_witness:
  "\<exists>l' first healed ch. observe rfc3339 demo_lock ''tool'' [''2.1'', ''2.2'', ''2.3''] demo_instant = Some (l', first, healed, ch) \<and>
     (\<forall>v. seen_at l' ''tool'' v =
        (if v \<notin> set [''2.1'', ''2.2'', ''2.3''] then None
         else case seen_at demo_lock ''tool'' v of
           None \<Rightarrow> Some (format_rfc3339 demo_instant)
         | Some at \<Rightarrow> if parse_rfc3339 at = None then Some (format_rfc3339 demo_instant) else Some at)) \<and>
     (\<forall>j. j \<noteq> ''tool'' \<longrightarrow> lock_source_of l' j = lock_source_of demo_lock j) \<and>
     (ch \<longleftrightarrow> seen_at l' ''tool'' \<noteq> seen_at demo_lock ''tool'') \<and>
     set healed = {v \<in> set [''2.1'', ''2.2'', ''2.3'']. \<exists>at. seen_at demo_lock ''tool'' v = Some at \<and> parse_rfc3339 at = None}"
  by (rule observe_result [OF demo_instant_year demo_lock_source(1)])

theorem cooldown_clock_never_restarts_witness:
  "\<exists>l'. observe_visits demo_lock ''new'' [([''3'', ''4''], demo_instant), ([''4''], demo_instant\<lparr>t_nanos := 0\<rparr>)] = Some l' \<and>
     Option.bind (seen_at l' ''new'' ''4'') parse_rfc3339 = Some (whole_second demo_instant)"
proof (rule cooldown_clock_never_restarts)
  have "four_digit_year (demo_instant\<lparr>t_nanos := 0\<rparr>)" by code_simp
  then show "\<forall>(newer, now) \<in> set [([''3'', ''4''], demo_instant), ([''4''], demo_instant\<lparr>t_nanos := 0\<rparr>)].
      four_digit_year now \<and> ''4'' \<in> set newer" using demo_instant_year by simp
qed (simp_all add: demo_lock_source seen_at_def)

theorem null_sightings_panic_witness: "observe rfc3339 demo_lock ''bad'' [''2''] demo_instant = None"
  using null_sightings_panic [of "''bad''" demo_lock rfc3339 "[''2'']" demo_instant] by (simp add: demo_lock_def)

theorem lock_written_keeps_witness: "seen_at (lock_written demo_lock) ''tool'' ''2.1'' = Some ''2024-01-01T00:00:00Z''"
  using lock_written_keeps [of demo_lock "''tool''" "''2.1''"] by (simp add: demo_lock_def seen_at_def lock_source_of_def)

end
