(* ===== verification/Unpack_Fs.thy ===== *)
theory Unpack_Fs
  imports Go_Path "HOL-Library.AList"
begin

text \<open>
  The file system calls that \<^verbatim>\<open>src/src/unpack/unpack.go\<close> makes, on a tree of directories, files and
  symbolic links: how the kernel resolves a path (following links in every component but, for
  some calls, the last), and \<^verbatim>\<open>Lstat\<close>, \<^verbatim>\<open>Stat\<close>, \<^verbatim>\<open>Mkdir\<close>, \<^verbatim>\<open>MkdirAll\<close>, \<^verbatim>\<open>Remove\<close>, \<^verbatim>\<open>Symlink\<close> and
  \<^verbatim>\<open>OpenFile\<close> for writing. A node is found by the list of names from the root directory, which
  always exists. Ownership, permissions and hard links are not modelled; a path is resolved
  through at most 40 links, as Linux does.
\<close>

datatype node = Dir | Regular string | Link string

type_synonym phys = "string list"

datatype errno = ENOENT | ENOTDIR | ELOOP | EEXIST | EISDIR | ENOTEMPTY

record fsys =
  fs_nodes :: "(phys \<times> node) list"
  fs_cwd :: phys

definition node_at :: "fsys \<Rightarrow> phys \<Rightarrow> node option" where
  "node_at fs p = (if p = [] then Some Dir else map_of (fs_nodes fs) p)"

definition put_node :: "phys \<Rightarrow> node \<Rightarrow> fsys \<Rightarrow> fsys" where
  "put_node p n fs = fs\<lparr>fs_nodes := AList.update p n (fs_nodes fs)\<rparr>"

definition del_node :: "phys \<Rightarrow> fsys \<Rightarrow> fsys" where
  "del_node p fs = fs\<lparr>fs_nodes := AList.delete p (fs_nodes fs)\<rparr>"

section \<open>Resolving a path\<close>

text \<open>From the directory reached so far, the names that remain. A missing last name is answered with
  its place (a call may create it there); the first argument says whether a link in the last
  place is followed, the second how many more links may be.\<close>

function walk :: "fsys \<Rightarrow> bool \<Rightarrow> nat \<Rightarrow> phys \<Rightarrow> string list \<Rightarrow> errno + phys" where
  "walk fs follow n cur [] = Inr cur"
| "walk fs follow n cur (c # cs) =
     (if c = [] \<or> c = ''.'' then walk fs follow n cur cs
      else if c = ''..'' then walk fs follow n (butlast cur) cs
      else case node_at fs (cur @ [c]) of
        None \<Rightarrow> if cs = [] then Inr (cur @ [c]) else Inl ENOENT
      | Some Dir \<Rightarrow> walk fs follow n (cur @ [c]) cs
      | Some (Regular _) \<Rightarrow> if cs = [] then Inr (cur @ [c]) else Inl ENOTDIR
      | Some (Link l) \<Rightarrow>
          if cs = [] \<and> \<not> follow then Inr (cur @ [c])
          else if n = 0 then Inl ELOOP
          else walk fs follow (n - 1) (if is_abs l then [] else cur) (split_on slash l @ cs))"
  by pat_completeness auto

termination
  by (relation "measures [\<lambda>(_, _, n, _, _). n, \<lambda>(_, _, _, _, cs). length cs]") auto

abbreviation max_links :: nat where
  "max_links \<equiv> 40"

definition resolve_path :: "fsys \<Rightarrow> bool \<Rightarrow> string \<Rightarrow> errno + phys" where
  "resolve_path fs follow p = walk fs follow max_links (if is_abs p then [] else fs_cwd fs) (split_on slash p)"

definition lookup :: "fsys \<Rightarrow> bool \<Rightarrow> string \<Rightarrow> errno + phys \<times> node" where
  "lookup fs follow p =
     (case resolve_path fs follow p of
        Inl e \<Rightarrow> Inl e
      | Inr q \<Rightarrow> (case node_at fs q of None \<Rightarrow> Inl ENOENT | Some n \<Rightarrow> Inr (q, n)))"

definition lstat :: "fsys \<Rightarrow> string \<Rightarrow> errno + node" where
  "lstat fs p = map_sum (\<lambda>e. e) snd (lookup fs False p)"

definition stat :: "fsys \<Rightarrow> string \<Rightarrow> errno + node" where
  "stat fs p = map_sum (\<lambda>e. e) snd (lookup fs True p)"

section \<open>Calls that change the tree\<close>

text \<open>A call leaves a tree, and an error when it failed: what was done before the failure stays.\<close>

type_synonym 'e call = "fsys \<Rightarrow> fsys \<times> 'e option"

definition and_then :: "'e call \<Rightarrow> 'e call \<Rightarrow> 'e call" where
  "and_then f g fs = (case f fs of (fs', None) \<Rightarrow> g fs' | (fs', Some e) \<Rightarrow> (fs', Some e))"

definition create_node :: "node \<Rightarrow> string \<Rightarrow> errno call" where
  "create_node n p fs =
     (case resolve_path fs False p of
        Inl e \<Rightarrow> (fs, Some e)
      | Inr q \<Rightarrow> if node_at fs q = None then (put_node q n fs, None) else (fs, Some EEXIST))"

abbreviation mkdir :: "string \<Rightarrow> errno call" where
  "mkdir \<equiv> create_node Dir"

abbreviation symlink :: "string \<Rightarrow> string \<Rightarrow> errno call" where
  "symlink l \<equiv> create_node (Link l)"

text \<open>\<^verbatim>\<open>os.MkdirAll\<close> on a clean path, given by its elements: nothing to do when the path is a
  directory (through links), else its parent is made, then the path.\<close>

function mkdir_all :: "bool \<Rightarrow> string list \<Rightarrow> errno call" where
  "mkdir_all rooted es fs =
     (case stat fs (path_of_elems rooted es) of
        Inr Dir \<Rightarrow> (fs, None)
      | Inr _ \<Rightarrow> (fs, Some ENOTDIR)
      | Inl _ \<Rightarrow>
          (case (if length es > 1 then mkdir_all rooted (butlast es) fs else (fs, None)) of
             (fs', Some e) \<Rightarrow> (fs', Some e)
           | (fs', None) \<Rightarrow>
               (case mkdir (path_of_elems rooted es) fs' of
                  (fs'', None) \<Rightarrow> (fs'', None)
                | (fs'', Some e) \<Rightarrow>
                    (case lstat fs'' (path_of_elems rooted es) of Inr Dir \<Rightarrow> (fs'', None) | _ \<Rightarrow> (fs'', Some e)))))"
  by pat_completeness auto

termination
  by (relation "measure (\<lambda>(_, es, _). length es)") auto

declare mkdir_all.simps [simp del]

definition mkdir_all_path :: "string \<Rightarrow> errno call" where
  "mkdir_all_path p = mkdir_all (is_abs p) (clean_elems (is_abs p) (split_on slash p))"

definition remove :: "string \<Rightarrow> errno call" where
  "remove p fs =
     (case lookup fs False p of
        Inl e \<Rightarrow> (fs, Some e)
      | Inr (q, Dir) \<Rightarrow>
          if q = [] \<or> list_ex (\<lambda>(r, _). r \<noteq> [] \<and> butlast r = q) (fs_nodes fs) then (fs, Some ENOTEMPTY)
          else (del_node q fs, None)
      | Inr (q, _) \<Rightarrow> (del_node q fs, None))"

text \<open>\<^verbatim>\<open>OpenFile\<close> with \<^verbatim>\<open>O_CREATE|O_WRONLY|O_TRUNC\<close>, then the content written to it. A link in the
  last place is followed.\<close>

definition write_regular :: "string \<Rightarrow> string \<Rightarrow> errno call" where
  "write_regular p content fs =
     (case resolve_path fs True p of
        Inl e \<Rightarrow> (fs, Some e)
      | Inr q \<Rightarrow>
          (case node_at fs q of
             Some Dir \<Rightarrow> (fs, Some EISDIR)
           | _ \<Rightarrow> (put_node q (Regular content) fs, None)))"

section \<open>Well-formed trees\<close>

text \<open>Every node lies in a directory, and its names can occur in a path.\<close>

definition fs_wf :: "fsys \<Rightarrow> bool" where
  "fs_wf fs \<longleftrightarrow>
     (\<forall>p n. p \<noteq> [] \<longrightarrow> node_at fs p = Some n \<longrightarrow> list_all plain_elem p \<and> node_at fs (butlast p) = Some Dir)"

lemma fs_wf_nodes:
  "list_all (\<lambda>(p, n). p \<noteq> [] \<and> list_all plain_elem p \<and> node_at fs (butlast p) = Some Dir) (fs_nodes fs) \<Longrightarrow> fs_wf fs"
  by (auto simp: fs_wf_def list_all_iff node_at_def dest!: map_of_SomeD split: if_splits)

lemma node_at_put: "p \<noteq> [] \<Longrightarrow> node_at (put_node p n fs) q = (if q = p then Some n else node_at fs q)"
  by (simp add: node_at_def put_node_def update_conv')

lemma node_at_del: "p \<noteq> [] \<Longrightarrow> node_at (del_node p fs) q = (if q = p then None else node_at fs q)"
  by (simp add: node_at_def del_node_def delete_conv')

lemma node_at_root [simp]: "node_at fs [] = Some Dir"
  by (simp add: node_at_def)

lemma wf_parent: "fs_wf fs \<Longrightarrow> node_at fs p = Some n \<Longrightarrow> node_at fs (butlast p) = Some Dir"
  by (cases "p = []") (auto simp: fs_wf_def)

lemma wf_plain: "fs_wf fs \<Longrightarrow> node_at fs p = Some n \<Longrightarrow> list_all plain_elem p"
  by (cases "p = []") (auto simp: fs_wf_def)

lemma butlast_neq: "p \<noteq> [] \<Longrightarrow> butlast p \<noteq> p"
  by (metis append_butlast_last_id not_Cons_self2 append_self_conv)

lemma wf_put:
  assumes "fs_wf fs" "p \<noteq> []" "list_all plain_elem p" "node_at fs (butlast p) = Some Dir"
    "node_at fs p \<noteq> Some Dir \<or> n = Dir"
  shows "fs_wf (put_node p n fs)"
  unfolding fs_wf_def
proof (intro allI impI)
  fix q m assume q: "q \<noteq> []" "node_at (put_node p n fs) q = Some m"
  have "list_all plain_elem q \<and> node_at fs (butlast q) = Some Dir"
    using q assms wf_parent [OF assms(1), of q] wf_plain [OF assms(1), of q] by (auto simp: node_at_put split: if_splits)
  then show "list_all plain_elem q \<and> node_at (put_node p n fs) (butlast q) = Some Dir"
    using assms(2,5) by (auto simp: node_at_put)
qed

lemma wf_del:
  assumes "fs_wf fs" "p \<noteq> []" "\<And>q m. node_at fs q = Some m \<Longrightarrow> q \<noteq> [] \<Longrightarrow> butlast q \<noteq> p"
  shows "fs_wf (del_node p fs)"
  unfolding fs_wf_def
proof (intro allI impI)
  fix q m assume "q \<noteq> []" "node_at (del_node p fs) q = Some m"
  then have q: "node_at fs q = Some m" using assms(2) by (simp add: node_at_del split: if_splits)
  then show "list_all plain_elem q \<and> node_at (del_node p fs) (butlast q) = Some Dir"
    using wf_parent [OF assms(1) q] wf_plain [OF assms(1) q] assms(3) [OF q \<open>q \<noteq> []\<close>] assms(2) by (simp add: node_at_del)
qed

section \<open>Where a path leads\<close>

lemma walk_place:
  "walk fs follow n cur cs = Inr q \<Longrightarrow> fs_wf fs \<Longrightarrow> node_at fs cur = Some Dir \<Longrightarrow>
    (\<forall>c \<in> set cs. slash \<notin> set c) \<Longrightarrow> list_all plain_elem q \<and> node_at fs (butlast q) = Some Dir"
proof (induction fs follow n cur cs rule: walk.induct)
  case (1 fs follow n cur)
  then show ?case using wf_plain wf_parent by auto
next
  case (2 fs follow n cur c cs)
  note wf = \<open>fs_wf fs\<close>
  have here: "list_all plain_elem (cur @ [c])" if "c \<noteq> []" "c \<noteq> ''.''" "c \<noteq> ''..''"
    using that wf_plain [OF wf "2.prems"(3)] "2.prems"(4) by (simp add: plain_elem_def)
  consider (skip) "c = [] \<or> c = ''.''" | (up) "c = ''..''" | (name) "c \<noteq> []" "c \<noteq> ''.''" "c \<noteq> ''..''" by blast
  then show ?case
  proof cases
    case skip
    then show ?thesis using "2.IH"(1) "2.prems" by simp
  next
    case up
    then show ?thesis using "2.IH"(2) "2.prems" wf_parent [OF wf "2.prems"(3)] by simp
  next
    case name
    show ?thesis
    proof (cases "node_at fs (cur @ [c])")
      case None
      then show ?thesis using name "2.prems" here by (auto split: if_splits)
    next
      case (Some nd)
      show ?thesis
      proof (cases nd)
        case Dir
        then show ?thesis using "2.IH"(3) name Some "2.prems" by simp
      next
        case (Regular x)
        then show ?thesis using name Some "2.prems" here by (auto split: if_splits)
      next
        case (Link l)
        show ?thesis
        proof (cases "cs = [] \<and> \<not> follow")
          case True
          then show ?thesis using name Some Link "2.prems" here by auto
        next
          case False
          with name Some Link "2.prems"(1) have n: "n \<noteq> 0"
            and w: "walk fs follow (n - 1) (if is_abs l then [] else cur) (split_on slash l @ cs) = Inr q"
            by (auto split: if_splits)
          have "\<forall>c \<in> set (split_on slash l @ cs). slash \<notin> set c"
            using "2.prems"(4) split_on_no_sep [of _ slash l] by auto
          then show ?thesis
            using "2.IH"(4) [OF _ name(3) Some Link False n w wf] name "2.prems"(3) by simp
        qed
      qed
    qed
  qed
qed

text \<open>A path no part of which is a link leads to itself.\<close>

definition no_links :: "fsys \<Rightarrow> phys \<Rightarrow> phys \<Rightarrow> bool" where
  "no_links fs cur es \<longleftrightarrow> (\<forall>k l. 0 < k \<longrightarrow> k \<le> length es \<longrightarrow> node_at fs (cur @ take k es) \<noteq> Some (Link l))"

lemma no_links_Cons:
  "no_links fs cur (e # es) \<longleftrightarrow> (\<forall>l. node_at fs (cur @ [e]) \<noteq> Some (Link l)) \<and> no_links fs (cur @ [e]) es"
proof
  assume nl: "no_links fs cur (e # es)"
  have "node_at fs (cur @ [e]) \<noteq> Some (Link l)" for l
    using nl [unfolded no_links_def, rule_format, of 1 l] by simp
  moreover have "node_at fs ((cur @ [e]) @ take k es) \<noteq> Some (Link l)" if "0 < k" "k \<le> length es" for k l
    using nl [unfolded no_links_def, rule_format, of "Suc k" l] that by simp
  ultimately show "(\<forall>l. node_at fs (cur @ [e]) \<noteq> Some (Link l)) \<and> no_links fs (cur @ [e]) es"
    by (simp add: no_links_def)
next
  assume nl: "(\<forall>l. node_at fs (cur @ [e]) \<noteq> Some (Link l)) \<and> no_links fs (cur @ [e]) es"
  show "no_links fs cur (e # es)"
    unfolding no_links_def
  proof (intro allI impI)
    fix k l assume "0 < k" "k \<le> length (e # es)"
    then show "node_at fs (cur @ take k (e # es)) \<noteq> Some (Link l)"
      using nl unfolding no_links_def by (cases k; cases "k - 1") auto
  qed
qed

lemma walk_no_links:
  "walk fs follow n cur es = Inr q \<Longrightarrow> list_all plain_elem es \<Longrightarrow>
    no_links fs cur (if follow then es else butlast es) \<Longrightarrow> q = cur @ es"
proof (induction es arbitrary: cur)
  case Nil
  then show ?case by simp
next
  case (Cons e es)
  have e: "e \<noteq> []" "e \<noteq> ''.''" "e \<noteq> ''..''" using Cons.prems(2) by (auto simp: plain_elem_def)
  show ?case
  proof (cases "\<not> follow \<and> es = []")
    case True
    then show ?thesis using Cons.prems(1) e by (auto split: option.splits node.splits)
  next
    case False
    then have nl: "\<forall>l. node_at fs (cur @ [e]) \<noteq> Some (Link l)" "no_links fs (cur @ [e]) (if follow then es else butlast es)"
    proof -
      have "(if follow then e # es else butlast (e # es)) = e # (if follow then es else butlast es)" using False by auto
      with Cons.prems(3) have "no_links fs cur (e # (if follow then es else butlast es))" by metis
      then show "\<forall>l. node_at fs (cur @ [e]) \<noteq> Some (Link l)" "no_links fs (cur @ [e]) (if follow then es else butlast es)"
        unfolding no_links_Cons by blast+
    qed
    show ?thesis
      using Cons.prems(1) e nl Cons.IH [of "cur @ [e]"] Cons.prems(2)
      by (auto split: option.splits node.splits if_splits)
  qed
qed

end
