(* ===== verification/Unpack.thy ===== *)
theory Unpack
  imports Unpack_Fs "HOL-Library.Sublist"
begin

text \<open>
  Archive extraction (\<^verbatim>\<open>src/src/unpack/unpack.go\<close>): \<open>Tar\<close> and \<open>Zip\<close> with the checks that keep every
  entry inside the destination, over the file system calls of \<^verbatim>\<open>Unpack_Fs\<close>. The archive readers
  are not modelled: an archive is the sequence of entries they deliver, or of an error.
\<close>

section \<open>Entries and errors\<close>

datatype entry_kind = EntryDir | EntryRegular | EntrySymlink | EntryOther

record archive_entry =
  ae_name :: string
  ae_kind :: entry_kind
  ae_link :: string
  ae_body :: string

datatype archive_item = Entry archive_entry | ReadError

datatype unpack_error =
    PathEscapes string
  | ThroughSymlink string
  | SymlinkEscapes string
  | SysError errno
  | BadArchive

definition sys :: "errno call \<Rightarrow> unpack_error call" where
  "sys f fs = (case f fs of (fs', e) \<Rightarrow> (fs', map_option SysError e))"

lemma fst_sys [simp]: "fst (sys f fs) = fst (f fs)"
  by (simp add: sys_def split: prod.split)

section \<open>Checks\<close>

text \<open>\<^verbatim>\<open>filepath.Rel\<close> for a directory that is the root or lies under it, the only way it is called.\<close>

definition rel_under :: "string \<Rightarrow> string \<Rightarrow> string" where
  "rel_under root dir = (if dir = root then ''.'' else drop (length root + 1) dir)"

fun symlink_part :: "fsys \<Rightarrow> string \<Rightarrow> string list \<Rightarrow> unpack_error option" where
  "symlink_part fs cur [] = None"
| "symlink_part fs cur (p # ps) =
     (let cur' = path_join [cur, p] in
      case lstat fs cur' of
        Inl e \<Rightarrow> if e = ENOENT then None else Some (SysError e)
      | Inr (Link _) \<Rightarrow> Some (ThroughSymlink cur')
      | Inr _ \<Rightarrow> symlink_part fs cur' ps)"

definition no_symlink_between :: "fsys \<Rightarrow> string \<Rightarrow> string \<Rightarrow> unpack_error option" where
  "no_symlink_between fs root dir =
     (if rel_under root dir = ''.'' then None else symlink_part fs root (split_on slash (rel_under root dir)))"

definition target :: "string \<Rightarrow> string \<Rightarrow> fsys \<Rightarrow> unpack_error + string" where
  "target dest rel fs =
     (let root = path_clean dest; t = path_join [root, rel] in
      if \<not> has_prefix t (root @ [slash]) then Inl (PathEscapes dest)
      else case no_symlink_between fs root (path_dir t) of
        Some e \<Rightarrow> Inl e
      | None \<Rightarrow> Inr t)"

section \<open>Writing entries\<close>

definition unpack_dir :: "string \<Rightarrow> string \<Rightarrow> unpack_error call" where
  "unpack_dir dest rel fs =
     (if path_join [dest, rel] = path_clean dest then sys (mkdir_all_path dest) fs
      else case target dest rel fs of
        Inl e \<Rightarrow> (fs, Some e)
      | Inr t \<Rightarrow> sys (mkdir_all_path t) fs)"

definition remove_symlink :: "string \<Rightarrow> errno call" where
  "remove_symlink t fs = (case lstat fs t of Inr (Link _) \<Rightarrow> remove t fs | _ \<Rightarrow> (fs, None))"

definition unpack_file :: "string \<Rightarrow> string \<Rightarrow> string \<Rightarrow> unpack_error call" where
  "unpack_file dest rel body fs =
     (case target dest rel fs of
        Inl e \<Rightarrow> (fs, Some e)
      | Inr t \<Rightarrow>
          sys (and_then (mkdir_all_path (path_dir t)) (and_then (remove_symlink t) (write_regular t body))) fs)"

definition unpack_symlink :: "string \<Rightarrow> string \<Rightarrow> string \<Rightarrow> unpack_error call" where
  "unpack_symlink dest rel link fs =
     (case target dest rel fs of
        Inl e \<Rightarrow> (fs, Some e)
      | Inr t \<Rightarrow>
          if is_abs link \<or> \<not> has_prefix (path_join [path_dir t, link]) (path_clean dest @ [slash])
          then (fs, Some (SymlinkEscapes link))
          else sys (and_then (mkdir_all_path (path_dir t)) (\<lambda>fs. symlink link t (fst (remove t fs)))) fs)"

section \<open>The two extractors\<close>

text \<open>What is left of a name after the stripped components; nothing to do for the prefix itself.\<close>

definition strip_name :: "nat \<Rightarrow> string \<Rightarrow> string" where
  "strip_name n name =
     (let parts = split_on slash name in if length parts \<le> n then [] else join [slash] (drop n parts))"

definition tar_entry :: "string \<Rightarrow> nat \<Rightarrow> archive_entry \<Rightarrow> unpack_error call" where
  "tar_entry dest n e fs =
     (let rel = strip_name n (ae_name e) in
      if rel = [] then (fs, None)
      else case ae_kind e of
        EntryDir \<Rightarrow> unpack_dir dest rel fs
      | EntryRegular \<Rightarrow> unpack_file dest rel (ae_body e) fs
      | EntrySymlink \<Rightarrow> unpack_symlink dest rel (ae_link e) fs
      | EntryOther \<Rightarrow> (fs, None))"

definition zip_entry :: "string \<Rightarrow> archive_entry \<Rightarrow> unpack_error call" where
  "zip_entry dest e fs =
     (case ae_kind e of
        EntryDir \<Rightarrow> unpack_dir dest (ae_name e) fs
      | EntrySymlink \<Rightarrow> unpack_symlink dest (ae_name e) (take 4096 (ae_body e)) fs
      | EntryRegular \<Rightarrow> unpack_file dest (ae_name e) (ae_body e) fs
      | EntryOther \<Rightarrow> (fs, None))"

fun each_entry :: "(archive_entry \<Rightarrow> unpack_error call) \<Rightarrow> archive_item list \<Rightarrow> unpack_error call" where
  "each_entry f [] fs = (fs, None)"
| "each_entry f (ReadError # is) fs = (fs, Some BadArchive)"
| "each_entry f (Entry e # is) fs =
     (case f e fs of (fs', Some err) \<Rightarrow> (fs', Some err) | (fs', None) \<Rightarrow> each_entry f is fs')"

definition untar :: "string \<Rightarrow> nat \<Rightarrow> archive_item list \<Rightarrow> unpack_error call" where
  "untar dest n is fs = each_entry (tar_entry dest n) is fs"

definition unzip :: "string \<Rightarrow> archive_item list \<Rightarrow> unpack_error call" where
  "unzip dest is fs = each_entry (zip_entry dest) is fs"

section \<open>Clean absolute paths\<close>

abbreviation abs_path :: "string list \<Rightarrow> string" where
  "abs_path \<equiv> path_of_elems True"

lemma clean_list_plain: "clean_list True es \<longleftrightarrow> list_all plain_elem es"
  by (auto simp: clean_list_def)

lemma plain_no_slash: "list_all plain_elem es \<Longrightarrow> list_all (\<lambda>e. slash \<notin> set e) es"
  by (auto simp: list_all_iff plain_elem_def)

lemma split_abs_path:
  "list_all plain_elem es \<Longrightarrow> split_on slash (abs_path es) = [] # (if es = [] then [[]] else es)"
  by (simp add: path_of_elems_def split_on_join plain_no_slash)

lemma abs_path_is_abs [simp]: "is_abs (abs_path es)"
  by (simp add: path_of_elems_def is_abs_def has_prefix_def)

lemma resolve_abs_path:
  "list_all plain_elem es \<Longrightarrow> resolve_path fs follow (abs_path es) = walk fs follow max_links [] es"
  by (simp add: resolve_path_def split_abs_path)

lemma path_clean_abs: "is_abs p \<Longrightarrow> \<exists>es. list_all plain_elem es \<and> path_clean p = abs_path es"
  using clean_elems_clean [of True p] by (auto simp: path_clean_def clean_list_plain)

lemma clean_elems_abs_path: "list_all plain_elem es \<Longrightarrow> clean_elems True (split_on slash (abs_path es)) = es"
  by (rule elems_of_path) (simp add: clean_list_plain)

lemma path_clean_abs_path: "list_all plain_elem es \<Longrightarrow> path_clean (abs_path es) = abs_path es"
  by (simp add: path_clean_def clean_elems_abs_path)

lemma mkdir_all_abs_path: "list_all plain_elem es \<Longrightarrow> mkdir_all_path (abs_path es) = mkdir_all True es"
  by (simp add: mkdir_all_path_def clean_elems_abs_path fun_eq_iff)

lemma split_on_append_both: "split_on sep (a @ sep # b) = split_on sep a @ split_on sep b"
proof (induction a)
  case (Cons c a)
  then show ?case using split_on_not_Nil [of sep a] by (cases "split_on sep a") auto
qed simp

text \<open>Joining under a root.\<close>

lemma join_under:
  assumes "list_all plain_elem R" "R \<noteq> []"
  shows "path_join [abs_path R, rel] = abs_path (clean_elems True (R @ split_on slash rel))"
proof (cases "rel = []")
  case True
  then show ?thesis using assms foldl_clean_plain [OF assms(1)]
    by (simp add: path_join_def path_clean_abs_path clean_elems_def clean_step_def path_of_elems_def
        path_clean_def is_abs_def has_prefix_def split_on_join plain_no_slash)
next
  case False
  have "is_abs (abs_path R @ slash # rel)" by (simp add: path_of_elems_def is_abs_def has_prefix_def)
  moreover have "abs_path R \<noteq> []" by (simp add: path_of_elems_def)
  ultimately show ?thesis using False assms
    by (simp add: path_join_def path_clean_def split_on_append_both split_abs_path clean_elems_def clean_step_def)
qed

lemma under_root:
  assumes "list_all plain_elem R" "R \<noteq> []" "list_all plain_elem es" "has_prefix (abs_path es) (abs_path R @ [slash])"
  shows "\<exists>ds. es = R @ ds \<and> ds \<noteq> []"
proof -
  obtain r where r: "abs_path es = abs_path R @ slash # r" using assms(4) by (auto simp: has_prefix_iff)
  have "[] # (if es = [] then [[]] else es) = ([] # R) @ split_on slash r"
    using split_abs_path [OF assms(3)] unfolding r split_on_append_both split_abs_path [OF assms(1)] using assms(2) by simp
  then show ?thesis using assms(2) split_on_not_Nil [of slash r] by (cases R; cases "es = []") auto
qed

lemma join_append: "R \<noteq> [] \<Longrightarrow> join sep (R @ ds) = join sep R @ (if ds = [] then [] else sep @ join sep ds)"
proof (induction R)
  case (Cons r R)
  then show ?case by (cases R; cases ds) auto
qed simp

lemma path_dir_abs_path:
  assumes "list_all plain_elem es" "es \<noteq> []"
  shows "path_dir (abs_path es) = abs_path (butlast es)"
proof -
  obtain ds e where es: "es = ds @ [e]" using assms(2) by (cases es rule: rev_cases) auto
  have e: "slash \<notin> set e" and ds: "list_all plain_elem ds" using assms(1) by (auto simp: es plain_elem_def)
  have join_snoc: "join [slash] (ds @ [e]) = (if ds = [] then e else join [slash] ds @ slash # e)"
    by (cases "ds = []") (simp_all add: join_append)
  have "abs_path es = (if ds = [] then [] else abs_path ds) @ slash # e"
    by (simp add: es path_of_elems_def join_snoc)
  moreover have "dropWhile (\<lambda>c. c \<noteq> slash) (rev e @ slash # rev p) = slash # rev p" for p
    using e by (subst dropWhile_append2) auto
  then have "path_dir (p @ slash # e) = path_clean (p @ [slash])" for p by (simp add: path_dir_def)
  ultimately have "path_dir (abs_path es) = path_clean ((if ds = [] then [] else abs_path ds) @ [slash])" by simp
  also have "\<dots> = abs_path ds"
  proof (cases "ds = []")
    case True
    then show ?thesis by (simp add: path_clean_def is_abs_def has_prefix_def clean_elems_def clean_step_def)
  next
    case False
    have "is_abs (abs_path ds @ [slash])" by (simp add: is_abs_def path_of_elems_def has_prefix_def)
    then show ?thesis using False ds foldl_clean_plain [OF ds]
      by (simp add: path_clean_def split_on_append_both split_abs_path clean_elems_def clean_step_def)
  qed
  finally show ?thesis by (simp add: es)
qed

lemma rel_under_abs_path:
  assumes "R \<noteq> []"
  shows "rel_under (abs_path R) (abs_path (R @ ds)) = (if ds = [] then ''.'' else join [slash] ds)"
proof -
  have "join [slash] (R @ ds) = join [slash] R @ (if ds = [] then [] else slash # join [slash] ds)"
    using join_append [OF assms, of "[slash]" ds] by simp
  then show ?thesis by (auto simp: rel_under_def path_of_elems_def)
qed

section \<open>What is below a link check\<close>

lemma wf_prefix_dir: "fs_wf fs \<Longrightarrow> node_at fs (p @ q) = Some n \<Longrightarrow> q \<noteq> [] \<Longrightarrow> node_at fs p = Some Dir"
proof (induction q arbitrary: n rule: rev_induct)
  case (snoc x q)
  have "node_at fs (p @ q) = Some Dir" using wf_parent [OF snoc.prems(1,2)] by (simp add: butlast_append)
  then show ?case using snoc.IH [OF snoc.prems(1)] by (cases "q = []") auto
qed simp

lemma walk_existing:
  "fs_wf fs \<Longrightarrow> node_at fs (cur @ es) = Some nd \<Longrightarrow> list_all plain_elem es \<Longrightarrow> walk fs False n cur es = Inr (cur @ es)"
proof (induction es arbitrary: cur)
  case (Cons e es)
  have e: "e \<noteq> []" "e \<noteq> ''.''" "e \<noteq> ''..''" using Cons.prems(3) by (auto simp: plain_elem_def)
  show ?case
  proof (cases "es = []")
    case True
    then show ?thesis using Cons.prems e by (auto split: node.splits)
  next
    case False
    then have "node_at fs (cur @ [e]) = Some Dir" using wf_prefix_dir [of fs "cur @ [e]" es] Cons.prems by simp
    then show ?thesis using Cons.IH [of "cur @ [e]"] Cons.prems e False by simp
  qed
qed simp

lemma lstat_existing:
  "fs_wf fs \<Longrightarrow> node_at fs es = Some nd \<Longrightarrow> list_all plain_elem es \<Longrightarrow> lstat fs (abs_path es) = Inr nd"
  using walk_existing [of fs "[]" es nd max_links] by (simp add: lstat_def lookup_def resolve_abs_path)

lemma symlink_part_None:
  "symlink_part fs (abs_path cur) ps = None \<Longrightarrow> fs_wf fs \<Longrightarrow> list_all plain_elem (cur @ ps) \<Longrightarrow> cur \<noteq> [] \<Longrightarrow>
    no_links fs cur ps"
proof (induction ps arbitrary: cur)
  case Nil
  then show ?case by (simp add: no_links_def)
next
  case (Cons p ps)
  have plain: "list_all plain_elem (cur @ [p])" using Cons.prems(3) by simp
  have split: "split_on slash p = [p]" using plain by (intro split_on_plain) (simp add: plain_elem_def)
  have join: "path_join [abs_path cur, p] = abs_path (cur @ [p])"
    using join_under [of cur p] plain Cons.prems(4) foldl_clean_plain [OF plain, of True "[]"] by (simp add: split clean_elems_def)
  show ?case
  proof (cases "node_at fs (cur @ [p])")
    case None
    have "node_at fs (cur @ take k (p # ps)) = None" if "0 < k" "k \<le> length (p # ps)" for k
    proof (cases "k = 1")
      case True
      then show ?thesis using None by simp
    next
      case False
      with that obtain j where "k = Suc j" "take j ps \<noteq> []" by (cases k; cases ps) auto
      then show ?thesis using wf_prefix_dir [OF Cons.prems(2), of "cur @ [p]" "take j ps"] None by fastforce
    qed
    then show ?thesis by (simp add: no_links_def)
  next
    case (Some nd)
    have l: "lstat fs (abs_path (cur @ [p])) = Inr nd" by (rule lstat_existing [OF Cons.prems(2) Some plain])
    then have "\<forall>l. nd \<noteq> Link l" and rest: "symlink_part fs (abs_path (cur @ [p])) ps = None"
      using Cons.prems(1) by (auto simp: join Let_def split: node.splits)
    moreover have "no_links fs (cur @ [p]) ps" using Cons.IH [OF rest Cons.prems(2)] Cons.prems(3) by simp
    ultimately show ?thesis using Some by (simp add: no_links_Cons)
  qed
qed

section \<open>What a call on a checked path can touch\<close>

text \<open>The path is not reached through a link; a call on it changes that node, and makes directories of
  missing nodes above it.\<close>

definition safe_at :: "phys \<Rightarrow> fsys \<Rightarrow> bool" where
  "safe_at q fs \<longleftrightarrow> fs_wf fs \<and> list_all plain_elem q \<and> q \<noteq> [] \<and> no_links fs [] (butlast q)"

definition touches :: "phys \<Rightarrow> fsys \<Rightarrow> fsys \<Rightarrow> bool" where
  "touches q fs fs' \<longleftrightarrow>
     (\<forall>p. node_at fs' p = node_at fs p \<or> p = q \<or>
        strict_prefix p q \<and> node_at fs p = None \<and> node_at fs' p = Some Dir)"

definition keeps :: "phys \<Rightarrow> 'e call \<Rightarrow> bool" where
  "keeps q f \<longleftrightarrow> (\<forall>fs. safe_at q fs \<longrightarrow> safe_at q (fst (f fs)) \<and> touches q fs (fst (f fs)))"

lemma touches_refl [simp]: "touches q fs fs"
  by (simp add: touches_def)

lemma touches_trans: "touches q fs fs' \<Longrightarrow> touches q fs' fs'' \<Longrightarrow> touches q fs fs''"
  unfolding touches_def by (metis option.distinct(1))

lemma no_links_prefix:
  "no_links fs [] es \<longleftrightarrow> (\<forall>p l. prefix p es \<longrightarrow> p \<noteq> [] \<longrightarrow> node_at fs p \<noteq> Some (Link l))"
proof
  assume nl: "no_links fs [] es"
  show "\<forall>p l. prefix p es \<longrightarrow> p \<noteq> [] \<longrightarrow> node_at fs p \<noteq> Some (Link l)"
  proof (intro allI impI)
    fix p l assume p: "prefix p es" "p \<noteq> []"
    then have "p = take (length p) es" "length p \<le> length es" by (auto simp: prefix_def)
    then show "node_at fs p \<noteq> Some (Link l)"
      using nl [unfolded no_links_def, rule_format, of "length p" l] p(2) by simp
  qed
next
  assume nl: "\<forall>p l. prefix p es \<longrightarrow> p \<noteq> [] \<longrightarrow> node_at fs p \<noteq> Some (Link l)"
  show "no_links fs [] es"
    unfolding no_links_def
  proof (intro allI impI)
    fix k l assume "0 < k" "k \<le> length es"
    then have "take k es \<noteq> []" by auto
    then show "node_at fs ([] @ take k es) \<noteq> Some (Link l)" using nl take_is_prefix [of k es] by simp
  qed
qed

lemma prefix_butlast: "q \<noteq> [] \<Longrightarrow> prefix p (butlast q) \<longleftrightarrow> strict_prefix p q"
proof -
  assume "q \<noteq> []"
  then obtain xs x where q: "q = xs @ [x]" by (cases q rule: rev_cases) auto
  show ?thesis by (auto simp: q strict_prefix_def)
qed

lemma touches_safe:
  assumes "safe_at q fs" "touches q fs fs'" "fs_wf fs'"
  shows "safe_at q fs'"
proof -
  have "node_at fs' p \<noteq> Some (Link l)" if "strict_prefix p q" "p \<noteq> []" for p l
    using that assms(1) assms(2) [unfolded touches_def, rule_format, of p]
    by (auto simp: safe_at_def no_links_prefix prefix_butlast strict_prefix_def)
  then show ?thesis using assms by (simp add: safe_at_def no_links_prefix prefix_butlast)
qed

lemma touches_put: "q \<noteq> [] \<Longrightarrow> touches q fs (put_node q n fs)"
  by (simp add: touches_def node_at_put)

lemma keeps_and_then: "keeps q f \<Longrightarrow> keeps q g \<Longrightarrow> keeps q (and_then f g)"
  unfolding keeps_def and_then_def
  by (auto split: prod.splits option.splits) (metis fst_conv touches_trans)+

lemma keeps_sys: "keeps q f \<Longrightarrow> keeps q (sys f)"
  unfolding keeps_def sys_def by (auto split: prod.splits)

lemma resolve_nofollow:
  assumes "safe_at q fs" "resolve_path fs False (abs_path q) = Inr r"
  shows "r = q \<and> node_at fs (butlast q) = Some Dir"
proof -
  have q: "list_all plain_elem q" "fs_wf fs" "no_links fs [] (butlast q)" using assms(1) by (simp_all add: safe_at_def)
  have w: "walk fs False max_links [] q = Inr r" using assms(2) q(1) by (simp add: resolve_abs_path)
  have "r = q" using walk_no_links [OF w q(1)] q(3) by simp
  moreover have "\<forall>c \<in> set q. slash \<notin> set c" using q(1) by (auto simp: list_all_iff plain_elem_def)
  ultimately show ?thesis using walk_place [OF w q(2)] by simp
qed

lemma resolve_follow:
  assumes "safe_at q fs" "\<And>l. node_at fs q \<noteq> Some (Link l)" "resolve_path fs True (abs_path q) = Inr r"
  shows "r = q \<and> node_at fs (butlast q) = Some Dir"
proof -
  have q: "list_all plain_elem q" "fs_wf fs" "no_links fs [] (butlast q)" "q \<noteq> []" using assms(1) by (simp_all add: safe_at_def)
  have w: "walk fs True max_links [] q = Inr r" using assms(3) q(1) by (simp add: resolve_abs_path)
  have "no_links fs [] q"
    using q(3,4) assms(2) by (auto simp: no_links_prefix prefix_butlast strict_prefix_def)
  then have "r = q" using walk_no_links [OF w q(1)] by simp
  moreover have "\<forall>c \<in> set q. slash \<notin> set c" using q(1) by (auto simp: list_all_iff plain_elem_def)
  ultimately show ?thesis using walk_place [OF w q(2)] by simp
qed

lemma keeps_create: "keeps q (create_node n (abs_path q))"
  unfolding keeps_def
proof (intro allI impI)
  fix fs assume safe: "safe_at q fs"
  then have q: "q \<noteq> []" "list_all plain_elem q" "fs_wf fs" by (simp_all add: safe_at_def)
  show "safe_at q (fst (create_node n (abs_path q) fs)) \<and> touches q fs (fst (create_node n (abs_path q) fs))"
  proof (cases "resolve_path fs False (abs_path q)")
    case (Inl e)
    then show ?thesis using safe by (simp add: create_node_def)
  next
    case (Inr r)
    have r: "r = q" "node_at fs (butlast q) = Some Dir" using resolve_nofollow [OF safe Inr] by simp_all
    show ?thesis
    proof (cases "node_at fs q")
      case None
      have "fs_wf (put_node q n fs)" using wf_put [OF q(3,1,2) r(2)] None by simp
      then show ?thesis
        using touches_safe [OF safe touches_put [OF q(1)]] touches_put [OF q(1)] Inr r None by (simp add: create_node_def)
    next
      case (Some nd)
      then show ?thesis using Inr r safe by (simp add: create_node_def)
    qed
  qed
qed

text \<open>Making directories only adds them.\<close>

definition adds_dirs :: "phys \<Rightarrow> fsys \<Rightarrow> fsys \<Rightarrow> bool" where
  "adds_dirs q fs fs' \<longleftrightarrow>
     (\<forall>p. node_at fs' p = node_at fs p \<or> prefix p q \<and> node_at fs p = None \<and> node_at fs' p = Some Dir)"

lemma adds_refl [simp]: "adds_dirs q fs fs"
  by (simp add: adds_dirs_def)

lemma adds_trans: "adds_dirs q fs fs' \<Longrightarrow> adds_dirs q fs' fs'' \<Longrightarrow> adds_dirs q fs fs''"
  unfolding adds_dirs_def by (metis option.distinct(1))

lemma adds_above: "adds_dirs q fs fs' \<Longrightarrow> prefix q r \<Longrightarrow> adds_dirs r fs fs'"
  unfolding adds_dirs_def by (meson prefix_order.trans)

lemma adds_touches: "adds_dirs q fs fs' \<Longrightarrow> touches q fs fs'"
  unfolding adds_dirs_def touches_def strict_prefix_def by blast

lemma mkdir_adds:
  assumes safe: "safe_at q fs"
  shows "fs_wf (fst (mkdir (abs_path q) fs)) \<and> adds_dirs q fs (fst (mkdir (abs_path q) fs))"
proof -
  have "fs_wf (fst (mkdir (abs_path q) fs))"
    using keeps_create [of q Dir] safe by (simp add: keeps_def safe_at_def)
  moreover have "adds_dirs q fs (fst (mkdir (abs_path q) fs))"
  proof (cases "resolve_path fs False (abs_path q)")
    case (Inr r)
    have "adds_dirs q fs (put_node q Dir fs)" if "node_at fs q = None"
      using that safe by (auto simp: adds_dirs_def node_at_put safe_at_def)
    then show ?thesis using Inr resolve_nofollow [OF safe Inr] by (simp add: create_node_def)
  qed (simp add: create_node_def)
  ultimately show ?thesis ..
qed

lemma safe_at_butlast:
  assumes "safe_at q fs" "length q > 1"
  shows "safe_at (butlast q) fs"
proof -
  have "butlast q \<noteq> []" using assms(2) by (cases q rule: rev_cases) auto
  moreover have "no_links fs [] (butlast (butlast q))"
    using assms(1) \<open>butlast q \<noteq> []\<close>
    by (auto simp: safe_at_def no_links_prefix prefix_butlast strict_prefix_def)
  ultimately show ?thesis using assms(1) by (auto simp: safe_at_def list_all_iff dest: in_set_butlastD)
qed

lemma mkdir_all_adds:
  "safe_at q fs \<Longrightarrow> fs_wf (fst (mkdir_all True q fs)) \<and> adds_dirs q fs (fst (mkdir_all True q fs))"
proof (induction "length q" arbitrary: q fs rule: less_induct)
  case less
  have q: "q \<noteq> []" "fs_wf fs" using less.prems by (simp_all add: safe_at_def)
  define par where "par = (if length q > 1 then mkdir_all True (butlast q) fs else (fs, None))"
  have par: "fs_wf (fst par) \<and> adds_dirs q fs (fst par)"
  proof (cases "length q > 1")
    case False
    then show ?thesis using q by (simp add: par_def)
  next
    case True
    then have "fs_wf (fst par) \<and> adds_dirs (butlast q) fs (fst par)"
      using less.hyps [OF _ safe_at_butlast [OF less.prems True]] by (simp add: par_def)
    then show ?thesis using adds_above [OF _ prefixeq_butlast] by blast
  qed
  then have safe: "safe_at q (fst par)" using touches_safe [OF less.prems adds_touches] by blast
  let ?m = "mkdir (abs_path q) (fst par)"
  have m: "fs_wf (fst ?m) \<and> adds_dirs q fs (fst ?m)"
    using mkdir_adds [OF safe] adds_trans par by blast
  have unfold: "mkdir_all True q fs =
      (case stat fs (abs_path q) of
         Inr Dir \<Rightarrow> (fs, None)
       | Inr _ \<Rightarrow> (fs, Some ENOTDIR)
       | Inl _ \<Rightarrow>
          (case par of
             (fs', Some e) \<Rightarrow> (fs', Some e)
           | (fs', None) \<Rightarrow>
               (case mkdir (abs_path q) fs' of
                  (fs'', None) \<Rightarrow> (fs'', None)
                | (fs'', Some e) \<Rightarrow> (case lstat fs'' (abs_path q) of Inr Dir \<Rightarrow> (fs'', None) | _ \<Rightarrow> (fs'', Some e)))))"
    unfolding par_def by (rule mkdir_all.simps)
  obtain fs1 e1 fs2 e2 where p: "par = (fs1, e1)" and c: "mkdir (abs_path q) fs1 = (fs2, e2)" by (metis surj_pair)
  have "fst (mkdir_all True q fs) \<in> {fs, fst par, fst ?m}"
    unfolding unfold p by (cases e1; cases e2) (simp_all add: p c split: sum.split node.split)
  then show ?case using par m q by auto
qed

lemma mkdir_all_safe:
  "safe_at q fs \<Longrightarrow> safe_at q (fst (mkdir_all True q fs)) \<and> touches q fs (fst (mkdir_all True q fs))"
  using mkdir_all_adds [of q fs] touches_safe [of q fs] adds_touches by blast

lemma keeps_mkdir_all: "keeps q (mkdir_all True q)"
  by (simp add: keeps_def mkdir_all_safe)

lemma keeps_mkdir_parent:
  assumes "length q > 1"
  shows "keeps q (mkdir_all True (butlast q))"
  unfolding keeps_def
proof (intro allI impI)
  fix fs assume safe: "safe_at q fs"
  let ?fs = "fst (mkdir_all True (butlast q) fs)"
  have m: "fs_wf ?fs" "adds_dirs (butlast q) fs ?fs" using mkdir_all_adds [OF safe_at_butlast [OF safe assms]] by simp_all
  then have "adds_dirs q fs ?fs" using safe by (intro adds_above [OF m(2)]) (simp add: prefixeq_butlast)
  then show "safe_at q ?fs \<and> touches q fs ?fs" using touches_safe [OF safe _ m(1)] adds_touches by blast
qed

lemma keeps_remove: "keeps q (remove (abs_path q))"
  unfolding keeps_def
proof (intro allI impI)
  fix fs assume safe: "safe_at q fs"
  then have q: "q \<noteq> []" "fs_wf fs" by (simp_all add: safe_at_def)
  show "safe_at q (fst (remove (abs_path q) fs)) \<and> touches q fs (fst (remove (abs_path q) fs))"
  proof (cases "fst (remove (abs_path q) fs) = fs")
    case True
    then show ?thesis using safe by simp
  next
    case False
    have del: "fst (remove (abs_path q) fs) = del_node q fs"
      "\<not> (node_at fs q = Some Dir \<and> list_ex (\<lambda>(r, _). r \<noteq> [] \<and> butlast r = q) (fs_nodes fs))"
      using False resolve_nofollow [OF safe]
      by (auto simp: remove_def lookup_def split: sum.splits option.splits node.splits if_splits)
    have "butlast p \<noteq> q" if "node_at fs p = Some m" "p \<noteq> []" for p m
    proof
      assume p: "butlast p = q"
      have "(p, m) \<in> set (fs_nodes fs)" using that by (auto simp: node_at_def dest: map_of_SomeD)
      then have "list_ex (\<lambda>(r, _). r \<noteq> [] \<and> butlast r = q) (fs_nodes fs)" using p that(2) by (auto simp: list_ex_iff)
      moreover have "node_at fs q = Some Dir" using wf_parent [OF q(2) that(1)] p by simp
      ultimately show False using del(2) by simp
    qed
    then have "fs_wf (del_node q fs)" by (intro wf_del [OF q(2,1)])
    moreover have "touches q fs (del_node q fs)" using q(1) by (simp add: touches_def node_at_del)
    ultimately show ?thesis using touches_safe [OF safe] by (simp add: del(1))
  qed
qed

lemma removed_symlink:
  assumes safe: "safe_at q fs" and "remove_symlink (abs_path q) fs = (fs', None)"
  shows "node_at fs' q \<noteq> Some (Link l)"
proof (cases "node_at fs q")
  case None
  have "lstat fs (abs_path q) \<noteq> Inr nd" for nd
    using resolve_nofollow [OF safe] None by (auto simp: lstat_def lookup_def split: sum.splits option.splits)
  then have "fs' = fs" using assms(2) by (auto simp: remove_symlink_def split: sum.splits node.splits)
  then show ?thesis using None by simp
next
  case (Some nd)
  have q: "list_all plain_elem q" "fs_wf fs" "q \<noteq> []" using safe by (simp_all add: safe_at_def)
  have w: "resolve_path fs False (abs_path q) = Inr q"
    using walk_existing [of fs "[]" q nd max_links] q Some by (simp add: resolve_abs_path)
  show ?thesis
  proof (cases nd)
    case (Link l')
    then have "fs' = del_node q fs"
      using assms(2) lstat_existing [OF q(2) Some q(1)] w Some by (simp add: remove_symlink_def remove_def lookup_def)
    then show ?thesis using q(3) by (simp add: node_at_del)
  next
    case Dir
    then show ?thesis using assms(2) lstat_existing [OF q(2) Some q(1)] Some by (simp add: remove_symlink_def)
  next
    case (Regular x)
    then show ?thesis using assms(2) lstat_existing [OF q(2) Some q(1)] Some by (simp add: remove_symlink_def)
  qed
qed

lemma keeps_remove_symlink: "keeps q (remove_symlink (abs_path q))"
  using keeps_remove [of q] unfolding keeps_def remove_symlink_def
  by (auto split: sum.splits node.splits)

lemma write_regular_safe:
  assumes safe: "safe_at q fs" and nl: "\<And>l. node_at fs q \<noteq> Some (Link l)"
  shows "safe_at q (fst (write_regular (abs_path q) body fs)) \<and> touches q fs (fst (write_regular (abs_path q) body fs))"
proof (cases "resolve_path fs True (abs_path q)")
  case (Inl e)
  then show ?thesis using safe by (simp add: write_regular_def)
next
  case (Inr r)
  have q: "q \<noteq> []" "list_all plain_elem q" "fs_wf fs" using safe by (simp_all add: safe_at_def)
  have r: "r = q" "node_at fs (butlast q) = Some Dir" using resolve_follow [OF safe nl Inr] by simp_all
  show ?thesis
  proof (cases "node_at fs q = Some Dir")
    case True
    then show ?thesis using Inr r safe by (simp add: write_regular_def)
  next
    case False
    have "fs_wf (put_node q (Regular body) fs)" using wf_put [OF q(3,1,2) r(2)] False by simp
    then have "safe_at q (put_node q (Regular body) fs) \<and> touches q fs (put_node q (Regular body) fs)"
      using touches_safe [OF safe touches_put [OF q(1)]] touches_put [OF q(1)] by blast
    moreover have "fst (write_regular (abs_path q) body fs) = put_node q (Regular body) fs"
      using Inr r False by (auto simp: write_regular_def split: option.splits node.splits)
    ultimately show ?thesis by simp
  qed
qed

lemma keeps_replace: "keeps q (and_then (remove_symlink (abs_path q)) (write_regular (abs_path q) body))"
  unfolding keeps_def
proof (intro allI impI)
  fix fs assume safe: "safe_at q fs"
  obtain fs1 e where r: "remove_symlink (abs_path q) fs = (fs1, e)" by (cases "remove_symlink (abs_path q) fs")
  have s1: "safe_at q fs1" "touches q fs fs1" using keeps_remove_symlink [of q] safe r unfolding keeps_def by (metis fst_conv)+
  show "safe_at q (fst (and_then (remove_symlink (abs_path q)) (write_regular (abs_path q) body) fs)) \<and>
      touches q fs (fst (and_then (remove_symlink (abs_path q)) (write_regular (abs_path q) body) fs))"
  proof (cases e)
    case None
    have w: "safe_at q (fst (write_regular (abs_path q) body fs1))" "touches q fs1 (fst (write_regular (abs_path q) body fs1))"
      using write_regular_safe [OF s1(1)] removed_symlink [OF safe] r None by blast+
    show ?thesis using w touches_trans [OF s1(2) w(2)] by (simp add: and_then_def r None)
  next
    case (Some err)
    then show ?thesis using s1 by (simp add: and_then_def r)
  qed
qed

section \<open>Entries stay inside\<close>

text \<open>The destination, as a list of names, is reached without links.\<close>

definition plain_root :: "string \<Rightarrow> phys \<Rightarrow> fsys \<Rightarrow> bool" where
  "plain_root dest R fs \<longleftrightarrow>
     path_clean dest = abs_path R \<and> list_all plain_elem R \<and> R \<noteq> [] \<and> fs_wf fs \<and> no_links fs [] R"

text \<open>Only nodes strictly below the destination change, and missing directories on the way to it are
  made.\<close>

definition inside :: "phys \<Rightarrow> fsys \<Rightarrow> fsys \<Rightarrow> bool" where
  "inside R fs fs' \<longleftrightarrow>
     (\<forall>p. node_at fs' p = node_at fs p \<or> strict_prefix R p \<or>
        prefix p R \<and> node_at fs p = None \<and> node_at fs' p = Some Dir)"

lemma inside_refl [simp]: "inside R fs fs"
  by (simp add: inside_def)

lemma inside_trans: "inside R fs fs' \<Longrightarrow> inside R fs' fs'' \<Longrightarrow> inside R fs fs''"
  unfolding inside_def by (metis option.distinct(1))

lemma inside_root:
  assumes "plain_root dest R fs" "inside R fs fs'" "fs_wf fs'"
  shows "plain_root dest R fs'"
proof -
  have "node_at fs' p \<noteq> Some (Link l)" if "prefix p R" "p \<noteq> []" for p l
    using that assms(1) assms(2) [unfolded inside_def, rule_format, of p]
    by (auto simp: plain_root_def no_links_prefix strict_prefix_def)
  then show ?thesis using assms by (simp add: plain_root_def no_links_prefix)
qed

lemma touches_inside: "touches (R @ es) fs fs' \<Longrightarrow> es \<noteq> [] \<Longrightarrow> inside R fs fs'"
  unfolding touches_def inside_def
  by (metis append_self_conv prefix_order.less_imp_le prefix_same_cases prefixI strict_prefix_def)

lemma no_links_append: "no_links fs cur R \<Longrightarrow> no_links fs (cur @ R) es \<Longrightarrow> no_links fs cur (R @ es)"
  by (induction R arbitrary: cur) (simp_all add: no_links_Cons)

lemma target_safe:
  assumes root: "plain_root dest R fs" and t: "target dest rel fs = Inr t"
  shows "\<exists>es. es \<noteq> [] \<and> t = abs_path (R @ es) \<and> safe_at (R @ es) fs"
proof -
  have R: "path_clean dest = abs_path R" "list_all plain_elem R" "R \<noteq> []" "fs_wf fs" "no_links fs [] R"
    using root by (simp_all add: plain_root_def)
  let ?e = "clean_elems True (R @ split_on slash rel)"
  have join: "path_join [abs_path R, rel] = abs_path ?e" by (rule join_under [OF R(2,3)])
  have plain: "list_all plain_elem ?e"
  proof -
    have "R @ split_on slash rel = split_on slash (join [slash] R @ slash # rel)"
      using R(2,3) by (simp add: split_on_append_both split_on_join plain_no_slash)
    then show ?thesis using clean_elems_clean [of True "join [slash] R @ slash # rel"] by (simp add: clean_list_plain)
  qed
  have pre: "has_prefix (abs_path ?e) (abs_path R @ [slash])" and tt: "t = abs_path ?e"
    and nosym: "no_symlink_between fs (abs_path R) (path_dir (abs_path ?e)) = None"
    using t by (auto simp: target_def Let_def R(1) join split: if_splits option.splits)
  obtain es where es: "?e = R @ es" "es \<noteq> []" using under_root [OF R(2,3) plain pre] by blast
  have dir: "path_dir (abs_path ?e) = abs_path (R @ butlast es)"
    using path_dir_abs_path [OF plain] es by (simp add: butlast_append)
  have "no_links fs R (butlast es)"
  proof (cases "butlast es = []")
    case True
    then show ?thesis by (simp add: no_links_def)
  next
    case False
    have pb: "list_all plain_elem (R @ butlast es)" using plain es by (auto simp: list_all_iff dest: in_set_butlastD)
    then have ps: "list_all (\<lambda>e. slash \<notin> set e) (butlast es)" using plain_no_slash [OF pb] by simp
    have "join [slash] (butlast es) \<noteq> ''.''"
    proof
      assume "join [slash] (butlast es) = ''.''"
      then have "butlast es = [''.'']" using split_on_join [OF False ps] by simp
      then show False using pb by (simp add: plain_elem_def)
    qed
    then have "symlink_part fs (abs_path R) (butlast es) = None"
      using nosym False ps by (simp add: no_symlink_between_def dir rel_under_abs_path [OF R(3)] split_on_join)
    then show ?thesis by (rule symlink_part_None [OF _ R(4) pb R(3)])
  qed
  then have "no_links fs [] (R @ butlast es)" using R(5) no_links_append [of fs "[]"] by simp
  then show ?thesis using es plain tt R(4) by (auto simp: safe_at_def butlast_append)
qed

text \<open>A call that keeps every checked path keeps the destination.\<close>

definition confined :: "string \<Rightarrow> phys \<Rightarrow> unpack_error call \<Rightarrow> bool" where
  "confined dest R f \<longleftrightarrow> (\<forall>fs. plain_root dest R fs \<longrightarrow> plain_root dest R (fst (f fs)) \<and> inside R fs (fst (f fs)))"

lemma keeps_confined:
  assumes "plain_root dest R fs" "es \<noteq> []" "safe_at (R @ es) fs" "keeps (R @ es) f"
  shows "plain_root dest R (fst (sys f fs)) \<and> inside R fs (fst (sys f fs))"
proof -
  have k: "safe_at (R @ es) (fst (sys f fs))" "touches (R @ es) fs (fst (sys f fs))"
    using keeps_sys [OF assms(4)] assms(3) by (simp_all add: keeps_def)
  have "inside R fs (fst (sys f fs))" by (rule touches_inside [OF k(2) assms(2)])
  then show ?thesis using inside_root [OF assms(1)] k(1) by (simp add: safe_at_def)
qed

lemma parent_of_target:
  assumes "plain_root dest R fs" "es \<noteq> []" "safe_at (R @ es) fs"
  shows "mkdir_all_path (path_dir (abs_path (R @ es))) = mkdir_all True (butlast (R @ es))" "length (R @ es) > 1"
proof -
  have plain: "list_all plain_elem (R @ es)" "list_all plain_elem (butlast (R @ es))"
    using assms(3) by (auto simp: safe_at_def list_all_iff dest: in_set_butlastD)
  show "mkdir_all_path (path_dir (abs_path (R @ es))) = mkdir_all True (butlast (R @ es))"
    using assms(2) plain by (simp add: path_dir_abs_path mkdir_all_abs_path)
  show "length (R @ es) > 1" using assms(1,2) by (cases R; cases es) (auto simp: plain_root_def)
qed

lemma unpack_file_confined: "confined dest R (unpack_file dest rel body)"
  unfolding confined_def
proof (intro allI impI)
  fix fs assume root: "plain_root dest R fs"
  show "plain_root dest R (fst (unpack_file dest rel body fs)) \<and> inside R fs (fst (unpack_file dest rel body fs))"
  proof (cases "target dest rel fs")
    case (Inl e)
    then show ?thesis using root by (simp add: unpack_file_def)
  next
    case (Inr t)
    obtain es where es: "es \<noteq> []" "t = abs_path (R @ es)" "safe_at (R @ es) fs" using target_safe [OF root Inr] by blast
    note par = parent_of_target [OF root es(1,3)]
    have "keeps (R @ es) (and_then (mkdir_all_path (path_dir t)) (and_then (remove_symlink t) (write_regular t body)))"
      unfolding es(2) par(1) by (intro keeps_and_then [OF keeps_mkdir_parent [OF par(2)] keeps_replace])
    then show ?thesis using keeps_confined [OF root es(1,3)] Inr by (simp add: unpack_file_def)
  qed
qed

lemma keeps_after: "keeps q f \<Longrightarrow> keeps q g \<Longrightarrow> keeps q (\<lambda>fs. g (fst (f fs)))"
  unfolding keeps_def using touches_trans by blast

lemma unpack_symlink_confined: "confined dest R (unpack_symlink dest rel link)"
  unfolding confined_def
proof (intro allI impI)
  fix fs assume root: "plain_root dest R fs"
  show "plain_root dest R (fst (unpack_symlink dest rel link fs)) \<and> inside R fs (fst (unpack_symlink dest rel link fs))"
  proof (cases "target dest rel fs")
    case (Inl e)
    then show ?thesis using root by (simp add: unpack_symlink_def)
  next
    case (Inr t)
    obtain es where es: "es \<noteq> []" "t = abs_path (R @ es)" "safe_at (R @ es) fs" using target_safe [OF root Inr] by blast
    note par = parent_of_target [OF root es(1,3)]
    have "keeps (R @ es) (and_then (mkdir_all_path (path_dir t)) (\<lambda>fs. symlink link t (fst (remove t fs))))"
      unfolding es(2) par(1)
      by (intro keeps_and_then [OF keeps_mkdir_parent [OF par(2)] keeps_after [OF keeps_remove keeps_create]])
    then show ?thesis using keeps_confined [OF root es(1,3)] Inr root by (simp add: unpack_symlink_def)
  qed
qed

lemma unpack_dir_confined:
  assumes "is_abs dest"
  shows "confined dest R (unpack_dir dest rel)"
  unfolding confined_def
proof (intro allI impI)
  fix fs assume root: "plain_root dest R fs"
  show "plain_root dest R (fst (unpack_dir dest rel fs)) \<and> inside R fs (fst (unpack_dir dest rel fs))"
  proof (cases "path_join [dest, rel] = path_clean dest")
    case True
    have R: "list_all plain_elem R" "R \<noteq> []" "fs_wf fs" "no_links fs [] R" using root by (simp_all add: plain_root_def)
    let ?E = "clean_elems True (split_on slash dest)"
    have "abs_path ?E = abs_path R" using root assms by (simp add: plain_root_def path_clean_def)
    then have "clean_elems True (split_on slash (abs_path ?E)) = clean_elems True (split_on slash (abs_path R))" by simp
    then have "?E = R"
      unfolding elems_of_path [OF clean_elems_clean] clean_elems_abs_path [OF R(1)] .
    then have mk: "mkdir_all_path dest = mkdir_all True R" using assms by (simp add: mkdir_all_path_def fun_eq_iff)
    have "no_links fs [] (butlast R)"
      using R(4) unfolding no_links_prefix by (blast intro: prefix_order.trans [OF _ prefixeq_butlast])
    then have "safe_at R fs" using R by (simp add: safe_at_def)
    then have m: "fs_wf (fst (mkdir_all True R fs))" "adds_dirs R fs (fst (mkdir_all True R fs))" using mkdir_all_adds by blast+
    have "inside R fs (fst (mkdir_all True R fs))" using m(2) unfolding adds_dirs_def inside_def by blast
    then have "plain_root dest R (fst (mkdir_all True R fs)) \<and> inside R fs (fst (mkdir_all True R fs))"
      using inside_root [OF root _ m(1)] by blast
    then show ?thesis using True by (simp add: unpack_dir_def mk)
  next
    case False
    show ?thesis
    proof (cases "target dest rel fs")
      case (Inl e)
      then show ?thesis using root False by (simp add: unpack_dir_def)
    next
      case (Inr t)
      obtain es where es: "es \<noteq> []" "t = abs_path (R @ es)" "safe_at (R @ es) fs" using target_safe [OF root Inr] by blast
      have "mkdir_all_path t = mkdir_all True (R @ es)" using es by (simp add: safe_at_def mkdir_all_abs_path)
      then show ?thesis using keeps_confined [OF root es(1,3) keeps_mkdir_all] Inr False by (simp add: unpack_dir_def)
    qed
  qed
qed

lemma each_entry_confined:
  assumes "\<And>e. confined dest R (f e)"
  shows "confined dest R (each_entry f xs)"
proof -
  have "plain_root dest R fs \<Longrightarrow> plain_root dest R (fst (each_entry f xs fs)) \<and> inside R fs (fst (each_entry f xs fs))" for fs
  proof (induction xs arbitrary: fs)
    case Nil
    then show ?case by simp
  next
    case (Cons x xs)
    show ?case
    proof (cases x)
      case ReadError
      then show ?thesis using Cons.prems by simp
    next
      case (Entry e)
      obtain fs1 r where r: "f e fs = (fs1, r)" by (cases "f e fs")
      have step: "plain_root dest R fs1" "inside R fs fs1"
        using assms [of e] Cons.prems r unfolding confined_def by (metis fst_conv)+
      show ?thesis
      proof (cases r)
        case None
        then show ?thesis using Cons.IH [OF step(1)] inside_trans [OF step(2)] r Entry by simp
      next
        case (Some err)
        then show ?thesis using step r Entry by simp
      qed
    qed
  qed
  then show ?thesis by (simp add: confined_def)
qed

lemma confined_skip: "confined dest R (\<lambda>fs. (fs, None))"
  by (simp add: confined_def)

lemma tar_entry_confined: "is_abs dest \<Longrightarrow> confined dest R (tar_entry dest n e)"
  using unpack_dir_confined [of dest R] unpack_file_confined [of dest R] unpack_symlink_confined [of dest R]
  by (simp add: confined_def tar_entry_def Let_def split: entry_kind.split)

lemma zip_entry_confined: "is_abs dest \<Longrightarrow> confined dest R (zip_entry dest e)"
  using unpack_dir_confined [of dest R] unpack_file_confined [of dest R] unpack_symlink_confined [of dest R]
  by (simp add: confined_def zip_entry_def split: entry_kind.split)

section \<open>What extraction guarantees\<close>

text \<open>C10: Whatever the archive holds, and whether extraction succeeds or fails half way, nothing outside
  the destination changes: every node that differs afterwards lies strictly below the destination,
  or is a directory made on the way to it. The destination is an absolute path no part of which is
  a symbolic link; symbolic links below it, from before or from the archive, do not matter.\<close>

theorem untar_stays_inside:
  assumes "is_abs dest" "path_clean dest = abs_path R" "list_all plain_elem R" "R \<noteq> []" "fs_wf fs" "no_links fs [] R"
    "untar dest n items fs = (fs', err)" "node_at fs' p \<noteq> node_at fs p"
  shows "strict_prefix R p \<or> prefix p R \<and> node_at fs p = None \<and> node_at fs' p = Some Dir"
proof -
  have "plain_root dest R fs" using assms(2-6) by (simp add: plain_root_def)
  then have "inside R fs fs'"
    using each_entry_confined [of dest R "tar_entry dest n" items] tar_entry_confined [OF assms(1), of R] assms(7)
    unfolding confined_def untar_def by (metis fst_conv)
  then show ?thesis using assms(8) unfolding inside_def by blast
qed

text \<open>The same for a zip archive.\<close>

theorem unzip_stays_inside:
  assumes "is_abs dest" "path_clean dest = abs_path R" "list_all plain_elem R" "R \<noteq> []" "fs_wf fs" "no_links fs [] R"
    "unzip dest items fs = (fs', err)" "node_at fs' p \<noteq> node_at fs p"
  shows "strict_prefix R p \<or> prefix p R \<and> node_at fs p = None \<and> node_at fs' p = Some Dir"
proof -
  have "plain_root dest R fs" using assms(2-6) by (simp add: plain_root_def)
  then have "inside R fs fs'"
    using each_entry_confined [of dest R "zip_entry dest" items] zip_entry_confined [OF assms(1), of R] assms(7)
    unfolding confined_def unzip_def by (metis fst_conv)
  then show ?thesis using assms(8) unfolding inside_def by blast
qed

text \<open>Extraction keeps the tree well formed: every node lies in a directory, no link of the
  destination's own path appears, whatever the archive holds.\<close>

theorem untar_keeps_tree:
  assumes "is_abs dest" "path_clean dest = abs_path R" "list_all plain_elem R" "R \<noteq> []" "fs_wf fs" "no_links fs [] R"
    "untar dest n items fs = (fs', err)"
  shows "fs_wf fs' \<and> no_links fs' [] R"
proof -
  have "plain_root dest R fs" using assms(2-6) by (simp add: plain_root_def)
  then have "plain_root dest R fs'"
    using each_entry_confined [of dest R "tar_entry dest n" items] tar_entry_confined [OF assms(1), of R] assms(7)
    unfolding confined_def untar_def by (metis fst_conv)
  then show ?thesis by (simp add: plain_root_def)
qed

section \<open>Archives\<close>

definition link_entry :: "string \<Rightarrow> string \<Rightarrow> archive_item" where
  "link_entry name l = Entry \<lparr>ae_name = name, ae_kind = EntrySymlink, ae_link = l, ae_body = l\<rparr>"

definition dir_entry :: "string \<Rightarrow> archive_item" where
  "dir_entry name = Entry \<lparr>ae_name = name, ae_kind = EntryDir, ae_link = [], ae_body = []\<rparr>"

definition file_entry :: "string \<Rightarrow> string \<Rightarrow> archive_item" where
  "file_entry name body = Entry \<lparr>ae_name = name, ae_kind = EntryRegular, ae_link = [], ae_body = body\<rparr>"

definition demo_disk :: fsys where
  "demo_disk = \<lparr>fs_nodes = [([''srv''], Dir), ([''etc''], Dir), ([''etc'', ''passwd''], Regular ''secret'')], fs_cwd = []\<rparr>"

lemma demo_disk_wf: "fs_wf demo_disk"
  by (rule fs_wf_nodes) (simp add: demo_disk_def node_at_def plain_elem_def)

lemma demo_disk_links: "no_links demo_disk [] [''srv'', ''out'']"
  by (simp add: no_links_Cons) (simp add: no_links_def demo_disk_def node_at_def)

definition demo_archive :: "archive_item list" where
  "demo_archive = [file_entry ''top/bin/tool'' ''x'', link_entry ''top/up'' ''..'', file_entry ''top/up/evil'' ''x'']"

lemma demo_dest: "is_abs ''/srv/out''" "path_clean ''/srv/out'' = abs_path [''srv'', ''out'']" "list_all plain_elem [''srv'', ''out'']"
  by code_simp+

theorem untar_stays_inside_witness:
  "strict_prefix [''srv'', ''out''] [''srv'', ''out'', ''bin'', ''tool'']"
proof -
  obtain fs' err where run: "untar ''/srv/out'' 1 demo_archive demo_disk = (fs', err)" by (cases "untar ''/srv/out'' 1 demo_archive demo_disk")
  have "node_at (fst (untar ''/srv/out'' 1 demo_archive demo_disk)) [''srv'', ''out'', ''bin'', ''tool''] = Some (Regular ''x'')"
    by code_simp
  then have "node_at fs' [''srv'', ''out'', ''bin'', ''tool''] \<noteq> node_at demo_disk [''srv'', ''out'', ''bin'', ''tool'']"
    unfolding run by (simp add: demo_disk_def node_at_def)
  then show ?thesis
    using untar_stays_inside [OF demo_dest _ demo_disk_wf demo_disk_links run] by (auto dest: prefix_length_le)
qed

theorem unzip_stays_inside_witness:
  "strict_prefix [''srv'', ''out''] [''srv'', ''out'', ''f'']"
proof -
  obtain fs' err where run: "unzip ''/srv/out'' [file_entry ''./f'' ''x''] demo_disk = (fs', err)"
    by (cases "unzip ''/srv/out'' [file_entry ''./f'' ''x''] demo_disk")
  have "node_at (fst (unzip ''/srv/out'' [file_entry ''./f'' ''x''] demo_disk)) [''srv'', ''out'', ''f''] = Some (Regular ''x'')"
    by code_simp
  then have "node_at fs' [''srv'', ''out'', ''f''] \<noteq> node_at demo_disk [''srv'', ''out'', ''f'']"
    unfolding run by (simp add: demo_disk_def node_at_def)
  then show ?thesis
    using unzip_stays_inside [OF demo_dest _ demo_disk_wf demo_disk_links run] by (auto dest: prefix_length_le)
qed

theorem untar_keeps_tree_witness:
  "fs_wf (fst (untar ''/srv/out'' 1 demo_archive demo_disk))"
  using untar_keeps_tree [OF demo_dest _ demo_disk_wf demo_disk_links, of 1 demo_archive] by (metis list.distinct(1) prod.collapse)

text \<open>A symbolic link can still lead out: its target is checked by name, as if no directory on the
  way were a link. An archive whose link \<open>a/b/c/x\<close> points to the directory \<open>d\<close> and whose link \<open>y\<close>
  goes through \<open>a/b/c/x\<close> and up again is extracted without an error, and reading \<open>y\<close> reads
  \<open>/etc/passwd\<close>.\<close>

theorem chained_symlinks_lead_outside:
  "snd (untar ''/srv/out'' 0
     [dir_entry ''d'', link_entry ''a/b/c/x'' ''../../../d'', link_entry ''y'' ''a/b/c/x/../../../etc/passwd''] demo_disk) = None \<and>
   lookup (fst (untar ''/srv/out'' 0
     [dir_entry ''d'', link_entry ''a/b/c/x'' ''../../../d'', link_entry ''y'' ''a/b/c/x/../../../etc/passwd''] demo_disk))
     True ''/srv/out/y'' = Inr ([''etc'', ''passwd''], Regular ''secret'')"
  by (rule conjI) code_simp+

end
