(* ===== verification/Schedules.thy ===== *)
theory Schedules
  imports Version_Scheme Target_Match Go_Path "HOL-Library.Word"
begin

unbundle bit_operations_syntax

text \<open>
  Declared schedules (\<^verbatim>\<open>src/src/config/schedules.go\<close>): the cron grammar, the hashed minute and hour
  (FNV-1a on 32-bit words), the groups of schedules that share a cadence, their validation, and
  whether a scheduled run builds. The repository's identity (\<open>ScheduleSeed\<close>) is an argument.
\<close>

section \<open>Cron expressions\<close>

record schedule =
  sd_id :: string
  sd_cron :: string
  sd_reason :: string
  sd_build :: string

text \<open>\<open>strings.Fields\<close>.\<close>

function fields :: "string \<Rightarrow> string list" where
  "fields s =
     (let t = dropWhile is_space s in
      if t = [] then [] else takeWhile (\<lambda>c. \<not> is_space c) t # fields (dropWhile (\<lambda>c. \<not> is_space c) t))"
  by pat_completeness auto

termination
proof (relation "measure length", goal_cases)
  case 1
  then show ?case by simp
next
  case (2 s t)
  then obtain c r where t: "dropWhile is_space s = c # r" by (cases "dropWhile is_space s") auto
  then have "\<not> is_space c" by (metis hd_dropWhile list.discI list.sel(1))
  then have "length (dropWhile (\<lambda>c. \<not> is_space c) t) \<le> length r" using t 2(1) by (simp add: length_dropWhile_le)
  moreover have "length (c # r) \<le> length s" by (metis t length_dropWhile_le)
  ultimately show ?case by simp
qed

declare fields.simps [simp del]

datatype cron_error =
    FieldCount nat
  | HashNotAllowed
  | BadMinute
  | BadStep string string
  | BadValue string string

text \<open>\<open>fnv.New32a\<close>: multiplication wraps at 32 bits.\<close>

definition fnv32a :: "string \<Rightarrow> 32 word" where
  "fnv32a s = foldl (\<lambda>h c. (h XOR of_nat (of_char c)) * 16777619) 2166136261 s"

text \<open>The bounds of a field, and whether \<open>H\<close> may stand in it.\<close>

definition cron_fields :: "(string \<times> int \<times> int \<times> bool) list" where
  "cron_fields =
     [(''minute'', 0, 59, True), (''hour'', 0, 23, True), (''day-of-month'', 1, 31, False),
      (''month'', 1, 12, False), (''day-of-week'', 0, 6, False)]"

definition in_range :: "string \<Rightarrow> int \<Rightarrow> int \<Rightarrow> bool" where
  "in_range s lo hi \<longleftrightarrow> snd (atoi s) \<and> lo \<le> fst (atoi s) \<and> fst (atoi s) \<le> hi"

text \<open>One comma-separated part: \<open>*\<close>, a number or a range, with an optional step.\<close>

definition check_cron_part :: "string \<Rightarrow> int \<Rightarrow> int \<Rightarrow> string \<Rightarrow> cron_error option" where
  "check_cron_part name lo hi part =
     (let (base, step) = (case cut_at (CHR ''/'') part of None \<Rightarrow> (part, None) | Some (b, s) \<Rightarrow> (b, Some s)) in
      case (case step of None \<Rightarrow> None
            | Some s \<Rightarrow> if snd (atoi s) \<and> fst (atoi s) \<ge> 1 then None else Some (BadStep name s)) of
        Some e \<Rightarrow> Some e
      | None \<Rightarrow>
          if base = ''*'' then None
          else (let vals = (case cut_at (CHR ''-'') base of None \<Rightarrow> [base] | Some (a, b) \<Rightarrow> [a, b])
            in if list_all (\<lambda>v. in_range v lo hi) vals then None else Some (BadValue name part)))"

fun check_cron_parts :: "string \<Rightarrow> int \<Rightarrow> int \<Rightarrow> string list \<Rightarrow> cron_error option" where
  "check_cron_parts name lo hi [] = None"
| "check_cron_parts name lo hi (p # ps) =
     (case check_cron_part name lo hi p of Some e \<Rightarrow> Some e | None \<Rightarrow> check_cron_parts name lo hi ps)"

definition check_cron_field :: "string \<Rightarrow> string \<Rightarrow> int \<Rightarrow> int \<Rightarrow> cron_error option" where
  "check_cron_field name f lo hi = check_cron_parts name lo hi (split_on (CHR '','') f)"

text \<open>One field of the loop, by its position.\<close>

definition resolve_field :: "32 word \<Rightarrow> nat \<Rightarrow> string \<Rightarrow> cron_error + string" where
  "resolve_field hash i f =
     (let (name, lo, hi, hashable) = cron_fields ! i in
      if f = ''H'' then
        (if \<not> hashable then Inl HashNotAllowed
         else if i = 0 then Inr (itoa (uint (hash mod 60)))
         else Inr (itoa (uint (hash div 60 mod 24))))
      else if i = 0 then (if in_range f lo hi then Inr f else Inl BadMinute)
      else (case check_cron_field name f lo hi of Some e \<Rightarrow> Inl e | None \<Rightarrow> Inr f))"

fun resolve_fields :: "32 word \<Rightarrow> nat \<Rightarrow> string list \<Rightarrow> cron_error + string list" where
  "resolve_fields hash i [] = Inr []"
| "resolve_fields hash i (f # fs) =
     (case resolve_field hash i f of
        Inl e \<Rightarrow> Inl e
      | Inr g \<Rightarrow> (case resolve_fields hash (Suc i) fs of Inl e \<Rightarrow> Inl e | Inr gs \<Rightarrow> Inr (g # gs)))"

definition resolve_cron :: "string \<Rightarrow> string \<Rightarrow> string \<Rightarrow> cron_error + string" where
  "resolve_cron cron seed i =
     (let fs = fields cron in
      if length fs \<noteq> length cron_fields then Inl (FieldCount (length fs))
      else case resolve_fields (fnv32a (seed @ CHR 0x00 # i)) 0 fs of
        Inl e \<Rightarrow> Inl e
      | Inr out \<Rightarrow> Inr (join '' '' out))"

section \<open>Groups, validation and scheduled runs\<close>

text \<open>The index of \<open>ResolvedSchedules\<close> finds the group of a cron; a new cron starts one at the end.\<close>

fun add_to_cadence :: "string \<Rightarrow> string \<Rightarrow> (string \<times> string list) list \<Rightarrow> (string \<times> string list) list" where
  "add_to_cadence cron i [] = [(cron, [i])]"
| "add_to_cadence cron i ((c, is) # gs) = (if c = cron then (c, is @ [i]) # gs else (c, is) # add_to_cadence cron i gs)"

definition resolved_schedules :: "string \<Rightarrow> schedule list \<Rightarrow> (string \<times> string list) list" where
  "resolved_schedules seed ss =
     foldl (\<lambda>out s. case resolve_cron (sd_cron s) seed (sd_id s) of Inl _ \<Rightarrow> out | Inr cron \<Rightarrow> add_to_cadence cron (sd_id s) out)
       [] ss"

datatype schedule_problem =
    BadScheduleId string
  | CronRequired string
  | BadCron string cron_error
  | UnknownBuildMode string string

definition validate_schedule :: "schedule \<Rightarrow> schedule_problem list" where
  "validate_schedule s =
     (if is_identifier (sd_id s) then [] else [BadScheduleId (sd_id s)]) @
     (if trim_space (sd_cron s) = [] then [CronRequired (sd_id s)]
      else (case resolve_cron (sd_cron s) [] (sd_id s) of Inl e \<Rightarrow> [BadCron (sd_id s) e] | Inr _ \<Rightarrow> []) @
        (if sd_build s \<in> {[], ''changes'', ''always''} then [] else [UnknownBuildMode (sd_id s) (sd_build s)]))"

definition validate_schedules :: "schedule list \<Rightarrow> schedule_problem list" where
  "validate_schedules ss = concat (map validate_schedule ss)"

definition find_schedule :: "schedule list \<Rightarrow> string \<Rightarrow> schedule option" where
  "find_schedule ss i = find (\<lambda>s. sd_id s = i) ss"

definition scheduled_run_builds :: "env \<Rightarrow> schedule list \<Rightarrow> bool" where
  "scheduled_run_builds getenv ss \<longleftrightarrow>
     ci_event getenv \<noteq> ''schedule'' \<or> ci_schedules getenv = [] \<or>
     list_ex (\<lambda>i. case find_schedule ss i of None \<Rightarrow> True | Some s \<Rightarrow> sd_build s = ''always'') (ci_schedules getenv)"

section \<open>Words and numerals\<close>

definition word_ok :: "string \<Rightarrow> bool" where
  "word_ok w \<longleftrightarrow> w \<noteq> [] \<and> list_all (\<lambda>c. \<not> is_space c) w"

lemma fields_skip: "dropWhile is_space s = t \<Longrightarrow> fields s = (if t = [] then [] else takeWhile (\<lambda>c. \<not> is_space c) t # fields (dropWhile (\<lambda>c. \<not> is_space c) t))"
  by (subst fields.simps) (simp add: Let_def)

lemma fields_word: "word_ok w \<Longrightarrow> fields (w @ CHR '' '' # s) = w # fields (CHR '' '' # s)"
proof -
  assume w: "word_ok w"
  then have "dropWhile is_space (w @ CHR '' '' # s) = w @ CHR '' '' # s"
    by (cases w) (auto simp: word_ok_def)
  moreover have "takeWhile (\<lambda>c. \<not> is_space c) (w @ CHR '' '' # s) = w" "dropWhile (\<lambda>c. \<not> is_space c) (w @ CHR '' '' # s) = CHR '' '' # s"
    using w by (auto simp: word_ok_def list_all_iff takeWhile_append2 dropWhile_append2 is_space_def)
  ultimately show ?thesis using w by (subst fields_skip) (auto simp: word_ok_def)
qed

lemma fields_nil [simp]: "fields [] = []"
  by (simp add: fields.simps)

lemma fields_last: "word_ok w \<Longrightarrow> fields w = [w]"
proof -
  assume w: "word_ok w"
  have d: "dropWhile is_space w = w" using w by (cases w) (auto simp: word_ok_def)
  have t: "takeWhile (\<lambda>c. \<not> is_space c) w = w" using w by (simp add: word_ok_def list_all_iff)
  have e: "dropWhile (\<lambda>c. \<not> is_space c) w = []"
    unfolding dropWhile_eq_Nil_conv using w by (simp add: word_ok_def list_all_iff)
  have n: "w \<noteq> []" using w by (simp add: word_ok_def)
  show ?thesis using fields_skip [OF d] by (simp only: t e n if_False fields_nil)
qed

lemma fields_space: "fields (CHR '' '' # s) = fields s"
  by (simp add: fields_skip [OF refl, of "CHR '' '' # s"] fields_skip [OF refl, of s] is_space_def)

lemma fields_join: "list_all word_ok ws \<Longrightarrow> fields (join '' '' ws) = ws"
proof (induction ws)
  case Nil
  then show ?case by (simp add: fields.simps)
next
  case (Cons w ws)
  then show ?case by (cases ws) (simp_all add: fields_last fields_word fields_space)
qed

lemma fields_word_ok: "list_all word_ok (fields s)"
proof (induction s rule: fields.induct)
  case (1 s)
  show ?case
  proof (cases "dropWhile is_space s")
    case Nil
    then show ?thesis by (simp add: fields_skip)
  next
    case (Cons c r)
    then have "\<not> is_space c" by (metis hd_dropWhile list.discI list.sel(1))
    then have "word_ok (takeWhile (\<lambda>c. \<not> is_space c) (c # r))"
      by (simp add: word_ok_def list_all_iff) (blast dest: set_takeWhileD)
    moreover have "list_all word_ok (fields (dropWhile (\<lambda>c. \<not> is_space c) (c # r)))"
      using "1.IH" [OF refl] Cons by simp
    ultimately show ?thesis by (subst fields_skip [OF Cons]) simp
  qed
qed

lemma digit_not_space: "is_digit c \<Longrightarrow> \<not> is_space c"
  by (auto simp: is_digit_def is_space_def)

lemma itoa_digits: "0 \<le> n \<Longrightarrow> list_all is_digit (itoa n)"
  using itoa_nat_digits [of _ "nat n"] by (auto simp: itoa_def list_all_iff)

lemma itoa_nonempty: "itoa n \<noteq> []"
  by (simp add: itoa_def)

lemma itoa_word_ok: "0 \<le> n \<Longrightarrow> word_ok (itoa n)"
  using itoa_digits [of n] itoa_nonempty [of n] digit_not_space by (auto simp: word_ok_def list_all_iff)

lemma take_sign_digits: "s \<noteq> [] \<Longrightarrow> list_all is_digit s \<Longrightarrow> take_sign s = (False, s)"
  by (cases s) (auto simp: take_sign_def is_digit_def)

lemma atoi_itoa: "0 \<le> n \<Longrightarrow> n < 2 ^ 63 \<Longrightarrow> atoi (itoa n) = (n, True)"
  using itoa_digits [of n] itoa_nonempty [of n]
  by (simp add: atoi_def take_sign_digits Units.signed_def Let_def) (simp add: itoa_def)

lemma in_range_itoa: "0 \<le> n \<Longrightarrow> n < 100 \<Longrightarrow> in_range (itoa n) lo hi \<longleftrightarrow> lo \<le> n \<and> n \<le> hi"
  by (simp add: in_range_def atoi_itoa)

lemma digits_no_sep: "list_all is_digit s \<Longrightarrow> \<not> is_digit c \<Longrightarrow> c \<notin> set s"
  by (auto simp: list_all_iff)

lemma check_number:
  assumes "0 \<le> n" "n < 100" "lo \<le> n" "n \<le> hi"
  shows "check_cron_field name (itoa n) lo hi = None"
proof -
  have d: "list_all is_digit (itoa n)" using assms(1) by (rule itoa_digits)
  have no: "CHR '','' \<notin> set (itoa n)" "CHR ''/'' \<notin> set (itoa n)" "CHR ''-'' \<notin> set (itoa n)" "itoa n \<noteq> ''*''"
    using digits_no_sep [OF d] d by (auto simp: is_digit_def)
  have "split_on (CHR '','') (itoa n) = [itoa n]" using no(1) by (rule split_on_plain)
  moreover have "cut_at (CHR ''/'') (itoa n) = None" "cut_at (CHR ''-'') (itoa n) = None"
    using no(2,3) by (simp_all only: cut_at_None not_False_eq_True)
  ultimately show ?thesis
    using no(4) assms by (simp add: check_cron_field_def check_cron_part_def Let_def in_range_itoa)
qed

section \<open>Resolving is stable\<close>

lemma uint_mod_bounds:
  fixes h :: "32 word"
  shows "0 \<le> uint (h mod 60)" "uint (h mod 60) \<le> 59" "0 \<le> uint (h div 60 mod 24)" "uint (h div 60 mod 24) \<le> 23"
  by (simp_all add: uint_mod)

lemma itoa_not_H: "0 \<le> n \<Longrightarrow> itoa n \<noteq> ''H''"
  using itoa_digits [of n] by (auto simp: is_digit_def)

lemma cron_fields_nth:
  "cron_fields ! 0 = (''minute'', 0, 59, True)" "cron_fields ! Suc 0 = (''hour'', 0, 23, True)"
  "k \<noteq> 0 \<Longrightarrow> k \<noteq> 1 \<Longrightarrow> k < 5 \<Longrightarrow> \<exists>n lo hi. cron_fields ! k = (n, lo, hi, False)"
proof -
  show "cron_fields ! 0 = (''minute'', 0, 59, True)" "cron_fields ! Suc 0 = (''hour'', 0, 23, True)"
    by (simp_all add: cron_fields_def)
  assume "k \<noteq> 0" "k \<noteq> 1" "k < 5"
  then have "k = 2 \<or> k = 3 \<or> k = 4" by linarith
  then show "\<exists>n lo hi. cron_fields ! k = (n, lo, hi, False)" by (auto simp: cron_fields_def)
qed

lemma resolve_field_H:
  assumes "resolve_field h k ''H'' = Inr g" "k < 5"
  shows "word_ok g \<and> g \<noteq> ''H'' \<and> (k = 0 \<longrightarrow> in_range g 0 59) \<and> (\<forall>h'. resolve_field h' k g = Inr g)"
proof (cases "k = 0")
  case True
  define n where "n = uint (h mod 60)"
  have n: "0 \<le> n" "n \<le> 59" unfolding n_def by (rule uint_mod_bounds)+
  then have "in_range (itoa n) 0 59" by (simp add: in_range_itoa)
  moreover have "g = itoa n" using assms(1) True by (simp add: resolve_field_def cron_fields_nth n_def)
  ultimately show ?thesis using True n
    by (simp add: itoa_word_ok itoa_not_H resolve_field_def cron_fields_nth)
next
  case False
  then have k: "k = 1" using assms cron_fields_nth(3) [of k] by (cases "k = 1") (auto simp: resolve_field_def)
  define n where "n = uint (h div 60 mod 24)"
  have n: "0 \<le> n" "n \<le> 23" unfolding n_def by (rule uint_mod_bounds)+
  then have "check_cron_field ''hour'' (itoa n) 0 23 = None" by (intro check_number) simp_all
  moreover have "g = itoa n" using assms(1) k by (simp add: resolve_field_def cron_fields_nth n_def)
  ultimately show ?thesis using k n
    by (simp add: itoa_word_ok itoa_not_H resolve_field_def cron_fields_nth)
qed

lemma resolve_field_plain:
  assumes "resolve_field h k f = Inr g" "f \<noteq> ''H''"
  shows "g = f \<and> (k = 0 \<longrightarrow> in_range g 0 59) \<and> (\<forall>h'. resolve_field h' k g = Inr g)"
  using assms by (cases "k = 0")
    (auto simp: resolve_field_def cron_fields_nth split: prod.splits if_splits option.splits)

lemma resolve_field_stable:
  "resolve_field h k f = Inr g \<Longrightarrow> k < 5 \<Longrightarrow> word_ok f \<Longrightarrow>
    word_ok g \<and> g \<noteq> ''H'' \<and> (k = 0 \<longrightarrow> in_range g 0 59) \<and> (\<forall>h'. resolve_field h' k g = Inr g)"
  using resolve_field_H [of h k g] resolve_field_plain [of h k f g] by (cases "f = ''H''") auto

lemma resolve_fields_stable:
  "resolve_fields h k fs = Inr gs \<Longrightarrow> k + length fs \<le> 5 \<Longrightarrow> list_all word_ok fs \<Longrightarrow>
    list_all word_ok gs \<and> ''H'' \<notin> set gs \<and> length gs = length fs \<and>
    (k = 0 \<and> gs \<noteq> [] \<longrightarrow> in_range (hd gs) 0 59) \<and> (\<forall>h'. resolve_fields h' k gs = Inr gs)"
proof (induction fs arbitrary: k gs)
  case Nil
  then show ?case by simp
next
  case (Cons f fs)
  from Cons.prems(1) obtain g gs' where g: "resolve_field h k f = Inr g"
    "resolve_fields h (Suc k) fs = Inr gs'" "gs = g # gs'"
    by (auto split: sum.splits)
  have f: "word_ok g \<and> g \<noteq> ''H'' \<and> (k = 0 \<longrightarrow> in_range g 0 59) \<and> (\<forall>h'. resolve_field h' k g = Inr g)"
    using Cons.prems(2,3) by (intro resolve_field_stable [OF g(1)]) simp_all
  have "list_all word_ok gs' \<and> ''H'' \<notin> set gs' \<and> length gs' = length fs \<and> (\<forall>h'. resolve_fields h' (Suc k) gs' = Inr gs')"
    using Cons.IH [OF g(2)] Cons.prems by simp
  then show ?case using f g(3) by (simp add: eq_commute [of "''H''"])
qed

lemma resolve_cron_resolved:
  assumes "resolve_cron cron seed i = Inr out"
  shows "length (fields out) = 5 \<and> in_range (hd (fields out)) 0 59 \<and> ''H'' \<notin> set (fields out) \<and>
    resolve_cron out seed' i' = Inr out"
proof -
  have five: "length cron_fields = 5" by (simp add: cron_fields_def)
  from assms obtain gs where gs: "length (fields cron) = 5" "out = join '' '' gs"
    "resolve_fields (fnv32a (seed @ CHR 0x00 # i)) 0 (fields cron) = Inr gs"
    by (auto simp: resolve_cron_def five Let_def split: if_splits sum.splits)
  have st: "list_all word_ok gs \<and> ''H'' \<notin> set gs \<and> length gs = length (fields cron) \<and>
      (0 = (0::nat) \<and> gs \<noteq> [] \<longrightarrow> in_range (hd gs) 0 59) \<and> (\<forall>h'. resolve_fields h' 0 gs = Inr gs)"
    using gs(3) by (rule resolve_fields_stable) (simp_all add: gs(1) fields_word_ok)
  then have "fields out = gs" by (simp add: gs(2) fields_join)
  moreover have "gs \<noteq> []" using st gs(1) by auto
  ultimately show ?thesis using st gs by (simp add: resolve_cron_def five Let_def)
qed

text \<open>A resolved cron is a fixed point: it has five fields, its minute is one number between 0 and 59,
  no \<open>H\<close> is left in it, and resolving it again, for any repository and any schedule, gives it back.\<close>

theorem resolve_cron_stable:
  assumes "resolve_cron cron seed i = Inr out"
  shows "length (fields out) = 5 \<and> in_range (hd (fields out)) 0 59 \<and> ''H'' \<notin> set (fields out) \<and>
    resolve_cron out seed' i' = Inr out"
  using assms by (rule resolve_cron_resolved)

theorem resolve_cron_stable_witness:
  "length (fields ''30 4 * * 1'') = 5 \<and> in_range (hd (fields ''30 4 * * 1'')) 0 59 \<and>
    ''H'' \<notin> set (fields ''30 4 * * 1'') \<and> resolve_cron ''30 4 * * 1'' ''other'' ''b'' = Inr ''30 4 * * 1''"
  by (rule resolve_cron_stable [of "''30 4  * * 1 ''" "''repo''" "''a''"]) code_simp

lemma resolve_cron_errors_eq:
  "resolve_cron cron seed i = Inl e \<longleftrightarrow> resolve_cron cron seed' i' = Inl e"
proof -
  have f: "resolve_field h k f = Inl e \<longleftrightarrow> resolve_field h' k f = Inl e" for h h' k f e
    by (auto simp: resolve_field_def split: prod.splits option.splits)
  have seedless_cases: "resolve_fields h k (a # fs) = Inl e \<longleftrightarrow>
      resolve_field h k a = Inl e \<or> (\<nexists>e'. resolve_field h k a = Inl e') \<and> resolve_fields h (Suc k) fs = Inl e" for h k a fs
    by (auto split: sum.splits)
  have r: "resolve_fields h k fs = Inl e \<longleftrightarrow> resolve_fields h' k fs = Inl e" for h h' k fs
  proof (induction fs arbitrary: k)
    case (Cons a fs)
    then show ?case
      using f [of h k a _ h'] by (simp only: seedless_cases)
  qed simp
  have c: "(case x of Inl a \<Rightarrow> Inl a | Inr b \<Rightarrow> Inr (join '' '' b)) = Inl e \<longleftrightarrow> x = Inl e"
    for x :: "cron_error + string list" by (cases x) auto
  show ?thesis
    using r [of "fnv32a (seed @ CHR 0x00 # i)" 0 "fields cron" "fnv32a (seed' @ CHR 0x00 # i')"]
    by (cases "length (fields cron) = length cron_fields") (simp_all add: resolve_cron_def Let_def c)
qed

text \<open>Whether a cron is accepted, and with which error it is refused, does not depend on the repository or
  the schedule that hashes its \<open>H\<close>; so validation, which has no seed, refuses what rendering would skip.\<close>

theorem resolve_cron_error_seedless:
  "resolve_cron cron seed i = Inl e \<longleftrightarrow> resolve_cron cron seed' i' = Inl e"
  by (rule resolve_cron_errors_eq)

section \<open>The groups\<close>

definition resolved_cron :: "string \<Rightarrow> schedule \<Rightarrow> string option" where
  "resolved_cron seed s = (case resolve_cron (sd_cron s) seed (sd_id s) of Inl _ \<Rightarrow> None | Inr c \<Rightarrow> Some c)"

text \<open>The distinct elements, each where it first stands.\<close>

definition firsts :: "'a list \<Rightarrow> 'a list" where
  "firsts xs = rev (remdups (rev xs))"

lemma firsts_simps [simp]:
  "firsts [] = []"
  "firsts (xs @ [x]) = (if x \<in> set xs then firsts xs else firsts xs @ [x])"
  "set (firsts xs) = set xs"
  "distinct (firsts xs)"
  by (simp_all add: firsts_def)

lemma add_to_cadence_map:
  "distinct cs \<Longrightarrow> add_to_cadence c i (map (\<lambda>c. (c, f c)) cs) =
     (if c \<in> set cs then map (\<lambda>c'. (c', if c' = c then f c' @ [i] else f c')) cs
      else map (\<lambda>c. (c, f c)) cs @ [(c, [i])])"
proof (induction cs)
  case (Cons a cs)
  have "map (\<lambda>c'. (c', if c' = a then f c' @ [i] else f c')) cs = map (\<lambda>c. (c, f c)) cs"
    using Cons.prems by (intro map_cong) auto
  then show ?case using Cons by auto
qed simp

definition group_ids :: "string \<Rightarrow> schedule list \<Rightarrow> string \<Rightarrow> string list" where
  "group_ids seed ss c = map sd_id (filter (\<lambda>s. resolved_cron seed s = Some c) ss)"

lemma resolved_schedules_snoc:
  "resolved_schedules seed (ss @ [s]) =
     (case resolved_cron seed s of None \<Rightarrow> resolved_schedules seed ss
      | Some c \<Rightarrow> add_to_cadence c (sd_id s) (resolved_schedules seed ss))"
  by (simp add: resolved_schedules_def resolved_cron_def split: sum.splits)

lemma resolved_schedules_spec:
  "resolved_schedules seed ss =
     map (\<lambda>c. (c, group_ids seed ss c)) (firsts (List.map_filter (resolved_cron seed) ss))"
proof (induction ss rule: rev_induct)
  case Nil
  then show ?case by (simp add: resolved_schedules_def List.map_filter_def)
next
  case (snoc s ss)
  let ?cs = "List.map_filter (resolved_cron seed) ss"
  show ?case
  proof (cases "resolved_cron seed s")
    case None
    then show ?thesis
      using snoc by (simp add: resolved_schedules_snoc List.map_filter_def group_ids_def)
  next
    case (Some c)
    have g: "group_ids seed (ss @ [s]) = (\<lambda>c'. if c' = c then group_ids seed ss c' @ [sd_id s] else group_ids seed ss c')"
      by (auto simp: group_ids_def Some fun_eq_iff)
    have m: "List.map_filter (resolved_cron seed) (ss @ [s]) = ?cs @ [c]"
      by (simp add: List.map_filter_def Some)
    have "c \<notin> set ?cs \<Longrightarrow> group_ids seed ss c = []"
      by (force simp: group_ids_def List.map_filter_def filter_empty_conv)
    moreover have "c \<notin> set ?cs \<Longrightarrow> map (\<lambda>c'. (c', if c' = c then group_ids seed ss c' @ [sd_id s] else group_ids seed ss c')) (firsts ?cs)
        = map (\<lambda>c. (c, group_ids seed ss c)) (firsts ?cs)"
      by (intro map_cong) auto
    ultimately show ?thesis
      unfolding resolved_schedules_snoc Some g m by (simp add: snoc add_to_cadence_map)
  qed
qed

text \<open>C26: The cadences to materialize are the distinct resolved crons in the order of their first declaration,
  each with the ids of exactly the schedules that resolve to it, in declaration order.\<close>

theorem resolved_schedules_groups:
  "resolved_schedules seed ss =
     map (\<lambda>c. (c, map sd_id (filter (\<lambda>s. resolve_cron (sd_cron s) seed (sd_id s) = Inr c) ss)))
       (rev (remdups (rev (concat (map (\<lambda>s. case resolve_cron (sd_cron s) seed (sd_id s) of Inl _ \<Rightarrow> [] | Inr c \<Rightarrow> [c]) ss)))))"
proof -
  have "(resolved_cron seed s = Some c) \<longleftrightarrow> resolve_cron (sd_cron s) seed (sd_id s) = Inr c" for s c
    by (simp add: resolved_cron_def split: sum.splits)
  moreover have "List.map_filter (resolved_cron seed) ss =
      concat (map (\<lambda>s. case resolve_cron (sd_cron s) seed (sd_id s) of Inl _ \<Rightarrow> [] | Inr c \<Rightarrow> [c]) ss)"
    by (induction ss) (simp_all add: List.map_filter_def resolved_cron_def split: sum.splits)
  ultimately show ?thesis by (simp add: resolved_schedules_spec firsts_def group_ids_def)
qed

section \<open>Validated schedules\<close>

lemma valid_schedule_resolves: "validate_schedule s = [] \<Longrightarrow> \<exists>c. resolve_cron (sd_cron s) seed (sd_id s) = Inr c"
  using resolve_cron_errors_eq [of "sd_cron s" "[]" "sd_id s" _ seed "sd_id s"]
  by (cases "resolve_cron (sd_cron s) seed (sd_id s)")
    (auto simp: validate_schedule_def split: if_splits sum.splits)

lemma mset_add_to_cadence:
  "mset (concat (map snd (add_to_cadence c i gs))) = add_mset i (mset (concat (map snd gs)))"
  by (induction c i gs rule: add_to_cadence.induct) auto

text \<open>When the configuration's schedules validate, every declared schedule is materialized exactly once,
  in some cadence, for every repository; no cadence is declared twice.\<close>

theorem valid_schedules_materialized:
  assumes "validate_schedules ss = []"
  shows "mset (concat (map snd (resolved_schedules seed ss))) = mset (map sd_id ss) \<and>
    distinct (map fst (resolved_schedules seed ss))"
proof
  show "distinct (map fst (resolved_schedules seed ss))"
    by (simp add: resolved_schedules_spec comp_def)
  show "mset (concat (map snd (resolved_schedules seed ss))) = mset (map sd_id ss)"
    using assms
  proof (induction ss rule: rev_induct)
    case Nil
    then show ?case by (simp add: resolved_schedules_def)
  next
    case (snoc s ss)
    then obtain c where "resolve_cron (sd_cron s) seed (sd_id s) = Inr c"
      using valid_schedule_resolves [of s seed] by (auto simp: validate_schedules_def)
    moreover have "validate_schedules ss = []" using snoc.prems by (simp add: validate_schedules_def)
    ultimately show ?case
      using snoc.IH by (simp add: resolved_schedules_snoc resolved_cron_def mset_add_to_cadence)
  qed
qed

theorem valid_schedules_materialized_witness:
  "let ss = [\<lparr>sd_id = ''night'', sd_cron = ''5 3 * * *'', sd_reason = [], sd_build = []\<rparr>,
             \<lparr>sd_id = ''week'', sd_cron = ''5 3 * * *'', sd_reason = [], sd_build = ''always''\<rparr>]
   in mset (concat (map snd (resolved_schedules ''r'' ss))) = mset (map sd_id ss) \<and>
      distinct (map fst (resolved_schedules ''r'' ss))"
  unfolding Let_def by (rule valid_schedules_materialized) code_simp

text \<open>A scheduled run is held back from building exactly when it names at least one schedule and every
  schedule it names is declared without \<open>build: always\<close>; a run that is not scheduled always builds.\<close>

theorem scheduled_run_held_iff:
  "\<not> scheduled_run_builds getenv ss \<longleftrightarrow>
     ci_event getenv = ''schedule'' \<and> ci_schedules getenv \<noteq> [] \<and>
     list_all (\<lambda>i. \<exists>s. find_schedule ss i = Some s \<and> sd_id s = i \<and> sd_build s \<noteq> ''always'') (ci_schedules getenv)"
proof -
  have f: "find_schedule ss i = Some s \<Longrightarrow> sd_id s = i" for i s by (auto simp: find_schedule_def find_Some_iff)
  have "(\<not> (case find_schedule ss i of None \<Rightarrow> True | Some s \<Rightarrow> sd_build s = ''always'')) \<longleftrightarrow>
      (\<exists>s. find_schedule ss i = Some s \<and> sd_id s = i \<and> sd_build s \<noteq> ''always'')" for i
    using f [of i] by (cases "find_schedule ss i") simp_all
  moreover have "\<not> list_ex P xs \<longleftrightarrow> list_all (\<lambda>i. \<not> P i) xs" for P and xs :: "string list" by (induction xs) simp_all
  ultimately show ?thesis by (simp add: scheduled_run_builds_def)
qed

text \<open>The cron grammar takes signed numbers and reversed ranges, which its documentation (\<open>*\<close>, \<open>n\<close>,
  \<open>a-b\<close>, the same on every forge) does not offer.\<close>

theorem cron_admits_signed_and_reversed:
  "resolve_cron ''+5 3 * * *'' seed i = Inr ''+5 3 * * *'' \<and>
   resolve_cron ''5 20-3/+2 * * *'' seed i = Inr ''5 20-3/+2 * * *''"
proof -
  have "resolve_cron ''+5 3 * * *'' [] [] = Inr ''+5 3 * * *''"
    "resolve_cron ''5 20-3/+2 * * *'' [] [] = Inr ''5 20-3/+2 * * *''"
    by code_simp+
  moreover have "resolve_cron c [] [] = Inr c \<Longrightarrow> resolve_cron c seed i = Inr c" for c
    using resolve_cron_resolved [of c "[]" "[]" c] by simp
  ultimately show ?thesis by simp
qed

end
