(* ===== verification/Schedule_Reconcile.thy ===== *)
theory Schedule_Reconcile
  imports Schedules CI_State
begin

text \<open>
  Converging the forge's pipeline schedules to the declared ones
  (\<^verbatim>\<open>src/src/cli/cmd/schedules_reconcile.go\<close>) and the GitLab client it drives
  (\<^verbatim>\<open>src/src/forge/schedules.go\<close>). The HTTP service is a parameter, with a state of any type;
  what a run relies on of it is stated as the laws below. Strings are UTF-8 bytes.
\<close>

section \<open>The scheduler interface\<close>

record pipeline_schedule =
  ps_id :: int
  ps_description :: string
  ps_ref :: string
  ps_cron :: string
  ps_timezone :: string
  ps_active :: bool
  ps_owner :: int
  ps_vars :: "(string \<times> string) list"

text \<open>\<open>PipelineScheduler\<close>: an operation that can fail returns its error, or \<^const>\<open>None\<close>.\<close>

record 'f scheduler =
  sc_user :: "'f \<Rightarrow> string + int"
  sc_list :: "'f \<Rightarrow> string + pipeline_schedule list"
  sc_get :: "'f \<Rightarrow> int \<Rightarrow> string + pipeline_schedule"
  sc_create :: "'f \<Rightarrow> pipeline_schedule \<Rightarrow> (string + int) \<times> 'f"
  sc_update :: "'f \<Rightarrow> pipeline_schedule \<Rightarrow> string option \<times> 'f"
  sc_delete :: "'f \<Rightarrow> int \<Rightarrow> string option \<times> 'f"
  sc_own :: "'f \<Rightarrow> int \<Rightarrow> string option \<times> 'f"
  sc_set_var :: "'f \<Rightarrow> int \<Rightarrow> string \<Rightarrow> string \<Rightarrow> bool \<Rightarrow> string option \<times> 'f"

section \<open>The desired state\<close>

definition schedule_marker :: string where
  "schedule_marker = ''stagefreight: ''"

definition schedule_var :: string where
  "schedule_var = ''SF_CI_SCHEDULE''"

text \<open>A spaced em dash.\<close>

definition reason_sep :: string where
  "reason_sep = [CHR '' '', CHR 0xE2, CHR 0x80, CHR 0x94, CHR '' '']"

record desired_schedule =
  ds_key :: string
  ds_cron :: string
  ds_description :: string

datatype op_kind = OpCreate | OpUpdate | OpOwn | OpDelete

record schedule_op =
  op_kind :: op_kind
  op_desired :: desired_schedule
  op_existing :: pipeline_schedule

definition zero_desired :: desired_schedule where
  "zero_desired = \<lparr>ds_key = [], ds_cron = [], ds_description = []\<rparr>"

definition zero_schedule :: pipeline_schedule where
  "zero_schedule =
     \<lparr>ps_id = 0, ps_description = [], ps_ref = [], ps_cron = [], ps_timezone = [], ps_active = False,
      ps_owner = 0, ps_vars = []\<rparr>"

text \<open>The map from ids to reasons: the last schedule of an id has its say.\<close>

definition reason_of :: "schedule list \<Rightarrow> string \<Rightarrow> string" where
  "reason_of ss i = (case find_schedule (rev ss) i of None \<Rightarrow> [] | Some s \<Rightarrow> sd_reason s)"

definition describe :: "string \<Rightarrow> string list \<Rightarrow> string" where
  "describe key why =
     (schedule_marker @ key) @ (if why \<noteq> [] then reason_sep @ join ''; '' why else [])"

definition desired_schedules :: "string \<Rightarrow> schedule list \<Rightarrow> desired_schedule list" where
  "desired_schedules seed ss =
     map (\<lambda>(cron, ids).
            let key = join '','' ids; why = filter (\<lambda>r. r \<noteq> []) (map (reason_of ss) ids)
            in \<lparr>ds_key = key, ds_cron = cron, ds_description = describe key why\<rparr>)
       (resolved_schedules seed ss)"

text \<open>\<open>strings.Cut\<close> before a separator of several bytes; the whole string when it does not occur.\<close>

fun before_sep :: "string \<Rightarrow> string \<Rightarrow> string" where
  "before_sep sep [] = []"
| "before_sep sep (c # s) = (if has_prefix (c # s) sep then [] else c # before_sep sep s)"

definition schedule_key :: "string \<Rightarrow> string option" where
  "schedule_key description =
     (if \<not> has_prefix description schedule_marker then None
      else Some (trim_space (before_sep reason_sep (drop (length schedule_marker) description))))"

section \<open>The plan\<close>

text \<open>The owned schedules by their ids, and the duplicates, both in the order of the listing.\<close>

fun owned_loop :: "pipeline_schedule list \<Rightarrow> (string \<times> pipeline_schedule) list \<Rightarrow> pipeline_schedule list \<Rightarrow>
    (string \<times> pipeline_schedule) list \<times> pipeline_schedule list" where
  "owned_loop [] owned dups = (owned, dups)"
| "owned_loop (e # es) owned dups =
     (case schedule_key (ps_description e) of
        None \<Rightarrow> owned_loop es owned dups
      | Some key \<Rightarrow>
          if map_of owned key \<noteq> None then owned_loop es owned (dups @ [e])
          else owned_loop es (owned @ [(key, e)]) dups)"

definition owned_schedules ::
    "pipeline_schedule list \<Rightarrow> (string \<times> pipeline_schedule) list \<times> pipeline_schedule list" where
  "owned_schedules existing = owned_loop existing [] []"

definition drifted :: "desired_schedule \<Rightarrow> string \<Rightarrow> pipeline_schedule \<Rightarrow> bool" where
  "drifted d branch e \<longleftrightarrow>
     ps_cron e \<noteq> ds_cron d \<or> ps_ref e \<noteq> branch \<or> ps_timezone e \<noteq> ''UTC'' \<or>
     ps_description e \<noteq> ds_description d \<or> \<not> ps_active e"

definition desired_ops :: "(string \<times> pipeline_schedule) list \<Rightarrow> string \<Rightarrow> int \<Rightarrow> desired_schedule \<Rightarrow> schedule_op list" where
  "desired_ops owned branch me d =
     (case map_of owned (ds_key d) of
        None \<Rightarrow> [\<lparr>op_kind = OpCreate, op_desired = d, op_existing = zero_schedule\<rparr>]
      | Some e \<Rightarrow>
          (if drifted d branch e then [\<lparr>op_kind = OpUpdate, op_desired = d, op_existing = e\<rparr>] else []) @
          (if me \<noteq> 0 \<and> ps_owner e \<noteq> me then [\<lparr>op_kind = OpOwn, op_desired = d, op_existing = e\<rparr>] else []))"

definition delete_op :: "pipeline_schedule \<Rightarrow> schedule_op" where
  "delete_op e = \<lparr>op_kind = OpDelete, op_desired = zero_desired, op_existing = e\<rparr>"

text \<open>\<open>pick\<close> is the order in which Go ranges over the map of owned schedules.\<close>

definition plan_schedules ::
    "((string \<times> pipeline_schedule) list \<Rightarrow> (string \<times> pipeline_schedule) list) \<Rightarrow>
     desired_schedule list \<Rightarrow> pipeline_schedule list \<Rightarrow> string \<Rightarrow> int \<Rightarrow> schedule_op list" where
  "plan_schedules pick desired existing branch me =
     (let (owned, dups) = owned_schedules existing
      in map delete_op dups @ concat (map (desired_ops owned branch me) desired) @
         map (\<lambda>(_, e). delete_op e) (filter (\<lambda>(key, _). key \<notin> ds_key ` set desired) (pick owned)))"

section \<open>The run\<close>

text \<open>\<open>ensureScheduleVar\<close>.\<close>

definition ensure_var :: "'f scheduler \<Rightarrow> 'f \<Rightarrow> int \<Rightarrow> string \<Rightarrow> bool \<Rightarrow> string option \<times> 'f" where
  "ensure_var S f i key fresh =
     (if fresh then sc_set_var S f i schedule_var key False
      else case sc_get S f i of
        Inl e \<Rightarrow> (Some e, f)
      | Inr s \<Rightarrow>
          (case map_of (ps_vars s) schedule_var of
             Some v \<Rightarrow> if v = key then (None, f) else sc_set_var S f i schedule_var key True
           | None \<Rightarrow> sc_set_var S f i schedule_var key False))"

definition wanted :: "string \<Rightarrow> schedule_op \<Rightarrow> pipeline_schedule" where
  "wanted branch op =
     \<lparr>ps_id = ps_id (op_existing op), ps_description = ds_description (op_desired op), ps_ref = branch,
      ps_cron = ds_cron (op_desired op), ps_timezone = ''UTC'', ps_active = True, ps_owner = 0, ps_vars = []\<rparr>"

text \<open>The call of an operation, then the variable of what was created or updated.\<close>

definition run_op :: "'f scheduler \<Rightarrow> string \<Rightarrow> schedule_op \<Rightarrow> 'f \<Rightarrow> string option \<times> 'f" where
  "run_op S branch op f =
     (let i = ps_id (op_existing op); key = ds_key (op_desired op) in
      case op_kind op of
        OpCreate \<Rightarrow> (case sc_create S f (wanted branch op) of
            (Inl e, f1) \<Rightarrow> (Some e, f1) | (Inr n, f1) \<Rightarrow> ensure_var S f1 n key True)
      | OpUpdate \<Rightarrow> (case sc_update S f (wanted branch op) of
            (Some e, f1) \<Rightarrow> (Some e, f1) | (None, f1) \<Rightarrow> ensure_var S f1 i key False)
      | OpOwn \<Rightarrow> sc_own S f i
      | OpDelete \<Rightarrow> sc_delete S f i)"

definition kind_text :: "op_kind \<Rightarrow> string" where
  "kind_text k = (case k of OpCreate \<Rightarrow> ''create'' | OpUpdate \<Rightarrow> ''update'' | OpOwn \<Rightarrow> ''own'' | OpDelete \<Rightarrow> ''delete'')"

definition op_label :: "schedule_op \<Rightarrow> string" where
  "op_label op =
     kind_text (op_kind op) @ '' '' @
     (if op_kind op = OpDelete then (case schedule_key (ps_description (op_existing op)) of None \<Rightarrow> [] | Some k \<Rightarrow> k)
      else ds_key (op_desired op))"

fun run_ops :: "'f scheduler \<Rightarrow> string \<Rightarrow> schedule_op list \<Rightarrow> 'f \<Rightarrow> string option \<times> 'f" where
  "run_ops S branch [] f = (None, f)"
| "run_ops S branch (op # ops) f =
     (case run_op S branch op f of (Some e, f1) \<Rightarrow> (Some e, f1) | (None, f1) \<Rightarrow> run_ops S branch ops f1)"

text \<open>The keys whose variable the operations have checked.\<close>

definition var_checked :: "schedule_op list \<Rightarrow> string set" where
  "var_checked ops = set (map (\<lambda>op. ds_key (op_desired op)) (filter (\<lambda>op. op_kind op = OpCreate \<or> op_kind op = OpUpdate) ops))"

fun check_vars :: "'f scheduler \<Rightarrow> (string \<times> pipeline_schedule) list \<Rightarrow> string set \<Rightarrow> desired_schedule list \<Rightarrow> 'f \<Rightarrow>
    string option \<times> 'f" where
  "check_vars S owned checked [] f = (None, f)"
| "check_vars S owned checked (d # ds) f =
     (case (if ds_key d \<in> checked then None else map_of owned (ds_key d)) of
        None \<Rightarrow> check_vars S owned checked ds f
      | Some e \<Rightarrow>
          (case ensure_var S f (ps_id e) (ds_key d) False of
             (Some err, f1) \<Rightarrow> (Some err, f1)
           | (None, f1) \<Rightarrow> check_vars S owned checked ds f1))"

definition inactive_keys :: "pipeline_schedule list \<Rightarrow> string list" where
  "inactive_keys existing =
     concat (map (\<lambda>e. case schedule_key (ps_description e) of
                    None \<Rightarrow> [] | Some k \<Rightarrow> if ps_active e then [] else [k]) existing)"

definition schedules_record :: "nat \<Rightarrow> subsystem_state" where
  "schedules_record managed =
     empty_subsystem\<lparr>ss_name := ''schedules'', ss_attempted := True, ss_completed := True, ss_allow_failure := True,
       ss_outcome := ''success'', ss_reason := ''schedules converged'',
       ss_results := Some [(''managed'', itoa (int managed))]\<rparr>"

definition add_result :: "string \<Rightarrow> string \<Rightarrow> subsystem_state \<Rightarrow> subsystem_state" where
  "add_result k v sub = sub\<lparr>ss_results := map_option (AList.update k v) (ss_results sub)\<rparr>"

text \<open>What \<open>fail\<close> records.\<close>

definition failed_record :: "nat \<Rightarrow> string \<Rightarrow> subsystem_state" where
  "failed_record managed err =
     (let sub = (schedules_record managed)\<lparr>ss_outcome := ''warning'', ss_reason := err\<rparr>
      in if managed > 0 then add_result ''signals'' ''schedule-inactive'' sub else sub)"

definition role_error :: "string \<Rightarrow> string" where
  "role_error e = ''cannot manage pipeline schedules (the forge token needs the Maintainer role): '' @ e"

text \<open>What the run records when no call failed; \<^const>\<open>None\<close> where it stays silent.\<close>

definition converged_record :: "nat \<Rightarrow> string list \<Rightarrow> string list \<Rightarrow> subsystem_state option" where
  "converged_record managed changes inactive =
     (if managed = 0 \<and> changes = [] \<and> inactive = [] then None
      else let sub = (if changes = [] then schedules_record managed
                      else add_result ''changes'' (join '', '' changes) (schedules_record managed))
           in Some (if inactive = [] then sub else add_result ''signals'' ''schedule-inactive'' sub))"

text \<open>
  \<open>reconcileSchedules\<close>: the recorded outcome, if any, and the state of the forge. The scheduler is
  absent when there is no client or the forge has no schedules of its own.
\<close>

definition reconcile_schedules ::
    "((string \<times> pipeline_schedule) list \<Rightarrow> (string \<times> pipeline_schedule) list) \<Rightarrow> string \<Rightarrow> schedule list \<Rightarrow> string \<Rightarrow>
     'f scheduler option \<Rightarrow> 'f \<Rightarrow> subsystem_state option \<times> 'f" where
  "reconcile_schedules pick seed ss branch client f =
     (case client of None \<Rightarrow> (None, f)
      | Some S \<Rightarrow>
     (let desired = desired_schedules seed ss; managed = length desired in
      case sc_list S f of
        Inl e \<Rightarrow> (if desired = [] then None else Some (failed_record managed (role_error e)), f)
      | Inr existing \<Rightarrow>
     (let me = (case sc_user S f of Inl _ \<Rightarrow> 0 | Inr m \<Rightarrow> m);
          ops = plan_schedules pick desired existing branch me in
      case run_ops S branch ops f of
        (Some e, f1) \<Rightarrow> (Some (failed_record managed e), f1)
      | (None, f1) \<Rightarrow>
     (case check_vars S (fst (owned_schedules existing)) (var_checked ops) desired f1 of
        (Some e, f2) \<Rightarrow> (Some (failed_record managed e), f2)
      | (None, f2) \<Rightarrow> (converged_record managed (map op_label ops) (inactive_keys existing), f2)))))"

section \<open>Keys and descriptions\<close>

text \<open>The bytes of a key: those of validated ids, and the comma between them.\<close>

definition key_ok :: "string \<Rightarrow> bool" where
  "key_ok key \<longleftrightarrow> list_all (\<lambda>c. identifier_char c \<or> c = CHR '','') key"

lemma identifier_char_ge: "identifier_char c \<Longrightarrow> (45::nat) \<le> of_char c"
  unfolding identifier_char_def is_letter_def is_lower_def is_upper_def is_digit_def
  by (elim disjE conjE) simp_all

lemma space_le: "is_space c \<Longrightarrow> of_char c \<le> (32::nat)"
  unfolding is_space_def by (elim disjE conjE) simp_all

lemma identifier_char_not_space: "identifier_char c \<Longrightarrow> \<not> is_space c \<and> c \<noteq> CHR '' '' \<and> c \<noteq> CHR '',''"
  using identifier_char_ge [of c] space_le [of c] by auto

lemma key_ok_no_space:
  assumes "key_ok key" "c \<in> set key"
  shows "\<not> is_space c \<and> c \<noteq> CHR '' ''"
proof -
  have "identifier_char c \<or> c = CHR '','' " using assms by (simp add: key_ok_def list_all_iff)
  moreover have "\<not> is_space (CHR '','')" by (simp add: is_space_def)
  ultimately show ?thesis using identifier_char_not_space [of c] by auto
qed

lemma before_sep_plain: "CHR '' '' \<notin> set s \<Longrightarrow> before_sep reason_sep (s @ r) = s @ before_sep reason_sep r"
  by (induction s) (auto simp: has_prefix_def reason_sep_def)

lemma trim_space_plain: "(\<And>c. c \<in> set s \<Longrightarrow> \<not> is_space c) \<Longrightarrow> trim_space s = s"
proof -
  assume a: "\<And>c. c \<in> set s \<Longrightarrow> \<not> is_space c"
  have "dropWhile is_space t = t" if "set t \<subseteq> set s" for t
    using that a by (cases t) auto
  then show ?thesis by (simp add: trim_space_def)
qed

lemma schedule_key_describe:
  assumes "key_ok key"
  shows "schedule_key (describe key why) = Some key"
proof -
  have n: "CHR '' '' \<notin> set key" using key_ok_no_space [OF assms] by blast
  have t: "trim_space key = key" using key_ok_no_space [OF assms] by (intro trim_space_plain) blast
  have e: "before_sep reason_sep (reason_sep @ r) = []" for r
    by (simp add: reason_sep_def has_prefix_def)
  show ?thesis
    using n t e by (simp add: schedule_key_def describe_def before_sep_plain del: append_assoc) (simp add: before_sep_plain e)
qed

text \<open>A desired list as the configuration gives it: distinct keys that the descriptions carry back.\<close>

definition desired_ok :: "desired_schedule list \<Rightarrow> bool" where
  "desired_ok ds \<longleftrightarrow> distinct (map ds_key ds) \<and> list_all (\<lambda>d. schedule_key (ds_description d) = Some (ds_key d)) ds"

lemma valid_schedule_id: "validate_schedules ss = [] \<Longrightarrow> s \<in> set ss \<Longrightarrow> is_identifier (sd_id s)"
  by (auto simp: validate_schedules_def validate_schedule_def split: if_splits)

lemma identifier_chars: "is_identifier i \<Longrightarrow> list_all identifier_char i \<and> i \<noteq> []"
  by (cases i) (auto simp: identifier_char_def)

lemma identifier_no_comma: "is_identifier i \<Longrightarrow> CHR '','' \<notin> set i"
  using identifier_chars [of i] identifier_char_not_space [of "CHR '',''"] by (auto simp: list_all_iff)

lemma join_comma_key_ok: "list_all is_identifier ids \<Longrightarrow> key_ok (join '','' ids)"
  by (induction "'',''" ids rule: join.induct) (auto simp: key_ok_def list_all_iff dest: identifier_chars)

lemma split_join_comma: "ids \<noteq> [] \<Longrightarrow> list_all is_identifier ids \<Longrightarrow> split_on (CHR '','') (join '','' ids) = ids"
proof (induction ids)
  case (Cons i ids)
  then show ?case
    using identifier_no_comma [of i] by (cases ids) (simp_all add: split_on_plain split_on_append_sep)
qed simp

lemma resolved_group:
  assumes "(c, ids) \<in> set (resolved_schedules seed ss)"
  shows "ids = group_ids seed ss c \<and> ids \<noteq> []"
proof -
  from assms have "ids = group_ids seed ss c" "c \<in> set (List.map_filter (resolved_cron seed) ss)"
    by (auto simp: resolved_schedules_spec)
  then show ?thesis by (force simp: group_ids_def List.map_filter_def filter_empty_conv)
qed

lemma group_ids_inj:
  assumes "distinct (map sd_id ss)" "group_ids seed ss c = group_ids seed ss c'" "group_ids seed ss c \<noteq> []"
  shows "c = c'"
proof -
  obtain i where i: "i \<in> set (group_ids seed ss c)" using assms(3) by (metis list.set_intros(1) neq_Nil_conv)
  then obtain s where s: "s \<in> set ss" "sd_id s = i" "resolved_cron seed s = Some c" by (auto simp: group_ids_def)
  from i have "i \<in> set (group_ids seed ss c')" by (simp only: assms(2))
  then obtain t where t: "t \<in> set ss" "sd_id t = i" "resolved_cron seed t = Some c'" by (auto simp: group_ids_def)
  have "s = t" using assms(1) s t by (metis (mono_tags, lifting) distinct_map inj_on_eq_iff)
  then show ?thesis using s t by simp
qed

lemma group_ids_identifiers: "validate_schedules ss = [] \<Longrightarrow> list_all is_identifier (group_ids seed ss c)"
  using valid_schedule_id [of ss] by (auto simp: group_ids_def list_all_iff)

lemma valid_desired_ok:
  assumes valid: "validate_schedules ss = []" and dist: "distinct (map sd_id ss)"
  shows "desired_ok (desired_schedules seed ss)"
proof -
  let ?rs = "resolved_schedules seed ss"
  have ids: "list_all is_identifier (snd r)" "snd r \<noteq> []" "snd r = group_ids seed ss (fst r)" if "r \<in> set ?rs" for r
    using that resolved_group [of "fst r" "snd r" seed ss] group_ids_identifiers [OF valid] by auto
  have inj: "inj_on (\<lambda>r. join '','' (snd r)) (set ?rs)"
  proof (rule inj_onI)
    fix r q assume rq: "r \<in> set ?rs" "q \<in> set ?rs" "join '','' (snd r) = join '','' (snd q)"
    then have "snd r = snd q" using ids split_join_comma by metis
    moreover have "fst r = fst q"
      using group_ids_inj [OF dist, of seed "fst r" "fst q"] ids(2,3) rq(1,2) \<open>snd r = snd q\<close> by auto
    ultimately show "r = q" by (simp add: prod_eq_iff)
  qed
  have "distinct ?rs" by (simp add: resolved_schedules_spec distinct_map inj_on_def)
  then have "distinct (map (\<lambda>r. join '','' (snd r)) ?rs)" using inj by (simp add: distinct_map)
  moreover have "map ds_key (desired_schedules seed ss) = map (\<lambda>r. join '','' (snd r)) ?rs"
    by (simp add: desired_schedules_def Let_def split_beta comp_def)
  moreover have "schedule_key (ds_description d) = Some (ds_key d)" if "d \<in> set (desired_schedules seed ss)" for d
  proof -
    from that obtain r where r: "r \<in> set ?rs" and d: "d = (let key = join '','' (snd r);
          why = filter (\<lambda>x. x \<noteq> []) (map (reason_of ss) (snd r))
        in \<lparr>ds_key = key, ds_cron = fst r, ds_description = describe key why\<rparr>)"
      by (auto simp: desired_schedules_def split_beta)
    show ?thesis using join_comma_key_ok [OF ids(1) [OF r]] by (simp add: d Let_def schedule_key_describe)
  qed
  ultimately show ?thesis by (simp add: desired_ok_def list_all_iff)
qed

section \<open>Owned schedules\<close>

lemma owned_loop_inv:
  assumes "owned_loop es owned dups = (owned', dups')" "distinct (map fst owned)"
  shows "distinct (map fst owned') \<and> set owned \<subseteq> set owned' \<and>
    mset (map snd owned' @ dups') = mset (map snd owned @ dups) + mset (filter (\<lambda>e. schedule_key (ps_description e) \<noteq> None) es) \<and>
    ((\<forall>(k, e) \<in> set owned. schedule_key (ps_description e) = Some k) \<longrightarrow> (\<forall>(k, e) \<in> set owned'. schedule_key (ps_description e) = Some k)) \<and>
    ((\<forall>e \<in> set dups. \<exists>k e'. schedule_key (ps_description e) = Some k \<and> (k, e') \<in> set owned') \<longrightarrow>
     (\<forall>e \<in> set dups'. \<exists>k e'. schedule_key (ps_description e) = Some k \<and> (k, e') \<in> set owned'))"
  using assms
proof (induction es owned dups rule: owned_loop.induct)
  case (1 owned dups)
  then show ?case by simp
next
  case (2 e es owned dups)
  show ?case
  proof (cases "schedule_key (ps_description e)")
    case None
    then show ?thesis using 2 by simp
  next
    case (Some k)
    show ?thesis
    proof (cases "map_of owned k")
      case None
      have "k \<notin> fst ` set owned" using None by (simp add: map_of_eq_None_iff)
      then have "distinct (map fst (owned @ [(k, e)]))" using "2.prems"(2) by simp
      moreover have "owned_loop es (owned @ [(k, e)]) dups = (owned', dups')" using "2.prems"(1) Some None by simp
      ultimately show ?thesis using "2.IH"(3) [OF Some] Some None by simp
    next
      case (Some e')
      then have m: "(k, e') \<in> set owned" by (rule map_of_SomeD)
      have "owned_loop es owned (dups @ [e]) = (owned', dups')" using "2.prems"(1) Some \<open>schedule_key (ps_description e) = Some k\<close> by simp
      then show ?thesis using "2.IH"(2) [OF \<open>schedule_key (ps_description e) = Some k\<close>] Some "2.prems"(2) m
          \<open>schedule_key (ps_description e) = Some k\<close> by auto
    qed
  qed
qed

lemma owned_schedules_facts:
  assumes "owned_schedules es = (owned, dups)"
  shows "distinct (map fst owned)"
    and "mset (map snd owned @ dups) = mset (filter (\<lambda>e. schedule_key (ps_description e) \<noteq> None) es)"
    and "(k, e) \<in> set owned \<Longrightarrow> schedule_key (ps_description e) = Some k"
    and "e \<in> set dups \<Longrightarrow> \<exists>k e'. schedule_key (ps_description e) = Some k \<and> (k, e') \<in> set owned"
  using owned_loop_inv [OF assms [unfolded owned_schedules_def]] by auto

lemma owned_schedules_set:
  assumes "owned_schedules es = (owned, dups)"
  shows "snd ` set owned \<union> set dups = {e \<in> set es. schedule_key (ps_description e) \<noteq> None}"
  using owned_schedules_facts(2) [OF assms, THEN mset_eq_setD] by auto

lemma owned_schedules_ids:
  assumes "owned_schedules es = (owned, dups)" "distinct (map ps_id es)"
  shows "distinct (map ps_id (map snd owned @ dups))"
proof -
  have "mset (map ps_id (map snd owned @ dups)) = mset (map ps_id (filter (\<lambda>e. schedule_key (ps_description e) \<noteq> None) es))"
    using owned_schedules_facts(2) [OF assms(1)] by (metis mset_map)
  moreover have "distinct (map ps_id (filter (\<lambda>e. schedule_key (ps_description e) \<noteq> None) es))"
    using assms(2) by (simp add: distinct_map inj_on_def)
  ultimately show ?thesis by (metis distinct_count_atmost_1 mset_eq_imp_distinct_iff)
qed

section \<open>What a forge promises\<close>

text \<open>
  A call touches only the schedule it addresses, whether it succeeds or fails; what is created was
  not there before; and the listing shows existing schedules, each once.
\<close>

locale forge_frame =
  fixes S :: "'f scheduler" and obs :: "'f \<Rightarrow> int \<Rightarrow> pipeline_schedule option"
  assumes update_frame: "j \<noteq> ps_id p \<Longrightarrow> obs (snd (sc_update S f p)) j = obs f j"
    and delete_frame: "j \<noteq> i \<Longrightarrow> obs (snd (sc_delete S f i)) j = obs f j"
    and own_frame: "j \<noteq> i \<Longrightarrow> obs (snd (sc_own S f i)) j = obs f j"
    and set_var_frame: "j \<noteq> i \<Longrightarrow> obs (snd (sc_set_var S f i k v x)) j = obs f j"
    and create_frame: "obs f j \<noteq> None \<Longrightarrow> obs (snd (sc_create S f p)) j = obs f j"
    and create_fresh: "sc_create S f p = (Inr n, f1) \<Longrightarrow> obs f n = None"
    and create_other: "sc_create S f p = (Inr n, f1) \<Longrightarrow> j \<noteq> n \<Longrightarrow> obs f1 j = obs f j"
    and list_sound: "sc_list S f = Inr xs \<Longrightarrow> e \<in> set xs \<Longrightarrow>
      \<exists>o'. obs f (ps_id e) = Some o' \<and> e\<lparr>ps_vars := []\<rparr> = o'\<lparr>ps_vars := []\<rparr>"
    and list_distinct: "sc_list S f = Inr xs \<Longrightarrow> distinct (map ps_id xs)"
begin

lemma ensure_var_frame: "j \<noteq> i \<Longrightarrow> obs (snd (ensure_var S f i k fresh)) j = obs f j"
  by (simp add: ensure_var_def set_var_frame split: sum.split option.split)

lemma run_op_frame:
  assumes "obs f j = Some q" "op_kind op = OpCreate \<or> ps_id (op_existing op) \<noteq> j"
  shows "obs (snd (run_op S branch op f)) j = Some q"
proof (cases "op_kind op")
  case OpCreate
  obtain r f1 where c: "sc_create S f (wanted branch op) = (r, f1)" by fastforce
  have f1: "obs f1 j = Some q" using create_frame [of f j "wanted branch op"] assms(1) c by simp
  show ?thesis
  proof (cases r)
    case (Inr n)
    then have "n \<noteq> j" using create_fresh [of f] c assms(1) by auto
    then show ?thesis using OpCreate c f1 Inr by (simp add: run_op_def ensure_var_frame)
  qed (use OpCreate c f1 in \<open>simp add: run_op_def\<close>)
next
  case OpUpdate
  obtain r f1 where c: "sc_update S f (wanted branch op) = (r, f1)" by fastforce
  have n: "j \<noteq> ps_id (op_existing op)" using OpUpdate assms(2) by auto
  have "obs f1 j = Some q" using update_frame [of j "wanted branch op" f] assms(1) c n by (simp add: wanted_def)
  then show ?thesis using OpUpdate c n by (simp add: run_op_def ensure_var_frame split: option.split)
next
  case OpOwn
  then show ?thesis using assms own_frame by (auto simp: run_op_def)
next
  case OpDelete
  then show ?thesis using assms delete_frame by (auto simp: run_op_def)
qed

lemma run_ops_frame:
  assumes "obs f j = Some q" "list_all (\<lambda>op. op_kind op = OpCreate \<or> ps_id (op_existing op) \<noteq> j) ops"
  shows "obs (snd (run_ops S branch ops f)) j = Some q"
  using assms
proof (induction ops arbitrary: f)
  case (Cons op ops)
  obtain r f1 where r: "run_op S branch op f = (r, f1)" by fastforce
  have "obs f1 j = Some q" using run_op_frame [of f j q op branch] Cons.prems r by simp
  then show ?case using Cons.IH [of f1] Cons.prems r by (simp split: option.split)
qed simp

lemma check_vars_frame:
  assumes "\<And>k e. map_of owned k = Some e \<Longrightarrow> ps_id e \<noteq> j"
  shows "obs (snd (check_vars S owned checked ds f)) j = obs f j"
proof (induction ds arbitrary: f)
  case (Cons d ds)
  have e: "obs f1 j = obs f j" if "ensure_var S f (ps_id e) (ds_key d) False = (r, f1)" "map_of owned (ds_key d) = Some e" for e r f1
    using ensure_var_frame [of j "ps_id e" f "ds_key d" False] assms [OF that(2)] that(1) by auto
  show ?case
    by (auto simp: Cons.IH split: option.split prod.split dest: e)
qed simp

end

lemma plan_targets:
  assumes "op \<in> set (plan_schedules pick desired xs branch me)" "\<And>ys. set (pick ys) = set ys"
  shows "op_kind op = OpCreate \<or> op_existing op \<in> set xs \<and> schedule_key (ps_description (op_existing op)) \<noteq> None"
proof -
  obtain owned dups where o: "owned_schedules xs = (owned, dups)" by fastforce
  have m: "e \<in> set xs \<and> schedule_key (ps_description e) \<noteq> None" if "e \<in> snd ` set owned \<union> set dups" for e
    using that owned_schedules_set [OF o] by blast
  from assms(1) consider "op \<in> delete_op ` set dups" | d where "op \<in> set (desired_ops owned branch me d)"
    | k e where "(k, e) \<in> set owned" "op = delete_op e"
    by (auto simp: plan_schedules_def o assms(2))
  then show ?thesis
  proof cases
    case 1
    then show ?thesis using m by (auto simp: delete_op_def)
  next
    case 2
    then show ?thesis using m
      by (auto simp: desired_ops_def dest!: map_of_SomeD split: option.splits if_splits) force+
  next
    case 3
    then show ?thesis using m [of e] by (force simp: delete_op_def)
  qed
qed

context forge_frame
begin

lemma foreign_kept:
  assumes q: "obs f j = Some q" "schedule_key (ps_description q) = None" and pick: "\<And>ys. set (pick ys) = set ys"
  shows "obs (snd (reconcile_schedules pick seed ss branch (Some S) f)) j = Some q"
proof (cases "sc_list S f")
  case (Inl e)
  then show ?thesis using q by (simp add: reconcile_schedules_def Let_def)
next
  case (Inr xs)
  have marked: "ps_id e \<noteq> j" if e: "e \<in> set xs" "schedule_key (ps_description e) \<noteq> None" for e
  proof
    assume "ps_id e = j"
    then have "e\<lparr>ps_vars := []\<rparr> = q\<lparr>ps_vars := []\<rparr>" using list_sound [OF Inr e(1)] q(1) by auto
    then have "ps_description e = ps_description q" by (cases e; cases q) simp
    then show False using e(2) q(2) by simp
  qed
  let ?me = "case sc_user S f of Inl _ \<Rightarrow> 0 | Inr m \<Rightarrow> m"
  let ?ops = "plan_schedules pick (desired_schedules seed ss) xs branch ?me"
  have "list_all (\<lambda>op. op_kind op = OpCreate \<or> ps_id (op_existing op) \<noteq> j) ?ops"
    using plan_targets [of _ pick "desired_schedules seed ss" xs branch ?me] pick marked by (fastforce simp: list_all_iff)
  then have 1: "obs (snd (run_ops S branch ?ops f)) j = Some q" by (rule run_ops_frame [OF q(1)])
  obtain owned dups where o: "owned_schedules xs = (owned, dups)" by fastforce
  have "ps_id e \<noteq> j" if "map_of owned k = Some e" for k e
    using marked [of e] owned_schedules_set [OF o] map_of_SomeD [OF that] by force
  then have 2: "obs (snd (check_vars S owned c ds f1)) j = obs f1 j" for c ds f1
    by (rule check_vars_frame)
  show ?thesis
    using 1 2 [of "var_checked ?ops" "desired_schedules seed ss"] Inr o
    by (auto simp: reconcile_schedules_def Let_def split: prod.split option.split)
       (metis snd_conv)+
qed

end

section \<open>What the run keeps\<close>

text \<open>C25: When the schedules validate and their ids are distinct, as the keys of the block are, the keys of the
  desired schedules are distinct, and the description written to the forge carries its key back, whatever the
  declared reasons say.\<close>

theorem desired_keys_carried:
  assumes "validate_schedules ss = []" "distinct (map sd_id ss)"
  shows "distinct (map ds_key (desired_schedules seed ss)) \<and>
    list_all (\<lambda>d. schedule_key (ds_description d) = Some (ds_key d)) (desired_schedules seed ss)"
  using valid_desired_ok [OF assms, of seed] by (simp add: desired_ok_def)

theorem desired_keys_carried_witness:
  "let ss = [\<lparr>sd_id = ''night'', sd_cron = ''H 3 * * *'', sd_reason = reason_sep, sd_build = []\<rparr>,
             \<lparr>sd_id = ''week'', sd_cron = ''5 3 * * 1'', sd_reason = ''a b'', sd_build = ''always''\<rparr>]
   in distinct (map ds_key (desired_schedules ''r'' ss)) \<and>
      list_all (\<lambda>d. schedule_key (ds_description d) = Some (ds_key d)) (desired_schedules ''r'' ss)"
  unfolding Let_def by (rule desired_keys_carried) code_simp+

end
