(* ===== verification/Schedule_Converge.thy ===== *)
theory Schedule_Converge
  imports Schedule_Reconcile
begin

text \<open>
  Convergence of the schedule reconcile: from any state of a forge whose calls succeed, one run makes
  the marked schedules what the configuration declares, and a second run then changes nothing.
\<close>

section \<open>A forge whose calls succeed\<close>

definition same_schedule :: "pipeline_schedule \<Rightarrow> pipeline_schedule \<Rightarrow> bool" where
  "same_schedule p q \<longleftrightarrow> p\<lparr>ps_vars := []\<rparr> = q\<lparr>ps_vars := []\<rparr>"

lemma same_scheduleD:
  "same_schedule p q \<Longrightarrow> ps_id p = ps_id q \<and> ps_description p = ps_description q \<and> ps_ref p = ps_ref q \<and>
    ps_cron p = ps_cron q \<and> ps_timezone p = ps_timezone q \<and> ps_active p = ps_active q \<and> ps_owner p = ps_owner q"
  by (cases p; cases q) (simp add: same_schedule_def)

lemma same_schedule_refl [simp]: "same_schedule p p"
  by (simp add: same_schedule_def)

lemma same_schedule_vars [simp]: "same_schedule (p\<lparr>ps_vars := v\<rparr>) q = same_schedule p q"
  "same_schedule p (q\<lparr>ps_vars := v\<rparr>) = same_schedule p q"
  by (simp_all add: same_schedule_def)

text \<open>A call on an existing schedule succeeds and does what it says; the token's user owns what it creates. A
  listing shows at most \<open>page\<close> schedules, so it is complete where the forge holds no more.\<close>

definition fits :: "nat \<Rightarrow> (int \<Rightarrow> pipeline_schedule option) \<Rightarrow> bool" where
  "fits page M \<longleftrightarrow> finite (dom M) \<and> card (dom M) \<le> page"

locale live_forge = forge_frame S obs for S :: "'f scheduler" and obs :: "'f \<Rightarrow> int \<Rightarrow> pipeline_schedule option" +
  fixes me :: int and page :: nat
  assumes user_ok: "sc_user S f = Inr me"
    and list_ok: "\<exists>xs. sc_list S f = Inr xs"
    and list_complete: "sc_list S f = Inr xs \<Longrightarrow> fits page (obs f) \<Longrightarrow> obs f i \<noteq> None \<Longrightarrow> i \<in> ps_id ` set xs"
    and get_ok: "obs f i = Some q \<Longrightarrow> sc_get S f i = Inr q"
    and create_ok: "\<exists>n f1. sc_create S f p = (Inr n, f1) \<and>
      obs f1 n = Some (p\<lparr>ps_id := n, ps_owner := me, ps_vars := []\<rparr>)"
    and update_ok: "obs f (ps_id p) = Some q \<Longrightarrow> \<exists>f1. sc_update S f p = (None, f1) \<and>
      obs f1 (ps_id p) = Some (p\<lparr>ps_owner := ps_owner q, ps_vars := ps_vars q\<rparr>)"
    and delete_ok: "obs f i \<noteq> None \<Longrightarrow> \<exists>f1. sc_delete S f i = (None, f1) \<and> obs f1 i = None"
    and own_ok: "obs f i = Some q \<Longrightarrow> \<exists>f1. sc_own S f i = (None, f1) \<and> obs f1 i = Some (q\<lparr>ps_owner := me\<rparr>)"
    and set_var_ok: "obs f i = Some q \<Longrightarrow> x \<longleftrightarrow> map_of (ps_vars q) k \<noteq> None \<Longrightarrow>
      \<exists>f1 vs. sc_set_var S f i k v x = (None, f1) \<and> obs f1 i = Some (q\<lparr>ps_vars := vs\<rparr>) \<and> map_of vs k = Some v"
begin

lemma ensure_var_ok:
  assumes "obs f i = Some q" "fresh \<Longrightarrow> map_of (ps_vars q) schedule_var = None"
  obtains f1 vs where "ensure_var S f i key fresh = (None, f1)" "obs f1 i = Some (q\<lparr>ps_vars := vs\<rparr>)"
    "map_of vs schedule_var = Some key" "\<And>j. j \<noteq> i \<Longrightarrow> obs f1 j = obs f j"
    "\<not> fresh \<Longrightarrow> map_of (ps_vars q) schedule_var = Some key \<Longrightarrow> f1 = f"
proof -
  have set_var: "\<exists>f1 vs. sc_set_var S f i schedule_var key x = (None, f1) \<and> obs f1 i = Some (q\<lparr>ps_vars := vs\<rparr>) \<and>
      map_of vs schedule_var = Some key \<and> (\<forall>j. j \<noteq> i \<longrightarrow> obs f1 j = obs f j)"
    if "x \<longleftrightarrow> map_of (ps_vars q) schedule_var \<noteq> None" for x
    using set_var_ok [OF assms(1) that, of key] set_var_frame [of _ i f schedule_var key x] by (metis snd_conv)
  have get: "sc_get S f i = Inr q" using assms(1) by (rule get_ok)
  consider "fresh" "map_of (ps_vars q) schedule_var = None" | "\<not> fresh" "map_of (ps_vars q) schedule_var = None"
    | v where "\<not> fresh" "map_of (ps_vars q) schedule_var = Some v" "v \<noteq> key"
    | "\<not> fresh" "map_of (ps_vars q) schedule_var = Some key"
    using assms(2) by (cases fresh; cases "map_of (ps_vars q) schedule_var") auto
  then show ?thesis
  proof cases
    case 1
    then show ?thesis using set_var [of False] by (auto simp: ensure_var_def intro: that)
  next
    case 2
    then show ?thesis using set_var [of False] by (auto simp: ensure_var_def get intro: that)
  next
    case 3
    then show ?thesis using set_var [of True] by (auto simp: ensure_var_def get intro: that)
  next
    case 4
    then have "ensure_var S f i key fresh = (None, f)" by (simp add: ensure_var_def get)
    moreover have "obs f i = Some (q\<lparr>ps_vars := ps_vars q\<rparr>)" using assms(1) by simp
    ultimately show ?thesis using 4 by (intro that) auto
  qed
qed

lemma run_ops_append:
  "run_ops S branch (as @ bs) f =
     (case run_ops S branch as f of (Some e, f1) \<Rightarrow> (Some e, f1) | (None, f1) \<Rightarrow> run_ops S branch bs f1)"
  by (induction as arbitrary: f) (auto split: prod.split option.split)

lemma run_deletes:
  assumes "distinct (map ps_id es)" "\<And>e. e \<in> set es \<Longrightarrow> obs f (ps_id e) \<noteq> None"
  shows "\<exists>f1. run_ops S branch (map delete_op es) f = (None, f1) \<and>
    obs f1 = (\<lambda>j. if j \<in> ps_id ` set es then None else obs f j)"
  using assms
proof (induction es arbitrary: f)
  case Nil
  then show ?case by auto
next
  case (Cons e es)
  obtain f1 where f1: "sc_delete S f (ps_id e) = (None, f1)" "obs f1 (ps_id e) = None"
    using delete_ok [of f "ps_id e"] Cons.prems(2) by auto
  have o: "obs f1 j = obs f j" if "j \<noteq> ps_id e" for j using delete_frame [OF that, of f] f1 by simp
  have "obs f1 (ps_id e') \<noteq> None" if "e' \<in> set es" for e'
  proof -
    have "ps_id e' \<noteq> ps_id e" using Cons.prems(1) that by (force simp: image_iff)
    then show ?thesis using o Cons.prems(2) that by simp
  qed
  then obtain f2 where f2: "run_ops S branch (map delete_op es) f1 = (None, f2)"
    "obs f2 = (\<lambda>j. if j \<in> ps_id ` set es then None else obs f1 j)"
    using Cons.IH [of f1] Cons.prems(1) by auto
  have "obs f2 = (\<lambda>j. if j \<in> ps_id ` set (e # es) then None else obs f j)"
    using f2(2) f1(2) o by (auto simp: fun_eq_iff)
  moreover have "run_op S branch (delete_op e) f = (None, f1)" by (simp add: run_op_def delete_op_def f1(1))
  ultimately show ?case using f2(1) by (intro exI [of _ f2]) simp
qed

end

definition settled :: "string \<Rightarrow> int \<Rightarrow> desired_schedule \<Rightarrow> pipeline_schedule \<Rightarrow> bool" where
  "settled branch me d q \<longleftrightarrow> \<not> drifted d branch q \<and> (me = 0 \<or> ps_owner q = me)"

definition routed :: "desired_schedule \<Rightarrow> pipeline_schedule \<Rightarrow> bool" where
  "routed d q \<longleftrightarrow> map_of (ps_vars q) schedule_var = Some (ds_key d)"

definition marked_ids :: "(int \<Rightarrow> pipeline_schedule option) \<Rightarrow> string \<Rightarrow> int set" where
  "marked_ids M k = {i. \<exists>q. M i = Some q \<and> schedule_key (ps_description q) = Some k}"

text \<open>The operations of a desired schedule check its variable.\<close>

definition needs_write :: "(string \<times> pipeline_schedule) list \<Rightarrow> string \<Rightarrow> desired_schedule \<Rightarrow> bool" where
  "needs_write owned branch d = (case map_of owned (ds_key d) of None \<Rightarrow> True | Some e \<Rightarrow> drifted d branch e)"

context live_forge
begin

lemma run_update:
  assumes "obs f (ps_id e) = Some q"
  obtains f1 vs where "run_op S branch \<lparr>op_kind = OpUpdate, op_desired = d, op_existing = e\<rparr> f = (None, f1)"
    "obs f1 (ps_id e) = Some ((wanted branch \<lparr>op_kind = OpUpdate, op_desired = d, op_existing = e\<rparr>)\<lparr>ps_owner := ps_owner q, ps_vars := vs\<rparr>)"
    "map_of vs schedule_var = Some (ds_key d)" "\<And>j. j \<noteq> ps_id e \<Longrightarrow> obs f1 j = obs f j"
proof -
  let ?op = "\<lparr>op_kind = OpUpdate, op_desired = d, op_existing = e\<rparr>"
  have i: "ps_id (wanted branch ?op) = ps_id e" by (simp add: wanted_def)
  obtain f1 where f1: "sc_update S f (wanted branch ?op) = (None, f1)"
    "obs f1 (ps_id e) = Some ((wanted branch ?op)\<lparr>ps_owner := ps_owner q, ps_vars := ps_vars q\<rparr>)"
    using update_ok [of f "wanted branch ?op" q] assms i by auto
  obtain f2 vs where f2: "ensure_var S f1 (ps_id e) (ds_key d) False = (None, f2)"
    "obs f2 (ps_id e) = Some ((wanted branch ?op)\<lparr>ps_owner := ps_owner q, ps_vars := ps_vars q\<rparr>\<lparr>ps_vars := vs\<rparr>)"
    "map_of vs schedule_var = Some (ds_key d)" "\<And>j. j \<noteq> ps_id e \<Longrightarrow> obs f2 j = obs f1 j"
    by (rule ensure_var_ok [where fresh = False and key = "ds_key d", OF f1(2)]) auto
  have "obs f2 j = obs f j" if "j \<noteq> ps_id e" for j
    using f2(4) [OF that] update_frame [of j "wanted branch ?op" f] f1(1) that i by simp
  then show ?thesis using f1(1) f2 by (intro that [of f2 vs]) (simp_all add: run_op_def)
qed

lemma run_create:
  obtains f1 n vs where "run_op S branch \<lparr>op_kind = OpCreate, op_desired = d, op_existing = e\<rparr> f = (None, f1)"
    "obs f n = None"
    "obs f1 n = Some ((wanted branch \<lparr>op_kind = OpCreate, op_desired = d, op_existing = e\<rparr>)\<lparr>ps_id := n, ps_owner := me, ps_vars := vs\<rparr>)"
    "map_of vs schedule_var = Some (ds_key d)" "\<And>j. j \<noteq> n \<Longrightarrow> obs f1 j = obs f j"
proof -
  let ?op = "\<lparr>op_kind = OpCreate, op_desired = d, op_existing = e\<rparr>"
  obtain n f1 where f1: "sc_create S f (wanted branch ?op) = (Inr n, f1)"
    "obs f1 n = Some ((wanted branch ?op)\<lparr>ps_id := n, ps_owner := me, ps_vars := []\<rparr>)"
    using create_ok [of f "wanted branch ?op"] by auto
  obtain f2 vs where f2: "ensure_var S f1 n (ds_key d) True = (None, f2)"
    "obs f2 n = Some ((wanted branch ?op)\<lparr>ps_id := n, ps_owner := me, ps_vars := []\<rparr>\<lparr>ps_vars := vs\<rparr>)"
    "map_of vs schedule_var = Some (ds_key d)" "\<And>j. j \<noteq> n \<Longrightarrow> obs f2 j = obs f1 j"
    by (rule ensure_var_ok [where fresh = True and key = "ds_key d", OF f1(2)]) auto
  have "obs f2 j = obs f j" if "j \<noteq> n" for j
    using f2(4) [OF that] create_other [OF f1(1) that] by simp
  then show ?thesis using f1(1) f2 create_fresh [OF f1(1)] by (intro that [of f2 n vs]) (simp_all add: run_op_def)
qed

lemma desired_step:
  assumes found: "\<And>e. map_of owned (ds_key d) = Some e \<Longrightarrow> \<exists>q. obs f (ps_id e) = Some q \<and> same_schedule e q"
  obtains f1 n q where "run_ops S branch (desired_ops owned branch me d) f = (None, f1)"
    "obs f1 n = Some q" "settled branch me d q" "needs_write owned branch d \<Longrightarrow> routed d q"
    "\<And>j. j \<noteq> n \<Longrightarrow> obs f1 j = obs f j"
    "map_of owned (ds_key d) = None \<Longrightarrow> obs f n = None" "\<And>e. map_of owned (ds_key d) = Some e \<Longrightarrow> n = ps_id e"
proof (cases "map_of owned (ds_key d)")
  case None
  show ?thesis
  proof (rule run_create [of branch d zero_schedule f])
    fix f1 n vs
    let ?q = "(wanted branch \<lparr>op_kind = OpCreate, op_desired = d, op_existing = zero_schedule\<rparr>)\<lparr>ps_id := n, ps_owner := me, ps_vars := vs\<rparr>"
    assume r: "run_op S branch \<lparr>op_kind = OpCreate, op_desired = d, op_existing = zero_schedule\<rparr> f = (None, f1)"
      "obs f n = None" "obs f1 n = Some ?q" "map_of vs schedule_var = Some (ds_key d)" "\<And>j. j \<noteq> n \<Longrightarrow> obs f1 j = obs f j"
    have "settled branch me d ?q" by (simp add: settled_def drifted_def wanted_def)
    moreover have "routed d ?q" using r(4) by (simp add: routed_def)
    ultimately show ?thesis
      using r None by (intro that [of f1 n ?q]) (simp_all add: desired_ops_def)
  qed
next
  case (Some e)
  obtain q where q: "obs f (ps_id e) = Some q" "same_schedule e q" using found [OF Some] by auto
  let ?up = "if drifted d branch e then [\<lparr>op_kind = OpUpdate, op_desired = d, op_existing = e\<rparr>] else []"
  obtain f1 q1 where 1: "run_ops S branch ?up f = (None, f1)" "obs f1 (ps_id e) = Some q1" "\<not> drifted d branch q1"
    "drifted d branch e \<longrightarrow> routed d q1" "\<And>j. j \<noteq> ps_id e \<Longrightarrow> obs f1 j = obs f j" "ps_owner q1 = ps_owner q"
  proof (cases "drifted d branch e")
    case True
    obtain f1 vs where u: "run_op S branch \<lparr>op_kind = OpUpdate, op_desired = d, op_existing = e\<rparr> f = (None, f1)"
      "obs f1 (ps_id e) = Some ((wanted branch \<lparr>op_kind = OpUpdate, op_desired = d, op_existing = e\<rparr>)\<lparr>ps_owner := ps_owner q, ps_vars := vs\<rparr>)"
      "map_of vs schedule_var = Some (ds_key d)" "\<And>j. j \<noteq> ps_id e \<Longrightarrow> obs f1 j = obs f j"
      by (rule run_update [where branch = branch and d = d, OF q(1)]) blast
    show ?thesis
      using u True by (intro that [OF _ u(2)]) (simp_all add: drifted_def wanted_def routed_def)
  next
    case False
    have "\<not> drifted d branch q" using False same_scheduleD [OF q(2)] by (simp add: drifted_def)
    then show ?thesis using False q(1) by (intro that [of f q]) simp_all
  qed
  let ?own = "if me \<noteq> 0 \<and> ps_owner e \<noteq> me then [\<lparr>op_kind = OpOwn, op_desired = d, op_existing = e\<rparr>] else []"
  obtain f2 q2 where 2: "run_ops S branch ?own f1 = (None, f2)" "obs f2 (ps_id e) = Some q2" "settled branch me d q2"
    "ps_vars q2 = ps_vars q1" "\<And>j. j \<noteq> ps_id e \<Longrightarrow> obs f2 j = obs f1 j"
  proof (cases "me \<noteq> 0 \<and> ps_owner e \<noteq> me")
    case True
    obtain f2 where o: "sc_own S f1 (ps_id e) = (None, f2)" "obs f2 (ps_id e) = Some (q1\<lparr>ps_owner := me\<rparr>)"
      using own_ok [OF 1(2)] by auto
    have "settled branch me d (q1\<lparr>ps_owner := me\<rparr>)" using 1(3) by (simp add: settled_def drifted_def)
    moreover have "j \<noteq> ps_id e \<Longrightarrow> obs f2 j = obs f1 j" for j using own_frame [of j "ps_id e" f1] o(1) by simp
    ultimately show ?thesis using o True by (intro that [OF _ o(2)]) (simp_all add: run_op_def)
  next
    case False
    have "settled branch me d q1" using 1(3,6) False same_scheduleD [OF q(2)] by (auto simp: settled_def)
    moreover have "?own = []" using False by auto
    ultimately show ?thesis using 1(2) by (intro that [of f1 q1]) simp_all
  qed
  have "desired_ops owned branch me d = ?up @ ?own" by (simp add: desired_ops_def Some)
  moreover have "needs_write owned branch d \<longrightarrow> routed d q2" using 1(4) 2(4) Some by (simp add: needs_write_def routed_def)
  moreover have "run_ops S branch (?up @ ?own) f = (None, f2)" unfolding run_ops_append 1(1) using 2(1) by simp
  ultimately show ?thesis using 1(5) 2 Some by (intro that [OF _ 2(2)]) simp_all
qed

end

section \<open>Convergence\<close>

definition unchanged_at :: "(int \<Rightarrow> pipeline_schedule option) \<Rightarrow> (int \<Rightarrow> pipeline_schedule option) \<Rightarrow> string \<Rightarrow> bool" where
  "unchanged_at M M' k \<longleftrightarrow> marked_ids M' k = marked_ids M k \<and> (\<forall>i \<in> marked_ids M k. M' i = M i)"

lemma unchanged_at_trans: "unchanged_at M M1 k \<Longrightarrow> unchanged_at M1 M2 k \<Longrightarrow> unchanged_at M M2 k"
  by (simp add: unchanged_at_def)

text \<open>What holds of a desired schedule before its operations, and after them.\<close>

definition startable :: "(string \<times> pipeline_schedule) list \<Rightarrow> (int \<Rightarrow> pipeline_schedule option) \<Rightarrow> desired_schedule \<Rightarrow> bool" where
  "startable owned M d \<longleftrightarrow>
     marked_ids M (ds_key d) = ps_id ` set_option (map_of owned (ds_key d)) \<and>
     (\<forall>e. map_of owned (ds_key d) = Some e \<longrightarrow> (\<exists>q. M (ps_id e) = Some q \<and> same_schedule e q))"

definition placed :: "(string \<times> pipeline_schedule) list \<Rightarrow> string \<Rightarrow> int \<Rightarrow> (int \<Rightarrow> pipeline_schedule option) \<Rightarrow>
    desired_schedule \<Rightarrow> bool" where
  "placed owned branch me M d \<longleftrightarrow>
     (\<exists>n q. marked_ids M (ds_key d) = {n} \<and> M n = Some q \<and> settled branch me d q \<and>
        (needs_write owned branch d \<longrightarrow> routed d q) \<and> (\<forall>e. map_of owned (ds_key d) = Some e \<longrightarrow> n = ps_id e))"

lemma placed_unchanged: "placed owned branch me M d \<Longrightarrow> unchanged_at M M' (ds_key d) \<Longrightarrow> placed owned branch me M' d"
  unfolding placed_def unchanged_at_def by auto

lemma startable_unchanged: "startable owned M d \<Longrightarrow> unchanged_at M M' (ds_key d) \<Longrightarrow> startable owned M' d"
  unfolding startable_def unchanged_at_def by auto

lemma step_marks:
  assumes "M' n = Some q" "schedule_key (ps_description q) = Some k" "\<And>j. j \<noteq> n \<Longrightarrow> M' j = M j"
    "marked_ids M k \<subseteq> {n}" "M n = None \<or> n \<in> marked_ids M k"
  shows "marked_ids M' k = {n}" "k' \<noteq> k \<Longrightarrow> unchanged_at M M' k'"
proof -
  have in_iff: "j \<in> marked_ids M' k' \<longleftrightarrow> j \<in> marked_ids M k'" if "j \<noteq> n" for j k'
    using assms(3) [OF that] by (simp add: marked_ids_def)
  have "n \<in> marked_ids M' k" using assms(1,2) by (simp add: marked_ids_def)
  then show "marked_ids M' k = {n}" using in_iff assms(4) by blast
  assume k': "k' \<noteq> k"
  have no: "n \<notin> marked_ids M' k'" "n \<notin> marked_ids M k'"
    using assms(1,2,5) k' by (auto simp: marked_ids_def)
  have "marked_ids M' k' = marked_ids M k'"
  proof (rule set_eqI)
    fix j show "j \<in> marked_ids M' k' \<longleftrightarrow> j \<in> marked_ids M k'"
      using no in_iff [of j k'] by (cases "j = n") simp_all
  qed
  moreover have "M' i = M i" if "i \<in> marked_ids M k'" for i using that no(2) by (intro assms(3)) auto
  ultimately show "unchanged_at M M' k'" by (simp add: unchanged_at_def)
qed

context live_forge
begin

lemma place_one:
  assumes st: "startable owned (obs f) d" and key: "schedule_key (ds_description d) = Some (ds_key d)"
  obtains f1 where "run_ops S branch (desired_ops owned branch me d) f = (None, f1)" "placed owned branch me (obs f1) d"
    "\<And>k. k \<noteq> ds_key d \<Longrightarrow> unchanged_at (obs f) (obs f1) k"
    "\<And>i. obs f1 i \<noteq> None \<Longrightarrow> obs f i \<noteq> None \<or> i \<in> marked_ids (obs f1) (ds_key d)"
proof -
  obtain f1 n q where s: "run_ops S branch (desired_ops owned branch me d) f = (None, f1)"
    "obs f1 n = Some q" "settled branch me d q" "needs_write owned branch d \<Longrightarrow> routed d q"
    "\<And>j. j \<noteq> n \<Longrightarrow> obs f1 j = obs f j"
    "map_of owned (ds_key d) = None \<Longrightarrow> obs f n = None" "\<And>e. map_of owned (ds_key d) = Some e \<Longrightarrow> n = ps_id e"
    using st by (elim desired_step [where owned = owned and d = d and f = f and branch = branch, rotated])
      (auto simp: startable_def)
  have k: "schedule_key (ps_description q) = Some (ds_key d)"
    using s(3) key by (simp add: settled_def drifted_def)
  have sub: "marked_ids (obs f) (ds_key d) \<subseteq> {n}" "obs f n = None \<or> n \<in> marked_ids (obs f) (ds_key d)"
    using st s(6,7) by (cases "map_of owned (ds_key d)"; auto simp: startable_def)+
  have m: "marked_ids (obs f1) (ds_key d) = {n}" using s(2) k s(5) sub by (rule step_marks)
  have u: "unchanged_at (obs f) (obs f1) k'" if "k' \<noteq> ds_key d" for k' using s(2) k s(5) sub that by (rule step_marks)
  have "placed owned branch me (obs f1) d" unfolding placed_def using m s(2,3,4,7) by blast
  moreover have "obs f i \<noteq> None \<or> i \<in> marked_ids (obs f1) (ds_key d)" if "obs f1 i \<noteq> None" for i
    using that s(5) [of i] m by (cases "i = n") simp_all
  ultimately show ?thesis using u by (intro that [OF s(1)])
qed

lemma place_all:
  assumes "list_all (startable owned (obs f)) ds" "desired_ok ds"
  shows "\<exists>f1. run_ops S branch (concat (map (desired_ops owned branch me) ds)) f = (None, f1) \<and>
    list_all (placed owned branch me (obs f1)) ds \<and> (\<forall>k. k \<notin> ds_key ` set ds \<longrightarrow> unchanged_at (obs f) (obs f1) k) \<and>
    (\<forall>i. obs f1 i \<noteq> None \<longrightarrow> obs f i \<noteq> None \<or> (\<exists>d \<in> set ds. i \<in> marked_ids (obs f1) (ds_key d)))"
  using assms
proof (induction ds arbitrary: f)
  case Nil
  then show ?case by (simp add: unchanged_at_def)
next
  case (Cons d ds)
  have d: "startable owned (obs f) d" "schedule_key (ds_description d) = Some (ds_key d)" "ds_key d \<notin> ds_key ` set ds"
    "desired_ok ds"
    using Cons.prems by (simp_all add: desired_ok_def)
  obtain f1 where f1: "run_ops S branch (desired_ops owned branch me d) f = (None, f1)" "placed owned branch me (obs f1) d"
    "\<And>k. k \<noteq> ds_key d \<Longrightarrow> unchanged_at (obs f) (obs f1) k"
    "\<And>i. obs f1 i \<noteq> None \<Longrightarrow> obs f i \<noteq> None \<or> i \<in> marked_ids (obs f1) (ds_key d)"
    by (rule place_one [where branch = branch, OF d(1,2)]) blast
  have "startable owned (obs f1) d'" if "d' \<in> set ds" for d'
  proof -
    have "ds_key d' \<noteq> ds_key d" using d(3) that by (force simp: image_iff)
    then show ?thesis using Cons.prems(1) that f1(3) startable_unchanged by (auto simp: list_all_iff)
  qed
  then obtain f2 where f2: "run_ops S branch (concat (map (desired_ops owned branch me) ds)) f1 = (None, f2)"
    "list_all (placed owned branch me (obs f2)) ds" "\<And>k. k \<notin> ds_key ` set ds \<Longrightarrow> unchanged_at (obs f1) (obs f2) k"
    "\<And>i. obs f2 i \<noteq> None \<Longrightarrow> obs f1 i \<noteq> None \<or> (\<exists>d \<in> set ds. i \<in> marked_ids (obs f2) (ds_key d))"
    using Cons.IH [of f1] d(4) by (auto simp: list_all_iff)
  have "placed owned branch me (obs f2) d" using f1(2) f2(3) [OF d(3)] by (rule placed_unchanged)
  moreover have "unchanged_at (obs f) (obs f2) k" if "k \<notin> ds_key ` set (d # ds)" for k
    using that f1(3) [of k] f2(3) [of k] unchanged_at_trans by auto
  moreover have "obs f i \<noteq> None \<or> (\<exists>d' \<in> set (d # ds). i \<in> marked_ids (obs f2) (ds_key d'))" if "obs f2 i \<noteq> None" for i
    using f2(4) [OF that] f1(4) [of i] f2(3) [OF d(3)] by (auto simp: unchanged_at_def)
  ultimately show ?case using f1(1) f2(1,2) by (simp add: run_ops_append)
qed

end

text \<open>The goal: every desired schedule stands once, as declared and routed to its ids, and nothing else is marked.\<close>

definition stands :: "string \<Rightarrow> int \<Rightarrow> (int \<Rightarrow> pipeline_schedule option) \<Rightarrow> desired_schedule \<Rightarrow> bool" where
  "stands branch me M d \<longleftrightarrow>
     (\<exists>n q. marked_ids M (ds_key d) = {n} \<and> M n = Some q \<and> settled branch me d q \<and> routed d q)"

definition converged :: "string \<Rightarrow> int \<Rightarrow> desired_schedule list \<Rightarrow> (int \<Rightarrow> pipeline_schedule option) \<Rightarrow> bool" where
  "converged branch me ds M \<longleftrightarrow>
     list_all (stands branch me M) ds \<and> (\<forall>k. k \<notin> ds_key ` set ds \<longrightarrow> marked_ids M k = {})"

lemma stands_unchanged: "stands branch me M d \<Longrightarrow> unchanged_at M M' (ds_key d) \<Longrightarrow> stands branch me M' d"
  unfolding stands_def unchanged_at_def by auto

lemma var_checked_plan:
  assumes "distinct (map ds_key ds)" "d \<in> set ds" "owned_schedules xs = (owned, dups)"
  shows "ds_key d \<in> var_checked (plan_schedules pick ds xs branch me) \<longleftrightarrow> needs_write owned branch d"
proof -
  have a: "var_checked (as @ bs) = var_checked as \<union> var_checked bs" for as bs by (auto simp: var_checked_def)
  have n: "var_checked [] = {}" by (simp add: var_checked_def)
  have s: "var_checked [\<lparr>op_kind = k, op_desired = d', op_existing = e\<rparr>] = (if k = OpCreate \<or> k = OpUpdate then {ds_key d'} else {})"
    for k d' e by (simp add: var_checked_def)
  have w: "ds_key d \<in> var_checked (desired_ops owned branch me d') \<longleftrightarrow> ds_key d' = ds_key d \<and> needs_write owned branch d'" for d'
    by (auto simp: desired_ops_def needs_write_def a n s split: option.split)
  have c: "var_checked (concat ops) = (\<Union>o' \<in> set ops. var_checked o')" for ops by (auto simp: var_checked_def)
  have x: "var_checked (map delete_op es) = {}" for es by (auto simp: var_checked_def delete_op_def)
  have y: "var_checked (map (\<lambda>(_, e). delete_op e) es) = {}" for es :: "(string \<times> pipeline_schedule) list"
    by (auto simp: var_checked_def delete_op_def)
  have "ds_key d \<in> var_checked (plan_schedules pick ds xs branch me) \<longleftrightarrow>
      (\<exists>d' \<in> set ds. ds_key d' = ds_key d \<and> needs_write owned branch d')"
    by (simp add: plan_schedules_def assms(3) a c x y w)
  also have "\<dots> \<longleftrightarrow> needs_write owned branch d"
    using assms(1,2) by (metis distinct_map inj_on_eq_iff)
  finally show ?thesis .
qed

context live_forge
begin

lemma check_one:
  assumes "placed owned branch me (obs f) d" "\<not> needs_write owned branch d"
    and key: "schedule_key (ds_description d) = Some (ds_key d)"
  obtains e f1 where "map_of owned (ds_key d) = Some e" "ensure_var S f (ps_id e) (ds_key d) False = (None, f1)"
    "stands branch me (obs f1) d" "\<And>k. k \<noteq> ds_key d \<Longrightarrow> unchanged_at (obs f) (obs f1) k"
    "dom (obs f1) = dom (obs f)"
proof -
  obtain e where e: "map_of owned (ds_key d) = Some e" using assms(2) by (cases "map_of owned (ds_key d)") (auto simp: needs_write_def)
  then obtain q where q: "marked_ids (obs f) (ds_key d) = {ps_id e}" "obs f (ps_id e) = Some q" "settled branch me d q"
    using assms(1) by (auto simp: placed_def)
  obtain f1 vs where v: "ensure_var S f (ps_id e) (ds_key d) False = (None, f1)" "obs f1 (ps_id e) = Some (q\<lparr>ps_vars := vs\<rparr>)"
    "map_of vs schedule_var = Some (ds_key d)" "\<And>j. j \<noteq> ps_id e \<Longrightarrow> obs f1 j = obs f j"
    by (rule ensure_var_ok [where fresh = False and key = "ds_key d", OF q(2)]) auto
  have st: "settled branch me d (q\<lparr>ps_vars := vs\<rparr>)" using q(3) by (simp add: settled_def drifted_def)
  have k: "schedule_key (ps_description (q\<lparr>ps_vars := vs\<rparr>)) = Some (ds_key d)" using st key by (simp add: settled_def drifted_def)
  have sub: "marked_ids (obs f) (ds_key d) \<subseteq> {ps_id e}" "obs f (ps_id e) = None \<or> ps_id e \<in> marked_ids (obs f) (ds_key d)"
    using q(1) by simp_all
  have m: "marked_ids (obs f1) (ds_key d) = {ps_id e}" using v(2) k v(4) sub by (rule step_marks)
  have u: "unchanged_at (obs f) (obs f1) k'" if "k' \<noteq> ds_key d" for k' using v(2) k v(4) sub that by (rule step_marks)
  have "routed d (q\<lparr>ps_vars := vs\<rparr>)" using v(3) by (simp add: routed_def)
  then have "stands branch me (obs f1) d" unfolding stands_def using m v(2) st by blast
  moreover have "dom (obs f1) = dom (obs f)"
  proof (rule set_eqI)
    fix i show "i \<in> dom (obs f1) \<longleftrightarrow> i \<in> dom (obs f)"
      using v(2) q(2) v(4) [of i] by (cases "i = ps_id e") (simp_all add: domIff)
  qed
  ultimately show ?thesis using u by (intro that [OF e v(1)])
qed

lemma check_all:
  assumes "list_all (placed owned branch me (obs f)) ds" "desired_ok ds"
    and "\<And>d. d \<in> set ds \<Longrightarrow> ds_key d \<in> checked \<longleftrightarrow> needs_write owned branch d"
  shows "\<exists>f1. check_vars S owned checked ds f = (None, f1) \<and> list_all (stands branch me (obs f1)) ds \<and>
    (\<forall>k. k \<notin> ds_key ` set ds \<longrightarrow> unchanged_at (obs f) (obs f1) k) \<and> dom (obs f1) = dom (obs f)"
  using assms
proof (induction ds arbitrary: f)
  case Nil
  then show ?case by (simp add: unchanged_at_def)
next
  case (Cons d ds)
  have d: "placed owned branch me (obs f) d" "schedule_key (ds_description d) = Some (ds_key d)" "ds_key d \<notin> ds_key ` set ds"
    "desired_ok ds"
    using Cons.prems by (simp_all add: desired_ok_def)
  obtain f1 where f1: "check_vars S owned checked (d # ds) f = check_vars S owned checked ds f1" "stands branch me (obs f1) d"
    "\<And>k. k \<noteq> ds_key d \<Longrightarrow> unchanged_at (obs f) (obs f1) k" "dom (obs f1) = dom (obs f)"
  proof (cases "needs_write owned branch d")
    case True
    then have "stands branch me (obs f) d" using d(1) by (auto simp: placed_def stands_def)
    moreover have "check_vars S owned checked (d # ds) f = check_vars S owned checked ds f"
      using Cons.prems(3) [of d] True by simp
    ultimately show ?thesis by (intro that [of f]) (simp_all add: unchanged_at_def)
  next
    case False
    obtain e f1 where e: "map_of owned (ds_key d) = Some e" "ensure_var S f (ps_id e) (ds_key d) False = (None, f1)"
      "stands branch me (obs f1) d" "\<And>k. k \<noteq> ds_key d \<Longrightarrow> unchanged_at (obs f) (obs f1) k" "dom (obs f1) = dom (obs f)"
      by (rule check_one [OF d(1) False d(2)]) blast
    moreover have "check_vars S owned checked (d # ds) f = check_vars S owned checked ds f1"
      using Cons.prems(3) [of d] False e(1,2) by simp
    ultimately show ?thesis by (intro that [of f1]) simp_all
  qed
  have "placed owned branch me (obs f1) d'" if "d' \<in> set ds" for d'
  proof -
    have "ds_key d' \<noteq> ds_key d" using d(3) that by (force simp: image_iff)
    then show ?thesis using Cons.prems(1) that f1(3) placed_unchanged by (auto simp: list_all_iff)
  qed
  then obtain f2 where f2: "check_vars S owned checked ds f1 = (None, f2)" "list_all (stands branch me (obs f2)) ds"
    "\<And>k. k \<notin> ds_key ` set ds \<Longrightarrow> unchanged_at (obs f1) (obs f2) k" "dom (obs f2) = dom (obs f1)"
    using Cons.IH [of f1] d(4) Cons.prems(3) by (auto simp: list_all_iff)
  have "stands branch me (obs f2) d" using f1(2) f2(3) [OF d(3)] by (rule stands_unchanged)
  moreover have "unchanged_at (obs f) (obs f2) k" if "k \<notin> ds_key ` set (d # ds)" for k
    using that f1(3) [of k] f2(3) [of k] unchanged_at_trans by auto
  ultimately show ?case unfolding f1(1) using f2(1,2,4) f1(4) by (intro exI [of _ f2]) simp
qed

end

context live_forge
begin

lemma list_same: "sc_list S f = Inr xs \<Longrightarrow> e \<in> set xs \<Longrightarrow> \<exists>q. obs f (ps_id e) = Some q \<and> same_schedule e q"
  unfolding same_schedule_def by (rule list_sound)

lemma list_has:
  assumes "sc_list S f = Inr xs" "fits page (obs f)" "obs f i = Some q"
  obtains e where "e \<in> set xs" "ps_id e = i" "same_schedule e q"
proof -
  from list_complete [OF assms(1,2), of i] assms(3) obtain e where "e \<in> set xs" "ps_id e = i" by auto
  then show ?thesis using list_same [OF assms(1), of e] assms(3) by (intro that [of e]) auto
qed

text \<open>Deleting the duplicates leaves every key to its owned schedule.\<close>

lemma dups_deleted:
  assumes xs: "sc_list S f = Inr xs" and fit: "fits page (obs f)" and o: "owned_schedules xs = (owned, dups)"
  obtains f1 where "run_ops S branch (map delete_op dups) f = (None, f1)" "dom (obs f1) \<subseteq> dom (obs f)"
    "\<And>k. marked_ids (obs f1) k = ps_id ` set_option (map_of owned k)"
    "\<And>k e. map_of owned k = Some e \<Longrightarrow> \<exists>q. obs f1 (ps_id e) = Some q \<and> same_schedule e q"
proof -
  have dist: "distinct (map ps_id (map snd owned @ dups))" using o list_distinct [OF xs] by (rule owned_schedules_ids)
  have in_xs: "e \<in> set xs" if "e \<in> snd ` set owned \<union> set dups" for e using that owned_schedules_set [OF o] by blast
  have "obs f (ps_id e) \<noteq> None" if "e \<in> set dups" for e using list_same [OF xs in_xs] that by fastforce
  then obtain f1 where f1: "run_ops S branch (map delete_op dups) f = (None, f1)"
    "obs f1 = (\<lambda>j. if j \<in> ps_id ` set dups then None else obs f j)"
    using run_deletes [of dups f branch] dist by auto
  have kept: "\<exists>q. obs f1 (ps_id e) = Some q \<and> same_schedule e q" if "map_of owned k = Some e" for k e
  proof -
    have e: "e \<in> snd ` set owned" using map_of_SomeD [OF that] by force
    then have "ps_id e \<notin> ps_id ` set dups" using dist by auto
    then show ?thesis using list_same [OF xs in_xs] e f1(2) by auto
  qed
  have "i \<in> marked_ids (obs f1) k \<longleftrightarrow> i \<in> ps_id ` set_option (map_of owned k)" for i k
  proof
    assume "i \<in> marked_ids (obs f1) k"
    then obtain q where q: "obs f i = Some q" "schedule_key (ps_description q) = Some k" "i \<notin> ps_id ` set dups"
      by (auto simp: marked_ids_def f1(2) split: if_splits)
    obtain e where e: "e \<in> set xs" "ps_id e = i" "same_schedule e q" using xs fit q(1) by (rule list_has)
    have ek: "schedule_key (ps_description e) = Some k" using same_scheduleD [OF e(3)] q(2) by simp
    then have "e \<in> snd ` set owned \<union> set dups" using e(1) owned_schedules_set [OF o] by blast
    then obtain k' where "(k', e) \<in> set owned" using e(2) q(3) by auto
    moreover from this have "k' = k" using owned_schedules_facts(3) [OF o] ek by auto
    ultimately have "map_of owned k = Some e" using owned_schedules_facts(1) [OF o] by (simp add: map_of_eq_Some_iff)
    then show "i \<in> ps_id ` set_option (map_of owned k)" using e(2) by simp
  next
    assume "i \<in> ps_id ` set_option (map_of owned k)"
    then obtain e where e: "map_of owned k = Some e" "i = ps_id e" by auto
    obtain q where q: "obs f1 (ps_id e) = Some q" "same_schedule e q" using kept [OF e(1)] by auto
    have "schedule_key (ps_description q) = Some k"
      using same_scheduleD [OF q(2)] owned_schedules_facts(3) [OF o map_of_SomeD [OF e(1)]] by simp
    then show "i \<in> marked_ids (obs f1) k" using q(1) e(2) by (simp add: marked_ids_def)
  qed
  moreover have "dom (obs f1) \<subseteq> dom (obs f)" by (auto simp: f1(2) split: if_splits)
  ultimately show ?thesis using f1(1) kept by (intro that) (auto intro: set_eqI)
qed

lemma run_converges:
  assumes xs: "sc_list S f = Inr xs" and fit: "fits page (obs f)" and o: "owned_schedules xs = (owned, dups)"
    and ok: "desired_ok ds" and pick: "\<And>ys. mset (pick ys) = mset ys"
  obtains f1 f2 where "run_ops S branch (plan_schedules pick ds xs branch me) f = (None, f1)"
    "check_vars S owned (var_checked (plan_schedules pick ds xs branch me)) ds f1 = (None, f2)"
    "converged branch me ds (obs f2)" "fits (card (dom (obs f)) + length ds) (obs f2)"
proof -
  obtain g1 where g1: "run_ops S branch (map delete_op dups) f = (None, g1)"
    "\<And>k. marked_ids (obs g1) k = ps_id ` set_option (map_of owned k)"
    "\<And>k e. map_of owned k = Some e \<Longrightarrow> \<exists>q. obs g1 (ps_id e) = Some q \<and> same_schedule e q"
    and g1_dom: "dom (obs g1) \<subseteq> dom (obs f)"
    by (rule dups_deleted [where branch = branch, OF xs fit o]) blast
  have "list_all (startable owned (obs g1)) ds" using g1(2,3) by (simp add: startable_def list_all_iff)
  then obtain g2 where g2: "run_ops S branch (concat (map (desired_ops owned branch me) ds)) g1 = (None, g2)"
    "list_all (placed owned branch me (obs g2)) ds" "\<And>k. k \<notin> ds_key ` set ds \<Longrightarrow> unchanged_at (obs g1) (obs g2) k"
    and g2_dom: "\<And>i. obs g2 i \<noteq> None \<Longrightarrow> obs g1 i \<noteq> None \<or> (\<exists>d \<in> set ds. i \<in> marked_ids (obs g2) (ds_key d))"
    using place_all [of owned g1 ds branch] ok by auto
  define es where "es = map snd (filter (\<lambda>(k, _). k \<notin> ds_key ` set ds) (pick owned))"
  have pick_set: "set (pick owned) = set owned" using pick by (metis set_mset_mset)
  have "distinct (map ps_id (map snd owned))" using owned_schedules_ids [OF o list_distinct [OF xs]] by simp
  then have "distinct (map ps_id (map snd (pick owned)))" using pick [of owned] by (metis mset_eq_imp_distinct_iff mset_map)
  then have dist: "distinct (map ps_id es)" by (simp add: es_def distinct_map inj_on_def comp_def)
  have es: "\<exists>k. k \<notin> ds_key ` set ds \<and> ps_id e \<in> marked_ids (obs g2) k" if "e \<in> set es" for e
  proof -
    from that obtain k where k: "(k, e) \<in> set owned" "k \<notin> ds_key ` set ds" by (auto simp: es_def pick_set)
    then have "map_of owned k = Some e" using owned_schedules_facts(1) [OF o] by simp
    then show ?thesis using k(2) g1(2) [of k] g2(3) [OF k(2)] by (intro exI [of _ k]) (simp add: unchanged_at_def)
  qed
  have "obs g2 (ps_id e) \<noteq> None" if "e \<in> set es" for e using es [OF that] by (auto simp: marked_ids_def)
  then obtain g3 where g3: "run_ops S branch (map delete_op es) g2 = (None, g3)"
    "obs g3 = (\<lambda>j. if j \<in> ps_id ` set es then None else obs g2 j)"
    using run_deletes [OF dist, of g2 branch] by auto
  have keep: "unchanged_at (obs g2) (obs g3) k" if "k \<in> ds_key ` set ds" for k
  proof -
    have "i \<notin> ps_id ` set es" if i: "i \<in> marked_ids (obs g2) k" for i
    proof
      assume "i \<in> ps_id ` set es"
      then obtain k' where "k' \<notin> ds_key ` set ds" "i \<in> marked_ids (obs g2) k'" using es by auto
      then show False using i \<open>k \<in> ds_key ` set ds\<close> by (auto simp: marked_ids_def)
    qed
    then show ?thesis by (auto simp: unchanged_at_def g3(2) marked_ids_def)
  qed
  have gone: "marked_ids (obs g3) k = {}" if k: "k \<notin> ds_key ` set ds" for k
  proof -
    have "i \<in> ps_id ` set es" if "i \<in> marked_ids (obs g2) k" for i
    proof -
      have "i \<in> ps_id ` set_option (map_of owned k)" using that g1(2) [of k] g2(3) [OF k] by (simp add: unchanged_at_def)
      then obtain e where "(k, e) \<in> set owned" "i = ps_id e" by (auto dest: map_of_SomeD)
      then show ?thesis using k by (force simp: es_def pick_set)
    qed
    then show ?thesis by (auto simp: g3(2) marked_ids_def)
  qed
  have pl: "list_all (placed owned branch me (obs g3)) ds"
    using g2(2) keep placed_unchanged by (auto simp: list_all_iff)
  have vc: "ds_key d \<in> var_checked (plan_schedules pick ds xs branch me) \<longleftrightarrow> needs_write owned branch d" if "d \<in> set ds" for d
    using ok that o by (intro var_checked_plan) (simp_all add: desired_ok_def)
  obtain g4 where g4: "check_vars S owned (var_checked (plan_schedules pick ds xs branch me)) ds g3 = (None, g4)"
    "list_all (stands branch me (obs g4)) ds" "\<And>k. k \<notin> ds_key ` set ds \<Longrightarrow> unchanged_at (obs g3) (obs g4) k"
    "dom (obs g4) = dom (obs g3)"
    using check_all [OF pl ok vc] by auto
  have "plan_schedules pick ds xs branch me =
      map delete_op dups @ concat (map (desired_ops owned branch me) ds) @ map delete_op es"
    by (simp add: plan_schedules_def o es_def comp_def split_def)
  then have "run_ops S branch (plan_schedules pick ds xs branch me) f = (None, g3)"
    using g1(1) g2(1) g3(1) by (simp add: run_ops_append)
  moreover have "converged branch me ds (obs g4)"
    unfolding converged_def using g4(2,3) gone by (auto simp: unchanged_at_def)
  moreover have "fits (card (dom (obs f)) + length ds) (obs g4)"
  proof -
    let ?new = "\<Union>d \<in> set ds. marked_ids (obs g2) (ds_key d)"
    have one: "finite (marked_ids (obs g2) (ds_key d)) \<and> card (marked_ids (obs g2) (ds_key d)) \<le> 1" if "d \<in> set ds" for d
      using g2(2) that by (auto simp: list_all_iff placed_def)
    have "card ?new \<le> (\<Sum>d \<in> set ds. card (marked_ids (obs g2) (ds_key d)))" by (rule card_UN_le) simp
    also have "\<dots> \<le> (\<Sum>d \<in> set ds. 1)" using one by (intro sum_mono) blast
    also have "\<dots> \<le> length ds" by (simp add: card_length)
    finally have new: "card ?new \<le> length ds" .
    have "dom (obs g2) \<subseteq> dom (obs g1) \<union> ?new"
    proof
      fix i assume "i \<in> dom (obs g2)"
      then have "obs g2 i \<noteq> None" by (simp add: domIff)
      from g2_dom [OF this] show "i \<in> dom (obs g1) \<union> ?new" by (simp add: domIff)
    qed
    also have "\<dots> \<subseteq> dom (obs f) \<union> ?new" by (rule Un_mono [OF g1_dom order_refl])
    finally have mid: "dom (obs g2) \<subseteq> dom (obs f) \<union> ?new" .
    have "dom (obs g4) \<subseteq> dom (obs g2)" unfolding g4(4) g3(2) by (rule subsetI) (simp add: domIff split: if_splits)
    then have sub: "dom (obs g4) \<subseteq> dom (obs f) \<union> ?new" using mid by (rule order_trans)
    have fin: "finite (dom (obs f) \<union> ?new)" using fit one by (auto simp: fits_def)
    have "card (dom (obs g4)) \<le> card (dom (obs f)) + card ?new"
      using card_mono [OF fin sub] card_Un_le [of "dom (obs f)" ?new] by linarith
    then show ?thesis using new finite_subset [OF sub fin] by (simp add: fits_def)
  qed
  ultimately show ?thesis using g4(1) by (intro that)
qed

end

context live_forge
begin

lemma listed_once:
  assumes c: "converged branch me ds (obs f)" and xs: "sc_list S f = Inr xs"
    and e: "e \<in> set xs" "schedule_key (ps_description e) = Some k"
  obtains d q where "d \<in> set ds" "ds_key d = k" "marked_ids (obs f) k = {ps_id e}" "obs f (ps_id e) = Some q"
    "same_schedule e q" "settled branch me d q" "routed d q"
proof -
  obtain q where q: "obs f (ps_id e) = Some q" "same_schedule e q" using list_same [OF xs e(1)] by auto
  then have i: "ps_id e \<in> marked_ids (obs f) k" using same_scheduleD [OF q(2)] e(2) by (simp add: marked_ids_def)
  then have "k \<in> ds_key ` set ds" using c by (metis converged_def empty_iff)
  then obtain d where d: "d \<in> set ds" "ds_key d = k" by auto
  then have "stands branch me (obs f) d" using c by (simp add: converged_def list_all_iff)
  then obtain n q' where "marked_ids (obs f) k = {n}" "obs f n = Some q'" "settled branch me d q'" "routed d q'"
    using d(2) by (auto simp: stands_def)
  then show ?thesis using d q i by (intro that [of d q]) auto
qed

lemma listed_only:
  assumes "converged branch me ds (obs f)" "sc_list S f = Inr xs" "e \<in> set xs" "schedule_key (ps_description e) = Some k"
  shows "marked_ids (obs f) k = {ps_id e} \<and> k \<in> ds_key ` set ds"
  by (rule listed_once [OF assms]) auto

lemma converged_owned:
  assumes c: "converged branch me ds (obs f)" and fit: "fits page (obs f)" and xs: "sc_list S f = Inr xs" and o: "owned_schedules xs = (owned, dups)"
    and ok: "desired_ok ds"
  shows "dups = []"
    and "(k, e) \<in> set owned \<Longrightarrow> k \<in> ds_key ` set ds"
    and "d \<in> set ds \<Longrightarrow> \<exists>e q. map_of owned (ds_key d) = Some e \<and> same_schedule e q \<and> settled branch me d q \<and>
      routed d q \<and> obs f (ps_id e) = Some q"
proof -
  have in_xs: "e \<in> set xs" if "e \<in> snd ` set owned \<union> set dups" for e using that owned_schedules_set [OF o] by blast
  have dist: "distinct (map ps_id (map snd owned @ dups))" using o list_distinct [OF xs] by (rule owned_schedules_ids)
  show d: "dups = []"
  proof (rule ccontr)
    assume "dups \<noteq> []"
    then obtain e where e: "e \<in> set dups" by (cases dups) auto
    then obtain k e' where k: "schedule_key (ps_description e) = Some k" "(k, e') \<in> set owned"
      using owned_schedules_facts(4) [OF o] by blast
    have k': "schedule_key (ps_description e') = Some k" using owned_schedules_facts(3) [OF o k(2)] .
    have e': "e' \<in> snd ` set owned" using k(2) by force
    then have "e \<in> set xs" "e' \<in> set xs" using in_xs e by blast+
    then have "marked_ids (obs f) k = {ps_id e}" "marked_ids (obs f) k = {ps_id e'}"
      using listed_only [OF c xs] k(1) k' by blast+
    then have "ps_id e = ps_id e'" by simp
    moreover have "ps_id e' \<in> ps_id ` snd ` set owned" using e' by (rule imageI)
    moreover have "ps_id e \<in> ps_id ` set dups" using e by (rule imageI)
    moreover have "ps_id ` snd ` set owned \<inter> ps_id ` set dups = {}" using dist by (simp add: image_image)
    ultimately show False by auto
  qed
  show "k \<in> ds_key ` set ds" if "(k, e) \<in> set owned"
  proof -
    have "e \<in> snd ` set owned" using that by force
    then have "e \<in> set xs" using in_xs by blast
    then show ?thesis using listed_only [OF c xs _ owned_schedules_facts(3) [OF o that]] by blast
  qed
  assume "d \<in> set ds"
  then obtain n q where q: "marked_ids (obs f) (ds_key d) = {n}" "obs f n = Some q" "settled branch me d q" "routed d q"
    using c by (auto simp: converged_def list_all_iff stands_def)
  obtain e where e: "e \<in> set xs" "ps_id e = n" "same_schedule e q" using xs fit q(2) by (rule list_has)
  have ek: "schedule_key (ps_description e) = Some (ds_key d)"
    using same_scheduleD [OF e(3)] q(3) ok \<open>d \<in> set ds\<close> by (simp add: settled_def drifted_def desired_ok_def list_all_iff)
  then have "e \<in> snd ` set owned" using e(1) owned_schedules_set [OF o] d by auto
  then obtain k' where k': "(k', e) \<in> set owned" by auto
  moreover have "k' = ds_key d" using owned_schedules_facts(3) [OF o k'] ek by simp
  ultimately have "map_of owned (ds_key d) = Some e" using owned_schedules_facts(1) [OF o] by simp
  then show "\<exists>e q. map_of owned (ds_key d) = Some e \<and> same_schedule e q \<and> settled branch me d q \<and>
      routed d q \<and> obs f (ps_id e) = Some q"
    using q e by blast
qed

lemma converged_silent:
  assumes c: "converged branch me ds (obs f)" and fit: "fits page (obs f)" and xs: "sc_list S f = Inr xs" and o: "owned_schedules xs = (owned, dups)"
    and ok: "desired_ok ds" and pick: "\<And>ys. mset (pick ys) = mset ys"
  shows "plan_schedules pick ds xs branch me = []" "inactive_keys xs = []" "check_vars S owned {} ds f = (None, f)"
proof -
  note co = converged_owned [OF c fit xs o ok]
  have pick_set: "set (pick owned) = set owned" using pick by (metis set_mset_mset)
  have "desired_ops owned branch me d = []" if d: "d \<in> set ds" for d
  proof -
    obtain e q where e: "map_of owned (ds_key d) = Some e" "same_schedule e q" "settled branch me d q" using co(3) [OF d] by blast
    have "settled branch me d e" using e(3) same_scheduleD [OF e(2)] by (simp add: settled_def drifted_def)
    then show ?thesis using e(1) by (auto simp: desired_ops_def settled_def)
  qed
  moreover have "filter (\<lambda>(k, _). k \<notin> ds_key ` set ds) (pick owned) = []"
    using co(2) by (auto simp: filter_empty_conv pick_set)
  ultimately show "plan_schedules pick ds xs branch me = []"
    using co(1) by (simp add: plan_schedules_def o concat_eq_Nil_conv)
  have "ps_active e" if e: "e \<in> set xs" "schedule_key (ps_description e) = Some k" for e k
  proof (rule listed_once [OF c xs e])
    fix d q assume "same_schedule e q" "settled branch me d q"
    then show ?thesis using same_scheduleD [of e q] by (simp add: settled_def drifted_def)
  qed
  then show "inactive_keys xs = []"
    by (auto simp: inactive_keys_def concat_eq_Nil_conv split: option.split)
  have ensure: "ensure_var S f (ps_id e) (ds_key d) False = (None, f)"
    if d: "d \<in> set ds" and e: "map_of owned (ds_key d) = Some e" for d e
  proof -
    obtain q where q: "routed d q" "obs f (ps_id e) = Some q" using co(3) [OF d] e by auto
    then show ?thesis using get_ok [OF q(2)] by (simp add: ensure_var_def routed_def)
  qed
  have "check_vars S owned {} ds' f = (None, f)" if "set ds' \<subseteq> set ds" for ds'
    using that
  proof (induction ds')
    case (Cons d ds')
    then show ?case using ensure [of d] by (simp split: option.split)
  qed simp
  then show "check_vars S owned {} ds f = (None, f)" by simp
qed

lemma reconcile_live:
  assumes ok: "desired_ok (desired_schedules seed ss)" and pick: "\<And>ys. mset (pick ys) = mset ys"
  defines "ds \<equiv> desired_schedules seed ss"
  shows "fits page (obs f) \<Longrightarrow> converged branch me ds (obs (snd (reconcile_schedules pick seed ss branch (Some S) f))) \<and>
    fits (card (dom (obs f)) + length ds) (obs (snd (reconcile_schedules pick seed ss branch (Some S) f))) \<and>
    (\<exists>changes inactive. fst (reconcile_schedules pick seed ss branch (Some S) f) = converged_record (length ds) changes inactive)"
    and "converged branch me ds (obs f) \<Longrightarrow> fits page (obs f) \<Longrightarrow>
      reconcile_schedules pick seed ss branch (Some S) f = (converged_record (length ds) [] [], f)"
proof -
  obtain xs where xs: "sc_list S f = Inr xs" using list_ok by blast
  obtain owned dups where o: "owned_schedules xs = (owned, dups)" by fastforce
  show "converged branch me ds (obs (snd (reconcile_schedules pick seed ss branch (Some S) f))) \<and>
    fits (card (dom (obs f)) + length ds) (obs (snd (reconcile_schedules pick seed ss branch (Some S) f))) \<and>
    (\<exists>changes inactive. fst (reconcile_schedules pick seed ss branch (Some S) f) = converged_record (length ds) changes inactive)"
    if fit: "fits page (obs f)"
  proof -
    obtain f1 f2 where r: "run_ops S branch (plan_schedules pick ds xs branch me) f = (None, f1)"
      "check_vars S owned (var_checked (plan_schedules pick ds xs branch me)) ds f1 = (None, f2)"
      "converged branch me ds (obs f2)" "fits (card (dom (obs f)) + length ds) (obs f2)"
      using run_converges [where pick = pick and branch = branch, OF xs fit o ok [folded ds_def] pick] by blast
    have "reconcile_schedules pick seed ss branch (Some S) f =
        (converged_record (length ds) (map op_label (plan_schedules pick ds xs branch me)) (inactive_keys xs), f2)"
      using r by (simp add: reconcile_schedules_def Let_def xs user_ok o ds_def)
    then show ?thesis using r(3,4) by auto
  qed
  assume c: "converged branch me ds (obs f)" and fit: "fits page (obs f)"
  note s = converged_silent [where pick = pick, OF c fit xs o ok [folded ds_def] pick]
  show "reconcile_schedules pick seed ss branch (Some S) f = (converged_record (length ds) [] [], f)"
    using s by (simp add: reconcile_schedules_def Let_def xs user_ok o ds_def [symmetric] var_checked_def)
qed

end

end
