(* ===== verification/Gitlab_Schedules.thy ===== *)
theory Gitlab_Schedules
  imports Schedule_Converge
begin

text \<open>
  The GitLab client of pipeline schedules (\<^verbatim>\<open>src/src/forge/schedules.go\<close>). Its REST service is a
  parameter with a state of any type: \<open>gitlab_frame\<close> and \<open>gitlab_rest\<close> state the documented behaviour
  of the endpoints, under which the client is a scheduler as the reconcile needs it; a service in memory
  meets them.
\<close>

section \<open>The GitLab client\<close>

record gitlab_schedule =
  gl_id :: int
  gl_description :: string
  gl_ref :: string
  gl_cron :: string
  gl_cron_timezone :: string
  gl_active :: bool
  gl_owner :: "int option"
  gl_variables :: "(string \<times> string) list option"

definition to_schedule :: "gitlab_schedule \<Rightarrow> pipeline_schedule" where
  "to_schedule s =
     \<lparr>ps_id = gl_id s, ps_description = gl_description s, ps_ref = trim_prefix (gl_ref s) ''refs/heads/'',
      ps_cron = gl_cron s, ps_timezone = gl_cron_timezone s, ps_active = gl_active s,
      ps_owner = (case gl_owner s of None \<Rightarrow> 0 | Some i \<Rightarrow> i),
      ps_vars = (case gl_variables s of None \<Rightarrow> [] | Some vs \<Rightarrow> foldl (\<lambda>m (k, v). AList.update k v m) [] vs)\<rparr>"

definition gitlab_ref :: "string \<Rightarrow> string" where
  "gitlab_ref branch = ''refs/heads/'' @ branch"

text \<open>The body of a create or update request.\<close>

record schedule_body =
  sb_description :: string
  sb_ref :: string
  sb_cron :: string
  sb_cron_timezone :: string
  sb_active :: bool

definition schedule_body_of :: "pipeline_schedule \<Rightarrow> schedule_body" where
  "schedule_body_of s =
     \<lparr>sb_description = ps_description s, sb_ref = gitlab_ref (ps_ref s), sb_cron = ps_cron s,
      sb_cron_timezone = ps_timezone s, sb_active = ps_active s\<rparr>"

text \<open>The REST endpoints the client calls, by method and path; each may answer with an error. The number in
  the listing is its \<^verbatim>\<open>per_page\<close>: the client asks for one page of 100 and never for the next.\<close>

definition page_size :: nat where
  "page_size = 100"

record 'f gitlab_api =
  get_user :: "'f \<Rightarrow> string + int"
  get_schedules :: "'f \<Rightarrow> nat \<Rightarrow> string + gitlab_schedule list"
  get_schedule :: "'f \<Rightarrow> int \<Rightarrow> string + gitlab_schedule"
  post_schedule :: "'f \<Rightarrow> schedule_body \<Rightarrow> (string + gitlab_schedule) \<times> 'f"
  put_schedule :: "'f \<Rightarrow> int \<Rightarrow> schedule_body \<Rightarrow> string option \<times> 'f"
  delete_schedule :: "'f \<Rightarrow> int \<Rightarrow> string option \<times> 'f"
  post_ownership :: "'f \<Rightarrow> int \<Rightarrow> string option \<times> 'f"
  post_variable :: "'f \<Rightarrow> int \<Rightarrow> string \<Rightarrow> string \<Rightarrow> string option \<times> 'f"
  put_variable :: "'f \<Rightarrow> int \<Rightarrow> string \<Rightarrow> string \<Rightarrow> string option \<times> 'f"

definition wrap_err :: "string \<Rightarrow> string option \<times> 'f \<Rightarrow> string option \<times> 'f" where
  "wrap_err msg r = (map_option (\<lambda>e. ''gitlab: '' @ msg @ '': '' @ e) (fst r), snd r)"

definition wrap_res :: "string \<Rightarrow> string + 'a \<Rightarrow> string + 'a" where
  "wrap_res msg r = (case r of Inl e \<Rightarrow> Inl (''gitlab: '' @ msg @ '': '' @ e) | Inr a \<Rightarrow> Inr a)"

definition gitlab_scheduler :: "'f gitlab_api \<Rightarrow> 'f scheduler" where
  "gitlab_scheduler G =
     \<lparr>sc_user = \<lambda>f. wrap_res ''current user'' (get_user G f),
      sc_list = \<lambda>f. map_sum id (map to_schedule) (wrap_res ''list pipeline schedules'' (get_schedules G f page_size)),
      sc_get = \<lambda>f i. map_sum id to_schedule (wrap_res (''get pipeline schedule '' @ itoa i) (get_schedule G f i)),
      sc_create = \<lambda>f s. (case post_schedule G f (schedule_body_of s) of
          (r, f1) \<Rightarrow> (map_sum id gl_id (wrap_res ''create pipeline schedule'' r), f1)),
      sc_update = \<lambda>f s. wrap_err (''update pipeline schedule '' @ itoa (ps_id s))
          (put_schedule G f (ps_id s) (schedule_body_of s)),
      sc_delete = \<lambda>f i. wrap_err (''delete pipeline schedule '' @ itoa i) (delete_schedule G f i),
      sc_own = \<lambda>f i. wrap_err (''take ownership of pipeline schedule '' @ itoa i) (post_ownership G f i),
      sc_set_var = \<lambda>f i key value exists.
          wrap_err (''set variable '' @ key @ '' on pipeline schedule '' @ itoa i)
            (if exists then put_variable G f i key value else post_variable G f i key value)\<rparr>"

section \<open>The GitLab client meets the interface\<close>

definition client_view :: "('f \<Rightarrow> int \<Rightarrow> gitlab_schedule option) \<Rightarrow> 'f \<Rightarrow> int \<Rightarrow> pipeline_schedule option" where
  "client_view gobs f i = map_option to_schedule (gobs f i)"

lemma client_view_dom: "dom (client_view gobs f) = dom (gobs f)"
  by (auto simp: client_view_def)

text \<open>The variables of a schedule as GitLab lists them; the client keeps the last value of a key.\<close>

definition gl_vars :: "gitlab_schedule \<Rightarrow> (string \<times> string) list" where
  "gl_vars s = (case gl_variables s of None \<Rightarrow> [] | Some vs \<Rightarrow> vs)"

lemma map_of_fold_update: "map_of (foldl (\<lambda>m (k, v). AList.update k v m) [] vs) k = map_of (rev vs) k"
proof (induction vs rule: rev_induct)
  case (snoc p vs)
  then show ?case by (cases p) (simp add: update_conv' fun_upd_def)
qed simp

lemma to_schedule_vars: "map_of (ps_vars (to_schedule s)) k = map_of (rev (gl_vars s)) k"
  by (simp add: to_schedule_def gl_vars_def map_of_fold_update [simplified split_def] split_def split: option.split)

lemma trim_gitlab_ref: "trim_prefix (gitlab_ref branch) ''refs/heads/'' = branch"
  by (simp add: gitlab_ref_def trim_prefix_def has_prefix_def)

text \<open>What a schedule becomes when a body is stored over it.\<close>

definition stored :: "schedule_body \<Rightarrow> gitlab_schedule \<Rightarrow> gitlab_schedule" where
  "stored b s = s\<lparr>gl_description := sb_description b, gl_ref := sb_ref b, gl_cron := sb_cron b,
     gl_cron_timezone := sb_cron_timezone b, gl_active := sb_active b\<rparr>"

lemma to_schedule_stored:
  "to_schedule (stored (schedule_body_of p) s) =
     p\<lparr>ps_id := gl_id s, ps_owner := ps_owner (to_schedule s), ps_vars := ps_vars (to_schedule s)\<rparr>"
  by (cases p) (simp add: to_schedule_def stored_def schedule_body_of_def trim_gitlab_ref)

locale gitlab_frame =
  fixes G :: "'f gitlab_api" and gobs :: "'f \<Rightarrow> int \<Rightarrow> gitlab_schedule option"
  assumes put_frame: "j \<noteq> i \<Longrightarrow> gobs (snd (put_schedule G f i b)) j = gobs f j"
    and delete_frame: "j \<noteq> i \<Longrightarrow> gobs (snd (delete_schedule G f i)) j = gobs f j"
    and ownership_frame: "j \<noteq> i \<Longrightarrow> gobs (snd (post_ownership G f i)) j = gobs f j"
    and post_var_frame: "j \<noteq> i \<Longrightarrow> gobs (snd (post_variable G f i k v)) j = gobs f j"
    and put_var_frame: "j \<noteq> i \<Longrightarrow> gobs (snd (put_variable G f i k v)) j = gobs f j"
    and post_frame: "gobs f j \<noteq> None \<Longrightarrow> gobs (snd (post_schedule G f b)) j = gobs f j"
    and post_fresh: "post_schedule G f b = (Inr s, f1) \<Longrightarrow> gobs f (gl_id s) = None"
    and post_other: "post_schedule G f b = (Inr s, f1) \<Longrightarrow> j \<noteq> gl_id s \<Longrightarrow> gobs f1 j = gobs f j"
    and schedules_sound: "get_schedules G f n = Inr raw \<Longrightarrow> r \<in> set raw \<Longrightarrow>
      \<exists>s. gobs f (gl_id r) = Some s \<and> r = s\<lparr>gl_variables := None\<rparr>"
    and schedules_distinct: "get_schedules G f n = Inr raw \<Longrightarrow> distinct (map gl_id raw)"

lemma client_list:
  "sc_list (gitlab_scheduler G) f = Inr xs \<longleftrightarrow> (\<exists>raw. get_schedules G f page_size = Inr raw \<and> xs = map to_schedule raw)"
  by (auto simp: gitlab_scheduler_def wrap_res_def split: sum.split)

lemma client_create:
  "sc_create (gitlab_scheduler G) f p = (Inr n, f1) \<longleftrightarrow>
     (\<exists>s. post_schedule G f (schedule_body_of p) = (Inr s, f1) \<and> n = gl_id s)"
  by (auto simp: gitlab_scheduler_def wrap_res_def split: sum.split prod.split)

lemma to_schedule_id [simp]: "ps_id (to_schedule s) = gl_id s"
  by (simp add: to_schedule_def)

sublocale gitlab_frame \<subseteq> client: forge_frame "gitlab_scheduler G" "client_view gobs"
proof (unfold_locales, goal_cases)
  case (1 j p f)
  then show ?case by (simp add: gitlab_scheduler_def wrap_err_def client_view_def put_frame)
next
  case (2 j i f)
  then show ?case by (simp add: gitlab_scheduler_def wrap_err_def client_view_def delete_frame)
next
  case (3 j i f)
  then show ?case by (simp add: gitlab_scheduler_def wrap_err_def client_view_def ownership_frame)
next
  case (4 j i f k v x)
  then show ?case by (simp add: gitlab_scheduler_def wrap_err_def client_view_def post_var_frame put_var_frame)
next
  case (5 f j p)
  then show ?case
    using post_frame [of f j "schedule_body_of p"]
    by (cases "post_schedule G f (schedule_body_of p)") (simp add: gitlab_scheduler_def client_view_def)
next
  case (6 f p n f1)
  then show ?case using post_fresh by (auto simp: client_create client_view_def)
next
  case (7 f p n f1 j)
  then show ?case using post_other by (auto simp: client_create client_view_def)
next
  case (8 f xs e)
  then obtain raw r where "get_schedules G f page_size = Inr raw" "r \<in> set raw" "e = to_schedule r" by (auto simp: client_list)
  then show ?case using schedules_sound [of f page_size raw r] by (auto simp: client_view_def to_schedule_def)
next
  case (9 f xs)
  then show ?case using schedules_distinct by (auto simp: client_list comp_def)
qed

locale gitlab_rest = gitlab_frame G gobs for G :: "'f gitlab_api" and gobs :: "'f \<Rightarrow> int \<Rightarrow> gitlab_schedule option" +
  fixes me :: int
  assumes user_ok: "get_user G f = Inr me"
    and schedules_ok: "\<exists>raw. get_schedules G f n = Inr raw"
    and schedules_complete: "get_schedules G f n = Inr raw \<Longrightarrow>
      finite (dom (gobs f)) \<Longrightarrow> card (dom (gobs f)) \<le> n \<Longrightarrow> gobs f i \<noteq> None \<Longrightarrow> i \<in> gl_id ` set raw"
    and get_ok: "gobs f i = Some s \<Longrightarrow> get_schedule G f i = Inr s"
    and id_ok: "gobs f i = Some s \<Longrightarrow> gl_id s = i"
    and post_ok: "\<exists>s f1 s1. post_schedule G f b = (Inr s, f1) \<and> gl_owner s1 = Some me \<and> gl_vars s1 = [] \<and>
      gobs f1 (gl_id s) = Some (stored b s1)"
    and put_ok: "gobs f i = Some s \<Longrightarrow> \<exists>f1. put_schedule G f i b = (None, f1) \<and> gobs f1 i = Some (stored b s)"
    and delete_ok: "gobs f i \<noteq> None \<Longrightarrow> \<exists>f1. delete_schedule G f i = (None, f1) \<and> gobs f1 i = None"
    and ownership_ok: "gobs f i = Some s \<Longrightarrow>
      \<exists>f1. post_ownership G f i = (None, f1) \<and> gobs f1 i = Some (s\<lparr>gl_owner := Some me\<rparr>)"
    and post_var_ok: "gobs f i = Some s \<Longrightarrow> map_of (gl_vars s) k = None \<Longrightarrow>
      \<exists>f1. post_variable G f i k v = (None, f1) \<and> gobs f1 i = Some (s\<lparr>gl_variables := Some (gl_vars s @ [(k, v)])\<rparr>)"
    and put_var_ok: "gobs f i = Some s \<Longrightarrow> map_of (gl_vars s) k \<noteq> None \<Longrightarrow>
      \<exists>f1 vs. put_variable G f i k v = (None, f1) \<and> gobs f1 i = Some (s\<lparr>gl_variables := Some vs\<rparr>) \<and> map_of (rev vs) k = Some v"

lemma map_of_rev_None: "map_of (rev vs) k = None \<longleftrightarrow> map_of vs k = None"
  by (simp add: map_of_eq_None_iff)

sublocale gitlab_rest \<subseteq> client: live_forge "gitlab_scheduler G" "client_view gobs" me page_size
proof (unfold_locales, goal_cases)
  case (1 f)
  then show ?case by (simp add: gitlab_scheduler_def wrap_res_def user_ok)
next
  case (2 f)
  then show ?case using schedules_ok by (auto simp: client_list)
next
  case (3 f xs i)
  then obtain raw where raw: "get_schedules G f page_size = Inr raw" "xs = map to_schedule raw" by (auto simp: client_list)
  moreover have "gobs f i \<noteq> None" using 3 by (simp add: client_view_def)
  moreover have "finite (dom (gobs f))" "card (dom (gobs f)) \<le> page_size" using 3(2) by (simp_all add: fits_def client_view_dom)
  ultimately have "i \<in> gl_id ` set raw" by (intro schedules_complete)
  then show ?case by (simp add: raw(2) image_image)
next
  case (4 f i q)
  then show ?case using get_ok by (auto simp: client_view_def gitlab_scheduler_def wrap_res_def)
next
  case (5 f p)
  obtain s f1 s1 where s: "post_schedule G f (schedule_body_of p) = (Inr s, f1)" "gl_owner s1 = Some me" "gl_vars s1 = []"
    "gobs f1 (gl_id s) = Some (stored (schedule_body_of p) s1)"
    using post_ok by blast
  then have "gl_id s1 = gl_id s" using id_ok [OF s(4)] by (simp add: stored_def)
  moreover have "ps_owner (to_schedule s1) = me" "ps_vars (to_schedule s1) = []"
    using s(2,3) by (auto simp: to_schedule_def gl_vars_def split: option.splits)
  ultimately show ?case using s(1,4) by (auto simp: client_create client_view_def to_schedule_stored)
next
  case (6 f p q)
  then obtain s where "gobs f (ps_id p) = Some s" "q = to_schedule s" "gl_id s = ps_id p" by (auto simp: client_view_def id_ok)
  then show ?case using put_ok [of f "ps_id p" s "schedule_body_of p"]
    by (auto simp: gitlab_scheduler_def wrap_err_def client_view_def to_schedule_stored)
next
  case (7 f i)
  then show ?case using delete_ok [of f i] by (auto simp: gitlab_scheduler_def wrap_err_def client_view_def)
next
  case (8 f i q)
  then show ?case using ownership_ok [of f i]
    by (auto simp: gitlab_scheduler_def wrap_err_def client_view_def to_schedule_def)
next
  case (9 f i q x k v)
  then obtain s where s: "gobs f i = Some s" "q = to_schedule s" by (auto simp: client_view_def)
  have x: "x \<longleftrightarrow> map_of (gl_vars s) k \<noteq> None" using 9(2) s(2) by (simp add: to_schedule_vars map_of_rev_None)
  have "\<exists>f1 vs. (if x then put_variable G f i k v else post_variable G f i k v) = (None, f1) \<and>
      gobs f1 i = Some (s\<lparr>gl_variables := Some vs\<rparr>) \<and> map_of (rev vs) k = Some v"
  proof (cases x)
    case True
    then show ?thesis using x put_var_ok [OF s(1), of k v] by auto
  next
    case False
    then show ?thesis using x post_var_ok [OF s(1), of k v] by (auto intro!: exI [of _ "gl_vars s @ [(k, v)]"])
  qed
  then obtain f1 vs where v: "(if x then put_variable G f i k v else post_variable G f i k v) = (None, f1)"
    "gobs f1 i = Some (s\<lparr>gl_variables := Some vs\<rparr>)" "map_of (rev vs) k = Some v" by blast
  have "map_of (ps_vars (to_schedule (s\<lparr>gl_variables := Some vs\<rparr>))) k = Some v" using v(3) by (simp add: to_schedule_vars gl_vars_def)
  moreover have "to_schedule (s\<lparr>gl_variables := Some vs\<rparr>) = q\<lparr>ps_vars := ps_vars (to_schedule (s\<lparr>gl_variables := Some vs\<rparr>))\<rparr>"
    by (simp add: s(2) to_schedule_def)
  ultimately show ?case using v(1,2) by (auto simp: gitlab_scheduler_def wrap_err_def client_view_def)
qed

context gitlab_rest
begin

lemma client_live: "live_forge (gitlab_scheduler G) (client_view gobs) me page_size"
  by (rule client.live_forge_axioms)

end

section \<open>A service in memory\<close>

text \<open>
  A service that behaves as GitLab documents: it holds its schedules by id, gives a new one the next
  id, and answers 404 for what it does not hold.
\<close>

type_synonym mem = "(int \<times> gitlab_schedule) list"

definition mem_obs :: "mem \<Rightarrow> int \<Rightarrow> gitlab_schedule option" where
  "mem_obs f i = map_option (\<lambda>s. s\<lparr>gl_id := i\<rparr>) (map_of f i)"

definition mem_blank :: "int \<Rightarrow> int \<Rightarrow> gitlab_schedule" where
  "mem_blank i me = \<lparr>gl_id = i, gl_description = [], gl_ref = [], gl_cron = [], gl_cron_timezone = [],
     gl_active = False, gl_owner = Some me, gl_variables = None\<rparr>"

definition mem_next :: "mem \<Rightarrow> int" where
  "mem_next f = 1 + fold max (map fst f) 0"

definition mem_edit :: "mem \<Rightarrow> int \<Rightarrow> (gitlab_schedule \<Rightarrow> gitlab_schedule) \<Rightarrow> string option \<times> mem" where
  "mem_edit f i g = (case map_of f i of None \<Rightarrow> (Some ''404'', f) | Some s \<Rightarrow> (None, AList.update i (g s) f))"

definition mem_api :: "int \<Rightarrow> mem gitlab_api" where
  "mem_api me =
     \<lparr>get_user = \<lambda>f. Inr me,
      get_schedules = \<lambda>f n. Inr (map (\<lambda>i. (the (mem_obs f i))\<lparr>gl_variables := None\<rparr>) (take n (remdups (map fst f)))),
      get_schedule = \<lambda>f i. (case mem_obs f i of None \<Rightarrow> Inl ''404'' | Some s \<Rightarrow> Inr s),
      post_schedule = \<lambda>f b. (let i = mem_next f; s = stored b (mem_blank i me) in (Inr s, AList.update i s f)),
      put_schedule = \<lambda>f i b. mem_edit f i (stored b),
      delete_schedule = \<lambda>f i. if map_of f i = None then (Some ''404'', f) else (None, AList.delete i f),
      post_ownership = \<lambda>f i. mem_edit f i (\<lambda>s. s\<lparr>gl_owner := Some me\<rparr>),
      post_variable = \<lambda>f i k v. mem_edit f i (\<lambda>s. s\<lparr>gl_variables := Some (gl_vars s @ [(k, v)])\<rparr>),
      put_variable = \<lambda>f i k v. mem_edit f i (\<lambda>s. s\<lparr>gl_variables := Some (rev (AList.update k v (rev (gl_vars s))))\<rparr>)\<rparr>"

lemma mem_next_fresh: "map_of f (mem_next f) = None"
proof -
  have "a \<le> fold max xs a \<and> (\<forall>x \<in> set xs. x \<le> fold max xs a)" for a :: int and xs
  proof (induction xs arbitrary: a)
    case (Cons x xs)
    show ?case using Cons.IH [of "max x a"] by auto
  qed simp
  then have le: "x \<le> fold max (map fst f) 0" if "x \<in> fst ` set f" for x using that by force
  have "mem_next f \<notin> fst ` set f" using le [of "mem_next f"] by (auto simp: mem_next_def)
  then show ?thesis by (simp add: map_of_eq_None_iff)
qed

lemma mem_edit_other: "j \<noteq> i \<Longrightarrow> mem_obs (snd (mem_edit f i g)) j = mem_obs f j"
  by (simp add: mem_edit_def mem_obs_def update_conv' split: option.split)

lemma mem_edit_at:
  assumes "mem_obs f i = Some s" "\<And>t j. (g t)\<lparr>gl_id := j\<rparr> = g (t\<lparr>gl_id := j\<rparr>)"
  shows "\<exists>f1. mem_edit f i g = (None, f1) \<and> mem_obs f1 i = Some (g s)"
  using assms by (auto simp: mem_edit_def mem_obs_def update_conv')

lemma mem_keys: "i \<in> fst ` set f \<longleftrightarrow> mem_obs f i \<noteq> None"
  by (simp add: mem_obs_def map_of_eq_None_iff)

lemma mem_id: "mem_obs f i = Some s \<Longrightarrow> gl_id s = i"
  by (auto simp: mem_obs_def)

interpretation mem: gitlab_rest "mem_api me" mem_obs me for me
proof (unfold_locales, goal_cases)
  case (1 j i f b)
  then show ?case by (simp add: mem_api_def mem_edit_other)
next
  case (2 j i f)
  then show ?case by (simp add: mem_api_def mem_obs_def delete_conv')
next
  case (3 j i f)
  then show ?case by (simp add: mem_api_def mem_edit_other)
next
  case (4 j i f k v)
  then show ?case by (simp add: mem_api_def mem_edit_other)
next
  case (5 j i f k v)
  then show ?case by (simp add: mem_api_def mem_edit_other)
next
  case (6 f j b)
  then show ?case using mem_next_fresh [of f] by (auto simp: mem_api_def Let_def mem_obs_def update_conv')
next
  case (7 f b s f1)
  then show ?case using mem_next_fresh [of f] by (auto simp: mem_api_def Let_def mem_obs_def stored_def mem_blank_def)
next
  case (8 f b s f1 j)
  then show ?case by (auto simp: mem_api_def Let_def mem_obs_def stored_def mem_blank_def update_conv')
next
  case (9 f n raw r)
  have "raw = map (\<lambda>i. (the (mem_obs f i))\<lparr>gl_variables := None\<rparr>) (take n (remdups (map fst f)))"
    using 9(1) by (simp add: mem_api_def)
  then have "r \<in> (\<lambda>i. (the (mem_obs f i))\<lparr>gl_variables := None\<rparr>) ` set (take n (remdups (map fst f)))" using 9(2) by simp
  moreover have "set (take n (remdups (map fst f))) \<subseteq> fst ` set f" using set_take_subset [of n "remdups (map fst f)"] by simp
  ultimately have "r \<in> (\<lambda>i. (the (mem_obs f i))\<lparr>gl_variables := None\<rparr>) ` (fst ` set f)" by blast
  then obtain i where i: "i \<in> fst ` set f" "r = (the (mem_obs f i))\<lparr>gl_variables := None\<rparr>" by blast
  then obtain s where "mem_obs f i = Some s" by (auto simp: mem_keys)
  then show ?case using i(2) mem_id by auto
next
  case (10 f n raw)
  have "map gl_id raw = take n (remdups (map fst f))"
  proof -
    have "gl_id ((the (mem_obs f i))\<lparr>gl_variables := None\<rparr>) = i" if "i \<in> fst ` set f" for i
      using that mem_id by (auto simp: mem_keys)
    moreover have "i \<in> fst ` set f" if "i \<in> set (take n (remdups (map fst f)))" for i using in_set_takeD [OF that] by simp
    ultimately show ?thesis using 10 by (auto simp: mem_api_def intro!: map_idI)
  qed
  then show ?case by simp
next
  case (11 f)
  then show ?case by (simp add: mem_api_def)
next
  case (12 f n)
  then show ?case by (simp add: mem_api_def)
next
  case (13 f n raw i)
  then obtain s where s: "mem_obs f i = Some s" by auto
  have keys: "dom (mem_obs f) = set (remdups (map fst f))" using mem_keys [where f = f] by (auto simp: dom_def)
  then have "length (remdups (map fst f)) \<le> n" using 13(3) distinct_card [of "remdups (map fst f)"] by simp
  then have raw: "raw = map (\<lambda>i. (the (mem_obs f i))\<lparr>gl_variables := None\<rparr>) (remdups (map fst f))"
    using 13(1) by (simp add: mem_api_def)
  have "i \<in> set (remdups (map fst f))" using keys s by (metis domI)
  then have "(the (mem_obs f i))\<lparr>gl_variables := None\<rparr> \<in> set raw" unfolding raw set_map by (rule imageI)
  then show ?case by (rule image_eqI [rotated]) (simp add: s mem_id [OF s])
next
  case (14 f i s)
  then show ?case by (simp add: mem_api_def)
next
  case (15 f i s)
  then show ?case by (rule mem_id)
next
  case (16 f b)
  then show ?case
    by (intro exI [of _ "stored b (mem_blank (mem_next f) me)"] exI [of _ "AList.update (mem_next f) (stored b (mem_blank (mem_next f) me)) f"]
        exI [of _ "mem_blank (mem_next f) me"])
      (simp add: mem_api_def Let_def mem_obs_def update_conv' stored_def mem_blank_def gl_vars_def)
next
  case (17 f i s b)
  then show ?case using mem_edit_at [of f i s "stored b"] by (simp add: mem_api_def stored_def)
next
  case (18 f i)
  then show ?case by (auto simp: mem_api_def mem_obs_def delete_conv')
next
  case (19 f i s)
  then show ?case using mem_edit_at [of f i s "\<lambda>s. s\<lparr>gl_owner := Some me\<rparr>"] by (simp add: mem_api_def)
next
  case (20 f i s k v)
  then show ?case using mem_edit_at [of f i s "\<lambda>s. s\<lparr>gl_variables := Some (gl_vars s @ [(k, v)])\<rparr>"]
    by (simp add: mem_api_def gl_vars_def)
next
  case (21 f i s k v)
  obtain f1 where "mem_edit f i (\<lambda>s. s\<lparr>gl_variables := Some (rev (AList.update k v (rev (gl_vars s))))\<rparr>) = (None, f1)"
    "mem_obs f1 i = Some (s\<lparr>gl_variables := Some (rev (AList.update k v (rev (gl_vars s))))\<rparr>)"
    using mem_edit_at [of f i s "\<lambda>s. s\<lparr>gl_variables := Some (rev (AList.update k v (rev (gl_vars s))))\<rparr>"] 21(1)
    by (auto simp: gl_vars_def)
  then show ?case by (intro exI [of _ f1] exI [of _ "rev (AList.update k v (rev (gl_vars s)))"]) (simp add: mem_api_def update_conv')
qed

section \<open>Properties\<close>

definition sample_schedules :: "schedule list" where
  "sample_schedules =
     [\<lparr>sd_id = ''night'', sd_cron = ''H 3 * * *'', sd_reason = ''watch'', sd_build = []\<rparr>,
      \<lparr>sd_id = ''week'', sd_cron = ''5 3 * * 1'', sd_reason = [], sd_build = ''always''\<rparr>]"

definition sample_mem :: mem where
  "sample_mem =
     [(3, \<lparr>gl_id = 3, gl_description = ''stagefreight: week'', gl_ref = ''refs/heads/main'', gl_cron = ''0 0 * * *'',
           gl_cron_timezone = ''UTC'', gl_active = False, gl_owner = Some 9, gl_variables = Some [(schedule_var, ''x'')]\<rparr>),
      (4, \<lparr>gl_id = 4, gl_description = ''stagefreight: retired'', gl_ref = ''refs/heads/main'', gl_cron = ''0 1 * * *'',
           gl_cron_timezone = ''UTC'', gl_active = False, gl_owner = Some 7, gl_variables = None\<rparr>),
      (5, \<lparr>gl_id = 5, gl_description = ''a human schedule'', gl_ref = ''refs/heads/main'', gl_cron = ''0 0 * * *'',
           gl_cron_timezone = ''UTC'', gl_active = True, gl_owner = None, gl_variables = None\<rparr>)]"



text \<open>The listing is one page: a cadence whose schedule lies beyond it is not seen, and each run creates
  another one.\<close>

lemma unlisted_created_again:
  assumes "sc_list (gitlab_scheduler G) f = Inr xs" "d \<in> set ds"
    and "\<And>e. e \<in> set xs \<Longrightarrow> schedule_key (ps_description e) \<noteq> Some (ds_key d)"
  shows "\<lparr>op_kind = OpCreate, op_desired = d, op_existing = zero_schedule\<rparr> \<in> set (plan_schedules pick ds xs branch me)"
proof -
  obtain owned dups where o: "owned_schedules xs = (owned, dups)" by fastforce
  have "map_of owned (ds_key d) = None"
  proof (cases "map_of owned (ds_key d)")
    case (Some e)
    then have "(ds_key d, e) \<in> set owned" by (rule map_of_SomeD)
    then have "schedule_key (ps_description e) = Some (ds_key d)" "e \<in> set xs"
      using owned_schedules_facts(3) [OF o] owned_schedules_set [OF o] by force+
    then show ?thesis using assms(3) by blast
  qed
  then have "\<lparr>op_kind = OpCreate, op_desired = d, op_existing = zero_schedule\<rparr> \<in> set (desired_ops owned branch me d)"
    by (simp add: desired_ops_def)
  then show ?thesis using assms(2) o by (auto simp: plan_schedules_def)
qed

text \<open>A paused schedule that is no longer declared is deleted by the run, which nevertheless records it as
  found deactivated and reactivated: it raises the signal of an inactive schedule.\<close>

theorem pruned_reported_reactivated:
  "reconcile_schedules id [] [] ''main'' (Some (gitlab_scheduler (mem_api 7))) [sample_mem ! 1] =
     (Some (add_result ''signals'' ''schedule-inactive'' (add_result ''changes'' ''delete retired'' (schedules_record 0))), [])"
  by code_simp

text \<open>C7: Whatever fails on the way, a reconcile leaves a schedule without StageFreight's marker as it was.\<close>

theorem foreign_schedules_untouched:
  assumes "forge_frame S obs" "\<And>ys. set (pick ys) = set ys"
    and "obs f j = Some q" "schedule_key (ps_description q) = None"
  shows "obs (snd (reconcile_schedules pick seed ss branch (Some S) f)) j = Some q"
  using forge_frame.foreign_kept [OF assms(1) assms(3,4,2)] .

theorem foreign_schedules_untouched_witness:
  "client_view mem_obs (snd (reconcile_schedules id ''r'' sample_schedules ''main''
     (Some (gitlab_scheduler (mem_api 7))) sample_mem)) 5 = client_view mem_obs sample_mem 5"
proof -
  obtain q where q: "client_view mem_obs sample_mem 5 = Some q" "schedule_key (ps_description q) = None"
    by (simp add: client_view_def mem_obs_def sample_mem_def to_schedule_def schedule_key_def schedule_marker_def has_prefix_def)
  show ?thesis
    unfolding q(1) by (rule foreign_schedules_untouched [OF mem.client.forge_frame_axioms _ q]) simp
qed

text \<open>Over a GitLab service that behaves as documented, the client is a scheduler whose calls do what the
  reconcile takes them to do.\<close>

theorem gitlab_client_is_scheduler:
  assumes "gitlab_rest G gobs me"
  shows "live_forge (gitlab_scheduler G) (client_view gobs) me page_size"
  using assms by (rule gitlab_rest.client_live)

theorem gitlab_client_is_scheduler_witness:
  "live_forge (gitlab_scheduler (mem_api 7)) (client_view mem_obs) 7 page_size"
  by (rule gitlab_client_is_scheduler) (rule mem.gitlab_rest_axioms)

end
