(* ===== verification/Push_Plan.thy ===== *)
theory Push_Plan
  imports SF_Prelude Go_Glob
begin

text \<open>
  The planner of shared-history git operations (\<^verbatim>\<open>src/src/gitplan\<close>): a situation relative to a
  destination becomes an ordered graph of operations, which rendering and execution walk. Planning
  is pure. Counts of commits are integers; texts are UTF-8 bytes.
\<close>

section \<open>Operations, destinations, situations\<close>

datatype push_op =
    OpNoop | OpUpload | OpCreateTracking | OpFastForward | OpReplay | OpOfferMR | OpRefuse | OpDirectPush
  | OpTeach | OpConfirm | OpDecide

definition op_text :: "push_op \<Rightarrow> string" where
  "op_text k = (case k of
     OpNoop \<Rightarrow> ''noop'' | OpUpload \<Rightarrow> ''upload'' | OpCreateTracking \<Rightarrow> ''create-tracking''
   | OpFastForward \<Rightarrow> ''fast-forward'' | OpReplay \<Rightarrow> ''replay'' | OpOfferMR \<Rightarrow> ''offer-mr'' | OpRefuse \<Rightarrow> ''refuse''
   | OpDirectPush \<Rightarrow> ''direct-push'' | OpTeach \<Rightarrow> ''teach'' | OpConfirm \<Rightarrow> ''confirm'' | OpDecide \<Rightarrow> ''decide'')"

definition mutates_shared_history :: "push_op \<Rightarrow> bool" where
  "mutates_shared_history k \<longleftrightarrow> k = OpReplay"

record push_operation =
  on_kind :: push_op
  on_detail :: string
  on_reason :: string
  on_choices :: "string list"

abbreviation op :: "push_op \<Rightarrow> string \<Rightarrow> push_operation" where
  "op k d \<equiv> \<lparr>on_kind = k, on_detail = d, on_reason = [], on_choices = []\<rparr>"

record destination =
  de_remote :: string
  de_branch :: string
  de_protected :: bool

definition dest_ref :: "destination \<Rightarrow> string" where
  "dest_ref d = de_remote d @ ''/'' @ de_branch d"

datatype diverge_rule = DivergeAsk | DivergeRebase

record situation =
  si_dest :: destination
  si_has_upstream :: bool
  si_ahead :: int
  si_behind :: int
  si_on_diverge :: diverge_rule
  si_auto_converge :: bool
  si_in_progress :: string

datatype interaction = LevelAutomatic | LevelInform | LevelConfirm | LevelDecide

record plan =
  pl_operations :: "push_operation list"
  pl_dest :: destination
  pl_summary :: string

fun interaction_loop :: "push_operation list \<Rightarrow> interaction \<Rightarrow> interaction" where
  "interaction_loop [] level = level"
| "interaction_loop (x # xs) level =
     (case on_kind x of
        OpDecide \<Rightarrow> LevelDecide
      | OpConfirm \<Rightarrow> interaction_loop xs LevelConfirm
      | OpTeach \<Rightarrow> interaction_loop xs (if level = LevelAutomatic then LevelInform else level)
      | _ \<Rightarrow> interaction_loop xs level)"

definition interaction_of :: "plan \<Rightarrow> interaction" where
  "interaction_of p = interaction_loop (pl_operations p) LevelAutomatic"

section \<open>Planning\<close>

text \<open>A spaced em dash.\<close>

definition dash :: string where
  "dash = [CHR '' '', CHR 0xE2, CHR 0x80, CHR 0x94, CHR '' '']"

definition quoted_git :: "string \<Rightarrow> string" where
  "quoted_git o' = [CHR 0x60] @ ''git '' @ o' @ '' --abort'' @ [CHR 0x60]"

definition new_plan :: "situation \<Rightarrow> string \<Rightarrow> push_operation list \<Rightarrow> plan" where
  "new_plan s summary ops = \<lparr>pl_operations = ops, pl_dest = si_dest s, pl_summary = summary\<rparr>"

definition in_progress_plan :: "situation \<Rightarrow> string \<Rightarrow> plan" where
  "in_progress_plan s tail =
     new_plan s ''git operation in progress''
       [op OpRefuse (''a git '' @ si_in_progress s @ '' is in progress''),
        op OpTeach (''finish or abort it first (e.g. '' @ quoted_git (si_in_progress s) @ ''), then retry'' @ tail)]"

definition first_push :: "situation \<Rightarrow> plan" where
  "first_push s =
     new_plan s ''first push''
       ([op OpTeach (''no upstream'' @ dash @ ''creating '' @ dest_ref (si_dest s) @ '' and setting tracking''),
         op OpCreateTracking (dest_ref (si_dest s)), op OpUpload []] @
        (if \<not> de_protected (si_dest s) then [op OpOfferMR (dest_ref (si_dest s))] else []))"

definition behind_plan :: "situation \<Rightarrow> plan" where
  "behind_plan s =
     (if si_auto_converge s then new_plan s ''fast-forward'' [op OpFastForward (dest_ref (si_dest s))]
      else new_plan s (''behind'' @ dash @ ''pull first'')
        [op OpRefuse (dest_ref (si_dest s) @ '' is '' @ itoa (si_behind s) @ '' commit(s) ahead of you''),
         op OpTeach (''remote has commits you don'' @ [CHR 0x27] @ ''t; upload would overwrite newer work'' @ dash @
           ''run '' @ [CHR 0x60] @ ''sf pull'' @ [CHR 0x60])])"

definition diverged_plan :: "situation \<Rightarrow> plan" where
  "diverged_plan s =
     (if de_protected (si_dest s) \<or> si_on_diverge s = DivergeRebase \<or> si_auto_converge s then
        new_plan s ''replay onto destination''
          [op OpConfirm (''replay '' @ itoa (si_ahead s) @ '' commit(s) onto '' @ dest_ref (si_dest s) @ dash @ ''new commit IDs''),
           op OpReplay (dest_ref (si_dest s)), op OpUpload []]
      else new_plan s (''diverged'' @ dash @ ''choose'')
        [\<lparr>on_kind = OpDecide,
          on_detail = dest_ref (si_dest s) @ '' diverged ('' @ itoa (si_ahead s) @ '' ahead, '' @ itoa (si_behind s) @ '' behind)'',
          on_reason = [], on_choices = [''pull'', ''rebase'', ''force-with-lease'']\<rparr>])"

definition resolve :: "situation \<Rightarrow> plan" where
  "resolve s =
     (if si_in_progress s \<noteq> [] then
        in_progress_plan s (dash @ ''StageFreight won'' @ [CHR 0x27] @ ''t act on a half-finished state'')
      else if \<not> si_has_upstream s then first_push s
      else if si_ahead s = 0 \<and> si_behind s = 0 then new_plan s ''up to date'' [op OpNoop []]
      else if si_ahead s > 0 \<and> si_behind s = 0 then
        new_plan s ''upload'' [op OpUpload (''upload '' @ itoa (si_ahead s) @ '' commit(s) to '' @ dest_ref (si_dest s))]
      else if si_ahead s = 0 \<and> si_behind s > 0 then behind_plan s
      else diverged_plan s)"

definition direct_push :: "string \<Rightarrow> string \<Rightarrow> plan" where
  "direct_push remote refspec =
     \<lparr>pl_operations = [op OpDirectPush refspec], pl_dest = \<lparr>de_remote = remote, de_branch = [], de_protected = False\<rparr>,
      pl_summary = ''direct push (refspec)''\<rparr>"

definition resolve_pull :: "situation \<Rightarrow> plan" where
  "resolve_pull s =
     (if si_in_progress s \<noteq> [] then in_progress_plan s []
      else if \<not> si_has_upstream s then
        new_plan s ''no upstream''
          [op OpRefuse (''no upstream configured'' @ dash @ ''nothing to pull from''),
           op OpTeach ''set a tracking branch first: git branch --set-upstream-to=<remote>/<branch>'']
      else if si_ahead s = 0 \<and> si_behind s = 0 then new_plan s ''up to date'' [op OpNoop []]
      else if si_behind s > 0 \<and> si_ahead s = 0 then
        new_plan s ''fast-forward''
          [op OpFastForward (''advance to '' @ dest_ref (si_dest s) @ '' ('' @ itoa (si_behind s) @ '' commit(s))'')]
      else if si_ahead s > 0 \<and> si_behind s = 0 then
        new_plan s ''nothing to pull''
          [op OpTeach (''you are '' @ itoa (si_ahead s) @ '' commit(s) ahead of '' @ dest_ref (si_dest s) @ dash @ ''nothing to pull'')]
      else new_plan s ''rebase onto remote''
        [op OpConfirm (''rebase your '' @ itoa (si_ahead s) @ '' local commit(s) onto '' @ dest_ref (si_dest s) @ dash @ ''new commit IDs''),
         op OpReplay (dest_ref (si_dest s))])"

definition resolve_explicit_push :: "situation \<Rightarrow> plan" where
  "resolve_explicit_push s =
     (let ref = ''HEAD:refs/heads/'' @ de_branch (si_dest s); to = dest_ref (si_dest s) in
      if si_in_progress s \<noteq> [] then in_progress_plan s []
      else if \<not> si_has_upstream s then
        new_plan s (''create '' @ to)
          [op OpTeach (to @ '' does not exist yet'' @ dash @ ''creating it from your HEAD''), op OpDirectPush ref]
      else if si_ahead s = 0 \<and> si_behind s = 0 then new_plan s ''up to date'' [op OpNoop []]
      else if si_behind s > 0 \<and> si_ahead s = 0 then
        new_plan s ''destination is ahead''
          [op OpRefuse (to @ '' is '' @ itoa (si_behind s) @ '' commit(s) ahead of you''),
           op OpTeach (''nothing to push'' @ dash @ ''your HEAD is already contained in '' @ to)]
      else if si_ahead s > 0 \<and> si_behind s = 0 then
        (if de_protected (si_dest s) then
           new_plan s (''fast-forward '' @ to)
             [op OpConfirm (''fast-forward protected '' @ to @ '' to your HEAD ('' @ itoa (si_ahead s) @ '' commit(s))''),
              op OpDirectPush ref]
         else new_plan s (''fast-forward '' @ to) [op OpDirectPush ref])
      else new_plan s ''diverged from destination''
        [op OpRefuse (''your branch has diverged from '' @ to @ '' ('' @ itoa (si_ahead s) @ '' ahead, '' @ itoa (si_behind s) @ '' behind)''),
         op OpTeach (''rebase onto it first: git rebase '' @ de_remote (si_dest s) @ ''/'' @ de_branch (si_dest s) @
           '', then retry the push'')])"

section \<open>Policy and rendering\<close>

record push_policy =
  po_protected :: "string list"

definition default_policy :: push_policy where
  "default_policy = \<lparr>po_protected = [''main'', ''master'']\<rparr>"

definition with_protected :: "string list \<Rightarrow> push_policy" where
  "with_protected ps = (if ps = [] then default_policy else \<lparr>po_protected = ps\<rparr>)"

text \<open>A malformed pattern matches nothing.\<close>

definition policy_protects :: "push_policy \<Rightarrow> string \<Rightarrow> bool" where
  "policy_protects p branch \<longleftrightarrow> list_ex (\<lambda>pat. path_match pat branch = Some True) (po_protected p)"

definition diverge_rule_of :: "push_policy \<Rightarrow> string \<Rightarrow> diverge_rule" where
  "diverge_rule_of p branch = DivergeAsk"

definition level_text :: "interaction \<Rightarrow> string" where
  "level_text l = (case l of
     LevelAutomatic \<Rightarrow> ''automatic'' | LevelInform \<Rightarrow> ''inform'' | LevelConfirm \<Rightarrow> ''confirm'' | LevelDecide \<Rightarrow> ''decide'')"

definition nl :: string where
  "nl = [CHR 0x0A]"

definition render_op :: "push_operation \<Rightarrow> string" where
  "render_op x =
     ''  '' @ op_text (on_kind x) @ (if on_detail x \<noteq> [] then dash @ on_detail x else []) @ nl @
     (if on_choices x \<noteq> [] then ''      choices: '' @ join '' / '' (on_choices x) @ nl else [])"

definition render :: "plan \<Rightarrow> string" where
  "render p =
     ''Plan: '' @ pl_summary p @ ''  ['' @ level_text (interaction_of p) @ '']'' @ nl @
     ''  destination: '' @ dest_ref (pl_dest p) @ nl @ concat (map render_op (pl_operations p))"

section \<open>Gates\<close>

text \<open>A confirmation stands before every operation that enters shared history.\<close>

definition gated :: "push_operation list \<Rightarrow> bool" where
  "gated ops \<longleftrightarrow> (\<forall>i < length ops. mutates_shared_history (on_kind (ops ! i)) \<longrightarrow> (\<exists>j < i. on_kind (ops ! j) = OpConfirm))"

fun gated_from :: "bool \<Rightarrow> push_operation list \<Rightarrow> bool" where
  "gated_from c [] = True"
| "gated_from c (x # xs) \<longleftrightarrow> (mutates_shared_history (on_kind x) \<longrightarrow> c) \<and> gated_from (c \<or> on_kind x = OpConfirm) xs"

lemma gated_from_iff:
  "gated_from c ops \<longleftrightarrow> (\<forall>i < length ops. mutates_shared_history (on_kind (ops ! i)) \<longrightarrow> c \<or> (\<exists>j < i. on_kind (ops ! j) = OpConfirm))"
proof (induction ops arbitrary: c)
  case Nil
  then show ?case by simp
next
  case (Cons x xs)
  show ?case unfolding gated_from.simps Cons.IH by (simp add: All_less_Suc2 Ex_less_Suc2)
qed

lemma gated_iff: "gated ops \<longleftrightarrow> gated_from False ops"
  by (simp add: gated_def gated_from_iff)

lemmas plan_defs = resolve_def resolve_pull_def resolve_explicit_push_def new_plan_def in_progress_plan_def first_push_def
  behind_plan_def diverged_plan_def direct_push_def Let_def

text \<open>Every plan of the planner asks for a confirmation before it enters shared history, whatever the situation
  is; and a push to a protected destination that needs no replay is confirmed when it is explicit.\<close>

theorem shared_history_gated:
  "gated (pl_operations (resolve s)) \<and> gated (pl_operations (resolve_pull s)) \<and> gated (pl_operations (resolve_explicit_push s)) \<and>
   gated (pl_operations (direct_push remote refspec))"
  by (simp add: gated_iff plan_defs mutates_shared_history_def)

text \<open>What a plan asks of the operator follows from the situation.\<close>

definition diverged :: "situation \<Rightarrow> bool" where
  "diverged s \<longleftrightarrow> si_has_upstream s \<and> \<not> (si_ahead s = 0 \<and> si_behind s \<ge> 0) \<and> \<not> (si_behind s = 0 \<and> si_ahead s \<ge> 0)"

lemma diverged_iff: "0 \<le> si_ahead s \<Longrightarrow> 0 \<le> si_behind s \<Longrightarrow>
   diverged s \<longleftrightarrow> si_has_upstream s \<and> si_ahead s > 0 \<and> si_behind s > 0"
  by (auto simp: diverged_def)

text \<open>The operator is asked exactly where the counts leave a choice: a diverged destination that is not
  protected, without a rule to rebase and outside the automatic flow; and a replay is planned exactly for the
  other diverged destinations.\<close>

theorem replay_or_decide:
  assumes "0 \<le> si_ahead s" "0 \<le> si_behind s"
  shows "(interaction_of (resolve s) = LevelDecide \<longleftrightarrow>
      si_in_progress s = [] \<and> diverged s \<and> \<not> (de_protected (si_dest s) \<or> si_on_diverge s = DivergeRebase \<or> si_auto_converge s)) \<and>
    (OpReplay \<in> on_kind ` set (pl_operations (resolve s)) \<longleftrightarrow>
      si_in_progress s = [] \<and> diverged s \<and> (de_protected (si_dest s) \<or> si_on_diverge s = DivergeRebase \<or> si_auto_converge s)) \<and>
    (OpReplay \<in> on_kind ` set (pl_operations (resolve s)) \<longrightarrow> interaction_of (resolve s) = LevelConfirm)"
  using assms unfolding diverged_iff [OF assms] by (auto simp: plan_defs interaction_of_def)

theorem replay_or_decide_witness:
  "let s = \<lparr>si_dest = \<lparr>de_remote = ''origin'', de_branch = ''main'', de_protected = True\<rparr>, si_has_upstream = True, si_ahead = 2,
             si_behind = 1, si_on_diverge = DivergeAsk, si_auto_converge = False, si_in_progress = []\<rparr>
   in OpReplay \<in> on_kind ` set (pl_operations (resolve s)) \<and> interaction_of (resolve s) = LevelConfirm"
  unfolding Let_def
  using replay_or_decide [of "\<lparr>si_dest = \<lparr>de_remote = ''origin'', de_branch = ''main'', de_protected = True\<rparr>, si_has_upstream = True,
    si_ahead = 2, si_behind = 1, si_on_diverge = DivergeAsk, si_auto_converge = False, si_in_progress = []\<rparr>"]
  by (simp add: diverged_def)

end
