(* ===== verification/Push_Run.thy ===== *)
theory Push_Run
  imports Push_Plan
begin

text \<open>
  Running a plan: the state of a repository as go-git reads it (\<^verbatim>\<open>src/src/gitstate/reader.go\<close>,
  \<^verbatim>\<open>status.go\<close>, \<^verbatim>\<open>inprogress.go\<close>, \<^verbatim>\<open>statemachine.go\<close>), the session that holds it
  (\<^verbatim>\<open>session.go\<close>), the engine that walks a plan (\<^verbatim>\<open>src/src/commit/engine_plan.go\<close>,
  \<^verbatim>\<open>engine_execute.go\<close>) and the commands above them. The repository is a state of any type; the calls of
  go-git, the transport and the replay of commits are arguments.
\<close>

section \<open>Worktree status\<close>

datatype status_code =
    Unmodified | Untracked | Modified | Added | Deleted | Renamed | Copied | UpdatedButUnmerged

record file_status =
  fs_staging :: status_code
  fs_worktree :: status_code

text \<open>A Go map: the order of the list stands for the order of its iteration.\<close>

type_synonym status = "(string \<times> file_status) list"

definition is_clean :: "status \<Rightarrow> bool" where
  "is_clean s \<longleftrightarrow> list_all (\<lambda>(_, f). fs_worktree f = Unmodified \<and> fs_staging f = Unmodified) s"

definition staged :: "file_status \<Rightarrow> bool" where
  "staged f \<longleftrightarrow> fs_staging f \<noteq> Unmodified \<and> fs_staging f \<noteq> Untracked"

definition unstaged :: "file_status \<Rightarrow> bool" where
  "unstaged f \<longleftrightarrow> fs_worktree f \<noteq> Unmodified \<and> fs_worktree f \<noteq> Untracked"

definition staged_paths :: "status \<Rightarrow> string list" where
  "staged_paths s = map fst (filter (\<lambda>(_, f). staged f) s)"

definition all_changed_files :: "status \<Rightarrow> string list" where
  "all_changed_files s = map fst (filter (\<lambda>(_, f). fs_staging f \<noteq> Unmodified \<or> fs_worktree f \<noteq> Unmodified) s)"

definition unstaged_dirty_paths :: "status \<Rightarrow> string list" where
  "unstaged_dirty_paths s = map fst (filter (\<lambda>(_, f). unstaged f \<and> fs_staging f = Unmodified) s)"

definition has_staged_changes :: "status \<Rightarrow> bool" where
  "has_staged_changes s \<longleftrightarrow> list_ex (\<lambda>(_, f). staged f) s"

definition has_unstaged_changes :: "status \<Rightarrow> bool" where
  "has_unstaged_changes s \<longleftrightarrow> list_ex (\<lambda>(_, f). unstaged f) s"

definition is_clean_ignoring_untracked :: "status \<Rightarrow> bool" where
  "is_clean_ignoring_untracked s \<longleftrightarrow> list_all (\<lambda>(_, f). \<not> (staged f \<or> unstaged f)) s"

section \<open>Reading the repository\<close>

text \<open>No commit: the zero hash.\<close>

definition zero_hash :: string where
  "zero_hash = replicate 40 (CHR ''0'')"

record repo_state =
  rs_branch :: string
  rs_upstream_ref :: string
  rs_upstream_configured :: bool
  rs_ahead :: int
  rs_behind :: int
  rs_detached :: bool
  rs_clean :: bool
  rs_clean_strict :: bool
  rs_head :: string
  rs_upstream_hash :: string
  rs_remote :: string
  rs_in_progress :: string

definition unread_state :: repo_state where
  "unread_state = \<lparr>rs_branch = [], rs_upstream_ref = [], rs_upstream_configured = False, rs_ahead = 0, rs_behind = 0,
     rs_detached = False, rs_clean = False, rs_clean_strict = False, rs_head = zero_hash, rs_upstream_hash = zero_hash,
     rs_remote = [], rs_in_progress = []\<rparr>"

datatype raw_head = HashHead | SymbolicHead string

record branch_config =
  bc_remote :: string
  bc_merge :: string

text \<open>
  The reads of go-git, each of which can fail: the status of the worktree, HEAD as it is stored and
  resolved, the branch sections of the configuration, references, commits, the merge bases of two
  commits and the history of a commit, newest first. The last two are the file probes of
  \<^verbatim>\<open>DetectInProgressOp\<close>.
\<close>

record 'w repo_reads =
  rd_worktree :: "'w \<Rightarrow> string option"
  rd_status :: "'w \<Rightarrow> string + status"
  rd_raw_head :: "'w \<Rightarrow> string + raw_head"
  rd_head :: "'w \<Rightarrow> string + string"
  rd_config :: "'w \<Rightarrow> string + (string \<Rightarrow> branch_config option)"
  rd_reference :: "'w \<Rightarrow> string \<Rightarrow> string + string"
  rd_commit :: "'w \<Rightarrow> string \<Rightarrow> string option"
  rd_merge_base :: "'w \<Rightarrow> string \<Rightarrow> string \<Rightarrow> string + string list"
  rd_log :: "'w \<Rightarrow> string \<Rightarrow> string + string list"
  rd_git_dir :: "'w \<Rightarrow> bool"
  rd_exists :: "'w \<Rightarrow> string \<Rightarrow> bool"

definition heads_prefix :: string where
  "heads_prefix = ''refs/heads/''"

text \<open>\<open>ReferenceName.Short\<close>: the last rule that fits decides.\<close>

definition ref_short :: "string \<Rightarrow> string" where
  "ref_short r =
     (if has_prefix r ''refs/remotes/'' then trim_prefix r ''refs/remotes/''
      else if has_prefix r heads_prefix then trim_prefix r heads_prefix
      else if has_prefix r ''refs/tags/'' then trim_prefix r ''refs/tags/''
      else trim_prefix r ''refs/'')"

definition remote_ref :: "string \<Rightarrow> string \<Rightarrow> string" where
  "remote_ref remote name = ''refs/remotes/'' @ remote @ ''/'' @ name"

text \<open>Counting from a commit back to the merge base; the whole history when there is none.\<close>

definition count_to :: "string option \<Rightarrow> string list \<Rightarrow> int" where
  "count_to base hist = int (length (takeWhile (\<lambda>c. base \<noteq> Some c) hist))"

definition count_ahead_behind :: "'w repo_reads \<Rightarrow> 'w \<Rightarrow> string \<Rightarrow> string \<Rightarrow> string + int \<times> int" where
  "count_ahead_behind R w h u =
     (if h = u then Inr (0, 0)
      else case rd_commit R w h of Some e \<Rightarrow> Inl (''loading HEAD commit: '' @ e) | None \<Rightarrow>
      (case rd_commit R w u of Some e \<Rightarrow> Inl (''loading upstream commit: '' @ e) | None \<Rightarrow>
      (case rd_merge_base R w h u of Inl e \<Rightarrow> Inl (''computing merge base: '' @ e) | Inr bases \<Rightarrow>
      (let base = (case bases of [] \<Rightarrow> None | b # _ \<Rightarrow> if b = zero_hash then None else Some b) in
       case rd_log R w h of Inl e \<Rightarrow> Inl e | Inr lh \<Rightarrow>
      (case rd_log R w u of Inl e \<Rightarrow> Inl e | Inr lu \<Rightarrow> Inr (count_to base lh, count_to base lu))))))"

definition read_repo_state :: "'w repo_reads \<Rightarrow> 'w \<Rightarrow> string + repo_state" where
  "read_repo_state R w =
     (case rd_worktree R w of Some e \<Rightarrow> Inl (''opening worktree: '' @ e) | None \<Rightarrow>
     (case rd_status R w of Inl e \<Rightarrow> Inl (''reading worktree status: '' @ e) | Inr st \<Rightarrow>
     (let s0 = unread_state\<lparr>rs_clean := is_clean_ignoring_untracked st, rs_clean_strict := is_clean st\<rparr> in
      case rd_raw_head R w of Inl e \<Rightarrow> Inl (''reading HEAD: '' @ e) | Inr raw \<Rightarrow>
     (case rd_head R w of Inl e \<Rightarrow> Inl (''resolving HEAD: '' @ e) | Inr h \<Rightarrow>
     (let s1 = s0\<lparr>rs_head := h\<rparr> in
      case raw of
        HashHead \<Rightarrow> Inr (s1\<lparr>rs_detached := True\<rparr>)
      | SymbolicHead target \<Rightarrow>
        (if \<not> has_prefix target heads_prefix then Inr (s1\<lparr>rs_detached := True\<rparr>)
         else let s2 = s1\<lparr>rs_branch := ref_short target\<rparr> in
         (case rd_config R w of Inl e \<Rightarrow> Inl (''reading git config: '' @ e) | Inr cfg \<Rightarrow>
         (case cfg (rs_branch s2) of None \<Rightarrow> Inr s2 | Some b \<Rightarrow>
          if bc_remote b = [] \<or> bc_merge b = [] then Inr s2
          else let s3 = s2\<lparr>rs_upstream_configured := True, rs_remote := bc_remote b,
                 rs_upstream_ref := bc_remote b @ ''/'' @ ref_short (bc_merge b)\<rparr> in
         (case rd_reference R w (remote_ref (bc_remote b) (ref_short (bc_merge b))) of Inl _ \<Rightarrow> Inr s3 | Inr u \<Rightarrow>
         (let s4 = s3\<lparr>rs_upstream_hash := u\<rparr> in
         (case count_ahead_behind R w h u of Inl _ \<Rightarrow> Inr s4
          | Inr (a, b) \<Rightarrow> Inr (s4\<lparr>rs_ahead := a, rs_behind := b\<rparr>))))))))))))"

definition detect_in_progress :: "'w repo_reads \<Rightarrow> 'w \<Rightarrow> string" where
  "detect_in_progress R w =
     (if \<not> rd_git_dir R w then []
      else if rd_exists R w ''MERGE_HEAD'' then ''merge''
      else if rd_exists R w ''rebase-merge'' \<or> rd_exists R w ''rebase-apply'' then ''rebase''
      else if rd_exists R w ''CHERRY_PICK_HEAD'' then ''cherry-pick''
      else if rd_exists R w ''REVERT_HEAD'' then ''revert''
      else [])"

section \<open>State classes\<close>

datatype state_class =
    CleanSynced | CleanAhead | CleanBehind | DivergedState | DetachedHead | DirtyWorktree | NoUpstream

definition is_valid_class :: "state_class \<Rightarrow> bool" where
  "is_valid_class c \<longleftrightarrow> c \<in> {CleanSynced, CleanAhead, CleanBehind, DivergedState}"

definition classify :: "repo_state \<Rightarrow> state_class" where
  "classify s =
     (if rs_detached s then DetachedHead
      else if \<not> rs_clean s then DirtyWorktree
      else if \<not> rs_upstream_configured s then NoUpstream
      else if rs_ahead s > 0 \<and> rs_behind s > 0 then DivergedState
      else if rs_ahead s > 0 then CleanAhead
      else if rs_behind s > 0 then CleanBehind
      else CleanSynced)"

datatype git_state_error = ErrDetachedHead | ErrDirtyWorktree | ErrNoUpstream | ErrInvalidTransition state_class string "state_class list"

definition require_attached :: "repo_state \<Rightarrow> git_state_error option" where
  "require_attached s = (if rs_detached s then Some ErrDetachedHead else None)"

definition require_clean :: "repo_state \<Rightarrow> git_state_error option" where
  "require_clean s = (if \<not> rs_clean s then Some ErrDirtyWorktree else None)"

definition require_upstream :: "repo_state \<Rightarrow> git_state_error option" where
  "require_upstream s = (if \<not> rs_upstream_configured s then Some ErrNoUpstream else None)"

definition require_valid :: "repo_state \<Rightarrow> git_state_error option" where
  "require_valid s =
     (case require_attached s of Some e \<Rightarrow> Some e | None \<Rightarrow>
     (case require_clean s of Some e \<Rightarrow> Some e | None \<Rightarrow>
     (case require_upstream s of Some e \<Rightarrow> Some e | None \<Rightarrow> None)))"

definition require_state :: "repo_state \<Rightarrow> string \<Rightarrow> state_class list \<Rightarrow> git_state_error option" where
  "require_state s action allowed =
     (if classify s \<in> set allowed then None else Some (ErrInvalidTransition (classify s) action allowed))"

section \<open>Sessions\<close>

text \<open>The network: every call may fail and changes the repository's state. Configuring the upstream is
  best effort.\<close>

record 'w git_transport =
  tp_fetch :: "'w \<Rightarrow> string \<Rightarrow> string option \<times> 'w"
  tp_fast_forward :: "'w \<Rightarrow> string \<Rightarrow> string option \<times> 'w"
  tp_push :: "'w \<Rightarrow> string \<Rightarrow> string \<Rightarrow> string option \<times> 'w"
  tp_set_upstream :: "'w \<Rightarrow> string \<Rightarrow> string \<Rightarrow> 'w"

record session =
  sn_state :: repo_state
  sn_fetched :: bool

definition open_session :: "'w repo_reads \<Rightarrow> 'w \<Rightarrow> string + session" where
  "open_session R w =
     (case read_repo_state R w of Inl e \<Rightarrow> Inl (''reading repo state: '' @ e)
      | Inr st \<Rightarrow> Inr \<lparr>sn_state = st\<lparr>rs_in_progress := detect_in_progress R w\<rparr>, sn_fetched = False\<rparr>)"

definition session_refresh :: "'w repo_reads \<Rightarrow> 'w \<Rightarrow> session \<Rightarrow> string option \<times> session" where
  "session_refresh R w ses =
     (case read_repo_state R w of Inl e \<Rightarrow> (Some (''refreshing repo state: '' @ e), ses)
      | Inr st \<Rightarrow> (None, ses\<lparr>sn_state := st\<rparr>))"

definition session_fetch :: "'w repo_reads \<Rightarrow> 'w git_transport \<Rightarrow> string \<Rightarrow> session \<Rightarrow> 'w \<Rightarrow> string option \<times> session \<times> 'w" where
  "session_fetch R T remote ses w =
     (case tp_fetch T w remote of
        (Some e, w1) \<Rightarrow> (Some (''fetch '' @ remote @ '': '' @ e), ses, w1)
      | (None, w1) \<Rightarrow> (case session_refresh R w1 (ses\<lparr>sn_fetched := True\<rparr>) of (r, ses1) \<Rightarrow> (r, ses1, w1)))"

definition session_fast_forward :: "'w repo_reads \<Rightarrow> 'w git_transport \<Rightarrow> string \<Rightarrow> session \<Rightarrow> 'w \<Rightarrow> string option \<times> session \<times> 'w" where
  "session_fast_forward R T remote ses w =
     (case tp_fast_forward T w remote of
        (Some e, w1) \<Rightarrow> (Some e, ses, w1)
      | (None, w1) \<Rightarrow> (case session_refresh R w1 ses of (r, ses1) \<Rightarrow> (r, ses1, w1)))"

definition session_push :: "'w git_transport \<Rightarrow> string \<Rightarrow> string \<Rightarrow> bool \<Rightarrow> session \<Rightarrow> 'w \<Rightarrow> string option \<times> 'w" where
  "session_push T remote refspec set_upstream ses w =
     (case tp_push T w remote refspec of
        (Some e, w1) \<Rightarrow> (Some e, w1)
      | (None, w1) \<Rightarrow>
          (None, if set_upstream \<and> rs_branch (sn_state ses) \<noteq> [] then tp_set_upstream T w1 remote (rs_branch (sn_state ses)) else w1))"

section \<open>The engine\<close>

definition situation_from_state :: "repo_state \<Rightarrow> push_policy \<Rightarrow> situation" where
  "situation_from_state st p =
     \<lparr>si_dest = \<lparr>de_remote = (if rs_remote st = [] then ''origin'' else rs_remote st), de_branch = rs_branch st,
                 de_protected = policy_protects p (rs_branch st)\<rparr>,
      si_has_upstream = rs_upstream_configured st, si_ahead = rs_ahead st, si_behind = rs_behind st,
      si_on_diverge = diverge_rule_of p (rs_branch st), si_auto_converge = False, si_in_progress = rs_in_progress st\<rparr>"

definition situation_converge :: "repo_state \<Rightarrow> push_policy \<Rightarrow> situation" where
  "situation_converge st p = (situation_from_state st p)\<lparr>si_auto_converge := True\<rparr>"

definition engine_plan :: "session \<Rightarrow> push_policy \<Rightarrow> plan" where
  "engine_plan ses p = resolve (situation_from_state (sn_state ses) p)"

definition engine_plan_pull :: "session \<Rightarrow> push_policy \<Rightarrow> plan" where
  "engine_plan_pull ses p = resolve_pull (situation_from_state (sn_state ses) p)"

record target_facts =
  tf_exists :: bool
  tf_ahead :: int
  tf_behind :: int

definition resolve_target_facts :: "'w repo_reads \<Rightarrow> 'w \<Rightarrow> session \<Rightarrow> string \<Rightarrow> string \<Rightarrow> string + target_facts" where
  "resolve_target_facts R w ses remote branch =
     (let h = rs_head (sn_state ses) in
      if h = zero_hash then Inl (''no HEAD commit to compare against '' @ remote @ ''/'' @ branch)
      else case rd_reference R w (remote_ref remote branch) of
        Inl _ \<Rightarrow> Inr \<lparr>tf_exists = False, tf_ahead = 0, tf_behind = 0\<rparr>
      | Inr u \<Rightarrow> (case count_ahead_behind R w h u of
          Inl e \<Rightarrow> Inl (''computing ahead/behind vs '' @ remote @ ''/'' @ branch @ '': '' @ e)
        | Inr (a, b) \<Rightarrow> Inr \<lparr>tf_exists = True, tf_ahead = a, tf_behind = b\<rparr>))"

definition engine_plan_to :: "'w repo_reads \<Rightarrow> 'w \<Rightarrow> session \<Rightarrow> string \<Rightarrow> string \<Rightarrow> push_policy \<Rightarrow> string + plan" where
  "engine_plan_to R w ses remote branch0 p =
     (let branch = (if branch0 = [] then rs_branch (sn_state ses) else branch0) in
      case resolve_target_facts R w ses remote branch of Inl e \<Rightarrow> Inl e
      | Inr facts \<Rightarrow> Inr (resolve_explicit_push
          \<lparr>si_dest = \<lparr>de_remote = remote, de_branch = branch, de_protected = policy_protects p branch\<rparr>,
           si_has_upstream = tf_exists facts, si_ahead = tf_ahead facts, si_behind = tf_behind facts,
           si_on_diverge = DivergeAsk, si_auto_converge = False, si_in_progress = rs_in_progress (sn_state ses)\<rparr>))"

datatype exec_error =
    ConfirmRequired string
  | DecisionRequired string "string list"
  | Refused string
  | StepFailed string string

text \<open>One operation: its error, if any, then the session and the repository it leaves. The replay is an argument.\<close>

type_synonym 'w replayer = "session \<Rightarrow> 'w \<Rightarrow> string option \<times> session \<times> 'w"

definition exec_op :: "'w repo_reads \<Rightarrow> 'w git_transport \<Rightarrow> 'w replayer \<Rightarrow> bool \<Rightarrow> destination \<Rightarrow> push_operation \<Rightarrow> session \<Rightarrow> 'w \<Rightarrow>
    exec_error option \<times> session \<times> 'w" where
  "exec_op R T rp approved dest x ses w =
     (let failed = (\<lambda>what r. case r of (Some e, ses1, w1) \<Rightarrow> (Some (StepFailed what e), ses1, w1) | (None, ses1, w1) \<Rightarrow> (None, ses1, w1));
          pushed = (\<lambda>what r. case r of (e, w1) \<Rightarrow> failed what (e, ses, w1));
          remote = de_remote dest in
      case on_kind x of
        OpNoop \<Rightarrow> (None, ses, w)
      | OpTeach \<Rightarrow> (None, ses, w)
      | OpRefuse \<Rightarrow> (Some (Refused (on_detail x)), ses, w)
      | OpDecide \<Rightarrow> (Some (DecisionRequired (on_detail x) (on_choices x)), ses, w)
      | OpConfirm \<Rightarrow> (if \<not> approved then Some (ConfirmRequired (on_detail x)) else None, ses, w)
      | OpCreateTracking \<Rightarrow>
          (let branch = (if de_branch dest = [] then rs_branch (sn_state ses) else de_branch dest)
           in pushed ''create tracking'' (session_push T remote (''HEAD:refs/heads/'' @ branch) True ses w))
      | OpUpload \<Rightarrow> pushed ''upload'' (session_push T remote [] False ses w)
      | OpDirectPush \<Rightarrow> pushed ''direct push'' (session_push T remote (on_detail x) False ses w)
      | OpFastForward \<Rightarrow> failed ''fast-forward'' (session_fast_forward R T remote ses w)
      | OpReplay \<Rightarrow> failed ''replay'' (rp ses w)
      | OpOfferMR \<Rightarrow> (None, ses, w))"

text \<open>\<open>Execute\<close>: the operations performed, in order, and why it stopped.\<close>

fun execute :: "'w repo_reads \<Rightarrow> 'w git_transport \<Rightarrow> 'w replayer \<Rightarrow> bool \<Rightarrow> destination \<Rightarrow> push_operation list \<Rightarrow> session \<Rightarrow> 'w \<Rightarrow>
    push_op list \<times> exec_error option \<times> session \<times> 'w" where
  "execute R T rp approved dest [] ses w = ([], None, ses, w)"
| "execute R T rp approved dest (x # xs) ses w =
     (case exec_op R T rp approved dest x ses w of
        (Some e, ses1, w1) \<Rightarrow> ([], Some e, ses1, w1)
      | (None, ses1, w1) \<Rightarrow>
          (case execute R T rp approved dest xs ses1 w1 of (done', e, ses2, w2) \<Rightarrow> (on_kind x # done', e, ses2, w2)))"

section \<open>The commands\<close>

datatype run_result =
    RunFailed string
  | RunDone
  | RunNeedsConfirmation string
  | RunNeedsDecision string "string list"
  | RunRefused string
  | RunExecFailed string string

definition run_result_of :: "exec_error option \<Rightarrow> run_result" where
  "run_result_of e = (case e of None \<Rightarrow> RunDone
     | Some (ConfirmRequired d) \<Rightarrow> RunNeedsConfirmation d
     | Some (DecisionRequired d cs) \<Rightarrow> RunNeedsDecision d cs
     | Some (Refused d) \<Rightarrow> RunRefused d
     | Some (StepFailed what msg) \<Rightarrow> RunExecFailed what msg)"

text \<open>\<open>runPlanned\<close>: fetch, plan, render, execute. The result, the rendered plan and the repository left.\<close>

type_synonym 'w planner = "'w \<Rightarrow> session \<Rightarrow> push_policy \<Rightarrow> string + plan"

definition run_planned :: "'w repo_reads \<Rightarrow> 'w git_transport \<Rightarrow> 'w replayer \<Rightarrow> 'w planner \<Rightarrow> string \<Rightarrow> bool \<Rightarrow> 'w \<Rightarrow>
    run_result \<times> string \<times> 'w" where
  "run_planned R T rp plan_fn remote approved w =
     (case open_session R w of Inl e \<Rightarrow> (RunFailed (''opening repository: '' @ e), [], w)
      | Inr ses \<Rightarrow>
     (case session_fetch R T remote ses w of
        (Some e, ses1, w1) \<Rightarrow> (RunFailed (''fetch '' @ remote @ '': '' @ e), [], w1)
      | (None, ses1, w1) \<Rightarrow>
     (case plan_fn w1 ses1 default_policy of Inl e \<Rightarrow> (RunFailed e, [], w1)
      | Inr p \<Rightarrow>
     (case execute R T rp approved (pl_dest p) (pl_operations p) ses1 w1 of
        (_, e, _, w2) \<Rightarrow> (run_result_of e, render p, w2)))))"

definition push_planner :: "'w planner" where
  "push_planner w ses p = Inr (engine_plan ses p)"

definition pull_planner :: "'w planner" where
  "pull_planner w ses p = Inr (engine_plan_pull ses p)"

definition push_to_planner :: "'w repo_reads \<Rightarrow> string \<Rightarrow> string \<Rightarrow> 'w planner" where
  "push_to_planner R remote branch w ses p = engine_plan_to R w ses remote branch p"

datatype sync_action = SyncSetUpstream | SyncFetch | SyncFastForward | SyncRebase | SyncPush | SyncNoop

record sync_result =
  sy_actions :: "sync_action list"
  sy_pushed_ref :: string
  sy_noop :: bool

definition sync_actions_of :: "push_op \<Rightarrow> sync_action list" where
  "sync_actions_of k = (case k of
     OpReplay \<Rightarrow> [SyncRebase] | OpFastForward \<Rightarrow> [SyncFastForward] | OpCreateTracking \<Rightarrow> [SyncSetUpstream, SyncPush]
   | OpUpload \<Rightarrow> [SyncPush] | OpDirectPush \<Rightarrow> [SyncPush] | OpNoop \<Rightarrow> [SyncNoop] | _ \<Rightarrow> [])"

definition sync_result_from_ops :: "push_op list \<Rightarrow> string \<Rightarrow> sync_result" where
  "sync_result_from_ops ops remote =
     (let as = concat (map sync_actions_of ops) in \<lparr>sy_actions = as, sy_pushed_ref = remote, sy_noop = (as = [SyncNoop])\<rparr>)"

text \<open>The push after a commit, without an explicit refspec.\<close>

definition push_via_planner :: "'w repo_reads \<Rightarrow> 'w git_transport \<Rightarrow> 'w replayer \<Rightarrow> string \<Rightarrow> 'w \<Rightarrow>
    (string + exec_error + sync_result) \<times> 'w" where
  "push_via_planner R T rp remote0 w =
     (let remote = (if remote0 = [] then ''origin'' else remote0) in
      case open_session R w of Inl e \<Rightarrow> (Inl (''opening sync session: '' @ e), w)
      | Inr ses \<Rightarrow>
     (case session_fetch R T remote ses w of
        (Some e, ses1, w1) \<Rightarrow> (Inl (''fetch: '' @ e), w1)
      | (None, ses1, w1) \<Rightarrow>
     (let p = resolve (situation_converge (sn_state ses1) default_policy) in
      case execute R T rp True (pl_dest p) (pl_operations p) ses1 w1 of
        (_, Some e, _, w2) \<Rightarrow> (Inr (Inl e), w2)
      | (ops, None, _, w2) \<Rightarrow> (Inr (Inr (sync_result_from_ops ops remote)), w2))))"

section \<open>What execution touches\<close>

text \<open>The transition table and the gates agree: a state is refused by none of the requirements exactly when its
  class is a stable one.\<close>

theorem require_valid_iff: "require_valid s = None \<longleftrightarrow> is_valid_class (classify s)"
  by (simp add: require_valid_def require_attached_def require_clean_def require_upstream_def is_valid_class_def classify_def)

lemma count_ahead_behind_markers: "count_ahead_behind (R\<lparr>rd_git_dir := g, rd_exists := x\<rparr>) = count_ahead_behind R"
  by (cases R, hypsubst, rule ext, rule ext, rule ext,
      unfold count_ahead_behind_def repo_reads.update_convs repo_reads.select_convs, rule refl)

lemma read_repo_state_markers: "read_repo_state (R\<lparr>rd_git_dir := g, rd_exists := x\<rparr>) = read_repo_state R"
  by (cases R, hypsubst, rule ext,
      unfold read_repo_state_def count_ahead_behind_def repo_reads.update_convs repo_reads.select_convs, rule refl)

lemma session_refresh_markers:
  "session_refresh (R\<lparr>rd_git_dir := g, rd_exists := x\<rparr>) w ses = session_refresh R w ses"
  by (simp add: session_refresh_def read_repo_state_markers)

lemma session_fast_forward_markers: "session_fast_forward (R\<lparr>rd_git_dir := g, rd_exists := x\<rparr>) = session_fast_forward R"
  by (simp add: session_fast_forward_def fun_eq_iff session_refresh_markers split: prod.split option.split)

lemma exec_op_markers:
  "exec_op (R\<lparr>rd_git_dir := g, rd_exists := x\<rparr>) T rp approved dest y ses w = exec_op R T rp approved dest y ses w"
  unfolding exec_op_def session_fast_forward_markers by (rule refl)

lemma execute_markers:
  "execute (R\<lparr>rd_git_dir := g, rd_exists := x\<rparr>) T rp approved dest ops ses w = execute R T rp approved dest ops ses w"
  by (induction ops arbitrary: ses w) (simp_all add: exec_op_markers split: prod.split option.split)

lemma session_fetch_markers:
  "session_fetch (R\<lparr>rd_git_dir := g, rd_exists := x\<rparr>) T remote ses w = session_fetch R T remote ses w"
  by (simp add: session_fetch_def session_refresh_markers split: prod.split option.split)

text \<open>Up to the operation in progress, two sessions give the same fetch.\<close>

lemma session_fetch_state:
  assumes "session_fetch R T remote ses w = (None, ses1, w1)"
  shows "session_fetch R T remote \<lparr>sn_state = st, sn_fetched = b\<rparr> w = (None, ses1, w1)"
  using assms
  by (auto simp: session_fetch_def session_refresh_def split: prod.splits option.splits sum.splits)

lemma session_fetch_failed:
  assumes "session_fetch R T remote ses w = (Some e, ses1, w1)"
  shows "\<exists>ses2. session_fetch R T remote \<lparr>sn_state = st, sn_fetched = b\<rparr> w = (Some e, ses2, w1)"
  using assms
  by (auto simp: session_fetch_def session_refresh_def split: prod.splits option.splits sum.splits)

definition without_markers :: "'w repo_reads \<Rightarrow> 'w repo_reads" where
  "without_markers R = R\<lparr>rd_git_dir := \<lambda>_. False, rd_exists := \<lambda>_ _. False\<rparr>"

lemma open_session_markers:
  "open_session R w = Inl e \<longleftrightarrow> open_session (without_markers R) w = Inl e"
  "open_session R w = Inr ses \<Longrightarrow> \<exists>st. open_session (without_markers R) w = Inr \<lparr>sn_state = st, sn_fetched = False\<rparr>"
  by (auto simp: open_session_def without_markers_def read_repo_state_markers split: sum.splits)

lemma run_planned_markers:
  assumes "\<And>w ses p. pf w ses p = pf' w ses p"
  shows "run_planned R T rp pf remote approved w = run_planned (without_markers R) T rp pf' remote approved w"
proof (cases "open_session R w")
  case (Inl e)
  then have "open_session (without_markers R) w = Inl e" using open_session_markers(1) by metis
  then show ?thesis using Inl by (simp add: run_planned_def)
next
  case (Inr ses)
  then obtain st where st: "open_session (without_markers R) w = Inr \<lparr>sn_state = st, sn_fetched = False\<rparr>"
    using open_session_markers(2) [OF Inr] by blast
  have m: "session_fetch (without_markers R) T remote ses' w = session_fetch R T remote ses' w"
    "execute (without_markers R) T rp approved dest ops ses' w' = execute R T rp approved dest ops ses' w'" for ses' dest ops w'
    by (simp_all add: without_markers_def session_fetch_markers execute_markers)
  obtain r ses1 w1 where f: "session_fetch R T remote ses w = (r, ses1, w1)" by (metis prod.exhaust)
  show ?thesis
  proof (cases r)
    case None
    then have "session_fetch R T remote \<lparr>sn_state = st, sn_fetched = False\<rparr> w = (None, ses1, w1)"
      using f session_fetch_state by metis
    then show ?thesis using Inr st f None assms by (simp add: run_planned_def m split: sum.split)
  next
    case (Some e)
    then obtain ses2 where "session_fetch R T remote \<lparr>sn_state = st, sn_fetched = False\<rparr> w = (Some e, ses2, w1)"
      using f session_fetch_failed by metis
    then show ?thesis using Inr st f Some by (simp add: run_planned_def m)
  qed
qed

text \<open>C12: The guard against an operation in progress never fires: fetching reads the state of the repository again,
  without the operation that opening the session had detected, so \<^verbatim>\<open>push\<close>, \<^verbatim>\<open>push <remote> <branch>\<close> and
  \<^verbatim>\<open>pull\<close> do in the middle of a merge or a rebase exactly what they do without one.\<close>

theorem in_progress_forgotten:
  "run_planned R T rp push_planner remote approved w = run_planned (without_markers R) T rp push_planner remote approved w \<and>
   run_planned R T rp pull_planner remote approved w = run_planned (without_markers R) T rp pull_planner remote approved w \<and>
   run_planned R T rp (push_to_planner R remote branch) remote approved w =
     run_planned (without_markers R) T rp (push_to_planner (without_markers R) remote branch) remote approved w"
proof -
  have "resolve_target_facts (without_markers R) w ses remote branch' = resolve_target_facts R w ses remote branch'" for w ses branch'
    by (simp add: resolve_target_facts_def without_markers_def count_ahead_behind_markers Let_def split: sum.split)
  then have "push_to_planner R remote branch w ses p = push_to_planner (without_markers R) remote branch w ses p" for w ses p
    by (simp add: push_to_planner_def engine_plan_to_def)
  then show ?thesis by (intro conjI run_planned_markers) simp_all
qed

text \<open>Without approval a gated plan never replays.\<close>

lemma unapproved_execute:
  assumes "gated_from False ops"
  shows "execute R T rp False dest ops ses w = execute R T rp' False dest ops ses w"
  using assms
proof (induction ops arbitrary: ses w)
  case Nil
  then show ?case by simp
next
  case (Cons x xs)
  show ?case
  proof (cases "on_kind x = OpConfirm")
    case True
    then show ?thesis by (simp add: exec_op_def)
  next
    case False
    then have "gated_from False xs" "on_kind x \<noteq> OpReplay"
      using Cons.prems by (simp_all add: mutates_shared_history_def)
    moreover from this have "exec_op R T rp False dest x ses w = exec_op R T rp' False dest x ses w"
      by (cases "on_kind x") (simp_all add: exec_op_def)
    ultimately show ?thesis using Cons.IH by (simp split: prod.split option.split)
  qed
qed

lemma plans_gated:
  "gated_from False (pl_operations (resolve s))" "gated_from False (pl_operations (resolve_pull s))"
  "gated_from False (pl_operations (resolve_explicit_push s))"
  by (simp_all add: plan_defs mutates_shared_history_def)

lemma engine_plan_to_gated: "engine_plan_to R w ses remote branch p = Inr pl \<Longrightarrow> gated_from False (pl_operations pl)"
  by (auto simp: engine_plan_to_def Let_def plans_gated split: sum.splits)

lemma unapproved_run:
  assumes "\<And>w ses p pl. pf w ses p = Inr pl \<Longrightarrow> gated_from False (pl_operations pl)"
  shows "run_planned R T rp pf remote False w = run_planned R T rp' pf remote False w"
proof -
  have "(case pf w1 ses1 p of Inl e \<Rightarrow> (RunFailed e, [], w1)
      | Inr pl \<Rightarrow> (case execute R T rp False (pl_dest pl) (pl_operations pl) ses1 w1 of (_, e, _, w2) \<Rightarrow> (run_result_of e, render pl, w2))) =
    (case pf w1 ses1 p of Inl e \<Rightarrow> (RunFailed e, [], w1)
      | Inr pl \<Rightarrow> (case execute R T rp' False (pl_dest pl) (pl_operations pl) ses1 w1 of (_, e, _, w2) \<Rightarrow> (run_result_of e, render pl, w2)))"
    for w1 ses1 p
  proof (cases "pf w1 ses1 p")
    case (Inr pl)
    then show ?thesis
      using unapproved_execute [OF assms [OF Inr], of R T rp "pl_dest pl" ses1 w1 rp'] by simp
  qed simp
  note eq = this
  show ?thesis unfolding run_planned_def eq by (rule refl)
qed

text \<open>Without the operator's approval no command rewrites a commit: whatever the replay would do, the run, its
  output and the repository it leaves are the same.\<close>

theorem unapproved_never_replays:
  "run_planned R T rp push_planner remote False w = run_planned R T rp' push_planner remote False w \<and>
   run_planned R T rp pull_planner remote False w = run_planned R T rp' pull_planner remote False w \<and>
   run_planned R T rp (push_to_planner R remote branch) remote False w = run_planned R T rp' (push_to_planner R remote branch) remote False w"
  by (intro conjI unapproved_run)
    (auto simp: push_planner_def pull_planner_def push_to_planner_def engine_plan_def engine_plan_pull_def plans_gated engine_plan_to_gated)

section \<open>Gates come first\<close>

text \<open>Until its last gate a plan only teaches.\<close>

definition gate_op :: "push_op \<Rightarrow> bool" where
  "gate_op k \<longleftrightarrow> k = OpConfirm \<or> k = OpDecide \<or> k = OpRefuse"

fun gates_first :: "push_operation list \<Rightarrow> bool" where
  "gates_first [] = True"
| "gates_first (x # xs) \<longleftrightarrow>
     (if gate_op (on_kind x) \<or> on_kind x = OpTeach \<or> on_kind x = OpNoop then gates_first xs
      else list_all (\<lambda>y. \<not> gate_op (on_kind y)) xs)"

definition stopped_error :: "exec_error option \<Rightarrow> bool" where
  "stopped_error e \<longleftrightarrow> (case e of Some (ConfirmRequired _) \<Rightarrow> True | Some (DecisionRequired _ _) \<Rightarrow> True | Some (Refused _) \<Rightarrow> True | _ \<Rightarrow> False)"

lemma exec_op_gate:
  assumes "exec_op R T rp approved dest x ses w = (e, ses1, w1)"
  shows "stopped_error e \<Longrightarrow> gate_op (on_kind x)"
    and "gate_op (on_kind x) \<or> on_kind x = OpTeach \<or> on_kind x = OpNoop \<Longrightarrow> ses1 = ses \<and> w1 = w"
  using assms by (cases "on_kind x"; auto simp: exec_op_def Let_def gate_op_def stopped_error_def split: prod.splits option.splits if_splits)+

lemma execute_no_gate:
  "list_all (\<lambda>y. \<not> gate_op (on_kind y)) ops \<Longrightarrow> \<not> stopped_error (fst (snd (execute R T rp approved dest ops ses w)))"
proof (induction ops arbitrary: ses w)
  case (Cons x xs)
  obtain e ses1 w1 where x: "exec_op R T rp approved dest x ses w = (e, ses1, w1)" by (metis prod.exhaust)
  then show ?case
    using exec_op_gate(1) [OF x] Cons by (auto split: option.split prod.split) (metis fst_conv snd_conv)
qed (simp add: stopped_error_def)

lemma execute_gated_unchanged:
  "gates_first ops \<Longrightarrow> execute R T rp approved dest ops ses w = (ks, e, ses1, w1) \<Longrightarrow> stopped_error e \<Longrightarrow> ses1 = ses \<and> w1 = w"
proof (induction ops arbitrary: ks)
  case Nil
  then show ?case by (simp add: stopped_error_def)
next
  case (Cons x xs)
  obtain e2 ses2 w2 where x: "exec_op R T rp approved dest x ses w = (e2, ses2, w2)" by (metis prod.exhaust)
  show ?case
  proof (cases "gate_op (on_kind x) \<or> on_kind x = OpTeach \<or> on_kind x = OpNoop")
    case True
    then have "ses2 = ses" "w2 = w" "gates_first xs" using exec_op_gate(2) [OF x] Cons.prems(1) by auto
    then show ?thesis using Cons x by (auto split: option.splits prod.splits)
  next
    case False
    then have no: "list_all (\<lambda>y. \<not> gate_op (on_kind y)) xs" "\<not> gate_op (on_kind x)" using Cons.prems(1) by auto
    then have "\<not> stopped_error e2" using exec_op_gate(1) [OF x] by blast
    then show ?thesis
      using Cons.prems(2,3) x execute_no_gate [OF no(1), of R T rp approved dest ses2 w2]
      by (auto split: option.splits prod.splits)
  qed
qed

lemma plans_gates_first:
  "gates_first (pl_operations (resolve s))" "gates_first (pl_operations (resolve_pull s))"
  "gates_first (pl_operations (resolve_explicit_push s))"
  by (simp_all add: plan_defs gate_op_def)

lemma engine_plan_to_gates_first: "engine_plan_to R w ses remote branch p = Inr pl \<Longrightarrow> gates_first (pl_operations pl)"
  by (auto simp: engine_plan_to_def Let_def plans_gates_first split: sum.splits)

definition stopped_at_gate :: "run_result \<Rightarrow> bool" where
  "stopped_at_gate r \<longleftrightarrow> (case r of RunNeedsConfirmation _ \<Rightarrow> True | RunNeedsDecision _ _ \<Rightarrow> True | RunRefused _ \<Rightarrow> True | _ \<Rightarrow> False)"

lemma stopped_run:
  assumes "\<And>w ses p pl. pf w ses p = Inr pl \<Longrightarrow> gates_first (pl_operations pl)"
    and "run_planned R T rp pf remote approved w = (r, txt', w2)" "stopped_at_gate r"
  shows "w2 = snd (tp_fetch T w remote)"
proof -
  obtain ses where o: "open_session R w = Inr ses"
    using assms(2,3) by (cases "open_session R w") (auto simp: run_planned_def stopped_at_gate_def)
  obtain e ses1 w1 where f: "session_fetch R T remote ses w = (e, ses1, w1)" by (metis prod.exhaust)
  have e: "e = None" using assms(2,3) o f by (cases e) (auto simp: run_planned_def stopped_at_gate_def)
  obtain pl where pl: "pf w1 ses1 default_policy = Inr pl"
    using assms(2,3) o f e by (cases "pf w1 ses1 default_policy") (auto simp: run_planned_def stopped_at_gate_def)
  obtain ks ee ses2 w3 where x: "execute R T rp approved (pl_dest pl) (pl_operations pl) ses1 w1 = (ks, ee, ses2, w3)"
    by (metis prod.exhaust)
  have "r = run_result_of ee" "w2 = w3" using assms(2) o f e pl x by (auto simp: run_planned_def)
  moreover from this have "stopped_error ee" using assms(3)
    by (auto simp: run_result_of_def stopped_at_gate_def stopped_error_def split: option.splits exec_error.splits)
  ultimately have "w2 = w1" using execute_gated_unchanged [OF assms(1) [OF pl] x] by simp
  moreover have "w1 = snd (tp_fetch T w remote)"
    using f e by (auto simp: session_fetch_def split: prod.splits option.splits)
  ultimately show ?thesis by simp
qed

text \<open>C11: A command that stops to ask, or refuses, has fetched and done nothing else: no push, no fast-forward, no
  replay, not even in part.\<close>

theorem stopped_run_changed_nothing:
  assumes "run_planned R T rp pf remote approved w = (r, txt', w2)" "stopped_at_gate r"
    and "pf = push_planner \<or> pf = pull_planner \<or> pf = push_to_planner R remote branch"
  shows "w2 = snd (tp_fetch T w remote)"
  using assms(3) by (intro stopped_run [OF _ assms(1,2)])
    (auto simp: push_planner_def pull_planner_def push_to_planner_def engine_plan_def engine_plan_pull_def plans_gates_first
      engine_plan_to_gates_first)

section \<open>Counts and histories\<close>

text \<open>
  What the counting relies on of go-git in a state: \<open>anc u h\<close> says that \<open>h\<close> is \<open>u\<close> or one of its
  ancestors. The history of a commit starts with it and stays among its ancestors; a merge base is a
  common ancestor, and of a commit and its ancestor the ancestor itself; no commit is the zero hash.
\<close>

definition history_ok :: "'w repo_reads \<Rightarrow> 'w \<Rightarrow> (string \<Rightarrow> string \<Rightarrow> bool) \<Rightarrow> bool" where
  "history_ok R w anc \<longleftrightarrow>
     (\<forall>c l. rd_log R w c = Inr l \<longrightarrow> l \<noteq> [] \<and> hd l = c) \<and>
     (\<forall>c d bs b. rd_merge_base R w c d = Inr bs \<longrightarrow> b \<in> set bs \<longrightarrow> anc c b \<and> anc d b) \<and>
     (\<forall>c d bs. rd_merge_base R w c d = Inr bs \<longrightarrow> anc d c \<longrightarrow> bs = [c]) \<and>
     (\<forall>c d bs. rd_merge_base R w c d = Inr bs \<longrightarrow> anc c d \<longrightarrow> bs = [d]) \<and>
     (\<forall>c. anc c c) \<and> (\<forall>c. rd_commit R w c = None \<longrightarrow> c \<noteq> zero_hash)"

lemma count_to_zero: "l \<noteq> [] \<Longrightarrow> count_to base l = 0 \<longleftrightarrow> base = Some (hd l)"
  by (cases l) (auto simp: count_to_def)

lemma count_to_nonneg [simp]: "0 \<le> count_to base l"
  by (simp add: count_to_def)

lemma counts_decide_ancestry:
  assumes h: "history_ok R w anc" and c: "count_ahead_behind R w c u = Inr (a, b)"
  shows "(a = 0 \<longleftrightarrow> anc u c) \<and> (b = 0 \<longleftrightarrow> anc c u) \<and> 0 \<le> a \<and> 0 \<le> b"
proof (cases "c = u")
  case True
  then show ?thesis using c h by (simp add: count_ahead_behind_def history_ok_def)
next
  case False
  then obtain bases lc lu where m: "rd_commit R w c = None" "rd_commit R w u = None" "rd_merge_base R w c u = Inr bases"
    "rd_log R w c = Inr lc" "rd_log R w u = Inr lu"
    and ab: "a = count_to (case bases of [] \<Rightarrow> None | b # _ \<Rightarrow> if b = zero_hash then None else Some b) lc"
      "b = count_to (case bases of [] \<Rightarrow> None | b # _ \<Rightarrow> if b = zero_hash then None else Some b) lu"
    using c by (auto simp: count_ahead_behind_def Let_def split: option.splits sum.splits)
  let ?base = "case bases of [] \<Rightarrow> None | b # _ \<Rightarrow> if b = zero_hash then None else Some b"
  have nz: "c \<noteq> zero_hash" "u \<noteq> zero_hash" using h m(1,2) by (auto simp: history_ok_def)
  have l: "lc \<noteq> []" "hd lc = c" "lu \<noteq> []" "hd lu = u" using h m(4,5) by (auto simp: history_ok_def)
  have base_anc: "anc c x \<and> anc u x" if "?base = Some x" for x
  proof -
    have "x \<in> set bases" using that by (auto split: list.splits if_splits)
    then show ?thesis using h m(3) unfolding history_ok_def by blast
  qed
  have 1: "anc u c \<Longrightarrow> bases = [c]" "anc c u \<Longrightarrow> bases = [u]" using h m(3) unfolding history_ok_def by blast+
  have "?base = Some c \<longleftrightarrow> anc u c" using base_anc [of c] 1(1) nz(1) by auto
  moreover have "?base = Some u \<longleftrightarrow> anc c u" using base_anc [of u] 1(2) nz(2) by auto
  ultimately show ?thesis unfolding ab using count_to_zero [OF l(1)] count_to_zero [OF l(3)] l by simp
qed

text \<open>A push plans a plain upload exactly when the destination's tip is a proper ancestor of HEAD, so uploading
  is a fast-forward; it reports up to date exactly when neither lies behind, and asks, refuses or replays otherwise.\<close>

theorem upload_is_fast_forward:
  assumes "history_ok R w anc" "count_ahead_behind R w (rs_head st) (rs_upstream_hash st) = Inr (rs_ahead st, rs_behind st)"
    and "rs_upstream_configured st" "rs_in_progress st = []"
  shows "let ops = map on_kind (pl_operations (resolve (situation_from_state st p))) in
    (ops = [OpUpload] \<longleftrightarrow> anc (rs_head st) (rs_upstream_hash st) \<and> \<not> anc (rs_upstream_hash st) (rs_head st)) \<and>
    (ops = [OpNoop] \<longleftrightarrow> anc (rs_head st) (rs_upstream_hash st) \<and> anc (rs_upstream_hash st) (rs_head st)) \<and>
    (OpUpload \<in> set ops \<and> OpReplay \<notin> set ops \<longrightarrow> anc (rs_head st) (rs_upstream_hash st))"
  using counts_decide_ancestry [OF assms(1,2)] assms(3,4) unfolding Let_def
  by (auto simp: situation_from_state_def plan_defs)

section \<open>Upstreams that do not exist, and detached heads\<close>

text \<open>A branch whose configuration names an upstream that the remote does not have is reported as done:
  nothing is pushed and no upstream is created.\<close>

theorem missing_upstream_not_pushed:
  assumes "open_session R w = Inr ses0" "tp_fetch T w remote = (None, w1)" "read_repo_state R w1 = Inr st"
    and "rs_upstream_configured st" "rd_reference R w1 (remote_ref (rs_remote st) (trim_prefix (rs_upstream_ref st) (rs_remote st @ ''/''))) = Inl e"
  shows "\<exists>txt'. run_planned R T rp push_planner remote approved w = (RunDone, txt', w1)"
proof -
  have "rs_ahead st = 0" "rs_behind st = 0" "rs_in_progress st = []"
    using assms(3-5) by (auto simp: read_repo_state_def unread_state_def Let_def trim_prefix_def has_prefix_def
      split: option.splits sum.splits if_splits raw_head.splits)
  then have "pl_operations (resolve (situation_from_state st default_policy)) = [op OpNoop []]"
    using assms(4) by (simp add: situation_from_state_def plan_defs)
  then show ?thesis
    using assms(1-3) by (simp add: run_planned_def session_fetch_def session_refresh_def push_planner_def engine_plan_def
      exec_op_def run_result_of_def)
qed

text \<open>On a detached HEAD, which the state table calls a hard stop, a push is planned as the first push of a branch
  without a name: it pushes HEAD to \<^verbatim>\<open>refs/heads/\<close>.\<close>

theorem detached_head_pushes_nameless:
  assumes "open_session R w = Inr ses0" "tp_fetch T w remote = (None, w1)" "read_repo_state R w1 = Inr st" "rs_detached st"
    and "tp_push T w1 ''origin'' ''HEAD:refs/heads/'' = (Some e, w2)"
  shows "classify st = DetachedHead \<and>
    (\<exists>txt'. run_planned R T rp push_planner remote approved w = (RunExecFailed ''create tracking'' e, txt', w2))"
proof -
  have st: "\<not> rs_upstream_configured st" "rs_branch st = []" "rs_remote st = []" "rs_in_progress st = []"
    using assms(3,4) by (auto simp: read_repo_state_def unread_state_def Let_def split: option.splits sum.splits if_splits raw_head.splits)
  then show ?thesis
    using assms by (simp add: run_planned_def session_fetch_def session_refresh_def push_planner_def engine_plan_def
      situation_from_state_def resolve_def first_push_def new_plan_def exec_op_def session_push_def run_result_of_def classify_def Let_def)
qed

section \<open>Witnesses\<close>

text \<open>A repository of two commits, \<open>h\<close> on top of \<open>u\<close>, whose state counts the calls of the network.\<close>

definition demo_anc :: "string \<Rightarrow> string \<Rightarrow> bool" where
  "demo_anc c b \<longleftrightarrow> c = b \<or> (c = ''h'' \<and> b = ''u'')"

definition demo_reads :: "raw_head \<Rightarrow> string + string \<Rightarrow> nat repo_reads" where
  "demo_reads raw ref =
     \<lparr>rd_worktree = \<lambda>_. None, rd_status = \<lambda>_. Inr [], rd_raw_head = \<lambda>_. Inr raw, rd_head = \<lambda>_. Inr ''h'',
      rd_config = \<lambda>_. Inr (\<lambda>b. if b = ''topic'' then Some \<lparr>bc_remote = ''origin'', bc_merge = ''refs/heads/topic''\<rparr> else None),
      rd_reference = \<lambda>_ _. ref, rd_commit = \<lambda>_ c. if c = zero_hash then Some ''no commit'' else None,
      rd_merge_base = \<lambda>_ c d. Inr (if demo_anc d c then [c] else if demo_anc c d then [d] else []),
      rd_log = \<lambda>_ c. Inr (c # (if c = ''h'' then [''u''] else [])), rd_git_dir = \<lambda>_. True, rd_exists = \<lambda>_ f. f = ''MERGE_HEAD''\<rparr>"

definition demo_transport :: "string option \<Rightarrow> nat git_transport" where
  "demo_transport refused =
     \<lparr>tp_fetch = \<lambda>w _. (None, w + 1), tp_fast_forward = \<lambda>w _. (None, w + 1), tp_push = \<lambda>w _ _. (refused, w + 1),
      tp_set_upstream = \<lambda>w _ _. w\<rparr>"

definition demo_replay :: "nat replayer" where
  "demo_replay ses w = (None, ses, w + 1)"

definition demo_branch :: raw_head where
  "demo_branch = SymbolicHead ''refs/heads/topic''"

lemma demo_history_ok: "history_ok (demo_reads raw ref) w demo_anc"
  by (auto simp: history_ok_def demo_reads_def demo_anc_def zero_hash_def)

definition demo_state :: repo_state where
  "demo_state = unread_state\<lparr>rs_branch := ''topic'', rs_upstream_configured := True, rs_head := ''h'', rs_upstream_hash := ''u'',
     rs_ahead := 1, rs_behind := 0\<rparr>"

lemma demo_state_fields:
  "rs_upstream_configured demo_state" "rs_in_progress demo_state = []" "rs_head demo_state = ''h''" "rs_upstream_hash demo_state = ''u''"
  by (simp_all add: demo_state_def unread_state_def)

lemma demo_count:
  "count_ahead_behind (demo_reads demo_branch (Inr ''u'')) 1 (rs_head demo_state) (rs_upstream_hash demo_state) =
     Inr (rs_ahead demo_state, rs_behind demo_state)"
  by code_simp

theorem upload_is_fast_forward_witness:
  "map on_kind (pl_operations (resolve (situation_from_state demo_state default_policy))) = [OpUpload]"
proof -
  have "demo_anc ''h'' ''u''" "\<not> demo_anc ''u'' ''h''" by (simp_all add: demo_anc_def)
  then show ?thesis
    using upload_is_fast_forward [OF demo_history_ok demo_count demo_state_fields(1,2), of default_policy]
    by (simp add: Let_def demo_state_fields)
qed

definition demo_diverged_reads :: "nat repo_reads" where
  "demo_diverged_reads = (demo_reads demo_branch (Inr ''x''))"

text \<open>The commits \<open>h\<close> and \<open>x\<close> have no common history: a feature branch that diverged needs a decision.\<close>

theorem stopped_run_changed_nothing_witness:
  "snd (snd (run_planned demo_diverged_reads (demo_transport None) demo_replay push_planner ''origin'' True 0)) = 1 \<and>
   stopped_at_gate (fst (run_planned demo_diverged_reads (demo_transport None) demo_replay push_planner ''origin'' True 0))"
proof -
  let ?r = "run_planned demo_diverged_reads (demo_transport None) demo_replay push_planner ''origin'' True 0"
  have e: "?r = (fst ?r, fst (snd ?r), snd (snd ?r))" by simp
  have g: "stopped_at_gate (fst ?r)" by code_simp
  moreover have "snd (snd ?r) = snd (tp_fetch (demo_transport None) 0 ''origin'')"
    by (rule stopped_run_changed_nothing [OF e g disjI1 [OF refl]])
  ultimately show ?thesis by (simp add: demo_transport_def)
qed

definition demo_unborn :: repo_state where
  "demo_unborn = unread_state\<lparr>rs_branch := ''topic'', rs_upstream_ref := ''origin/topic'', rs_upstream_configured := True,
     rs_clean := True, rs_clean_strict := True, rs_head := ''h'', rs_remote := ''origin''\<rparr>"

theorem missing_upstream_not_pushed_witness:
  "\<exists>txt'. run_planned (demo_reads demo_branch (Inl ''not found'')) (demo_transport None) demo_replay push_planner ''origin'' True 0 =
     (RunDone, txt', 1)"
proof -
  let ?R = "demo_reads demo_branch (Inl ''not found'')"
  have "open_session ?R 0 = Inr \<lparr>sn_state = demo_unborn\<lparr>rs_in_progress := ''merge''\<rparr>, sn_fetched = False\<rparr>" by code_simp
  moreover have "tp_fetch (demo_transport None) 0 ''origin'' = (None, 1)" by code_simp
  moreover have "read_repo_state ?R 1 = Inr demo_unborn" by code_simp
  moreover have "rs_upstream_configured demo_unborn" by code_simp
  moreover have "rd_reference ?R 1 r = Inl ''not found''" for r by (simp add: demo_reads_def)
  ultimately show ?thesis by (rule missing_upstream_not_pushed)
qed

definition demo_detached :: repo_state where
  "demo_detached = unread_state\<lparr>rs_clean := True, rs_clean_strict := True, rs_head := ''h'', rs_detached := True\<rparr>"

theorem detached_head_pushes_nameless_witness:
  "\<exists>txt'. run_planned (demo_reads HashHead (Inr ''u'')) (demo_transport (Some ''invalid refspec'')) demo_replay push_planner ''origin'' False 0 =
     (RunExecFailed ''create tracking'' ''invalid refspec'', txt', 2)"
proof -
  let ?R = "demo_reads HashHead (Inr ''u'')" and ?T = "demo_transport (Some ''invalid refspec'')"
  have "open_session ?R 0 = Inr \<lparr>sn_state = demo_detached\<lparr>rs_in_progress := ''merge''\<rparr>, sn_fetched = False\<rparr>" by code_simp
  moreover have "tp_fetch ?T 0 ''origin'' = (None, 1)" by code_simp
  moreover have "read_repo_state ?R 1 = Inr demo_detached" by code_simp
  moreover have "rs_detached demo_detached" by code_simp
  moreover have "tp_push ?T 1 ''origin'' ''HEAD:refs/heads/'' = (Some ''invalid refspec'', 2)" by code_simp
  ultimately show ?thesis by (rule detached_head_pushes_nameless [THEN conjunct2])
qed

end
