(* ===== verification/Commit_Delta.thy ===== *)
theory Commit_Delta
  imports Git_Tree "HOL-Library.Multiset"
begin

text \<open>
  Change sets of commits as the replay uses them (\<^verbatim>\<open>src/src/commit/gogit_replay.go\<close>,
  \<^verbatim>\<open>gogit_replay_checkout.go\<close>, \<^verbatim>\<open>replay_onto.go\<close>): applying one to a flat tree, what of it is there
  already or in the way, the comparison of two change sets by their signatures, and the containment
  gate. A change set is what go-git's tree diff returns, renames included.
\<close>

section \<open>Changes\<close>

text \<open>One side of a change; an empty name is no entry.\<close>

record change_entry =
  ce_name :: string
  ce_mode :: file_mode
  ce_hash :: hash

record change =
  ch_from :: change_entry
  ch_to :: change_entry

definition no_entry :: change_entry where
  "no_entry = \<lparr>ce_name = [], ce_mode = 0, ce_hash = replicate 40 (CHR ''0'')\<rparr>"

abbreviation from_name :: "change \<Rightarrow> string" where
  "from_name c \<equiv> ce_name (ch_from c)"

abbreviation to_name :: "change \<Rightarrow> string" where
  "to_name c \<equiv> ce_name (ch_to c)"

text \<open>A deletion, or the departure side of a rename.\<close>

definition departs :: "change \<Rightarrow> bool" where
  "departs c \<longleftrightarrow> from_name c \<noteq> [] \<and> from_name c \<noteq> to_name c"

definition entry_is :: "tree_entry option \<Rightarrow> change_entry \<Rightarrow> bool" where
  "entry_is e x \<longleftrightarrow> (case e of None \<Rightarrow> False | Some t \<Rightarrow> te_hash t = ce_hash x \<and> te_mode t = ce_mode x)"

definition already_applied :: "change list \<Rightarrow> flat \<Rightarrow> bool" where
  "already_applied cs tip \<longleftrightarrow>
     list_all (\<lambda>c. (departs c \<longrightarrow> map_of tip (from_name c) = None) \<and>
       (to_name c \<noteq> [] \<longrightarrow> entry_is (map_of tip (to_name c)) (ch_to c))) cs"

definition sorted_path_set :: "string list \<Rightarrow> string list" where
  "sorted_path_set ks = sort_strings (remdups ks)"

definition overlap_of :: "flat \<Rightarrow> change \<Rightarrow> string list" where
  "overlap_of tip c =
     (if from_name c \<noteq> [] \<and> \<not> entry_is (map_of tip (from_name c)) (ch_from c) then [from_name c] else []) @
     (if to_name c \<noteq> [] \<and> to_name c \<noteq> from_name c \<and> map_of tip (to_name c) \<noteq> None then [to_name c] else [])"

definition upstream_overlap :: "change list \<Rightarrow> flat \<Rightarrow> string list" where
  "upstream_overlap cs tip = sorted_path_set (concat (map (overlap_of tip) cs))"

definition apply_change :: "change \<Rightarrow> flat \<Rightarrow> flat" where
  "apply_change c fl =
     (let fl1 = (if departs c then AList.delete (from_name c) fl else fl)
      in if to_name c \<noteq> [] then
           AList.update (to_name c) \<lparr>te_name = to_name c, te_mode = ce_mode (ch_to c), te_hash = ce_hash (ch_to c)\<rparr> fl1
         else fl1)"

definition apply_changes :: "change list \<Rightarrow> flat \<Rightarrow> flat" where
  "apply_changes cs fl = foldl (\<lambda>fl c. apply_change c fl) fl cs"

text \<open>\<open>parentPath\<close> and the directories above a path, nearest first.\<close>

definition parent_path :: "string \<Rightarrow> string" where
  "parent_path p = (case cut_last (CHR ''/'') p of None \<Rightarrow> [] | Some (d, _) \<Rightarrow> d)"

lemma parent_path_shorter:
  assumes "p \<noteq> []"
  shows "length (parent_path p) < length p"
proof (cases "cut_last (CHR ''/'') p")
  case None
  then show ?thesis using assms by (simp add: parent_path_def)
next
  case (Some x)
  then obtain b d where x: "cut_at (CHR ''/'') (rev p) = Some (b, d)" "x = (rev d, rev b)"
    by (auto simp: cut_last_def split: option.splits)
  then have "rev p = b @ CHR ''/'' # d" by (simp add: cut_at_Some)
  then have "length (rev p) = length b + Suc (length d)" by simp
  then show ?thesis using Some x by (simp add: parent_path_def)
qed

function dirs_above :: "string \<Rightarrow> string list" where
  "dirs_above p = (if parent_path p = [] then [] else parent_path p # dirs_above (parent_path p))"
  by pat_completeness auto

termination
proof (relation "measure length", goal_cases)
  case 1
  then show ?case by simp
next
  case (2 p)
  then have "p \<noteq> []" by (auto simp: parent_path_def cut_last_def cut_at_def)
  then show ?case by (simp add: parent_path_shorter)
qed

declare dirs_above.simps [simp del]

definition path_clashes :: "flat \<Rightarrow> string list" where
  "path_clashes fl = sorted_path_set (concat (map (\<lambda>(p, _). filter (\<lambda>d. map_of fl d \<noteq> None) (dirs_above p)) fl))"

section \<open>Comparing change sets\<close>

definition change_path_set :: "change list \<Rightarrow> string set" where
  "change_path_set cs = (from_name ` set cs \<union> to_name ` set cs) - {[]}"

text \<open>\<open>FileMode.String\<close>: seven octal digits.\<close>

fun octal :: "nat \<Rightarrow> string" where
  "octal n = (if n < 8 then [char_of (48 + n)] else octal (n div 8) @ [char_of (48 + n mod 8)])"

declare octal.simps [simp del]

definition mode_text :: "file_mode \<Rightarrow> string" where
  "mode_text m = (let s = octal (nat m) in replicate (7 - length s) (CHR ''0'') @ s)"

definition action_text :: "change \<Rightarrow> string" where
  "action_text c =
     (if from_name c = [] \<and> to_name c = [] then []
      else if from_name c = [] then ''Insert'' else if to_name c = [] then ''Delete'' else ''Modify'')"

definition change_signature :: "change \<Rightarrow> string" where
  "change_signature c =
     action_text c @ ''|'' @ from_name c @ ''->'' @ to_name c @ ''|'' @ ce_hash (ch_from c) @ ''->'' @ ce_hash (ch_to c) @
     ''|'' @ mode_text (ce_mode (ch_from c)) @ ''->'' @ mode_text (ce_mode (ch_to c))"

text \<open>The counting loop: every signature of the second list is taken off the counts of the first.\<close>

fun take_off :: "string list \<Rightarrow> (string \<Rightarrow> int) \<Rightarrow> (string \<Rightarrow> int) option" where
  "take_off [] counts = Some counts"
| "take_off (s # ss) counts =
     (let counts' = counts(s := counts s - 1) in if counts' s < 0 then None else take_off ss counts')"

definition equal_change_sets :: "change list \<Rightarrow> change list \<Rightarrow> bool" where
  "equal_change_sets a b \<longleftrightarrow>
     length a = length b \<and>
     (let sa = map change_signature a; sb = map change_signature b in
      case take_off sb (\<lambda>s. int (count_list sa s)) of
        None \<Rightarrow> False
      | Some counts \<Rightarrow> list_all (\<lambda>s. counts s = 0) (sa @ sb))"

definition change_signatures :: "change list \<Rightarrow> string list" where
  "change_signatures cs = sort_strings (map change_signature cs)"

section \<open>Containment\<close>

definition authorized :: "change list \<Rightarrow> string \<Rightarrow> change_entry option" where
  "authorized source p = map_of (rev (map (\<lambda>c. (to_name c, ch_to c)) (filter (\<lambda>c. to_name c \<noteq> []) source))) p"

definition departed :: "change list \<Rightarrow> string \<Rightarrow> bool" where
  "departed source p \<longleftrightarrow> list_ex (\<lambda>c. departs c \<and> from_name c = p) source"

definition containment_violations :: "change list \<Rightarrow> change \<Rightarrow> string list" where
  "containment_violations source c =
     (if to_name c \<noteq> [] then
        (case authorized source (to_name c) of
           None \<Rightarrow> [change_signature c]
         | Some want \<Rightarrow> if ce_hash want \<noteq> ce_hash (ch_to c) \<or> ce_mode want \<noteq> ce_mode (ch_to c) then [change_signature c] else []) @
        (if departs c \<and> \<not> departed source (from_name c) then [change_signature c] else [])
      else if from_name c \<noteq> [] then (if \<not> departed source (from_name c) then [change_signature c] else [])
      else [])"

text \<open>The signatures of the source and the violations; \<^const>\<open>None\<close> when there is none.\<close>

definition verify_containment :: "change list \<Rightarrow> change list \<Rightarrow> (string list \<times> string list) option" where
  "verify_containment source replayed =
     (let vs = concat (map (containment_violations source) replayed)
      in if vs = [] then None else Some (map change_signature source, vs))"

section \<open>Signatures determine changes\<close>

text \<open>Names and hashes without the two separators of a signature.\<close>

definition plain_text :: "string \<Rightarrow> bool" where
  "plain_text s \<longleftrightarrow> CHR ''|'' \<notin> set s \<and> CHR ''>'' \<notin> set s"

definition plain_change :: "change \<Rightarrow> bool" where
  "plain_change c \<longleftrightarrow> list_all plain_text [from_name c, to_name c, ce_hash (ch_from c), ce_hash (ch_to c)] \<and>
     0 \<le> ce_mode (ch_from c) \<and> 0 \<le> ce_mode (ch_to c)"

definition octal_val :: "string \<Rightarrow> nat" where
  "octal_val s = foldl (\<lambda>n c. n * 8 + (of_char c - 48)) 0 s"

lemma octal_val_octal: "octal_val (octal n) = n"
proof (induction n rule: octal.induct)
  case (1 n)
  show ?case
  proof (cases "n < 8")
    case True
    then show ?thesis by (simp add: octal.simps [of n] octal_val_def)
  next
    case False
    then show ?thesis using 1 by (simp add: octal.simps [of n] octal_val_def)
  qed
qed

lemma octal_val_zeros: "octal_val (replicate k (CHR ''0'') @ s) = octal_val s"
proof -
  have "foldl (\<lambda>n c. n * 8 + (of_char c - 48)) 0 (replicate k (CHR ''0'')) = (0 :: nat)" by (induction k) simp_all
  then show ?thesis by (simp add: octal_val_def)
qed

lemma mode_text_inj: "0 \<le> m \<Longrightarrow> 0 \<le> m' \<Longrightarrow> mode_text m = mode_text m' \<longleftrightarrow> m = m'"
proof
  assume a: "0 \<le> m" "0 \<le> m'" "mode_text m = mode_text m'"
  have "octal_val (mode_text k) = nat k" for k by (simp add: mode_text_def Let_def octal_val_zeros octal_val_octal)
  then show "m = m'" using a by (metis nat_eq_iff2)
qed simp

lemma octal_digits: "c \<in> set (octal n) \<Longrightarrow> is_digit c"
proof (induction n rule: octal.induct)
  case (1 n)
  have d: "is_digit (char_of (48 + k))" if "k < 8" for k :: nat
    using that by (simp add: is_digit_def)
  show ?case using 1 d by (cases "n < 8") (auto simp: octal.simps [of n])
qed

lemma mode_text_plain: "plain_text (mode_text m)"
proof -
  have "is_digit c" if "c \<in> set (mode_text m)" for c
    using that octal_digits by (auto simp: mode_text_def Let_def is_digit_def)
  moreover have "\<not> is_digit (CHR ''|'')" "\<not> is_digit (CHR ''>'')" by (simp_all add: is_digit_def)
  ultimately show ?thesis by (auto simp: plain_text_def)
qed

lemma sep_cancel: "(c :: char) \<notin> set a \<Longrightarrow> c \<notin> set a' \<Longrightarrow> a @ c # b = a' @ c # b' \<longleftrightarrow> a = a' \<and> b = b'"
proof
  assume n: "c \<notin> set a" "c \<notin> set a'" and e: "a @ c # b = a' @ c # b'"
  have "cut_at c (a @ c # b) = Some (a, b)" using n(1) by (simp add: cut_at_Some)
  moreover have "cut_at c (a @ c # b) = Some (a', b')" using n(2) e by (simp add: cut_at_Some)
  ultimately show "a = a' \<and> b = b'" by simp
qed simp

lemma arrow_cancel:
  assumes "plain_text x" "plain_text x'"
  shows "x @ ''->'' @ y = x' @ ''->'' @ y' \<longleftrightarrow> x = x' \<and> y = y'"
proof -
  have n: "CHR ''>'' \<notin> set (x @ ''-'')" "CHR ''>'' \<notin> set (x' @ ''-'')" using assms by (auto simp: plain_text_def)
  have "x @ ''->'' @ y = x' @ ''->'' @ y' \<longleftrightarrow> (x @ ''-'') @ CHR ''>'' # y = (x' @ ''-'') @ CHR ''>'' # y'" by simp
  also have "\<dots> \<longleftrightarrow> x @ ''-'' = x' @ ''-'' \<and> y = y'" using n by (rule sep_cancel)
  finally show ?thesis by simp
qed

lemma bar_cancel: "CHR ''|'' \<notin> set a \<Longrightarrow> CHR ''|'' \<notin> set a' \<Longrightarrow> a @ ''|'' @ b = a' @ ''|'' @ b' \<longleftrightarrow> a = a' \<and> b = b'"
  using sep_cancel [of "CHR ''|''" a a' b b'] by simp

lemma arrow_no_bar: "plain_text x \<Longrightarrow> plain_text y \<Longrightarrow> CHR ''|'' \<notin> set (x @ ''->'' @ y)"
  by (auto simp: plain_text_def)

lemma action_plain: "plain_text (action_text c)"
  by (simp add: action_text_def plain_text_def)

lemma signature_inj:
  assumes "plain_change c" "plain_change c'" "change_signature c = change_signature c'"
  shows "c = c'"
proof -
  let ?n = "\<lambda>c. from_name c @ ''->'' @ to_name c" and ?h = "\<lambda>c. ce_hash (ch_from c) @ ''->'' @ ce_hash (ch_to c)"
    and ?m = "\<lambda>c. mode_text (ce_mode (ch_from c)) @ ''->'' @ mode_text (ce_mode (ch_to c))"
  have sig: "change_signature c = action_text c @ ''|'' @ (?n c @ ''|'' @ (?h c @ ''|'' @ ?m c))" for c
    by (simp add: change_signature_def)
  have p: "plain_text (from_name c)" "plain_text (to_name c)" "plain_text (ce_hash (ch_from c))" "plain_text (ce_hash (ch_to c))"
    "0 \<le> ce_mode (ch_from c)" "0 \<le> ce_mode (ch_to c)" if "plain_change c" for c
    using that by (simp_all add: plain_change_def)
  have a: "CHR ''|'' \<notin> set (action_text c)" for c using action_plain by (simp add: plain_text_def)
  have nb: "CHR ''|'' \<notin> set (?n c)" "CHR ''|'' \<notin> set (?h c)" if "plain_change c" for c
    using arrow_no_bar p [OF that] by blast+
  note e = assms(3) [unfolded sig bar_cancel [OF a a] bar_cancel [OF nb(1) [OF assms(1)] nb(1) [OF assms(2)]]
      bar_cancel [OF nb(2) [OF assms(1)] nb(2) [OF assms(2)]]]
  have "?n c = ?n c'" "?h c = ?h c'" "?m c = ?m c'" using e by blast+
  then have "from_name c = from_name c'" "to_name c = to_name c'" "ce_hash (ch_from c) = ce_hash (ch_from c')"
    "ce_hash (ch_to c) = ce_hash (ch_to c')" "mode_text (ce_mode (ch_from c)) = mode_text (ce_mode (ch_from c'))"
    "mode_text (ce_mode (ch_to c)) = mode_text (ce_mode (ch_to c'))"
    using arrow_cancel p [OF assms(1)] p [OF assms(2)] mode_text_plain by blast+
  then show ?thesis
    using mode_text_inj p [OF assms(1)] p [OF assms(2)] by (simp add: change.equality change_entry.equality)
qed

section \<open>Deltas between trees\<close>

text \<open>What a flat tree holds at a path: mode and blob.\<close>

definition cell :: "flat \<Rightarrow> string \<Rightarrow> (file_mode \<times> hash) option" where
  "cell fl p = map_option (\<lambda>e. (te_mode e, te_hash e)) (map_of fl p)"

abbreviation side :: "change_entry \<Rightarrow> (file_mode \<times> hash) option" where
  "side x \<equiv> Some (ce_mode x, ce_hash x)"

text \<open>A change set is a delta between two trees: its sides are their entries, what it moves away is gone, what it
  adds or moves there was not, and it names every path that differs.\<close>

definition delta :: "(string \<Rightarrow> (file_mode \<times> hash) option) \<Rightarrow> (string \<Rightarrow> (file_mode \<times> hash) option) \<Rightarrow> change list \<Rightarrow> bool" where
  "delta A B cs \<longleftrightarrow>
     (\<forall>c \<in> set cs. (from_name c \<noteq> [] \<longrightarrow> A (from_name c) = side (ch_from c)) \<and> (to_name c \<noteq> [] \<longrightarrow> B (to_name c) = side (ch_to c)) \<and>
        (departs c \<longrightarrow> B (from_name c) = None) \<and> (to_name c \<noteq> [] \<and> to_name c \<noteq> from_name c \<longrightarrow> A (to_name c) = None)) \<and>
     (\<forall>p. A p \<noteq> B p \<longrightarrow> p \<in> change_path_set cs)"

lemma entry_is_cell: "entry_is (map_of fl p) x \<longleftrightarrow> cell fl p = side x"
  by (auto simp: entry_is_def cell_def split: option.split)

lemma cell_apply:
  "cell (apply_change c fl) p =
     (if to_name c \<noteq> [] \<and> p = to_name c then side (ch_to c)
      else if departs c \<and> p = from_name c then None else cell fl p)"
  by (auto simp: apply_change_def Let_def cell_def update_conv' delete_conv')

text \<open>Applying the changes sets the paths they name, in whatever order, when no path is both left and reached.\<close>

lemma cell_apply_changes:
  assumes "\<And>c. c \<in> set cs \<Longrightarrow> to_name c \<noteq> [] \<Longrightarrow> B (to_name c) = side (ch_to c)"
    and "\<And>c. c \<in> set cs \<Longrightarrow> departs c \<Longrightarrow> B (from_name c) = None"
  shows "cell (apply_changes cs fl) p =
    (if \<exists>c \<in> set cs. (to_name c \<noteq> [] \<and> p = to_name c) \<or> (departs c \<and> p = from_name c) then B p else cell fl p)"
  using assms
proof (induction cs rule: rev_induct)
  case Nil
  then show ?case by (simp add: apply_changes_def)
next
  case (snoc c cs)
  have "cell (apply_changes (cs @ [c]) fl) p = cell (apply_change c (apply_changes cs fl)) p" by (simp add: apply_changes_def)
  moreover have "cell (apply_changes cs fl) p =
    (if \<exists>c \<in> set cs. (to_name c \<noteq> [] \<and> p = to_name c) \<or> (departs c \<and> p = from_name c) then B p else cell fl p)"
    using snoc.prems by (intro snoc.IH) auto
  moreover have "to_name c \<noteq> [] \<Longrightarrow> B (to_name c) = side (ch_to c)" "departs c \<Longrightarrow> B (from_name c) = None"
    using snoc.prems by auto
  ultimately show ?case by (auto simp: cell_apply)
qed

lemma path_set_cases:
  "p \<in> change_path_set cs \<longleftrightarrow> p \<noteq> [] \<and> (\<exists>c \<in> set cs. p = from_name c \<or> p = to_name c)"
  by (auto simp: change_path_set_def)

text \<open>A delta that applies cleanly to a tip carries it to the new tree on its paths and leaves the rest.\<close>

lemma delta_applied:
  assumes d: "delta A B cs"
  shows "cell (apply_changes cs fl) p =
    (if \<exists>c \<in> set cs. (to_name c \<noteq> [] \<and> p = to_name c) \<or> (departs c \<and> p = from_name c) then B p else cell fl p)"
  using d by (intro cell_apply_changes) (auto simp: delta_def)

lemma delta_applied_path:
  assumes d: "delta A B cs"
  shows "cell (apply_changes cs fl) p = (if p \<in> change_path_set cs then B p else cell fl p)"
proof -
  have "(\<exists>c \<in> set cs. (to_name c \<noteq> [] \<and> p = to_name c) \<or> (departs c \<and> p = from_name c)) \<longleftrightarrow> p \<in> change_path_set cs"
    by (auto simp: path_set_cases departs_def)
  then show ?thesis by (simp add: delta_applied [OF d])
qed

section \<open>Equal change sets\<close>

lemma take_off_None: "take_off ss counts = None \<longleftrightarrow> (\<exists>s. counts s < int (count_list ss s) \<and> s \<in> set ss)"
proof (induction ss arbitrary: counts)
  case (Cons a ss)
  let ?c = "counts(a := counts a - 1)"
  show ?case
  proof (cases "?c a < 0")
    case True
    then have "counts a < int (count_list (a # ss) a)" by simp
    then show ?thesis using True by auto
  next
    case False
    have "(\<exists>s. ?c s < int (count_list ss s) \<and> s \<in> set ss) \<longleftrightarrow> (\<exists>s. counts s < int (count_list (a # ss) s) \<and> s \<in> set (a # ss))"
    proof
      assume "\<exists>s. ?c s < int (count_list ss s) \<and> s \<in> set ss"
      then obtain s where "?c s < int (count_list ss s)" "s \<in> set ss" by blast
      then show "\<exists>s. counts s < int (count_list (a # ss) s) \<and> s \<in> set (a # ss)"
        by (intro exI [of _ s]) (auto split: if_splits)
    next
      assume "\<exists>s. counts s < int (count_list (a # ss) s) \<and> s \<in> set (a # ss)"
      then obtain s where s: "counts s < int (count_list (a # ss) s)" "s \<in> set (a # ss)" by blast
      have "s \<in> set ss"
      proof (rule ccontr)
        assume "s \<notin> set ss"
        then have "s = a" "count_list ss s = 0" using s(2) by (auto simp: count_list_0_iff)
        then show False using s(1) False by simp
      qed
      then show "\<exists>s. ?c s < int (count_list ss s) \<and> s \<in> set ss"
        using s(1) by (intro exI [of _ s]) (auto split: if_splits)
    qed
    note eq = this
    have "take_off (a # ss) counts = take_off ss ?c" using False by (simp add: Let_def)
    then show ?thesis using Cons.IH [of ?c] eq by (simp only:)
  qed
qed simp

lemma take_off_Some: "take_off ss counts = Some c \<Longrightarrow> c s = counts s - int (count_list ss s)"
  by (induction ss arbitrary: counts) (auto simp: Let_def split: if_splits)

lemma equal_change_sets_count:
  "equal_change_sets a b \<longleftrightarrow> mset (map change_signature a) = mset (map change_signature b)"
proof -
  let ?sa = "map change_signature a" and ?sb = "map change_signature b"
  have m: "mset ?sa = mset ?sb \<longleftrightarrow> (\<forall>s. count_list ?sa s = count_list ?sb s)"
    by (simp only: multiset_eq_iff count_mset)
  show ?thesis
  proof (cases "take_off ?sb (\<lambda>s. int (count_list ?sa s))")
    case None
    then obtain s where "int (count_list ?sa s) < int (count_list ?sb s)" by (auto simp: take_off_None)
    then have "mset ?sa \<noteq> mset ?sb" unfolding m by (metis less_irrefl)
    then show ?thesis using None by (simp add: equal_change_sets_def Let_def)
  next
    case (Some c)
    have c: "c s = int (count_list ?sa s) - int (count_list ?sb s)" for s by (rule take_off_Some [OF Some])
    have "list_all (\<lambda>s. c s = 0) (?sa @ ?sb) \<longleftrightarrow> (\<forall>s. count_list ?sa s = count_list ?sb s)"
    proof
      assume l: "list_all (\<lambda>s. c s = 0) (?sa @ ?sb)"
      show "\<forall>s. count_list ?sa s = count_list ?sb s"
      proof
        fix s show "count_list ?sa s = count_list ?sb s"
        proof (cases "s \<in> set (?sa @ ?sb)")
          case True
          then show ?thesis using l c [of s] unfolding list_all_iff by fastforce
        next
          case False
          then have "s \<notin> set ?sa" "s \<notin> set ?sb" by simp_all
          then show ?thesis by (metis count_list_0_iff)
        qed
      qed
    next
      assume "\<forall>s. count_list ?sa s = count_list ?sb s"
      then show "list_all (\<lambda>s. c s = 0) (?sa @ ?sb)" by (simp add: list_all_iff c)
    qed
    moreover have "mset ?sa = mset ?sb \<Longrightarrow> length a = length b" by (metis length_map mset_eq_length)
    ultimately show ?thesis using Some m by (auto simp: equal_change_sets_def Let_def)
  qed
qed

text \<open>The counting loop decides whether two change sets have the same signatures, each as often.\<close>

theorem equal_change_sets_iff:
  "equal_change_sets a b \<longleftrightarrow> mset (map change_signature a) = mset (map change_signature b)"
  by (rule equal_change_sets_count)

lemma equal_sets_same:
  assumes "equal_change_sets cs cs'" "list_all plain_change cs" "list_all plain_change cs'"
  shows "set cs = set cs'"
proof -
  have sub: "set xs \<subseteq> set ys"
    if "mset (map change_signature xs) = mset (map change_signature ys)" "list_all plain_change xs" "list_all plain_change ys" for xs ys
  proof
    fix c assume c: "c \<in> set xs"
    then have "change_signature c \<in> set (map change_signature ys)" using that(1) by (metis image_eqI image_set mset_eq_setD)
    then obtain c' where "c' \<in> set ys" "change_signature c = change_signature c'" by auto
    then show "c \<in> set ys" using signature_inj [of c c'] c that(2,3) by (auto simp: list_all_iff)
  qed
  have "mset (map change_signature cs) = mset (map change_signature cs')" using assms(1) by (simp only: equal_change_sets_count)
  then show ?thesis using sub assms(2,3) by (metis subset_antisym)
qed

lemma delta_determines:
  assumes "delta A B cs" "delta A B' cs'" "set cs = set cs'"
  shows "B p = B' p"
proof (cases "p \<in> change_path_set cs")
  case True
  then obtain c where c: "c \<in> set cs" "p \<noteq> []" "p = from_name c \<or> p = to_name c" by (auto simp: path_set_cases)
  show ?thesis
  proof (cases "p = to_name c")
    case True
    then show ?thesis using c assms unfolding delta_def by metis
  next
    case False
    then have "departs c" "p = from_name c" using c by (auto simp: departs_def)
    then show ?thesis using c assms unfolding delta_def by metis
  qed
next
  case False
  moreover have "p \<notin> change_path_set cs'" using False assms(3) by (simp add: change_path_set_def)
  ultimately show ?thesis using assms(1,2) unfolding delta_def by metis
qed

text \<open>The gate of the replay is sound: two change sets from one tree that it takes for equal lead to the same
  tree, entry by entry, when no path contains a bar or a greater-than sign.\<close>

theorem equal_change_sets_same_tree:
  assumes "delta A B cs" "delta A B' cs'" "equal_change_sets cs cs'"
    and "list_all plain_change cs" "list_all plain_change cs'"
  shows "B = B'"
  using delta_determines [OF assms(1,2) equal_sets_same [OF assms(3-5)]] by (rule ext)

section \<open>Rebasing on flat trees\<close>

datatype rebase_refusal = UpstreamChanged "string list" | FileAndDirectory "string list"

text \<open>The checks and the application of one commit: whether it is kept, and the tree after it.\<close>

definition rebase_step :: "change list \<Rightarrow> flat \<Rightarrow> rebase_refusal + bool \<times> flat" where
  "rebase_step cs fl =
     (if cs \<noteq> [] \<and> already_applied cs fl then Inr (False, fl)
      else if upstream_overlap cs fl \<noteq> [] then Inl (UpstreamChanged (upstream_overlap cs fl))
      else let fl1 = apply_changes cs fl in
        if path_clashes fl1 \<noteq> [] then Inl (FileAndDirectory (path_clashes fl1)) else Inr (True, fl1))"

lemma already_applied_cells:
  assumes "delta A B cs" "already_applied cs fl" "p \<in> change_path_set cs"
  shows "cell fl p = B p"
proof -
  obtain c where c: "c \<in> set cs" "p \<noteq> []" "p = from_name c \<or> p = to_name c" using assms(3) by (auto simp: path_set_cases)
  show ?thesis
  proof (cases "p = to_name c")
    case True
    then have "entry_is (map_of fl p) (ch_to c)" using assms(2) c by (auto simp: already_applied_def list_all_iff)
    moreover have "B p = side (ch_to c)" using assms(1) c True by (auto simp: delta_def)
    ultimately show ?thesis by (simp add: entry_is_cell)
  next
    case False
    then have d: "departs c" "p = from_name c" using c by (auto simp: departs_def)
    then have "map_of fl p = None" using assms(2) c(1) by (auto simp: already_applied_def list_all_iff)
    moreover have "B p = None" using assms(1) c(1) d by (auto simp: delta_def)
    ultimately show ?thesis by (simp add: cell_def)
  qed
qed

lemma sorted_path_set_empty: "sorted_path_set ks = [] \<longleftrightarrow> ks = []"
  by (simp add: sorted_path_set_def)

lemma no_overlap_cells:
  assumes "delta A B cs" "upstream_overlap cs fl = []" "p \<in> change_path_set cs"
  shows "cell fl p = A p"
proof -
  obtain c where c: "c \<in> set cs" "p \<noteq> []" "p = from_name c \<or> p = to_name c" using assms(3) by (auto simp: path_set_cases)
  have no: "overlap_of fl c = []" using assms(2) c(1) by (auto simp: upstream_overlap_def sorted_path_set_empty)
  show ?thesis
  proof (cases "p = from_name c")
    case True
    then have "entry_is (map_of fl p) (ch_from c)" using no c(2) by (auto simp: overlap_of_def split: if_splits)
    moreover have "A p = side (ch_from c)" using assms(1) c True by (auto simp: delta_def)
    ultimately show ?thesis by (simp add: entry_is_cell)
  next
    case False
    then have "map_of fl p = None" "p = to_name c" using no c(2,3) by (auto simp: overlap_of_def split: if_splits)
    moreover have "A p = None" using assms(1) c False by (auto simp: delta_def)
    ultimately show ?thesis by (simp add: cell_def)
  qed
qed

lemma rebase_step_cells:
  assumes "delta A B cs" "rebase_step cs fl = Inr (kept, fl')"
  shows "cell fl' p = (if p \<in> change_path_set cs then B p else cell fl p)"
    and "kept \<Longrightarrow> p \<in> change_path_set cs \<Longrightarrow> cell fl p = A p"
proof -
  have c: "(already_applied cs fl \<and> fl' = fl \<and> \<not> kept) \<or> (upstream_overlap cs fl = [] \<and> fl' = apply_changes cs fl \<and> kept)"
    using assms(2) by (auto simp: rebase_step_def Let_def split: if_splits)
  then show "cell fl' p = (if p \<in> change_path_set cs then B p else cell fl p)"
  proof (elim disjE conjE)
    assume "already_applied cs fl" "fl' = fl"
    then show ?thesis using already_applied_cells [OF assms(1)] by simp
  next
    assume "fl' = apply_changes cs fl"
    then show ?thesis using delta_applied_path [OF assms(1)] by simp
  qed
  assume "kept" "p \<in> change_path_set cs"
  then show "cell fl p = A p" using c no_overlap_cells [OF assms(1)] by blast
qed

fun rebase_chain :: "change list list \<Rightarrow> flat \<Rightarrow> rebase_refusal + flat" where
  "rebase_chain [] fl = Inr fl"
| "rebase_chain (cs # css) fl =
     (case rebase_step cs fl of Inl r \<Rightarrow> Inl r | Inr (_, fl1) \<Rightarrow> rebase_chain css fl1)"

text \<open>The change sets of a line of commits, from one tree to another.\<close>

fun deltas :: "(string \<Rightarrow> (file_mode \<times> hash) option) \<Rightarrow> change list list \<Rightarrow> (string \<Rightarrow> (file_mode \<times> hash) option) \<Rightarrow> bool" where
  "deltas A [] H \<longleftrightarrow> A = H"
| "deltas A (cs # css) H \<longleftrightarrow> (\<exists>B. delta A B cs \<and> deltas B css H)"

lemma rebase_chain_cells:
  assumes "deltas A css H" "rebase_chain css fl = Inr fl'"
  shows "cell fl' p = (if p \<in> (\<Union>cs \<in> set css. change_path_set cs) then H p else cell fl p) \<and>
    (p \<notin> (\<Union>cs \<in> set css. change_path_set cs) \<longrightarrow> A p = H p)"
  using assms
proof (induction css arbitrary: A fl)
  case Nil
  then show ?case by simp
next
  case (Cons cs css)
  obtain B where B: "delta A B cs" "deltas B css H" using Cons.prems(1) by auto
  obtain kept fl1 where f: "rebase_step cs fl = Inr (kept, fl1)" "rebase_chain css fl1 = Inr fl'"
    using Cons.prems(2) by (auto split: sum.splits)
  note ih = Cons.IH [OF B(2) f(2)]
  note st = rebase_step_cells(1) [OF B(1) f(1), of p]
  have "p \<notin> change_path_set cs \<Longrightarrow> A p = B p" using B(1) by (auto simp: delta_def)
  then show ?case using ih st by auto
qed

text \<open>A rebase that is not refused keeps both sides: a path some local commit changes ends as in our HEAD, and any
  other path, which our HEAD has as it branched off, ends as upstream has it.\<close>

theorem rebase_keeps_both_sides:
  assumes "deltas base css head" "rebase_chain css upstream = Inr fl"
  shows "\<forall>p. (if p \<in> (\<Union>cs \<in> set css. change_path_set cs) then cell fl p = head p
      else cell fl p = cell upstream p \<and> base p = head p)"
proof
  fix p
  show "if p \<in> (\<Union>cs \<in> set css. change_path_set cs) then cell fl p = head p else cell fl p = cell upstream p \<and> base p = head p"
    using rebase_chain_cells [OF assms, of p] by (cases "p \<in> (\<Union>cs \<in> set css. change_path_set cs)") simp_all
qed

definition demo_entry :: "string \<Rightarrow> hash \<Rightarrow> change_entry" where
  "demo_entry n h = \<lparr>ce_name = n, ce_mode = 33188, ce_hash = h\<rparr>"

definition demo_changes :: "change list" where
  "demo_changes =
     [\<lparr>ch_from = demo_entry ''a'' ''1'', ch_to = demo_entry ''a'' ''2''\<rparr>, \<lparr>ch_from = no_entry, ch_to = demo_entry ''b'' ''3''\<rparr>]"

definition demo_old :: flat where
  "demo_old = [(''a'', \<lparr>te_name = ''a'', te_mode = 33188, te_hash = ''1''\<rparr>), (''c'', \<lparr>te_name = ''c'', te_mode = 33188, te_hash = ''1''\<rparr>)]"

definition demo_upstream :: flat where
  "demo_upstream = [(''a'', \<lparr>te_name = ''a'', te_mode = 33188, te_hash = ''1''\<rparr>), (''c'', \<lparr>te_name = ''c'', te_mode = 33188, te_hash = ''9''\<rparr>)]"

lemma demo_cells:
  "cell demo_old p = (if p = ''a'' \<or> p = ''c'' then Some (33188, ''1'') else None)"
  "cell (apply_changes demo_changes demo_old) p =
     (if p = ''a'' then Some (33188, ''2'') else if p = ''b'' then Some (33188, ''3'') else if p = ''c'' then Some (33188, ''1'') else None)"
  by (simp_all add: demo_old_def cell_apply demo_changes_def apply_changes_def demo_entry_def no_entry_def departs_def)
    (simp_all add: cell_def)

lemma demo_delta: "delta (cell demo_old) (cell (apply_changes demo_changes demo_old)) demo_changes"
proof -
  have "change_path_set demo_changes = {''a'', ''b''}" by (auto simp: change_path_set_def demo_changes_def demo_entry_def no_entry_def)
  then show ?thesis
    unfolding delta_def demo_cells by (auto simp: demo_changes_def demo_entry_def no_entry_def departs_def)
qed

theorem rebase_keeps_both_sides_witness:
  "rebase_chain [demo_changes] demo_upstream = Inr (apply_changes demo_changes demo_upstream) \<and>
   (\<forall>p. if p \<in> change_path_set demo_changes then cell (apply_changes demo_changes demo_upstream) p = cell (apply_changes demo_changes demo_old) p
      else cell (apply_changes demo_changes demo_upstream) p = cell demo_upstream p \<and> cell demo_old p = cell (apply_changes demo_changes demo_old) p)"
proof
  show r: "rebase_chain [demo_changes] demo_upstream = Inr (apply_changes demo_changes demo_upstream)" by code_simp
  have "deltas (cell demo_old) [demo_changes] (cell (apply_changes demo_changes demo_old))" using demo_delta by auto
  from rebase_keeps_both_sides [OF this r]
  show "\<forall>p. if p \<in> change_path_set demo_changes then cell (apply_changes demo_changes demo_upstream) p = cell (apply_changes demo_changes demo_old) p
      else cell (apply_changes demo_changes demo_upstream) p = cell demo_upstream p \<and> cell demo_old p = cell (apply_changes demo_changes demo_old) p"
    by simp
qed

lemma authorized_cell:
  assumes "delta P L source" "authorized source p = Some want"
  shows "L p = side want"
proof -
  have "(p, want) \<in> set (rev (map (\<lambda>c. (to_name c, ch_to c)) (filter (\<lambda>c. to_name c \<noteq> []) source)))"
    using assms(2) unfolding authorized_def by (rule map_of_SomeD)
  then show ?thesis using assms(1) by (auto simp: delta_def)
qed

text \<open>The containment gate of a commit replayed onto a moved tip: where the new tree differs from the tip it holds
  what the source commit holds, on a path the source commit changes.\<close>

theorem containment_sound:
  assumes "delta P L source" "delta T N replayed" "verify_containment source replayed = None"
  shows "N p = T p \<or> (N p = L p \<and> p \<in> change_path_set source)"
proof (cases "N p = T p")
  case False
  then have "p \<in> change_path_set replayed" using assms(2) by (auto simp: delta_def)
  then obtain c where c: "c \<in> set replayed" "p \<noteq> []" "p = from_name c \<or> p = to_name c" by (auto simp: path_set_cases)
  have v: "containment_violations source c = []" using assms(3) c(1) by (auto simp: verify_containment_def Let_def split: if_splits)
  show ?thesis
  proof (cases "p = to_name c")
    case True
    then obtain want where w: "authorized source p = Some want" "ce_hash want = ce_hash (ch_to c)" "ce_mode want = ce_mode (ch_to c)"
      using v c(2) by (auto simp: containment_violations_def split: option.splits if_splits)
    have "N p = side (ch_to c)" using assms(2) c True by (auto simp: delta_def)
    moreover have "L p = side want" using assms(1) w(1) by (rule authorized_cell)
    moreover have "p \<in> change_path_set source"
      using map_of_SomeD [OF w(1) [unfolded authorized_def]] c(2) by (auto simp: path_set_cases)
    ultimately show ?thesis using w by simp
  next
    case False
    then have d: "departs c" "p = from_name c" using c by (auto simp: departs_def)
    then have "departed source p" using v c(2) by (auto simp: containment_violations_def split: if_splits)
    then obtain c' where c': "c' \<in> set source" "departs c'" "from_name c' = p" by (auto simp: departed_def list_ex_iff)
    then have "L p = None" using assms(1) by (auto simp: delta_def)
    moreover have "N p = None" using assms(2) c(1) d by (auto simp: delta_def)
    moreover have "p \<in> change_path_set source" using c' c(2) by (auto simp: path_set_cases)
    ultimately show ?thesis by simp
  qed
qed simp

theorem containment_sound_witness:
  "cell (apply_changes demo_changes demo_old) ''a'' = cell demo_old ''a'' \<or>
   (cell (apply_changes demo_changes demo_old) ''a'' = cell (apply_changes demo_changes demo_old) ''a'' \<and> ''a'' \<in> change_path_set demo_changes)"
proof (rule containment_sound [OF demo_delta demo_delta])
  show "verify_containment demo_changes demo_changes = None"
    by (simp add: verify_containment_def containment_violations_def authorized_def departs_def demo_changes_def demo_entry_def no_entry_def)
qed

lemma demo_plain: "list_all plain_change demo_changes"
  by code_simp

lemma demo_rev_cells:
  "cell (apply_changes (rev demo_changes) demo_old) p =
     (if p = ''a'' then Some (33188, ''2'') else if p = ''b'' then Some (33188, ''3'') else if p = ''c'' then Some (33188, ''1'') else None)"
  by (simp add: demo_old_def cell_apply demo_changes_def apply_changes_def demo_entry_def no_entry_def departs_def)
    (simp add: cell_def)

theorem equal_change_sets_same_tree_witness:
  "cell (apply_changes demo_changes demo_old) = cell (apply_changes (rev demo_changes) demo_old)"
proof (rule equal_change_sets_same_tree [OF demo_delta _ _ demo_plain])
  show "delta (cell demo_old) (cell (apply_changes (rev demo_changes) demo_old)) (rev demo_changes)"
    using demo_delta unfolding delta_def demo_cells demo_rev_cells change_path_set_def set_rev .
  show "equal_change_sets demo_changes (rev demo_changes)" by (simp add: equal_change_sets_count rev_map [symmetric])
  show "list_all plain_change (rev demo_changes)" using demo_plain by (simp add: list_all_iff)
qed

lemma delta_transplant:
  assumes "delta P L cs" "upstream_overlap cs fl = []"
  shows "delta (cell fl) (cell (apply_changes cs fl)) cs"
proof -
  have f: "cell fl p = P p" if "p \<in> change_path_set cs" for p using assms that by (rule no_overlap_cells)
  have a: "cell (apply_changes cs fl) p = (if p \<in> change_path_set cs then L p else cell fl p)" for p
    by (rule delta_applied_path [OF assms(1)])
  have m: "c \<in> set cs \<Longrightarrow> from_name c \<noteq> [] \<Longrightarrow> from_name c \<in> change_path_set cs"
    "c \<in> set cs \<Longrightarrow> to_name c \<noteq> [] \<Longrightarrow> to_name c \<in> change_path_set cs" for c
    by (auto simp: path_set_cases)
  show ?thesis
    unfolding delta_def
  proof (intro conjI ballI allI impI)
    fix c assume c: "c \<in> set cs"
    show "cell fl (from_name c) = side (ch_from c)" if "from_name c \<noteq> []"
      using assms(1) c that f [OF m(1) [OF c that]] by (simp add: delta_def)
    show "cell (apply_changes cs fl) (to_name c) = side (ch_to c)" if "to_name c \<noteq> []"
      using assms(1) c that a m(2) [OF c that] by (simp add: delta_def)
    show "cell (apply_changes cs fl) (from_name c) = None" if "departs c"
      using assms(1) c that a m(1) [OF c] by (simp add: delta_def departs_def)
    show "cell fl (to_name c) = None" if "to_name c \<noteq> [] \<and> to_name c \<noteq> from_name c"
      using assms(1) c that f [OF m(2) [OF c]] by (simp add: delta_def)
  next
    fix p assume "cell fl p \<noteq> cell (apply_changes cs fl) p"
    then show "p \<in> change_path_set cs" using a [of p] by (auto split: if_splits)
  qed
qed

end
