(* ===== verification/Spec2Isabelle.thy ===== *)
theory Spec2Isabelle
  imports Target_Match Retention CI_State Version_Scheme Flux_Graph Build_Graph Severity Runtime_Lifecycle Cas Sync_Total File_Policy Lint_Engine Lint_Remediate Lint_Baseline Lint_Evict Upstream_Releases Upstream_Lock Unpack Gitlab_Schedules Push_Run Commit_Delta
begin

text \<open>
  StageFreight is a release and maintenance tool for repositories: one Go program, run in CI and by hand,
  that builds and publishes what a repository declares, keeps forks and pins in step with their
  upstreams, lints, prunes and reports. This library models the parts that decide: what is
  selected, ordered, kept, merged, extracted or refused. The parts that only talk (HTTP clients of forges
  and registries, external build and signing tools, rendered pages, the command line) are not
  modelled; the list is at the end.

  \<^bold>\<open>How the parts work together.\<close> A run is planned from the configuration. Conditions under
  \<^verbatim>\<open>when:\<close> decide which targets and notifications apply (Patterns, Target_Match); the build and
  perform graphs order the work (Build_Graph); the runtime takes each backend through its phases and cleans
  up (Runtime_Lifecycle); what is built is stored by digest (Cas) and extracted again where it is
  published (Unpack); every step records its outcome in the pipeline ledger, whose status decides the run
  (CI_State). The retention engine then deletes what its rules no longer keep (Retention). On the
  maintenance side, the watcher lists an upstream, compares it with our tags and pins
  (Upstream_Releases, Upstream_Lock), and a sync joins its commits into our branch by merging trees
  and texts under the file policy (Upstream_Sync over Merge_Tree, Merge_Text, Git_Tree and File_Policy).
  Findings of the lint engine and of vulnerability scans are compared with severities and a
  baseline and gate the run (Lint_Engine, Lint_Gate, Lint_Baseline, Severity), and the fixes they
  carry are written back (Lint_Remediate). The declared schedules say when a run starts by itself
  (Schedules); where the forge keeps them as its own state, a run converges that state
  (Schedule_Reconcile, Gitlab_Schedules). What a commit or an operator pushes is planned from the
  state of the repository relative to its destination (Push_Plan) and run against it (Push_Run); a commit that
  has to move onto a changed branch is carried over as its change set (Commit_Delta).

  \<^bold>\<open>Theories, by layer.\<close>

  \<^item> SF_Prelude: Go's string primitives on byte strings, decimal numerals, sorting with a
    comparator (\<^verbatim>\<open>sort.Slice\<close>), results as sums. The locale \<open>comparator\<close> states what a \<open>less\<close> must
    satisfy; every comparator of the program interprets it.
  \<^item> Go_Regexp, Go_Replace: the regexp package as a record of operations, its laws on anchored
    templates (locale \<open>regexp_engine\<close>), and an executable backtracking engine that interprets them, so
    that witnesses run. Go_Time, Go_Rfc3339, Units: instants, the calendar, timestamps, durations and sizes
    with 64-bit wrap-around. Go_Path, Go_Glob: \<^verbatim>\<open>filepath.Clean\<close>, \<^verbatim>\<open>Join\<close>, \<^verbatim>\<open>Dir\<close> and \<^verbatim>\<open>Match\<close>.
  \<^item> Patterns, Target_Match: \<^verbatim>\<open>config/match.go\<close> and \<^verbatim>\<open>config/target_match.go\<close>, \<^verbatim>\<open>event.go\<close>: include and
    exclude patterns, conditions, the eligibility of targets and of notifications.
  \<^item> Retention_Template, Retention_Policy, Retention: \<^verbatim>\<open>retention/pattern.go\<close>, \<^verbatim>\<open>retention.go\<close> and
    \<^verbatim>\<open>config/retention.go\<close>: tag templates and the series they define, keep rules by count, age and
    calendar bucket, and the deletion loop with its store-wide failures.
  \<^item> CI_State: \<^verbatim>\<open>cistate\<close>: the ledger, upserts, shards, facts and the aggregate status.
  \<^item> Kahn, Flux_Graph, Build_Graph: one topological loop with the four variants the program writes out
    (locale \<open>kahn_graph\<close>), and the routines it is shown equal to: \<^verbatim>\<open>gitops/graph.go\<close>, \<^verbatim>\<open>impact.go\<close>,
    \<^verbatim>\<open>build/graph.go\<close>, \<^verbatim>\<open>build/perform_graph.go\<close>.
  \<^item> Severity: \<^verbatim>\<open>vulnerability/severity\<close>. Runtime_Lifecycle: \<^verbatim>\<open>runtime\<close> and \<^verbatim>\<open>config/mode.go\<close>, the
    state a phase leaves and the registered cleanups. Cas: \<^verbatim>\<open>cas\<close>, a store of directories named by
    their digest, with the locale \<open>artifact_store\<close> for its contract.
  \<^item> Unpack_Fs, Unpack: the file system calls of \<^verbatim>\<open>unpack/unpack.go\<close> on a tree with symbolic links,
    resolved as the kernel does, and the two extractors over them.
  \<^item> Version_Scheme, Upstream_Releases, Upstream_Lock: \<^verbatim>\<open>upstream/scheme\<close>, \<^verbatim>\<open>upstream.go\<close>,
    \<^verbatim>\<open>lock.go\<close>: versions and their orders (locale \<open>version_order\<close>), releases and claims (locale
    \<open>ordered_scheme\<close>), the first-sighting clock (locale \<open>clock\<close>).
  \<^item> Git_Tree, Merge_Text, Merge_Tree, Upstream_Sync, Sync_Total, File_Policy: \<^verbatim>\<open>gitstate/tree.go\<close>,
    \<^verbatim>\<open>upstream/merge\<close> and \<^verbatim>\<open>upstream/sync.go\<close>: trees as flat maps and back, three-way merges, the three
    strategies of a sync and its termination.
  \<^item> Lint_Gate, Lint_Provenance, Lint_Engine, Lint_Remediate, Lint_Baseline, Lint_Evict: \<^verbatim>\<open>lint\<close>: findings
    and the gate, which files are authored, module selection and the result cache, fixes, the
    baseline, the bounds of the cache.
  \<^item> Schedules, Schedule_Reconcile, Schedule_Converge, Gitlab_Schedules: \<^verbatim>\<open>config/schedules.go\<close>,
    \<^verbatim>\<open>cli/cmd/schedules_reconcile.go\<close> and \<^verbatim>\<open>forge/schedules.go\<close>: cron expressions, the cadences a forge is
    given, the plan and its execution against a forge that may fail, its convergence, and the
    GitLab client.
  \<^item> Push_Plan, Push_Run: \<^verbatim>\<open>gitplan\<close>, the state reader, state classes and session of \<^verbatim>\<open>gitstate\<close>,
    \<^verbatim>\<open>commit/engine_plan.go\<close>, \<^verbatim>\<open>engine_execute.go\<close> and the commands above them: a situation becomes a plan,
    whose confirmations come before what they are for, and a plan is run. Commit_Delta: the change sets of
    replayed commits (\<^verbatim>\<open>commit/gogit_replay.go\<close>, \<^verbatim>\<open>gogit_replay_checkout.go\<close>, \<^verbatim>\<open>replay_onto.go\<close>).

  \<^bold>\<open>Correspondence.\<close> Definitions carry the names of the functions they translate, in lower case with
  underscores (\<open>plan_sync\<close> is \<^verbatim>\<open>PlanSync\<close>); a struct is a record whose fields have a prefix. A loop is
  a recursion on its list, with its variables as arguments; a \<open>fold\<close> over a map visits a list
  that stands for any order. An early return, an error and a panic are branches: a sum whose left side is
  the error, \<^const>\<open>None\<close> where Go panics or has no value. State is passed explicitly; a call that fails
  half way returns the state it leaves (Unpack_Fs, Retention). A Go \<^verbatim>\<open>int\<close> that can overflow is
  wrapped at 64 bits (Units); lengths and counters that cannot are natural numbers or integers.

  \<^bold>\<open>What the lemmas show.\<close> Each component first has its invariant and what every operation does on each
  branch, then the properties that rest on them. Selection: which targets, releases, modules and
  files are taken, as an equivalence with their conditions. Safety: protected items survive
  retention, extraction stays inside its destination, a sync contains both sides or reports a
  conflict, a build follows its dependencies. Round trips: trees flattened and written, the ledger
  written and read, an artifact stored and resolved. Refinement: the merged tree decides every path as
  the three-way rule says, \<open>hold_files\<close> keeps the fork's entries, the status loop computes its
  specification. Termination: every function is total; a sync, whose database is an argument, ends
  under the stated ranks. Several properties state a defect of the code as it is (the text before them
  says so), and the manifest lists them with the place in the source.

  \<^bold>\<open>Locales.\<close> \<open>comparator\<close>, \<open>version_order\<close>, \<open>ordered_scheme\<close>, \<open>kahn_graph\<close>, \<open>artifact_store\<close>,
  \<open>regexp_engine\<close> and \<open>clock\<close> are the contracts between components; each is interpreted on the
  definitions that model the code, and the properties use the interpreted facts. \<open>forge_frame\<close> and
  \<open>live_forge\<close> are what the schedule reconcile needs of a forge: the GitLab client meets them (a
  \<^verbatim>\<open>sublocale\<close>) over any service that keeps \<open>gitlab_frame\<close> and \<open>gitlab_rest\<close>, the documented behaviour of
  the endpoints, and a service in memory interprets those.

  \<^bold>\<open>Bounds and termination.\<close> No definition runs on fuel. Flattening a tree and walking our commits are
  partial functions, \<^const>\<open>None\<close> when they never return, because the object database is an argument; Sync_Total
  shows that they return when no tree contains itself and no commit is its own ancestor. Every other
  function is total, with a measure where the recursion is not structural. A repetition in Go_Regexp takes
  at most as many steps as there is text, since each must advance. A path is resolved through at
  most 40 symbolic links, as on Linux.

  \<^bold>\<open>Arguments of the model.\<close> Code outside the repository is an argument: the regexp engine (with the
  executable instance), the semver package, the diff of two texts (go-diff), the object database and
  commit graph (go-git), SHA-256, the YAML, JSON and archive decoders, the lint modules, the
  lifecycle backends and the stores of the retention engine. What is needed of them is a named
  hypothesis or a locale law.

  \<^bold>\<open>Not modelled.\<close> The command line and terminal output; the clients of forges, registries, Docker and
  Kubernetes; the build engines, signing and secret tools, Ansible and test runners, which drive
  external processes; the text of CI pipelines, badges, pages and release notes; the YAML decoding,
  presets and validation of the configuration; dependency discovery over the network. Concurrency
  (parallel lint workers, directory walks) is not modelled: tasks run in the order of their list.
\<close>

end
